(* ===== verification/Prelude.thy ===== *)
theory Prelude
  imports Main "HOL-Library.Word" "HOL-Library.AList" "HOL-Library.Sublist"
begin

section \<open>Shared vocabulary of the development\<close>

text \<open>
  The types and combinators every component uses:
  \<^item> \<open>byte\<close> is Rust's \<open>u8\<close>, \<open>bytes\<close> is \<open>ByteVector\<close> (\<open>Vec<u8>\<close>);
  \<^item> \<open>('e, 'a) res\<close> is \<open>Result<'a, 'e>\<close> together with the possibility of a panic: a
    failed \<open>assert!\<close>, an \<open>unwrap\<close> of \<open>None\<close> or an out-of-range index is
    \<open>Inl (Panic msg)\<close>, a returned \<open>Err e\<close> is \<open>Inl (Err e)\<close>;
  \<^item> \<open>('k, 'v) hmap\<close> is a \<open>HashMap\<close>, \<open>BTreeMap\<close> or \<open>DashMap\<close>: an association list with
    distinct keys whose order stands for the order in which the map is iterated;
  \<^item> \<open>remove_nth\<close> is \<open>Vec::remove\<close>.
  The simplification rules below are the ones the component proofs rely on.
\<close>

named_theorems res_simps \<open>unfolding of the result combinators\<close>
named_theorems hmap_simps \<open>lookups in updated association lists\<close>

type_synonym byte = "8 word"
type_synonym bytes = "byte list"

subsection \<open>Results and panics\<close>

datatype 'e fault = Panic string | Err 'e

type_synonym ('e, 'a) res = "'e fault + 'a"

definition rbind :: "('e, 'a) res \<Rightarrow> ('a \<Rightarrow> ('e, 'b) res) \<Rightarrow> ('e, 'b) res" where
  "rbind r f = (case r of Inl e \<Rightarrow> Inl e | Inr x \<Rightarrow> f x)"

lemma rbind_simps [simp, res_simps]:
  "rbind (Inl e) f = Inl e"
  "rbind (Inr x) f = f x"
  by (simp_all add: rbind_def)

lemma rbind_assoc [res_simps]: "rbind (rbind r f) g = rbind r (\<lambda>x. rbind (f x) g)"
  by (cases r) simp_all

lemma rbind_eq_Inr [simp]: "rbind r f = Inr y \<longleftrightarrow> (\<exists>x. r = Inr x \<and> f x = Inr y)"
  by (cases r) simp_all

lemma rbind_cong [fundef_cong]:
  "r = r' \<Longrightarrow> (\<And>x. r' = Inr x \<Longrightarrow> f x = g x) \<Longrightarrow> rbind r f = rbind r' g"
  by (cases r') simp_all

text \<open>An error of one layer turned into an error of the layer above (\<open>From\<close> and \<open>?\<close>).\<close>

definition map_err :: "('e \<Rightarrow> 'f) \<Rightarrow> ('e, 'a) res \<Rightarrow> ('f, 'a) res" where
  "map_err f r = (case r of
     Inl (Panic m) \<Rightarrow> Inl (Panic m)
   | Inl (Err e) \<Rightarrow> Inl (Err (f e))
   | Inr x \<Rightarrow> Inr x)"

lemma map_err_simps [simp, res_simps]:
  "map_err f (Inl (Panic m)) = Inl (Panic m)"
  "map_err f (Inl (Err e)) = Inl (Err (f e))"
  "map_err f (Inr x) = Inr x"
  by (simp_all add: map_err_def)

lemma map_err_eq_Inr [simp]: "map_err f r = Inr x \<longleftrightarrow> r = Inr x"
  by (auto simp: map_err_def split: sum.splits fault.splits)

text \<open>A \<open>for\<close> loop whose body may fail: it stops at the first failure.\<close>

fun fold_res :: "('s \<Rightarrow> 'a \<Rightarrow> ('e, 's) res) \<Rightarrow> 's \<Rightarrow> 'a list \<Rightarrow> ('e, 's) res" where
  "fold_res f s [] = Inr s"
| "fold_res f s (x # xs) = rbind (f s x) (\<lambda>s'. fold_res f s' xs)"

lemma fold_res_append [simp]:
  "fold_res f s (xs @ ys) = rbind (fold_res f s xs) (\<lambda>s'. fold_res f s' ys)"
  by (induction xs arbitrary: s) (auto simp: rbind_assoc)

lemma fold_res_Inr:
  assumes "\<And>s x. x \<in> set xs \<Longrightarrow> P s \<Longrightarrow> f s x = Inr (g s x) \<and> P (g s x)" and "P s"
  shows "fold_res f s xs = Inr (foldl g s xs)"
  using assms by (induction xs arbitrary: s) auto

subsection \<open>Stateful computations that may fail\<close>

text \<open>
  A method with interior mutability: it takes the state and returns its result together
  with the state it leaves behind, also when the result is a failure (what was written
  before the failure stays written).
\<close>

type_synonym ('s, 'e, 'a) sm = "'s \<Rightarrow> ('e, 'a) res \<times> 's"

definition sret :: "'a \<Rightarrow> ('s, 'e, 'a) sm" where
  "sret x = (\<lambda>s. (Inr x, s))"

definition sfail :: "'e fault \<Rightarrow> ('s, 'e, 'a) sm" where
  "sfail e = (\<lambda>s. (Inl e, s))"

definition sbind :: "('s, 'e, 'a) sm \<Rightarrow> ('a \<Rightarrow> ('s, 'e, 'b) sm) \<Rightarrow> ('s, 'e, 'b) sm" where
  "sbind m f = (\<lambda>s. case m s of (Inl e, s') \<Rightarrow> (Inl e, s') | (Inr x, s') \<Rightarrow> f x s')"

text \<open>A pure fallible computation used inside a stateful one.\<close>

definition slift :: "('e, 'a) res \<Rightarrow> ('s, 'e, 'a) sm" where
  "slift r = (\<lambda>s. (r, s))"

lemma sm_simps [simp, res_simps]:
  "sret x s = (Inr x, s)"
  "sfail e s = (Inl e, s)"
  "slift r s = (r, s)"
  by (simp_all add: sret_def sfail_def slift_def)

lemma sbind_apply [res_simps]:
  "m s = (Inl e, s') \<Longrightarrow> sbind m f s = (Inl e, s')"
  "m s = (Inr x, s') \<Longrightarrow> sbind m f s = f x s'"
  by (simp_all add: sbind_def)

lemma sbind_simps [simp]:
  "sbind (sret x) f = f x"
  "sbind (sfail e) f = sfail e"
  "sbind (slift (Inr x)) f = f x"
  "sbind (slift (Inl e)) f = sfail e"
  by (simp_all add: sbind_def sret_def sfail_def slift_def fun_eq_iff)

lemma sbind_cong [fundef_cong]:
  "m = m' \<Longrightarrow> (\<And>x. f x = g x) \<Longrightarrow> sbind m f = sbind m' g"
  by (rule arg_cong2 [of m m' f g sbind]) auto

text \<open>
  Running every computation of a list, in order, and keeping all results: the model of a
  parallel \<open>map\<close> over tasks that share the state. \<open>collect_results\<close> is what the caller
  does with them: a panic of any task is propagated, otherwise the first error is returned.
\<close>

fun run_all :: "('a \<Rightarrow> ('s, 'e, 'b) sm) \<Rightarrow> 'a list \<Rightarrow> 's \<Rightarrow> ('e, 'b) res list \<times> 's" where
  "run_all f [] s = ([], s)"
| "run_all f (x # xs) s =
     (let (r, s') = f x s; (rs, s'') = run_all f xs s' in (r # rs, s''))"

lemma run_all_cong [fundef_cong]:
  "xs = ys \<Longrightarrow> (\<And>x. x \<in> set ys \<Longrightarrow> f x = g x) \<Longrightarrow> s = s' \<Longrightarrow> run_all f xs s = run_all g ys s'"
proof (induction ys arbitrary: xs s s')
  case (Cons y ys)
  then have "run_all f ys t = run_all g ys t" for t
    by (intro Cons.IH) auto
  with Cons.prems show ?case by simp
qed simp

fun first_panic :: "('e, 'a) res list \<Rightarrow> string option" where
  "first_panic [] = None"
| "first_panic (Inl (Panic m) # rs) = Some m"
| "first_panic (r # rs) = first_panic rs"

fun sequence_res :: "('e, 'a) res list \<Rightarrow> ('e, 'a list) res" where
  "sequence_res [] = Inr []"
| "sequence_res (r # rs) = rbind r (\<lambda>x. rbind (sequence_res rs) (\<lambda>xs. Inr (x # xs)))"

definition collect_results :: "('e, 'a) res list \<Rightarrow> ('e, 'a list) res" where
  "collect_results rs =
     (case first_panic rs of Some m \<Rightarrow> Inl (Panic m) | None \<Rightarrow> sequence_res rs)"

lemma first_panic_map_Inr [simp]: "first_panic (map Inr xs) = None"
  by (induction xs) simp_all

lemma sequence_res_map_Inr [simp]: "sequence_res (map Inr xs) = Inr xs"
  by (induction xs) simp_all

lemma collect_results_map_Inr [simp]: "collect_results (map Inr xs) = Inr xs"
  by (simp add: collect_results_def)

subsection \<open>Hash maps\<close>

type_synonym ('k, 'v) hmap = "('k \<times> 'v) list"

abbreviation hm_get :: "('k, 'v) hmap \<Rightarrow> 'k \<Rightarrow> 'v option" where
  "hm_get m k \<equiv> map_of m k"

abbreviation hm_put :: "'k \<Rightarrow> 'v \<Rightarrow> ('k, 'v) hmap \<Rightarrow> ('k, 'v) hmap" where
  "hm_put k v m \<equiv> AList.update k v m"

abbreviation hm_del :: "'k \<Rightarrow> ('k, 'v) hmap \<Rightarrow> ('k, 'v) hmap" where
  "hm_del k m \<equiv> AList.delete k m"

abbreviation hm_keys :: "('k, 'v) hmap \<Rightarrow> 'k list" where
  "hm_keys m \<equiv> map fst m"

definition hm_ok :: "('k, 'v) hmap \<Rightarrow> bool" where
  "hm_ok m \<longleftrightarrow> distinct (hm_keys m)"

lemma hm_get_put [simp, hmap_simps]: "hm_get (hm_put k v m) = (hm_get m)(k \<mapsto> v)"
  by (rule AList.update_conv')

lemma hm_get_del [simp, hmap_simps]: "hm_get (hm_del k m) = (hm_get m)(k := None)"
  by (rule AList.delete_conv')

lemma hm_ok_Nil [simp, intro]: "hm_ok []"
  by (simp add: hm_ok_def)

lemma hm_put_fresh: "k \<notin> fst ` set m \<Longrightarrow> hm_put k v m = m @ [(k, v)]"
  by (induction m) auto

lemma hm_ok_put [simp, intro]: "hm_ok m \<Longrightarrow> hm_ok (hm_put k v m)"
  by (simp add: hm_ok_def AList.distinct_update)

lemma hm_ok_del [simp, intro]: "hm_ok m \<Longrightarrow> hm_ok (hm_del k m)"
  by (simp add: hm_ok_def AList.distinct_delete)

lemma hm_entry_iff: "hm_ok m \<Longrightarrow> (k, v) \<in> set m \<longleftrightarrow> hm_get m k = Some v"
  by (auto simp: hm_ok_def map_of_eq_Some_iff)

text \<open>Removing several keys, and putting several entries, one after the other.\<close>

lemma hm_get_fold_del:
  "hm_get (fold hm_del ks m) k = (if k \<in> set ks then None else hm_get m k)"
  by (induction ks arbitrary: m) auto

lemma hm_ok_fold_del [simp, intro]: "hm_ok m \<Longrightarrow> hm_ok (fold hm_del ks m)"
  by (induction ks arbitrary: m) auto

subsection \<open>Vectors\<close>

definition remove_nth :: "nat \<Rightarrow> 'a list \<Rightarrow> 'a list" where
  "remove_nth i xs = take i xs @ drop (Suc i) xs"

lemma length_remove_nth [simp]: "i < length xs \<Longrightarrow> length (remove_nth i xs) = length xs - 1"
  by (simp add: remove_nth_def)

lemma set_remove_nth_subset: "set (remove_nth i xs) \<subseteq> set xs"
  by (auto simp: remove_nth_def dest: in_set_takeD in_set_dropD)

lemma remove_nth_0 [simp]: "remove_nth 0 (x # xs) = xs"
  by (simp add: remove_nth_def)

lemma remove_nth_Suc [simp]: "remove_nth (Suc i) (x # xs) = x # remove_nth i xs"
  by (simp add: remove_nth_def)

text \<open>\<open>Iterator::position\<close>.\<close>

fun position :: "('a \<Rightarrow> bool) \<Rightarrow> 'a list \<Rightarrow> nat option" where
  "position P [] = None"
| "position P (x # xs) = (if P x then Some 0 else map_option Suc (position P xs))"

lemma position_Some_iff:
  "position P xs = Some i \<longleftrightarrow> i < length xs \<and> P (xs ! i) \<and> (\<forall>j < i. \<not> P (xs ! j))"
proof (induction xs arbitrary: i)
  case (Cons x xs)
  then show ?case by (cases i) (auto simp: less_Suc_eq_0_disj)
qed simp

lemma position_None_iff: "position P xs = None \<longleftrightarrow> (\<forall>x \<in> set xs. \<not> P x)"
  by (induction xs) auto

lemma remove_nth_append: "remove_nth (length xs) (xs @ x # ys) = xs @ ys"
  by (simp add: remove_nth_def)

lemma find_Some_sat: "find P xs = Some x \<Longrightarrow> P x"
  by (induction xs) (auto split: if_splits)

lemma find_Some_in: "find P xs = Some x \<Longrightarrow> x \<in> set xs"
  by (induction xs) (auto split: if_splits)

subsection \<open>Orderings\<close>

datatype ordering = Less | Equal | Greater

fun reverse_ord :: "ordering \<Rightarrow> ordering" where
  "reverse_ord Less = Greater"
| "reverse_ord Equal = Equal"
| "reverse_ord Greater = Less"

definition cmp :: "'a :: linorder \<Rightarrow> 'a \<Rightarrow> ordering" where
  "cmp a b = (if a < b then Less else if a = b then Equal else Greater)"

text \<open>\<open>Ordering::then_with\<close>, and the chains of early returns on the first difference.\<close>

fun then_with :: "ordering \<Rightarrow> ordering \<Rightarrow> ordering" where
  "then_with Equal o2 = o2"
| "then_with o1 _ = o1"

lemma cmp_simps [simp]: "cmp a a = Equal" "cmp a b = Equal \<longleftrightarrow> a = b" "reverse_ord (cmp a b) = cmp b a"
  by (auto simp: cmp_def)

lemma reverse_then_with [simp]: "reverse_ord (then_with o1 o2) = then_with (reverse_ord o1) (reverse_ord o2)"
  by (cases o1) auto

lemma reverse_reverse [simp]: "reverse_ord (reverse_ord x) = x"
  by (cases x) auto

end
