(* ===== verification/KvStore.thy ===== *)
theory KvStore
  imports Prelude
begin

section \<open>Key-value stores\<close>

text \<open>
  The trait \<open>KeyValueStore\<close> (shared/src/rust/store/key_value_store.rs) and its in-memory
  implementation \<open>InMemoryKeyValueStore\<close>
  (rspace++/src/rspace/shared/in_mem_key_value_store.rs).
  The trait's default methods (\<open>contains\<close>, \<open>get_one\<close>, \<open>put_one\<close>, \<open>put_if_absent\<close>) are
  written in the source over the implementation's own \<open>get\<close> and \<open>put\<close>; the definitions
  below take these two as arguments. The locale \<open>key_value_store\<close> states what an
  implementation promises and derives what the default methods do; it is interpreted on
  the in-memory store, which is the store of the history model.
\<close>

datatype kv_store_error =
    KvKeyNotFound string
  | IoError string
  | KvSerializationError string
  | InvalidArgument string
  | LockError string

subsection \<open>The trait's default methods\<close>

definition kv_contains ::
  "('s \<Rightarrow> bytes list \<Rightarrow> (kv_store_error, bytes option list) res) \<Rightarrow>
   's \<Rightarrow> bytes list \<Rightarrow> (kv_store_error, bool list) res" where
  "kv_contains get s ks =
     rbind (get s ks) (\<lambda>results. Inr (map (\<lambda>result. \<not> Option.is_none result) results))"

definition kv_get_one ::
  "('s \<Rightarrow> bytes list \<Rightarrow> (kv_store_error, bytes option list) res) \<Rightarrow>
   's \<Rightarrow> bytes \<Rightarrow> (kv_store_error, bytes option) res" where
  "kv_get_one get s key =
     rbind (get s [key])
       (\<lambda>vals. case vals of first_value # _ \<Rightarrow> Inr first_value | [] \<Rightarrow> Inr None)"

definition kv_put_one ::
  "('s \<Rightarrow> (bytes \<times> bytes) list \<Rightarrow> (kv_store_error, 's) res) \<Rightarrow>
   's \<Rightarrow> bytes \<Rightarrow> bytes \<Rightarrow> (kv_store_error, 's) res" where
  "kv_put_one put s key v = put s [(key, v)]"

definition kv_put_if_absent ::
  "('s \<Rightarrow> bytes list \<Rightarrow> (kv_store_error, bytes option list) res) \<Rightarrow>
   ('s \<Rightarrow> (bytes \<times> bytes) list \<Rightarrow> (kv_store_error, 's) res) \<Rightarrow>
   's \<Rightarrow> (bytes \<times> bytes) list \<Rightarrow> (kv_store_error, 's) res" where
  "kv_put_if_absent get put s kv_pairs =
     (let ks = map fst kv_pairs in
      rbind (kv_contains get s ks) (\<lambda>if_absent.
        let kv_if_absent = zip kv_pairs if_absent;
            kv_absent = map fst (filter (\<lambda>(_, is_present). \<not> is_present) kv_if_absent)
        in put s kv_absent))"

subsection \<open>The in-memory store\<close>

type_synonym in_mem_store = "(bytes, bytes) hmap"

definition inmem_new :: in_mem_store where
  "inmem_new = []"

definition inmem_get :: "in_mem_store \<Rightarrow> bytes list \<Rightarrow> (kv_store_error, bytes option list) res" where
  "inmem_get s ks = Inr (map (hm_get s) ks)"

definition inmem_put :: "in_mem_store \<Rightarrow> (bytes \<times> bytes) list \<Rightarrow> (kv_store_error, in_mem_store) res" where
  "inmem_put s kv_pairs = Inr (foldl (\<lambda>m (k, v). hm_put k v m) s kv_pairs)"

fun inmem_delete_loop :: "in_mem_store \<Rightarrow> bytes list \<Rightarrow> nat \<Rightarrow> in_mem_store \<times> nat" where
  "inmem_delete_loop s [] n = (s, n)"
| "inmem_delete_loop s (k # ks) n =
     (case hm_get s k of
        None \<Rightarrow> inmem_delete_loop s ks n
      | Some _ \<Rightarrow> inmem_delete_loop (hm_del k s) ks (Suc n))"

definition inmem_delete :: "in_mem_store \<Rightarrow> bytes list \<Rightarrow> (kv_store_error, in_mem_store \<times> nat) res" where
  "inmem_delete s ks = Inr (inmem_delete_loop s ks 0)"

definition inmem_size_bytes :: "in_mem_store \<Rightarrow> nat" where
  "inmem_size_bytes s = sum_list (map (\<lambda>(k, v). length k + length v) s)"

definition inmem_non_empty :: "in_mem_store \<Rightarrow> (kv_store_error, bool) res" where
  "inmem_non_empty s = Inr (s \<noteq> [])"

definition inmem_clear :: "in_mem_store \<Rightarrow> in_mem_store" where
  "inmem_clear s = []"

definition inmem_num_records :: "in_mem_store \<Rightarrow> nat" where
  "inmem_num_records s = length s"

subsection \<open>The contract of a store\<close>

locale key_value_store =
  fixes lookup :: "'s \<Rightarrow> bytes \<Rightarrow> bytes option"
    and get :: "'s \<Rightarrow> bytes list \<Rightarrow> (kv_store_error, bytes option list) res"
    and put :: "'s \<Rightarrow> (bytes \<times> bytes) list \<Rightarrow> (kv_store_error, 's) res"
  assumes get_lookup: "get s ks = Inr (map (lookup s) ks)"
    and put_lookup: "\<exists>s'. put s kvs = Inr s' \<and> lookup s' = lookup s ++ map_of (rev kvs)"
begin

lemma contains_lookup: "kv_contains get s ks = Inr (map (\<lambda>k. lookup s k \<noteq> None) ks)"
  by (simp add: kv_contains_def get_lookup Option.is_none_def)

lemma get_one_lookup: "kv_get_one get s k = Inr (lookup s k)"
  by (simp add: kv_get_one_def get_lookup)

lemma put_one_lookup: "\<exists>s'. kv_put_one put s k v = Inr s' \<and> lookup s' = (lookup s)(k \<mapsto> v)"
  using put_lookup [of s "[(k, v)]"] by (auto simp: kv_put_one_def)

text \<open>What \<open>put_if_absent\<close> writes: the pairs whose key the store does not hold.\<close>

lemma absent_pairs:
  "map fst (filter (\<lambda>(_, p). \<not> p) (zip kvs (map (\<lambda>k. lookup s k \<noteq> None) (map fst kvs)))) =
   filter (\<lambda>kv. lookup s (fst kv) = None) kvs"
  by (induction kvs) auto

lemma put_if_absent_put:
  "kv_put_if_absent get put s kvs = put s (filter (\<lambda>kv. lookup s (fst kv) = None) kvs)"
  by (simp add: kv_put_if_absent_def contains_lookup Let_def absent_pairs [simplified])

lemma put_if_absent_keeps:
  assumes "lookup s k = Some v"
  shows "\<exists>s'. kv_put_if_absent get put s kvs = Inr s' \<and> lookup s' k = Some v"
proof -
  let ?new = "filter (\<lambda>kv. lookup s (fst kv) = None) kvs"
  obtain s' where s': "put s ?new = Inr s'" "lookup s' = lookup s ++ map_of (rev ?new)"
    using put_lookup by blast
  have "map_of (rev ?new) k = None"
    using assms by (auto simp: map_of_eq_None_iff)
  then show ?thesis
    using s' assms by (auto simp: put_if_absent_put map_add_def)
qed

end

lemma inmem_put_fold:
  "hm_get (foldl (\<lambda>m (k, v). hm_put k v m) s kvs) = hm_get s ++ map_of (rev kvs)"
  by (induction kvs arbitrary: s) (auto simp: map_add_def fun_eq_iff split: option.splits)

interpretation inmem: key_value_store hm_get inmem_get inmem_put
  by unfold_locales (simp_all add: inmem_get_def inmem_put_def inmem_put_fold)

lemma hm_ok_foldl_put: "hm_ok s \<Longrightarrow> hm_ok (foldl (\<lambda>m (k, v). hm_put k v m) s kvs)"
  by (induction kvs arbitrary: s) auto

lemma inmem_put_ok: "inmem_put s kvs = Inr s' \<Longrightarrow> hm_ok s \<Longrightarrow> hm_ok s'"
  by (auto simp: inmem_put_def hm_ok_foldl_put)

lemma inmem_delete_get:
  "hm_get (fst (inmem_delete_loop s ks n)) k = (if k \<in> set ks then None else hm_get s k)"
  by (induction s ks n rule: inmem_delete_loop.induct) (auto split: option.splits)

end
