(* ===== verification/Errors.thy ===== *)
theory Errors
  imports KvStore
begin

section \<open>Error types\<close>

text \<open>
  The error enumerations of rspace++/src/rspace/errors.rs. Messages that format values into
  a text are kept without the values.
\<close>

datatype radix_tree_error =
    KeyNotFound string
  | RadixKvStoreError kv_store_error
  | PrefixError string
  | CollisionError string
  | SerializationError string

datatype root_error =
    RootKvStoreError string
  | UnknownRootError string

datatype history_error =
    ActionError string
  | HistoryRadixTreeError radix_tree_error
  | HistoryKvStoreError kv_store_error
  | HistoryRootError root_error
  | MergeError string

datatype history_repository_error =
    RepositoryRootError root_error
  | RepositoryHistoryError history_error

datatype rspace_error =
    InterpreterError string
  | RSpaceHistoryError history_error
  | RSpaceRadixTreeError radix_tree_error
  | RSpaceKvStoreError kv_store_error
  | BugFoundError string
  | ReportingError string

end
