(* ===== verification/RadixCodec.thy ===== *)
theory RadixCodec
  imports Errors
begin

unbundle bit_operations_syntax

section \<open>Nodes of the history trie and their binary codec\<close>

text \<open>
  The data of rspace++/src/rspace/history/radix_tree.rs (\<open>Item\<close>, \<open>Node\<close>) and the codec
  \<open>encode\<close>/\<open>decode\<close> of that file. A failed \<open>assert!\<close> and an index out of range are
  panics. \<open>encode_node_bytes\<close> is the specification of the codec (the concatenation of
  the encodings of the non-empty items, in index order); \<open>encode\<close> fills a
  preallocated buffer position by position, as the source does, and is proved to compute
  it. The round trip \<open>decode\<close> after \<open>encode\<close> is the main result.
\<close>

subsection \<open>Items and nodes\<close>

datatype item =
    EmptyItem
  | Leaf (leaf_prefix: bytes) (leaf_value: bytes)
  | NodePtr (ptr_prefix: bytes) (ptr_of: bytes)

type_synonym node = "item list"

definition NUM_ITEMS :: nat where
  "NUM_ITEMS = 256"

definition empty_node :: node where
  "empty_node = replicate NUM_ITEMS EmptyItem"

definition DEF_SIZE :: nat where
  "DEF_SIZE = 32"

definition HEAD_SIZE :: nat where
  "HEAD_SIZE = 2"

definition byte_to_int :: "byte \<Rightarrow> nat" where
  "byte_to_int b = unat b AND 0xff"

subsection \<open>encode\<close>

text \<open>The fold that computes the size of the buffer, with its assertions.\<close>

fun encode_size_step :: "nat \<Rightarrow> item \<Rightarrow> (radix_tree_error, nat) res" where
  "encode_size_step sz EmptyItem = Inr sz"
| "encode_size_step sz (Leaf p v) =
     (if \<not> length p \<le> 127 then Inl (Panic ''size of prefix more than 127'')
      else if length v \<noteq> DEF_SIZE then Inl (Panic ''size of leafValue not equal 32'')
      else Inr (sz + HEAD_SIZE + length p + DEF_SIZE))"
| "encode_size_step sz (NodePtr p h) =
     (if \<not> length p \<le> 127 then Inl (Panic ''size of prefix more than 127'')
      else if length h \<noteq> DEF_SIZE then Inl (Panic ''size of ptrPrefix not equal 32'')
      else Inr (sz + HEAD_SIZE + length p + DEF_SIZE))"

definition encode_leaf_second_byte :: "nat \<Rightarrow> byte" where
  "encode_leaf_second_byte prefix_size = word_of_nat (prefix_size AND 0x7F)"

definition encode_node_ptr_second_byte :: "nat \<Rightarrow> byte" where
  "encode_node_ptr_second_byte prefix_size = word_of_nat (0x80 OR (prefix_size AND 0x7F))"

text \<open>
  \<open>arr[pos] = b\<close> and the copying loops \<open>for i in 0..n { arr[pos + i] = src[i] }\<close>.
\<close>

definition arr_set :: "bytes \<Rightarrow> nat \<Rightarrow> byte \<Rightarrow> (radix_tree_error, bytes) res" where
  "arr_set arr pos b =
     (if pos < length arr then Inr (arr[pos := b]) else Inl (Panic ''index out of bounds''))"

definition arr_copy :: "bytes \<Rightarrow> nat \<Rightarrow> bytes \<Rightarrow> nat \<Rightarrow> (radix_tree_error, bytes) res" where
  "arr_copy arr pos src n =
     fold_res (\<lambda>a i. if i < length src then arr_set a (pos + i) (src ! i)
                     else Inl (Panic ''index out of bounds'')) arr [0..<n]"

function put_item_into_array ::
  "nat \<Rightarrow> nat \<Rightarrow> bytes \<Rightarrow> node \<Rightarrow> nat \<Rightarrow> (radix_tree_error, bytes) res" where
  "put_item_into_array idx_item pos0 arr node calc_size =
     (if pos0 = calc_size then Inr arr
      else if \<not> idx_item < length node then Inl (Panic ''index out of bounds'')
      else case node ! idx_item of
        EmptyItem \<Rightarrow> put_item_into_array (idx_item + 1) pos0 arr node calc_size
      | Leaf pfx v \<Rightarrow>
          rbind (arr_set arr pos0 (word_of_nat idx_item)) (\<lambda>arr.
          let pos_second_byte = pos0 + 1; prefix_size = length pfx in
          rbind (arr_set arr pos_second_byte (encode_leaf_second_byte prefix_size)) (\<lambda>arr.
          let pos_prefix_start = pos_second_byte + 1 in
          rbind (arr_copy arr pos_prefix_start pfx prefix_size) (\<lambda>arr.
          let pos_value_start = pos_prefix_start + prefix_size in
          rbind (arr_copy arr pos_value_start v DEF_SIZE) (\<lambda>arr.
          put_item_into_array (idx_item + 1) (pos_value_start + DEF_SIZE) arr node calc_size))))
      | NodePtr pfx ptr \<Rightarrow>
          rbind (arr_set arr pos0 (word_of_nat idx_item)) (\<lambda>arr.
          let pos_second_byte = pos0 + 1; prefix_size = length pfx in
          rbind (arr_set arr pos_second_byte (encode_node_ptr_second_byte prefix_size)) (\<lambda>arr.
          let pos_prefix_start = pos_second_byte + 1 in
          rbind (arr_copy arr pos_prefix_start pfx prefix_size) (\<lambda>arr.
          let pos_ptr_start = pos_prefix_start + prefix_size in
          rbind (arr_copy arr pos_ptr_start ptr DEF_SIZE) (\<lambda>arr.
          put_item_into_array (idx_item + 1) (pos_ptr_start + DEF_SIZE) arr node calc_size)))))"
  by pat_completeness auto
termination
  by (relation "measure (\<lambda>(i, pos, arr, node, cs). length node - i)") auto

declare put_item_into_array.simps [simp del]

definition encode :: "node \<Rightarrow> (radix_tree_error, bytes) res" where
  "encode node =
     rbind (fold_res encode_size_step 0 node) (\<lambda>calc_size.
       put_item_into_array 0 0 (replicate calc_size 0) node calc_size)"

subsection \<open>decode\<close>

definition is_leaf :: "byte \<Rightarrow> bool" where
  "is_leaf second_byte \<longleftrightarrow> second_byte AND 0x80 = 0x00"

text \<open>\<open>bv[a..b]\<close>: a slice that does not fit panics.\<close>

definition bv_slice :: "bytes \<Rightarrow> nat \<Rightarrow> nat \<Rightarrow> (radix_tree_error, bytes) res" where
  "bv_slice bv a b =
     (if a \<le> b \<and> b \<le> length bv then Inr (take (b - a) (drop a bv))
      else Inl (Panic ''range out of bounds''))"

function decode_loop :: "bytes \<Rightarrow> node \<Rightarrow> nat \<Rightarrow> (radix_tree_error, node) res" where
  "decode_loop bv node pos0 =
     (if \<not> pos0 < length bv then Inr node
      else let idx_item = byte_to_int (bv ! pos0) in
        if \<not> idx_item < length node then Inl (Panic ''index out of bounds'')
        else if node ! idx_item \<noteq> EmptyItem then Inl (Panic ''wrong index of item'')
        else let pos1 = pos0 + 1 in
        if \<not> pos1 < length bv then Inl (Panic ''index out of bounds'')
        else let second_byte = bv ! pos1;
                 prefix_size = unat (second_byte AND 0x7F);
                 pos_prefix_start = pos1 + 1 in
        rbind (bv_slice bv pos_prefix_start (pos_prefix_start + prefix_size)) (\<lambda>pfx.
        let pos_val_or_ptr_start = pos_prefix_start + prefix_size in
        rbind (bv_slice bv pos_val_or_ptr_start (pos_val_or_ptr_start + DEF_SIZE)) (\<lambda>val_or_ptr.
        decode_loop bv
          (node[idx_item := (if is_leaf second_byte then Leaf pfx val_or_ptr
                             else NodePtr pfx val_or_ptr)])
          (pos_val_or_ptr_start + DEF_SIZE))))"
  by pat_completeness auto
termination
  by (relation "measure (\<lambda>(bv, node, pos). length bv - pos)") (auto simp: DEF_SIZE_def)

declare decode_loop.simps [simp del]

definition decode :: "bytes \<Rightarrow> (radix_tree_error, node) res" where
  "decode bv = decode_loop bv empty_node 0"

subsection \<open>common_prefix\<close>

fun common_prefix_go :: "bytes \<Rightarrow> bytes \<Rightarrow> bytes \<Rightarrow> bytes \<times> bytes \<times> bytes" where
  "common_prefix_go common (x # l) (y # r) =
     (if x = y then common_prefix_go (common @ [x]) l r else (common, x # l, y # r))"
| "common_prefix_go common l r = (common, l, r)"

definition common_prefix :: "bytes \<Rightarrow> bytes \<Rightarrow> bytes \<times> bytes \<times> bytes" where
  "common_prefix b1 b2 = common_prefix_go [] b1 b2"

subsection \<open>Well-formed nodes and the specification of the codec\<close>

fun item_ok :: "item \<Rightarrow> bool" where
  "item_ok EmptyItem = True"
| "item_ok (Leaf p v) = (length p \<le> 127 \<and> length v = DEF_SIZE)"
| "item_ok (NodePtr p h) = (length p \<le> 127 \<and> length h = DEF_SIZE)"

definition node_ok :: "node \<Rightarrow> bool" where
  "node_ok node \<longleftrightarrow> length node = NUM_ITEMS \<and> list_all item_ok node"

fun enc_item :: "nat \<Rightarrow> item \<Rightarrow> bytes" where
  "enc_item i EmptyItem = []"
| "enc_item i (Leaf p v) = word_of_nat i # encode_leaf_second_byte (length p) # p @ v"
| "enc_item i (NodePtr p h) = word_of_nat i # encode_node_ptr_second_byte (length p) # p @ h"

fun enc_items :: "nat \<Rightarrow> item list \<Rightarrow> bytes" where
  "enc_items i [] = []"
| "enc_items i (x # xs) = enc_item i x @ enc_items (Suc i) xs"

definition encode_node_bytes :: "node \<Rightarrow> bytes" where
  "encode_node_bytes node = enc_items 0 node"

subsection \<open>Bytes of the header\<close>

lemma nat_and_127: "n \<le> 127 \<Longrightarrow> n AND 127 = (n :: nat)"
proof -
  assume "n \<le> 127"
  then have "take_bit 7 n = n"
    by (simp add: take_bit_nat_eq_self)
  then show ?thesis
    by (simp add: take_bit_eq_mask mask_eq_exp_minus_1)
qed

lemma byte_and_127: "n \<le> 127 \<Longrightarrow> (word_of_nat n :: byte) AND 127 = word_of_nat n"
  using nat_and_127 [of n] of_nat_and_eq [of n 127, where 'a = byte] by simp

lemma byte_and_128: "n \<le> 127 \<Longrightarrow> (word_of_nat n :: byte) AND 128 = 0"
proof -
  assume n: "n \<le> 127"
  have "(word_of_nat n :: byte) AND 128 = (word_of_nat n AND 127) AND 128"
    using byte_and_127 [OF n] by simp
  also have "\<dots> = word_of_nat n AND (127 AND 128)"
    by (simp only: and.assoc)
  finally show ?thesis by simp
qed

lemma second_byte_facts:
  assumes "n \<le> 127"
  shows "unat (encode_leaf_second_byte n AND 0x7F) = n" "is_leaf (encode_leaf_second_byte n)"
    "unat (encode_node_ptr_second_byte n AND 0x7F) = n" "\<not> is_leaf (encode_node_ptr_second_byte n)"
  using assms
  by (simp_all add: encode_leaf_second_byte_def encode_node_ptr_second_byte_def is_leaf_def
      nat_and_127 of_nat_or_eq bit.conj_disj_distrib2 byte_and_127 byte_and_128 unat_of_nat)

lemma byte_to_int_unat [simp]: "byte_to_int b = unat b"
proof -
  have "unat b < 2 ^ 8"
    using unsigned_less [of b] by (simp add: nat_less_iff)
  then have "take_bit 8 (unat b) = unat b"
    by (simp add: take_bit_nat_eq_self)
  moreover have "unat b AND 255 = take_bit 8 (unat b)"
    by (simp add: take_bit_eq_mask mask_eq_exp_minus_1)
  ultimately show ?thesis
    by (simp add: byte_to_int_def)
qed

lemma unat_index_byte: "i < 256 \<Longrightarrow> unat (word_of_nat i :: byte) = i"
  by (simp add: unat_of_nat)

subsection \<open>encode computes its specification\<close>

lemma arr_copy_eq:
  assumes "length mid = length src"
  shows "arr_copy (pre @ mid @ post) (length pre) src (length src) = Inr (pre @ src @ post)"
proof -
  have "m \<le> length src \<Longrightarrow>
    fold_res (\<lambda>a i. if i < length src then arr_set a (length pre + i) (src ! i)
                     else Inl (Panic ''index out of bounds'')) (pre @ mid @ post) [0..<m]
    = Inr (pre @ (take m src @ drop m mid) @ post)" for m
  proof (induction m)
    case (Suc m)
    then have "drop m mid = mid ! m # drop (Suc m) mid"
      using assms by (simp add: Cons_nth_drop_Suc)
    with Suc assms show ?case
      by (auto simp: arr_set_def list_update_append take_Suc_conv_app_nth)
  qed simp
  from this [of "length src"] assms show ?thesis
    by (simp add: arr_copy_def)
qed

lemma encode_size_eq:
  "list_all item_ok xs \<Longrightarrow>
   fold_res encode_size_step n xs = Inr (n + length (enc_items i xs))"
proof (induction xs arbitrary: n i)
  case (Cons x xs)
  then show ?case
    by (cases x) (simp_all add: HEAD_SIZE_def Cons.IH [of _ "Suc i"])
qed simp

lemma arr_set_append: "arr_set (pre @ x # post) (length pre) b = Inr (pre @ b # post)"
  by (simp add: arr_set_def)

text \<open>One item written at position \<open>length pre\<close> of a buffer that has room for it.\<close>

lemma arr_header_sets:
  "arr_set (pre @ 0 # 0 # post) (length pre) i = Inr (pre @ i # 0 # post)"
  "arr_set (pre @ i # 0 # post) (Suc (length pre)) b = Inr (pre @ i # b # post)"
  by (simp_all add: arr_set_def list_update_append)

lemma arr_body_copies:
  "arr_copy (pre @ i # b # replicate (length p) 0 @ post) (Suc (Suc (length pre))) p (length p) =
   Inr (pre @ i # b # p @ post)"
  "length v = n \<Longrightarrow> arr_copy (pre @ i # b # p @ replicate n 0 @ post)
     (Suc (Suc (length pre + length p))) v n = Inr (pre @ i # b # p @ v @ post)"
  using arr_copy_eq [of "replicate (length p) 0" p "pre @ [i, b]" post]
    arr_copy_eq [of "replicate (length v) 0" v "pre @ [i, b] @ p" post]
  by simp_all

lemma put_item_step:
  assumes "item_ok x" "node = done @ x # rest" "x \<noteq> EmptyItem" "length pre \<noteq> cs"
  shows "put_item_into_array (length done) (length pre)
           (pre @ replicate (length (enc_item (length done) x)) 0 @ post) node cs =
         put_item_into_array (Suc (length done)) (length pre + length (enc_item (length done) x))
           (pre @ enc_item (length done) x @ post) node cs"
proof (cases x)
  case (Leaf p v)
  with assms show ?thesis
    by (subst put_item_into_array.simps)
      (simp add: Let_def replicate_add arr_header_sets arr_body_copies add.assoc)
next
  case (NodePtr p v)
  with assms show ?thesis
    by (subst put_item_into_array.simps)
      (simp add: Let_def replicate_add arr_header_sets arr_body_copies add.assoc)
qed (use assms in simp)

lemma put_items_eq:
  assumes "list_all item_ok xs" "node = done @ xs"
    and "cs = length pre + length (enc_items (length done) xs)"
  shows "put_item_into_array (length done) (length pre)
           (pre @ replicate (length (enc_items (length done) xs)) 0) node cs
         = Inr (pre @ enc_items (length done) xs)"
  using assms
proof (induction xs arbitrary: "done" pre)
  case Nil
  then show ?case by (simp add: put_item_into_array.simps)
next
  case (Cons x xs)
  let ?d = "done @ [x]"
  show ?case
  proof (cases "x = EmptyItem")
    case True
    then show ?thesis
      using Cons.prems Cons.IH [of ?d pre]
      by (subst put_item_into_array.simps) auto
  next
    case False
    let ?pre = "pre @ enc_item (length done) x"
    have "put_item_into_array (length done) (length pre)
            (pre @ replicate (length (enc_items (length done) (x # xs))) 0) node cs
          = put_item_into_array (length ?d) (length ?pre)
            (?pre @ replicate (length (enc_items (length ?d) xs)) 0) node cs"
      using Cons.prems False
      put_item_step [of x node "done" xs pre cs "replicate (length (enc_items (length ?d) xs)) 0"]
      by (cases x) (simp_all add: replicate_add)
    also have "\<dots> = Inr (?pre @ enc_items (length ?d) xs)"
      by (rule Cons.IH) (use Cons.prems in simp_all)
    finally show ?thesis by simp
  qed
qed

lemma encode_eq: "list_all item_ok node \<Longrightarrow> encode node = Inr (encode_node_bytes node)"
  by (simp add: encode_def encode_node_bytes_def encode_size_eq [of _ _ 0]
      put_items_eq [of node node "[]" _ "[]", simplified])

lemma encode_ok_iff: "(\<exists>bs. encode node = Inr bs) \<longleftrightarrow> list_all item_ok node"
proof
  assume "\<exists>bs. encode node = Inr bs"
  then obtain n where "fold_res encode_size_step 0 node = Inr n"
    by (auto simp: encode_def)
  moreover have "fold_res encode_size_step k xs = Inr n \<Longrightarrow> list_all item_ok xs" for k n xs
  proof (induction xs arbitrary: k)
    case (Cons x xs)
    then show ?case by (cases x) (auto split: if_splits)
  qed simp
  ultimately show "list_all item_ok node" by blast
qed (use encode_eq in blast)

subsection \<open>decode inverts encode\<close>

lemma slice_append: "bv_slice (pre @ mid @ post) (length pre) (length pre + length mid) = Inr mid"
  by (simp add: bv_slice_def)

lemma decode_step:
  assumes "item_ok x" "x \<noteq> EmptyItem" "i < length node" "i < 256" "node ! i = EmptyItem"
  shows "decode_loop (pre @ enc_item i x @ post) node (length pre) =
         decode_loop (pre @ enc_item i x @ post) (node[i := x]) (length pre + length (enc_item i x))"
proof -
  have slices: "bv_slice (pre @ b # c # p @ v @ post) (Suc (Suc (length pre)))
       (Suc (Suc (length pre + length p))) = Inr p"
    "length v = DEF_SIZE \<Longrightarrow> bv_slice (pre @ b # c # p @ v @ post) (Suc (Suc (length pre + length p)))
       (Suc (Suc (length pre + (length p + DEF_SIZE)))) = Inr v" for b c p v
    using slice_append [of "pre @ [b, c]" p "v @ post"]
      slice_append [of "pre @ [b, c] @ p" v post] by (simp_all add: add.assoc)
  show ?thesis
    using assms
    by (cases x; subst decode_loop.simps)
      (simp_all add: Let_def nth_append second_byte_facts unat_index_byte slices add.assoc)
qed

lemma decode_items:
  assumes "list_all item_ok xs" "length done + length xs = 256"
  shows "decode_loop (pre @ enc_items (length done) xs) (done @ replicate (length xs) EmptyItem)
           (length pre) = Inr (done @ xs)"
  using assms
proof (induction xs arbitrary: "done" pre)
  case Nil
  then show ?case by (simp add: decode_loop.simps)
next
  case (Cons x xs)
  let ?d = "done @ [x]" and ?pre = "pre @ enc_item (length done) x"
  have IH: "decode_loop (?pre @ enc_items (length ?d) xs) (?d @ replicate (length xs) EmptyItem)
      (length ?pre) = Inr (?d @ xs)"
    by (rule Cons.IH) (use Cons.prems in simp_all)
  show ?case
  proof (cases "x = EmptyItem")
    case True
    with IH show ?thesis by simp
  next
    case False
    with Cons.prems IH show ?thesis
      using decode_step [of x "length done" "done @ EmptyItem # replicate (length xs) EmptyItem" pre
          "enc_items (length ?d) xs"]
      by simp
  qed
qed

lemma decode_encode_bytes: "node_ok node \<Longrightarrow> decode (encode_node_bytes node) = Inr node"
  using decode_items [of node "[]" "[]"]
  by (simp add: decode_def encode_node_bytes_def node_ok_def empty_node_def NUM_ITEMS_def)

lemma encode_node_ok: "node_ok node \<Longrightarrow> encode node = Inr (encode_node_bytes node)"
  by (simp add: node_ok_def encode_eq)

lemma encode_node_bytes_inj:
  "node_ok a \<Longrightarrow> node_ok b \<Longrightarrow> encode_node_bytes a = encode_node_bytes b \<Longrightarrow> a = b"
  using decode_encode_bytes by (metis sum.inject(2))

lemma empty_node_ok [simp, intro]: "node_ok empty_node"
  by (simp add: node_ok_def empty_node_def NUM_ITEMS_def list_all_iff)

subsection \<open>common_prefix splits off the longest common prefix\<close>

lemma common_prefix_go_spec:
  "common_prefix_go c l r = (c', l', r') \<Longrightarrow>
   \<exists>d. c' = c @ d \<and> l = d @ l' \<and> r = d @ r' \<and> (l' \<noteq> [] \<longrightarrow> r' \<noteq> [] \<longrightarrow> hd l' \<noteq> hd r')"
  by (induction c l r rule: common_prefix_go.induct) (auto split: if_splits)

lemma common_prefix_spec:
  assumes "common_prefix l r = (c, l', r')"
  shows "l = c @ l'" "r = c @ r'" "l' \<noteq> [] \<Longrightarrow> r' \<noteq> [] \<Longrightarrow> hd l' \<noteq> hd r'"
  using common_prefix_go_spec [OF assms [unfolded common_prefix_def]] by auto

lemma common_prefix_go_append: "common_prefix_go c (p @ l) (p @ r) = common_prefix_go (c @ p) l r"
  by (induction p arbitrary: c) auto

lemma common_prefix_of_prefix [simp]: "common_prefix (p @ l) p = (p, l, [])"
  using common_prefix_go_append [of "[]" p l "[]"] by (cases l) (simp_all add: common_prefix_def)

lemma common_prefix_fork [simp]:
  "x \<noteq> y \<Longrightarrow> common_prefix (p @ x # l) (p @ y # r) = (p, x # l, y # r)"
  by (simp add: common_prefix_def common_prefix_go_append)

end
