(* ===== verification/RadixTree.thy ===== *)
theory RadixTree
  imports RadixCodec
begin

section \<open>The radix tree of the history\<close>

text \<open>
  \<open>RadixTreeImpl\<close> of rspace++/src/rspace/history/radix_tree.rs: loading and saving nodes
  through the caches \<open>cache_r\<close> and \<open>cache_w\<close>, \<open>commit\<close>, reading a key, inserting and deleting
  a leaf, and \<open>make_actions\<close>. The key-value store is shared by every tree that was built over
  it, so it is an argument of the operations and a result of \<open>commit\<close>, the only operation
  that writes it. The record \<open>radix_env\<close> holds what comes from third-party crates: the
  BLAKE2b-256 function and the order in which a \<open>DashMap\<close> is iterated.
  \<open>make_actions\<close> runs the groups of actions in parallel (rayon); they touch disjoint
  subtrees and share only the caches, and the model runs them one after the other.
\<close>

record radix_env =
  blake2b256 :: "bytes \<Rightarrow> bytes"
  dash_order :: "bytes list \<Rightarrow> bytes list"

record radix_tree_impl =
  cache_r :: "(bytes, node) hmap"
  cache_w :: "(bytes, bytes) hmap"

type_synonym 'a rt = "(radix_tree_impl, radix_tree_error, 'a) sm"

definition READ_CACHE_MAX_ITEMS :: nat where
  "READ_CACHE_MAX_ITEMS = 4096"

definition READ_CACHE_TRIM_TARGET :: nat where
  "READ_CACHE_TRIM_TARGET = 2048"

definition new_impl :: radix_tree_impl where
  "new_impl = \<lparr>cache_r = [], cache_w = []\<rparr>"

subsection \<open>Loading and saving nodes\<close>

definition hash_node :: "radix_env \<Rightarrow> node \<Rightarrow> (radix_tree_error, bytes \<times> bytes) res" where
  "hash_node env node =
     rbind (encode node) (\<lambda>node_bytes. Inr (blake2b256 env node_bytes, node_bytes))"

definition load_node_from_store ::
  "in_mem_store \<Rightarrow> bytes \<Rightarrow> (radix_tree_error, node option) res" where
  "load_node_from_store st node_ptr =
     rbind (map_err RadixKvStoreError (kv_get_one inmem_get st node_ptr)) (\<lambda>get_result.
       case get_result of
         Some bs \<Rightarrow> rbind (decode bs) (\<lambda>deserialized_node. Inr (Some deserialized_node))
       | None \<Rightarrow> Inr None)"

definition enforce_read_cache_bounds :: "radix_env \<Rightarrow> radix_tree_impl \<Rightarrow> radix_tree_impl" where
  "enforce_read_cache_bounds env t =
     (if length (cache_r t) \<le> READ_CACHE_MAX_ITEMS then t
      else let number_to_remove = length (cache_r t) - READ_CACHE_TRIM_TARGET;
               ks = take number_to_remove (dash_order env (hm_keys (cache_r t)))
           in t\<lparr>cache_r := fold hm_del ks (cache_r t)\<rparr>)"

definition load_node_arc :: "radix_env \<Rightarrow> in_mem_store \<Rightarrow> bytes \<Rightarrow> bool \<Rightarrow> node rt" where
  "load_node_arc env st node_ptr no_assert t =
     (case hm_get (cache_r t) node_ptr of
        Some node \<Rightarrow> (Inr node, t)
      | None \<Rightarrow>
          (case load_node_from_store st node_ptr of
             Inl e \<Rightarrow> (Inl e, t)
           | Inr (Some node) \<Rightarrow>
               (Inr node,
                enforce_read_cache_bounds env (t\<lparr>cache_r := hm_put node_ptr node (cache_r t)\<rparr>))
           | Inr None \<Rightarrow>
               (if no_assert then (Inr empty_node, t)
                else (Inl (Panic ''Missing node in database''), t))))"

definition load_node :: "radix_env \<Rightarrow> in_mem_store \<Rightarrow> bytes \<Rightarrow> bool \<Rightarrow> node rt" where
  "load_node env st node_ptr no_assert = load_node_arc env st node_ptr no_assert"

definition clear_read_cache :: "radix_tree_impl \<Rightarrow> radix_tree_impl" where
  "clear_read_cache t = t\<lparr>cache_r := []\<rparr>"

definition clear_write_cache :: "radix_tree_impl \<Rightarrow> radix_tree_impl" where
  "clear_write_cache t = t\<lparr>cache_w := []\<rparr>"

definition save_node :: "radix_env \<Rightarrow> node \<Rightarrow> bytes rt" where
  "save_node env node t =
     (case hash_node env node of
        Inl e \<Rightarrow> (Inl e, t)
      | Inr (node_bytes_hash, node_bytes) \<Rightarrow>
          (case hm_get (cache_r t) node_bytes_hash of
             Some v \<Rightarrow>
               if v = node
               then (Inr node_bytes_hash,
                     t\<lparr>cache_w := hm_put node_bytes_hash node_bytes (cache_w t)\<rparr>)
               else (Inl (Panic ''Collision in cache''), t)
           | None \<Rightarrow>
               let t' = enforce_read_cache_bounds env
                          (t\<lparr>cache_r := hm_put node_bytes_hash node (cache_r t)\<rparr>)
               in (Inr node_bytes_hash,
                   t'\<lparr>cache_w := hm_put node_bytes_hash node_bytes (cache_w t')\<rparr>)))"

text \<open>\<open>commit\<close>: the new store, or a collision with data the store already holds.\<close>

definition commit :: "radix_env \<Rightarrow> in_mem_store \<Rightarrow> radix_tree_impl \<Rightarrow> (radix_tree_error, in_mem_store) res" where
  "commit env st t =
     (let kv_pairs = map (\<lambda>k. (k, the (hm_get (cache_w t) k))) (dash_order env (hm_keys (cache_w t)))
      in rbind (map_err RadixKvStoreError (kv_contains inmem_get st (map fst kv_pairs))) (\<lambda>if_absent.
      let kv_if_absent = zip kv_pairs if_absent;
          kv_exist = map fst (filter (\<lambda>(_, absent). absent) kv_if_absent)
      in rbind (map_err RadixKvStoreError (inmem_get st (map fst kv_exist))) (\<lambda>value_exist_in_store.
      let kvv_exist = zip kv_exist
                        (map (\<lambda>v. case v of Some x \<Rightarrow> x | None \<Rightarrow> []) value_exist_in_store);
          kv_collision = map fst (filter (\<lambda>kvv. \<not> snd (fst kvv) = snd kvv) kvv_exist)
      in if kv_collision \<noteq> [] then Inl (Err (CollisionError ''collisions in KVDB''))
         else let kv_absent = map fst (filter (\<lambda>(_, absent). \<not> absent) kv_if_absent)
              in map_err RadixKvStoreError (inmem_put st kv_absent))))"

subsection \<open>Reading\<close>

function read_at_cached :: "radix_env \<Rightarrow> in_mem_store \<Rightarrow> node \<Rightarrow> bytes \<Rightarrow> bytes option rt"
  and read_at_from_ptr :: "radix_env \<Rightarrow> in_mem_store \<Rightarrow> bytes \<Rightarrow> bytes \<Rightarrow> bytes option rt" where
  "read_at_cached env st cur_node pfx =
     (case pfx of
        [] \<Rightarrow> sret None
      | b # prefix_tail \<Rightarrow>
          if \<not> byte_to_int b < length cur_node then sfail (Panic ''index out of bounds'')
          else case cur_node ! byte_to_int b of
            EmptyItem \<Rightarrow> sret None
          | Leaf lf_prefix v \<Rightarrow> if lf_prefix = prefix_tail then sret (Some v) else sret None
          | NodePtr pt_prefix ptr \<Rightarrow>
              if \<not> prefix pt_prefix prefix_tail then sret None
              else read_at_from_ptr env st ptr (drop (length pt_prefix) prefix_tail))"
| "read_at_from_ptr env st node_ptr pfx =
     (if pfx = [] then sret None
      else sbind (load_node_arc env st node_ptr False) (\<lambda>node. read_at_cached env st node pfx))"
  by pat_completeness auto
termination
  by (relation "measure (case_sum (\<lambda>(env, st, nd, p). 2 * length p) (\<lambda>(env, st, h, p). 2 * length p + 1))") auto

declare read_at_cached.simps [simp del] read_at_from_ptr.simps [simp del]

definition read_at :: "radix_env \<Rightarrow> in_mem_store \<Rightarrow> node \<Rightarrow> bytes \<Rightarrow> bytes option rt" where
  "read_at env st cur_node pfx = read_at_cached env st cur_node pfx"

definition rt_read :: "radix_env \<Rightarrow> in_mem_store \<Rightarrow> node \<Rightarrow> bytes \<Rightarrow> bytes option rt" where
  "rt_read env st start_node start_prefix = read_at env st start_node start_prefix"

subsection \<open>Building items\<close>

fun create_node_from_item :: "item \<Rightarrow> (radix_tree_error, node) res" where
  "create_node_from_item EmptyItem = Inr empty_node"
| "create_node_from_item (Leaf lf_prefix lf_value) =
     (case lf_prefix of
        [] \<Rightarrow> Inl (Panic ''Impossible to create a node. LeafPrefix should be non empty.'')
      | b # leaf_prefix_tail \<Rightarrow> Inr (empty_node[byte_to_int b := Leaf leaf_prefix_tail lf_value]))"
| "create_node_from_item (NodePtr node_ptr_prefix ptr) =
     (case node_ptr_prefix of
        [] \<Rightarrow> Inl (Panic ''Impossible to create a node. NodePtrPrefix should be non empty.'')
      | b # node_ptr_prefix_tail \<Rightarrow>
          Inr (empty_node[byte_to_int b := NodePtr node_ptr_prefix_tail ptr]))"

definition construct_node_from_item :: "radix_env \<Rightarrow> in_mem_store \<Rightarrow> item \<Rightarrow> node rt" where
  "construct_node_from_item env st i =
     (case i of
        NodePtr [] ptr \<Rightarrow> load_node_arc env st ptr False
      | _ \<Rightarrow> slift (create_node_from_item i))"

definition save_node_and_create_item :: "radix_env \<Rightarrow> node \<Rightarrow> bytes \<Rightarrow> bool \<Rightarrow> item rt" where
  "save_node_and_create_item env node pfx compaction =
     (if compaction then
        (case take 2 (filter (\<lambda>i. i \<noteq> EmptyItem) node) of
           [] \<Rightarrow> sret EmptyItem
         | [x] \<Rightarrow>
             (case position (\<lambda>i. i = x) node of
                None \<Rightarrow> sfail (Panic ''called unwrap on a None value'')
              | Some idx_item \<Rightarrow>
                  (case x of
                     EmptyItem \<Rightarrow> sret EmptyItem
                   | Leaf lf_prefix v \<Rightarrow> sret (Leaf (pfx @ [word_of_nat idx_item] @ lf_prefix) v)
                   | NodePtr node_ptr_prefix ptr \<Rightarrow>
                       sret (NodePtr (pfx @ [word_of_nat idx_item] @ node_ptr_prefix) ptr)))
         | _ \<Rightarrow> sbind (save_node env node) (\<lambda>ptr. sret (NodePtr pfx ptr)))
      else sbind (save_node env node) (\<lambda>ptr. sret (NodePtr pfx ptr)))"

subsection \<open>Inserting and deleting one leaf\<close>

function rt_update ::
  "radix_env \<Rightarrow> in_mem_store \<Rightarrow> item \<Rightarrow> bytes \<Rightarrow> bytes \<Rightarrow> item option rt" where
  "rt_update env st curr_item ins_prefix ins_value =
     (case curr_item of
        EmptyItem \<Rightarrow> sret (Some (Leaf ins_prefix ins_value))
      | Leaf lf_prefix lf_value \<Rightarrow>
          if length lf_prefix \<noteq> length ins_prefix
          then sfail (Panic ''Radix Tree: All Radix keys should be same length.'')
          else if lf_prefix = ins_prefix then
            (if ins_value = lf_value then sret None else sret (Some (Leaf ins_prefix ins_value)))
          else (case common_prefix ins_prefix lf_prefix of (comm_prefix, ins_prefix_rest, leaf_prefix_rest) \<Rightarrow>
            (case leaf_prefix_rest of
               [] \<Rightarrow> sfail (Panic ''called unwrap on a None value'')
             | lh # lt \<Rightarrow>
            (case ins_prefix_rest of
               [] \<Rightarrow> sfail (Panic ''called unwrap on a None value'')
             | ih # it \<Rightarrow>
               sbind (save_node_and_create_item env
                        (empty_node[byte_to_int lh := Leaf lt lf_value, byte_to_int ih := Leaf it ins_value])
                        comm_prefix False)
                 (\<lambda>i. sret (Some i)))))
      | NodePtr pt_prefix ptr \<Rightarrow>
          if \<not> length pt_prefix < length ins_prefix
          then sfail (Panic ''Radix Tree: Radix key should be longer than NodePtr key.'')
          else (case common_prefix ins_prefix pt_prefix of (comm_prefix, ins_prefix_rest, ptr_prefix_rest) \<Rightarrow>
            (case ptr_prefix_rest of
               [] \<Rightarrow>
                 sbind (load_node_arc env st ptr False) (\<lambda>child_node.
                 (case ins_prefix_rest of
                    [] \<Rightarrow> sfail (Panic ''called unwrap on a None value'')
                  | h # child_ins_prefix \<Rightarrow>
                      let child_item_idx = byte_to_int h in
                      if \<not> child_item_idx < length child_node
                      then sfail (Panic ''called unwrap on a None value'')
                      else sbind (rt_update env st (child_node ! child_item_idx) child_ins_prefix ins_value)
                        (\<lambda>child_item_opt. case child_item_opt of
                           Some child_item \<Rightarrow>
                             sbind (save_node_and_create_item env
                                      (child_node[child_item_idx := child_item]) comm_prefix False)
                               (\<lambda>returned_item. sret (Some returned_item))
                         | None \<Rightarrow> sret None)))
             | ph # pt \<Rightarrow>
                 (case ins_prefix_rest of
                    [] \<Rightarrow> sfail (Panic ''called unwrap on a None value'')
                  | ih # it \<Rightarrow>
                      sbind (save_node_and_create_item env
                               (empty_node[byte_to_int ph := NodePtr pt ptr, byte_to_int ih := Leaf it ins_value])
                               comm_prefix False)
                        (\<lambda>i. sret (Some i))))))"
  by pat_completeness auto
termination
  by (relation "measure (\<lambda>(env, st, i, p, v). length p)")
    (auto dest!: common_prefix_spec(1) [OF sym])

declare rt_update.simps [simp del]

function rt_delete :: "radix_env \<Rightarrow> in_mem_store \<Rightarrow> item \<Rightarrow> bytes \<Rightarrow> item option rt" where
  "rt_delete env st curr_item del_prefix =
     (case curr_item of
        EmptyItem \<Rightarrow> sret None
      | Leaf lf_prefix _ \<Rightarrow> if lf_prefix = del_prefix then sret (Some EmptyItem) else sret None
      | NodePtr pt_prefix ptr \<Rightarrow>
          (case common_prefix del_prefix pt_prefix of (comm_prefix, del_prefix_rest, ptr_prefix_rest) \<Rightarrow>
             if ptr_prefix_rest \<noteq> [] \<or> del_prefix_rest = [] then sret None
             else sbind (load_node_arc env st ptr False) (\<lambda>child_node.
               (case del_prefix_rest of
                  [] \<Rightarrow> sfail (Panic ''called unwrap on a None value'')
                | h # del_item_prefix \<Rightarrow>
                    let del_item_idx = byte_to_int h in
                    if \<not> del_item_idx < length child_node
                    then sfail (Panic ''called unwrap on a None value'')
                    else sbind (rt_delete env st (child_node ! del_item_idx) del_item_prefix)
                      (\<lambda>child_item_opt. case child_item_opt of
                         Some child_item \<Rightarrow>
                           sbind (save_node_and_create_item env
                                    (child_node[del_item_idx := child_item]) comm_prefix True)
                             (\<lambda>i. sret (Some i))
                       | None \<Rightarrow> sret None)))))"
  by pat_completeness auto
termination
  by (relation "measure (\<lambda>(env, st, i, p). length p)")
    (auto dest!: common_prefix_spec(1) [OF sym])

declare rt_delete.simps [simp del]

subsection \<open>Batches of actions\<close>

text \<open>\<open>HistoryAction\<close> of rspace++/src/rspace/history/history_action.rs.\<close>

datatype history_action = InsertAction bytes bytes | DeleteAction bytes

fun action_key :: "history_action \<Rightarrow> bytes" where
  "action_key (InsertAction k _) = k"
| "action_key (DeleteAction k) = k"

fun is_insert :: "history_action \<Rightarrow> bool" where
  "is_insert (InsertAction _ _) = True"
| "is_insert (DeleteAction _) = False"

text \<open>\<open>groups.entry(first_byte).or_insert_with(Vec::new).push(action)\<close> on a \<open>BTreeMap\<close>.\<close>

fun btree_push :: "byte \<Rightarrow> 'a \<Rightarrow> (byte \<times> 'a list) list \<Rightarrow> (byte \<times> 'a list) list" where
  "btree_push k a [] = [(k, [a])]"
| "btree_push k a ((k', as) # m) =
     (if k < k' then (k, [a]) # (k', as) # m
      else if k = k' then (k', as @ [a]) # m
      else (k', as) # btree_push k a m)"

definition grouping ::
  "history_action list \<Rightarrow> (radix_tree_error, (byte \<times> history_action list) list) res" where
  "grouping actions =
     fold_res (\<lambda>groups action.
       case action_key action of
         first_byte # _ \<Rightarrow> Inr (btree_push first_byte action groups)
       | [] \<Rightarrow> Inl (Err (PrefixError ''The length of all prefixes in the subtree must be the same.'')))
       [] actions"

definition clearing_delete_actions :: "history_action list \<Rightarrow> item \<Rightarrow> history_action list" where
  "clearing_delete_actions actions i =
     (let not_exist_insert_action = \<not> list_ex is_insert actions
      in if i = EmptyItem \<and> not_exist_insert_action then [] else actions)"

fun trim_key :: "history_action \<Rightarrow> (radix_tree_error, history_action) res" where
  "trim_key (InsertAction k h) =
     (case k of [] \<Rightarrow> Inl (Panic ''called unwrap on a None value'') | _ # key_tail \<Rightarrow> Inr (InsertAction key_tail h))"
| "trim_key (DeleteAction k) =
     (case k of [] \<Rightarrow> Inl (Panic ''called unwrap on a None value'') | _ # key_tail \<Rightarrow> Inr (DeleteAction key_tail))"

definition trim_keys :: "history_action list \<Rightarrow> (radix_tree_error, history_action list) res" where
  "trim_keys actions = sequence_res (map trim_key actions)"

definition process_one_action ::
  "radix_env \<Rightarrow> in_mem_store \<Rightarrow> history_action \<Rightarrow> item \<Rightarrow> nat \<Rightarrow> (nat \<times> item option) rt" where
  "process_one_action env st action i item_idx =
     sbind
       (case action of
          InsertAction k h \<Rightarrow>
            (case k of [] \<Rightarrow> sfail (Panic ''called unwrap on a None value'')
             | _ # key_tail \<Rightarrow> rt_update env st i key_tail h)
        | DeleteAction k \<Rightarrow>
            (case k of [] \<Rightarrow> sfail (Panic ''called unwrap on a None value'')
             | _ # key_tail \<Rightarrow> rt_delete env st i key_tail))
       (\<lambda>new_item. sret (item_idx, new_item))"

text \<open>What \<open>grouping\<close> and \<open>trim_keys\<close> return; used by the termination proof below.\<close>

lemma btree_push_set:
  "(k, as) \<in> set (btree_push b a m) \<Longrightarrow>
   (k, as) \<in> set m \<or> k = b \<and> (\<exists>as'. as = as' @ [a] \<and> (as' = [] \<or> (b, as') \<in> set m))"
  by (induction b a m rule: btree_push.induct) (auto split: if_splits)

lemma grouping_fold_groups:
  assumes "fold_res (\<lambda>groups action. case action_key action of
       first_byte # _ \<Rightarrow> Inr (btree_push first_byte action groups)
     | [] \<Rightarrow> Inl e) gs0 actions = Inr gs"
    and "\<And>b as. (b, as) \<in> set gs0 \<Longrightarrow> as \<noteq> [] \<and> set as \<subseteq> A \<and> (\<forall>a \<in> set as. \<exists>k. action_key a = b # k)"
    and "set actions \<subseteq> A" "(b, as) \<in> set gs"
  shows "as \<noteq> [] \<and> set as \<subseteq> A \<and> (\<forall>a \<in> set as. \<exists>k. action_key a = b # k)"
  using assms
proof (induction actions arbitrary: gs0)
  case (Cons a actions)
  from Cons.prems(1) obtain c k where key: "action_key a = c # k"
    by (cases "action_key a") auto
  show ?case
  proof (rule Cons.IH)
    show "fold_res (\<lambda>groups action. case action_key action of
       first_byte # _ \<Rightarrow> Inr (btree_push first_byte action groups)
     | [] \<Rightarrow> Inl e) (btree_push c a gs0) actions = Inr gs"
      using Cons.prems(1) key by simp
    show "as \<noteq> [] \<and> set as \<subseteq> A \<and> (\<forall>a \<in> set as. \<exists>k. action_key a = b # k)"
      if "(b, as) \<in> set (btree_push c a gs0)" for b as
      using btree_push_set [OF that] Cons.prems(2,3) key by fastforce
  qed (use Cons.prems in auto)
qed auto

lemma grouping_groups:
  assumes "grouping actions = Inr gs" "(b, as) \<in> set gs"
  shows "as \<noteq> []" "set as \<subseteq> set actions" "a \<in> set as \<Longrightarrow> \<exists>k. action_key a = b # k"
  using grouping_fold_groups [OF assms(1) [unfolded grouping_def] _ _ assms(2), of "set actions"]
  by auto

lemma trim_key_Inr: "trim_key a = Inr a' \<Longrightarrow> \<exists>b. action_key a = b # action_key a'"
  by (cases a) (auto split: list.splits)

lemma sequence_res_Inr: "sequence_res rs = Inr xs \<longleftrightarrow> rs = map Inr xs"
  by (induction rs arbitrary: xs) auto

definition max_key :: "history_action list \<Rightarrow> nat" where
  "max_key actions = Max (insert 0 (length ` action_key ` set actions))"

lemma max_key_mono: "set as \<subseteq> set bs \<Longrightarrow> max_key as \<le> max_key bs"
  unfolding max_key_def by (rule Max_mono) auto

lemma max_key_trim:
  assumes "trim_keys as = Inr as'" "as' \<noteq> []"
  shows "max_key as' < max_key as"
proof -
  have eq: "map trim_key as = map Inr as'"
    using assms(1) by (simp add: trim_keys_def sequence_res_Inr)
  have step: "\<exists>a \<in> set as. length (action_key a) = Suc (length (action_key a'))" if "a' \<in> set as'" for a'
  proof -
    from that have "Inr a' \<in> set (map trim_key as)"
      by (simp add: eq)
    then obtain a where a: "a \<in> set as" "trim_key a = Inr a'"
      by auto
    then obtain b where "action_key a = b # action_key a'"
      using trim_key_Inr by blast
    with a(1) show ?thesis by (intro bexI [of _ a]) simp
  qed
  have "length (action_key a') < max_key as" if "a' \<in> set as'" for a'
  proof -
    from step [OF that] obtain a where "a \<in> set as" "length (action_key a) = Suc (length (action_key a'))"
      by blast
    moreover from this(1) have "length (action_key a) \<le> max_key as"
      unfolding max_key_def by (intro Max_ge) auto
    ultimately show ?thesis by simp
  qed
  then show ?thesis
    using assms(2) by (fastforce simp: max_key_def neq_Nil_conv)
qed

definition apply_group_items :: "node \<Rightarrow> (nat \<times> item option) list \<Rightarrow> node" where
  "apply_group_items curr_node new_group_items =
     foldl (\<lambda>new_cur_node (index, new_item_opt).
              case new_item_opt of Some new_item \<Rightarrow> new_cur_node[index := new_item] | None \<Rightarrow> new_cur_node)
       curr_node new_group_items"

function make_actions ::
    "radix_env \<Rightarrow> in_mem_store \<Rightarrow> node \<Rightarrow> history_action list \<Rightarrow> node option rt"
  and process_several_actions ::
    "radix_env \<Rightarrow> in_mem_store \<Rightarrow> node \<Rightarrow> history_action list \<Rightarrow> item \<Rightarrow> nat \<Rightarrow> (nat \<times> item option) rt"
  and process_non_empty_actions ::
    "radix_env \<Rightarrow> in_mem_store \<Rightarrow> node \<Rightarrow> history_action list \<Rightarrow> nat \<Rightarrow> (nat \<times> item option) rt" where
  "make_actions env st curr_node actions =
     (case grouping actions of
        Inl e \<Rightarrow> sfail e
      | Inr grouped_actions \<Rightarrow> (\<lambda>t.
          let (new_group_items_results, t') =
            run_all (\<lambda>(group_idx, actions_in_group).
              let item_idx = byte_to_int group_idx in
              if \<not> item_idx < length curr_node then sfail (Panic ''index out of bounds'')
              else if length actions_in_group = 1
              then process_one_action env st (hd actions_in_group) (curr_node ! item_idx) item_idx
              else process_several_actions env st curr_node actions_in_group (curr_node ! item_idx) item_idx)
              grouped_actions t
          in case collect_results new_group_items_results of
               Inl e \<Rightarrow> (Inl e, t')
             | Inr new_group_items \<Rightarrow>
                 let new_cur_node = apply_group_items curr_node new_group_items
                 in if new_cur_node \<noteq> curr_node then (Inr (Some new_cur_node), t')
                    else (Inr None, t')))"
| "process_several_actions env st curr_node actions i item_idx =
     (let cleared_actions = clearing_delete_actions actions i
      in if cleared_actions = [] then sret (item_idx, None)
         else process_non_empty_actions env st curr_node cleared_actions item_idx)"
| "process_non_empty_actions env st curr_node actions item_idx =
     (if \<not> item_idx < length curr_node then sfail (Panic ''called unwrap on a None value'')
      else sbind (construct_node_from_item env st (curr_node ! item_idx)) (\<lambda>created_node.
        case trim_keys actions of
          Inl e \<Rightarrow> sfail e
        | Inr new_actions \<Rightarrow>
            sbind (make_actions env st created_node new_actions) (\<lambda>new_node_opt.
            (case new_node_opt of
               Some new_node \<Rightarrow>
                 sbind (save_node_and_create_item env new_node [] True)
                   (\<lambda>new_item. sret (item_idx, Some new_item))
             | None \<Rightarrow> sret (item_idx, None)))))"
  by pat_completeness auto
termination
proof (relation "measure (case_sum
    (\<lambda>(env, st, nd, as). if as = [] then 0 else 3 * max_key as + 3)
    (case_sum (\<lambda>(env, st, nd, as, i, n). 3 * max_key as + 2)
      (\<lambda>(env, st, nd, as, n). 3 * max_key as + 1)))", goal_cases)
  case (2 env st curr_node actions gs t x b as item_idx)
  then have "grouping actions = Inr gs" "(b, as) \<in> set gs"
    by auto
  note grouping_groups(1,2) [OF this]
  then show ?case
    using max_key_mono [of as actions] by auto
next
  case (3 env st curr_node actions i item_idx cleared)
  then show ?case
    by (auto simp: clearing_delete_actions_def Let_def split: if_splits)
next
  case (4 env st curr_node actions item_idx created new_actions)
  then show ?case
    using max_key_trim [of actions new_actions] by auto
qed simp

declare make_actions.simps [simp del] process_several_actions.simps [simp del]
  process_non_empty_actions.simps [simp del]

end
