(* ===== verification/RadixSpec.thy ===== *)
theory RadixSpec
  imports RadixTree
begin

section \<open>Abstract radix trees\<close>

text \<open>
  The specification the radix tree of the history implements. An \<open>itree\<close> is a radix
  tree with the children in place of the pointers to them; \<open>t_get\<close> is the finite map it
  stands for, \<open>t_ok n\<close> says that it is a compact tree for keys of \<open>n\<close> bytes: every leaf is at
  depth \<open>n\<close> and every inner node has at least two non-empty children. The main
  facts: insertion and deletion update the map and keep \<open>t_ok\<close>, and a
  map has only one compact tree (\<open>t_ok_unique\<close>).
\<close>

datatype itree = IEmpty | ILeaf bytes bytes | INode bytes "itree list"

function t_get :: "itree \<Rightarrow> bytes \<Rightarrow> bytes option" where
  "t_get IEmpty k = None"
| "t_get (ILeaf p v) k = (if k = p then Some v else None)"
| "t_get (INode p ts) k =
     (if prefix p k
      then (case drop (length p) k of [] \<Rightarrow> None | b # r \<Rightarrow> t_get (ts ! unat b) r)
      else None)"
  by pat_completeness auto
termination
proof (relation "measure (\<lambda>(t, k). length k)", goal_cases)
  case (2 p ts k b r)
  then have "length (drop (length p) k) = Suc (length r)"
    by simp
  then show ?case by simp
qed simp

fun t_ok :: "nat \<Rightarrow> itree \<Rightarrow> bool" where
  "t_ok n IEmpty = True"
| "t_ok n (ILeaf p v) = (length p = n \<and> length v = DEF_SIZE)"
| "t_ok n (INode p ts) =
     (length p < n \<and> length ts = 256 \<and> (\<forall>t \<in> set ts. t_ok (n - length p - 1) t)
      \<and> 2 \<le> length (filter (\<lambda>t. t \<noteq> IEmpty) ts))"

definition empties :: "itree list" where
  "empties = replicate NUM_ITEMS IEmpty"

lemma empties_simps [simp]:
  "length empties = 256"
  "i < 256 \<Longrightarrow> empties ! i = IEmpty"
  "set empties = {IEmpty}"
  by (simp_all add: empties_def NUM_ITEMS_def)

subsection \<open>Lookups\<close>

lemma t_get_INode: "t_get (INode p ts) (p @ b # r) = t_get (ts ! unat b) r"
  by simp

lemma t_get_INode_exact [simp]: "t_get (INode p ts) p = None"
  by simp

lemma t_get_INode_other: "\<not> prefix p k \<Longrightarrow> t_get (INode p ts) k = None"
  by simp

lemma t_get_INode_Some:
  "t_get (INode p ts) k = Some v \<longleftrightarrow> (\<exists>b r. k = p @ b # r \<and> t_get (ts ! unat b) r = Some v)"
  by (auto simp: prefix_def split: list.splits)

declare t_get.simps(3) [simp del]

lemma unat_byte_less [simp]: "unat (b :: byte) < 256"
  using unsigned_less [of b] by (simp add: nat_less_iff)

lemma byte_index: "i < 256 \<Longrightarrow> \<exists>b :: byte. unat b = i"
  using unat_index_byte by blast

lemma nth_child [simp, intro]: "length ts = 256 \<Longrightarrow> ts ! unat (b :: byte) \<in> set ts"
  by (rule nth_mem) simp

lemma t_ok_child: "t_ok n (INode p ts) \<Longrightarrow> t_ok (n - length p - 1) (ts ! unat (b :: byte))"
  using nth_child [of ts b] by auto

lemma t_get_length: "t_ok n t \<Longrightarrow> t_get t k = Some v \<Longrightarrow> length k = n"
proof (induction t arbitrary: n k)
  case (INode p ts)
  then obtain b r where k: "k = p @ b # r" "t_get (ts ! unat b) r = Some v"
    by (auto simp: t_get_INode_Some)
  have "length r = n - length p - 1"
    using INode.prems(1) by (intro INode.IH [OF _ t_ok_child k(2)]) auto
  with k(1) INode.prems(1) show ?case by auto
qed (auto split: if_splits)

lemma t_get_value_length: "t_ok n t \<Longrightarrow> t_get t k = Some v \<Longrightarrow> length v = DEF_SIZE"
proof (induction t arbitrary: n k)
  case (INode p ts)
  then obtain b r where k: "k = p @ b # r" "t_get (ts ! unat b) r = Some v"
    by (auto simp: t_get_INode_Some)
  show ?case
    using INode.prems(1) by (intro INode.IH [OF _ t_ok_child k(2)]) auto
qed (auto split: if_splits)

subsection \<open>Two children\<close>

lemma filter_ge_2_iff:
  "2 \<le> length (filter P xs) \<longleftrightarrow> (\<exists>i j. i \<noteq> j \<and> i < length xs \<and> j < length xs \<and> P (xs ! i) \<and> P (xs ! j))"
proof -
  let ?A = "{i. i < length xs \<and> P (xs ! i)}"
  have "2 \<le> length (filter P xs) \<longleftrightarrow> \<not> card ?A \<le> Suc 0"
    by (simp add: length_filter_conv_card not_le numeral_2_eq_2 Suc_le_eq)
  also have "\<dots> \<longleftrightarrow> \<not> (\<forall>i \<in> ?A. \<forall>j \<in> ?A. i = j)"
    by (subst card_le_Suc0_iff_eq) simp_all
  finally show ?thesis by blast
qed

lemma t_ok_two_children:
  assumes "t_ok n (INode p ts)"
  obtains b c :: byte where "b \<noteq> c" "ts ! unat b \<noteq> IEmpty" "ts ! unat c \<noteq> IEmpty"
proof -
  from assms obtain i j where ij: "i \<noteq> j" "i < 256" "j < 256" "ts ! i \<noteq> IEmpty" "ts ! j \<noteq> IEmpty"
    by (auto simp: filter_ge_2_iff)
  from byte_index [OF ij(2)] byte_index [OF ij(3)] obtain b c :: byte
    where "unat b = i" "unat c = j" by blast
  with ij show ?thesis
    by (intro that [of b c]) auto
qed

subsection \<open>A map has one compact tree\<close>

lemma t_ok_inhabited: "t_ok n t \<Longrightarrow> t \<noteq> IEmpty \<Longrightarrow> \<exists>k v. length k = n \<and> t_get t k = Some v"
proof (induction t arbitrary: n)
  case (INode p ts)
  from t_ok_two_children [OF INode.prems(1)] obtain b :: byte where b: "ts ! unat b \<noteq> IEmpty"
    by blast
  have "\<exists>k v. length k = n - length p - 1 \<and> t_get (ts ! unat b) k = Some v"
    using INode.prems(1) by (intro INode.IH [OF _ t_ok_child b]) auto
  then obtain k v where "length k = n - length p - 1" "t_get (ts ! unat b) k = Some v"
    by blast
  with INode.prems(1) show ?case
    by (intro exI [of _ "p @ b # k"] exI [of _ v]) (auto simp: t_get_INode)
qed auto

text \<open>The prefix of an inner node is the longest prefix all keys of the tree share.\<close>

lemma INode_forks:
  assumes "t_ok n (INode p ts)"
  obtains b c k1 k2 v1 v2 where "b \<noteq> c" "t_get (INode p ts) (p @ b # k1) = Some v1"
    "t_get (INode p ts) (p @ c # k2) = Some v2"
proof -
  from t_ok_two_children [OF assms] obtain b c :: byte
    where bc: "b \<noteq> c" "ts ! unat b \<noteq> IEmpty" "ts ! unat c \<noteq> IEmpty" .
  from t_ok_inhabited [OF t_ok_child [OF assms] bc(2)] t_ok_inhabited [OF t_ok_child [OF assms] bc(3)]
  show ?thesis
    using that [OF bc(1)] by (auto simp: t_get_INode)
qed

lemma fork_prefix:
  assumes "prefix q (p @ b # k1)" "prefix q (p @ c # k2)" "b \<noteq> c"
  shows "prefix q p"
  using assms by (auto simp: prefix_append prefix_Cons)

lemma INode_prefix_unique:
  assumes "t_ok n (INode p ts)" "t_ok n (INode q us)"
    and "\<And>k. t_get (INode p ts) k = t_get (INode q us) k"
  shows "p = q"
proof -
  have *: "prefix q p" if ok: "t_ok n (INode p ts)"
    and eq: "\<And>k. t_get (INode p ts) k = t_get (INode q us) k" for p q ts us
  proof -
    from INode_forks [OF ok] obtain b c k1 k2 v1 v2
      where "b \<noteq> c" "t_get (INode p ts) (p @ b # k1) = Some v1" "t_get (INode p ts) (p @ c # k2) = Some v2" .
    then have "t_get (INode q us) (p @ b # k1) = Some v1" "t_get (INode q us) (p @ c # k2) = Some v2"
      by (simp_all add: eq)
    then have "prefix q (p @ b # k1)" "prefix q (p @ c # k2)"
      by (metis option.discI t_get_INode_other)+
    then show "prefix q p"
      using \<open>b \<noteq> c\<close> by (rule fork_prefix)
  qed
  show ?thesis
    using * [OF assms(1,3)] * [OF assms(2) assms(3) [symmetric]] by (rule prefix_order.antisym [rotated])
qed

lemma t_get_ext: "t_ok n t \<Longrightarrow> t_ok n u \<Longrightarrow> (\<And>k. length k = n \<Longrightarrow> t_get t k = t_get u k) \<Longrightarrow> t_get t k = t_get u k"
  by (metis not_None_eq t_get_length)

lemma t_ok_unique:
  "t_ok n t \<Longrightarrow> t_ok n u \<Longrightarrow> (\<And>k. length k = n \<Longrightarrow> t_get t k = t_get u k) \<Longrightarrow> t = u"
proof (induction t arbitrary: n u)
  case IEmpty
  then have "\<And>k. length k = n \<Longrightarrow> t_get u k = None" by simp
  then show ?case
    using t_ok_inhabited [OF IEmpty.prems(2)] by force
next
  case (ILeaf p v)
  note eq = t_get_ext [OF ILeaf.prems]
  have p: "t_get u p = Some v"
    using eq [of p] by simp
  show ?case
  proof (cases u)
    case (INode q us)
    with ILeaf.prems(2) INode_forks [of n q us] obtain b c k1 k2 v1 v2
      where "b \<noteq> c" "t_get u (q @ b # k1) = Some v1" "t_get u (q @ c # k2) = Some v2"
      by metis
    then have "q @ b # k1 = p" "q @ c # k2 = p"
      using eq by (metis option.discI t_get.simps(2))+
    with \<open>b \<noteq> c\<close> show ?thesis by auto
  qed (use p in \<open>auto split: if_splits\<close>)
next
  case (INode p ts)
  note eq = t_get_ext [OF INode.prems]
  from INode_forks [OF INode.prems(1)] obtain b c k1 k2 v1 v2
    where f: "b \<noteq> c" "t_get u (p @ b # k1) = Some v1" "t_get u (p @ c # k2) = Some v2"
    using eq by metis
  show ?case
  proof (cases u)
    case (INode q us)
    note u = this
    have pq: "p = q"
      using INode.prems(1) INode.prems(2) [unfolded u] eq [unfolded u] by (rule INode_prefix_unique)
    have "ts ! i = us ! i" if "i < 256" for i
    proof -
      from byte_index [OF that] obtain d :: byte where d: "unat d = i" by blast
      have "t_get (ts ! unat d) k = t_get (us ! unat d) k" for k
        using eq [of "p @ d # k"] by (simp add: u pq t_get_INode)
      then have "ts ! unat d = us ! unat d"
        using INode.prems(1,2)
        by (intro INode.IH [OF _ t_ok_child [OF INode.prems(1)] t_ok_child]) (auto simp: u pq)
      then show ?thesis by (simp add: d)
    qed
    then have "ts = us"
      using INode.prems(1,2) by (intro nth_equalityI) (auto simp: u)
    then show ?thesis by (simp add: u pq)
  qed (use f in \<open>auto split: if_splits\<close>)
qed

subsection \<open>The smart constructor of inner nodes\<close>

fun t_push :: "bytes \<Rightarrow> itree \<Rightarrow> itree" where
  "t_push q IEmpty = IEmpty"
| "t_push q (ILeaf p v) = ILeaf (q @ p) v"
| "t_push q (INode p ts) = INode (q @ p) ts"

definition t_node :: "bytes \<Rightarrow> itree list \<Rightarrow> itree" where
  "t_node p ts =
     (case filter (\<lambda>i. ts ! i \<noteq> IEmpty) [0..<length ts] of
        [] \<Rightarrow> IEmpty
      | [i] \<Rightarrow> t_push (p @ [word_of_nat i]) (ts ! i)
      | _ \<Rightarrow> INode p ts)"

lemma t_push_eq_IEmpty [simp]: "t_push q t = IEmpty \<longleftrightarrow> t = IEmpty"
  by (cases t) simp_all

lemma t_get_push: "t_get (t_push q t) (q @ k) = t_get t k"
proof (cases t)
  case (INode p ts)
  then show ?thesis
    by (cases "prefix p k") (auto simp: prefix_def t_get.simps(3) split: list.splits)
qed auto

lemma t_get_push_other: "\<not> prefix q k \<Longrightarrow> t_get (t_push q t) k = None"
proof (cases t)
  case (INode p ts)
  assume "\<not> prefix q k"
  then have "\<not> prefix (q @ p) k"
    using append_prefixD by blast
  then show ?thesis
    by (simp add: INode t_get_INode_other)
qed auto

lemma t_get_push_eq: "t_get (t_push q t) k = (if prefix q k then t_get t (drop (length q) k) else None)"
  by (auto simp: t_get_push t_get_push_other prefix_def)

lemma t_ok_push: "t_ok n t \<Longrightarrow> t_ok (length q + n) (t_push q t)"
  by (cases t) (auto simp: diff_add_assoc2)

lemma filter_upt_cases:
  obtains (none) "filter P [0..<n] = []" "\<forall>i < n. \<not> P i"
  | (one) i where "filter P [0..<n] = [i]" "i < n" "P i" "\<forall>j < n. j \<noteq> i \<longrightarrow> \<not> P j"
  | (more) i j js where "filter P [0..<n] = i # j # js" "i \<noteq> j" "i < n" "j < n" "P i" "P j"
proof -
  have mem: "j \<in> set (filter P [0..<n]) \<longleftrightarrow> j < n \<and> P j" for j
    by auto
  have dist: "distinct (filter P [0..<n])"
    by simp
  consider "filter P [0..<n] = []" | i where "filter P [0..<n] = [i]"
    | i j js where "filter P [0..<n] = i # j # js"
    by (metis neq_Nil_conv)
  then show ?thesis
  proof cases
    case 1
    then have "\<forall>i < n. \<not> P i"
      using mem by (metis list.set_intros(1) empty_iff list.set(1))
    with 1 show ?thesis by (rule none)
  next
    case (2 i)
    then have "j < n \<and> P j \<longleftrightarrow> j = i" for j
      using mem [of j] unfolding 2 by simp
    with 2 show ?thesis by (intro one [of i]) blast+
  next
    case (3 i j js)
    have "i < n \<and> P i" "j < n \<and> P j"
      using mem [of i] mem [of j] unfolding 3 by simp_all
    moreover have "i \<noteq> j"
      using dist unfolding 3 by simp
    ultimately show ?thesis
      using 3 by (intro more [of i j js]) blast+
  qed
qed

lemma t_get_node:
  assumes "length ts = 256"
  shows "t_get (t_node p ts) k = t_get (INode p ts) k"
proof (cases rule: filter_upt_cases [of "\<lambda>i. ts ! i \<noteq> IEmpty" "length ts"])
  case none
  then have "t_get (INode p ts) k \<noteq> Some v" for v
    using assms by (auto simp: t_get_INode_Some)
  then have "t_get (INode p ts) k = None"
    by (cases "t_get (INode p ts) k") blast+
  with none show ?thesis by (simp add: t_node_def)
next
  case (one i)
  let ?b = "word_of_nat i :: byte"
  have b: "unat ?b = i"
    using one assms by (simp add: unat_index_byte)
  show ?thesis
  proof (cases "prefix (p @ [?b]) k")
    case True
    then obtain r where k: "k = (p @ [?b]) @ r"
      by (auto simp: prefix_def)
    show ?thesis
      using t_get_push [of "p @ [?b]" "ts ! i" r] b by (simp add: t_node_def one k t_get_INode)
  next
    case False
    have "t_get (INode p ts) k \<noteq> Some v" for v
    proof
      assume "t_get (INode p ts) k = Some v"
      then obtain c r where c: "k = p @ c # r" "t_get (ts ! unat c) r = Some v"
        by (auto simp: t_get_INode_Some)
      with one assms have "unat c = i"
        by (metis option.distinct(1) t_get.simps(1) unat_byte_less)
      then have "c = ?b" using b by (metis word_unat_eq_iff)
      with c False show False by (simp add: prefix_def)
    qed
    then have "t_get (INode p ts) k = None"
      by (cases "t_get (INode p ts) k") blast+
    with False one show ?thesis
      by (simp add: t_node_def t_get_push_other)
  qed
next
  case more
  then show ?thesis by (simp add: t_node_def)
qed

lemma t_ok_node:
  assumes "length ts = 256" "\<forall>t \<in> set ts. t_ok n t"
  shows "t_ok (length p + 1 + n) (t_node p ts)"
proof (cases rule: filter_upt_cases [of "\<lambda>i. ts ! i \<noteq> IEmpty" "length ts"])
  case (one i)
  then have "t_ok n (ts ! i)"
    using assms by simp
  then show ?thesis
    using t_ok_push [of n "ts ! i" "p @ [word_of_nat i]"] by (simp add: t_node_def one)
next
  case (more i j js)
  then have "2 \<le> length (filter (\<lambda>t. t \<noteq> IEmpty) ts)"
    by (auto simp: filter_ge_2_iff)
  with more assms show ?thesis by (simp add: t_node_def)
qed (simp add: t_node_def)

lemma t_node_compact: "t_ok n (INode p ts) \<Longrightarrow> t_node p ts = INode p ts"
proof (rule t_ok_unique [of n])
  assume ok: "t_ok n (INode p ts)"
  then show "t_ok n (t_node p ts)"
    using t_ok_node [of ts "n - length p - 1" p] by simp
  show "t_get (t_node p ts) k = t_get (INode p ts) k" for k
    using ok by (simp add: t_get_node)
qed

lemma unat_eq_byte [simp]: "unat (a :: byte) = unat b \<longleftrightarrow> a = b"
  by (simp add: word_unat_eq_iff)

text \<open>A node with exactly two children.\<close>

definition two :: "byte \<Rightarrow> itree \<Rightarrow> byte \<Rightarrow> itree \<Rightarrow> itree list" where
  "two q x b y = empties[unat q := x, unat b := y]"

lemma length_two [simp]: "length (two q x b y) = 256"
  by (simp add: two_def)

lemma nth_two:
  "q \<noteq> b \<Longrightarrow> two q x b y ! unat (c :: byte) = (if c = b then y else if c = q then x else IEmpty)"
  by (simp add: two_def nth_list_update)

lemma set_two: "set (two q x b y) \<subseteq> {x, y, IEmpty}"
  using set_update_subset_insert [of "empties[unat q := x]" "unat b" y]
    set_update_subset_insert [of empties "unat q" x]
  by (auto simp: two_def)

lemma t_ok_two:
  assumes "q \<noteq> b" "t_ok m x" "t_ok m y" "x \<noteq> IEmpty" "y \<noteq> IEmpty" "n = length c + 1 + m"
  shows "t_ok n (INode c (two q x b y))"
proof -
  have "\<forall>t \<in> set (two q x b y). t_ok m t"
    using set_two [of q x b y] assms by auto
  moreover have "two q x b y ! unat q \<noteq> IEmpty" "two q x b y ! unat b \<noteq> IEmpty"
    using assms by (simp_all add: nth_two)
  then have "2 \<le> length (filter (\<lambda>t. t \<noteq> IEmpty) (two q x b y))"
    using assms(1) by (subst filter_ge_2_iff) (metis length_two unat_byte_less unat_eq_byte)
  ultimately show ?thesis
    using assms(6) by simp
qed

lemma t_get_two:
  assumes "q \<noteq> b"
  shows "t_get (INode c (two q x b y)) k =
    (if prefix (c @ [b]) k then t_get y (drop (Suc (length c)) k)
     else if prefix (c @ [q]) k then t_get x (drop (Suc (length c)) k) else None)"
proof (cases "\<exists>d r. k = c @ d # r")
  case True
  then show ?thesis
    using assms by (auto simp: t_get_INode nth_two)
next
  case False
  then have "t_get (INode c (two q x b y)) k = None"
    by (cases "t_get (INode c (two q x b y)) k") (auto simp: t_get_INode_Some)
  with False show ?thesis by (auto simp: prefix_def)
qed

subsection \<open>Insertion\<close>

function t_ins :: "itree \<Rightarrow> bytes \<Rightarrow> bytes \<Rightarrow> itree" where
  "t_ins IEmpty k v = ILeaf k v"
| "t_ins (ILeaf p w) k v =
     (case common_prefix k p of
        (c, i # ir, l # lr) \<Rightarrow> INode c (two l (ILeaf lr w) i (ILeaf ir v))
      | _ \<Rightarrow> ILeaf k v)"
| "t_ins (INode p ts) k v =
     (case common_prefix k p of
        (c, b # r, []) \<Rightarrow> INode p (ts[unat b := t_ins (ts ! unat b) r v])
      | (c, b # r, q # qr) \<Rightarrow> INode c (two q (INode qr ts) b (ILeaf r v))
      | _ \<Rightarrow> INode p ts)"
  by pat_completeness auto
termination
  by (relation "measure (\<lambda>(t, k, v). length k)") (auto dest!: common_prefix_spec(1) [OF sym])

declare t_ins.simps(2,3) [simp del]

text \<open>The two ways a path is followed: it ends inside a prefix, or goes on below it.\<close>

lemma same_length_fork:
  assumes "length k = length p" "k \<noteq> p"
  obtains c i ir l lr where "common_prefix k p = (c, i # ir, l # lr)" "i \<noteq> l"
    "k = c @ i # ir" "p = c @ l # lr" "length ir = length lr"
proof -
  obtain c k' p' where cp: "common_prefix k p = (c, k', p')"
    by (cases "common_prefix k p") auto
  note spec = common_prefix_spec [OF cp]
  have "k' \<noteq> []" "p' \<noteq> []"
    using assms spec(1,2) by fastforce+
  then obtain i ir l lr where kp: "k' = i # ir" "p' = l # lr"
    by (meson neq_Nil_conv)
  have "i \<noteq> l" "length ir = length lr"
    using spec(3) assms(1) unfolding kp by (auto simp: spec(1,2) kp)
  then show ?thesis
    using cp spec(1,2) unfolding kp by (intro that)
qed

lemma longer_key_cases:
  assumes "length p < length k"
  obtains (through) b r where "common_prefix k p = (p, b # r, [])" "k = p @ b # r"
  | (fork) c b r q qr where "common_prefix k p = (c, b # r, q # qr)" "b \<noteq> q" "k = c @ b # r" "p = c @ q # qr"
proof -
  obtain c k' p' where cp: "common_prefix k p = (c, k', p')"
    by (cases "common_prefix k p") auto
  note spec = common_prefix_spec [OF cp]
  have "k' \<noteq> []"
    using assms spec(1,2) by fastforce
  then obtain b r where k': "k' = b # r"
    by (meson neq_Nil_conv)
  show ?thesis
  proof (cases p')
    case Nil
    then have "c = p" using spec(2) by simp
    then show ?thesis
      using through [of b r] cp spec(1) by (simp add: k' Nil)
  next
    case (Cons q qr)
    have "b \<noteq> q"
      using spec(3) by (simp add: k' Cons)
    then show ?thesis
      using cp spec(1,2) unfolding k' Cons by (intro fork)
  qed
qed

lemma t_ins_simps [simp]:
  "t_ins IEmpty k v = ILeaf k v"
  "t_ins (ILeaf k w) k v = ILeaf k v"
  "i \<noteq> l \<Longrightarrow> t_ins (ILeaf (c @ l # lr) w) (c @ i # ir) v = INode c (two l (ILeaf lr w) i (ILeaf ir v))"
  "t_ins (INode p ts) (p @ b # r) v = INode p (ts[unat b := t_ins (ts ! unat b) r v])"
  "b \<noteq> q \<Longrightarrow> t_ins (INode (c @ q # qr) ts) (c @ b # r) v = INode c (two q (INode qr ts) b (ILeaf r v))"
  using common_prefix_of_prefix [of k "[]"] by (simp_all add: t_ins.simps)

lemma filter_ge_2_update:
  assumes "2 \<le> length (filter P xs)" "P y"
  shows "2 \<le> length (filter P (xs[i := y]))"
proof -
  obtain j k where jk: "j \<noteq> k" "j < length xs" "k < length xs" "P (xs ! j)" "P (xs ! k)"
    using assms(1) unfolding filter_ge_2_iff by blast
  have "P (xs[i := y] ! m)" if "m < length xs" "P (xs ! m)" for m
    using that assms(2) by (cases "i = m") simp_all
  with jk show ?thesis
    unfolding filter_ge_2_iff by (intro exI [of _ j] exI [of _ k]) simp
qed

lemma t_ok_child_update:
  assumes "t_ok n (INode p ts)" "t_ok (n - length p - 1) t" "t \<noteq> IEmpty"
  shows "t_ok n (INode p (ts[unat (b :: byte) := t]))"
proof -
  have "2 \<le> length (filter (\<lambda>t. t \<noteq> IEmpty) (ts[unat b := t]))"
    using assms by (intro filter_ge_2_update) simp_all
  moreover have "\<forall>u \<in> set (ts[unat b := t]). t_ok (n - length p - 1) u"
    using assms(1,2) set_update_subset_insert [of ts "unat b" t] by auto
  ultimately show ?thesis using assms(1) by simp
qed

lemma t_ins_not_empty: "t_ins t k v \<noteq> IEmpty"
  by (cases t) (auto simp: t_ins.simps split: prod.splits list.splits)

lemma t_ok_ins: "t_ok n t \<Longrightarrow> length k = n \<Longrightarrow> length v = DEF_SIZE \<Longrightarrow> t_ok n (t_ins t k v)"
proof (induction t k v arbitrary: n rule: t_ins.induct)
  case (2 p w k v)
  show ?case
  proof (cases "k = p")
    case False
    have "length k = length p"
      using 2 by simp
    from this False obtain c i ir l lr where "common_prefix k p = (c, i # ir, l # lr)" "i \<noteq> l"
      "k = c @ i # ir" "p = c @ l # lr" "length ir = length lr"
      by (rule same_length_fork)
    with 2 show ?thesis
      by (auto intro: t_ok_two [of l i "length lr"] simp del: t_ok.simps(3))
  qed (use 2 in simp)
next
  case (3 p ts k v)
  then have "length p < length k" by simp
  then show ?case
  proof (cases rule: longer_key_cases)
    case (through b r)
    have "t_ok (length r) (t_ins (ts ! unat b) r v)"
      using 3 through by (intro "3.IH") (auto dest: t_ok_child simp del: t_ok.simps)
    then show ?thesis
      using "3.prems" through(2) by (auto intro!: t_ok_child_update t_ins_not_empty simp del: t_ok.simps)
  next
    case (fork c b r q qr)
    have "t_ok n (INode c (two q (INode qr ts) b (ILeaf r v)))"
      using 3 fork by (intro t_ok_two [of q b "length r"]) auto
    with fork show ?thesis by simp
  qed
qed simp

lemma t_get_ins:
  "t_ok n t \<Longrightarrow> length k = n \<Longrightarrow> length v = DEF_SIZE \<Longrightarrow> t_get (t_ins t k v) k' = ((t_get t)(k \<mapsto> v)) k'"
proof (induction t k v arbitrary: n k' rule: t_ins.induct)
  case (2 p w k v)
  show ?case
  proof (cases "k = p")
    case False
    have "length k = length p"
      using 2 by simp
    from this False obtain c i ir l lr where "common_prefix k p = (c, i # ir, l # lr)" "i \<noteq> l"
      "k = c @ i # ir" "p = c @ l # lr" "length ir = length lr"
      by (rule same_length_fork)
    then show ?thesis
      by (auto simp: t_get_two prefix_def simp del: t_get.simps(3))
  qed simp
next
  case (3 p ts k v)
  then have "length p < length k" by simp
  then show ?case
  proof (cases rule: longer_key_cases)
    case (through b r)
    have IH: "t_get (t_ins (ts ! unat b) r v) k'' = ((t_get (ts ! unat b))(r \<mapsto> v)) k''" for k''
      using 3 through by (intro "3.IH") (auto dest: t_ok_child simp del: t_ok.simps)
    show ?thesis
      using "3.prems" through(2) IH by (auto simp: t_get.simps(3) nth_list_update prefix_def split: list.splits)
  next
    case (fork c b r q qr)
    have "t_get (INode p ts) k' =
      (if prefix (c @ [q]) k' then t_get (INode qr ts) (drop (Suc (length c)) k') else None)"
      using t_get_push_eq [of "c @ [q]" "INode qr ts" k'] fork by simp
    then show ?thesis
      using fork by (auto simp: t_get_two prefix_def simp del: t_get.simps(3))
  qed
qed auto

subsection \<open>Deletion\<close>

function t_del :: "itree \<Rightarrow> bytes \<Rightarrow> itree" where
  "t_del IEmpty k = IEmpty"
| "t_del (ILeaf p v) k = (if k = p then IEmpty else ILeaf p v)"
| "t_del (INode p ts) k =
     (if prefix p k
      then (case drop (length p) k of
              [] \<Rightarrow> INode p ts
            | b # r \<Rightarrow> t_node p (ts[unat b := t_del (ts ! unat b) r]))
      else INode p ts)"
  by pat_completeness auto
termination
proof (relation "measure (\<lambda>(t, k). length k)", goal_cases)
  case (2 p ts k b r)
  then have "length (drop (length p) k) = Suc (length r)"
    by simp
  then show ?case by simp
qed simp

declare t_del.simps(3) [simp del]

lemma t_del_INode [simp]: "t_del (INode p ts) (p @ b # r) = t_node p (ts[unat b := t_del (ts ! unat b) r])"
  by (simp add: t_del.simps(3))

lemma t_ok_del: "t_ok n t \<Longrightarrow> t_ok n (t_del t k)"
proof (induction t k arbitrary: n rule: t_del.induct)
  case (3 p ts k)
  show ?case
  proof (cases "\<exists>b r. k = p @ b # r")
    case True
    then obtain b r where k: "k = p @ b # r" by blast
    have "t_ok (n - length p - 1) (t_del (ts ! unat b) r)"
      using 3 by (intro "3.IH" t_ok_child) (auto simp: k)
    then have "\<forall>t \<in> set (ts[unat b := t_del (ts ! unat b) r]). t_ok (n - length p - 1) t"
      using "3.prems" set_update_subset_insert [of ts "unat b" "t_del (ts ! unat b) r"] by auto
    then show ?thesis
      using t_ok_node [of "ts[unat b := t_del (ts ! unat b) r]" "n - length p - 1" p] "3.prems"
      by (simp add: k)
  next
    case False
    with 3 show ?thesis
      by (auto simp: t_del.simps(3) prefix_def split: list.splits)
  qed
qed auto

lemma t_get_del: "t_ok n t \<Longrightarrow> t_get (t_del t k) k' = ((t_get t)(k := None)) k'"
proof (induction t k arbitrary: n k' rule: t_del.induct)
  case (3 p ts k)
  show ?case
  proof (cases "\<exists>b r. k = p @ b # r")
    case True
    then obtain b r where k: "k = p @ b # r" by blast
    have IH: "t_get (t_del (ts ! unat b) r) k'' = ((t_get (ts ! unat b))(r := None)) k''" for k''
      using 3 by (intro "3.IH" t_ok_child) (auto simp: k)
    show ?thesis
      using "3.prems" IH
      by (auto simp: k t_get_node t_get.simps(3) nth_list_update prefix_def split: list.splits)
  next
    case False
    then have "t_get (INode p ts) k = None"
      by (cases "t_get (INode p ts) k") (auto simp: t_get_INode_Some)
    with False show ?thesis
      by (auto simp: t_del.simps(3) prefix_def split: list.splits)
  qed
qed auto

subsection \<open>Opening a tree at its first byte\<close>

text \<open>The children that \<open>construct_node_from_item\<close> makes of an item.\<close>

fun expand :: "itree \<Rightarrow> itree list" where
  "expand IEmpty = empties"
| "expand (ILeaf p v) = (case p of [] \<Rightarrow> empties | b # r \<Rightarrow> empties[unat b := ILeaf r v])"
| "expand (INode p ts) = (case p of [] \<Rightarrow> ts | b # r \<Rightarrow> empties[unat b := INode r ts])"

lemma length_expand: "t_ok n t \<Longrightarrow> length (expand t) = 256"
  by (cases t) (auto split: list.splits)

lemma set_single_child: "set (empties[i := t]) \<subseteq> {IEmpty, t}"
  using set_update_subset_insert [of empties i t] by auto

lemma t_ok_expand: "t_ok (Suc n) t \<Longrightarrow> u \<in> set (expand t) \<Longrightarrow> t_ok n u"
  using set_single_child by (cases t) (fastforce split: list.splits)+

lemma nth_single_child: "empties[unat (b :: byte) := t] ! unat (c :: byte) = (if b = c then t else IEmpty)"
  by (simp add: nth_list_update)

lemma t_get_expand: "t_ok (Suc n) t \<Longrightarrow> t_get (expand t ! unat b) r = t_get t (b # r)"
  by (cases t) (auto simp: nth_single_child t_get.simps(3) split: list.splits)

lemma t_node_expand: "t_ok (Suc n) t \<Longrightarrow> t_node [] (expand t) = t"
proof (rule t_ok_unique [of "Suc n"])
  assume ok: "t_ok (Suc n) t"
  then show "t_ok (Suc n) (t_node [] (expand t))"
    using t_ok_node [of "expand t" n "[]"] t_ok_expand length_expand by simp
  show "t_get (t_node [] (expand t)) k = t_get t k" for k
  proof (cases k)
    case Nil
    have "t_get t [] = None"
      using t_get_length [OF ok, of "[]"] by (cases "t_get t []") auto
    then show ?thesis
      using ok Nil by (simp add: t_get_node length_expand)
  next
    case (Cons b r)
    then show ?thesis
      using ok t_get_INode [of "[]" "expand t" b r] by (simp add: t_get_node length_expand t_get_expand)
  qed
qed

subsection \<open>Actions\<close>

text \<open>
  What an action means: \<open>act_map\<close> on finite maps, \<open>t_act\<close> on trees and \<open>root_act\<close> on the
  256 trees below a root node.
\<close>

fun act_map :: "(bytes \<rightharpoonup> bytes) \<Rightarrow> history_action \<Rightarrow> (bytes \<rightharpoonup> bytes)" where
  "act_map m (InsertAction k v) = m(k \<mapsto> v)"
| "act_map m (DeleteAction k) = m(k := None)"

fun t_act :: "itree \<Rightarrow> history_action \<Rightarrow> itree" where
  "t_act t (InsertAction k v) = t_ins t k v"
| "t_act t (DeleteAction k) = t_del t k"

fun act_ok :: "nat \<Rightarrow> history_action \<Rightarrow> bool" where
  "act_ok n (InsertAction k v) = (length k = n \<and> length v = DEF_SIZE)"
| "act_ok n (DeleteAction k) = (length k = n)"

fun act_tl :: "history_action \<Rightarrow> history_action" where
  "act_tl (InsertAction k v) = InsertAction (tl k) v"
| "act_tl (DeleteAction k) = DeleteAction (tl k)"

definition root_act :: "itree list \<Rightarrow> history_action \<Rightarrow> itree list" where
  "root_act ts a = (let i = unat (hd (action_key a)) in ts[i := t_act (ts ! i) (act_tl a)])"

definition root_get :: "itree list \<Rightarrow> bytes \<Rightarrow> bytes option" where
  "root_get ts k = (case k of [] \<Rightarrow> None | b # r \<Rightarrow> t_get (ts ! unat b) r)"

definition root_ok :: "nat \<Rightarrow> itree list \<Rightarrow> bool" where
  "root_ok n ts \<longleftrightarrow> length ts = 256 \<and> (\<forall>t \<in> set ts. t_ok n t)"

lemma root_get_simps [simp]:
  "root_get ts [] = None"
  "root_get ts (b # r) = t_get (ts ! unat b) r"
  by (simp_all add: root_get_def)

lemma root_ok_child: "root_ok n ts \<Longrightarrow> t_ok n (ts ! unat (b :: byte))"
  by (auto simp: root_ok_def)

lemma root_ok_length: "root_ok n ts \<Longrightarrow> length ts = 256"
  by (simp add: root_ok_def)

lemma action_key_ok: "act_ok n a \<Longrightarrow> length (action_key a) = n"
  by (cases a) auto

lemma action_key_tl [simp]: "action_key (act_tl a) = tl (action_key a)"
  by (cases a) auto

lemma act_ok_tl: "act_ok (Suc n) a \<Longrightarrow> act_ok n (act_tl a)"
  by (cases a) auto

lemma t_ok_act: "t_ok n t \<Longrightarrow> act_ok n a \<Longrightarrow> t_ok n (t_act t a)"
  by (cases a) (auto intro: t_ok_ins t_ok_del)

lemma t_get_act: "t_ok n t \<Longrightarrow> act_ok n a \<Longrightarrow> t_get (t_act t a) = act_map (t_get t) a"
  by (cases a) (auto simp: t_get_ins t_get_del)

lemma t_ok_acts: "t_ok n t \<Longrightarrow> list_all (act_ok n) as \<Longrightarrow> t_ok n (foldl t_act t as)"
  by (induction as arbitrary: t) (auto intro: t_ok_act)

lemma t_get_acts:
  "t_ok n t \<Longrightarrow> list_all (act_ok n) as \<Longrightarrow> t_get (foldl t_act t as) = foldl act_map (t_get t) as"
  by (induction as arbitrary: t) (auto simp: t_ok_act t_get_act)

lemma root_ok_act:
  assumes "root_ok n ts" "act_ok (Suc n) a"
  shows "root_ok n (root_act ts a)"
  using assms root_ok_child [OF assms(1), of "hd (action_key a)"] t_ok_act [OF _ act_ok_tl [OF assms(2)]]
    set_update_subset_insert
  by (fastforce simp: root_ok_def root_act_def Let_def)

lemma root_get_act:
  assumes "root_ok n ts" "act_ok (Suc n) a"
  shows "root_get (root_act ts a) = act_map (root_get ts) a"
proof
  fix k
  obtain c r where key: "action_key a = c # r"
    using action_key_ok [OF assms(2)] by (cases "action_key a") auto
  have "t_get (t_act (ts ! unat c) (act_tl a)) = act_map (t_get (ts ! unat c)) (act_tl a)"
    by (rule t_get_act [OF root_ok_child [OF assms(1)] act_ok_tl [OF assms(2)]])
  with key show "root_get (root_act ts a) k = act_map (root_get ts) a k"
    using root_ok_length [OF assms(1)]
    by (cases a; cases k) (auto simp: root_act_def root_get_def nth_list_update Let_def)
qed

lemma root_ok_acts: "root_ok n ts \<Longrightarrow> list_all (act_ok (Suc n)) as \<Longrightarrow> root_ok n (foldl root_act ts as)"
  by (induction as arbitrary: ts) (auto intro: root_ok_act)

lemma root_get_acts:
  "root_ok n ts \<Longrightarrow> list_all (act_ok (Suc n)) as \<Longrightarrow>
   root_get (foldl root_act ts as) = foldl act_map (root_get ts) as"
  by (induction as arbitrary: ts) (auto simp: root_ok_act root_get_act)

text \<open>The content of a root determines the root.\<close>

lemma root_unique:
  assumes "root_ok n ts" "root_ok n us" "root_get ts = root_get us"
  shows "ts = us"
proof (rule nth_equalityI)
  fix i assume "i < length ts"
  then obtain b :: byte where b: "unat b = i"
    using byte_index assms(1) by (auto simp: root_ok_def)
  have "ts ! unat b = us ! unat b"
    using fun_cong [OF assms(3), of "b # r" for r]
    by (intro t_ok_unique [of n] root_ok_child assms) simp
  then show "ts ! i = us ! i" by (simp add: b)
qed (use assms in \<open>simp add: root_ok_def\<close>)

lemma root_ok_expand: "t_ok (Suc n) t \<Longrightarrow> root_ok n (expand t)"
  by (auto simp: root_ok_def length_expand t_ok_expand)

text \<open>
  Opening a tree, running the actions on its children and closing it again is running
  the actions on the tree.
\<close>

lemma t_ok_get_Nil: "t_ok (Suc n) t \<Longrightarrow> t_get t [] = None"
  using t_get_length [of "Suc n" t "[]"] by (cases "t_get t []") auto

lemma root_get_node: "root_ok n ts \<Longrightarrow> t_get (t_node [] ts) = root_get ts"
  by (auto simp: root_ok_def root_get_def t_get_node t_get.simps(3) fun_eq_iff)

lemma t_ok_root_node: "root_ok n ts \<Longrightarrow> t_ok (Suc n) (t_node [] ts)"
  using t_ok_node [of ts n "[]"] by (simp add: root_ok_def)

lemma root_acts_expand:
  assumes "t_ok (Suc n) t" "list_all (act_ok (Suc n)) as"
  shows "t_node [] (foldl root_act (expand t) as) = foldl t_act t as"
proof (rule t_ok_unique [of "Suc n"])
  have ok: "root_ok n (foldl root_act (expand t) as)"
    by (rule root_ok_acts [OF root_ok_expand [OF assms(1)] assms(2)])
  show "t_ok (Suc n) (t_node [] (foldl root_act (expand t) as))"
    by (rule t_ok_root_node [OF ok])
  show "t_ok (Suc n) (foldl t_act t as)"
    by (rule t_ok_acts [OF assms])
  have "root_get (expand t) = t_get t"
    using assms(1) by (auto simp: fun_eq_iff root_get_def t_get_expand t_ok_get_Nil split: list.splits)
  then show "t_get (t_node [] (foldl root_act (expand t) as)) k = t_get (foldl t_act t as) k" for k
    by (simp add: root_get_node [OF ok] root_get_acts [OF root_ok_expand [OF assms(1)] assms(2)] t_get_acts [OF assms])
qed

text \<open>Actions on different first bytes do not interfere.\<close>

lemma root_acts_nth:
  assumes "length ts = 256"
  shows "foldl root_act ts as ! unat b =
    foldl t_act (ts ! unat b) (map act_tl (filter (\<lambda>a. hd (action_key a) = b) as))"
  using assms by (induction as arbitrary: ts) (auto simp: root_act_def Let_def nth_list_update)

lemma t_acts_deletes: "\<not> list_ex is_insert as \<Longrightarrow> foldl t_act IEmpty as = IEmpty"
proof (induction as)
  case (Cons a as)
  then show ?case by (cases a) auto
qed simp

end
