(* ===== verification/RadixRefine.thy ===== *)
theory RadixRefine
  imports RadixSpec
begin

section \<open>The radix tree implements the abstract tree\<close>

text \<open>
  The refinement between \<open>RadixTree\<close> and \<open>RadixSpec\<close>. \<open>conc\<close> turns an abstract tree into
  the item the code stores for it (children replaced by the hash of their node), \<open>nodes\<close>
  collects the nodes of a tree. The statements are relative to a set \<open>U\<close> of nodes on which
  the hash has no collisions; \<open>cinv\<close> says that the caches hold nodes of \<open>U\<close> under their
  hashes, \<open>sinv\<close> says so of the store. \<open>runs m x N\<close>: from every such cache the computation
  \<open>m\<close> succeeds with the result \<open>x\<close>, and the nodes of \<open>N\<close> are available afterwards, in the store
  or in the write cache. The results do not depend on what the read cache holds, so its
  eviction is invisible.
\<close>

subsection \<open>Nodes and hashes\<close>

definition nhash :: "radix_env \<Rightarrow> node \<Rightarrow> bytes" where
  "nhash env nd = blake2b256 env (encode_node_bytes nd)"

fun conc :: "radix_env \<Rightarrow> itree \<Rightarrow> item" where
  "conc env IEmpty = EmptyItem"
| "conc env (ILeaf p v) = Leaf p v"
| "conc env (INode p ts) = NodePtr p (nhash env (map (conc env) ts))"

fun nodes :: "radix_env \<Rightarrow> itree \<Rightarrow> node set" where
  "nodes env IEmpty = {}"
| "nodes env (ILeaf p v) = {}"
| "nodes env (INode p ts) = insert (map (conc env) ts) (\<Union>t \<in> set ts. nodes env t)"

definition env_ok :: "radix_env \<Rightarrow> bool" where
  "env_ok env \<longleftrightarrow> (\<forall>bs. length (blake2b256 env bs) = DEF_SIZE)
     \<and> (\<forall>ks. distinct ks \<longrightarrow> distinct (dash_order env ks) \<and> set (dash_order env ks) = set ks)"

definition universe :: "radix_env \<Rightarrow> node set \<Rightarrow> bool" where
  "universe env U \<longleftrightarrow> inj_on (nhash env) U \<and> (\<forall>nd \<in> U. node_ok nd)"

definition node_at :: "radix_env \<Rightarrow> node set \<Rightarrow> bytes \<Rightarrow> bytes \<Rightarrow> bool" where
  "node_at env U h bs \<longleftrightarrow> (\<exists>nd \<in> U. h = nhash env nd \<and> bs = encode_node_bytes nd)"

definition sinv :: "radix_env \<Rightarrow> node set \<Rightarrow> in_mem_store \<Rightarrow> bool" where
  "sinv env U st \<longleftrightarrow> (\<forall>h bs. hm_get st h = Some bs \<longrightarrow> node_at env U h bs)"

definition cinv :: "radix_env \<Rightarrow> node set \<Rightarrow> radix_tree_impl \<Rightarrow> bool" where
  "cinv env U imp \<longleftrightarrow> hm_ok (cache_w imp)
     \<and> (\<forall>h nd. hm_get (cache_r imp) h = Some nd \<longrightarrow> nd \<in> U \<and> h = nhash env nd)
     \<and> (\<forall>h bs. hm_get (cache_w imp) h = Some bs \<longrightarrow> node_at env U h bs)"

definition stored :: "radix_env \<Rightarrow> in_mem_store \<Rightarrow> node \<Rightarrow> bool" where
  "stored env st nd \<longleftrightarrow> hm_get st (nhash env nd) = Some (encode_node_bytes nd)"

definition cached :: "radix_env \<Rightarrow> radix_tree_impl \<Rightarrow> node \<Rightarrow> bool" where
  "cached env imp nd \<longleftrightarrow> hm_get (cache_w imp) (nhash env nd) = Some (encode_node_bytes nd)"

lemma conc_eq_Empty [simp]: "conc env t = EmptyItem \<longleftrightarrow> t = IEmpty"
  by (cases t) auto

lemma nodes_push [simp]: "nodes env (t_push q t) = nodes env t"
  by (cases t) auto

lemma map_conc_empties [simp]: "map (conc env) empties = empty_node"
  by (simp add: empties_def empty_node_def)

lemma map_conc_two: "map (conc env) (two q x b y) = empty_node[unat q := conc env x, unat b := conc env y]"
  by (simp add: two_def map_update)

text \<open>Within a set of nodes without collisions an item stands for one tree only.\<close>

lemma conc_inj:
  assumes "universe env U"
  shows "conc env t = conc env u \<Longrightarrow> nodes env t \<subseteq> U \<Longrightarrow> nodes env u \<subseteq> U \<Longrightarrow> t = u"
proof (induction t arbitrary: u)
  case (INode p ts)
  then obtain us where u: "u = INode p us" "nhash env (map (conc env) ts) = nhash env (map (conc env) us)"
    by (cases u) auto
  then have eq: "map (conc env) ts = map (conc env) us"
    using assms INode.prems by (auto simp: universe_def dest: inj_onD)
  have len: "length ts = length us"
    using arg_cong [OF eq, of length] by simp
  have "ts ! i = us ! i" if "i < length ts" for i
  proof (rule INode.IH)
    show "conc env (ts ! i) = conc env (us ! i)"
      using arg_cong [OF eq, of "\<lambda>xs. xs ! i"] that len by simp
    show "nodes env (ts ! i) \<subseteq> U" "nodes env (us ! i) \<subseteq> U"
      using INode.prems that len nth_mem [of i ts] nth_mem [of i us]
      by (simp_all add: u UN_subset_iff)
  qed (use that in simp)
  then show ?case
    using len u by (auto intro: nth_equalityI)
next
  case IEmpty
  then show ?case by (cases u) auto
next
  case (ILeaf p v)
  then show ?case by (cases u) auto
qed

lemma nhash_length [simp]: "env_ok env \<Longrightarrow> length (nhash env nd) = DEF_SIZE"
  by (simp add: env_ok_def nhash_def)

lemma item_ok_conc: "env_ok env \<Longrightarrow> t_ok n t \<Longrightarrow> n \<le> 127 \<Longrightarrow> item_ok (conc env t)"
  by (cases t) auto

lemma node_ok_conc: "env_ok env \<Longrightarrow> root_ok n ts \<Longrightarrow> n \<le> 127 \<Longrightarrow> node_ok (map (conc env) ts)"
  by (auto simp: root_ok_def node_ok_def list_all_iff NUM_ITEMS_def intro: item_ok_conc)

lemma nodes_ok: "env_ok env \<Longrightarrow> t_ok n t \<Longrightarrow> n \<le> 128 \<Longrightarrow> nd \<in> nodes env t \<Longrightarrow> node_ok nd"
proof (induction t arbitrary: n)
  case (INode p ts)
  then have "root_ok (n - length p - 1) ts" "n - length p - 1 \<le> 127"
    by (auto simp: root_ok_def)
  with INode show ?case by (auto intro: node_ok_conc)
qed auto

subsection \<open>Computations on the caches\<close>

definition avail :: "radix_env \<Rightarrow> in_mem_store \<Rightarrow> radix_tree_impl \<Rightarrow> node \<Rightarrow> bool" where
  "avail env st imp nd \<longleftrightarrow> stored env st nd \<or> cached env imp nd"

definition runs :: "radix_env \<Rightarrow> node set \<Rightarrow> in_mem_store \<Rightarrow> 'a rt \<Rightarrow> 'a \<Rightarrow> node set \<Rightarrow> bool" where
  "runs env U st m x N \<longleftrightarrow>
     (\<forall>imp. cinv env U imp \<longrightarrow>
        (\<exists>imp'. m imp = (Inr x, imp') \<and> cinv env U imp'
           \<and> (\<forall>nd. avail env st imp nd \<longrightarrow> avail env st imp' nd)
           \<and> (\<forall>nd \<in> N. avail env st imp' nd)))"

lemma runsE:
  assumes "runs env U st m x N" "cinv env U imp"
  obtains imp' where "m imp = (Inr x, imp')" "cinv env U imp'"
    "\<forall>nd. avail env st imp nd \<longrightarrow> avail env st imp' nd" "\<forall>nd \<in> N. avail env st imp' nd"
  using assms unfolding runs_def by blast

lemma runs_weaken:
  assumes "runs env U st m x M" "\<And>nd. nd \<in> N \<Longrightarrow> nd \<in> M \<or> stored env st nd"
  shows "runs env U st m x N"
  unfolding runs_def
proof (intro allI impI)
  fix imp assume "cinv env U imp"
  with assms(1) obtain imp' where "m imp = (Inr x, imp')" "cinv env U imp'"
    "\<forall>nd. avail env st imp nd \<longrightarrow> avail env st imp' nd" "\<forall>nd \<in> M. avail env st imp' nd"
    by (rule runsE)
  with assms(2) show "\<exists>imp'. m imp = (Inr x, imp') \<and> cinv env U imp'
      \<and> (\<forall>nd. avail env st imp nd \<longrightarrow> avail env st imp' nd) \<and> (\<forall>nd \<in> N. avail env st imp' nd)"
    by (intro exI [of _ imp']) (auto simp: avail_def)
qed

lemma runs_sret [intro]: "(\<And>nd. nd \<in> N \<Longrightarrow> stored env st nd) \<Longrightarrow> runs env U st (sret x) x N"
  by (auto simp: runs_def avail_def)

lemma runs_Pair [intro]: "(\<And>nd. nd \<in> N \<Longrightarrow> stored env st nd) \<Longrightarrow> runs env U st (Pair (Inr x)) x N"
  by (auto simp: runs_def avail_def)

lemma runs_slift [intro]: "(\<And>nd. nd \<in> N \<Longrightarrow> stored env st nd) \<Longrightarrow> runs env U st (slift (Inr x)) x N"
  by (auto simp: runs_def avail_def)

lemma runs_sbind:
  assumes "runs env U st m x M" "runs env U st (f x) y N"
  shows "runs env U st (sbind m f) y (M \<union> N)"
  unfolding runs_def
proof (intro allI impI)
  fix imp assume "cinv env U imp"
  with assms(1) obtain imp1 where 1: "m imp = (Inr x, imp1)" "cinv env U imp1"
    "\<forall>nd. avail env st imp nd \<longrightarrow> avail env st imp1 nd" "\<forall>nd \<in> M. avail env st imp1 nd"
    by (rule runsE)
  from assms(2) 1(2) obtain imp2 where 2: "f x imp1 = (Inr y, imp2)" "cinv env U imp2"
    "\<forall>nd. avail env st imp1 nd \<longrightarrow> avail env st imp2 nd" "\<forall>nd \<in> N. avail env st imp2 nd"
    by (rule runsE)
  show "\<exists>imp'. sbind m f imp = (Inr y, imp') \<and> cinv env U imp'
      \<and> (\<forall>nd. avail env st imp nd \<longrightarrow> avail env st imp' nd) \<and> (\<forall>nd \<in> M \<union> N. avail env st imp' nd)"
    using 1 2 by (intro exI [of _ imp2]) (auto simp: sbind_apply)
qed

lemma runs_sbind_ret:
  assumes "runs env U st m x M"
  shows "runs env U st (sbind m (\<lambda>x. sret (f x))) (f x) M"
  using runs_sbind [of env U st m x M "\<lambda>x. sret (f x)" "f x" "{}"] assms by auto

lemma runs_sbind_pure:
  assumes "runs env U st m x {}" "runs env U st (f x) y N"
  shows "runs env U st (sbind m f) y N"
  using runs_sbind [of env U st m x "{}" f y N] assms by simp

text \<open>Eviction from the read cache.\<close>

lemma cache_w_enforce [simp]: "cache_w (enforce_read_cache_bounds env imp) = cache_w imp"
  by (simp add: enforce_read_cache_bounds_def Let_def)

lemma cache_r_enforce:
  "hm_get (cache_r (enforce_read_cache_bounds env imp)) h = Some nd \<Longrightarrow> hm_get (cache_r imp) h = Some nd"
  by (auto simp: enforce_read_cache_bounds_def Let_def hm_get_fold_del split: if_splits)

lemma cinv_enforce: "cinv env U imp \<Longrightarrow> cinv env U (enforce_read_cache_bounds env imp)"
  unfolding cinv_def by (auto dest: cache_r_enforce)

lemma cinv_cache_r: "cinv env U imp \<Longrightarrow> nd \<in> U \<Longrightarrow> cinv env U (imp\<lparr>cache_r := hm_put (nhash env nd) nd (cache_r imp)\<rparr>)"
  unfolding cinv_def by auto

lemma cinv_cache_w:
  "cinv env U imp \<Longrightarrow> nd \<in> U \<Longrightarrow>
   cinv env U (imp\<lparr>cache_w := hm_put (nhash env nd) (encode_node_bytes nd) (cache_w imp)\<rparr>)"
  unfolding cinv_def by (auto simp: node_at_def)

lemma cinv_new [simp]: "cinv env U new_impl"
  by (simp add: cinv_def new_impl_def)

lemma universe_inj: "universe env U \<Longrightarrow> nhash env a = nhash env b \<Longrightarrow> a \<in> U \<Longrightarrow> b \<in> U \<Longrightarrow> a = b"
  by (auto simp: universe_def inj_on_def)

lemma cached_put:
  assumes "universe env U" "nd \<in> U" "cinv env U imp" "cached env imp nd'"
    "cache_w imp' = hm_put (nhash env nd) (encode_node_bytes nd) (cache_w imp)"
  shows "cached env imp' nd'"
proof (cases "nhash env nd' = nhash env nd")
  case True
  have "node_at env U (nhash env nd') (encode_node_bytes nd')"
    using assms(3,4) by (auto simp: cached_def cinv_def)
  then obtain nd2 where "nd2 \<in> U" "nhash env nd' = nhash env nd2" "encode_node_bytes nd' = encode_node_bytes nd2"
    by (auto simp: node_at_def)
  then have "encode_node_bytes nd' = encode_node_bytes nd"
    using universe_inj [OF assms(1)] True assms(2) by metis
  with True assms(5) show ?thesis by (simp add: cached_def)
next
  case False
  with assms(4,5) show ?thesis by (simp add: cached_def)
qed

lemma load_stored:
  assumes "universe env U" "stored env st nd" "nd \<in> U"
  shows "runs env U st (load_node_arc env st (nhash env nd) no_assert) nd {}"
  unfolding runs_def
proof (intro allI impI)
  fix imp assume inv: "cinv env U imp"
  have st: "load_node_from_store st (nhash env nd) = Inr (Some nd)"
    using assms by (simp add: load_node_from_store_def inmem.get_one_lookup stored_def decode_encode_bytes universe_def)
  show "\<exists>imp'. load_node_arc env st (nhash env nd) no_assert imp = (Inr nd, imp') \<and> cinv env U imp'
      \<and> (\<forall>nd. avail env st imp nd \<longrightarrow> avail env st imp' nd) \<and> (\<forall>nd \<in> {}. avail env st imp' nd)"
  proof (cases "hm_get (cache_r imp) (nhash env nd)")
    case None
    then show ?thesis
      using st inv assms(3) cinv_enforce cinv_cache_r
      by (auto simp: load_node_arc_def avail_def cached_def)
  next
    case (Some nd')
    then have "nd' = nd"
      using inv assms(3) universe_inj [OF assms(1)] by (auto simp: cinv_def)
    with Some inv show ?thesis by (simp add: load_node_arc_def)
  qed
qed

lemma runs_save:
  assumes "universe env U" "nd \<in> U"
  shows "runs env U st (save_node env nd) (nhash env nd) {nd}"
  unfolding runs_def
proof (intro allI impI)
  fix imp assume inv: "cinv env U imp"
  let ?w = "hm_put (nhash env nd) (encode_node_bytes nd) (cache_w imp)"
  have hash: "hash_node env nd = Inr (nhash env nd, encode_node_bytes nd)"
    using assms by (simp add: hash_node_def encode_node_ok universe_def nhash_def)
  have "\<exists>imp'. save_node env nd imp = (Inr (nhash env nd), imp') \<and> cinv env U imp' \<and> cache_w imp' = ?w"
  proof (cases "hm_get (cache_r imp) (nhash env nd)")
    case None
    then show ?thesis
      using hash inv assms(2) cinv_cache_w [OF cinv_enforce [OF cinv_cache_r]]
      by (simp add: save_node_def Let_def)
  next
    case (Some nd')
    then have "nd' = nd"
      using inv assms(2) universe_inj [OF assms(1)] by (auto simp: cinv_def)
    with Some hash cinv_cache_w [OF inv assms(2)] show ?thesis by (simp add: save_node_def)
  qed
  then obtain imp' where imp': "save_node env nd imp = (Inr (nhash env nd), imp')" "cinv env U imp'" "cache_w imp' = ?w"
    by blast
  moreover have "cached env imp' nd"
    using imp'(3) by (simp add: cached_def)
  ultimately show "\<exists>imp'. save_node env nd imp = (Inr (nhash env nd), imp') \<and> cinv env U imp'
      \<and> (\<forall>nd. avail env st imp nd \<longrightarrow> avail env st imp' nd) \<and> (\<forall>nd \<in> {nd}. avail env st imp' nd)"
    using cached_put [OF assms inv] by (auto simp: avail_def)
qed

subsection \<open>Reading\<close>

definition in_store :: "radix_env \<Rightarrow> node set \<Rightarrow> in_mem_store \<Rightarrow> itree \<Rightarrow> bool" where
  "in_store env U st t \<longleftrightarrow> (\<forall>nd \<in> nodes env t. nd \<in> U \<and> stored env st nd)"

lemma in_store_INode:
  "in_store env U st (INode p ts) \<longleftrightarrow>
   map (conc env) ts \<in> U \<and> stored env st (map (conc env) ts) \<and> (\<forall>t \<in> set ts. in_store env U st t)"
  by (auto simp: in_store_def)

lemma in_store_child:
  "in_store env U st (INode p ts) \<Longrightarrow> length ts = 256 \<Longrightarrow> in_store env U st (ts ! unat (b :: byte))"
  by (auto simp: in_store_INode)

lemma runs_load_child:
  assumes "universe env U" "in_store env U st (INode p ts)"
  shows "runs env U st (load_node_arc env st (nhash env (map (conc env) ts)) no_assert) (map (conc env) ts) {}"
  using assms by (intro load_stored) (auto simp: in_store_INode)

lemma runs_read_at:
  assumes "universe env U"
  shows "root_ok n ts \<Longrightarrow> (\<forall>t \<in> set ts. in_store env U st t) \<Longrightarrow>
    runs env U st (read_at_cached env st (map (conc env) ts) k) (root_get ts k) {}"
proof (induction k arbitrary: n ts rule: length_induct)
  case (1 k)
  show ?case
  proof (cases k)
    case (Cons b r)
    have len: "length ts = 256" and st: "in_store env U st (ts ! unat b)"
      using "1.prems" by (auto simp: root_ok_def)
    show ?thesis
    proof (cases "ts ! unat b")
      case (INode p us)
      have "runs env U st (read_at_from_ptr env st (nhash env (map (conc env) us)) k') (root_get us k') {}"
        if "length k' < length k" for k'
      proof -
        have "root_ok (n - length p - 1) us"
          using root_ok_child [OF "1.prems"(1), of b] by (auto simp: INode root_ok_def)
        then have "runs env U st (read_at_cached env st (map (conc env) us) k') (root_get us k') {}"
          using "1.IH" that st by (auto simp: INode in_store_INode)
        then show ?thesis
          using runs_sbind_pure [OF runs_load_child [OF assms st [unfolded INode]]]
          by (auto simp: read_at_from_ptr.simps)
      qed
      then show ?thesis
        using len by (auto simp: Cons INode read_at_cached.simps t_get.simps(3) root_get_def)
    qed (use len in \<open>auto simp: Cons read_at_cached.simps\<close>)
  qed (auto simp: read_at_cached.simps)
qed

subsection \<open>Saving a node under an item\<close>

lemma map_conc_update: "map (conc env) (ts[i := t]) = (map (conc env) ts)[i := conc env t]"
  by (rule map_update)

lemma runs_save_item:
  assumes "universe env U" "map (conc env) ts \<in> U"
  shows "runs env U st (save_node_and_create_item env (map (conc env) ts) p False)
     (conc env (INode p ts)) {map (conc env) ts}"
  using runs_sbind_ret [OF runs_save [OF assms], of st "NodePtr p"]
  by (simp add: save_node_and_create_item_def)

definition node_of :: "radix_env \<Rightarrow> itree list \<Rightarrow> node set" where
  "node_of env ts = (if 2 \<le> length (filter (\<lambda>t. t \<noteq> IEmpty) ts) then {map (conc env) ts} else {})"

lemma filter_conc:
  "filter (\<lambda>i. i \<noteq> EmptyItem) (map (conc env) ts) = map (conc env) (filter (\<lambda>t. t \<noteq> IEmpty) ts)"
  by (simp add: filter_map o_def)

lemma filter_upt_nth: "map ((!) xs) (filter (\<lambda>i. P (xs ! i)) [0..<length xs]) = filter P xs"
proof -
  have "filter P xs = filter P (map ((!) xs) [0..<length xs])"
    by (simp add: map_nth)
  then show ?thesis by (simp add: filter_map o_def)
qed

lemma runs_compact_item:
  assumes "universe env U" "node_of env ts \<subseteq> U"
  shows "runs env U st (save_node_and_create_item env (map (conc env) ts) p True)
     (conc env (t_node p ts)) (node_of env ts)"
proof (cases rule: filter_upt_cases [of "\<lambda>i. ts ! i \<noteq> IEmpty" "length ts"])
  case none
  then have "filter (\<lambda>t. t \<noteq> IEmpty) ts = []"
    by (auto simp: filter_empty_conv in_set_conv_nth)
  with none show ?thesis
    by (auto simp: save_node_and_create_item_def filter_conc t_node_def node_of_def)
next
  case (one i)
  have fil: "filter (\<lambda>t. t \<noteq> IEmpty) ts = [ts ! i]"
    using filter_upt_nth [of ts "\<lambda>t. t \<noteq> IEmpty"] one(1) by simp
  have "position (\<lambda>x. x = conc env (ts ! i)) (map (conc env) ts) = Some i"
    unfolding position_Some_iff using one by (auto, metis conc_eq_Empty less_trans nat_neq_iff)
  with fil one show ?thesis
    by (cases "ts ! i") (auto simp: save_node_and_create_item_def filter_conc t_node_def node_of_def)
next
  case (more i j js)
  have fil: "filter (\<lambda>t. t \<noteq> IEmpty) ts = ts ! i # ts ! j # map ((!) ts) js"
    using filter_upt_nth [of ts "\<lambda>t. t \<noteq> IEmpty"] more(1) by simp
  then have "node_of env ts = {map (conc env) ts}"
    by (simp add: node_of_def)
  then show ?thesis
    using runs_sbind_ret [OF runs_save [OF assms(1)], of "map (conc env) ts" st "NodePtr p"] assms(2) more fil
    by (simp add: save_node_and_create_item_def filter_conc t_node_def)
qed

lemma nodes_t_node: "nodes env (t_node p ts) = node_of env ts \<union> (\<Union>t \<in> set ts. nodes env t)"
proof (cases rule: filter_upt_cases [of "\<lambda>i. ts ! i \<noteq> IEmpty" "length ts"])
  case none
  then have "filter (\<lambda>t. t \<noteq> IEmpty) ts = []" "\<forall>t \<in> set ts. t = IEmpty"
    by (auto simp: filter_empty_conv in_set_conv_nth)
  with none show ?thesis by (auto simp: t_node_def node_of_def)
next
  case (one i)
  have fil: "filter (\<lambda>t. t \<noteq> IEmpty) ts = [ts ! i]"
    using filter_upt_nth [of ts "\<lambda>t. t \<noteq> IEmpty"] one(1) by simp
  have "(\<Union>t \<in> set ts. nodes env t) = nodes env (ts ! i)"
  proof -
    have "nodes env t \<subseteq> nodes env (ts ! i)" if "t \<in> set ts" for t
      using that one by (cases "t = ts ! i") (auto simp: in_set_conv_nth)
    then show ?thesis using one(2) nth_mem by blast
  qed
  with fil one show ?thesis by (simp add: t_node_def node_of_def)
next
  case (more i j js)
  have fil: "filter (\<lambda>t. t \<noteq> IEmpty) ts = ts ! i # ts ! j # map ((!) ts) js"
    using filter_upt_nth [of ts "\<lambda>t. t \<noteq> IEmpty"] more(1) by simp
  then show ?thesis using more by (auto simp: t_node_def node_of_def)
qed

subsection \<open>Insertion and deletion\<close>

text \<open>The item after an operation that returns \<open>None\<close> when nothing changes.\<close>

definition upd :: "'a \<Rightarrow> 'a option \<Rightarrow> 'a" where
  "upd i r = (case r of None \<Rightarrow> i | Some i' \<Rightarrow> i')"

lemma upd_simps [simp]: "upd i None = i" "upd i (Some j) = j"
  by (simp_all add: upd_def)

text \<open>\<open>refines m t t'\<close>: the computation \<open>m\<close> turns the item of \<open>t\<close> into the item of \<open>t'\<close>.\<close>

definition refines ::
  "radix_env \<Rightarrow> node set \<Rightarrow> in_mem_store \<Rightarrow> item option rt \<Rightarrow> itree \<Rightarrow> itree \<Rightarrow> bool" where
  "refines env U st m t t' \<longleftrightarrow>
     (\<exists>r. runs env U st m r (nodes env t') \<and> upd (conc env t) r = conc env t')"

lemma refinesI:
  "runs env U st m r N \<Longrightarrow> upd (conc env t) r = conc env t' \<Longrightarrow>
   (\<And>nd. nd \<in> nodes env t' \<Longrightarrow> nd \<in> N \<or> stored env st nd) \<Longrightarrow> refines env U st m t t'"
  unfolding refines_def by (blast intro: runs_weaken)

lemma refines_same: "in_store env U st t \<Longrightarrow> refines env U st (sret None) t t"
  by (rule refinesI [of _ _ _ _ None "{}"]) (auto simp: in_store_def)

lemma nodes_child: "t \<in> set ts \<Longrightarrow> nodes env t \<subseteq> nodes env (INode p ts)"
  by auto

lemma nodes_update_child:
  "length ts = 256 \<Longrightarrow> nodes env t \<subseteq> (\<Union>u \<in> set (ts[unat (b :: byte) := t]). nodes env u)"
  by (rule UN_upper) (simp add: set_update_memI)

text \<open>
  The common step of insertion and deletion: the item of one child is recomputed and, if it
  changed, the node is saved again, by \<open>save\<close>, as the item of \<open>close\<close>.
\<close>

lemma refines_child:
  assumes U: "universe env U" and st: "in_store env U st (INode p ts)" and len: "length ts = 256"
    and m: "refines env U st m (ts ! unat b) t'"
    and new: "nodes env t' \<subseteq> U"
    and save: "runs env U st (save ((map (conc env) ts)[unat b := conc env t']))
                 (conc env (close (ts[unat b := t']))) N"
    and nodes: "nodes env (close (ts[unat b := t'])) \<subseteq> N \<union> (\<Union>u \<in> set (ts[unat b := t']). nodes env u)"
    and same: "close ts = INode p ts"
  shows "refines env U st (sbind m (\<lambda>r. case r of
             Some i \<Rightarrow> sbind (save ((map (conc env) ts)[unat (b :: byte) := i])) (\<lambda>i. sret (Some i))
           | None \<Rightarrow> sret None)) (INode p ts) (close (ts[unat b := t']))"
proof -
  obtain r where r: "runs env U st m r (nodes env t')" "upd (conc env (ts ! unat b)) r = conc env t'"
    using m by (auto simp: refines_def)
  show ?thesis
  proof (cases r)
    case None
    have "nodes env (ts ! unat b) \<subseteq> U"
      using in_store_child [OF st len] by (auto simp: in_store_def)
    then have "t' = ts ! unat b"
      using conc_inj [OF U, of t' "ts ! unat b"] r(2) new None by simp
    then have "close (ts[unat b := t']) = INode p ts"
      by (simp add: same)
    then show ?thesis
      using runs_sbind [OF r(1), of "\<lambda>r. case r of
             Some i \<Rightarrow> sbind (save ((map (conc env) ts)[unat b := i])) (\<lambda>i. sret (Some i))
           | None \<Rightarrow> sret None" None "{}"] None st
      by (intro refinesI [of _ _ _ _ None]) (auto simp: in_store_def)
  next
    case (Some i)
    have "runs env U st (sbind m (\<lambda>r. case r of
             Some i \<Rightarrow> sbind (save ((map (conc env) ts)[unat b := i])) (\<lambda>i. sret (Some i))
           | None \<Rightarrow> sret None)) (Some (conc env (close (ts[unat b := t'])))) (nodes env t' \<union> N)"
      using r runs_sbind_ret [OF save, of Some] Some by (intro runs_sbind [OF r(1)]) simp
    moreover have "nd \<in> nodes env t' \<union> N \<or> stored env st nd"
      if "nd \<in> nodes env (close (ts[unat b := t']))" for nd
    proof -
      have "u \<in> set ts \<or> u = t'" if "u \<in> set (ts[unat b := t'])" for u
        using that set_update_subset_insert [of ts "unat b" t'] by auto
      then show ?thesis
        using that nodes st by (fastforce simp: in_store_def)
    qed
    ultimately show ?thesis by (intro refinesI) auto
  qed
qed

lemma refines_saved:
  assumes "universe env U" "map (conc env) ts \<in> U" "\<forall>u \<in> set ts. in_store env U st u"
  shows "refines env U st
    (sbind (save_node_and_create_item env (map (conc env) ts) c False) (\<lambda>i. sret (Some i))) t (INode c ts)"
  using runs_sbind_ret [OF runs_save_item [OF assms(1,2)], of st c Some] assms(3)
  by (intro refinesI) (auto simp: in_store_def)

lemma refines_load:
  assumes "universe env U" "in_store env U st (INode p ts)" "refines env U st (f (map (conc env) ts)) t t'"
  shows "refines env U st (sbind (load_node_arc env st (nhash env (map (conc env) ts)) False) f) t t'"
  using assms(3) runs_sbind_pure [OF runs_load_child [OF assms(1,2)], of f]
  unfolding refines_def by blast

lemma in_store_leaf [simp]: "in_store env U st IEmpty" "in_store env U st (ILeaf p v)"
  by (simp_all add: in_store_def)

lemma rt_update_refines:
  assumes U: "universe env U"
  shows "t_ok n t \<Longrightarrow> length k = n \<Longrightarrow> in_store env U st t \<Longrightarrow> nodes env (t_ins t k v) \<subseteq> U \<Longrightarrow>
    refines env U st (rt_update env st (conc env t) k v) t (t_ins t k v)"
proof (induction t k v arbitrary: n rule: t_ins.induct)
  case (1 k v)
  show ?case
    by (rule refinesI [of _ _ _ _ "Some (Leaf k v)" "{}"]) (auto simp: rt_update.simps)
next
  case (2 p w k v)
  then have len: "length k = length p" by simp
  show ?case
  proof (cases "k = p")
    case True
    then show ?thesis
      by (intro refinesI [of _ _ _ _ "if v = w then None else Some (Leaf k v)" "{}"])
        (auto simp: rt_update.simps)
  next
    case False
    from len False obtain c i ir l lr where f: "common_prefix k p = (c, i # ir, l # lr)" "i \<noteq> l"
      "k = c @ i # ir" "p = c @ l # lr" "length ir = length lr"
      by (rule same_length_fork)
    let ?ts = "two l (ILeaf lr w) i (ILeaf ir v)"
    have "t_ins (ILeaf p w) k v = INode c ?ts"
      using f by simp
    moreover have "\<forall>u \<in> set ?ts. in_store env U st u"
      using set_two [of l "ILeaf lr w" i "ILeaf ir v"] by auto
    ultimately show ?thesis
      using refines_saved [OF U, of ?ts st c "ILeaf p w"] "2.prems"(4) f False
      by (simp add: rt_update.simps map_conc_two)
  qed
next
  case (3 p ts k v)
  have len: "length ts = 256" and lt: "length p < length k"
    using "3.prems" by auto
  from lt show ?case
  proof (cases rule: longer_key_cases)
    case (through b r)
    let ?t' = "t_ins (ts ! unat b) r v"
    have new: "nodes env (INode p (ts[unat b := ?t'])) \<subseteq> U"
      using "3.prems"(4) through(2) by simp
    have IH: "refines env U st (rt_update env st (conc env (ts ! unat b)) r v) (ts ! unat b) ?t'"
      using 3 through new len nodes_update_child [OF len, of env ?t' b]
      by (intro "3.IH" [of p "(b # r, [])" "b # r" "[]" b r]) (auto dest: t_ok_child in_store_child)
    have "refines env U st (sbind (rt_update env st (conc env (ts ! unat b)) r v) (\<lambda>x. case x of
             Some i \<Rightarrow> sbind (save_node_and_create_item env ((map (conc env) ts)[unat b := i]) p False) (\<lambda>i. sret (Some i))
           | None \<Rightarrow> sret None)) (INode p ts) (INode p (ts[unat b := ?t']))"
      using new nodes_update_child [OF len, of env ?t' b] runs_save_item [OF U, of "ts[unat b := ?t']" st p]
      by (intro refines_child [OF U "3.prems"(3) len IH, where close = "INode p" and N = "{map (conc env) (ts[unat b := ?t'])}"])
        (auto simp: map_conc_update)
    then show ?thesis
      using through lt len refines_load [OF U "3.prems"(3)]
      by (subst rt_update.simps) (simp add: Let_def)
  next
    case (fork c b r q qr)
    let ?ts = "two q (INode qr ts) b (ILeaf r v)"
    have "in_store env U st (INode qr ts)"
      using "3.prems"(3) by (auto simp: in_store_INode)
    then have "\<forall>u \<in> set ?ts. in_store env U st u"
      using set_two [of q "INode qr ts" b "ILeaf r v"] by auto
    then show ?thesis
      using refines_saved [OF U, of ?ts st c "INode p ts"] "3.prems"(4) fork lt
      by (simp add: rt_update.simps map_conc_two)
  qed
qed

lemma rt_delete_refines:
  assumes U: "universe env U"
  shows "t_ok n t \<Longrightarrow> in_store env U st t \<Longrightarrow> nodes env (t_del t k) \<subseteq> U \<Longrightarrow>
    refines env U st (rt_delete env st (conc env t) k) t (t_del t k)"
proof (induction t k arbitrary: n rule: t_del.induct)
  case (3 p ts k)
  have len: "length ts = 256"
    using "3.prems" by auto
  show ?case
  proof (cases "\<exists>b r. k = p @ b # r")
    case True
    then obtain b r where k: "k = p @ b # r" by blast
    let ?t' = "t_del (ts ! unat b) r"
    have new: "nodes env (t_node p (ts[unat b := ?t'])) \<subseteq> U"
      using "3.prems"(3) k by simp
    have IH: "refines env U st (rt_delete env st (conc env (ts ! unat b)) r) (ts ! unat b) ?t'"
      using 3 k new len nodes_update_child [OF len, of env ?t' b]
      by (intro "3.IH" [of b r]) (auto dest: t_ok_child in_store_child simp: nodes_t_node)
    have "refines env U st (sbind (rt_delete env st (conc env (ts ! unat b)) r) (\<lambda>x. case x of
             Some i \<Rightarrow> sbind (save_node_and_create_item env ((map (conc env) ts)[unat b := i]) p True) (\<lambda>i. sret (Some i))
           | None \<Rightarrow> sret None)) (INode p ts) (t_node p (ts[unat b := ?t']))"
      using new nodes_update_child [OF len, of env ?t' b] runs_compact_item [OF U, of "ts[unat b := ?t']" st p]
        t_node_compact [OF "3.prems"(1)]
      by (intro refines_child [OF U "3.prems"(2) len IH, where close = "t_node p" and N = "node_of env (ts[unat b := ?t'])"])
        (auto simp: map_conc_update nodes_t_node)
    then show ?thesis
      using k len refines_load [OF U "3.prems"(2)]
      by (subst rt_delete.simps) (simp add: Let_def)
  next
    case False
    obtain c k' p' where cp: "common_prefix k p = (c, k', p')"
      by (cases "common_prefix k p") auto
    have "p' \<noteq> [] \<or> k' = []"
      using False common_prefix_spec [OF cp] by (cases k') auto
    then show ?thesis
      using False refines_same [OF "3.prems"(2)] cp
      by (auto simp: rt_delete.simps t_del.simps(3) prefix_def simp del: sm_simps split: list.splits)
  qed
next
  case (2 p v k)
  show ?case
    by (rule refinesI [of _ _ _ _ "if p = k then Some EmptyItem else None" "{}"])
      (auto simp: rt_delete.simps split: if_splits)
next
  case (1 k)
  then show ?case
    by (intro refinesI [of _ _ _ _ None "{}"]) (auto simp: rt_delete.simps)
qed

subsection \<open>Grouping actions by their first byte\<close>

lemma btree_push_keys: "fst ` set (btree_push k a m) = insert k (fst ` set m)"
  by (induction k a m rule: btree_push.induct) auto

lemma btree_push_sorted: "sorted_wrt (<) (map fst m) \<Longrightarrow> sorted_wrt (<) (map fst (btree_push k a m))"
proof (induction k a m rule: btree_push.induct)
  case (2 k a k' as m)
  have "k' < x" if "x \<in> fst ` set (btree_push k a m)" "\<not> k < k'" "k \<noteq> k'" for x
    using that "2.prems" by (auto simp: btree_push_keys)
  with 2 show ?case by auto
qed simp

lemma btree_push_get:
  "sorted_wrt (<) (map fst m) \<Longrightarrow>
   map_of (btree_push k a m) = (map_of m)(k \<mapsto> (case map_of m k of None \<Rightarrow> [a] | Some l \<Rightarrow> l @ [a]))"
proof (induction k a m rule: btree_push.induct)
  case (2 k a k' as m)
  have "map_of m k = None" if "k < k'"
  proof -
    have "k \<notin> fst ` set m"
      using "2.prems" that by (auto dest: less_trans)
    then show ?thesis by (simp add: map_of_eq_None_iff)
  qed
  with 2 show ?case by (auto simp: fun_eq_iff)
qed auto

definition group_of :: "history_action list \<Rightarrow> byte \<Rightarrow> history_action list" where
  "group_of as b = filter (\<lambda>a. hd (action_key a) = b) as"

lemma grouping_spec:
  assumes "\<forall>a \<in> set as. action_key a \<noteq> []"
  obtains gs where "grouping as = Inr gs" "distinct (map fst gs)"
    "\<And>b. map_of gs b = (if group_of as b = [] then None else Some (group_of as b))"
proof -
  have "\<exists>gs. grouping as = Inr gs \<and> sorted_wrt (<) (map fst gs)
      \<and> (\<forall>b. map_of gs b = (if group_of as b = [] then None else Some (group_of as b)))"
    using assms
  proof (induction as rule: rev_induct)
    case (snoc a as)
    then obtain gs where gs: "grouping as = Inr gs" "sorted_wrt (<) (map fst gs)"
      "\<And>b. map_of gs b = (if group_of as b = [] then None else Some (group_of as b))"
      by auto
    obtain c r where key: "action_key a = c # r"
      using snoc.prems by (cases "action_key a") auto
    have "grouping (as @ [a]) = Inr (btree_push c a gs)"
      using gs(1) key by (simp add: grouping_def)
    moreover have "map_of (btree_push c a gs) b =
        (if group_of (as @ [a]) b = [] then None else Some (group_of (as @ [a]) b))" for b
      by (simp add: btree_push_get [OF gs(2)] gs(3) key group_of_def)
    ultimately show ?case
      using btree_push_sorted [OF gs(2)] by (intro exI [of _ "btree_push c a gs"]) simp
  qed (simp add: grouping_def group_of_def)
  then show ?thesis
    by (metis that strict_sorted_iff)
qed

text \<open>Writing the results of the groups into the node.\<close>

lemma length_apply_group_items [simp]: "length (apply_group_items nd rs) = length nd"
  unfolding apply_group_items_def by (induction rs arbitrary: nd) (auto split: option.splits)

lemma apply_group_items_simps [simp]:
  "apply_group_items nd [] = nd"
  "apply_group_items nd ((j, None) # rs) = apply_group_items nd rs"
  "apply_group_items nd ((j, Some i) # rs) = apply_group_items (nd[j := i]) rs"
  by (simp_all add: apply_group_items_def)

lemma apply_group_items_nth:
  assumes "distinct (map fst rs)" "i < length nd"
  shows "apply_group_items nd rs ! i = (case map_of rs i of None \<Rightarrow> nd ! i | Some r \<Rightarrow> upd (nd ! i) r)"
  using assms
proof (induction rs arbitrary: nd)
  case (Cons x rs)
  obtain j r where x: "x = (j, r)" by (cases x)
  have "map_of rs j = None"
    using Cons.prems by (auto simp: x map_of_eq_None_iff)
  then show ?case
    using Cons by (cases r; cases "i = j") (auto simp: x split: option.splits)
qed simp

text \<open>Running one task per group.\<close>

lemma runs_all:
  assumes "\<forall>x \<in> set xs. runs env U st (f x) (g x) (N x)" "cinv env U imp"
  shows "\<exists>imp'. run_all f xs imp = (map (\<lambda>x. Inr (g x)) xs, imp') \<and> cinv env U imp'
    \<and> (\<forall>nd. avail env st imp nd \<longrightarrow> avail env st imp' nd)
    \<and> (\<forall>x \<in> set xs. \<forall>nd \<in> N x. avail env st imp' nd)"
  using assms
proof (induction xs arbitrary: imp)
  case (Cons x xs)
  have "runs env U st (f x) (g x) (N x)"
    using Cons.prems(1) by simp
  then obtain imp1 where 1: "f x imp = (Inr (g x), imp1)" "cinv env U imp1"
    "\<forall>nd. avail env st imp nd \<longrightarrow> avail env st imp1 nd" "\<forall>nd \<in> N x. avail env st imp1 nd"
    using Cons.prems(2) by (rule runsE)
  then obtain imp2 where 2: "run_all f xs imp1 = (map (\<lambda>x. Inr (g x)) xs, imp2)" "cinv env U imp2"
    "\<forall>nd. avail env st imp1 nd \<longrightarrow> avail env st imp2 nd"
    "\<forall>x \<in> set xs. \<forall>nd \<in> N x. avail env st imp2 nd"
    using Cons.IH [of imp1] Cons.prems(1) by auto
  from 1 2 show ?case by auto
qed simp

subsection \<open>Batches of actions\<close>

definition nodes_below :: "radix_env \<Rightarrow> itree list \<Rightarrow> node set" where
  "nodes_below env ts = (\<Union>t \<in> set ts. nodes env t)"

lemma nodes_below_nth: "length ts = 256 \<Longrightarrow> nodes env (ts ! unat (b :: byte)) \<subseteq> nodes_below env ts"
  by (auto simp: nodes_below_def)

lemma map_conc_inj:
  assumes "universe env U" "map (conc env) ts = map (conc env) us"
    "nodes_below env ts \<subseteq> U" "nodes_below env us \<subseteq> U"
  shows "ts = us"
proof (rule nth_equalityI)
  show len: "length ts = length us"
    using arg_cong [OF assms(2), of length] by simp
  fix i assume i: "i < length ts"
  show "ts ! i = us ! i"
  proof (rule conc_inj [OF assms(1)])
    show "conc env (ts ! i) = conc env (us ! i)"
      using arg_cong [OF assms(2), of "\<lambda>xs. xs ! i"] i len by simp
  qed (use assms(3,4) i len nth_mem in \<open>simp_all add: nodes_below_def UN_subset_iff\<close>)
qed

lemma nodes_INode: "nodes env (INode p ts) = insert (map (conc env) ts) (nodes_below env ts)"
  by (simp add: nodes_below_def)

lemma nodes_below_single: "nodes_below env (empties[i := t]) \<subseteq> nodes env t"
  using set_single_child [of i t] by (auto simp: nodes_below_def)

lemma nodes_expand: "nodes_below env (expand t) \<subseteq> nodes env t"
proof (cases t)
  case (INode p ts)
  then show ?thesis
    using nodes_below_single [of env _ "INode (tl p) ts"]
    by (cases p) (auto simp: nodes_INode simp del: nodes.simps)
next
  case (ILeaf p v)
  then show ?thesis
    using nodes_below_single [of env _ "ILeaf (tl p) v"]
    by (cases p) (auto simp: nodes_below_def)
qed (simp add: nodes_below_def)

lemma runs_construct:
  assumes "universe env U" "t_ok (Suc n) t" "in_store env U st t"
  shows "runs env U st (construct_node_from_item env st (conc env t)) (map (conc env) (expand t)) {}"
proof (cases t)
  case (INode p ts)
  then show ?thesis
    using runs_load_child [OF assms(1)] assms(3)
    by (cases p) (auto simp: construct_node_from_item_def map_conc_update simp del: sm_simps)
next
  case (ILeaf p v)
  then show ?thesis
    using assms(2)
    by (cases p) (auto simp: construct_node_from_item_def map_conc_update simp del: sm_simps)
qed (auto simp: construct_node_from_item_def simp del: sm_simps)

lemma trim_keys_tl: "\<forall>a \<in> set as. action_key a \<noteq> [] \<Longrightarrow> trim_keys as = Inr (map act_tl as)"
proof (induction as)
  case (Cons a as)
  then have "trim_key a = Inr (act_tl a)"
    by (cases a) (auto split: list.splits)
  with Cons show ?case by (simp add: trim_keys_def)
qed (simp add: trim_keys_def)

text \<open>The task of one group: its result is the index of the item and the changed item.\<close>

definition refines_at ::
  "radix_env \<Rightarrow> node set \<Rightarrow> in_mem_store \<Rightarrow> (nat \<times> item option) rt \<Rightarrow> nat \<Rightarrow> itree \<Rightarrow> itree \<Rightarrow> bool" where
  "refines_at env U st m i t t' \<longleftrightarrow>
     (\<exists>r. runs env U st m (i, r) (nodes env t') \<and> upd (conc env t) r = conc env t')"

lemma refines_at_sbind:
  assumes "runs env U st m x {}" "refines_at env U st (f x) i t t'"
  shows "refines_at env U st (sbind m f) i t t'"
  using assms(2) runs_sbind_pure [OF assms(1), of f] unfolding refines_at_def by blast

lemma process_one_refines:
  assumes "universe env U" "t_ok n t" "act_ok (Suc n) a" "in_store env U st t"
    "nodes env (t_act t (act_tl a)) \<subseteq> U"
  shows "refines_at env U st (process_one_action env st a (conc env t) i) i t (t_act t (act_tl a))"
proof -
  obtain m where "refines env U st m t (t_act t (act_tl a))"
    and "process_one_action env st a (conc env t) i = sbind m (\<lambda>x. sret (i, x))"
  proof (cases a)
    case (InsertAction k v)
    then show ?thesis
      using that assms rt_update_refines [OF assms(1,2), of "tl k" st v]
      by (cases k) (auto simp: process_one_action_def)
  next
    case (DeleteAction k)
    then show ?thesis
      using that assms rt_delete_refines [OF assms(1,2), of st "tl k"]
      by (cases k) (auto simp: process_one_action_def)
  qed
  then show ?thesis
    unfolding refines_def refines_at_def using runs_sbind_ret [of env U st m _ _ "Pair i"] by metis
qed

text \<open>What \<open>make_actions\<close> does to the node of the trees \<open>ts\<close>.\<close>

definition actions_refine ::
  "radix_env \<Rightarrow> node set \<Rightarrow> in_mem_store \<Rightarrow> node option rt \<Rightarrow> itree list \<Rightarrow> itree list \<Rightarrow> bool" where
  "actions_refine env U st m ts us \<longleftrightarrow>
     (\<exists>r. runs env U st m r (nodes_below env us) \<and> upd (map (conc env) ts) r = map (conc env) us)"

lemma process_non_empty_refines:
  assumes U: "universe env U" and t: "t_ok (Suc n) (ts ! i)" "in_store env U st (ts ! i)" "i < length ts"
    and as: "\<forall>a \<in> set as. action_key a \<noteq> []" "list_all (act_ok (Suc n)) (map act_tl as)"
    and new: "nodes env (foldl t_act (ts ! i) (map act_tl as)) \<subseteq> U"
    and IH: "actions_refine env U st (make_actions env st (map (conc env) (expand (ts ! i))) (map act_tl as))
               (expand (ts ! i)) (foldl root_act (expand (ts ! i)) (map act_tl as))"
  shows "refines_at env U st (process_non_empty_actions env st (map (conc env) ts) as i) i
           (ts ! i) (foldl t_act (ts ! i) (map act_tl as))"
proof -
  let ?t = "ts ! i" and ?us = "foldl root_act (expand (ts ! i)) (map act_tl as)"
  have t': "t_node [] ?us = foldl t_act ?t (map act_tl as)"
    by (rule root_acts_expand [OF t(1) as(2)])
  obtain r where r: "runs env U st (make_actions env st (map (conc env) (expand ?t)) (map act_tl as)) r (nodes_below env ?us)"
    "upd (map (conc env) (expand ?t)) r = map (conc env) ?us"
    using IH by (auto simp: actions_refine_def)
  have below: "nodes env (t_node [] ?us) = node_of env ?us \<union> nodes_below env ?us"
    by (simp add: nodes_t_node nodes_below_def)
  let ?k = "\<lambda>x. case x of Some new_node \<Rightarrow> sbind (save_node_and_create_item env new_node [] True)
                  (\<lambda>new_item. sret (i, Some new_item)) | None \<Rightarrow> sret (i, None)"
  have "\<exists>x. runs env U st (sbind (make_actions env st (map (conc env) (expand ?t)) (map act_tl as)) ?k)
     (i, x) (nodes env (t_node [] ?us)) \<and> upd (conc env ?t) x = conc env (t_node [] ?us)"
  proof (cases r)
    case None
    then have "expand ?t = ?us"
      using r(2) map_conc_inj [OF U, of "expand ?t" ?us] nodes_expand [of env ?t] t(2) new below t'
      by (auto simp: in_store_def)
    then have same: "t_node [] ?us = ?t"
      using t_node_expand [OF t(1)] by simp
    have "runs env U st (?k r) (i, None) (nodes env ?t)"
      using t(2) None by (auto simp: in_store_def)
    then show ?thesis
      using runs_sbind [OF r(1), of ?k] None by (intro exI [of _ None]) (auto simp: same intro: runs_weaken)
  next
    case (Some nd)
    then have "runs env U st (?k r) (i, Some (conc env (t_node [] ?us))) (node_of env ?us)"
      using r(2) new below t' runs_sbind_ret [OF runs_compact_item [OF U], of ?us st "[]" "\<lambda>x. (i, Some x)"]
      by simp
    from runs_sbind [OF r(1), of ?k, OF this] show ?thesis
      by (intro exI [of _ "Some (conc env (t_node [] ?us))"]) (simp add: below Un_commute)
  qed
  then show ?thesis
    using t(3) trim_keys_tl [OF as(1)] refines_at_sbind [OF runs_construct [OF U t(1,2)]]
    unfolding t' process_non_empty_actions.simps refines_at_def [symmetric] by (simp del: sm_simps)
qed

lemma act_key_Cons: "act_ok (Suc n) a \<Longrightarrow> action_key a = hd (action_key a) # tl (action_key a)"
  using action_key_ok [of "Suc n" a] by (cases "action_key a") auto

lemma distinct_tl_keys:
  assumes "distinct (map action_key as)" "list_all (act_ok (Suc n)) as"
  shows "distinct (map action_key (map act_tl (group_of as b)))"
proof -
  have "inj_on (\<lambda>a. tl (action_key a)) (set (group_of as b))"
  proof (rule inj_onI)
    fix x y
    assume x: "x \<in> set (group_of as b)" and y: "y \<in> set (group_of as b)"
      and tl: "tl (action_key x) = tl (action_key y)"
    then have "action_key x = action_key y"
      using assms(2) act_key_Cons [of n x] act_key_Cons [of n y] by (auto simp: group_of_def list_all_iff)
    with x y show "x = y"
      using assms(1) by (auto simp: group_of_def distinct_map dest: inj_onD)
  qed
  moreover have "distinct (group_of as b)"
    using assms(1) by (auto simp: group_of_def distinct_map)
  ultimately show ?thesis by (simp add: distinct_map comp_inj_on_iff o_def)
qed

lemma group_of_ok: "list_all (act_ok n) as \<Longrightarrow> list_all (act_ok n) (group_of as b)"
  by (auto simp: group_of_def list_all_iff)

lemma act_tl_ok: "list_all (act_ok (Suc n)) as \<Longrightarrow> list_all (act_ok n) (map act_tl as)"
  by (auto simp: list_all_iff intro: act_ok_tl)

lemma is_insert_tl [simp]: "is_insert (act_tl a) = is_insert a"
  by (cases a) auto

lemma is_insert_map_tl: "list_ex is_insert (map act_tl as) = list_ex is_insert as"
  by (simp add: list_ex_iff)

lemma process_several_refines:
  assumes U: "universe env U" and ts: "root_ok (Suc n) ts" "\<forall>t \<in> set ts. in_store env U st t"
    and as: "list_all (act_ok (Suc (Suc n))) as"
    and new: "nodes env (foldl t_act (ts ! unat b) (map act_tl as)) \<subseteq> U"
    and IH: "actions_refine env U st (make_actions env st (map (conc env) (expand (ts ! unat b))) (map act_tl as))
               (expand (ts ! unat b)) (foldl root_act (expand (ts ! unat b)) (map act_tl as))"
  shows "refines_at env U st
           (process_several_actions env st (map (conc env) ts) as (conc env (ts ! unat (b :: byte))) (unat b)) (unat b)
           (ts ! unat b) (foldl t_act (ts ! unat b) (map act_tl as))"
proof (cases "as = [] \<or> ts ! unat b = IEmpty \<and> \<not> list_ex is_insert as")
  case True
  then have "foldl t_act (ts ! unat b) (map act_tl as) = ts ! unat b"
    by (auto simp: t_acts_deletes is_insert_map_tl)
  moreover have "in_store env U st (ts ! unat b)"
    using ts by (auto simp: root_ok_def)
  ultimately show ?thesis
    using True unfolding process_several_actions.simps refines_at_def
    by (intro exI [of _ None]) (auto simp: clearing_delete_actions_def in_store_def)
next
  case False
  have "\<forall>a \<in> set as. action_key a \<noteq> []"
    using as action_key_ok by (fastforce simp: list_all_iff)
  then show ?thesis
    using False ts new as root_ok_length [OF ts(1)]
      process_non_empty_refines [OF U root_ok_child [OF ts(1)] _ _ _ act_tl_ok [OF as] new IH]
    unfolding process_several_actions.simps clearing_delete_actions_def by auto
qed

definition group_task ::
  "radix_env \<Rightarrow> in_mem_store \<Rightarrow> node \<Rightarrow> byte \<times> history_action list \<Rightarrow> (nat \<times> item option) rt" where
  "group_task env st nd g =
     (if length (snd g) = 1
      then process_one_action env st (hd (snd g)) (nd ! unat (fst g)) (unat (fst g))
      else process_several_actions env st nd (snd g) (nd ! unat (fst g)) (unat (fst g)))"

lemma make_actions_tasks:
  assumes "grouping as = Inr gs" "length nd = 256"
    "\<forall>g \<in> set gs. runs env U st (group_task env st nd g) (res g) (N g)"
  shows "runs env U st (make_actions env st nd as)
     (if apply_group_items nd (map res gs) \<noteq> nd then Some (apply_group_items nd (map res gs)) else None)
     (\<Union>g \<in> set gs. N g)"
  unfolding runs_def
proof (intro allI impI)
  fix imp assume "cinv env U imp"
  from runs_all [OF assms(3) this] obtain imp' where *:
    "run_all (group_task env st nd) gs imp = (map (\<lambda>g. Inr (res g)) gs, imp')" "cinv env U imp'"
    "\<forall>n. avail env st imp n \<longrightarrow> avail env st imp' n" "\<forall>g \<in> set gs. \<forall>n \<in> N g. avail env st imp' n"
    by blast
  have "run_all (\<lambda>(group_idx, actions_in_group).
              let item_idx = byte_to_int group_idx in
              if \<not> item_idx < length nd then sfail (Panic ''index out of bounds'')
              else if length actions_in_group = 1
              then process_one_action env st (hd actions_in_group) (nd ! item_idx) item_idx
              else process_several_actions env st nd actions_in_group (nd ! item_idx) item_idx) gs imp
      = run_all (group_task env st nd) gs imp"
    using assms(2) by (intro run_all_cong) (auto simp: group_task_def Let_def)
  moreover have "collect_results (map (\<lambda>g. Inr (res g) :: (radix_tree_error, _) res) gs) = Inr (map res gs)"
    using collect_results_map_Inr [of "map res gs"] by (simp add: o_def)
  ultimately have "make_actions env st nd as imp = (Inr
     (if apply_group_items nd (map res gs) \<noteq> nd then Some (apply_group_items nd (map res gs)) else None), imp')"
    by (simp add: make_actions.simps assms(1) *(1) Let_def)
  with * show "\<exists>imp'. make_actions env st nd as imp = (Inr
     (if apply_group_items nd (map res gs) \<noteq> nd then Some (apply_group_items nd (map res gs)) else None), imp')
     \<and> cinv env U imp' \<and> (\<forall>n. avail env st imp n \<longrightarrow> avail env st imp' n)
     \<and> (\<forall>n \<in> (\<Union>g \<in> set gs. N g). avail env st imp' n)"
    by (intro exI [of _ imp']) auto
qed

lemma make_actions_groups:
  assumes len: "length ts = 256" "length us = 256" and keys: "\<forall>a \<in> set as. action_key a \<noteq> []"
    and tasks: "\<And>b. group_of as b \<noteq> [] \<Longrightarrow>
      refines_at env U st (group_task env st (map (conc env) ts) (b, group_of as b)) (unat b) (ts ! unat b) (us ! unat b)"
    and other: "\<And>b :: byte. group_of as b = [] \<Longrightarrow> us ! unat b = ts ! unat b"
    and st: "\<forall>t \<in> set ts. in_store env U st t"
  shows "actions_refine env U st (make_actions env st (map (conc env) ts) as) ts us"
proof -
  let ?nd = "map (conc env) ts"
  obtain gs where gs: "grouping as = Inr gs" "distinct (map fst gs)"
    "\<And>b. map_of gs b = (if group_of as b = [] then None else Some (group_of as b))"
    using grouping_spec [OF keys] by blast
  have mem: "g \<in> set gs \<longleftrightarrow> group_of as (fst g) \<noteq> [] \<and> snd g = group_of as (fst g)" for g
    using map_of_eq_Some_iff [OF gs(2), of "fst g" "snd g"] gs(3) [of "fst g"]
    by (auto split: if_splits)
  have "\<forall>g \<in> set gs. \<exists>r. runs env U st (group_task env st ?nd g) (unat (fst g), r) (nodes env (us ! unat (fst g)))
      \<and> upd (conc env (ts ! unat (fst g))) r = conc env (us ! unat (fst g))"
    using tasks mem unfolding refines_at_def by (metis prod.collapse)
  then obtain r where r: "\<forall>g \<in> set gs. runs env U st (group_task env st ?nd g) (unat (fst g), r g) (nodes env (us ! unat (fst g)))"
    "\<forall>g \<in> set gs. upd (conc env (ts ! unat (fst g))) (r g) = conc env (us ! unat (fst g))"
    by metis
  let ?res = "\<lambda>g. (unat (fst g), r g)"
  have dist: "distinct (map fst (map ?res gs))"
    using gs(2) by (auto simp: distinct_map inj_on_def)
  have nth: "apply_group_items ?nd (map ?res gs) ! unat b = conc env (us ! unat b)" for b :: byte
  proof (cases "group_of as b = []")
    case True
    then have "map_of (map ?res gs) (unat b) = None"
      using mem by (auto simp: map_of_eq_None_iff)
    then show ?thesis
      using len apply_group_items_nth [OF dist, of "unat b" ?nd] other [OF True] by simp
  next
    case False
    then have g: "(b, group_of as b) \<in> set gs"
      by (simp add: mem)
    then have "map_of (map ?res gs) (unat b) = Some (r (b, group_of as b))"
      by (intro map_of_is_SomeI [OF dist]) force
    then show ?thesis
      using len apply_group_items_nth [OF dist, of "unat b" ?nd] r(2) g by auto
  qed
  have eq: "apply_group_items ?nd (map ?res gs) = map (conc env) us"
  proof (rule nth_equalityI)
    show "apply_group_items ?nd (map ?res gs) ! i = map (conc env) us ! i"
      if i: "i < length (apply_group_items ?nd (map ?res gs))" for i
    proof -
      obtain b :: byte where "unat b = i"
        using i len byte_index [of i] by auto
      then show ?thesis using nth [of b] i len by auto
    qed
  qed (use len in simp)
  have "nd \<in> (\<Union>g \<in> set gs. nodes env (us ! unat (fst g))) \<or> stored env st nd" if nd: "nd \<in> nodes_below env us" for nd
  proof -
    obtain i where "i < 256" "nd \<in> nodes env (us ! i)"
      using nd len(2) unfolding nodes_below_def by (auto simp: in_set_conv_nth)
    then obtain b :: byte where b: "nd \<in> nodes env (us ! unat b)"
      using byte_index by blast
    show ?thesis
    proof (cases "group_of as b = []")
      case True
      then have "in_store env U st (us ! unat b)"
        using other [OF True] st len by auto
      with b show ?thesis by (auto simp: in_store_def)
    next
      case False
      then show ?thesis using b mem [of "(b, group_of as b)"] by force
    qed
  qed
  then show ?thesis
    unfolding actions_refine_def
    using runs_weaken [OF make_actions_tasks [OF gs(1) _ r(1)], of "nodes_below env us"] len
    by (auto simp: eq)
qed

text \<open>Keys of one byte make groups of one action.\<close>

lemma group_of_one_byte:
  assumes "list_all (act_ok (Suc 0)) as" "distinct (map action_key as)"
  shows "length (group_of as b) \<le> 1"
proof -
  have "action_key a = [b]" if "a \<in> set (group_of as b)" for a
    using that assms(1) action_key_ok [of "Suc 0" a]
    by (cases "action_key a") (auto simp: group_of_def list_all_iff)
  then have "action_key ` set (group_of as b) \<subseteq> {[b]}"
    by blast
  then have "card (action_key ` set (group_of as b)) \<le> 1"
    using card_mono [of "{[b]}"] by auto
  moreover have "distinct (map action_key (group_of as b))"
    using assms(2) by (auto simp: group_of_def distinct_map intro: inj_on_subset)
  then have "card (action_key ` set (group_of as b)) = length (group_of as b)"
    using distinct_card by fastforce
  ultimately show ?thesis by simp
qed

lemma make_actions_refines:
  assumes U: "universe env U"
  shows "root_ok n ts \<Longrightarrow> list_all (act_ok (Suc n)) as \<Longrightarrow> distinct (map action_key as) \<Longrightarrow>
    (\<forall>t \<in> set ts. in_store env U st t) \<Longrightarrow> nodes_below env (foldl root_act ts as) \<subseteq> U \<Longrightarrow>
    actions_refine env U st (make_actions env st (map (conc env) ts) as) ts (foldl root_act ts as)"
proof (induction n arbitrary: ts as rule: less_induct)
  case (less n)
  let ?us = "foldl root_act ts as"
  have len: "length ts = 256" "length ?us = 256"
    using root_ok_length less.prems(1) root_ok_acts [OF less.prems(1,2)] by auto
  have nth: "?us ! unat b = foldl t_act (ts ! unat b) (map act_tl (group_of as b))" for b
    unfolding group_of_def by (rule root_acts_nth [OF len(1)])
  have new: "nodes env (?us ! unat b) \<subseteq> U" for b :: byte
    using nodes_below_nth [OF len(2), of env b] less.prems(5) by blast
  have st: "in_store env U st (ts ! unat b)" for b :: byte
    using less.prems(4) len by auto
  show ?case
  proof (rule make_actions_groups [OF len])
    show "\<forall>a \<in> set as. action_key a \<noteq> []"
      using less.prems(2) action_key_ok by (fastforce simp: list_all_iff)
    fix b assume b: "group_of as b \<noteq> []"
    show "refines_at env U st (group_task env st (map (conc env) ts) (b, group_of as b)) (unat b) (ts ! unat b) (?us ! unat b)"
    proof (cases "length (group_of as b) = 1")
      case True
      then obtain a where a: "group_of as b = [a]"
        by (auto simp: length_Suc_conv)
      show ?thesis
        using process_one_refines [OF U root_ok_child [OF less.prems(1), of b] _ st, of a "unat b"]
          group_of_ok [OF less.prems(2), of b] new [of b] nth [of b] len
        by (simp add: group_task_def a)
    next
      case False
      with b have "n \<noteq> 0"
        using group_of_one_byte [of as b] less.prems(2,3) by (cases n; cases "group_of as b") auto
      then obtain m where n: "n = Suc m"
        by (cases n) auto
      let ?as = "map act_tl (group_of as b)"
      have as: "list_all (act_ok (Suc (Suc m))) (group_of as b)"
        using group_of_ok less.prems(2) n by simp
      have t: "t_ok (Suc m) (ts ! unat b)"
        using root_ok_child less.prems(1) n by simp
      have below: "nodes_below env (foldl root_act (expand (ts ! unat b)) ?as) \<subseteq> nodes env (?us ! unat b)"
        using root_acts_expand [OF t act_tl_ok [OF as]]
        by (auto simp: nth nodes_t_node nodes_below_def simp flip: root_acts_expand [OF t act_tl_ok [OF as]])
      have "actions_refine env U st (make_actions env st (map (conc env) (expand (ts ! unat b))) ?as)
          (expand (ts ! unat b)) (foldl root_act (expand (ts ! unat b)) ?as)"
      proof (rule less.IH [of m])
        show "\<forall>t \<in> set (expand (ts ! unat b)). in_store env U st t"
          using nodes_expand [of env "ts ! unat b"] st by (auto simp: in_store_def nodes_below_def)
      qed (use n t as act_tl_ok root_ok_expand below new [of b] distinct_tl_keys less.prems(2,3) in blast)+
      from process_several_refines [OF U less.prems(1) [unfolded n] less.prems(4) as _ this]
      show ?thesis
        using new [of b] False len by (simp add: group_task_def nth)
    qed
  next
    show "?us ! unat b = ts ! unat b" if "group_of as b = []" for b
      using nth [of b] that by simp
  qed (rule less.prems(4))
qed

end
