(* ===== verification/RadixHistory.thy ===== *)
theory RadixHistory
  imports RadixRefine
begin

section \<open>Histories\<close>

text \<open>
  \<open>RadixHistory\<close> of rspace++/src/rspace/history/instances/radix_history.rs: a root hash, the
  root node and a \<open>RadixTreeImpl\<close> over a store that all histories of the repository share.
  The store is an argument; \<open>process\<close> returns the new history, the old one (its caches
  change) and the store. The theorems: \<open>process\<close> performs a batch of insertions and
  deletions on the finite map a history stands for and persists it, every older root can
  still be opened, and the root hash is determined by the content.
\<close>

record radix_history =
  root_hash :: bytes
  root_node :: node
  imple :: radix_tree_impl

definition history_create ::
  "radix_env \<Rightarrow> in_mem_store \<Rightarrow> bytes \<Rightarrow> (history_error, radix_history) res" where
  "history_create env st root =
     (case load_node env st root True new_impl of
        (r, t) \<Rightarrow> rbind (map_err HistoryRadixTreeError r) (\<lambda>node.
          Inr \<lparr>root_hash = root, root_node = node, imple = t\<rparr>))"

definition empty_root_node_hash :: "radix_env \<Rightarrow> (radix_tree_error, bytes) res" where
  "empty_root_node_hash env = rbind (hash_node env empty_node) (\<lambda>(node_hash_bytes, _). Inr node_hash_bytes)"

definition has_no_duplicates :: "history_action list \<Rightarrow> bool" where
  "has_no_duplicates actions \<longleftrightarrow> length (remdups (map action_key actions)) = length actions"

definition history_read ::
  "radix_env \<Rightarrow> in_mem_store \<Rightarrow> bytes \<Rightarrow> radix_history \<Rightarrow> (history_error, bytes option) res \<times> radix_history" where
  "history_read env st key h =
     (case rt_read env st (root_node h) key (imple h) of
        (r, t) \<Rightarrow> (map_err HistoryRadixTreeError r, h\<lparr>imple := t\<rparr>))"

definition process ::
  "radix_env \<Rightarrow> history_action list \<Rightarrow> in_mem_store \<Rightarrow> radix_history \<Rightarrow>
   (history_error, radix_history) res \<times> radix_history \<times> in_mem_store" where
  "process env actions st h =
     (if \<not> has_no_duplicates actions
      then (Inl (Err (ActionError ''Cannot process duplicate actions on one key.'')), h, st)
      else case make_actions env st (root_node h) actions (imple h) of
        (Inl e, t) \<Rightarrow> (map_err HistoryRadixTreeError (Inl e), h\<lparr>imple := t\<rparr>, st)
      | (Inr None, t) \<Rightarrow>
          (Inr \<lparr>root_hash = root_hash h, root_node = root_node h, imple = new_impl\<rparr>, h\<lparr>imple := t\<rparr>, st)
      | (Inr (Some new_root_node), t) \<Rightarrow>
          (case save_node env new_root_node t of
             (Inl e, t') \<Rightarrow> (map_err HistoryRadixTreeError (Inl e), h\<lparr>imple := t'\<rparr>, st)
           | (Inr node_hash_bytes, t') \<Rightarrow>
               let new_history = \<lparr>root_hash = node_hash_bytes, root_node = new_root_node, imple = new_impl\<rparr>
               in case commit env st t' of
                    Inl e \<Rightarrow> (map_err HistoryRadixTreeError (Inl e), h\<lparr>imple := t'\<rparr>, st)
                  | Inr st' \<Rightarrow>
                      (Inr new_history, h\<lparr>imple := clear_read_cache (clear_write_cache t')\<rparr>, st')))"

definition history_root :: "radix_history \<Rightarrow> bytes" where
  "history_root h = root_hash h"

definition history_reset ::
  "radix_env \<Rightarrow> in_mem_store \<Rightarrow> bytes \<Rightarrow> radix_history \<Rightarrow> (history_error, radix_history) res" where
  "history_reset env st root h =
     (case load_node env st root True new_impl of
        (r, t) \<Rightarrow> rbind (map_err HistoryRadixTreeError r) (\<lambda>node.
          Inr \<lparr>root_hash = root, root_node = node, imple = t\<rparr>))"

subsection \<open>Committing the write cache\<close>

text \<open>The pairs \<open>commit\<close> goes through, and when it reports a collision.\<close>

definition write_pairs :: "radix_env \<Rightarrow> radix_tree_impl \<Rightarrow> (bytes \<times> bytes) list" where
  "write_pairs env t = map (\<lambda>k. (k, the (hm_get (cache_w t) k))) (dash_order env (hm_keys (cache_w t)))"

lemma present_pairs:
  "map fst (filter (\<lambda>(_, p). p) (zip kvs (map (\<lambda>k. hm_get st k \<noteq> None) (map fst kvs)))) =
   filter (\<lambda>kv. hm_get st (fst kv) \<noteq> None) kvs"
  by (induction kvs) auto

lemma collision_pairs:
  "\<forall>kv \<in> set kvs. hm_get st (fst kv) \<noteq> None \<Longrightarrow>
   map fst (filter (\<lambda>kvv. \<not> snd (fst kvv) = snd kvv)
     (zip kvs (map (\<lambda>v. case v of Some x \<Rightarrow> x | None \<Rightarrow> []) (map (hm_get st) (map fst kvs))))) =
   filter (\<lambda>kv. hm_get st (fst kv) \<noteq> Some (snd kv)) kvs"
  by (induction kvs) auto

lemma commit_unfold:
  "commit env st t =
    (let kvs = write_pairs env t in
     if \<exists>kv \<in> set kvs. hm_get st (fst kv) \<noteq> None \<and> hm_get st (fst kv) \<noteq> Some (snd kv)
     then Inl (Err (CollisionError ''collisions in KVDB''))
     else map_err RadixKvStoreError (inmem_put st (filter (\<lambda>kv. hm_get st (fst kv) = None) kvs)))"
proof -
  let ?kvs = "write_pairs env t"
  let ?e = "filter (\<lambda>kv. hm_get st (fst kv) \<noteq> None) ?kvs"
  have "filter (\<lambda>kv. hm_get st (fst kv) \<noteq> Some (snd kv)) ?e \<noteq> [] \<longleftrightarrow>
     (\<exists>kv \<in> set ?kvs. hm_get st (fst kv) \<noteq> None \<and> hm_get st (fst kv) \<noteq> Some (snd kv))"
    by (auto simp: filter_empty_conv)
  moreover have "\<forall>kv \<in> set ?e. hm_get st (fst kv) \<noteq> None"
    by simp
  note collision_pairs [OF this]
  ultimately show ?thesis
    unfolding commit_def write_pairs_def [symmetric] Let_def inmem.contains_lookup inmem_get_def
      map_err_simps rbind_simps present_pairs inmem.absent_pairs
    by (simp only: not_False_eq_True)
qed

lemma write_pairs_set:
  assumes "env_ok env" "hm_ok (cache_w t)"
  shows "set (write_pairs env t) = {(k, v). hm_get (cache_w t) k = Some v}" "distinct (map fst (write_pairs env t))"
proof -
  have "distinct (hm_keys (cache_w t))"
    using assms(2) by (simp add: hm_ok_def)
  then have ord: "distinct (dash_order env (hm_keys (cache_w t)))" "set (dash_order env (hm_keys (cache_w t))) = fst ` set (cache_w t)"
    using assms(1) by (auto simp: env_ok_def)
  show "distinct (map fst (write_pairs env t))"
    using ord(1) by (simp add: write_pairs_def o_def)
  show "set (write_pairs env t) = {(k, v). hm_get (cache_w t) k = Some v}"
  proof (intro set_eqI, unfold split_paired_all)
    fix k v
    have "k \<in> fst ` set (cache_w t) \<longleftrightarrow> (\<exists>w. hm_get (cache_w t) k = Some w)"
      using map_of_eq_None_iff [of "cache_w t" k] by auto
    then show "(k, v) \<in> set (write_pairs env t) \<longleftrightarrow> (k, v) \<in> {(k, v). hm_get (cache_w t) k = Some v}"
      unfolding write_pairs_def using ord(2) by auto
  qed
qed

lemma commit_spec:
  assumes "env_ok env" "hm_ok (cache_w t)"
  shows "\<exists>k v w. hm_get (cache_w t) k = Some v \<and> hm_get st k = Some w \<and> w \<noteq> v \<Longrightarrow>
      commit env st t = Inl (Err (CollisionError ''collisions in KVDB''))"
    and "\<nexists>k v w. hm_get (cache_w t) k = Some v \<and> hm_get st k = Some w \<and> w \<noteq> v \<Longrightarrow>
      \<exists>st'. commit env st t = Inr st' \<and> hm_get st' = hm_get (cache_w t) ++ hm_get st"
proof -
  note pairs = write_pairs_set [OF assms]
  let ?new = "filter (\<lambda>kv. hm_get st (fst kv) = None) (write_pairs env t)"
  have coll: "(\<exists>kv \<in> set (write_pairs env t). hm_get st (fst kv) \<noteq> None \<and> hm_get st (fst kv) \<noteq> Some (snd kv)) \<longleftrightarrow>
     (\<exists>k v w. hm_get (cache_w t) k = Some v \<and> hm_get st k = Some w \<and> w \<noteq> v)"
    unfolding pairs(1) by simp (metis option.inject)
  show "commit env st t = Inl (Err (CollisionError ''collisions in KVDB''))"
    if "\<exists>k v w. hm_get (cache_w t) k = Some v \<and> hm_get st k = Some w \<and> w \<noteq> v"
    using that by (simp add: commit_unfold Let_def coll del: not_None_eq)
  show "\<exists>st'. commit env st t = Inr st' \<and> hm_get st' = hm_get (cache_w t) ++ hm_get st"
    if no: "\<nexists>k v w. hm_get (cache_w t) k = Some v \<and> hm_get st k = Some w \<and> w \<noteq> v"
  proof -
    obtain st' where st': "inmem_put st ?new = Inr st'" "hm_get st' = hm_get st ++ map_of (rev ?new)"
      using inmem.put_lookup by blast
    have dist: "distinct (map fst ?new)"
      using pairs(2) by (rule distinct_map_filter)
    then have rev: "map_of (rev ?new) k = Some v \<longleftrightarrow> (k, v) \<in> set ?new" for k v
      by (subst map_of_eq_Some_iff) (simp_all add: rev_map [symmetric])
    have "hm_get st' k = (hm_get (cache_w t) ++ hm_get st) k" for k
    proof (cases "hm_get st k")
      case None
      then have "map_of (rev ?new) k = Some v \<longleftrightarrow> hm_get (cache_w t) k = Some v" for v
        unfolding rev by (simp add: pairs(1))
      then have "map_of (rev ?new) k = hm_get (cache_w t) k"
        by (cases "hm_get (cache_w t) k"; cases "map_of (rev ?new) k") auto
      with None st'(2) show ?thesis by (simp add: map_add_def split: option.splits)
    next
      case (Some v)
      then have "map_of (rev ?new) k \<noteq> Some v'" for v'
        unfolding rev by simp
      then have "map_of (rev ?new) k = None"
        by (cases "map_of (rev ?new) k") blast+
      with Some st'(2) show ?thesis by (simp add: map_add_def)
    qed
    then have "hm_get st' = hm_get (cache_w t) ++ hm_get st"
      by (rule ext)
    then show ?thesis
      using st'(1) no by (simp add: commit_unfold Let_def coll del: not_None_eq)
  qed
qed

subsection \<open>Histories stand for finite maps\<close>

text \<open>
  \<open>openable\<close>: the root node of the trees \<open>ts\<close> and all nodes below it are in the store (the
  root of the empty history need not be: loading it falls back to the empty node).
  \<open>history_ok\<close>: the history \<open>h\<close> stands for the root \<open>ts\<close>.
\<close>

definition openable :: "radix_env \<Rightarrow> node set \<Rightarrow> in_mem_store \<Rightarrow> nat \<Rightarrow> itree list \<Rightarrow> bool" where
  "openable env U st n ts \<longleftrightarrow> root_ok n ts \<and> (\<forall>t \<in> set ts. in_store env U st t)
     \<and> map (conc env) ts \<in> U \<and> (stored env st (map (conc env) ts) \<or> ts = empties)"

definition store_ok :: "radix_env \<Rightarrow> node set \<Rightarrow> in_mem_store \<Rightarrow> bool" where
  "store_ok env U st \<longleftrightarrow> env_ok env \<and> universe env U \<and> sinv env U st"

definition history_ok :: "radix_env \<Rightarrow> node set \<Rightarrow> in_mem_store \<Rightarrow> nat \<Rightarrow> itree list \<Rightarrow> radix_history \<Rightarrow> bool" where
  "history_ok env U st n ts h \<longleftrightarrow> store_ok env U st \<and> openable env U st n ts \<and> cinv env U (imple h)
     \<and> root_node h = map (conc env) ts \<and> root_hash h = nhash env (map (conc env) ts)"

definition store_le :: "in_mem_store \<Rightarrow> in_mem_store \<Rightarrow> bool" where
  "store_le st st' \<longleftrightarrow> (\<forall>h bs. hm_get st h = Some bs \<longrightarrow> hm_get st' h = Some bs)"

lemma store_le_refl [simp]: "store_le st st"
  by (simp add: store_le_def)

lemma openable_mono: "store_le st st' \<Longrightarrow> openable env U st n ts \<Longrightarrow> openable env U st' n ts"
  by (auto simp: store_le_def openable_def in_store_def stored_def)

lemma history_read_ok:
  assumes "history_ok env U st n ts h"
  shows "\<exists>h'. history_read env st k h = (Inr (root_get ts k), h') \<and> history_ok env U st n ts h'"
proof -
  have "runs env U st (rt_read env st (map (conc env) ts) k) (root_get ts k) {}"
    unfolding rt_read_def read_at_def
    using assms by (intro runs_read_at) (auto simp: history_ok_def store_ok_def openable_def)
  then obtain t where "rt_read env st (root_node h) k (imple h) = (Inr (root_get ts k), t)" "cinv env U t"
    using assms by (auto simp: history_ok_def elim: runsE)
  with assms show ?thesis by (simp add: history_read_def history_ok_def)
qed

lemma has_no_duplicates_iff: "has_no_duplicates as \<longleftrightarrow> distinct (map action_key as)"
  unfolding has_no_duplicates_def
  using length_remdups_eq [of "map action_key as"] remdups_id_iff_distinct [of "map action_key as"] by simp

lemma commit_cached:
  assumes "store_ok env U st" "cinv env U t"
  shows "\<exists>st'. commit env st t = Inr st' \<and> store_ok env U st' \<and> store_le st st'
    \<and> (\<forall>nd. avail env st t nd \<longrightarrow> stored env st' nd)"
proof -
  have ok: "env_ok env" "universe env U" "sinv env U st" "hm_ok (cache_w t)"
    using assms by (auto simp: store_ok_def cinv_def)
  have same: "v = w" if "hm_get (cache_w t) k = Some v" "hm_get st k = Some w" for k v w
  proof -
    have "node_at env U k v" "node_at env U k w"
      using that assms ok(3) by (auto simp: cinv_def sinv_def)
    then show ?thesis
      using universe_inj [OF ok(2)] by (auto simp: node_at_def)
  qed
  then obtain st' where st': "commit env st t = Inr st'" "hm_get st' = hm_get (cache_w t) ++ hm_get st"
    using commit_spec(2) [OF ok(1,4), of st] by blast
  have "node_at env U k v" if "hm_get st' k = Some v" for k v
    using that st'(2) ok(3) assms(2) by (auto simp: map_add_def sinv_def cinv_def split: option.splits)
  then have "store_ok env U st'"
    using ok by (auto simp: store_ok_def sinv_def)
  moreover have "store_le st st'"
    using st'(2) by (auto simp: store_le_def)
  moreover have "stored env st' nd" if "avail env st t nd" for nd
  proof (cases "hm_get st (nhash env nd)")
    case None
    then show ?thesis
      using that st'(2) by (auto simp: avail_def stored_def cached_def map_add_def)
  next
    case (Some w)
    then have "w = encode_node_bytes nd"
      using that same [of "nhash env nd"] by (auto simp: avail_def stored_def cached_def)
    then show ?thesis
      using Some st'(2) by (simp add: stored_def map_add_def)
  qed
  ultimately show ?thesis
    using st'(1) by blast
qed

text \<open>The nodes a batch of actions may create: the root of the new trees and what is below it.\<close>

definition root_nodes :: "radix_env \<Rightarrow> itree list \<Rightarrow> node set" where
  "root_nodes env ts = insert (map (conc env) ts) (nodes_below env ts)"

lemma process_ok:
  assumes h: "history_ok env U st n ts h" and as: "list_all (act_ok (Suc n)) as" "distinct (map action_key as)"
    and new: "root_nodes env (foldl root_act ts as) \<subseteq> U"
  shows "\<exists>h' self st'. process env as st h = (Inr h', self, st') \<and> store_le st st'
    \<and> history_ok env U st' n (foldl root_act ts as) h' \<and> history_ok env U st' n ts self"
proof -
  let ?us = "foldl root_act ts as"
  have ok: "universe env U" "store_ok env U st" "openable env U st n ts" "cinv env U (imple h)"
    "root_node h = map (conc env) ts" "root_hash h = nhash env (map (conc env) ts)"
    using h by (auto simp: history_ok_def store_ok_def)
  have ts: "root_ok n ts" "\<forall>t \<in> set ts. in_store env U st t"
    using ok(3) by (auto simp: openable_def)
  have us: "root_ok n ?us" "map (conc env) ?us \<in> U" "nodes_below env ?us \<subseteq> U"
    using root_ok_acts [OF ts(1) as(1)] new by (auto simp: root_nodes_def)
  obtain r where r: "runs env U st (make_actions env st (map (conc env) ts) as) r (nodes_below env ?us)"
    "upd (map (conc env) ts) r = map (conc env) ?us"
    using make_actions_refines [OF ok(1) ts(1) as ts(2) us(3)] by (auto simp: actions_refine_def)
  from r(1) ok(4) obtain t where t: "make_actions env st (map (conc env) ts) as (imple h) = (Inr r, t)" "cinv env U t"
    "\<forall>nd. avail env st (imple h) nd \<longrightarrow> avail env st t nd" "\<forall>nd \<in> nodes_below env ?us. avail env st t nd"
    by (rule runsE)
  note dup = as(2) [folded has_no_duplicates_iff]
  show ?thesis
  proof (cases r)
    case None
    have "nodes_below env ts \<subseteq> U"
      using ts(2) by (auto simp: nodes_below_def in_store_def)
    then have "?us = ts"
      using map_conc_inj [OF ok(1), of ts ?us] r(2) None us(3) by simp
    with t(1,2) None dup ok show ?thesis
      by (simp add: process_def history_ok_def)
  next
    case (Some nd)
    then have nd: "nd = map (conc env) ?us"
      using r(2) by simp
    from runs_save [OF ok(1) us(2)] t(2) obtain t' where t': "save_node env nd t = (Inr (nhash env nd), t')" "cinv env U t'"
      "\<forall>n. avail env st t n \<longrightarrow> avail env st t' n" "\<forall>n \<in> {nd}. avail env st t' n"
      unfolding nd by (rule runsE)
    obtain st' where st': "commit env st t' = Inr st'" "store_ok env U st'" "store_le st st'"
      "\<forall>nd. avail env st t' nd \<longrightarrow> stored env st' nd"
      using commit_cached [OF ok(2) t'(2)] by blast
    have "openable env U st' n ?us"
      using us t(4) t'(3,4) st'(4) nd by (auto simp: openable_def in_store_def nodes_below_def)
    moreover have "openable env U st' n ts"
      by (rule openable_mono [OF st'(3) ok(3)])
    ultimately show ?thesis
      using t(1) t'(1) st'(1-3) Some nd dup ok
      by (simp add: process_def history_ok_def clear_read_cache_def clear_write_cache_def cinv_def new_impl_def)
  qed
qed

text \<open>Opening a root, from any history over the store.\<close>

lemma load_root:
  assumes "store_ok env U st" "openable env U st n ts"
  shows "\<exists>t. load_node env st (nhash env (map (conc env) ts)) True new_impl = (Inr (map (conc env) ts), t) \<and> cinv env U t"
proof (cases "stored env st (map (conc env) ts)")
  case True
  then have "runs env U st (load_node env st (nhash env (map (conc env) ts)) True) (map (conc env) ts) {}"
    using assms unfolding load_node_def by (intro load_stored) (auto simp: store_ok_def openable_def)
  then show ?thesis
    using cinv_new by (rule runsE) blast
next
  case False
  then have ts: "ts = empties"
    using assms(2) by (simp add: openable_def)
  have "hm_get st (nhash env empty_node) \<noteq> Some bs" for bs
  proof
    assume bs: "hm_get st (nhash env empty_node) = Some bs"
    then obtain nd where "nd \<in> U" "nhash env empty_node = nhash env nd" "bs = encode_node_bytes nd"
      using assms(1) by (auto simp: store_ok_def sinv_def node_at_def)
    then have "nd = empty_node"
      using assms universe_inj by (auto simp: store_ok_def openable_def ts)
    with \<open>bs = _\<close> bs False show False by (simp add: stored_def ts)
  qed
  then have "hm_get st (nhash env empty_node) = None"
    by (cases "hm_get st (nhash env empty_node)") blast+
  then show ?thesis
    by (simp add: ts load_node_def load_node_arc_def load_node_from_store_def inmem.get_one_lookup new_impl_def cinv_def)
qed

lemma history_reset_ok:
  assumes "store_ok env U st" "openable env U st n ts"
  shows "\<exists>h'. history_reset env st (nhash env (map (conc env) ts)) h = Inr h' \<and> history_ok env U st n ts h'"
  using load_root [OF assms] assms by (auto simp: history_reset_def history_ok_def)

lemma history_create_ok:
  assumes "store_ok env U st" "openable env U st n ts"
  shows "\<exists>h'. history_create env st (nhash env (map (conc env) ts)) = Inr h' \<and> history_ok env U st n ts h'"
  using load_root [OF assms] assms by (auto simp: history_create_def history_ok_def)

subsection \<open>Properties\<close>

lemma read_content: "history_ok env U st n ts h \<Longrightarrow> fst (history_read env st k h) = Inr (root_get ts k)"
  using history_read_ok [of env U st n ts h k] by auto

text \<open>A concrete setting for the witnesses: two nodes, a hash that separates them.\<close>

definition demo_hash :: bytes where
  "demo_hash = replicate 32 7"

definition demo_actions :: "history_action list" where
  "demo_actions = [InsertAction [1] demo_hash]"

definition demo_root :: "itree list" where
  "demo_root = empties[1 := ILeaf [] demo_hash]"

definition demo_node :: node where
  "demo_node = empty_node[1 := Leaf [] demo_hash]"

definition demo_env :: radix_env where
  "demo_env = \<lparr>blake2b256 = (\<lambda>bs. if bs = encode_node_bytes empty_node then replicate 32 0 else replicate 32 1),
     dash_order = (\<lambda>ks. ks)\<rparr>"

definition demo_history :: radix_history where
  "demo_history = \<lparr>root_hash = nhash demo_env empty_node, root_node = empty_node, imple = new_impl\<rparr>"

lemma demo_root_acts: "foldl root_act empties demo_actions = demo_root"
  by (simp add: demo_actions_def demo_root_def root_act_def Let_def)

lemma demo_root_conc [simp]: "map (conc demo_env) demo_root = demo_node"
  by (simp add: demo_root_def demo_node_def map_conc_update)

lemma demo_node_ok: "node_ok demo_node" "demo_node \<noteq> empty_node"
proof -
  have "length empty_node = 256" "empty_node ! 1 = EmptyItem"
    by (simp_all add: empty_node_def NUM_ITEMS_def)
  then have "demo_node ! 1 = Leaf [] demo_hash"
    by (simp add: demo_node_def)
  with \<open>empty_node ! 1 = EmptyItem\<close> show "demo_node \<noteq> empty_node"
    by auto
  show "node_ok demo_node"
    using empty_node_ok set_update_subset_insert [of empty_node 1 "Leaf [] demo_hash"]
    by (auto simp: node_ok_def demo_node_def list_all_iff demo_hash_def DEF_SIZE_def)
qed

lemma demo_nodes: "root_nodes demo_env demo_root \<subseteq> {empty_node, demo_node}"
proof -
  have "nodes_below demo_env demo_root = {}"
    using nodes_below_single [of demo_env 1 "ILeaf [] demo_hash"] by (simp add: demo_root_def)
  then show ?thesis by (simp add: root_nodes_def)
qed

lemma demo_env_ok: "env_ok demo_env"
  by (simp add: env_ok_def demo_env_def DEF_SIZE_def)

lemma demo_universe: "universe demo_env {empty_node, demo_node}"
proof -
  have "encode_node_bytes demo_node \<noteq> encode_node_bytes empty_node"
    using encode_node_bytes_inj [OF demo_node_ok(1) empty_node_ok] demo_node_ok(2) by blast
  then show ?thesis
    using demo_node_ok by (auto simp: universe_def nhash_def demo_env_def)
qed

lemma demo_history_ok: "history_ok demo_env {empty_node, demo_node} [] 0 empties demo_history"
  by (simp add: history_ok_def store_ok_def sinv_def openable_def root_ok_def demo_env_ok demo_universe demo_history_def)

definition demo_store :: in_mem_store where
  "demo_store = [(nhash demo_env demo_node, encode_node_bytes demo_node)]"

definition demo_history2 :: radix_history where
  "demo_history2 = \<lparr>root_hash = nhash demo_env demo_node, root_node = demo_node, imple = new_impl\<rparr>"

lemma demo_history2_ok: "history_ok demo_env {empty_node, demo_node} demo_store 0 demo_root demo_history2"
proof -
  have below: "nodes_below demo_env demo_root = {}"
    using nodes_below_single [of demo_env 1 "ILeaf [] demo_hash"] by (simp add: demo_root_def)
  have "root_ok 0 demo_root"
    using set_single_child [of 1 "ILeaf [] demo_hash"]
    by (auto simp: root_ok_def demo_root_def demo_hash_def DEF_SIZE_def)
  then show ?thesis
    using below demo_env_ok demo_universe
    by (auto simp: history_ok_def store_ok_def sinv_def openable_def demo_history2_def demo_store_def
        stored_def node_at_def in_store_def nodes_below_def)
qed

lemma demo_actions_ok: "list_all (act_ok (Suc 0)) demo_actions" "distinct (map action_key demo_actions)"
  by (simp_all add: demo_actions_def demo_hash_def DEF_SIZE_def)

lemmas demo_facts = demo_history_ok demo_actions_ok demo_nodes [folded demo_root_acts]

text \<open>
  C15. \<open>RadixHistory::process\<close> on a history that stands for a finite map, with actions on distinct
  keys of the right length, succeeds; reading any key of the returned history gives the value the
  actions put there, or the old value, and the history it was called on still reads as before.
  The hypothesis is that the hash has no collisions among the nodes in the store and the caches
  and the nodes of the new tree.
\<close>

theorem process_correct:
  assumes "history_ok env U st n ts h" "list_all (act_ok (Suc n)) as" "distinct (map action_key as)"
    "root_nodes env (foldl root_act ts as) \<subseteq> U"
  shows "\<exists>h' self st'. process env as st h = (Inr h', self, st')
    \<and> history_ok env U st' n (foldl root_act ts as) h'
    \<and> (\<forall>k. fst (history_read env st' k h') = Inr (foldl act_map (root_get ts) as k))
    \<and> (\<forall>k. fst (history_read env st' k self) = Inr (root_get ts k))"
proof -
  have "root_ok n ts"
    using assms(1) by (simp add: history_ok_def openable_def)
  then have "root_get (foldl root_act ts as) = foldl act_map (root_get ts) as"
    by (rule root_get_acts [OF _ assms(2)])
  moreover obtain h' self st' where "process env as st h = (Inr h', self, st')"
    "history_ok env U st' n (foldl root_act ts as) h'" "history_ok env U st' n ts self"
    using process_ok [OF assms] by blast
  ultimately show ?thesis by (simp add: read_content)
qed

theorem process_correct_witness:
  "\<exists>h' self st'. process demo_env demo_actions [] demo_history = (Inr h', self, st')
    \<and> history_ok demo_env {empty_node, demo_node} st' 0 (foldl root_act empties demo_actions) h'
    \<and> (\<forall>k. fst (history_read demo_env st' k h') = Inr (foldl act_map (root_get empties) demo_actions k))
    \<and> (\<forall>k. fst (history_read demo_env st' k self) = Inr (root_get empties k))"
  using process_correct [OF demo_facts] .

text \<open>
  C16. Persistence: after \<open>process\<close>, \<open>reset\<close> to the new root, and to every root that could be
  opened before, gives a history with that root's content.
\<close>

theorem process_reset:
  assumes "history_ok env U st n ts h" "list_all (act_ok (Suc n)) as" "distinct (map action_key as)"
    "root_nodes env (foldl root_act ts as) \<subseteq> U" "openable env U st n vs"
  shows "\<exists>h' self st' g g'. process env as st h = (Inr h', self, st')
    \<and> history_reset env st' (history_root h') any = Inr g
    \<and> (\<forall>k. fst (history_read env st' k g) = Inr (foldl act_map (root_get ts) as k))
    \<and> history_reset env st' (nhash env (map (conc env) vs)) any = Inr g'
    \<and> (\<forall>k. fst (history_read env st' k g') = Inr (root_get vs k))"
proof -
  obtain h' self st' where p: "process env as st h = (Inr h', self, st')" "store_le st st'"
    "history_ok env U st' n (foldl root_act ts as) h'"
    using process_ok [OF assms(1-4)] by blast
  have st: "store_ok env U st'" "openable env U st' n (foldl root_act ts as)" "openable env U st' n vs"
    "history_root h' = nhash env (map (conc env) (foldl root_act ts as))"
    using p openable_mono [OF p(2) assms(5)] by (auto simp: history_ok_def history_root_def)
  have "root_ok n ts"
    using assms(1) by (simp add: history_ok_def openable_def)
  then have "root_get (foldl root_act ts as) = foldl act_map (root_get ts) as"
    by (rule root_get_acts [OF _ assms(2)])
  moreover obtain g where "history_reset env st' (nhash env (map (conc env) (foldl root_act ts as))) any = Inr g"
    "history_ok env U st' n (foldl root_act ts as) g"
    using history_reset_ok [OF st(1,2)] by blast
  moreover obtain g' where "history_reset env st' (nhash env (map (conc env) vs)) any = Inr g'"
    "history_ok env U st' n vs g'"
    using history_reset_ok [OF st(1,3)] by blast
  ultimately show ?thesis
    using p(1) by (simp add: read_content st(4))
qed

theorem process_reset_witness:
  "\<exists>h' self st' g g'. process demo_env demo_actions [] demo_history = (Inr h', self, st')
    \<and> history_reset demo_env st' (history_root h') demo_history = Inr g
    \<and> (\<forall>k. fst (history_read demo_env st' k g) = Inr (foldl act_map (root_get empties) demo_actions k))
    \<and> history_reset demo_env st' (nhash demo_env (map (conc demo_env) empties)) demo_history = Inr g'
    \<and> (\<forall>k. fst (history_read demo_env st' k g') = Inr (root_get empties k))"
  by (rule process_reset [OF demo_facts]) (use demo_history_ok in \<open>simp add: history_ok_def\<close>)

text \<open>
  C17. The root hash identifies the content: two histories over keys of one length have the
  same root hash exactly when they read the same at every key, in whatever order and
  batches the content was written.
\<close>

theorem root_hash_content:
  assumes "history_ok env U st n ts h" "history_ok env U st' n us g"
  shows "history_root h = history_root g \<longleftrightarrow>
    (\<forall>k. fst (history_read env st k h) = fst (history_read env st' k g))"
proof
  have ok: "root_ok n ts" "root_ok n us" "universe env U" "map (conc env) ts \<in> U" "map (conc env) us \<in> U"
    using assms by (auto simp: history_ok_def openable_def store_ok_def)
  {
    assume "history_root h = history_root g"
    then have "map (conc env) ts = map (conc env) us"
      using assms ok universe_inj by (auto simp: history_ok_def history_root_def)
    moreover have "nodes_below env ts \<subseteq> U" "nodes_below env us \<subseteq> U"
      using assms by (auto simp: history_ok_def openable_def nodes_below_def in_store_def)
    ultimately have "ts = us"
      by (rule map_conc_inj [OF ok(3)])
    then show "\<forall>k. fst (history_read env st k h) = fst (history_read env st' k g)"
      using read_content [OF assms(1)] read_content [OF assms(2)] by simp
  }
  assume "\<forall>k. fst (history_read env st k h) = fst (history_read env st' k g)"
  then have "root_get ts = root_get us"
    using read_content [OF assms(1)] read_content [OF assms(2)] by (simp add: fun_eq_iff)
  then have "ts = us"
    by (rule root_unique [OF ok(1,2)])
  then show "history_root h = history_root g"
    using assms by (simp add: history_ok_def history_root_def)
qed

theorem root_hash_content_witness:
  "history_root demo_history = history_root demo_history2 \<longleftrightarrow>
    (\<forall>k. fst (history_read demo_env [] k demo_history) = fst (history_read demo_env demo_store k demo_history2))"
  using root_hash_content [OF demo_history_ok demo_history2_ok] .

text \<open>
  A batch with two actions on one key is refused with an error; neither the history nor
  the store changes.
\<close>

theorem process_duplicates:
  assumes "\<not> distinct (map action_key as)"
  shows "process env as st h = (Inl (Err (ActionError ''Cannot process duplicate actions on one key.'')), h, st)"
  using assms by (simp add: process_def has_no_duplicates_iff)

theorem process_duplicates_witness:
  "process demo_env [DeleteAction [1], InsertAction [1] demo_hash] [] demo_history =
    (Inl (Err (ActionError ''Cannot process duplicate actions on one key.'')), demo_history, [])"
  by (rule process_duplicates) simp

text \<open>
  \<open>commit\<close> never overwrites: if the store holds another value under a key of the write
  cache it reports a collision, otherwise the store afterwards holds what it held before
  and all entries of the write cache.
\<close>

theorem commit_correct:
  assumes "env_ok env" "hm_ok (cache_w t)"
  shows "if \<exists>k v w. hm_get (cache_w t) k = Some v \<and> hm_get st k = Some w \<and> w \<noteq> v
    then commit env st t = Inl (Err (CollisionError ''collisions in KVDB''))
    else \<exists>st'. commit env st t = Inr st' \<and> hm_get st' = hm_get (cache_w t) ++ hm_get st"
  using commit_spec [OF assms, of st] by (cases "\<exists>k v w. hm_get (cache_w t) k = Some v \<and> hm_get st k = Some w \<and> w \<noteq> v") simp_all

theorem commit_correct_witness:
  "if \<exists>k v w. hm_get (cache_w new_impl) k = Some v \<and> hm_get [([1], [2])] k = Some w \<and> w \<noteq> v
    then commit demo_env [([1], [2])] new_impl = Inl (Err (CollisionError ''collisions in KVDB''))
    else \<exists>st'. commit demo_env [([1], [2])] new_impl = Inr st' \<and> hm_get st' = hm_get (cache_w new_impl) ++ hm_get [([1], [2])]"
  by (rule commit_correct [OF demo_env_ok]) (simp add: new_impl_def)

end
