(* ===== verification/TraceEvent.thy ===== *)
theory TraceEvent
  imports Prelude "HOL-Library.Multiset" "HOL-Library.List_Lexorder" "HOL-Library.Product_Lexorder"
begin

section \<open>Events and their hashes\<close>

text \<open>
  Stable hashes (rspace++/src/rspace/hashing/stable_hash_provider.rs), the events of a trace
  (rspace++/src/rspace/trace/event.rs) and the records of rspace++/src/rspace/internal.rs
  that carry them. \<open>hash_env\<close> holds what comes from third-party crates: BLAKE2b-256 and
  the bincode serialisation of channels, patterns, data, continuations, booleans and
  vectors of byte vectors. Hashes are byte lists, ordered lexicographically as
  \<open>Vec<u8>\<close> is.
\<close>

record ('c, 'p, 'a, 'k) hash_env =
  blake_new :: "bytes \<Rightarrow> bytes"
  ser_channel :: "'c \<Rightarrow> bytes"
  ser_pattern :: "'p \<Rightarrow> bytes"
  ser_datum :: "'a \<Rightarrow> bytes"
  ser_continuation :: "'k \<Rightarrow> bytes"
  ser_bool :: "bool \<Rightarrow> bytes"
  ser_vec :: "bytes list \<Rightarrow> bytes"

subsection \<open>Stable hashes\<close>

definition hash_channel :: "('c, 'p, 'a, 'k) hash_env \<Rightarrow> 'c \<Rightarrow> bytes" where
  "hash_channel henv channel = blake_new henv (ser_channel henv channel)"

definition hash_vec :: "('c, 'p, 'a, 'k) hash_env \<Rightarrow> 'c list \<Rightarrow> bytes list" where
  "hash_vec henv channels = sort (map (\<lambda>channel. blake_new henv (ser_channel henv channel)) channels)"

definition hash_from_hashes :: "('c, 'p, 'a, 'k) hash_env \<Rightarrow> bytes list \<Rightarrow> bytes" where
  "hash_from_hashes henv channels_hashes = blake_new henv (concat (sort channels_hashes))"

definition hash_from_vec :: "('c, 'p, 'a, 'k) hash_env \<Rightarrow> 'c list \<Rightarrow> bytes" where
  "hash_from_vec henv channels = hash_from_hashes henv (hash_vec henv channels)"

definition hash_consume ::
  "('c, 'p, 'a, 'k) hash_env \<Rightarrow> bytes list \<Rightarrow> 'p list \<Rightarrow> 'k \<Rightarrow> bool \<Rightarrow> bytes" where
  "hash_consume henv encoded_channels patterns continuation persist =
     (let encoded_patterns = sort (map (ser_pattern henv) patterns);
          encoded_continuation = ser_continuation henv continuation;
          encoded_persist = ser_bool henv persist
      in blake_new henv (ser_vec henv
           (encoded_channels @ encoded_patterns @ [encoded_continuation] @ [encoded_persist])))"

definition hash_produce :: "('c, 'p, 'a, 'k) hash_env \<Rightarrow> bytes \<Rightarrow> 'a \<Rightarrow> bool \<Rightarrow> bytes" where
  "hash_produce henv encoded_channel datum persist =
     (let encoded_datum = ser_datum henv datum;
          encoded_persist = ser_bool henv persist
      in blake_new henv (ser_vec henv [encoded_channel, encoded_datum, encoded_persist]))"

subsection \<open>Produce, Consume and COMM\<close>

record produce =
  channel_hash :: bytes
  p_hash :: bytes
  persistent :: bool
  is_deterministic :: bool
  output_value :: "bytes list"
  failed :: bool

text \<open>\<open>PartialEq\<close> of \<open>Produce\<close>: the hash alone is the identity.\<close>

definition produce_eq :: "produce \<Rightarrow> produce \<Rightarrow> bool" where
  "produce_eq a b \<longleftrightarrow> p_hash a = p_hash b"

definition produce_create :: "('c, 'p, 'a, 'k) hash_env \<Rightarrow> 'c \<Rightarrow> 'a \<Rightarrow> bool \<Rightarrow> produce" where
  "produce_create henv channel datum persist =
     (let ch = hash_channel henv channel
      in \<lparr>channel_hash = ch, p_hash = hash_produce henv ch datum persist, persistent = persist,
          is_deterministic = True, output_value = [], failed = False\<rparr>)"

definition produce_new :: "bytes \<Rightarrow> bytes \<Rightarrow> bool \<Rightarrow> produce" where
  "produce_new ch h persist =
     \<lparr>channel_hash = ch, p_hash = h, persistent = persist,
      is_deterministic = True, output_value = [], failed = False\<rparr>"

definition mark_as_non_deterministic :: "produce \<Rightarrow> bytes list \<Rightarrow> produce" where
  "mark_as_non_deterministic p previous = p\<lparr>is_deterministic := False, output_value := previous\<rparr>"

definition with_error :: "produce \<Rightarrow> produce" where
  "with_error p = p\<lparr>failed := True\<rparr>"

record consume =
  channel_hashes :: "bytes list"
  c_hash :: bytes
  c_persistent :: bool

definition consume_create ::
  "('c, 'p, 'a, 'k) hash_env \<Rightarrow> 'c list \<Rightarrow> 'p list \<Rightarrow> 'k \<Rightarrow> bool \<Rightarrow> consume" where
  "consume_create henv channels patterns continuation persist =
     (let chs = hash_vec henv channels
      in \<lparr>channel_hashes = chs, c_hash = hash_consume henv chs patterns continuation persist,
          c_persistent = persist\<rparr>)"

text \<open>The records of internal.rs.\<close>

record 'a datum =
  a_val :: 'a
  d_persist :: bool
  d_source :: produce

definition datum_create :: "('c, 'p, 'a, 'k) hash_env \<Rightarrow> 'c \<Rightarrow> 'a \<Rightarrow> bool \<Rightarrow> 'a datum" where
  "datum_create henv channel a persist =
     \<lparr>a_val = a, d_persist = persist, d_source = produce_create henv channel a persist\<rparr>"

record ('p, 'k) waiting_continuation =
  wc_patterns :: "'p list"
  wc_continuation :: 'k
  wc_persist :: bool
  wc_peeks :: "int list"
  wc_source :: consume

definition waiting_continuation_create ::
  "('c, 'p, 'a, 'k) hash_env \<Rightarrow> 'c list \<Rightarrow> 'p list \<Rightarrow> 'k \<Rightarrow> bool \<Rightarrow> int list \<Rightarrow> ('p, 'k) waiting_continuation" where
  "waiting_continuation_create henv channels patterns continuation persist peeks =
     \<lparr>wc_patterns = patterns, wc_continuation = continuation, wc_persist = persist, wc_peeks = peeks,
      wc_source = consume_create henv channels patterns continuation persist\<rparr>"

record ('c, 'a) consume_candidate =
  cc_channel :: 'c
  cc_datum :: "'a datum"
  removed_datum :: 'a
  datum_index :: int

record ('c, 'p, 'a, 'k) produce_candidate =
  pc_channels :: "'c list"
  pc_continuation :: "('p, 'k) waiting_continuation"
  continuation_index :: int
  data_candidates :: "('c, 'a) consume_candidate list"

record ('p, 'k) install =
  i_patterns :: "'p list"
  i_continuation :: 'k

record comm =
  comm_consume :: consume
  produces :: "produce list"
  comm_peeks :: "int list"
  times_repeated :: "(produce \<times> int) list"

definition comm_new ::
  "('c, 'a) consume_candidate list \<Rightarrow> consume \<Rightarrow> int list \<Rightarrow> (produce list \<Rightarrow> (produce \<times> int) list) \<Rightarrow> comm" where
  "comm_new cands consume_ref peeks produce_counters =
     (let produce_refs = sort_key (\<lambda>p. (channel_hash p, p_hash p, persistent p))
            (map (\<lambda>c. d_source (cc_datum c)) cands)
      in \<lparr>comm_consume = consume_ref, produces = produce_refs, comm_peeks = peeks,
          times_repeated = produce_counters produce_refs\<rparr>)"

datatype io_event = ProduceEvent produce | ConsumeEvent consume

datatype event = Comm comm | IoEvent io_event

subsection \<open>Properties\<close>

lemma sort_key_mset_eq:
  "mset xs = mset ys \<Longrightarrow> inj_on f (set xs) \<Longrightarrow> sort_key f xs = sort_key f ys"
proof -
  assume eq: "mset xs = mset ys" and inj: "inj_on f (set xs)"
  have map: "map f (sort_key f zs) = sort (map f zs)" for zs
    by (rule properties_for_sort [symmetric]) simp_all
  have "sort (map f xs) = sort (map f ys)"
    using eq by (intro properties_for_sort) simp_all
  then have "map f (sort_key f xs) = map f (sort_key f ys)"
    by (simp add: map)
  then show "sort_key f xs = sort_key f ys"
    using inj mset_eq_setD [OF eq] by (simp add: inj_on_map_eq_map)
qed

lemma hash_vec_mset: "mset xs = mset ys \<Longrightarrow> hash_vec henv xs = hash_vec henv ys"
  unfolding hash_vec_def by (rule sort_key_mset_eq) (simp_all add: mset_map)

text \<open>A concrete serialisation for the witnesses.\<close>

definition demo_henv :: "(byte, byte, byte, byte) hash_env" where
  "demo_henv = \<lparr>blake_new = (\<lambda>bs. bs), ser_channel = (\<lambda>c. [c]), ser_pattern = (\<lambda>p. [p]), ser_datum = (\<lambda>a. [a]),
     ser_continuation = (\<lambda>k. [k]), ser_bool = (\<lambda>b. if b then [1] else [0]),
     ser_vec = (\<lambda>bss. concat (map (\<lambda>bs. concat (map (\<lambda>b. [1, b]) bs) @ [0]) bss))\<rparr>"

text \<open>
  The event of a \<open>consume\<close> does not depend on the order in which the channels and the
  patterns are listed: the hash of the channels is taken of the sorted channel hashes and
  the patterns are sorted after serialisation.
\<close>

theorem consume_create_order:
  assumes "mset channels = mset channels'" "mset patterns = mset patterns'"
  shows "consume_create henv channels patterns k persist = consume_create henv channels' patterns' k persist
    \<and> hash_from_vec henv channels = hash_from_vec henv channels'"
proof -
  have "sort (map (ser_pattern henv) patterns) = sort (map (ser_pattern henv) patterns')"
    using assms(2) by (intro sort_key_mset_eq) (simp_all add: mset_map)
  then show ?thesis
    using hash_vec_mset [OF assms(1), of henv]
    by (simp add: consume_create_def hash_consume_def hash_from_vec_def Let_def)
qed

theorem consume_create_order_witness:
  "consume_create demo_henv [1, 2] [3, 4] 5 True = consume_create demo_henv [2, 1] [4, 3] 5 True
    \<and> hash_from_vec demo_henv [1, 2] = hash_from_vec demo_henv [2, 1]"
  by (rule consume_create_order) simp_all

text \<open>
  A produce event identifies its channel, its datum and its persistence: if bincode is
  injective and BLAKE2b-256 has no collision between the four byte strings that are hashed,
  equal events come from equal arguments. Marking an event as non-deterministic or failed
  keeps its identity.
\<close>

theorem produce_identity:
  assumes "inj (ser_channel henv)" "inj (ser_datum henv)" "inj (ser_bool henv)" "inj (ser_vec henv)"
    and "inj_on (blake_new henv)
      {ser_channel henv c, ser_channel henv c',
       ser_vec henv [hash_channel henv c, ser_datum henv a, ser_bool henv b],
       ser_vec henv [hash_channel henv c', ser_datum henv a', ser_bool henv b']}"
  shows "(produce_eq (produce_create henv c a b) (produce_create henv c' a' b') \<longleftrightarrow> c = c' \<and> a = a' \<and> b = b')
    \<and> produce_eq (mark_as_non_deterministic p out) p \<and> produce_eq (with_error p) p"
proof -
  have "c = c' \<and> a = a' \<and> b = b'" if "produce_eq (produce_create henv c a b) (produce_create henv c' a' b')"
  proof -
    have "ser_vec henv [hash_channel henv c, ser_datum henv a, ser_bool henv b] =
        ser_vec henv [hash_channel henv c', ser_datum henv a', ser_bool henv b']"
      using that assms(5)
      by (auto simp: produce_eq_def produce_create_def hash_produce_def Let_def dest!: inj_onD)
    then have eqs: "hash_channel henv c = hash_channel henv c'" "a = a'" "b = b'"
      using assms(2-4) by (auto dest: injD)
    have "ser_channel henv c = ser_channel henv c'"
      using assms(5) eqs(1) by (auto simp: hash_channel_def dest: inj_onD)
    with eqs assms(1) show ?thesis by (auto dest: injD)
  qed
  then show ?thesis
    by (auto simp: produce_eq_def mark_as_non_deterministic_def with_error_def)
qed

lemma demo_ser_bytes_inj:
  "concat (map (\<lambda>b :: byte. [1, b]) xs) @ 0 # r = concat (map (\<lambda>b. [1, b]) ys) @ 0 # s \<Longrightarrow> xs = ys \<and> r = s"
proof (induction xs arbitrary: ys)
  case Nil
  then show ?case by (cases ys) auto
next
  case (Cons x xs)
  then show ?case by (cases ys) auto
qed

lemma demo_ser_vec_inj: "inj (ser_vec demo_henv)"
proof (rule injI)
  fix xs ys
  assume "ser_vec demo_henv xs = ser_vec demo_henv ys"
  then show "xs = ys"
  proof (induction xs arbitrary: ys)
    case Nil
    then show ?case by (cases ys) (auto simp: demo_henv_def)
  next
    case (Cons x xs)
    then obtain y ys' where ys: "ys = y # ys'"
      by (cases ys) (auto simp: demo_henv_def)
    then have "x = y \<and> ser_vec demo_henv xs = ser_vec demo_henv ys'"
      using Cons.prems demo_ser_bytes_inj [of x _ y] by (simp add: demo_henv_def)
    with Cons.IH ys show ?case by simp
  qed
qed

theorem produce_identity_witness:
  "(produce_eq (produce_create demo_henv 1 2 True) (produce_create demo_henv 3 4 False) \<longleftrightarrow>
      (1 :: byte) = 3 \<and> (2 :: byte) = 4 \<and> True = False)
    \<and> produce_eq (mark_as_non_deterministic (produce_new [] [] True) []) (produce_new [] [] True)
    \<and> produce_eq (with_error (produce_new [] [] True)) (produce_new [] [] True)"
  by (rule produce_identity) (auto simp: demo_ser_vec_inj, auto simp: demo_henv_def inj_def inj_on_def)

text \<open>
  A COMM event does not depend on the order of the candidates it was made of, as long as
  produces with the same channel hash, hash and persistence are the same: the produces are
  sorted, so a recorded and a replayed COMM are equal.
\<close>

theorem comm_new_order:
  assumes "mset cands = mset cands'"
    "inj_on (\<lambda>p. (channel_hash p, p_hash p, persistent p)) ((\<lambda>c. d_source (cc_datum c)) ` set cands)"
  shows "comm_new cands cref peeks counters = comm_new cands' cref peeks counters"
proof -
  have "sort_key (\<lambda>p. (channel_hash p, p_hash p, persistent p)) (map (\<lambda>c. d_source (cc_datum c)) cands) =
      sort_key (\<lambda>p. (channel_hash p, p_hash p, persistent p)) (map (\<lambda>c. d_source (cc_datum c)) cands')"
    using assms by (intro sort_key_mset_eq) (simp_all add: mset_map)
  then show ?thesis by (simp add: comm_new_def Let_def)
qed

definition demo_cand :: "byte \<Rightarrow> (byte, byte) consume_candidate" where
  "demo_cand c = \<lparr>cc_channel = c, cc_datum = datum_create demo_henv c c False, removed_datum = c, datum_index = 0\<rparr>"

theorem comm_new_order_witness:
  "comm_new [demo_cand 1, demo_cand 2] (consume_create demo_henv [1, 2] [3, 4] 5 True) [] (\<lambda>ps. []) =
   comm_new [demo_cand 2, demo_cand 1] (consume_create demo_henv [1, 2] [3, 4] 5 True) [] (\<lambda>ps. [])"
  by (rule comm_new_order)
    (simp_all add: demo_cand_def datum_create_def produce_create_def hash_channel_def demo_henv_def Let_def)

end
