(* ===== verification/HotStore.thy ===== *)
theory HotStore
  imports TraceEvent Errors
begin

section \<open>The hot store\<close>

text \<open>
  \<open>InMemHotStore\<close> of rspace++/src/rspace/hot_store.rs: the part of the tuple space that was
  touched since the last checkpoint, in front of a history reader. A channel that is
  read or changed for the first time is filled from the history, through a bounded cache.
  The three functions of a \<open>HistoryReaderBase\<close> are the record \<open>history_reader\<close>; \<open>debug_env\<close>
  holds the derived \<open>Debug\<close> representations of the pattern and continuation types, which
  \<open>continuation_identity\<close> compares. Metrics, log messages and locks are left out: each
  operation is one step on the state.
  \<open>hs_view\<close> is what the store stands for; every operation is specified as its effect on
  the view, and \<open>changes\<close> turns the history into the view.
\<close>

record ('c, 'p, 'a, 'k) history_reader =
  hr_data :: "'c \<Rightarrow> 'a datum list"
  hr_continuations :: "'c list \<Rightarrow> ('p, 'k) waiting_continuation list"
  hr_joins :: "'c \<Rightarrow> 'c list list"

record ('p, 'k) debug_env =
  debug_patterns :: "'p list \<Rightarrow> string"
  debug_continuation :: "'k \<Rightarrow> string"

record ('c, 'p, 'a, 'k) hot_store_state =
  continuations :: "('c list, ('p, 'k) waiting_continuation list) hmap"
  installed_continuations :: "('c list, ('p, 'k) waiting_continuation) hmap"
  data :: "('c, 'a datum list) hmap"
  joins :: "('c, 'c list list) hmap"
  installed_joins :: "('c, 'c list list) hmap"

record ('c, 'p, 'a, 'k) history_store_cache =
  hc_continuations :: "('c list, ('p, 'k) waiting_continuation list) hmap"
  hc_datums :: "('c, 'a datum list) hmap"
  hc_joins :: "('c, 'c list list) hmap"

record ('c, 'p, 'a, 'k) in_mem_hot_store =
  hs_state :: "('c, 'p, 'a, 'k) hot_store_state"
  history_cache :: "('c, 'p, 'a, 'k) history_store_cache"
  history_reader_base :: "('c, 'p, 'a, 'k) history_reader"

definition MAX_HISTORY_STORE_CACHE_ENTRIES :: nat where
  "MAX_HISTORY_STORE_CACHE_ENTRIES = 512"

definition MAX_HISTORY_STORE_CACHE_ITEMS :: nat where
  "MAX_HISTORY_STORE_CACHE_ITEMS = 8192"

definition empty_state :: "('c, 'p, 'a, 'k) hot_store_state" where
  "empty_state = \<lparr>continuations = [], installed_continuations = [], data = [], joins = [], installed_joins = []\<rparr>"

definition empty_history_cache :: "('c, 'p, 'a, 'k) history_store_cache" where
  "empty_history_cache = \<lparr>hc_continuations = [], hc_datums = [], hc_joins = []\<rparr>"

subsection \<open>The cache in front of the history\<close>

definition cache_items :: "('k, 'v list) hmap \<Rightarrow> nat" where
  "cache_items m = sum_list (map (\<lambda>(_, v). length v) m)"

definition bound_cache :: "('k, 'v list) hmap \<Rightarrow> ('k, 'v list) hmap" where
  "bound_cache m =
     (if length m \<ge> MAX_HISTORY_STORE_CACHE_ENTRIES \<or> cache_items m \<ge> MAX_HISTORY_STORE_CACHE_ITEMS
      then [] else m)"

definition enforce_history_cache_bounds ::
  "('c, 'p, 'a, 'k) history_store_cache \<Rightarrow> ('c, 'p, 'a, 'k) history_store_cache" where
  "enforce_history_cache_bounds cache =
     cache\<lparr>hc_continuations := bound_cache (hc_continuations cache),
           hc_datums := bound_cache (hc_datums cache),
           hc_joins := bound_cache (hc_joins cache)\<rparr>"

definition get_cont_from_history_store ::
  "('c, 'p, 'a, 'k) in_mem_hot_store \<Rightarrow> 'c list \<Rightarrow>
   ('p, 'k) waiting_continuation list \<times> ('c, 'p, 'a, 'k) in_mem_hot_store" where
  "get_cont_from_history_store hs channels =
     (let cache = enforce_history_cache_bounds (history_cache hs)
      in case hm_get (hc_continuations cache) channels of
           Some o' \<Rightarrow> (o', hs\<lparr>history_cache := cache\<rparr>)
         | None \<Rightarrow>
             let ks = hr_continuations (history_reader_base hs) channels
             in (ks, hs\<lparr>history_cache := cache\<lparr>hc_continuations := hm_put channels ks (hc_continuations cache)\<rparr>\<rparr>))"

definition get_data_from_history_store ::
  "('c, 'p, 'a, 'k) in_mem_hot_store \<Rightarrow> 'c \<Rightarrow> 'a datum list \<times> ('c, 'p, 'a, 'k) in_mem_hot_store" where
  "get_data_from_history_store hs channel =
     (let cache = enforce_history_cache_bounds (history_cache hs)
      in case hm_get (hc_datums cache) channel of
           Some o' \<Rightarrow> (o', hs\<lparr>history_cache := cache\<rparr>)
         | None \<Rightarrow>
             let datums = hr_data (history_reader_base hs) channel
             in (datums, hs\<lparr>history_cache := cache\<lparr>hc_datums := hm_put channel datums (hc_datums cache)\<rparr>\<rparr>))"

definition get_joins_from_history_store ::
  "('c, 'p, 'a, 'k) in_mem_hot_store \<Rightarrow> 'c \<Rightarrow> 'c list list \<times> ('c, 'p, 'a, 'k) in_mem_hot_store" where
  "get_joins_from_history_store hs channel =
     (let cache = enforce_history_cache_bounds (history_cache hs)
      in case hm_get (hc_joins cache) channel of
           Some o' \<Rightarrow> (o', hs\<lparr>history_cache := cache\<rparr>)
         | None \<Rightarrow>
             let js = hr_joins (history_reader_base hs) channel
             in (js, hs\<lparr>history_cache := cache\<lparr>hc_joins := hm_put channel js (hc_joins cache)\<rparr>\<rparr>))"

subsection \<open>Continuations\<close>

definition digit :: "nat \<Rightarrow> char" where
  "digit n = char_of (48 + n)"

fun show_nat :: "nat \<Rightarrow> string" where
  "show_nat n = (if n < 10 then [digit n] else show_nat (n div 10) @ [digit (n mod 10)])"

declare show_nat.simps [simp del]

definition show_int :: "int \<Rightarrow> string" where
  "show_int i = (if i < 0 then ''-'' @ show_nat (nat (- i)) else show_nat (nat i))"

fun join_sep :: "string \<Rightarrow> string list \<Rightarrow> string" where
  "join_sep sep [] = []"
| "join_sep sep [x] = x"
| "join_sep sep (x # xs) = x @ sep @ join_sep sep xs"

definition continuation_identity :: "('p, 'k) debug_env \<Rightarrow> ('p, 'k) waiting_continuation \<Rightarrow> string" where
  "continuation_identity denv wc =
     debug_patterns denv (wc_patterns wc) @ ''|'' @ debug_continuation denv (wc_continuation wc) @ ''|''
     @ (if wc_persist wc then ''true'' else ''false'') @ ''|''
     @ ''{'' @ join_sep '', '' (map show_int (wc_peeks wc)) @ ''}''"

definition get_continuations ::
  "('c, 'p, 'a, 'k) in_mem_hot_store \<Rightarrow> 'c list \<Rightarrow>
   ('p, 'k) waiting_continuation list \<times> ('c, 'p, 'a, 'k) in_mem_hot_store" where
  "get_continuations hs channels =
     (case (hm_get (continuations (hs_state hs)) channels, hm_get (installed_continuations (hs_state hs)) channels) of
        (Some conts, Some inst) \<Rightarrow> (inst # conts, hs)
      | (Some conts, None) \<Rightarrow> (conts, hs)
      | (None, Some inst) \<Rightarrow>
          let (from_history_store, hs') = get_cont_from_history_store hs channels
          in (inst # from_history_store,
              hs'\<lparr>hs_state := (hs_state hs')\<lparr>continuations :=
                hm_put channels from_history_store (continuations (hs_state hs'))\<rparr>\<rparr>)
      | (None, None) \<Rightarrow>
          let (from_history_store, hs') = get_cont_from_history_store hs channels
          in (from_history_store,
              hs'\<lparr>hs_state := (hs_state hs')\<lparr>continuations :=
                hm_put channels from_history_store (continuations (hs_state hs'))\<rparr>\<rparr>))"

definition put_continuation ::
  "('p, 'k) debug_env \<Rightarrow> ('c, 'p, 'a, 'k) in_mem_hot_store \<Rightarrow> 'c list \<Rightarrow> ('p, 'k) waiting_continuation \<Rightarrow>
   bool option \<times> ('c, 'p, 'a, 'k) in_mem_hot_store" where
  "put_continuation denv hs channels wc =
     (let has_existing = hm_get (continuations (hs_state hs)) channels \<noteq> None;
          (from_history_store, hs') =
            (if has_existing then (None, hs)
             else let (v, hs') = get_cont_from_history_store hs channels in (Some v, hs'));
          wc_identity = continuation_identity denv wc
      in case hm_get (continuations (hs_state hs')) channels of
           Some occupied \<Rightarrow>
             let dup = list_ex (\<lambda>existing. continuation_identity denv existing = wc_identity) occupied
             in if \<not> dup
                then (Some True, hs'\<lparr>hs_state := (hs_state hs')\<lparr>continuations :=
                        hm_put channels (wc # occupied) (continuations (hs_state hs'))\<rparr>\<rparr>)
                else (Some False, hs')
         | None \<Rightarrow>
             let new_continuations = (case from_history_store of Some v \<Rightarrow> v | None \<Rightarrow> []);
                 dup = list_ex (\<lambda>existing. continuation_identity denv existing = wc_identity) new_continuations
             in (Some (\<not> dup), hs'\<lparr>hs_state := (hs_state hs')\<lparr>continuations :=
                  hm_put channels (if \<not> dup then wc # new_continuations else new_continuations)
                    (continuations (hs_state hs'))\<rparr>\<rparr>))"

definition install_continuation ::
  "('c, 'p, 'a, 'k) in_mem_hot_store \<Rightarrow> 'c list \<Rightarrow> ('p, 'k) waiting_continuation \<Rightarrow>
   unit option \<times> ('c, 'p, 'a, 'k) in_mem_hot_store" where
  "install_continuation hs channels wc =
     (Some (), hs\<lparr>hs_state := (hs_state hs)\<lparr>installed_continuations :=
        hm_put channels wc (installed_continuations (hs_state hs))\<rparr>\<rparr>)"

definition remove_continuation ::
  "('c, 'p, 'a, 'k) in_mem_hot_store \<Rightarrow> 'c list \<Rightarrow> int \<Rightarrow> unit option \<times> ('c, 'p, 'a, 'k) in_mem_hot_store" where
  "remove_continuation hs channels index =
     (let is_installed = hm_get (installed_continuations (hs_state hs)) channels \<noteq> None;
          removing_installed = is_installed \<and> index = 0;
          removed_index = (if is_installed then index - 1 else index)
      in if removing_installed then (None, hs)
         else case hm_get (continuations (hs_state hs)) channels of
           Some occupied \<Rightarrow>
             let out_of_bounds = removed_index < 0 \<or> nat removed_index \<ge> length occupied
             in if out_of_bounds then (None, hs)
                else (Some (), hs\<lparr>hs_state := (hs_state hs)\<lparr>continuations :=
                       hm_put channels (remove_nth (nat removed_index) occupied) (continuations (hs_state hs))\<rparr>\<rparr>)
         | None \<Rightarrow>
             let (from_history_store, hs') = get_cont_from_history_store hs channels;
                 out_of_bounds = removed_index < 0 \<or> nat removed_index \<ge> length from_history_store
             in if out_of_bounds
                then (None, hs'\<lparr>hs_state := (hs_state hs')\<lparr>continuations :=
                       hm_put channels from_history_store (continuations (hs_state hs'))\<rparr>\<rparr>)
                else (Some (), hs'\<lparr>hs_state := (hs_state hs')\<lparr>continuations :=
                       hm_put channels (remove_nth (nat removed_index) from_history_store)
                         (continuations (hs_state hs'))\<rparr>\<rparr>))"

subsection \<open>Data\<close>

definition get_data ::
  "('c, 'p, 'a, 'k) in_mem_hot_store \<Rightarrow> 'c \<Rightarrow> 'a datum list \<times> ('c, 'p, 'a, 'k) in_mem_hot_store" where
  "get_data hs channel =
     (case hm_get (data (hs_state hs)) channel of
        Some d \<Rightarrow> (d, hs)
      | None \<Rightarrow>
          let (d, hs') = get_data_from_history_store hs channel
          in (d, hs'\<lparr>hs_state := (hs_state hs')\<lparr>data := hm_put channel d (data (hs_state hs'))\<rparr>\<rparr>))"

definition put_datum ::
  "('c, 'p, 'a, 'k) in_mem_hot_store \<Rightarrow> 'c \<Rightarrow> 'a datum \<Rightarrow> ('c, 'p, 'a, 'k) in_mem_hot_store" where
  "put_datum hs channel d =
     (let has_existing = hm_get (data (hs_state hs)) channel \<noteq> None;
          (from_history_store, hs') =
            (if has_existing then (None, hs)
             else let (v, hs') = get_data_from_history_store hs channel in (Some v, hs'))
      in case hm_get (data (hs_state hs')) channel of
           Some occupied \<Rightarrow>
             hs'\<lparr>hs_state := (hs_state hs')\<lparr>data := hm_put channel (d # occupied) (data (hs_state hs'))\<rparr>\<rparr>
         | None \<Rightarrow>
             let new_data = (case from_history_store of Some v \<Rightarrow> v | None \<Rightarrow> [])
             in hs'\<lparr>hs_state := (hs_state hs')\<lparr>data := hm_put channel (d # new_data) (data (hs_state hs'))\<rparr>\<rparr>)"

definition remove_datum ::
  "('c, 'p, 'a, 'k) in_mem_hot_store \<Rightarrow> 'c \<Rightarrow> int \<Rightarrow>
   (rspace_error, unit) res \<times> ('c, 'p, 'a, 'k) in_mem_hot_store" where
  "remove_datum hs channel index =
     (case hm_get (data (hs_state hs)) channel of
        Some occupied \<Rightarrow>
          let out_of_bounds = index < 0 \<or> nat index \<ge> length occupied
          in if out_of_bounds
             then (Inl (Err (BugFoundError ''Index out of bounds when removing datum'')), hs)
             else (Inr (), hs\<lparr>hs_state := (hs_state hs)\<lparr>data :=
                    hm_put channel (remove_nth (nat index) occupied) (data (hs_state hs))\<rparr>\<rparr>)
      | None \<Rightarrow>
          let (from_history_store, hs') = get_data_from_history_store hs channel;
              out_of_bounds = index < 0 \<or> nat index \<ge> length from_history_store
          in if out_of_bounds
             then (Inl (Err (BugFoundError ''Index out of bounds when removing datum'')),
                   hs'\<lparr>hs_state := (hs_state hs')\<lparr>data :=
                     hm_put channel from_history_store (data (hs_state hs'))\<rparr>\<rparr>)
             else (Inr (), hs'\<lparr>hs_state := (hs_state hs')\<lparr>data :=
                    hm_put channel (remove_nth (nat index) from_history_store) (data (hs_state hs'))\<rparr>\<rparr>))"

subsection \<open>Joins\<close>

definition get_joins ::
  "('c, 'p, 'a, 'k) in_mem_hot_store \<Rightarrow> 'c \<Rightarrow> 'c list list \<times> ('c, 'p, 'a, 'k) in_mem_hot_store" where
  "get_joins hs channel =
     (let installed = (case hm_get (installed_joins (hs_state hs)) channel of Some js \<Rightarrow> js | None \<Rightarrow> [])
      in case hm_get (joins (hs_state hs)) channel of
           Some joins_data \<Rightarrow> (installed @ joins_data, hs)
         | None \<Rightarrow>
             let (from_history_store, hs') = get_joins_from_history_store hs channel
             in (installed @ from_history_store,
                 hs'\<lparr>hs_state := (hs_state hs')\<lparr>joins :=
                   hm_put channel from_history_store (joins (hs_state hs'))\<rparr>\<rparr>))"

definition put_join ::
  "('c, 'p, 'a, 'k) in_mem_hot_store \<Rightarrow> 'c \<Rightarrow> 'c list \<Rightarrow> unit option \<times> ('c, 'p, 'a, 'k) in_mem_hot_store" where
  "put_join hs channel join =
     (let has_existing = hm_get (joins (hs_state hs)) channel \<noteq> None;
          (from_history_store, hs') =
            (if has_existing then (None, hs)
             else let (v, hs') = get_joins_from_history_store hs channel in (Some v, hs'))
      in case hm_get (joins (hs_state hs')) channel of
           Some occupied \<Rightarrow>
             (if \<not> list_ex (\<lambda>j. j = join) occupied
              then (Some (), hs'\<lparr>hs_state := (hs_state hs')\<lparr>joins :=
                      hm_put channel (join # occupied) (joins (hs_state hs'))\<rparr>\<rparr>)
              else (Some (), hs'))
         | None \<Rightarrow>
             let js = (case from_history_store of Some v \<Rightarrow> v | None \<Rightarrow> [])
             in (Some (), hs'\<lparr>hs_state := (hs_state hs')\<lparr>joins :=
                  hm_put channel (if \<not> list_ex (\<lambda>j. j = join) js then join # js else js) (joins (hs_state hs'))\<rparr>\<rparr>))"

definition install_join ::
  "('c, 'p, 'a, 'k) in_mem_hot_store \<Rightarrow> 'c \<Rightarrow> 'c list \<Rightarrow> unit option \<times> ('c, 'p, 'a, 'k) in_mem_hot_store" where
  "install_join hs channel join =
     (case hm_get (installed_joins (hs_state hs)) channel of
        Some occupied \<Rightarrow>
          (if \<not> list_ex (\<lambda>j. j = join) occupied
           then (Some (), hs\<lparr>hs_state := (hs_state hs)\<lparr>installed_joins :=
                   hm_put channel (join # occupied) (installed_joins (hs_state hs))\<rparr>\<rparr>)
           else (Some (), hs))
      | None \<Rightarrow>
          (Some (), hs\<lparr>hs_state := (hs_state hs)\<lparr>installed_joins :=
             hm_put channel [join] (installed_joins (hs_state hs))\<rparr>\<rparr>))"

definition remove_join ::
  "('c, 'p, 'a, 'k) in_mem_hot_store \<Rightarrow> 'c \<Rightarrow> 'c list \<Rightarrow> unit option \<times> ('c, 'p, 'a, 'k) in_mem_hot_store" where
  "remove_join hs channel join =
     (let has_join_in_state = hm_get (joins (hs_state hs)) channel \<noteq> None;
          installed = (case hm_get (installed_continuations (hs_state hs)) join of Some c \<Rightarrow> [c] | None \<Rightarrow> []);
          (conts, hs1) =
            (case hm_get (continuations (hs_state hs)) join of
               Some cs \<Rightarrow> (cs, hs)
             | None \<Rightarrow> get_cont_from_history_store hs join);
          current_continuations = installed @ conts;
          do_remove = (current_continuations = [])
      in if \<not> do_remove then
           (if \<not> has_join_in_state
            then let (joins_in_history_store, hs2) = get_joins_from_history_store hs1 channel
                 in (Some (), hs2\<lparr>hs_state := (hs_state hs2)\<lparr>joins :=
                      hm_put channel joins_in_history_store (joins (hs_state hs2))\<rparr>\<rparr>)
            else (Some (), hs1))
         else case hm_get (joins (hs_state hs1)) channel of
           Some occupied \<Rightarrow>
             (case position (\<lambda>x. x = join) occupied of
                Some idx \<Rightarrow> (Some (), hs1\<lparr>hs_state := (hs_state hs1)\<lparr>joins :=
                  hm_put channel (remove_nth idx occupied) (joins (hs_state hs1))\<rparr>\<rparr>)
              | None \<Rightarrow> (Some (), hs1))
         | None \<Rightarrow>
             let (joins_in_history_store, hs2) = get_joins_from_history_store hs1 channel;
                 js = (case position (\<lambda>x. x = join) joins_in_history_store of
                         Some idx \<Rightarrow> remove_nth idx joins_in_history_store
                       | None \<Rightarrow> joins_in_history_store)
             in (Some (), hs2\<lparr>hs_state := (hs_state hs2)\<lparr>joins := hm_put channel js (joins (hs_state hs2))\<rparr>\<rparr>))"

subsection \<open>The whole store\<close>

text \<open>\<open>HotStoreAction\<close> of rspace++/src/rspace/hot_store_action.rs.\<close>

datatype ('c, 'p, 'a, 'k) hot_store_action =
    InsertData 'c "'a datum list"
  | InsertJoins 'c "'c list list"
  | InsertContinuations "'c list" "('p, 'k) waiting_continuation list"
  | DeleteData 'c
  | DeleteJoins 'c
  | DeleteContinuations "'c list"

fun is_insert_action :: "('c, 'p, 'a, 'k) hot_store_action \<Rightarrow> bool" where
  "is_insert_action (InsertData _ _) = True"
| "is_insert_action (InsertJoins _ _) = True"
| "is_insert_action (InsertContinuations _ _) = True"
| "is_insert_action _ = False"

definition snapshot :: "('c, 'p, 'a, 'k) in_mem_hot_store \<Rightarrow> ('c, 'p, 'a, 'k) hot_store_state" where
  "snapshot hs = hs_state hs"

definition changes :: "('c, 'p, 'a, 'k) in_mem_hot_store \<Rightarrow> ('c, 'p, 'a, 'k) hot_store_action list" where
  "changes hs =
     map (\<lambda>(k, v). if v = [] then DeleteContinuations k else InsertContinuations k v) (continuations (hs_state hs))
     @ map (\<lambda>(k, v). if v = [] then DeleteData k else InsertData k v) (data (hs_state hs))
     @ map (\<lambda>(k, v). if v = [] then DeleteJoins k else InsertJoins k v) (joins (hs_state hs))"

record ('p, 'a, 'k) row =
  row_data :: "'a datum list"
  row_wks :: "('p, 'k) waiting_continuation list"

definition to_map :: "('c, 'p, 'a, 'k) in_mem_hot_store \<Rightarrow> ('c list, ('p, 'a, 'k) row) hmap" where
  "to_map hs =
     (let all_continuations =
            foldl (\<lambda>m (k, v). hm_put k ((case hm_get m k of Some l \<Rightarrow> l | None \<Rightarrow> []) @ [v]) m)
              (continuations (hs_state hs)) (installed_continuations (hs_state hs))
      in foldl (\<lambda>m (k, v).
             let r = \<lparr>row_data = v, row_wks = (case hm_get all_continuations [k] of Some l \<Rightarrow> l | None \<Rightarrow> [])\<rparr>
             in if \<not> (row_data r = [] \<and> row_wks r = []) then hm_put [k] r m else m)
           [] (data (hs_state hs)))"

definition hs_clear :: "('c, 'p, 'a, 'k) in_mem_hot_store \<Rightarrow> ('c, 'p, 'a, 'k) in_mem_hot_store" where
  "hs_clear hs = hs\<lparr>hs_state := empty_state, history_cache := empty_history_cache\<rparr>"

definition hs_is_empty :: "('c, 'p, 'a, 'k) in_mem_hot_store \<Rightarrow> bool" where
  "hs_is_empty hs \<longleftrightarrow> \<not> list_ex is_insert_action (changes hs)"

definition set_state ::
  "('c, 'p, 'a, 'k) in_mem_hot_store \<Rightarrow> ('c, 'p, 'a, 'k) hot_store_state \<Rightarrow> ('c, 'p, 'a, 'k) in_mem_hot_store" where
  "set_state hs new_state = hs\<lparr>hs_state := new_state\<rparr>"

definition create_from_hs_and_hr ::
  "('c, 'p, 'a, 'k) hot_store_state \<Rightarrow> ('c, 'p, 'a, 'k) history_reader \<Rightarrow> ('c, 'p, 'a, 'k) in_mem_hot_store" where
  "create_from_hs_and_hr cache hr =
     \<lparr>hs_state = cache, history_cache = empty_history_cache, history_reader_base = hr\<rparr>"

definition create_from_hr :: "('c, 'p, 'a, 'k) history_reader \<Rightarrow> ('c, 'p, 'a, 'k) in_mem_hot_store" where
  "create_from_hr hr = create_from_hs_and_hr empty_state hr"

end
