(* ===== verification/HotStoreSpec.thy ===== *)
theory HotStoreSpec
  imports HotStore
begin

section \<open>What the hot store promises\<close>

text \<open>
  The abstract state \<open>view\<close> of a hot store and its contract, the locale \<open>hot_store\<close>: reads
  return the view and leave it unchanged, writes change it at one place. The locale is
  interpreted on \<open>InMemHotStore\<close> (\<open>ihs\<close>); the history cache and its eviction do not show.
\<close>

record ('c, 'p, 'a, 'k) view =
  v_data :: "'c \<Rightarrow> 'a datum list"
  v_conts :: "'c list \<Rightarrow> ('p, 'k) waiting_continuation list"
  v_inst :: "'c list \<Rightarrow> ('p, 'k) waiting_continuation option"
  v_joins :: "'c \<Rightarrow> 'c list list"
  v_inst_joins :: "'c \<Rightarrow> 'c list list"

definition all_conts :: "('c, 'p, 'a, 'k) view \<Rightarrow> 'c list \<Rightarrow> ('p, 'k) waiting_continuation list" where
  "all_conts v cs = (case v_inst v cs of Some wc \<Rightarrow> wc # v_conts v cs | None \<Rightarrow> v_conts v cs)"

definition all_joins :: "('c, 'p, 'a, 'k) view \<Rightarrow> 'c \<Rightarrow> 'c list list" where
  "all_joins v c = v_inst_joins v c @ v_joins v c"

subsection \<open>Operations on views\<close>

definition in_range :: "int \<Rightarrow> 'b list \<Rightarrow> bool" where
  "in_range i xs \<longleftrightarrow> 0 \<le> i \<and> nat i < length xs"

definition remove_at :: "int \<Rightarrow> 'b list \<Rightarrow> 'b list" where
  "remove_at i xs = (if in_range i xs then remove_nth (nat i) xs else xs)"

definition add_new :: "'b \<Rightarrow> 'b list \<Rightarrow> 'b list" where
  "add_new x xs = (if x \<in> set xs then xs else x # xs)"

definition same_identity ::
  "('p, 'k) debug_env \<Rightarrow> ('p, 'k) waiting_continuation \<Rightarrow> ('p, 'k) waiting_continuation \<Rightarrow> bool" where
  "same_identity denv a b \<longleftrightarrow> continuation_identity denv a = continuation_identity denv b"

definition v_put_datum :: "'c \<Rightarrow> 'a datum \<Rightarrow> ('c, 'p, 'a, 'k) view \<Rightarrow> ('c, 'p, 'a, 'k) view" where
  "v_put_datum c d v = v\<lparr>v_data := (v_data v)(c := d # v_data v c)\<rparr>"

definition v_remove_datum :: "'c \<Rightarrow> int \<Rightarrow> ('c, 'p, 'a, 'k) view \<Rightarrow> ('c, 'p, 'a, 'k) view" where
  "v_remove_datum c i v = v\<lparr>v_data := (v_data v)(c := remove_at i (v_data v c))\<rparr>"

definition v_put_cont ::
  "('p, 'k) debug_env \<Rightarrow> 'c list \<Rightarrow> ('p, 'k) waiting_continuation \<Rightarrow> ('c, 'p, 'a, 'k) view \<Rightarrow> ('c, 'p, 'a, 'k) view" where
  "v_put_cont denv cs wc v =
     (if list_ex (\<lambda>x. same_identity denv x wc) (v_conts v cs) then v
      else v\<lparr>v_conts := (v_conts v)(cs := wc # v_conts v cs)\<rparr>)"

definition v_install_cont ::
  "'c list \<Rightarrow> ('p, 'k) waiting_continuation \<Rightarrow> ('c, 'p, 'a, 'k) view \<Rightarrow> ('c, 'p, 'a, 'k) view" where
  "v_install_cont cs wc v = v\<lparr>v_inst := (v_inst v)(cs \<mapsto> wc)\<rparr>"

definition cont_index :: "'c list \<Rightarrow> int \<Rightarrow> ('c, 'p, 'a, 'k) view \<Rightarrow> int" where
  "cont_index cs i v = (if v_inst v cs = None then i else i - 1)"

definition v_remove_cont :: "'c list \<Rightarrow> int \<Rightarrow> ('c, 'p, 'a, 'k) view \<Rightarrow> ('c, 'p, 'a, 'k) view" where
  "v_remove_cont cs i v = v\<lparr>v_conts := (v_conts v)(cs := remove_at (cont_index cs i v) (v_conts v cs))\<rparr>"

definition v_put_join :: "'c \<Rightarrow> 'c list \<Rightarrow> ('c, 'p, 'a, 'k) view \<Rightarrow> ('c, 'p, 'a, 'k) view" where
  "v_put_join c j v = v\<lparr>v_joins := (v_joins v)(c := add_new j (v_joins v c))\<rparr>"

definition v_install_join :: "'c \<Rightarrow> 'c list \<Rightarrow> ('c, 'p, 'a, 'k) view \<Rightarrow> ('c, 'p, 'a, 'k) view" where
  "v_install_join c j v = v\<lparr>v_inst_joins := (v_inst_joins v)(c := add_new j (v_inst_joins v c))\<rparr>"

definition v_remove_join :: "'c \<Rightarrow> 'c list \<Rightarrow> ('c, 'p, 'a, 'k) view \<Rightarrow> ('c, 'p, 'a, 'k) view" where
  "v_remove_join c j v =
     (if all_conts v j = [] then v\<lparr>v_joins := (v_joins v)(c := remove1 j (v_joins v c))\<rparr> else v)"

subsection \<open>The contract\<close>

locale hot_store =
  fixes view_of :: "'s \<Rightarrow> ('c, 'p, 'a, 'k) view"
    and ok :: "'s \<Rightarrow> bool"
    and denv :: "('p, 'k) debug_env"
    and get_conts :: "'s \<Rightarrow> 'c list \<Rightarrow> ('p, 'k) waiting_continuation list \<times> 's"
    and put_cont :: "'s \<Rightarrow> 'c list \<Rightarrow> ('p, 'k) waiting_continuation \<Rightarrow> bool option \<times> 's"
    and install_cont :: "'s \<Rightarrow> 'c list \<Rightarrow> ('p, 'k) waiting_continuation \<Rightarrow> unit option \<times> 's"
    and remove_cont :: "'s \<Rightarrow> 'c list \<Rightarrow> int \<Rightarrow> unit option \<times> 's"
    and get_dat :: "'s \<Rightarrow> 'c \<Rightarrow> 'a datum list \<times> 's"
    and put_dat :: "'s \<Rightarrow> 'c \<Rightarrow> 'a datum \<Rightarrow> 's"
    and remove_dat :: "'s \<Rightarrow> 'c \<Rightarrow> int \<Rightarrow> (rspace_error, unit) res \<times> 's"
    and get_js :: "'s \<Rightarrow> 'c \<Rightarrow> 'c list list \<times> 's"
    and put_js :: "'s \<Rightarrow> 'c \<Rightarrow> 'c list \<Rightarrow> unit option \<times> 's"
    and install_js :: "'s \<Rightarrow> 'c \<Rightarrow> 'c list \<Rightarrow> unit option \<times> 's"
    and remove_js :: "'s \<Rightarrow> 'c \<Rightarrow> 'c list \<Rightarrow> unit option \<times> 's"
  assumes get_conts: "ok s \<Longrightarrow> \<exists>s'. get_conts s cs = (all_conts (view_of s) cs, s') \<and> view_of s' = view_of s \<and> ok s'"
    and put_cont: "ok s \<Longrightarrow> \<exists>s'. put_cont s cs wc =
        (Some (\<not> list_ex (\<lambda>x. same_identity denv x wc) (v_conts (view_of s) cs)), s')
        \<and> view_of s' = v_put_cont denv cs wc (view_of s) \<and> ok s'"
    and install_cont: "ok s \<Longrightarrow> \<exists>s'. install_cont s cs wc = (Some (), s')
        \<and> view_of s' = v_install_cont cs wc (view_of s) \<and> ok s'"
    and remove_cont: "ok s \<Longrightarrow> \<exists>s'. remove_cont s cs i =
        ((if in_range (cont_index cs i (view_of s)) (v_conts (view_of s) cs) then Some () else None), s')
        \<and> view_of s' = v_remove_cont cs i (view_of s) \<and> ok s'"
    and get_dat: "ok s \<Longrightarrow> \<exists>s'. get_dat s c = (v_data (view_of s) c, s') \<and> view_of s' = view_of s \<and> ok s'"
    and put_dat: "ok s \<Longrightarrow> view_of (put_dat s c d) = v_put_datum c d (view_of s) \<and> ok (put_dat s c d)"
    and remove_dat: "ok s \<Longrightarrow> \<exists>s'. remove_dat s c i =
        ((if in_range i (v_data (view_of s) c) then Inr ()
          else Inl (Err (BugFoundError ''Index out of bounds when removing datum''))), s')
        \<and> view_of s' = v_remove_datum c i (view_of s) \<and> ok s'"
    and get_js: "ok s \<Longrightarrow> \<exists>s'. get_js s c = (all_joins (view_of s) c, s') \<and> view_of s' = view_of s \<and> ok s'"
    and put_js: "ok s \<Longrightarrow> \<exists>s'. put_js s c j = (Some (), s') \<and> view_of s' = v_put_join c j (view_of s) \<and> ok s'"
    and install_js: "ok s \<Longrightarrow> \<exists>s'. install_js s c j = (Some (), s') \<and> view_of s' = v_install_join c j (view_of s) \<and> ok s'"
    and remove_js: "ok s \<Longrightarrow> \<exists>s'. remove_js s c j = (Some (), s') \<and> view_of s' = v_remove_join c j (view_of s) \<and> ok s'"
begin

text \<open>A datum that was just put is read first, and removing it gives the old data back.\<close>

lemma put_then_get:
  assumes "ok s"
  shows "fst (get_dat (put_dat s c d) c) = d # fst (get_dat s c)"
  using get_dat [OF assms, of c] put_dat [OF assms, of c d] get_dat [of "put_dat s c d" c]
  by (auto simp: v_put_datum_def)

lemma put_then_remove:
  assumes "ok s"
  shows "\<exists>s'. remove_dat (put_dat s c d) c 0 = (Inr (), s') \<and> view_of s' = view_of s \<and> ok s'"
  using put_dat [OF assms, of c d] remove_dat [of "put_dat s c d" c 0]
  by (auto simp: v_put_datum_def v_remove_datum_def in_range_def remove_at_def)

text \<open>A join stays as long as a continuation waits on it.\<close>

lemma remove_join_guarded:
  assumes "ok s" "fst (get_conts s j) \<noteq> []"
  shows "view_of (snd (remove_js s c j)) = view_of s"
  using get_conts [OF assms(1), of j] remove_js [OF assms(1), of c j] assms(2)
  by (auto simp: v_remove_join_def)

end

subsection \<open>The in-memory hot store keeps the contract\<close>

definition fill :: "('b, 'v) hmap \<Rightarrow> ('b \<Rightarrow> 'v) \<Rightarrow> 'b \<Rightarrow> 'v" where
  "fill m f k = (case hm_get m k of Some v \<Rightarrow> v | None \<Rightarrow> f k)"

definition cache_ok :: "('b, 'v) hmap \<Rightarrow> ('b \<Rightarrow> 'v) \<Rightarrow> bool" where
  "cache_ok m f \<longleftrightarrow> (\<forall>k v. hm_get m k = Some v \<longrightarrow> v = f k)"

definition hs_view :: "('c, 'p, 'a, 'k) in_mem_hot_store \<Rightarrow> ('c, 'p, 'a, 'k) view" where
  "hs_view hs =
     \<lparr>v_data = fill (data (hs_state hs)) (hr_data (history_reader_base hs)),
      v_conts = fill (continuations (hs_state hs)) (hr_continuations (history_reader_base hs)),
      v_inst = hm_get (installed_continuations (hs_state hs)),
      v_joins = fill (joins (hs_state hs)) (hr_joins (history_reader_base hs)),
      v_inst_joins = (\<lambda>c. case hm_get (installed_joins (hs_state hs)) c of Some js \<Rightarrow> js | None \<Rightarrow> [])\<rparr>"

definition history_cache_ok :: "('c, 'p, 'a, 'k) in_mem_hot_store \<Rightarrow> bool" where
  "history_cache_ok hs \<longleftrightarrow>
     cache_ok (hc_continuations (history_cache hs)) (hr_continuations (history_reader_base hs))
     \<and> cache_ok (hc_datums (history_cache hs)) (hr_data (history_reader_base hs))
     \<and> cache_ok (hc_joins (history_cache hs)) (hr_joins (history_reader_base hs))"

definition state_ok :: "('c, 'p, 'a, 'k) hot_store_state \<Rightarrow> bool" where
  "state_ok st \<longleftrightarrow> hm_ok (continuations st) \<and> hm_ok (data st) \<and> hm_ok (joins st)
     \<and> hm_ok (installed_continuations st) \<and> hm_ok (installed_joins st)"

definition hs_ok :: "('c, 'p, 'a, 'k) in_mem_hot_store \<Rightarrow> bool" where
  "hs_ok hs \<longleftrightarrow> history_cache_ok hs \<and> state_ok (hs_state hs)"

named_theorems view_simps \<open>the view of an updated store\<close>

lemma fill_simps [simp]:
  "hm_get m k = Some v \<Longrightarrow> fill m f k = v"
  "hm_get m k = None \<Longrightarrow> fill m f k = f k"
  by (simp_all add: fill_def)

lemma fill_put [simp, view_simps]: "fill (hm_put k v m) f = (fill m f)(k := v)"
  by (auto simp: fill_def)

lemma fill_same: "hm_get m k = Some v \<Longrightarrow> (fill m f)(k := v) = fill m f"
  by auto

lemma cache_ok_bound [simp]: "cache_ok m f \<Longrightarrow> cache_ok (bound_cache m) f"
  by (simp add: cache_ok_def bound_cache_def)

lemma cache_ok_put [simp]: "cache_ok m f \<Longrightarrow> cache_ok (hm_put k (f k) m) f"
  by (simp add: cache_ok_def)

lemma cache_ok_get: "cache_ok m f \<Longrightarrow> hm_get m k = Some v \<Longrightarrow> v = f k"
  by (simp add: cache_ok_def)

text \<open>Reading through the history cache is reading the history.\<close>

lemma get_cont_from_history_store_ok:
  assumes "history_cache_ok hs"
  shows "\<exists>hc. get_cont_from_history_store hs cs =
      (hr_continuations (history_reader_base hs) cs, hs\<lparr>history_cache := hc\<rparr>)
    \<and> history_cache_ok (hs\<lparr>history_cache := hc\<rparr>)"
  using assms
  by (auto simp: get_cont_from_history_store_def enforce_history_cache_bounds_def history_cache_ok_def Let_def
      split: option.splits dest: cache_ok_get [OF cache_ok_bound])

lemma get_data_from_history_store_ok:
  assumes "history_cache_ok hs"
  shows "\<exists>hc. get_data_from_history_store hs c =
      (hr_data (history_reader_base hs) c, hs\<lparr>history_cache := hc\<rparr>)
    \<and> history_cache_ok (hs\<lparr>history_cache := hc\<rparr>)"
  using assms
  by (auto simp: get_data_from_history_store_def enforce_history_cache_bounds_def history_cache_ok_def Let_def
      split: option.splits dest: cache_ok_get [OF cache_ok_bound])

lemma get_joins_from_history_store_ok:
  assumes "history_cache_ok hs"
  shows "\<exists>hc. get_joins_from_history_store hs c =
      (hr_joins (history_reader_base hs) c, hs\<lparr>history_cache := hc\<rparr>)
    \<and> history_cache_ok (hs\<lparr>history_cache := hc\<rparr>)"
  using assms
  by (auto simp: get_joins_from_history_store_def enforce_history_cache_bounds_def history_cache_ok_def Let_def
      split: option.splits dest: cache_ok_get [OF cache_ok_bound])

lemma remove1_position:
  "(case position (\<lambda>x. x = j) js of Some i \<Rightarrow> remove_nth i js | None \<Rightarrow> js) = remove1 j js"
  by (induction js) (auto split: option.splits)

lemma view_eqI:
  "\<lbrakk>v_data v = v_data w; v_conts v = v_conts w; v_inst v = v_inst w; v_joins v = v_joins w;
    v_inst_joins v = v_inst_joins w\<rbrakk> \<Longrightarrow> (v :: ('c, 'p, 'a, 'k) view) = w"
  by simp

lemmas hs_defs = hs_view_def hs_ok_def state_ok_def

lemma history_cache_ok_state [simp]: "history_cache_ok (hs\<lparr>hs_state := st\<rparr>) = history_cache_ok hs"
  by (simp add: history_cache_ok_def)

lemma list_ex_eq: "list_ex (\<lambda>y. y = x) xs \<longleftrightarrow> x \<in> set xs"
  by (auto simp: list_ex_iff)

lemma get_data_ok:
  assumes "hs_ok hs"
  shows "\<exists>hs'. get_data hs c = (v_data (hs_view hs) c, hs') \<and> hs_view hs' = hs_view hs \<and> hs_ok hs'"
proof (cases "hm_get (data (hs_state hs)) c")
  case None
  obtain hc where "get_data_from_history_store hs c = (hr_data (history_reader_base hs) c, hs\<lparr>history_cache := hc\<rparr>)"
    "history_cache_ok (hs\<lparr>history_cache := hc\<rparr>)"
    using get_data_from_history_store_ok [of hs c] assms by (auto simp: hs_ok_def)
  with None assms show ?thesis
    by (auto simp: get_data_def hs_defs)
qed (use assms in \<open>auto simp: get_data_def hs_defs\<close>)

lemma put_datum_ok:
  assumes "hs_ok hs"
  shows "hs_view (put_datum hs c d) = v_put_datum c d (hs_view hs) \<and> hs_ok (put_datum hs c d)"
proof (cases "hm_get (data (hs_state hs)) c")
  case None
  obtain hc where "get_data_from_history_store hs c = (hr_data (history_reader_base hs) c, hs\<lparr>history_cache := hc\<rparr>)"
    "history_cache_ok (hs\<lparr>history_cache := hc\<rparr>)"
    using get_data_from_history_store_ok [of hs c] assms by (auto simp: hs_ok_def)
  with None assms show ?thesis
    by (auto simp: put_datum_def hs_defs v_put_datum_def)
qed (use assms in \<open>auto simp: put_datum_def hs_defs v_put_datum_def\<close>)

lemma remove_datum_ok:
  assumes "hs_ok hs"
  shows "\<exists>hs'. remove_datum hs c i =
      ((if in_range i (v_data (hs_view hs) c) then Inr ()
        else Inl (Err (BugFoundError ''Index out of bounds when removing datum''))), hs')
      \<and> hs_view hs' = v_remove_datum c i (hs_view hs) \<and> hs_ok hs'"
proof (cases "hm_get (data (hs_state hs)) c")
  case None
  obtain hc where "get_data_from_history_store hs c = (hr_data (history_reader_base hs) c, hs\<lparr>history_cache := hc\<rparr>)"
    "history_cache_ok (hs\<lparr>history_cache := hc\<rparr>)"
    using get_data_from_history_store_ok [of hs c] assms by (auto simp: hs_ok_def)
  with None assms show ?thesis
    by (auto simp: remove_datum_def hs_defs v_remove_datum_def in_range_def remove_at_def Let_def)
qed (use assms in \<open>auto simp: remove_datum_def hs_defs v_remove_datum_def in_range_def remove_at_def Let_def fill_same\<close>)

lemma history_conts:
  assumes "hs_ok hs"
  obtains hc where
    "get_cont_from_history_store hs cs = (hr_continuations (history_reader_base hs) cs, hs\<lparr>history_cache := hc\<rparr>)"
    "history_cache_ok (hs\<lparr>history_cache := hc\<rparr>)"
  using get_cont_from_history_store_ok [of hs cs] assms by (auto simp: hs_ok_def)

lemma history_joins:
  assumes "hs_ok hs"
  obtains hc where
    "get_joins_from_history_store hs c = (hr_joins (history_reader_base hs) c, hs\<lparr>history_cache := hc\<rparr>)"
    "history_cache_ok (hs\<lparr>history_cache := hc\<rparr>)"
  using get_joins_from_history_store_ok [of hs c] assms by (auto simp: hs_ok_def)

lemma get_continuations_ok:
  assumes "hs_ok hs"
  shows "\<exists>hs'. get_continuations hs cs = (all_conts (hs_view hs) cs, hs') \<and> hs_view hs' = hs_view hs \<and> hs_ok hs'"
proof (cases "hm_get (continuations (hs_state hs)) cs")
  case None
  obtain hc where
    "get_cont_from_history_store hs cs = (hr_continuations (history_reader_base hs) cs, hs\<lparr>history_cache := hc\<rparr>)"
    "history_cache_ok (hs\<lparr>history_cache := hc\<rparr>)"
    by (rule history_conts [OF assms])
  with None assms show ?thesis
    by (cases "hm_get (installed_continuations (hs_state hs)) cs")
      (auto simp: get_continuations_def hs_defs all_conts_def)
next
  case (Some conts)
  with assms show ?thesis
    by (cases "hm_get (installed_continuations (hs_state hs)) cs")
      (auto simp: get_continuations_def hs_defs all_conts_def)
qed

lemma put_continuation_ok:
  assumes "hs_ok hs"
  shows "\<exists>hs'. put_continuation denv hs cs wc =
      (Some (\<not> list_ex (\<lambda>x. same_identity denv x wc) (v_conts (hs_view hs) cs)), hs')
    \<and> hs_view hs' = v_put_cont denv cs wc (hs_view hs) \<and> hs_ok hs'"
proof (cases "hm_get (continuations (hs_state hs)) cs")
  case None
  obtain hc where
    "get_cont_from_history_store hs cs = (hr_continuations (history_reader_base hs) cs, hs\<lparr>history_cache := hc\<rparr>)"
    "history_cache_ok (hs\<lparr>history_cache := hc\<rparr>)"
    by (rule history_conts [OF assms])
  with None assms show ?thesis
    by (auto simp: put_continuation_def hs_defs v_put_cont_def same_identity_def Let_def)
qed (use assms in \<open>auto simp: put_continuation_def hs_defs v_put_cont_def same_identity_def Let_def\<close>)

lemma install_continuation_ok:
  "hs_ok hs \<Longrightarrow> \<exists>hs'. install_continuation hs cs wc = (Some (), hs')
    \<and> hs_view hs' = v_install_cont cs wc (hs_view hs) \<and> hs_ok hs'"
  by (auto simp: install_continuation_def hs_defs v_install_cont_def)

lemma remove_continuation_ok:
  assumes "hs_ok hs"
  shows "\<exists>hs'. remove_continuation hs cs i =
      ((if in_range (cont_index cs i (hs_view hs)) (v_conts (hs_view hs) cs) then Some () else None), hs')
    \<and> hs_view hs' = v_remove_cont cs i (hs_view hs) \<and> hs_ok hs'"
proof (cases "hm_get (installed_continuations (hs_state hs)) cs \<noteq> None \<and> i = 0")
  case True
  with assms show ?thesis
    by (auto simp: remove_continuation_def hs_defs v_remove_cont_def in_range_def remove_at_def cont_index_def)
next
  case nz: False
  show ?thesis
  proof (cases "hm_get (continuations (hs_state hs)) cs")
    case None
    obtain hc where
      "get_cont_from_history_store hs cs = (hr_continuations (history_reader_base hs) cs, hs\<lparr>history_cache := hc\<rparr>)"
      "history_cache_ok (hs\<lparr>history_cache := hc\<rparr>)"
      by (rule history_conts [OF assms])
    with None assms nz show ?thesis
      by (auto simp: remove_continuation_def hs_defs v_remove_cont_def in_range_def remove_at_def cont_index_def Let_def)
  next
    case (Some conts)
    with assms nz show ?thesis
      by (auto simp: remove_continuation_def hs_defs v_remove_cont_def in_range_def remove_at_def cont_index_def Let_def
          fill_same)
  qed
qed

lemma get_joins_ok:
  assumes "hs_ok hs"
  shows "\<exists>hs'. get_joins hs c = (all_joins (hs_view hs) c, hs') \<and> hs_view hs' = hs_view hs \<and> hs_ok hs'"
proof (cases "hm_get (joins (hs_state hs)) c")
  case None
  obtain hc where
    "get_joins_from_history_store hs c = (hr_joins (history_reader_base hs) c, hs\<lparr>history_cache := hc\<rparr>)"
    "history_cache_ok (hs\<lparr>history_cache := hc\<rparr>)"
    by (rule history_joins [OF assms])
  with None assms show ?thesis
    by (auto simp: get_joins_def hs_defs all_joins_def)
qed (use assms in \<open>auto simp: get_joins_def hs_defs all_joins_def\<close>)

lemma put_join_ok:
  assumes "hs_ok hs"
  shows "\<exists>hs'. put_join hs c j = (Some (), hs') \<and> hs_view hs' = v_put_join c j (hs_view hs) \<and> hs_ok hs'"
proof (cases "hm_get (joins (hs_state hs)) c")
  case None
  obtain hc where
    "get_joins_from_history_store hs c = (hr_joins (history_reader_base hs) c, hs\<lparr>history_cache := hc\<rparr>)"
    "history_cache_ok (hs\<lparr>history_cache := hc\<rparr>)"
    by (rule history_joins [OF assms])
  with None assms show ?thesis
    by (auto simp: put_join_def hs_defs v_put_join_def add_new_def list_ex_eq)
qed (use assms in \<open>auto simp: put_join_def hs_defs v_put_join_def add_new_def list_ex_eq fill_same\<close>)

lemma install_join_ok:
  "hs_ok hs \<Longrightarrow> \<exists>hs'. install_join hs c j = (Some (), hs')
    \<and> hs_view hs' = v_install_join c j (hs_view hs) \<and> hs_ok hs'"
  by (cases "hm_get (installed_joins (hs_state hs)) c")
    (auto simp: install_join_def hs_defs v_install_join_def add_new_def list_ex_eq fun_eq_iff)

lemma remove_join_ok:
  assumes "hs_ok hs"
  shows "\<exists>hs'. remove_join hs c j = (Some (), hs') \<and> hs_view hs' = v_remove_join c j (hs_view hs) \<and> hs_ok hs'"
proof -
  have "\<exists>hc. (case hm_get (continuations (hs_state hs)) j of
        Some cs \<Rightarrow> (cs, hs) | None \<Rightarrow> get_cont_from_history_store hs j) =
      (v_conts (hs_view hs) j, hs\<lparr>history_cache := hc\<rparr>) \<and> history_cache_ok (hs\<lparr>history_cache := hc\<rparr>)"
  proof (cases "hm_get (continuations (hs_state hs)) j")
    case None
    then show ?thesis
      using history_conts [OF assms, of j] by (auto simp: hs_view_def)
  next
    case (Some conts)
    then show ?thesis
      using assms by (intro exI [of _ "history_cache hs"]) (auto simp: hs_defs)
  qed
  then obtain hc where hc: "(case hm_get (continuations (hs_state hs)) j of
        Some cs \<Rightarrow> (cs, hs) | None \<Rightarrow> get_cont_from_history_store hs j) =
      (v_conts (hs_view hs) j, hs\<lparr>history_cache := hc\<rparr>)" "history_cache_ok (hs\<lparr>history_cache := hc\<rparr>)"
    by blast
  have conts: "(case hm_get (installed_continuations (hs_state hs)) j of Some c \<Rightarrow> [c] | None \<Rightarrow> []) @ v_conts (hs_view hs) j
      = all_conts (hs_view hs) j"
    by (simp add: all_conts_def hs_view_def split: option.splits)
  have ok: "hs_ok (hs\<lparr>history_cache := hc\<rparr>)"
    using assms hc(2) by (simp add: hs_ok_def)
  show ?thesis
  proof (cases "hm_get (joins (hs_state hs)) c")
    case None
    obtain hc2 where
      "get_joins_from_history_store (hs\<lparr>history_cache := hc\<rparr>) c =
         (hr_joins (history_reader_base hs) c, hs\<lparr>history_cache := hc2\<rparr>)"
      "history_cache_ok (hs\<lparr>history_cache := hc2\<rparr>)"
      using history_joins [OF ok, of c] by auto
    with None assms show ?thesis
      unfolding remove_join_def hc(1) Let_def prod.case conts
      by (auto simp: v_remove_join_def hs_defs remove1_position)
  next
    case (Some js)
    with assms hc(2) show ?thesis
      unfolding remove_join_def hc(1) Let_def prod.case conts
      using remove1_position [where j = j and js = js]
      by (cases "position (\<lambda>x. x = j) js") (auto simp: v_remove_join_def hs_defs fill_same)
  qed
qed

interpretation ihs: hot_store hs_view hs_ok denv get_continuations "put_continuation denv" install_continuation
  remove_continuation get_data put_datum remove_datum get_joins put_join install_join remove_join
  for denv :: "('p, 'k) debug_env"
  by unfold_locales
    (rule get_continuations_ok put_continuation_ok install_continuation_ok remove_continuation_ok get_data_ok
      put_datum_ok remove_datum_ok get_joins_ok put_join_ok install_join_ok remove_join_ok; assumption)+

subsection \<open>Sequences of operations\<close>

datatype ('c, 'p, 'a, 'k) hs_op =
    GetContinuations "'c list" | PutContinuation "'c list" "('p, 'k) waiting_continuation"
  | InstallContinuation "'c list" "('p, 'k) waiting_continuation" | RemoveContinuation "'c list" int
  | GetData 'c | PutDatum 'c "'a datum" | RemoveDatum 'c int
  | GetJoins 'c | PutJoin 'c "'c list" | InstallJoin 'c "'c list" | RemoveJoin 'c "'c list"

fun hs_step ::
  "('p, 'k) debug_env \<Rightarrow> ('c, 'p, 'a, 'k) in_mem_hot_store \<Rightarrow> ('c, 'p, 'a, 'k) hs_op \<Rightarrow> ('c, 'p, 'a, 'k) in_mem_hot_store" where
  "hs_step denv hs (GetContinuations cs) = snd (get_continuations hs cs)"
| "hs_step denv hs (PutContinuation cs wc) = snd (put_continuation denv hs cs wc)"
| "hs_step denv hs (InstallContinuation cs wc) = snd (install_continuation hs cs wc)"
| "hs_step denv hs (RemoveContinuation cs i) = snd (remove_continuation hs cs i)"
| "hs_step denv hs (GetData c) = snd (get_data hs c)"
| "hs_step denv hs (PutDatum c d) = put_datum hs c d"
| "hs_step denv hs (RemoveDatum c i) = snd (remove_datum hs c i)"
| "hs_step denv hs (GetJoins c) = snd (get_joins hs c)"
| "hs_step denv hs (PutJoin c j) = snd (put_join hs c j)"
| "hs_step denv hs (InstallJoin c j) = snd (install_join hs c j)"
| "hs_step denv hs (RemoveJoin c j) = snd (remove_join hs c j)"

fun v_step ::
  "('p, 'k) debug_env \<Rightarrow> ('c, 'p, 'a, 'k) view \<Rightarrow> ('c, 'p, 'a, 'k) hs_op \<Rightarrow> ('c, 'p, 'a, 'k) view" where
  "v_step denv v (PutContinuation cs wc) = v_put_cont denv cs wc v"
| "v_step denv v (InstallContinuation cs wc) = v_install_cont cs wc v"
| "v_step denv v (RemoveContinuation cs i) = v_remove_cont cs i v"
| "v_step denv v (PutDatum c d) = v_put_datum c d v"
| "v_step denv v (RemoveDatum c i) = v_remove_datum c i v"
| "v_step denv v (PutJoin c j) = v_put_join c j v"
| "v_step denv v (InstallJoin c j) = v_install_join c j v"
| "v_step denv v (RemoveJoin c j) = v_remove_join c j v"
| "v_step denv v _ = v"

lemma hs_step_refines:
  assumes "hs_ok hs"
  shows "hs_view (hs_step denv hs op) = v_step denv (hs_view hs) op \<and> hs_ok (hs_step denv hs op)"
proof (cases op)
  case (GetContinuations cs)
  then show ?thesis using ihs.get_conts [OF assms, of cs] by auto
next
  case (PutContinuation cs wc)
  then show ?thesis using ihs.put_cont [OF assms, of denv cs wc] by auto
next
  case (InstallContinuation cs wc)
  then show ?thesis using ihs.install_cont [OF assms, of cs wc] by auto
next
  case (RemoveContinuation cs i)
  then show ?thesis using ihs.remove_cont [OF assms, of cs i] by auto
next
  case (GetData c)
  then show ?thesis using ihs.get_dat [OF assms, of c] by auto
next
  case (PutDatum c d)
  then show ?thesis using ihs.put_dat [OF assms, of c d] by auto
next
  case (RemoveDatum c i)
  then show ?thesis using ihs.remove_dat [OF assms, of c i] by auto
next
  case (GetJoins c)
  then show ?thesis using ihs.get_js [OF assms, of c] by auto
next
  case (PutJoin c j)
  then show ?thesis using ihs.put_js [OF assms, of c j] by auto
next
  case (InstallJoin c j)
  then show ?thesis using ihs.install_js [OF assms, of c j] by auto
next
  case (RemoveJoin c j)
  then show ?thesis using ihs.remove_js [OF assms, of c j] by auto
qed

lemma hs_steps_refine:
  "hs_ok hs \<Longrightarrow> hs_view (foldl (hs_step denv) hs ops) = foldl (v_step denv) (hs_view hs) ops
     \<and> hs_ok (foldl (hs_step denv) hs ops)"
  by (induction ops arbitrary: hs) (auto simp: hs_step_refines)

text \<open>
  What the operations return: \<open>hs_out\<close> is the value the call of the store returns,
  \<open>v_out\<close> the value its specification allows; \<open>hs_results\<close> and \<open>v_results\<close> list the values
  of a sequence of calls.
\<close>

datatype ('c, 'p, 'a, 'k) hs_result =
    OutContinuations "('p, 'k) waiting_continuation list" | OutData "'a datum list" | OutJoins "'c list list"
  | OutStored "bool option" | OutDone "unit option" | OutRemoved "(rspace_error, unit) res" | OutUnit

fun hs_out ::
  "('p, 'k) debug_env \<Rightarrow> ('c, 'p, 'a, 'k) in_mem_hot_store \<Rightarrow> ('c, 'p, 'a, 'k) hs_op \<Rightarrow> ('c, 'p, 'a, 'k) hs_result" where
  "hs_out denv hs (GetContinuations cs) = OutContinuations (fst (get_continuations hs cs))"
| "hs_out denv hs (PutContinuation cs wc) = OutStored (fst (put_continuation denv hs cs wc))"
| "hs_out denv hs (InstallContinuation cs wc) = OutDone (fst (install_continuation hs cs wc))"
| "hs_out denv hs (RemoveContinuation cs i) = OutDone (fst (remove_continuation hs cs i))"
| "hs_out denv hs (GetData c) = OutData (fst (get_data hs c))"
| "hs_out denv hs (PutDatum c d) = OutUnit"
| "hs_out denv hs (RemoveDatum c i) = OutRemoved (fst (remove_datum hs c i))"
| "hs_out denv hs (GetJoins c) = OutJoins (fst (get_joins hs c))"
| "hs_out denv hs (PutJoin c j) = OutDone (fst (put_join hs c j))"
| "hs_out denv hs (InstallJoin c j) = OutDone (fst (install_join hs c j))"
| "hs_out denv hs (RemoveJoin c j) = OutDone (fst (remove_join hs c j))"

fun v_out ::
  "('p, 'k) debug_env \<Rightarrow> ('c, 'p, 'a, 'k) view \<Rightarrow> ('c, 'p, 'a, 'k) hs_op \<Rightarrow> ('c, 'p, 'a, 'k) hs_result" where
  "v_out denv v (GetContinuations cs) = OutContinuations (all_conts v cs)"
| "v_out denv v (PutContinuation cs wc) = OutStored (Some (\<not> list_ex (\<lambda>x. same_identity denv x wc) (v_conts v cs)))"
| "v_out denv v (RemoveContinuation cs i) =
     OutDone (if in_range (cont_index cs i v) (v_conts v cs) then Some () else None)"
| "v_out denv v (GetData c) = OutData (v_data v c)"
| "v_out denv v (PutDatum c d) = OutUnit"
| "v_out denv v (RemoveDatum c i) = OutRemoved (if in_range i (v_data v c) then Inr ()
     else Inl (Err (BugFoundError ''Index out of bounds when removing datum'')))"
| "v_out denv v (GetJoins c) = OutJoins (all_joins v c)"
| "v_out denv v _ = OutDone (Some ())"

fun hs_results ::
  "('p, 'k) debug_env \<Rightarrow> ('c, 'p, 'a, 'k) in_mem_hot_store \<Rightarrow> ('c, 'p, 'a, 'k) hs_op list \<Rightarrow> ('c, 'p, 'a, 'k) hs_result list" where
  "hs_results denv hs [] = []"
| "hs_results denv hs (op # ops) = hs_out denv hs op # hs_results denv (hs_step denv hs op) ops"

fun v_results ::
  "('p, 'k) debug_env \<Rightarrow> ('c, 'p, 'a, 'k) view \<Rightarrow> ('c, 'p, 'a, 'k) hs_op list \<Rightarrow> ('c, 'p, 'a, 'k) hs_result list" where
  "v_results denv v [] = []"
| "v_results denv v (op # ops) = v_out denv v op # v_results denv (v_step denv v op) ops"

lemma hs_out_refines:
  assumes "hs_ok hs"
  shows "hs_out denv hs op = v_out denv (hs_view hs) op"
proof (cases op)
  case (GetContinuations cs)
  then show ?thesis using ihs.get_conts [OF assms, of cs] by auto
next
  case (PutContinuation cs wc)
  then show ?thesis using ihs.put_cont [OF assms, of denv cs wc] by auto
next
  case (InstallContinuation cs wc)
  then show ?thesis using ihs.install_cont [OF assms, of cs wc] by auto
next
  case (RemoveContinuation cs i)
  then show ?thesis using ihs.remove_cont [OF assms, of cs i] by auto
next
  case (GetData c)
  then show ?thesis using ihs.get_dat [OF assms, of c] by auto
next
  case (RemoveDatum c i)
  then show ?thesis using ihs.remove_dat [OF assms, of c i] by auto
next
  case (GetJoins c)
  then show ?thesis using ihs.get_js [OF assms, of c] by auto
next
  case (PutJoin c j)
  then show ?thesis using ihs.put_js [OF assms, of c j] by auto
next
  case (InstallJoin c j)
  then show ?thesis using ihs.install_js [OF assms, of c j] by auto
next
  case (RemoveJoin c j)
  then show ?thesis using ihs.remove_js [OF assms, of c j] by auto
qed simp

lemma hs_results_refine:
  "hs_ok hs \<Longrightarrow> hs_results denv hs ops = v_results denv (hs_view hs) ops"
  by (induction ops arbitrary: hs) (auto simp: hs_out_refines hs_step_refines)

lemma create_from_hr_ok [simp]: "hs_ok (create_from_hr hr)"
  by (simp add: create_from_hr_def create_from_hs_and_hr_def empty_state_def empty_history_cache_def
      hs_ok_def state_ok_def history_cache_ok_def cache_ok_def)

lemma create_from_hr_view:
  "hs_view (create_from_hr hr) =
    \<lparr>v_data = hr_data hr, v_conts = hr_continuations hr, v_inst = Map.empty, v_joins = hr_joins hr, v_inst_joins = (\<lambda>_. [])\<rparr>"
  by (auto simp: create_from_hr_def create_from_hs_and_hr_def empty_state_def hs_view_def fun_eq_iff fill_def)

subsection \<open>The changes of a hot store\<close>

text \<open>What the actions of \<open>changes\<close> mean for the history they are applied to.\<close>

fun apply_action ::
  "('c, 'p, 'a, 'k) history_reader \<Rightarrow> ('c, 'p, 'a, 'k) hot_store_action \<Rightarrow> ('c, 'p, 'a, 'k) history_reader" where
  "apply_action hr (InsertData c d) = hr\<lparr>hr_data := (hr_data hr)(c := d)\<rparr>"
| "apply_action hr (InsertJoins c js) = hr\<lparr>hr_joins := (hr_joins hr)(c := js)\<rparr>"
| "apply_action hr (InsertContinuations cs ks) = hr\<lparr>hr_continuations := (hr_continuations hr)(cs := ks)\<rparr>"
| "apply_action hr (DeleteData c) = hr\<lparr>hr_data := (hr_data hr)(c := [])\<rparr>"
| "apply_action hr (DeleteJoins c) = hr\<lparr>hr_joins := (hr_joins hr)(c := [])\<rparr>"
| "apply_action hr (DeleteContinuations cs) = hr\<lparr>hr_continuations := (hr_continuations hr)(cs := [])\<rparr>"

lemma fill_Nil [simp]: "fill [] f = f"
  by (auto simp: fill_def)

lemma fill_Cons: "k \<notin> fst ` set m \<Longrightarrow> fill ((k, v) # m) f = fill m (f(k := v))"
proof
  fix x assume "k \<notin> fst ` set m"
  then have "hm_get m k = None"
    by (simp add: map_of_eq_None_iff)
  then show "fill ((k, v) # m) f x = fill m (f(k := v)) x"
    by (auto simp: fill_def split: option.splits)
qed

text \<open>No operation changes the history reader.\<close>

lemma history_reader_fills [simp]:
  "history_reader_base (snd (get_cont_from_history_store hs cs)) = history_reader_base hs"
  "history_reader_base (snd (get_data_from_history_store hs c)) = history_reader_base hs"
  "history_reader_base (snd (get_joins_from_history_store hs c)) = history_reader_base hs"
  by (simp_all add: get_cont_from_history_store_def get_data_from_history_store_def
      get_joins_from_history_store_def Let_def split: option.splits)

lemma history_reader_step: "history_reader_base (hs_step denv hs op) = history_reader_base hs"
  by (cases op) (auto simp: get_continuations_def put_continuation_def install_continuation_def
      remove_continuation_def get_data_def put_datum_def remove_datum_def get_joins_def put_join_def
      install_join_def remove_join_def Let_def case_prod_unfold split: option.splits)

lemma history_reader_steps: "history_reader_base (foldl (hs_step denv) hs ops) = history_reader_base hs"
  by (induction ops arbitrary: hs) (auto simp: history_reader_step)

lemma apply_data:
  "hm_ok m \<Longrightarrow> foldl apply_action hr (map (\<lambda>(k, v). if v = [] then DeleteData k else InsertData k v) m) =
    hr\<lparr>hr_data := fill m (hr_data hr)\<rparr>"
proof (induction m arbitrary: hr)
  case (Cons x m)
  then show ?case by (cases x) (auto simp: hm_ok_def fill_Cons)
qed simp

lemma apply_joins:
  "hm_ok m \<Longrightarrow> foldl apply_action hr (map (\<lambda>(k, v). if v = [] then DeleteJoins k else InsertJoins k v) m) =
    hr\<lparr>hr_joins := fill m (hr_joins hr)\<rparr>"
proof (induction m arbitrary: hr)
  case (Cons x m)
  then show ?case by (cases x) (auto simp: hm_ok_def fill_Cons)
qed simp

lemma apply_conts:
  "hm_ok m \<Longrightarrow> foldl apply_action hr (map (\<lambda>(k, v). if v = [] then DeleteContinuations k else InsertContinuations k v) m) =
    hr\<lparr>hr_continuations := fill m (hr_continuations hr)\<rparr>"
proof (induction m arbitrary: hr)
  case (Cons x m)
  then show ?case by (cases x) (auto simp: hm_ok_def fill_Cons)
qed simp

lemma apply_changes:
  assumes "hs_ok hs"
  shows "foldl apply_action (history_reader_base hs) (changes hs) =
    \<lparr>hr_data = v_data (hs_view hs), hr_continuations = v_conts (hs_view hs), hr_joins = v_joins (hs_view hs)\<rparr>"
  using assms by (simp add: changes_def hs_ok_def state_ok_def apply_conts apply_data apply_joins hs_view_def)

subsection \<open>Properties\<close>

text \<open>
  C38. The hot store refines its specification: for any sequence of operations on a store
  created over a history, every call returns what the specification returns (the data,
  continuations and joins of a read; whether a continuation was new; whether an index was
  in range, and the error of a datum's index that was not), and the data, continuations
  and joins the store stands for afterwards are those of the abstract operations. When and
  how often the store read the history does not show, and neither does the eviction of
  the history cache.
\<close>

theorem hot_store_refines:
  "let v0 = \<lparr>v_data = hr_data hr, v_conts = hr_continuations hr, v_inst = Map.empty, v_joins = hr_joins hr,
     v_inst_joins = (\<lambda>_. [])\<rparr>
   in hs_results denv (create_from_hr hr) ops = v_results denv v0 ops
      \<and> hs_view (foldl (hs_step denv) (create_from_hr hr) ops) = foldl (v_step denv) v0 ops"
  using hs_steps_refine [OF create_from_hr_ok, of denv hr ops] hs_results_refine [OF create_from_hr_ok, of denv hr ops]
  by (simp add: create_from_hr_view)

text \<open>
  \<open>changes\<close> is complete and correct: applied to the history the store was created over,
  they give a history whose fresh hot store shows the same data, continuations and joins
  (installed continuations and joins are not written to the history).
\<close>

theorem changes_complete:
  "let hs = foldl (hs_step denv) (create_from_hr hr) ops
   in hs_view (create_from_hr (foldl apply_action hr (changes hs))) =
      (hs_view hs)\<lparr>v_inst := Map.empty, v_inst_joins := (\<lambda>_. [])\<rparr>"
proof -
  let ?hs = "foldl (hs_step denv) (create_from_hr hr) ops"
  have base: "history_reader_base ?hs = hr"
    by (simp add: history_reader_steps create_from_hr_def create_from_hs_and_hr_def)
  have "hs_ok ?hs"
    using hs_steps_refine [OF create_from_hr_ok] by blast
  from apply_changes [OF this] show ?thesis
    by (simp add: base create_from_hr_view)
qed

end
