(* ===== verification/Serializers.thy ===== *)
theory Serializers
  imports TraceEvent Errors "HOL-Library.Countable"
begin

section \<open>Serialisation of leaves\<close>

text \<open>
  rspace++/src/rspace/serializers/serializers.rs: lists of data, continuations and joins are
  written as the sorted list of their encoded elements. The bincode encodings and decodings
  are the record \<open>codec_env\<close>, an extension of \<open>hash_env\<close>; \<open>codec_ok\<close> states what bincode promises:
  decoding gives back what was encoded, and a byte vector is written with a length of eight
  bytes in front.
\<close>

datatype persisted_data = Joins bytes | Data bytes | Continuations bytes

record ('c, 'p, 'a, 'k) codec_env = "('c, 'p, 'a, 'k) hash_env" +
  ser_datum_rec :: "'a datum \<Rightarrow> bytes"
  de_datum_rec :: "bytes \<Rightarrow> 'a datum option"
  ser_wk :: "('p, 'k) waiting_continuation \<Rightarrow> bytes"
  de_wk :: "bytes \<Rightarrow> ('p, 'k) waiting_continuation option"
  ser_join :: "'c list \<Rightarrow> bytes"
  de_join :: "bytes \<Rightarrow> 'c list option"
  de_vec :: "bytes \<Rightarrow> bytes list option"
  ser_bytes :: "bytes \<Rightarrow> bytes"
  ser_persisted :: "persisted_data \<Rightarrow> bytes"
  de_persisted :: "bytes \<Rightarrow> persisted_data option"

definition codec_ok :: "('c, 'p, 'a, 'k) codec_env \<Rightarrow> bool" where
  "codec_ok cenv \<longleftrightarrow>
     (\<forall>d. de_datum_rec cenv (ser_datum_rec cenv d) = Some d)
     \<and> (\<forall>w. de_wk cenv (ser_wk cenv w) = Some w)
     \<and> (\<forall>j. de_join cenv (ser_join cenv j) = Some j)
     \<and> (\<forall>v. de_vec cenv (ser_vec cenv v) = Some v)
     \<and> (\<forall>d. de_persisted cenv (ser_persisted cenv d) = Some d)
     \<and> inj (ser_bytes cenv) \<and> (\<forall>bs. length (ser_bytes cenv bs) = 8 + length bs)"

subsection \<open>Sorting\<close>

definition compare_byte_vectors :: "bytes \<Rightarrow> bytes \<Rightarrow> ordering" where
  "compare_byte_vectors a b =
     (case find (\<lambda>ord. ord \<noteq> Equal) (map (\<lambda>(x, y). cmp x y) (zip a b)) of
        Some ord \<Rightarrow> ord
      | None \<Rightarrow> cmp (length a) (length b))"

text \<open>It is the lexicographic order, so \<open>sort_by\<close> with it is \<open>sort\<close>.\<close>

lemma compare_byte_vectors_Cons:
  "compare_byte_vectors (x # a) (y # b) = (if x = y then compare_byte_vectors a b else cmp x y)"
proof -
  have "cmp (Suc m) (Suc n) = cmp m n" for m n
    by (simp add: cmp_def)
  then show ?thesis
    by (simp add: compare_byte_vectors_def cmp_def [of x y] split: option.splits)
qed

lemma compare_byte_vectors_lex: "compare_byte_vectors a b = cmp a b"
proof (induction a arbitrary: b)
  case Nil
  then show ?case by (cases b) (auto simp: compare_byte_vectors_def cmp_def)
next
  case (Cons x a)
  show ?case
  proof (cases b)
    case (Cons y b')
    then show ?thesis
      using Cons.IH [of b'] by (auto simp: compare_byte_vectors_Cons cmp_def)
  qed (auto simp: compare_byte_vectors_def cmp_def)
qed

subsection \<open>Lists of elements\<close>

definition encode_datums :: "('c, 'p, 'a, 'k) codec_env \<Rightarrow> 'a datum list \<Rightarrow> bytes" where
  "encode_datums cenv datums = ser_vec cenv (sort (map (ser_datum_rec cenv) datums))"

definition encode_continuations :: "('c, 'p, 'a, 'k) codec_env \<Rightarrow> ('p, 'k) waiting_continuation list \<Rightarrow> bytes" where
  "encode_continuations cenv conts = ser_vec cenv (sort (map (ser_wk cenv) conts))"

definition encode_joins :: "('c, 'p, 'a, 'k) codec_env \<Rightarrow> 'c list list \<Rightarrow> bytes" where
  "encode_joins cenv joins = ser_vec cenv (sort (map (ser_join cenv) joins))"

definition encode_binary :: "('c, 'p, 'a, 'k) codec_env \<Rightarrow> bytes list \<Rightarrow> bytes" where
  "encode_binary cenv binary = ser_vec cenv (sort (map (ser_bytes cenv) binary))"

definition expect :: "string \<Rightarrow> 'b option \<Rightarrow> ('e, 'b) res" where
  "expect msg x = (case x of Some v \<Rightarrow> Inr v | None \<Rightarrow> Inl (Panic msg))"

lemma expect_simps [simp]: "expect msg (Some v) = Inr v" "expect msg None = Inl (Panic msg)"
  by (simp_all add: expect_def)

definition decode_all :: "string \<Rightarrow> (bytes \<Rightarrow> 'b option) \<Rightarrow> (bytes \<Rightarrow> bytes list option) \<Rightarrow> bytes \<Rightarrow> (history_error, 'b list) res" where
  "decode_all msg de devec vec_bytes =
     rbind (expect msg (devec vec_bytes)) (\<lambda>encoded. sequence_res (map (\<lambda>bytes. expect msg (de bytes)) encoded))"

definition decode_datums :: "('c, 'p, 'a, 'k) codec_env \<Rightarrow> bytes \<Rightarrow> (history_error, 'a datum list) res" where
  "decode_datums cenv vec_bytes =
     decode_all ''Serializers: Unable to deserialize datums'' (de_datum_rec cenv) (de_vec cenv) vec_bytes"

definition decode_continuations :: "('c, 'p, 'a, 'k) codec_env \<Rightarrow> bytes \<Rightarrow> (history_error, ('p, 'k) waiting_continuation list) res" where
  "decode_continuations cenv vec_bytes =
     decode_all ''Serializers: Unable to deserialize continuations'' (de_wk cenv) (de_vec cenv) vec_bytes"

definition decode_joins :: "('c, 'p, 'a, 'k) codec_env \<Rightarrow> bytes \<Rightarrow> (history_error, 'c list list) res" where
  "decode_joins cenv vec_bytes =
     decode_all ''Serializers: Unable to deserialize joins'' (de_join cenv) (de_vec cenv) vec_bytes"

lemma decode_all_sorted:
  assumes "\<forall>x. de (ser x) = Some x" "devec bs = Some (sort (map ser xs))"
  shows "decode_all msg de devec bs = Inr (sort_key ser xs)"
proof -
  have "sort (map ser xs) = map ser (sort_key ser xs)"
    by (rule properties_for_sort) simp_all
  then show ?thesis
    using assms sequence_res_map_Inr [of "sort_key ser xs"] by (simp add: decode_all_def o_def)
qed

lemma decode_encode:
  assumes "codec_ok cenv"
  shows "decode_datums cenv (encode_datums cenv ds) = Inr (sort_key (ser_datum_rec cenv) ds)"
    and "decode_continuations cenv (encode_continuations cenv ks) = Inr (sort_key (ser_wk cenv) ks)"
    and "decode_joins cenv (encode_joins cenv js) = Inr (sort_key (ser_join cenv) js)"
  using assms
  by (auto simp: codec_ok_def decode_datums_def decode_continuations_def decode_joins_def encode_datums_def
      encode_continuations_def encode_joins_def intro!: decode_all_sorted)

text \<open>The encodings do not depend on the order of the elements.\<close>

lemma encode_order:
  "mset ds = mset ds' \<Longrightarrow> encode_datums cenv ds = encode_datums cenv ds'"
  "mset ks = mset ks' \<Longrightarrow> encode_continuations cenv ks = encode_continuations cenv ks'"
  "mset js = mset js' \<Longrightarrow> encode_joins cenv js = encode_joins cenv js'"
  by (auto simp: encode_datums_def encode_continuations_def encode_joins_def mset_map
      intro!: arg_cong [of _ _ "ser_vec cenv"] sort_key_mset_eq)

subsection \<open>An example codec\<close>

text \<open>A codec for byte-valued channels, patterns, data and continuations, for the witnesses.\<close>

definition produce_tuple :: "produce \<Rightarrow> bytes \<times> bytes \<times> bool \<times> bool \<times> bytes list \<times> bool" where
  "produce_tuple p = (channel_hash p, p_hash p, persistent p, is_deterministic p, output_value p, failed p)"

definition tuple_produce :: "bytes \<times> bytes \<times> bool \<times> bool \<times> bytes list \<times> bool \<Rightarrow> produce" where
  "tuple_produce = (\<lambda>(ch, h, p, d, v, f).
     \<lparr>channel_hash = ch, p_hash = h, persistent = p, is_deterministic = d, output_value = v, failed = f\<rparr>)"

definition unary :: "'b :: countable \<Rightarrow> bytes" where
  "unary x = replicate (to_nat x) 0"

definition of_unary :: "bytes \<Rightarrow> 'b :: countable" where
  "of_unary bs = from_nat (length bs)"

lemma of_unary [simp]: "of_unary (unary x) = x"
  by (simp add: unary_def of_unary_def)

definition persisted_tuple :: "persisted_data \<Rightarrow> nat \<times> bytes" where
  "persisted_tuple d = (case d of Joins b \<Rightarrow> (0, b) | Data b \<Rightarrow> (1, b) | Continuations b \<Rightarrow> (2, b))"

definition tuple_persisted :: "nat \<times> bytes \<Rightarrow> persisted_data" where
  "tuple_persisted = (\<lambda>(n, b). if n = 0 then Joins b else if n = 1 then Data b else Continuations b)"

fun demo_de_vec :: "bytes \<Rightarrow> bytes \<Rightarrow> bytes list option" where
  "demo_de_vec acc [] = (if acc = [] then Some [] else None)"
| "demo_de_vec acc [b] = (if b = 0 then Some [rev acc] else None)"
| "demo_de_vec acc (b # c # bs) =
     (if b = 0 then map_option ((#) (rev acc)) (demo_de_vec [] (c # bs)) else demo_de_vec (c # acc) bs)"

lemma demo_de_vec_end: "demo_de_vec acc (0 # r) = map_option ((#) (rev acc)) (demo_de_vec [] r)"
  by (cases r) simp_all

lemma demo_de_vec_bytes:
  "demo_de_vec acc (concat (map (\<lambda>b. [1, b]) xs) @ 0 # r) = map_option ((#) (rev acc @ xs)) (demo_de_vec [] r)"
  by (induction xs arbitrary: acc) (simp_all add: demo_de_vec_end)

lemma demo_de_vec: "demo_de_vec [] (ser_vec demo_henv v) = Some v"
  by (induction v) (simp_all add: demo_henv_def demo_de_vec_bytes)

definition demo_cenv :: "(byte, byte, byte, byte) codec_env" where
  "demo_cenv = hash_env.extend demo_henv (codec_env.fields
     (\<lambda>d. unary (a_val d, d_persist d, produce_tuple (d_source d)))
     (\<lambda>bs. Some (case of_unary bs of (a, p, s) \<Rightarrow> \<lparr>a_val = a, d_persist = p, d_source = tuple_produce s\<rparr>))
     (\<lambda>w. unary (wc_patterns w, wc_continuation w, wc_persist w, wc_peeks w,
        channel_hashes (wc_source w), c_hash (wc_source w), c_persistent (wc_source w)))
     (\<lambda>bs. Some (case of_unary bs of (ps, k, p, pk, chs, h, cp) \<Rightarrow>
        \<lparr>wc_patterns = ps, wc_continuation = k, wc_persist = p, wc_peeks = pk,
         wc_source = \<lparr>channel_hashes = chs, c_hash = h, c_persistent = cp\<rparr>\<rparr>))
     unary (\<lambda>bs. Some (of_unary bs))
     (demo_de_vec [])
     (\<lambda>bs. replicate 8 0 @ bs)
     (\<lambda>d. unary (persisted_tuple d)) (\<lambda>bs. Some (tuple_persisted (of_unary bs))))"

lemma demo_cenv_ok: "codec_ok demo_cenv"
proof -
  have "tuple_produce (produce_tuple p) = p" for p
    by (simp add: tuple_produce_def produce_tuple_def)
  moreover have "tuple_persisted (persisted_tuple d) = d" for d
    by (cases d) (simp_all add: tuple_persisted_def persisted_tuple_def)
  ultimately show ?thesis
    using demo_de_vec by (simp add: codec_ok_def demo_cenv_def hash_env.defs codec_env.defs demo_henv_def inj_def)
qed

subsection \<open>Properties\<close>

text \<open>
  Reading a leaf back gives the elements that were written, in the order of their
  encodings, and the bytes of a leaf do not depend on the order in which the elements were
  in memory: nodes that hold the same data write the same leaf.
\<close>

theorem leaf_roundtrip:
  assumes "codec_ok cenv"
  shows "decode_datums cenv (encode_datums cenv ds) = Inr (sort_key (ser_datum_rec cenv) ds)
    \<and> decode_continuations cenv (encode_continuations cenv ks) = Inr (sort_key (ser_wk cenv) ks)
    \<and> decode_joins cenv (encode_joins cenv js) = Inr (sort_key (ser_join cenv) js)
    \<and> (mset ds = mset ds' \<longrightarrow> encode_datums cenv ds = encode_datums cenv ds')"
  using decode_encode [OF assms] encode_order(1) by blast

theorem leaf_roundtrip_witness:
  "let d1 = datum_create demo_henv 1 2 False; d2 = datum_create demo_henv 1 3 True
   in decode_datums demo_cenv (encode_datums demo_cenv [d1, d2]) = Inr (sort_key (ser_datum_rec demo_cenv) [d1, d2])
    \<and> decode_continuations demo_cenv (encode_continuations demo_cenv []) = Inr (sort_key (ser_wk demo_cenv) [])
    \<and> decode_joins demo_cenv (encode_joins demo_cenv [[1], [2, 3]]) = Inr (sort_key (ser_join demo_cenv) [[1], [2, 3]])
    \<and> (mset [d1, d2] = mset [d2, d1] \<longrightarrow> encode_datums demo_cenv [d1, d2] = encode_datums demo_cenv [d2, d1])"
  unfolding Let_def by (rule leaf_roundtrip [OF demo_cenv_ok])

end
