(* ===== verification/HistoryRepository.thy ===== *)
theory HistoryRepository
  imports RadixHistory HotStoreSpec Serializers
begin

section \<open>The history repository\<close>

text \<open>
  rspace++/src/rspace/history: \<open>RootsStore\<close> (roots_store.rs), \<open>RootRepository\<close>
  (root_repository.rs), \<open>RSpaceHistoryReaderImpl\<close> (instances/rspace_history_reader_impl.rs) and
  \<open>HistoryRepositoryImpl\<close> (history_repository_impl.rs). A checkpoint turns the changes of a hot
  store into leaves, written to the cold store under their hash, and actions on the history;
  a reader follows the trie to the leaf of a channel and decodes it. The three key-value
  stores are shared by all repositories and readers: they are an argument and a result of
  the operations. The importer and exporter handles a repository carries are left out.
\<close>

record ('c, 'p, 'a, 'k) repo_env =
  cenv :: "('c, 'p, 'a, 'k) codec_env"
  dash_ord :: "bytes list \<Rightarrow> bytes list"

definition radix_of :: "('c, 'p, 'a, 'k) repo_env \<Rightarrow> radix_env" where
  "radix_of env = \<lparr>blake2b256 = blake_new (cenv env), dash_order = dash_ord env\<rparr>"

abbreviation henv :: "('c, 'p, 'a, 'k) repo_env \<Rightarrow> ('c, 'p, 'a, 'k) hash_env" where
  "henv env \<equiv> hash_env.truncate (cenv env)"

record rspace_store =
  history_kv :: in_mem_store
  roots_kv :: in_mem_store
  cold_kv :: in_mem_store

definition PREFIX_DATUM :: byte where "PREFIX_DATUM = 0"
definition PREFIX_KONT :: byte where "PREFIX_KONT = 1"
definition PREFIX_JOINS :: byte where "PREFIX_JOINS = 2"

definition prepend_bytes :: "byte \<Rightarrow> bytes \<Rightarrow> bytes" where
  "prepend_bytes element bs = element # bs"

subsection \<open>Roots\<close>

definition ascii :: "string \<Rightarrow> bytes" where
  "ascii s = map (\<lambda>c. word_of_nat (of_char c)) s"

definition current_root_name :: bytes where
  "current_root_name = ascii ''current-root''"

text \<open>\<open>From<KvStoreError> for RootError\<close>; the text of the error is not modelled.\<close>

definition root_err :: "kv_store_error \<Rightarrow> root_error" where
  "root_err e = RootKvStoreError ''''"

definition rs_current_root :: "in_mem_store \<Rightarrow> (root_error, bytes option) res" where
  "rs_current_root st = map_err root_err (kv_get_one inmem_get st current_root_name)"

definition rs_validate_and_set_current_root :: "in_mem_store \<Rightarrow> bytes \<Rightarrow> (root_error, bytes option \<times> in_mem_store) res" where
  "rs_validate_and_set_current_root st key =
     rbind (map_err root_err (kv_get_one inmem_get st key)) (\<lambda>r.
       case r of
         Some _ \<Rightarrow> rbind (map_err root_err (kv_put_one inmem_put st current_root_name key)) (\<lambda>st'. Inr (Some key, st'))
       | None \<Rightarrow> Inr (None, st))"

definition rs_record_root :: "in_mem_store \<Rightarrow> bytes \<Rightarrow> (root_error, in_mem_store) res" where
  "rs_record_root st key =
     rbind (map_err root_err (kv_put_one inmem_put st key (ascii ''tag''))) (\<lambda>st'.
       map_err root_err (kv_put_one inmem_put st' current_root_name key))"

definition rr_commit :: "in_mem_store \<Rightarrow> bytes \<Rightarrow> (root_error, in_mem_store) res" where
  "rr_commit st root = rs_record_root st root"

definition rr_current_root :: "('c, 'p, 'a, 'k) repo_env \<Rightarrow> in_mem_store \<Rightarrow> (root_error, bytes \<times> in_mem_store) res" where
  "rr_current_root env st =
     rbind (rs_current_root st) (\<lambda>r.
       case r of
         None \<Rightarrow>
           (case empty_root_node_hash (radix_of env) of
              Inl _ \<Rightarrow> Inl (Panic ''encode'')
            | Inr empty_root_hash \<Rightarrow>
                rbind (rs_record_root st empty_root_hash) (\<lambda>st'. Inr (empty_root_hash, st')))
       | Some root \<Rightarrow> Inr (root, st))"

definition rr_validate_and_set_current_root :: "in_mem_store \<Rightarrow> bytes \<Rightarrow> (root_error, in_mem_store) res" where
  "rr_validate_and_set_current_root st root =
     rbind (rs_validate_and_set_current_root st root) (\<lambda>(r, st').
       case r of Some _ \<Rightarrow> Inr st' | None \<Rightarrow> Inl (Err (UnknownRootError ''unknown root'')))"

subsection \<open>The reader\<close>

text \<open>A reader: the history of a root and the leaf store. Reads change only the caches of the history.\<close>

record rspace_history_reader =
  target_history :: radix_history
  leaf_store :: in_mem_store

definition fetch_data ::
  "('c, 'p, 'a, 'k) repo_env \<Rightarrow> in_mem_store \<Rightarrow> rspace_history_reader \<Rightarrow> byte \<Rightarrow> bytes \<Rightarrow>
   (history_error, persisted_data option) res" where
  "fetch_data env st rd pfx key =
     rbind (fst (history_read (radix_of env) st (prepend_bytes pfx key) (target_history rd))) (\<lambda>read_bytes.
       case read_bytes of
         Some bytes \<Rightarrow>
           rbind (map_err HistoryKvStoreError (kv_get_one inmem_get (leaf_store rd) bytes)) (\<lambda>opt.
           rbind (if opt = None
                  then map_err HistoryKvStoreError
                         (kv_get_one inmem_get (leaf_store rd) (ser_bytes (cenv env) bytes))
                  else Inr opt) (\<lambda>get_opt.
             case get_opt of
               Some store_value_bytes \<Rightarrow>
                 (case de_persisted (cenv env) store_value_bytes of
                    Some decoded \<Rightarrow> Inr (Some decoded)
                  | None \<Rightarrow> Inl (Err (ActionError ''RSpace History Reader Impl: Failed to deserialize persisted leaf'')))
             | None \<Rightarrow> Inr None))
       | None \<Rightarrow> Inr None)"

definition get_data_proj ::
  "('c, 'p, 'a, 'k) repo_env \<Rightarrow> in_mem_store \<Rightarrow> rspace_history_reader \<Rightarrow> bytes \<Rightarrow> (history_error, 'a datum list) res" where
  "get_data_proj env st rd key =
     rbind (fetch_data env st rd PREFIX_DATUM key) (\<lambda>r.
       case r of
         Some (Data bs) \<Rightarrow> decode_datums (cenv env) bs
       | Some _ \<Rightarrow> Inl (Panic ''Found unexpected leaf while looking for data'')
       | None \<Rightarrow> Inr [])"

definition get_continuations_proj ::
  "('c, 'p, 'a, 'k) repo_env \<Rightarrow> in_mem_store \<Rightarrow> rspace_history_reader \<Rightarrow> bytes \<Rightarrow>
   (history_error, ('p, 'k) waiting_continuation list) res" where
  "get_continuations_proj env st rd key =
     rbind (fetch_data env st rd PREFIX_KONT key) (\<lambda>r.
       case r of
         Some (Continuations bs) \<Rightarrow> decode_continuations (cenv env) bs
       | Some _ \<Rightarrow> Inl (Panic ''Found unexpected leaf while looking for continuations'')
       | None \<Rightarrow> Inr [])"

definition get_joins_proj ::
  "('c, 'p, 'a, 'k) repo_env \<Rightarrow> in_mem_store \<Rightarrow> rspace_history_reader \<Rightarrow> bytes \<Rightarrow> (history_error, 'c list list) res" where
  "get_joins_proj env st rd key =
     rbind (fetch_data env st rd PREFIX_JOINS key) (\<lambda>r.
       case r of
         Some (Joins bs) \<Rightarrow> decode_joins (cenv env) bs
       | Some _ \<Rightarrow> Inl (Panic ''Found unexpected leaf while looking for joins'')
       | None \<Rightarrow> Inr [])"

text \<open>The binary projections return the encoded elements of a leaf.\<close>

definition binary_leaf :: "('c, 'p, 'a, 'k) repo_env \<Rightarrow> bytes \<Rightarrow> (history_error, bytes list) res" where
  "binary_leaf env bs = expect ''RSpace History Reader Impl: Failed to deserialize'' (de_vec (cenv env) bs)"

definition get_data_proj_binary ::
  "('c, 'p, 'a, 'k) repo_env \<Rightarrow> in_mem_store \<Rightarrow> rspace_history_reader \<Rightarrow> bytes \<Rightarrow> (history_error, bytes list) res" where
  "get_data_proj_binary env st rd key =
     rbind (fetch_data env st rd PREFIX_DATUM key) (\<lambda>r.
       case r of
         Some (Data bs) \<Rightarrow> binary_leaf env bs
       | Some _ \<Rightarrow> Inl (Panic ''Found unexpected leaf while looking for data'')
       | None \<Rightarrow> Inr [])"

definition get_continuations_proj_binary ::
  "('c, 'p, 'a, 'k) repo_env \<Rightarrow> in_mem_store \<Rightarrow> rspace_history_reader \<Rightarrow> bytes \<Rightarrow> (history_error, bytes list) res" where
  "get_continuations_proj_binary env st rd key =
     rbind (fetch_data env st rd PREFIX_KONT key) (\<lambda>r.
       case r of
         Some (Continuations bs) \<Rightarrow> binary_leaf env bs
       | Some _ \<Rightarrow> Inl (Panic ''Found unexpected leaf while looking for continuations'')
       | None \<Rightarrow> Inr [])"

definition get_joins_proj_binary ::
  "('c, 'p, 'a, 'k) repo_env \<Rightarrow> in_mem_store \<Rightarrow> rspace_history_reader \<Rightarrow> bytes \<Rightarrow> (history_error, bytes list) res" where
  "get_joins_proj_binary env st rd key =
     rbind (fetch_data env st rd PREFIX_JOINS key) (\<lambda>r.
       case r of
         Some (Joins bs) \<Rightarrow> binary_leaf env bs
       | Some _ \<Rightarrow> Inl (Panic ''Found unexpected leaf while looking for joins'')
       | None \<Rightarrow> Inr [])"

text \<open>
  \<open>base\<close>: the reader a hot store uses. Its functions panic when the reader fails
  (\<open>expect\<close>); the record of the hot store has total functions, so a failure is the empty
  list here, and \<open>base_total\<close> below shows that the readers of a consistent repository do
  not fail.
\<close>

definition reader_base ::
  "('c, 'p, 'a, 'k) repo_env \<Rightarrow> in_mem_store \<Rightarrow> rspace_history_reader \<Rightarrow> ('c, 'p, 'a, 'k) history_reader" where
  "reader_base env st rd =
     \<lparr>hr_data = (\<lambda>c. case get_data_proj env st rd (hash_channel (henv env) c) of Inr d \<Rightarrow> d | Inl _ \<Rightarrow> []),
      hr_continuations = (\<lambda>cs. case get_continuations_proj env st rd (hash_from_vec (henv env) cs) of Inr ks \<Rightarrow> ks | Inl _ \<Rightarrow> []),
      hr_joins = (\<lambda>c. case get_joins_proj env st rd (hash_channel (henv env) c) of Inr js \<Rightarrow> js | Inl _ \<Rightarrow> [])\<rparr>"

subsection \<open>Actions on the trie\<close>

text \<open>\<open>HotStoreTrieAction\<close> of rspace++/src/rspace/hot_store_trie_action.rs.\<close>

datatype ('c, 'p, 'a, 'k) trie_action =
    TrieInsertProduce bytes "'a datum list"
  | TrieInsertJoins bytes "'c list list"
  | TrieInsertConsume bytes "('p, 'k) waiting_continuation list"
  | TrieInsertBinaryProduce bytes "bytes list"
  | TrieInsertBinaryJoins bytes "bytes list"
  | TrieInsertBinaryConsume bytes "bytes list"
  | TrieDeleteProduce bytes
  | TrieDeleteJoins bytes
  | TrieDeleteConsume bytes

type_synonym cold_action = "bytes \<times> persisted_data option"

fun transform ::
  "('c, 'p, 'a, 'k) repo_env \<Rightarrow> ('c, 'p, 'a, 'k) hot_store_action \<Rightarrow> ('c, 'p, 'a, 'k) trie_action" where
  "transform env (InsertData channel d) = TrieInsertProduce (hash_channel (henv env) channel) d"
| "transform env (InsertContinuations channels ks) = TrieInsertConsume (hash_from_vec (henv env) channels) ks"
| "transform env (InsertJoins channel js) = TrieInsertJoins (hash_channel (henv env) channel) js"
| "transform env (DeleteData channel) = TrieDeleteProduce (hash_channel (henv env) channel)"
| "transform env (DeleteContinuations channels) = TrieDeleteConsume (hash_from_vec (henv env) channels)"
| "transform env (DeleteJoins channel) = TrieDeleteJoins (hash_channel (henv env) channel)"

text \<open>
  A leaf is hashed as bincode writes the struct with its one field \<open>bytes\<close>, which is how bincode
  writes the field; the kind of the leaf is not part of the hash.
\<close>

definition leaf_hash :: "('c, 'p, 'a, 'k) repo_env \<Rightarrow> bytes \<Rightarrow> bytes" where
  "leaf_hash env bs = blake_new (cenv env) (ser_bytes (cenv env) bs)"

fun calculate_storage_actions ::
  "('c, 'p, 'a, 'k) repo_env \<Rightarrow> ('c, 'p, 'a, 'k) trie_action \<Rightarrow> cold_action \<times> history_action" where
  "calculate_storage_actions env (TrieInsertProduce h d) =
     (let data = encode_datums (cenv env) d; data_hash = leaf_hash env data
      in ((data_hash, Some (Data data)), InsertAction (prepend_bytes PREFIX_DATUM h) data_hash))"
| "calculate_storage_actions env (TrieInsertConsume h ks) =
     (let data = encode_continuations (cenv env) ks; conts_hash = leaf_hash env data
      in ((conts_hash, Some (Continuations data)), InsertAction (prepend_bytes PREFIX_KONT h) conts_hash))"
| "calculate_storage_actions env (TrieInsertJoins h js) =
     (let data = encode_joins (cenv env) js; joins_hash = leaf_hash env data
      in ((joins_hash, Some (Joins data)), InsertAction (prepend_bytes PREFIX_JOINS h) joins_hash))"
| "calculate_storage_actions env (TrieInsertBinaryProduce h d) =
     (let data = ser_vec (cenv env) (sort d); data_hash = leaf_hash env data
      in ((data_hash, Some (Data data)), InsertAction (prepend_bytes PREFIX_DATUM h) data_hash))"
| "calculate_storage_actions env (TrieInsertBinaryConsume h ks) =
     (let data = ser_vec (cenv env) (sort ks); conts_hash = leaf_hash env data
      in ((conts_hash, Some (Continuations data)), InsertAction (prepend_bytes PREFIX_KONT h) conts_hash))"
| "calculate_storage_actions env (TrieInsertBinaryJoins h js) =
     (let data = ser_vec (cenv env) (sort js); joins_hash = leaf_hash env data
      in ((joins_hash, Some (Joins data)), InsertAction (prepend_bytes PREFIX_JOINS h) joins_hash))"
| "calculate_storage_actions env (TrieDeleteProduce h) = ((h, None), DeleteAction (prepend_bytes PREFIX_DATUM h))"
| "calculate_storage_actions env (TrieDeleteConsume h) = ((h, None), DeleteAction (prepend_bytes PREFIX_KONT h))"
| "calculate_storage_actions env (TrieDeleteJoins h) = ((h, None), DeleteAction (prepend_bytes PREFIX_JOINS h))"

subsection \<open>The repository\<close>

record history_repository =
  current_history :: radix_history

definition unwrap :: "string \<Rightarrow> ('e, 'b) res \<Rightarrow> ('f, 'b) res" where
  "unwrap msg r = (case r of Inr x \<Rightarrow> Inr x | Inl (Panic m) \<Rightarrow> Inl (Panic m) | Inl (Err _) \<Rightarrow> Inl (Panic msg))"

lemma unwrap_simps [simp]: "unwrap msg (Inr x) = Inr x"
  by (simp add: unwrap_def)

definition do_checkpoint ::
  "('c, 'p, 'a, 'k) repo_env \<Rightarrow> ('c, 'p, 'a, 'k) trie_action list \<Rightarrow> history_repository \<Rightarrow> rspace_store \<Rightarrow>
   (rspace_error, history_repository \<times> rspace_store) res" where
  "do_checkpoint env trie_actions repo stores =
     (if trie_actions = [] then Inr (repo, stores)
      else
        let storage_actions = map (calculate_storage_actions env) trie_actions;
            cold_actions = List.map_filter (\<lambda>((key, maybe_data), _). map_option (\<lambda>d. (key, d)) maybe_data) storage_actions;
            history_actions = map snd storage_actions;
            serialized_cold_actions =
              map (\<lambda>(key, v). (ser_bytes (cenv env) key, ser_persisted (cenv env) v)) cold_actions
        in rbind (unwrap ''History Repository Impl: Failed to put if absent''
                    (kv_put_if_absent inmem_get inmem_put (cold_kv stores) serialized_cold_actions)) (\<lambda>cold'.
           case process (radix_of env) history_actions (history_kv stores) (current_history repo) of
             (r, _, history') \<Rightarrow>
               rbind (unwrap ''called unwrap on an Err value'' r) (\<lambda>new_history.
               rbind (unwrap ''History Repository Impl: Unable to store root''
                        (rr_commit (roots_kv stores) (history_root new_history))) (\<lambda>roots'.
                 Inr (\<lparr>current_history = new_history\<rparr>,
                      \<lparr>history_kv = history', roots_kv = roots', cold_kv = cold'\<rparr>)))))"

definition repo_checkpoint ::
  "('c, 'p, 'a, 'k) repo_env \<Rightarrow> ('c, 'p, 'a, 'k) hot_store_action list \<Rightarrow> history_repository \<Rightarrow> rspace_store \<Rightarrow>
   (rspace_error, history_repository \<times> rspace_store) res" where
  "repo_checkpoint env actions repo stores =
     (if actions = [] then Inr (repo, stores)
      else do_checkpoint env (map (transform env) actions) repo stores)"

definition repo_reset ::
  "('c, 'p, 'a, 'k) repo_env \<Rightarrow> bytes \<Rightarrow> history_repository \<Rightarrow> rspace_store \<Rightarrow>
   (history_error, history_repository \<times> rspace_store) res" where
  "repo_reset env root repo stores =
     rbind (map_err HistoryRootError (rr_validate_and_set_current_root (roots_kv stores) root)) (\<lambda>roots'.
     rbind (history_reset (radix_of env) (history_kv stores) root (current_history repo)) (\<lambda>nxt.
       Inr (\<lparr>current_history = nxt\<rparr>, stores\<lparr>roots_kv := roots'\<rparr>)))"

definition get_history_reader ::
  "('c, 'p, 'a, 'k) repo_env \<Rightarrow> bytes \<Rightarrow> history_repository \<Rightarrow> rspace_store \<Rightarrow> (history_error, rspace_history_reader) res" where
  "get_history_reader env state_hash repo stores =
     rbind (history_reset (radix_of env) (history_kv stores) state_hash (current_history repo)) (\<lambda>history_repo.
       Inr \<lparr>target_history = history_repo, leaf_store = cold_kv stores\<rparr>)"

definition repo_root :: "history_repository \<Rightarrow> bytes" where
  "repo_root repo = history_root (current_history repo)"

definition repo_record_root :: "bytes \<Rightarrow> rspace_store \<Rightarrow> (history_error, rspace_store) res" where
  "repo_record_root root stores =
     rbind (map_err HistoryRootError (rr_commit (roots_kv stores) root)) (\<lambda>roots'. Inr (stores\<lparr>roots_kv := roots'\<rparr>))"

definition lmdb_repository ::
  "('c, 'p, 'a, 'k) repo_env \<Rightarrow> rspace_store \<Rightarrow> (history_repository_error, history_repository \<times> rspace_store) res" where
  "lmdb_repository env stores =
     rbind (map_err RepositoryRootError (rr_current_root env (roots_kv stores))) (\<lambda>(current_root, roots').
     rbind (map_err RepositoryHistoryError (history_create (radix_of env) (history_kv stores) current_root)) (\<lambda>history.
       Inr (\<lparr>current_history = history\<rparr>, stores\<lparr>roots_kv := roots'\<rparr>)))"

subsection \<open>Roots that were recorded can be reset to\<close>

lemma rr_commit_ok:
  "\<exists>st'. rr_commit st root = Inr st' \<and> hm_get st' = (hm_get st)(root \<mapsto> ascii ''tag'', current_root_name \<mapsto> root)"
proof -
  obtain s1 where s1: "kv_put_one inmem_put st root (ascii ''tag'') = Inr s1" "hm_get s1 = (hm_get st)(root \<mapsto> ascii ''tag'')"
    using inmem.put_one_lookup by blast
  obtain s2 where "kv_put_one inmem_put s1 current_root_name root = Inr s2" "hm_get s2 = (hm_get s1)(current_root_name \<mapsto> root)"
    using inmem.put_one_lookup by blast
  with s1 show ?thesis by (auto simp: rr_commit_def rs_record_root_def fun_upd_def)
qed

lemma rr_validate_ok:
  "hm_get st root \<noteq> None \<Longrightarrow>
   \<exists>st'. rr_validate_and_set_current_root st root = Inr st' \<and> hm_get st' = (hm_get st)(current_root_name \<mapsto> root)"
  "hm_get st root = None \<Longrightarrow> rr_validate_and_set_current_root st root = Inl (Err (UnknownRootError ''unknown root''))"
  using inmem.put_one_lookup [of st current_root_name root]
  by (auto simp: rr_validate_and_set_current_root_def rs_validate_and_set_current_root_def inmem.get_one_lookup)

subsection \<open>Leaves\<close>

fun leaf_bytes :: "persisted_data \<Rightarrow> bytes" where
  "leaf_bytes (Joins bs) = bs"
| "leaf_bytes (Data bs) = bs"
| "leaf_bytes (Continuations bs) = bs"

fun leaf_kind :: "persisted_data \<Rightarrow> byte" where
  "leaf_kind (Joins _) = PREFIX_JOINS"
| "leaf_kind (Data _) = PREFIX_DATUM"
| "leaf_kind (Continuations _) = PREFIX_KONT"

definition lhash :: "('c, 'p, 'a, 'k) repo_env \<Rightarrow> persisted_data \<Rightarrow> bytes" where
  "lhash env d = leaf_hash env (leaf_bytes d)"

text \<open>A set of encoded leaves without hash collisions, and a cold store that holds only such leaves.\<close>

definition leaf_typed :: "('c, 'p, 'a, 'k) repo_env \<Rightarrow> persisted_data \<Rightarrow> bool" where
  "leaf_typed env d \<longleftrightarrow>
     (case d of
        Data bs \<Rightarrow> \<exists>ds. bs = encode_datums (cenv env) ds
      | Continuations bs \<Rightarrow> \<exists>ks. bs = encode_continuations (cenv env) ks
      | Joins bs \<Rightarrow> \<exists>js. bs = encode_joins (cenv env) js)"

definition leaf_universe :: "('c, 'p, 'a, 'k) repo_env \<Rightarrow> persisted_data set \<Rightarrow> bool" where
  "leaf_universe env L \<longleftrightarrow> inj_on (lhash env) L \<and> (\<forall>d \<in> L. leaf_typed env d)"

definition cold_ok :: "('c, 'p, 'a, 'k) repo_env \<Rightarrow> persisted_data set \<Rightarrow> in_mem_store \<Rightarrow> bool" where
  "cold_ok env L cold \<longleftrightarrow> (\<forall>k v. hm_get cold k = Some v \<longrightarrow>
     (\<exists>d \<in> L. k = ser_bytes (cenv env) (lhash env d) \<and> v = ser_persisted (cenv env) d))"

definition has_leaf :: "('c, 'p, 'a, 'k) repo_env \<Rightarrow> in_mem_store \<Rightarrow> persisted_data \<Rightarrow> bool" where
  "has_leaf env cold d \<longleftrightarrow> hm_get cold (ser_bytes (cenv env) (lhash env d)) = Some (ser_persisted (cenv env) d)"

definition content_ok ::
  "('c, 'p, 'a, 'k) repo_env \<Rightarrow> persisted_data set \<Rightarrow> in_mem_store \<Rightarrow> (bytes \<rightharpoonup> bytes) \<Rightarrow> bool" where
  "content_ok env L cold m \<longleftrightarrow> (\<forall>k h. m k = Some h \<longrightarrow>
     (\<exists>d \<in> L. h = lhash env d \<and> has_leaf env cold d \<and> k \<noteq> [] \<and> leaf_kind d = hd k))"

definition env_good :: "('c, 'p, 'a, 'k) repo_env \<Rightarrow> bool" where
  "env_good env \<longleftrightarrow> codec_ok (cenv env) \<and> env_ok (radix_of env)"

text \<open>What a key of the trie leads to.\<close>

definition leaf_at :: "('c, 'p, 'a, 'k) repo_env \<Rightarrow> in_mem_store \<Rightarrow> (bytes \<rightharpoonup> bytes) \<Rightarrow> bytes \<Rightarrow> persisted_data option" where
  "leaf_at env cold m k =
     (case m k of None \<Rightarrow> None
      | Some h \<Rightarrow> Option.bind (hm_get cold (ser_bytes (cenv env) h)) (de_persisted (cenv env)))"

lemma leaf_hash_length: "env_good env \<Longrightarrow> length (lhash env d) = DEF_SIZE"
  by (simp add: env_good_def env_ok_def radix_of_def lhash_def leaf_hash_def)

lemma cold_raw_key:
  assumes "env_good env" "cold_ok env L cold" "length h = DEF_SIZE"
  shows "hm_get cold h = None"
proof (cases "hm_get cold h")
  case (Some v)
  then obtain d where "h = ser_bytes (cenv env) (lhash env d)"
    using assms(2) by (auto simp: cold_ok_def)
  then have "length h = 8 + DEF_SIZE"
    using assms(1) leaf_hash_length [OF assms(1)] by (simp add: env_good_def codec_ok_def)
  with assms(3) show ?thesis by simp
qed

lemma fetch_data_ok:
  assumes "env_good env" "cold_ok env L (leaf_store rd)" "content_ok env L (leaf_store rd) (root_get ts)"
    "history_ok (radix_of env) U st n ts (target_history rd)"
  shows "fetch_data env st rd pfx key = Inr (leaf_at env (leaf_store rd) (root_get ts) (pfx # key))"
proof (cases "root_get ts (pfx # key)")
  case None
  then show ?thesis
    by (simp add: fetch_data_def prepend_bytes_def read_content [OF assms(4)] leaf_at_def)
next
  case (Some h)
  then obtain d where d: "h = lhash env d" "has_leaf env (leaf_store rd) d"
    using assms(3) [unfolded content_ok_def, rule_format, OF Some] by blast
  have "hm_get (leaf_store rd) h = None"
    using cold_raw_key [OF assms(1,2)] leaf_hash_length [OF assms(1)] d(1) by simp
  moreover have "de_persisted (cenv env) (ser_persisted (cenv env) d) = Some d"
    using assms(1) by (simp add: env_good_def codec_ok_def)
  ultimately show ?thesis
    using Some d by (simp add: fetch_data_def prepend_bytes_def read_content [OF assms(4)] leaf_at_def
        inmem.get_one_lookup has_leaf_def)
qed

lemma put_leaves:
  assumes "env_good env" "leaf_universe env L" "cold_ok env L cold" "\<forall>(h, d) \<in> set kds. d \<in> L \<and> h = lhash env d"
  shows "\<exists>cold'. kv_put_if_absent inmem_get inmem_put cold
      (map (\<lambda>(key, v). (ser_bytes (cenv env) key, ser_persisted (cenv env) v)) kds) = Inr cold'
    \<and> cold_ok env L cold' \<and> store_le cold cold' \<and> (\<forall>(h, d) \<in> set kds. has_leaf env cold' d)"
proof -
  let ?kvs = "map (\<lambda>(key, v). (ser_bytes (cenv env) key, ser_persisted (cenv env) v)) kds"
  let ?new = "filter (\<lambda>kv. hm_get cold (fst kv) = None) ?kvs"
  obtain cold' where "inmem_put cold ?new = Inr cold'" and get: "hm_get cold' = hm_get cold ++ map_of (rev ?new)"
    using inmem.put_lookup by blast
  then have put: "kv_put_if_absent inmem_get inmem_put cold ?kvs = Inr cold'"
    by (simp add: inmem.put_if_absent_put)
  note c = put get
  have inj: "d = d'" if "d \<in> L" "d' \<in> L" "ser_bytes (cenv env) (lhash env d) = ser_bytes (cenv env) (lhash env d')" for d d'
    using that assms(1,2) by (auto simp: env_good_def codec_ok_def leaf_universe_def dest: injD inj_onD)
  have new: "\<exists>d \<in> L. k = ser_bytes (cenv env) (lhash env d) \<and> v = ser_persisted (cenv env) d \<and> hm_get cold k = None"
    if "map_of (rev ?new) k = Some v" for k v
    using map_of_SomeD [OF that] assms(4) by auto
  have le: "store_le cold cold'"
    unfolding store_le_def
  proof (intro allI impI)
    fix k v assume k: "hm_get cold k = Some v"
    then have "map_of (rev ?new) k = None"
      using new [of k] by (cases "map_of (rev ?new) k") auto
    with k show "hm_get cold' k = Some v" by (simp add: c(2) map_add_def)
  qed
  have ok: "cold_ok env L cold'"
    unfolding cold_ok_def
  proof (intro allI impI)
    fix k v assume "hm_get cold' k = Some v"
    then have "map_of (rev ?new) k = Some v \<or> hm_get cold k = Some v"
      by (auto simp: c(2) map_add_Some_iff)
    then show "\<exists>d \<in> L. k = ser_bytes (cenv env) (lhash env d) \<and> v = ser_persisted (cenv env) d"
      using new [of k v] assms(3) by (auto simp: cold_ok_def)
  qed
  have "has_leaf env cold' d" if d: "(h, d) \<in> set kds" for h d
  proof -
    let ?k = "ser_bytes (cenv env) (lhash env d)"
    have dL: "d \<in> L" and h: "h = lhash env d"
      using assms(4) d by auto
    have "\<exists>v. hm_get cold' ?k = Some v"
    proof (cases "hm_get cold ?k")
      case None
      then have "(?k, ser_persisted (cenv env) d) \<in> set (rev ?new)"
        using d h by force
      then have "?k \<in> fst ` set (rev ?new)"
        by (rule image_eqI [rotated]) simp
      then have "map_of (rev ?new) ?k \<noteq> None"
        unfolding map_of_eq_None_iff by blast
      then show ?thesis by (auto simp: c(2) map_add_def split: option.splits)
    next
      case (Some v)
      with le show ?thesis by (auto simp: store_le_def)
    qed
    then obtain v where v: "hm_get cold' ?k = Some v" by blast
    from ok [unfolded cold_ok_def, rule_format, OF v] obtain d' where
      "d' \<in> L" "?k = ser_bytes (cenv env) (lhash env d')" "v = ser_persisted (cenv env) d'"
      by blast
    with inj [OF dL] v show ?thesis by (auto simp: has_leaf_def)
  qed
  with c(1) ok le show ?thesis by blast
qed

subsection \<open>A checkpoint updates the leaves\<close>

definition trie_step ::
  "('c, 'p, 'a, 'k) repo_env \<Rightarrow> (bytes \<rightharpoonup> persisted_data) \<Rightarrow> ('c, 'p, 'a, 'k) trie_action \<Rightarrow> (bytes \<rightharpoonup> persisted_data)" where
  "trie_step env m a =
     (case calculate_storage_actions env a of ((_, leaf), act) \<Rightarrow> m(action_key act := leaf))"

definition trie_action_ok :: "('c, 'p, 'a, 'k) repo_env \<Rightarrow> persisted_data set \<Rightarrow> ('c, 'p, 'a, 'k) trie_action \<Rightarrow> bool" where
  "trie_action_ok env L a \<longleftrightarrow>
     (case calculate_storage_actions env a of ((_, leaf), act) \<Rightarrow>
        length (action_key act) = 33 \<and> (\<forall>d. leaf = Some d \<longrightarrow> d \<in> L))"

definition trie_actions_key :: "('c, 'p, 'a, 'k) repo_env \<Rightarrow> ('c, 'p, 'a, 'k) trie_action \<Rightarrow> bytes" where
  "trie_actions_key env a = action_key (snd (calculate_storage_actions env a))"

text \<open>What the storage actions of a trie action are: an insertion under the hash of its leaf, or a deletion.\<close>

lemma storage_action_cases:
  obtains (ins) d k where "calculate_storage_actions env a = ((lhash env d, Some d), InsertAction k (lhash env d))"
      "k \<noteq> []" "leaf_kind d = hd k"
  | (del) h k where "calculate_storage_actions env a = ((h, None), DeleteAction k)" "k \<noteq> []"
proof (cases a)
  case (TrieInsertProduce h d)
  then show ?thesis
    by (intro ins [of "Data (encode_datums (cenv env) d)" "PREFIX_DATUM # h"]) (simp_all add: lhash_def Let_def prepend_bytes_def)
next
  case (TrieInsertConsume h d)
  then show ?thesis
    by (intro ins [of "Continuations (encode_continuations (cenv env) d)" "PREFIX_KONT # h"])
      (simp_all add: lhash_def Let_def prepend_bytes_def)
next
  case (TrieInsertJoins h d)
  then show ?thesis
    by (intro ins [of "Joins (encode_joins (cenv env) d)" "PREFIX_JOINS # h"]) (simp_all add: lhash_def Let_def prepend_bytes_def)
next
  case (TrieInsertBinaryProduce h d)
  then show ?thesis
    by (intro ins [of "Data (ser_vec (cenv env) (sort d))" "PREFIX_DATUM # h"]) (simp_all add: lhash_def Let_def prepend_bytes_def)
next
  case (TrieInsertBinaryConsume h d)
  then show ?thesis
    by (intro ins [of "Continuations (ser_vec (cenv env) (sort d))" "PREFIX_KONT # h"])
      (simp_all add: lhash_def Let_def prepend_bytes_def)
next
  case (TrieInsertBinaryJoins h d)
  then show ?thesis
    by (intro ins [of "Joins (ser_vec (cenv env) (sort d))" "PREFIX_JOINS # h"]) (simp_all add: lhash_def Let_def prepend_bytes_def)
next
  case (TrieDeleteProduce h)
  then show ?thesis
    by (intro del [of h "PREFIX_DATUM # h"]) (simp_all add: prepend_bytes_def)
next
  case (TrieDeleteConsume h)
  then show ?thesis
    by (intro del [of h "PREFIX_KONT # h"]) (simp_all add: prepend_bytes_def)
next
  case (TrieDeleteJoins h)
  then show ?thesis
    by (intro del [of h "PREFIX_JOINS # h"]) (simp_all add: prepend_bytes_def)
qed

lemma content_step:
  assumes "env_good env" "content_ok env L cold m" "trie_action_ok env L a"
    "\<forall>d. snd (fst (calculate_storage_actions env a)) = Some d \<longrightarrow> has_leaf env cold d"
  shows "content_ok env L cold (act_map m (snd (calculate_storage_actions env a)))
    \<and> leaf_at env cold (act_map m (snd (calculate_storage_actions env a))) = trie_step env (leaf_at env cold m) a"
proof (cases rule: storage_action_cases [of env a])
  case (ins d k)
  then have d: "d \<in> L" "has_leaf env cold d"
    using assms(3,4) by (auto simp: trie_action_ok_def)
  have "de_persisted (cenv env) (ser_persisted (cenv env) d) = Some d"
    using assms(1) by (simp add: env_good_def codec_ok_def)
  then have "leaf_at env cold (m(k \<mapsto> lhash env d)) = (leaf_at env cold m)(k \<mapsto> d)"
    using d by (auto simp: leaf_at_def has_leaf_def fun_eq_iff)
  moreover have "content_ok env L cold (m(k \<mapsto> lhash env d))"
    using assms(2) d ins(2,3) by (auto simp: content_ok_def)
  ultimately show ?thesis
    using ins(1) by (simp add: trie_step_def)
next
  case (del h k)
  have "leaf_at env cold (m(k := None)) = (leaf_at env cold m)(k := None)"
    by (auto simp: leaf_at_def fun_eq_iff)
  moreover have "content_ok env L cold (m(k := None))"
    using assms(2) by (auto simp: content_ok_def)
  ultimately show ?thesis
    using del(1) by (simp add: trie_step_def)
qed

lemma content_steps:
  assumes "env_good env"
  shows "content_ok env L cold m \<Longrightarrow> list_all (trie_action_ok env L) as \<Longrightarrow>
    \<forall>a \<in> set as. \<forall>d. snd (fst (calculate_storage_actions env a)) = Some d \<longrightarrow> has_leaf env cold d \<Longrightarrow>
    content_ok env L cold (foldl act_map m (map (snd \<circ> calculate_storage_actions env) as))
    \<and> leaf_at env cold (foldl act_map m (map (snd \<circ> calculate_storage_actions env) as)) =
      foldl (trie_step env) (leaf_at env cold m) as"
proof (induction as arbitrary: m)
  case (Cons a as)
  have step: "content_ok env L cold (act_map m (snd (calculate_storage_actions env a)))"
    "leaf_at env cold (act_map m (snd (calculate_storage_actions env a))) = trie_step env (leaf_at env cold m) a"
    using content_step [OF assms Cons.prems(1), of a] Cons.prems(2,3) by auto
  show ?case
    using Cons.IH [OF step(1)] Cons.prems(2,3) step(2) by simp
qed simp

lemma content_mono:
  assumes "store_le cold cold'" "content_ok env L cold m"
  shows "content_ok env L cold' m \<and> leaf_at env cold' m = leaf_at env cold m"
proof -
  have "leaf_at env cold' m k = leaf_at env cold m k" for k
  proof (cases "m k")
    case (Some h)
    then obtain d where "h = lhash env d" "has_leaf env cold d"
      using assms(2) [unfolded content_ok_def, rule_format, OF Some] by blast
    with Some assms(1) show ?thesis by (simp add: leaf_at_def has_leaf_def store_le_def)
  qed (simp add: leaf_at_def)
  moreover have "content_ok env L cold' m"
    unfolding content_ok_def
  proof (intro allI impI)
    fix k h assume k: "m k = Some h"
    from assms(2) [unfolded content_ok_def, rule_format, OF k] obtain d where
      "d \<in> L" "h = lhash env d" "has_leaf env cold d" "k \<noteq> []" "leaf_kind d = hd k"
      by blast
    with assms(1) show "\<exists>d \<in> L. h = lhash env d \<and> has_leaf env cold' d \<and> k \<noteq> [] \<and> leaf_kind d = hd k"
      by (intro bexI [of _ d]) (simp_all add: has_leaf_def store_le_def)
  qed
  ultimately show ?thesis by auto
qed

definition repo_ok ::
  "('c, 'p, 'a, 'k) repo_env \<Rightarrow> node set \<Rightarrow> persisted_data set \<Rightarrow> itree list \<Rightarrow> history_repository \<Rightarrow> rspace_store \<Rightarrow> bool" where
  "repo_ok env U L ts repo stores \<longleftrightarrow> env_good env
     \<and> history_ok (radix_of env) U (history_kv stores) 32 ts (current_history repo)
     \<and> leaf_universe env L \<and> cold_ok env L (cold_kv stores) \<and> content_ok env L (cold_kv stores) (root_get ts)"

definition storage :: "('c, 'p, 'a, 'k) repo_env \<Rightarrow> ('c, 'p, 'a, 'k) trie_action list \<Rightarrow> history_action list" where
  "storage env as = map (snd \<circ> calculate_storage_actions env) as"

lemma trie_actions_act_ok:
  assumes "env_good env" "list_all (trie_action_ok env L) as"
  shows "list_all (act_ok (Suc 32)) (storage env as)"
proof -
  have "act_ok (Suc 32) (snd (calculate_storage_actions env a))" if "trie_action_ok env L a" for a
    using that leaf_hash_length [OF assms(1)]
    by (cases rule: storage_action_cases [of env a]) (auto simp: trie_action_ok_def)
  with assms(2) show ?thesis by (auto simp: list_all_iff storage_def)
qed

definition cold_leaves ::
  "('c, 'p, 'a, 'k) repo_env \<Rightarrow> ('c, 'p, 'a, 'k) trie_action list \<Rightarrow> (bytes \<times> persisted_data) list" where
  "cold_leaves env as = List.map_filter (\<lambda>((key, maybe_data), _). map_option (Pair key) maybe_data)
     (map (calculate_storage_actions env) as)"

lemma cold_leaves_iff: "(h, d) \<in> set (cold_leaves env as) \<longleftrightarrow> (\<exists>a \<in> set as. fst (calculate_storage_actions env a) = (h, Some d))"
proof (induction as)
  case (Cons a as)
  obtain k m act where "calculate_storage_actions env a = ((k, m), act)" by (metis surj_pair)
  with Cons show ?case by (cases m) (auto simp: cold_leaves_def map_filter_simps)
qed (simp add: cold_leaves_def map_filter_simps)

lemma cold_leaf:
  assumes "list_all (trie_action_ok env L) as" "a \<in> set as" "fst (calculate_storage_actions env a) = (h, Some d)"
  shows "d \<in> L" "h = lhash env d"
  using assms by (cases rule: storage_action_cases [of env a]; fastforce simp: trie_action_ok_def list_all_iff)+

lemma cold_actions_leaves:
  assumes "list_all (trie_action_ok env L) as"
  shows "\<forall>(h, d) \<in> set (cold_leaves env as). d \<in> L \<and> h = lhash env d"
    and "\<forall>a \<in> set as. \<forall>d. snd (fst (calculate_storage_actions env a)) = Some d \<longrightarrow> (lhash env d, d) \<in> set (cold_leaves env as)"
proof -
  show "\<forall>(h, d) \<in> set (cold_leaves env as). d \<in> L \<and> h = lhash env d"
  proof (rule ballI, rule case_prodI2)
    fix p h d assume "p \<in> set (cold_leaves env as)" "p = (h, d)"
    then show "d \<in> L \<and> h = lhash env d"
      using cold_leaf [OF assms] by (simp add: cold_leaves_iff) blast
  qed
  show "\<forall>a \<in> set as. \<forall>d. snd (fst (calculate_storage_actions env a)) = Some d \<longrightarrow> (lhash env d, d) \<in> set (cold_leaves env as)"
  proof (intro ballI allI impI)
    fix a d assume a: "a \<in> set as" "snd (fst (calculate_storage_actions env a)) = Some d"
    then have "fst (calculate_storage_actions env a) = (fst (fst (calculate_storage_actions env a)), Some d)"
      by (metis prod.collapse)
    with cold_leaf(2) [OF assms a(1) this] a(1) show "(lhash env d, d) \<in> set (cold_leaves env as)"
      by (auto simp: cold_leaves_iff)
  qed
qed

lemma do_checkpoint_ok:
  assumes ok: "repo_ok env U L ts repo stores" and as: "list_all (trie_action_ok env L) as"
    "distinct (map (trie_actions_key env) as)" and new: "root_nodes (radix_of env) (foldl root_act ts (storage env as)) \<subseteq> U"
  shows "\<exists>repo' stores'. do_checkpoint env as repo stores = Inr (repo', stores')
    \<and> repo_ok env U L (foldl root_act ts (storage env as)) repo' stores'
    \<and> leaf_at env (cold_kv stores') (root_get (foldl root_act ts (storage env as))) =
        foldl (trie_step env) (leaf_at env (cold_kv stores) (root_get ts)) as
    \<and> store_le (history_kv stores) (history_kv stores') \<and> store_le (cold_kv stores) (cold_kv stores')
    \<and> (\<forall>r. hm_get (roots_kv stores) r \<noteq> None \<longrightarrow> hm_get (roots_kv stores') r \<noteq> None)
    \<and> (as \<noteq> [] \<longrightarrow> hm_get (roots_kv stores') (repo_root repo') \<noteq> None
         \<and> hm_get (roots_kv stores') current_root_name = Some (repo_root repo'))"
proof (cases "as = []")
  case True
  with ok show ?thesis by (simp add: do_checkpoint_def storage_def)
next
  case False
  let ?us = "foldl root_act ts (storage env as)"
  let ?kds = "cold_leaves env as"
  have r: "env_good env" "history_ok (radix_of env) U (history_kv stores) 32 ts (current_history repo)" "leaf_universe env L"
    "cold_ok env L (cold_kv stores)" "content_ok env L (cold_kv stores) (root_get ts)"
    using ok by (auto simp: repo_ok_def)
  obtain cold' where cold': "kv_put_if_absent inmem_get inmem_put (cold_kv stores)
      (map (\<lambda>(key, v). (ser_bytes (cenv env) key, ser_persisted (cenv env) v)) ?kds) = Inr cold'"
    "cold_ok env L cold'" "store_le (cold_kv stores) cold'" "\<forall>(h, d) \<in> set ?kds. has_leaf env cold' d"
    using put_leaves [OF r(1,3,4) cold_actions_leaves(1) [OF as(1)]] by blast
  note acts = trie_actions_act_ok [OF r(1) as(1)]
  have "distinct (map action_key (storage env as))"
    using as(2) by (simp add: storage_def trie_actions_key_def [abs_def] o_def)
  then obtain h' self st' where p: "process (radix_of env) (storage env as) (history_kv stores) (current_history repo) = (Inr h', self, st')"
    "store_le (history_kv stores) st'" "history_ok (radix_of env) U st' 32 ?us h'"
    using process_ok [OF r(2) acts _ new] by blast
  obtain roots' where roots': "rr_commit (roots_kv stores) (history_root h') = Inr roots'"
    "hm_get roots' = (hm_get (roots_kv stores))(history_root h' \<mapsto> ascii ''tag'', current_root_name \<mapsto> history_root h')"
    using rr_commit_ok by blast
  have leaves: "\<forall>a \<in> set as. \<forall>d. snd (fst (calculate_storage_actions env a)) = Some d \<longrightarrow> has_leaf env cold' d"
    using cold_actions_leaves(2) [OF as(1)] cold'(4) by blast
  note mono = content_mono [OF cold'(3) r(5)]
  have "root_ok 32 ts"
    using r(2) by (simp add: history_ok_def openable_def)
  then have get: "root_get ?us = foldl act_map (root_get ts) (storage env as)"
    by (rule root_get_acts [OF _ acts])
  note steps = content_steps [OF r(1) conjunct1 [OF mono] as(1) leaves, folded storage_def, folded get]
  show ?thesis
    using False p cold' roots' r steps mono
    by (auto simp: do_checkpoint_def cold_leaves_def [symmetric] o_def repo_ok_def repo_root_def
        storage_def [unfolded o_def, symmetric])
qed

subsection \<open>Reading a root\<close>

text \<open>A root that can be opened: its tree is in the history store and its leaves are in the cold store.\<close>

definition root_holds ::
  "('c, 'p, 'a, 'k) repo_env \<Rightarrow> node set \<Rightarrow> persisted_data set \<Rightarrow> rspace_store \<Rightarrow> itree list \<Rightarrow> bool" where
  "root_holds env U L stores ts \<longleftrightarrow>
     openable (radix_of env) U (history_kv stores) 32 ts \<and> content_ok env L (cold_kv stores) (root_get ts)"

definition tree_root :: "('c, 'p, 'a, 'k) repo_env \<Rightarrow> itree list \<Rightarrow> bytes" where
  "tree_root env ts = nhash (radix_of env) (map (conc (radix_of env)) ts)"

definition root_leaves :: "('c, 'p, 'a, 'k) repo_env \<Rightarrow> rspace_store \<Rightarrow> itree list \<Rightarrow> bytes \<Rightarrow> persisted_data option" where
  "root_leaves env stores ts = leaf_at env (cold_kv stores) (root_get ts)"

lemma repo_ok_holds: "repo_ok env U L ts repo stores \<Longrightarrow> root_holds env U L stores ts"
  by (simp add: repo_ok_def root_holds_def history_ok_def)

lemma repo_ok_root: "repo_ok env U L ts repo stores \<Longrightarrow> repo_root repo = tree_root env ts"
  by (simp add: repo_ok_def repo_root_def tree_root_def history_ok_def history_root_def)

lemma root_holds_mono:
  assumes "store_le (history_kv stores) (history_kv stores')" "store_le (cold_kv stores) (cold_kv stores')"
    "root_holds env U L stores ts"
  shows "root_holds env U L stores' ts \<and> root_leaves env stores' ts = root_leaves env stores ts"
  using openable_mono [OF assms(1), of "radix_of env" U 32 ts] content_mono [OF assms(2), of env L "root_get ts"] assms(3)
  by (simp add: root_holds_def root_leaves_def)

lemma get_history_reader_ok:
  assumes "repo_ok env U L ts repo stores" "root_holds env U L stores vs"
  shows "\<exists>rd. get_history_reader env (tree_root env vs) any stores = Inr rd
    \<and> (\<forall>pfx key. fetch_data env (history_kv stores) rd pfx key = Inr (root_leaves env stores vs (pfx # key)))"
proof -
  have st: "store_ok (radix_of env) U (history_kv stores)" "openable (radix_of env) U (history_kv stores) 32 vs"
    and ok: "env_good env" "cold_ok env L (cold_kv stores)" "content_ok env L (cold_kv stores) (root_get vs)"
    using assms by (auto simp: repo_ok_def history_ok_def root_holds_def)
  obtain h where h: "history_reset (radix_of env) (history_kv stores) (tree_root env vs) (current_history any) = Inr h"
    "history_ok (radix_of env) U (history_kv stores) 32 vs h"
    using history_reset_ok [OF st] unfolding tree_root_def by blast
  then show ?thesis
    using fetch_data_ok [of env L "\<lparr>target_history = h, leaf_store = cold_kv stores\<rparr>" vs U "history_kv stores" 32] ok
    by (simp add: get_history_reader_def root_leaves_def)
qed

text \<open>The leaves under a key with the prefix of a kind are encoded lists of that kind.\<close>

lemma root_leaf_typed:
  assumes "repo_ok env U L ts repo stores" "root_holds env U L stores vs" "root_leaves env stores vs (b # k) = Some d"
  shows "leaf_typed env d \<and> leaf_kind d = b"
proof -
  have good: "codec_ok (cenv env)" "content_ok env L (cold_kv stores) (root_get vs)" "\<forall>d \<in> L. leaf_typed env d"
    using assms(1,2) by (auto simp: repo_ok_def env_good_def root_holds_def leaf_universe_def)
  obtain h where h: "root_get vs (b # k) = Some h"
    using assms(3) by (auto simp: root_leaves_def leaf_at_def split: option.splits)
  obtain e where e: "e \<in> L" "h = lhash env e" "has_leaf env (cold_kv stores) e" "leaf_kind e = hd (b # k)"
    using good(2) [unfolded content_ok_def, rule_format, OF h] by blast
  then have "d = e"
    using assms(3) h good(1) by (simp add: root_leaves_def leaf_at_def has_leaf_def codec_ok_def)
  with e good(3) show ?thesis by simp
qed

lemma leaf_kinds:
  "leaf_typed env d \<Longrightarrow> leaf_kind d = PREFIX_DATUM \<Longrightarrow> \<exists>ds. d = Data (encode_datums (cenv env) ds)"
  "leaf_typed env d \<Longrightarrow> leaf_kind d = PREFIX_KONT \<Longrightarrow> \<exists>ks. d = Continuations (encode_continuations (cenv env) ks)"
  "leaf_typed env d \<Longrightarrow> leaf_kind d = PREFIX_JOINS \<Longrightarrow> \<exists>js. d = Joins (encode_joins (cenv env) js)"
  by (cases d; simp add: leaf_typed_def PREFIX_DATUM_def PREFIX_KONT_def PREFIX_JOINS_def)+

text \<open>What a reader returns for a leaf.\<close>

definition data_of :: "('c, 'p, 'a, 'k) repo_env \<Rightarrow> persisted_data option \<Rightarrow> 'a datum list" where
  "data_of env l = (case l of None \<Rightarrow> [] | Some d \<Rightarrow> (case decode_datums (cenv env) (leaf_bytes d) of
     Inr ds \<Rightarrow> ds | Inl (_ :: history_error fault) \<Rightarrow> []))"

definition conts_of :: "('c, 'p, 'a, 'k) repo_env \<Rightarrow> persisted_data option \<Rightarrow> ('p, 'k) waiting_continuation list" where
  "conts_of env l = (case l of None \<Rightarrow> [] | Some d \<Rightarrow> (case decode_continuations (cenv env) (leaf_bytes d) of
     Inr ks \<Rightarrow> ks | Inl (_ :: history_error fault) \<Rightarrow> []))"

definition joins_of :: "('c, 'p, 'a, 'k) repo_env \<Rightarrow> persisted_data option \<Rightarrow> 'c list list" where
  "joins_of env l = (case l of None \<Rightarrow> [] | Some d \<Rightarrow> (case decode_joins (cenv env) (leaf_bytes d) of
     Inr js \<Rightarrow> js | Inl (_ :: history_error fault) \<Rightarrow> []))"

lemma of_encoded [simp]:
  assumes "codec_ok (cenv env)"
  shows "data_of env (Some (Data (encode_datums (cenv env) ds))) = sort_key (ser_datum_rec (cenv env)) ds"
    and "conts_of env (Some (Continuations (encode_continuations (cenv env) ks))) = sort_key (ser_wk (cenv env)) ks"
    and "joins_of env (Some (Joins (encode_joins (cenv env) js))) = sort_key (ser_join (cenv env)) js"
    and "data_of env None = []" "conts_of env None = []" "joins_of env None = []"
  by (simp_all add: data_of_def conts_of_def joins_of_def decode_encode [OF assms])

lemma reader_total:
  assumes "repo_ok env U L ts repo stores" "root_holds env U L stores vs"
    "\<forall>pfx key. fetch_data env (history_kv stores) rd pfx key = Inr (root_leaves env stores vs (pfx # key))"
  shows "get_data_proj env (history_kv stores) rd key = Inr (data_of env (root_leaves env stores vs (PREFIX_DATUM # key)))"
    and "get_continuations_proj env (history_kv stores) rd key = Inr (conts_of env (root_leaves env stores vs (PREFIX_KONT # key)))"
    and "get_joins_proj env (history_kv stores) rd key = Inr (joins_of env (root_leaves env stores vs (PREFIX_JOINS # key)))"
proof -
  have ok: "codec_ok (cenv env)"
    using assms(1) by (simp add: repo_ok_def env_good_def)
  note typed = root_leaf_typed [OF assms(1,2)] and dec = decode_encode [OF ok]
  show "get_data_proj env (history_kv stores) rd key = Inr (data_of env (root_leaves env stores vs (PREFIX_DATUM # key)))"
    using typed [of PREFIX_DATUM key] leaf_kinds(1)
    by (cases "root_leaves env stores vs (PREFIX_DATUM # key)") (fastforce simp: get_data_proj_def assms(3) ok dec)+
  show "get_continuations_proj env (history_kv stores) rd key = Inr (conts_of env (root_leaves env stores vs (PREFIX_KONT # key)))"
    using typed [of PREFIX_KONT key] leaf_kinds(2)
    by (cases "root_leaves env stores vs (PREFIX_KONT # key)") (fastforce simp: get_continuations_proj_def assms(3) ok dec)+
  show "get_joins_proj env (history_kv stores) rd key = Inr (joins_of env (root_leaves env stores vs (PREFIX_JOINS # key)))"
    using typed [of PREFIX_JOINS key] leaf_kinds(3)
    by (cases "root_leaves env stores vs (PREFIX_JOINS # key)") (fastforce simp: get_joins_proj_def assms(3) ok dec)+
qed

subsection \<open>A checkpoint of a hot store\<close>

lemma trie_fold_new:
  "distinct (map (trie_actions_key env) as) \<Longrightarrow> a \<in> set as \<Longrightarrow>
   foldl (trie_step env) m as (trie_actions_key env a) = snd (fst (calculate_storage_actions env a))"
  and trie_fold_old: "k \<notin> trie_actions_key env ` set as \<Longrightarrow> foldl (trie_step env) m as k = m k"
proof -
  have step: "trie_step env m a = m(trie_actions_key env a := snd (fst (calculate_storage_actions env a)))" for m a
    by (simp add: trie_step_def trie_actions_key_def case_prod_unfold)
  show old: "k \<notin> trie_actions_key env ` set as \<Longrightarrow> foldl (trie_step env) m as k = m k" for k as m
    by (induction as arbitrary: m) (auto simp: step)
  show "distinct (map (trie_actions_key env) as) \<Longrightarrow> a \<in> set as \<Longrightarrow>
      foldl (trie_step env) m as (trie_actions_key env a) = snd (fst (calculate_storage_actions env a))"
    by (induction as arbitrary: m) (auto simp: step old)
qed

definition new_leaves :: "('c, 'p, 'a, 'k) repo_env \<Rightarrow> ('c, 'p, 'a, 'k) hot_store_action list \<Rightarrow> persisted_data set" where
  "new_leaves env actions =
     {d. \<exists>a \<in> set actions. snd (fst (calculate_storage_actions env (transform env a))) = Some d}"

lemma transform_keys:
  "trie_actions_key env (transform env (InsertData c d)) = PREFIX_DATUM # hash_channel (henv env) c"
  "trie_actions_key env (transform env (DeleteData c)) = PREFIX_DATUM # hash_channel (henv env) c"
  "trie_actions_key env (transform env (InsertJoins c js)) = PREFIX_JOINS # hash_channel (henv env) c"
  "trie_actions_key env (transform env (DeleteJoins c)) = PREFIX_JOINS # hash_channel (henv env) c"
  "trie_actions_key env (transform env (InsertContinuations cs ks)) = PREFIX_KONT # hash_from_vec (henv env) cs"
  "trie_actions_key env (transform env (DeleteContinuations cs)) = PREFIX_KONT # hash_from_vec (henv env) cs"
  by (simp_all add: trie_actions_key_def prepend_bytes_def Let_def)

lemma changes_keys:
  "map (trie_actions_key env \<circ> transform env) (changes hs) =
     map (\<lambda>(cs, _). PREFIX_KONT # hash_from_vec (henv env) cs) (continuations (hs_state hs))
     @ map (\<lambda>(c, _). PREFIX_DATUM # hash_channel (henv env) c) (data (hs_state hs))
     @ map (\<lambda>(c, _). PREFIX_JOINS # hash_channel (henv env) c) (joins (hs_state hs))"
  by (auto simp: changes_def transform_keys simp del: transform.simps)

text \<open>The hashes of channels and of joins do not collide on \<open>C\<close> and \<open>K\<close>, which hold the keys of the hot store.\<close>

definition keys_ok ::
  "('c, 'p, 'a, 'k) repo_env \<Rightarrow> 'c set \<Rightarrow> 'c list set \<Rightarrow> ('c, 'p, 'a, 'k) in_mem_hot_store \<Rightarrow> bool" where
  "keys_ok env C K hs \<longleftrightarrow> inj_on (hash_channel (henv env)) C \<and> inj_on (hash_from_vec (henv env)) K
     \<and> fst ` set (data (hs_state hs)) \<subseteq> C \<and> fst ` set (joins (hs_state hs)) \<subseteq> C
     \<and> fst ` set (continuations (hs_state hs)) \<subseteq> K"

lemma changes_distinct:
  assumes "hs_ok hs" "keys_ok env C K hs"
  shows "distinct (map (trie_actions_key env) (map (transform env) (changes hs)))"
proof -
  have part: "distinct (map (\<lambda>(c, _). b # f c) m)" if "hm_ok m" "inj_on f S" "fst ` set m \<subseteq> S" for b :: byte and f m S
  proof -
    have "inj_on (\<lambda>c. b # f c) (set (map fst m))"
      using inj_on_subset [OF that(2,3)] by (auto simp: inj_on_def)
    with that(1) have "distinct (map (\<lambda>c. b # f c) (map fst m))"
      by (subst distinct_map) (simp only: hm_ok_def simp_thms)
    moreover have "map (\<lambda>c. b # f c) (map fst m) = map (\<lambda>(c, _). b # f c) m"
      by (simp add: case_prod_unfold)
    ultimately show ?thesis by (simp only:)
  qed
  have "distinct (map (trie_actions_key env \<circ> transform env) (changes hs))"
    unfolding changes_keys using assms
    by (auto simp: hs_ok_def state_ok_def keys_ok_def PREFIX_DATUM_def PREFIX_KONT_def PREFIX_JOINS_def intro!: part)
  then show ?thesis by simp
qed

lemma changes_ok:
  assumes "env_good env" "new_leaves env (changes hs) \<subseteq> L"
  shows "list_all (trie_action_ok env L) (map (transform env) (changes hs))"
proof -
  have len: "length (blake_new (cenv env) bs) = 32" for bs
    using assms(1) by (simp add: env_good_def env_ok_def radix_of_def DEF_SIZE_def)
  have "length (trie_actions_key env (transform env a)) = 33" for a
    by (cases a) (simp_all only: transform_keys, simp_all add: hash_channel_def hash_from_vec_def hash_from_hashes_def hash_env.defs len)
  then show ?thesis
    using assms(2) by (auto simp: list_all_iff trie_action_ok_def new_leaves_def trie_actions_key_def case_prod_unfold)
qed

lemma changes_members:
  "hm_get (data (hs_state hs)) c = Some v \<Longrightarrow> (if v = [] then DeleteData c else InsertData c v) \<in> set (changes hs)"
  "hm_get (joins (hs_state hs)) c = Some js \<Longrightarrow> (if js = [] then DeleteJoins c else InsertJoins c js) \<in> set (changes hs)"
  "hm_get (continuations (hs_state hs)) cs = Some ks \<Longrightarrow>
     (if ks = [] then DeleteContinuations cs else InsertContinuations cs ks) \<in> set (changes hs)"
  by (force simp: changes_def dest!: map_of_SomeD)+

lemma key_untouched:
  assumes "inj_on f S" "fst ` set m \<subseteq> S" "c \<in> S" "hm_get m c = None"
  shows "f c \<notin> f ` fst ` set m"
  using assms(4) by (subst inj_on_image_mem_iff [OF assms(1,3,2)]) (simp add: map_of_eq_None_iff)

lemma changes_untouched:
  assumes "keys_ok env C K hs"
  shows "c \<in> C \<Longrightarrow> hm_get (data (hs_state hs)) c = None \<Longrightarrow>
      PREFIX_DATUM # hash_channel (henv env) c \<notin> trie_actions_key env ` set (map (transform env) (changes hs))"
    and "c \<in> C \<Longrightarrow> hm_get (joins (hs_state hs)) c = None \<Longrightarrow>
      PREFIX_JOINS # hash_channel (henv env) c \<notin> trie_actions_key env ` set (map (transform env) (changes hs))"
    and "cs \<in> K \<Longrightarrow> hm_get (continuations (hs_state hs)) cs = None \<Longrightarrow>
      PREFIX_KONT # hash_from_vec (henv env) cs \<notin> trie_actions_key env ` set (map (transform env) (changes hs))"
proof -
  have keys: "trie_actions_key env ` set (map (transform env) (changes hs)) =
      (\<lambda>c. PREFIX_KONT # hash_from_vec (henv env) c) ` fst ` set (continuations (hs_state hs))
      \<union> (\<lambda>c. PREFIX_DATUM # hash_channel (henv env) c) ` fst ` set (data (hs_state hs))
      \<union> (\<lambda>c. PREFIX_JOINS # hash_channel (henv env) c) ` fst ` set (joins (hs_state hs))"
    using arg_cong [OF changes_keys [of env hs], of set] by (simp add: image_image case_prod_unfold Un_assoc)
  have inj: "inj_on (hash_channel (henv env)) C" "inj_on (hash_from_vec (henv env)) K"
    and sub: "fst ` set (data (hs_state hs)) \<subseteq> C" "fst ` set (joins (hs_state hs)) \<subseteq> C"
      "fst ` set (continuations (hs_state hs)) \<subseteq> K"
    using assms by (auto simp: keys_ok_def)
  show "PREFIX_DATUM # hash_channel (henv env) c \<notin> trie_actions_key env ` set (map (transform env) (changes hs))"
    if "c \<in> C" "hm_get (data (hs_state hs)) c = None"
    using key_untouched [OF inj(1) sub(1) that] unfolding keys
    by (auto simp: PREFIX_DATUM_def PREFIX_KONT_def PREFIX_JOINS_def)
  show "PREFIX_JOINS # hash_channel (henv env) c \<notin> trie_actions_key env ` set (map (transform env) (changes hs))"
    if "c \<in> C" "hm_get (joins (hs_state hs)) c = None"
    using key_untouched [OF inj(1) sub(2) that] unfolding keys
    by (auto simp: PREFIX_DATUM_def PREFIX_KONT_def PREFIX_JOINS_def)
  show "PREFIX_KONT # hash_from_vec (henv env) cs \<notin> trie_actions_key env ` set (map (transform env) (changes hs))"
    if "cs \<in> K" "hm_get (continuations (hs_state hs)) cs = None"
    using key_untouched [OF inj(2) sub(3) that] unfolding keys
    by (auto simp: PREFIX_DATUM_def PREFIX_KONT_def PREFIX_JOINS_def)
qed

lemma checkpoint_leaves:
  fixes m :: "bytes \<rightharpoonup> persisted_data"
  assumes "hs_ok hs" "keys_ok env C K hs" "codec_ok (cenv env)"
  defines "m' \<equiv> foldl (trie_step env) m (map (transform env) (changes hs))"
  shows "c \<in> C \<Longrightarrow> data_of env (m' (PREFIX_DATUM # hash_channel (henv env) c)) =
      (case hm_get (data (hs_state hs)) c of Some v \<Rightarrow> sort_key (ser_datum_rec (cenv env)) v
       | None \<Rightarrow> data_of env (m (PREFIX_DATUM # hash_channel (henv env) c)))"
    and "c \<in> C \<Longrightarrow> joins_of env (m' (PREFIX_JOINS # hash_channel (henv env) c)) =
      (case hm_get (joins (hs_state hs)) c of Some js \<Rightarrow> sort_key (ser_join (cenv env)) js
       | None \<Rightarrow> joins_of env (m (PREFIX_JOINS # hash_channel (henv env) c)))"
    and "cs \<in> K \<Longrightarrow> conts_of env (m' (PREFIX_KONT # hash_from_vec (henv env) cs)) =
      (case hm_get (continuations (hs_state hs)) cs of Some ks \<Rightarrow> sort_key (ser_wk (cenv env)) ks
       | None \<Rightarrow> conts_of env (m (PREFIX_KONT # hash_from_vec (henv env) cs)))"
proof -
  have new: "m' (trie_actions_key env (transform env a)) = snd (fst (calculate_storage_actions env (transform env a)))"
    if "a \<in> set (changes hs)" for a
    unfolding m'_def by (rule trie_fold_new [OF changes_distinct [OF assms(1,2)]]) (simp add: that)
  note old = trie_fold_old [of _ env "map (transform env) (changes hs)" m, folded m'_def]
  have newd: "m' (PREFIX_DATUM # hash_channel (henv env) c) = (if v = [] then None else Some (Data (encode_datums (cenv env) v)))"
    if "hm_get (data (hs_state hs)) c = Some v" for v
    using new [OF changes_members(1) [OF that]]
    by (cases "v = []") (simp_all add: trie_actions_key_def prepend_bytes_def Let_def)
  have newj: "m' (PREFIX_JOINS # hash_channel (henv env) c) = (if js = [] then None else Some (Joins (encode_joins (cenv env) js)))"
    if "hm_get (joins (hs_state hs)) c = Some js" for js
    using new [OF changes_members(2) [OF that]]
    by (cases "js = []") (simp_all add: trie_actions_key_def prepend_bytes_def Let_def)
  have newk: "m' (PREFIX_KONT # hash_from_vec (henv env) cs) =
      (if ks = [] then None else Some (Continuations (encode_continuations (cenv env) ks)))"
    if "hm_get (continuations (hs_state hs)) cs = Some ks" for ks
    using new [OF changes_members(3) [OF that]]
    by (cases "ks = []") (simp_all add: trie_actions_key_def prepend_bytes_def Let_def)
  show "c \<in> C \<Longrightarrow> data_of env (m' (PREFIX_DATUM # hash_channel (henv env) c)) =
      (case hm_get (data (hs_state hs)) c of Some v \<Rightarrow> sort_key (ser_datum_rec (cenv env)) v
       | None \<Rightarrow> data_of env (m (PREFIX_DATUM # hash_channel (henv env) c)))"
    using old [OF changes_untouched(1) [OF assms(2)]]
    by (cases "hm_get (data (hs_state hs)) c") (simp_all add: newd assms(3))
  show "c \<in> C \<Longrightarrow> joins_of env (m' (PREFIX_JOINS # hash_channel (henv env) c)) =
      (case hm_get (joins (hs_state hs)) c of Some js \<Rightarrow> sort_key (ser_join (cenv env)) js
       | None \<Rightarrow> joins_of env (m (PREFIX_JOINS # hash_channel (henv env) c)))"
    using old [OF changes_untouched(2) [OF assms(2)]]
    by (cases "hm_get (joins (hs_state hs)) c") (simp_all add: newj assms(3))
  show "cs \<in> K \<Longrightarrow> conts_of env (m' (PREFIX_KONT # hash_from_vec (henv env) cs)) =
      (case hm_get (continuations (hs_state hs)) cs of Some ks \<Rightarrow> sort_key (ser_wk (cenv env)) ks
       | None \<Rightarrow> conts_of env (m (PREFIX_KONT # hash_from_vec (henv env) cs)))"
    using old [OF changes_untouched(3) [OF assms(2)]]
    by (cases "hm_get (continuations (hs_state hs)) cs") (simp_all add: newk assms(3))
qed

text \<open>The hot store was created over the reader of a root.\<close>

definition store_over ::
  "('c, 'p, 'a, 'k) repo_env \<Rightarrow> rspace_store \<Rightarrow> itree list \<Rightarrow> ('c, 'p, 'a, 'k) in_mem_hot_store \<Rightarrow> bool" where
  "store_over env stores ts hs \<longleftrightarrow> hs_ok hs
     \<and> (\<exists>repo rd. get_history_reader env (tree_root env ts) repo stores = Inr rd
          \<and> history_reader_base hs = reader_base env (history_kv stores) rd)"

lemma store_over_base:
  assumes "repo_ok env U L ts repo stores" "root_holds env U L stores vs" "store_over env stores vs hs"
  shows "hr_data (history_reader_base hs) c = data_of env (root_leaves env stores vs (PREFIX_DATUM # hash_channel (henv env) c))"
    and "hr_continuations (history_reader_base hs) cs =
      conts_of env (root_leaves env stores vs (PREFIX_KONT # hash_from_vec (henv env) cs))"
    and "hr_joins (history_reader_base hs) c = joins_of env (root_leaves env stores vs (PREFIX_JOINS # hash_channel (henv env) c))"
proof -
  obtain r rd where rd: "get_history_reader env (tree_root env vs) r stores = Inr rd"
    "history_reader_base hs = reader_base env (history_kv stores) rd"
    using assms(3) by (auto simp: store_over_def)
  have "\<forall>pfx key. fetch_data env (history_kv stores) rd pfx key = Inr (root_leaves env stores vs (pfx # key))"
    using get_history_reader_ok [OF assms(1,2), of r] rd(1) by auto
  note total = reader_total [OF assms(1,2) this]
  show "hr_data (history_reader_base hs) c = data_of env (root_leaves env stores vs (PREFIX_DATUM # hash_channel (henv env) c))"
    "hr_continuations (history_reader_base hs) cs =
      conts_of env (root_leaves env stores vs (PREFIX_KONT # hash_from_vec (henv env) cs))"
    "hr_joins (history_reader_base hs) c = joins_of env (root_leaves env stores vs (PREFIX_JOINS # hash_channel (henv env) c))"
    by (simp_all add: rd(2) reader_base_def total)
qed

lemma sorted_leaves:
  assumes "repo_ok env U L ts repo stores" "root_holds env U L stores vs"
  shows "sort_key (ser_datum_rec (cenv env)) (data_of env (root_leaves env stores vs (PREFIX_DATUM # k))) =
      data_of env (root_leaves env stores vs (PREFIX_DATUM # k))"
    and "sort_key (ser_wk (cenv env)) (conts_of env (root_leaves env stores vs (PREFIX_KONT # k))) =
      conts_of env (root_leaves env stores vs (PREFIX_KONT # k))"
    and "sort_key (ser_join (cenv env)) (joins_of env (root_leaves env stores vs (PREFIX_JOINS # k))) =
      joins_of env (root_leaves env stores vs (PREFIX_JOINS # k))"
proof -
  have ok: "codec_ok (cenv env)"
    using assms(1) by (simp add: repo_ok_def env_good_def)
  note typed = root_leaf_typed [OF assms]
  show "sort_key (ser_datum_rec (cenv env)) (data_of env (root_leaves env stores vs (PREFIX_DATUM # k))) =
      data_of env (root_leaves env stores vs (PREFIX_DATUM # k))"
    using typed [of PREFIX_DATUM k] leaf_kinds(1)
    by (cases "root_leaves env stores vs (PREFIX_DATUM # k)") (fastforce simp: ok sort_key_id_if_sorted)+
  show "sort_key (ser_wk (cenv env)) (conts_of env (root_leaves env stores vs (PREFIX_KONT # k))) =
      conts_of env (root_leaves env stores vs (PREFIX_KONT # k))"
    using typed [of PREFIX_KONT k] leaf_kinds(2)
    by (cases "root_leaves env stores vs (PREFIX_KONT # k)") (fastforce simp: ok sort_key_id_if_sorted)+
  show "sort_key (ser_join (cenv env)) (joins_of env (root_leaves env stores vs (PREFIX_JOINS # k))) =
      joins_of env (root_leaves env stores vs (PREFIX_JOINS # k))"
    using typed [of PREFIX_JOINS k] leaf_kinds(3)
    by (cases "root_leaves env stores vs (PREFIX_JOINS # k)") (fastforce simp: ok sort_key_id_if_sorted)+
qed

end
