(* ===== verification/SpaceMatcher.thy ===== *)
theory SpaceMatcher
  imports TraceEvent
begin

section \<open>Finding a match\<close>

text \<open>
  The trait \<open>SpaceMatcher\<close> of rspace++/src/rspace/space_matcher.rs. The pattern matcher
  \<open>Match::get\<close> is an argument \<open>matcher\<close> of every definition; the data available on the
  channels is a hash map from channels to indexed data, which
  \<open>extract_data_candidates_rollback\<close> changes while it matches one pattern after the other and
  \<open>extract_first_match\<close> restores from the rollback log when a continuation does not match.
  For joins without a repeated channel the search is sound and complete; for a repeated
  channel the log does not restore the data (\<open>rollback_repeated_channel\<close>).
\<close>

type_synonym ('p, 'a) matcher = "'p \<Rightarrow> 'a \<Rightarrow> 'a option"
type_synonym 'a indexed = "('a datum \<times> int) list"
type_synonym ('c, 'a) index_data = "('c, 'a indexed) hmap"
type_synonym ('c, 'a) rollback_log = "('c \<times> 'a indexed) list"

text \<open>The loop of \<open>find_matching_data_candidate\<close> from position \<open>idx\<close>, with the rest of \<open>data\<close> to visit.\<close>

fun find_matching_loop ::
  "('p, 'a) matcher \<Rightarrow> 'c \<Rightarrow> 'a indexed \<Rightarrow> 'p \<Rightarrow> nat \<Rightarrow> 'a indexed \<Rightarrow>
   (('c, 'a) consume_candidate \<times> 'a indexed) option" where
  "find_matching_loop matcher channel data pattern idx [] = None"
| "find_matching_loop matcher channel data pattern idx ((datum, data_index) # rest) =
     (case matcher pattern (a_val datum) of
        Some mat \<Rightarrow>
          let indexed_datums = (if d_persist datum then data else take idx data @ drop (idx + 1) data)
          in Some (\<lparr>cc_channel = channel,
                    cc_datum = \<lparr>a_val = mat, d_persist = d_persist datum, d_source = d_source datum\<rparr>,
                    removed_datum = a_val datum, datum_index = data_index\<rparr>, indexed_datums)
      | None \<Rightarrow> find_matching_loop matcher channel data pattern (idx + 1) rest)"

definition find_matching_data_candidate ::
  "('p, 'a) matcher \<Rightarrow> 'c \<Rightarrow> 'a indexed \<Rightarrow> 'p \<Rightarrow> (('c, 'a) consume_candidate \<times> 'a indexed) option" where
  "find_matching_data_candidate matcher channel data pattern =
     find_matching_loop matcher channel data pattern 0 data"

fun extract_data_candidates_rollback ::
  "('p, 'a) matcher \<Rightarrow> ('c \<times> 'p) list \<Rightarrow> ('c, 'a) index_data \<Rightarrow> ('c, 'a) rollback_log \<Rightarrow>
   ('c, 'a) consume_candidate option list \<times> ('c, 'a) index_data \<times> ('c, 'a) rollback_log" where
  "extract_data_candidates_rollback matcher [] m rollback = ([], m, rollback)"
| "extract_data_candidates_rollback matcher ((channel, pattern) # pairs) m rollback =
     (let maybe_tuple = (case hm_get m channel of
            Some indexed_data \<Rightarrow> find_matching_data_candidate matcher channel indexed_data pattern
          | None \<Rightarrow> None)
      in case maybe_tuple of
           Some (cand, rem) \<Rightarrow>
             let rollback' = (case hm_get m channel of
                   Some original \<Rightarrow> rollback @ [(channel, original)] | None \<Rightarrow> rollback);
                 (acc, m', rollback'') = extract_data_candidates_rollback matcher pairs (hm_put channel rem m) rollback'
             in (Some cand # acc, m', rollback'')
         | None \<Rightarrow>
             let (acc, m', rollback'') = extract_data_candidates_rollback matcher pairs m rollback
             in (None # acc, m', rollback''))"

definition extract_data_candidates ::
  "('p, 'a) matcher \<Rightarrow> ('c \<times> 'p) list \<Rightarrow> ('c, 'a) index_data \<Rightarrow>
   ('c, 'a) consume_candidate option list \<times> ('c, 'a) index_data" where
  "extract_data_candidates matcher pairs m =
     (case extract_data_candidates_rollback matcher pairs m [] of (acc, m', _) \<Rightarrow> (acc, m'))"

text \<open>\<open>for (ch, original) in rollback { insert }\<close>: the log is replayed in the order it was written.\<close>

definition restore :: "('c, 'a) rollback_log \<Rightarrow> ('c, 'a) index_data \<Rightarrow> ('c, 'a) index_data" where
  "restore rollback m = foldl (\<lambda>m (ch, original). hm_put ch original m) m rollback"

fun extract_first_match ::
  "('p, 'a) matcher \<Rightarrow> 'c list \<Rightarrow> (('p, 'k) waiting_continuation \<times> int) list \<Rightarrow> ('c, 'a) index_data \<Rightarrow>
   ('c, 'p, 'a, 'k) produce_candidate option" where
  "extract_first_match matcher channels [] m = None"
| "extract_first_match matcher channels ((cont, index) # match_candidates) m =
     (case extract_data_candidates_rollback matcher (zip channels (wc_patterns cont)) m [] of
        (cands, m', rollback) \<Rightarrow>
          if list_all (\<lambda>x. x \<noteq> None) cands
          then Some \<lparr>pc_channels = channels, pc_continuation = cont, continuation_index = index,
                     data_candidates = List.map_filter (\<lambda>x. x) cands\<rparr>
          else extract_first_match matcher channels match_candidates (restore rollback m'))"

subsection \<open>One pattern\<close>

text \<open>The data a pattern matches.\<close>

definition matches :: "('p, 'a) matcher \<Rightarrow> 'p \<Rightarrow> 'a datum \<times> int \<Rightarrow> bool" where
  "matches matcher p d \<longleftrightarrow> matcher p (a_val (fst d)) \<noteq> None"

definition cand_of :: "('p, 'a) matcher \<Rightarrow> 'c \<Rightarrow> 'p \<Rightarrow> 'a datum \<times> int \<Rightarrow> ('c, 'a) consume_candidate" where
  "cand_of matcher c p d =
     \<lparr>cc_channel = c,
      cc_datum = \<lparr>a_val = the (matcher p (a_val (fst d))), d_persist = d_persist (fst d), d_source = d_source (fst d)\<rparr>,
      removed_datum = a_val (fst d), datum_index = snd d\<rparr>"

lemma find_matching_loop_eq:
  "data = pre @ rest \<Longrightarrow> find_matching_loop matcher c data p (length pre) rest =
    (case position (matches matcher p) rest of
       None \<Rightarrow> None
     | Some i \<Rightarrow> Some (cand_of matcher c p (rest ! i),
         if d_persist (fst (rest ! i)) then data else pre @ remove_nth i rest))"
proof (induction rest arbitrary: pre)
  case (Cons x rest)
  obtain d i where x: "x = (d, i)" by (cases x)
  show ?case
  proof (cases "matcher p (a_val d)")
    case None
    then show ?thesis
      using Cons.IH [of "pre @ [x]"] Cons.prems
      by (auto simp: x matches_def split: option.splits)
  next
    case (Some mat)
    then show ?thesis
      using Cons.prems by (auto simp: x matches_def cand_of_def)
  qed
qed simp

lemma find_matching_eq:
  "find_matching_data_candidate matcher c data p =
    (case position (matches matcher p) data of
       None \<Rightarrow> None
     | Some i \<Rightarrow> Some (cand_of matcher c p (data ! i),
         if d_persist (fst (data ! i)) then data else remove_nth i data))"
  using find_matching_loop_eq [of data "[]" data matcher c p]
  by (simp add: find_matching_data_candidate_def split: option.splits)

lemma find_matching_Some:
  assumes "find_matching_data_candidate matcher c data p = Some (cand, rem)"
  shows "\<exists>d \<in> set data. matches matcher p d \<and> cand = cand_of matcher c p d
    \<and> set rem \<subseteq> set data \<and> (distinct (map snd data) \<longrightarrow> distinct (map snd rem))
    \<and> (\<not> d_persist (cc_datum cand) \<and> distinct (map snd data) \<longrightarrow> datum_index cand \<notin> snd ` set rem)"
proof -
  obtain i where i: "position (matches matcher p) data = Some i" "cand = cand_of matcher c p (data ! i)"
    "rem = (if d_persist (fst (data ! i)) then data else remove_nth i data)"
    using assms by (auto simp: find_matching_eq split: option.splits)
  then have len: "i < length data" and m: "matches matcher p (data ! i)"
    by (auto simp: position_Some_iff)
  have split: "data = take i data @ data ! i # drop (Suc i) data"
    using len by (simp add: id_take_nth_drop)
  have map: "map snd data = map snd (take i data) @ snd (data ! i) # map snd (drop (Suc i) data)"
    using arg_cong [OF split, of "map snd"] by simp
  have "distinct (map snd (remove_nth i data)) \<and> snd (data ! i) \<notin> snd ` set (remove_nth i data)"
    if "distinct (map snd data)"
    using that unfolding map by (auto simp: remove_nth_def)
  moreover have "set rem \<subseteq> set data"
    using set_remove_nth_subset [of i data] i(3) by auto
  ultimately show ?thesis
    using len m i by (intro bexI [of _ "data ! i"]) (auto simp: cand_of_def)
qed

lemma find_matching_None:
  "find_matching_data_candidate matcher c data p = None \<longleftrightarrow> (\<forall>d \<in> set data. \<not> matches matcher p d)"
proof -
  have "find_matching_data_candidate matcher c data p = None \<longleftrightarrow> position (matches matcher p) data = None"
    by (auto simp: find_matching_eq split: option.splits)
  then show ?thesis by (simp add: position_None_iff)
qed

subsection \<open>All patterns of a join\<close>

definition indices_ok :: "('c, 'a) index_data \<Rightarrow> bool" where
  "indices_ok m \<longleftrightarrow> (\<forall>c data. hm_get m c = Some data \<longrightarrow> distinct (map snd data))"

definition cand_ok :: "('p, 'a) matcher \<Rightarrow> ('c, 'a) index_data \<Rightarrow> 'c \<times> 'p \<Rightarrow> ('c, 'a) consume_candidate \<Rightarrow> bool" where
  "cand_ok matcher m cp cand \<longleftrightarrow>
     (\<exists>data d. hm_get m (fst cp) = Some data \<and> d \<in> set data \<and> matches matcher (snd cp) d
        \<and> cand = cand_of matcher (fst cp) (snd cp) d)"

lemma cand_ok_weaken:
  assumes "cand_ok matcher (hm_put c rem m) cp cand" "hm_get m c = Some data" "set rem \<subseteq> set data"
  shows "cand_ok matcher m cp cand"
  using assms unfolding cand_ok_def by (cases "fst cp = c") auto

text \<open>The pairs of channel and index a list of candidates takes away from the tuple space.\<close>

definition taken :: "('c, 'a) consume_candidate option list \<Rightarrow> ('c \<times> int) list" where
  "taken xs = map (\<lambda>c. (cc_channel c, datum_index c))
     (filter (\<lambda>c. \<not> d_persist (cc_datum c)) (List.map_filter (\<lambda>x. x) xs))"

lemma taken_Cons [simp]:
  "taken (None # xs) = taken xs"
  "taken (Some c # xs) = (if d_persist (cc_datum c) then taken xs else (cc_channel c, datum_index c) # taken xs)"
  by (simp_all add: taken_def map_filter_simps)

lemma extract_sound:
  "extract_data_candidates_rollback matcher pairs m log = (acc, m', log') \<Longrightarrow>
   list_all2 (\<lambda>cp x. \<forall>cand. x = Some cand \<longrightarrow> cand_ok matcher m cp cand) pairs acc
   \<and> (indices_ok m \<longrightarrow> distinct (taken acc) \<and>
       (\<forall>(c, i) \<in> set (taken acc). \<exists>data. hm_get m c = Some data \<and> i \<in> snd ` set data))"
proof (induction pairs arbitrary: m log acc m' log')
  case (Cons cp pairs)
  obtain c p where cp: "cp = (c, p)" by (cases cp)
  show ?case
  proof (cases "case hm_get m c of Some data \<Rightarrow> find_matching_data_candidate matcher c data p | None \<Rightarrow> None")
    case None
    then obtain acc' where acc': "acc = None # acc'"
      "extract_data_candidates_rollback matcher pairs m log = (acc', m', log')"
      using Cons.prems by (auto simp: cp split: prod.splits)
    then show ?thesis
      using Cons.IH [OF acc'(2)] by simp
  next
    case (Some cr)
    obtain cand rem where cr: "cr = (cand, rem)" by (cases cr)
    from Some cr obtain data where data: "hm_get m c = Some data"
      "find_matching_data_candidate matcher c data p = Some (cand, rem)"
      by (auto split: option.splits)
    from find_matching_Some [OF data(2)] obtain d where d: "d \<in> set data" "matches matcher p d"
      "cand = cand_of matcher c p d" "set rem \<subseteq> set data"
      "distinct (map snd data) \<longrightarrow> distinct (map snd rem)"
      "\<not> d_persist (cc_datum cand) \<and> distinct (map snd data) \<longrightarrow> datum_index cand \<notin> snd ` set rem"
      by blast
    obtain acc' where acc': "acc = Some cand # acc'"
      "extract_data_candidates_rollback matcher pairs (hm_put c rem m) (log @ [(c, data)]) = (acc', m', log')"
      using Cons.prems data by (auto simp: cp split: prod.splits)
    note IH = conjunct1 [OF Cons.IH [OF acc'(2)]] conjunct2 [OF Cons.IH [OF acc'(2)]]
    have "list_all2 (\<lambda>cp x. \<forall>cand. x = Some cand \<longrightarrow> cand_ok matcher m cp cand) pairs acc'"
      using IH(1) by (rule list_all2_mono) (blast intro: cand_ok_weaken [OF _ data(1) d(4)])
    moreover have "cand_ok matcher m (c, p) cand"
      unfolding cand_ok_def using data d by (intro exI [of _ data] exI [of _ d]) simp
    moreover have "distinct (taken acc) \<and>
       (\<forall>(c', i) \<in> set (taken acc). \<exists>data. hm_get m c' = Some data \<and> i \<in> snd ` set data)" if ok: "indices_ok m"
    proof -
      have ok': "indices_ok (hm_put c rem m)" "distinct (map snd data)"
        using ok data(1) d(5) by (auto simp: indices_ok_def)
      note IH2 = IH(2) [rule_format, OF ok'(1)]
      have "\<exists>data. hm_get m c' = Some data \<and> i \<in> snd ` set data" if "(c', i) \<in> set (taken acc')" for c' i
        using that IH2 data(1) d(4) by (cases "c' = c") fastforce+
      moreover have "(c, datum_index cand) \<notin> set (taken acc')" if "\<not> d_persist (cc_datum cand)"
        using that IH2 d(6) ok'(2) by fastforce
      ultimately show ?thesis
        using IH2 d(1,3) data(1) by (auto simp: acc'(1) cand_of_def)
    qed
    ultimately show ?thesis by (simp add: acc'(1) cp)
  qed
qed (simp add: taken_def List.map_filter_def)

subsection \<open>Joins without a repeated channel\<close>

definition select ::
  "('p, 'a) matcher \<Rightarrow> ('c, 'a) index_data \<Rightarrow> 'c \<times> 'p \<Rightarrow> (('c, 'a) consume_candidate \<times> 'a indexed) option" where
  "select matcher m cp =
     (case hm_get m (fst cp) of
        Some data \<Rightarrow> find_matching_data_candidate matcher (fst cp) data (snd cp) | None \<Rightarrow> None)"

definition pair_matches :: "('p, 'a) matcher \<Rightarrow> ('c, 'a) index_data \<Rightarrow> 'c \<times> 'p \<Rightarrow> bool" where
  "pair_matches matcher m cp \<longleftrightarrow>
     (\<exists>data. hm_get m (fst cp) = Some data \<and> list_ex (matches matcher (snd cp)) data)"

lemma select_None_iff: "select matcher m cp = None \<longleftrightarrow> \<not> pair_matches matcher m cp"
  by (auto simp: select_def pair_matches_def find_matching_None list_ex_iff split: option.splits)

lemma extract_distinct:
  "distinct (map fst pairs) \<Longrightarrow> extract_data_candidates_rollback matcher pairs m log = (acc, m', log') \<Longrightarrow>
   acc = map (\<lambda>cp. map_option fst (select matcher m cp)) pairs
   \<and> (\<exists>new. log' = log @ new \<and> (\<forall>(c, v) \<in> set new. hm_get m c = Some v \<and> c \<in> fst ` set pairs)
       \<and> (\<forall>c. c \<notin> fst ` set new \<longrightarrow> hm_get m' c = hm_get m c))"
proof (induction pairs arbitrary: m log acc m' log')
  case (Cons cp pairs)
  obtain c p where cp: "cp = (c, p)" by (cases cp)
  have other: "select matcher (hm_put c rem m) cp' = select matcher m cp'" if "cp' \<in> set pairs" for rem cp'
    using that Cons.prems(1) by (auto simp: cp select_def)
  show ?case
  proof (cases "select matcher m cp")
    case None
    then have "(case hm_get m c of Some data \<Rightarrow> find_matching_data_candidate matcher c data p | None \<Rightarrow> None) = None"
      by (simp add: select_def cp split: option.splits)
    then obtain acc' where acc': "acc = None # acc'"
      "extract_data_candidates_rollback matcher pairs m log = (acc', m', log')"
      using Cons.prems(2) by (auto simp: cp split: prod.splits)
    then show ?thesis
      using Cons.IH [OF _ acc'(2)] Cons.prems(1) None by auto
  next
    case (Some cr)
    obtain cand rem where cr: "cr = (cand, rem)" by (cases cr)
    from Some cr obtain data where data: "hm_get m c = Some data"
      "find_matching_data_candidate matcher c data p = Some (cand, rem)"
      by (auto simp: select_def cp split: option.splits)
    obtain acc' where acc': "acc = Some cand # acc'"
      "extract_data_candidates_rollback matcher pairs (hm_put c rem m) (log @ [(c, data)]) = (acc', m', log')"
      using Cons.prems(2) data by (auto simp: cp split: prod.splits)
    from Cons.IH [OF _ acc'(2)] Cons.prems(1) obtain new where
      IH: "acc' = map (\<lambda>cp. map_option fst (select matcher (hm_put c rem m) cp)) pairs"
      "log' = (log @ [(c, data)]) @ new"
      "\<forall>(c', v) \<in> set new. hm_get (hm_put c rem m) c' = Some v \<and> c' \<in> fst ` set pairs"
      "\<forall>c'. c' \<notin> fst ` set new \<longrightarrow> hm_get m' c' = hm_get (hm_put c rem m) c'"
      by auto
    have "acc = map (\<lambda>cp. map_option fst (select matcher m cp)) (cp # pairs)"
      using IH(1) other Some cr acc'(1) by (auto cong: map_cong)
    moreover have "\<forall>(c', v) \<in> set ((c, data) # new). hm_get m c' = Some v \<and> c' \<in> fst ` set (cp # pairs)"
    proof -
      have "hm_get m c' = Some v \<and> c' \<in> fst ` set pairs" if "(c', v) \<in> set new" for c' v
      proof -
        have "hm_get (hm_put c rem m) c' = Some v \<and> c' \<in> fst ` set pairs"
          using IH(3) that by blast
        moreover have "c \<notin> fst ` set pairs"
          using Cons.prems(1) by (simp add: cp)
        ultimately show ?thesis by (auto split: if_splits)
      qed
      with data(1) show ?thesis by (auto simp: cp)
    qed
    moreover have "\<forall>c'. c' \<notin> fst ` set ((c, data) # new) \<longrightarrow> hm_get m' c' = hm_get m c'"
      using IH(4) by auto
    ultimately show ?thesis
      using IH(2) by (intro conjI exI [of _ "(c, data) # new"]) simp_all
  qed
qed auto

lemma restore_get:
  "\<forall>(c, v) \<in> set log. f c = Some v \<Longrightarrow>
   hm_get (restore log m) c = (if c \<in> fst ` set log then f c else hm_get m c)"
proof (induction log arbitrary: m)
  case (Cons x log)
  then show ?case by (cases x) (auto simp: restore_def)
qed (simp add: restore_def)

lemma extract_restore:
  assumes "distinct (map fst pairs)" "extract_data_candidates_rollback matcher pairs m [] = (acc, m', log)"
  shows "hm_get (restore log m') = hm_get m"
proof
  fix c
  have "(\<forall>(c, v) \<in> set log. hm_get m c = Some v) \<and> (c \<notin> fst ` set log \<longrightarrow> hm_get m' c = hm_get m c)"
    using extract_distinct [OF assms] by fastforce
  then show "hm_get (restore log m') c = hm_get m c"
    by (auto simp: restore_get [of _ "hm_get m"])
qed

lemma all_some_select:
  "list_all (\<lambda>x. x \<noteq> None) (map (\<lambda>cp. map_option fst (select matcher m cp)) pairs) \<longleftrightarrow>
   list_all (pair_matches matcher m) pairs"
  by (simp add: list_all_iff select_None_iff del: not_None_eq)

definition cont_matches ::
  "('p, 'a) matcher \<Rightarrow> 'c list \<Rightarrow> ('c, 'a) index_data \<Rightarrow> ('p, 'k) waiting_continuation \<Rightarrow> bool" where
  "cont_matches matcher channels m cont \<longleftrightarrow> list_all (pair_matches matcher m) (zip channels (wc_patterns cont))"

lemma first_match_distinct:
  assumes "distinct channels"
  shows "hm_get m = hm_get m0 \<Longrightarrow> extract_first_match matcher channels cands m =
    map_option (\<lambda>(cont, index). \<lparr>pc_channels = channels, pc_continuation = cont, continuation_index = index,
        data_candidates = map (\<lambda>cp. fst (the (select matcher m0 cp))) (zip channels (wc_patterns cont))\<rparr>)
      (find (\<lambda>(cont, _). cont_matches matcher channels m0 cont) cands)"
proof (induction cands arbitrary: m)
  case (Cons x cands)
  obtain cont i where x: "x = (cont, i)" by (cases x)
  let ?pairs = "zip channels (wc_patterns cont)"
  obtain acc m' log where ex: "extract_data_candidates_rollback matcher ?pairs m [] = (acc, m', log)"
    by (metis prod_cases3)
  have dist: "distinct (map fst ?pairs)"
    using assms by (simp add: map_fst_zip_take)
  have sel: "select matcher m = select matcher m0"
    using Cons.prems by (auto simp: select_def fun_eq_iff)
  have acc: "acc = map (\<lambda>cp. map_option fst (select matcher m0 cp)) ?pairs"
    using extract_distinct [OF dist ex] by (simp add: sel)
  have all: "list_all (\<lambda>x. x \<noteq> None) acc \<longleftrightarrow> cont_matches matcher channels m0 cont"
    unfolding acc cont_matches_def by (rule all_some_select)
  show ?case
  proof (cases "cont_matches matcher channels m0 cont")
    case True
    then have "\<forall>cp \<in> set ?pairs. select matcher m0 cp \<noteq> None"
      using select_None_iff [of matcher m0] by (auto simp: cont_matches_def list_all_iff)
    then have "List.map_filter (\<lambda>x. x) acc = map (\<lambda>cp. fst (the (select matcher m0 cp))) ?pairs"
      unfolding acc by (induction ?pairs) (auto simp: List.map_filter_def)
    with True all ex show ?thesis by (simp add: x)
  next
    case False
    have "hm_get (restore log m') = hm_get m0"
      using extract_restore [OF dist ex] Cons.prems by simp
    from Cons.IH [OF this] False all ex show ?thesis by (simp add: x)
  qed
qed simp

subsection \<open>Properties\<close>

text \<open>A matcher for the examples: pattern \<open>0\<close> is a wildcard, any other pattern matches itself.\<close>

definition demo_matcher :: "(nat, nat) matcher" where
  "demo_matcher p a = (if p = 0 \<or> p = a then Some a else None)"

definition demo_datum :: "nat \<Rightarrow> nat datum" where
  "demo_datum a = \<lparr>a_val = a, d_persist = False, d_source = produce_new [] [] False\<rparr>"

definition demo_data :: "(nat, nat) index_data" where
  "demo_data = [(10, [(demo_datum 1, 0), (demo_datum 2, 1)]), (20, [(demo_datum 3, 0)])]"

definition demo_cont :: "nat list \<Rightarrow> (nat, nat) waiting_continuation" where
  "demo_cont ps = \<lparr>wc_patterns = ps, wc_continuation = 0, wc_persist = False, wc_peeks = [],
     wc_source = \<lparr>channel_hashes = [], c_hash = [], c_persistent = False\<rparr>\<rparr>"

lemmas demo_match_simps = demo_matcher_def demo_datum_def demo_data_def demo_cont_def

text \<open>
  What \<open>extract_data_candidates\<close> finds is a match: every candidate comes from a datum
  that was available on its channel and that the pattern matches, and no datum that is not
  persistent is used twice, also when a channel occurs more than once.
\<close>

theorem extract_candidates_sound:
  assumes "extract_data_candidates matcher pairs m = (acc, m')" "indices_ok m"
  shows "list_all2 (\<lambda>cp x. \<forall>cand. x = Some cand \<longrightarrow> cand_ok matcher m cp cand) pairs acc \<and> distinct (taken acc)"
proof -
  obtain log where "extract_data_candidates_rollback matcher pairs m [] = (acc, m', log)"
    using assms(1) by (auto simp: extract_data_candidates_def split: prod.splits)
  from extract_sound [OF this] assms(2) show ?thesis by blast
qed

theorem extract_candidates_sound_witness:
  "list_all2 (\<lambda>cp x. \<forall>cand. x = Some cand \<longrightarrow> cand_ok demo_matcher demo_data cp cand) [(10, 0), (10, 0)]
     (fst (extract_data_candidates demo_matcher [(10, 0), (10, 0)] demo_data))
   \<and> distinct (taken (fst (extract_data_candidates demo_matcher [(10, 0), (10, 0)] demo_data)))"
  by (rule extract_candidates_sound [OF prod.collapse [symmetric]])
    (auto simp: indices_ok_def demo_match_simps split: if_splits)

text \<open>
  For a join without repeated channels \<open>extract_first_match\<close> returns the first
  continuation all of whose patterns match data on their channels, with the first matching
  datum of each channel, and \<open>None\<close> exactly when there is no such continuation: a failed
  attempt leaves the data as it was.
\<close>

theorem extract_first_match_complete:
  assumes "distinct channels"
  shows "extract_first_match matcher channels cands m =
    map_option (\<lambda>(cont, index). \<lparr>pc_channels = channels, pc_continuation = cont, continuation_index = index,
        data_candidates = map (\<lambda>cp. fst (the (select matcher m cp))) (zip channels (wc_patterns cont))\<rparr>)
      (find (\<lambda>(cont, _). cont_matches matcher channels m cont) cands)"
  using first_match_distinct [OF assms refl] .

theorem extract_first_match_complete_witness:
  "extract_first_match demo_matcher [10, 20] [(demo_cont [2, 4], 0), (demo_cont [1, 3], 1)] demo_data =
    map_option (\<lambda>(cont, index). \<lparr>pc_channels = [10, 20], pc_continuation = cont, continuation_index = index,
        data_candidates = map (\<lambda>cp. fst (the (select demo_matcher demo_data cp))) (zip [10, 20] (wc_patterns cont))\<rparr>)
      (find (\<lambda>(cont, _). cont_matches demo_matcher [10, 20] demo_data cont) [(demo_cont [2, 4], 0), (demo_cont [1, 3], 1)])"
  by (rule extract_first_match_complete) simp

text \<open>
  With a repeated channel a failed attempt is not undone: the rollback log is replayed in
  the order it was written, so the last, already reduced, version of the data wins. Here
  the first continuation fails, the second one matches on its own, and the search misses it.
\<close>

theorem rollback_repeated_channel:
  "extract_first_match demo_matcher [10, 10, 20] [(demo_cont [0, 0, 4], 0), (demo_cont [1, 2, 3], 1)] demo_data = None
   \<and> extract_first_match demo_matcher [10, 10, 20] [(demo_cont [1, 2, 3], 1)] demo_data \<noteq> None"
  by (simp add: demo_match_simps find_matching_data_candidate_def restore_def Let_def)

end
