(* ===== verification/RSpace.thy ===== *)
theory RSpace
  imports HistoryRepository SpaceMatcher
begin

section \<open>The tuple space\<close>

text \<open>
  \<open>RSpace\<close> of rspace++/src/rspace/rspace.rs: \<open>produce\<close>, \<open>consume\<close>, \<open>install\<close>, checkpoints, soft
  checkpoints and resets. The state is the record \<open>rspace\<close>; the key-value stores, which every
  space over the same repository shares, are part of it. The parameters in \<open>rspace_env\<close> are the
  hash and codec functions of the repository, the pattern matcher, the debug formatter the hot
  store uses, and the random permutations that \<open>shuffle_with_index\<close> draws (the permutation
  depends on the number of earlier draws, which the state counts, and on the length).
  The channel locks make operations on common channels exclude each other; the model runs
  one operation after the other. Metrics, tracing spans and log labels are left out. Counters
  and indices, \<open>i32\<close> in the source, are integers.
\<close>

record ('c, 'p, 'a, 'k) rspace_env =
  repo :: "('c, 'p, 'a, 'k) repo_env"
  get_match :: "('p, 'a) matcher"
  debug :: "('p, 'k) debug_env"
  shuffle :: "nat \<Rightarrow> nat \<Rightarrow> nat list"

abbreviation space_henv :: "('c, 'p, 'a, 'k) rspace_env \<Rightarrow> ('c, 'p, 'a, 'k) hash_env" where
  "space_henv env \<equiv> henv (repo env)"

record ('c, 'p, 'a, 'k) rspace =
  history_repo :: history_repository
  stores :: rspace_store
  hot :: "('c, 'p, 'a, 'k) in_mem_hot_store"
  installs :: "('c list, ('p, 'k) install) hmap"
  event_log :: "event list"
  produce_counter :: "(produce \<times> int) list"
  draws :: nat

type_synonym ('c, 'p, 'a, 'k, 'x) rs = "(('c, 'p, 'a, 'k) rspace, rspace_error, 'x) sm"

record ('c, 'a) rspace_result =
  rr_channel :: 'c
  matched_datum :: 'a
  rr_removed_datum :: 'a
  rr_persistent :: bool

record ('c, 'p, 'k) cont_result =
  cr_continuation :: 'k
  cr_persistent :: bool
  cr_channels :: "'c list"
  cr_patterns :: "'p list"
  peek :: bool

type_synonym ('c, 'p, 'a, 'k) maybe_consume_result =
  "(('c, 'p, 'k) cont_result \<times> ('c, 'a) rspace_result list) option"

type_synonym ('c, 'p, 'a, 'k) maybe_produce_result =
  "(('c, 'p, 'k) cont_result \<times> ('c, 'a) rspace_result list \<times> produce) option"

record ('c, 'p, 'a, 'k) soft_checkpoint =
  cache_snapshot :: "('c, 'p, 'a, 'k) hot_store_state"
  sc_log :: "event list"
  sc_produce_counter :: "(produce \<times> int) list"

record checkpoint =
  cp_root :: bytes
  cp_log :: "event list"

subsection \<open>Ordered maps of produce events\<close>

text \<open>\<open>BTreeMap<Produce, i32>\<close>: entries ordered by the hash, which is the identity of an event.
  Inserting under an existing key keeps the key that is there; collecting a sequence keeps the
  last entry of every key.\<close>

definition pc_get :: "produce \<Rightarrow> (produce \<times> int) list \<Rightarrow> int option" where
  "pc_get p m = map_option snd (find (\<lambda>(q, _). produce_eq q p) m)"

fun pc_insert :: "produce \<Rightarrow> int \<Rightarrow> (produce \<times> int) list \<Rightarrow> (produce \<times> int) list" where
  "pc_insert p v [] = [(p, v)]"
| "pc_insert p v ((q, w) # m) =
     (if produce_eq q p then (q, v) # m
      else if p_hash p < p_hash q then (p, v) # (q, w) # m
      else (q, w) # pc_insert p v m)"

fun dedup_last :: "(produce \<times> int) list \<Rightarrow> (produce \<times> int) list" where
  "dedup_last (x # y # m) = (if produce_eq (fst x) (fst y) then dedup_last (y # m) else x # dedup_last (y # m))"
| "dedup_last m = m"

definition pc_collect :: "(produce \<times> int) list \<Rightarrow> (produce \<times> int) list" where
  "pc_collect m = dedup_last (sort_key (\<lambda>e. p_hash (fst e)) m)"

definition produce_counters :: "('c, 'p, 'a, 'k) rspace \<Rightarrow> produce list \<Rightarrow> (produce \<times> int) list" where
  "produce_counters sp produce_refs =
     pc_collect (map (\<lambda>p. (p, case pc_get p (produce_counter sp) of Some n \<Rightarrow> n | None \<Rightarrow> 0)) produce_refs)"

subsection \<open>Reads\<close>

text \<open>A function that reads or writes the hot store, on the space.\<close>

definition on_hot ::
  "(('c, 'p, 'a, 'k) in_mem_hot_store \<Rightarrow> 'x \<times> ('c, 'p, 'a, 'k) in_mem_hot_store) \<Rightarrow>
   ('c, 'p, 'a, 'k) rspace \<Rightarrow> 'x \<times> ('c, 'p, 'a, 'k) rspace" where
  "on_hot f sp = (case f (hot sp) of (x, hs) \<Rightarrow> (x, sp\<lparr>hot := hs\<rparr>))"

text \<open>A stateful function over a list, from left to right.\<close>

fun map_st :: "('x \<Rightarrow> 's \<Rightarrow> 'y \<times> 's) \<Rightarrow> 'x list \<Rightarrow> 's \<Rightarrow> 'y list \<times> 's" where
  "map_st f [] s = ([], s)"
| "map_st f (x # xs) s = (let (y, s') = f x s; (ys, s'') = map_st f xs s' in (y # ys, s''))"

definition shuffle_with_index ::
  "('c, 'p, 'a, 'k) rspace_env \<Rightarrow> 'd list \<Rightarrow> ('c, 'p, 'a, 'k) rspace \<Rightarrow> ('d \<times> int) list \<times> ('c, 'p, 'a, 'k) rspace" where
  "shuffle_with_index env t sp =
     (map (\<lambda>i. (t ! i, int i)) (shuffle env (draws sp) (length t)), sp\<lparr>draws := Suc (draws sp)\<rparr>)"

fun fetch_channel_to_index_data ::
  "('c, 'p, 'a, 'k) rspace_env \<Rightarrow> 'c list \<Rightarrow> ('c, 'a) index_data \<Rightarrow> ('c, 'p, 'a, 'k) rspace \<Rightarrow>
   ('c, 'a) index_data \<times> ('c, 'p, 'a, 'k) rspace" where
  "fetch_channel_to_index_data env [] m sp = (m, sp)"
| "fetch_channel_to_index_data env (c # cs) m sp =
     (let (data, sp1) = on_hot (\<lambda>hs. get_data hs c) sp;
          (shuffled_data, sp2) = shuffle_with_index env data sp1
      in fetch_channel_to_index_data env cs (hm_put c shuffled_data m) sp2)"

definition space_get_data ::
  "'c \<Rightarrow> ('c, 'p, 'a, 'k) rspace \<Rightarrow> 'a datum list \<times> ('c, 'p, 'a, 'k) rspace" where
  "space_get_data c = on_hot (\<lambda>hs. get_data hs c)"

definition space_get_waiting_continuations ::
  "'c list \<Rightarrow> ('c, 'p, 'a, 'k) rspace \<Rightarrow> ('p, 'k) waiting_continuation list \<times> ('c, 'p, 'a, 'k) rspace" where
  "space_get_waiting_continuations cs = on_hot (\<lambda>hs. get_continuations hs cs)"

definition space_get_joins :: "'c \<Rightarrow> ('c, 'p, 'a, 'k) rspace \<Rightarrow> 'c list list \<times> ('c, 'p, 'a, 'k) rspace" where
  "space_get_joins c = on_hot (\<lambda>hs. get_joins hs c)"

subsection \<open>The event log\<close>

definition log_comm :: "comm \<Rightarrow> ('c, 'p, 'a, 'k) rspace \<Rightarrow> ('c, 'p, 'a, 'k) rspace" where
  "log_comm cm sp = sp\<lparr>event_log := Comm cm # event_log sp\<rparr>"

definition log_consume :: "consume \<Rightarrow> ('c, 'p, 'a, 'k) rspace \<Rightarrow> ('c, 'p, 'a, 'k) rspace" where
  "log_consume consume_ref sp = sp\<lparr>event_log := IoEvent (ConsumeEvent consume_ref) # event_log sp\<rparr>"

definition log_produce :: "produce \<Rightarrow> bool \<Rightarrow> ('c, 'p, 'a, 'k) rspace \<Rightarrow> ('c, 'p, 'a, 'k) rspace" where
  "log_produce produce_ref persist sp =
     (let sp1 = sp\<lparr>event_log := IoEvent (ProduceEvent produce_ref) # event_log sp\<rparr>
      in if \<not> persist
         then let current = (case pc_get produce_ref (produce_counter sp1) of Some n \<Rightarrow> n | None \<Rightarrow> 0)
              in sp1\<lparr>produce_counter := pc_insert produce_ref (current + 1) (produce_counter sp1)\<rparr>
         else sp1)"

text \<open>The collection of the updated \<open>times_repeated\<close> of a COMM is again a \<open>BTreeMap\<close>.\<close>

fun update_event :: "produce \<Rightarrow> event \<Rightarrow> event" where
  "update_event produce_ref (IoEvent (ProduceEvent p)) =
     IoEvent (ProduceEvent (if p_hash p = p_hash produce_ref then produce_ref else p))"
| "update_event produce_ref (Comm cm) =
     Comm (cm\<lparr>produces := map (\<lambda>p. if p_hash p = p_hash produce_ref then produce_ref else p) (produces cm),
              times_repeated := pc_collect
                (map (\<lambda>(k, v). if p_hash k = p_hash produce_ref then (produce_ref, v) else (k, v)) (times_repeated cm))\<rparr>)"
| "update_event produce_ref (IoEvent (ConsumeEvent c)) = IoEvent (ConsumeEvent c)"

definition update_produce :: "produce \<Rightarrow> ('c, 'p, 'a, 'k) rspace \<Rightarrow> ('c, 'p, 'a, 'k) rspace" where
  "update_produce produce_ref sp = sp\<lparr>event_log := map (update_event produce_ref) (event_log sp)\<rparr>"

subsection \<open>Results and stored data\<close>

definition wrap_result ::
  "'c list \<Rightarrow> ('p, 'k) waiting_continuation \<Rightarrow> ('c, 'a) consume_candidate list \<Rightarrow> ('c, 'p, 'a, 'k) maybe_consume_result" where
  "wrap_result channels wk cands =
     Some (\<lparr>cr_continuation = wc_continuation wk, cr_persistent = wc_persist wk, cr_channels = channels,
            cr_patterns = wc_patterns wk, peek = (wc_peeks wk \<noteq> [])\<rparr>,
           map (\<lambda>c. \<lparr>rr_channel = cc_channel c, matched_datum = a_val (cc_datum c),
                     rr_removed_datum = removed_datum c, rr_persistent = d_persist (cc_datum c)\<rparr>) cands)"

definition store_waiting_continuation ::
  "('c, 'p, 'a, 'k) rspace_env \<Rightarrow> 'c list \<Rightarrow> ('p, 'k) waiting_continuation \<Rightarrow> ('c, 'p, 'a, 'k) rspace \<Rightarrow>
   ('c, 'p, 'a, 'k) rspace" where
  "store_waiting_continuation env channels wc sp =
     (let (_, sp1) = on_hot (\<lambda>hs. put_continuation (debug env) hs channels wc) sp
      in snd (map_st (\<lambda>c. on_hot (\<lambda>hs. put_join hs c channels)) channels sp1))"

definition store_data :: "'c \<Rightarrow> 'a \<Rightarrow> bool \<Rightarrow> produce \<Rightarrow> ('c, 'p, 'a, 'k) rspace \<Rightarrow> ('c, 'p, 'a, 'k) rspace" where
  "store_data channel a persist produce_ref sp =
     sp\<lparr>hot := put_datum (hot sp) channel \<lparr>a_val = a, d_persist = persist, d_source = produce_ref\<rparr>\<rparr>"

text \<open>
  The candidates are sorted by descending index and then reversed: the data are removed in
  ascending order of their indices.
\<close>

definition removal_order :: "('c, 'a) consume_candidate list \<Rightarrow> ('c, 'a) consume_candidate list" where
  "removal_order cands = rev (sort_key (\<lambda>c. - datum_index c) cands)"

definition collect_units :: "unit option list \<Rightarrow> unit list option" where
  "collect_units results = (if list_ex (\<lambda>r. r = None) results then None else Some (List.map_filter (\<lambda>r. r) results))"

definition store_persistent_data ::
  "('c, 'a) consume_candidate list \<Rightarrow> ('c, 'p, 'a, 'k) rspace \<Rightarrow> unit list option \<times> ('c, 'p, 'a, 'k) rspace" where
  "store_persistent_data cands sp =
     (let (results, sp1) = map_st (\<lambda>c sp.
            if \<not> d_persist (cc_datum c)
            then let (r, sp') = on_hot (\<lambda>hs. remove_datum hs (cc_channel c) (datum_index c)) sp
                 in (case r of Inr u \<Rightarrow> Some u | Inl _ \<Rightarrow> None, sp')
            else (Some (), sp)) (removal_order cands) sp
      in (collect_units results, sp1))"

definition remove_matched_datum_and_join ::
  "'c list \<Rightarrow> ('c, 'a) consume_candidate list \<Rightarrow> ('c, 'p, 'a, 'k) rspace \<Rightarrow> unit list option \<times> ('c, 'p, 'a, 'k) rspace" where
  "remove_matched_datum_and_join channels cands sp =
     (let (results, sp1) = map_st (\<lambda>c sp.
            let (removed, sp') =
                  (if datum_index c \<ge> 0 \<and> \<not> d_persist (cc_datum c)
                   then on_hot (\<lambda>hs. remove_datum hs (cc_channel c) (datum_index c)) sp
                   else (Inr (), sp))
            in (case removed of
                  Inl _ \<Rightarrow> (None, sp')
                | Inr _ \<Rightarrow> (Some (), snd (on_hot (\<lambda>hs. remove_join hs (cc_channel c) channels) sp'))))
            (removal_order cands) sp
      in (collect_units results, sp1))"

subsection \<open>Consume\<close>

definition all_candidates :: "('c, 'a) consume_candidate option list \<Rightarrow> ('c, 'a) consume_candidate list option" where
  "all_candidates xs = (if list_all (\<lambda>x. x \<noteq> None) xs then Some (List.map_filter (\<lambda>x. x) xs) else None)"

definition locked_consume ::
  "('c, 'p, 'a, 'k) rspace_env \<Rightarrow> 'c list \<Rightarrow> 'p list \<Rightarrow> 'k \<Rightarrow> bool \<Rightarrow> int list \<Rightarrow> consume \<Rightarrow> ('c, 'p, 'a, 'k) rspace \<Rightarrow>
   ('c, 'p, 'a, 'k) maybe_consume_result \<times> ('c, 'p, 'a, 'k) rspace" where
  "locked_consume env channels patterns continuation persist peeks consume_ref sp =
     (let sp1 = log_consume consume_ref sp;
          (channel_to_indexed_data, sp2) = fetch_channel_to_index_data env channels [] sp1;
          zipped = zip channels patterns;
          options = all_candidates (fst (extract_data_candidates (get_match env) zipped channel_to_indexed_data));
          wk = \<lparr>wc_patterns = patterns, wc_continuation = continuation, wc_persist = persist, wc_peeks = peeks,
                wc_source = consume_ref\<rparr>
      in case options of
           Some cands \<Rightarrow>
             let sp3 = log_comm (comm_new cands consume_ref peeks (produce_counters sp2)) sp2;
                 (_, sp4) = store_persistent_data cands sp3
             in (wrap_result channels wk cands, sp4)
         | None \<Rightarrow> (None, store_waiting_continuation env channels wk sp2))"

definition space_consume ::
  "('c, 'p, 'a, 'k) rspace_env \<Rightarrow> 'c list \<Rightarrow> 'p list \<Rightarrow> 'k \<Rightarrow> bool \<Rightarrow> int list \<Rightarrow>
   ('c, 'p, 'a, 'k, ('c, 'p, 'a, 'k) maybe_consume_result) rs" where
  "space_consume env channels patterns continuation persist peeks sp =
     (if channels = [] then (Inl (Panic ''RUST ERROR: channels can't be empty''), sp)
      else if length channels \<noteq> length patterns
      then (Inl (Panic ''RUST ERROR: channels.length must equal patterns.length''), sp)
      else
        let consume_ref = consume_create (space_henv env) channels patterns continuation persist;
            (r, sp') = locked_consume env channels patterns continuation persist peeks consume_ref sp
        in (Inr r, sp'))"

subsection \<open>Produce\<close>

text \<open>The loop over the joins of the channel; the fetch functions read the store.\<close>

fun run_matcher_for_channels ::
  "('p, 'a) matcher \<Rightarrow>
   ('c list \<Rightarrow> 's \<Rightarrow> (('p, 'k) waiting_continuation \<times> int) list \<times> 's) \<Rightarrow> ('c \<Rightarrow> 's \<Rightarrow> ('c \<times> 'a indexed) \<times> 's) \<Rightarrow>
   'c list list \<Rightarrow> 's \<Rightarrow> ('c, 'p, 'a, 'k) produce_candidate option \<times> 's" where
  "run_matcher_for_channels m fetch_conts fetch_dat [] s = (None, s)"
| "run_matcher_for_channels m fetch_conts fetch_dat (channels # rest) s =
     (let (match_candidates, s1) = fetch_conts channels s;
          (entries, s2) = map_st fetch_dat channels s1;
          channel_to_indexed_data = foldl (\<lambda>m (c, d). hm_put c d m) [] entries
      in case extract_first_match m channels match_candidates channel_to_indexed_data of
           Some produce_candidate \<Rightarrow> (Some produce_candidate, s2)
         | None \<Rightarrow> run_matcher_for_channels m fetch_conts fetch_dat rest s2)"

definition fetch_matching_continuations ::
  "('c, 'p, 'a, 'k) rspace_env \<Rightarrow> 'c list \<Rightarrow> ('c, 'p, 'a, 'k) rspace \<Rightarrow>
   (('p, 'k) waiting_continuation \<times> int) list \<times> ('c, 'p, 'a, 'k) rspace" where
  "fetch_matching_continuations env channels sp =
     (let (conts, sp1) = on_hot (\<lambda>hs. get_continuations hs channels) sp in shuffle_with_index env conts sp1)"

definition fetch_matching_data ::
  "('c, 'p, 'a, 'k) rspace_env \<Rightarrow> 'c \<Rightarrow> 'a datum \<Rightarrow> 'c \<Rightarrow> ('c, 'p, 'a, 'k) rspace \<Rightarrow>
   ('c \<times> 'a indexed) \<times> ('c, 'p, 'a, 'k) rspace" where
  "fetch_matching_data env bat_channel d channel sp =
     (let (data_vec, sp1) = on_hot (\<lambda>hs. get_data hs channel) sp;
          (shuffled_data, sp2) = shuffle_with_index env data_vec sp1
      in ((channel, if channel = bat_channel then (d, -1) # shuffled_data else shuffled_data), sp2))"

definition extract_produce_candidate ::
  "('c, 'p, 'a, 'k) rspace_env \<Rightarrow> 'c list list \<Rightarrow> 'c \<Rightarrow> 'a datum \<Rightarrow> ('c, 'p, 'a, 'k) rspace \<Rightarrow>
   ('c, 'p, 'a, 'k) produce_candidate option \<times> ('c, 'p, 'a, 'k) rspace" where
  "extract_produce_candidate env grouped_channels bat_channel d =
     run_matcher_for_channels (get_match env) (fetch_matching_continuations env) (fetch_matching_data env bat_channel d)
       grouped_channels"

definition process_match_found ::
  "('c, 'p, 'a, 'k) produce_candidate \<Rightarrow> ('c, 'p, 'a, 'k) rspace \<Rightarrow>
   ('c, 'p, 'a, 'k) maybe_consume_result \<times> ('c, 'p, 'a, 'k) rspace" where
  "process_match_found pc sp =
     (let channels = pc_channels pc; continuation = pc_continuation pc; cands = data_candidates pc;
          sp1 = log_comm (comm_new cands (wc_source continuation) (wc_peeks continuation) (produce_counters sp)) sp;
          sp2 = (if \<not> wc_persist continuation
                 then snd (on_hot (\<lambda>hs. remove_continuation hs channels (continuation_index pc)) sp1) else sp1);
          (_, sp3) = remove_matched_datum_and_join channels cands sp2
      in (wrap_result channels continuation cands, sp3))"

definition locked_produce ::
  "('c, 'p, 'a, 'k) rspace_env \<Rightarrow> 'c \<Rightarrow> 'a \<Rightarrow> bool \<Rightarrow> produce \<Rightarrow> ('c, 'p, 'a, 'k) rspace \<Rightarrow>
   ('c, 'p, 'a, 'k) maybe_produce_result \<times> ('c, 'p, 'a, 'k) rspace" where
  "locked_produce env channel a persist produce_ref sp =
     (let (grouped_channels, sp1) = on_hot (\<lambda>hs. get_joins hs channel) sp;
          sp2 = log_produce produce_ref persist sp1;
          (extracted, sp3) = extract_produce_candidate env grouped_channels channel
             \<lparr>a_val = a, d_persist = persist, d_source = produce_ref\<rparr> sp2
      in case extracted of
           Some produce_candidate \<Rightarrow>
             let (r, sp4) = process_match_found produce_candidate sp3
             in (map_option (\<lambda>(c, rs). (c, rs, produce_ref)) r, sp4)
         | None \<Rightarrow> (None, store_data channel a persist produce_ref sp3))"

text \<open>\<open>produce_lock\<close> reads the joins of the channel before the operation starts.\<close>

definition space_produce ::
  "('c, 'p, 'a, 'k) rspace_env \<Rightarrow> 'c \<Rightarrow> 'a \<Rightarrow> bool \<Rightarrow>
   ('c, 'p, 'a, 'k, ('c, 'p, 'a, 'k) maybe_produce_result) rs" where
  "space_produce env channel a persist sp =
     (let produce_ref = produce_create (space_henv env) channel a persist;
          (_, sp1) = on_hot (\<lambda>hs. get_joins hs channel) sp;
          (r, sp2) = locked_produce env channel a persist produce_ref sp1
      in (Inr r, sp2))"

subsection \<open>Install\<close>

definition locked_install_internal ::
  "('c, 'p, 'a, 'k) rspace_env \<Rightarrow> 'c list \<Rightarrow> 'p list \<Rightarrow> 'k \<Rightarrow> bool \<Rightarrow> ('c, 'p, 'a, 'k, ('k \<times> 'a list) option) rs" where
  "locked_install_internal env channels patterns continuation record_install sp =
     (if length channels \<noteq> length patterns
      then (Inl (Panic ''RUST ERROR: channels.length must equal patterns.length''), sp)
      else
        let consume_ref = consume_create (space_henv env) channels patterns continuation True;
            (channel_to_indexed_data, sp1) = fetch_channel_to_index_data env channels [] sp;
            zipped = zip channels patterns;
            options = all_candidates (fst (extract_data_candidates (get_match env) zipped channel_to_indexed_data))
        in case options of
             None \<Rightarrow>
               let sp2 = (if record_install
                          then sp1\<lparr>installs := hm_put channels \<lparr>i_patterns = patterns, i_continuation = continuation\<rparr>
                                 (installs sp1)\<rparr>
                          else sp1);
                   (_, sp3) = on_hot (\<lambda>hs. install_continuation hs channels
                      \<lparr>wc_patterns = patterns, wc_continuation = continuation, wc_persist = True, wc_peeks = [],
                       wc_source = consume_ref\<rparr>) sp2;
                   (_, sp4) = map_st (\<lambda>c. on_hot (\<lambda>hs. install_join hs c channels)) channels sp3
               in (Inr None, sp4)
           | Some _ \<Rightarrow> (Inl (Err (BugFoundError ''RUST ERROR: Installing can be done only on startup'')), sp1))"

definition space_install ::
  "('c, 'p, 'a, 'k) rspace_env \<Rightarrow> 'c list \<Rightarrow> 'p list \<Rightarrow> 'k \<Rightarrow> ('c, 'p, 'a, 'k, ('k \<times> 'a list) option) rs" where
  "space_install env channels patterns continuation = locked_install_internal env channels patterns continuation True"

text \<open>The installs are taken out and installed again, in the order of the hash map; a failure panics.\<close>

fun restore_loop ::
  "('c, 'p, 'a, 'k) rspace_env \<Rightarrow> ('c list \<times> ('p, 'k) install) list \<Rightarrow> ('c, 'p, 'a, 'k, unit) rs" where
  "restore_loop env [] = sret ()"
| "restore_loop env ((channels, inst) # rest) =
     sbind (\<lambda>sp. case locked_install_internal env channels (i_patterns inst) (i_continuation inst) True sp of
                   (r, sp') \<Rightarrow> (unwrap ''called unwrap on an Err value'' r, sp'))
       (\<lambda>_. restore_loop env rest)"

definition restore_installs :: "('c, 'p, 'a, 'k) rspace_env \<Rightarrow> ('c, 'p, 'a, 'k, unit) rs" where
  "restore_installs env sp = restore_loop env (installs sp) (sp\<lparr>installs := []\<rparr>)"

subsection \<open>Checkpoints\<close>

definition create_new_hot_store ::
  "('c, 'p, 'a, 'k) rspace_env \<Rightarrow> rspace_history_reader \<Rightarrow> ('c, 'p, 'a, 'k) rspace \<Rightarrow> ('c, 'p, 'a, 'k) rspace" where
  "create_new_hot_store env history_reader sp =
     sp\<lparr>hot := create_from_hr (reader_base (repo env) (history_kv (stores sp)) history_reader)\<rparr>"

definition space_reader ::
  "('c, 'p, 'a, 'k) rspace_env \<Rightarrow> bytes \<Rightarrow> ('c, 'p, 'a, 'k, rspace_history_reader) rs" where
  "space_reader env root sp =
     (map_err RSpaceHistoryError (get_history_reader (repo env) root (history_repo sp) (stores sp)), sp)"

definition create_checkpoint :: "('c, 'p, 'a, 'k) rspace_env \<Rightarrow> ('c, 'p, 'a, 'k, checkpoint) rs" where
  "create_checkpoint env sp =
     (case repo_checkpoint (repo env) (changes (hot sp)) (history_repo sp) (stores sp) of
        Inl e \<Rightarrow> (Inl e, sp)
      | Inr (next_history, stores') \<Rightarrow>
          let log = event_log sp;
              sp1 = sp\<lparr>history_repo := next_history, stores := stores', event_log := [], produce_counter := []\<rparr>
          in sbind (space_reader env (repo_root (history_repo sp1))) (\<lambda>history_reader.
             sbind (\<lambda>sp2. restore_installs env (create_new_hot_store env history_reader sp2)) (\<lambda>_ sp3.
               (Inr \<lparr>cp_root = repo_root (history_repo sp3), cp_log = log\<rparr>, sp3))) sp1)"

definition space_reset :: "('c, 'p, 'a, 'k) rspace_env \<Rightarrow> bytes \<Rightarrow> ('c, 'p, 'a, 'k, unit) rs" where
  "space_reset env root sp =
     (case map_err RSpaceHistoryError (repo_reset (repo env) root (history_repo sp) (stores sp)) of
        Inl e \<Rightarrow> (Inl e, sp)
      | Inr (next_history, stores') \<Rightarrow>
          sbind (space_reader env root) (\<lambda>history_reader sp2.
            restore_installs env (create_new_hot_store env history_reader sp2))
            (sp\<lparr>history_repo := next_history, stores := stores', event_log := [], produce_counter := []\<rparr>))"

definition space_clear :: "('c, 'p, 'a, 'k) rspace_env \<Rightarrow> ('c, 'p, 'a, 'k, unit) rs" where
  "space_clear env sp =
     (case unwrap ''encode'' (empty_root_node_hash (radix_of (repo env))) of
        Inl e \<Rightarrow> (Inl e, sp)
      | Inr root \<Rightarrow> space_reset env root sp)"

definition space_root :: "('c, 'p, 'a, 'k) rspace \<Rightarrow> bytes" where
  "space_root sp = repo_root (history_repo sp)"

definition space_to_map :: "('c, 'p, 'a, 'k) rspace \<Rightarrow> ('c list, ('p, 'a, 'k) row) hmap" where
  "space_to_map sp = to_map (hot sp)"

definition create_soft_checkpoint ::
  "('c, 'p, 'a, 'k) rspace \<Rightarrow> ('c, 'p, 'a, 'k) soft_checkpoint \<times> ('c, 'p, 'a, 'k) rspace" where
  "create_soft_checkpoint sp =
     (\<lparr>cache_snapshot = snapshot (hot sp), sc_log = event_log sp, sc_produce_counter = produce_counter sp\<rparr>,
      sp\<lparr>event_log := [], produce_counter := []\<rparr>)"

definition take_event_log :: "('c, 'p, 'a, 'k) rspace \<Rightarrow> event list \<times> ('c, 'p, 'a, 'k) rspace" where
  "take_event_log sp = (event_log sp, sp\<lparr>event_log := [], produce_counter := []\<rparr>)"

definition revert_to_soft_checkpoint ::
  "('c, 'p, 'a, 'k) rspace_env \<Rightarrow> ('c, 'p, 'a, 'k) soft_checkpoint \<Rightarrow> ('c, 'p, 'a, 'k, unit) rs" where
  "revert_to_soft_checkpoint env cp sp =
     sbind (space_reader env (space_root sp)) (\<lambda>history_reader sp1.
       (Inr (), sp1\<lparr>hot := create_from_hs_and_hr (cache_snapshot cp)
                     (reader_base (repo env) (history_kv (stores sp1)) history_reader),
                    event_log := sc_log cp, produce_counter := sc_produce_counter cp\<rparr>)) sp"

subsection \<open>Creation\<close>

definition space_apply ::
  "history_repository \<Rightarrow> rspace_store \<Rightarrow> ('c, 'p, 'a, 'k) in_mem_hot_store \<Rightarrow> ('c, 'p, 'a, 'k) rspace" where
  "space_apply history_repository sts store =
     \<lparr>history_repo = history_repository, stores = sts, hot = store, installs = [], event_log = [],
      produce_counter = [], draws = 0\<rparr>"

definition create_history_repo ::
  "('c, 'p, 'a, 'k) repo_env \<Rightarrow> rspace_store \<Rightarrow>
   (history_repository_error, (history_repository \<times> rspace_store) \<times> ('c, 'p, 'a, 'k) in_mem_hot_store) res" where
  "create_history_repo env store =
     rbind (lmdb_repository env store) (\<lambda>(history_repo, sts).
     rbind (map_err RepositoryHistoryError (get_history_reader env (repo_root history_repo) history_repo sts)) (\<lambda>history_reader.
       Inr ((history_repo, sts), create_from_hr (reader_base env (history_kv sts) history_reader))))"

definition space_create ::
  "('c, 'p, 'a, 'k) rspace_env \<Rightarrow> rspace_store \<Rightarrow> (history_repository_error, ('c, 'p, 'a, 'k) rspace) res" where
  "space_create env store =
     rbind (unwrap ''called unwrap on an Err value'' (create_history_repo (repo env) store)) (\<lambda>((history_repo, sts), hs).
       Inr (space_apply history_repo sts hs))"

text \<open>\<open>spawn\<close>: a new space over the same stores, at the current root; the spawning space sees the
  write of the current root to the shared roots store.\<close>

definition space_spawn ::
  "('c, 'p, 'a, 'k) rspace_env \<Rightarrow> ('c, 'p, 'a, 'k, ('c, 'p, 'a, 'k) rspace) rs" where
  "space_spawn env sp =
     (case map_err RSpaceHistoryError (repo_reset (repo env) (repo_root (history_repo sp)) (history_repo sp) (stores sp)) of
        Inl e \<Rightarrow> (Inl e, sp)
      | Inr (next_history, stores') \<Rightarrow>
          let sp' = sp\<lparr>stores := stores'\<rparr> in
          (case map_err RSpaceHistoryError (get_history_reader (repo env) (repo_root next_history) next_history stores') of
             Inl e \<Rightarrow> (Inl e, sp')
           | Inr history_reader \<Rightarrow>
               let hot_store = create_from_hr (reader_base (repo env) (history_kv stores') history_reader);
                   rspace = space_apply next_history stores' hot_store
               in (case restore_installs env rspace of
                     (Inl e, _) \<Rightarrow> (Inl e, sp')
                   | (Inr _, rspace') \<Rightarrow> (Inr rspace', sp'))))"

end
