(* ===== verification/RSpaceSpec.thy ===== *)
theory RSpaceSpec
  imports RSpace
begin

section \<open>What the tuple space does\<close>

text \<open>
  \<open>produce\<close> and \<open>consume\<close> against the abstract view of the hot store: which data and which
  continuation a match takes, what is stored when there is no match, and the invariants every
  operation keeps. \<open>upd sp v sp'\<close> says that \<open>sp'\<close> differs from \<open>sp\<close> only in the hot store, which
  shows \<open>v\<close>, and in the number of random draws.
\<close>

abbreviation sv :: "('c, 'p, 'a, 'k) rspace \<Rightarrow> ('c, 'p, 'a, 'k) view" where
  "sv sp \<equiv> hs_view (hot sp)"

abbreviation sok :: "('c, 'p, 'a, 'k) rspace \<Rightarrow> bool" where
  "sok sp \<equiv> hs_ok (hot sp)"

definition upd :: "('c, 'p, 'a, 'k) rspace \<Rightarrow> ('c, 'p, 'a, 'k) view \<Rightarrow> ('c, 'p, 'a, 'k) rspace \<Rightarrow> bool" where
  "upd sp v sp' \<longleftrightarrow> sp' = sp\<lparr>hot := hot sp', draws := draws sp'\<rparr> \<and> sok sp' \<and> sv sp' = v
     \<and> history_reader_base (hot sp') = history_reader_base (hot sp)"

lemma upd_refl: "sok sp \<Longrightarrow> upd sp (sv sp) sp"
  by (simp add: upd_def)

lemma upd_trans: "upd sp v sp1 \<Longrightarrow> upd sp1 w sp2 \<Longrightarrow> upd sp w sp2"
  by (cases sp; cases sp1; cases sp2) (simp add: upd_def)

lemma updD:
  assumes "upd sp v sp'"
  shows "sok sp'" "sv sp' = v" "history_repo sp' = history_repo sp" "stores sp' = stores sp" "installs sp' = installs sp"
    "event_log sp' = event_log sp" "produce_counter sp' = produce_counter sp"
    "history_reader_base (hot sp') = history_reader_base (hot sp)"
  using assms by (cases sp; cases sp'; simp add: upd_def)+

lemma on_hot_step:
  assumes "sok sp" "snd (f (hot sp)) = hs_step denv (hot sp) op"
  shows "upd sp (v_step denv (sv sp) op) (snd (on_hot f sp))" "fst (on_hot f sp) = fst (f (hot sp))"
proof -
  obtain x hs where f: "f (hot sp) = (x, hs)" by fastforce
  with assms(2) have hs: "hs = hs_step denv (hot sp) op" by simp
  from hs_step_refines [OF assms(1), of denv op] history_reader_step [of denv "hot sp" op]
  show "upd sp (v_step denv (sv sp) op) (snd (on_hot f sp))"
    by (simp add: on_hot_def f upd_def hs)
  show "fst (on_hot f sp) = fst (f (hot sp))"
    by (simp add: on_hot_def f)
qed

lemma on_hot_get_data: "sok sp \<Longrightarrow> \<exists>sp'. on_hot (\<lambda>hs. get_data hs c) sp = (v_data (sv sp) c, sp') \<and> upd sp (sv sp) sp'"
  using on_hot_step [of sp "\<lambda>hs. get_data hs c" undefined "GetData c"] ihs.get_dat [of "hot sp" c]
  by (cases "on_hot (\<lambda>hs. get_data hs c) sp") auto

lemma on_hot_get_continuations:
  "sok sp \<Longrightarrow> \<exists>sp'. on_hot (\<lambda>hs. get_continuations hs cs) sp = (all_conts (sv sp) cs, sp') \<and> upd sp (sv sp) sp'"
  using on_hot_step [of sp "\<lambda>hs. get_continuations hs cs" undefined "GetContinuations cs"] ihs.get_conts [of "hot sp" cs]
  by (cases "on_hot (\<lambda>hs. get_continuations hs cs) sp") auto

lemma on_hot_get_joins:
  "sok sp \<Longrightarrow> \<exists>sp'. on_hot (\<lambda>hs. get_joins hs c) sp = (all_joins (sv sp) c, sp') \<and> upd sp (sv sp) sp'"
  using on_hot_step [of sp "\<lambda>hs. get_joins hs c" undefined "GetJoins c"] ihs.get_js [of "hot sp" c]
  by (cases "on_hot (\<lambda>hs. get_joins hs c) sp") auto

lemma on_hot_remove_datum:
  "sok sp \<Longrightarrow> \<exists>r sp'. on_hot (\<lambda>hs. remove_datum hs c i) sp = (r, sp') \<and> upd sp (v_remove_datum c i (sv sp)) sp'
    \<and> (r = Inr () \<longleftrightarrow> in_range i (v_data (sv sp) c))"
  using on_hot_step [of sp "\<lambda>hs. remove_datum hs c i" undefined "RemoveDatum c i"] ihs.remove_dat [of "hot sp" c i]
  by (cases "on_hot (\<lambda>hs. remove_datum hs c i) sp") (auto split: if_splits)

lemma on_hot_writes:
  assumes "sok sp"
  shows "upd sp (v_put_cont denv cs wc (sv sp)) (snd (on_hot (\<lambda>hs. put_continuation denv hs cs wc) sp))"
    and "upd sp (v_put_join c cs (sv sp)) (snd (on_hot (\<lambda>hs. put_join hs c cs) sp))"
    and "upd sp (v_remove_cont cs i (sv sp)) (snd (on_hot (\<lambda>hs. remove_continuation hs cs i) sp))"
    and "upd sp (v_remove_join c cs (sv sp)) (snd (on_hot (\<lambda>hs. remove_join hs c cs) sp))"
    and "upd sp (v_install_cont cs wc (sv sp)) (snd (on_hot (\<lambda>hs. install_continuation hs cs wc) sp))"
    and "upd sp (v_install_join c cs (sv sp)) (snd (on_hot (\<lambda>hs. install_join hs c cs) sp))"
  using on_hot_step [OF assms, of "\<lambda>hs. put_continuation denv hs cs wc" denv "PutContinuation cs wc"]
    on_hot_step [OF assms, of "\<lambda>hs. put_join hs c cs" undefined "PutJoin c cs"]
    on_hot_step [OF assms, of "\<lambda>hs. remove_continuation hs cs i" undefined "RemoveContinuation cs i"]
    on_hot_step [OF assms, of "\<lambda>hs. remove_join hs c cs" undefined "RemoveJoin c cs"]
    on_hot_step [OF assms, of "\<lambda>hs. install_continuation hs cs wc" undefined "InstallContinuation cs wc"]
    on_hot_step [OF assms, of "\<lambda>hs. install_join hs c cs" undefined "InstallJoin c cs"]
  by simp_all

lemma store_data_upd:
  "sok sp \<Longrightarrow> upd sp (v_put_datum c \<lparr>a_val = a, d_persist = b, d_source = r\<rparr> (sv sp)) (store_data c a b r sp)"
  using hs_step_refines [of "hot sp" undefined "PutDatum c \<lparr>a_val = a, d_persist = b, d_source = r\<rparr>"]
    history_reader_step [of undefined "hot sp" "PutDatum c \<lparr>a_val = a, d_persist = b, d_source = r\<rparr>"]
  by (simp add: upd_def store_data_def)

text \<open>A stateful map whose steps write to the store.\<close>

lemma map_st_upd:
  assumes step: "\<And>x s. sok s \<Longrightarrow> x \<in> set xs \<Longrightarrow> upd s (g x (sv s)) (snd (f x s))"
  shows "sok sp \<Longrightarrow> upd sp (fold g xs (sv sp)) (snd (map_st f xs sp))"
  using step
proof (induction xs arbitrary: sp)
  case Nil
  then show ?case by (simp add: upd_refl)
next
  case (Cons x xs)
  have 1: "upd sp (g x (sv sp)) (snd (f x sp))"
    using Cons.prems by simp
  have "upd (snd (f x sp)) (fold g xs (sv (snd (f x sp)))) (snd (map_st f xs (snd (f x sp))))"
    using Cons.IH [of "snd (f x sp)"] Cons.prems updD(1) [OF 1] by simp
  with upd_trans [OF 1] updD(2) [OF 1] show ?case
    by (simp add: case_prod_unfold Let_def)
qed

subsection \<open>Random order\<close>

definition shuffles :: "('c, 'p, 'a, 'k) rspace_env \<Rightarrow> bool" where
  "shuffles env \<longleftrightarrow> (\<forall>n l. mset (shuffle env n l) = mset [0..<l])"

text \<open>The elements of a list with their positions, in some order.\<close>

definition indexes :: "'d list \<Rightarrow> ('d \<times> int) list \<Rightarrow> bool" where
  "indexes t ix \<longleftrightarrow> mset ix = mset (map (\<lambda>i. (t ! i, int i)) [0..<length t])"

lemma shuffle_with_index:
  assumes "shuffles env" "sok sp"
  shows "\<exists>ix sp'. shuffle_with_index env t sp = (ix, sp') \<and> indexes t ix \<and> upd sp (sv sp) sp'"
proof -
  have "mset (map (\<lambda>i. (t ! i, int i)) (shuffle env (draws sp) (length t))) =
      image_mset (\<lambda>i. (t ! i, int i)) (mset [0..<length t])"
    using assms(1) unfolding shuffles_def by (metis mset_map)
  then show ?thesis
    using assms(2) by (simp add: shuffle_with_index_def indexes_def upd_def mset_map del: mset_upt)
qed

lemma indexes_set: "indexes t ix \<Longrightarrow> set ix = {(t ! i, int i) |i. i < length t}"
  unfolding indexes_def by (drule mset_eq_setD) auto

lemma indexes_distinct: "indexes t ix \<Longrightarrow> distinct (map snd ix)"
proof -
  assume "indexes t ix"
  then have "mset (map snd ix) = mset (map snd (map (\<lambda>i. (t ! i, int i)) [0..<length t]))"
    unfolding indexes_def by (metis mset_map)
  also have "map snd (map (\<lambda>i. (t ! i, int i)) [0..<length t]) = map int [0..<length t]"
    by simp
  finally show ?thesis
    by (metis distinct_map distinct_upt inj_of_nat inj_on_subset mset_eq_imp_distinct_iff subset_UNIV)
qed

subsection \<open>The data of a join\<close>

definition index_of_view :: "('c, 'p, 'a, 'k) view \<Rightarrow> 'c set \<Rightarrow> ('c, 'a) index_data \<Rightarrow> bool" where
  "index_of_view v C m \<longleftrightarrow> (\<forall>c \<in> C. \<exists>ix. hm_get m c = Some ix \<and> indexes (v_data v c) ix)"

lemma fetch_data_view:
  assumes "shuffles env"
  shows "sok sp \<Longrightarrow> \<exists>m' sp'. fetch_channel_to_index_data env cs m sp = (m', sp') \<and> upd sp (sv sp) sp'
    \<and> index_of_view (sv sp) (set cs) m' \<and> (\<forall>c. c \<notin> set cs \<longrightarrow> hm_get m' c = hm_get m c)"
proof (induction cs arbitrary: m sp)
  case Nil
  then show ?case by (simp add: index_of_view_def upd_refl)
next
  case (Cons c cs)
  obtain sp1 where 1: "on_hot (\<lambda>hs. get_data hs c) sp = (v_data (sv sp) c, sp1)" "upd sp (sv sp) sp1"
    using on_hot_get_data [OF Cons.prems] by blast
  obtain ix sp2 where 2: "shuffle_with_index env (v_data (sv sp) c) sp1 = (ix, sp2)" "indexes (v_data (sv sp) c) ix"
    "upd sp1 (sv sp1) sp2"
    using shuffle_with_index [OF assms updD(1) [OF 1(2)]] by blast
  have v: "sv sp2 = sv sp" "sok sp2" and u: "upd sp (sv sp) sp2"
    using updD [OF 1(2)] updD [OF 2(3)] upd_trans [OF 1(2) 2(3)] by auto
  obtain m' sp' where 3: "fetch_channel_to_index_data env cs (hm_put c ix m) sp2 = (m', sp')" "upd sp2 (sv sp) sp'"
    "index_of_view (sv sp) (set cs) m'" "\<forall>d. d \<notin> set cs \<longrightarrow> hm_get m' d = hm_get (hm_put c ix m) d"
    using Cons.IH [OF v(2), of "hm_put c ix m"] v(1) by auto
  have "index_of_view (sv sp) (set (c # cs)) m'"
    using 3(3,4) 2(2) by (cases "c \<in> set cs") (auto simp: index_of_view_def)
  with 1 2 3 upd_trans [OF u 3(2)] show ?case by simp
qed

text \<open>A pattern has a datum on its channel, and the candidate that was picked for it.\<close>

definition has_datum :: "('p, 'a) matcher \<Rightarrow> ('c, 'p, 'a, 'k) view \<Rightarrow> 'c \<times> 'p \<Rightarrow> bool" where
  "has_datum matcher v cp \<longleftrightarrow> (\<exists>d \<in> set (v_data v (fst cp)). matcher (snd cp) (a_val d) \<noteq> None)"

definition picks :: "('p, 'a) matcher \<Rightarrow> ('c, 'p, 'a, 'k) view \<Rightarrow> 'c \<times> 'p \<Rightarrow> ('c, 'a) consume_candidate \<Rightarrow> bool" where
  "picks matcher v cp cand \<longleftrightarrow> (\<exists>i < length (v_data v (fst cp)).
     matcher (snd cp) (a_val (v_data v (fst cp) ! i)) \<noteq> None
     \<and> cand = cand_of matcher (fst cp) (snd cp) (v_data v (fst cp) ! i, int i))"

lemma pair_matches_view:
  assumes "index_of_view v C m" "fst cp \<in> C"
  shows "pair_matches matcher m cp \<longleftrightarrow> has_datum matcher v cp"
proof -
  obtain ix where ix: "hm_get m (fst cp) = Some ix" "indexes (v_data v (fst cp)) ix"
    using assms by (auto simp: index_of_view_def)
  have "list_ex (matches matcher (snd cp)) ix \<longleftrightarrow> has_datum matcher v cp"
    unfolding list_ex_iff indexes_set [OF ix(2)] has_datum_def by (fastforce simp: matches_def in_set_conv_nth)
  with ix(1) show ?thesis by (simp add: pair_matches_def)
qed

lemma select_view:
  assumes "index_of_view v C m" "fst cp \<in> C" "select matcher m cp = Some (cand, rem)"
  shows "picks matcher v cp cand"
proof -
  obtain ix where ix: "hm_get m (fst cp) = Some ix" "indexes (v_data v (fst cp)) ix"
    using assms(1,2) by (auto simp: index_of_view_def)
  with assms(3) have "find_matching_data_candidate matcher (fst cp) ix (snd cp) = Some (cand, rem)"
    by (simp add: select_def)
  from find_matching_Some [OF this] obtain d where
    "d \<in> set ix" "matches matcher (snd cp) d" "cand = cand_of matcher (fst cp) (snd cp) d"
    by blast
  then show ?thesis
    unfolding indexes_set [OF ix(2)] picks_def by (auto simp: matches_def)
qed

lemma all_candidates_map:
  "all_candidates (map (\<lambda>x. map_option fst (f x)) xs) =
    (if \<forall>x \<in> set xs. f x \<noteq> None then Some (map (\<lambda>x. fst (the (f x))) xs) else None)"
proof -
  have "List.map_filter (\<lambda>x. x) (map (\<lambda>x. map_option fst (f x)) xs) = map (\<lambda>x. fst (the (f x))) xs" if "\<forall>x \<in> set xs. f x \<noteq> None"
    using that by (induction xs) (auto simp: List.map_filter_def)
  then show ?thesis by (auto simp: all_candidates_def list_all_iff)
qed

text \<open>The candidates of a join without repeated channels.\<close>

lemma candidates_view:
  assumes "distinct channels" "index_of_view v (set channels) m"
  shows "case all_candidates (fst (extract_data_candidates matcher (zip channels patterns) m)) of
      Some cands \<Rightarrow> list_all2 (picks matcher v) (zip channels patterns) cands
    | None \<Rightarrow> \<exists>cp \<in> set (zip channels patterns). \<not> has_datum matcher v cp"
proof -
  let ?pairs = "zip channels patterns"
  obtain acc m' log where ex: "extract_data_candidates_rollback matcher ?pairs m [] = (acc, m', log)"
    by (metis prod_cases3)
  have "distinct (map fst ?pairs)"
    using assms(1) by (simp add: map_fst_zip_take)
  from extract_distinct [OF this ex] have acc: "acc = map (\<lambda>cp. map_option fst (select matcher m cp)) ?pairs"
    by blast
  have C: "fst cp \<in> set channels" if "cp \<in> set ?pairs" for cp
    using that set_zip_leftD [of "fst cp" "snd cp" channels patterns] by simp
  have "picks matcher v cp (fst (the (select matcher m cp)))" if "cp \<in> set ?pairs" "select matcher m cp \<noteq> None" for cp
    using select_view [OF assms(2) C [OF that(1)]] that(2) by fastforce
  moreover have "select matcher m cp = None \<longleftrightarrow> \<not> has_datum matcher v cp" if "cp \<in> set ?pairs" for cp
    using select_None_iff pair_matches_view [OF assms(2) C [OF that]] by blast
  ultimately show ?thesis
    using ex by (auto simp: extract_data_candidates_def acc all_candidates_map list_all2_map2 list_all2_same)
qed

subsection \<open>Removing what was matched\<close>

definition v_take :: "('c, 'a) consume_candidate \<Rightarrow> ('c, 'p, 'a, 'k) view \<Rightarrow> ('c, 'p, 'a, 'k) view" where
  "v_take cand v =
     (if datum_index cand \<ge> 0 \<and> \<not> d_persist (cc_datum cand) then v_remove_datum (cc_channel cand) (datum_index cand) v else v)"

lemma option_eq_iff: "(\<And>z. x = Some z \<longleftrightarrow> y = Some z) \<Longrightarrow> x = y"
  by (cases x; cases y) auto

text \<open>Without repeated channels the order of the removals does not matter.\<close>

definition v_taken ::
  "('c, 'a) consume_candidate list \<Rightarrow> ('c, 'p, 'a, 'k) view \<Rightarrow> ('c, 'p, 'a, 'k) view" where
  "v_taken cands v = v\<lparr>v_data := (\<lambda>c.
     case find (\<lambda>cand. cc_channel cand = c) cands of
       Some cand \<Rightarrow> v_data (v_take cand v) c | None \<Rightarrow> v_data v c)\<rparr>"

lemma v_take_data: "v_data (v_take cand v) c =
    (if c = cc_channel cand \<and> datum_index cand \<ge> 0 \<and> \<not> d_persist (cc_datum cand)
     then remove_at (datum_index cand) (v_data v c) else v_data v c)"
  by (simp add: v_take_def v_remove_datum_def)

lemma v_take_rest: "(v_take cand v)\<lparr>v_data := f\<rparr> = v\<lparr>v_data := f\<rparr>"
  by (simp add: v_take_def v_remove_datum_def)

lemma v_taken_rest: "v_taken cands v = v\<lparr>v_data := v_data (v_taken cands v)\<rparr>"
  by (simp add: v_taken_def)

lemma v_taken_Cons:
  assumes "distinct (map cc_channel (cand # cands))"
  shows "v_taken cands (v_take cand v) = v_taken (cand # cands) v"
proof -
  have "v_data (v_taken cands (v_take cand v)) c = v_data (v_taken (cand # cands) v) c" for c
  proof (cases "find (\<lambda>x. cc_channel x = c) cands")
    case None
    then show ?thesis by (simp add: v_taken_def v_take_data)
  next
    case (Some x)
    then have "c \<noteq> cc_channel cand"
      using find_Some_sat [OF Some] find_Some_in [OF Some] assms by (auto simp: image_iff)
    with Some show ?thesis by (simp add: v_taken_def v_take_data)
  qed
  then have "v_data (v_taken cands (v_take cand v)) = v_data (v_taken (cand # cands) v)" ..
  then show ?thesis
    using v_taken_rest [of cands "v_take cand v"] v_taken_rest [of "cand # cands" v] by (simp add: v_take_rest)
qed

lemma fold_v_take:
  "distinct (map cc_channel cands) \<Longrightarrow> fold v_take cands v = v_taken cands v"
  by (induction cands arbitrary: v) (simp_all add: v_taken_Cons [symmetric], simp add: v_taken_def)

lemma find_channel:
  "distinct (map cc_channel zs) \<Longrightarrow> find (\<lambda>cand. cc_channel cand = c) zs = Some x \<longleftrightarrow> x \<in> set zs \<and> cc_channel x = c"
  by (induction zs) auto

lemma find_channel_mset:
  assumes "distinct (map cc_channel xs)" "mset xs = mset ys"
  shows "find (\<lambda>cand. cc_channel cand = c) xs = find (\<lambda>cand. cc_channel cand = c) ys"
proof -
  have "mset (map cc_channel xs) = mset (map cc_channel ys)"
    using assms(2) by simp
  then have "distinct (map cc_channel ys)"
    using assms(1) mset_eq_imp_distinct_iff by blast
  then have "find (\<lambda>cand. cc_channel cand = c) xs = Some x \<longleftrightarrow> find (\<lambda>cand. cc_channel cand = c) ys = Some x" for x
    using find_channel [OF assms(1), of c x] find_channel [of ys c x] mset_eq_setD [OF assms(2)] by simp
  then show ?thesis by (rule option_eq_iff)
qed

lemma removal_order_mset [simp]: "mset (removal_order cands) = mset cands"
  by (simp add: removal_order_def)

lemma removal_order_facts [simp]:
  "set (removal_order cands) = set cands"
  "distinct (map cc_channel (removal_order cands)) \<longleftrightarrow> distinct (map cc_channel cands)"
  using mset_eq_setD [OF removal_order_mset [of cands]]
    mset_eq_imp_distinct_iff [of "map cc_channel (removal_order cands)" "map cc_channel cands"] by simp_all

lemma v_taken_order: "distinct (map cc_channel cands) \<Longrightarrow> v_taken (removal_order cands) v = v_taken cands v"
  using find_channel_mset [of "removal_order cands" cands] by (simp add: v_taken_def)

text \<open>The data are removed one after the other, whether or not two of them share a channel.\<close>

lemma store_persistent_data_fold:
  assumes "sok sp" "\<forall>cand \<in> set cands. datum_index cand \<ge> 0"
  shows "upd sp (fold v_take (removal_order cands) (sv sp)) (snd (store_persistent_data cands sp))"
proof -
  let ?f = "\<lambda>c sp. if \<not> d_persist (cc_datum c)
      then let (r, sp') = on_hot (\<lambda>hs. remove_datum hs (cc_channel c) (datum_index c)) sp
           in (case r of Inr u \<Rightarrow> Some u | Inl _ \<Rightarrow> None, sp')
      else (Some (), sp)"
  have "upd s (v_take c (sv s)) (snd (?f c s))" if "sok s" "c \<in> set (removal_order cands)" for c s
    using that assms(2) on_hot_remove_datum [of s "cc_channel c" "datum_index c"]
    by (auto simp: v_take_def upd_refl Let_def)
  then have "upd sp (fold v_take (removal_order cands) (sv sp)) (snd (map_st ?f (removal_order cands) sp))"
    using assms(1) by (rule map_st_upd)
  then show ?thesis by (simp add: store_persistent_data_def case_prod_unfold Let_def)
qed

lemma store_persistent_data_upd:
  assumes "sok sp" "distinct (map cc_channel cands)" "\<forall>cand \<in> set cands. datum_index cand \<ge> 0"
  shows "upd sp (v_taken cands (sv sp)) (snd (store_persistent_data cands sp))"
  using store_persistent_data_fold [OF assms(1,3)] assms(2) by (simp add: fold_v_take v_taken_order)

subsection \<open>Consume\<close>

definition v_wait ::
  "('p, 'k) debug_env \<Rightarrow> 'c list \<Rightarrow> ('p, 'k) waiting_continuation \<Rightarrow> ('c, 'p, 'a, 'k) view \<Rightarrow> ('c, 'p, 'a, 'k) view" where
  "v_wait denv channels wc v = fold (\<lambda>c. v_put_join c channels) channels (v_put_cont denv channels wc v)"

lemma store_waiting_continuation_upd:
  assumes "sok sp"
  shows "upd sp (v_wait (debug env) channels wc (sv sp)) (store_waiting_continuation env channels wc sp)"
proof -
  let ?sp1 = "snd (on_hot (\<lambda>hs. put_continuation (debug env) hs channels wc) sp)"
  have 1: "upd sp (v_put_cont (debug env) channels wc (sv sp)) ?sp1"
    by (rule on_hot_writes(1) [OF assms])
  have "upd ?sp1 (fold (\<lambda>c. v_put_join c channels) channels (sv ?sp1))
      (snd (map_st (\<lambda>c. on_hot (\<lambda>hs. put_join hs c channels)) channels ?sp1))"
    by (rule map_st_upd) (auto intro: on_hot_writes(2) updD(1) [OF 1])
  then show ?thesis
    using upd_trans [OF 1] updD(2) [OF 1]
    by (simp add: v_wait_def store_waiting_continuation_def case_prod_unfold)
qed

text \<open>What an operation on the tuple space never touches.\<close>

definition frame :: "('c, 'p, 'a, 'k) rspace \<Rightarrow> ('c, 'p, 'a, 'k) rspace \<Rightarrow> bool" where
  "frame sp sp' \<longleftrightarrow> sok sp' \<and> history_repo sp' = history_repo sp \<and> stores sp' = stores sp
     \<and> history_reader_base (hot sp') = history_reader_base (hot sp)"

lemma upd_frame: "upd sp v sp' \<Longrightarrow> frame sp sp'"
  using updD [of sp v sp'] by (simp add: frame_def)

lemma frame_trans: "frame sp sp1 \<Longrightarrow> frame sp1 sp2 \<Longrightarrow> frame sp sp2"
  by (simp add: frame_def)

lemma picks_channel: "picks matcher v cp cand \<Longrightarrow> cc_channel cand = fst cp"
  by (auto simp: picks_def cand_of_def)

lemma picks_index: "picks matcher v cp cand \<Longrightarrow> datum_index cand \<ge> 0"
  by (auto simp: picks_def cand_of_def)

lemma list_all2_in1: "list_all2 P xs ys \<Longrightarrow> x \<in> set xs \<Longrightarrow> \<exists>y \<in> set ys. P x y"
  by (induction rule: list_all2_induct) auto

lemma picks_has_datum: "picks matcher v cp cand \<Longrightarrow> has_datum matcher v cp"
  by (auto simp: picks_def has_datum_def intro!: bexI nth_mem)

lemma picked_channels:
  assumes "list_all2 (picks matcher v) (zip channels patterns) cands" "length channels = length patterns"
  shows "map cc_channel cands = channels" "\<forall>cand \<in> set cands. datum_index cand \<ge> 0"
proof -
  have "map cc_channel cands = map fst (zip channels patterns)"
    using assms(1) by (induction rule: list_all2_induct) (auto dest: picks_channel)
  with assms(2) show "map cc_channel cands = channels" by simp
  show "\<forall>cand \<in> set cands. datum_index cand \<ge> 0"
    using assms(1) by (induction rule: list_all2_induct) (auto dest: picks_index)
qed

definition consume_wk ::
  "('c, 'p, 'a, 'k) rspace_env \<Rightarrow> 'c list \<Rightarrow> 'p list \<Rightarrow> 'k \<Rightarrow> bool \<Rightarrow> int list \<Rightarrow> ('p, 'k) waiting_continuation" where
  "consume_wk env channels patterns k persist peeks =
     waiting_continuation_create (space_henv env) channels patterns k persist peeks"

lemma consume_view:
  fixes env :: "('c, 'p, 'a, 'k) rspace_env" and k :: 'k and persist :: bool and peeks :: "int list"
  assumes env: "shuffles env" "sok sp" and ch: "channels \<noteq> []" "length channels = length patterns" "distinct channels"
  defines "wk \<equiv> consume_wk env channels patterns k persist peeks"
  shows "\<exists>r sp'. space_consume env channels patterns k persist peeks sp = (Inr r, sp') \<and> frame sp sp'
    \<and> installs sp' = installs sp \<and> produce_counter sp' = produce_counter sp
    \<and> (if \<forall>cp \<in> set (zip channels patterns). has_datum (get_match env) (sv sp) cp
       then \<exists>cands. list_all2 (picks (get_match env) (sv sp)) (zip channels patterns) cands
         \<and> r = wrap_result channels wk cands \<and> sv sp' = v_taken cands (sv sp)
         \<and> event_log sp' = Comm (comm_new cands (wc_source wk) peeks (produce_counters sp))
             # IoEvent (ConsumeEvent (wc_source wk)) # event_log sp
       else r = None \<and> sv sp' = v_wait (debug env) channels wk (sv sp)
         \<and> event_log sp' = IoEvent (ConsumeEvent (wc_source wk)) # event_log sp)"
proof -
  let ?ref = "consume_create (space_henv env) channels patterns k persist"
  let ?sp1 = "log_consume ?ref sp"
  have wk: "wk = \<lparr>wc_patterns = patterns, wc_continuation = k, wc_persist = persist, wc_peeks = peeks, wc_source = ?ref\<rparr>"
    by (simp add: wk_def consume_wk_def waiting_continuation_create_def)
  have s1: "sok ?sp1" "sv ?sp1 = sv sp" "frame sp ?sp1" "installs ?sp1 = installs sp" "produce_counter ?sp1 = produce_counter sp"
    "event_log ?sp1 = IoEvent (ConsumeEvent ?ref) # event_log sp"
    using env(2) by (simp_all add: log_consume_def frame_def)
  obtain m sp2 where 2: "fetch_channel_to_index_data env channels [] ?sp1 = (m, sp2)" "upd ?sp1 (sv sp) sp2"
    "index_of_view (sv sp) (set channels) m"
    using fetch_data_view [OF env(1) s1(1), of channels "[]"] s1(2) by auto
  note s2 = updD [OF 2(2)] and cands = candidates_view [OF ch(3) 2(3), where matcher = "get_match env" and patterns = patterns]
  have f2: "frame sp sp2"
    using frame_trans [OF s1(3) upd_frame [OF 2(2)]] .
  show ?thesis
  proof (cases "all_candidates (fst (extract_data_candidates (get_match env) (zip channels patterns) m))")
    case None
    with cands have no: "\<not> (\<forall>cp \<in> set (zip channels patterns). has_datum (get_match env) (sv sp) cp)"
      by auto
    have 3: "upd sp2 (v_wait (debug env) channels wk (sv sp)) (store_waiting_continuation env channels wk sp2)"
      using store_waiting_continuation_upd [OF s2(1), of env channels wk] s2(2) by simp
    show ?thesis
      unfolding if_not_P [OF no]
      using None ch 2(1) updD [OF 3] s1 s2 frame_trans [OF f2 upd_frame [OF 3]]
      by (simp add: space_consume_def locked_consume_def Let_def wk)
  next
    case (Some cs)
    with cands have picked: "list_all2 (picks (get_match env) (sv sp)) (zip channels patterns) cs"
      by simp
    then have yes: "\<forall>cp \<in> set (zip channels patterns). has_datum (get_match env) (sv sp) cp"
      using list_all2_in1 [OF picked] picks_has_datum by blast
    note facts = picked_channels [OF picked ch(2)]
    have pc: "produce_counters sp2 = produce_counters sp"
      using s2(7) s1(5) by (simp add: produce_counters_def fun_eq_iff)
    let ?sp3 = "log_comm (comm_new cs ?ref peeks (produce_counters sp2)) sp2"
    have s3: "sok ?sp3" "sv ?sp3 = sv sp" "frame sp2 ?sp3" "installs ?sp3 = installs sp" "produce_counter ?sp3 = produce_counter sp"
      "event_log ?sp3 = Comm (comm_new cs ?ref peeks (produce_counters sp)) # event_log sp2"
      using s2 s1 by (simp_all add: log_comm_def frame_def pc)
    have 4: "upd ?sp3 (v_taken cs (sv sp)) (snd (store_persistent_data cs ?sp3))"
      using store_persistent_data_upd [OF s3(1)] facts ch(3) s3(2) by simp
    have run: "space_consume env channels patterns k persist peeks sp =
        (Inr (wrap_result channels wk cs), snd (store_persistent_data cs ?sp3))"
      using Some ch 2(1) by (simp add: space_consume_def locked_consume_def Let_def wk case_prod_unfold)
    show ?thesis
      unfolding if_P [OF yes] run
      by (rule exI, rule exI, rule conjI [OF refl], intro conjI exI [of _ cs])
        (use picked updD [OF 4] s1 s2 s3 frame_trans [OF frame_trans [OF f2 s3(3)] upd_frame [OF 4]] in \<open>simp_all add: wk\<close>)
  qed
qed

subsection \<open>Produce\<close>

text \<open>The data of a join, with the datum that is being produced in front on its channel.\<close>

definition index_of_produce ::
  "('c, 'p, 'a, 'k) view \<Rightarrow> 'c \<Rightarrow> 'a datum \<Rightarrow> 'c set \<Rightarrow> ('c, 'a) index_data \<Rightarrow> bool" where
  "index_of_produce v channel d C m \<longleftrightarrow> (\<forall>c \<in> C. \<exists>ix. indexes (v_data v c) ix
     \<and> hm_get m c = Some (if c = channel then (d, -1) # ix else ix))"

text \<open>The new datum is taken whenever it matches.\<close>

definition picks_new ::
  "('p, 'a) matcher \<Rightarrow> ('c, 'p, 'a, 'k) view \<Rightarrow> 'c \<Rightarrow> 'a datum \<Rightarrow> 'c \<times> 'p \<Rightarrow> ('c, 'a) consume_candidate \<Rightarrow> bool" where
  "picks_new matcher v channel d cp cand \<longleftrightarrow>
     (if fst cp = channel \<and> matcher (snd cp) (a_val d) \<noteq> None
      then cand = cand_of matcher (fst cp) (snd cp) (d, -1) else picks matcher v cp cand)"

lemma has_datum_put:
  "has_datum matcher (v_put_datum channel d v) cp \<longleftrightarrow>
   has_datum matcher v cp \<or> fst cp = channel \<and> matcher (snd cp) (a_val d) \<noteq> None"
  by (auto simp: has_datum_def v_put_datum_def)

lemma pair_matches_produce:
  assumes "index_of_produce v channel d C m" "fst cp \<in> C"
  shows "pair_matches matcher m cp \<longleftrightarrow> has_datum matcher (v_put_datum channel d v) cp"
proof -
  obtain ix where ix: "indexes (v_data v (fst cp)) ix" "hm_get m (fst cp) = Some (if fst cp = channel then (d, -1) # ix else ix)"
    using assms by (auto simp: index_of_produce_def)
  have "list_ex (matches matcher (snd cp)) ix \<longleftrightarrow> has_datum matcher v cp"
    unfolding list_ex_iff indexes_set [OF ix(1)] has_datum_def by (fastforce simp: matches_def in_set_conv_nth)
  with ix(2) show ?thesis by (auto simp: pair_matches_def has_datum_put matches_def)
qed

lemma select_produce:
  assumes "index_of_produce v channel d C m" "fst cp \<in> C" "select matcher m cp = Some (cand, rem)"
  shows "picks_new matcher v channel d cp cand"
proof -
  obtain ix where ix: "indexes (v_data v (fst cp)) ix" "hm_get m (fst cp) = Some (if fst cp = channel then (d, -1) # ix else ix)"
    using assms(1,2) by (auto simp: index_of_produce_def)
  let ?data = "if fst cp = channel then (d, -1) # ix else ix"
  have find: "find_matching_data_candidate matcher (fst cp) ?data (snd cp) = Some (cand, rem)"
    using assms(3) ix(2) by (simp add: select_def)
  show ?thesis
  proof (cases "fst cp = channel \<and> matcher (snd cp) (a_val d) \<noteq> None")
    case True
    with find show ?thesis
      by (simp add: picks_new_def find_matching_eq matches_def)
  next
    case False
    from find_matching_Some [OF find] obtain x where
      x: "x \<in> set ?data" "matches matcher (snd cp) x" "cand = cand_of matcher (fst cp) (snd cp) x"
      by blast
    with False have "x \<in> set ix"
      by (auto simp: matches_def split: if_splits)
    with x False show ?thesis
      unfolding indexes_set [OF ix(1)] by (auto simp: picks_new_def picks_def matches_def)
  qed
qed

lemma fetch_entries:
  assumes "shuffles env"
  shows "sok sp \<Longrightarrow> \<exists>entries sp'. map_st (fetch_matching_data env channel d) cs sp = (entries, sp') \<and> upd sp (sv sp) sp'
    \<and> list_all2 (\<lambda>c e. fst e = c \<and> (\<exists>ix. indexes (v_data (sv sp) c) ix
        \<and> snd e = (if c = channel then (d, -1) # ix else ix))) cs entries"
proof (induction cs arbitrary: sp)
  case Nil
  then show ?case by (simp add: upd_refl)
next
  case (Cons c cs)
  obtain sp1 where 1: "on_hot (\<lambda>hs. get_data hs c) sp = (v_data (sv sp) c, sp1)" "upd sp (sv sp) sp1"
    using on_hot_get_data [OF Cons.prems] by blast
  obtain ix sp2 where 2: "shuffle_with_index env (v_data (sv sp) c) sp1 = (ix, sp2)" "indexes (v_data (sv sp) c) ix"
    "upd sp1 (sv sp1) sp2"
    using shuffle_with_index [OF assms updD(1) [OF 1(2)]] by blast
  have v: "sv sp2 = sv sp" "sok sp2" and u: "upd sp (sv sp) sp2"
    using updD [OF 1(2)] updD [OF 2(3)] upd_trans [OF 1(2) 2(3)] by auto
  obtain entries sp' where 3: "map_st (fetch_matching_data env channel d) cs sp2 = (entries, sp')" "upd sp2 (sv sp) sp'"
    "list_all2 (\<lambda>c e. fst e = c \<and> (\<exists>ix. indexes (v_data (sv sp) c) ix
        \<and> snd e = (if c = channel then (d, -1) # ix else ix))) cs entries"
    using Cons.IH [OF v(2)] v(1) by auto
  have "fetch_matching_data env channel d c sp = ((c, if c = channel then (d, -1) # ix else ix), sp2)"
    using 1(1) 2(1) by (simp add: fetch_matching_data_def)
  with 2(2) 3 upd_trans [OF u 3(2)] show ?case by auto
qed

lemma entries_index:
  assumes "list_all2 (\<lambda>c e. fst e = c \<and> (\<exists>ix. indexes (v_data v c) ix
      \<and> snd e = (if c = channel then (d, -1) # ix else ix))) cs entries"
  shows "index_of_produce v channel d (set cs) (foldl (\<lambda>m (c, d). hm_put c d m) [] entries)"
proof -
  have "index_of_produce v channel d (C \<union> set cs) (foldl (\<lambda>m (c, d). hm_put c d m) m entries)"
    if "index_of_produce v channel d C m" for C m
    using assms that
  proof (induction arbitrary: C m rule: list_all2_induct)
    case (Cons c cs e entries)
    have "index_of_produce v channel d (insert c C) (hm_put (fst e) (snd e) m)"
      using Cons.prems Cons.hyps(1) by (auto simp: index_of_produce_def)
    from Cons.IH [OF this] show ?case by (simp add: case_prod_unfold)
  qed simp
  from this [of "{}" "[]"] show ?thesis by (simp add: index_of_produce_def)
qed

text \<open>A continuation whose patterns all have data.\<close>

definition fires :: "('p, 'a) matcher \<Rightarrow> ('c, 'p, 'a, 'k) view \<Rightarrow> 'c list \<Rightarrow> ('p, 'k) waiting_continuation \<Rightarrow> bool" where
  "fires matcher v cs wc \<longleftrightarrow> (\<forall>cp \<in> set (zip cs (wc_patterns wc)). has_datum matcher v cp)"

definition found ::
  "('p, 'a) matcher \<Rightarrow> ('c, 'p, 'a, 'k) view \<Rightarrow> 'c \<Rightarrow> 'a datum \<Rightarrow> 'c list \<Rightarrow> ('c, 'p, 'a, 'k) produce_candidate \<Rightarrow> bool" where
  "found matcher v channel d cs pc \<longleftrightarrow> pc_channels pc = cs
     \<and> (\<exists>i < length (all_conts v cs). pc_continuation pc = all_conts v cs ! i \<and> continuation_index pc = int i)
     \<and> list_all2 (picks_new matcher v channel d) (zip cs (wc_patterns (pc_continuation pc))) (data_candidates pc)"

lemma first_match_view:
  assumes "distinct cs" "index_of_produce v channel d (set cs) m" "indexes (all_conts v cs) ix"
  shows "case extract_first_match matcher cs ix m of
      Some pc \<Rightarrow> found matcher v channel d cs pc
    | None \<Rightarrow> \<forall>wc \<in> set (all_conts v cs). \<not> fires matcher (v_put_datum channel d v) cs wc"
proof -
  have C: "fst cp \<in> set cs" if "cp \<in> set (zip cs ps)" for cp ps
    using that set_zip_leftD [of "fst cp" "snd cp" cs ps] by simp
  have fires: "cont_matches matcher cs m wc \<longleftrightarrow> fires matcher (v_put_datum channel d v) cs wc" for wc
    using pair_matches_produce [OF assms(2) C] by (auto simp: cont_matches_def fires_def list_all_iff)
  note eq = first_match_distinct [OF assms(1) refl, where matcher = matcher and cands = ix]
  show ?thesis
  proof (cases "find (\<lambda>(cont, _). cont_matches matcher cs m cont) ix")
    case None
    then have "\<not> cont_matches matcher cs m wc" if "wc \<in> set (all_conts v cs)" for wc
      using that unfolding find_None_iff indexes_set [OF assms(3)] by (fastforce simp: in_set_conv_nth)
    with None fires show ?thesis by (simp add: eq)
  next
    case (Some x)
    obtain wc i where x: "x = (wc, i)" by (cases x)
    then have wc: "(wc, i) \<in> set ix" "cont_matches matcher cs m wc"
      using find_Some_sat [OF Some] find_Some_in [OF Some] by auto
    have "picks_new matcher v channel d cp (fst (the (select matcher m cp)))" if "cp \<in> set (zip cs (wc_patterns wc))" for cp
    proof -
      have "select matcher m cp \<noteq> None"
        using wc(2) that by (auto simp: cont_matches_def list_all_iff select_None_iff simp del: not_None_eq)
      then show ?thesis
        using select_produce [OF assms(2) C [OF that]] by fastforce
    qed
    with wc Some show ?thesis
      unfolding indexes_set [OF assms(3)] by (auto simp: eq x found_def list_all2_map2 list_all2_same)
  qed
qed

lemma extract_produce_view:
  assumes "shuffles env"
  shows "sok sp \<Longrightarrow> \<forall>cs \<in> set grouped. distinct cs \<Longrightarrow>
    \<exists>r sp'. extract_produce_candidate env grouped channel d sp = (r, sp') \<and> upd sp (sv sp) sp'
    \<and> (case r of
         Some pc \<Rightarrow> \<exists>cs \<in> set grouped. found (get_match env) (sv sp) channel d cs pc
       | None \<Rightarrow> \<forall>cs \<in> set grouped. \<forall>wc \<in> set (all_conts (sv sp) cs).
           \<not> fires (get_match env) (v_put_datum channel d (sv sp)) cs wc)"
proof (induction grouped arbitrary: sp)
  case Nil
  then show ?case by (simp add: extract_produce_candidate_def upd_refl)
next
  case (Cons cs grouped)
  obtain sp0 where 0: "on_hot (\<lambda>hs. get_continuations hs cs) sp = (all_conts (sv sp) cs, sp0)" "upd sp (sv sp) sp0"
    using on_hot_get_continuations [OF Cons.prems(1)] by blast
  obtain ix sp1 where 1: "shuffle_with_index env (all_conts (sv sp) cs) sp0 = (ix, sp1)" "indexes (all_conts (sv sp) cs) ix"
    "upd sp0 (sv sp0) sp1"
    using shuffle_with_index [OF assms updD(1) [OF 0(2)]] by blast
  have u1: "upd sp (sv sp) sp1" and v1: "sok sp1" "sv sp1 = sv sp"
    using updD [OF 0(2)] updD [OF 1(3)] upd_trans [OF 0(2) 1(3)] by auto
  obtain entries sp2 where 2: "map_st (fetch_matching_data env channel d) cs sp1 = (entries, sp2)" "upd sp1 (sv sp) sp2"
    "index_of_produce (sv sp) channel d (set cs) (foldl (\<lambda>m (c, d). hm_put c d m) [] entries)"
    using fetch_entries [OF assms v1(1), of channel d cs] entries_index v1(2) by fastforce
  have u2: "upd sp (sv sp) sp2" and v2: "sok sp2" "sv sp2 = sv sp"
    using updD [OF 2(2)] upd_trans [OF u1 2(2)] by auto
  let ?m = "foldl (\<lambda>m (c, d). hm_put c d m) [] entries"
  have run: "extract_produce_candidate env (cs # grouped) channel d sp =
      (case extract_first_match (get_match env) cs ix ?m of
         Some pc \<Rightarrow> (Some pc, sp2) | None \<Rightarrow> extract_produce_candidate env grouped channel d sp2)"
    using 0(1) 1(1) 2(1)
    by (simp add: extract_produce_candidate_def fetch_matching_continuations_def split: option.split)
  note first = first_match_view [OF _ 2(3) 1(2), where matcher = "get_match env"]
  show ?case
  proof (cases "extract_first_match (get_match env) cs ix ?m")
    case None
    obtain r sp' where 3: "extract_produce_candidate env grouped channel d sp2 = (r, sp')" "upd sp2 (sv sp) sp'"
      "case r of Some pc \<Rightarrow> \<exists>cs \<in> set grouped. found (get_match env) (sv sp) channel d cs pc
       | None \<Rightarrow> \<forall>cs \<in> set grouped. \<forall>wc \<in> set (all_conts (sv sp) cs). \<not> fires (get_match env) (v_put_datum channel d (sv sp)) cs wc"
      using Cons.IH [OF v2(1), unfolded v2(2)] Cons.prems(2) by auto
    show ?thesis
      using run None 3 upd_trans [OF u2 3(2)] first Cons.prems(2)
      by (intro exI [of _ r] exI [of _ sp']) (cases r; simp)
  next
    case (Some pc)
    then show ?thesis
      using run u2 first Cons.prems(2) by (intro exI [of _ "Some pc"] exI [of _ sp2]) simp
  qed
qed

subsection \<open>Processing a match\<close>

definition v_unmatch :: "'c list \<Rightarrow> ('c, 'a) consume_candidate \<Rightarrow> ('c, 'p, 'a, 'k) view \<Rightarrow> ('c, 'p, 'a, 'k) view" where
  "v_unmatch channels cand v =
     (if datum_index cand \<ge> 0 \<and> \<not> d_persist (cc_datum cand) \<and> \<not> in_range (datum_index cand) (v_data v (cc_channel cand))
      then v else v_remove_join (cc_channel cand) channels (v_take cand v))"

definition v_unjoin :: "'c list \<Rightarrow> 'c set \<Rightarrow> ('c, 'p, 'a, 'k) view \<Rightarrow> ('c, 'p, 'a, 'k) view" where
  "v_unjoin cs C v =
     (if all_conts v cs = [] then v\<lparr>v_joins := (\<lambda>c. if c \<in> C then remove1 cs (v_joins v c) else v_joins v c)\<rparr> else v)"

definition takes_in_range :: "('c, 'p, 'a, 'k) view \<Rightarrow> ('c, 'a) consume_candidate \<Rightarrow> bool" where
  "takes_in_range v cand \<longleftrightarrow>
     (datum_index cand \<ge> 0 \<and> \<not> d_persist (cc_datum cand) \<longrightarrow> in_range (datum_index cand) (v_data v (cc_channel cand)))"

lemma all_upd [simp]:
  "all_conts (v\<lparr>v_joins := f\<rparr>) = all_conts v" "all_conts (v\<lparr>v_data := g\<rparr>) = all_conts v"
  "all_conts (v\<lparr>v_inst_joins := f\<rparr>) = all_conts v"
  "all_joins (v\<lparr>v_data := g\<rparr>) = all_joins v" "all_joins (v\<lparr>v_conts := h\<rparr>) = all_joins v"
  "all_joins (v\<lparr>v_inst := i\<rparr>) = all_joins v"
  by (simp_all add: all_conts_def all_joins_def fun_eq_iff split: option.split)

lemma v_take_joins: "v_data (v_take cand (v\<lparr>v_joins := f\<rparr>)) = v_data (v_take cand v)"
  by (simp add: v_take_data fun_eq_iff)

lemma v_taken_joins: "v_taken cands (v\<lparr>v_joins := f\<rparr>) = (v_taken cands v)\<lparr>v_joins := f\<rparr>"
  by (simp add: v_taken_def v_take_joins cong: option.case_cong)

lemma v_taken_simps [simp]:
  "v_joins (v_taken cands v) = v_joins v" "v_conts (v_taken cands v) = v_conts v" "v_inst (v_taken cands v) = v_inst v"
  "v_inst_joins (v_taken cands v) = v_inst_joins v" "all_conts (v_taken cands v) = all_conts v"
  "all_joins (v_taken cands v) = all_joins v"
  by (simp_all add: v_taken_def)

lemma v_taken_remove_join: "v_taken cands (v_remove_join c cs v) = v_remove_join c cs (v_taken cands v)"
  by (simp add: v_remove_join_def v_taken_joins)

lemma v_unjoin_remove_join: "c \<notin> C \<Longrightarrow> v_unjoin cs C (v_remove_join c cs v) = v_unjoin cs (insert c C) v"
  by (auto simp: v_unjoin_def v_remove_join_def fun_eq_iff)

lemma fold_unmatch:
  "distinct (map cc_channel cands) \<Longrightarrow> \<forall>cand \<in> set cands. takes_in_range v cand \<Longrightarrow>
   fold (v_unmatch cs) cands v = v_unjoin cs (cc_channel ` set cands) (v_taken cands v)"
proof (induction cands arbitrary: v)
  case (Cons cand cands)
  let ?v1 = "v_remove_join (cc_channel cand) cs (v_take cand v)"
  have "v_unmatch cs cand v = ?v1"
    using Cons.prems(2) by (auto simp: v_unmatch_def takes_in_range_def)
  moreover have "takes_in_range ?v1 x" if "x \<in> set cands" for x
  proof -
    have "cc_channel x \<noteq> cc_channel cand"
      using Cons.prems(1) that by (auto simp: image_iff)
    then have "v_data ?v1 (cc_channel x) = v_data v (cc_channel x)"
      by (simp add: v_remove_join_def v_take_data)
    then show ?thesis
      using Cons.prems(2) that by (simp add: takes_in_range_def)
  qed
  ultimately have "fold (v_unmatch cs) (cand # cands) v = v_unjoin cs (cc_channel ` set cands) (v_taken cands ?v1)"
    using Cons by simp
  also have "v_taken cands ?v1 = v_remove_join (cc_channel cand) cs (v_taken (cand # cands) v)"
    using v_taken_Cons [OF Cons.prems(1), of v] by (simp add: v_taken_remove_join)
  also have "v_unjoin cs (cc_channel ` set cands) \<dots> = v_unjoin cs (cc_channel ` set (cand # cands)) (v_taken (cand # cands) v)"
    using Cons.prems(1) by (simp add: v_unjoin_remove_join)
  finally show ?case .
qed (simp add: v_taken_def v_unjoin_def)

lemma remove_matched_upd:
  assumes "sok sp" "distinct (map cc_channel cands)" "\<forall>cand \<in> set cands. takes_in_range (sv sp) cand"
  shows "upd sp (v_unjoin channels (cc_channel ` set cands) (v_taken cands (sv sp)))
    (snd (remove_matched_datum_and_join channels cands sp))"
proof -
  let ?f = "\<lambda>c sp. let (removed, sp') =
        (if datum_index c \<ge> 0 \<and> \<not> d_persist (cc_datum c)
         then on_hot (\<lambda>hs. remove_datum hs (cc_channel c) (datum_index c)) sp else (Inr (), sp))
      in (case removed of
            Inl _ \<Rightarrow> (None, sp')
          | Inr _ \<Rightarrow> (Some (), snd (on_hot (\<lambda>hs. remove_join hs (cc_channel c) channels) sp')))"
  have step: "upd s (v_unmatch channels c (sv s)) (snd (?f c s))" if ok: "sok s" for c s
  proof (cases "datum_index c \<ge> 0 \<and> \<not> d_persist (cc_datum c)")
    case True
    obtain r s1 where r: "on_hot (\<lambda>hs. remove_datum hs (cc_channel c) (datum_index c)) s = (r, s1)"
      "upd s (v_remove_datum (cc_channel c) (datum_index c) (sv s)) s1"
      "r = Inr () \<longleftrightarrow> in_range (datum_index c) (v_data (sv s) (cc_channel c))"
      using on_hot_remove_datum [OF ok] by blast
    note join = on_hot_writes(4) [OF updD(1) [OF r(2)], of "cc_channel c" channels]
    have same: "v_remove_datum (cc_channel c) (datum_index c) (sv s) = sv s"
      if "\<not> in_range (datum_index c) (v_data (sv s) (cc_channel c))"
      using that by (simp add: v_remove_datum_def remove_at_def)
    show ?thesis
      using True r upd_trans [OF r(2) join] updD(2) [OF r(2)] same
      by (cases r) (auto simp: v_unmatch_def v_take_def)
  next
    case False
    then show ?thesis
      using on_hot_writes(4) [OF ok, of "cc_channel c" channels] by (auto simp: v_unmatch_def v_take_def)
  qed
  then have "upd sp (fold (v_unmatch channels) (removal_order cands) (sv sp)) (snd (map_st ?f (removal_order cands) sp))"
    using assms(1) by (intro map_st_upd)
  then show ?thesis
    using assms(2,3) by (simp add: fold_unmatch v_taken_order remove_matched_datum_and_join_def case_prod_unfold Let_def)
qed

text \<open>The view after a match: the continuation is gone unless it is persistent, the data are taken, and the
  join is gone when no continuation waits on it any more.\<close>

definition v_match :: "('c, 'p, 'a, 'k) produce_candidate \<Rightarrow> ('c, 'p, 'a, 'k) view \<Rightarrow> ('c, 'p, 'a, 'k) view" where
  "v_match pc v =
     v_unjoin (pc_channels pc) (set (pc_channels pc)) (v_taken (data_candidates pc)
       (if wc_persist (pc_continuation pc) then v else v_remove_cont (pc_channels pc) (continuation_index pc) v))"

lemma picks_new_facts:
  "picks_new matcher v channel d cp cand \<Longrightarrow> cc_channel cand = fst cp \<and> takes_in_range v cand"
  by (auto simp: picks_new_def picks_def cand_of_def takes_in_range_def in_range_def split: if_splits)

lemma found_facts:
  assumes "found matcher v channel d cs pc" "length (wc_patterns (pc_continuation pc)) = length cs"
  shows "map cc_channel (data_candidates pc) = cs" "\<forall>cand \<in> set (data_candidates pc). takes_in_range v cand"
    "cc_channel ` set (data_candidates pc) = set cs"
proof -
  have all: "list_all2 (picks_new matcher v channel d) (zip cs (wc_patterns (pc_continuation pc))) (data_candidates pc)"
    using assms(1) by (simp add: found_def)
  then have "map cc_channel (data_candidates pc) = map fst (zip cs (wc_patterns (pc_continuation pc)))"
    by (induction rule: list_all2_induct) (auto dest: picks_new_facts)
  with assms(2) show ch: "map cc_channel (data_candidates pc) = cs" by simp
  show "\<forall>cand \<in> set (data_candidates pc). takes_in_range v cand"
    using all by (induction rule: list_all2_induct) (auto dest: picks_new_facts)
  show "cc_channel ` set (data_candidates pc) = set cs"
    using arg_cong [OF ch, of set] by simp
qed

lemma process_match_view:
  assumes "sok sp" "distinct (pc_channels pc)" "map cc_channel (data_candidates pc) = pc_channels pc"
    "\<forall>cand \<in> set (data_candidates pc). takes_in_range (sv sp) cand"
  shows "\<exists>sp'. process_match_found pc sp = (wrap_result (pc_channels pc) (pc_continuation pc) (data_candidates pc), sp')
    \<and> frame sp sp' \<and> installs sp' = installs sp \<and> produce_counter sp' = produce_counter sp \<and> sv sp' = v_match pc (sv sp)
    \<and> event_log sp' = Comm (comm_new (data_candidates pc) (wc_source (pc_continuation pc)) (wc_peeks (pc_continuation pc))
        (produce_counters sp)) # event_log sp"
proof -
  let ?sp1 = "log_comm (comm_new (data_candidates pc) (wc_source (pc_continuation pc)) (wc_peeks (pc_continuation pc))
      (produce_counters sp)) sp"
  have s1: "sok ?sp1" "sv ?sp1 = sv sp" "frame sp ?sp1" "installs ?sp1 = installs sp" "produce_counter ?sp1 = produce_counter sp"
    "event_log ?sp1 = Comm (comm_new (data_candidates pc) (wc_source (pc_continuation pc)) (wc_peeks (pc_continuation pc))
      (produce_counters sp)) # event_log sp"
    using assms(1) by (simp_all add: log_comm_def frame_def)
  let ?v2 = "if wc_persist (pc_continuation pc) then sv sp else v_remove_cont (pc_channels pc) (continuation_index pc) (sv sp)"
  define sp2 where "sp2 = (if \<not> wc_persist (pc_continuation pc)
      then snd (on_hot (\<lambda>hs. remove_continuation hs (pc_channels pc) (continuation_index pc)) ?sp1) else ?sp1)"
  have 2: "upd ?sp1 ?v2 sp2"
    using on_hot_writes(3) [OF s1(1), of "pc_channels pc" "continuation_index pc"] upd_refl [OF s1(1)] s1(2)
    by (simp add: sp2_def)
  note s2 = updD [OF 2]
  have "v_data ?v2 = v_data (sv sp)" by (simp add: v_remove_cont_def)
  then have "\<forall>cand \<in> set (data_candidates pc). takes_in_range (sv sp2) cand"
    using assms(4) s2(2) by (simp add: takes_in_range_def)
  moreover have "cc_channel ` set (data_candidates pc) = set (pc_channels pc)"
    using arg_cong [OF assms(3), of set] by simp
  ultimately have 3: "upd sp2 (v_match pc (sv sp)) (snd (remove_matched_datum_and_join (pc_channels pc) (data_candidates pc) sp2))"
    using remove_matched_upd [OF s2(1), of "data_candidates pc" "pc_channels pc"] assms(2,3) s2(2) by (simp add: v_match_def)
  show ?thesis
    using updD [OF 3] s1 s2 frame_trans [OF s1(3) frame_trans [OF upd_frame [OF 2] upd_frame [OF 3]]]
    by (simp add: process_match_found_def Let_def case_prod_unfold sp2_def [symmetric])
qed

text \<open>The datum and the event of a produce.\<close>

definition produced :: "('c, 'p, 'a, 'k) rspace_env \<Rightarrow> 'c \<Rightarrow> 'a \<Rightarrow> bool \<Rightarrow> 'a datum" where
  "produced env channel a persist = datum_create (space_henv env) channel a persist"

lemma produced_simps [simp]:
  "a_val (produced env channel a persist) = a" "d_persist (produced env channel a persist) = persist"
  "d_source (produced env channel a persist) = produce_create (space_henv env) channel a persist"
  by (simp_all add: produced_def datum_create_def)

lemma produce_view:
  fixes env :: "('c, 'p, 'a, 'k) rspace_env" and a :: 'a and persist :: bool and channel :: 'c
  assumes env: "shuffles env" "sok sp"
    and joins: "\<forall>cs \<in> set (all_joins (sv sp) channel). distinct cs
      \<and> (\<forall>wc \<in> set (all_conts (sv sp) cs). length (wc_patterns wc) = length cs)"
  defines "d \<equiv> produced env channel a persist"
  shows "\<exists>r sp' sp0. space_produce env channel a persist sp = (Inr r, sp') \<and> frame sp sp' \<and> installs sp' = installs sp
    \<and> sp0 = log_produce (d_source d) persist sp \<and> produce_counter sp' = produce_counter sp0
    \<and> (case r of
         Some (c, rs, ref) \<Rightarrow> \<exists>cs \<in> set (all_joins (sv sp) channel). \<exists>pc. found (get_match env) (sv sp) channel d cs pc
           \<and> Some (c, rs) = wrap_result cs (pc_continuation pc) (data_candidates pc) \<and> ref = d_source d
           \<and> sv sp' = v_match pc (sv sp)
           \<and> event_log sp' = Comm (comm_new (data_candidates pc) (wc_source (pc_continuation pc))
               (wc_peeks (pc_continuation pc)) (produce_counters sp0)) # event_log sp0
       | None \<Rightarrow> (\<forall>cs \<in> set (all_joins (sv sp) channel). \<forall>wc \<in> set (all_conts (sv sp) cs).
             \<not> fires (get_match env) (v_put_datum channel d (sv sp)) cs wc)
           \<and> sv sp' = v_put_datum channel d (sv sp) \<and> event_log sp' = event_log sp0)"
proof -
  let ?ref = "produce_create (space_henv env) channel a persist"
  have d: "d = \<lparr>a_val = a, d_persist = persist, d_source = ?ref\<rparr>"
    by (simp add: d_def produced_def datum_create_def)
  obtain s1 where 1: "on_hot (\<lambda>hs. get_joins hs channel) sp = (all_joins (sv sp) channel, s1)" "upd sp (sv sp) s1"
    using on_hot_get_joins [OF env(2)] by blast
  note v1 = updD [OF 1(2)]
  obtain s2 where 2: "on_hot (\<lambda>hs. get_joins hs channel) s1 = (all_joins (sv sp) channel, s2)" "upd s1 (sv sp) s2"
    using on_hot_get_joins [OF v1(1)] v1(2) by auto
  note u2 = upd_trans [OF 1(2) 2(2)]
  let ?s3 = "log_produce ?ref persist s2" and ?sp0 = "log_produce ?ref persist sp"
  have s3: "sok ?s3" "sv ?s3 = sv sp" "frame sp ?s3" "installs ?s3 = installs sp" "produce_counter ?s3 = produce_counter ?sp0"
    "event_log ?s3 = event_log ?sp0"
    using updD [OF u2] upd_frame [OF u2] by (simp_all add: log_produce_def frame_def Let_def)
  obtain r s4 where 4: "extract_produce_candidate env (all_joins (sv sp) channel) channel d ?s3 = (r, s4)" "upd ?s3 (sv sp) s4"
    "case r of Some pc \<Rightarrow> \<exists>cs \<in> set (all_joins (sv sp) channel). found (get_match env) (sv sp) channel d cs pc
     | None \<Rightarrow> \<forall>cs \<in> set (all_joins (sv sp) channel). \<forall>wc \<in> set (all_conts (sv sp) cs).
         \<not> fires (get_match env) (v_put_datum channel d (sv sp)) cs wc"
    using extract_produce_view [OF env(1) s3(1), unfolded s3(2)] joins by blast
  note v4 = updD [OF 4(2)] and f4 = frame_trans [OF s3(3) upd_frame [OF 4(2)]]
  show ?thesis
  proof (cases r)
    case None
    have 5: "upd s4 (v_put_datum channel d (sv sp)) (store_data channel a persist ?ref s4)"
      using store_data_upd [OF v4(1), of channel a persist ?ref] v4(2) d by simp
    have run: "space_produce env channel a persist sp = (Inr None, store_data channel a persist ?ref s4)"
      using 1(1) 2(1) 4(1) None by (simp add: space_produce_def locked_produce_def Let_def d)
    show ?thesis
      unfolding run using updD [OF 5] v4 s3 None 4(3) frame_trans [OF f4 upd_frame [OF 5]] by (auto simp: d)
  next
    case (Some pc)
    then obtain cs where cs: "cs \<in> set (all_joins (sv sp) channel)" "found (get_match env) (sv sp) channel d cs pc"
      using 4(3) by auto
    have ch: "pc_channels pc = cs" "pc_continuation pc \<in> set (all_conts (sv sp) cs)"
      using cs(2) by (auto simp: found_def)
    then have len: "length (wc_patterns (pc_continuation pc)) = length cs" "distinct (pc_channels pc)"
      using joins cs(1) by auto
    note facts = found_facts [OF cs(2) len(1)]
    obtain sp' where 5: "process_match_found pc s4 = (wrap_result cs (pc_continuation pc) (data_candidates pc), sp')"
      "frame s4 sp'" "installs sp' = installs s4" "produce_counter sp' = produce_counter s4" "sv sp' = v_match pc (sv sp)"
      "event_log sp' = Comm (comm_new (data_candidates pc) (wc_source (pc_continuation pc)) (wc_peeks (pc_continuation pc))
        (produce_counters s4)) # event_log s4"
      using process_match_view [OF v4(1) len(2)] facts ch(1) v4(2) by auto
    have pc: "produce_counters s4 = produce_counters ?sp0"
      using v4(7) s3(5) by (simp add: produce_counters_def fun_eq_iff)
    have run: "space_produce env channel a persist sp =
        (Inr (map_option (\<lambda>(c, rs). (c, rs, ?ref)) (wrap_result cs (pc_continuation pc) (data_candidates pc))), sp')"
      using 1(1) 2(1) 4(1) 5(1) Some by (simp add: space_produce_def locked_produce_def Let_def d)
    show ?thesis
      unfolding run using cs 5 v4 s3 frame_trans [OF f4 5(2)]
      by (intro exI [of _ sp'] exI) (auto simp: wrap_result_def d pc intro!: bexI [of _ cs] exI [of _ pc])
  qed
qed

end
