(* ===== verification/Checkpoint.thy ===== *)
theory Checkpoint
  imports HistoryRepository
begin

section \<open>Checkpoints of a hot store and resets\<close>

text \<open>
  What the history repository promises its clients: \<open>checkpoint\<close> writes the changes of a hot
  store so that a reader of the new root returns what the hot store showed, and \<open>reset\<close> goes
  back to any root that was recorded. The theorems combine the radix tree, the cold store,
  the roots store, the serialisers and the hot store.
\<close>

subsection \<open>The tree after a checkpoint\<close>

definition checkpoint_tree ::
  "('c, 'p, 'a, 'k) repo_env \<Rightarrow> itree list \<Rightarrow> ('c, 'p, 'a, 'k) in_mem_hot_store \<Rightarrow> itree list" where
  "checkpoint_tree env ts hs = foldl root_act ts (storage env (map (transform env) (changes hs)))"

text \<open>No hash collisions: among the channels and joins, the leaves, and the nodes of the new tree.\<close>

definition checkpoint_fits ::
  "('c, 'p, 'a, 'k) repo_env \<Rightarrow> node set \<Rightarrow> persisted_data set \<Rightarrow> 'c set \<Rightarrow> 'c list set \<Rightarrow> itree list \<Rightarrow>
   ('c, 'p, 'a, 'k) in_mem_hot_store \<Rightarrow> bool" where
  "checkpoint_fits env U L C K ts hs \<longleftrightarrow> keys_ok env C K hs \<and> new_leaves env (changes hs) \<subseteq> L
     \<and> root_nodes (radix_of env) (checkpoint_tree env ts hs) \<subseteq> U"

text \<open>What a reader of a root returns for the channels \<open>C\<close> and the joins \<open>K\<close>.\<close>

definition reads_view ::
  "('c, 'p, 'a, 'k) repo_env \<Rightarrow> rspace_store \<Rightarrow> rspace_history_reader \<Rightarrow> 'c set \<Rightarrow> 'c list set \<Rightarrow>
   ('c, 'p, 'a, 'k) view \<Rightarrow> bool" where
  "reads_view env stores rd C K v \<longleftrightarrow>
     (\<forall>c \<in> C. get_data_proj env (history_kv stores) rd (hash_channel (henv env) c) =
         Inr (sort_key (ser_datum_rec (cenv env)) (v_data v c)))
     \<and> (\<forall>c \<in> C. get_joins_proj env (history_kv stores) rd (hash_channel (henv env) c) =
         Inr (sort_key (ser_join (cenv env)) (v_joins v c)))
     \<and> (\<forall>cs \<in> K. get_continuations_proj env (history_kv stores) rd (hash_from_vec (henv env) cs) =
         Inr (sort_key (ser_wk (cenv env)) (v_conts v cs)))"

lemma repo_checkpoint_do:
  "repo_checkpoint env actions repo stores = do_checkpoint env (map (transform env) actions) repo stores"
  by (simp add: repo_checkpoint_def do_checkpoint_def)

text \<open>What a successful checkpoint leaves behind.\<close>

definition checkpointed ::
  "('c, 'p, 'a, 'k) repo_env \<Rightarrow> node set \<Rightarrow> persisted_data set \<Rightarrow> itree list \<Rightarrow> ('c, 'p, 'a, 'k) in_mem_hot_store \<Rightarrow>
   rspace_store \<Rightarrow> history_repository \<Rightarrow> rspace_store \<Rightarrow> bool" where
  "checkpointed env U L ts hs stores repo' stores' \<longleftrightarrow>
     repo_ok env U L (checkpoint_tree env ts hs) repo' stores'
     \<and> store_le (history_kv stores) (history_kv stores') \<and> store_le (cold_kv stores) (cold_kv stores')
     \<and> (\<forall>r. hm_get (roots_kv stores) r \<noteq> None \<longrightarrow> hm_get (roots_kv stores') r \<noteq> None)
     \<and> (changes hs \<noteq> [] \<longrightarrow> hm_get (roots_kv stores') (repo_root repo') \<noteq> None
         \<and> hm_get (roots_kv stores') current_root_name = Some (repo_root repo'))
     \<and> root_leaves env stores' (checkpoint_tree env ts hs) =
         foldl (trie_step env) (root_leaves env stores ts) (map (transform env) (changes hs))"

lemma checkpointedD:
  assumes "checkpointed env U L ts hs stores repo' stores'"
  shows "repo_ok env U L (checkpoint_tree env ts hs) repo' stores'"
    "store_le (history_kv stores) (history_kv stores')" "store_le (cold_kv stores) (cold_kv stores')"
    "hm_get (roots_kv stores) r \<noteq> None \<Longrightarrow> hm_get (roots_kv stores') r \<noteq> None"
    "changes hs \<noteq> [] \<Longrightarrow> hm_get (roots_kv stores') (repo_root repo') \<noteq> None
      \<and> hm_get (roots_kv stores') current_root_name = Some (repo_root repo')"
    "root_leaves env stores' (checkpoint_tree env ts hs) =
      foldl (trie_step env) (root_leaves env stores ts) (map (transform env) (changes hs))"
  using assms by (simp_all add: checkpointed_def)

lemma repo_checkpoint_ok:
  assumes ok: "repo_ok env U L ts repo stores" and over: "store_over env stores ts hs"
    and fits: "checkpoint_fits env U L C K ts hs"
  shows "\<exists>repo' stores'. repo_checkpoint env (changes hs) repo stores = Inr (repo', stores')
    \<and> checkpointed env U L ts hs stores repo' stores'"
proof -
  have "env_good env" "hs_ok hs" "keys_ok env C K hs" "new_leaves env (changes hs) \<subseteq> L"
    using ok over fits by (auto simp: repo_ok_def store_over_def checkpoint_fits_def)
  note as = changes_ok [OF this(1,4)] changes_distinct [OF this(2,3)]
  have "root_nodes (radix_of env) (foldl root_act ts (storage env (map (transform env) (changes hs)))) \<subseteq> U"
    using fits by (simp add: checkpoint_fits_def checkpoint_tree_def)
  from do_checkpoint_ok [OF ok as this] show ?thesis
    by (auto simp: checkpointed_def repo_checkpoint_do checkpoint_tree_def root_leaves_def)
qed

lemma repo_reset_ok:
  assumes "repo_ok env U L ts repo stores" "root_holds env U L stores vs"
    "hm_get (roots_kv stores) (tree_root env vs) \<noteq> None"
  obtains repo' stores' where "repo_reset env (tree_root env vs) repo stores = Inr (repo', stores')"
    "repo_ok env U L vs repo' stores'" "history_kv stores' = history_kv stores" "cold_kv stores' = cold_kv stores"
    "hm_get (roots_kv stores') = (hm_get (roots_kv stores))(current_root_name \<mapsto> tree_root env vs)"
proof -
  have st: "store_ok (radix_of env) U (history_kv stores)" "openable (radix_of env) U (history_kv stores) 32 vs"
    using assms(1,2) by (auto simp: repo_ok_def history_ok_def root_holds_def)
  obtain h where h: "history_reset (radix_of env) (history_kv stores) (tree_root env vs) (current_history repo) = Inr h"
    "history_ok (radix_of env) U (history_kv stores) 32 vs h"
    using history_reset_ok [OF st] unfolding tree_root_def by blast
  obtain roots' where "rr_validate_and_set_current_root (roots_kv stores) (tree_root env vs) = Inr roots'"
    "hm_get roots' = (hm_get (roots_kv stores))(current_root_name \<mapsto> tree_root env vs)"
    using rr_validate_ok(1) [OF assms(3)] by blast
  with h assms(1,2) show ?thesis
    by (intro that [of "\<lparr>current_history = h\<rparr>" "stores\<lparr>roots_kv := roots'\<rparr>"])
      (auto simp: repo_reset_def repo_ok_def root_holds_def)
qed

lemma repo_reset_unknown:
  "hm_get (roots_kv stores) root = None \<Longrightarrow>
   repo_reset env root repo stores = Inl (Err (HistoryRootError (UnknownRootError ''unknown root'')))"
  by (simp add: repo_reset_def rr_validate_ok(2))

lemma lmdb_repository_ok:
  assumes "repo_ok env U L ts repo stores" "hm_get (roots_kv stores) current_root_name = Some (tree_root env ts)"
  shows "\<exists>repo'. lmdb_repository env stores = Inr (repo', stores) \<and> repo_ok env U L ts repo' stores"
proof -
  have st: "store_ok (radix_of env) U (history_kv stores)" "openable (radix_of env) U (history_kv stores) 32 ts"
    using assms(1) by (auto simp: repo_ok_def history_ok_def)
  obtain h where "history_create (radix_of env) (history_kv stores) (tree_root env ts) = Inr h"
    "history_ok (radix_of env) U (history_kv stores) 32 ts h"
    using history_create_ok [OF st] unfolding tree_root_def by blast
  with assms show ?thesis
    by (auto simp: lmdb_repository_def rr_current_root_def rs_current_root_def inmem.get_one_lookup repo_ok_def)
qed

text \<open>A reader of the root of a checkpoint returns what the hot store showed.\<close>

lemma checkpoint_reads:
  assumes ok: "repo_ok env U L ts repo stores" and over: "store_over env stores ts hs" and keys: "keys_ok env C K hs"
    and ok': "repo_ok env U L us repo' stores'"
    and leaves: "root_leaves env stores' us = foldl (trie_step env) (root_leaves env stores ts) (map (transform env) (changes hs))"
  shows "\<exists>rd. get_history_reader env (tree_root env us) any stores' = Inr rd \<and> reads_view env stores' rd C K (hs_view hs)"
proof -
  have cod: "codec_ok (cenv env)" "hs_ok hs"
    using ok over by (auto simp: repo_ok_def env_good_def store_over_def)
  note hold = repo_ok_holds [OF ok] and hold' = repo_ok_holds [OF ok']
  obtain rd where rd: "get_history_reader env (tree_root env us) any stores' = Inr rd"
    "\<forall>pfx key. fetch_data env (history_kv stores') rd pfx key = Inr (root_leaves env stores' us (pfx # key))"
    using get_history_reader_ok [OF ok' hold'] by blast
  note new = checkpoint_leaves [OF cod(2) keys cod(1), of _ "root_leaves env stores ts", folded leaves]
    and base = store_over_base [OF ok hold over] and sorted = sorted_leaves [OF ok hold]
    and total = reader_total [OF ok' hold' rd(2)]
  have "reads_view env stores' rd C K (hs_view hs)"
    unfolding reads_view_def total
    by (auto simp: new hs_view_def fill_def base sorted split: option.splits)
  with rd(1) show ?thesis by blast
qed

subsection \<open>A concrete repository\<close>

text \<open>
  For the witnesses: an empty repository, a hash that separates the two nodes that occur, and
  a hot store that received one datum.
\<close>

definition demo_renv :: "(byte, byte, byte, byte) repo_env" where
  "demo_renv = \<lparr>cenv = demo_cenv\<lparr>blake_new := blake2b256 demo_env\<rparr>, dash_ord = (\<lambda>ks. ks)\<rparr>"

definition demo_stores :: rspace_store where
  "demo_stores = \<lparr>history_kv = [], roots_kv = [(tree_root demo_renv empties, ascii ''tag'')], cold_kv = []\<rparr>"

definition demo_repo :: history_repository where
  "demo_repo = \<lparr>current_history = demo_history\<rparr>"

definition demo_reader :: rspace_history_reader where
  "demo_reader = (case get_history_reader demo_renv (tree_root demo_renv empties) demo_repo demo_stores of
     Inr rd \<Rightarrow> rd | Inl _ \<Rightarrow> \<lparr>target_history = demo_history, leaf_store = []\<rparr>)"

definition demo_put :: "byte datum" where
  "demo_put = datum_create (henv demo_renv) 1 2 False"

definition demo_hs :: "(byte, byte, byte, byte) in_mem_hot_store" where
  "demo_hs = put_datum (create_from_hr (reader_base demo_renv [] demo_reader)) 1 demo_put"

definition demo_leaf :: persisted_data where
  "demo_leaf = Data (encode_datums (cenv demo_renv) [demo_put])"

definition demo_tree :: "itree list" where
  "demo_tree = empties[0 := ILeaf (hash_channel (henv demo_renv) 1) (lhash demo_renv demo_leaf)]"

definition demo_U :: "node set" where
  "demo_U = {empty_node, map (conc demo_env) demo_tree}"

lemma demo_radix [simp]: "radix_of demo_renv = demo_env"
  by (simp add: radix_of_def demo_renv_def demo_env_def)

lemma demo_renv_good: "env_good demo_renv"
proof -
  have "codec_ok (cenv demo_renv)"
    using demo_cenv_ok by (simp add: codec_ok_def demo_renv_def)
  then show ?thesis by (simp add: env_good_def demo_env_ok)
qed

lemma demo_hash_length: "length (blake_new (cenv demo_renv) bs) = 32"
  using demo_renv_good by (simp add: env_good_def env_ok_def radix_of_def DEF_SIZE_def)

lemma demo_tree_node: "map (conc demo_env) demo_tree =
    empty_node[0 := Leaf (hash_channel (henv demo_renv) 1) (lhash demo_renv demo_leaf)]"
  by (simp add: demo_tree_def map_conc_update)

lemma demo_tree_node_ok: "node_ok (map (conc demo_env) demo_tree)" "map (conc demo_env) demo_tree \<noteq> empty_node"
proof -
  let ?leaf = "Leaf (hash_channel (henv demo_renv) 1) (lhash demo_renv demo_leaf)"
  have "length empty_node = 256" "empty_node ! 0 = EmptyItem"
    by (simp_all add: empty_node_def NUM_ITEMS_def)
  then have "(empty_node[0 := ?leaf]) ! 0 = ?leaf" by simp
  with \<open>empty_node ! 0 = EmptyItem\<close> show "map (conc demo_env) demo_tree \<noteq> empty_node"
    unfolding demo_tree_node by auto
  show "node_ok (map (conc demo_env) demo_tree)"
    unfolding demo_tree_node
    using empty_node_ok set_update_subset_insert [of empty_node 0 ?leaf] demo_hash_length
    by (auto simp: node_ok_def list_all_iff DEF_SIZE_def hash_channel_def lhash_def leaf_hash_def hash_env.defs)
qed

lemma demo_U_universe: "universe demo_env demo_U"
proof -
  have "encode_node_bytes (map (conc demo_env) demo_tree) \<noteq> encode_node_bytes empty_node"
    using encode_node_bytes_inj [OF demo_tree_node_ok(1) empty_node_ok] demo_tree_node_ok(2) by blast
  then show ?thesis
    using demo_tree_node_ok by (auto simp: demo_U_def universe_def nhash_def demo_env_def)
qed

lemma root_get_empties: "root_get empties = Map.empty"
proof
  fix k show "root_get empties k = None"
    by (cases k) simp_all
qed

lemma demo_repo_ok: "repo_ok demo_renv demo_U {demo_leaf} empties demo_repo demo_stores"
proof -
  have "history_ok demo_env demo_U [] 32 empties demo_history"
    using demo_U_universe by (simp add: history_ok_def store_ok_def sinv_def openable_def root_ok_def demo_env_ok
        demo_history_def) (simp add: demo_U_def)
  moreover have "leaf_universe demo_renv {demo_leaf}"
    by (auto simp: leaf_universe_def leaf_typed_def demo_leaf_def)
  ultimately show ?thesis
    using demo_renv_good by (simp add: repo_ok_def demo_repo_def demo_stores_def cold_ok_def content_ok_def
        root_get_empties)
qed

lemma demo_reader: "get_history_reader demo_renv (tree_root demo_renv empties) demo_repo demo_stores = Inr demo_reader"
  using get_history_reader_ok [OF demo_repo_ok repo_ok_holds [OF demo_repo_ok], of demo_repo]
  by (auto simp: demo_reader_def)

lemma demo_over: "store_over demo_renv demo_stores empties demo_hs"
proof -
  have "hs_ok demo_hs" "history_reader_base demo_hs = reader_base demo_renv [] demo_reader"
    using put_datum_ok [OF create_from_hr_ok, of "reader_base demo_renv [] demo_reader" 1 demo_put]
      history_reader_step [of undefined "create_from_hr (reader_base demo_renv [] demo_reader)" "PutDatum 1 demo_put"]
    by (simp_all add: demo_hs_def create_from_hr_def create_from_hs_and_hr_def)
  with demo_reader show ?thesis
    by (auto simp: store_over_def demo_stores_def)
qed

lemma demo_hs_state: "continuations (hs_state demo_hs) = []" "joins (hs_state demo_hs) = []"
  "data (hs_state demo_hs) = [(1, [demo_put])]"
proof -
  have "store_over demo_renv demo_stores empties (create_from_hr (reader_base demo_renv [] demo_reader))"
    unfolding store_over_def using demo_reader
    by (intro conjI exI [of _ demo_repo] exI [of _ demo_reader] create_from_hr_ok)
      (simp_all add: demo_stores_def create_from_hr_def create_from_hs_and_hr_def)
  from store_over_base(1) [OF demo_repo_ok repo_ok_holds [OF demo_repo_ok] this, of 1]
  have "hr_data (reader_base demo_renv [] demo_reader) 1 = []"
    using demo_renv_good by (simp add: create_from_hr_def create_from_hs_and_hr_def root_leaves_def leaf_at_def
        root_get_empties env_good_def)
  then show "continuations (hs_state demo_hs) = []" "joins (hs_state demo_hs) = []"
    "data (hs_state demo_hs) = [(1, [demo_put])]"
    by (simp_all add: demo_hs_def put_datum_def create_from_hr_def create_from_hs_and_hr_def empty_state_def
        get_data_from_history_store_def empty_history_cache_def enforce_history_cache_bounds_def bound_cache_def
        cache_items_def MAX_HISTORY_STORE_CACHE_ENTRIES_def MAX_HISTORY_STORE_CACHE_ITEMS_def)
qed

lemma demo_changes: "changes demo_hs = [InsertData 1 [demo_put]]"
  by (simp add: changes_def demo_hs_state)

lemma demo_checkpoint_tree: "checkpoint_tree demo_renv empties demo_hs = demo_tree"
  by (simp add: checkpoint_tree_def demo_changes storage_def Let_def prepend_bytes_def PREFIX_DATUM_def root_act_def
      demo_tree_def lhash_def demo_leaf_def)

lemma demo_fits: "checkpoint_fits demo_renv demo_U {demo_leaf} {1} {} empties demo_hs"
proof -
  have "nodes_below demo_env demo_tree = {}"
    using nodes_below_single [of demo_env 0 "ILeaf (hash_channel (henv demo_renv) 1) (lhash demo_renv demo_leaf)"]
    by (simp add: demo_tree_def)
  then show ?thesis
    by (auto simp: checkpoint_fits_def demo_checkpoint_tree keys_ok_def demo_hs_state new_leaves_def demo_changes Let_def
        demo_leaf_def root_nodes_def demo_U_def)
qed

subsection \<open>Properties\<close>

text \<open>
  C3. A checkpoint is faithful: for a hot store over the current root, \<open>checkpoint\<close> with its
  changes succeeds, keeps the repository consistent, and a reader of the new root returns for
  every channel the data and the joins, and for every join the waiting continuations, that the
  hot store showed, in canonical order. The hypotheses exclude hash collisions among the
  nodes, the leaves and the channels involved.
\<close>

theorem checkpoint_correct:
  assumes "repo_ok env U L ts repo stores" "store_over env stores ts hs" "checkpoint_fits env U L C K ts hs"
  shows "\<exists>repo' stores' rd. repo_checkpoint env (changes hs) repo stores = Inr (repo', stores')
    \<and> repo_ok env U L (checkpoint_tree env ts hs) repo' stores'
    \<and> get_history_reader env (repo_root repo') repo' stores' = Inr rd
    \<and> reads_view env stores' rd C K (hs_view hs)"
proof -
  obtain repo' stores' where run: "repo_checkpoint env (changes hs) repo stores = Inr (repo', stores')"
    and cp: "checkpointed env U L ts hs stores repo' stores'"
    using repo_checkpoint_ok [OF assms(1-3)] by blast
  note r = checkpointedD [OF cp]
  from assms(3) have "keys_ok env C K hs" by (simp add: checkpoint_fits_def)
  from checkpoint_reads [OF assms(1,2) this r(1,6), of repo'] run r(1) show ?thesis
    by (auto simp: repo_ok_root)
qed

theorem checkpoint_correct_witness:
  "\<exists>repo' stores' rd. repo_checkpoint demo_renv (changes demo_hs) demo_repo demo_stores = Inr (repo', stores')
    \<and> repo_ok demo_renv demo_U {demo_leaf} (checkpoint_tree demo_renv empties demo_hs) repo' stores'
    \<and> get_history_reader demo_renv (repo_root repo') repo' stores' = Inr rd
    \<and> reads_view demo_renv stores' rd {1} {} (hs_view demo_hs)"
  using checkpoint_correct [OF demo_repo_ok demo_over demo_fits] .

text \<open>
  Earlier states survive a checkpoint: after \<open>checkpoint\<close>, \<open>reset\<close> to any root that was
  recorded before it succeeds and gives a consistent repository with the leaves that root had;
  \<open>reset\<close> to the new root gives the leaves of the checkpoint.
\<close>

theorem checkpoint_then_reset:
  assumes "repo_ok env U L ts repo stores" "store_over env stores ts hs" "checkpoint_fits env U L C K ts hs"
    "root_holds env U L stores vs" "hm_get (roots_kv stores) (tree_root env vs) \<noteq> None" "changes hs \<noteq> []"
  shows "\<exists>repo' stores' old old_stores new new_stores.
    repo_checkpoint env (changes hs) repo stores = Inr (repo', stores')
    \<and> repo_reset env (tree_root env vs) repo' stores' = Inr (old, old_stores)
    \<and> repo_ok env U L vs old old_stores \<and> root_leaves env old_stores vs = root_leaves env stores vs
    \<and> repo_reset env (repo_root repo') old old_stores = Inr (new, new_stores)
    \<and> repo_ok env U L (checkpoint_tree env ts hs) new new_stores"
proof -
  let ?us = "checkpoint_tree env ts hs"
  obtain repo' stores' where run: "repo_checkpoint env (changes hs) repo stores = Inr (repo', stores')"
    and cp: "checkpointed env U L ts hs stores repo' stores'"
    using repo_checkpoint_ok [OF assms(1-3)] by blast
  note r = checkpointedD [OF cp]
  have vs: "root_holds env U L stores' vs" "root_leaves env stores' vs = root_leaves env stores vs"
    using root_holds_mono [OF r(2,3) assms(4)] by auto
  obtain old ss where o: "repo_reset env (tree_root env vs) repo' stores' = Inr (old, ss)" "repo_ok env U L vs old ss"
    "history_kv ss = history_kv stores'" "cold_kv ss = cold_kv stores'"
    "hm_get (roots_kv ss) = (hm_get (roots_kv stores'))(current_root_name \<mapsto> tree_root env vs)"
    by (rule repo_reset_ok [OF r(1) vs(1) r(4) [OF assms(5)]])
  have us: "root_holds env U L ss ?us"
    using repo_ok_holds [OF r(1)] o(3,4) by (simp add: root_holds_def)
  have "hm_get (roots_kv ss) (tree_root env ?us) \<noteq> None"
    using r(5) [OF assms(6)] o(5) repo_ok_root [OF r(1)] by simp
  then obtain new ns where "repo_reset env (tree_root env ?us) old ss = Inr (new, ns)" "repo_ok env U L ?us new ns"
    by (rule repo_reset_ok [OF o(2) us])
  with run o vs(2) repo_ok_root [OF r(1)] show ?thesis
    by (simp add: root_leaves_def)
qed

theorem checkpoint_then_reset_witness:
  "\<exists>repo' stores' old old_stores new new_stores.
    repo_checkpoint demo_renv (changes demo_hs) demo_repo demo_stores = Inr (repo', stores')
    \<and> repo_reset demo_renv (tree_root demo_renv empties) repo' stores' = Inr (old, old_stores)
    \<and> repo_ok demo_renv demo_U {demo_leaf} empties old old_stores
    \<and> root_leaves demo_renv old_stores empties = root_leaves demo_renv demo_stores empties
    \<and> repo_reset demo_renv (repo_root repo') old old_stores = Inr (new, new_stores)
    \<and> repo_ok demo_renv demo_U {demo_leaf} (checkpoint_tree demo_renv empties demo_hs) new new_stores"
  by (rule checkpoint_then_reset [OF demo_repo_ok demo_over demo_fits repo_ok_holds [OF demo_repo_ok]])
    (simp_all add: demo_stores_def demo_changes)

text \<open>
  Durability: a repository that is opened on the stores after a checkpoint that wrote
  something is at the root of the checkpoint, with its content.
\<close>

theorem checkpoint_then_reopen:
  assumes "repo_ok env U L ts repo stores" "store_over env stores ts hs" "checkpoint_fits env U L C K ts hs"
    "changes hs \<noteq> []"
  shows "\<exists>repo' stores' reopened. repo_checkpoint env (changes hs) repo stores = Inr (repo', stores')
    \<and> lmdb_repository env stores' = Inr (reopened, stores') \<and> repo_root reopened = repo_root repo'
    \<and> repo_ok env U L (checkpoint_tree env ts hs) reopened stores'"
proof -
  obtain repo' stores' where run: "repo_checkpoint env (changes hs) repo stores = Inr (repo', stores')"
    and cp: "checkpointed env U L ts hs stores repo' stores'"
    using repo_checkpoint_ok [OF assms(1-3)] by blast
  note r = checkpointedD [OF cp]
  have "hm_get (roots_kv stores') current_root_name = Some (tree_root env (checkpoint_tree env ts hs))"
    using r(5) [OF assms(4)] repo_ok_root [OF r(1)] by simp
  from lmdb_repository_ok [OF r(1) this] run repo_ok_root [OF r(1)] show ?thesis
    by (auto simp: repo_ok_root)
qed

theorem checkpoint_then_reopen_witness:
  "\<exists>repo' stores' reopened. repo_checkpoint demo_renv (changes demo_hs) demo_repo demo_stores = Inr (repo', stores')
    \<and> lmdb_repository demo_renv stores' = Inr (reopened, stores') \<and> repo_root reopened = repo_root repo'
    \<and> repo_ok demo_renv demo_U {demo_leaf} (checkpoint_tree demo_renv empties demo_hs) reopened stores'"
  by (rule checkpoint_then_reopen [OF demo_repo_ok demo_over demo_fits]) (simp add: demo_changes)

end
