(* ===== verification/RSpaceInvariant.thy ===== *)
theory RSpaceInvariant
  imports RSpaceSpec Checkpoint
begin

section \<open>Invariants of the tuple space\<close>

text \<open>
  The invariants every operation keeps, for joins without repeated channels:
  \<^item> \<open>tuple_ok\<close>: the joins of a channel are exactly the joins somebody waits on, patterns and
    channels of a continuation have the same length, installed continuations are persistent;
  \<^item> \<open>quiescent\<close>: no waiting continuation has data for all of its patterns, that is, no
    communication was missed;
  \<^item> \<open>installs_ok\<close>: the installed continuations are the recorded installs.
\<close>

definition tuple_ok :: "('c, 'p, 'a, 'k) view \<Rightarrow> bool" where
  "tuple_ok v \<longleftrightarrow>
     (\<forall>cs wc. wc \<in> set (all_conts v cs) \<longrightarrow> cs \<noteq> [] \<and> distinct cs \<and> length (wc_patterns wc) = length cs)
     \<and> (\<forall>c cs. cs \<in> set (v_joins v c) \<longrightarrow> c \<in> set cs \<and> all_conts v cs \<noteq> [])
     \<and> (\<forall>c cs. c \<in> set cs \<longrightarrow> v_conts v cs \<noteq> [] \<longrightarrow> cs \<in> set (v_joins v c))
     \<and> (\<forall>c cs. cs \<in> set (v_inst_joins v c) \<longleftrightarrow> c \<in> set cs \<and> v_inst v cs \<noteq> None)
     \<and> (\<forall>cs wc. v_inst v cs = Some wc \<longrightarrow> wc_persist wc)
     \<and> (\<forall>c. distinct (v_joins v c))"

definition quiescent :: "('p, 'a) matcher \<Rightarrow> ('c, 'p, 'a, 'k) view \<Rightarrow> bool" where
  "quiescent matcher v \<longleftrightarrow> (\<forall>cs wc. wc \<in> set (all_conts v cs) \<longrightarrow> \<not> fires matcher v cs wc)"

lemma all_conts_Nil: "all_conts v cs = [] \<longleftrightarrow> v_conts v cs = [] \<and> v_inst v cs = None"
  by (simp add: all_conts_def split: option.split)

lemma tuple_okD:
  assumes "tuple_ok v"
  shows "wc \<in> set (all_conts v cs) \<Longrightarrow> cs \<noteq> []" "wc \<in> set (all_conts v cs) \<Longrightarrow> distinct cs"
    "wc \<in> set (all_conts v cs) \<Longrightarrow> length (wc_patterns wc) = length cs"
    "cs \<in> set (v_joins v c) \<Longrightarrow> c \<in> set cs" "cs \<in> set (v_joins v c) \<Longrightarrow> all_conts v cs \<noteq> []"
    "c \<in> set cs \<Longrightarrow> v_conts v cs \<noteq> [] \<Longrightarrow> cs \<in> set (v_joins v c)"
    "cs \<in> set (v_inst_joins v c) \<longleftrightarrow> c \<in> set cs \<and> v_inst v cs \<noteq> None"
    "v_inst v cs = Some wc \<Longrightarrow> wc_persist wc" "distinct (v_joins v c)"
  using assms unfolding tuple_ok_def by blast+

lemma tuple_okI:
  assumes "\<And>cs wc. wc \<in> set (all_conts v cs) \<Longrightarrow> cs \<noteq> [] \<and> distinct cs \<and> length (wc_patterns wc) = length cs"
    and "\<And>c cs. cs \<in> set (v_joins v c) \<Longrightarrow> c \<in> set cs \<and> all_conts v cs \<noteq> []"
    and "\<And>c cs. c \<in> set cs \<Longrightarrow> v_conts v cs \<noteq> [] \<Longrightarrow> cs \<in> set (v_joins v c)"
    and "\<And>c cs. cs \<in> set (v_inst_joins v c) \<longleftrightarrow> c \<in> set cs \<and> v_inst v cs \<noteq> None"
    and "\<And>cs wc. v_inst v cs = Some wc \<Longrightarrow> wc_persist wc"
    and "\<And>c. distinct (v_joins v c)"
  shows "tuple_ok v"
  using assms unfolding tuple_ok_def by blast

text \<open>The joins of a channel are exactly the joins with a waiting or installed continuation.\<close>

lemma joins_exact:
  assumes "tuple_ok v"
  shows "cs \<in> set (all_joins v c) \<longleftrightarrow> c \<in> set cs \<and> all_conts v cs \<noteq> []"
proof -
  have "cs \<in> set (v_joins v c)" if "c \<in> set cs" "v_conts v cs \<noteq> []"
    using tuple_okD(6) [OF assms that] .
  then show ?thesis
    using tuple_okD(4,5,7) [OF assms] by (auto simp: all_joins_def all_conts_Nil)
qed

lemma joins_distinct:
  assumes "tuple_ok v" "cs \<in> set (all_joins v c)"
  shows "distinct cs \<and> (\<forall>wc \<in> set (all_conts v cs). length (wc_patterns wc) = length cs)"
proof -
  have "all_conts v cs \<noteq> []"
    using joins_exact [OF assms(1)] assms(2) by blast
  then obtain wc where "wc \<in> set (all_conts v cs)"
    by (cases "all_conts v cs") auto
  then show ?thesis
    using tuple_okD(2,3) [OF assms(1)] by blast
qed

subsection \<open>Data\<close>

lemma fires_cong: "v_data v = v_data w \<Longrightarrow> fires matcher v cs wc = fires matcher w cs wc"
  by (simp add: fires_def has_datum_def)

lemma fires_mono: "(\<And>c. set (v_data v c) \<subseteq> set (v_data w c)) \<Longrightarrow> fires matcher v cs wc \<Longrightarrow> fires matcher w cs wc"
  unfolding fires_def has_datum_def by blast

lemma remove_at_subset: "set (remove_at i xs) \<subseteq> set xs"
  using set_remove_nth_subset [of "nat i" xs] by (simp add: remove_at_def)

lemma v_taken_subset: "set (v_data (v_taken cands v) c) \<subseteq> set (v_data v c)"
  by (simp add: v_taken_def v_take_data remove_at_subset split: option.split)

subsection \<open>A consume that waits\<close>

lemma v_put_joins:
  "v_joins (fold (\<lambda>c. v_put_join c j) cs v) c = (if c \<in> set cs then add_new j (v_joins v c) else v_joins v c)"
  "v_data (fold (\<lambda>c. v_put_join c j) cs v) = v_data v" "v_conts (fold (\<lambda>c. v_put_join c j) cs v) = v_conts v"
  "v_inst (fold (\<lambda>c. v_put_join c j) cs v) = v_inst v" "v_inst_joins (fold (\<lambda>c. v_put_join c j) cs v) = v_inst_joins v"
  by (induction cs arbitrary: v) (auto simp: v_put_join_def add_new_def)

lemma v_wait_simps:
  "v_data (v_wait denv cs wk v) = v_data v" "v_inst (v_wait denv cs wk v) = v_inst v"
  "v_inst_joins (v_wait denv cs wk v) = v_inst_joins v"
  "v_conts (v_wait denv cs wk v) =
     (if list_ex (\<lambda>x. same_identity denv x wk) (v_conts v cs) then v_conts v else (v_conts v)(cs := wk # v_conts v cs))"
  "v_joins (v_wait denv cs wk v) c = (if c \<in> set cs then add_new cs (v_joins v c) else v_joins v c)"
  by (simp_all add: v_wait_def v_put_joins v_put_cont_def)

lemma v_wait_conts:
  "wc \<in> set (all_conts (v_wait denv cs wk v) cs') \<Longrightarrow> wc \<in> set (all_conts v cs') \<or> cs' = cs \<and> wc = wk"
  by (auto simp: all_conts_def v_wait_simps split: option.splits if_splits)

lemma v_wait_nonempty: "v_conts (v_wait denv cs wk v) cs \<noteq> []"
  "v_conts (v_wait denv cs wk v) cs' \<noteq> [] \<longleftrightarrow> v_conts v cs' \<noteq> [] \<or> cs' = cs"
  by (auto simp: v_wait_simps)

lemma wait_ok:
  assumes "tuple_ok v" "quiescent matcher v" "cs \<noteq> []" "distinct cs" "length (wc_patterns wk) = length cs"
    "\<not> fires matcher v cs wk"
  shows "tuple_ok (v_wait denv cs wk v) \<and> quiescent matcher (v_wait denv cs wk v)"
proof
  note D = tuple_okD [OF assms(1)]
  let ?w = "v_wait denv cs wk v"
  have joins: "cs' \<in> set (v_joins ?w c) \<longleftrightarrow> cs' \<in> set (v_joins v c) \<or> cs' = cs \<and> c \<in> set cs" for cs' c
    by (auto simp: v_wait_simps add_new_def)
  have conts: "all_conts ?w cs' \<noteq> [] \<longleftrightarrow> all_conts v cs' \<noteq> [] \<or> cs' = cs" for cs'
    by (auto simp: all_conts_Nil v_wait_nonempty v_wait_simps)
  show "tuple_ok ?w"
  proof (rule tuple_okI)
    fix cs' wc assume "wc \<in> set (all_conts ?w cs')"
    from v_wait_conts [OF this] show "cs' \<noteq> [] \<and> distinct cs' \<and> length (wc_patterns wc) = length cs'"
      using D(1-3) assms(3-5) by blast
  next
    fix c cs' assume "cs' \<in> set (v_joins ?w c)"
    then show "c \<in> set cs' \<and> all_conts ?w cs' \<noteq> []"
      using D(4,5) unfolding joins conts by blast
  next
    fix c cs' assume "c \<in> set cs'" "v_conts ?w cs' \<noteq> []"
    then show "cs' \<in> set (v_joins ?w c)"
      using D(6) unfolding joins v_wait_nonempty by blast
  qed (use D in \<open>auto simp: v_wait_simps add_new_def\<close>)
  have fires: "fires matcher ?w cs' wc = fires matcher v cs' wc" for cs' wc
    by (rule fires_cong) (rule v_wait_simps)
  show "quiescent matcher ?w"
    unfolding quiescent_def fires
    using assms(2,6) v_wait_conts [of _ denv cs wk v] unfolding quiescent_def by blast
qed

subsection \<open>A consume that matches\<close>

lemma taken_ok:
  assumes "tuple_ok v" "quiescent matcher v"
  shows "tuple_ok (v_taken cands v) \<and> quiescent matcher (v_taken cands v)"
proof
  show "tuple_ok (v_taken cands v)"
    using assms(1) by (simp add: tuple_ok_def)
  show "quiescent matcher (v_taken cands v)"
    using assms(2) fires_mono [OF v_taken_subset] unfolding quiescent_def v_taken_simps by blast
qed

subsection \<open>A produce that is stored\<close>

lemma put_datum_quiescent:
  assumes "tuple_ok v" "quiescent matcher v"
    "\<forall>cs \<in> set (all_joins v channel). \<forall>wc \<in> set (all_conts v cs). \<not> fires matcher (v_put_datum channel d v) cs wc"
  shows "tuple_ok (v_put_datum channel d v) \<and> quiescent matcher (v_put_datum channel d v)"
proof
  have conts: "all_conts (v_put_datum channel d v) = all_conts v"
    by (simp add: v_put_datum_def)
  then show "tuple_ok (v_put_datum channel d v)"
    using assms(1) unfolding tuple_ok_def conts by (simp add: v_put_datum_def)
  have "\<not> fires matcher (v_put_datum channel d v) cs wc" if wc: "wc \<in> set (all_conts v cs)" for cs wc
  proof (cases "channel \<in> set cs")
    case True
    then have "cs \<in> set (all_joins v channel)"
      using joins_exact [OF assms(1)] wc by auto
    with assms(3) wc show ?thesis by blast
  next
    case False
    then have "fst cp \<noteq> channel" if "cp \<in> set (zip cs (wc_patterns wc))" for cp
      using that set_zip_leftD [of "fst cp" "snd cp" cs "wc_patterns wc"] by auto
    then have "fires matcher (v_put_datum channel d v) cs wc = fires matcher v cs wc"
      unfolding fires_def has_datum_put by blast
    with assms(2) wc show ?thesis by (simp add: quiescent_def)
  qed
  then show "quiescent matcher (v_put_datum channel d v)"
    unfolding quiescent_def conts by blast
qed

subsection \<open>A produce that matches\<close>

lemma v_match_simps:
  "v_inst (v_match pc v) = v_inst v" "v_inst_joins (v_match pc v) = v_inst_joins v"
  "v_conts (v_match pc v) = (if wc_persist (pc_continuation pc) then v_conts v
     else (v_conts v)(pc_channels pc := remove_at (cont_index (pc_channels pc) (continuation_index pc) v) (v_conts v (pc_channels pc))))"
  by (simp_all add: v_match_def v_unjoin_def v_remove_cont_def)

lemma v_match_conts_subset: "set (v_conts (v_match pc v) cs) \<subseteq> set (v_conts v cs)"
  using remove_at_subset [of _ "v_conts v cs"] by (auto simp: v_match_simps)

lemma v_match_data_subset: "set (v_data (v_match pc v) c) \<subseteq> set (v_data v c)"
proof -
  let ?w = "if wc_persist (pc_continuation pc) then v else v_remove_cont (pc_channels pc) (continuation_index pc) v"
  have "v_data ?w = v_data v" by (simp add: v_remove_cont_def)
  moreover have "v_data (v_match pc v) = v_data (v_taken (data_candidates pc) ?w)"
    by (simp add: v_match_def v_unjoin_def)
  ultimately show ?thesis
    using v_taken_subset [of "data_candidates pc" ?w c] by simp
qed

lemma v_match_joins:
  "v_joins (v_match pc v) c =
    (if all_conts (v_match pc v) (pc_channels pc) = [] \<and> c \<in> set (pc_channels pc)
     then remove1 (pc_channels pc) (v_joins v c) else v_joins v c)"
proof -
  let ?w = "if wc_persist (pc_continuation pc) then v else v_remove_cont (pc_channels pc) (continuation_index pc) v"
  have "v_joins ?w = v_joins v" by (simp add: v_remove_cont_def)
  moreover have "all_conts (v_match pc v) = all_conts ?w"
    by (simp add: v_match_def v_unjoin_def)
  ultimately show ?thesis by (auto simp: v_match_def v_unjoin_def)
qed

lemma match_ok:
  assumes "tuple_ok v" "quiescent matcher v"
  shows "tuple_ok (v_match pc v) \<and> quiescent matcher (v_match pc v)"
proof
  note D = tuple_okD [OF assms(1)]
  let ?w = "v_match pc v" and ?cs = "pc_channels pc"
  have conts: "set (all_conts ?w cs) \<subseteq> set (all_conts v cs)" for cs
    using v_match_conts_subset [of pc v cs] by (auto simp: all_conts_def v_match_simps(1) split: option.split)
  have other: "v_conts ?w cs = v_conts v cs" "all_conts ?w cs = all_conts v cs" if "cs \<noteq> ?cs" for cs
    using that by (simp_all add: v_match_simps all_conts_def split: option.split)
  show "tuple_ok ?w"
  proof (rule tuple_okI)
    fix cs wc assume "wc \<in> set (all_conts ?w cs)"
    then show "cs \<noteq> [] \<and> distinct cs \<and> length (wc_patterns wc) = length cs"
      using D(1-3) conts by blast
  next
    fix c cs assume j: "cs \<in> set (v_joins ?w c)"
    then have old: "cs \<in> set (v_joins v c)"
      using set_remove1_subset [of ?cs "v_joins v c"] by (auto simp: v_match_joins split: if_splits)
    have "all_conts ?w cs \<noteq> []"
    proof (cases "cs = ?cs")
      case True
      then show ?thesis
        using j old D(4,9) by (auto simp: v_match_joins split: if_splits)
    qed (use other D(5) [OF old] in simp)
    with D(4) [OF old] show "c \<in> set cs \<and> all_conts ?w cs \<noteq> []" ..
  next
    fix c cs assume "c \<in> set cs" "v_conts ?w cs \<noteq> []"
    moreover from this have "v_conts v cs \<noteq> []"
      using v_match_conts_subset [of pc v cs] by auto
    ultimately show "cs \<in> set (v_joins ?w c)"
      using D(6) [of c cs] other(1) [of cs] by (cases "cs = ?cs") (auto simp: v_match_joins all_conts_Nil)
  qed (use D(7-9) in \<open>auto simp: v_match_simps v_match_joins\<close>)
  show "quiescent matcher ?w"
    using assms(2) conts fires_mono [OF v_match_data_subset] unfolding quiescent_def by blast
qed

subsection \<open>Install\<close>

definition v_installed :: "'c list \<Rightarrow> ('p, 'k) waiting_continuation \<Rightarrow> ('c, 'p, 'a, 'k) view \<Rightarrow> ('c, 'p, 'a, 'k) view" where
  "v_installed cs wk v = fold (\<lambda>c. v_install_join c cs) cs (v_install_cont cs wk v)"

lemma v_install_joins:
  "v_inst_joins (fold (\<lambda>c. v_install_join c j) cs v) c =
     (if c \<in> set cs then add_new j (v_inst_joins v c) else v_inst_joins v c)"
  "v_data (fold (\<lambda>c. v_install_join c j) cs v) = v_data v" "v_conts (fold (\<lambda>c. v_install_join c j) cs v) = v_conts v"
  "v_inst (fold (\<lambda>c. v_install_join c j) cs v) = v_inst v" "v_joins (fold (\<lambda>c. v_install_join c j) cs v) = v_joins v"
  by (induction cs arbitrary: v) (auto simp: v_install_join_def add_new_def)

lemma v_installed_simps:
  "v_data (v_installed cs wk v) = v_data v" "v_conts (v_installed cs wk v) = v_conts v"
  "v_inst (v_installed cs wk v) = (v_inst v)(cs \<mapsto> wk)" "v_joins (v_installed cs wk v) = v_joins v"
  "v_inst_joins (v_installed cs wk v) c = (if c \<in> set cs then add_new cs (v_inst_joins v c) else v_inst_joins v c)"
  by (simp_all add: v_installed_def v_install_joins v_install_cont_def)

lemma v_installed_conts:
  "wc \<in> set (all_conts (v_installed cs wk v) cs') \<Longrightarrow> wc \<in> set (all_conts v cs') \<or> cs' = cs \<and> wc = wk"
  by (auto simp: all_conts_def v_installed_simps split: option.splits if_splits)

lemma installed_ok:
  assumes "tuple_ok v" "quiescent matcher v" "cs \<noteq> []" "distinct cs" "length (wc_patterns wk) = length cs" "wc_persist wk"
    "\<not> fires matcher v cs wk"
  shows "tuple_ok (v_installed cs wk v) \<and> quiescent matcher (v_installed cs wk v)"
proof
  note D = tuple_okD [OF assms(1)]
  let ?w = "v_installed cs wk v"
  have conts: "all_conts ?w cs' \<noteq> [] \<longleftrightarrow> all_conts v cs' \<noteq> [] \<or> cs' = cs" for cs'
    by (auto simp: all_conts_Nil v_installed_simps)
  show "tuple_ok ?w"
  proof (rule tuple_okI)
    fix cs' wc assume "wc \<in> set (all_conts ?w cs')"
    from v_installed_conts [OF this] show "cs' \<noteq> [] \<and> distinct cs' \<and> length (wc_patterns wc) = length cs'"
      using D(1-3) assms(3-5) by blast
  next
    fix c cs' assume "cs' \<in> set (v_joins ?w c)"
    then show "c \<in> set cs' \<and> all_conts ?w cs' \<noteq> []"
      using D(4,5) unfolding conts v_installed_simps by blast
  next
    fix c cs' show "cs' \<in> set (v_inst_joins ?w c) \<longleftrightarrow> c \<in> set cs' \<and> v_inst ?w cs' \<noteq> None"
      using D(7) [of cs' c] by (auto simp: v_installed_simps add_new_def)
  qed (use D assms(6) in \<open>auto simp: v_installed_simps split: if_splits\<close>)
  have fires: "fires matcher ?w cs' wc = fires matcher v cs' wc" for cs' wc
    by (rule fires_cong) (rule v_installed_simps)
  show "quiescent matcher ?w"
    unfolding quiescent_def fires
    using assms(2,7) v_installed_conts [of _ cs wk v] unfolding quiescent_def by blast
qed

lemma install_view:
  fixes env :: "('c, 'p, 'a, 'k) rspace_env" and k :: 'k
  assumes env: "shuffles env" "sok sp" and ch: "length cs = length ps" "distinct cs"
  defines "wk \<equiv> consume_wk env cs ps k True []"
  shows "if fires (get_match env) (sv sp) cs wk
    then \<exists>sp'. locked_install_internal env cs ps k True sp =
        (Inl (Err (BugFoundError ''RUST ERROR: Installing can be done only on startup'')), sp') \<and> upd sp (sv sp) sp'
    else \<exists>sp'. locked_install_internal env cs ps k True sp = (Inr None, sp') \<and> frame sp sp'
      \<and> installs sp' = hm_put cs \<lparr>i_patterns = ps, i_continuation = k\<rparr> (installs sp)
      \<and> event_log sp' = event_log sp \<and> produce_counter sp' = produce_counter sp
      \<and> sv sp' = v_installed cs wk (sv sp)"
proof -
  have wk: "wk = \<lparr>wc_patterns = ps, wc_continuation = k, wc_persist = True, wc_peeks = [],
      wc_source = consume_create (space_henv env) cs ps k True\<rparr>"
    by (simp add: wk_def consume_wk_def waiting_continuation_create_def)
  obtain m sp1 where 1: "fetch_channel_to_index_data env cs [] sp = (m, sp1)" "upd sp (sv sp) sp1"
    "index_of_view (sv sp) (set cs) m"
    using fetch_data_view [OF env, of cs "[]"] by auto
  note s1 = updD [OF 1(2)] and cands = candidates_view [OF ch(2) 1(3), where matcher = "get_match env" and patterns = ps]
  show ?thesis
  proof (cases "all_candidates (fst (extract_data_candidates (get_match env) (zip cs ps) m))")
    case None
    with cands have no: "\<not> fires (get_match env) (sv sp) cs wk"
      by (auto simp: fires_def wk)
    let ?sp2 = "sp1\<lparr>installs := hm_put cs \<lparr>i_patterns = ps, i_continuation = k\<rparr> (installs sp1)\<rparr>"
    have s2: "sok ?sp2" "sv ?sp2 = sv sp" "frame sp ?sp2"
      using s1 upd_frame [OF 1(2)] by (simp_all add: frame_def)
    let ?sp3 = "snd (on_hot (\<lambda>hs. install_continuation hs cs wk) ?sp2)"
    have 3: "upd ?sp2 (v_install_cont cs wk (sv sp)) ?sp3"
      using on_hot_writes(5) [OF s2(1)] s2(2) by simp
    have 4: "upd ?sp3 (v_installed cs wk (sv sp)) (snd (map_st (\<lambda>c. on_hot (\<lambda>hs. install_join hs c cs)) cs ?sp3))"
      unfolding v_installed_def updD(2) [OF 3, symmetric]
      by (rule map_st_upd) (auto intro: on_hot_writes(6) updD(1) [OF 3])
    have run: "locked_install_internal env cs ps k True sp =
        (Inr None, snd (map_st (\<lambda>c. on_hot (\<lambda>hs. install_join hs c cs)) cs ?sp3))"
      using 1(1) ch(1) None by (simp add: locked_install_internal_def Let_def wk case_prod_unfold)
    show ?thesis
      unfolding if_not_P [OF no] run
      using updD [OF 4] updD [OF 3] s1 frame_trans [OF s2(3) upd_frame [OF upd_trans [OF 3 4]]] by simp
  next
    case (Some xs)
    with cands have picked: "list_all2 (picks (get_match env) (sv sp)) (zip cs ps) xs"
      by simp
    then have yes: "fires (get_match env) (sv sp) cs wk"
      unfolding fires_def using list_all2_in1 [OF picked] picks_has_datum by (fastforce simp: wk)
    show ?thesis
      unfolding if_P [OF yes] using 1 ch(1) Some by (simp add: locked_install_internal_def Let_def)
  qed
qed

end
