(* ===== verification/RSpaceCorrect.thy ===== *)
theory RSpaceCorrect
  imports RSpaceInvariant
begin

section \<open>Correctness of the tuple space\<close>

text \<open>
  The invariants of a space as one predicate \<open>space_ok\<close>, that \<open>consume\<close>, \<open>produce\<close> and \<open>install\<close>
  keep it, what they return, and soft checkpoints. The counterexamples at the end show what
  happens for a join that names a channel twice.
\<close>

subsection \<open>The produce counter counts the logged events\<close>

fun counted :: "bytes \<Rightarrow> event \<Rightarrow> bool" where
  "counted h (IoEvent (ProduceEvent p)) \<longleftrightarrow> p_hash p = h \<and> \<not> persistent p"
| "counted h _ \<longleftrightarrow> False"

definition pc_val :: "bytes \<Rightarrow> (produce \<times> int) list \<Rightarrow> int" where
  "pc_val h m = (case find (\<lambda>(q, _). p_hash q = h) m of Some (_, n) \<Rightarrow> n | None \<Rightarrow> 0)"

lemma pc_get_val: "(case pc_get p m of Some n \<Rightarrow> n | None \<Rightarrow> 0) = pc_val (p_hash p) m"
  by (auto simp: pc_get_def pc_val_def produce_eq_def split: option.split)

lemma pc_val_insert: "pc_val h (pc_insert p v m) = (if h = p_hash p then v else pc_val h m)"
  by (induction m) (auto simp: pc_val_def produce_eq_def)

definition counter_ok :: "('c, 'p, 'a, 'k) rspace \<Rightarrow> bool" where
  "counter_ok sp \<longleftrightarrow> (\<forall>h. pc_val h (produce_counter sp) = int (length (filter (counted h) (event_log sp))))"

lemma counter_ok_log_produce:
  assumes "counter_ok sp" "persistent p = persist"
  shows "counter_ok (log_produce p persist sp)"
  using assms by (auto simp: counter_ok_def log_produce_def Let_def pc_get_val pc_val_insert)

lemma counter_ok_cong:
  "counter_ok sp \<Longrightarrow> produce_counter sp' = produce_counter sp \<Longrightarrow>
   \<forall>h. filter (counted h) (event_log sp') = filter (counted h) (event_log sp) \<Longrightarrow> counter_ok sp'"
  by (simp add: counter_ok_def)

text \<open>What a COMM records: how often each of its data was produced.\<close>

lemma produce_counters_value:
  assumes "counter_ok sp" "(p, n) \<in> set (produce_counters sp refs)"
  shows "p \<in> set refs \<and> n = int (length (filter (counted (p_hash p)) (event_log sp)))"
proof -
  have sub: "set (dedup_last m) \<subseteq> set m" for m
    by (induction m rule: dedup_last.induct) auto
  have "(p, n) \<in> set (sort_key (\<lambda>e. p_hash (fst e)) (map (\<lambda>p. (p, case pc_get p (produce_counter sp) of Some n \<Rightarrow> n | None \<Rightarrow> 0)) refs))"
    using assms(2) sub unfolding produce_counters_def pc_collect_def by blast
  then have "p \<in> set refs" "n = pc_val (p_hash p) (produce_counter sp)"
    by (auto simp: pc_get_val)
  with assms(1) show ?thesis by (simp add: counter_ok_def)
qed

subsection \<open>The invariant of a space\<close>

definition installs_ok :: "('c, 'p, 'a, 'k) rspace_env \<Rightarrow> ('c, 'p, 'a, 'k) rspace \<Rightarrow> bool" where
  "installs_ok env sp \<longleftrightarrow> hm_ok (installs sp) \<and> (\<forall>cs. v_inst (sv sp) cs =
     map_option (\<lambda>i. consume_wk env cs (i_patterns i) (i_continuation i) True []) (hm_get (installs sp) cs))"

definition space_ok :: "('c, 'p, 'a, 'k) rspace_env \<Rightarrow> ('c, 'p, 'a, 'k) rspace \<Rightarrow> bool" where
  "space_ok env sp \<longleftrightarrow> sok sp \<and> tuple_ok (sv sp) \<and> quiescent (get_match env) (sv sp) \<and> installs_ok env sp \<and> counter_ok sp"

lemma consume_wk_simps [simp]:
  "wc_patterns (consume_wk env cs ps k b pk) = ps" "wc_persist (consume_wk env cs ps k b pk) = b"
  by (simp_all add: consume_wk_def waiting_continuation_create_def)

lemma consume_ok:
  assumes env: "shuffles env" "space_ok env sp" and ch: "distinct cs"
  shows "space_ok env (snd (space_consume env cs ps k persist peeks sp))"
proof (cases "cs \<noteq> [] \<and> length cs = length ps")
  case False
  with env(2) show ?thesis by (auto simp: space_consume_def)
next
  case True
  have ok: "sok sp" "tuple_ok (sv sp)" "quiescent (get_match env) (sv sp)" "installs_ok env sp" "counter_ok sp"
    using env(2) by (auto simp: space_ok_def)
  let ?wk = "consume_wk env cs ps k persist peeks" and ?v = "sv sp"
  from consume_view [OF env(1) ok(1), of cs ps k persist peeks] True ch obtain r sp' where
    run: "space_consume env cs ps k persist peeks sp = (Inr r, sp')" and fr: "frame sp sp'" "installs sp' = installs sp"
      "produce_counter sp' = produce_counter sp" and res: "if \<forall>cp \<in> set (zip cs ps). has_datum (get_match env) ?v cp
       then \<exists>cands. list_all2 (picks (get_match env) ?v) (zip cs ps) cands
         \<and> r = wrap_result cs ?wk cands \<and> sv sp' = v_taken cands ?v
         \<and> event_log sp' = Comm (comm_new cands (wc_source ?wk) peeks (produce_counters sp))
             # IoEvent (ConsumeEvent (wc_source ?wk)) # event_log sp
       else r = None \<and> sv sp' = v_wait (debug env) cs ?wk ?v
         \<and> event_log sp' = IoEvent (ConsumeEvent (wc_source ?wk)) # event_log sp"
    by auto
  have inv: "tuple_ok (sv sp') \<and> quiescent (get_match env) (sv sp') \<and> v_inst (sv sp') = v_inst ?v
      \<and> (\<forall>h. filter (counted h) (event_log sp') = filter (counted h) (event_log sp))"
  proof (cases "\<forall>cp \<in> set (zip cs ps). has_datum (get_match env) ?v cp")
    case True
    then obtain cands where "sv sp' = v_taken cands ?v" "event_log sp' = Comm (comm_new cands (wc_source ?wk) peeks (produce_counters sp))
             # IoEvent (ConsumeEvent (wc_source ?wk)) # event_log sp"
      using res by auto
    with taken_ok [OF ok(2,3), of cands] show ?thesis by simp
  next
    case False
    then have "\<not> fires (get_match env) ?v cs ?wk" by (simp add: fires_def)
    with wait_ok [OF ok(2,3) _ ch, of ?wk "debug env"] True False res show ?thesis
      by (auto simp: v_wait_simps)
  qed
  with fr run ok show ?thesis
    by (auto simp: space_ok_def frame_def installs_ok_def intro: counter_ok_cong [OF ok(5)])
qed

lemma found_fires:
  assumes "found matcher v channel d cs pc"
  shows "pc_continuation pc \<in> set (all_conts v cs)" "fires matcher (v_put_datum channel d v) cs (pc_continuation pc)"
    "fires matcher v cs (pc_continuation pc) \<or>
      (\<exists>cand \<in> set (data_candidates pc). cc_channel cand = channel \<and> datum_index cand = -1
        \<and> removed_datum cand = a_val d \<and> channel \<in> set cs)"
proof -
  have all: "list_all2 (picks_new matcher v channel d) (zip cs (wc_patterns (pc_continuation pc))) (data_candidates pc)"
    using assms by (simp add: found_def)
  show "pc_continuation pc \<in> set (all_conts v cs)"
    using assms by (auto simp: found_def)
  have has: "has_datum matcher v cp \<or> fst cp = channel \<and> matcher (snd cp) (a_val d) \<noteq> None \<and> cc_channel cand = channel
      \<and> datum_index cand = -1 \<and> removed_datum cand = a_val d" if "picks_new matcher v channel d cp cand" for cp cand
    using that picks_has_datum [of matcher v cp cand] by (auto simp: picks_new_def cand_of_def split: if_splits)
  show "fires matcher (v_put_datum channel d v) cs (pc_continuation pc)"
    unfolding fires_def has_datum_put
  proof
    fix cp assume "cp \<in> set (zip cs (wc_patterns (pc_continuation pc)))"
    from list_all2_in1 [OF all this] obtain cand where "picks_new matcher v channel d cp cand" by blast
    from has [OF this] show "has_datum matcher v cp \<or> fst cp = channel \<and> matcher (snd cp) (a_val d) \<noteq> None"
      by blast
  qed
  show "fires matcher v cs (pc_continuation pc) \<or>
      (\<exists>cand \<in> set (data_candidates pc). cc_channel cand = channel \<and> datum_index cand = -1
        \<and> removed_datum cand = a_val d \<and> channel \<in> set cs)"
  proof (cases "fires matcher v cs (pc_continuation pc)")
    case False
    then obtain cp where cp: "cp \<in> set (zip cs (wc_patterns (pc_continuation pc)))" "\<not> has_datum matcher v cp"
      by (auto simp: fires_def)
    from list_all2_in1 [OF all cp(1)] obtain cand where
      cand: "cand \<in> set (data_candidates pc)" "picks_new matcher v channel d cp cand" by blast
    have "fst cp \<in> set cs"
      using cp(1) set_zip_leftD [of "fst cp" "snd cp" cs] by simp
    with has [OF cand(2)] cp(2) cand(1) show ?thesis by blast
  qed simp
qed

lemma produce_create_persistent [simp]: "persistent (produce_create he channel a persist) = persist"
  by (simp add: produce_create_def Let_def)

text \<open>What a produce returns and leaves behind.\<close>

definition produce_result ::
  "('c, 'p, 'a, 'k) rspace_env \<Rightarrow> 'c \<Rightarrow> 'a datum \<Rightarrow> ('c, 'p, 'a, 'k) view \<Rightarrow> ('c, 'p, 'a, 'k) maybe_produce_result \<Rightarrow>
   ('c, 'p, 'a, 'k) view \<Rightarrow> bool" where
  "produce_result env channel d v r v' \<longleftrightarrow>
     (case r of
        None \<Rightarrow> quiescent (get_match env) (v_put_datum channel d v) \<and> v' = v_put_datum channel d v
      | Some (c, rs, ref) \<Rightarrow> \<exists>cs pc. channel \<in> set cs \<and> found (get_match env) v channel d cs pc
          \<and> fires (get_match env) (v_put_datum channel d v) cs (pc_continuation pc)
          \<and> (\<exists>cand \<in> set (data_candidates pc). cc_channel cand = channel \<and> datum_index cand = -1 \<and> removed_datum cand = a_val d)
          \<and> Some (c, rs) = wrap_result cs (pc_continuation pc) (data_candidates pc) \<and> ref = d_source d
          \<and> v' = v_match pc v)"

lemma produce_ok:
  assumes env: "shuffles env" "space_ok env sp"
  shows "\<exists>r sp'. space_produce env channel a persist sp = (Inr r, sp') \<and> space_ok env sp' \<and> frame sp sp'
    \<and> produce_result env channel (produced env channel a persist) (sv sp) r (sv sp')"
proof -
  have ok: "sok sp" "tuple_ok (sv sp)" "quiescent (get_match env) (sv sp)" "installs_ok env sp" "counter_ok sp"
    using env(2) by (auto simp: space_ok_def)
  let ?d = "produced env channel a persist" and ?v = "sv sp"
  let ?sp0 = "log_produce (d_source ?d) persist sp"
  have joins: "\<forall>cs \<in> set (all_joins ?v channel). distinct cs \<and> (\<forall>wc \<in> set (all_conts ?v cs). length (wc_patterns wc) = length cs)"
    using joins_distinct [OF ok(2)] by blast
  from produce_view [OF env(1) ok(1) joins, of a persist] obtain r sp' where
    run: "space_produce env channel a persist sp = (Inr r, sp')" and fr: "frame sp sp'" "installs sp' = installs sp"
      "produce_counter sp' = produce_counter ?sp0" and res: "case r of
         Some (c, rs, ref) \<Rightarrow> \<exists>cs \<in> set (all_joins ?v channel). \<exists>pc. found (get_match env) ?v channel ?d cs pc
           \<and> Some (c, rs) = wrap_result cs (pc_continuation pc) (data_candidates pc) \<and> ref = d_source ?d
           \<and> sv sp' = v_match pc ?v
           \<and> event_log sp' = Comm (comm_new (data_candidates pc) (wc_source (pc_continuation pc))
               (wc_peeks (pc_continuation pc)) (produce_counters ?sp0)) # event_log ?sp0
       | None \<Rightarrow> (\<forall>cs \<in> set (all_joins ?v channel). \<forall>wc \<in> set (all_conts ?v cs).
             \<not> fires (get_match env) (v_put_datum channel ?d ?v) cs wc)
           \<and> sv sp' = v_put_datum channel ?d ?v \<and> event_log sp' = event_log ?sp0"
    by blast
  have cnt: "counter_ok ?sp0"
    by (rule counter_ok_log_produce [OF ok(5)]) simp
  have inv: "tuple_ok (sv sp') \<and> quiescent (get_match env) (sv sp') \<and> v_inst (sv sp') = v_inst ?v
      \<and> (\<forall>h. filter (counted h) (event_log sp') = filter (counted h) (event_log ?sp0))
      \<and> produce_result env channel ?d ?v r (sv sp')"
  proof (cases r)
    case None
    with res have "sv sp' = v_put_datum channel ?d ?v" "event_log sp' = event_log ?sp0" by auto
    moreover have "tuple_ok (v_put_datum channel ?d ?v) \<and> quiescent (get_match env) (v_put_datum channel ?d ?v)"
      using put_datum_quiescent [OF ok(2,3)] res None by auto
    ultimately show ?thesis
      using None by (simp add: produce_result_def) (simp add: v_put_datum_def)
  next
    case (Some x)
    obtain c rs ref where x: "x = (c, rs, ref)" by (cases x)
    obtain cs pc where pc: "cs \<in> set (all_joins ?v channel)" "found (get_match env) ?v channel ?d cs pc"
      "Some (c, rs) = wrap_result cs (pc_continuation pc) (data_candidates pc)" "ref = d_source ?d" "sv sp' = v_match pc ?v"
      "event_log sp' = Comm (comm_new (data_candidates pc) (wc_source (pc_continuation pc))
               (wc_peeks (pc_continuation pc)) (produce_counters ?sp0)) # event_log ?sp0"
      using res Some x by auto
    have "\<not> fires (get_match env) ?v cs (pc_continuation pc)"
      using ok(3) found_fires(1) [OF pc(2)] by (simp add: quiescent_def)
    then have "produce_result env channel ?d ?v r (sv sp')"
      using found_fires(2,3) [OF pc(2)] pc Some x by (auto simp: produce_result_def)
    with match_ok [OF ok(2,3), of pc] pc(5,6) show ?thesis by (simp add: v_match_simps)
  qed
  have "space_ok env sp'"
    using inv fr ok counter_ok_cong [OF cnt fr(3)] by (simp add: space_ok_def frame_def installs_ok_def)
  with run inv fr(1) show ?thesis by blast
qed

lemma install_ok:
  assumes env: "shuffles env" "space_ok env sp" and ch: "distinct cs"
  shows "space_ok env (snd (space_install env cs ps k sp))"
proof (cases "length cs = length ps")
  case False
  with env(2) show ?thesis by (simp add: space_install_def locked_install_internal_def)
next
  case len: True
  have ok: "sok sp" "tuple_ok (sv sp)" "quiescent (get_match env) (sv sp)" "installs_ok env sp" "counter_ok sp"
    using env(2) by (auto simp: space_ok_def)
  let ?wk = "consume_wk env cs ps k True []"
  note view = install_view [OF env(1) ok(1) len ch, of k]
  show ?thesis
  proof (cases "fires (get_match env) (sv sp) cs ?wk")
    case True
    with view obtain sp' where "snd (space_install env cs ps k sp) = sp'" "upd sp (sv sp) sp'"
      by (auto simp: space_install_def)
    then show ?thesis
      using updD [of sp "sv sp" sp'] ok counter_ok_cong [OF ok(5), of sp'] by (simp add: space_ok_def installs_ok_def)
  next
    case False
    with view obtain sp' where sp': "snd (space_install env cs ps k sp) = sp'" "frame sp sp'"
      "installs sp' = hm_put cs \<lparr>i_patterns = ps, i_continuation = k\<rparr> (installs sp)"
      "event_log sp' = event_log sp" "produce_counter sp' = produce_counter sp" "sv sp' = v_installed cs ?wk (sv sp)"
      by (auto simp: space_install_def)
    have "cs \<noteq> []" using False by (auto simp: fires_def)
    with installed_ok [OF ok(2,3) _ ch, of ?wk] len False sp' ok counter_ok_cong [OF ok(5), of sp'] show ?thesis
      by (auto simp: space_ok_def frame_def installs_ok_def v_installed_simps)
  qed
qed

subsection \<open>Sequences of operations\<close>

datatype ('c, 'p, 'a, 'k) space_op =
    Consume "'c list" "'p list" 'k bool "int list"
  | Produce 'c 'a bool
  | Install "'c list" "'p list" 'k

fun space_step ::
  "('c, 'p, 'a, 'k) rspace_env \<Rightarrow> ('c, 'p, 'a, 'k) rspace \<Rightarrow> ('c, 'p, 'a, 'k) space_op \<Rightarrow> ('c, 'p, 'a, 'k) rspace" where
  "space_step env sp (Consume cs ps k persist peeks) = snd (space_consume env cs ps k persist peeks sp)"
| "space_step env sp (Produce c a persist) = snd (space_produce env c a persist sp)"
| "space_step env sp (Install cs ps k) = snd (space_install env cs ps k sp)"

text \<open>
  No join with a repeated channel. rspace.rs does not check this; the section on joins that name a
  channel twice shows what it does with one.
\<close>

fun op_ok :: "('c, 'p, 'a, 'k) space_op \<Rightarrow> bool" where
  "op_ok (Consume cs _ _ _ _) = distinct cs"
| "op_ok (Install cs _ _) = distinct cs"
| "op_ok (Produce _ _ _) = True"

fun is_install :: "('c, 'p, 'a, 'k) space_op \<Rightarrow> bool" where
  "is_install (Install _ _ _) = True"
| "is_install _ = False"

lemma space_step_ok:
  assumes "shuffles env" "space_ok env sp" "op_ok op"
  shows "space_ok env (space_step env sp op)"
proof (cases op)
  case (Produce c a persist)
  with produce_ok [OF assms(1,2), of c a persist] show ?thesis by auto
qed (use assms consume_ok install_ok in auto)

lemma space_steps_ok:
  "shuffles env \<Longrightarrow> space_ok env sp \<Longrightarrow> list_all op_ok ops \<Longrightarrow> space_ok env (foldl (space_step env) sp ops)"
  by (induction ops arbitrary: sp) (auto simp: space_step_ok)

lemma consume_frame:
  assumes "shuffles env" "sok sp" "distinct cs"
  shows "frame sp (snd (space_consume env cs ps k persist peeks sp)) \<and> installs (snd (space_consume env cs ps k persist peeks sp)) = installs sp"
proof (cases "cs \<noteq> [] \<and> length cs = length ps")
  case True
  with consume_view [OF assms(1,2), of cs ps k persist peeks] assms(3) show ?thesis by auto
next
  case False
  with assms(2) show ?thesis by (auto simp: space_consume_def frame_def)
qed

lemma produce_frame:
  assumes "shuffles env" "space_ok env sp"
  shows "frame sp (snd (space_produce env c a persist sp)) \<and> installs (snd (space_produce env c a persist sp)) = installs sp"
proof -
  have ok: "sok sp" "tuple_ok (sv sp)"
    using assms(2) by (auto simp: space_ok_def)
  have "\<forall>cs \<in> set (all_joins (sv sp) c). distinct cs \<and> (\<forall>wc \<in> set (all_conts (sv sp) cs). length (wc_patterns wc) = length cs)"
    using joins_distinct [OF ok(2)] by blast
  from produce_view [OF assms(1) ok(1) this, of a persist] show ?thesis by auto
qed

lemma space_steps_frame:
  assumes "shuffles env"
  shows "space_ok env sp \<Longrightarrow> list_all op_ok ops \<Longrightarrow> list_all (\<lambda>op. \<not> is_install op) ops \<Longrightarrow>
    frame sp (foldl (space_step env) sp ops) \<and> installs (foldl (space_step env) sp ops) = installs sp"
proof (induction ops arbitrary: sp)
  case Nil
  then show ?case by (simp add: frame_def space_ok_def)
next
  case (Cons op ops)
  have "frame sp (space_step env sp op) \<and> installs (space_step env sp op) = installs sp"
    using Cons.prems consume_frame [OF assms] produce_frame [OF assms] by (cases op) (auto simp: space_ok_def)
  moreover have "space_ok env (space_step env sp op)"
    using space_step_ok [OF assms] Cons.prems by simp
  ultimately show ?case
    using Cons.IH [of "space_step env sp op"] Cons.prems frame_trans [of sp "space_step env sp op"] by simp
qed

subsection \<open>Soft checkpoints\<close>

text \<open>The hot store is over the reader of the current root.\<close>

definition space_over ::
  "('c, 'p, 'a, 'k) rspace_env \<Rightarrow> node set \<Rightarrow> persisted_data set \<Rightarrow> itree list \<Rightarrow> ('c, 'p, 'a, 'k) rspace \<Rightarrow> bool" where
  "space_over env U L ts sp \<longleftrightarrow> repo_ok (repo env) U L ts (history_repo sp) (stores sp)
     \<and> store_over (repo env) (stores sp) ts (hot sp)"

lemma space_over_frame: "space_over env U L ts sp \<Longrightarrow> frame sp sp' \<Longrightarrow> space_over env U L ts sp'"
  by (auto simp: space_over_def frame_def store_over_def)

lemma space_over_base_unique:
  assumes "repo_ok env U L ts r sts" "store_over env sts ts hs" "store_over env sts ts hs'"
  shows "history_reader_base hs = history_reader_base hs'"
proof -
  note hold = repo_ok_holds [OF assms(1)]
  show ?thesis
    using store_over_base [OF assms(1) hold assms(2)] store_over_base [OF assms(1) hold assms(3)]
    by (intro history_reader.equality) (auto simp: fun_eq_iff)
qed

lemma revert_ok:
  assumes over: "space_over env U L ts sp" and soft: "create_soft_checkpoint sp = (cp, sp1)" and fr: "frame sp sp2"
  shows "\<exists>sp3. revert_to_soft_checkpoint env cp sp2 = (Inr (), sp3) \<and> sv sp3 = sv sp \<and> sok sp3
    \<and> event_log sp3 = event_log sp \<and> produce_counter sp3 = produce_counter sp \<and> installs sp3 = installs sp2
    \<and> space_over env U L ts sp3"
proof -
  have ok: "repo_ok (repo env) U L ts (history_repo sp2) (stores sp2)" and ov: "store_over (repo env) (stores sp2) ts (hot sp)"
    and hs: "sok sp"
    using over fr by (auto simp: space_over_def frame_def store_over_def)
  have root: "space_root sp2 = tree_root (repo env) ts"
    using repo_ok_root [OF ok] by (simp add: space_root_def)
  obtain rd where rd: "get_history_reader (repo env) (tree_root (repo env) ts) (history_repo sp2) (stores sp2) = Inr rd"
    using get_history_reader_ok [OF ok repo_ok_holds [OF ok]] by blast
  let ?hs = "create_from_hs_and_hr (cache_snapshot cp) (reader_base (repo env) (history_kv (stores sp2)) rd)"
  have snap: "cache_snapshot cp = hs_state (hot sp)"
    using soft by (auto simp: create_soft_checkpoint_def snapshot_def)
  have hs_ok: "hs_ok ?hs"
    using hs by (simp add: snap hs_ok_def create_from_hs_and_hr_def history_cache_ok_def empty_history_cache_def cache_ok_def)
  have over3: "store_over (repo env) (stores sp2) ts ?hs"
    using rd hs_ok by (auto simp: store_over_def create_from_hs_and_hr_def)
  from space_over_base_unique [OF ok ov over3] have "hs_view ?hs = sv sp"
    by (simp add: hs_view_def snap create_from_hs_and_hr_def)
  moreover have "revert_to_soft_checkpoint env cp sp2 = (Inr (), sp2\<lparr>hot := ?hs, event_log := sc_log cp,
      produce_counter := sc_produce_counter cp\<rparr>)"
    using rd by (simp add: revert_to_soft_checkpoint_def sbind_def space_reader_def root)
  ultimately show ?thesis
    using hs_ok ok over3 soft by (auto simp: space_over_def create_soft_checkpoint_def)
qed

subsection \<open>A concrete space\<close>

text \<open>For the witnesses: an empty space; pattern \<open>0\<close> is a wildcard, any other pattern matches itself.\<close>

definition demo_senv :: "(byte, byte, byte, byte) rspace_env" where
  "demo_senv = \<lparr>repo = demo_renv, get_match = (\<lambda>p a. if p = 0 \<or> p = a then Some a else None),
     debug = \<lparr>debug_patterns = (\<lambda>ps. ''p''), debug_continuation = (\<lambda>k. ''k'')\<rparr>, shuffle = (\<lambda>n l. [0..<l])\<rparr>"

definition demo_space :: "(byte, byte, byte, byte) rspace" where
  "demo_space = space_apply demo_repo demo_stores (create_from_hr (reader_base demo_renv (history_kv demo_stores) demo_reader))"

lemma demo_shuffles: "shuffles demo_senv"
  by (simp add: shuffles_def demo_senv_def)

lemma demo_space_over: "space_over demo_senv demo_U {demo_leaf} empties demo_space"
proof -
  have "store_over demo_renv demo_stores empties (create_from_hr (reader_base demo_renv (history_kv demo_stores) demo_reader))"
    unfolding store_over_def using demo_reader
    by (intro conjI exI [of _ demo_repo] exI [of _ demo_reader] create_from_hr_ok)
      (simp_all add: create_from_hr_def create_from_hs_and_hr_def)
  then show ?thesis
    using demo_repo_ok by (simp add: space_over_def demo_space_def space_apply_def demo_senv_def)
qed

lemma demo_space_view: "sv demo_space = \<lparr>v_data = (\<lambda>_. []), v_conts = (\<lambda>_. []), v_inst = Map.empty, v_joins = (\<lambda>_. []),
    v_inst_joins = (\<lambda>_. [])\<rparr>"
proof -
  have ov: "store_over demo_renv demo_stores empties (hot demo_space)"
    using demo_space_over by (simp add: space_over_def demo_senv_def demo_space_def space_apply_def)
  have "root_leaves demo_renv demo_stores empties = (\<lambda>_. None)"
    by (simp add: root_leaves_def leaf_at_def root_get_empties fun_eq_iff)
  with store_over_base [OF demo_repo_ok repo_ok_holds [OF demo_repo_ok] ov] demo_renv_good show ?thesis
    by (simp add: demo_space_def space_apply_def create_from_hr_view create_from_hr_def create_from_hs_and_hr_def env_good_def fun_eq_iff
        hs_view_def empty_state_def)
qed

lemma demo_space_ok: "space_ok demo_senv demo_space"
proof -
  have "all_conts (sv demo_space) cs = []" for cs
    by (simp add: demo_space_view all_conts_def)
  then have "tuple_ok (sv demo_space)" "quiescent (get_match demo_senv) (sv demo_space)"
    unfolding tuple_ok_def quiescent_def by (simp_all add: demo_space_view)
  moreover have "installs_ok demo_senv demo_space" "counter_ok demo_space" "sok demo_space"
    by (simp_all add: installs_ok_def counter_ok_def demo_space_view)
      (simp_all add: demo_space_def space_apply_def pc_val_def)
  ultimately show ?thesis by (simp add: space_ok_def)
qed

definition demo_ops :: "(byte, byte, byte, byte) space_op list" where
  "demo_ops = [Consume [1, 2] [3, 0] 9 False [], Produce 2 7 False, Install [4] [0] 8]"

definition demo_busy :: "(byte, byte, byte, byte) rspace" where
  "demo_busy = foldl (space_step demo_senv) demo_space demo_ops"

lemma demo_ops_ok: "list_all op_ok demo_ops"
  by (simp add: demo_ops_def)

lemma demo_busy_ok: "space_ok demo_senv demo_busy"
  unfolding demo_busy_def by (rule space_steps_ok [OF demo_shuffles demo_space_ok demo_ops_ok])

subsection \<open>Properties\<close>

text \<open>
  C1. In a space that satisfies the invariant, a \<open>consume\<close> on distinct channels always returns. If
  every channel holds a datum that its pattern matches, it returns the continuation with one such
  datum per channel, removes exactly the linear ones among them and logs the COMM; otherwise it
  returns nothing, stores the continuation and its joins, and logs the consume. Nothing else of
  the space changes, and the invariant is kept.
\<close>

theorem consume_correct:
  fixes env :: "('c, 'p, 'a, 'k) rspace_env" and k :: 'k and persist :: bool and peeks :: "int list"
  assumes "shuffles env" "space_ok env sp" "channels \<noteq> []" "length channels = length patterns" "distinct channels"
  shows "\<exists>r sp'. space_consume env channels patterns k persist peeks sp = (Inr r, sp') \<and> space_ok env sp'
    \<and> frame sp sp' \<and> installs sp' = installs sp \<and> produce_counter sp' = produce_counter sp
    \<and> (let wk = consume_wk env channels patterns k persist peeks in
       if fires (get_match env) (sv sp) channels wk
       then \<exists>cands. list_all2 (picks (get_match env) (sv sp)) (zip channels patterns) cands
         \<and> r = wrap_result channels wk cands \<and> sv sp' = v_taken cands (sv sp)
         \<and> event_log sp' = Comm (comm_new cands (wc_source wk) peeks (produce_counters sp))
             # IoEvent (ConsumeEvent (wc_source wk)) # event_log sp
       else r = None \<and> sv sp' = v_wait (debug env) channels wk (sv sp)
         \<and> event_log sp' = IoEvent (ConsumeEvent (wc_source wk)) # event_log sp)"
proof -
  have "sok sp" using assms(2) by (simp add: space_ok_def)
  from consume_view [OF assms(1) this assms(3-5), of k persist peeks] consume_ok [OF assms(1,2,5), of patterns k persist peeks]
  show ?thesis
    unfolding fires_def consume_wk_simps Let_def by fastforce
qed

theorem consume_correct_witness:
  "\<not> fires (get_match demo_senv) (sv demo_space) [1] (consume_wk demo_senv [1] [3] 9 False []) \<and>
   (\<exists>sp'. space_consume demo_senv [1] [3] 9 False [] demo_space = (Inr None, sp') \<and> space_ok demo_senv sp')"
proof -
  have no: "\<not> fires (get_match demo_senv) (sv demo_space) [1] (consume_wk demo_senv [1] [3] 9 False [])"
    by (simp add: fires_def has_datum_def demo_space_view)
  then show ?thesis
    using consume_correct [OF demo_shuffles demo_space_ok, of "[1]" "[3]" 9 False "[]"] by (auto simp: Let_def)
qed

text \<open>
  C2. In a space that satisfies the invariant, a \<open>produce\<close> always returns. If it returns a
  continuation, then one that was waiting for the channel, which all its data match, the new datum
  among them: the continuation (unless persistent) with its joins and the linear data are removed.
  If it returns nothing, then the datum is stored and no waiting continuation can fire: a possible
  COMM is never missed. Nothing else of the space changes, and the invariant is kept.
\<close>

theorem produce_correct:
  assumes "shuffles env" "space_ok env sp"
  shows "\<exists>r sp'. space_produce env channel a persist sp = (Inr r, sp') \<and> space_ok env sp' \<and> frame sp sp'
    \<and> produce_result env channel (produced env channel a persist) (sv sp) r (sv sp')"
  by (rule produce_ok [OF assms])

theorem produce_correct_witness:
  "shuffles demo_senv \<and> space_ok demo_senv demo_busy \<and> (\<exists>r sp'. space_produce demo_senv 1 3 False demo_busy = (Inr r, sp')
    \<and> space_ok demo_senv sp' \<and> produce_result demo_senv 1 (produced demo_senv 1 3 False) (sv demo_busy) r (sv sp'))"
  using produce_correct [OF demo_shuffles demo_busy_ok, of 1 3 False] demo_shuffles demo_busy_ok by blast

text \<open>
  C14. Every sequence of consumes, produces and installs on distinct channels keeps the invariant
  of the space: the hot store is well formed, a join is listed at a channel exactly when a
  continuation waits on it, no waiting continuation has all its data, the installed continuations
  are those of the list of installs, and the produce counter counts the logged produces.
\<close>

theorem space_invariant:
  assumes "shuffles env" "space_ok env sp" "list_all op_ok ops"
  shows "space_ok env (foldl (space_step env) sp ops)"
  by (rule space_steps_ok [OF assms])

theorem space_invariant_witness: "space_ok demo_senv (foldl (space_step demo_senv) demo_space demo_ops)"
  by (rule space_invariant [OF demo_shuffles demo_space_ok demo_ops_ok])

text \<open>
  C20. Reverting to a soft checkpoint undoes every consume on distinct channels and every produce since: the space answers
  every read as at the checkpoint, and its log and produce counter are those of the checkpoint.
\<close>

theorem soft_checkpoint_revert:
  assumes "shuffles env" "space_ok env sp" "space_over env U L ts sp" "create_soft_checkpoint sp = (cp, sp1)"
    "list_all op_ok ops" "list_all (\<lambda>op. \<not> is_install op) ops"
  shows "\<exists>sp3. revert_to_soft_checkpoint env cp (foldl (space_step env) sp1 ops) = (Inr (), sp3) \<and> sv sp3 = sv sp
    \<and> event_log sp3 = event_log sp \<and> produce_counter sp3 = produce_counter sp \<and> installs sp3 = installs sp
    \<and> space_ok env sp3 \<and> space_over env U L ts sp3"
proof -
  have sp1: "sp1 = sp\<lparr>event_log := [], produce_counter := []\<rparr>"
    using assms(4) by (simp add: create_soft_checkpoint_def)
  have ok1: "space_ok env sp1" and fr: "frame sp sp1"
    using assms(2) by (auto simp: sp1 space_ok_def counter_ok_def pc_val_def installs_ok_def frame_def)
  from space_steps_frame [OF assms(1) ok1 assms(5,6)]
  have fr2: "frame sp1 (foldl (space_step env) sp1 ops)" "installs (foldl (space_step env) sp1 ops) = installs sp"
    by (simp_all add: sp1)
  from revert_ok [OF assms(3,4) frame_trans [OF fr fr2(1)]] fr2(2) assms(2) show ?thesis
    by (auto simp: space_ok_def installs_ok_def counter_ok_def)
qed

theorem soft_checkpoint_revert_witness:
  "\<exists>sp3. revert_to_soft_checkpoint demo_senv (fst (create_soft_checkpoint demo_space))
      (foldl (space_step demo_senv) (snd (create_soft_checkpoint demo_space)) [Produce 1 3 False, Consume [1] [0] 9 False []])
      = (Inr (), sp3) \<and> sv sp3 = sv demo_space"
  using soft_checkpoint_revert [OF demo_shuffles demo_space_ok demo_space_over, of "fst (create_soft_checkpoint demo_space)"
      "snd (create_soft_checkpoint demo_space)" "[Produce 1 3 False, Consume [1] [0] 9 False []]"] by auto

text \<open>
  The repetition counters of a COMM are exact: for each datum of the COMM, the number of
  non-persistent produces with its hash in the event log.
\<close>

theorem comm_counts_produces:
  assumes "space_ok env sp" "(p, n) \<in> set (times_repeated (comm_new cands src peeks (produce_counters sp)))"
  shows "p \<in> (\<lambda>c. d_source (cc_datum c)) ` set cands
    \<and> n = int (length (filter (counted (p_hash p)) (event_log sp)))"
proof -
  let ?refs = "sort_key (\<lambda>p. (channel_hash p, p_hash p, persistent p)) (map (\<lambda>c. d_source (cc_datum c)) cands)"
  have "(p, n) \<in> set (produce_counters sp ?refs)" "counter_ok sp"
    using assms by (simp_all add: comm_new_def Let_def space_ok_def)
  from produce_counters_value [OF this(2,1)] show ?thesis by auto
qed

theorem comm_counts_produces_witness:
  "let p = produce_create (space_henv demo_senv) 1 3 False; sp = log_produce p False demo_space;
       cand = \<lparr>cc_channel = 1, cc_datum = produced demo_senv 1 3 False, removed_datum = 3, datum_index = 0\<rparr>
   in (p, 1) \<in> set (times_repeated (comm_new [cand] (consume_create (space_henv demo_senv) [1] [0] 9 False) [] (produce_counters sp)))
     \<and> 1 = int (length (filter (counted (p_hash p)) (event_log sp)))"
proof -
  let ?p = "produce_create (space_henv demo_senv) 1 3 False"
  let ?sp = "log_produce ?p False demo_space"
  let ?cand = "\<lparr>cc_channel = 1, cc_datum = produced demo_senv 1 3 False, removed_datum = 3, datum_index = 0\<rparr>"
  have ok: "space_ok demo_senv ?sp"
    using demo_space_ok counter_ok_log_produce [of demo_space ?p False]
    by (auto simp: space_ok_def log_produce_def Let_def installs_ok_def)
  have "(?p, 1) \<in> set (times_repeated (comm_new [?cand] (consume_create (space_henv demo_senv) [1] [0] 9 False) [] (produce_counters ?sp)))"
    by (simp add: comm_new_def Let_def produce_counters_def pc_collect_def log_produce_def pc_get_def demo_space_def
        space_apply_def produce_eq_def)
  from comm_counts_produces [OF ok this] this show ?thesis by (simp add: Let_def)
qed

subsection \<open>Joins that name a channel twice\<close>

lemma remove_nth_nths: "remove_nth i xs = nths xs (- {i})"
proof (induction xs arbitrary: i)
  case (Cons x xs)
  then show ?case by (cases i) (simp_all add: nths_Cons Compl_eq nths_all)
qed (simp add: remove_nth_def)

lemma remove_two:
  "i < j \<Longrightarrow> remove_nth j (remove_nth i xs) = nths xs (- {i, Suc j})"
proof (induction xs arbitrary: i j)
  case (Cons x xs)
  then show ?case
    by (cases i; cases j) (auto simp: nths_Cons remove_nth_nths [where xs = xs] intro: arg_cong [where f = "nths xs"])
qed (simp add: remove_nth_def)

lemma remove_at_nat: "remove_at (int i) xs = remove_nth i xs"
  by (simp add: remove_at_def in_range_def remove_nth_def)

text \<open>The first two data in the shuffled order are the candidates when every datum matches both patterns.\<close>

lemma repeated_candidates:
  assumes "hm_get m c = Some ((a, i) # (b, j) # rest)" "matches matcher p (a, i)" "matches matcher q (b, j)"
    "\<not> d_persist a" "\<not> d_persist b"
  shows "all_candidates (fst (extract_data_candidates matcher [(c, p), (c, q)] m)) =
    Some [cand_of matcher c p (a, i), cand_of matcher c q (b, j)]"
  using assms by (simp add: extract_data_candidates_def find_matching_eq all_candidates_def List.map_filter_simps remove_nth_def)

lemma repeated_removal:
  assumes "i \<noteq> j" "cc_channel x = c" "cc_channel y = c" "datum_index x = int i" "datum_index y = int j"
    "\<not> d_persist (cc_datum x)" "\<not> d_persist (cc_datum y)"
  shows "v_data (fold v_take (removal_order [x, y]) v) c = nths (v_data v c) (- {min i j, Suc (max i j)})"
proof (cases "i < j")
  case True
  then have "removal_order [x, y] = [x, y]" using assms by (simp add: removal_order_def)
  with True assms show ?thesis by (simp add: v_take_data remove_at_nat remove_two)
next
  case False
  then have "removal_order [x, y] = [y, x]" using assms by (simp add: removal_order_def)
  with False assms show ?thesis by (simp add: v_take_data remove_at_nat remove_two)
qed

text \<open>
  C40. The data of a join that names a channel twice are not removed together. Take a channel
  with at least two data, none persistent and each matching both patterns. A consume on the
  channel twice returns two different data, at positions \<open>i < j\<close>, and removes those at \<open>i\<close> and
  at \<open>Suc j\<close> (only \<open>i\<close> when \<open>j\<close> was the last): \<open>removal_order\<close> removes the smaller index
  first, so the larger one then names the datum behind the one it was taken from. The datum
  at \<open>j\<close> was returned and stays.
\<close>

theorem consume_repeated_channel:
  fixes k :: 'k and env :: "('c, 'p, 'a, 'k) rspace_env"
  assumes "shuffles env" "sok sp" "2 \<le> length (v_data (sv sp) c)"
    and "\<forall>d \<in> set (v_data (sv sp) c). \<not> d_persist d \<and> get_match env p (a_val d) \<noteq> None \<and> get_match env q (a_val d) \<noteq> None"
  shows "\<exists>cont rs sp' i j. space_consume env [c, c] [p, q] k persist peeks sp = (Inr (Some (cont, rs)), sp')
    \<and> i < j \<and> j < length (v_data (sv sp) c)
    \<and> mset (map rr_removed_datum rs) = {#a_val (v_data (sv sp) c ! i), a_val (v_data (sv sp) c ! j)#}
    \<and> v_data (sv sp') c = nths (v_data (sv sp) c) (- {i, Suc j})"
proof -
  let ?xs = "v_data (sv sp) c" and ?ref = "consume_create (space_henv env) [c, c] [p, q] k persist"
  let ?sp1 = "log_consume ?ref sp"
  have s1: "sok ?sp1" "sv ?sp1 = sv sp" using assms(2) by (simp_all add: log_consume_def)
  obtain m sp2 ix where 2: "fetch_channel_to_index_data env [c, c] [] ?sp1 = (m, sp2)" "upd ?sp1 (sv sp) sp2"
    and ix: "hm_get m c = Some ix" "indexes ?xs ix"
    using fetch_data_view [OF assms(1) s1(1), of "[c, c]" "[]"] s1(2) by (auto simp: index_of_view_def)
  have "length ix = length ?xs" using ix(2) by (metis indexes_def length_map length_upt minus_nat.diff_0 size_mset)
  with assms(3) obtain a i b j rest where ix2: "ix = (a, i) # (b, j) # rest"
    by (cases ix; cases "tl ix") auto
  have "(a, i) \<in> set ix" "(b, j) \<in> set ix" by (simp_all add: ix2)
  then obtain i' j' where i: "i = int i'" "i' < length ?xs" "a = ?xs ! i'" and j: "j = int j'" "j' < length ?xs" "b = ?xs ! j'"
    unfolding indexes_set [OF ix(2)] by blast
  have ne: "i' \<noteq> j'" using indexes_distinct [OF ix(2)] by (simp add: ix2 i(1) j(1))
  have dat: "\<not> d_persist a" "\<not> d_persist b" "matches (get_match env) p (a, i)" "matches (get_match env) q (b, j)"
    using assms(4) i j by (simp_all add: matches_def)
  define x y where "x = cand_of (get_match env) c p (a, i)" and "y = cand_of (get_match env) c q (b, j)"
  have xy: "cc_channel x = c" "cc_channel y = c" "datum_index x = int i'" "datum_index y = int j'"
    "\<not> d_persist (cc_datum x)" "\<not> d_persist (cc_datum y)" "removed_datum x = a_val (?xs ! i')" "removed_datum y = a_val (?xs ! j')"
    using dat(1,2) i j by (simp_all add: x_def y_def cand_of_def)
  note cs = repeated_candidates [OF ix(1) [unfolded ix2] dat(3,4,1,2), folded x_def y_def]
  let ?sp3 = "log_comm (comm_new [x, y] ?ref peeks (produce_counters sp2)) sp2"
  have s3: "sok ?sp3" "sv ?sp3 = sv sp" using updD [OF 2(2)] by (simp_all add: log_comm_def)
  have "upd ?sp3 (fold v_take (removal_order [x, y]) (sv sp)) (snd (store_persistent_data [x, y] ?sp3))"
    using store_persistent_data_fold [OF s3(1), of "[x, y]"] s3(2) xy(3,4) by simp
  then have view: "v_data (sv (snd (store_persistent_data [x, y] ?sp3))) c = nths ?xs (- {min i' j', Suc (max i' j')})"
    using repeated_removal [OF ne xy(1-6)] updD(2) by metis
  have run: "space_consume env [c, c] [p, q] k persist peeks sp =
      (Inr (wrap_result [c, c] (consume_wk env [c, c] [p, q] k persist peeks) [x, y]), snd (store_persistent_data [x, y] ?sp3))"
    using cs 2(1) by (simp add: space_consume_def locked_consume_def Let_def consume_wk_def waiting_continuation_create_def case_prod_unfold)
  have order: "min i' j' < max i' j'" "max i' j' < length ?xs"
    "{#removed_datum x, removed_datum y#} = {#a_val (?xs ! min i' j'), a_val (?xs ! max i' j')#}"
    using ne i(2) j(2) by (auto simp: xy(7,8) min_def max_def add_mset_commute)
  obtain cont rs where wr: "wrap_result [c, c] (consume_wk env [c, c] [p, q] k persist peeks) [x, y] = Some (cont, rs)"
    "map rr_removed_datum rs = [removed_datum x, removed_datum y]"
    by (simp add: wrap_result_def)
  show ?thesis
    by (intro exI [of _ cont] exI [of _ rs] exI [of _ "snd (store_persistent_data [x, y] ?sp3)"]
        exI [of _ "min i' j'"] exI [of _ "max i' j'"] conjI)
      (simp_all add: run wr view order del: min_less_iff_conj max_less_iff_conj)
qed

theorem consume_repeated_channel_witness:
  "let d0 = produced demo_senv 1 3 False; d1 = produced demo_senv 1 4 False;
       store = create_from_hs_and_hr (empty_state\<lparr>data := [(1, [d0, d1])]\<rparr>) (history_reader_base (hot demo_space))
   in \<exists>cont rs sp'. space_consume demo_senv [1, 1] [0, 0] 9 False [] (demo_space\<lparr>hot := store\<rparr>) = (Inr (Some (cont, rs)), sp')
      \<and> mset (map rr_removed_datum rs) = {#3, 4#} \<and> v_data (sv sp') 1 = [d1]"
proof -
  let ?d0 = "produced demo_senv 1 3 False" and ?d1 = "produced demo_senv 1 4 False"
  let ?store = "create_from_hs_and_hr (empty_state\<lparr>data := [(1, [?d0, ?d1])]\<rparr>) (history_reader_base (hot demo_space))"
  let ?sp = "demo_space\<lparr>hot := ?store\<rparr>"
  have xs: "v_data (sv ?sp) 1 = [?d0, ?d1]"
    by (simp add: hs_view_def create_from_hs_and_hr_def)
  have ok: "sok ?sp"
    by (simp add: create_from_hs_and_hr_def empty_state_def empty_history_cache_def hs_ok_def state_ok_def
        history_cache_ok_def cache_ok_def hm_ok_def)
  have dat: "\<forall>d \<in> set (v_data (sv ?sp) 1). \<not> d_persist d \<and> get_match demo_senv 0 (a_val d) \<noteq> None
      \<and> get_match demo_senv 0 (a_val d) \<noteq> None"
    unfolding xs by (simp add: demo_senv_def produced_def datum_create_def)
  have len: "2 \<le> length (v_data (sv ?sp) 1)" unfolding xs by simp
  have two: "i = 0 \<and> j = 1" if "i < j" "j < length [?d0, ?d1]" for i j :: nat
    using that by auto
  have vals: "a_val ?d0 = 3" "a_val ?d1 = 4" by (simp_all add: produced_def datum_create_def)
  from consume_repeated_channel [OF demo_shuffles ok len dat, of 9 False "[]"] show ?thesis
    unfolding xs Let_def by (fastforce dest: two simp: vals nths_Cons)
qed

end
