(* ===== verification/RSpaceCheckpoint.thy ===== *)
theory RSpaceCheckpoint
  imports RSpaceCorrect
begin

section \<open>Checkpoints and resets of the tuple space\<close>

text \<open>
  \<open>create_checkpoint\<close>, \<open>reset\<close>, \<open>create\<close> and \<open>spawn\<close> of rspace++/src/rspace/rspace.rs over the
  history repository: each replaces the hot store by one over a reader of the new root and
  installs the recorded continuations again.
\<close>

subsection \<open>Restoring the installs\<close>

definition inst_wk ::
  "('c, 'p, 'a, 'k) rspace_env \<Rightarrow> 'c list \<Rightarrow> ('p, 'k) install \<Rightarrow> ('p, 'k) waiting_continuation" where
  "inst_wk env cs i = consume_wk env cs (i_patterns i) (i_continuation i) True []"

definition installable ::
  "('c, 'p, 'a, 'k) rspace_env \<Rightarrow> ('c, 'p, 'a, 'k) view \<Rightarrow> 'c list \<times> ('p, 'k) install \<Rightarrow> bool" where
  "installable env v e \<longleftrightarrow> length (fst e) = length (i_patterns (snd e)) \<and> distinct (fst e)
     \<and> \<not> fires (get_match env) v (fst e) (inst_wk env (fst e) (snd e))"

definition v_restored ::
  "('c, 'p, 'a, 'k) rspace_env \<Rightarrow> ('c list \<times> ('p, 'k) install) list \<Rightarrow> ('c, 'p, 'a, 'k) view \<Rightarrow> ('c, 'p, 'a, 'k) view" where
  "v_restored env ins = fold (\<lambda>(cs, i). v_installed cs (inst_wk env cs i)) ins"

lemma installable_cong: "v_data v = v_data w \<Longrightarrow> installable env v e = installable env w e"
  by (simp add: installable_def fires_cong [of v w])

lemma v_restored_simps:
  "v_data (v_restored env ins v) = v_data v" "v_conts (v_restored env ins v) = v_conts v"
  "v_joins (v_restored env ins v) = v_joins v"
  by (induction ins arbitrary: v) (auto simp: v_restored_def v_installed_simps)

lemma v_restored_inst:
  "distinct (map fst ins) \<Longrightarrow> v_inst v = Map.empty \<Longrightarrow>
   v_inst (v_restored env ins v) cs = map_option (inst_wk env cs) (hm_get ins cs)"
proof -
  have "distinct (map fst ins) \<Longrightarrow>
      v_inst (v_restored env ins v) cs = (case hm_get ins cs of Some i \<Rightarrow> Some (inst_wk env cs i) | None \<Rightarrow> v_inst v cs)"
    by (induction ins arbitrary: v)
      (auto simp: v_restored_def v_installed_simps map_of_eq_None_iff [THEN iffD2] cong: option.case_cong)
  then show "distinct (map fst ins) \<Longrightarrow> v_inst v = Map.empty \<Longrightarrow>
    v_inst (v_restored env ins v) cs = map_option (inst_wk env cs) (hm_get ins cs)"
    by (simp split: option.split)
qed

lemma restore_loop_ok:
  assumes "shuffles env"
  shows "sok sp \<Longrightarrow> list_all (installable env (sv sp)) ins \<Longrightarrow>
    \<exists>sp'. restore_loop env ins sp = (Inr (), sp') \<and> frame sp sp' \<and> installs sp' = fold (\<lambda>(cs, i). hm_put cs i) ins (installs sp)
      \<and> event_log sp' = event_log sp \<and> produce_counter sp' = produce_counter sp \<and> sv sp' = v_restored env ins (sv sp)"
proof (induction ins arbitrary: sp)
  case Nil
  then show ?case by (simp add: sret_def frame_def v_restored_def)
next
  case (Cons e ins)
  obtain cs i where e: "e = (cs, i)" by (cases e)
  have inst: "length cs = length (i_patterns i)" "distinct cs" "\<not> fires (get_match env) (sv sp) cs (inst_wk env cs i)"
    using Cons.prems e by (auto simp: installable_def)
  with install_view [OF assms Cons.prems(1) inst(1,2), of "i_continuation i"] obtain sp1 where
    1: "locked_install_internal env cs (i_patterns i) (i_continuation i) True sp = (Inr None, sp1)" "frame sp sp1"
      "installs sp1 = hm_put cs i (installs sp)" "event_log sp1 = event_log sp"
      "produce_counter sp1 = produce_counter sp" "sv sp1 = v_installed cs (inst_wk env cs i) (sv sp)"
    by (cases i) (auto simp: inst_wk_def)
  have "sok sp1" "list_all (installable env (sv sp1)) ins"
    using 1 Cons.prems installable_cong [of "sv sp1" "sv sp"] by (auto simp: frame_def v_installed_simps list_all_iff)
  from Cons.IH [OF this] obtain sp2 where 2: "restore_loop env ins sp1 = (Inr (), sp2)" "frame sp1 sp2"
    "installs sp2 = fold (\<lambda>(cs, i). hm_put cs i) ins (installs sp1)" "event_log sp2 = event_log sp1"
    "produce_counter sp2 = produce_counter sp1" "sv sp2 = v_restored env ins (sv sp1)"
    by auto
  have "restore_loop env (e # ins) sp = (Inr (), sp2)"
    using 1(1) 2(1) by (simp add: e sbind_def)
  with 1 2 frame_trans [OF 1(2) 2(2)] show ?case
    by (simp add: e v_restored_def)
qed

lemma fold_hm_put_fresh:
  "distinct (map fst m @ map fst ins) \<Longrightarrow> fold (\<lambda>(cs, i). hm_put cs i) ins m = m @ ins"
proof (induction ins arbitrary: m)
  case (Cons e ins)
  obtain cs i where e: "e = (cs, i)" by (cases e)
  have "hm_put cs i m = m @ [(cs, i)]"
    using Cons.prems by (auto simp: e hm_put_fresh)
  then show ?case
    using Cons.IH [of "m @ [(cs, i)]"] Cons.prems by (auto simp: e)
qed simp

subsection \<open>The space at a root\<close>

definition root_view ::
  "('c, 'p, 'a, 'k) repo_env \<Rightarrow> rspace_store \<Rightarrow> itree list \<Rightarrow> ('c, 'p, 'a, 'k) view" where
  "root_view env sts ts =
     \<lparr>v_data = (\<lambda>c. data_of env (root_leaves env sts ts (PREFIX_DATUM # hash_channel (henv env) c))),
      v_conts = (\<lambda>cs. conts_of env (root_leaves env sts ts (PREFIX_KONT # hash_from_vec (henv env) cs))),
      v_inst = Map.empty,
      v_joins = (\<lambda>c. joins_of env (root_leaves env sts ts (PREFIX_JOINS # hash_channel (henv env) c))),
      v_inst_joins = (\<lambda>_. [])\<rparr>"

lemma create_new_hot_store_ok:
  assumes ok: "repo_ok (repo env) U L ts (history_repo sp) (stores sp)"
  obtains rd where "space_reader env (tree_root (repo env) ts) sp = (Inr rd, sp)"
    "space_over env U L ts (create_new_hot_store env rd sp)" "sv (create_new_hot_store env rd sp) = root_view (repo env) (stores sp) ts"
proof -
  obtain rd where rd: "get_history_reader (repo env) (tree_root (repo env) ts) (history_repo sp) (stores sp) = Inr rd"
    using get_history_reader_ok [OF ok repo_ok_holds [OF ok]] by blast
  let ?hs = "create_from_hr (reader_base (repo env) (history_kv (stores sp)) rd)"
  have base: "history_reader_base ?hs = reader_base (repo env) (history_kv (stores sp)) rd"
    by (simp add: create_from_hr_def create_from_hs_and_hr_def)
  have over: "store_over (repo env) (stores sp) ts ?hs"
    unfolding store_over_def using rd base by auto
  have "sv (create_new_hot_store env rd sp) = root_view (repo env) (stores sp) ts"
    using store_over_base [OF ok repo_ok_holds [OF ok] over, unfolded base]
    by (simp add: create_new_hot_store_def create_from_hr_view root_view_def fun_eq_iff)
  with rd over ok that show ?thesis
    by (simp add: space_reader_def space_over_def create_new_hot_store_def)
qed

text \<open>After \<open>create_checkpoint\<close> and \<open>reset\<close> the space is at a root: it shows the leaves of the
  root and the installs.\<close>

definition at_root ::
  "('c, 'p, 'a, 'k) rspace_env \<Rightarrow> node set \<Rightarrow> persisted_data set \<Rightarrow> itree list \<Rightarrow>
   ('c list \<times> ('p, 'k) install) list \<Rightarrow> ('c, 'p, 'a, 'k) rspace \<Rightarrow> bool" where
  "at_root env U L ts ins sp \<longleftrightarrow> space_over env U L ts sp \<and> space_root sp = tree_root (repo env) ts \<and> installs sp = ins
     \<and> event_log sp = [] \<and> produce_counter sp = [] \<and> sv sp = v_restored env ins (root_view (repo env) (stores sp) ts)"

lemma reopen_ok:
  assumes env: "shuffles env" and ok: "repo_ok (repo env) U L ts (history_repo sp) (stores sp)"
    and ins: "hm_ok (installs sp)" "list_all (installable env (root_view (repo env) (stores sp) ts)) (installs sp)"
    and log: "event_log sp = []" "produce_counter sp = []"
  obtains rd sp' where "space_reader env (tree_root (repo env) ts) sp = (Inr rd, sp)"
    "restore_installs env (create_new_hot_store env rd sp) = (Inr (), sp')" "at_root env U L ts (installs sp) sp'"
    "stores sp' = stores sp" "history_repo sp' = history_repo sp"
proof -
  obtain rd where rd: "space_reader env (tree_root (repo env) ts) sp = (Inr rd, sp)"
    "space_over env U L ts (create_new_hot_store env rd sp)"
    "sv (create_new_hot_store env rd sp) = root_view (repo env) (stores sp) ts"
    by (rule create_new_hot_store_ok [OF ok])
  let ?sp = "(create_new_hot_store env rd sp)\<lparr>installs := []\<rparr>"
  have sp: "sok ?sp" "space_over env U L ts ?sp" "sv ?sp = root_view (repo env) (stores sp) ts" "installs ?sp = []"
    "event_log ?sp = []" "produce_counter ?sp = []" "stores ?sp = stores sp"
    "installs (create_new_hot_store env rd sp) = installs sp"
    using rd(2,3) log by (simp_all add: space_over_def store_over_def create_new_hot_store_def)
  from restore_loop_ok [OF env sp(1), of "installs sp"] ins(2) sp(3) obtain sp' where
    r: "restore_loop env (installs sp) ?sp = (Inr (), sp')" "frame ?sp sp'"
      "installs sp' = fold (\<lambda>(cs, i). hm_put cs i) (installs sp) (installs ?sp)" "event_log sp' = event_log ?sp"
      "produce_counter sp' = produce_counter ?sp" "sv sp' = v_restored env (installs sp) (sv ?sp)"
    by auto
  have "installs sp' = installs sp"
    using r(3) ins(1) sp(4) fold_hm_put_fresh [of "[]" "installs sp"] by (simp add: hm_ok_def)
  moreover have over: "space_over env U L ts sp'"
    by (rule space_over_frame [OF sp(2) r(2)])
  moreover have "space_root sp' = tree_root (repo env) ts"
    using over repo_ok_root by (auto simp: space_over_def space_root_def)
  moreover have "stores sp' = stores sp" "history_repo sp' = history_repo sp"
    using r(2) sp(7) by (simp_all add: frame_def create_new_hot_store_def)
  ultimately show ?thesis
    using r(1,4-6) sp rd(1) that [of rd sp'] by (simp add: at_root_def restore_installs_def)
qed

subsection \<open>Checkpoints\<close>

text \<open>Two views agree on the channels \<open>C\<close> and the joins \<open>K\<close>, the second in canonical order.\<close>

definition same_content ::
  "('c, 'p, 'a, 'k) repo_env \<Rightarrow> 'c set \<Rightarrow> 'c list set \<Rightarrow> ('c, 'p, 'a, 'k) view \<Rightarrow> ('c, 'p, 'a, 'k) view \<Rightarrow> bool" where
  "same_content env C K v v' \<longleftrightarrow>
     (\<forall>c \<in> C. v_data v' c = sort_key (ser_datum_rec (cenv env)) (v_data v c))
     \<and> (\<forall>c \<in> C. v_joins v' c = sort_key (ser_join (cenv env)) (v_joins v c))
     \<and> (\<forall>cs \<in> K. v_conts v' cs = sort_key (ser_wk (cenv env)) (v_conts v cs))"

lemma checkpointed_view:
  assumes ok: "repo_ok env U L ts rp sts" and over: "store_over env sts ts hs" and fits: "checkpoint_fits env U L C K ts hs"
    and cp: "checkpointed env U L ts hs sts repo' sts'"
  shows "same_content env C K (hs_view hs) (root_view env sts' (checkpoint_tree env ts hs))"
proof -
  have cod: "codec_ok (cenv env)" "hs_ok hs" and keys: "keys_ok env C K hs"
    using ok over fits by (auto simp: repo_ok_def env_good_def store_over_def checkpoint_fits_def)
  note hold = repo_ok_holds [OF ok]
  note new = checkpoint_leaves [OF cod(2) keys cod(1), of _ "root_leaves env sts ts", folded checkpointedD(6) [OF cp]]
    and base = store_over_base [OF ok hold over] and sorted = sorted_leaves [OF ok hold]
  show ?thesis
    unfolding same_content_def root_view_def
    by (auto simp: new hs_view_def fill_def base sorted split: option.splits)
qed

lemma installable_content:
  assumes "space_ok env sp" "(cs, i) \<in> set (installs sp)" "set cs \<subseteq> C" "same_content (repo env) C K (sv sp) v"
  shows "installable env v (cs, i)"
proof -
  have ok: "tuple_ok (sv sp)" "quiescent (get_match env) (sv sp)" "installs_ok env sp"
    using assms(1) by (auto simp: space_ok_def)
  have "hm_get (installs sp) cs = Some i"
    using assms(2) ok(3) by (simp add: installs_ok_def hm_ok_def)
  then have wk: "inst_wk env cs i \<in> set (all_conts (sv sp) cs)"
    using ok(3) by (simp add: installs_ok_def all_conts_def inst_wk_def)
  then have "\<not> fires (get_match env) (sv sp) cs (inst_wk env cs i)"
    using ok(2) by (simp add: quiescent_def)
  moreover have "has_datum m v (c, p) = has_datum m (sv sp) (c, p)" if "(c, p) \<in> set (zip cs ps)" for m c p ps
  proof -
    have "c \<in> C" using assms(3) set_zip_leftD [OF that] by blast
    then have "set (v_data v c) = set (v_data (sv sp) c)"
      using assms(4) by (simp add: same_content_def)
    then show ?thesis by (simp add: has_datum_def)
  qed
  then have "fires m v cs wc = fires m (sv sp) cs wc" for m wc
    unfolding fires_def by auto
  moreover have "distinct cs" "length (wc_patterns (inst_wk env cs i)) = length cs"
    using wk ok(1) unfolding tuple_ok_def by blast+
  ultimately show ?thesis by (simp add: installable_def inst_wk_def)
qed

lemma v_inst_restored:
  assumes "installs_ok env sp" "installs sp = ins" "v_inst v = Map.empty"
  shows "v_inst (v_restored env ins v) = v_inst (sv sp)"
  using assms v_restored_inst [of ins v env] by (simp add: installs_ok_def hm_ok_def fun_eq_iff inst_wk_def [abs_def])

lemma create_checkpoint_ok:
  assumes env: "shuffles env" "space_ok env sp" "space_over env U L ts sp"
    and fits: "checkpoint_fits (repo env) U L C K ts (hot sp)" and ins: "\<forall>cs \<in> fst ` set (installs sp). set cs \<subseteq> C"
  defines "us \<equiv> checkpoint_tree (repo env) ts (hot sp)"
  obtains cp sp' where "create_checkpoint env sp = (Inr cp, sp')" "cp_root cp = tree_root (repo env) us" "cp_log cp = event_log sp"
    "at_root env U L us (installs sp) sp'" "same_content (repo env) C K (sv sp) (root_view (repo env) (stores sp') us)"
    "checkpointed (repo env) U L ts (hot sp) (stores sp) (history_repo sp') (stores sp')"
proof -
  have ok: "repo_ok (repo env) U L ts (history_repo sp) (stores sp)" "store_over (repo env) (stores sp) ts (hot sp)"
    using env(3) by (auto simp: space_over_def)
  obtain repo' stores' where cp: "repo_checkpoint (repo env) (changes (hot sp)) (history_repo sp) (stores sp) = Inr (repo', stores')"
    "checkpointed (repo env) U L ts (hot sp) (stores sp) repo' stores'"
    using repo_checkpoint_ok [OF ok fits] by blast
  let ?sp1 = "sp\<lparr>history_repo := repo', stores := stores', event_log := [], produce_counter := []\<rparr>"
  have ok1: "repo_ok (repo env) U L us (history_repo ?sp1) (stores ?sp1)"
    using checkpointedD(1) [OF cp(2)] by (simp add: us_def)
  have same: "same_content (repo env) C K (sv sp) (root_view (repo env) stores' us)"
    unfolding us_def by (rule checkpointed_view [OF ok fits cp(2)])
  have "hm_ok (installs ?sp1)" "list_all (installable env (root_view (repo env) (stores ?sp1) us)) (installs ?sp1)"
    using env(2) ins installable_content [OF env(2) _ _ same]
    by (auto simp: space_ok_def installs_ok_def list_all_iff)
  then obtain rd sp' where re: "space_reader env (tree_root (repo env) us) ?sp1 = (Inr rd, ?sp1)"
    "restore_installs env (create_new_hot_store env rd ?sp1) = (Inr (), sp')" "at_root env U L us (installs ?sp1) sp'"
    "stores sp' = stores ?sp1" "history_repo sp' = history_repo ?sp1"
    by (rule reopen_ok [OF env(1) ok1]) simp_all
  have root: "repo_root repo' = tree_root (repo env) us"
    using repo_ok_root [OF ok1] by simp
  have "create_checkpoint env sp = (Inr \<lparr>cp_root = tree_root (repo env) us, cp_log = event_log sp\<rparr>, sp')"
    using re(1,2,5) cp(1) root by (simp add: create_checkpoint_def sbind_def)
  with re cp(2) same show ?thesis
    by (intro that) auto
qed

subsection \<open>Resets\<close>

lemma root_view_cold: "cold_kv sts' = cold_kv sts \<Longrightarrow> root_view env sts' ts = root_view env sts ts"
  by (simp add: root_view_def root_leaves_def)

lemma space_reset_ok:
  assumes env: "shuffles env" "space_over env U L ts sp" and vs: "root_holds (repo env) U L (stores sp) vs"
    "hm_get (roots_kv (stores sp)) (tree_root (repo env) vs) \<noteq> None"
    and ins: "hm_ok (installs sp)" "list_all (installable env (root_view (repo env) (stores sp) vs)) (installs sp)"
  obtains sp' where "space_reset env (tree_root (repo env) vs) sp = (Inr (), sp')" "at_root env U L vs (installs sp) sp'"
    "history_kv (stores sp') = history_kv (stores sp)" "cold_kv (stores sp') = cold_kv (stores sp)"
proof -
  have ok: "repo_ok (repo env) U L ts (history_repo sp) (stores sp)"
    using env(2) by (simp add: space_over_def)
  obtain repo' stores' where rs: "repo_reset (repo env) (tree_root (repo env) vs) (history_repo sp) (stores sp) = Inr (repo', stores')"
    "repo_ok (repo env) U L vs repo' stores'" "history_kv stores' = history_kv (stores sp)" "cold_kv stores' = cold_kv (stores sp)"
    by (rule repo_reset_ok [OF ok vs])
  let ?sp1 = "sp\<lparr>history_repo := repo', stores := stores', event_log := [], produce_counter := []\<rparr>"
  have "repo_ok (repo env) U L vs (history_repo ?sp1) (stores ?sp1)" "hm_ok (installs ?sp1)"
    "list_all (installable env (root_view (repo env) (stores ?sp1) vs)) (installs ?sp1)"
    using rs(2) ins by (simp_all add: root_view_cold [OF rs(4)])
  then obtain rd sp' where re: "space_reader env (tree_root (repo env) vs) ?sp1 = (Inr rd, ?sp1)"
    "restore_installs env (create_new_hot_store env rd ?sp1) = (Inr (), sp')" "at_root env U L vs (installs ?sp1) sp'"
    "stores sp' = stores ?sp1"
    by (rule reopen_ok [OF env(1)]) simp_all
  have "space_reset env (tree_root (repo env) vs) sp = (Inr (), sp')"
    using rs(1) re(1,2) by (simp add: space_reset_def sbind_def)
  with re rs(3,4) show ?thesis by (intro that [of sp']) simp_all
qed

subsection \<open>Creation\<close>

lemma empty_root_hash: "env_good env \<Longrightarrow> empty_root_node_hash (radix_of env) = Inr (tree_root env empties)"
  by (simp add: empty_root_node_hash_def hash_node_def encode_node_ok empty_node_ok tree_root_def nhash_def)

definition empty_stores :: rspace_store where
  "empty_stores = \<lparr>history_kv = [], roots_kv = [], cold_kv = []\<rparr>"

definition empty_view :: "('c, 'p, 'a, 'k) view" where
  "empty_view = \<lparr>v_data = (\<lambda>_. []), v_conts = (\<lambda>_. []), v_inst = Map.empty, v_joins = (\<lambda>_. []), v_inst_joins = (\<lambda>_. [])\<rparr>"

lemma empties_view: "codec_ok (cenv env) \<Longrightarrow> root_view env sts empties = empty_view"
  by (simp add: root_view_def empty_view_def root_leaves_def leaf_at_def root_get_empties fun_eq_iff)

lemma empty_view_ok:
  assumes "sok sp" "sv sp = empty_view" "installs sp = []" "event_log sp = []" "produce_counter sp = []"
  shows "space_ok env sp"
proof -
  have none: "all_conts (sv sp) cs = []" for cs
    by (simp add: assms(2) empty_view_def all_conts_def)
  then have "tuple_ok (sv sp)" "quiescent (get_match env) (sv sp)"
    unfolding tuple_ok_def quiescent_def by (simp_all add: assms(2) empty_view_def)
  moreover have "installs_ok env sp" "counter_ok sp"
    using assms by (simp_all add: installs_ok_def counter_ok_def empty_view_def hm_ok_def pc_val_def)
  ultimately show ?thesis using assms(1) by (simp add: space_ok_def)
qed

lemma empty_repository_ok:
  assumes "env_good env" "universe (radix_of env) U" "empty_node \<in> U" "leaf_universe env L"
  shows "\<exists>rp sts. lmdb_repository env empty_stores = Inr (rp, sts) \<and> repo_ok env U L empties rp sts
    \<and> hm_get (roots_kv sts) (tree_root env empties) \<noteq> None"
proof -
  have st: "store_ok (radix_of env) U []" "openable (radix_of env) U [] 32 empties"
    using assms by (simp_all add: store_ok_def sinv_def openable_def root_ok_def env_good_def)
  obtain h where h: "history_create (radix_of env) [] (tree_root env empties) = Inr h"
    "history_ok (radix_of env) U [] 32 empties h"
    using history_create_ok [OF st] unfolding tree_root_def by blast
  obtain roots where roots: "rs_record_root [] (tree_root env empties) = Inr roots"
    "hm_get roots = (hm_get [])(tree_root env empties \<mapsto> ascii ''tag'', current_root_name \<mapsto> tree_root env empties)"
    using rr_commit_ok [of "[]" "tree_root env empties"] by (auto simp: rr_commit_def)
  have "lmdb_repository env empty_stores =
      Inr (\<lparr>current_history = h\<rparr>, empty_stores\<lparr>roots_kv := roots\<rparr>)"
    using h(1) roots(1) empty_root_hash [OF assms(1)]
    by (simp add: lmdb_repository_def empty_stores_def rr_current_root_def rs_current_root_def inmem.get_one_lookup)
  moreover have "repo_ok env U L empties \<lparr>current_history = h\<rparr> (empty_stores\<lparr>roots_kv := roots\<rparr>)"
    using h(2) assms by (simp add: repo_ok_def empty_stores_def cold_ok_def content_ok_def root_get_empties)
  ultimately show ?thesis using roots(2) by auto
qed

lemma space_create_ok:
  assumes "env_good (repo env)" "universe (radix_of (repo env)) U" "empty_node \<in> U" "leaf_universe (repo env) L"
  shows "\<exists>sp. space_create env empty_stores = Inr sp \<and> space_ok env sp \<and> space_over env U L empties sp \<and> sv sp = empty_view
    \<and> space_root sp = tree_root (repo env) empties \<and> hm_get (roots_kv (stores sp)) (space_root sp) \<noteq> None"
proof -
  obtain rp sts where r: "lmdb_repository (repo env) empty_stores = Inr (rp, sts)" "repo_ok (repo env) U L empties rp sts"
    "hm_get (roots_kv sts) (tree_root (repo env) empties) \<noteq> None"
    using empty_repository_ok [OF assms] by blast
  have root: "repo_root rp = tree_root (repo env) empties" by (rule repo_ok_root [OF r(2)])
  let ?sp = "\<lambda>hs. space_apply rp sts hs :: ('a, 'b, 'c, 'd) rspace"
  have "repo_ok (repo env) U L empties (history_repo (?sp hs)) (stores (?sp hs))" for hs
    using r(2) by (simp add: space_apply_def)
  from create_new_hot_store_ok [OF this] obtain rd where
    rd: "space_reader env (tree_root (repo env) empties) (?sp undefined) = (Inr rd, ?sp undefined)"
    "space_over env U L empties (create_new_hot_store env rd (?sp undefined))"
    "sv (create_new_hot_store env rd (?sp undefined)) = root_view (repo env) (stores (?sp undefined)) empties" .
  let ?hs = "create_from_hr (reader_base (repo env) (history_kv sts) rd)"
  have sp: "create_new_hot_store env rd (?sp undefined) = ?sp ?hs"
    by (simp add: create_new_hot_store_def space_apply_def)
  have "space_create env empty_stores = Inr (?sp ?hs)"
    using r(1) rd(1) root by (simp add: space_create_def create_history_repo_def space_reader_def space_apply_def)
  moreover have view: "sv (?sp ?hs) = empty_view"
    using rd(3) assms(1) sp by (simp add: empties_view env_good_def)
  moreover have "space_ok env (?sp ?hs)"
    by (rule empty_view_ok [OF _ view]) (simp_all add: space_apply_def)
  ultimately show ?thesis
    using rd(2) r(3) sp root by (auto simp: space_root_def space_apply_def)
qed

subsection \<open>A concrete space with one datum\<close>

definition demo_space1 :: "(byte, byte, byte, byte) rspace" where
  "demo_space1 = space_apply demo_repo demo_stores demo_hs"

lemma demo_space1_over: "space_over demo_senv demo_U {demo_leaf} empties demo_space1"
  using demo_repo_ok demo_over by (simp add: space_over_def demo_space1_def space_apply_def demo_senv_def)

lemma demo_space1_fits: "checkpoint_fits (repo demo_senv) demo_U {demo_leaf} {1} {} empties (hot demo_space1)"
  using demo_fits by (simp add: demo_senv_def demo_space1_def space_apply_def)

lemma demo_space1_ok: "space_ok demo_senv demo_space1"
proof -
  have "demo_hs = put_datum (hot demo_space) 1 demo_put"
    by (simp add: demo_hs_def demo_space_def space_apply_def demo_stores_def)
  moreover have "sok demo_space" using demo_space_ok by (simp add: space_ok_def)
  ultimately have view: "sok demo_space1" "sv demo_space1 = v_put_datum 1 demo_put (sv demo_space)"
    using put_datum_ok [of "hot demo_space" 1 demo_put] by (simp_all add: demo_space1_def space_apply_def)
  have none: "all_conts (sv demo_space1) cs = []" for cs
    by (simp add: view demo_space_view v_put_datum_def all_conts_def)
  then have "tuple_ok (sv demo_space1)" "quiescent (get_match demo_senv) (sv demo_space1)"
    unfolding tuple_ok_def quiescent_def by (simp_all add: view demo_space_view v_put_datum_def)
  moreover have "installs_ok demo_senv demo_space1" "counter_ok demo_space1"
    by (simp_all add: installs_ok_def counter_ok_def view demo_space_view v_put_datum_def)
      (simp_all add: demo_space1_def space_apply_def pc_val_def)
  ultimately show ?thesis using view(1) by (simp add: space_ok_def)
qed

lemma demo_space1_installs: "installs demo_space1 = []" "changes (hot demo_space1) \<noteq> []"
  by (simp_all add: demo_space1_def space_apply_def demo_changes)

subsection \<open>Properties\<close>

text \<open>
  C4. \<open>create_checkpoint\<close> is faithful at the level of the space: it returns the new root and the
  event log, the space then shows the same data, joins and continuations (in canonical order) and
  the same installed continuations, its log and counter are empty, and its hot store is over a
  reader of the new root.
\<close>

theorem create_checkpoint_correct:
  assumes "shuffles env" "space_ok env sp" "space_over env U L ts sp" "checkpoint_fits (repo env) U L C K ts (hot sp)"
    "\<forall>cs \<in> fst ` set (installs sp). set cs \<subseteq> C"
  shows "\<exists>cp sp'. create_checkpoint env sp = (Inr cp, sp') \<and> cp_root cp = space_root sp' \<and> cp_log cp = event_log sp
    \<and> same_content (repo env) C K (sv sp) (sv sp') \<and> v_inst (sv sp') = v_inst (sv sp) \<and> installs sp' = installs sp
    \<and> event_log sp' = [] \<and> produce_counter sp' = []
    \<and> space_over env U L (checkpoint_tree (repo env) ts (hot sp)) sp'"
proof -
  let ?us = "checkpoint_tree (repo env) ts (hot sp)"
  obtain cp sp' where r: "create_checkpoint env sp = (Inr cp, sp')" "cp_root cp = tree_root (repo env) ?us"
    "cp_log cp = event_log sp" "at_root env U L ?us (installs sp) sp'"
    "same_content (repo env) C K (sv sp) (root_view (repo env) (stores sp') ?us)"
    "checkpointed (repo env) U L ts (hot sp) (stores sp) (history_repo sp') (stores sp')"
    by (rule create_checkpoint_ok [OF assms])
  have "v_inst (v_restored env (installs sp) (root_view (repo env) (stores sp') ?us)) = v_inst (sv sp)"
    using v_inst_restored [of env sp "installs sp"] assms(2) by (simp add: space_ok_def root_view_def)
  moreover have "same_content (repo env) C K (sv sp) (sv sp')"
    using r(4,5) by (simp add: same_content_def at_root_def v_restored_simps)
  ultimately show ?thesis
    using r(1-4) by (auto simp: at_root_def)
qed

theorem create_checkpoint_correct_witness:
  "\<exists>cp sp'. create_checkpoint demo_senv demo_space1 = (Inr cp, sp') \<and> cp_root cp = space_root sp'
    \<and> same_content (repo demo_senv) {1} {} (sv demo_space1) (sv sp')"
  using create_checkpoint_correct [OF demo_shuffles demo_space1_ok demo_space1_over demo_space1_fits] demo_space1_installs
  by auto

text \<open>
  C13. Rollback: after a checkpoint that wrote something, and any consumes on distinct channels and produces since,
  \<open>reset\<close> to the root of the checkpoint succeeds and gives the space as it was after the
  checkpoint.
\<close>

theorem checkpoint_reset_roundtrip:
  assumes "shuffles env" "space_ok env sp" "space_over env U L ts sp" "checkpoint_fits (repo env) U L C K ts (hot sp)"
    "\<forall>cs \<in> fst ` set (installs sp). set cs \<subseteq> C" "changes (hot sp) \<noteq> []"
    "create_checkpoint env sp = (Inr cp, sp1)" "space_ok env sp1" "list_all op_ok ops" "list_all (\<lambda>op. \<not> is_install op) ops"
  shows "\<exists>sp2. space_reset env (cp_root cp) (foldl (space_step env) sp1 ops) = (Inr (), sp2) \<and> sv sp2 = sv sp1
    \<and> space_root sp2 = cp_root cp \<and> installs sp2 = installs sp \<and> event_log sp2 = [] \<and> produce_counter sp2 = []"
proof -
  let ?us = "checkpoint_tree (repo env) ts (hot sp)" and ?sp = "foldl (space_step env) sp1 ops"
  obtain cp' sp1' where "create_checkpoint env sp = (Inr cp', sp1')" "cp_root cp' = tree_root (repo env) ?us"
    "cp_log cp' = event_log sp" "at_root env U L ?us (installs sp) sp1'"
    "same_content (repo env) C K (sv sp) (root_view (repo env) (stores sp1') ?us)"
    "checkpointed (repo env) U L ts (hot sp) (stores sp) (history_repo sp1') (stores sp1')"
    by (rule create_checkpoint_ok [OF assms(1-5)])
  with assms(7) have r: "cp_root cp = tree_root (repo env) ?us" "at_root env U L ?us (installs sp) sp1"
    "same_content (repo env) C K (sv sp) (root_view (repo env) (stores sp1) ?us)"
    "checkpointed (repo env) U L ts (hot sp) (stores sp) (history_repo sp1) (stores sp1)"
    by auto
  from space_steps_frame [OF assms(1,8,9,10)] have fr: "frame sp1 ?sp" "installs ?sp = installs sp" "stores ?sp = stores sp1"
    using r(2) by (simp_all add: at_root_def frame_def)
  have over: "space_over env U L ?us ?sp"
    using r(2) fr(1) space_over_frame by (auto simp: at_root_def)
  have hold: "root_holds (repo env) U L (stores ?sp) ?us" "hm_get (roots_kv (stores ?sp)) (tree_root (repo env) ?us) \<noteq> None"
    using checkpointedD(1,5) [OF r(4)] assms(6) fr(3) by (auto simp: repo_ok_holds repo_ok_root)
  have ins: "hm_ok (installs ?sp)" "list_all (installable env (root_view (repo env) (stores ?sp) ?us)) (installs ?sp)"
    using assms(2,5) installable_content [OF assms(2) _ _ r(3)] fr(2,3)
    by (auto simp: space_ok_def installs_ok_def list_all_iff)
  obtain sp2 where "space_reset env (tree_root (repo env) ?us) ?sp = (Inr (), sp2)" "at_root env U L ?us (installs ?sp) sp2"
    "history_kv (stores sp2) = history_kv (stores ?sp)" "cold_kv (stores sp2) = cold_kv (stores ?sp)"
    by (rule space_reset_ok [OF assms(1) over hold ins])
  then show ?thesis
    using r(1,2) fr(2,3) root_view_cold [of "stores sp2" "stores sp1" "repo env" ?us] by (auto simp: at_root_def)
qed

theorem checkpoint_reset_roundtrip_witness:
  "\<exists>cp sp1 sp2. create_checkpoint demo_senv demo_space1 = (Inr cp, sp1)
    \<and> space_reset demo_senv (cp_root cp) (foldl (space_step demo_senv) sp1 [Produce 2 7 False, Consume [1] [0] 9 False []]) = (Inr (), sp2)
    \<and> sv sp2 = sv sp1"
proof -
  note demo = demo_shuffles demo_space1_ok demo_space1_over demo_space1_fits
  have ins: "\<forall>cs \<in> fst ` set (installs demo_space1). set cs \<subseteq> {1}" by (simp add: demo_space1_installs)
  obtain cp sp1 where r: "create_checkpoint demo_senv demo_space1 = (Inr cp, sp1)"
    "at_root demo_senv demo_U {demo_leaf} (checkpoint_tree (repo demo_senv) empties (hot demo_space1)) (installs demo_space1) sp1"
    by (rule create_checkpoint_ok [OF demo ins])
  have "checkpoint_tree (repo demo_senv) empties (hot demo_space1) = demo_tree"
    using demo_checkpoint_tree by (simp add: demo_senv_def demo_space1_def space_apply_def)
  with r(2) have v: "sok sp1" "sv sp1 = root_view demo_renv (stores sp1) demo_tree" "installs sp1 = []" "event_log sp1 = []"
    "produce_counter sp1 = []"
    by (simp_all add: at_root_def space_over_def store_over_def demo_space1_installs v_restored_def demo_senv_def)
  have "t_get (demo_tree ! Suc 0) r = None" "t_get (demo_tree ! 2) r = None" for r
    using fun_cong [OF root_get_empties, of "1 # r"] fun_cong [OF root_get_empties, of "2 # r"] by (simp_all add: demo_tree_def)
  then have none: "all_conts (sv sp1) cs = []" "v_conts (sv sp1) cs = []" "v_joins (sv sp1) c = []" "v_inst_joins (sv sp1) c = []"
    "v_inst (sv sp1) = Map.empty" for cs c
    using demo_renv_good
    by (simp_all add: v root_view_def all_conts_def root_leaves_def leaf_at_def PREFIX_KONT_def PREFIX_JOINS_def env_good_def)
  then have "space_ok demo_senv sp1"
    using v(1,3-5) by (simp add: space_ok_def tuple_ok_def quiescent_def installs_ok_def counter_ok_def pc_val_def hm_ok_def)
  from checkpoint_reset_roundtrip [OF demo ins demo_space1_installs(2) r(1) this,
      of "[Produce 2 7 False, Consume [1] [0] 9 False []]"] r(1) show ?thesis
    by auto
qed

text \<open>
  \<open>reset\<close> to a root that was never recorded reports the unknown root and changes nothing.
\<close>

theorem reset_unknown_root:
  assumes "hm_get (roots_kv (stores sp)) root = None"
  shows "space_reset env root sp = (Inl (Err (RSpaceHistoryError (HistoryRootError (UnknownRootError ''unknown root'')))), sp)"
  by (simp add: space_reset_def repo_reset_unknown [OF assms])

theorem reset_unknown_root_witness:
  "space_reset demo_senv [7] demo_space = (Inl (Err (RSpaceHistoryError (HistoryRootError (UnknownRootError ''unknown root'')))), demo_space)"
proof (rule reset_unknown_root)
  have "length (tree_root demo_renv empties) = 32"
    using demo_hash_length by (simp add: tree_root_def nhash_def radix_of_def)
  then have "tree_root demo_renv empties \<noteq> [7]" by auto
  then show "hm_get (roots_kv (stores demo_space)) [7] = None"
    by (simp add: demo_space_def space_apply_def demo_stores_def)
qed

text \<open>
  A space created on empty stores is empty and satisfies the invariants; its root, the hash
  of the empty trie, is recorded.
\<close>

theorem space_create_correct:
  assumes "env_good (repo env)" "universe (radix_of (repo env)) U" "empty_node \<in> U" "leaf_universe (repo env) L"
  shows "\<exists>sp. space_create env empty_stores = Inr sp \<and> space_ok env sp \<and> space_over env U L empties sp \<and> sv sp = empty_view
    \<and> hm_get (roots_kv (stores sp)) (space_root sp) \<noteq> None"
  using space_create_ok [OF assms] by blast

theorem space_create_correct_witness:
  "\<exists>sp. space_create demo_senv empty_stores = Inr sp \<and> space_ok demo_senv sp \<and> sv sp = empty_view"
proof -
  have "repo_ok (repo demo_senv) demo_U {demo_leaf} empties demo_repo demo_stores"
    using demo_repo_ok by (simp add: demo_senv_def)
  then have "env_good (repo demo_senv)" "universe (radix_of (repo demo_senv)) demo_U" "empty_node \<in> demo_U"
    "leaf_universe (repo demo_senv) {demo_leaf}"
    by (auto simp: repo_ok_def history_ok_def store_ok_def demo_U_def)
  from space_create_correct [OF this] show ?thesis by blast
qed

text \<open>
  \<open>clear\<close> empties the space: when the empty root was recorded, it shows nothing but the
  installed continuations, which are installed again.
\<close>

theorem space_clear_correct:
  assumes "shuffles env" "space_ok env sp" "space_over env U L ts sp" "root_holds (repo env) U L (stores sp) empties"
    "hm_get (roots_kv (stores sp)) (tree_root (repo env) empties) \<noteq> None"
  shows "\<exists>sp'. space_clear env sp = (Inr (), sp') \<and> sv sp' = v_restored env (installs sp) empty_view
    \<and> installs sp' = installs sp \<and> space_over env U L empties sp'"
proof -
  have good: "env_good (repo env)"
    using assms(3) by (simp add: space_over_def repo_ok_def)
  then have empty: "root_view (repo env) sts empties = empty_view" for sts
    by (simp add: empties_view env_good_def)
  have ok: "tuple_ok (sv sp)" "installs_ok env sp"
    using assms(2) by (auto simp: space_ok_def)
  have "installable env empty_view (cs, i)" if "(cs, i) \<in> set (installs sp)" for cs i
  proof -
    have "hm_get (installs sp) cs = Some i"
      using that ok(2) by (simp add: installs_ok_def hm_ok_def)
    then have "inst_wk env cs i \<in> set (all_conts (sv sp) cs)"
      using ok(2) by (simp add: installs_ok_def all_conts_def inst_wk_def)
    then have "cs \<noteq> []" "distinct cs" "length (wc_patterns (inst_wk env cs i)) = length cs"
      using ok(1) unfolding tuple_ok_def by blast+
    then show ?thesis
      by (cases cs; cases "i_patterns i") (auto simp: installable_def inst_wk_def fires_def has_datum_def empty_view_def)
  qed
  then have ins: "hm_ok (installs sp)" "list_all (installable env (root_view (repo env) (stores sp) empties)) (installs sp)"
    using ok(2) by (auto simp: installs_ok_def list_all_iff empty)
  obtain sp' where r: "space_reset env (tree_root (repo env) empties) sp = (Inr (), sp')" "at_root env U L empties (installs sp) sp'"
    by (rule space_reset_ok [OF assms(1,3-5) ins])
  then show ?thesis
    using empty by (auto simp: space_clear_def empty_root_hash [OF good] at_root_def)
qed

theorem space_clear_correct_witness:
  "\<exists>sp'. space_clear demo_senv demo_space1 = (Inr (), sp') \<and> sv sp' = empty_view"
proof -
  have "stores demo_space1 = demo_stores" "repo demo_senv = demo_renv"
    by (simp_all add: demo_space1_def space_apply_def demo_senv_def)
  then have "root_holds (repo demo_senv) demo_U {demo_leaf} (stores demo_space1) empties"
    "hm_get (roots_kv (stores demo_space1)) (tree_root (repo demo_senv) empties) \<noteq> None"
    using repo_ok_holds [OF demo_repo_ok] by (simp_all add: demo_stores_def)
  from space_clear_correct [OF demo_shuffles demo_space1_ok demo_space1_over this] show ?thesis
    by (auto simp: demo_space1_installs v_restored_def)
qed

end
