(* ===== verification/HashSets.thy ===== *)
theory HashSets
  imports Prelude "HOL-Library.Multiset" "HOL-Library.List_Lexorder" "HOL-Library.Product_Lexorder"
begin

section \<open>Hash sets of the standard library\<close>

text \<open>
  A \<open>HashSet<T>\<close> is the list of its elements in iteration order. \<open>T\<close>'s equality may be coarser
  than equality of all fields (\<open>Produce\<close> compares its hash alone), so every operation takes
  the \<open>key\<close> that \<open>Eq\<close> and \<open>Hash\<close> look at. \<open>union\<close> and \<open>intersection\<close> iterate the larger and the
  smaller set first, as the standard library does; \<open>hkeys\<close> is what a set means. A
  \<open>HashMap<K, HashSet<usize>>\<close> built by \<open>entry(k).or_default().insert(i)\<close> is an \<open>inv_index\<close>.
\<close>

type_synonym 'a hset = "'a list"

definition hkeys :: "('a \<Rightarrow> 'k) \<Rightarrow> 'a hset \<Rightarrow> 'k set" where
  "hkeys key s = key ` set s"

definition hset_contains :: "('a \<Rightarrow> 'k) \<Rightarrow> 'a hset \<Rightarrow> 'a \<Rightarrow> bool" where
  "hset_contains key s x \<longleftrightarrow> key x \<in> set (map key s)"

definition hset_insert :: "('a \<Rightarrow> 'k) \<Rightarrow> 'a \<Rightarrow> 'a hset \<Rightarrow> 'a hset" where
  "hset_insert key x s = (if hset_contains key s x then s else s @ [x])"

definition hset_collect :: "('a \<Rightarrow> 'k) \<Rightarrow> 'a list \<Rightarrow> 'a hset" where
  "hset_collect key xs = foldl (\<lambda>s x. hset_insert key x s) [] xs"

definition hset_remove :: "('a \<Rightarrow> 'k) \<Rightarrow> 'a \<Rightarrow> 'a hset \<Rightarrow> 'a hset" where
  "hset_remove key x s = filter (\<lambda>y. key y \<noteq> key x) s"

definition hset_difference :: "('a \<Rightarrow> 'k) \<Rightarrow> 'a hset \<Rightarrow> 'a hset \<Rightarrow> 'a hset" where
  "hset_difference key a b = filter (\<lambda>x. \<not> hset_contains key b x) a"

definition hset_union :: "('a \<Rightarrow> 'k) \<Rightarrow> 'a hset \<Rightarrow> 'a hset \<Rightarrow> 'a hset" where
  "hset_union key a b =
     (if length a \<ge> length b then a @ hset_difference key b a else b @ hset_difference key a b)"

definition hset_intersection :: "('a \<Rightarrow> 'k) \<Rightarrow> 'a hset \<Rightarrow> 'a hset \<Rightarrow> 'a hset" where
  "hset_intersection key a b =
     (if length a \<le> length b then filter (hset_contains key b) a else filter (hset_contains key a) b)"

subsection \<open>What the operations mean\<close>

lemma hset_contains_iff [simp]: "hset_contains key s x \<longleftrightarrow> key x \<in> hkeys key s"
  by (simp add: hset_contains_def hkeys_def)

lemma hkeys_simps [simp]:
  "hkeys key [] = {}" "hkeys key (x # s) = insert (key x) (hkeys key s)" "hkeys key (s @ t) = hkeys key s \<union> hkeys key t"
  "hkeys (\<lambda>x. x) s = set s"
  by (auto simp: hkeys_def)

lemma hkeys_insert [simp]: "hkeys key (hset_insert key x s) = insert (key x) (hkeys key s)"
  by (auto simp: hset_insert_def)

lemma hkeys_collect [simp]: "hkeys key (hset_collect key xs) = hkeys key xs"
proof -
  have "hkeys key (foldl (\<lambda>s x. hset_insert key x s) s xs) = hkeys key s \<union> hkeys key xs" for s
    by (induction xs arbitrary: s) auto
  from this [of "[]"] show ?thesis by (simp add: hset_collect_def)
qed

lemma hset_collect_distinct: "distinct (map key (hset_collect key xs))"
proof -
  have "distinct (map key s) \<Longrightarrow> distinct (map key (foldl (\<lambda>s x. hset_insert key x s) s xs))" for s
    by (induction xs arbitrary: s) (auto simp: hset_insert_def hkeys_def)
  then show ?thesis by (simp add: hset_collect_def)
qed

lemma hkeys_remove [simp]: "hkeys key (hset_remove key x s) = hkeys key s - {key x}"
  by (auto simp: hset_remove_def hkeys_def)

lemma hkeys_difference [simp]: "hkeys key (hset_difference key a b) = hkeys key a - hkeys key b"
  by (auto simp: hset_difference_def hkeys_def)

lemma hkeys_union [simp]: "hkeys key (hset_union key a b) = hkeys key a \<union> hkeys key b"
  by (auto simp: hset_union_def)

lemma hkeys_intersection [simp]: "hkeys key (hset_intersection key a b) = hkeys key a \<inter> hkeys key b"
proof -
  have "key ` {x \<in> set a. key x \<in> key ` set b} = key ` set a \<inter> key ` set b" for a b
    by blast
  then show ?thesis
    by (simp add: hset_intersection_def hkeys_def Int_commute)
qed

lemma hkeys_empty_iff: "hkeys key s = {} \<longleftrightarrow> s = []"
  by (simp add: hkeys_def)

lemma hkeys_iff: "h \<in> hkeys key s \<longleftrightarrow> (\<exists>x. x \<in> set s \<and> key x = h)"
  by (auto simp: hkeys_def)

text \<open>A property of the elements that depends on their identity alone.\<close>

definition by_key :: "('a \<Rightarrow> 'k) \<Rightarrow> ('a \<Rightarrow> bool) \<Rightarrow> bool" where
  "by_key key P \<longleftrightarrow> (\<forall>x y. key x = key y \<longrightarrow> P x = P y)"

lemma hkeys_filter_by:
  assumes "by_key key P" "h \<in> hkeys key (filter P xs)" "h \<in> hkeys key ys"
  shows "h \<in> hkeys key (filter P ys)"
proof -
  obtain x y where "P x" "key x = h" "y \<in> set ys" "key y = h"
    using assms(2,3) unfolding hkeys_iff by auto
  moreover from this have "P y" using assms(1) unfolding by_key_def by metis
  ultimately show ?thesis unfolding hkeys_iff by auto
qed

lemma hkeys_filter_subset: "hkeys key (filter P s) \<subseteq> hkeys key s"
  by (auto simp: hkeys_def)

text \<open>Sets of values that are compared as a whole.\<close>

lemma set_hset_ops [simp]:
  "set (hset_insert (\<lambda>x. x) x s) = insert x (set s)" "set (hset_collect (\<lambda>x. x) xs) = set xs"
  "set (hset_union (\<lambda>x. x) a b) = set a \<union> set b" "set (hset_difference (\<lambda>x. x) a b) = set a - set b"
  "set (hset_intersection (\<lambda>x. x) a b) = set a \<inter> set b"
  using hkeys_insert [of "\<lambda>x. x" x s] hkeys_collect [of "\<lambda>x. x" xs] hkeys_union [of "\<lambda>x. x" a b]
    hkeys_difference [of "\<lambda>x. x" a b] hkeys_intersection [of "\<lambda>x. x" a b]
  by (simp_all only: hkeys_simps(4))

lemma hset_elements:
  "set (hset_insert key x s) \<subseteq> insert x (set s)" "set (hset_collect key xs) \<subseteq> set xs"
  "set (hset_remove key x s) \<subseteq> set s" "set (hset_difference key a b) \<subseteq> set a"
  "set (hset_union key a b) \<subseteq> set a \<union> set b" "set (hset_intersection key a b) \<subseteq> set a \<union> set b"
proof -
  show ins: "set (hset_insert key x s) \<subseteq> insert x (set s)" for x s
    by (auto simp: hset_insert_def)
  have "set (foldl (\<lambda>s x. hset_insert key x s) s xs) \<subseteq> set s \<union> set xs" for s
  proof (induction xs arbitrary: s)
    case (Cons x xs)
    show ?case using Cons.IH [of "hset_insert key x s"] ins [of x s] by auto
  qed simp
  from this [of "[]"] show "set (hset_collect key xs) \<subseteq> set xs" by (simp add: hset_collect_def)
qed (auto simp: hset_remove_def hset_difference_def hset_union_def hset_intersection_def)

subsection \<open>Inverted indexes\<close>

type_synonym 'a inv_index = "('a \<times> nat hset) list"

fun index_insert :: "('a \<Rightarrow> 'k) \<Rightarrow> nat \<Rightarrow> 'a \<Rightarrow> 'a inv_index \<Rightarrow> 'a inv_index" where
  "index_insert key i x [] = [(x, [i])]"
| "index_insert key i x ((y, s) # m) =
     (if key y = key x then (y, hset_insert (\<lambda>n. n) i s) # m else (y, s) # index_insert key i x m)"

definition index_get :: "('a \<Rightarrow> 'k) \<Rightarrow> 'a inv_index \<Rightarrow> 'a \<Rightarrow> nat hset option" where
  "index_get key m x = map_option snd (find (\<lambda>(y, _). key y = key x) m)"

text \<open>The relation an index stands for.\<close>

definition index_rel :: "('a \<Rightarrow> 'k) \<Rightarrow> 'a inv_index \<Rightarrow> ('k \<times> nat) set" where
  "index_rel key m = {(key x, i) | x s i. (x, s) \<in> set m \<and> i \<in> set s}"

definition index_ok :: "('a \<Rightarrow> 'k) \<Rightarrow> 'a inv_index \<Rightarrow> bool" where
  "index_ok key m \<longleftrightarrow> distinct (map (\<lambda>e. key (fst e)) m) \<and> (\<forall>(x, s) \<in> set m. distinct s)"

lemma index_insert_keys: "(\<lambda>e. key (fst e)) ` set (index_insert key i x m) = insert (key x) ((\<lambda>e. key (fst e)) ` set m)"
  by (induction key i x m rule: index_insert.induct) auto

lemma index_insert_rel [simp]: "index_rel key (index_insert key i x m) = insert (key x, i) (index_rel key m)"
proof (induction key i x m rule: index_insert.induct)
  case (2 key i x y s m)
  have cons: "index_rel key ((y, s) # m) = {key y} \<times> set s \<union> index_rel key m" for y s m
    by (auto simp: index_rel_def)
  have "set (hset_insert (\<lambda>n. n) i s) = insert i (set s)"
    by (auto simp: hset_insert_def)
  with 2 show ?case by (auto simp: cons)
qed (simp add: index_rel_def)

lemma index_insert_ok: "index_ok key m \<Longrightarrow> index_ok key (index_insert key i x m)"
proof (induction key i x m rule: index_insert.induct)
  case (2 key i x y s m)
  show ?case
  proof (cases "key y = key x")
    case True
    with 2(2) show ?thesis by (auto simp: index_ok_def hset_insert_def)
  next
    case False
    with 2 show ?thesis
      using index_insert_keys [of key i x m] by (simp add: index_ok_def)
  qed
qed (simp add: index_ok_def)

lemma index_empty [simp]: "index_rel key [] = {}" "index_ok key []"
  by (simp_all add: index_rel_def index_ok_def)

lemma index_insert_elements: "fst ` set (index_insert key i x m) \<subseteq> insert x (fst ` set m)"
  by (induction key i x m rule: index_insert.induct) auto

lemma index_get_rel:
  assumes "index_ok key m"
  shows "(case index_get key m x of Some s \<Rightarrow> i \<in> set s | None \<Rightarrow> False) \<longleftrightarrow> (key x, i) \<in> index_rel key m"
  using assms
proof (induction m)
  case (Cons e m)
  obtain y s where e: "e = (y, s)" by (cases e)
  have cons: "index_rel key ((y, s) # m) = {key y} \<times> set s \<union> index_rel key m"
    by (auto simp: index_rel_def)
  have "key y \<notin> (\<lambda>e. key (fst e)) ` set m" "index_ok key m"
    using Cons.prems by (simp_all add: e index_ok_def)
  then have "(key y, i) \<notin> index_rel key m"
    unfolding index_rel_def by (auto intro: rev_image_eqI)
  with \<open>index_ok key m\<close> show ?case
    using Cons.IH by (cases "key y = key x") (simp_all add: e cons index_get_def)
qed (simp add: index_get_def)

lemma index_rel_entry: "(k, i) \<in> index_rel key m \<Longrightarrow> \<exists>x s. (x, s) \<in> set m \<and> key x = k \<and> i \<in> set s"
  by (auto simp: index_rel_def)

text \<open>The branches of an entry are exactly those related to its key.\<close>

lemma index_entry:
  assumes "index_ok key m" "(x, s) \<in> set m"
  shows "i \<in> set s \<longleftrightarrow> (key x, i) \<in> index_rel key m"
proof -
  have "y = x \<and> t = s" if "(y, t) \<in> set m" "key y = key x" for y t
    using assms that inj_onD [of "\<lambda>e. key (fst e)" "set m" "(y, t)" "(x, s)"] by (simp add: index_ok_def distinct_map)
  note uniq = this
  show ?thesis
  proof
    assume "(key x, i) \<in> index_rel key m"
    then obtain y t where "(y, t) \<in> set m" "key y = key x" "i \<in> set t"
      using index_rel_entry by fast
    with uniq show "i \<in> set s" by blast
  qed (use assms(2) in \<open>auto simp: index_rel_def\<close>)
qed

end
