(* ===== verification/EventLogIndex.thy ===== *)
theory EventLogIndex
  imports HashSets TraceEvent Errors "HOL-Library.Word"
begin

section \<open>The index of an event log\<close>

text \<open>
  rspace++/src/rspace/merger/event_log_index.rs and the value types of merging_logic.rs it uses.
  \<open>i64\<close> is a 64-bit word, read as signed where the code compares. A \<open>BTreeMap\<close> is an association
  list; where the code iterates it in key order the model sorts. The parallel loops of \<open>new\<close>
  insert into sets, so they are modelled in log order.
\<close>

unbundle bit_operations_syntax

type_synonym i64 = "64 word"

datatype merge_type = IntegerAdd | BitmaskOr

type_synonym number_channels = "(bytes, i64 \<times> merge_type) hmap"

definition combine_mergeable_value :: "i64 \<Rightarrow> i64 \<Rightarrow> merge_type \<Rightarrow> i64" where
  "combine_mergeable_value a b mt = (case mt of IntegerAdd \<Rightarrow> a + b | BitmaskOr \<Rightarrow> a OR b)"

record event_log_index =
  produces_linear :: "produce hset"
  produces_persistent :: "produce hset"
  produces_consumed :: "produce hset"
  produces_peeked :: "produce hset"
  produces_copied_by_peek :: "produce hset"
  produces_touching_base_joins :: "produce hset"
  consumes_linear_and_peeks :: "consume hset"
  consumes_persistent :: "consume hset"
  consumes_produced :: "consume hset"
  produces_mergeable :: "produce hset"
  consumes_mergeable :: "consume hset"
  number_channels_data :: number_channels

text \<open>\<open>Consume\<close> derives its equality from all fields.\<close>

definition ckey :: "consume \<Rightarrow> consume" where
  "ckey c = c"

definition empty_index :: event_log_index where
  "empty_index = \<lparr>produces_linear = [], produces_persistent = [], produces_consumed = [], produces_peeked = [],
     produces_copied_by_peek = [], produces_touching_base_joins = [], consumes_linear_and_peeks = [],
     consumes_persistent = [], consumes_produced = [], produces_mergeable = [], consumes_mergeable = [],
     number_channels_data = []\<rparr>"

subsection \<open>Building the index\<close>

fun index_event :: "(produce \<Rightarrow> bool) \<Rightarrow> (produce \<Rightarrow> bool) \<Rightarrow> event \<Rightarrow> event_log_index \<Rightarrow> event_log_index" where
  "index_event exists_in_pre_state touch_join (IoEvent (ProduceEvent p)) e =
     (let e1 = (if exists_in_pre_state p
                then e\<lparr>produces_copied_by_peek := hset_insert p_hash p (produces_copied_by_peek e)\<rparr> else e);
          e2 = (if touch_join p
                then e1\<lparr>produces_touching_base_joins := hset_insert p_hash p (produces_touching_base_joins e1)\<rparr> else e1)
      in if persistent p then e2\<lparr>produces_persistent := hset_insert p_hash p (produces_persistent e2)\<rparr>
         else e2\<lparr>produces_linear := hset_insert p_hash p (produces_linear e2)\<rparr>)"
| "index_event exists_in_pre_state touch_join (IoEvent (ConsumeEvent c)) e =
     (if c_persistent c then e\<lparr>consumes_persistent := hset_insert ckey c (consumes_persistent e)\<rparr>
      else e\<lparr>consumes_linear_and_peeks := hset_insert ckey c (consumes_linear_and_peeks e)\<rparr>)"
| "index_event exists_in_pre_state touch_join (Comm cm) e =
     (let e1 = e\<lparr>consumes_produced := hset_insert ckey (comm_consume cm) (consumes_produced e)\<rparr>;
          has_peeks = comm_peeks cm \<noteq> []
      in if has_peeks
         then e1\<lparr>produces_peeked := foldl (\<lambda>s p. hset_insert p_hash p s) (produces_peeked e1) (produces cm)\<rparr>
         else e1\<lparr>produces_consumed := foldl (\<lambda>s p. hset_insert p_hash p s) (produces_consumed e1) (produces cm)\<rparr>)"

definition index_events :: "(produce \<Rightarrow> bool) \<Rightarrow> (produce \<Rightarrow> bool) \<Rightarrow> event list \<Rightarrow> event_log_index" where
  "index_events exists_in_pre_state touch_join event_log =
     foldl (\<lambda>e ev. index_event exists_in_pre_state touch_join ev e) empty_index event_log"

definition index_new ::
  "event list \<Rightarrow> (produce \<Rightarrow> bool) \<Rightarrow> (produce \<Rightarrow> bool) \<Rightarrow> number_channels \<Rightarrow> event_log_index" where
  "index_new event_log produce_exists_in_pre_state produce_touch_pre_state_join mergeable_chs =
     (let e = index_events produce_exists_in_pre_state produce_touch_pre_state_join event_log;
          all_produces = hset_collect p_hash (produces_linear e @ produces_persistent e @ produces_consumed e @ produces_peeked e);
          all_consumes = hset_collect ckey (consumes_linear_and_peeks e @ consumes_persistent e @ consumes_produced e)
      in e\<lparr>produces_mergeable := filter (\<lambda>p. hm_get mergeable_chs (channel_hash p) \<noteq> None) all_produces,
           consumes_mergeable := filter (\<lambda>c. list_ex (\<lambda>h. hm_get mergeable_chs h \<noteq> None) (channel_hashes c)) all_consumes,
           number_channels_data := mergeable_chs\<rparr>)"

subsection \<open>Created, destroyed and affected events\<close>

definition produces_created :: "event_log_index \<Rightarrow> produce hset" where
  "produces_created e =
     foldl (\<lambda>s p. hset_remove p_hash p s) (hset_union p_hash (produces_linear e) (produces_persistent e))
       (produces_copied_by_peek e)"

definition consumes_created :: "event_log_index \<Rightarrow> consume hset" where
  "consumes_created e = hset_union ckey (consumes_linear_and_peeks e) (consumes_persistent e)"

definition produces_created_and_not_destroyed :: "event_log_index \<Rightarrow> produce hset" where
  "produces_created_and_not_destroyed e =
     (let linear_not_consumed = hset_difference p_hash (produces_linear e) (produces_consumed e);
          combined = hset_union p_hash linear_not_consumed (produces_persistent e)
      in hset_difference p_hash combined (produces_copied_by_peek e))"

definition consumes_created_and_not_destroyed :: "event_log_index \<Rightarrow> consume hset" where
  "consumes_created_and_not_destroyed e =
     (let linear_not_produced = hset_difference ckey (consumes_linear_and_peeks e) (consumes_produced e)
      in hset_union ckey linear_not_produced (consumes_persistent e))"

definition produces_affected :: "event_log_index \<Rightarrow> produce hset" where
  "produces_affected e =
     (let created = produces_created e;
          external_produces_destroyed =
            filter (\<lambda>p. \<not> persistent p) (hset_difference p_hash (produces_consumed e) created)
      in hset_union p_hash (produces_created_and_not_destroyed e) external_produces_destroyed)"

definition consumes_affected :: "event_log_index \<Rightarrow> consume hset" where
  "consumes_affected e =
     (let created = consumes_created e;
          external_consumes_destroyed =
            filter (\<lambda>c. \<not> c_persistent c) (hset_difference ckey (consumes_produced e) created)
      in hset_union ckey (consumes_created_and_not_destroyed e) external_consumes_destroyed)"

definition combine_produces_copied_by_peek :: "event_log_index \<Rightarrow> event_log_index \<Rightarrow> produce hset" where
  "combine_produces_copied_by_peek x y =
     hset_difference p_hash (hset_union p_hash (produces_copied_by_peek x) (produces_copied_by_peek y))
       (hset_union p_hash (produces_created x) (produces_created y))"

subsection \<open>Combining two indexes\<close>

text \<open>The loop over the number channels: both sides must agree on the merge type of a channel.\<close>

fun combine_channels :: "(bytes \<times> i64 \<times> merge_type) list \<Rightarrow> number_channels \<Rightarrow> (history_error, number_channels) res" where
  "combine_channels [] acc = Inr acc"
| "combine_channels ((key, incoming_diff, incoming_mt) # rest) acc =
     (case hm_get acc key of
        Some (existing, mt) \<Rightarrow>
          if mt \<noteq> incoming_mt then Inl (Err (MergeError ''MergeType mismatch on channel''))
          else combine_channels rest (hm_put key (combine_mergeable_value existing incoming_diff incoming_mt, mt) acc)
      | None \<Rightarrow> combine_channels rest (hm_put key (incoming_diff, incoming_mt) acc))"

definition combine_sets :: "event_log_index \<Rightarrow> event_log_index \<Rightarrow> number_channels \<Rightarrow> event_log_index" where
  "combine_sets x y ncd =
     \<lparr>produces_linear = hset_union p_hash (produces_linear x) (produces_linear y),
      produces_persistent = hset_union p_hash (produces_persistent x) (produces_persistent y),
      produces_consumed = hset_union p_hash (produces_consumed x) (produces_consumed y),
      produces_peeked = hset_union p_hash (produces_peeked x) (produces_peeked y),
      produces_copied_by_peek = combine_produces_copied_by_peek x y,
      produces_touching_base_joins = hset_union p_hash (produces_touching_base_joins x) (produces_touching_base_joins y),
      consumes_linear_and_peeks = hset_union ckey (consumes_linear_and_peeks x) (consumes_linear_and_peeks y),
      consumes_persistent = hset_union ckey (consumes_persistent x) (consumes_persistent y),
      consumes_produced = hset_union ckey (consumes_produced x) (consumes_produced y),
      produces_mergeable = hset_union p_hash (produces_mergeable x) (produces_mergeable y),
      consumes_mergeable = hset_union ckey (consumes_mergeable x) (consumes_mergeable y),
      number_channels_data = ncd\<rparr>"

definition index_combine :: "event_log_index \<Rightarrow> event_log_index \<Rightarrow> (history_error, event_log_index) res" where
  "index_combine x y =
     rbind (combine_channels (sort_key fst (number_channels_data x) @ sort_key fst (number_channels_data y)) [])
       (\<lambda>number_channels_data. Inr (combine_sets x y number_channels_data))"

subsection \<open>The order of indexes\<close>

fun merge_type_ord :: "merge_type \<Rightarrow> nat" where
  "merge_type_ord IntegerAdd = 0"
| "merge_type_ord BitmaskOr = 1"

fun cmp_entries :: "((bytes \<times> i64 \<times> merge_type) \<times> (bytes \<times> i64 \<times> merge_type)) list \<Rightarrow> ordering" where
  "cmp_entries [] = Equal"
| "cmp_entries (((ak, av, am), (bk, bv, bm)) # rest) =
     then_with (cmp ak bk) (then_with (cmp (sint av, merge_type_ord am) (sint bv, merge_type_ord bm)) (cmp_entries rest))"

definition index_cmp :: "event_log_index \<Rightarrow> event_log_index \<Rightarrow> ordering" where
  "index_cmp a b =
     (let a_entries = sort_key fst (number_channels_data a);
          b_entries = sort_key fst (number_channels_data b);
          prod = (\<lambda>e. length (produces_linear e) + length (produces_persistent e) + length (produces_consumed e));
          cons = (\<lambda>e. length (consumes_linear_and_peeks e) + length (consumes_persistent e) + length (consumes_produced e))
      in then_with (cmp (length a_entries) (length b_entries))
           (then_with (cmp_entries (zip a_entries b_entries))
             (then_with (cmp (prod a) (prod b)) (cmp (cons a) (cons b)))))"

subsection \<open>What an index records\<close>

lemma hkeys_fold_insert [simp]: "hkeys key (foldl (\<lambda>s p. hset_insert key p s) s ps) = hkeys key s \<union> hkeys key ps"
  by (induction ps arbitrary: s) auto

lemma hkeys_fold_remove [simp]: "hkeys key (foldl (\<lambda>s p. hset_remove key p s) s ps) = hkeys key s - hkeys key ps"
  by (induction ps arbitrary: s) auto

lemma hkeys_ckey [simp]: "hkeys ckey s = set s"
  by (simp add: hkeys_def ckey_def [abs_def])

lemma set_ckey_ops [simp]:
  "set (hset_insert ckey x s) = insert x (set s)" "set (hset_collect ckey xs) = set xs"
  "set (hset_union ckey a b) = set a \<union> set b" "set (hset_difference ckey a b) = set a - set b"
  "set (hset_intersection ckey a b) = set a \<inter> set b"
  using hkeys_insert [of ckey x s] hkeys_collect [of ckey xs] hkeys_union [of ckey a b] hkeys_difference [of ckey a b]
    hkeys_intersection [of ckey a b]
  by (simp_all only: hkeys_ckey ckey_def)

lemma created_keys:
  "hkeys p_hash (produces_created e) =
     (hkeys p_hash (produces_linear e) \<union> hkeys p_hash (produces_persistent e)) - hkeys p_hash (produces_copied_by_peek e)"
  "set (consumes_created e) = set (consumes_linear_and_peeks e) \<union> set (consumes_persistent e)"
  "hkeys p_hash (produces_created_and_not_destroyed e) =
     ((hkeys p_hash (produces_linear e) - hkeys p_hash (produces_consumed e)) \<union> hkeys p_hash (produces_persistent e))
     - hkeys p_hash (produces_copied_by_peek e)"
  "set (consumes_created_and_not_destroyed e) =
     (set (consumes_linear_and_peeks e) - set (consumes_produced e)) \<union> set (consumes_persistent e)"
  by (simp_all add: produces_created_def consumes_created_def produces_created_and_not_destroyed_def
      consumes_created_and_not_destroyed_def Let_def)

text \<open>The produces, consumes and COMMs of a log.\<close>

fun ev_produces :: "event \<Rightarrow> produce list" where
  "ev_produces (IoEvent (ProduceEvent p)) = [p]"
| "ev_produces _ = []"

fun ev_consumes :: "event \<Rightarrow> consume list" where
  "ev_consumes (IoEvent (ConsumeEvent c)) = [c]"
| "ev_consumes _ = []"

fun ev_comms :: "event \<Rightarrow> comm list" where
  "ev_comms (Comm cm) = [cm]"
| "ev_comms _ = []"

definition log_produces :: "event list \<Rightarrow> produce list" where
  "log_produces evs = concat (map ev_produces evs)"

definition log_consumes :: "event list \<Rightarrow> consume list" where
  "log_consumes evs = concat (map ev_consumes evs)"

definition comm_produces :: "bool \<Rightarrow> event list \<Rightarrow> produce list" where
  "comm_produces peeked evs = concat (map produces (filter (\<lambda>cm. (comm_peeks cm \<noteq> []) = peeked) (concat (map ev_comms evs))))"

definition comm_consumes :: "event list \<Rightarrow> consume list" where
  "comm_consumes evs = map comm_consume (concat (map ev_comms evs))"

lemmas log_defs = log_produces_def log_consumes_def comm_produces_def comm_consumes_def

text \<open>The sets of an index that depend on the log alone.\<close>

definition records_log :: "(produce \<Rightarrow> bool) \<Rightarrow> (produce \<Rightarrow> bool) \<Rightarrow> event list \<Rightarrow> event_log_index \<Rightarrow> bool" where
  "records_log ex tj evs e \<longleftrightarrow>
     hkeys p_hash (produces_linear e) = hkeys p_hash (filter (\<lambda>p. \<not> persistent p) (log_produces evs))
     \<and> hkeys p_hash (produces_persistent e) = hkeys p_hash (filter persistent (log_produces evs))
     \<and> hkeys p_hash (produces_copied_by_peek e) = hkeys p_hash (filter ex (log_produces evs))
     \<and> hkeys p_hash (produces_touching_base_joins e) = hkeys p_hash (filter tj (log_produces evs))
     \<and> hkeys p_hash (produces_consumed e) = hkeys p_hash (comm_produces False evs)
     \<and> hkeys p_hash (produces_peeked e) = hkeys p_hash (comm_produces True evs)
     \<and> set (consumes_linear_and_peeks e) = set (filter (\<lambda>c. \<not> c_persistent c) (log_consumes evs))
     \<and> set (consumes_persistent e) = set (filter c_persistent (log_consumes evs))
     \<and> set (consumes_produced e) = set (comm_consumes evs)"

lemma index_event_records:
  assumes "records_log ex tj evs e"
  shows "records_log ex tj (evs @ [ev]) (index_event ex tj ev e)"
proof (cases ev)
  case (Comm cm)
  with assms show ?thesis
    by (cases "comm_peeks cm = []") (simp_all add: records_log_def log_defs Let_def)
next
  case (IoEvent io)
  with assms show ?thesis
    by (cases io) (simp_all add: records_log_def log_defs Let_def)
qed

lemma index_events_records: "records_log ex tj evs (index_events ex tj evs)"
proof (induction evs rule: rev_induct)
  case Nil
  show ?case by (simp add: records_log_def index_events_def empty_index_def log_defs)
next
  case (snoc ev evs)
  then show ?case by (simp add: index_events_def index_event_records)
qed

lemma index_new_records: "records_log ex tj evs (index_new evs ex tj mch)"
  using index_events_records [of ex tj evs] by (simp add: index_new_def Let_def records_log_def)

subsection \<open>Combination\<close>

lemma comm_produces_append [simp]:
  "log_produces (xs @ ys) = log_produces xs @ log_produces ys" "log_consumes (xs @ ys) = log_consumes xs @ log_consumes ys"
  "comm_produces b (xs @ ys) = comm_produces b xs @ comm_produces b ys" "comm_consumes (xs @ ys) = comm_consumes xs @ comm_consumes ys"
  by (simp_all add: log_defs)

lemma copied_not_created:
  assumes "by_key p_hash ex" "records_log ex tj xs x" "records_log ex tj ys y"
  shows "hkeys p_hash (produces_copied_by_peek x) \<inter> hkeys p_hash (produces_created y) = {}"
proof -
  have "h \<in> hkeys p_hash (produces_copied_by_peek y)"
    if "h \<in> hkeys p_hash (produces_copied_by_peek x)"
      "h \<in> hkeys p_hash (produces_linear y) \<union> hkeys p_hash (produces_persistent y)" for h
  proof -
    have "h \<in> hkeys p_hash (filter ex (log_produces xs))"
      using that(1) assms(2) by (simp add: records_log_def)
    moreover have "h \<in> hkeys p_hash (log_produces ys)"
      using that(2) assms(3) hkeys_filter_subset [of p_hash _ "log_produces ys"] unfolding records_log_def by blast
    ultimately have "h \<in> hkeys p_hash (filter ex (log_produces ys))"
      by (rule hkeys_filter_by [OF assms(1)])
    then show ?thesis
      using assms(3) by (simp add: records_log_def)
  qed
  then show ?thesis unfolding created_keys by blast
qed

lemma Diff_disjoint4:
  "A \<inter> C = {} \<Longrightarrow> A \<inter> D = {} \<Longrightarrow> B \<inter> C = {} \<Longrightarrow> B \<inter> D = {} \<Longrightarrow> (A \<union> B) - (C \<union> D) = A \<union> B"
  by blast

lemma combine_records:
  assumes "by_key p_hash ex" "records_log ex tj xs x" "records_log ex tj ys y" "index_combine x y = Inr z"
  shows "records_log ex tj (xs @ ys) z"
proof -
  note disj = copied_not_created [OF assms(1,2,3)] copied_not_created [OF assms(1,3,2)]
    copied_not_created [OF assms(1,2,2)] copied_not_created [OF assms(1,3,3)]
  have copied: "hkeys p_hash (combine_produces_copied_by_peek x y) =
      hkeys p_hash (produces_copied_by_peek x) \<union> hkeys p_hash (produces_copied_by_peek y)"
    unfolding combine_produces_copied_by_peek_def hkeys_difference hkeys_union by (rule Diff_disjoint4 [OF disj(3,1,2,4)])
  from assms(4) obtain ncd where z: "z = combine_sets x y ncd"
    unfolding index_combine_def rbind_eq_Inr sum.inject by blast
  with copied assms(2,3) show ?thesis by (simp add: records_log_def combine_sets_def)
qed

text \<open>The entry of a channel in the combination of two maps.\<close>

definition combine_entry :: "(i64 \<times> merge_type) option \<Rightarrow> (i64 \<times> merge_type) option \<Rightarrow> (i64 \<times> merge_type) option" where
  "combine_entry a b = (case (a, b) of
     (Some (x, s), Some (y, t)) \<Rightarrow> Some (combine_mergeable_value x y t, s) | (None, b) \<Rightarrow> b | (a, None) \<Rightarrow> a)"

definition same_type :: "(i64 \<times> merge_type) option \<Rightarrow> (i64 \<times> merge_type) option \<Rightarrow> bool" where
  "same_type a b \<longleftrightarrow> (case (a, b) of (Some (_, s), Some (_, t)) \<Rightarrow> s = t | _ \<Rightarrow> True)"

definition same_types :: "number_channels \<Rightarrow> number_channels \<Rightarrow> bool" where
  "same_types x y \<longleftrightarrow> (\<forall>k. same_type (hm_get x k) (hm_get y k))"

lemma same_type_None [simp]: "same_type None b" "same_type a None" "same_type (Some (x, s)) (Some (y, t)) = (s = t)"
  by (simp_all add: same_type_def split: option.split)

lemma same_types_Cons:
  "hm_get ys k = None \<Longrightarrow> same_types acc ((k, v) # ys) \<longleftrightarrow> same_type (hm_get acc k) (Some v) \<and> same_types acc ys"
proof -
  assume k: "hm_get ys k = None"
  have "same_type (hm_get acc k') (hm_get ((k, v) # ys) k') \<longleftrightarrow>
      (k' = k \<longrightarrow> same_type (hm_get acc k) (Some v)) \<and> same_type (hm_get acc k') (hm_get ys k')" for k'
    using k by simp
  then show ?thesis unfolding same_types_def by blast
qed

lemma same_types_put: "hm_get ys k = None \<Longrightarrow> same_types (hm_put k v acc) ys = same_types acc ys"
  unfolding same_types_def update_conv' by (auto split: if_splits) (metis same_type_None(2))

lemma combine_channels_ok:
  "distinct (map fst ys) \<Longrightarrow>
   (if same_types acc ys
    then \<exists>z. combine_channels ys acc = Inr z \<and> (\<forall>k. hm_get z k = combine_entry (hm_get acc k) (hm_get ys k))
    else combine_channels ys acc = Inl (Err (MergeError ''MergeType mismatch on channel'')))"
proof (induction ys arbitrary: acc)
  case Nil
  then show ?case by (auto simp: same_types_def combine_entry_def split: option.split)
next
  case (Cons e ys)
  obtain k d mt where e: "e = (k, d, mt)" by (cases e) auto
  have k: "hm_get ys k = None"
    using Cons.prems by (simp add: e map_of_eq_None_iff)
  have IH: "if same_types acc' ys
      then \<exists>z. combine_channels ys acc' = Inr z \<and> (\<forall>k. hm_get z k = combine_entry (hm_get acc' k) (hm_get ys k))
      else combine_channels ys acc' = Inl (Err (MergeError ''MergeType mismatch on channel''))" for acc'
    using Cons by simp
  show ?case
  proof (cases "hm_get acc k")
    case None
    with k IH [of "hm_put k (d, mt) acc"] show ?thesis
      by (auto simp: e same_types_Cons same_types_put update_conv' combine_entry_def split: if_splits)
  next
    case (Some v)
    obtain a s where v: "v = (a, s)" by (cases v)
    with Some k IH [of "hm_put k (combine_mergeable_value a d mt, s) acc"] show ?thesis
      by (auto simp: e same_types_Cons same_types_put update_conv' combine_entry_def split: if_splits)
  qed
qed

subsection \<open>Properties\<close>

lemma list_all_filter: "list_all P (filter P xs)"
  by (simp add: list_all_iff)

lemma index_new_mergeable:
  "number_channels_data (index_new evs ex tj mch) = mch"
  "list_all (\<lambda>p. hm_get mch (channel_hash p) \<noteq> None) (produces_mergeable (index_new evs ex tj mch))"
  "list_all (\<lambda>c. list_ex (\<lambda>h. hm_get mch h \<noteq> None) (channel_hashes c)) (consumes_mergeable (index_new evs ex tj mch))"
  by (simp_all add: index_new_def Let_def del: not_None_eq) (rule list_all_filter)+

lemma combine_channels_append:
  "combine_channels (xs @ ys) acc = rbind (combine_channels xs acc) (\<lambda>acc'. combine_channels ys acc')"
  by (induction xs acc rule: combine_channels.induct) (auto split: option.split)

lemma map_of_sort_key: "distinct (map fst m) \<Longrightarrow> map_of (sort_key fst m) = map_of m"
  by (subst map_of_inject_set) (auto simp: distinct_map distinct_sort)

lemma cmp_entries_reverse: "length xs = length ys \<Longrightarrow> reverse_ord (cmp_entries (zip xs ys)) = cmp_entries (zip ys xs)"
  by (induction xs ys rule: list_induct2) (auto simp: split_beta)

text \<open>
  The index of a log records exactly the events of the log: linear and persistent produces
  and consumes, the produces and consumes of the COMMs (peeks apart), and the produces that the
  pre-state holds or whose channel has a join there.
\<close>

theorem index_new_correct:
  "records_log ex tj evs (index_new evs ex tj mch) \<and> number_channels_data (index_new evs ex tj mch) = mch
   \<and> list_all (\<lambda>p. hm_get mch (channel_hash p) \<noteq> None) (produces_mergeable (index_new evs ex tj mch))
   \<and> list_all (\<lambda>c. list_ex (\<lambda>h. hm_get mch h \<noteq> None) (channel_hashes c)) (consumes_mergeable (index_new evs ex tj mch))"
  by (intro conjI index_new_records index_new_mergeable)

text \<open>
  Indexes compose: combining the indexes of two logs over one pre-state gives an index of the
  concatenated log; it fails exactly when the logs disagree on the merge type of a channel, and
  otherwise the differences of every number channel are combined by its merge type.
\<close>

theorem index_combine_correct:
  assumes "by_key p_hash ex" "records_log ex tj xs x" "records_log ex tj ys y"
    "hm_ok (number_channels_data x)" "hm_ok (number_channels_data y)"
  shows "if same_types (number_channels_data x) (number_channels_data y)
    then \<exists>z. index_combine x y = Inr z \<and> records_log ex tj (xs @ ys) z
      \<and> (\<forall>k. hm_get (number_channels_data z) k =
           combine_entry (hm_get (number_channels_data x) k) (hm_get (number_channels_data y) k))
    else index_combine x y = Inl (Err (MergeError ''MergeType mismatch on channel''))"
proof -
  let ?xs = "sort_key fst (number_channels_data x)" and ?ys = "sort_key fst (number_channels_data y)"
  have d: "distinct (map fst ?xs)" "distinct (map fst ?ys)"
    using assms(4,5) by (simp_all add: hm_ok_def distinct_map)
  have m: "hm_get ?xs = hm_get (number_channels_data x)" "hm_get ?ys = hm_get (number_channels_data y)"
    using assms(4,5) by (simp_all add: hm_ok_def map_of_sort_key)
  have "same_types [] ?xs" by (simp add: same_types_def)
  with combine_channels_ok [OF d(1), of "[]"] obtain z1 where
    z1: "combine_channels ?xs [] = Inr z1" "\<forall>k. hm_get z1 k = hm_get (number_channels_data x) k"
    by (auto simp: combine_entry_def m)
  have types: "same_types z1 ?ys = same_types (number_channels_data x) (number_channels_data y)"
    by (simp add: same_types_def z1(2) m)
  have run: "index_combine x y = rbind (combine_channels ?ys z1) (\<lambda>ncd. Inr (combine_sets x y ncd))"
    by (simp add: index_combine_def combine_channels_append z1(1))
  note rec = combine_records [OF assms(1-3)]
  show ?thesis
  proof (cases "same_types (number_channels_data x) (number_channels_data y)")
    case True
    with combine_channels_ok [OF d(2), of z1] obtain z where
      z: "combine_channels ?ys z1 = Inr z" "\<forall>k. hm_get z k = combine_entry (hm_get z1 k) (hm_get ?ys k)"
      by (auto simp: types)
    then have eq: "index_combine x y = Inr (combine_sets x y z)" by (simp add: run)
    with rec [OF eq] z(2) True show ?thesis
      by (auto simp: z1(2) m combine_sets_def)
  next
    case False
    with combine_channels_ok [OF d(2), of z1] show ?thesis by (simp add: types run)
  qed
qed

theorem index_combine_correct_witness:
  "\<exists>z. index_combine (index_new [IoEvent (ProduceEvent (produce_new [1] [2] False))] (\<lambda>_. False) (\<lambda>_. True) [([1], (5, IntegerAdd))])
       (index_new [] (\<lambda>_. False) (\<lambda>_. True) [([1], (7, IntegerAdd))]) = Inr z
     \<and> records_log (\<lambda>_. False) (\<lambda>_. True) [IoEvent (ProduceEvent (produce_new [1] [2] False))] z
     \<and> hm_get (number_channels_data z) [1] = Some (12, IntegerAdd)"
proof -
  let ?evs = "[IoEvent (ProduceEvent (produce_new [1] [2] False))]"
  let ?x = "index_new ?evs (\<lambda>_. False) (\<lambda>_. True) [([1], (5, IntegerAdd))]"
  let ?y = "index_new [] (\<lambda>_. False) (\<lambda>_. True) [([1], (7, IntegerAdd))]"
  have "by_key p_hash (\<lambda>_. False)" by (simp add: by_key_def)
  moreover have "records_log (\<lambda>_. False) (\<lambda>_. True) ?evs ?x" "records_log (\<lambda>_. False) (\<lambda>_. True) [] ?y"
    by (rule index_new_records)+
  moreover have "hm_ok (number_channels_data ?x)" "hm_ok (number_channels_data ?y)"
    by (simp_all add: index_new_mergeable hm_ok_def)
  moreover have "same_types (number_channels_data ?x) (number_channels_data ?y)"
    by (simp add: index_new_mergeable same_types_def)
  ultimately obtain z where "index_combine ?x ?y = Inr z" "records_log (\<lambda>_. False) (\<lambda>_. True) (?evs @ []) z"
    "\<forall>k. hm_get (number_channels_data z) k = combine_entry (hm_get (number_channels_data ?x) k) (hm_get (number_channels_data ?y) k)"
    using index_combine_correct [of "\<lambda>_. False" "\<lambda>_. True" ?evs ?x "[]" ?y] by (simp only: if_True) blast
  then show ?thesis
    by (simp add: index_new_mergeable combine_entry_def combine_mergeable_value_def)
qed

text \<open>
  The order of indexes is antisymmetric: comparing in the other direction reverses the result.
\<close>

theorem index_cmp_antisym: "index_cmp b a = reverse_ord (index_cmp a b)"
proof (cases "length (number_channels_data a) = length (number_channels_data b)")
  case True
  then show ?thesis
    by (simp add: index_cmp_def Let_def cmp_entries_reverse)
next
  case False
  then have "cmp (length (number_channels_data a)) (length (number_channels_data b)) \<noteq> Equal"
    "cmp (length (number_channels_data b)) (length (number_channels_data a)) \<noteq> Equal"
    by simp_all
  then show ?thesis
    by (cases "cmp (length (number_channels_data a)) (length (number_channels_data b))")
      (auto simp: index_cmp_def Let_def cmp_def split: if_splits)
qed

end
