(* ===== verification/MergingLogic.thy ===== *)
theory MergingLogic
  imports EventLogIndex
begin

section \<open>Conflicts and dependencies between event logs\<close>

text \<open>
  rspace++/src/rspace/merger/merging_logic.rs: when one log depends on another, when two logs
  conflict, the same for many logs at once through inverted indexes, connected sets of a
  relation, and the rejection options of a conflict map. The generic functions work over any
  type of items whose \<open>Eq\<close> is equality; a \<open>HashMap<A, HashableSet<A>>\<close> is an association list
  from items to hash sets.
\<close>

subsection \<open>Two logs\<close>

definition depends :: "event_log_index \<Rightarrow> event_log_index \<Rightarrow> bool" where
  "depends target source =
     (let produces_source = hset_difference p_hash (produces_created_and_not_destroyed source) (produces_mergeable source);
          produces_target = hset_difference p_hash (produces_consumed target) (produces_mergeable source);
          consumes_source = consumes_created_and_not_destroyed source;
          consumes_target = consumes_produced target;
          produces_depends = hset_intersection p_hash produces_source produces_target;
          consumes_depends = hset_intersection ckey consumes_source consumes_target
      in produces_depends \<noteq> [] \<or> consumes_depends \<noteq> [])"

text \<open>Events destroyed in both logs, not mergeable in both and not persistent.\<close>

definition shared_races :: "('x \<Rightarrow> 'k) \<Rightarrow> ('x \<Rightarrow> bool) \<Rightarrow> 'x hset \<Rightarrow> 'x hset \<Rightarrow> 'x hset \<Rightarrow> 'x hset \<Rightarrow> 'x hset" where
  "shared_races key pers a b mergeable_a mergeable_b =
     (let shared = hset_intersection key a b;
          mergeable = hset_intersection key mergeable_a mergeable_b
      in filter (\<lambda>x. \<not> pers x) (hset_difference key shared mergeable))"

definition consume_races :: "event_log_index \<Rightarrow> event_log_index \<Rightarrow> consume hset" where
  "consume_races a b =
     shared_races ckey c_persistent (consumes_produced a) (consumes_produced b) (consumes_mergeable a) (consumes_mergeable b)"

definition produce_races :: "event_log_index \<Rightarrow> event_log_index \<Rightarrow> produce hset" where
  "produce_races a b =
     shared_races p_hash persistent (produces_consumed a) (produces_consumed b) (produces_mergeable a) (produces_mergeable b)"

definition match_found :: "consume \<Rightarrow> produce \<Rightarrow> bool" where
  "match_found c p \<longleftrightarrow> channel_hash p \<in> set (channel_hashes c)"

text \<open>The channels of the produces that may meet a consume of the other log.\<close>

definition comm_channels :: "event_log_index \<Rightarrow> event_log_index \<Rightarrow> bytes list" where
  "comm_channels left right =
     concat (map (\<lambda>p. map (\<lambda>_. channel_hash p) (filter (\<lambda>c. match_found c p) (consumes_created_and_not_destroyed right)))
       (produces_created_and_not_destroyed left))"

definition hset_extend :: "'a hset \<Rightarrow> 'a list \<Rightarrow> 'a hset" where
  "hset_extend s xs = foldl (\<lambda>s x. hset_insert (\<lambda>y. y) x s) s xs"

definition conflicts :: "event_log_index \<Rightarrow> event_log_index \<Rightarrow> bytes hset" where
  "conflicts a b =
     (let races_for_same_io_event =
            hset_extend (hset_extend [] (concat (map channel_hashes (consume_races a b)))) (map channel_hash (produce_races a b));
          potential_comms = hset_extend (hset_extend [] (comm_channels a b)) (hset_extend [] (comm_channels b a));
          produce_touch_base_join =
            hset_extend [] (map channel_hash (produces_touching_base_joins a @ produces_touching_base_joins b))
      in hset_extend (hset_extend (hset_extend [] races_for_same_io_event) potential_comms) produce_touch_base_join)"

definition are_conflicting :: "event_log_index \<Rightarrow> event_log_index \<Rightarrow> bool" where
  "are_conflicting a b \<longleftrightarrow> conflicts a b \<noteq> []"

text \<open>The reason as data; the code formats it into a message.\<close>

datatype conflict_cause = RacesForSameIOEvent nat nat | PotentialComms nat nat | ProduceTouchBaseJoin nat

definition conflict_reason :: "event_log_index \<Rightarrow> event_log_index \<Rightarrow> conflict_cause option" where
  "conflict_reason a b =
     (let nc = length (consume_races a b); np = length (produce_races a b);
          a_to_b = length (comm_channels a b); b_to_a = length (comm_channels b a);
          count = length (produces_touching_base_joins a) + length (produces_touching_base_joins b)
      in if nc \<noteq> 0 \<or> np \<noteq> 0 then Some (RacesForSameIOEvent nc np)
         else if a_to_b > 0 \<or> b_to_a > 0 then Some (PotentialComms a_to_b b_to_a)
         else if count > 0 then Some (ProduceTouchBaseJoin count)
         else None)"

subsection \<open>Relation maps\<close>

type_synonym 'a relation_map = "('a, 'a hset) hmap"

text \<open>\<open>if let Some(set) = map.get_mut(a) { set.insert(b) }\<close>, in both directions.\<close>

definition relate :: "'a \<Rightarrow> 'a \<Rightarrow> 'a relation_map \<Rightarrow> 'a relation_map" where
  "relate a b m = (case hm_get m a of Some s \<Rightarrow> hm_put a (hset_insert (\<lambda>x. x) b s) m | None \<Rightarrow> m)"

definition mark_pair :: "'a \<Rightarrow> 'a \<Rightarrow> 'a relation_map \<Rightarrow> 'a relation_map" where
  "mark_pair a b m = relate b a (relate a b m)"

definition init_map :: "'a list \<Rightarrow> 'a relation_map" where
  "init_map items = foldl (\<lambda>m x. hm_put x [] m) [] items"

text \<open>\<open>gt\<close> is the \<open>PartialOrd\<close> of the items.\<close>

definition compute_relation_map :: "('a \<Rightarrow> 'a \<Rightarrow> bool) \<Rightarrow> 'a hset \<Rightarrow> ('a \<Rightarrow> 'a \<Rightarrow> bool) \<Rightarrow> 'a relation_map" where
  "compute_relation_map gt items relation =
     foldl (\<lambda>m (item1, item2).
       if item1 = item2 \<or> gt item1 item2 then m
       else if relation item1 item2 \<or> relation item2 item1 then mark_pair item1 item2 m else m)
     (init_map items) (List.product items items)"

subsection \<open>Many logs: inverted indexes\<close>

definition insert_all :: "('x \<Rightarrow> 'k) \<Rightarrow> nat \<Rightarrow> 'x list \<Rightarrow> 'x inv_index \<Rightarrow> 'x inv_index" where
  "insert_all key idx xs m = foldl (\<lambda>m x. index_insert key idx x m) m xs"

definition lo_hi :: "nat \<Rightarrow> nat \<Rightarrow> nat \<times> nat" where
  "lo_hi a b = (if a < b then (a, b) else (b, a))"

text \<open>All pairs of positions \<open>i < j\<close>.\<close>

fun position_pairs :: "nat list \<Rightarrow> (nat \<times> nat) list" where
  "position_pairs [] = []"
| "position_pairs (a # pos) = map (\<lambda>b. (a, b)) pos @ position_pairs pos"

definition mark_pairs :: "'r list \<Rightarrow> (nat \<times> nat) list \<Rightarrow> 'r relation_map \<Rightarrow> 'r relation_map" where
  "mark_pairs branches pairs m = foldl (\<lambda>m (a, b). mark_pair (branches ! a) (branches ! b) m) m pairs"

record conflict_indexes =
  produces_consumed_by_branches :: "produce inv_index"
  produces_mergeable_by_branches :: "produce inv_index"
  consumes_produced_by_branches :: "consume inv_index"
  consumes_mergeable_by_branches :: "consume inv_index"
  unconsumed_produces_by_channel :: "bytes inv_index"
  unconsumed_consumes_by_channel :: "bytes inv_index"
  global_branches :: "nat hset"

definition empty_conflict_indexes :: conflict_indexes where
  "empty_conflict_indexes = \<lparr>produces_consumed_by_branches = [], produces_mergeable_by_branches = [],
     consumes_produced_by_branches = [], consumes_mergeable_by_branches = [], unconsumed_produces_by_channel = [],
     unconsumed_consumes_by_channel = [], global_branches = []\<rparr>"

text \<open>The surviving events of a log, as the loops select them.\<close>

definition surviving_produces :: "event_log_index \<Rightarrow> produce list" where
  "surviving_produces e =
     filter (\<lambda>p. \<not> hset_contains p_hash (produces_consumed e) p \<and> \<not> hset_contains p_hash (produces_copied_by_peek e) p)
       (produces_linear e)
     @ filter (\<lambda>p. \<not> hset_contains p_hash (produces_copied_by_peek e) p) (produces_persistent e)"

definition surviving_consumes :: "event_log_index \<Rightarrow> consume list" where
  "surviving_consumes e =
     filter (\<lambda>c. \<not> hset_contains ckey (consumes_produced e) c) (consumes_linear_and_peeks e) @ consumes_persistent e"

definition index_conflicts :: "nat \<Rightarrow> event_log_index \<Rightarrow> conflict_indexes \<Rightarrow> conflict_indexes" where
  "index_conflicts idx e ci =
     \<lparr>produces_consumed_by_branches = insert_all p_hash idx (produces_consumed e) (produces_consumed_by_branches ci),
      produces_mergeable_by_branches = insert_all p_hash idx (produces_mergeable e) (produces_mergeable_by_branches ci),
      consumes_produced_by_branches = insert_all ckey idx (consumes_produced e) (consumes_produced_by_branches ci),
      consumes_mergeable_by_branches = insert_all ckey idx (consumes_mergeable e) (consumes_mergeable_by_branches ci),
      unconsumed_produces_by_channel =
        insert_all (\<lambda>ch. ch) idx (map channel_hash (surviving_produces e)) (unconsumed_produces_by_channel ci),
      unconsumed_consumes_by_channel =
        insert_all (\<lambda>ch. ch) idx (concat (map channel_hashes (surviving_consumes e))) (unconsumed_consumes_by_channel ci),
      global_branches =
        (if produces_touching_base_joins e \<noteq> [] then hset_insert (\<lambda>n. n) idx (global_branches ci) else global_branches ci)\<rparr>"

definition both_mergeable :: "('x \<Rightarrow> 'k) \<Rightarrow> 'x inv_index \<Rightarrow> 'x \<Rightarrow> nat \<Rightarrow> nat \<Rightarrow> bool" where
  "both_mergeable key mergeable_ix x a b \<longleftrightarrow>
     (case index_get key mergeable_ix x of Some m \<Rightarrow> a \<in> set m \<and> b \<in> set m | None \<Rightarrow> False)"

definition race_entry :: "('x \<Rightarrow> 'k) \<Rightarrow> ('x \<Rightarrow> bool) \<Rightarrow> 'x inv_index \<Rightarrow> 'x \<Rightarrow> nat hset \<Rightarrow> (nat \<times> nat) list" where
  "race_entry key pers mergeable_ix x branches_set =
     (if pers x \<or> length branches_set < 2 then []
      else map (\<lambda>(a, b). lo_hi a b)
             (filter (\<lambda>(a, b). \<not> both_mergeable key mergeable_ix x a b) (position_pairs branches_set)))"

definition race_pairs :: "('x \<Rightarrow> 'k) \<Rightarrow> ('x \<Rightarrow> bool) \<Rightarrow> 'x inv_index \<Rightarrow> 'x inv_index \<Rightarrow> (nat \<times> nat) list" where
  "race_pairs key pers destroyed mergeable_ix = concat (map (\<lambda>(x, bs). race_entry key pers mergeable_ix x bs) destroyed)"

text \<open>Pairs of different branches that meet in an entry of both indexes.\<close>

definition meeting_entry :: "('x \<Rightarrow> 'k) \<Rightarrow> 'x inv_index \<Rightarrow> 'x \<Rightarrow> nat hset \<Rightarrow> (nat \<times> nat) list" where
  "meeting_entry key right x left_branches =
     (case index_get key right x of
        Some right_branches \<Rightarrow>
          map (\<lambda>(s, t). lo_hi s t) (filter (\<lambda>(s, t). s \<noteq> t) (List.product left_branches right_branches))
      | None \<Rightarrow> [])"

definition meeting_pairs :: "('x \<Rightarrow> 'k) \<Rightarrow> 'x inv_index \<Rightarrow> 'x inv_index \<Rightarrow> (nat \<times> nat) list" where
  "meeting_pairs key left right = concat (map (\<lambda>(x, bs). meeting_entry key right x bs) left)"

definition global_pairs :: "nat \<Rightarrow> nat hset \<Rightarrow> (nat \<times> nat) list" where
  "global_pairs n globals = concat (map (\<lambda>g. map (\<lambda>o'. lo_hi g o') (filter (\<lambda>o'. o' \<noteq> g) [0..<n])) globals)"

definition conflict_pairs :: "event_log_index list \<Rightarrow> (nat \<times> nat) list" where
  "conflict_pairs event_logs =
     (let ci = foldl (\<lambda>ci (idx, e). index_conflicts idx e ci) empty_conflict_indexes (enumerate 0 event_logs)
      in race_pairs p_hash persistent (produces_consumed_by_branches ci) (produces_mergeable_by_branches ci)
         @ race_pairs ckey c_persistent (consumes_produced_by_branches ci) (consumes_mergeable_by_branches ci)
         @ meeting_pairs (\<lambda>ch. ch) (unconsumed_produces_by_channel ci) (unconsumed_consumes_by_channel ci)
         @ global_pairs (length event_logs) (global_branches ci))"

definition compute_conflict_map_event_indexed :: "'r list \<Rightarrow> event_log_index list \<Rightarrow> ('e, 'r relation_map) res" where
  "compute_conflict_map_event_indexed branches event_logs =
     (if length branches \<noteq> length event_logs
      then Inl (Panic ''branches and event_logs must be parallel arrays of the same length'')
      else if length branches < 2 then Inr (init_map branches)
      else Inr (mark_pairs branches (conflict_pairs event_logs) (init_map branches)))"

record depend_indexes =
  produce_source_branches :: "produce inv_index"
  produce_target_branches :: "produce inv_index"
  consume_source_branches :: "consume inv_index"
  consume_target_branches :: "consume inv_index"

definition empty_depend_indexes :: depend_indexes where
  "empty_depend_indexes = \<lparr>produce_source_branches = [], produce_target_branches = [], consume_source_branches = [],
     consume_target_branches = []\<rparr>"

definition index_depends :: "nat \<Rightarrow> event_log_index \<Rightarrow> depend_indexes \<Rightarrow> depend_indexes" where
  "index_depends idx e di =
     \<lparr>produce_source_branches =
        insert_all p_hash idx (filter (\<lambda>p. \<not> hset_contains p_hash (produces_mergeable e) p) (surviving_produces e))
          (produce_source_branches di),
      produce_target_branches = insert_all p_hash idx (produces_consumed e) (produce_target_branches di),
      consume_source_branches = insert_all ckey idx (surviving_consumes e) (consume_source_branches di),
      consume_target_branches = insert_all ckey idx (consumes_produced e) (consume_target_branches di)\<rparr>"

definition depend_pairs :: "event_log_index list \<Rightarrow> (nat \<times> nat) list" where
  "depend_pairs event_logs =
     (let di = foldl (\<lambda>di (idx, e). index_depends idx e di) empty_depend_indexes (enumerate 0 event_logs)
      in meeting_pairs p_hash (produce_source_branches di) (produce_target_branches di)
         @ meeting_pairs ckey (consume_source_branches di) (consume_target_branches di))"

definition compute_depends_map_event_indexed :: "'r list \<Rightarrow> event_log_index list \<Rightarrow> ('e, 'r relation_map) res" where
  "compute_depends_map_event_indexed branches event_logs =
     (if length branches \<noteq> length event_logs
      then Inl (Panic ''branches and event_logs must be parallel arrays of the same length'')
      else if length branches < 2 then Inr (init_map branches)
      else Inr (mark_pairs branches (depend_pairs event_logs) (init_map branches)))"

subsection \<open>Related sets\<close>

definition map_edges :: "'a relation_map \<Rightarrow> ('a \<times> 'a) set" where
  "map_edges m = {(x, y). \<exists>s. hm_get m x = Some s \<and> y \<in> set s}"

definition new_related :: "'a relation_map \<Rightarrow> 'a hset \<Rightarrow> 'a hset \<Rightarrow> 'a hset" where
  "new_related m next_acc to_add =
     foldl (\<lambda>n v. case hm_get m v of
         Some related \<Rightarrow> hset_extend n (filter (\<lambda>r. r \<notin> set next_acc) related)
       | None \<Rightarrow> n) [] to_add"

lemma set_hset_extend [simp]: "set (hset_extend s xs) = set s \<union> set xs"
  by (induction xs arbitrary: s) (auto simp: hset_extend_def)

lemma set_new_related: "set (new_related m acc to_add) = {y. \<exists>v \<in> set to_add. (v, y) \<in> map_edges m} - set acc"
proof -
  have "set (foldl (\<lambda>n v. case hm_get m v of Some related \<Rightarrow> hset_extend n (filter (\<lambda>r. r \<notin> set acc) related)
      | None \<Rightarrow> n) n to_add) = set n \<union> ({y. \<exists>v \<in> set to_add. (v, y) \<in> map_edges m} - set acc)" for n
    by (induction to_add arbitrary: n) (auto simp: map_edges_def split: option.split)
  from this [of "[]"] show ?thesis by (simp add: new_related_def)
qed

lemma hset_extend_grows: "length (hset_extend s xs) = length s \<longleftrightarrow> set xs \<subseteq> set s"
proof -
  have "length s \<le> length (hset_extend s xs) \<and> (length (hset_extend s xs) = length s \<longrightarrow> set xs \<subseteq> set s)
    \<and> (set xs \<subseteq> set s \<longrightarrow> hset_extend s xs = s)" for s
  proof (induction xs arbitrary: s)
    case (Cons x xs)
    have "hset_extend s (x # xs) = hset_extend (hset_insert (\<lambda>y. y) x s) xs" by (simp add: hset_extend_def)
    with Cons [of "hset_insert (\<lambda>y. y) x s"] show ?case
      by (auto simp: hset_insert_def split: if_splits)
  qed (simp add: hset_extend_def)
  from this [of s] show ?thesis by auto
qed

function add_relations :: "'a relation_map \<Rightarrow> 'a hset \<Rightarrow> 'a hset \<Rightarrow> 'a hset" where
  "add_relations m to_add acc =
     (let next_acc = hset_extend acc to_add
      in if length next_acc = length acc then next_acc
         else let n = new_related m next_acc to_add
              in if n = [] then next_acc else add_relations m n next_acc)"
  by auto

termination
proof (relation "measure (\<lambda>(m, to_add, acc). card ((set to_add \<union> \<Union> (set ` snd ` set m)) - set acc))", goal_cases)
  case (2 m to_add acc next_acc n)
  have edges: "\<Union> (set ` snd ` set m) \<supseteq> {y. \<exists>v. (v, y) \<in> map_edges m}"
    by (force simp: map_edges_def dest: map_of_SomeD)
  have n: "set n \<subseteq> \<Union> (set ` snd ` set m)"
    using edges by (auto simp: 2(3) set_new_related)
  have "set next_acc = set acc \<union> set to_add" by (simp add: 2(1))
  moreover obtain x where "x \<in> set to_add" "x \<notin> set acc"
    using 2(1,2) hset_extend_grows [of acc to_add] by auto
  ultimately have "(set n \<union> \<Union> (set ` snd ` set m)) - set next_acc \<subset> (set to_add \<union> \<Union> (set ` snd ` set m)) - set acc"
    using n by blast
  then show ?case
    by (simp add: psubset_card_mono)
qed simp

declare add_relations.simps [simp del]

definition gather_related_sets :: "'a relation_map \<Rightarrow> 'a hset hset" where
  "gather_related_sets relation_map =
     snd (foldl (\<lambda>(processed, result) k.
       if k \<in> set processed then (processed, result)
       else let component = add_relations relation_map (the (hm_get relation_map k)) [k]
            in (hset_extend processed component, hset_insert set component result))
     ([], []) (hm_keys relation_map))"

definition compute_related_sets :: "('a \<Rightarrow> 'a \<Rightarrow> bool) \<Rightarrow> 'a hset \<Rightarrow> ('a \<Rightarrow> 'a \<Rightarrow> bool) \<Rightarrow> 'a hset hset" where
  "compute_related_sets gt items relation = gather_related_sets (compute_relation_map gt items relation)"

subsection \<open>Rejection options\<close>

record 'a rejection_option =
  rejected_so_far :: "'a hset"
  remaining_conflicts_map :: "'a relation_map"

text \<open>Two options are equal when they reject the same items.\<close>

definition option_key :: "'a rejection_option \<Rightarrow> 'a set" where
  "option_key opt = set (rejected_so_far opt)"

definition reject_items :: "'a hset \<Rightarrow> 'a relation_map \<Rightarrow> 'a relation_map" where
  "reject_items to_reject m =
     List.map_filter (\<lambda>(key, conflicts).
       if key \<in> set to_reject then None
       else let updated = filter (\<lambda>c. c \<notin> set to_reject) conflicts
            in if updated = [] then None else Some (key, updated)) m"

definition gather_rej_options :: "'a relation_map \<Rightarrow> 'a rejection_option list" where
  "gather_rej_options conflicts_map =
     hset_collect option_key (map (\<lambda>(_, to_reject).
       \<lparr>rejected_so_far = to_reject, remaining_conflicts_map = reject_items to_reject conflicts_map\<rparr>) conflicts_map)"

definition already_exists :: "'a hset list \<Rightarrow> 'a hset \<Rightarrow> bool" where
  "already_exists result rejected =
     list_ex (\<lambda>existing. length existing = length rejected \<and> list_all (\<lambda>item. item \<in> set rejected) existing) result"

definition process_option ::
  "'a rejection_option \<Rightarrow> 'a rejection_option list \<times> 'a hset list \<Rightarrow> 'a rejection_option list \<times> 'a hset list" where
  "process_option opt st =
     (case st of (next, result) \<Rightarrow>
        if remaining_conflicts_map opt = []
        then (next, if already_exists result (rejected_so_far opt) then result
                    else hset_insert set (rejected_so_far opt) result)
        else (foldl (\<lambda>next new_option.
                hset_insert option_key
                  (new_option\<lparr>rejected_so_far := hset_extend (rejected_so_far new_option) (rejected_so_far opt)\<rparr>) next)
              next (gather_rej_options (remaining_conflicts_map opt)), result))"

definition option_rank :: "'a rejection_option list \<Rightarrow> nat" where
  "option_rank current = Max (insert 0 (Suc ` length ` remaining_conflicts_map ` set current))"

lemma map_filter_shorter:
  "length (List.map_filter f xs) \<le> length xs" "x \<in> set xs \<Longrightarrow> f x = None \<Longrightarrow> length (List.map_filter f xs) < length xs"
proof -
  show *: "length (List.map_filter f xs) \<le> length xs" for xs
    by (simp add: List.map_filter_def)
  show "x \<in> set xs \<Longrightarrow> f x = None \<Longrightarrow> length (List.map_filter f xs) < length xs"
  proof (induction xs)
    case (Cons y ys)
    then show ?case
      using * [of ys] by (cases "y = x") (auto simp: List.map_filter_simps split: option.split)
  qed simp
qed

lemma gather_rej_shorter:
  assumes "opt \<in> set (gather_rej_options m)"
  shows "length (remaining_conflicts_map opt) < length m"
proof -
  have "opt \<in> set (map (\<lambda>(_, to_reject). \<lparr>rejected_so_far = to_reject, remaining_conflicts_map = reject_items to_reject m\<rparr>) m)"
    by (rule subsetD [OF hset_elements(2) assms [unfolded gather_rej_options_def]])
  then obtain e where e: "opt = (case e of (_, to_reject) \<Rightarrow>
      \<lparr>rejected_so_far = to_reject, remaining_conflicts_map = reject_items to_reject m\<rparr>)" "e \<in> set m"
    unfolding set_map by (rule imageE)
  obtain k to_reject where "e = (k, to_reject)" by (cases e)
  with e have kt: "(k, to_reject) \<in> set m" "remaining_conflicts_map opt = reject_items to_reject m"
    by simp_all
  show ?thesis
    unfolding kt(2) reject_items_def by (rule map_filter_shorter(2) [OF kt(1)]) simp
qed

lemma process_option_next:
  assumes "opt' \<in> set (fst (process_option opt (nxt, result)))"
  shows "opt' \<in> set nxt \<or> length (remaining_conflicts_map opt') < length (remaining_conflicts_map opt)"
proof -
  have "opt' \<in> set nxt \<or> length (remaining_conflicts_map opt') < b"
    if "opt' \<in> set (foldl (\<lambda>nxt new_option. hset_insert option_key
        (new_option\<lparr>rejected_so_far := hset_extend (rejected_so_far new_option) r\<rparr>) nxt) nxt opts)"
      "\<forall>o' \<in> set opts. length (remaining_conflicts_map o') < b" for opts r b nxt
    using that
  proof (induction opts arbitrary: nxt)
    case (Cons o' opts)
    let ?o = "o'\<lparr>rejected_so_far := hset_extend (rejected_so_far o') r\<rparr>"
    from Cons have "opt' \<in> set (hset_insert option_key ?o nxt) \<or> length (remaining_conflicts_map opt') < b"
      by simp
    then show ?case
      using hset_elements(1) [of option_key ?o nxt] Cons.prems(2) by auto
  qed simp
  note step = this
  show ?thesis
  proof (cases "remaining_conflicts_map opt = []")
    case False
    with assms have mem: "opt' \<in> set (foldl (\<lambda>nxt new_option. hset_insert option_key
        (new_option\<lparr>rejected_so_far := hset_extend (rejected_so_far new_option) (rejected_so_far opt)\<rparr>) nxt) nxt
        (gather_rej_options (remaining_conflicts_map opt)))"
      by (simp add: process_option_def)
    show ?thesis
      by (rule step [OF mem]) (use gather_rej_shorter in blast)
  qed (use assms in \<open>simp add: process_option_def\<close>)
qed

lemma process_options_next:
  assumes "opt' \<in> set (fst (foldl (\<lambda>st opt. process_option opt st) (nxt, result) current))"
  shows "opt' \<in> set nxt \<or> (\<exists>opt \<in> set current. length (remaining_conflicts_map opt') < length (remaining_conflicts_map opt))"
  using assms
proof (induction current arbitrary: nxt result)
  case (Cons opt current)
  obtain nxt' result' where st: "process_option opt (nxt, result) = (nxt', result')" by fastforce
  with Cons.prems have "opt' \<in> set (fst (foldl (\<lambda>st opt. process_option opt st) (nxt', result') current))" by simp
  from Cons.IH [OF this] show ?case
    using process_option_next [of opt' opt nxt result] st by auto
qed simp

function rejection_loop :: "'a rejection_option list \<Rightarrow> 'a hset list \<Rightarrow> 'a hset list" where
  "rejection_loop current result =
     (if current = [] then result
      else let st = foldl (\<lambda>st opt. process_option opt st) ([], result) current
           in rejection_loop (fst st) (snd st))"
  by auto

termination
proof (relation "measure (\<lambda>(current, _). option_rank current)", goal_cases)
  case (2 current result st)
  have less: "Suc (length (remaining_conflicts_map opt')) < option_rank current" if opt': "opt' \<in> set (fst st)" for opt'
  proof -
    obtain opt where opt: "opt \<in> set current" "length (remaining_conflicts_map opt') < length (remaining_conflicts_map opt)"
      using process_options_next [of opt' "[]" result current] opt' by (auto simp: 2(2))
    have "Suc (length (remaining_conflicts_map opt)) \<le> option_rank current"
      unfolding option_rank_def using opt(1) by (intro Max_ge) auto
    with opt(2) show ?thesis by simp
  qed
  have "option_rank (fst st) < option_rank current"
  proof -
    have pos: "option_rank current > 0"
      using 2(1) unfolding option_rank_def by (subst Max_gr_iff) (auto simp: neq_Nil_conv)
    have "\<forall>n \<in> insert 0 (Suc ` length ` remaining_conflicts_map ` set (fst st)). n < option_rank current"
      using pos less by auto
    then show ?thesis unfolding option_rank_def [of "fst st"] by (subst Max_less_iff) auto
  qed
  then show ?case by (simp add: split_beta)
qed simp

declare rejection_loop.simps [simp del]

definition compute_rejection_options :: "'a relation_map \<Rightarrow> 'a hset hset" where
  "compute_rejection_options conflict_map =
     (let conflicts_only_map = filter (\<lambda>(_, conflicts). conflicts \<noteq> []) conflict_map;
          start = \<lparr>rejected_so_far = [], remaining_conflicts_map = conflicts_only_map\<rparr>
      in rejection_loop [start] [])"

end
