(* ===== verification/MergingSpec.thy ===== *)
theory MergingSpec
  imports MergingLogic
begin

section \<open>Correctness of conflict detection\<close>

text \<open>
  The maps that the inverted indexes build are the pairwise relations \<open>are_conflicting\<close> and
  \<open>depends\<close>; related sets are the connected components of a relation map.
\<close>

subsection \<open>Relation maps\<close>

lemma relate_get:
  "hm_get (relate a b m) x = (if x = a then map_option (hset_insert (\<lambda>x. x) b) (hm_get m a) else hm_get m x)"
  by (auto simp: relate_def update_conv' split: option.split)

lemma relate_dom [simp]: "dom (hm_get (relate a b m)) = dom (hm_get m)"
  by (auto simp: relate_get dom_def split: if_splits)

lemma relate_edges: "map_edges (relate a b m) = map_edges m \<union> (if a \<in> dom (hm_get m) then {(a, b)} else {})"
  by (auto simp: map_edges_def relate_get split: if_splits)

lemma mark_pair_dom [simp]: "dom (hm_get (mark_pair a b m)) = dom (hm_get m)"
  by (simp add: mark_pair_def)

lemma mark_pair_edges:
  "a \<in> dom (hm_get m) \<Longrightarrow> b \<in> dom (hm_get m) \<Longrightarrow> map_edges (mark_pair a b m) = map_edges m \<union> {(a, b), (b, a)}"
  by (auto simp: mark_pair_def relate_edges)

lemma init_map_get:
  fixes items :: "'a list"
  shows "hm_get (init_map items) x = (if x \<in> set items then Some [] else None)"
proof -
  have "hm_get (foldl (\<lambda>m x. hm_put x ([] :: 'a list) m) m items) x = (if x \<in> set items then Some [] else hm_get m x)" for m
    by (induction items arbitrary: m) (auto simp: update_conv')
  then show ?thesis by (simp add: init_map_def)
qed

lemma init_map_dom [simp]: "dom (hm_get (init_map items)) = set items"
  by (auto simp: init_map_get dom_def)

lemma init_map_edges [simp]: "map_edges (init_map items) = {}"
  by (auto simp: map_edges_def init_map_get split: if_splits)

lemma mark_pairs_map:
  assumes "\<forall>(a, b) \<in> set pairs. branches ! a \<in> dom (hm_get m) \<and> branches ! b \<in> dom (hm_get m)"
  shows "dom (hm_get (mark_pairs branches pairs m)) = dom (hm_get m)
    \<and> map_edges (mark_pairs branches pairs m) =
      map_edges m \<union> (\<lambda>(a, b). (branches ! a, branches ! b)) ` (set pairs \<union> (set pairs)\<inverse>)"
  using assms
proof (induction pairs arbitrary: m)
  case (Cons p pairs)
  obtain a b where p: "p = (a, b)" by (cases p)
  let ?m = "mark_pair (branches ! a) (branches ! b) m"
  have "mark_pairs branches (p # pairs) m = mark_pairs branches pairs ?m" by (simp add: mark_pairs_def p)
  with Cons.IH [of ?m] Cons.prems show ?case by (auto simp: p mark_pair_edges)
qed (simp add: mark_pairs_def)

text \<open>The map of a symmetric relation on positions.\<close>

lemma mark_pairs_init:
  assumes "distinct branches" "set pairs = {(i, j). i < j \<and> j < length branches \<and> P i j}" "\<And>i j. P i j = P j i"
  shows "dom (hm_get (mark_pairs branches pairs (init_map branches))) = set branches
    \<and> map_edges (mark_pairs branches pairs (init_map branches)) =
      {(branches ! i, branches ! j) | i j. i < length branches \<and> j < length branches \<and> i \<noteq> j \<and> P i j}"
proof -
  have dom: "\<forall>(a, b) \<in> set pairs. branches ! a \<in> dom (hm_get (init_map branches)) \<and> branches ! b \<in> dom (hm_get (init_map branches))"
    using assms(2) by auto
  have "set pairs \<union> (set pairs)\<inverse> = {(i, j). i < length branches \<and> j < length branches \<and> i \<noteq> j \<and> P i j}"
    unfolding assms(2) using assms(3) by (auto simp: neq_iff)
  then show ?thesis using mark_pairs_map [OF dom] by auto
qed

lemma compute_relation_map_edges:
  assumes "\<And>x y. \<not> (gt x y \<and> gt y x)"
  shows "dom (hm_get (compute_relation_map gt items relation)) = set items
    \<and> map_edges (compute_relation_map gt items relation) =
      {(x, y). x \<in> set items \<and> y \<in> set items \<and> x \<noteq> y \<and> (relation x y \<or> relation y x)}"
proof -
  let ?step = "\<lambda>m (item1, item2). if item1 = item2 \<or> gt item1 item2 then m
       else if relation item1 item2 \<or> relation item2 item1 then mark_pair item1 item2 m else m"
  have fold: "dom (hm_get (foldl ?step m ps)) = dom (hm_get m) \<and> map_edges (foldl ?step m ps) = map_edges m \<union>
      {(x, y). ((x, y) \<in> set ps \<and> \<not> gt x y \<or> (y, x) \<in> set ps \<and> \<not> gt y x) \<and> x \<noteq> y \<and> (relation x y \<or> relation y x)}"
    if "\<forall>(x, y) \<in> set ps. x \<in> dom (hm_get m) \<and> y \<in> dom (hm_get m)" for ps m
    using that
  proof (induction ps arbitrary: m)
    case (Cons p ps)
    obtain x y where p: "p = (x, y)" by (cases p)
    have "dom (hm_get (?step m p)) = dom (hm_get m)" by (simp add: p)
    moreover have "map_edges (?step m p) = map_edges m \<union>
      {(a, b). ((a, b) = p \<and> \<not> gt a b \<or> (b, a) = p \<and> \<not> gt b a) \<and> a \<noteq> b \<and> (relation a b \<or> relation b a)}"
      using Cons.prems by (auto simp: p mark_pair_edges)
    moreover have "\<forall>(x, y) \<in> set ps. x \<in> dom (hm_get (?step m p)) \<and> y \<in> dom (hm_get (?step m p))"
      using Cons.prems calculation(1) by simp
    ultimately show ?case
      using Cons.IH [of "?step m p"] by (auto simp: p)
  qed auto
  from fold [of "List.product items items" "init_map items"] show ?thesis
    using assms by (auto simp: compute_relation_map_def)
qed

subsection \<open>Inverted indexes\<close>

lemma insert_all_rel [simp]: "index_rel key (insert_all key i xs m) = hkeys key xs \<times> {i} \<union> index_rel key m"
  by (induction xs arbitrary: m) (auto simp: insert_all_def)

lemma insert_all_ok: "index_ok key m \<Longrightarrow> index_ok key (insert_all key i xs m)"
  by (induction xs arbitrary: m) (auto simp: insert_all_def index_insert_ok)

lemma insert_all_elements: "fst ` set (insert_all key i xs m) \<subseteq> set xs \<union> fst ` set m"
proof (induction xs arbitrary: m)
  case (Cons x xs)
  show ?case
    using Cons.IH [of "index_insert key i x m"] index_insert_elements [of key i x m] by (auto simp: insert_all_def)
qed (simp add: insert_all_def)

text \<open>One index over all logs.\<close>

definition index_logs :: "('x \<Rightarrow> 'k) \<Rightarrow> ('e \<Rightarrow> 'x list) \<Rightarrow> 'e list \<Rightarrow> 'x inv_index" where
  "index_logs key sel logs = foldl (\<lambda>m (i, e). insert_all key i (sel e) m) [] (enumerate 0 logs)"

lemma index_logs_snoc: "index_logs key sel (logs @ [e]) = insert_all key (length logs) (sel e) (index_logs key sel logs)"
  by (simp add: index_logs_def enumerate_append_eq)

lemma index_logs_ok: "index_ok key (index_logs key sel logs)"
proof (induction logs rule: rev_induct)
  case Nil
  show ?case by (simp add: index_logs_def)
qed (simp add: index_logs_snoc insert_all_ok)

lemma index_logs_rel: "index_rel key (index_logs key sel logs) = {(k, i). i < length logs \<and> k \<in> hkeys key (sel (logs ! i))}"
proof (induction logs rule: rev_induct)
  case Nil
  show ?case by (simp add: index_logs_def)
next
  case (snoc e logs)
  have "(hkeys key (sel e) \<times> {length logs}) \<union> {(k, i). i < length logs \<and> k \<in> hkeys key (sel (logs ! i))} =
      {(k, i). i < length (logs @ [e]) \<and> k \<in> hkeys key (sel ((logs @ [e]) ! i))}"
    by (auto simp: nth_append less_Suc_eq)
  then show ?case by (simp add: index_logs_snoc snoc)
qed

lemma index_logs_elements: "fst ` set (index_logs key sel logs) \<subseteq> (\<Union>e \<in> set logs. set (sel e))"
proof (induction logs rule: rev_induct)
  case Nil
  show ?case by (simp add: index_logs_def)
next
  case (snoc e logs)
  show ?case
    using insert_all_elements [of key "length logs" "sel e" "index_logs key sel logs"] snoc by (auto simp: index_logs_snoc)
qed

lemma foldl_proj:
  assumes "\<And>i e c. sel (f i e c) = g i e (sel c)"
  shows "sel (foldl (\<lambda>c (i, e). f i e c) c xs) = foldl (\<lambda>m (i, e). g i e m) (sel c) xs"
  by (induction xs arbitrary: c) (auto simp: assms)

subsection \<open>Pairs of branches\<close>

lemma lo_hi_iff: "a \<noteq> b \<Longrightarrow> (i, j) = lo_hi a b \<longleftrightarrow> i < j \<and> (i = a \<and> j = b \<or> i = b \<and> j = a)"
  by (auto simp: lo_hi_def)

lemma position_pairs_sound: "distinct pos \<Longrightarrow> (a, b) \<in> set (position_pairs pos) \<Longrightarrow> a \<noteq> b \<and> a \<in> set pos \<and> b \<in> set pos"
  by (induction pos) auto

lemma position_pairs_complete:
  "a \<in> set pos \<Longrightarrow> b \<in> set pos \<Longrightarrow> a \<noteq> b \<Longrightarrow> (a, b) \<in> set (position_pairs pos) \<or> (b, a) \<in> set (position_pairs pos)"
  by (induction pos) auto

lemma position_pairs_lo_hi:
  assumes "distinct pos" "\<And>a b. P a b = P b a"
  shows "(i, j) \<in> set (map (\<lambda>(a, b). lo_hi a b) (filter (\<lambda>(a, b). P a b) (position_pairs pos))) \<longleftrightarrow>
    i < j \<and> i \<in> set pos \<and> j \<in> set pos \<and> P i j" (is "?l = ?r")
proof
  assume ?l
  then obtain a b where ab: "(a, b) \<in> set (position_pairs pos)" "P a b" "(i, j) = lo_hi a b" by auto
  with position_pairs_sound [OF assms(1) ab(1)] show ?r
    using assms(2) [of a b] by (auto simp: lo_hi_iff)
next
  assume r: ?r
  then have "i \<noteq> j" by simp
  with r position_pairs_complete [of i pos j] obtain a b where
    ab: "(a, b) \<in> set (position_pairs pos)" "a = i \<and> b = j \<or> a = j \<and> b = i" by auto
  then have "(i, j) = lo_hi a b" "P a b"
    using r assms(2) [of a b] \<open>i \<noteq> j\<close> by (auto simp: lo_hi_iff)
  with ab(1) show ?l by force
qed

lemma both_mergeable_iff:
  "index_ok key M \<Longrightarrow> both_mergeable key M x a b \<longleftrightarrow> (key x, a) \<in> index_rel key M \<and> (key x, b) \<in> index_rel key M"
  using index_get_rel [of key M a x] index_get_rel [of key M b x] by (auto simp: both_mergeable_def split: option.splits)

lemma race_entry_iff:
  assumes "index_ok key M" "distinct s"
  shows "(i, j) \<in> set (race_entry key pers M x s) \<longleftrightarrow>
    i < j \<and> i \<in> set s \<and> j \<in> set s \<and> \<not> pers x \<and> \<not> ((key x, i) \<in> index_rel key M \<and> (key x, j) \<in> index_rel key M)"
proof -
  have short: "length s < 2 \<Longrightarrow> \<not> (i < j \<and> i \<in> set s \<and> j \<in> set s)"
    by (cases s; cases "tl s") auto
  have "both_mergeable key M x a b = both_mergeable key M x b a" for a b
    by (auto simp: both_mergeable_def split: option.split)
  then have "(i, j) \<in> set (map (\<lambda>(a, b). lo_hi a b) (filter (\<lambda>(a, b). \<not> both_mergeable key M x a b) (position_pairs s))) \<longleftrightarrow>
      i < j \<and> i \<in> set s \<and> j \<in> set s \<and> \<not> both_mergeable key M x i j"
    by (intro position_pairs_lo_hi [OF assms(2)]) simp
  with short show ?thesis
    unfolding race_entry_def by (simp add: both_mergeable_iff [OF assms(1)] del: set_map) blast
qed

lemma race_pairs_iff:
  assumes ok: "index_ok key D" "index_ok key M" and pers: "\<forall>(x, s) \<in> set D. pers x = pk (key x)"
  shows "(i, j) \<in> set (race_pairs key pers D M) \<longleftrightarrow> i < j \<and> (\<exists>k. (k, i) \<in> index_rel key D \<and> (k, j) \<in> index_rel key D
    \<and> \<not> pk k \<and> \<not> ((k, i) \<in> index_rel key M \<and> (k, j) \<in> index_rel key M))" (is "?l \<longleftrightarrow> ?r")
proof -
  have entry: "(i, j) \<in> set (race_entry key pers M x s) \<longleftrightarrow> i < j \<and> (key x, i) \<in> index_rel key D \<and> (key x, j) \<in> index_rel key D
      \<and> \<not> pk (key x) \<and> \<not> ((key x, i) \<in> index_rel key M \<and> (key x, j) \<in> index_rel key M)" if "(x, s) \<in> set D" for x s
  proof -
    have "distinct s" "pers x = pk (key x)" using that ok(1) pers by (auto simp: index_ok_def)
    then show ?thesis
      using index_entry [OF ok(1) that] by (simp add: race_entry_iff [OF ok(2)])
  qed
  have "?l \<longleftrightarrow> (\<exists>x s. (x, s) \<in> set D \<and> (i, j) \<in> set (race_entry key pers M x s))"
    unfolding race_pairs_def by auto
  also have "\<dots> \<longleftrightarrow> ?r"
  proof
    assume ?r
    then obtain k where k: "i < j" "(k, i) \<in> index_rel key D" "(k, j) \<in> index_rel key D" "\<not> pk k"
      "\<not> ((k, i) \<in> index_rel key M \<and> (k, j) \<in> index_rel key M)" by blast
    obtain x s where "(x, s) \<in> set D" "key x = k" using index_rel_entry [OF k(2)] by blast
    with k entry show "\<exists>x s. (x, s) \<in> set D \<and> (i, j) \<in> set (race_entry key pers M x s)" by blast
  qed (use entry in blast)
  finally show ?thesis .
qed

lemma product_lo_hi:
  "(i, j) \<in> set (map (\<lambda>(s, t). lo_hi s t) (filter (\<lambda>(s, t). s \<noteq> t) (List.product lb rb))) \<longleftrightarrow>
    i < j \<and> (i \<in> set lb \<and> j \<in> set rb \<or> j \<in> set lb \<and> i \<in> set rb)" (is "?l = ?r")
proof
  assume ?l
  then obtain s t where "s \<in> set lb" "t \<in> set rb" "s \<noteq> t" "(i, j) = lo_hi s t" by auto
  then show ?r by (auto simp: lo_hi_iff)
next
  assume r: ?r
  then obtain s t where st: "s \<in> set lb" "t \<in> set rb" "s \<noteq> t" "i = s \<and> j = t \<or> i = t \<and> j = s" by auto
  then have "(i, j) = lo_hi s t" using r by (auto simp: lo_hi_iff)
  moreover have "(s, t) \<in> set (filter (\<lambda>(s, t). s \<noteq> t) (List.product lb rb))" using st by simp
  ultimately show ?l unfolding set_map by (intro image_eqI [where x = "(s, t)"]) simp_all
qed

lemma meeting_pairs_iff:
  assumes ok: "index_ok key L" "index_ok key R"
  shows "(i, j) \<in> set (meeting_pairs key L R) \<longleftrightarrow> i < j \<and> (\<exists>k. (k, i) \<in> index_rel key L \<and> (k, j) \<in> index_rel key R
    \<or> (k, j) \<in> index_rel key L \<and> (k, i) \<in> index_rel key R)" (is "?l \<longleftrightarrow> ?r")
proof -
  have entry: "(i, j) \<in> set (meeting_entry key R x lb) \<longleftrightarrow> i < j \<and> ((key x, i) \<in> index_rel key L \<and> (key x, j) \<in> index_rel key R
        \<or> (key x, j) \<in> index_rel key L \<and> (key x, i) \<in> index_rel key R)" if "(x, lb) \<in> set L" for x lb
  proof (cases "index_get key R x")
    case None
    then show ?thesis
      using index_get_rel [OF ok(2), of i x] index_get_rel [OF ok(2), of j x] by (simp add: meeting_entry_def)
  next
    case (Some rb)
    then have "t \<in> set rb \<longleftrightarrow> (key x, t) \<in> index_rel key R" for t
      using index_get_rel [OF ok(2), of t x] by simp
    then show ?thesis
      unfolding meeting_entry_def Some option.case product_lo_hi using index_entry [OF ok(1) that] by simp
  qed
  have "?l \<longleftrightarrow> (\<exists>x s. (x, s) \<in> set L \<and> (i, j) \<in> set (meeting_entry key R x s))"
    unfolding meeting_pairs_def by auto
  also have "\<dots> \<longleftrightarrow> ?r"
  proof
    assume ?r
    then obtain k where k: "i < j" "(k, i) \<in> index_rel key L \<and> (k, j) \<in> index_rel key R
      \<or> (k, j) \<in> index_rel key L \<and> (k, i) \<in> index_rel key R" by blast
    then obtain x s where "(x, s) \<in> set L" "key x = k" using index_rel_entry [of k _ key L] by blast
    with k entry show "\<exists>x s. (x, s) \<in> set L \<and> (i, j) \<in> set (meeting_entry key R x s)" by blast
  qed (use entry in blast)
  finally show ?thesis .
qed

lemma global_pairs_iff:
  assumes "set gs \<subseteq> {..<n}"
  shows "(i, j) \<in> set (global_pairs n gs) \<longleftrightarrow> i < j \<and> j < n \<and> (i \<in> set gs \<or> j \<in> set gs)" (is "?l = ?r")
proof -
  have "?l \<longleftrightarrow> (\<exists>g \<in> set gs. \<exists>k < n. k \<noteq> g \<and> (i, j) = lo_hi g k)"
    unfolding global_pairs_def by auto
  also have "\<dots> \<longleftrightarrow> (\<exists>g \<in> set gs. \<exists>k < n. k \<noteq> g \<and> i < j \<and> (i = g \<and> j = k \<or> i = k \<and> j = g))"
    by (metis lo_hi_iff)
  also have "\<dots> \<longleftrightarrow> ?r"
  proof
    assume r: ?r
    then have "i < n" "j < n" "i \<noteq> j" "j \<noteq> i" by auto
    with r show "\<exists>g \<in> set gs. \<exists>k < n. k \<noteq> g \<and> i < j \<and> (i = g \<and> j = k \<or> i = k \<and> j = g)" by blast
  qed (use assms in \<open>auto simp: subset_iff\<close>)
  finally show ?thesis .
qed

subsection \<open>Consistent logs\<close>

text \<open>
  The hash of a produce determines its channel and its persistence (it hashes them), and every
  consume has a channel (an empty consume panics).
\<close>

definition log_wf :: "(bytes \<Rightarrow> bytes) \<Rightarrow> (bytes \<Rightarrow> bool) \<Rightarrow> event_log_index \<Rightarrow> bool" where
  "log_wf chan pers e \<longleftrightarrow>
     list_all (\<lambda>p. channel_hash p = chan (p_hash p)) (produces_linear e @ produces_persistent e)
     \<and> list_all (\<lambda>p. persistent p = pers (p_hash p)) (produces_consumed e)
     \<and> list_all (\<lambda>c. channel_hashes c \<noteq> []) (consumes_produced e)"

text \<open>Facts about sets whose elements are determined by their keys.\<close>

lemma hkeys_by: "list_all (\<lambda>x. f x = g (key x)) s \<Longrightarrow> f ` set s = g ` hkeys key s"
  by (force simp: hkeys_def list_all_iff)

lemma hkeys_filter_pred: "list_all (\<lambda>x. P x = Q (key x)) s \<Longrightarrow> hkeys key (filter P s) = {k \<in> hkeys key s. Q k}"
  by (auto simp: hkeys_def list_all_iff)

lemma list_all_sub: "set t \<subseteq> set s \<Longrightarrow> list_all P s \<Longrightarrow> list_all P t"
  by (auto simp: list_all_iff)

lemma shared_races_iff:
  assumes "list_all (\<lambda>x. pers x = pk (key x)) a" "list_all (\<lambda>x. pers x = pk (key x)) b"
  shows "shared_races key pers a b ma mb \<noteq> [] \<longleftrightarrow>
    (\<exists>k. k \<in> hkeys key a \<and> k \<in> hkeys key b \<and> \<not> pk k \<and> \<not> (k \<in> hkeys key ma \<and> k \<in> hkeys key mb))"
proof -
  let ?d = "hset_difference key (hset_intersection key a b) (hset_intersection key ma mb)"
  have sub: "set ?d \<subseteq> set (a @ b)"
    using hset_elements(4) [of key "hset_intersection key a b"] hset_elements(6) [of key a b] by auto
  have "list_all (\<lambda>x. (\<not> pers x) = (\<not> pk (key x))) ?d"
    by (rule list_all_sub [OF sub]) (use assms in \<open>simp add: list_all_iff ball_Un\<close>)
  then have "hkeys key (filter (\<lambda>x. \<not> pers x) ?d) = {k \<in> hkeys key ?d. \<not> pk k}"
    by (rule hkeys_filter_pred)
  moreover have "shared_races key pers a b ma mb \<noteq> [] \<longleftrightarrow> hkeys key (filter (\<lambda>x. \<not> pers x) ?d) \<noteq> {}"
    by (simp add: shared_races_def Let_def hkeys_empty_iff)
  ultimately show ?thesis by auto
qed

lemma comm_pairs_Nil:
  "concat (map (\<lambda>p. map (\<lambda>_. f p) (filter (\<lambda>c. f p \<in> set (g c)) cs)) ps) \<noteq> [] \<longleftrightarrow>
   (\<exists>ch. ch \<in> f ` set ps \<and> ch \<in> set (concat (map g cs)))"
  by (auto simp: filter_empty_conv)

lemma concat_map_nonempty: "list_all (\<lambda>c. g c \<noteq> []) cs \<Longrightarrow> concat (map g cs) \<noteq> [] \<longleftrightarrow> cs \<noteq> []"
  by (cases cs) auto

lemma surviving_keys:
  "hkeys p_hash (surviving_produces e) = hkeys p_hash (produces_created_and_not_destroyed e)"
  "set (surviving_consumes e) = set (consumes_created_and_not_destroyed e)"
proof -
  have f: "hkeys key (filter (\<lambda>x. key x \<notin> A \<and> key x \<notin> B) s) = hkeys key s - A - B" for key :: "'x \<Rightarrow> 'k" and A B s
    by (auto simp: hkeys_def)
  have g: "hkeys key (filter (\<lambda>x. key x \<notin> A) s) = hkeys key s - A" for key :: "'x \<Rightarrow> 'k" and A s
    by (auto simp: hkeys_def)
  show "hkeys p_hash (surviving_produces e) = hkeys p_hash (produces_created_and_not_destroyed e)"
    unfolding created_keys surviving_produces_def hset_contains_iff hkeys_simps f g by blast
  show "set (surviving_consumes e) = set (consumes_created_and_not_destroyed e)"
    unfolding created_keys surviving_consumes_def hset_contains_iff by (simp add: ckey_def set_diff_eq)
qed

lemma surviving_elements: "set (surviving_produces e) \<subseteq> set (produces_linear e @ produces_persistent e)"
  unfolding surviving_produces_def by (simp add: filter_is_subset le_supI1 le_supI2)

lemma cnd_elements: "set (produces_created_and_not_destroyed e) \<subseteq> set (produces_linear e @ produces_persistent e)"
  using hset_elements(4) [of p_hash "hset_union p_hash (hset_difference p_hash (produces_linear e) (produces_consumed e)) (produces_persistent e)"
      "produces_copied_by_peek e"]
    hset_elements(5) [of p_hash "hset_difference p_hash (produces_linear e) (produces_consumed e)" "produces_persistent e"]
    hset_elements(4) [of p_hash "produces_linear e" "produces_consumed e"]
  unfolding produces_created_and_not_destroyed_def Let_def set_append by blast

text \<open>The channels on which the surviving produces and consumes of a log wait.\<close>

definition produce_channels :: "event_log_index \<Rightarrow> bytes set" where
  "produce_channels e = set (map channel_hash (surviving_produces e))"

definition consume_channels :: "event_log_index \<Rightarrow> bytes set" where
  "consume_channels e = set (concat (map channel_hashes (surviving_consumes e)))"

lemma comm_channels_iff:
  assumes "log_wf chan pers l"
  shows "comm_channels l r \<noteq> [] \<longleftrightarrow> produce_channels l \<inter> consume_channels r \<noteq> {}"
proof -
  have wf: "list_all (\<lambda>p. channel_hash p = chan (p_hash p)) (produces_linear l @ produces_persistent l)"
    using assms by (simp add: log_wf_def)
  have "channel_hash ` set (produces_created_and_not_destroyed l) = produce_channels l"
    unfolding produce_channels_def set_map
    using hkeys_by [where key = p_hash and f = channel_hash and g = chan, OF list_all_sub [OF cnd_elements wf]]
      hkeys_by [where key = p_hash and f = channel_hash and g = chan, OF list_all_sub [OF surviving_elements wf]] surviving_keys(1)
    by simp
  moreover have "set (concat (map channel_hashes (consumes_created_and_not_destroyed r))) = consume_channels r"
    by (simp add: consume_channels_def surviving_keys(2))
  ultimately show ?thesis
    unfolding comm_channels_def match_found_def comm_pairs_Nil by blast
qed

lemma hset_extend_Nil: "hset_extend s xs \<noteq> [] \<longleftrightarrow> s \<noteq> [] \<or> xs \<noteq> []"
proof -
  have "set (hset_extend s xs) \<noteq> {} \<longleftrightarrow> set s \<noteq> {} \<or> set xs \<noteq> {}" by simp
  then show ?thesis by (simp only: set_empty)
qed

lemma consume_races_elements: "set (consume_races a b) \<subseteq> set (consumes_produced a @ consumes_produced b)"
proof -
  have "set (shared_races key pers a b ma mb) \<subseteq> set (a @ b)" for key :: "'x \<Rightarrow> 'k" and pers a b ma mb
    using hset_elements(4) [of key "hset_intersection key a b"] hset_elements(6) [of key a b]
    by (auto simp: shared_races_def Let_def)
  then show ?thesis unfolding consume_races_def .
qed

text \<open>The conflicts of two logs, by kind.\<close>

lemma are_conflicting_iff:
  assumes "log_wf chan pers a" "log_wf chan pers b"
  shows "are_conflicting a b \<longleftrightarrow> produce_races a b \<noteq> [] \<or> consume_races a b \<noteq> []
    \<or> (produce_channels a \<inter> consume_channels b \<noteq> {} \<or> produce_channels b \<inter> consume_channels a \<noteq> {})
    \<or> (produces_touching_base_joins a \<noteq> [] \<or> produces_touching_base_joins b \<noteq> [])"
proof -
  have "list_all (\<lambda>c. channel_hashes c \<noteq> []) (consumes_produced a @ consumes_produced b)"
    using assms by (simp add: log_wf_def)
  from concat_map_nonempty [OF list_all_sub [OF consume_races_elements this]]
  have "concat (map channel_hashes (consume_races a b)) \<noteq> [] \<longleftrightarrow> consume_races a b \<noteq> []" .
  then show ?thesis
    unfolding are_conflicting_def conflicts_def Let_def hset_extend_Nil comm_channels_iff [OF assms(1)]
      comm_channels_iff [OF assms(2)] map_is_Nil_conv append_is_Nil_conv
    by blast
qed

subsection \<open>The indexed maps\<close>

lemma race_pairs_logs:
  assumes "list_all (\<lambda>e. list_all (\<lambda>x. pers x = pk (key x)) (des e)) logs"
  shows "(i, j) \<in> set (race_pairs key pers (index_logs key des logs) (index_logs key mer logs)) \<longleftrightarrow> i < j \<and> j < length logs
    \<and> shared_races key pers (des (logs ! i)) (des (logs ! j)) (mer (logs ! i)) (mer (logs ! j)) \<noteq> []"
proof (cases "i < length logs \<and> j < length logs")
  case True
  have "\<forall>(x, s) \<in> set (index_logs key des logs). pers x = pk (key x)"
    using index_logs_elements [of key des logs] assms by (fastforce simp: list_all_iff)
  note iff = race_pairs_iff [OF index_logs_ok index_logs_ok this]
  have "list_all (\<lambda>x. pers x = pk (key x)) (des (logs ! i))" "list_all (\<lambda>x. pers x = pk (key x)) (des (logs ! j))"
    using True assms by (simp_all add: list_all_length)
  from shared_races_iff [where pk = pk and key = key, OF this] True show ?thesis
    unfolding iff index_logs_rel by auto
next
  case False
  have "\<forall>(x, s) \<in> set (index_logs key des logs). pers x = pk (key x)"
    using index_logs_elements [of key des logs] assms by (fastforce simp: list_all_iff)
  from race_pairs_iff [OF index_logs_ok index_logs_ok this] False show ?thesis
    unfolding index_logs_rel by auto
qed

lemma meeting_pairs_logs:
  "(i, j) \<in> set (meeting_pairs key (index_logs key l logs) (index_logs key r logs)) \<longleftrightarrow> i < j \<and> j < length logs
    \<and> (hkeys key (l (logs ! i)) \<inter> hkeys key (r (logs ! j)) \<noteq> {} \<or> hkeys key (l (logs ! j)) \<inter> hkeys key (r (logs ! i)) \<noteq> {})"
  unfolding meeting_pairs_iff [OF index_logs_ok index_logs_ok] index_logs_rel by auto

definition positions_of :: "('e \<Rightarrow> bool) \<Rightarrow> 'e list \<Rightarrow> nat hset" where
  "positions_of P logs = foldl (\<lambda>g (i, e). if P e then hset_insert (\<lambda>n. n) i g else g) [] (enumerate 0 logs)"

lemma set_positions_of: "set (positions_of P logs) = {i. i < length logs \<and> P (logs ! i)}"
proof (induction logs rule: rev_induct)
  case Nil
  show ?case by (simp add: positions_of_def)
next
  case (snoc e logs)
  have "positions_of P (logs @ [e]) = (if P e then hset_insert (\<lambda>n. n) (length logs) (positions_of P logs) else positions_of P logs)"
    by (simp add: positions_of_def enumerate_append_eq)
  then have "set (positions_of P (logs @ [e])) = (if P e then {length logs} else {}) \<union> set (positions_of P logs)" by simp
  also have "\<dots> = {i. i < length (logs @ [e]) \<and> P ((logs @ [e]) ! i)}"
    unfolding snoc by (auto simp: nth_append less_Suc_eq)
  finally show ?case .
qed

text \<open>The indexes that the loop over the logs fills, each on its own.\<close>

lemma conflict_pairs_logs:
  "conflict_pairs logs =
     race_pairs p_hash persistent (index_logs p_hash produces_consumed logs) (index_logs p_hash produces_mergeable logs)
     @ race_pairs ckey c_persistent (index_logs ckey consumes_produced logs) (index_logs ckey consumes_mergeable logs)
     @ meeting_pairs (\<lambda>ch. ch) (index_logs (\<lambda>ch. ch) (\<lambda>e. map channel_hash (surviving_produces e)) logs)
         (index_logs (\<lambda>ch. ch) (\<lambda>e. concat (map channel_hashes (surviving_consumes e))) logs)
     @ global_pairs (length logs) (positions_of (\<lambda>e. produces_touching_base_joins e \<noteq> []) logs)"
proof -
  let ?ci = "foldl (\<lambda>ci (idx, e). index_conflicts idx e ci) empty_conflict_indexes (enumerate 0 logs)"
  have "produces_consumed_by_branches ?ci = index_logs p_hash produces_consumed logs"
    unfolding index_logs_def by (subst foldl_proj [where sel = produces_consumed_by_branches]) (simp_all add: index_conflicts_def empty_conflict_indexes_def)
  moreover have "produces_mergeable_by_branches ?ci = index_logs p_hash produces_mergeable logs"
    unfolding index_logs_def by (subst foldl_proj [where sel = produces_mergeable_by_branches]) (simp_all add: index_conflicts_def empty_conflict_indexes_def)
  moreover have "consumes_produced_by_branches ?ci = index_logs ckey consumes_produced logs"
    unfolding index_logs_def by (subst foldl_proj [where sel = consumes_produced_by_branches]) (simp_all add: index_conflicts_def empty_conflict_indexes_def)
  moreover have "consumes_mergeable_by_branches ?ci = index_logs ckey consumes_mergeable logs"
    unfolding index_logs_def by (subst foldl_proj [where sel = consumes_mergeable_by_branches]) (simp_all add: index_conflicts_def empty_conflict_indexes_def)
  moreover have "unconsumed_produces_by_channel ?ci = index_logs (\<lambda>ch. ch) (\<lambda>e. map channel_hash (surviving_produces e)) logs"
    unfolding index_logs_def by (subst foldl_proj [where sel = unconsumed_produces_by_channel]) (simp_all add: index_conflicts_def empty_conflict_indexes_def)
  moreover have "unconsumed_consumes_by_channel ?ci = index_logs (\<lambda>ch. ch) (\<lambda>e. concat (map channel_hashes (surviving_consumes e))) logs"
    unfolding index_logs_def by (subst foldl_proj [where sel = unconsumed_consumes_by_channel]) (simp_all add: index_conflicts_def empty_conflict_indexes_def)
  moreover have "global_branches ?ci = positions_of (\<lambda>e. produces_touching_base_joins e \<noteq> []) logs"
    unfolding positions_of_def by (subst foldl_proj [where sel = global_branches]) (simp_all add: index_conflicts_def empty_conflict_indexes_def)
  ultimately show ?thesis unfolding conflict_pairs_def Let_def by (simp only:)
qed

lemma conflict_pairs_iff:
  assumes "list_all (log_wf chan pers) logs"
  shows "set (conflict_pairs logs) = {(i, j). i < j \<and> j < length logs \<and> are_conflicting (logs ! i) (logs ! j)}"
proof -
  have P: "list_all (\<lambda>e. list_all (\<lambda>p. persistent p = pers (p_hash p)) (produces_consumed e)) logs"
    using assms unfolding list_all_length log_wf_def by blast
  have C: "list_all (\<lambda>e. list_all (\<lambda>c. c_persistent c = c_persistent (ckey c)) (consumes_produced e)) logs"
    by (simp add: list_all_length ckey_def)
  have g: "set (positions_of (\<lambda>e. produces_touching_base_joins e \<noteq> []) logs) \<subseteq> {..<length logs}"
    unfolding set_positions_of by blast
  have "(i, j) \<in> set (conflict_pairs logs) \<longleftrightarrow> i < j \<and> j < length logs \<and> are_conflicting (logs ! i) (logs ! j)" for i j
  proof (cases "i < j \<and> j < length logs")
    case True
    then have "log_wf chan pers (logs ! i)" "log_wf chan pers (logs ! j)"
      using assms by (simp_all add: list_all_length)
    note conf = are_conflicting_iff [OF this]
    show ?thesis
      unfolding conflict_pairs_logs set_append Un_iff race_pairs_logs [where key = p_hash and pk = pers, OF P]
        race_pairs_logs [where key = ckey and pk = c_persistent, OF C] meeting_pairs_logs global_pairs_iff [OF g] set_positions_of mem_Collect_eq
        conf produce_races_def consume_races_def produce_channels_def consume_channels_def
      using True by (simp add: hkeys_def)
  next
    case False
    then show ?thesis
      unfolding conflict_pairs_logs set_append Un_iff race_pairs_logs [where key = p_hash and pk = pers, OF P]
        race_pairs_logs [where key = ckey and pk = c_persistent, OF C] meeting_pairs_logs global_pairs_iff [OF g]
      by blast
  qed
  then show ?thesis by auto
qed

text \<open>\<open>are_conflicting\<close> and \<open>conflict_reason\<close> agree, and the relation is symmetric.\<close>

lemma shared_races_sym:
  assumes "list_all (\<lambda>x. pers x = pk (key x)) a" "list_all (\<lambda>x. pers x = pk (key x)) b"
  shows "shared_races key pers a b ma mb \<noteq> [] \<longleftrightarrow> shared_races key pers b a mb ma \<noteq> []"
  unfolding shared_races_iff [where pk = pk and key = key, OF assms] shared_races_iff [where pk = pk and key = key, OF assms(2,1)]
  by blast

lemma are_conflicting_sym:
  assumes "log_wf chan pers a" "log_wf chan pers b"
  shows "are_conflicting a b = are_conflicting b a"
proof -
  have p: "produce_races a b \<noteq> [] \<longleftrightarrow> produce_races b a \<noteq> []"
    unfolding produce_races_def by (rule shared_races_sym [where pk = pers]) (use assms in \<open>simp_all add: log_wf_def\<close>)
  have c: "consume_races a b \<noteq> [] \<longleftrightarrow> consume_races b a \<noteq> []"
    unfolding consume_races_def by (rule shared_races_sym [where pk = c_persistent]) (simp_all add: ckey_def list_all_length)
  show ?thesis
    unfolding are_conflicting_iff [OF assms] are_conflicting_iff [OF assms(2,1)] p c by blast
qed

subsection \<open>Dependencies\<close>

lemma depend_pairs_logs:
  "depend_pairs logs =
     meeting_pairs p_hash
       (index_logs p_hash (\<lambda>e. filter (\<lambda>p. \<not> hset_contains p_hash (produces_mergeable e) p) (surviving_produces e)) logs)
       (index_logs p_hash produces_consumed logs)
     @ meeting_pairs ckey (index_logs ckey surviving_consumes logs) (index_logs ckey consumes_produced logs)"
proof -
  let ?di = "foldl (\<lambda>di (idx, e). index_depends idx e di) empty_depend_indexes (enumerate 0 logs)"
  have "produce_source_branches ?di =
      index_logs p_hash (\<lambda>e. filter (\<lambda>p. \<not> hset_contains p_hash (produces_mergeable e) p) (surviving_produces e)) logs"
    unfolding index_logs_def by (subst foldl_proj [where sel = produce_source_branches]) (simp_all add: index_depends_def empty_depend_indexes_def)
  moreover have "produce_target_branches ?di = index_logs p_hash produces_consumed logs"
    unfolding index_logs_def by (subst foldl_proj [where sel = produce_target_branches]) (simp_all add: index_depends_def empty_depend_indexes_def)
  moreover have "consume_source_branches ?di = index_logs ckey surviving_consumes logs"
    unfolding index_logs_def by (subst foldl_proj [where sel = consume_source_branches]) (simp_all add: index_depends_def empty_depend_indexes_def)
  moreover have "consume_target_branches ?di = index_logs ckey consumes_produced logs"
    unfolding index_logs_def by (subst foldl_proj [where sel = consume_target_branches]) (simp_all add: index_depends_def empty_depend_indexes_def)
  ultimately show ?thesis unfolding depend_pairs_def Let_def by (simp only:)
qed

lemma depends_iff:
  "depends target source \<longleftrightarrow>
     hkeys p_hash (filter (\<lambda>p. \<not> hset_contains p_hash (produces_mergeable source) p) (surviving_produces source))
       \<inter> hkeys p_hash (produces_consumed target) \<noteq> {}
     \<or> hkeys ckey (surviving_consumes source) \<inter> hkeys ckey (consumes_produced target) \<noteq> {}"
proof -
  have f: "hkeys key (filter (\<lambda>x. key x \<notin> A) s) = hkeys key s - A" for key :: "'x \<Rightarrow> 'k" and A s
    by (auto simp: hkeys_def)
  have ne: "s \<noteq> [] \<longleftrightarrow> hkeys key s \<noteq> {}" for s and key :: "'x \<Rightarrow> 'k"
    by (simp add: hkeys_empty_iff)
  have d: "(A - M) \<inter> (B - M) \<noteq> {} \<longleftrightarrow> (A - M) \<inter> B \<noteq> {}" for A B M :: "'x set" by blast
  have "depends target source \<longleftrightarrow>
      (hkeys p_hash (produces_created_and_not_destroyed source) - hkeys p_hash (produces_mergeable source))
        \<inter> (hkeys p_hash (produces_consumed target) - hkeys p_hash (produces_mergeable source)) \<noteq> {}
      \<or> hkeys ckey (consumes_created_and_not_destroyed source) \<inter> hkeys ckey (consumes_produced target) \<noteq> {}"
    unfolding depends_def Let_def ne [of _ p_hash] ne [of _ ckey] hkeys_intersection hkeys_difference by (rule refl)
  then show ?thesis
    unfolding hset_contains_iff f d surviving_keys(1) hkeys_ckey surviving_keys(2) .
qed

lemma depend_pairs_iff:
  "set (depend_pairs logs) = {(i, j). i < j \<and> j < length logs \<and> (depends (logs ! i) (logs ! j) \<or> depends (logs ! j) (logs ! i))}"
proof -
  have "(i, j) \<in> set (depend_pairs logs) \<longleftrightarrow> i < j \<and> j < length logs \<and> (depends (logs ! i) (logs ! j) \<or> depends (logs ! j) (logs ! i))" for i j
    unfolding depend_pairs_logs set_append Un_iff meeting_pairs_logs depends_iff by blast
  then show ?thesis by auto
qed

lemma conflict_reason_iff:
  assumes "log_wf chan pers a" "log_wf chan pers b"
  shows "conflict_reason a b \<noteq> None \<longleftrightarrow> are_conflicting a b"
proof -
  have "conflict_reason a b \<noteq> None \<longleftrightarrow> (consume_races a b \<noteq> [] \<or> produce_races a b \<noteq> [])
      \<or> (comm_channels a b \<noteq> [] \<or> comm_channels b a \<noteq> [])
      \<or> (produces_touching_base_joins a \<noteq> [] \<or> produces_touching_base_joins b \<noteq> [])"
    unfolding conflict_reason_def Let_def by simp
  then show ?thesis
    unfolding are_conflicting_iff [OF assms] comm_channels_iff [OF assms(1)] comm_channels_iff [OF assms(2)] by blast
qed

text \<open>The relation that \<open>P\<close> on positions induces on the branches.\<close>

definition position_edges :: "'r list \<Rightarrow> (nat \<Rightarrow> nat \<Rightarrow> bool) \<Rightarrow> ('r \<times> 'r) set" where
  "position_edges branches P =
     {(branches ! i, branches ! j) | i j. i < length branches \<and> j < length branches \<and> i \<noteq> j \<and> P i j}"

lemma position_edges_cong:
  "(\<And>i j. i < length branches \<Longrightarrow> j < length branches \<Longrightarrow> P i j = Q i j) \<Longrightarrow> position_edges branches P = position_edges branches Q"
  unfolding position_edges_def by (rule Collect_cong) blast

lemma position_edges_iff:
  assumes "distinct branches" "i < length branches" "j < length branches"
  shows "(branches ! i, branches ! j) \<in> position_edges branches P \<longleftrightarrow> i \<noteq> j \<and> P i j"
  unfolding position_edges_def using assms by (auto simp: nth_eq_iff_index_eq)

lemma indexed_map:
  assumes "distinct branches" "set pairs = {(i, j). i < j \<and> j < length branches \<and> P i j}"
    and sym: "\<And>i j. i < length branches \<Longrightarrow> j < length branches \<Longrightarrow> P i j = P j i"
  shows "dom (hm_get (if length branches < 2 then init_map branches else mark_pairs branches pairs (init_map branches))) = set branches
    \<and> map_edges (if length branches < 2 then init_map branches else mark_pairs branches pairs (init_map branches)) = position_edges branches P"
proof (cases "length branches < 2")
  case True
  then have "position_edges branches P = {}" by (auto simp: position_edges_def)
  with True show ?thesis by simp
next
  case False
  let ?P = "\<lambda>i j. i < length branches \<and> j < length branches \<and> P i j"
  have "set pairs = {(i, j). i < j \<and> j < length branches \<and> ?P i j}" "\<And>i j. ?P i j = ?P j i"
    using assms(2) sym by auto
  note mark_pairs_init [OF assms(1) this]
  moreover have "position_edges branches ?P = position_edges branches P" by (rule position_edges_cong) simp
  ultimately show ?thesis using False by (simp add: position_edges_def [symmetric])
qed

subsection \<open>Properties of the relation maps\<close>

text \<open>Three logs: a waiting produce, a consume waiting on its channel, and a log that consumed the produce.\<close>

definition demo_logs :: "event_log_index list" where
  "demo_logs =
     [empty_index\<lparr>produces_linear := [produce_new [1] [2] False]\<rparr>,
      empty_index\<lparr>consumes_linear_and_peeks := [\<lparr>channel_hashes = [[1]], c_hash = [3], c_persistent = False\<rparr>]\<rparr>,
      empty_index\<lparr>produces_consumed := [produce_new [1] [2] False]\<rparr>]"

lemma conflict_map_edges:
  assumes "distinct branches" "length logs = length branches" "list_all (log_wf chan pers) logs"
  shows "\<exists>m. compute_conflict_map_event_indexed branches logs = Inr m \<and> dom (hm_get m) = set branches
    \<and> map_edges m = position_edges branches (\<lambda>i j. are_conflicting (logs ! i) (logs ! j))
    \<and> map_edges m = position_edges branches (\<lambda>i j. conflict_reason (logs ! i) (logs ! j) \<noteq> None)"
proof -
  let ?m = "if length branches < 2 then init_map branches else mark_pairs branches (conflict_pairs logs) (init_map branches)"
  have wf: "i < length branches \<Longrightarrow> log_wf chan pers (logs ! i)" for i
    using assms(2,3) by (simp add: list_all_length)
  have pairs: "set (conflict_pairs logs) = {(i, j). i < j \<and> j < length branches \<and> are_conflicting (logs ! i) (logs ! j)}"
    using conflict_pairs_iff [OF assms(3)] assms(2) by simp
  have map: "dom (hm_get ?m) = set branches \<and> map_edges ?m = position_edges branches (\<lambda>i j. are_conflicting (logs ! i) (logs ! j))"
    by (rule indexed_map [OF assms(1) pairs are_conflicting_sym [OF wf wf]])
  have eq: "position_edges branches (\<lambda>i j. are_conflicting (logs ! i) (logs ! j)) =
      position_edges branches (\<lambda>i j. conflict_reason (logs ! i) (logs ! j) \<noteq> None)"
    by (rule position_edges_cong) (rule conflict_reason_iff [OF wf wf, symmetric])
  have "compute_conflict_map_event_indexed branches logs = Inr ?m"
    using assms(2) by (simp add: compute_conflict_map_event_indexed_def)
  then show ?thesis
    by (intro exI [of _ ?m] conjI map [THEN conjunct1] map [THEN conjunct2] trans [OF map [THEN conjunct2] eq])
qed

text \<open>C23. The inverted indexes find exactly the conflicts: the map built from them has the branches as keys, and relates two
  branches exactly when their logs are in conflict; \<open>conflict_reason\<close> names a reason exactly for these.\<close>

theorem conflict_map_correct:
  assumes "distinct branches" "length logs = length branches" "list_all (log_wf chan pers) logs"
  shows "\<exists>m. compute_conflict_map_event_indexed branches logs = Inr m \<and> dom (hm_get m) = set branches
    \<and> map_edges m = position_edges branches (\<lambda>i j. are_conflicting (logs ! i) (logs ! j))
    \<and> map_edges m = position_edges branches (\<lambda>i j. conflict_reason (logs ! i) (logs ! j) \<noteq> None)"
  by (rule conflict_map_edges [OF assms])

theorem conflict_map_correct_witness:
  "\<exists>m. compute_conflict_map_event_indexed [0 :: nat, 1, 2] demo_logs = (Inr m :: (history_error, _) res) \<and> (0, 1) \<in> map_edges m \<and> (0, 2) \<notin> map_edges m"
proof -
  have wf: "list_all (log_wf (\<lambda>_. [1]) (\<lambda>_. False)) demo_logs" by code_simp
  have len: "length demo_logs = length [0 :: nat, 1, 2]" by (simp add: demo_logs_def)
  have c: "are_conflicting (demo_logs ! 0) (demo_logs ! 1)" "\<not> are_conflicting (demo_logs ! 0) (demo_logs ! 2)" by code_simp+
  obtain m where m: "compute_conflict_map_event_indexed [0 :: nat, 1, 2] demo_logs = (Inr m :: (history_error, _) res)"
      "map_edges m = position_edges [0 :: nat, 1, 2] (\<lambda>i j. are_conflicting (demo_logs ! i) (demo_logs ! j))"
    using conflict_map_correct [of "[0 :: nat, 1, 2]" demo_logs, OF _ len wf] by auto
  then have "(0, 1) \<in> map_edges m" "(0, 2) \<notin> map_edges m"
    using c position_edges_iff [of "[0 :: nat, 1, 2]" 0 1] position_edges_iff [of "[0 :: nat, 1, 2]" 0 2] by simp_all
  with m(1) show ?thesis by blast
qed

lemma depends_map_edges:
  assumes "distinct branches" "length logs = length branches"
  shows "\<exists>m. compute_depends_map_event_indexed branches logs = Inr m \<and> dom (hm_get m) = set branches
    \<and> map_edges m = position_edges branches (\<lambda>i j. depends (logs ! i) (logs ! j) \<or> depends (logs ! j) (logs ! i))"
proof -
  let ?m = "if length branches < 2 then init_map branches else mark_pairs branches (depend_pairs logs) (init_map branches)"
  have pairs: "set (depend_pairs logs) = {(i, j). i < j \<and> j < length branches \<and>
      (depends (logs ! i) (logs ! j) \<or> depends (logs ! j) (logs ! i))}"
    using depend_pairs_iff [of logs] assms(2) by simp
  have map: "dom (hm_get ?m) = set branches
      \<and> map_edges ?m = position_edges branches (\<lambda>i j. depends (logs ! i) (logs ! j) \<or> depends (logs ! j) (logs ! i))"
    by (rule indexed_map [OF assms(1) pairs disj_commute])
  have "compute_depends_map_event_indexed branches logs = Inr ?m"
    using assms(2) by (simp add: compute_depends_map_event_indexed_def)
  then show ?thesis by (intro exI [of _ ?m] conjI map [THEN conjunct1] map [THEN conjunct2])
qed

text \<open>C25. The dependency map relates two branches exactly when one of them depends on the other.\<close>

theorem depends_map_correct:
  assumes "distinct branches" "length logs = length branches"
  shows "\<exists>m. compute_depends_map_event_indexed branches logs = Inr m \<and> dom (hm_get m) = set branches
    \<and> map_edges m = position_edges branches (\<lambda>i j. depends (logs ! i) (logs ! j) \<or> depends (logs ! j) (logs ! i))"
  by (rule depends_map_edges [OF assms])

theorem depends_map_correct_witness:
  "\<exists>m. compute_depends_map_event_indexed [0 :: nat, 1, 2] demo_logs = (Inr m :: (history_error, _) res) \<and> (2, 0) \<in> map_edges m \<and> (0, 1) \<notin> map_edges m"
proof -
  have c: "depends (demo_logs ! 2) (demo_logs ! 0)" "\<not> depends (demo_logs ! 0) (demo_logs ! 1)" "\<not> depends (demo_logs ! 1) (demo_logs ! 0)"
    by code_simp+
  have len: "length demo_logs = length [0 :: nat, 1, 2]" by (simp add: demo_logs_def)
  obtain m where m: "compute_depends_map_event_indexed [0 :: nat, 1, 2] demo_logs = (Inr m :: (history_error, _) res)"
      "map_edges m = position_edges [0 :: nat, 1, 2]
        (\<lambda>i j. depends (demo_logs ! i) (demo_logs ! j) \<or> depends (demo_logs ! j) (demo_logs ! i))"
    using depends_map_correct [of "[0 :: nat, 1, 2]" demo_logs, OF _ len] by auto
  then have "(2, 0) \<in> map_edges m" "(0, 1) \<notin> map_edges m"
    using c position_edges_iff [of "[0 :: nat, 1, 2]" 2 0] position_edges_iff [of "[0 :: nat, 1, 2]" 0 1] by simp_all
  with m(1) show ?thesis by blast
qed

end
