(* ===== verification/MergingRejection.thy ===== *)
theory MergingRejection
  imports MergingSpec
begin

section \<open>Related sets and rejection options\<close>

text \<open>
  The related sets of a relation map are the connected components of its graph; the rejection
  options of a conflict map are the minimal vertex covers of its graph, so keeping the rest is
  free of conflicts and no smaller rejection would do.
\<close>

subsection \<open>Related sets\<close>

lemma rtrancl_closed: "E `` S \<subseteq> S \<Longrightarrow> E\<^sup>* `` S \<subseteq> S"
proof
  fix y assume "E `` S \<subseteq> S" "y \<in> E\<^sup>* `` S"
  then obtain x where "(x, y) \<in> E\<^sup>*" "x \<in> S" by blast
  then show "y \<in> S" by (induction rule: rtrancl_induct) (use \<open>E `` S \<subseteq> S\<close> in auto)
qed

lemma hset_extend_distinct: "distinct s \<Longrightarrow> distinct (hset_extend s xs)"
  by (induction xs arbitrary: s) (auto simp: hset_extend_def hset_insert_def)

text \<open>The closure invariant: everything reached from the accumulator is in it or about to be added.\<close>

lemma add_relations_set:
  assumes "map_edges m `` set acc \<subseteq> set acc \<union> set to_add"
  shows "set (add_relations m to_add acc) = set acc \<union> (map_edges m)\<^sup>* `` set to_add"
  using assms
proof (induction m to_add acc rule: add_relations.induct)
  case (1 m to_add acc)
  let ?E = "map_edges m" and ?next = "hset_extend acc to_add"
  let ?n = "new_related m ?next to_add"
  have n: "set ?n = ?E `` set to_add - (set acc \<union> set to_add)" by (auto simp: set_new_related)
  have closed: "?E `` (set acc \<union> set to_add) \<subseteq> set acc \<union> set to_add \<union> set ?n" using 1(2) n by auto
  consider "length ?next = length acc" | "length ?next \<noteq> length acc" "?n = []" | "length ?next \<noteq> length acc" "?n \<noteq> []" by blast
  then show ?case
  proof cases
    case 1
    then have "set to_add \<subseteq> set acc" by (simp add: hset_extend_grows)
    with rtrancl_closed [of ?E "set acc"] \<open>?E `` set acc \<subseteq> set acc \<union> set to_add\<close> have "?E\<^sup>* `` set to_add \<subseteq> set acc" by blast
    with 1 \<open>set to_add \<subseteq> set acc\<close> show ?thesis by (subst add_relations.simps) auto
  next
    case 2
    with rtrancl_closed [OF closed [unfolded 2(2), simplified]] have "?E\<^sup>* `` set to_add \<subseteq> set acc \<union> set to_add" by blast
    with 2 show ?thesis by (subst add_relations.simps) auto
  next
    case 3
    have IH: "set (add_relations m ?n ?next) = set ?next \<union> ?E\<^sup>* `` set ?n"
      by (rule 1(1) [OF refl 3(1) refl 3(2)]) (use closed in simp)
    have "?E\<^sup>* `` set to_add \<subseteq> set acc \<union> set to_add \<union> ?E\<^sup>* `` set ?n"
    proof
      fix y assume "y \<in> ?E\<^sup>* `` set to_add"
      then obtain x where "(x, y) \<in> ?E\<^sup>*" "x \<in> set to_add" by blast
      then show "y \<in> set acc \<union> set to_add \<union> ?E\<^sup>* `` set ?n"
      proof (induction rule: rtrancl_induct)
        case (step y z)
        then consider "y \<in> set acc \<union> set to_add" | "y \<in> ?E\<^sup>* `` set ?n" by blast
        then show ?case using closed step(2) by cases (blast intro: rtrancl_into_rtrancl)+
      qed simp
    qed
    moreover have "?E\<^sup>* `` set ?n \<subseteq> ?E\<^sup>* `` set to_add"
      using n by (auto intro: converse_rtrancl_into_rtrancl)
    moreover have "add_relations m to_add acc = add_relations m ?n ?next"
      using 3 by (subst add_relations.simps) (simp add: Let_def)
    ultimately show ?thesis using IH by auto
  qed
qed

lemma add_relations_distinct: "distinct acc \<Longrightarrow> distinct (add_relations m to_add acc)"
proof (induction m to_add acc rule: add_relations.induct)
  case (1 m to_add acc)
  then show ?case
    by (subst add_relations.simps) (simp add: Let_def hset_extend_distinct)
qed

lemma component_of:
  assumes "hm_get m k = Some s"
  shows "set (add_relations m s [k]) = (map_edges m)\<^sup>* `` {k}"
proof -
  have s: "map_edges m `` {k} = set s" using assms by (auto simp: map_edges_def)
  then have "set (add_relations m s [k]) = {k} \<union> (map_edges m)\<^sup>* `` (map_edges m `` {k})"
    by (subst add_relations_set) auto
  also have "\<dots> = (map_edges m)\<^sup>* `` {k}"
    by (auto intro: converse_rtrancl_into_rtrancl elim: converse_rtranclE)
  finally show ?thesis .
qed

text \<open>The loop over the keys: the components found so far, without repetition.\<close>

definition gather_inv :: "'a relation_map \<Rightarrow> 'a list \<Rightarrow> 'a list \<Rightarrow> 'a list list \<Rightarrow> bool" where
  "gather_inv m ks p r \<longleftrightarrow> set p = \<Union> (set ` set r) \<and> set ` set r = (\<lambda>k. (map_edges m)\<^sup>* `` {k}) ` set ks
     \<and> list_all distinct r \<and> distinct (map set r)"

lemma component_eq: "sym E \<Longrightarrow> k' \<in> E\<^sup>* `` {k} \<Longrightarrow> E\<^sup>* `` {k'} = E\<^sup>* `` {k}"
  using symD [OF sym_rtrancl [of E]] by (auto intro: rtrancl_trans)

lemma gather_inv_skip:
  assumes "sym (map_edges m)" "gather_inv m ks p r" "k \<in> set p"
  shows "gather_inv m (ks @ [k]) p r"
proof -
  obtain k' where k': "k' \<in> set ks" "k \<in> (map_edges m)\<^sup>* `` {k'}"
    using assms(2,3) unfolding gather_inv_def by auto
  with component_eq [OF assms(1) k'(2)] have "(map_edges m)\<^sup>* `` {k} \<in> (\<lambda>k. (map_edges m)\<^sup>* `` {k}) ` set ks" by simp
  with assms(2) show ?thesis by (simp add: gather_inv_def insert_absorb)
qed

lemma gather_inv_add:
  assumes "gather_inv m ks p r" "k \<notin> set p" "hm_get m k = Some s"
  shows "gather_inv m (ks @ [k]) (hset_extend p (add_relations m s [k])) (hset_insert set (add_relations m s [k]) r)"
proof -
  let ?c = "add_relations m s [k]"
  have c: "set ?c = (map_edges m)\<^sup>* `` {k}" "distinct ?c" by (rule component_of [OF assms(3)]) (rule add_relations_distinct, simp)
  have new: "set ?c \<notin> set ` set r" using assms(1,2) c(1) by (auto simp: gather_inv_def)
  then have "hset_insert set ?c r = r @ [?c]" by (auto simp: hset_insert_def hkeys_def)
  with assms(1) c new show ?thesis by (auto simp: gather_inv_def)
qed

lemma gather_related_sets_set:
  assumes sym: "sym (map_edges m)"
  shows "\<exists>p. gather_inv m (hm_keys m) p (gather_related_sets m)"
proof -
  let ?step = "\<lambda>(processed, result) k. if k \<in> set processed then (processed, result)
       else let component = add_relations m (the (hm_get m k)) [k] in (hset_extend processed component, hset_insert set component result)"
  have "\<exists>p r. foldl ?step ([], []) ks = (p, r) \<and> gather_inv m ks p r" if "set ks \<subseteq> dom (hm_get m)" for ks
    using that
  proof (induction ks rule: rev_induct)
    case Nil
    show ?case by (simp add: gather_inv_def)
  next
    case (snoc k ks)
    then obtain p r where pr: "foldl ?step ([], []) ks = (p, r)" "gather_inv m ks p r" by auto
    obtain s where s: "hm_get m k = Some s" using snoc.prems by auto
    show ?case
      using gather_inv_skip [OF sym pr(2), of k] gather_inv_add [OF pr(2) _ s]
      unfolding foldl_append pr(1) by (simp add: s Let_def)
  qed
  from this [of "hm_keys m"] show ?thesis
    by (auto simp: gather_related_sets_def dom_map_of_conv_image_fst)
qed

subsection \<open>Vertex covers\<close>

definition vertex_cover :: "('a \<times> 'a) set \<Rightarrow> 'a set \<Rightarrow> bool" where
  "vertex_cover E C \<longleftrightarrow> (\<forall>a b. (a, b) \<in> E \<longrightarrow> a \<in> C \<or> b \<in> C)"

definition minimal_cover :: "('a \<times> 'a) set \<Rightarrow> 'a set \<Rightarrow> bool" where
  "minimal_cover E C \<longleftrightarrow> vertex_cover E C \<and> (\<forall>C'. C' \<subset> C \<longrightarrow> \<not> vertex_cover E C')"

lemma minimal_cover_iff:
  assumes "sym E" "irrefl E"
  shows "minimal_cover E C \<longleftrightarrow> vertex_cover E C \<and> (\<forall>r \<in> C. \<exists>n. (r, n) \<in> E \<and> n \<notin> C)"
proof
  assume m: "minimal_cover E C"
  have "\<exists>n. (r, n) \<in> E \<and> n \<notin> C" if r: "r \<in> C" for r
  proof -
    have "\<not> vertex_cover E (C - {r})" "vertex_cover E C" using m r by (auto simp: minimal_cover_def)
    then obtain a b where "(a, b) \<in> E" "a \<notin> C - {r}" "b \<notin> C - {r}" "a \<in> C \<or> b \<in> C"
      unfolding vertex_cover_def by blast
    then show ?thesis using assms by (auto simp: irrefl_def dest: symD)
  qed
  with m show "vertex_cover E C \<and> (\<forall>r \<in> C. \<exists>n. (r, n) \<in> E \<and> n \<notin> C)" by (auto simp: minimal_cover_def)
next
  assume c: "vertex_cover E C \<and> (\<forall>r \<in> C. \<exists>n. (r, n) \<in> E \<and> n \<notin> C)"
  have "\<not> vertex_cover E C'" if "C' \<subset> C" for C'
  proof -
    obtain r where "r \<in> C" "r \<notin> C'" using \<open>C' \<subset> C\<close> by blast
    then show ?thesis using c \<open>C' \<subset> C\<close> unfolding vertex_cover_def by blast
  qed
  with c show "minimal_cover E C" by (simp add: minimal_cover_def)
qed

text \<open>What is left of the graph after rejecting \<open>R\<close>.\<close>

definition remains :: "('a \<times> 'a) set \<Rightarrow> 'a set \<Rightarrow> 'a relation_map \<Rightarrow> bool" where
  "remains E R m \<longleftrightarrow> hm_ok m \<and> (\<forall>k s. (k, s) \<in> set m \<longrightarrow> distinct s \<and> set s = E `` {k} - R \<and> s \<noteq> [] \<and> k \<notin> R)
     \<and> (\<forall>k. k \<notin> R \<longrightarrow> \<not> E `` {k} \<subseteq> R \<longrightarrow> k \<in> fst ` set m)"

lemma reject_items_mem:
  "(k, s) \<in> set (reject_items T m) \<longleftrightarrow> (\<exists>c. (k, c) \<in> set m \<and> k \<notin> set T \<and> s = filter (\<lambda>x. x \<notin> set T) c \<and> s \<noteq> [])"
  unfolding reject_items_def by (induction m) (auto simp: List.map_filter_simps Let_def split: option.splits if_splits)

lemma reject_items_keys: "hm_ok m \<Longrightarrow> hm_ok (reject_items T m)"
proof (induction m)
  case Nil
  show ?case by (simp add: reject_items_def List.map_filter_simps hm_ok_def)
next
  case (Cons e m)
  obtain k c where e: "e = (k, c)" by (cases e)
  have "k \<notin> fst ` set (reject_items T m)"
    using Cons.prems reject_items_mem [of k _ T m] by (force simp: e hm_ok_def)
  with Cons show ?case
    by (simp add: e hm_ok_def reject_items_def List.map_filter_simps Let_def)
qed

lemma remains_reject:
  assumes "remains E R m" "(k, t) \<in> set m"
  shows "remains E (R \<union> E `` {k}) (reject_items t m)"
proof -
  have t: "set t = E `` {k} - R" using assms by (auto simp: remains_def)
  have "distinct s \<and> set s = E `` {j} - (R \<union> E `` {k}) \<and> s \<noteq> [] \<and> j \<notin> R \<union> E `` {k}" if mem: "(j, s) \<in> set (reject_items t m)" for j s
  proof -
    obtain c where c: "(j, c) \<in> set m" "j \<notin> set t" "s = filter (\<lambda>x. x \<notin> set t) c" "s \<noteq> []"
      using mem unfolding reject_items_mem by blast
    then have "distinct c" "set c = E `` {j} - R" "j \<notin> R" using assms(1) unfolding remains_def by blast+
    with c t show ?thesis by auto
  qed
  moreover have "j \<in> fst ` set (reject_items t m)" if j: "j \<notin> R \<union> E `` {k}" "\<not> E `` {j} \<subseteq> R \<union> E `` {k}" for j
  proof -
    obtain c where c: "(j, c) \<in> set m" using j assms(1) by (force simp: remains_def)
    then have "set c = E `` {j} - R" using assms(1) unfolding remains_def by blast
    then have "filter (\<lambda>x. x \<notin> set t) c \<noteq> []" using j t by (auto simp: filter_empty_conv)
    then have "(j, filter (\<lambda>x. x \<notin> set t) c) \<in> set (reject_items t m)" using c j t by (auto simp: reject_items_mem)
    then show ?thesis by force
  qed
  moreover have "hm_ok m" using assms(1) by (simp add: remains_def)
  ultimately show ?thesis unfolding remains_def by (simp add: reject_items_keys)
qed

text \<open>The rejected set is the neighbourhood of an independent kept set.\<close>

definition neighbourhood :: "('a \<times> 'a) set \<Rightarrow> 'a set \<Rightarrow> bool" where
  "neighbourhood E R \<longleftrightarrow> (\<exists>K. R = E `` K \<and> K \<inter> R = {})"

lemma neighbourhood_extend:
  assumes "sym E" "irrefl E" "neighbourhood E R" "k \<notin> R"
  shows "neighbourhood E (R \<union> E `` {k})"
proof -
  obtain K where K: "R = E `` K" "K \<inter> R = {}" using assms(3) by (auto simp: neighbourhood_def)
  have "insert k K \<inter> E `` insert k K = {}"
    using K assms(2,4) by (auto simp: irrefl_def dest: symD [OF assms(1)])
  moreover have "R \<union> E `` {k} = E `` insert k K" using K by auto
  ultimately show ?thesis by (metis neighbourhood_def)
qed

lemma covered:
  assumes "sym E" "irrefl E" "neighbourhood E R" "remains E R []"
  shows "minimal_cover E R"
proof -
  obtain K where K: "R = E `` K" "K \<inter> R = {}" using assms(3) by (auto simp: neighbourhood_def)
  have "vertex_cover E R" using assms(4) by (auto simp: vertex_cover_def remains_def)
  moreover have "\<exists>n. (r, n) \<in> E \<and> n \<notin> R" if "r \<in> R" for r
    using that K by (auto dest: symD [OF assms(1)])
  ultimately show ?thesis by (simp add: minimal_cover_iff [OF assms(1,2)])
qed

text \<open>A rejection inside a minimal cover can always be extended inside it.\<close>

lemma cover_step:
  assumes "sym E" "irrefl E" "minimal_cover E C" "R \<subseteq> C" "remains E R m" "m \<noteq> []"
  shows "\<exists>k t. (k, t) \<in> set m \<and> R \<union> E `` {k} \<subseteq> C"
proof -
  have C: "vertex_cover E C" "\<And>r. r \<in> C \<Longrightarrow> \<exists>n. (r, n) \<in> E \<and> n \<notin> C"
    using assms(3) by (auto simp: minimal_cover_iff [OF assms(1,2)])
  obtain j s where j: "(j, s) \<in> set m" using assms(6) by (cases m) auto
  then have s: "set s = E `` {j} - R" "s \<noteq> []" "j \<notin> R" using assms(5) unfolding remains_def by blast+
  then obtain l where l: "(j, l) \<in> E" "l \<notin> R" by (cases s) auto
  obtain k k' where k: "(k, k') \<in> E" "k \<notin> C" "k' \<notin> R"
  proof (cases "j \<in> C")
    case True
    then obtain n where "(j, n) \<in> E" "n \<notin> C" using C(2) by blast
    then show ?thesis using that s(3) symD [OF assms(1)] by blast
  next
    case False
    then show ?thesis using that l by blast
  qed
  then have "k \<notin> R" "\<not> E `` {k} \<subseteq> R" using assms(4) by auto
  then have "k \<in> fst ` set m" using assms(5) by (auto simp: remains_def)
  then obtain t where "(k, t) \<in> set m" by force
  moreover have "E `` {k} \<subseteq> C" using C(1) k(2) by (auto simp: vertex_cover_def)
  ultimately show ?thesis using assms(4) by blast
qed

lemma cover_unique:
  assumes "sym E" "irrefl E" "minimal_cover E C" "R \<subseteq> C" "remains E R []"
  shows "R = C"
proof -
  have "vertex_cover E R" using assms(5) by (auto simp: vertex_cover_def remains_def)
  with assms(3,4) show ?thesis unfolding minimal_cover_def by blast
qed

subsection \<open>The search for rejection options\<close>

definition option_ok :: "('a \<times> 'a) set \<Rightarrow> 'a rejection_option \<Rightarrow> bool" where
  "option_ok E opt \<longleftrightarrow> remains E (option_key opt) (remaining_conflicts_map opt) \<and> distinct (rejected_so_far opt)
     \<and> neighbourhood E (option_key opt)"

lemma fold_insert:
  "hkeys key (foldl (\<lambda>s x. hset_insert key (f x) s) s xs) = hkeys key s \<union> (\<lambda>x. key (f x)) ` set xs"
  "list_all P s \<Longrightarrow> list_all (\<lambda>x. P (f x)) xs \<Longrightarrow> list_all P (foldl (\<lambda>s x. hset_insert key (f x) s) s xs)"
proof -
  show "hkeys key (foldl (\<lambda>s x. hset_insert key (f x) s) s xs) = hkeys key s \<union> (\<lambda>x. key (f x)) ` set xs"
    by (induction xs arbitrary: s) auto
  have ins: "list_all P s \<Longrightarrow> P y \<Longrightarrow> list_all P (hset_insert key y s)" for y s
    by (simp add: hset_insert_def)
  show "list_all P s \<Longrightarrow> list_all (\<lambda>x. P (f x)) xs \<Longrightarrow> list_all P (foldl (\<lambda>s x. hset_insert key (f x) s) s xs)"
    by (induction xs arbitrary: s) (auto simp: ins)
qed

lemma list_all_collect: "list_all P xs \<Longrightarrow> list_all P (hset_collect key xs)"
  by (rule list_all_sub [OF hset_elements(2)])

text \<open>The option that keeps \<open>k\<close>, with the earlier rejections.\<close>

lemma option_ok_extend:
  assumes E: "sym E" "irrefl E" and opt: "option_ok E opt" and k: "(k, t) \<in> set (remaining_conflicts_map opt)"
  defines "new \<equiv> \<lparr>rejected_so_far = t, remaining_conflicts_map = reject_items t (remaining_conflicts_map opt)\<rparr>"
  shows "option_key (new\<lparr>rejected_so_far := hset_extend (rejected_so_far new) (rejected_so_far opt)\<rparr>) = option_key opt \<union> E `` {k}
    \<and> option_ok E (new\<lparr>rejected_so_far := hset_extend (rejected_so_far new) (rejected_so_far opt)\<rparr>)"
proof -
  let ?new = "new\<lparr>rejected_so_far := hset_extend (rejected_so_far new) (rejected_so_far opt)\<rparr>"
  have rem: "remains E (option_key opt) (remaining_conflicts_map opt)" using opt by (simp add: option_ok_def)
  then have t: "distinct t" "set t = E `` {k} - option_key opt" "k \<notin> option_key opt"
    using k unfolding remains_def by blast+
  then have key: "option_key ?new = option_key opt \<union> E `` {k}"
    by (auto simp: option_key_def new_def)
  have nb: "neighbourhood E (option_key opt \<union> E `` {k})"
    using neighbourhood_extend [OF E _ t(3)] opt by (simp add: option_ok_def)
  have "option_ok E ?new"
    unfolding option_ok_def key using remains_reject [OF rem k] nb t(1) by (simp add: new_def hset_extend_distinct)
  with key show ?thesis by blast
qed

lemma gather_all:
  assumes "\<And>k t. (k, t) \<in> set m \<Longrightarrow> P \<lparr>rejected_so_far = t, remaining_conflicts_map = reject_items t m\<rparr>"
  shows "list_all P (gather_rej_options m)"
  unfolding gather_rej_options_def by (rule list_all_collect) (use assms in \<open>auto simp: list_all_iff\<close>)

lemma gather_keys: "option_key ` set (gather_rej_options m) = set ` snd ` set m"
proof -
  have "hkeys option_key (gather_rej_options m) = set ` snd ` set m"
    unfolding gather_rej_options_def hkeys_collect
    by (simp add: hkeys_def option_key_def image_image split_beta)
  then show ?thesis by (simp add: hkeys_def)
qed

text \<open>One option processed, for a fixed minimal cover \<open>C\<close>.\<close>

definition search_ok :: "('a \<times> 'a) set \<Rightarrow> 'a rejection_option list \<Rightarrow> 'a list list \<Rightarrow> bool" where
  "search_ok E opts result \<longleftrightarrow> list_all (option_ok E) opts \<and> list_all (\<lambda>r. distinct r \<and> minimal_cover E (set r)) result"

definition search_has :: "'a set \<Rightarrow> 'a rejection_option list \<Rightarrow> 'a list list \<Rightarrow> bool" where
  "search_has C opts result \<longleftrightarrow> (\<exists>R \<in> hkeys option_key opts. R \<subseteq> C) \<or> C \<in> set ` set result"

lemma process_option_ok:
  assumes E: "sym E" "irrefl E" and opt: "option_ok E opt" and st: "search_ok E nxt result"
  shows "search_ok E (fst (process_option opt (nxt, result))) (snd (process_option opt (nxt, result)))"
proof (cases "remaining_conflicts_map opt = []")
  case True
  have "minimal_cover E (set (rejected_so_far opt))" "distinct (rejected_so_far opt)"
    using covered [OF E] opt True by (simp_all add: option_ok_def option_key_def)
  with st True show ?thesis
    by (simp add: process_option_def search_ok_def hset_insert_def)
next
  case False
  have "list_all (option_ok E) (foldl (\<lambda>nxt new_option. hset_insert option_key
        (new_option\<lparr>rejected_so_far := hset_extend (rejected_so_far new_option) (rejected_so_far opt)\<rparr>) nxt) nxt
        (gather_rej_options (remaining_conflicts_map opt)))"
    by (rule fold_insert(2)) (use st option_ok_extend [OF E opt] in \<open>simp_all add: search_ok_def gather_all\<close>)
  with False st show ?thesis by (simp add: process_option_def search_ok_def)
qed

lemma already_exists_iff:
  assumes "distinct r" "list_all distinct result"
  shows "already_exists result r \<longleftrightarrow> set r \<in> set ` set result"
proof -
  have "length x = length r \<and> list_all (\<lambda>item. item \<in> set r) x \<longleftrightarrow> set r = set x" if "x \<in> set result" for x
  proof -
    have "distinct x" using that assms(2) by (simp add: list_all_iff)
    then have "length x = card (set x)" "length r = card (set r)" using assms(1) by (simp_all add: distinct_card)
    then show ?thesis using card_subset_eq [of "set r" "set x"] by (auto simp: list_all_iff subset_iff)
  qed
  then show ?thesis by (auto simp: already_exists_def list_ex_iff)
qed

lemma process_option_result:
  assumes "search_ok E nxt result" "option_ok E opt"
  shows "set ` set (snd (process_option opt (nxt, result))) =
    (if remaining_conflicts_map opt = [] then insert (option_key opt) (set ` set result) else set ` set result)"
proof -
  have "list_all distinct result" "distinct (rejected_so_far opt)"
    using assms by (auto simp: search_ok_def option_ok_def list_all_iff)
  from already_exists_iff [OF this(2,1)] show ?thesis
    by (auto simp: process_option_def option_key_def hset_insert_def hkeys_def)
qed

lemma process_option_keys:
  "hkeys option_key (fst (process_option opt (nxt, result))) = hkeys option_key nxt \<union>
    (if remaining_conflicts_map opt = [] then {} else (\<lambda>t. set t \<union> option_key opt) ` snd ` set (remaining_conflicts_map opt))"
proof -
  have "option_key (x\<lparr>rejected_so_far := hset_extend (rejected_so_far x) (rejected_so_far opt)\<rparr>) = option_key x \<union> option_key opt" for x
    by (simp add: option_key_def)
  then have "(\<lambda>x. option_key (x\<lparr>rejected_so_far := hset_extend (rejected_so_far x) (rejected_so_far opt)\<rparr>)) `
      set (gather_rej_options (remaining_conflicts_map opt)) = (\<lambda>K. K \<union> option_key opt) ` option_key ` set (gather_rej_options (remaining_conflicts_map opt))"
    by (simp add: image_image)
  also have "\<dots> = (\<lambda>t. set t \<union> option_key opt) ` snd ` set (remaining_conflicts_map opt)"
    unfolding gather_keys by (simp add: image_image)
  finally show ?thesis
    by (simp add: process_option_def fold_insert(1))
qed

lemma process_option_has:
  assumes E: "sym E" "irrefl E" "minimal_cover E C" and ok: "search_ok E nxt result" "option_ok E opt"
    and has: "search_has C nxt result \<or> option_key opt \<subseteq> C"
  shows "search_has C (fst (process_option opt (nxt, result))) (snd (process_option opt (nxt, result)))"
proof (cases "search_has C nxt result")
  case True
  then show ?thesis
    unfolding search_has_def process_option_keys process_option_result [OF ok] by auto
next
  case False
  with has have sub: "option_key opt \<subseteq> C" by simp
  have rem: "remains E (option_key opt) (remaining_conflicts_map opt)" using ok(2) by (simp add: option_ok_def)
  show ?thesis
  proof (cases "remaining_conflicts_map opt = []")
    case True
    with cover_unique [OF E sub] rem show ?thesis
      unfolding search_has_def process_option_result [OF ok] by simp
  next
    case False
    obtain k t where k: "(k, t) \<in> set (remaining_conflicts_map opt)" "option_key opt \<union> E `` {k} \<subseteq> C"
      using cover_step [OF E sub rem False] by blast
    then have "set t \<union> option_key opt \<subseteq> C" using rem unfolding remains_def by blast
    moreover have "t \<in> snd ` set (remaining_conflicts_map opt)" using k(1) by force
    ultimately have "\<exists>R \<in> (\<lambda>t. set t \<union> option_key opt) ` snd ` set (remaining_conflicts_map opt). R \<subseteq> C" by blast
    with False show ?thesis
      unfolding search_has_def process_option_keys by (auto simp only: if_False bex_Un)
  qed
qed

lemma process_options_ok:
  assumes E: "sym E" "irrefl E" and "search_ok E nxt result" "list_all (option_ok E) current"
  defines "st \<equiv> foldl (\<lambda>st opt. process_option opt st) (nxt, result) current"
  shows "search_ok E (fst st) (snd st)"
    "minimal_cover E C \<Longrightarrow> search_has C nxt result \<or> (\<exists>R \<in> hkeys option_key current. R \<subseteq> C) \<Longrightarrow> search_has C (fst st) (snd st)"
proof -
  have "search_ok E (fst (foldl (\<lambda>st opt. process_option opt st) (nxt, result) current))
      (snd (foldl (\<lambda>st opt. process_option opt st) (nxt, result) current))
    \<and> (minimal_cover E C \<longrightarrow> search_has C nxt result \<or> (\<exists>R \<in> hkeys option_key current. R \<subseteq> C) \<longrightarrow>
      search_has C (fst (foldl (\<lambda>st opt. process_option opt st) (nxt, result) current))
        (snd (foldl (\<lambda>st opt. process_option opt st) (nxt, result) current)))"
    using assms(3,4)
  proof (induction current arbitrary: nxt result)
    case (Cons opt current)
    obtain nxt' result' where st: "process_option opt (nxt, result) = (nxt', result')" by fastforce
    have opt: "option_ok E opt" and cur: "list_all (option_ok E) current" using Cons.prems(2) by simp_all
    have ok: "search_ok E nxt' result'" using process_option_ok [OF E opt Cons.prems(1)] by (simp add: st)
    have "minimal_cover E C \<Longrightarrow> search_has C nxt result \<or> option_key opt \<subseteq> C \<Longrightarrow> search_has C nxt' result'"
      using process_option_has [OF E _ Cons.prems(1) opt] by (simp add: st)
    with Cons.IH [OF ok cur] show ?case unfolding foldl_Cons st hkeys_simps(2) bex_simps by blast
  qed auto
  then show "search_ok E (fst st) (snd st)"
    "minimal_cover E C \<Longrightarrow> search_has C nxt result \<or> (\<exists>R \<in> hkeys option_key current. R \<subseteq> C) \<Longrightarrow> search_has C (fst st) (snd st)"
    unfolding st_def by blast+
qed

lemma rejection_loop_covers:
  assumes E: "sym E" "irrefl E" and "search_ok E current result"
    and "\<And>C. minimal_cover E C \<Longrightarrow> search_has C current result"
  shows "set ` set (rejection_loop current result) = {C. minimal_cover E C} \<and> list_all distinct (rejection_loop current result)"
  using assms(3,4)
proof (induction current result rule: rejection_loop.induct)
  case (1 current result)
  show ?case
  proof (cases "current = []")
    case True
    then have "rejection_loop current result = result" by (subst rejection_loop.simps) simp
    with 1(2,3) True show ?thesis by (auto simp: search_ok_def search_has_def list_all_iff)
  next
    case False
    let ?st = "foldl (\<lambda>st opt. process_option opt st) ([], result) current"
    have "search_ok E [] result" "list_all (option_ok E) current" using 1(2) by (simp_all add: search_ok_def)
    note st = process_options_ok [OF E this]
    have "search_has C (fst ?st) (snd ?st)" if "minimal_cover E C" for C
      by (rule st(2) [OF that]) (use 1(3) [OF that] in \<open>auto simp: search_has_def\<close>)
    note 1(1) [OF False refl st(1) this]
    moreover have "rejection_loop current result = rejection_loop (fst ?st) (snd ?st)"
      using False by (subst rejection_loop.simps) (simp add: Let_def)
    ultimately show ?thesis by simp
  qed
qed

lemma rejection_options_covers:
  assumes "hm_ok m" "list_all (\<lambda>(_, s). distinct s) m" "sym (map_edges m)" "irrefl (map_edges m)"
  shows "set ` set (compute_rejection_options m) = {C. minimal_cover (map_edges m) C} \<and> list_all distinct (compute_rejection_options m)"
proof -
  let ?m = "filter (\<lambda>(_, s). s \<noteq> []) m"
  let ?start = "\<lparr>rejected_so_far = [], remaining_conflicts_map = ?m\<rparr>"
  have get: "(k, s) \<in> set m \<longleftrightarrow> hm_get m k = Some s" for k s
    using assms(1) by (simp add: hm_ok_def)
  have "remains (map_edges m) {} ?m"
    unfolding remains_def
  proof (intro conjI allI impI)
    show "hm_ok ?m" using assms(1) by (simp add: hm_ok_def distinct_map_filter)
  next
    fix k assume "\<not> map_edges m `` {k} \<subseteq> {}"
    then show "k \<in> fst ` set ?m" by (force simp: map_edges_def get)
  qed (use assms(2) in \<open>auto simp: map_edges_def get list_all_iff\<close>)
  then have ok: "search_ok (map_edges m) [?start] []"
    by (auto simp: search_ok_def option_ok_def option_key_def neighbourhood_def)
  have "search_has C [?start] []" for C by (simp add: search_has_def option_key_def)
  from rejection_loop_covers [OF assms(3,4) ok this] show ?thesis
    by (simp add: compute_rejection_options_def Let_def)
qed

subsection \<open>Properties\<close>

text \<open>The related sets of a symmetric relation map are the connected components of its graph: they cover the keys, each set is
  the set of all items reachable from one of its keys, and no component is listed twice.\<close>

theorem related_sets_correct:
  assumes "sym (map_edges m)"
  shows "set ` set (gather_related_sets m) = (\<lambda>k. (map_edges m)\<^sup>* `` {k}) ` dom (hm_get m)
    \<and> list_all distinct (gather_related_sets m) \<and> distinct (map set (gather_related_sets m))"
  using gather_related_sets_set [OF assms] by (auto simp: gather_inv_def dom_map_of_conv_image_fst)

theorem related_sets_correct_witness:
  "{0 :: nat, 1, 2} \<in> set ` set (gather_related_sets [(0 :: nat, [1 :: nat]), (1, [0, 2]), (2, [1]), (3, [])])"
proof -
  let ?m = "[(0 :: nat, [1 :: nat]), (1, [0, 2]), (2, [1]), (3, [])]"
  have E: "map_edges ?m = {(0, 1), (1, 0), (1, 2), (2, 1)}" by (auto simp: map_edges_def split: if_splits)
  then have "sym (map_edges ?m)" by (auto simp: sym_def)
  note related_sets_correct [OF this]
  moreover have "(map_edges ?m)\<^sup>* `` {0} = {0, 1, 2}"
  proof
    show "(map_edges ?m)\<^sup>* `` {0} \<subseteq> {0, 1, 2}"
      using rtrancl_closed [of "map_edges ?m" "{0, 1, 2}"] unfolding E by blast
    have "(0, 1) \<in> map_edges ?m" "(1, 2) \<in> map_edges ?m" unfolding E by simp_all
    then show "{0, 1, 2} \<subseteq> (map_edges ?m)\<^sup>* `` {0}" by (auto intro: rtrancl_into_rtrancl)
  qed
  moreover have "0 \<in> dom (hm_get ?m)" by (simp add: domIff)
  ultimately show ?thesis by (metis (no_types, lifting) imageI)
qed

text \<open>C24. The rejection options of a conflict map are exactly the minimal vertex covers of the conflict graph: after rejecting an
  option no two kept items are in conflict, every option rejects only what it must, and no such choice is missed.\<close>

theorem rejection_options_correct:
  assumes "hm_ok m" "list_all (\<lambda>(_, s). distinct s) m" "sym (map_edges m)" "irrefl (map_edges m)"
  shows "set ` set (compute_rejection_options m) = {C. minimal_cover (map_edges m) C} \<and> list_all distinct (compute_rejection_options m)"
  by (rule rejection_options_covers [OF assms])

theorem rejection_options_correct_witness:
  "{1 :: nat} \<in> set ` set (compute_rejection_options [(0 :: nat, [1 :: nat]), (1, [0, 2]), (2, [1])])"
proof -
  let ?m = "[(0 :: nat, [1 :: nat]), (1, [0, 2]), (2, [1])]"
  have E: "map_edges ?m = {(0, 1), (1, 0), (1, 2), (2, 1)}" by (auto simp: map_edges_def split: if_splits)
  have cov: "minimal_cover (map_edges ?m) {1}"
    unfolding E minimal_cover_def vertex_cover_def by (auto simp: psubset_eq subset_singleton_iff)
  have m: "hm_ok ?m" "list_all (\<lambda>(_, s). distinct s) ?m" "sym (map_edges ?m)" "irrefl (map_edges ?m)"
    unfolding E by (auto simp: hm_ok_def sym_def irrefl_def)
  show ?thesis
    unfolding rejection_options_correct [OF m, THEN conjunct1] using cov by (rule CollectI)
qed

end
