(* ===== verification/StateChange.thy ===== *)
theory StateChange
  imports EventLogIndex HistoryRepository
begin

section \<open>Changes between two states\<close>

text \<open>
  \<open>ChannelChange\<close> (channel_change.rs), \<open>StateChange\<close> (state_change.rs) and the trie actions that
  merge a change into a base state (state_change_merger.rs), all under rspace++/src/rspace/merger.
  A change says for every touched channel which encoded elements of its leaf were added and which
  were removed, as multisets. The maps are \<open>DashMap\<close>s, here association lists; the parallel loops
  treat every key once, here in the order of the list, and stop at the first failure.
\<close>

subsection \<open>The change of one channel\<close>

record 'v channel_change =
  added :: "'v list"
  removed :: "'v list"

definition change_empty :: "'v channel_change" where
  "change_empty = \<lparr>added = [], removed = []\<rparr>"

definition vec_diff :: "'v list \<Rightarrow> 'v list \<Rightarrow> 'v list" where
  "vec_diff from' to_remove =
     foldl (\<lambda>from' item. case position (\<lambda>x. x = item) from' of Some pos \<Rightarrow> remove_nth pos from' | None \<Rightarrow> from') from' to_remove"

definition change_combine :: "'v channel_change \<Rightarrow> 'v channel_change \<Rightarrow> 'v channel_change" where
  "change_combine self other =
     (let added_only_in_other = vec_diff (added other) (added self);
          removed_only_in_other = vec_diff (removed other) (removed self)
      in \<lparr>added = added self @ added_only_in_other, removed = removed self @ removed_only_in_other\<rparr>)"

text \<open>\<open>StateChange::multiset_diff\<close>: occurrence counts first, then one pass.\<close>

definition remove_counts :: "'v list \<Rightarrow> ('v, nat) hmap" where
  "remove_counts to_remove =
     foldl (\<lambda>m item. hm_put item ((case hm_get m item of Some n \<Rightarrow> n | None \<Rightarrow> 0) + 1) m) [] to_remove"

fun diff_pass :: "('v, nat) hmap \<Rightarrow> 'v list \<Rightarrow> 'v list" where
  "diff_pass counts [] = []"
| "diff_pass counts (item # rest) =
     (case hm_get counts item of
        Some n \<Rightarrow> if n > 0 then diff_pass (hm_put item (n - 1) counts) rest else item # diff_pass counts rest
      | None \<Rightarrow> item # diff_pass counts rest)"

definition multiset_diff :: "'v list \<Rightarrow> 'v list \<Rightarrow> 'v list" where
  "multiset_diff from' to_remove = diff_pass (remove_counts to_remove) from'"

definition compute_value_change ::
  "bytes \<Rightarrow> (bytes \<Rightarrow> (history_error, bytes list) res) \<Rightarrow> (bytes \<Rightarrow> (history_error, bytes list) res) \<Rightarrow>
   (history_error, bytes channel_change) res" where
  "compute_value_change history_pointer start_value end_value =
     rbind (start_value history_pointer) (\<lambda>start.
     rbind (end_value history_pointer) (\<lambda>end'.
       Inr \<lparr>added = multiset_diff end' start, removed = multiset_diff start end'\<rparr>))"

subsection \<open>The change of a state\<close>

record state_change =
  datums_changes :: "(bytes, bytes channel_change) hmap"
  cont_changes :: "(bytes list, bytes channel_change) hmap"
  consume_channels_to_join_serialized_map :: "(bytes list, bytes) hmap"

definition state_change_empty :: state_change where
  "state_change_empty =
     \<lparr>datums_changes = [], cont_changes = [], consume_channels_to_join_serialized_map = []\<rparr>"

definition unique_produce_channels :: "event_log_index \<Rightarrow> bytes hset" where
  "unique_produce_channels e = hset_collect (\<lambda>h. h) (map channel_hash (produces_affected e))"

definition unique_consume_channels :: "event_log_index \<Rightarrow> bytes list hset" where
  "unique_consume_channels e = hset_collect (\<lambda>hs. hs) (map channel_hashes (consumes_affected e))"

text \<open>The loops: one entry per key.\<close>

definition collect_changes :: "('x \<Rightarrow> ('e, 'v) res) \<Rightarrow> 'x list \<Rightarrow> ('e, ('x, 'v) hmap) res" where
  "collect_changes f xs = fold_res (\<lambda>m x. rbind (f x) (\<lambda>v. Inr (hm_put x v m))) [] xs"

text \<open>
  The join of a consume: the first join, before or after, whose channels hash to the same multiset.
  The search sorts the channels of the consume in place, and the sorted channels are the key.
\<close>

definition find_join ::
  "('c, 'p, 'a, 'k) repo_env \<Rightarrow> (bytes \<Rightarrow> (history_error, 'c list list) res) \<Rightarrow> (bytes \<Rightarrow> (history_error, 'c list list) res) \<Rightarrow>
   bytes list \<Rightarrow> (history_error, bytes) res" where
  "find_join env pre_joins post_joins consume_channels =
     (case consume_channels of
        [] \<Rightarrow> Inl (Panic ''index out of bounds: consume_channels[0]'')
      | history_pointer # _ \<Rightarrow>
          rbind (pre_joins history_pointer) (\<lambda>pre.
          rbind (post_joins history_pointer) (\<lambda>post.
            case find (\<lambda>join. sort consume_channels = sort (map (hash_channel (henv env)) join)) (pre @ post) of
              Some join \<Rightarrow> Inr (ser_join (cenv env) join)
            | None \<Rightarrow> Inl (Panic ''Tuple space inconsistency found: channel of consume does not contain join record corresponding to the consume channels.''))))"

definition collect_joins ::
  "(bytes list \<Rightarrow> (history_error, bytes) res) \<Rightarrow> bytes list list \<Rightarrow> (history_error, (bytes list, bytes) hmap) res" where
  "collect_joins f xs = fold_res (\<lambda>m cs. rbind (f cs) (\<lambda>raw_join. Inr (hm_put (sort cs) raw_join m))) [] xs"

definition retain_changes :: "('x, 'v channel_change) hmap \<Rightarrow> ('x, 'v channel_change) hmap" where
  "retain_changes m = filter (\<lambda>(_, change). \<not> (added change = [] \<and> removed change = [])) m"

definition state_change_new ::
  "('c, 'p, 'a, 'k) repo_env \<Rightarrow> in_mem_store \<Rightarrow> rspace_history_reader \<Rightarrow> rspace_history_reader \<Rightarrow> event_log_index \<Rightarrow>
   (history_error, state_change) res" where
  "state_change_new env st pre_state_reader post_state_reader e =
     rbind (collect_changes (\<lambda>history_pointer.
         compute_value_change history_pointer (get_data_proj_binary env st pre_state_reader) (get_data_proj_binary env st post_state_reader))
       (unique_produce_channels e)) (\<lambda>datums_diff.
     rbind (collect_changes (\<lambda>consume_channels.
         compute_value_change (hash_from_hashes (henv env) consume_channels)
           (get_continuations_proj_binary env st pre_state_reader) (get_continuations_proj_binary env st post_state_reader))
       (unique_consume_channels e)) (\<lambda>cont_diff.
     rbind (collect_joins (find_join env (get_joins_proj env st pre_state_reader) (get_joins_proj env st post_state_reader))
       (unique_consume_channels e)) (\<lambda>joins_map.
       Inr \<lparr>datums_changes = retain_changes datums_diff, cont_changes = retain_changes cont_diff,
            consume_channels_to_join_serialized_map = joins_map\<rparr>)))"

definition combine_entries ::
  "('x, 'v channel_change) hmap \<Rightarrow> ('x, 'v channel_change) hmap \<Rightarrow> ('x, 'v channel_change) hmap" where
  "combine_entries self other =
     foldl (\<lambda>m (key, value).
       case hm_get m key of
         Some current \<Rightarrow> hm_put key (change_combine current value) m
       | None \<Rightarrow> hm_put key value m) self other"

definition state_change_combine :: "state_change \<Rightarrow> state_change \<Rightarrow> state_change" where
  "state_change_combine self other =
     \<lparr>datums_changes = combine_entries (datums_changes self) (datums_changes other),
      cont_changes = combine_entries (cont_changes self) (cont_changes other),
      consume_channels_to_join_serialized_map =
        foldl (\<lambda>m (key, value). hm_put key value m) (consume_channels_to_join_serialized_map self)
          (consume_channels_to_join_serialized_map other)\<rparr>"

text \<open>\<open>Ord\<close> of changes: by their number of entries.\<close>

definition state_change_size :: "state_change \<Rightarrow> nat" where
  "state_change_size s =
     length (datums_changes s) + length (cont_changes s) + length (consume_channels_to_join_serialized_map s)"

definition state_change_cmp :: "state_change \<Rightarrow> state_change \<Rightarrow> ordering" where
  "state_change_cmp self other = cmp (state_change_size self) (state_change_size other)"

text \<open>\<open>PartialEq\<close> of changes: equal sizes, and every entry of the one is an entry of the other.\<close>

definition same_entries :: "('x, 'v) hmap \<Rightarrow> ('x, 'v) hmap \<Rightarrow> bool" where
  "same_entries a b = list_all (\<lambda>(key, value). list_ex (\<lambda>(other_key, other_value). key = other_key \<and> value = other_value) b) a"

definition state_change_eq :: "state_change \<Rightarrow> state_change \<Rightarrow> bool" where
  "state_change_eq self other \<longleftrightarrow>
     length (datums_changes self) = length (datums_changes other)
     \<and> length (cont_changes self) = length (cont_changes other)
     \<and> length (consume_channels_to_join_serialized_map self) = length (consume_channels_to_join_serialized_map other)
     \<and> list_all (\<lambda>(key, value). case hm_get (datums_changes other) key of
          Some other_value \<Rightarrow> added value = added other_value \<and> removed value = removed other_value
        | None \<Rightarrow> False) (datums_changes self)
     \<and> list_all (\<lambda>(key, value). list_ex (\<lambda>(other_key, other_value). key = other_key
          \<and> added value = added other_value \<and> removed value = removed other_value) (cont_changes other)) (cont_changes self)
     \<and> same_entries (consume_channels_to_join_serialized_map self) (consume_channels_to_join_serialized_map other)"

subsection \<open>Trie actions of a change\<close>

datatype join_action_kind = AddJoin "bytes list" | RemoveJoin "bytes list"

record ('c, 'p, 'a, 'k) consume_and_join_actions =
  consume_action :: "('c, 'p, 'a, 'k) trie_action"
  join_action :: "join_action_kind option"

definition new_value :: "bytes list \<Rightarrow> bytes channel_change \<Rightarrow> bytes list" where
  "new_value init change = multiset_diff init (removed change) @ added change"

definition consume_with_join_action ::
  "('c, 'p, 'a, 'k) repo_env \<Rightarrow> (bytes \<Rightarrow> (history_error, bytes list) res) \<Rightarrow> bytes list \<times> bytes channel_change \<Rightarrow>
   (history_error, ('c, 'p, 'a, 'k) consume_and_join_actions) res" where
  "consume_with_join_action env base_conts entry =
     (case entry of (consume_channels, change) \<Rightarrow>
        let history_pointer = hash_from_hashes (henv env) consume_channels
        in rbind (base_conts history_pointer) (\<lambda>init.
          let new_val = new_value init change
          in if init = new_val
             then Inl (Err (MergeError ''Merging logic error: empty consume change when computing trie action.''))
             else if init = []
             then Inr \<lparr>consume_action = TrieInsertBinaryConsume history_pointer new_val, join_action = Some (AddJoin consume_channels)\<rparr>
             else if new_val = []
             then Inr \<lparr>consume_action = TrieDeleteConsume history_pointer, join_action = Some (RemoveJoin consume_channels)\<rparr>
             else Inr \<lparr>consume_action = TrieInsertBinaryConsume history_pointer new_val, join_action = None\<rparr>))"

definition make_trie_action ::
  "bytes \<Rightarrow> (bytes \<Rightarrow> (history_error, bytes list) res) \<Rightarrow> bytes channel_change \<Rightarrow>
   (bytes \<Rightarrow> ('c, 'p, 'a, 'k) trie_action) \<Rightarrow> (bytes \<Rightarrow> bytes list \<Rightarrow> ('c, 'p, 'a, 'k) trie_action) \<Rightarrow>
   (history_error, ('c, 'p, 'a, 'k) trie_action) res" where
  "make_trie_action history_pointer init_value change remove_action update_action =
     rbind (init_value history_pointer) (\<lambda>init.
       let new_val = new_value init change
       in if new_val = [] \<and> init \<noteq> [] then Inr (remove_action history_pointer)
          else if init \<noteq> new_val then Inr (update_action history_pointer new_val)
          else Inl (Err (MergeError ''Merging logic error: empty channel change for produce or join when computing trie action.'')))"

definition produce_trie_action ::
  "(bytes \<Rightarrow> (history_error, bytes list) res) \<Rightarrow> number_channels \<Rightarrow>
   (bytes \<Rightarrow> bytes channel_change \<Rightarrow> number_channels \<Rightarrow> (history_error, ('c, 'p, 'a, 'k) trie_action option) res) \<Rightarrow>
   bytes \<times> bytes channel_change \<Rightarrow> (history_error, ('c, 'p, 'a, 'k) trie_action) res" where
  "produce_trie_action base_data mergeable_chs handle_channel_change entry =
     (case entry of (history_pointer, change) \<Rightarrow>
        rbind (handle_channel_change history_pointer change mergeable_chs) (\<lambda>action.
          case action of
            Some a \<Rightarrow> Inr a
          | None \<Rightarrow> make_trie_action history_pointer base_data change TrieDeleteProduce TrieInsertBinaryProduce))"

text \<open>The joins that appear and disappear, by channel.\<close>

definition join_change :: "join_action_kind \<Rightarrow> bytes \<Rightarrow> bytes channel_change \<Rightarrow> bytes channel_change" where
  "join_change act join_data current =
     (case act of
        AddJoin _ \<Rightarrow> current\<lparr>added := added current @ [join_data]\<rparr>
      | RemoveJoin _ \<Rightarrow> current\<lparr>removed := removed current @ [join_data]\<rparr>)"

definition action_channels :: "join_action_kind \<Rightarrow> bytes list" where
  "action_channels act = (case act of AddJoin chs \<Rightarrow> chs | RemoveJoin chs \<Rightarrow> chs)"

definition add_join_action ::
  "(bytes list, bytes) hmap \<Rightarrow> (bytes, bytes channel_change) hmap \<Rightarrow> join_action_kind option \<Rightarrow>
   (history_error, (bytes, bytes channel_change) hmap) res" where
  "add_join_action bodies joins_changes opt =
     (case opt of
        None \<Rightarrow> Inr joins_changes
      | Some act \<Rightarrow>
          (case hm_get bodies (action_channels act) of
             Some join_data \<Rightarrow>
               Inr (foldl (\<lambda>m channel.
                 hm_put channel (join_change act join_data (case hm_get m channel of Some c \<Rightarrow> c | None \<Rightarrow> change_empty)) m)
                 joins_changes (action_channels act))
           | None \<Rightarrow> Inl (Err (MergeError ''No ByteVector value for join found when merging when computing trie action.''))))"

definition compute_trie_actions ::
  "('c, 'p, 'a, 'k) repo_env \<Rightarrow> state_change \<Rightarrow> in_mem_store \<Rightarrow> rspace_history_reader \<Rightarrow> number_channels \<Rightarrow>
   (bytes \<Rightarrow> bytes channel_change \<Rightarrow> number_channels \<Rightarrow> (history_error, ('c, 'p, 'a, 'k) trie_action option) res) \<Rightarrow>
   (history_error, ('c, 'p, 'a, 'k) trie_action list) res" where
  "compute_trie_actions env change st base_reader mergeable_chs handle_channel_change =
     rbind (sequence_res (map (consume_with_join_action env (get_continuations_proj_binary env st base_reader))
         (sort_key (\<lambda>(consume_channels, _). hash_from_hashes (henv env) consume_channels) (cont_changes change))))
       (\<lambda>consume_with_join_actions.
     rbind (sequence_res (map (produce_trie_action (get_data_proj_binary env st base_reader) mergeable_chs handle_channel_change)
         (sort_key fst (datums_changes change)))) (\<lambda>produce_trie_actions.
     rbind (fold_res (add_join_action (consume_channels_to_join_serialized_map change)) []
         (map join_action consume_with_join_actions)) (\<lambda>joins_changes.
     rbind (sequence_res (map (\<lambda>(history_pointer, change).
           make_trie_action history_pointer (get_joins_proj_binary env st base_reader) change TrieDeleteJoins TrieInsertBinaryJoins)
         (sort_key fst joins_changes))) (\<lambda>joins_trie_actions.
       Inr (produce_trie_actions @ map consume_action consume_with_join_actions @ joins_trie_actions)))))"

end
