(* ===== verification/StateChangeSpec.thy ===== *)
theory StateChangeSpec
  imports StateChange Checkpoint
begin

section \<open>Merging a change reproduces the state it was computed from\<close>

subsection \<open>Multiset differences\<close>

lemma vec_diff_fold: "vec_diff from' to_remove = fold remove1 to_remove from'"
proof -
  have "(case position (\<lambda>y. y = x) xs of Some pos \<Rightarrow> remove_nth pos xs | None \<Rightarrow> xs) = remove1 x xs" for x :: 'a and xs
    by (induction xs) (auto split: option.splits)
  then show ?thesis unfolding vec_diff_def foldl_conv_fold by (intro fold_cong refl ext) simp_all
qed

lemma mset_fold_remove1 [simp]: "mset (fold remove1 xs ys) = mset ys - mset xs"
  by (induction xs arbitrary: ys) (auto simp: diff_diff_add_mset)

text \<open>The pass over the list, with the counts as a function.\<close>

fun drop_counts :: "('v \<Rightarrow> nat) \<Rightarrow> 'v list \<Rightarrow> 'v list" where
  "drop_counts c [] = []"
| "drop_counts c (x # xs) = (if c x > 0 then drop_counts (\<lambda>y. if y = x then c x - 1 else c y) xs else x # drop_counts c xs)"

definition hcount :: "('v, nat) hmap \<Rightarrow> 'v \<Rightarrow> nat" where
  "hcount m x = (case hm_get m x of Some n \<Rightarrow> n | None \<Rightarrow> 0)"

lemma hcount_put [simp]: "hcount (hm_put x n m) = (\<lambda>y. if y = x then n else hcount m y)"
  by (auto simp: hcount_def update_conv')

lemma diff_pass_counts: "diff_pass m xs = drop_counts (hcount m) xs"
proof (induction m xs rule: diff_pass.induct)
  case (2 m x xs)
  show ?case
  proof (cases "hm_get m x")
    case None
    with 2 show ?thesis by (simp add: hcount_def [of m x])
  next
    case (Some n)
    then have n: "hcount m x = n" by (simp add: hcount_def)
    show ?thesis
      using 2 Some by (cases "n > 0") (simp_all add: n cong: if_cong)
  qed
qed simp

lemma drop_counts_Suc: "drop_counts (\<lambda>y. if y = x then Suc (c x) else c y) xs = drop_counts c (remove1 x xs)"
proof (induction xs arbitrary: c)
  case (Cons y xs)
  show ?case
  proof (cases "y = x")
    case True
    have "(\<lambda>y. if y = x then Suc (c x) - 1 else if y = x then Suc (c x) else c y) = c" by auto
    with True show ?thesis by simp
  next
    case False
    have "(\<lambda>a. if a = y then c y - 1 else if a = x then Suc (c x) else c a) =
        (\<lambda>a. if a = x then Suc (if x = y then c y - 1 else c x) else if a = y then c y - 1 else c a)"
      using False by (auto simp: fun_eq_iff)
    with Cons.IH [of "\<lambda>a. if a = y then c y - 1 else c a"] Cons.IH [of c] False show ?thesis by simp
  qed
qed simp

lemma remove_counts_count: "hcount (remove_counts xs) = count (mset xs)"
proof -
  have "hcount (foldl (\<lambda>m item. hm_put item ((case hm_get m item of Some n \<Rightarrow> n | None \<Rightarrow> 0) + 1) m) m xs) = (\<lambda>x. hcount m x + count (mset xs) x)" for m
  proof (induction xs arbitrary: m)
    case (Cons x xs)
    then show ?case by (auto simp: hcount_def [symmetric] fun_eq_iff)
  qed simp
  from this [of "[]"] show ?thesis by (simp add: remove_counts_def hcount_def [of "[]"])
qed

lemma drop_counts_mset: "drop_counts (count (mset rs)) xs = fold remove1 rs xs"
proof (induction rs arbitrary: xs)
  case Nil
  have "drop_counts (\<lambda>_. 0) xs = xs" by (induction xs) auto
  then show ?case by (simp add: zero_multiset.rep_eq)
next
  case (Cons r rs)
  have "count (mset (r # rs)) = (\<lambda>x. if x = r then Suc (count (mset rs) r) else count (mset rs) x)" by (auto simp: fun_eq_iff)
  with Cons [of "remove1 r xs"] show ?case by (simp add: drop_counts_Suc)
qed

lemma multiset_diff_fold: "multiset_diff from' to_remove = fold remove1 to_remove from'"
  by (simp add: multiset_diff_def diff_pass_counts remove_counts_count drop_counts_mset)

lemma mset_multiset_diff [simp]: "mset (multiset_diff a b) = mset a - mset b"
  by (simp add: multiset_diff_fold)

lemma multiset_diff_Nil_iff: "multiset_diff a b = [] \<longleftrightarrow> mset a \<subseteq># mset b"
proof -
  have "multiset_diff a b = [] \<longleftrightarrow> mset (multiset_diff a b) = {#}" by (simp only: mset_zero_iff)
  then show ?thesis by (simp add: Diff_eq_empty_iff_mset)
qed

text \<open>The change from \<open>s\<close> to \<open>e\<close>, and its effect on \<open>s\<close>.\<close>

definition change_between :: "bytes list \<Rightarrow> bytes list \<Rightarrow> bytes channel_change" where
  "change_between s e = \<lparr>added = multiset_diff e s, removed = multiset_diff s e\<rparr>"

lemma change_between_value [simp]: "mset (new_value s (change_between s e)) = mset e"
proof -
  have "mset s - (mset s - mset e) + (mset e - mset s) = mset e"
    by (rule multiset_eqI) (simp add: minus_multiset.rep_eq)
  then show ?thesis by (simp add: new_value_def change_between_def)
qed

lemma change_between_none: "added (change_between s e) = [] \<and> removed (change_between s e) = [] \<longleftrightarrow> mset s = mset e"
  by (auto simp: change_between_def multiset_diff_Nil_iff intro: subset_mset.antisym)

subsection \<open>The binary content of a root\<close>

definition bin :: "('c, 'p, 'a, 'k) repo_env \<Rightarrow> rspace_store \<Rightarrow> itree list \<Rightarrow> byte \<Rightarrow> bytes \<Rightarrow> bytes list" where
  "bin env stores vs b h =
     (case root_leaves env stores vs (b # h) of
        None \<Rightarrow> []
      | Some d \<Rightarrow> (case de_vec (cenv env) (leaf_bytes d) of Some xs \<Rightarrow> xs | None \<Rightarrow> []))"

text \<open>No leaf holds the empty list: an empty list is deleted.\<close>

definition no_empty_leaf :: "('c, 'p, 'a, 'k) repo_env \<Rightarrow> rspace_store \<Rightarrow> itree list \<Rightarrow> bool" where
  "no_empty_leaf env stores vs \<longleftrightarrow> (\<forall>k d. root_leaves env stores vs k = Some d \<longrightarrow> de_vec (cenv env) (leaf_bytes d) \<noteq> Some [])"

lemma typed_leaf_bytes:
  assumes "leaf_typed env d"
  shows "\<exists>xs. sorted xs \<and> leaf_bytes d = ser_vec (cenv env) xs"
  using assms
  by (cases d) (auto simp: leaf_typed_def encode_datums_def encode_continuations_def encode_joins_def intro: sorted_sort)

lemma root_leaf_bin:
  assumes "repo_ok env U L ts repo stores" "root_holds env U L stores vs"
  shows "sorted (bin env stores vs b h)"
    and "root_leaves env stores vs (b # h) = Some d \<Longrightarrow> leaf_bytes d = ser_vec (cenv env) (bin env stores vs b h) \<and> leaf_kind d = b"
    and "root_leaves env stores vs (b # h) = None \<Longrightarrow> bin env stores vs b h = []"
proof -
  have de: "de_vec (cenv env) (ser_vec (cenv env) xs) = Some xs" for xs
    using assms(1) by (simp add: repo_ok_def env_good_def codec_ok_def)
  show "sorted (bin env stores vs b h)"
  proof (cases "root_leaves env stores vs (b # h)")
    case (Some d)
    then obtain xs where "sorted xs" "leaf_bytes d = ser_vec (cenv env) xs"
      using root_leaf_typed [OF assms Some] typed_leaf_bytes by blast
    with Some de show ?thesis by (simp add: bin_def)
  qed (simp add: bin_def)
  show "leaf_bytes d = ser_vec (cenv env) (bin env stores vs b h) \<and> leaf_kind d = b" if d: "root_leaves env stores vs (b # h) = Some d"
  proof -
    obtain xs where "leaf_bytes d = ser_vec (cenv env) xs"
      using root_leaf_typed [OF assms d] typed_leaf_bytes by blast
    with d de root_leaf_typed [OF assms d] show ?thesis by (simp add: bin_def)
  qed
  show "root_leaves env stores vs (b # h) = None \<Longrightarrow> bin env stores vs b h = []" by (simp add: bin_def)
qed

lemma root_get_bin:
  assumes "repo_ok env U L ts repo stores" "root_holds env U L stores vs" "no_empty_leaf env stores vs"
  shows "root_get vs (b # h) = (if bin env stores vs b h = [] then None
    else Some (leaf_hash env (ser_vec (cenv env) (bin env stores vs b h))))"
proof (cases "root_get vs (b # h)")
  case None
  then show ?thesis by (simp add: bin_def root_leaves_def leaf_at_def)
next
  case (Some hh)
  have cok: "codec_ok (cenv env)" using assms(1) by (simp add: repo_ok_def env_good_def)
  obtain d where d: "hh = lhash env d" "has_leaf env (cold_kv stores) d"
    using assms(2) Some unfolding root_holds_def content_ok_def by blast
  then have l: "root_leaves env stores vs (b # h) = Some d"
    using Some cok by (simp add: root_leaves_def leaf_at_def has_leaf_def codec_ok_def)
  note bytes = root_leaf_bin(2) [OF assms(1,2) l, THEN conjunct1]
  have "de_vec (cenv env) (leaf_bytes d) = Some (bin env stores vs b h)"
    using cok by (simp add: bytes codec_ok_def)
  then have "bin env stores vs b h \<noteq> []" using assms(3) l by (auto simp: no_empty_leaf_def)
  with Some d(1) bytes show ?thesis by (simp add: lhash_def)
qed

lemma binary_reads:
  assumes "repo_ok env U L ts repo stores" "root_holds env U L stores vs"
    "\<forall>pfx key. fetch_data env (history_kv stores) rd pfx key = Inr (root_leaves env stores vs (pfx # key))"
  shows "get_data_proj_binary env (history_kv stores) rd key = Inr (bin env stores vs PREFIX_DATUM key)"
    and "get_continuations_proj_binary env (history_kv stores) rd key = Inr (bin env stores vs PREFIX_KONT key)"
    and "get_joins_proj_binary env (history_kv stores) rd key = Inr (bin env stores vs PREFIX_JOINS key)"
proof -
  have de: "de_vec (cenv env) (ser_vec (cenv env) xs) = Some xs" for xs
    using assms(1) by (simp add: repo_ok_def env_good_def codec_ok_def)
  note leaf = root_leaf_bin(2) [OF assms(1,2)] and none = root_leaf_bin(3) [of env U L ts repo stores, OF assms(1,2)]
  have kind: "leaf_kind d = PREFIX_DATUM \<Longrightarrow> \<exists>bs. d = Data bs" "leaf_kind d = PREFIX_KONT \<Longrightarrow> \<exists>bs. d = Continuations bs"
    "leaf_kind d = PREFIX_JOINS \<Longrightarrow> \<exists>bs. d = Joins bs" for d
    by (cases d; simp add: PREFIX_DATUM_def PREFIX_KONT_def PREFIX_JOINS_def)+
  show "get_data_proj_binary env (history_kv stores) rd key = Inr (bin env stores vs PREFIX_DATUM key)"
    using leaf [of PREFIX_DATUM key] none [of PREFIX_DATUM key] kind(1)
    by (cases "root_leaves env stores vs (PREFIX_DATUM # key)") (fastforce simp: get_data_proj_binary_def assms(3) binary_leaf_def de)+
  show "get_continuations_proj_binary env (history_kv stores) rd key = Inr (bin env stores vs PREFIX_KONT key)"
    using leaf [of PREFIX_KONT key] none [of PREFIX_KONT key] kind(2)
    by (cases "root_leaves env stores vs (PREFIX_KONT # key)") (fastforce simp: get_continuations_proj_binary_def assms(3) binary_leaf_def de)+
  show "get_joins_proj_binary env (history_kv stores) rd key = Inr (bin env stores vs PREFIX_JOINS key)"
    using leaf [of PREFIX_JOINS key] none [of PREFIX_JOINS key] kind(3)
    by (cases "root_leaves env stores vs (PREFIX_JOINS # key)") (fastforce simp: get_joins_proj_binary_def assms(3) binary_leaf_def de)+
qed

subsection \<open>Actions that write the leaves of a root\<close>

lemma act_fold_old: "k \<notin> action_key ` set acts \<Longrightarrow> foldl act_map m acts k = m k"
proof (induction acts arbitrary: m)
  case (Cons a acts)
  then show ?case by (cases a) auto
qed simp

lemma act_fold_new:
  "distinct (map action_key acts) \<Longrightarrow> a \<in> set acts \<Longrightarrow>
   foldl act_map m acts (action_key a) = (case a of InsertAction _ v \<Rightarrow> Some v | DeleteAction _ \<Rightarrow> None)"
proof (induction acts arbitrary: m)
  case (Cons b acts)
  show ?case
  proof (cases "a = b")
    case True
    with Cons.prems have "foldl act_map (act_map m b) acts (action_key a) = act_map m b (action_key a)"
      by (intro act_fold_old) simp
    with True show ?thesis by (cases b) simp_all
  next
    case False
    with Cons show ?thesis by simp
  qed
qed simp

definition leaf_of :: "byte \<Rightarrow> bytes \<Rightarrow> persisted_data" where
  "leaf_of b bs = (if b = PREFIX_DATUM then Data bs else if b = PREFIX_KONT then Continuations bs else Joins bs)"

text \<open>The action \<open>a\<close> makes \<open>xs\<close> the content of the leaf \<open>b # h\<close>.\<close>

definition puts :: "('c, 'p, 'a, 'k) repo_env \<Rightarrow> byte \<Rightarrow> bytes \<Rightarrow> bytes list \<Rightarrow> ('c, 'p, 'a, 'k) trie_action \<Rightarrow> bool" where
  "puts env b h xs a \<longleftrightarrow>
     snd (calculate_storage_actions env a) =
       (if xs = [] then DeleteAction (b # h) else InsertAction (b # h) (leaf_hash env (ser_vec (cenv env) xs)))
     \<and> snd (fst (calculate_storage_actions env a)) = (if xs = [] then None else Some (leaf_of b (ser_vec (cenv env) xs)))"

lemma puts_binary:
  "mset xs = mset ys \<Longrightarrow> sorted ys \<Longrightarrow>
   puts env PREFIX_DATUM h ys (if xs = [] then TrieDeleteProduce h else TrieInsertBinaryProduce h xs)"
  "mset xs = mset ys \<Longrightarrow> sorted ys \<Longrightarrow>
   puts env PREFIX_KONT h ys (if xs = [] then TrieDeleteConsume h else TrieInsertBinaryConsume h xs)"
  "mset xs = mset ys \<Longrightarrow> sorted ys \<Longrightarrow>
   puts env PREFIX_JOINS h ys (if xs = [] then TrieDeleteJoins h else TrieInsertBinaryJoins h xs)"
proof -
  have s: "mset xs = mset ys \<Longrightarrow> sorted ys \<Longrightarrow> sort xs = ys" by (rule properties_for_sort) simp_all
  have e: "mset xs = mset ys \<Longrightarrow> xs = [] \<longleftrightarrow> ys = []" by (metis mset_zero_iff)
  show "mset xs = mset ys \<Longrightarrow> sorted ys \<Longrightarrow>
      puts env PREFIX_DATUM h ys (if xs = [] then TrieDeleteProduce h else TrieInsertBinaryProduce h xs)"
    "mset xs = mset ys \<Longrightarrow> sorted ys \<Longrightarrow>
      puts env PREFIX_KONT h ys (if xs = [] then TrieDeleteConsume h else TrieInsertBinaryConsume h xs)"
    "mset xs = mset ys \<Longrightarrow> sorted ys \<Longrightarrow>
      puts env PREFIX_JOINS h ys (if xs = [] then TrieDeleteJoins h else TrieInsertBinaryJoins h xs)"
    using s e by (simp_all add: puts_def prepend_bytes_def Let_def leaf_of_def PREFIX_DATUM_def PREFIX_KONT_def PREFIX_JOINS_def)
qed

lemma puts_key: "puts env b h xs a \<Longrightarrow> action_key (snd (calculate_storage_actions env a)) = b # h"
  by (simp add: puts_def)

lemma puts_leaf_ok:
  assumes "repo_ok env U L ts repo stores" "root_holds env U L stores vs" "puts env b h (bin env stores vs b h) a" "length h = 32"
  shows "trie_action_ok env L a"
proof -
  have "leaf_of b (ser_vec (cenv env) (bin env stores vs b h)) \<in> L" if nonempty: "bin env stores vs b h \<noteq> []"
  proof -
    obtain d where d: "root_leaves env stores vs (b # h) = Some d"
      using nonempty by (cases "root_leaves env stores vs (b # h)") (simp_all add: bin_def)
    then obtain hh where hh: "root_get vs (b # h) = Some hh" by (auto simp: root_leaves_def leaf_at_def split: option.splits)
    obtain e where e: "e \<in> L" "hh = lhash env e" "has_leaf env (cold_kv stores) e"
      using assms(2) hh unfolding root_holds_def content_ok_def by blast
    have "d = e"
      using d hh e assms(1) by (simp add: root_leaves_def leaf_at_def has_leaf_def repo_ok_def env_good_def codec_ok_def)
    moreover have "d = leaf_of b (ser_vec (cenv env) (bin env stores vs b h))"
      using root_leaf_bin(2) [OF assms(1,2) d]
      by (cases d) (auto simp: leaf_of_def PREFIX_DATUM_def PREFIX_KONT_def PREFIX_JOINS_def)
    ultimately show ?thesis using e(1) by simp
  qed
  then show ?thesis
    using assms(3,4) by (auto simp: trie_action_ok_def puts_def case_prod_unfold split: if_splits)
qed

text \<open>Actions that write the leaves of \<open>vs\<close> wherever the base differs from it lead to the root of \<open>vs\<close>.\<close>

lemma writes_root:
  assumes repo: "repo_ok env U L ts repo stores" and vs: "root_holds env U L stores vs"
    and ne: "no_empty_leaf env stores ts" "no_empty_leaf env stores vs"
    and puts: "\<And>b h. (b, h) \<in> set keys \<Longrightarrow> puts env b h (bin env stores vs b h) (act b h) \<and> length h = 32"
    and keys: "distinct keys" and same: "\<And>b h. (b, h) \<notin> set keys \<Longrightarrow> bin env stores ts b h = bin env stores vs b h"
  shows "\<exists>repo' stores'. do_checkpoint env (map (\<lambda>(b, h). act b h) keys) repo stores = Inr (repo', stores')
    \<and> repo_ok env U L vs repo' stores' \<and> repo_root repo' = tree_root env vs"
proof -
  let ?as = "map (\<lambda>(b, h). act b h) keys"
  have good: "env_good env" "root_ok 32 ts" and hts: "root_holds env U L stores ts"
    using repo repo_ok_holds [OF repo] by (auto simp: repo_ok_def history_ok_def openable_def)
  have oks: "list_all (trie_action_ok env L) ?as"
    using puts puts_leaf_ok [OF repo vs] by (fastforce simp: list_all_iff)
  have "map action_key (storage env ?as) = map (\<lambda>(b, h). b # h) keys"
    using puts puts_key by (force simp: storage_def)
  moreover have "distinct (map (\<lambda>(b, h). b # h) keys)"
    using keys by (auto simp: distinct_map intro: inj_onI)
  ultimately have dist: "distinct (map action_key (storage env ?as))" by simp
  have acts: "list_all (act_ok (Suc 32)) (storage env ?as)" by (rule trie_actions_act_ok [OF good(1) oks])
  note get = root_get_acts [OF good(2) acts]
  have nil: "root_get us [] = None" if "root_holds env U L stores us" for us
    using that by (cases "root_get us []") (auto simp: root_holds_def content_ok_def)
  have "foldl act_map (root_get ts) (storage env ?as) k = root_get vs k" for k
  proof (cases k)
    case Nil
    have "[] \<notin> action_key ` set (storage env ?as)" using puts puts_key by (force simp: storage_def)
    with Nil show ?thesis by (simp add: act_fold_old nil [OF hts] nil [OF vs])
  next
    case (Cons b h)
    show ?thesis
    proof (cases "(b, h) \<in> set keys")
      case True
      let ?a = "snd (calculate_storage_actions env (act b h))"
      have p: "puts env b h (bin env stores vs b h) (act b h)" using puts [OF True] by simp
      have "?a \<in> set (storage env ?as)" using True by (force simp: storage_def)
      from act_fold_new [OF dist this, of "root_get ts"] p show ?thesis
        unfolding Cons puts_key [OF p] root_get_bin [OF repo vs ne(2)] by (simp add: puts_def)
    next
      case False
      have nk: "b # h \<notin> action_key ` set (storage env ?as)"
        using False puts puts_key by (force simp: storage_def)
      show ?thesis
        unfolding Cons act_fold_old [OF nk] root_get_bin [OF repo hts ne(1)] root_get_bin [OF repo vs ne(2)] same [OF False] ..
    qed
  qed
  then have "root_get (foldl root_act ts (storage env ?as)) = root_get vs" using get by auto
  moreover have "root_ok 32 (foldl root_act ts (storage env ?as))" by (rule root_ok_acts [OF good(2) acts])
  moreover have vok: "root_ok 32 vs" "root_nodes (radix_of env) vs \<subseteq> U"
    using vs by (auto simp: root_holds_def openable_def root_nodes_def in_store_def nodes_below_def)
  ultimately have tree: "foldl root_act ts (storage env ?as) = vs" using root_unique by blast
  have "distinct (map (trie_actions_key env) ?as)"
    using dist by (simp add: storage_def trie_actions_key_def [abs_def] o_def)
  from do_checkpoint_ok [OF repo oks this, unfolded tree, OF vok(2)]
  show ?thesis using repo_ok_root by blast
qed

subsection \<open>The loops\<close>

lemma collect_changes_map:
  assumes "distinct xs" "\<And>x. x \<in> set xs \<Longrightarrow> f x = Inr (g x)"
  shows "collect_changes f xs = Inr (map (\<lambda>x. (x, g x)) xs)"
  using assms
proof (induction xs rule: rev_induct)
  case (snoc x xs)
  have "hm_put x (g x) (map (\<lambda>x. (x, g x)) xs) = map (\<lambda>x. (x, g x)) xs @ [(x, g x)]"
    using snoc.prems(1) by (intro hm_put_fresh) (auto simp: image_image)
  with snoc show ?case by (simp add: collect_changes_def)
qed (simp add: collect_changes_def)

lemma collect_joins_map:
  assumes "distinct xs" "\<And>x. x \<in> set xs \<Longrightarrow> f x = Inr (g x) \<and> sorted x"
  shows "collect_joins f xs = Inr (map (\<lambda>x. (x, g x)) xs)"
  using assms
proof (induction xs rule: rev_induct)
  case (snoc x xs)
  have "hm_put x (g x) (map (\<lambda>x. (x, g x)) xs) = map (\<lambda>x. (x, g x)) xs @ [(x, g x)]"
    using snoc.prems(1) by (intro hm_put_fresh) (auto simp: image_image)
  with snoc show ?case by (simp add: collect_joins_def sorted_sort_id)
qed (simp add: collect_joins_def)

lemma sequence_res_map: "(\<And>x. x \<in> set xs \<Longrightarrow> f x = Inr (g x)) \<Longrightarrow> sequence_res (map f xs) = Inr (map g xs)"
  by (induction xs) simp_all

lemma retain_between:
  "retain_changes (map (\<lambda>x. (x, change_between (s x) (e x))) xs) =
   map (\<lambda>x. (x, change_between (s x) (e x))) (filter (\<lambda>x. mset (s x) \<noteq> mset (e x)) xs)"
  unfolding retain_changes_def by (induction xs) (simp_all add: change_between_none)

lemma sort_key_graph: "sort_key (\<lambda>(x, _). k x) (map (\<lambda>x. (x, g x)) xs) = map (\<lambda>x. (x, g x)) (sort_key k xs)"
proof -
  have "insort_key (\<lambda>(x, _). k x) (x, g x) (map (\<lambda>x. (x, g x)) xs) = map (\<lambda>x. (x, g x)) (insort_key k x xs)" for x xs
    by (induction xs) auto
  then show ?thesis by (induction xs) auto
qed

text \<open>The joins by channel: \<open>jb\<close> is the body of a join, \<open>kind\<close> says which joins appear and disappear.\<close>

definition joined :: "(bytes list \<Rightarrow> bytes) \<Rightarrow> (bytes list \<Rightarrow> join_action_kind option) \<Rightarrow> bytes list list \<Rightarrow> bytes \<Rightarrow> bytes channel_change" where
  "joined jb kind L h =
     \<lparr>added = map jb (filter (\<lambda>cs. kind cs = Some (AddJoin cs) \<and> h \<in> set cs) L),
      removed = map jb (filter (\<lambda>cs. kind cs = Some (RemoveJoin cs) \<and> h \<in> set cs) L)\<rparr>"

lemma fold_channels:
  assumes "distinct cs"
  shows "hm_get (foldl (\<lambda>m channel. hm_put channel (f (hm_get m channel)) m) m cs) h =
    (if h \<in> set cs then Some (f (hm_get m h)) else hm_get m h)"
    "hm_ok m \<Longrightarrow> hm_ok (foldl (\<lambda>m channel. hm_put channel (f (hm_get m channel)) m) m cs)"
proof -
  show "hm_get (foldl (\<lambda>m channel. hm_put channel (f (hm_get m channel)) m) m cs) h =
      (if h \<in> set cs then Some (f (hm_get m h)) else hm_get m h)"
    using assms by (induction cs arbitrary: m) (auto simp: update_conv')
  show "hm_ok m \<Longrightarrow> hm_ok (foldl (\<lambda>m channel. hm_put channel (f (hm_get m channel)) m) m cs)"
    by (induction cs arbitrary: m) auto
qed

lemma add_join_actions:
  assumes "\<And>cs. cs \<in> set L \<Longrightarrow> distinct cs \<and> hm_get bodies cs = Some (jb cs) \<and> kind cs \<in> {None, Some (AddJoin cs), Some (RemoveJoin cs)}"
  shows "\<exists>jc. fold_res (add_join_action bodies) [] (map kind L) = Inr jc \<and> hm_ok jc
    \<and> (\<forall>h. hm_get jc h = (if \<exists>cs \<in> set L. kind cs \<noteq> None \<and> h \<in> set cs then Some (joined jb kind L h) else None))"
  using assms
proof (induction L rule: rev_induct)
  case Nil
  show ?case by simp
next
  case (snoc cs L)
  then obtain jc where jc: "fold_res (add_join_action bodies) [] (map kind L) = Inr jc" "hm_ok jc"
    "\<And>h. hm_get jc h = (if \<exists>cs \<in> set L. kind cs \<noteq> None \<and> h \<in> set cs then Some (joined jb kind L h) else None)"
    by (metis (no_types, lifting) UnCI set_append)
  have cs: "distinct cs" "hm_get bodies cs = Some (jb cs)" "kind cs \<in> {None, Some (AddJoin cs), Some (RemoveJoin cs)}"
    using snoc.prems [of cs] by simp_all
  show ?case
  proof (cases "kind cs")
    case None
    then have "joined jb kind (L @ [cs]) h = joined jb kind L h" for h by (simp add: joined_def)
    moreover have "add_join_action bodies jc None = Inr jc" by (simp add: add_join_action_def)
    ultimately show ?thesis using None jc by (intro exI [of _ jc]) auto
  next
    case (Some act)
    let ?f = "\<lambda>c. join_change act (jb cs) (case c of Some c \<Rightarrow> c | None \<Rightarrow> change_empty)"
    let ?jc = "foldl (\<lambda>m channel. hm_put channel (?f (hm_get m channel)) m) jc cs"
    have act: "action_channels act = cs" "act = AddJoin cs \<or> act = RemoveJoin cs"
      using cs(3) Some by (auto simp: action_channels_def)
    have empty: "joined jb kind L h = change_empty" if "\<not> (\<exists>cs \<in> set L. kind cs \<noteq> None \<and> h \<in> set cs)" for h
    proof -
      have "filter (\<lambda>cs. kind cs = Some a \<and> h \<in> set cs) L = []" for a using that by (auto simp: filter_empty_conv)
      moreover have "filter (\<lambda>cs. kind cs = Some (g cs) \<and> h \<in> set cs) L = []" for g using that by (auto simp: filter_empty_conv)
      ultimately show ?thesis by (simp add: joined_def change_empty_def)
    qed
    have step: "?f (hm_get jc h) = joined jb kind (L @ [cs]) h" if "h \<in> set cs" for h
      using that Some act(2) empty [of h] jc(3) [of h] by (auto simp: joined_def join_change_def change_empty_def)
    have keep: "h \<notin> set cs \<Longrightarrow> joined jb kind (L @ [cs]) h = joined jb kind L h" for h by (simp add: joined_def)
    have "fold_res (add_join_action bodies) [] (map kind (L @ [cs])) = Inr ?jc"
      using jc(1) Some cs(2) act(1) by (simp add: add_join_action_def)
    moreover have "hm_ok ?jc" by (rule fold_channels(2) [OF cs(1) jc(2)])
    moreover have "hm_get ?jc h = (if \<exists>cs \<in> set (L @ [cs]). kind cs \<noteq> None \<and> h \<in> set cs then Some (joined jb kind (L @ [cs]) h) else None)" for h
      using fold_channels(1) [of cs ?f jc h, OF cs(1)] step [of h] keep [of h] jc(3) [of h] Some by (cases "h \<in> set cs") auto
    ultimately show ?thesis by blast
  qed
qed

subsection \<open>Joins of a state\<close>

text \<open>
  The joins that may occur are \<open>CS\<close>, as the sorted hashes of their channels, and \<open>jn\<close> gives the
  channels of a join; a state keeps a join under each of its channels exactly when it holds a
  continuation for it.
\<close>

abbreviation join_ptr :: "('c, 'p, 'a, 'k) repo_env \<Rightarrow> bytes list \<Rightarrow> bytes" where
  "join_ptr env cs \<equiv> hash_from_hashes (henv env) cs"

definition known_joins :: "('c, 'p, 'a, 'k) repo_env \<Rightarrow> bytes list set \<Rightarrow> (bytes list \<Rightarrow> 'c list) \<Rightarrow> bool" where
  "known_joins env CS jn \<longleftrightarrow> finite CS \<and> inj_on (join_ptr env) CS
     \<and> (\<forall>cs \<in> CS. cs \<noteq> [] \<and> sorted cs \<and> distinct cs \<and> list_all (\<lambda>h. length h = 32) cs \<and> length (join_ptr env cs) = 32
          \<and> sort (map (hash_channel (henv env)) (jn cs)) = cs)"

definition live_joins :: "('c, 'p, 'a, 'k) repo_env \<Rightarrow> rspace_store \<Rightarrow> bytes list set \<Rightarrow> itree list \<Rightarrow> bytes \<Rightarrow> bytes list set" where
  "live_joins env stores CS vs h = {cs \<in> CS. bin env stores vs PREFIX_KONT (join_ptr env cs) \<noteq> [] \<and> h \<in> set cs}"

definition joins_in_step ::
  "('c, 'p, 'a, 'k) repo_env \<Rightarrow> rspace_store \<Rightarrow> bytes list set \<Rightarrow> (bytes list \<Rightarrow> 'c list) \<Rightarrow> itree list \<Rightarrow> bool" where
  "joins_in_step env stores CS jn vs \<longleftrightarrow> (\<forall>h. mset (bin env stores vs PREFIX_JOINS h) =
     image_mset (\<lambda>cs. ser_join (cenv env) (jn cs)) (mset_set (live_joins env stores CS vs h)))"

text \<open>The log names every channel and every join whose content differs, and only joins that are live on one side.\<close>

definition log_explains ::
  "('c, 'p, 'a, 'k) repo_env \<Rightarrow> rspace_store \<Rightarrow> bytes list set \<Rightarrow> itree list \<Rightarrow> itree list \<Rightarrow> event_log_index \<Rightarrow> bool" where
  "log_explains env stores CS ts vs e \<longleftrightarrow>
     list_all (\<lambda>h. length h = 32) (unique_produce_channels e)
     \<and> (\<forall>h. bin env stores ts PREFIX_DATUM h \<noteq> bin env stores vs PREFIX_DATUM h \<longrightarrow> h \<in> set (unique_produce_channels e))
     \<and> (\<forall>h. bin env stores ts PREFIX_KONT h \<noteq> bin env stores vs PREFIX_KONT h \<longrightarrow> h \<in> join_ptr env ` set (unique_consume_channels e))
     \<and> list_all (\<lambda>cs. cs \<in> CS \<and> (bin env stores ts PREFIX_KONT (join_ptr env cs) \<noteq> []
          \<or> bin env stores vs PREFIX_KONT (join_ptr env cs) \<noteq> [])) (unique_consume_channels e)"

lemma unique_distinct: "distinct (unique_produce_channels e)" "distinct (unique_consume_channels e)"
  using hset_collect_distinct [of "\<lambda>h. h"] hset_collect_distinct [of "\<lambda>hs. hs"]
  by (simp_all add: unique_produce_channels_def unique_consume_channels_def)

lemma joins_of_bin:
  assumes "repo_ok env U L ts repo stores" "root_holds env U L stores vs"
  shows "map (ser_join (cenv env)) (joins_of env (root_leaves env stores vs (PREFIX_JOINS # h))) = bin env stores vs PREFIX_JOINS h"
proof (cases "root_leaves env stores vs (PREFIX_JOINS # h)")
  case None
  then show ?thesis by (simp add: joins_of_def bin_def)
next
  case (Some d)
  have ok: "codec_ok (cenv env)" using assms(1) by (simp add: repo_ok_def env_good_def)
  obtain js where js: "d = Joins (encode_joins (cenv env) js)"
    using root_leaf_typed [OF assms Some] leaf_kinds(3) by blast
  have "map (ser_join (cenv env)) (sort_key (ser_join (cenv env)) js) = sort (map (ser_join (cenv env)) js)"
    by (rule properties_for_sort [symmetric]) simp_all
  moreover have "bin env stores vs PREFIX_JOINS h = sort (map (ser_join (cenv env)) js)"
    using ok by (simp add: bin_def Some js encode_joins_def codec_ok_def)
  ultimately show ?thesis by (simp add: Some js of_encoded(3) [OF ok])
qed

text \<open>The search for the join of an affected consume finds it.\<close>

lemma find_join_ok:
  assumes repo: "repo_ok env U L ts repo stores" and vs: "root_holds env U L stores vs"
    and rd: "\<forall>pfx key. fetch_data env (history_kv stores) rd0 pfx key = Inr (root_leaves env stores ts (pfx # key))"
      "\<forall>pfx key. fetch_data env (history_kv stores) rd1 pfx key = Inr (root_leaves env stores vs (pfx # key))"
    and joins: "known_joins env CS jn" "joins_in_step env stores CS jn ts" "joins_in_step env stores CS jn vs"
    and cs: "cs \<in> CS" "bin env stores ts PREFIX_KONT (join_ptr env cs) \<noteq> [] \<or> bin env stores vs PREFIX_KONT (join_ptr env cs) \<noteq> []"
  shows "find_join env (get_joins_proj env (history_kv stores) rd0) (get_joins_proj env (history_kv stores) rd1) cs =
    Inr (ser_join (cenv env) (jn cs))"
proof -
  have ok: "codec_ok (cenv env)" using repo by (simp add: repo_ok_def env_good_def)
  then have inj: "ser_join (cenv env) j = ser_join (cenv env) j' \<Longrightarrow> j = j'" for j j'
    unfolding codec_ok_def by (metis option.inject)
  note hts = repo_ok_holds [OF repo]
  have known: "cs \<noteq> []" "sorted cs" "\<And>c. c \<in> CS \<Longrightarrow> sort (map (hash_channel (henv env)) (jn c)) = c" "finite CS"
    using joins(1) cs(1) by (auto simp: known_joins_def)
  let ?h = "hd cs" and ?js = "joins_of env (root_leaves env stores ts (PREFIX_JOINS # hd cs)) @ joins_of env (root_leaves env stores vs (PREFIX_JOINS # hd cs))"
  have h: "?h \<in> set cs" using known(1) by simp
  have fin: "finite (live_joins env stores CS us h)" for us h using known(4) by (simp add: live_joins_def)
  have mem: "set (map (ser_join (cenv env)) ?js) =
      (\<lambda>cs. ser_join (cenv env) (jn cs)) ` (live_joins env stores CS ts ?h \<union> live_joins env stores CS vs ?h)"
    unfolding map_append set_append joins_of_bin [OF repo hts] joins_of_bin [OF repo vs]
    using joins(2,3) fin by (simp add: joins_in_step_def image_Un flip: set_mset_mset)
  have "ser_join (cenv env) (jn cs) \<in> set (map (ser_join (cenv env)) ?js)"
    unfolding mem using cs h by (auto simp: live_joins_def)
  then have "jn cs \<in> set ?js" using inj by auto
  moreover have "sort cs = sort (map (hash_channel (henv env)) (jn cs))" using known(2,3) cs(1) by (simp add: sorted_sort_id)
  ultimately obtain j where find: "find (\<lambda>j. sort cs = sort (map (hash_channel (henv env)) j)) ?js = Some j"
    by (cases "find (\<lambda>j. sort cs = sort (map (hash_channel (henv env)) j)) ?js") (auto simp: find_None_iff)
  then have j: "j \<in> set ?js" "sort (map (hash_channel (henv env)) j) = cs"
    using find_Some_in [OF find] find_Some_sat [OF find] known(2) by (simp_all add: sorted_sort_id)
  then have "ser_join (cenv env) j \<in> set (map (ser_join (cenv env)) ?js)" by auto
  then obtain c where "c \<in> CS" "ser_join (cenv env) j = ser_join (cenv env) (jn c)"
    unfolding mem by (auto simp: live_joins_def)
  with inj known(3) j(2) have "j = jn cs" by metis
  with find known(1) show ?thesis
    by (cases cs) (simp_all add: find_join_def reader_total(3) [OF repo hts rd(1)] reader_total(3) [OF repo vs rd(2)])
qed

subsection \<open>The change of a block\<close>

text \<open>The change as a function of the two states.\<close>

definition changed_data :: "('c, 'p, 'a, 'k) repo_env \<Rightarrow> rspace_store \<Rightarrow> itree list \<Rightarrow> itree list \<Rightarrow> event_log_index \<Rightarrow> bytes list" where
  "changed_data env stores ts vs e =
     filter (\<lambda>h. mset (bin env stores ts PREFIX_DATUM h) \<noteq> mset (bin env stores vs PREFIX_DATUM h)) (unique_produce_channels e)"

definition changed_conts :: "('c, 'p, 'a, 'k) repo_env \<Rightarrow> rspace_store \<Rightarrow> itree list \<Rightarrow> itree list \<Rightarrow> event_log_index \<Rightarrow> bytes list list" where
  "changed_conts env stores ts vs e =
     filter (\<lambda>cs. mset (bin env stores ts PREFIX_KONT (join_ptr env cs)) \<noteq> mset (bin env stores vs PREFIX_KONT (join_ptr env cs)))
       (unique_consume_channels e)"

definition block_change ::
  "('c, 'p, 'a, 'k) repo_env \<Rightarrow> rspace_store \<Rightarrow> (bytes list \<Rightarrow> 'c list) \<Rightarrow> itree list \<Rightarrow> itree list \<Rightarrow> event_log_index \<Rightarrow> state_change" where
  "block_change env stores jn ts vs e =
     \<lparr>datums_changes = map (\<lambda>h. (h, change_between (bin env stores ts PREFIX_DATUM h) (bin env stores vs PREFIX_DATUM h)))
        (changed_data env stores ts vs e),
      cont_changes = map (\<lambda>cs. (cs, change_between (bin env stores ts PREFIX_KONT (join_ptr env cs))
        (bin env stores vs PREFIX_KONT (join_ptr env cs)))) (changed_conts env stores ts vs e),
      consume_channels_to_join_serialized_map = map (\<lambda>cs. (cs, ser_join (cenv env) (jn cs))) (unique_consume_channels e)\<rparr>"

lemma compute_value_change_between:
  "start h = Inr s \<Longrightarrow> end' h = Inr e \<Longrightarrow> compute_value_change h start end' = Inr (change_between s e)"
  by (simp add: compute_value_change_def change_between_def)

lemma state_change_new_ok:
  assumes repo: "repo_ok env U L ts repo stores" and vs: "root_holds env U L stores vs"
    and rd: "\<forall>pfx key. fetch_data env (history_kv stores) rd0 pfx key = Inr (root_leaves env stores ts (pfx # key))"
      "\<forall>pfx key. fetch_data env (history_kv stores) rd1 pfx key = Inr (root_leaves env stores vs (pfx # key))"
    and joins: "known_joins env CS jn" "joins_in_step env stores CS jn ts" "joins_in_step env stores CS jn vs"
    and log: "log_explains env stores CS ts vs e"
  shows "state_change_new env (history_kv stores) rd0 rd1 e = Inr (block_change env stores jn ts vs e)"
proof -
  note hts = repo_ok_holds [OF repo]
  note read0 = binary_reads [OF repo hts rd(1)] and read1 = binary_reads [OF repo vs rd(2)]
  have data: "collect_changes (\<lambda>h. compute_value_change h (get_data_proj_binary env (history_kv stores) rd0)
      (get_data_proj_binary env (history_kv stores) rd1)) (unique_produce_channels e) =
    Inr (map (\<lambda>h. (h, change_between (bin env stores ts PREFIX_DATUM h) (bin env stores vs PREFIX_DATUM h))) (unique_produce_channels e))"
    by (rule collect_changes_map [OF unique_distinct(1)]) (rule compute_value_change_between [OF read0(1) read1(1)])
  have conts: "collect_changes (\<lambda>cs. compute_value_change (join_ptr env cs) (get_continuations_proj_binary env (history_kv stores) rd0)
      (get_continuations_proj_binary env (history_kv stores) rd1)) (unique_consume_channels e) =
    Inr (map (\<lambda>cs. (cs, change_between (bin env stores ts PREFIX_KONT (join_ptr env cs))
      (bin env stores vs PREFIX_KONT (join_ptr env cs)))) (unique_consume_channels e))"
    by (rule collect_changes_map [OF unique_distinct(2)]) (rule compute_value_change_between [OF read0(2) read1(2)])
  have "collect_joins (find_join env (get_joins_proj env (history_kv stores) rd0) (get_joins_proj env (history_kv stores) rd1))
      (unique_consume_channels e) = Inr (map (\<lambda>cs. (cs, ser_join (cenv env) (jn cs))) (unique_consume_channels e))"
  proof (rule collect_joins_map [OF unique_distinct(2)])
    fix cs assume "cs \<in> set (unique_consume_channels e)"
    then have cs: "cs \<in> CS" "bin env stores ts PREFIX_KONT (join_ptr env cs) \<noteq> [] \<or> bin env stores vs PREFIX_KONT (join_ptr env cs) \<noteq> []"
      using log by (auto simp: log_explains_def list_all_iff)
    with find_join_ok [OF repo vs rd joins cs] joins(1)
    show "find_join env (get_joins_proj env (history_kv stores) rd0) (get_joins_proj env (history_kv stores) rd1) cs =
        Inr (ser_join (cenv env) (jn cs)) \<and> sorted cs"
      by (auto simp: known_joins_def)
  qed
  with data conts show ?thesis
    unfolding state_change_new_def block_change_def changed_data_def changed_conts_def
    by (simp add: retain_between)
qed

text \<open>The trie actions: every key with its new content.\<close>

definition trie_write :: "byte \<Rightarrow> bytes \<Rightarrow> bytes list \<Rightarrow> ('c, 'p, 'a, 'k) trie_action" where
  "trie_write b h xs =
     (if b = PREFIX_DATUM then (if xs = [] then TrieDeleteProduce h else TrieInsertBinaryProduce h xs)
      else if b = PREFIX_KONT then (if xs = [] then TrieDeleteConsume h else TrieInsertBinaryConsume h xs)
      else (if xs = [] then TrieDeleteJoins h else TrieInsertBinaryJoins h xs))"

lemma trie_write_puts: "mset xs = mset ys \<Longrightarrow> sorted ys \<Longrightarrow> b \<in> {PREFIX_DATUM, PREFIX_KONT, PREFIX_JOINS} \<Longrightarrow> puts env b h ys (trie_write b h xs)"
  using puts_binary [of xs ys env h] by (auto simp: trie_write_def PREFIX_DATUM_def PREFIX_KONT_def PREFIX_JOINS_def)

lemma make_trie_action_write:
  assumes "init_value h = Inr init" "mset init \<noteq> mset (new_value init change)"
  shows "make_trie_action h init_value change TrieDeleteProduce TrieInsertBinaryProduce = Inr (trie_write PREFIX_DATUM h (new_value init change))"
    and "make_trie_action h init_value change TrieDeleteJoins TrieInsertBinaryJoins = Inr (trie_write PREFIX_JOINS h (new_value init change))"
  using assms by (auto simp: make_trie_action_def trie_write_def Let_def PREFIX_DATUM_def PREFIX_KONT_def PREFIX_JOINS_def)

definition join_kind :: "bytes list \<Rightarrow> bytes list \<Rightarrow> bytes list \<Rightarrow> join_action_kind option" where
  "join_kind s e cs = (if s = [] then Some (AddJoin cs) else if e = [] then Some (RemoveJoin cs) else None)"

lemma consume_with_join_write:
  assumes "base_conts (join_ptr env cs) = Inr s" "mset s \<noteq> mset e"
  shows "consume_with_join_action env base_conts (cs, change_between s e) =
    Inr \<lparr>consume_action = trie_write PREFIX_KONT (join_ptr env cs) (new_value s (change_between s e)), join_action = join_kind s e cs\<rparr>"
proof -
  have "mset (new_value s (change_between s e)) = mset e" by simp
  then have nil: "new_value s (change_between s e) = [] \<longleftrightarrow> e = []" by (metis mset_zero_iff)
  have ne: "new_value s (change_between s e) \<noteq> s" using assms(2) change_between_value [of s e] by metis
  show ?thesis
    using assms nil ne
    by (auto simp: consume_with_join_action_def trie_write_def join_kind_def Let_def PREFIX_DATUM_def PREFIX_KONT_def)
qed

subsection \<open>Property\<close>

text \<open>The counting difference of \<open>multiset_diff\<close> is the list that removing the elements one by one gives, and is the multiset
  difference; combining the changes of two blocks on one channel is the union of multisets, so the change two sibling blocks share
  is taken once.\<close>

theorem multiset_diff_correct:
  "multiset_diff a b = vec_diff a b \<and> mset (multiset_diff a b) = mset a - mset b
   \<and> mset (added (change_combine x y)) = mset (added x) \<union># mset (added y)
   \<and> mset (removed (change_combine x y)) = mset (removed x) \<union># mset (removed y)
   \<and> change_combine x x = x"
proof -
  have "fold remove1 xs xs = []" for xs :: "'b list" by (induction xs) simp_all
  then have "change_combine x x = x" by (simp add: change_combine_def vec_diff_fold)
  then show ?thesis
    by (simp add: multiset_diff_fold vec_diff_fold change_combine_def union_mset_def)
qed

end
