(* ===== verification/StateMerge.thy ===== *)
theory StateMerge
  imports StateChangeSpec
begin

section \<open>Merging a block into its own pre-state\<close>

text \<open>
  The change of a block, merged into the state the block started from, gives the state the block
  ended in: the same leaves, hence the same tree and the same root hash.
\<close>

subsection \<open>Joins that appear and disappear\<close>

lemma mset_set_exchange: "finite A \<Longrightarrow> finite B \<Longrightarrow> mset_set A - mset_set (A - B) + mset_set (B - A) = mset_set B"
  by (rule multiset_eqI) (auto simp: count_mset_set')

lemma image_mset_exchange:
  assumes "finite A" "finite B"
  shows "image_mset f (mset_set A) - image_mset f (mset_set (A - B)) + image_mset f (mset_set (B - A)) = image_mset f (mset_set B)"
proof -
  have "mset_set (A - B) \<subseteq># mset_set A" using assms by (simp add: subset_imp_msubset_mset_set)
  then have "image_mset f (mset_set A) - image_mset f (mset_set (A - B)) = image_mset f (mset_set A - mset_set (A - B))"
    by (rule image_mset_Diff [symmetric])
  then show ?thesis
    using arg_cong [OF mset_set_exchange [OF assms], of "image_mset f"] by simp
qed

lemma image_mset_set_inj:
  assumes "inj_on f S" "A \<subseteq> S" "B \<subseteq> S" "finite S" "image_mset f (mset_set A) = image_mset f (mset_set B)"
  shows "A = B"
proof -
  have fin: "finite A" "finite B" using assms(2-4) by (auto intro: finite_subset)
  have "f ` A = f ` B"
    using arg_cong [OF assms(5), of set_mset] fin by simp
  then show ?thesis using assms(1-3) by (simp add: inj_on_image_eq_iff)
qed

text \<open>The joins of the changed consumes, per channel.\<close>

definition kind_of ::
  "('c, 'p, 'a, 'k) repo_env \<Rightarrow> rspace_store \<Rightarrow> itree list \<Rightarrow> itree list \<Rightarrow> bytes list \<Rightarrow> join_action_kind option" where
  "kind_of env stores ts vs cs =
     join_kind (bin env stores ts PREFIX_KONT (join_ptr env cs)) (bin env stores vs PREFIX_KONT (join_ptr env cs)) cs"

definition joins_of_block ::
  "('c, 'p, 'a, 'k) repo_env \<Rightarrow> rspace_store \<Rightarrow> (bytes list \<Rightarrow> 'c list) \<Rightarrow> itree list \<Rightarrow> itree list \<Rightarrow> event_log_index \<Rightarrow>
   bytes \<Rightarrow> bytes channel_change" where
  "joins_of_block env stores jn ts vs e =
     joined (\<lambda>cs. ser_join (cenv env) (jn cs)) (kind_of env stores ts vs) (sort_key (join_ptr env) (changed_conts env stores ts vs e))"

lemma live_changes:
  assumes joins: "known_joins env CS jn" and log: "log_explains env stores CS ts vs e"
  shows "{cs \<in> set (changed_conts env stores ts vs e). kind_of env stores ts vs cs = Some (AddJoin cs) \<and> h \<in> set cs} =
      live_joins env stores CS vs h - live_joins env stores CS ts h"
    and "{cs \<in> set (changed_conts env stores ts vs e). kind_of env stores ts vs cs = Some (RemoveJoin cs) \<and> h \<in> set cs} =
      live_joins env stores CS ts h - live_joins env stores CS vs h"
proof -
  let ?s = "\<lambda>cs. bin env stores ts PREFIX_KONT (join_ptr env cs)" and ?p = "\<lambda>cs. bin env stores vs PREFIX_KONT (join_ptr env cs)"
  have uc: "cs \<in> CS" if "cs \<in> set (unique_consume_channels e)" for cs
    using that log by (auto simp: log_explains_def list_all_iff)
  have mem: "cs \<in> set (changed_conts env stores ts vs e)" if "cs \<in> CS" "?s cs = [] \<longleftrightarrow> ?p cs \<noteq> []" for cs
  proof -
    have ne: "?s cs \<noteq> ?p cs" "mset (?s cs) \<noteq> mset (?p cs)" using that(2) by (metis, metis mset_zero_iff)
    then obtain c where "c \<in> set (unique_consume_channels e)" "join_ptr env cs = join_ptr env c"
      using log unfolding log_explains_def by blast
    moreover from this have "cs = c" using joins that(1) uc [of c] by (auto simp: known_joins_def inj_on_def)
    ultimately show ?thesis using ne(2) by (simp add: changed_conts_def)
  qed
  have sub: "cs \<in> CS \<and> (?s cs \<noteq> [] \<or> ?p cs \<noteq> [])" if "cs \<in> set (changed_conts env stores ts vs e)" for cs
    using that uc [of cs] by (auto simp: changed_conts_def)
  show "{cs \<in> set (changed_conts env stores ts vs e). kind_of env stores ts vs cs = Some (AddJoin cs) \<and> h \<in> set cs} =
      live_joins env stores CS vs h - live_joins env stores CS ts h"
    using mem sub by (auto simp: kind_of_def join_kind_def live_joins_def split: if_splits)
  show "{cs \<in> set (changed_conts env stores ts vs e). kind_of env stores ts vs cs = Some (RemoveJoin cs) \<and> h \<in> set cs} =
      live_joins env stores CS ts h - live_joins env stores CS vs h"
    using mem sub by (auto simp: kind_of_def join_kind_def live_joins_def split: if_splits)
qed

lemma mset_joined_filter:
  "distinct L \<Longrightarrow> mset (map f (filter P L)) = image_mset f (mset_set {x \<in> set L. P x})"
  by (simp add: mset_set_set [symmetric] flip: set_filter)

lemma joins_value:
  assumes joins: "known_joins env CS jn" "joins_in_step env stores CS jn ts" "joins_in_step env stores CS jn vs"
    and log: "log_explains env stores CS ts vs e"
  shows "mset (new_value (bin env stores ts PREFIX_JOINS h) (joins_of_block env stores jn ts vs e h)) = mset (bin env stores vs PREFIX_JOINS h)"
proof -
  let ?L = "sort_key (join_ptr env) (changed_conts env stores ts vs e)" and ?f = "\<lambda>cs. ser_join (cenv env) (jn cs)"
  have fin: "finite (live_joins env stores CS us h)" for us using joins(1) by (simp add: live_joins_def known_joins_def)
  have L: "distinct ?L" "set ?L = set (changed_conts env stores ts vs e)"
    using unique_distinct(2) by (simp_all add: changed_conts_def distinct_filter)
  have "mset (added (joins_of_block env stores jn ts vs e h)) =
      image_mset ?f (mset_set (live_joins env stores CS vs h - live_joins env stores CS ts h))"
    "mset (removed (joins_of_block env stores jn ts vs e h)) =
      image_mset ?f (mset_set (live_joins env stores CS ts h - live_joins env stores CS vs h))"
    unfolding joins_of_block_def joined_def
    by (simp_all only: channel_change.simps mset_joined_filter [OF L(1)] L(2) live_changes [OF joins(1) log])
  then show ?thesis
    using joins(2,3) image_mset_exchange [OF fin [of ts] fin [of vs], of ?f] by (simp add: new_value_def joins_in_step_def)
qed

lemma joins_touched:
  assumes joins: "known_joins env CS jn" "joins_in_step env stores CS jn ts" "joins_in_step env stores CS jn vs"
    and log: "log_explains env stores CS ts vs e" and ok: "codec_ok (cenv env)"
  shows "(\<exists>cs \<in> set (changed_conts env stores ts vs e). kind_of env stores ts vs cs \<noteq> None \<and> h \<in> set cs) \<longleftrightarrow>
    mset (bin env stores ts PREFIX_JOINS h) \<noteq> mset (bin env stores vs PREFIX_JOINS h)"
proof -
  let ?f = "\<lambda>cs. ser_join (cenv env) (jn cs)"
  have "inj_on ?f CS"
  proof (rule inj_onI)
    fix x y assume "x \<in> CS" "y \<in> CS" "?f x = ?f y"
    moreover from this have "jn x = jn y" using ok unfolding codec_ok_def by (metis option.inject)
    ultimately show "x = y" using joins(1) unfolding known_joins_def by metis
  qed
  then have eq: "mset (bin env stores ts PREFIX_JOINS h) = mset (bin env stores vs PREFIX_JOINS h) \<longleftrightarrow>
      live_joins env stores CS ts h = live_joins env stores CS vs h"
    using joins image_mset_set_inj [of ?f CS "live_joins env stores CS ts h" "live_joins env stores CS vs h"]
    by (auto simp: joins_in_step_def known_joins_def live_joins_def)
  have kinds: "kind_of env stores ts vs cs \<noteq> None \<longleftrightarrow> kind_of env stores ts vs cs = Some (AddJoin cs) \<or> kind_of env stores ts vs cs = Some (RemoveJoin cs)" for cs
    by (auto simp: kind_of_def join_kind_def)
  have "(\<exists>cs \<in> set (changed_conts env stores ts vs e). kind_of env stores ts vs cs \<noteq> None \<and> h \<in> set cs) \<longleftrightarrow>
      {cs \<in> set (changed_conts env stores ts vs e). kind_of env stores ts vs cs = Some (AddJoin cs) \<and> h \<in> set cs}
      \<union> {cs \<in> set (changed_conts env stores ts vs e). kind_of env stores ts vs cs = Some (RemoveJoin cs) \<and> h \<in> set cs} \<noteq> {}"
    using kinds by blast
  then show ?thesis
    unfolding live_changes [OF joins(1) log] eq by blast
qed

subsection \<open>The actions of the change\<close>

text \<open>The new content of a key, and the keys the actions write.\<close>

definition merged_value ::
  "('c, 'p, 'a, 'k) repo_env \<Rightarrow> rspace_store \<Rightarrow> (bytes list \<Rightarrow> 'c list) \<Rightarrow> itree list \<Rightarrow> itree list \<Rightarrow> event_log_index \<Rightarrow>
   byte \<Rightarrow> bytes \<Rightarrow> bytes list" where
  "merged_value env stores jn ts vs e b h =
     new_value (bin env stores ts b h)
       (if b = PREFIX_JOINS then joins_of_block env stores jn ts vs e h
        else change_between (bin env stores ts b h) (bin env stores vs b h))"

lemma merged_value_mset:
  assumes "known_joins env CS jn" "joins_in_step env stores CS jn ts" "joins_in_step env stores CS jn vs" "log_explains env stores CS ts vs e"
  shows "mset (merged_value env stores jn ts vs e b h) = mset (bin env stores vs b h)"
  using joins_value [OF assms] by (simp add: merged_value_def)

lemma sort_graph: "sort_key fst (map (\<lambda>k. (k, g k)) ks) = map (\<lambda>k. (k, g k)) (sort ks)"
  using sort_key_graph [of "\<lambda>k. k"] by (simp add: case_prod_unfold)

lemma hm_keys_sorted:
  assumes "hm_ok m"
  shows "sort_key fst m = map (\<lambda>k. (k, the (hm_get m k))) (sort (hm_keys m))"
proof -
  have "(k, the (hm_get m k)) = e" if "e \<in> set m" "k = fst e" for e k
    using that assms by (metis hm_ok_def map_of_is_SomeI option.sel prod.collapse)
  then have "map (\<lambda>k. (k, the (hm_get m k))) (hm_keys m) = m"
    by (simp add: map_idI)
  then show ?thesis using sort_graph [of "\<lambda>k. the (hm_get m k)" "hm_keys m"] by simp
qed

lemma prefix_neq [simp]:
  "PREFIX_DATUM \<noteq> PREFIX_KONT" "PREFIX_DATUM \<noteq> PREFIX_JOINS" "PREFIX_KONT \<noteq> PREFIX_JOINS"
  "PREFIX_KONT \<noteq> PREFIX_DATUM" "PREFIX_JOINS \<noteq> PREFIX_DATUM" "PREFIX_JOINS \<noteq> PREFIX_KONT"
  by (simp_all add: PREFIX_DATUM_def PREFIX_KONT_def PREFIX_JOINS_def)

lemma compute_trie_actions_ok:
  assumes repo: "repo_ok env U L ts repo stores"
    and rd: "\<forall>pfx key. fetch_data env (history_kv stores) rd pfx key = Inr (root_leaves env stores ts (pfx # key))"
    and joins: "known_joins env CS jn" "joins_in_step env stores CS jn ts" "joins_in_step env stores CS jn vs"
    and log: "log_explains env stores CS ts vs e" and handler: "\<And>h ch. handler h ch nums = Inr None"
  obtains JS where "compute_trie_actions env (block_change env stores jn ts vs e) (history_kv stores) rd nums handler =
      Inr (map (\<lambda>(b, h). trie_write b h (merged_value env stores jn ts vs e b h))
        (map (Pair PREFIX_DATUM) (sort (changed_data env stores ts vs e))
         @ map (\<lambda>cs. (PREFIX_KONT, join_ptr env cs)) (sort_key (join_ptr env) (changed_conts env stores ts vs e))
         @ map (Pair PREFIX_JOINS) JS))"
    "distinct JS" "set JS = {h. mset (bin env stores ts PREFIX_JOINS h) \<noteq> mset (bin env stores vs PREFIX_JOINS h)}"
    "set JS \<subseteq> (\<Union>cs \<in> set (changed_conts env stores ts vs e). set cs)"
proof -
  let ?ch = "block_change env stores jn ts vs e" and ?KS = "sort_key (join_ptr env) (changed_conts env stores ts vs e)"
  let ?mv = "merged_value env stores jn ts vs e" and ?jb = "\<lambda>cs. ser_join (cenv env) (jn cs)"
  have ok: "codec_ok (cenv env)" using repo by (simp add: repo_ok_def env_good_def)
  note reads = binary_reads [OF repo repo_ok_holds [OF repo] rd]
  have conts: "sequence_res (map (consume_with_join_action env (get_continuations_proj_binary env (history_kv stores) rd))
      (sort_key (\<lambda>(cs, _). join_ptr env cs) (cont_changes ?ch))) =
    Inr (map (\<lambda>cs. \<lparr>consume_action = trie_write PREFIX_KONT (join_ptr env cs) (?mv PREFIX_KONT (join_ptr env cs)),
      join_action = kind_of env stores ts vs cs\<rparr>) ?KS)"
    unfolding block_change_def state_change.simps sort_key_graph map_map o_def
    by (rule sequence_res_map) (simp add: consume_with_join_write reads(2) changed_conts_def merged_value_def kind_of_def)
  have "sort_key fst (datums_changes ?ch) = map (\<lambda>h. (h, change_between (bin env stores ts PREFIX_DATUM h) (bin env stores vs PREFIX_DATUM h)))
      (sort (changed_data env stores ts vs e))"
    by (simp add: block_change_def sort_graph)
  then have data: "sequence_res (map (produce_trie_action (get_data_proj_binary env (history_kv stores) rd) nums handler)
      (sort_key fst (datums_changes ?ch))) =
    Inr (map (\<lambda>h. trie_write PREFIX_DATUM h (?mv PREFIX_DATUM h)) (sort (changed_data env stores ts vs e)))"
    by (simp only: map_map o_def)
      (rule sequence_res_map, simp add: produce_trie_action_def handler make_trie_action_write(1) [where init_value = "get_data_proj_binary env (history_kv stores) rd", OF reads(1)] changed_data_def
        merged_value_def)
  have body: "distinct cs \<and> hm_get (consume_channels_to_join_serialized_map ?ch) cs = Some (?jb cs)
      \<and> kind_of env stores ts vs cs \<in> {None, Some (AddJoin cs), Some (RemoveJoin cs)}" if "cs \<in> set ?KS" for cs
  proof -
    have cs: "cs \<in> set (unique_consume_channels e)" using that by (simp add: changed_conts_def)
    then have "cs \<in> CS" using log by (auto simp: log_explains_def list_all_iff)
    moreover have "hm_get (map (\<lambda>cs. (cs, ?jb cs)) (unique_consume_channels e)) cs = Some (?jb cs)"
      using cs by (simp add: map_of_map_restrict restrict_map_def)
    ultimately show ?thesis using joins(1) by (auto simp: known_joins_def block_change_def kind_of_def join_kind_def)
  qed
  obtain jc where jc: "fold_res (add_join_action (consume_channels_to_join_serialized_map ?ch)) [] (map (kind_of env stores ts vs) ?KS) = Inr jc"
    "hm_ok jc" "\<And>h. hm_get jc h = (if \<exists>cs \<in> set ?KS. kind_of env stores ts vs cs \<noteq> None \<and> h \<in> set cs
      then Some (joins_of_block env stores jn ts vs e h) else None)"
    using add_join_actions [of ?KS _ ?jb, OF body] unfolding joins_of_block_def by blast
  let ?JS = "sort (hm_keys jc)"
  have get: "hm_get jc h = (if mset (bin env stores ts PREFIX_JOINS h) \<noteq> mset (bin env stores vs PREFIX_JOINS h)
      then Some (joins_of_block env stores jn ts vs e h) else None)" for h
    using jc(3) [of h] joins_touched [OF joins log ok, of h] by simp
  have JS: "set ?JS = {h. mset (bin env stores ts PREFIX_JOINS h) \<noteq> mset (bin env stores vs PREFIX_JOINS h)}"
    using get by (auto simp: dom_map_of_conv_image_fst [symmetric] dom_def split: if_splits)
  have dist: "distinct ?JS" using jc(2) by (simp add: hm_ok_def)
  have sub: "set ?JS \<subseteq> (\<Union>cs \<in> set (changed_conts env stores ts vs e). set cs)"
    using JS joins_touched [OF joins log ok] by auto
  have "sequence_res (map (\<lambda>(h, change). make_trie_action h (get_joins_proj_binary env (history_kv stores) rd) change
      TrieDeleteJoins TrieInsertBinaryJoins) (sort_key fst jc)) = Inr (map (\<lambda>h. trie_write PREFIX_JOINS h (?mv PREFIX_JOINS h)) ?JS)"
    unfolding hm_keys_sorted [OF jc(2)] map_map o_def
  proof (rule sequence_res_map)
    fix h assume "h \<in> set ?JS"
    then have h: "mset (bin env stores ts PREFIX_JOINS h) \<noteq> mset (bin env stores vs PREFIX_JOINS h)" using JS by blast
    then have "mset (bin env stores ts PREFIX_JOINS h) \<noteq> mset (new_value (bin env stores ts PREFIX_JOINS h) (joins_of_block env stores jn ts vs e h))"
      using joins_value [OF joins log, of h] by simp
    from make_trie_action_write(2) [where h = h and init_value = "get_joins_proj_binary env (history_kv stores) rd" and
        change = "joins_of_block env stores jn ts vs e h", OF reads(3) this] h
    show "(case (h, the (hm_get jc h)) of (h, change) \<Rightarrow> make_trie_action h (get_joins_proj_binary env (history_kv stores) rd) change
        TrieDeleteJoins TrieInsertBinaryJoins) = Inr (trie_write PREFIX_JOINS h (?mv PREFIX_JOINS h))"
      by (simp add: get merged_value_def)
  qed
  then have "compute_trie_actions env ?ch (history_kv stores) rd nums handler =
      Inr (map (\<lambda>(b, h). trie_write b h (?mv b h)) (map (Pair PREFIX_DATUM) (sort (changed_data env stores ts vs e))
         @ map (\<lambda>cs. (PREFIX_KONT, join_ptr env cs)) ?KS @ map (Pair PREFIX_JOINS) ?JS))"
    unfolding compute_trie_actions_def conts data rbind_simps map_map o_def consume_and_join_actions.simps jc(1) by (simp add: o_def)
  from that [OF this dist JS sub] show ?thesis .
qed

subsection \<open>The merged root\<close>

lemma sorted_bin_eq:
  assumes "repo_ok env U L ts repo stores" "root_holds env U L stores vs"
    "mset (bin env stores ts b h) = mset (bin env stores vs b h)"
  shows "bin env stores ts b h = bin env stores vs b h"
  using properties_for_sort [OF assms(3) root_leaf_bin(1) [OF assms(1) repo_ok_holds [OF assms(1)]]]
    sorted_sort_id [OF root_leaf_bin(1) [OF assms(1,2)]] by simp

lemma leaf_prefix:
  assumes "root_holds env U L stores vs" "bin env stores vs b h \<noteq> []"
  shows "b \<in> {PREFIX_DATUM, PREFIX_KONT, PREFIX_JOINS}"
proof -
  obtain hh where "root_get vs (b # h) = Some hh"
  proof (cases "root_get vs (b # h)")
    case None
    then have "root_leaves env stores vs (b # h) = None" unfolding root_leaves_def leaf_at_def by (simp only: option.case)
    with assms(2) have False by (simp add: bin_def)
    then show ?thesis ..
  qed
  then obtain d where "leaf_kind d = b"
    using assms(1) unfolding root_holds_def content_ok_def by (metis list.sel(1))
  then show ?thesis by (cases d) auto
qed

lemma merge_writes:
  assumes repo: "repo_ok env U L ts repo stores" and vs: "root_holds env U L stores vs"
    and ne: "no_empty_leaf env stores ts" "no_empty_leaf env stores vs"
    and joins: "known_joins env CS jn" "joins_in_step env stores CS jn ts" "joins_in_step env stores CS jn vs"
    and log: "log_explains env stores CS ts vs e"
    and JS: "distinct JS" "set JS = {h. mset (bin env stores ts PREFIX_JOINS h) \<noteq> mset (bin env stores vs PREFIX_JOINS h)}"
      "set JS \<subseteq> (\<Union>cs \<in> set (changed_conts env stores ts vs e). set cs)"
  defines "keys \<equiv> map (Pair PREFIX_DATUM) (sort (changed_data env stores ts vs e))
         @ map (\<lambda>cs. (PREFIX_KONT, join_ptr env cs)) (sort_key (join_ptr env) (changed_conts env stores ts vs e))
         @ map (Pair PREFIX_JOINS) JS"
  shows "\<exists>repo' stores'. do_checkpoint env (map (\<lambda>(b, h). trie_write b h (merged_value env stores jn ts vs e b h)) keys) repo stores = Inr (repo', stores')
    \<and> repo_ok env U L vs repo' stores' \<and> repo_root repo' = tree_root env vs"
proof (rule writes_root [OF repo vs ne])
  have CS: "set (changed_conts env stores ts vs e) \<subseteq> CS" and inj: "inj_on (join_ptr env) CS"
    using log joins(1) by (auto simp: changed_conts_def log_explains_def list_all_iff known_joins_def)
  have set: "set keys = Pair PREFIX_DATUM ` set (changed_data env stores ts vs e)
      \<union> (\<lambda>cs. (PREFIX_KONT, join_ptr env cs)) ` set (changed_conts env stores ts vs e) \<union> Pair PREFIX_JOINS ` set JS"
    by (auto simp: keys_def)
  show "puts env b h (bin env stores vs b h) (trie_write b h (merged_value env stores jn ts vs e b h)) \<and> length h = 32"
    if "(b, h) \<in> set keys" for b h
  proof
    show "puts env b h (bin env stores vs b h) (trie_write b h (merged_value env stores jn ts vs e b h))"
      using that by (intro trie_write_puts merged_value_mset [OF joins log] root_leaf_bin(1) [OF repo vs]) (auto simp: set)
    show "length h = 32"
      using that log joins(1) CS JS(3)
      by (auto simp: set changed_data_def log_explains_def list_all_iff known_joins_def; blast)
  qed
  have "distinct (changed_data env stores ts vs e)" "distinct (changed_conts env stores ts vs e)"
    using unique_distinct by (simp_all add: changed_data_def changed_conts_def)
  then show "distinct keys"
    using JS(1) inj_on_subset [OF inj CS] by (auto simp: keys_def distinct_map inj_on_def)
  show "bin env stores ts b h = bin env stores vs b h" if nk: "(b, h) \<notin> set keys" for b h
  proof (rule ccontr)
    assume diff: "bin env stores ts b h \<noteq> bin env stores vs b h"
    then have md: "mset (bin env stores ts b h) \<noteq> mset (bin env stores vs b h)" using sorted_bin_eq [OF repo vs] by blast
    have "b \<in> {PREFIX_DATUM, PREFIX_KONT, PREFIX_JOINS}"
      using diff leaf_prefix [OF vs] leaf_prefix [OF repo_ok_holds [OF repo]] by metis
    then consider "b = PREFIX_DATUM" | "b = PREFIX_KONT" | "b = PREFIX_JOINS" by blast
    then show False
    proof cases
      case 1
      with diff md log have "h \<in> set (changed_data env stores ts vs e)" by (simp add: changed_data_def log_explains_def)
      with 1 nk show ?thesis unfolding set by blast
    next
      case 2
      with diff log obtain cs where "h = join_ptr env cs" "cs \<in> set (unique_consume_channels e)"
        unfolding log_explains_def by blast
      with 2 md nk show ?thesis unfolding set changed_conts_def by auto
    next
      case 3
      with md JS(2) nk show ?thesis unfolding set by blast
    qed
  qed
qed

subsection \<open>An example\<close>

text \<open>A block that produced one datum on an empty state.\<close>

definition demo_block_log :: event_log_index where
  "demo_block_log = index_new [IoEvent (ProduceEvent (d_source demo_put))] (\<lambda>_. False) (\<lambda>_. False) []"

lemma demo_block_channels:
  "unique_produce_channels demo_block_log = [hash_channel (henv demo_renv) 1]" "unique_consume_channels demo_block_log = []"
  by (simp_all add: demo_block_log_def demo_put_def datum_create_def produce_create_def index_new_def index_events_def empty_index_def
      unique_produce_channels_def unique_consume_channels_def produces_affected_def consumes_affected_def produces_created_def
      consumes_created_def produces_created_and_not_destroyed_def consumes_created_and_not_destroyed_def Let_def hset_union_def
      hset_difference_def hset_collect_def hset_insert_def hset_contains_def)

lemma demo_block_stores:
  obtains repo stores where "repo_ok demo_renv demo_U {demo_leaf} empties repo stores" "root_holds demo_renv demo_U {demo_leaf} stores demo_tree"
    "root_leaves demo_renv stores empties = (\<lambda>_. None)"
    "root_leaves demo_renv stores demo_tree = [PREFIX_DATUM # hash_channel (henv demo_renv) 1 \<mapsto> demo_leaf]"
proof -
  obtain repo' stores' where cp: "checkpointed demo_renv demo_U {demo_leaf} empties demo_hs demo_stores repo' stores'"
    using repo_checkpoint_ok [OF demo_repo_ok demo_over demo_fits] by blast
  note r = checkpointedD [OF cp]
  have none: "root_leaves demo_renv st empties = (\<lambda>_. None)" for st
    by (simp add: root_leaves_def leaf_at_def root_get_empties fun_eq_iff)
  have holds: "root_holds demo_renv demo_U {demo_leaf} stores' empties"
    using root_holds_mono [OF r(2,3) repo_ok_holds [OF demo_repo_ok]] by simp
  have "hm_get (roots_kv stores') (tree_root demo_renv empties) \<noteq> None"
    by (rule r(4)) (simp add: demo_stores_def)
  from repo_reset_ok [OF r(1) holds this] obtain repo stores where
    repo: "repo_ok demo_renv demo_U {demo_leaf} empties repo stores" "history_kv stores = history_kv stores'" "cold_kv stores = cold_kv stores'"
    by blast
  have "root_holds demo_renv demo_U {demo_leaf} stores demo_tree"
    using repo_ok_holds [OF r(1)] repo(2,3) by (simp add: root_holds_def demo_checkpoint_tree)
  moreover have "root_leaves demo_renv stores demo_tree = [PREFIX_DATUM # hash_channel (henv demo_renv) 1 \<mapsto> demo_leaf]"
    using r(6) repo(3)
    by (simp add: demo_checkpoint_tree root_leaves_def [of _ stores] root_leaves_def [of _ stores'] none demo_changes trie_step_def Let_def
        prepend_bytes_def demo_leaf_def)
  ultimately show ?thesis using that repo(1) none by blast
qed

lemma demo_block_bin:
  assumes "root_leaves demo_renv stores empties = (\<lambda>_. None)"
    "root_leaves demo_renv stores demo_tree = [PREFIX_DATUM # hash_channel (henv demo_renv) 1 \<mapsto> demo_leaf]"
  shows "bin demo_renv stores empties b h = []"
    "bin demo_renv stores demo_tree b h =
      (if b = PREFIX_DATUM \<and> h = hash_channel (henv demo_renv) 1 then [ser_datum_rec (cenv demo_renv) demo_put] else [])"
proof -
  have "de_vec (cenv demo_renv) (ser_vec (cenv demo_renv) xs) = Some xs" for xs
    using demo_renv_good by (simp add: env_good_def codec_ok_def)
  then show "bin demo_renv stores empties b h = []" "bin demo_renv stores demo_tree b h =
      (if b = PREFIX_DATUM \<and> h = hash_channel (henv demo_renv) 1 then [ser_datum_rec (cenv demo_renv) demo_put] else [])"
    using assms by (simp_all add: bin_def demo_leaf_def encode_datums_def)
qed

subsection \<open>Property\<close>

text \<open>C21. Merging a block into its own pre-state: the change between two roots, computed from the block's log, turns into trie
  actions on the first root, and a checkpoint of these actions succeeds and leads to the second root, with all its leaves.\<close>

theorem merge_own_change:
  assumes repo: "repo_ok env U L ts repo stores" and vs: "root_holds env U L stores vs"
    and ne: "no_empty_leaf env stores ts" "no_empty_leaf env stores vs"
    and joins: "known_joins env CS jn" "joins_in_step env stores CS jn ts" "joins_in_step env stores CS jn vs"
    and log: "log_explains env stores CS ts vs e" and handler: "\<And>h ch. handler h ch nums = Inr None"
  shows "\<exists>pre post change actions repo' stores'.
    get_history_reader env (tree_root env ts) repo stores = Inr pre
    \<and> get_history_reader env (tree_root env vs) repo stores = Inr post
    \<and> state_change_new env (history_kv stores) pre post e = Inr change
    \<and> compute_trie_actions env change (history_kv stores) pre nums handler = Inr actions
    \<and> do_checkpoint env actions repo stores = Inr (repo', stores')
    \<and> repo_root repo' = tree_root env vs \<and> repo_ok env U L vs repo' stores'"
proof -
  obtain pre where pre: "get_history_reader env (tree_root env ts) repo stores = Inr pre"
    "\<forall>pfx key. fetch_data env (history_kv stores) pre pfx key = Inr (root_leaves env stores ts (pfx # key))"
    using get_history_reader_ok [OF repo repo_ok_holds [OF repo]] by blast
  obtain post where post: "get_history_reader env (tree_root env vs) repo stores = Inr post"
    "\<forall>pfx key. fetch_data env (history_kv stores) post pfx key = Inr (root_leaves env stores vs (pfx # key))"
    using get_history_reader_ok [OF repo vs] by blast
  note change = state_change_new_ok [OF repo vs pre(2) post(2) joins log]
  obtain JS where "compute_trie_actions env (block_change env stores jn ts vs e) (history_kv stores) pre nums handler =
      Inr (map (\<lambda>(b, h). trie_write b h (merged_value env stores jn ts vs e b h))
        (map (Pair PREFIX_DATUM) (sort (changed_data env stores ts vs e))
         @ map (\<lambda>cs. (PREFIX_KONT, join_ptr env cs)) (sort_key (join_ptr env) (changed_conts env stores ts vs e))
         @ map (Pair PREFIX_JOINS) JS))"
    and JS: "distinct JS" "set JS = {h. mset (bin env stores ts PREFIX_JOINS h) \<noteq> mset (bin env stores vs PREFIX_JOINS h)}"
    "set JS \<subseteq> (\<Union>cs \<in> set (changed_conts env stores ts vs e). set cs)"
    by (rule compute_trie_actions_ok [where handler = handler and nums = nums, OF repo pre(2) joins log handler])
  with merge_writes [OF repo vs ne joins log JS] pre(1) post(1) change show ?thesis by blast
qed

theorem merge_own_change_witness:
  "\<exists>repo stores pre post change actions repo' stores'.
    state_change_new demo_renv (history_kv stores) pre post demo_block_log = Inr change
    \<and> compute_trie_actions demo_renv change (history_kv stores) pre [] (\<lambda>_ _ _. Inr None) = Inr actions
    \<and> do_checkpoint demo_renv actions repo stores = Inr (repo', stores')
    \<and> repo_root repo = tree_root demo_renv empties \<and> repo_root repo' = tree_root demo_renv demo_tree"
proof -
  obtain repo stores where repo: "repo_ok demo_renv demo_U {demo_leaf} empties repo stores"
    "root_holds demo_renv demo_U {demo_leaf} stores demo_tree" and leaves: "root_leaves demo_renv stores empties = (\<lambda>_. None)"
    "root_leaves demo_renv stores demo_tree = [PREFIX_DATUM # hash_channel (henv demo_renv) 1 \<mapsto> demo_leaf]"
    by (rule demo_block_stores)
  note bins = demo_block_bin [OF leaves]
  have "de_vec (cenv demo_renv) (ser_vec (cenv demo_renv) xs) = Some xs" for xs
    using demo_renv_good by (simp add: env_good_def codec_ok_def)
  then have ne: "no_empty_leaf demo_renv stores empties" "no_empty_leaf demo_renv stores demo_tree"
    using leaves by (auto simp: no_empty_leaf_def demo_leaf_def encode_datums_def split: if_splits)
  have joins: "known_joins demo_renv {} (\<lambda>_. [])" "joins_in_step demo_renv stores {} (\<lambda>_. []) empties"
    "joins_in_step demo_renv stores {} (\<lambda>_. []) demo_tree"
    by (simp_all add: known_joins_def joins_in_step_def live_joins_def bins)
  have log: "log_explains demo_renv stores {} empties demo_tree demo_block_log"
    using demo_hash_length by (simp add: log_explains_def demo_block_channels bins hash_channel_def hash_env.truncate_def)
  from merge_own_change [OF repo ne joins log, where handler = "\<lambda>_ _ _. Inr None" and nums = "[]"] repo_ok_root [OF repo(1)]
  show ?thesis by blast
qed

end
