(* ===== verification/Blake2b512.thy ===== *)
theory Blake2b512
  imports Prelude
begin

section \<open>The splittable random generator\<close>

text \<open>
  crypto/src/rust/hash/blake2b512_block.rs and blake2b512_random.rs: the compression function of
  BLAKE2b on blocks of 128 bytes, and the generator of unforgeable names built on it. \<open>i8\<close> and
  \<open>u8\<close> are 8-bit words, \<open>i64\<close> and \<open>u64\<close> are 64-bit words; additions wrap. An index out of range
  and a failed \<open>assert!\<close> are panics.
\<close>

unbundle bit_operations_syntax

type_synonym long = "64 word"

subsection \<open>Little endian\<close>

definition to_le_bytes :: "nat \<Rightarrow> 'w :: len word \<Rightarrow> bytes" where
  "to_le_bytes n w = map (\<lambda>i. ucast (drop_bit (i * 8) w)) [0..<n]"

fun from_le_bytes :: "bytes \<Rightarrow> 'w :: len word" where
  "from_le_bytes [] = 0"
| "from_le_bytes (b # bs) = ucast b OR push_bit 8 (from_le_bytes bs)"

text \<open>\<open>output[offset..offset + n].copy_from_slice(src)\<close>.\<close>

definition overwrite :: "'a list \<Rightarrow> nat \<Rightarrow> 'a list \<Rightarrow> 'a list" where
  "overwrite xs offset ys = take offset xs @ ys @ drop (offset + length ys) xs"

definition slice :: "nat \<Rightarrow> nat \<Rightarrow> 'a list \<Rightarrow> 'a list" where
  "slice offset n xs = take n (drop offset xs)"

subsection \<open>The compression function\<close>

record blake2b512_block =
  chain_value :: "long list"
  t0 :: long
  t1 :: long

definition IV :: "long list" where
  "IV = [0x6a09e667f3bcc908, 0xbb67ae8584caa73b, 0x3c6ef372fe94f82b, 0xa54ff53a5f1d36f1,
         0x510e527fade682d1, 0x9b05688c2b3e6c1f, 0x1f83d9abfb41bd6b, 0x5be0cd19137e2179]"

definition BLAKE_SIGMA :: "nat list list" where
  "BLAKE_SIGMA =
    [[0, 1, 2, 3, 4, 5, 6, 7, 8, 9, 10, 11, 12, 13, 14, 15],
     [14, 10, 4, 8, 9, 15, 13, 6, 1, 12, 0, 2, 11, 7, 5, 3],
     [11, 8, 12, 0, 5, 2, 15, 13, 10, 14, 3, 6, 7, 1, 9, 4],
     [7, 9, 3, 1, 13, 12, 11, 14, 2, 6, 5, 10, 4, 0, 15, 8],
     [9, 0, 5, 7, 2, 4, 10, 15, 14, 1, 11, 12, 6, 8, 3, 13],
     [2, 12, 6, 10, 0, 11, 8, 3, 4, 13, 7, 5, 15, 14, 1, 9],
     [12, 5, 1, 15, 14, 13, 4, 10, 0, 7, 6, 3, 9, 2, 8, 11],
     [13, 11, 7, 14, 12, 1, 3, 9, 5, 0, 15, 4, 8, 6, 2, 10],
     [6, 15, 14, 9, 11, 3, 0, 8, 12, 2, 13, 7, 1, 4, 10, 5],
     [10, 2, 8, 4, 7, 6, 1, 5, 15, 11, 9, 14, 3, 12, 13, 0],
     [0, 1, 2, 3, 4, 5, 6, 7, 8, 9, 10, 11, 12, 13, 14, 15],
     [14, 10, 4, 8, 9, 15, 13, 6, 1, 12, 0, 2, 11, 7, 5, 3]]"

definition ROUNDS :: nat where "ROUNDS = 12"
definition CHAIN_VALUE_LENGTH :: nat where "CHAIN_VALUE_LENGTH = 8"
definition BLOCK_LENGTH_BYTES :: long where "BLOCK_LENGTH_BYTES = 128"
definition BLOCK_LENGTH_LONGS :: nat where "BLOCK_LENGTH_LONGS = 16"
definition PARAM_VALUE_0 :: long where "PARAM_VALUE_0 = 0xff000040"
definition PARAM_VALUE_2 :: long where "PARAM_VALUE_2 = 0x2000"

definition new_from_fanout :: "byte \<Rightarrow> blake2b512_block" where
  "new_from_fanout fanout =
     (let param0_with_fanout = PARAM_VALUE_0 OR push_bit 16 (ucast fanout AND 0xff);
          cv = take CHAIN_VALUE_LENGTH IV;
          cv = cv[0 := cv ! 0 XOR param0_with_fanout];
          cv = cv[2 := cv ! 2 XOR PARAM_VALUE_2]
      in \<lparr>chain_value = cv, t0 = 0, t1 = 0\<rparr>)"

definition new_from_src :: "blake2b512_block \<Rightarrow> blake2b512_block" where
  "new_from_src src = \<lparr>chain_value = take CHAIN_VALUE_LENGTH (chain_value src), t0 = t0 src, t1 = t1 src\<rparr>"

text \<open>The mixing function.\<close>

definition rotr64 :: "long \<Rightarrow> nat \<Rightarrow> long" where
  "rotr64 x rot = drop_bit rot x OR push_bit (64 - rot) x"

definition mix :: "long \<Rightarrow> long \<Rightarrow> nat \<Rightarrow> nat \<Rightarrow> nat \<Rightarrow> nat \<Rightarrow> long list \<Rightarrow> long list" where
  "mix m1 m2 pos_a pos_b pos_c pos_d s =
     (let s = s[pos_a := s ! pos_a + s ! pos_b + m1];
          s = s[pos_d := rotr64 (s ! pos_d XOR s ! pos_a) 32];
          s = s[pos_c := s ! pos_c + s ! pos_d];
          s = s[pos_b := rotr64 (s ! pos_b XOR s ! pos_c) 24];
          s = s[pos_a := s ! pos_a + s ! pos_b + m2];
          s = s[pos_d := rotr64 (s ! pos_d XOR s ! pos_a) 16];
          s = s[pos_c := s ! pos_c + s ! pos_d];
          s = s[pos_b := rotr64 (s ! pos_b XOR s ! pos_c) 63]
      in s)"

definition mix_round :: "long list \<Rightarrow> nat list \<Rightarrow> long list \<Rightarrow> long list" where
  "mix_round m sigma s =
     (let s = mix (m ! (sigma ! 0)) (m ! (sigma ! 1)) 0 4 8 12 s;
          s = mix (m ! (sigma ! 2)) (m ! (sigma ! 3)) 1 5 9 13 s;
          s = mix (m ! (sigma ! 4)) (m ! (sigma ! 5)) 2 6 10 14 s;
          s = mix (m ! (sigma ! 6)) (m ! (sigma ! 7)) 3 7 11 15 s;
          s = mix (m ! (sigma ! 8)) (m ! (sigma ! 9)) 0 5 10 15 s;
          s = mix (m ! (sigma ! 10)) (m ! (sigma ! 11)) 1 6 11 12 s;
          s = mix (m ! (sigma ! 12)) (m ! (sigma ! 13)) 2 7 8 13 s;
          s = mix (m ! (sigma ! 14)) (m ! (sigma ! 15)) 3 4 9 14 s
      in s)"

definition message_words :: "bytes \<Rightarrow> nat \<Rightarrow> long list" where
  "message_words msg offset =
     map (\<lambda>i. if offset + i * 8 + 8 \<le> length msg then from_le_bytes (slice (offset + i * 8) 8 msg) else 0)
       [0..<BLOCK_LENGTH_LONGS]"

definition initial_state :: "blake2b512_block \<Rightarrow> long \<Rightarrow> long \<Rightarrow> bool \<Rightarrow> bool \<Rightarrow> long list" where
  "initial_state b new_t0 new_t1 fin root_fin =
     (let s = chain_value b @ IV;
          f0 = (if fin then 0xffffffffffffffff else 0);
          f1 = (if root_fin then 0xffffffffffffffff else 0)
      in s[12 := new_t0 XOR IV ! 4, 13 := new_t1 XOR IV ! 5, 14 := f0 XOR IV ! 6, 15 := f1 XOR IV ! 7])"

text \<open>
  The result is the block, changed unless \<open>peek\<close>, and the new chain value of the peek.
  Copying a chain value of another length than eight panics.
\<close>

definition compress ::
  "bytes \<Rightarrow> nat \<Rightarrow> long list \<Rightarrow> bool \<Rightarrow> bool \<Rightarrow> bool \<Rightarrow> blake2b512_block \<Rightarrow> ('e, blake2b512_block \<times> long list) res" where
  "compress msg offset new_chain_value peek fin root_fin b =
     (if length (chain_value b) \<noteq> 8 then Inl (Panic ''copy_from_slice: source slice length does not match'')
      else let new_t0 = t0 b + BLOCK_LENGTH_BYTES;
               new_t1 = (if new_t0 = 0 then t1 b + 1 else t1 b);
               m = message_words msg offset;
               s = foldl (\<lambda>s sigma. mix_round m sigma s) (initial_state b new_t0 new_t1 fin root_fin) (take ROUNDS BLAKE_SIGMA);
               result = map (\<lambda>i. chain_value b ! i XOR s ! i XOR s ! (i + 8)) [0..<CHAIN_VALUE_LENGTH]
           in if \<not> peek then Inr (\<lparr>chain_value = result, t0 = new_t0, t1 = new_t1\<rparr>, new_chain_value)
              else Inr (b, result))"

definition update :: "bytes \<Rightarrow> nat \<Rightarrow> blake2b512_block \<Rightarrow> ('e, blake2b512_block) res" where
  "update block offset b = rbind (compress block offset (chain_value b) False False False b) (\<lambda>(b', _). Inr b')"

definition peek_final_root :: "bytes \<Rightarrow> nat \<Rightarrow> bytes \<Rightarrow> nat \<Rightarrow> blake2b512_block \<Rightarrow> ('e, bytes) res" where
  "peek_final_root block in_offset output out_offset b =
     rbind (compress block in_offset (replicate 8 0) True True True b) (\<lambda>(_, cv).
       Inr (foldl (\<lambda>out (i, value). overwrite out (out_offset + i * 8) (to_le_bytes 8 value)) output (enumerate 0 cv)))"

definition finalize_internal :: "bytes \<Rightarrow> nat \<Rightarrow> bytes \<Rightarrow> nat \<Rightarrow> blake2b512_block \<Rightarrow> ('e, bytes) res" where
  "finalize_internal block in_offset output out_offset b =
     rbind (compress block in_offset (replicate 8 0) True True False b) (\<lambda>(_, cv).
       Inr (foldl (\<lambda>out i. overwrite out (out_offset + i * 8) (to_le_bytes 8 (cv ! i))) output [0..<4]))"

definition block_to_bytes :: "blake2b512_block \<Rightarrow> bytes" where
  "block_to_bytes b = concat (map (to_le_bytes 8) (chain_value b)) @ to_le_bytes 8 (t0 b) @ to_le_bytes 8 (t1 b)"

definition block_from_bytes :: "bytes \<Rightarrow> ('e, blake2b512_block) res" where
  "block_from_bytes bs =
     (if length bs \<noteq> 8 * 8 + 2 * 8 then Inl (Panic ''Invalid byte length for Blake2b512Block'')
      else Inr \<lparr>chain_value = map (\<lambda>i. from_le_bytes (slice (i * 8) 8 bs)) [0..<8],
                t0 = from_le_bytes (slice 64 8 bs), t1 = from_le_bytes (slice 72 8 bs)\<rparr>)"

subsection \<open>The generator\<close>

record blake2b512_random =
  digest :: blake2b512_block
  last_block :: bytes
  path_view :: bytes
  count_view :: "long list"
  hash_array :: bytes
  position_r :: long
  path_position :: nat

definition random_new :: "blake2b512_block \<Rightarrow> bytes \<Rightarrow> blake2b512_random" where
  "random_new d lb =
     \<lparr>digest = d, last_block = lb, path_view = replicate 112 0,
      count_view = map (\<lambda>i. from_le_bytes (slice (i * 8) 8 lb)) [0..<length lb div 8],
      hash_array = replicate 64 0, position_r = 0, path_position = 0\<rparr>"

text \<open>The positions \<open>(offset..offset + length - 127).step_by(128)\<close> of the full blocks.\<close>

definition block_bases :: "nat \<Rightarrow> nat \<Rightarrow> nat list" where
  "block_bases offset len = (if len > 127 then map (\<lambda>i. offset + i * 128) [0..<(len - 127 + 127) div 128] else [])"

definition random_create :: "bytes \<Rightarrow> nat \<Rightarrow> nat \<Rightarrow> ('e, blake2b512_random) res" where
  "random_create init offset len =
     (let result = random_new (new_from_fanout 0) (replicate 128 0);
          range = block_bases offset len
      in rbind (fold_res (\<lambda>d base. update init base d) (digest result) range) (\<lambda>d.
         let partial_base = (if range = [] then offset else last range + 128)
         in if offset + len \<noteq> partial_base
            then let remainder_length = (offset + len) - partial_base;
                     padded = overwrite (replicate 128 0) 0 (slice partial_base remainder_length init)
                 in rbind (update padded 0 d) (\<lambda>d'. Inr (result\<lparr>digest := d'\<rparr>))
            else Inr (result\<lparr>digest := d\<rparr>)))"

definition create_from_bytes :: "bytes \<Rightarrow> ('e, blake2b512_random) res" where
  "create_from_bytes init = random_create init 0 (length init)"

definition random_copy :: "blake2b512_random \<Rightarrow> ('e, blake2b512_random) res" where
  "random_copy r =
     (if length (last_block r) \<noteq> 128 then Inl (Panic ''copy_from_slice: source slice length does not match'')
      else Inr ((random_new (new_from_src (digest r)) (last_block r))\<lparr>path_position := path_position r\<rparr>))"

definition add_byte :: "byte \<Rightarrow> blake2b512_random \<Rightarrow> ('e, blake2b512_random) res" where
  "add_byte index r =
     rbind (if path_position r = 112
            then rbind (update (last_block r) 0 (digest r)) (\<lambda>d.
                   Inr (r\<lparr>digest := d, last_block := replicate (length (last_block r)) 0, path_position := 0\<rparr>))
            else Inr r) (\<lambda>r.
       if path_position r < 112
       then if path_position r < length (path_view r) \<and> path_position r < length (last_block r)
            then Inr (r\<lparr>path_view := (path_view r)[path_position r := index],
                        last_block := (last_block r)[path_position r := index],
                        path_position := path_position r + 1\<rparr>)
            else Inl (Panic ''index out of bounds'')
       else if 112 \<le> length (last_block r)
            then Inr (r\<lparr>last_block := (overwrite (last_block r) 0 (slice 1 111 (last_block r)))[111 := index]\<rparr>)
            else Inl (Panic ''range end index out of range''))"

definition split_byte :: "byte \<Rightarrow> blake2b512_random \<Rightarrow> ('e, blake2b512_random) res" where
  "split_byte index r = rbind (random_copy r) (add_byte index)"

definition split_short :: "16 word \<Rightarrow> blake2b512_random \<Rightarrow> ('e, blake2b512_random) res" where
  "split_short index r =
     rbind (random_copy r) (\<lambda>split.
     let packed = to_le_bytes 2 index
     in rbind (add_byte (packed ! 0) split) (add_byte (packed ! 1)))"

text \<open>The counter is the last sixteen bytes of the block, low word first.\<close>

definition random_hash :: "blake2b512_random \<Rightarrow> ('e, blake2b512_random) res" where
  "random_hash r =
     rbind (peek_final_root (last_block r) 0 (hash_array r) 0 (digest r)) (\<lambda>h.
       if length (count_view r) < 16 \<or> length (last_block r) < 128 then Inl (Panic ''index out of bounds'')
       else let low = count_view r ! 14;
                cv = (if low = - 1 then (count_view r)[14 := 0, 15 := count_view r ! 15 + 1]
                      else (count_view r)[14 := low + 1])
            in Inr (r\<lparr>hash_array := h, count_view := cv,
                      last_block := overwrite (overwrite (last_block r) 112 (to_le_bytes 8 (cv ! 14)))
                                      120 (to_le_bytes 8 (cv ! 15))\<rparr>))"

definition random_next :: "blake2b512_random \<Rightarrow> ('e, bytes \<times> blake2b512_random) res" where
  "random_next r =
     (if position_r r = 0
      then rbind (random_hash r) (\<lambda>r'. Inr (slice 0 32 (hash_array r'), r'\<lparr>position_r := 32\<rparr>))
      else Inr (slice 32 32 (hash_array r), r\<lparr>position_r := 0\<rparr>))"

subsection \<open>Merging generators\<close>

text \<open>\<open>slice::chunks_mut\<close>.\<close>

function chunks :: "nat \<Rightarrow> 'a list \<Rightarrow> 'a list list" where
  "chunks n xs = (if n = 0 \<or> xs = [] then [] else take n xs # chunks n (drop n xs))"
  by pat_completeness auto
termination by (relation "measure (\<lambda>(n, xs). length xs)") auto

declare chunks.simps [simp del]

text \<open>
  The digests of four children fill the chain block. The code copies the rest of the chain block
  into a local blank block when there are fewer than four, which leaves the chain block as it is.
\<close>

definition merge_quad :: "blake2b512_random list \<Rightarrow> bytes \<Rightarrow> ('e, bytes) res" where
  "merge_quad quad chain_block =
     fold_res (\<lambda>cb (i, child). finalize_internal (last_block child) 0 cb (i * 32) (digest child)) chain_block (enumerate 0 quad)"

definition merge_slice :: "blake2b512_random list \<Rightarrow> bytes \<Rightarrow> ('e, blake2b512_random \<times> bytes) res" where
  "merge_slice slc chain_block =
     (let result = random_new (new_from_fanout (of_nat (length slc))) (replicate 128 0)
      in rbind (fold_res (\<lambda>(d, cb) quad.
             rbind (merge_quad quad cb) (\<lambda>cb'. rbind (update cb' 0 d) (\<lambda>d'. Inr (d', cb'))))
           (digest result, chain_block) (chunks 4 slc)) (\<lambda>(d, cb).
         Inr (result\<lparr>digest := d\<rparr>, cb)))"

definition merge_level ::
  "blake2b512_random list \<Rightarrow> bytes \<Rightarrow> ('e, blake2b512_random list \<times> bytes) res" where
  "merge_level children chain_block =
     fold_res (\<lambda>(squashed, cb) slc. rbind (merge_slice slc cb) (\<lambda>(r, cb'). Inr (squashed @ [r], cb')))
       ([], chain_block) (chunks 255 children)"

lemma fold_res_grows:
  assumes "fold_res (\<lambda>(acc, s) x. rbind (f x s) (\<lambda>(r, s'). Inr (acc @ [r], s'))) (acc, s) xs = Inr (acc', s')"
  shows "length acc' = length acc + length xs"
  using assms by (induction xs arbitrary: acc s) fastforce+

lemma length_chunks_le: "length (chunks n xs) \<le> length xs"
proof (induction n xs rule: chunks.induct)
  case (1 n xs)
  then show ?case by (subst chunks.simps) (cases xs, auto)
qed

lemma length_chunks_less:
  assumes "1 < n" "1 < length xs" shows "length (chunks n xs) < length xs"
  using assms length_chunks_le [of n "drop n xs"] by (subst chunks.simps) auto

lemma merge_level_shorter:
  assumes "merge_level children cb = (Inr (children', cb') :: ('e, _) res)" "1 < length children"
  shows "length children' < length children"
  using fold_res_grows [OF assms(1) [unfolded merge_level_def]] length_chunks_less [of 255 children] assms(2) by simp

function merge_loop :: "blake2b512_random list \<Rightarrow> bytes \<Rightarrow> ('e, blake2b512_random list) res" where
  "merge_loop children chain_block =
     (if length children > 1
      then rbind (merge_level children chain_block) (\<lambda>(children', cb'). merge_loop children' cb')
      else Inr children)"
  by pat_completeness auto
termination
  by (relation "measure (\<lambda>(children, _). length children)") (auto dest: merge_level_shorter)

declare merge_loop.simps [simp del]

definition random_merge :: "blake2b512_random list \<Rightarrow> ('e, blake2b512_random) res" where
  "random_merge children =
     (if length children < 2 then Inl (Panic ''Blake2b512Random should have at least 2 inputs to merge.'')
      else rbind (merge_loop children (replicate 128 0)) (\<lambda>cs. Inr (cs ! 0)))"

subsection \<open>Serialisation\<close>

definition random_to_bytes :: "blake2b512_random \<Rightarrow> bytes" where
  "random_to_bytes r =
     block_to_bytes (digest r)
     @ to_le_bytes 4 (of_nat (length (last_block r)) :: 32 word) @ last_block r
     @ to_le_bytes 4 (of_nat (length (path_view r)) :: 32 word) @ path_view r
     @ to_le_bytes 4 (of_nat (length (count_view r)) :: 32 word) @ concat (map (to_le_bytes 8) (count_view r))
     @ hash_array r @ to_le_bytes 8 (position_r r) @ to_le_bytes 4 (of_nat (path_position r) :: 32 word)"

text \<open>
  \<open>take_bytes n\<close> is a read of \<open>n\<close> bytes at the offset: \<open>None\<close> when they are not there, the rest of
  the input otherwise. A prefixed vector has its length in front.
\<close>

definition take_bytes :: "nat \<Rightarrow> bytes \<Rightarrow> (bytes \<times> bytes) option" where
  "take_bytes n bs = (if n \<le> length bs then Some (take n bs, drop n bs) else None)"

definition take_prefixed :: "nat \<Rightarrow> bytes \<Rightarrow> (bytes \<times> bytes) option" where
  "take_prefixed width bs =
     Option.bind (take_bytes 4 bs) (\<lambda>(len, rest). take_bytes (unat (from_le_bytes len :: 32 word) * width) rest)"

definition parse_random :: "bytes \<Rightarrow> blake2b512_random option" where
  "parse_random bs =
     Option.bind (take_bytes 80 bs) (\<lambda>(dig, bs).
     Option.bind (take_prefixed 1 bs) (\<lambda>(lb, bs).
     Option.bind (take_prefixed 1 bs) (\<lambda>(pv, bs).
     Option.bind (take_prefixed 8 bs) (\<lambda>(cv, bs).
     Option.bind (take_bytes 64 bs) (\<lambda>(ha, bs).
     Option.bind (take_bytes 8 bs) (\<lambda>(pos, bs).
     Option.bind (take_bytes 4 bs) (\<lambda>(pp, _).
       (case block_from_bytes dig :: (unit, _) res of
          Inl _ \<Rightarrow> None
        | Inr d \<Rightarrow> Some \<lparr>digest = d, last_block = lb, path_view = pv, count_view = map from_le_bytes (chunks 8 cv),
                          hash_array = ha, position_r = from_le_bytes pos,
                          path_position = unat (from_le_bytes pp :: 32 word)\<rparr>))))))))"

definition random_from_bytes :: "bytes \<Rightarrow> ('e, blake2b512_random) res" where
  "random_from_bytes bs =
     (if bs = [] then create_from_bytes []
      else case parse_random bs of Some r \<Rightarrow> Inr r | None \<Rightarrow> create_from_bytes [])"

end
