(* ===== verification/Blake2b512Spec.thy ===== *)
theory Blake2b512Spec
  imports Blake2b512
begin

section \<open>Correctness of the random generator\<close>

text \<open>
  The well-formedness of a generator and that every operation keeps it, without a panic; the
  round trip of its serialisation; the blocks its output is the hash of.
\<close>

subsection \<open>Words and bytes\<close>

lemma length_to_le_bytes [simp]: "length (to_le_bytes n w) = n"
  by (simp add: to_le_bytes_def)

lemma bit_from_le_bytes:
  "bit (from_le_bytes bs :: 'w :: len word) k \<longleftrightarrow> k < LENGTH('w) \<and> k div 8 < length bs \<and> bit (bs ! (k div 8)) (k mod 8)"
proof (induction bs arbitrary: k)
  case (Cons b bs)
  show ?case
  proof (cases "k < 8")
    case True
    then show ?thesis by (auto simp: bit_or_iff bit_push_bit_iff bit_ucast_iff)
  next
    case False
    then have "k div 8 = Suc ((k - 8) div 8)" "k mod 8 = (k - 8) mod 8" by (auto simp: le_div_geq le_mod_geq)
    moreover have "\<not> bit b k" using False by (auto dest: bit_imp_le_length)
    ultimately show ?thesis
      using False Cons.IH [of "k - 8"] by (auto simp: bit_or_iff bit_push_bit_iff bit_ucast_iff)
  qed
qed simp

lemma from_le_to_le [simp]:
  assumes "LENGTH('w) \<le> 8 * n"
  shows "from_le_bytes (to_le_bytes n w) = (w :: 'w :: len word)"
proof (rule bit_word_eqI)
  fix k assume k: "k < LENGTH('w)"
  then have "k div 8 < n" using assms by (simp add: div_less_iff_less_mult)
  moreover have "k div 8 * 8 + k mod 8 = k" "k mod 8 < LENGTH(8)" by simp_all
  ultimately show "bit (from_le_bytes (to_le_bytes n w) :: 'w word) k = bit w k"
    using k by (simp add: bit_from_le_bytes to_le_bytes_def bit_ucast_iff bit_drop_bit_eq add.commute)
qed

lemma length_overwrite [simp]: "offset + length ys \<le> length xs \<Longrightarrow> length (overwrite xs offset ys) = length xs"
  by (simp add: overwrite_def)

lemma length_slice [simp]: "offset + n \<le> length xs \<Longrightarrow> length (slice offset n xs) = n"
  by (simp add: slice_def)

lemma slice_concat_le:
  "i < length ws \<Longrightarrow> slice (i * 8) 8 (concat (map (to_le_bytes 8) ws) @ xs) = to_le_bytes 8 (ws ! i)"
proof (induction ws arbitrary: i)
  case (Cons w ws)
  show ?case
  proof (cases i)
    case (Suc j)
    then show ?thesis using Cons.IH [of j] Cons.prems by (simp add: slice_def)
  qed (simp add: slice_def)
qed simp

lemma length_concat_le [simp]: "length (concat (map (to_le_bytes n) ws)) = n * length ws"
  by (induction ws) auto

lemma chunks_concat_le:
  fixes ws :: "long list" shows "map from_le_bytes (chunks 8 (concat (map (to_le_bytes 8) ws))) = ws"
proof (induction ws)
  case (Cons w ws)
  have "to_le_bytes 8 w \<noteq> []" by (metis length_to_le_bytes list.size(3) zero_neq_numeral)
  then show ?case using Cons by (subst chunks.simps) simp
qed (simp add: chunks.simps)

subsection \<open>Blocks\<close>

definition block_ok :: "blake2b512_block \<Rightarrow> bool" where
  "block_ok b \<longleftrightarrow> length (chain_value b) = 8"

lemma new_block_ok [simp]: "block_ok (new_from_fanout n)" "block_ok b \<Longrightarrow> block_ok (new_from_src b)"
  by (simp_all add: block_ok_def new_from_fanout_def new_from_src_def IV_def CHAIN_VALUE_LENGTH_def Let_def)

lemma update_ok: "block_ok b \<Longrightarrow> \<exists>b'. update block off b = (Inr b' :: ('e, _) res) \<and> block_ok b'"
  by (simp add: update_def compress_def block_ok_def Let_def CHAIN_VALUE_LENGTH_def)

text \<open>The digest of a root, and of an inner node, with a last block.\<close>

definition final_value :: "bool \<Rightarrow> blake2b512_block \<Rightarrow> bytes \<Rightarrow> long list" where
  "final_value root b block =
     (case compress block 0 (replicate 8 0) True True root b :: (unit, _) res of Inr (_, cv) \<Rightarrow> cv | Inl _ \<Rightarrow> [])"

definition final_root :: "blake2b512_block \<Rightarrow> bytes \<Rightarrow> bytes" where
  "final_root b block = concat (map (to_le_bytes 8) (final_value True b block))"

definition inner_digest :: "blake2b512_block \<Rightarrow> bytes \<Rightarrow> bytes" where
  "inner_digest b block = concat (map (to_le_bytes 8) (take 4 (final_value False b block)))"

lemma compress_peek:
  assumes "block_ok b"
  shows "compress block 0 (replicate 8 0) True True root b = Inr (b, final_value root b block)"
    "length (final_value root b block) = 8"
  using assms by (simp_all add: final_value_def compress_def block_ok_def Let_def CHAIN_VALUE_LENGTH_def)

lemma overwrite_append: "overwrite (xs @ ys) (length xs) zs = xs @ overwrite ys 0 zs"
  by (simp add: overwrite_def)

lemma overwrite_words:
  assumes "off + n * 8 + 8 * length ws \<le> length out"
  shows "foldl (\<lambda>out (i, w). overwrite out (off + i * 8) (to_le_bytes 8 w)) out (enumerate n ws)
    = overwrite out (off + n * 8) (concat (map (to_le_bytes 8) ws))"
  using assms
proof (induction ws arbitrary: n out)
  case Nil
  then show ?case by (simp add: overwrite_def)
next
  case (Cons w ws)
  have "overwrite (overwrite out k (to_le_bytes 8 w)) (k + 8) xs = overwrite out k (to_le_bytes 8 w @ xs)"
    if "k + 8 + length xs \<le> length out" for k and xs :: bytes
    using that by (simp add: overwrite_def add.commute add.left_commute)
  from this [of "off + n * 8"] Cons.IH [of "Suc n" "overwrite out (off + n * 8) (to_le_bytes 8 w)"] Cons.prems
  show ?case by (simp add: add.commute add.left_commute)
qed

lemma peek_final_root_eq:
  assumes "block_ok b" "length out = 64"
  shows "peek_final_root block 0 out 0 b = Inr (final_root b block)" "length (final_root b block) = 64"
proof -
  let ?ws = "final_value True b block"
  have len: "length ?ws = 8" by (rule compress_peek(2) [OF assms(1)])
  have "foldl (\<lambda>out (i, w). overwrite out (0 + i * 8) (to_le_bytes 8 w)) out (enumerate 0 ?ws)
      = overwrite out (0 + 0 * 8) (concat (map (to_le_bytes 8) ?ws))"
    by (rule overwrite_words) (simp_all add: len assms(2))
  then show "peek_final_root block 0 out 0 b = Inr (final_root b block)" "length (final_root b block) = 64"
    using assms(2) len by (simp_all add: peek_final_root_def compress_peek(1) [OF assms(1)] final_root_def overwrite_def)
qed

lemma finalize_internal_eq:
  assumes "block_ok b" "off + 32 \<le> length out"
  shows "finalize_internal block 0 out off b = Inr (overwrite out off (inner_digest b block))" "length (inner_digest b block) = 32"
proof -
  let ?cv = "final_value False b block"
  have len: "length ?cv = 8" by (rule compress_peek(2) [OF assms(1)])
  have nth: "[0..<4] = [0, 1, 2, 3 :: nat]" by (simp add: upt_rec)
  from len obtain v w x y vs where cv: "?cv = v # w # x # y # vs"
    by (auto simp: eval_nat_numeral length_Suc_conv)
  have "foldl (\<lambda>out i. overwrite out (off + i * 8) (to_le_bytes 8 (?cv ! i))) out [0..<4]
      = foldl (\<lambda>out (i, w). overwrite out (off + i * 8) (to_le_bytes 8 w)) out (enumerate 0 (take 4 ?cv))"
    unfolding nth cv by simp
  also have "\<dots> = overwrite out (off + 0 * 8) (concat (map (to_le_bytes 8) (take 4 ?cv)))"
    by (rule overwrite_words) (use assms(2) len in simp)
  finally show "finalize_internal block 0 out off b = Inr (overwrite out off (inner_digest b block))"
    by (simp add: finalize_internal_def compress_peek(1) [OF assms(1)] inner_digest_def)
  show "length (inner_digest b block) = 32" using len by (simp add: inner_digest_def)
qed

subsection \<open>The invariant of a generator\<close>

definition random_ok :: "blake2b512_random \<Rightarrow> bool" where
  "random_ok r \<longleftrightarrow> block_ok (digest r) \<and> length (last_block r) = 128 \<and> length (path_view r) = 112
     \<and> length (count_view r) = 16 \<and> length (hash_array r) = 64 \<and> path_position r \<le> 112
     \<and> (position_r r = 0 \<or> position_r r = 32)"

lemma random_new_ok [simp]: "block_ok d \<Longrightarrow> length lb = 128 \<Longrightarrow> random_ok (random_new d lb)"
  by (simp add: random_ok_def random_new_def)

lemma random_ok_digest [simp]: "random_ok r \<Longrightarrow> block_ok d \<Longrightarrow> random_ok (r\<lparr>digest := d\<rparr>)"
  by (simp add: random_ok_def)

lemma fold_update_ok:
  "block_ok d \<Longrightarrow> \<exists>d'. fold_res (\<lambda>d base. update init base d) d bases = (Inr d' :: ('e, _) res) \<and> block_ok d'"
proof (induction bases arbitrary: d)
  case (Cons base bases)
  with update_ok [of d init base] show ?case by fastforce
qed simp

lemma random_create_ok: "\<exists>r. random_create init offset len = (Inr r :: ('e, _) res) \<and> random_ok r"
proof -
  let ?r = "random_new (new_from_fanout 0) (replicate 128 0)"
  obtain d where d: "fold_res (\<lambda>d base. update init base d) (digest ?r) (block_bases offset len) = (Inr d :: ('e, _) res)" "block_ok d"
    using fold_update_ok [of "digest ?r"] by (auto simp: random_new_def)
  show ?thesis
  proof (cases "offset + len = (if block_bases offset len = [] then offset else last (block_bases offset len) + 128)")
    case True
    then show ?thesis using d by (simp add: random_create_def Let_def)
  next
    case False
    define pb where "pb = (if block_bases offset len = [] then offset else last (block_bases offset len) + 128)"
    obtain d' where "update (overwrite (replicate 128 0) 0 (slice pb (offset + len - pb) init)) 0 d = (Inr d' :: ('e, _) res)" "block_ok d'"
      using update_ok [OF d(2)] by blast
    then show ?thesis using d False by (simp add: random_create_def Let_def pb_def [symmetric])
  qed
qed

lemma create_from_bytes_ok: "\<exists>r. create_from_bytes init = (Inr r :: ('e, _) res) \<and> random_ok r"
  unfolding create_from_bytes_def by (rule random_create_ok)

lemma random_copy_ok: "random_ok r \<Longrightarrow> \<exists>r'. random_copy r = (Inr r' :: ('e, _) res) \<and> random_ok r'"
  by (auto simp: random_copy_def random_ok_def random_new_def)

lemma add_byte_ok:
  assumes "random_ok r" shows "\<exists>r'. add_byte b r = (Inr r' :: ('e, _) res) \<and> random_ok r'"
proof (cases "path_position r = 112")
  case True
  obtain d where "update (last_block r) 0 (digest r) = (Inr d :: ('e, _) res)" "block_ok d"
    using update_ok assms unfolding random_ok_def by blast
  then show ?thesis using assms True by (simp add: add_byte_def random_ok_def)
next
  case False
  then show ?thesis using assms by (auto simp: add_byte_def random_ok_def)
qed

lemma split_ok:
  assumes "random_ok r"
  shows "\<exists>r'. split_byte b r = (Inr r' :: ('e, _) res) \<and> random_ok r'" "\<exists>r'. split_short s r = (Inr r' :: ('e, _) res) \<and> random_ok r'"
proof -
  obtain r1 where r1: "random_copy r = (Inr r1 :: ('e, _) res)" "random_ok r1" using random_copy_ok [OF assms] by blast
  then show "\<exists>r'. split_byte b r = (Inr r' :: ('e, _) res) \<and> random_ok r'"
    using add_byte_ok [OF r1(2)] by (simp add: split_byte_def)
  obtain r2 where r2: "add_byte (to_le_bytes 2 s ! 0) r1 = (Inr r2 :: ('e, _) res)" "random_ok r2" using add_byte_ok [OF r1(2)] by blast
  then show "\<exists>r'. split_short s r = (Inr r' :: ('e, _) res) \<and> random_ok r'"
    using r1 add_byte_ok [OF r2(2)] by (simp add: split_short_def)
qed

text \<open>The counter of the next hash: sixteen bytes, the low word first.\<close>

definition next_count :: "long list \<Rightarrow> long list" where
  "next_count cv = (if cv ! 14 = - 1 then cv[14 := 0, 15 := cv ! 15 + 1] else cv[14 := cv ! 14 + 1])"

definition count_bytes :: "long list \<Rightarrow> bytes" where
  "count_bytes cv = to_le_bytes 8 (cv ! 14) @ to_le_bytes 8 (cv ! 15)"

lemma length_count_bytes [simp]: "length (count_bytes cv) = 16" "length (next_count cv) = length cv"
  by (simp_all add: count_bytes_def next_count_def)

lemma random_hash_eq:
  assumes "random_ok r"
  shows "random_hash r = (Inr (r\<lparr>hash_array := final_root (digest r) (last_block r), count_view := next_count (count_view r),
    last_block := take 112 (last_block r) @ count_bytes (next_count (count_view r))\<rparr>) :: ('e, _) res)"
proof -
  have b: "block_ok (digest r)" "length (hash_array r) = 64" "length (last_block r) = 128" "length (count_view r) = 16"
    using assms by (simp_all add: random_ok_def)
  have "overwrite (overwrite (last_block r) 112 (to_le_bytes 8 x)) 120 (to_le_bytes 8 y)
      = take 112 (last_block r) @ to_le_bytes 8 x @ to_le_bytes 8 y" for x y :: long
    using b(3) by (simp add: overwrite_def)
  then show ?thesis
    using b(3,4) by (simp add: random_hash_def peek_final_root_eq [OF b(1,2)] next_count_def count_bytes_def Let_def)
qed

lemma final_root_length [simp]: "random_ok r \<Longrightarrow> length (final_root (digest r) block) = 64"
  unfolding random_ok_def by (blast intro: peek_final_root_eq(2))

lemma random_next_first:
  assumes "random_ok r" "position_r r = 0"
  shows "random_next r = (Inr (take 32 (final_root (digest r) (last_block r)),
    r\<lparr>hash_array := final_root (digest r) (last_block r), count_view := next_count (count_view r),
      last_block := take 112 (last_block r) @ count_bytes (next_count (count_view r)), position_r := 32\<rparr>) :: ('e, _) res)"
  using assms by (simp add: random_next_def random_hash_eq slice_def)

lemma random_next_second:
  "position_r r \<noteq> 0 \<Longrightarrow> random_next r = (Inr (slice 32 32 (hash_array r), r\<lparr>position_r := 0\<rparr>) :: ('e, _) res)"
  by (simp add: random_next_def)

lemma random_next_ok:
  assumes "random_ok r"
  shows "\<exists>out r'. random_next r = (Inr (out, r') :: ('e, _) res) \<and> length out = 32 \<and> random_ok r'"
proof (cases "position_r r = 0")
  case True
  then show ?thesis
    using random_next_first [OF assms True, where 'e = 'e] assms final_root_length [OF assms] by (simp add: random_ok_def)
next
  case False
  then show ?thesis using random_next_second [OF False, where 'e = 'e] assms by (simp add: random_ok_def)
qed

subsection \<open>Drawing names\<close>

fun draws :: "nat \<Rightarrow> blake2b512_random \<Rightarrow> ('e, bytes list \<times> blake2b512_random) res" where
  "draws 0 r = Inr ([], r)"
| "draws (Suc n) r =
     rbind (random_next r) (\<lambda>(out, r'). rbind (draws n r') (\<lambda>(outs, r''). Inr (out # outs, r'')))"

definition counter :: "blake2b512_random \<Rightarrow> nat" where
  "counter r = unat (count_view r ! 14) + 2 ^ 64 * unat (count_view r ! 15)"

definition counter_ok :: "blake2b512_random \<Rightarrow> bool" where
  "counter_ok r \<longleftrightarrow> drop 112 (last_block r) = count_bytes (count_view r)"

definition counter_block :: "bytes \<Rightarrow> nat \<Rightarrow> bytes" where
  "counter_block path c = path @ to_le_bytes 8 (of_nat (c mod 2 ^ 64) :: long) @ to_le_bytes 8 (of_nat (c div 2 ^ 64) :: long)"

lemma counter_block_eq:
  "random_ok r \<Longrightarrow> counter_ok r \<Longrightarrow> last_block r = counter_block (take 112 (last_block r)) (counter r)"
proof -
  assume r: "random_ok r" "counter_ok r"
  have "unat (count_view r ! 14) < 2 ^ 64" using unsigned_less [of "count_view r ! 14"] by simp
  then have "of_nat (counter r mod 2 ^ 64) = count_view r ! 14" "of_nat (counter r div 2 ^ 64) = count_view r ! 15"
    by (simp_all add: counter_def)
  then show ?thesis using r append_take_drop_id [of 112 "last_block r"] by (simp add: counter_block_def counter_ok_def count_bytes_def)
qed

lemma next_count_counter:
  assumes "length cv = 16"
  shows "(unat (next_count cv ! 14) + 2 ^ 64 * unat (next_count cv ! 15)) mod 2 ^ 128
    = (unat (cv ! 14) + 2 ^ 64 * unat (cv ! 15) + 1) mod 2 ^ 128"
proof (cases "cv ! 14 = - 1")
  case True
  have carry: "(2 ^ 64 * (n mod 2 ^ 64)) mod 2 ^ 128 = (2 ^ 64 * n) mod (2 ^ 128 :: nat)" for n :: nat
    by (simp add: mult_mod_right)
  have low: "unat (cv ! 14) + 1 = 2 ^ 64" unfolding True by (simp add: unsigned_minus_1_eq_mask mask_eq_exp_minus_1)
  have "unat (cv ! 15 + 1) = (unat (cv ! 15) + 1) mod 2 ^ 64" by (simp add: unat_word_ariths)
  then have "(unat (next_count cv ! 14) + 2 ^ 64 * unat (next_count cv ! 15)) mod 2 ^ 128
      = (2 ^ 64 * (unat (cv ! 15) + 1)) mod 2 ^ 128"
    using True assms carry [of "unat (cv ! 15) + 1"] by (simp only: next_count_def) simp
  also have "2 ^ 64 * (unat (cv ! 15) + 1) = unat (cv ! 14) + 2 ^ 64 * unat (cv ! 15) + 1"
    using low by (simp add: distrib_left)
  finally show ?thesis .
next
  case False
  then have "1 + cv ! 14 \<noteq> 0" by (simp add: add_eq_0_iff)
  then have "unat (cv ! 14 + 1) = unat (cv ! 14) + 1" using unatSuc [of "cv ! 14"] by (simp add: add.commute)
  then show ?thesis using False assms by (simp add: next_count_def)
qed

lemma counter_block_mod: "counter_block path (c mod 2 ^ 128) = counter_block path c"
proof -
  have "(c mod 2 ^ 128) mod 2 ^ 64 = c mod (2 ^ 64 :: nat)" by (rule mod_mod_cancel) (simp add: le_imp_power_dvd)
  moreover have "(c mod 2 ^ 128) div 2 ^ 64 = (c div 2 ^ 64) mod (2 ^ 64 :: nat)"
    using div_mult2_eq [of c "2 ^ 64" "2 ^ 64"] mod_mult2_eq [of c "2 ^ 64" "2 ^ 64"] by simp
  moreover have "(of_nat (x mod 2 ^ 64) :: long) = of_nat x" for x
    by (simp add: word_of_nat_eq_iff take_bit_eq_mod)
  ultimately show ?thesis by (simp only: counter_block_def)
qed

lemma to_le_bytes_inj: "to_le_bytes 8 v = to_le_bytes 8 w \<Longrightarrow> v = (w :: long)"
proof -
  have "from_le_bytes (to_le_bytes 8 v) = v" "from_le_bytes (to_le_bytes 8 w) = w" by simp_all
  then show "to_le_bytes 8 v = to_le_bytes 8 w \<Longrightarrow> v = w" by metis
qed

lemma of_nat_long_inj: "(of_nat m :: long) = of_nat n \<Longrightarrow> m < 2 ^ 64 \<Longrightarrow> n < 2 ^ 64 \<Longrightarrow> m = n"
  by (simp add: word_of_nat_eq_iff take_bit_eq_mod)

lemma counter_block_inj:
  assumes "counter_block path c = counter_block path d" "c < 2 ^ 128" "d < 2 ^ 128"
  shows "c = d"
proof -
  have high: "x < 2 ^ 128 \<Longrightarrow> x div 2 ^ 64 < 2 ^ 64" for x :: nat
    by (simp add: less_mult_imp_div_less)
  have "(of_nat (c mod 2 ^ 64) :: long) = of_nat (d mod 2 ^ 64)" "(of_nat (c div 2 ^ 64) :: long) = of_nat (d div 2 ^ 64)"
    using assms(1) by (auto simp: counter_block_def append_eq_append_conv intro!: to_le_bytes_inj)
  then have "c mod 2 ^ 64 = d mod 2 ^ 64" "c div 2 ^ 64 = d div 2 ^ 64"
    using high assms(2,3) by (auto intro!: of_nat_long_inj)
  then show ?thesis by (metis div_mult_mod_eq)
qed

lemma draws_pair:
  assumes r: "random_ok r" "counter_ok r" "position_r r = 0"
  obtains r' where "\<And>n. draws (Suc (Suc n)) r = (rbind (draws n r') (\<lambda>(outs, r''). Inr (take 32 (final_root (digest r) (last_block r))
      # drop 32 (final_root (digest r) (last_block r)) # outs, r'')) :: ('e, _) res)"
    and "random_ok r'" "counter_ok r'" "position_r r' = 0" "digest r' = digest r" "take 112 (last_block r') = take 112 (last_block r)"
    "counter r' mod 2 ^ 128 = (counter r + 1) mod 2 ^ 128"
proof
  let ?h = "final_root (digest r) (last_block r)"
  let ?r' = "r\<lparr>hash_array := ?h, count_view := next_count (count_view r),
    last_block := take 112 (last_block r) @ count_bytes (next_count (count_view r)), position_r := 0\<rparr>"
  have len: "length ?h = 64" "length (last_block r) = 128" "length (count_view r) = 16"
    using r(1) final_root_length [OF r(1)] by (simp_all add: random_ok_def)
  show "draws (Suc (Suc n)) r = (rbind (draws n ?r') (\<lambda>(outs, r''). Inr (take 32 ?h # drop 32 ?h # outs, r'')) :: ('e, _) res)" for n
    using random_next_first [OF r(1,3), where 'e = 'e] random_next_second [of "r\<lparr>hash_array := ?h, count_view := next_count (count_view r),
      last_block := take 112 (last_block r) @ count_bytes (next_count (count_view r)), position_r := 32\<rparr>", where 'e = 'e] len
    by (auto simp: slice_def rbind_def split: sum.splits)
  show "random_ok ?r'" "counter_ok ?r'" "position_r ?r' = 0" "digest ?r' = digest r"
    "take 112 (last_block ?r') = take 112 (last_block r)"
    using r(1) len by (simp_all add: random_ok_def counter_ok_def)
  show "counter ?r' mod 2 ^ 128 = (counter r + 1) mod 2 ^ 128"
  proof -
    have "count_view ?r' = next_count (count_view r)" by simp
    then show ?thesis unfolding counter_def by (simp only: next_count_counter [OF len(3)])
  qed
qed

lemma draws_blocks:
  assumes "random_ok r" "counter_ok r" "position_r r = 0"
  shows "\<exists>r'. draws (2 * n) r = (Inr (concat (map (\<lambda>k. let h = final_root (digest r) (counter_block (take 112 (last_block r)) (counter r + k))
    in [take 32 h, drop 32 h]) [0..<n]), r') :: ('e, _) res)"
  using assms
proof (induction n arbitrary: r)
  case (Suc n)
  obtain r' where r': "draws (Suc (Suc (2 * n))) r = (rbind (draws (2 * n) r') (\<lambda>(outs, r''). Inr (take 32 (final_root (digest r) (last_block r))
      # drop 32 (final_root (digest r) (last_block r)) # outs, r'')) :: ('e, _) res)" "random_ok r'" "counter_ok r'" "position_r r' = 0"
    "digest r' = digest r" "take 112 (last_block r') = take 112 (last_block r)" "counter r' mod 2 ^ 128 = (counter r + 1) mod 2 ^ 128"
    by (rule draws_pair [OF Suc.prems, where 'e = 'e]) blast
  have "(counter r' + k) mod 2 ^ 128 = (counter r + Suc k) mod 2 ^ 128" for k
    using r'(7) mod_add_cong [of "counter r'" "2 ^ 128" "counter r + 1" k k] by simp
  then have block: "counter_block path (counter r' + k) = counter_block path (counter r + Suc k)" for path k
    using counter_block_mod [of path "counter r' + k"] counter_block_mod [of path "counter r + Suc k"] by simp
  have upt: "[0..<Suc n] = 0 # map Suc [0..<n]" by (simp add: map_Suc_upt upt_conv_Cons del: upt_Suc)
  obtain r'' where "draws (2 * n) r' = (Inr (concat (map (\<lambda>k. let h = final_root (digest r') (counter_block (take 112 (last_block r')) (counter r' + k))
      in [take 32 h, drop 32 h]) [0..<n]), r'') :: ('e, _) res)"
    using Suc.IH [OF r'(2-4)] by blast
  with r'(1,5,6) show ?case
    using counter_block_eq [OF Suc.prems(1,2), symmetric] unfolding upt by (intro exI [of _ r'']) (simp add: block o_def Let_def)
qed simp

subsection \<open>Merging\<close>

definition child_digest :: "blake2b512_random \<Rightarrow> bytes" where
  "child_digest child = inner_digest (digest child) (last_block child)"

lemma length_child_digest [simp]: "random_ok child \<Longrightarrow> length (child_digest child) = 32"
  using finalize_internal_eq(2) [of "digest child" 0 "replicate 32 0"] by (simp add: child_digest_def random_ok_def)

lemma length_child_digests [simp]: "list_all random_ok cs \<Longrightarrow> length (concat (map child_digest cs)) = 32 * length cs"
  by (induction cs) auto

lemma merge_quad_eq:
  assumes "list_all random_ok quad" "length quad \<le> 4" "length cb = 128"
  shows "merge_quad quad cb = (Inr (overwrite cb 0 (concat (map child_digest quad))) :: ('e, _) res)"
proof -
  have "fold_res (\<lambda>cb (i, child). finalize_internal (last_block child) 0 cb (i * 32) (digest child)) cb (enumerate k quad)
      = (Inr (overwrite cb (k * 32) (concat (map child_digest quad))) :: ('e, _) res)"
    if "list_all random_ok quad" "(k + length quad) * 32 \<le> length cb" for k
    using that
  proof (induction quad arbitrary: k cb)
    case Nil
    then show ?case by (simp add: overwrite_def)
  next
    case (Cons c quad)
    have c: "random_ok c" "block_ok (digest c)" using Cons.prems(1) by (simp_all add: random_ok_def)
    let ?cb = "overwrite cb (k * 32) (child_digest c)"
    have "finalize_internal (last_block c) 0 cb (k * 32) (digest c) = (Inr ?cb :: ('e, _) res)"
      using finalize_internal_eq(1) [OF c(2), of "k * 32" cb] Cons.prems(2) by (simp add: child_digest_def)
    moreover have "overwrite ?cb (Suc k * 32) xs = overwrite cb (k * 32) (child_digest c @ xs)"
      if "Suc k * 32 + length xs \<le> length cb" for xs
      using that c(1) by (simp add: overwrite_def add.commute add.left_commute)
    ultimately show ?case
      using Cons.IH [of "Suc k" ?cb] Cons.prems c(1) by (simp add: add.commute add.left_commute)
  qed
  from this [of 0] assms show ?thesis by (simp add: merge_quad_def)
qed

lemma chunks_ok: "list_all P xs \<Longrightarrow> 0 < n \<Longrightarrow> list_all (\<lambda>c. list_all P c \<and> length c \<le> n) (chunks n xs)"
proof (induction n xs rule: chunks.induct)
  case (1 n xs)
  have "list_all P (take n xs)" "list_all P (drop n xs)"
    using 1(2) by (auto simp: list_all_iff dest: in_set_takeD in_set_dropD)
  then show ?case using 1 by (cases "xs = []") (simp_all add: chunks.simps [of n xs] chunks.simps [of n "[]"])
qed

lemma merge_slice_ok:
  assumes "list_all random_ok slc" "length cb = 128"
  shows "\<exists>r cb'. merge_slice slc cb = (Inr (r, cb') :: ('e, _) res) \<and> random_ok r \<and> length cb' = 128"
proof -
  have "\<exists>d' cb'. fold_res (\<lambda>(d, cb) quad. rbind (merge_quad quad cb) (\<lambda>cb'. rbind (update cb' 0 d) (\<lambda>d'. Inr (d', cb')))) (d, cb) qs
      = (Inr (d', cb') :: ('e, _) res) \<and> block_ok d' \<and> length cb' = 128"
    if "list_all (\<lambda>q. list_all random_ok q \<and> length q \<le> 4) qs" "block_ok d" "length cb = 128" for qs d and cb :: bytes
    using that
  proof (induction qs arbitrary: d cb)
    case (Cons q qs)
    then have q: "list_all random_ok q" "length q \<le> 4" by simp_all
    let ?cb = "overwrite cb 0 (concat (map child_digest q))"
    obtain d' where "update ?cb 0 d = (Inr d' :: ('e, _) res)" "block_ok d'" using update_ok Cons.prems(2) by blast
    moreover have "length ?cb = 128" using q Cons.prems(3) by simp
    ultimately show ?case using Cons.IH [of d' ?cb] Cons.prems merge_quad_eq [OF q Cons.prems(3), where 'e = 'e] by simp
  qed simp
  from this [OF chunks_ok [OF assms(1), of 4], of "new_from_fanout (of_nat (length slc))" cb] assms(2)
  show ?thesis by (auto simp: merge_slice_def random_new_def random_ok_def Let_def)
qed

lemma merge_level_ok:
  assumes "list_all random_ok cs" "length cb = 128"
  shows "\<exists>cs' cb'. merge_level cs cb = (Inr (cs', cb') :: ('e, _) res) \<and> list_all random_ok cs' \<and> length cb' = 128
    \<and> length cs' = length (chunks 255 cs)"
proof -
  have "\<exists>cs' cb'. fold_res (\<lambda>(squashed, cb) slc. rbind (merge_slice slc cb) (\<lambda>(r, cb'). Inr (squashed @ [r], cb'))) (acc, cb) slcs
      = (Inr (acc @ cs', cb') :: ('e, _) res) \<and> list_all random_ok cs' \<and> length cb' = 128 \<and> length cs' = length slcs"
    if "list_all (\<lambda>slc. list_all random_ok slc \<and> length slc \<le> 255) slcs" "length cb = 128" for slcs acc and cb :: bytes
    using that
  proof (induction slcs arbitrary: acc cb)
    case (Cons slc slcs)
    then obtain r cb1 where r: "merge_slice slc cb = (Inr (r, cb1) :: ('e, _) res)" "random_ok r" "length cb1 = 128"
      using merge_slice_ok [of slc cb] by auto
    then obtain cs' cb' where "fold_res (\<lambda>(squashed, cb) slc. rbind (merge_slice slc cb) (\<lambda>(r, cb'). Inr (squashed @ [r], cb'))) (acc @ [r], cb1) slcs
        = (Inr ((acc @ [r]) @ cs', cb') :: ('e, _) res)" "list_all random_ok cs'" "length cb' = 128" "length cs' = length slcs"
      using Cons.IH [of cb1 "acc @ [r]"] Cons.prems by auto
    with r show ?case by (intro exI [of _ "r # cs'"] exI [of _ cb']) simp
  qed simp
  from this [OF chunks_ok [OF assms(1), of 255] assms(2), of "[]"] show ?thesis by (simp add: merge_level_def)
qed

lemma merge_loop_ok:
  "list_all random_ok cs \<Longrightarrow> cs \<noteq> [] \<Longrightarrow> length cb = 128 \<Longrightarrow> \<exists>r. merge_loop cs cb = (Inr [r] :: ('e, _) res) \<and> random_ok r"
proof (induction "length cs" arbitrary: cs cb rule: less_induct)
  case less
  show ?case
  proof (cases "1 < length cs")
    case True
    obtain cs' cb' where l: "merge_level cs cb = (Inr (cs', cb') :: ('e, _) res)" "list_all random_ok cs'" "length cb' = 128"
        "length cs' = length (chunks 255 cs)"
      using merge_level_ok [OF less.prems(1,3)] by blast
    moreover have "cs' \<noteq> []" using l(4) less.prems(2) by (auto simp: chunks.simps [of 255 cs])
    ultimately obtain r where "merge_loop cs' cb' = (Inr [r] :: ('e, _) res)" "random_ok r"
      using less.hyps [of cs' cb'] merge_level_shorter [OF l(1) True] by blast
    then show ?thesis using True l(1) by (subst merge_loop.simps) simp
  next
    case False
    then obtain r where "cs = [r]" using less.prems(2) by (cases cs) auto
    then show ?thesis using less.prems(1) by (simp add: merge_loop.simps)
  qed
qed

lemma random_merge_ok:
  "list_all random_ok cs \<Longrightarrow> 2 \<le> length cs \<Longrightarrow> \<exists>r. random_merge cs = (Inr r :: ('e, _) res) \<and> random_ok r"
  using merge_loop_ok [of cs "replicate 128 0"] by (cases cs) (auto simp: random_merge_def)

subsection \<open>Serialisation\<close>

lemma block_bytes_roundtrip: "block_ok b \<Longrightarrow> block_from_bytes (block_to_bytes b) = (Inr b :: ('e, _) res)"
proof -
  assume b: "block_ok b"
  then have len: "length (chain_value b) = 8" by (simp add: block_ok_def)
  have cv: "map (\<lambda>i. from_le_bytes (slice (i * 8) 8 (block_to_bytes b))) [0..<8] = chain_value b"
    using slice_concat_le [of _ "chain_value b"] len by (intro nth_equalityI) (auto simp: block_to_bytes_def)
  have "slice 64 8 (block_to_bytes b) = to_le_bytes 8 (t0 b)" "slice 72 8 (block_to_bytes b) = to_le_bytes 8 (t1 b)"
    using len by (simp_all add: block_to_bytes_def slice_def)
  then show ?thesis using cv len by (simp add: block_from_bytes_def block_to_bytes_def)
qed

lemma take_bytes_append [simp]: "length xs = n \<Longrightarrow> take_bytes n (xs @ ys) = Some (xs, ys)" "length xs = n \<Longrightarrow> take_bytes n xs = Some (xs, [])"
  by (auto simp: take_bytes_def)

lemma take_prefixed_append:
  "length xs = n * width \<Longrightarrow> n < 2 ^ 32 \<Longrightarrow> take_prefixed width (to_le_bytes 4 (of_nat n :: 32 word) @ xs @ ys) = Some (xs, ys)"
  by (simp add: take_prefixed_def unsigned_of_nat take_bit_nat_eq_self)

lemma random_roundtrip_ok:
  assumes "random_ok r" shows "random_from_bytes (random_to_bytes r) = (Inr r :: ('e, _) res)"
proof -
  have len: "length (last_block r) = 128" "length (path_view r) = 112" "length (count_view r) = 16" "length (hash_array r) = 64"
    "path_position r \<le> 112" "block_ok (digest r)"
    using assms by (simp_all add: random_ok_def)
  have block: "length (block_to_bytes (digest r)) = 80" using len(6) by (simp add: block_to_bytes_def block_ok_def)
  have pos: "unat (of_nat (path_position r) :: 32 word) = path_position r"
    using len(5) by (simp add: unsigned_of_nat take_bit_nat_eq_self)
  have "parse_random (random_to_bytes r) = Some r"
    unfolding parse_random_def random_to_bytes_def
    using len block pos take_prefixed_append [of "last_block r" 128 1] take_prefixed_append [of "path_view r" 112 1]
      take_prefixed_append [of "concat (map (to_le_bytes 8) (count_view r))" 16 8]
    by (simp add: block_bytes_roundtrip [where 'e = unit] chunks_concat_le)
  moreover have "random_to_bytes r \<noteq> []" using block by (auto simp: random_to_bytes_def)
  ultimately show ?thesis by (simp add: random_from_bytes_def)
qed

subsection \<open>Properties\<close>

text \<open>The generators a program can build.\<close>

inductive generated :: "blake2b512_random \<Rightarrow> bool" where
  from_seed: "create_from_bytes init = (Inr r :: (unit, _) res) \<Longrightarrow> generated r"
| by_byte: "generated r \<Longrightarrow> split_byte b r = (Inr r' :: (unit, _) res) \<Longrightarrow> generated r'"
| by_short: "generated r \<Longrightarrow> split_short s r = (Inr r' :: (unit, _) res) \<Longrightarrow> generated r'"
| after_next: "generated r \<Longrightarrow> random_next r = (Inr (out, r') :: (unit, _) res) \<Longrightarrow> generated r'"
| by_merge: "\<forall>c \<in> set cs. generated c \<Longrightarrow> random_merge cs = (Inr r :: (unit, _) res) \<Longrightarrow> generated r"

lemma generated_ok: "generated r \<Longrightarrow> random_ok r"
proof (induction rule: generated.induct)
  case (from_seed init r)
  then show ?case using create_from_bytes_ok [of init, where 'e = unit] by auto
next
  case (by_byte r b r')
  then show ?case using split_ok(1) [of r b, where 'e = unit] by auto
next
  case (by_short r s r')
  then show ?case using split_ok(2) [of r s, where 'e = unit] by auto
next
  case (after_next r out r')
  then show ?case using random_next_ok [of r, where 'e = unit] by auto
next
  case (by_merge cs r)
  then have "2 \<le> length cs" by (auto simp: random_merge_def split: if_splits)
  moreover have "list_all random_ok cs" using by_merge(1) by (simp add: list_all_iff)
  ultimately show ?case using random_merge_ok [of cs, where 'e = unit] by_merge(2) by auto
qed

text \<open>C28. A generator built by any sequence of seeding, splitting, drawing and merging is well formed: its buffers have their
  lengths and its positions are in range, so splitting it and drawing from it never panics, every drawn name has 32 bytes,
  and merging two or more such generators succeeds.\<close>

theorem generator_wellformed:
  assumes "generated r"
  shows "random_ok r \<and> (\<exists>r'. split_byte b r = (Inr r' :: ('e, _) res)) \<and> (\<exists>r'. split_short s r = (Inr r' :: ('e, _) res))
    \<and> (\<exists>out r'. random_next r = (Inr (out, r') :: ('e, _) res) \<and> length out = 32)
    \<and> (list_all generated cs \<longrightarrow> cs \<noteq> [] \<longrightarrow> (\<exists>r'. random_merge (r # cs) = (Inr r' :: ('e, _) res)))"
proof -
  have ok: "random_ok r" by (rule generated_ok [OF assms])
  have "\<exists>r'. random_merge (r # cs) = (Inr r' :: ('e, _) res)" if "list_all generated cs" "cs \<noteq> []"
    using random_merge_ok [of "r # cs", where 'e = 'e] that ok generated_ok
    by (cases cs) (auto simp: list_all_iff)
  then show ?thesis using ok split_ok [OF ok, where 'e = 'e] random_next_ok [OF ok, where 'e = 'e] by blast
qed

theorem generator_wellformed_witness:
  "\<exists>r. create_from_bytes [1, 2, 3] = (Inr r :: (unit, _) res) \<and> (\<exists>r'. split_byte 7 r = (Inr r' :: (unit, _) res))
    \<and> (\<exists>r'. random_merge [r, r] = (Inr r' :: (unit, _) res))"
proof -
  obtain r where r: "create_from_bytes [1, 2, 3] = (Inr r :: (unit, _) res)"
    using create_from_bytes_ok [of "[1, 2, 3]"] by blast
  then have g: "generated r" by (rule generated.from_seed)
  from generator_wellformed [OF g, of 7 0 "[r]", where 'e = unit] g r show ?thesis by auto
qed

text \<open>C29. Reading back the bytes of a generator gives the generator.\<close>

theorem generator_roundtrip:
  assumes "generated r"
  shows "random_from_bytes (random_to_bytes r) = (Inr r :: ('e, _) res)"
  by (rule random_roundtrip_ok [OF generated_ok [OF assms]])

theorem generator_roundtrip_witness:
  "\<exists>r. create_from_bytes [1, 2, 3] = (Inr r :: (unit, _) res) \<and> random_from_bytes (random_to_bytes r) = (Inr r :: (unit, _) res)"
proof -
  obtain r where r: "create_from_bytes [1, 2, 3] = (Inr r :: (unit, _) res)"
    using create_from_bytes_ok [of "[1, 2, 3]"] by blast
  with generator_roundtrip [OF generated.from_seed [OF r]] show ?thesis by blast
qed

text \<open>The names drawn from a generator are the two halves of the hashes of successive blocks: the path of the generator
  followed by a counter of sixteen bytes. As long as the counter stays below \<open>2 ^ 128\<close> no block is hashed twice.\<close>

theorem draws_hash_distinct_blocks:
  assumes "random_ok r" "counter_ok r" "position_r r = 0" "counter r + n \<le> 2 ^ 128"
  shows "\<exists>blocks r'. distinct blocks \<and> length blocks = n
    \<and> draws (2 * n) r = (Inr (concat (map (\<lambda>b. [take 32 (final_root (digest r) b), drop 32 (final_root (digest r) b)]) blocks), r') :: ('e, _) res)"
proof -
  let ?block = "\<lambda>k. counter_block (take 112 (last_block r)) (counter r + k)"
  have "inj_on ?block {0..<n}" using assms(4) by (intro inj_onI) (auto dest!: counter_block_inj)
  then have "distinct (map ?block [0..<n])" by (simp add: distinct_map)
  then show ?thesis
    using draws_blocks [OF assms(1-3), of n, where 'e = 'e] by (intro exI [of _ "map ?block [0..<n]"]) (simp add: o_def Let_def)
qed

theorem draws_hash_distinct_blocks_witness:
  "\<exists>r blocks r'. create_from_bytes [] = (Inr r :: (unit, _) res) \<and> distinct blocks \<and> length blocks = 3
    \<and> draws 6 r = (Inr (concat (map (\<lambda>b. [take 32 (final_root (digest r) b), drop 32 (final_root (digest r) b)]) blocks), r') :: (unit, _) res)"
proof -
  let ?r = "random_new (new_from_fanout 0) (replicate 128 0)"
  have create: "create_from_bytes [] = (Inr ?r :: (unit, _) res)"
    by (simp add: create_from_bytes_def random_create_def block_bases_def random_new_def)
  have zero: "count_view ?r ! i = 0" if "i < 16" for i
  proof -
    have "from_le_bytes (replicate n 0) = (0 :: long)" for n by (induction n) auto
    then show ?thesis using that by (simp add: random_new_def slice_def)
  qed
  have "to_le_bytes 8 (0 :: long) = replicate 8 0" by (simp add: to_le_bytes_def list_eq_iff_nth_eq)
  then have "random_ok ?r" "counter_ok ?r" "position_r ?r = 0" "counter ?r + 3 \<le> 2 ^ 128"
    using zero [of 14] zero [of 15]
    by (simp_all add: counter_ok_def count_bytes_def counter_def) (simp_all add: random_new_def replicate_add [symmetric])
  from draws_hash_distinct_blocks [OF this, where 'e = unit] create show ?thesis by force
qed

text \<open>C37. Merging five generators hashes the digest of the fifth together with those of the second, third and fourth, which were
  left in the chain block, and not with a padding of zeros.\<close>

theorem merge_five_stale:
  assumes "list_all random_ok [c1, c2, c3, c4, c5]"
  shows "random_merge [c1, c2, c3, c4, c5] = (rbind
    (rbind (update (child_digest c1 @ child_digest c2 @ child_digest c3 @ child_digest c4) 0 (new_from_fanout 5))
      (update (child_digest c5 @ child_digest c2 @ child_digest c3 @ child_digest c4) 0))
    (\<lambda>d. Inr ((random_new (new_from_fanout 5) (replicate 128 0))\<lparr>digest := d\<rparr>)) :: ('e, _) res)"
proof -
  let ?b1 = "child_digest c1 @ child_digest c2 @ child_digest c3 @ child_digest c4"
  let ?b2 = "child_digest c5 @ child_digest c2 @ child_digest c3 @ child_digest c4"
  let ?r = "random_new (new_from_fanout 5) (replicate 128 0)"
  have ok: "random_ok c1" "random_ok c2" "random_ok c3" "random_ok c4" "random_ok c5" using assms by simp_all
  have chunks: "chunks 4 [c1, c2, c3, c4, c5] = [[c1, c2, c3, c4], [c5]]" "chunks 255 [c1, c2, c3, c4, c5] = [[c1, c2, c3, c4, c5]]"
    by (simp_all add: chunks.simps)
  have q1: "merge_quad [c1, c2, c3, c4] (replicate 128 0) = (Inr ?b1 :: ('e, _) res)"
    using merge_quad_eq [of "[c1, c2, c3, c4]" "replicate 128 0", where 'e = 'e] ok by (simp add: overwrite_def)
  have q2: "merge_quad [c5] ?b1 = (Inr ?b2 :: ('e, _) res)"
    using merge_quad_eq [of "[c5]" ?b1, where 'e = 'e] ok by (simp add: overwrite_def)
  obtain d1 where d1: "update ?b1 0 (new_from_fanout 5) = (Inr d1 :: ('e, _) res)" "block_ok d1"
    using update_ok [of "new_from_fanout 5"] by auto
  obtain d2 where d2: "update ?b2 0 d1 = (Inr d2 :: ('e, _) res)" using update_ok [OF d1(2)] by blast
  have "merge_slice [c1, c2, c3, c4, c5] (replicate 128 0) = (Inr (?r\<lparr>digest := d2\<rparr>, ?b2) :: ('e, _) res)"
    using d1(1) d2 by (simp add: merge_slice_def chunks q1 q2 random_new_def)
  then have "merge_loop [c1, c2, c3, c4, c5] (replicate 128 0) = (Inr [?r\<lparr>digest := d2\<rparr>] :: ('e, _) res)"
    by (simp add: merge_loop.simps merge_level_def chunks)
  then show ?thesis using d1(1) d2 by (simp add: random_merge_def)
qed

theorem merge_five_stale_witness:
  "\<exists>r. create_from_bytes [] = (Inr r :: (unit, _) res) \<and> random_merge [r, r, r, r, r] = (rbind
    (rbind (update (child_digest r @ child_digest r @ child_digest r @ child_digest r) 0 (new_from_fanout 5))
      (update (child_digest r @ child_digest r @ child_digest r @ child_digest r) 0))
    (\<lambda>d. Inr ((random_new (new_from_fanout 5) (replicate 128 0))\<lparr>digest := d\<rparr>)) :: (unit, _) res)"
proof -
  obtain r where "create_from_bytes [] = (Inr r :: (unit, _) res)" "random_ok r"
    using create_from_bytes_ok [of "[]"] by blast
  with merge_five_stale [of r r r r r, where 'e = unit] show ?thesis by auto
qed

end
