(* ===== verification/RholangMergingLogic.thy ===== *)
theory RholangMergingLogic
  imports Blake2b512Spec StateChange
begin

section \<open>Merging of number channels\<close>

text \<open>
  rholang/src/rust/interpreter/merging/rholang_merging_logic.rs, with the part of rho_type.rs and
  models/src/rust/rholang/implicits.rs that reads a number out of a process. \<open>Par\<close> is the message
  type of RhoTypes.proto; the parts other than integer expressions are of a type \<open>'x\<close> of their own.
  A channel that holds one number is merged by adding or by or-ing the differences of the branches.
\<close>

subsection \<open>Numbers as processes\<close>

datatype 'x expr = GInt i64 | OtherExpr 'x

record 'x par =
  sends :: "'x list"
  receives :: "'x list"
  news :: "'x list"
  exprs :: "'x expr list"
  matches :: "'x list"
  unforgeables :: "'x list"
  bundles :: "'x list"
  connectives :: "'x list"
  locally_free :: bytes
  connective_used :: bool

definition par_default :: "'x par" where
  "par_default = \<lparr>sends = [], receives = [], news = [], exprs = [], matches = [], unforgeables = [], bundles = [],
     connectives = [], locally_free = [], connective_used = False\<rparr>"

definition single_expr :: "'x par \<Rightarrow> 'x expr option" where
  "single_expr p =
     (if sends p = [] \<and> receives p = [] \<and> news p = [] \<and> matches p = [] \<and> bundles p = []
      then if length (exprs p) = 1 then Some (exprs p ! 0) else None
      else None)"

definition number_create_par :: "i64 \<Rightarrow> 'x par" where
  "number_create_par i = par_default\<lparr>exprs := [GInt i]\<rparr>"

definition number_unapply :: "'x par \<Rightarrow> i64 option" where
  "number_unapply p = (case single_expr p of Some (GInt v) \<Rightarrow> Some v | _ \<Rightarrow> None)"

record 'x list_par_with_random =
  pars :: "'x par list"
  random_state :: bytes

type_synonym ('c, 'p, 'x, 'k) rho_env = "('c, 'p, 'x list_par_with_random, 'k) repo_env"

definition try_get_number_with_rnd ::
  "'x list_par_with_random \<Rightarrow> (history_error, (i64 \<times> blake2b512_random) option) res" where
  "try_get_number_with_rnd par_with_rnd =
     (if length (pars par_with_rnd) \<noteq> 1 then Inr None
      else case number_unapply (pars par_with_rnd ! 0) of
             None \<Rightarrow> Inr None
           | Some num \<Rightarrow> rbind (random_from_bytes (random_state par_with_rnd)) (\<lambda>rnd. Inr (Some (num, rnd))))"

definition convert_to_read_number ::
  "(bytes \<Rightarrow> (history_error, 'x list_par_with_random datum list) res) \<Rightarrow> bytes \<Rightarrow> (history_error, i64 option) res" where
  "convert_to_read_number get_data_func hash =
     rbind (get_data_func hash) (\<lambda>ds.
       if length ds > 1 then Inl (Err (MergeError ''Number channel: single-value invariant violated''))
       else case ds of
              [] \<Rightarrow> Inr None
            | datum # _ \<Rightarrow>
                rbind (try_get_number_with_rnd (a_val datum)) (\<lambda>num.
                  case num of
                    Some (n, _) \<Rightarrow> Inr (Some n)
                  | None \<Rightarrow> Inl (Err (MergeError ''Number channel: pre-state value is non-numeric''))))"

subsection \<open>Differences\<close>

definition channel_diff :: "i64 \<Rightarrow> i64 \<Rightarrow> merge_type \<Rightarrow> i64" where
  "channel_diff end_val prev_val mt = (case mt of IntegerAdd \<Rightarrow> end_val - prev_val | BitmaskOr \<Rightarrow> end_val AND NOT prev_val)"

text \<open>One map of end values: the differences and the new state.\<close>

fun diff_entries ::
  "('key \<times> i64 \<times> merge_type) list \<Rightarrow> ('key, i64 \<times> merge_type) hmap \<Rightarrow> ('key, i64) hmap \<Rightarrow>
   ('key, i64 \<times> merge_type) hmap \<times> ('key, i64) hmap" where
  "diff_entries [] diffs state = (diffs, state)"
| "diff_entries ((ch, end_val, mt) # rest) diffs state =
     (case hm_get state ch of
        Some prev_val \<Rightarrow> diff_entries rest (hm_put ch (channel_diff end_val prev_val mt, mt) diffs) (hm_put ch end_val state)
      | None \<Rightarrow> diff_entries rest diffs state)"

fun diff_maps ::
  "('key, i64 \<times> merge_type) hmap list \<Rightarrow> ('key, i64) hmap \<Rightarrow> ('key, i64 \<times> merge_type) hmap list" where
  "diff_maps [] state = []"
| "diff_maps (end_val_map # rest) state =
     (let (diffs, state') = diff_entries end_val_map [] state in diffs # diff_maps rest state')"

definition calculate_num_channel_diff ::
  "('key, i64 \<times> merge_type) hmap list \<Rightarrow> ('key \<Rightarrow> i64 option) \<Rightarrow> ('key, i64 \<times> merge_type) hmap list" where
  "calculate_num_channel_diff channel_values get_initial_value =
     (let unique_keys = hset_collect (\<lambda>k. k) (concat (map hm_keys channel_values));
          state = map (\<lambda>key. (key, case get_initial_value key of Some v \<Rightarrow> v | None \<Rightarrow> 0)) unique_keys
      in diff_maps channel_values state)"

subsection \<open>The merged value\<close>

definition decode_rnd :: "('c, 'p, 'x, 'k) rho_env \<Rightarrow> bytes \<Rightarrow> (history_error, blake2b512_random) res" where
  "decode_rnd env par_with_rnd_encoded =
     rbind (expect ''Serializers: Unable to deserialize datum'' (de_datum_rec (cenv env) par_with_rnd_encoded)) (\<lambda>datum.
       random_from_bytes (random_state (a_val datum)))"

definition create_datum_encoded :: "('c, 'p, 'x, 'k) rho_env \<Rightarrow> bytes \<Rightarrow> i64 \<Rightarrow> blake2b512_random \<Rightarrow> bytes" where
  "create_datum_encoded env channel num rnd =
     (let par_with_rnd = \<lparr>pars = [number_create_par num], random_state = random_to_bytes rnd\<rparr>;
          data_hash = hash_produce (henv env) channel par_with_rnd False;
          produce = \<lparr>channel_hash = channel, p_hash = data_hash, persistent = False, is_deterministic = True,
                     output_value = [], failed = False\<rparr>
      in ser_datum_rec (cenv env) \<lparr>a_val = par_with_rnd, d_persist = False, d_source = produce\<rparr>)"

definition merged_rnd :: "('c, 'p, 'x, 'k) rho_env \<Rightarrow> bytes list \<Rightarrow> (history_error, blake2b512_random) res" where
  "merged_rnd env added_data =
     (if length (hset_collect (\<lambda>b. b) added_data) = 1 then decode_rnd env (hd added_data)
      else rbind (sequence_res (map (decode_rnd env) added_data)) (\<lambda>rnds.
             random_merge (sort_key random_to_bytes (hset_collect (\<lambda>r. r) rnds))))"

definition merge_value :: "i64 \<Rightarrow> i64 \<Rightarrow> merge_type \<Rightarrow> i64" where
  "merge_value init_num diff mt = (case mt of IntegerAdd \<Rightarrow> init_num + diff | BitmaskOr \<Rightarrow> init_num OR diff)"

definition calculate_number_channel_merge ::
  "('c, 'p, 'x, 'k) rho_env \<Rightarrow> bytes \<Rightarrow> i64 \<Rightarrow> merge_type \<Rightarrow> bytes channel_change \<Rightarrow>
   (bytes \<Rightarrow> (history_error, 'x list_par_with_random datum list) res) \<Rightarrow>
   (history_error, ('c, 'p, 'x list_par_with_random, 'k) trie_action) res" where
  "calculate_number_channel_merge env channel diff mt change get_base_data =
     rbind (convert_to_read_number get_base_data channel) (\<lambda>init.
     let init_num = (case init of Some n \<Rightarrow> n | None \<Rightarrow> 0);
         new_val = merge_value init_num diff mt
     in rbind (merged_rnd env (added change)) (\<lambda>new_rnd.
          Inr (TrieInsertBinaryProduce channel [create_datum_encoded env channel new_val new_rnd])))"

subsection \<open>Lemmas\<close>

lemma number_unapply_create [simp]: "number_unapply (number_create_par i) = Some i"
  by (simp add: number_unapply_def single_expr_def number_create_par_def par_default_def)

text \<open>The written datum reads as the number and its generator.\<close>

lemma created_datum_number:
  assumes "codec_ok (cenv env)" "random_ok rnd"
  shows "\<exists>d. de_datum_rec (cenv env) (create_datum_encoded env channel num rnd) = Some d
    \<and> try_get_number_with_rnd (a_val d) = Inr (Some (num, rnd))"
  using assms(1) random_roundtrip_ok [OF assms(2), where 'e = history_error]
  by (simp add: codec_ok_def create_datum_encoded_def try_get_number_with_rnd_def Let_def)

text \<open>The values of one channel through the maps.\<close>

fun channel_steps :: "'key \<Rightarrow> ('key, 'v) hmap list \<Rightarrow> 'v list" where
  "channel_steps k [] = []"
| "channel_steps k (m # ms) = (case hm_get m k of Some v \<Rightarrow> v # channel_steps k ms | None \<Rightarrow> channel_steps k ms)"

fun step_diffs :: "i64 \<Rightarrow> (i64 \<times> merge_type) list \<Rightarrow> (i64 \<times> merge_type) list" where
  "step_diffs prev [] = []"
| "step_diffs prev ((e, mt) # vs) = (channel_diff e prev mt, mt) # step_diffs e vs"

lemma diff_entries_get:
  assumes "distinct (map fst es)" "\<forall>(k, _) \<in> set es. hm_get state k \<noteq> None"
  shows "diff_entries es diffs state = (ds, st) \<Longrightarrow>
    hm_get ds k = (case hm_get es k of Some (e, mt) \<Rightarrow> Some (channel_diff e (the (hm_get state k)) mt, mt) | None \<Rightarrow> hm_get diffs k)
    \<and> hm_get st k = (case hm_get es k of Some (e, _) \<Rightarrow> Some e | None \<Rightarrow> hm_get state k)"
  using assms
proof (induction es diffs state rule: diff_entries.induct)
  case (2 ch e mt rest diffs state)
  then obtain prev where prev: "hm_get state ch = Some prev" by auto
  have fresh: "hm_get rest ch = None" using 2(4) by (auto simp: map_of_eq_None_iff)
  have known: "\<forall>(k, _) \<in> set rest. hm_get (hm_put ch e state) k \<noteq> None" using 2(5) by auto
  from prev 2(3) have "diff_entries rest (hm_put ch (channel_diff e prev mt, mt) diffs) (hm_put ch e state) = (ds, st)" by simp
  from 2(2) [OF prev this _ known] 2(4) prev fresh show ?case by (auto split: option.splits)
qed simp

lemma diff_maps_steps:
  assumes "list_all hm_ok ms" "\<forall>m \<in> set ms. \<forall>(k, _) \<in> set m. hm_get state k \<noteq> None"
  shows "channel_steps k (diff_maps ms state) = step_diffs (the (hm_get state k)) (channel_steps k ms)"
  using assms
proof (induction ms arbitrary: state)
  case (Cons m ms)
  obtain ds st where d: "diff_entries m [] state = (ds, st)" by fastforce
  have m: "distinct (map fst m)" "\<forall>(k, _) \<in> set m. hm_get state k \<noteq> None" using Cons.prems by (simp_all add: hm_ok_def)
  note get = diff_entries_get [OF m d]
  have "\<forall>m \<in> set ms. \<forall>(k, _) \<in> set m. hm_get st k \<noteq> None" using Cons.prems(2) get by (fastforce split: option.splits)
  with Cons get [of k] d show ?case by (auto split: option.splits)
qed simp

lemma step_diffs_combine:
  "foldl (\<lambda>v (d, mt). combine_mergeable_value v d mt) prev (step_diffs prev vs)
    = foldl (\<lambda>v (e, mt). case mt of IntegerAdd \<Rightarrow> e | BitmaskOr \<Rightarrow> v OR e) prev vs"
  if "\<forall>(_, mt') \<in> set vs. mt' = mt"
proof (cases mt)
  case IntegerAdd
  with that show ?thesis
    by (induction vs arbitrary: prev) (auto simp: channel_diff_def combine_mergeable_value_def)
next
  case BitmaskOr
  have mask: "w OR (e AND NOT p) = w OR e" if "w OR p = w" for w e p :: i64
  proof (rule bit_word_eqI)
    fix n
    have "bit p n \<longrightarrow> bit w n" using that by (metis bit_or_iff)
    then show "bit (w OR e AND NOT p) n = bit (w OR e) n" if "n < LENGTH(64)"
      using that by (auto simp: bit_or_iff bit_and_iff bit_not_iff_eq)
  qed
  have "foldl (\<lambda>v (d, mt). combine_mergeable_value v d mt) w (step_diffs prev vs)
      = foldl (\<lambda>v (e, mt). case mt of IntegerAdd \<Rightarrow> e | BitmaskOr \<Rightarrow> v OR e) w vs"
    if "w OR prev = w" "\<forall>(_, mt') \<in> set vs. mt' = BitmaskOr" for w prev
    using that
  proof (induction vs arbitrary: w prev)
    case (Cons v vs)
    obtain e where v: "v = (e, BitmaskOr)" using Cons.prems(2) by (cases v) auto
    have "(w OR e) OR e = w OR e" by (simp add: or.assoc)
    then show ?case
      using Cons.IH [of "w OR e" e] Cons.prems mask [OF Cons.prems(1), of e]
      by (simp add: v channel_diff_def combine_mergeable_value_def)
  qed simp
  then show ?thesis using that BitmaskOr by simp
qed

text \<open>
  The datum that merging a number channel writes holds the merged number: reading the channel
  afterwards gives the base value combined with the difference.
\<close>

lemma number_merge_reads_back:
  assumes "codec_ok (cenv env)" "convert_to_read_number get_base_data channel = Inr init"
    "merged_rnd env (added change) = Inr rnd" "random_ok rnd"
  shows "\<exists>bs d. calculate_number_channel_merge env channel diff mt change get_base_data = Inr (TrieInsertBinaryProduce channel [bs])
    \<and> de_datum_rec (cenv env) bs = Some d
    \<and> convert_to_read_number (\<lambda>_. Inr [d]) channel = Inr (Some (combine_mergeable_value (case init of Some n \<Rightarrow> n | None \<Rightarrow> 0) diff mt))"
proof -
  let ?v = "merge_value (case init of Some n \<Rightarrow> n | None \<Rightarrow> 0) diff mt"
  obtain d where d: "de_datum_rec (cenv env) (create_datum_encoded env channel ?v rnd) = Some d"
    "try_get_number_with_rnd (a_val d) = Inr (Some (?v, rnd))"
    using created_datum_number [OF assms(1,4)] by blast
  have "?v = combine_mergeable_value (case init of Some n \<Rightarrow> n | None \<Rightarrow> 0) diff mt"
    by (simp add: merge_value_def combine_mergeable_value_def)
  moreover have "calculate_number_channel_merge env channel diff mt change get_base_data
      = Inr (TrieInsertBinaryProduce channel [create_datum_encoded env channel ?v rnd])"
    unfolding calculate_number_channel_merge_def assms(2) by (simp add: assms(3))
  moreover have "convert_to_read_number (\<lambda>_. Inr [d]) channel = Inr (Some ?v)"
    by (simp add: convert_to_read_number_def d(2))
  ultimately show ?thesis using d(1) by metis
qed

subsection \<open>Properties\<close>

text \<open>C22. The differences of a number channel add up: starting from the initial value and combining the differences of the
  successive end values gives the last end value for an adding channel, and all the bits that were ever set for a bitmask channel.\<close>

theorem num_channel_diffs_add_up:
  assumes "list_all hm_ok channel_values" "\<forall>(_, mt') \<in> set (channel_steps k channel_values). mt' = mt"
  shows "foldl (\<lambda>v (d, mt). combine_mergeable_value v d mt) (case get_initial k of Some v \<Rightarrow> v | None \<Rightarrow> 0)
      (channel_steps k (calculate_num_channel_diff channel_values get_initial))
    = foldl (\<lambda>v (e, mt). case mt of IntegerAdd \<Rightarrow> e | BitmaskOr \<Rightarrow> v OR e) (case get_initial k of Some v \<Rightarrow> v | None \<Rightarrow> 0)
      (channel_steps k channel_values)"
proof -
  define init where "init k = (case get_initial k of Some v \<Rightarrow> v | None \<Rightarrow> 0)" for k
  define keys where "keys = hset_collect (\<lambda>k. k) (concat (map hm_keys channel_values))"
  have keys: "set keys = (\<Union>m \<in> set channel_values. fst ` set m)"
    using hkeys_collect [of "\<lambda>k. k" "concat (map hm_keys channel_values)"] by (simp add: keys_def hkeys_def)
  have get: "hm_get (map (\<lambda>key. (key, init key)) keys) k = (if k \<in> set keys then Some (init k) else None)" for k
    by (induction keys) auto
  have known: "\<forall>m \<in> set channel_values. \<forall>(k, _) \<in> set m. hm_get (map (\<lambda>key. (key, init key)) keys) k \<noteq> None"
    unfolding get keys by force
  have steps: "channel_steps k (calculate_num_channel_diff channel_values get_initial)
      = step_diffs (the (hm_get (map (\<lambda>key. (key, init key)) keys) k)) (channel_steps k channel_values)"
    using diff_maps_steps [OF assms(1) known] by (simp add: calculate_num_channel_diff_def keys_def init_def)
  show ?thesis
  proof (cases "k \<in> set keys")
    case True
    then show ?thesis
      unfolding steps get by (simp add: step_diffs_combine [OF assms(2)] flip: init_def)
  next
    case False
    have "channel_steps k ms = []" if "\<forall>m \<in> set ms. k \<notin> fst ` set m" for ms :: "('a, i64 \<times> merge_type) hmap list"
      using that by (induction ms) (auto split: option.splits dest: map_of_SomeD intro: rev_image_eqI)
    then have "channel_steps k channel_values = []" using False unfolding keys by blast
    with steps show ?thesis by simp
  qed
qed

theorem num_channel_diffs_add_up_witness:
  "foldl (\<lambda>v (d, mt). combine_mergeable_value v d mt) (10 :: i64)
      (channel_steps ''A'' (calculate_num_channel_diff [[(''A'', 20, IntegerAdd)], [(''B'', 3, IntegerAdd)], [(''A'', 15, IntegerAdd), (''C'', 10, IntegerAdd)]]
        [''A'' \<mapsto> 10, ''C'' \<mapsto> 20])) = 15"
  using num_channel_diffs_add_up [of "[[(''A'', 20, IntegerAdd)], [(''B'', 3, IntegerAdd)], [(''A'', 15, IntegerAdd), (''C'', 10, IntegerAdd)]]"
      "''A''" IntegerAdd "[''A'' \<mapsto> 10, ''C'' \<mapsto> 20]"] by (simp add: hm_ok_def)

end
