(* ===== verification/Signatures.thy ===== *)
theory Signatures
  imports Prelude
begin

section \<open>Signatures and signed data\<close>

text \<open>
  The signature algorithms of crypto/src/rust/signatures (secp256k1.rs, secp256k1_eth.rs,
  signatures_alg.rs) and \<open>Signed\<close> of signed.rs. \<open>sig_env\<close> holds what comes from the crates
  k256, yasna, sha3 and blake2: signing and verifying a 32-byte hash, the ASN.1 DER form of
  a pair of integers and the hash functions. The integers \<open>r\<close> and \<open>s\<close> of an ECDSA signature
  are \<open>BigUint\<close>s, that is natural numbers. The algorithms behind the feature
  schnorr_secp256k1_experimental, off by default, are not modelled.
\<close>

record sig_env =
  verify_prehash :: "bytes \<Rightarrow> bytes \<Rightarrow> bytes \<Rightarrow> bool"
  sign_prehash :: "bytes \<Rightarrow> bytes \<Rightarrow> bytes option"
  public_point :: "bytes \<Rightarrow> bytes option"
  construct_der :: "nat \<times> nat \<Rightarrow> bytes"
  parse_der :: "bytes \<Rightarrow> (nat \<times> nat) option"
  keccak256 :: "bytes \<Rightarrow> bytes"
  blake2b256 :: "bytes \<Rightarrow> bytes"

subsection \<open>Big-endian integers\<close>

definition from_bytes_be :: "bytes \<Rightarrow> nat" where
  "from_bytes_be bs = foldl (\<lambda>n b. 256 * n + unat b) 0 bs"

fun to_bytes_be :: "nat \<Rightarrow> bytes" where
  "to_bytes_be n = (if n < 256 then [of_nat n] else to_bytes_be (n div 256) @ [of_nat (n mod 256)])"

declare to_bytes_be.simps [simp del]

text \<open>\<open>Vec::resize(len, 0)\<close>: cuts, or appends zeros at the end.\<close>

definition resize :: "bytes \<Rightarrow> nat \<Rightarrow> bytes" where
  "resize bs len = take len bs @ replicate (len - length bs) 0"

subsection \<open>The algorithms\<close>

datatype signatures_alg = Secp256k1 | Secp256k1Eth

definition secp256k1_name :: string where
  "secp256k1_name = ''secp256k1''"

definition secp256k1_eth_name :: string where
  "secp256k1_eth_name = secp256k1_name @ '':eth''"

fun alg_name :: "signatures_alg \<Rightarrow> string" where
  "alg_name Secp256k1 = secp256k1_name"
| "alg_name Secp256k1Eth = secp256k1_eth_name"

definition alg_apply :: "string \<Rightarrow> signatures_alg option" where
  "alg_apply nm =
     (if nm = ''secp256k1'' then Some Secp256k1
      else if nm = ''secp256k1-eth'' then Some Secp256k1Eth
      else None)"

definition secp256k1_verify :: "sig_env \<Rightarrow> bytes \<Rightarrow> bytes \<Rightarrow> bytes \<Rightarrow> bool" where
  "secp256k1_verify env dat signature pub_key =
     (if length dat \<noteq> 32 then False else verify_prehash env dat signature pub_key)"

definition secp256k1_sign :: "sig_env \<Rightarrow> bytes \<Rightarrow> bytes \<Rightarrow> (string, bytes) res" where
  "secp256k1_sign env dat sec = (case sign_prehash env dat sec of
     Some s \<Rightarrow> Inr s
   | None \<Rightarrow> Inl (Panic ''Invalid private key''))"

definition secp256k1_to_public :: "sig_env \<Rightarrow> bytes \<Rightarrow> (string, bytes) res" where
  "secp256k1_to_public env sec = (case public_point env sec of
     Some sd_pk \<Rightarrow> Inr sd_pk
   | None \<Rightarrow> Inl (Panic ''Invalid private key''))"

definition encode_signature_rs_to_der :: "sig_env \<Rightarrow> bytes \<Rightarrow> (string, bytes) res" where
  "encode_signature_rs_to_der env signature_rs =
     (if length signature_rs \<noteq> 64 then Inl (Err ''Signature in RS format must be 64 bytes'')
      else Inr (construct_der env
        (from_bytes_be (take 32 signature_rs), from_bytes_be (drop 32 signature_rs))))"

definition decode_signature_der_to_rs :: "sig_env \<Rightarrow> bytes \<Rightarrow> bytes option" where
  "decode_signature_der_to_rs env signature_der = (case parse_der env signature_der of
     None \<Rightarrow> None
   | Some (r, s) \<Rightarrow>
       (let r_bytes = to_bytes_be r; s_bytes = to_bytes_be s
        in if 32 < length r_bytes \<or> 32 < length s_bytes then None
           else Some (resize r_bytes 32 @ resize s_bytes 32)))"

fun alg_verify :: "sig_env \<Rightarrow> signatures_alg \<Rightarrow> bytes \<Rightarrow> bytes \<Rightarrow> bytes \<Rightarrow> bool" where
  "alg_verify env Secp256k1 dat signature pub_key = secp256k1_verify env dat signature pub_key"
| "alg_verify env Secp256k1Eth dat signature pub_key =
     (case encode_signature_rs_to_der env signature of
        Inr signature_der \<Rightarrow> secp256k1_verify env dat signature_der pub_key
      | Inl _ \<Rightarrow> False)"

fun alg_sign :: "sig_env \<Rightarrow> signatures_alg \<Rightarrow> bytes \<Rightarrow> bytes \<Rightarrow> (string, bytes) res" where
  "alg_sign env Secp256k1 dat sec = secp256k1_sign env dat sec"
| "alg_sign env Secp256k1Eth dat sec =
     rbind (secp256k1_sign env dat sec) (\<lambda>sig_der.
       Inr (case decode_signature_der_to_rs env sig_der of Some rs \<Rightarrow> rs | None \<Rightarrow> []))"

subsection \<open>Signed data\<close>

record 'a signed =
  signed_data :: 'a
  sd_pk :: bytes
  sd_sig :: bytes
  sig_algorithm :: signatures_alg

text \<open>\<open>format!("{}", n)\<close> of a \<open>usize\<close>, and the bytes of an ASCII string.\<close>

fun show_nat :: "nat \<Rightarrow> string" where
  "show_nat n = (if n < 10 then [char_of (48 + n)] else show_nat (n div 10) @ [char_of (48 + n mod 10)])"

declare show_nat.simps [simp del]

definition as_bytes :: "string \<Rightarrow> bytes" where
  "as_bytes s = map (\<lambda>c. of_char c) s"

definition eth_prefix :: "nat \<Rightarrow> bytes" where
  "eth_prefix msg_length =
     as_bytes (char_of (25 :: nat) # ''Ethereum Signed Message:'' @ [char_of (10 :: nat)] @ show_nat msg_length)"

definition signature_hash :: "sig_env \<Rightarrow> string \<Rightarrow> bytes \<Rightarrow> bytes" where
  "signature_hash env sig_alg_name serialized_data =
     (if sig_alg_name = secp256k1_eth_name
      then keccak256 env (eth_prefix (length serialized_data) @ serialized_data)
      else blake2b256 env serialized_data)"

definition signed_create ::
  "sig_env \<Rightarrow> ('a \<Rightarrow> bytes) \<Rightarrow> 'a \<Rightarrow> signatures_alg \<Rightarrow> bytes \<Rightarrow> (string, 'a signed) res" where
  "signed_create env encode dat alg sk =
     (let serialized_data = encode dat;
          h = signature_hash env (alg_name alg) serialized_data
      in rbind (alg_sign env alg h sk) (\<lambda>s.
         rbind (secp256k1_to_public env sk) (\<lambda>pub.
           Inr \<lparr>signed_data = dat, sd_pk = pub, sd_sig = s, sig_algorithm = alg\<rparr>)))"

definition from_signed_data ::
  "sig_env \<Rightarrow> ('a \<Rightarrow> bytes) \<Rightarrow> 'a \<Rightarrow> bytes \<Rightarrow> bytes \<Rightarrow> signatures_alg \<Rightarrow> 'a signed option" where
  "from_signed_data env encode dat pub s alg =
     (let serialized_data = encode dat;
          h = signature_hash env (alg_name alg) serialized_data
      in if alg_verify env alg h s pub
         then Some \<lparr>signed_data = dat, sd_pk = pub, sd_sig = s, sig_algorithm = alg\<rparr> else None)"

text \<open>What a reader of a signed value relies on: the signature verifies for its data.\<close>

definition signed_ok :: "sig_env \<Rightarrow> ('a \<Rightarrow> bytes) \<Rightarrow> 'a signed \<Rightarrow> bool" where
  "signed_ok env encode d \<longleftrightarrow>
     alg_verify env (sig_algorithm d)
       (signature_hash env (alg_name (sig_algorithm d)) (encode (signed_data d))) (sd_sig d) (sd_pk d)"

lemma from_signed_data_signed [simp]:
  "from_signed_data env encode (signed_data d) (sd_pk d) (sd_sig d) (sig_algorithm d) =
     (if signed_ok env encode d then Some d else None)"
  by (simp add: from_signed_data_def signed_ok_def)

lemma from_signed_data_ok: "from_signed_data env encode dat pub s alg = Some d \<Longrightarrow> signed_ok env encode d"
  by (auto simp: from_signed_data_def signed_ok_def Let_def split: if_splits)

subsection \<open>Big-endian integers read back\<close>

lemma from_bytes_be_Nil [simp]: "from_bytes_be [] = 0"
  by (simp add: from_bytes_be_def)

lemma from_bytes_be_snoc [simp]: "from_bytes_be (bs @ [b]) = 256 * from_bytes_be bs + unat b"
  by (simp add: from_bytes_be_def)

lemma from_bytes_be_zeros [simp]: "from_bytes_be (bs @ replicate k 0) = from_bytes_be bs * 256 ^ k"
proof (induction k)
  case (Suc k)
  have "bs @ replicate (Suc k) 0 = (bs @ replicate k 0) @ [0]"
    by (simp add: replicate_append_same)
  then show ?case using Suc by (simp only: from_bytes_be_snoc) simp
qed simp

lemma from_to_bytes_be [simp]: "from_bytes_be (to_bytes_be n) = n"
proof (induction n rule: to_bytes_be.induct)
  case (1 n)
  show ?case
  proof (cases "n < 256")
    case True
    then show ?thesis
      using from_bytes_be_snoc [of "[]" "of_nat n"]
      by (simp add: to_bytes_be.simps [of n] unat_of_nat)
  next
    case False
    then show ?thesis
      using 1 by (simp add: to_bytes_be.simps [of n] unat_of_nat)
  qed
qed

lemma to_bytes_be_nonempty [simp]: "to_bytes_be n \<noteq> []"
  by (subst to_bytes_be.simps) simp

lemma to_bytes_be_lead: "0 < n \<Longrightarrow> hd (to_bytes_be n) \<noteq> 0"
proof (induction n rule: to_bytes_be.induct)
  case (1 n)
  then show ?case
    by (auto simp: to_bytes_be.simps [of n] word_of_nat_eq_0_iff dest: nat_dvd_not_less)
qed

lemma from_bytes_be_Cons: "from_bytes_be (b # bs) = unat b * 256 ^ length bs + from_bytes_be bs"
proof (induction bs rule: rev_induct)
  case Nil
  then show ?case using from_bytes_be_snoc [of "[]" b] by simp
next
  case (snoc c bs)
  then show ?case
    using from_bytes_be_snoc [of "b # bs" c] by (simp add: algebra_simps)
qed

lemma from_bytes_be_less: "from_bytes_be bs < 256 ^ length bs"
proof (induction bs)
  case (Cons b bs)
  have "unat b < 256" using unsigned_less [of b] by simp
  then have "(unat b + 1) * 256 ^ length bs \<le> 256 * 256 ^ length bs"
    by (intro mult_le_mono1) simp
  then have "unat b * 256 ^ length bs + 256 ^ length bs \<le> 256 * 256 ^ length bs"
    by (simp only: add_mult_distrib mult_1)
  with Cons show ?case unfolding from_bytes_be_Cons list.size by (simp only: add_0_right power_Suc add_Suc_right)
qed simp

lemma to_from_bytes_be: "bs \<noteq> [] \<Longrightarrow> hd bs \<noteq> 0 \<Longrightarrow> to_bytes_be (from_bytes_be bs) = bs"
proof (induction bs rule: rev_induct)
  case (snoc b bs)
  have b: "unat b < 256" using unsigned_less [of b] by simp
  show ?case
  proof (cases "bs = []")
    case True
    then show ?thesis using from_bytes_be_snoc [of "[]" b] b by (simp add: to_bytes_be.simps)
  next
    case False
    with snoc have IH: "to_bytes_be (from_bytes_be bs) = bs" "hd bs \<noteq> 0" by simp_all
    have "from_bytes_be bs \<noteq> 0"
    proof
      assume "from_bytes_be bs = 0"
      with IH(1) have "bs = [0]" by (simp add: to_bytes_be.simps [of 0])
      with IH(2) show False by simp
    qed
    then have "\<not> 256 * from_bytes_be bs + unat b < 256" by simp
    moreover have "(256 * from_bytes_be bs + unat b) div 256 = from_bytes_be bs"
      "(256 * from_bytes_be bs + unat b) mod 256 = unat b"
      using b by simp_all
    ultimately show ?thesis
      using IH by (simp add: to_bytes_be.simps [of "256 * from_bytes_be bs + unat b"])
  qed
qed simp

lemma length_to_bytes_be: "0 < n \<Longrightarrow> length (to_bytes_be n) \<le> k \<longleftrightarrow> n < 256 ^ k"
proof
  assume "0 < n" "length (to_bytes_be n) \<le> k"
  then have "(256 :: nat) ^ length (to_bytes_be n) \<le> 256 ^ k"
    by (intro power_increasing) simp_all
  with from_bytes_be_less [of "to_bytes_be n"] show "n < 256 ^ k"
    unfolding from_to_bytes_be by (rule less_le_trans)
next
  assume n: "0 < n" "n < 256 ^ k"
  obtain b bs where b: "to_bytes_be n = b # bs"
    by (cases "to_bytes_be n") simp_all
  with to_bytes_be_lead [OF n(1)] have "1 \<le> unat b"
    by (simp add: unat_gt_0 Suc_le_eq)
  then have "1 * 256 ^ length bs \<le> unat b * 256 ^ length bs" by (rule mult_le_mono1)
  then have "256 ^ length bs \<le> n"
    using from_to_bytes_be [of n] unfolding b from_bytes_be_Cons by linarith
  with n have "(256 :: nat) ^ length bs < 256 ^ k" by linarith
  then have "length bs < k" by (rule power_less_imp_less_exp [rotated]) simp
  with b show "length (to_bytes_be n) \<le> k" by simp
qed

lemma resize_id [simp]: "length bs = k \<Longrightarrow> resize bs k = bs"
  by (simp add: resize_def)

lemma from_bytes_be_resize:
  "length bs \<le> k \<Longrightarrow> from_bytes_be (resize bs k) = from_bytes_be bs * 256 ^ (k - length bs)"
  by (simp add: resize_def)

lemma length_resize [simp]: "length (resize bs k) = k"
  by (simp add: resize_def)

subsection \<open>Ethereum-style signatures\<close>

text \<open>
  The integer that is verified for a signed \<open>r\<close>: the zeros that \<open>resize\<close> appends shift a
  shorter \<open>r\<close> to the left.
\<close>

definition resized :: "nat \<Rightarrow> nat" where
  "resized r = r * 256 ^ (32 - length (to_bytes_be r))"

lemma resized_id: "0 < r \<Longrightarrow> r < 256 ^ 32 \<Longrightarrow> resized r = r \<longleftrightarrow> 256 ^ 31 \<le> r"
  using length_to_bytes_be [of r 32] length_to_bytes_be [of r 31]
  by (auto simp: resized_def not_less [symmetric])

lemma decode_encode_rs:
  assumes "\<And>rs. parse_der env (construct_der env rs) = Some rs"
    and "0 < r" "r < 256 ^ 32" "0 < s" "s < 256 ^ 32"
  obtains rs where "decode_signature_der_to_rs env (construct_der env (r, s)) = Some rs"
    "encode_signature_rs_to_der env rs = Inr (construct_der env (resized r, resized s))"
proof
  have len: "length (to_bytes_be r) \<le> 32" "length (to_bytes_be s) \<le> 32"
    using assms(2-) by (simp_all add: length_to_bytes_be)
  then show "decode_signature_der_to_rs env (construct_der env (r, s)) =
      Some (resize (to_bytes_be r) 32 @ resize (to_bytes_be s) 32)"
    by (simp add: decode_signature_der_to_rs_def assms(1))
  show "encode_signature_rs_to_der env (resize (to_bytes_be r) 32 @ resize (to_bytes_be s) 32) =
      Inr (construct_der env (resized r, resized s))"
    using len by (simp add: encode_signature_rs_to_der_def from_bytes_be_resize resized_def)
qed

text \<open>
  C34. The signature that \<open>Secp256k1Eth\<close> verifies is the one it made exactly when both
  integers of the signature need all 32 bytes. A shorter \<open>r\<close> or \<open>s\<close> is padded with zeros at
  the end instead of at the front, so the signature that is checked is the one of another
  pair of integers: about one in 128 signatures made by \<open>sign\<close> does not verify.
\<close>

theorem eth_sign_verify:
  assumes "\<And>rs. parse_der env (construct_der env rs) = Some rs"
    and "sign_prehash env dat sec = Some (construct_der env (r, s))"
    and "0 < r" "r < 256 ^ 32" "0 < s" "s < 256 ^ 32"
  shows "\<exists>rs. alg_sign env Secp256k1Eth dat sec = Inr rs
    \<and> alg_verify env Secp256k1Eth dat rs pub =
        secp256k1_verify env dat (construct_der env (resized r, resized s)) pub
    \<and> (resized r = r \<longleftrightarrow> 256 ^ 31 \<le> r) \<and> (resized s = s \<longleftrightarrow> 256 ^ 31 \<le> s)"
proof -
  obtain rs where "decode_signature_der_to_rs env (construct_der env (r, s)) = Some rs"
    "encode_signature_rs_to_der env rs = Inr (construct_der env (resized r, resized s))"
    using decode_encode_rs [of env r s] assms by metis
  with assms show ?thesis
    by (simp add: secp256k1_sign_def resized_id)
qed

text \<open>A signature scheme for the witnesses: every hash is signed with the pair \<open>(1, 1)\<close>.\<close>

definition demo_sig_env :: sig_env where
  "demo_sig_env = \<lparr>verify_prehash = (\<lambda>h s p. s = [0, 1, 0] \<and> p = []),
     sign_prehash = (\<lambda>h k. Some [0, 1, 0]), public_point = (\<lambda>k. Some []),
     construct_der = (\<lambda>(r, s). replicate r 0 @ 1 # replicate s 0),
     parse_der = (\<lambda>b. Some (length (takeWhile (\<lambda>x. x = 0) b), length (dropWhile (\<lambda>x. x = 0) b) - 1)),
     keccak256 = (\<lambda>b. replicate 32 0), blake2b256 = (\<lambda>b. replicate 32 0)\<rparr>"

lemma demo_parse_der: "parse_der demo_sig_env (construct_der demo_sig_env rs) = Some rs"
  by (cases rs) (simp add: demo_sig_env_def takeWhile_tail dropWhile_append)

theorem eth_sign_verify_witness:
  "\<exists>rs. alg_sign demo_sig_env Secp256k1Eth (replicate 32 0) [7] = Inr rs
    \<and> alg_verify demo_sig_env Secp256k1Eth (replicate 32 0) rs [] =
        secp256k1_verify demo_sig_env (replicate 32 0) (construct_der demo_sig_env (resized 1, resized 1)) []
    \<and> (resized 1 = 1 \<longleftrightarrow> 256 ^ 31 \<le> (1 :: nat)) \<and> (resized 1 = 1 \<longleftrightarrow> 256 ^ 31 \<le> (1 :: nat))"
proof (rule eth_sign_verify)
  show "parse_der demo_sig_env (construct_der demo_sig_env rs) = Some rs" for rs by (rule demo_parse_der)
  show "sign_prehash demo_sig_env (replicate 32 0) [7] = Some (construct_der demo_sig_env (1, 1))"
    by (simp add: demo_sig_env_def)
qed simp_all

end
