(* ===== verification/CasperMessage.thy ===== *)
theory CasperMessage
  imports Signatures
begin

section \<open>Messages of the Casper protocol\<close>

text \<open>
  models/src/rust/casper/protocol/casper_message.rs: blocks, deploys, events and the messages
  nodes exchange, with their conversions from and to the protobuf structures that prost
  generates from models/src/main/protobuf/CasperMessage.proto. A protobuf message that has
  exactly the fields of the Rust structure is the same record here; the others, where a
  sub-message may be absent or a default stands for \<open>None\<close>, are records of their own.
  Numbers are \<open>int\<close>: the conversions only copy them. \<open>deploy_env\<close> holds the signature
  scheme and prost's \<open>encode_to_vec\<close> of a deploy.
\<close>

subsection \<open>Events\<close>

record peek =
  channel_index :: int

record produce_event =
  pe_channels_hash :: bytes
  pe_hash :: bytes
  pe_persistent :: bool
  pe_times_repeated :: int
  pe_is_deterministic :: bool
  pe_output_value :: "bytes list"
  pe_failed :: bool

record consume_event =
  ce_channels_hashes :: "bytes list"
  ce_hash :: bytes
  ce_persistent :: bool

record comm_event =
  cm_consume :: consume_event
  cm_produces :: "produce_event list"
  cm_peeks :: "peek list"

datatype casper_event = CProduce produce_event | CConsume consume_event | CComm comm_event

type_synonym peek_proto = peek
type_synonym produce_event_proto = produce_event
type_synonym consume_event_proto = consume_event

record comm_event_proto =
  cmp_consume :: "consume_event_proto option"
  cmp_produces :: "produce_event_proto list"
  cmp_peeks :: "peek_proto list"

datatype event_instance =
  ProduceInstance produce_event_proto
| ConsumeInstance consume_event_proto
| CommInstance comm_event_proto

record event_proto =
  event_instance :: "event_instance option"

definition peek_from_proto :: "peek_proto \<Rightarrow> peek" where
  "peek_from_proto p = \<lparr>channel_index = channel_index p\<rparr>"

definition peek_to_proto :: "peek \<Rightarrow> peek_proto" where
  "peek_to_proto p = \<lparr>channel_index = channel_index p\<rparr>"

definition produce_event_to_proto :: "produce_event \<Rightarrow> produce_event_proto" where
  "produce_event_to_proto p =
     \<lparr>pe_channels_hash = pe_channels_hash p, pe_hash = pe_hash p, pe_persistent = pe_persistent p,
      pe_times_repeated = pe_times_repeated p, pe_is_deterministic = pe_is_deterministic p,
      pe_output_value = pe_output_value p, pe_failed = pe_failed p\<rparr>"

definition produce_event_from_proto :: "produce_event_proto \<Rightarrow> produce_event" where
  "produce_event_from_proto p =
     \<lparr>pe_channels_hash = pe_channels_hash p, pe_hash = pe_hash p, pe_persistent = pe_persistent p,
      pe_times_repeated = pe_times_repeated p, pe_is_deterministic = pe_is_deterministic p,
      pe_output_value = pe_output_value p, pe_failed = pe_failed p\<rparr>"

definition consume_event_to_proto :: "consume_event \<Rightarrow> consume_event_proto" where
  "consume_event_to_proto c =
     \<lparr>ce_channels_hashes = ce_channels_hashes c, ce_hash = ce_hash c, ce_persistent = ce_persistent c\<rparr>"

definition consume_event_from_proto :: "consume_event_proto \<Rightarrow> consume_event" where
  "consume_event_from_proto c =
     \<lparr>ce_channels_hashes = ce_channels_hashes c, ce_hash = ce_hash c, ce_persistent = ce_persistent c\<rparr>"

definition comm_event_to_proto :: "comm_event \<Rightarrow> comm_event_proto" where
  "comm_event_to_proto c =
     \<lparr>cmp_consume = Some (consume_event_to_proto (cm_consume c)),
      cmp_produces = map produce_event_to_proto (cm_produces c),
      cmp_peeks = map peek_to_proto (cm_peeks c)\<rparr>"

fun event_to_proto :: "casper_event \<Rightarrow> event_proto" where
  "event_to_proto (CProduce pe) = \<lparr>event_instance = Some (ProduceInstance (produce_event_to_proto pe))\<rparr>"
| "event_to_proto (CConsume ce) = \<lparr>event_instance = Some (ConsumeInstance (consume_event_to_proto ce))\<rparr>"
| "event_to_proto (CComm cme) = \<lparr>event_instance = Some (CommInstance (comm_event_to_proto cme))\<rparr>"

text \<open>\<open>Option::ok_or_else\<close> with a message.\<close>

definition ok_or :: "'a option \<Rightarrow> string \<Rightarrow> (string, 'a) res" where
  "ok_or x msg = (case x of Some y \<Rightarrow> Inr y | None \<Rightarrow> Inl (Err msg))"

definition event_from_proto :: "event_proto \<Rightarrow> (string, casper_event) res" where
  "event_from_proto p = (case event_instance p of
     Some (ProduceInstance pe) \<Rightarrow> Inr (CProduce (produce_event_from_proto pe))
   | Some (ConsumeInstance ce) \<Rightarrow> Inr (CConsume (consume_event_from_proto ce))
   | Some (CommInstance cme) \<Rightarrow>
       rbind (ok_or (cmp_consume cme) ''Missing consume field'') (\<lambda>c.
         Inr (CComm \<lparr>cm_consume = consume_event_from_proto c,
                     cm_produces = map produce_event_from_proto (cmp_produces cme),
                     cm_peeks = map peek_from_proto (cmp_peeks cme)\<rparr>))
   | None \<Rightarrow> Inl (Err ''Received malformed Event: None''))"

subsection \<open>Deploys\<close>

record deploy_data =
  dd_term :: string
  time_stamp :: int
  phlo_price :: int
  phlo_limit :: int
  valid_after_block_number :: int
  shard_id :: string
  expiration_timestamp :: "int option"

record deploy_data_proto =
  dp_deployer :: bytes
  dp_term :: string
  dp_timestamp :: int
  dp_sig :: bytes
  dp_sig_algorithm :: string
  dp_phlo_price :: int
  dp_phlo_limit :: int
  dp_valid_after_block_number :: int
  dp_shard_id :: string
  dp_language :: string
  dp_expiration_timestamp :: int

record deploy_env =
  denv_sig :: sig_env
  encode_to_vec :: "deploy_data_proto \<Rightarrow> bytes"

text \<open>Arithmetic on \<open>i64\<close> wraps around in a release build.\<close>

definition wrap_i64 :: "int \<Rightarrow> int" where
  "wrap_i64 n = (n + 2 ^ 63) mod 2 ^ 64 - 2 ^ 63"

definition total_phlo_charge :: "deploy_data \<Rightarrow> int" where
  "total_phlo_charge d = wrap_i64 (phlo_limit d * phlo_price d)"

definition has_expiration :: "deploy_data \<Rightarrow> bool" where
  "has_expiration d = (case expiration_timestamp d of Some e \<Rightarrow> e > 0 | None \<Rightarrow> False)"

definition is_expired_at :: "deploy_data \<Rightarrow> int \<Rightarrow> bool" where
  "is_expired_at d current_time_millis =
     (case expiration_timestamp d of Some e \<Rightarrow> current_time_millis > e | None \<Rightarrow> False)"

text \<open>\<open>_from_proto\<close> and \<open>_to_proto\<close>: the data without the signature.\<close>

definition data_from_proto :: "deploy_data_proto \<Rightarrow> deploy_data" where
  "data_from_proto p =
     \<lparr>dd_term = dp_term p, time_stamp = dp_timestamp p, phlo_price = dp_phlo_price p,
      phlo_limit = dp_phlo_limit p, valid_after_block_number = dp_valid_after_block_number p,
      shard_id = dp_shard_id p,
      expiration_timestamp =
        (if dp_expiration_timestamp p = 0 then None else Some (dp_expiration_timestamp p))\<rparr>"

definition data_to_proto :: "deploy_data \<Rightarrow> deploy_data_proto" where
  "data_to_proto d =
     \<lparr>dp_deployer = [], dp_term = dd_term d, dp_timestamp = time_stamp d, dp_sig = [],
      dp_sig_algorithm = '''', dp_phlo_price = phlo_price d, dp_phlo_limit = phlo_limit d,
      dp_valid_after_block_number = valid_after_block_number d, dp_shard_id = shard_id d,
      dp_language = '''',
      dp_expiration_timestamp = (case expiration_timestamp d of Some e \<Rightarrow> e | None \<Rightarrow> 0)\<rparr>"

text \<open>The bytes that are signed: \<open>to_message\<close> encoded.\<close>

definition deploy_bytes :: "deploy_env \<Rightarrow> deploy_data \<Rightarrow> bytes" where
  "deploy_bytes env d = encode_to_vec env (data_to_proto d)"

definition deploy_from_proto :: "deploy_env \<Rightarrow> deploy_data_proto \<Rightarrow> (string, deploy_data signed) res" where
  "deploy_from_proto env p =
     (case alg_apply (dp_sig_algorithm p) of
        None \<Rightarrow> Inl (Err (''Unknown signature algorithm: '' @ dp_sig_algorithm p))
      | Some algorithm \<Rightarrow>
          (case from_signed_data (denv_sig env) (deploy_bytes env) (data_from_proto p)
                  (dp_deployer p) (dp_sig p) algorithm of
             Some d \<Rightarrow> Inr d
           | None \<Rightarrow> Inl (Err ''Invalid signature'')))"

definition deploy_to_proto :: "deploy_data signed \<Rightarrow> deploy_data_proto" where
  "deploy_to_proto dd =
     \<lparr>dp_deployer = sd_pk dd, dp_term = dd_term (signed_data dd), dp_timestamp = time_stamp (signed_data dd),
      dp_sig = sd_sig dd, dp_sig_algorithm = alg_name (sig_algorithm dd),
      dp_phlo_price = phlo_price (signed_data dd), dp_phlo_limit = phlo_limit (signed_data dd),
      dp_valid_after_block_number = valid_after_block_number (signed_data dd),
      dp_shard_id = shard_id (signed_data dd), dp_language = '''',
      dp_expiration_timestamp =
        (case expiration_timestamp (signed_data dd) of Some e \<Rightarrow> e | None \<Rightarrow> 0)\<rparr>"

record processed_deploy =
  pd_deploy :: "deploy_data signed"
  pd_cost :: int
  deploy_log :: "casper_event list"
  is_failed :: bool
  system_deploy_error :: "string option"

record processed_deploy_proto =
  pdp_deploy :: "deploy_data_proto option"
  pdp_cost :: "int option"
  pdp_deploy_log :: "event_proto list"
  pdp_errored :: bool
  pdp_system_deploy_error :: string

text \<open>The cost is a \<open>u64\<close>; \<open>as i64\<close> reads its bits as a signed number.\<close>

definition refund_amount :: "processed_deploy \<Rightarrow> int" where
  "refund_amount d =
     wrap_i64 (max (wrap_i64 (phlo_limit (signed_data (pd_deploy d)) - wrap_i64 (pd_cost d))) 0
       * phlo_price (signed_data (pd_deploy d)))"

definition processed_deploy_empty :: "deploy_data signed \<Rightarrow> processed_deploy" where
  "processed_deploy_empty d =
     \<lparr>pd_deploy = d, pd_cost = 0, deploy_log = [], is_failed = False, system_deploy_error = None\<rparr>"

definition processed_deploy_from_proto ::
  "deploy_env \<Rightarrow> processed_deploy_proto \<Rightarrow> (string, processed_deploy) res" where
  "processed_deploy_from_proto env p =
     rbind (ok_or (pdp_deploy p) ''Missing deploy field'') (\<lambda>dp.
     rbind (deploy_from_proto env dp) (\<lambda>d.
     rbind (ok_or (pdp_cost p) ''Missing cost field'') (\<lambda>cost.
     rbind (sequence_res (map event_from_proto (pdp_deploy_log p))) (\<lambda>log.
       Inr \<lparr>pd_deploy = d, pd_cost = cost, deploy_log = log, is_failed = pdp_errored p,
            system_deploy_error =
              (if pdp_system_deploy_error p = '''' then None else Some (pdp_system_deploy_error p))\<rparr>))))"

definition processed_deploy_to_proto :: "processed_deploy \<Rightarrow> processed_deploy_proto" where
  "processed_deploy_to_proto d =
     \<lparr>pdp_deploy = Some (deploy_to_proto (pd_deploy d)), pdp_cost = Some (pd_cost d),
      pdp_deploy_log = map event_to_proto (deploy_log d), pdp_errored = is_failed d,
      pdp_system_deploy_error = (case system_deploy_error d of Some e \<Rightarrow> e | None \<Rightarrow> '''')\<rparr>"

subsection \<open>System deploys\<close>

datatype system_deploy_data =
  Slash (invalid_block_hash: bytes) (issuer_public_key: bytes)
| CloseBlockSystemDeployData
| EmptySystemDeploy

datatype system_deploy_instance =
  SlashSystemDeploy bytes bytes
| CloseBlockSystemDeploy

record system_deploy_data_proto =
  system_deploy :: "system_deploy_instance option"

definition system_deploy_data_from_proto ::
  "system_deploy_data_proto \<Rightarrow> (string, system_deploy_data) res" where
  "system_deploy_data_from_proto p =
     rbind (ok_or (system_deploy p) ''Missing system deploy field'') (\<lambda>i. case i of
        SlashSystemDeploy h k \<Rightarrow> Inr (Slash h k)
      | CloseBlockSystemDeploy \<Rightarrow> Inr CloseBlockSystemDeployData)"

fun system_deploy_data_to_proto :: "system_deploy_data \<Rightarrow> system_deploy_data_proto" where
  "system_deploy_data_to_proto (Slash h k) = \<lparr>system_deploy = Some (SlashSystemDeploy h k)\<rparr>"
| "system_deploy_data_to_proto CloseBlockSystemDeployData = \<lparr>system_deploy = Some CloseBlockSystemDeploy\<rparr>"
| "system_deploy_data_to_proto EmptySystemDeploy = \<lparr>system_deploy = None\<rparr>"

datatype processed_system_deploy =
  Succeeded (event_list: "casper_event list") system_deploy_data
| Failed (event_list: "casper_event list") string

record processed_system_deploy_proto =
  psp_system_deploy :: "system_deploy_data_proto option"
  psp_deploy_log :: "event_proto list"
  psp_error_msg :: string

definition processed_system_deploy_from_proto ::
  "processed_system_deploy_proto \<Rightarrow> (string, processed_system_deploy) res" where
  "processed_system_deploy_from_proto p =
     rbind (sequence_res (map event_from_proto (psp_deploy_log p))) (\<lambda>log.
       if psp_error_msg p = '''' then
         rbind (ok_or (psp_system_deploy p) ''Missing system deploy field'') (\<lambda>sdp.
         rbind (system_deploy_data_from_proto sdp) (\<lambda>sd. Inr (Succeeded log sd)))
       else Inr (Failed log (psp_error_msg p)))"

fun processed_system_deploy_to_proto :: "processed_system_deploy \<Rightarrow> processed_system_deploy_proto" where
  "processed_system_deploy_to_proto (Succeeded log sd) =
     \<lparr>psp_system_deploy = Some (system_deploy_data_to_proto sd),
      psp_deploy_log = map event_to_proto log, psp_error_msg = ''''\<rparr>"
| "processed_system_deploy_to_proto (Failed log msg) =
     \<lparr>psp_system_deploy = None, psp_deploy_log = map event_to_proto log, psp_error_msg = msg\<rparr>"

subsection \<open>Blocks\<close>

record header =
  parents_hash_list :: "bytes list"
  hd_timestamp :: int
  hd_version :: int
  hd_extra_bytes :: bytes

record rejected_deploy =
  rd_sig :: bytes

record bond =
  bond_validator :: bytes
  stake :: int

record f1r3fly_state =
  pre_state_hash :: bytes
  post_state_hash :: bytes
  st_bonds :: "bond list"
  st_block_number :: int

record justification =
  j_validator :: bytes
  latest_block_hash :: bytes

record body =
  bd_state :: f1r3fly_state
  deploys :: "processed_deploy list"
  rejected_deploys :: "rejected_deploy list"
  system_deploys :: "processed_system_deploy list"
  bd_extra_bytes :: bytes

record block_message =
  bm_block_hash :: bytes
  bm_header :: header
  bm_body :: body
  bm_justifications :: "justification list"
  bm_sender :: bytes
  bm_seq_num :: int
  bm_sig :: bytes
  bm_sig_algorithm :: string
  bm_shard_id :: string
  bm_extra_bytes :: bytes

type_synonym header_proto = header
type_synonym rejected_deploy_proto = rejected_deploy
type_synonym bond_proto = bond
type_synonym rchain_state_proto = f1r3fly_state
type_synonym justification_proto = justification

record body_proto =
  bp_state :: "rchain_state_proto option"
  bp_deploys :: "processed_deploy_proto list"
  bp_rejected_deploys :: "rejected_deploy_proto list"
  bp_system_deploys :: "processed_system_deploy_proto list"
  bp_extra_bytes :: bytes

record block_message_proto =
  bmp_block_hash :: bytes
  bmp_header :: "header_proto option"
  bmp_body :: "body_proto option"
  bmp_justifications :: "justification_proto list"
  bmp_sender :: bytes
  bmp_seq_num :: int
  bmp_sig :: bytes
  bmp_sig_algorithm :: string
  bmp_shard_id :: string
  bmp_extra_bytes :: bytes

definition header_from_proto :: "header_proto \<Rightarrow> header" where
  "header_from_proto p =
     \<lparr>parents_hash_list = parents_hash_list p, hd_timestamp = hd_timestamp p,
      hd_version = hd_version p, hd_extra_bytes = hd_extra_bytes p\<rparr>"

definition header_to_proto :: "header \<Rightarrow> header_proto" where
  "header_to_proto h =
     \<lparr>parents_hash_list = parents_hash_list h, hd_timestamp = hd_timestamp h,
      hd_version = hd_version h, hd_extra_bytes = hd_extra_bytes h\<rparr>"

definition rejected_deploy_from_proto :: "rejected_deploy_proto \<Rightarrow> rejected_deploy" where
  "rejected_deploy_from_proto p = \<lparr>rd_sig = rd_sig p\<rparr>"

definition rejected_deploy_to_proto :: "rejected_deploy \<Rightarrow> rejected_deploy_proto" where
  "rejected_deploy_to_proto r = \<lparr>rd_sig = rd_sig r\<rparr>"

definition bond_from_proto :: "bond_proto \<Rightarrow> bond" where
  "bond_from_proto p = \<lparr>bond_validator = bond_validator p, stake = stake p\<rparr>"

definition bond_to_proto :: "bond \<Rightarrow> bond_proto" where
  "bond_to_proto b = \<lparr>bond_validator = bond_validator b, stake = stake b\<rparr>"

definition state_from_proto :: "rchain_state_proto \<Rightarrow> f1r3fly_state" where
  "state_from_proto p =
     \<lparr>pre_state_hash = pre_state_hash p, post_state_hash = post_state_hash p,
      st_bonds = map bond_from_proto (st_bonds p), st_block_number = st_block_number p\<rparr>"

definition state_to_proto :: "f1r3fly_state \<Rightarrow> rchain_state_proto" where
  "state_to_proto s =
     \<lparr>pre_state_hash = pre_state_hash s, post_state_hash = post_state_hash s,
      st_bonds = map bond_to_proto (st_bonds s), st_block_number = st_block_number s\<rparr>"

definition justification_from_proto :: "justification_proto \<Rightarrow> justification" where
  "justification_from_proto p = \<lparr>j_validator = j_validator p, latest_block_hash = latest_block_hash p\<rparr>"

definition justification_to_proto :: "justification \<Rightarrow> justification_proto" where
  "justification_to_proto j = \<lparr>j_validator = j_validator j, latest_block_hash = latest_block_hash j\<rparr>"

definition body_from_proto :: "deploy_env \<Rightarrow> body_proto \<Rightarrow> (string, body) res" where
  "body_from_proto env p =
     rbind (ok_or (bp_state p) ''Missing state field'') (\<lambda>st.
     rbind (sequence_res (map (processed_deploy_from_proto env) (bp_deploys p))) (\<lambda>ds.
     rbind (sequence_res (map processed_system_deploy_from_proto (bp_system_deploys p))) (\<lambda>sds.
       Inr \<lparr>bd_state = state_from_proto st, deploys = ds,
            rejected_deploys = map rejected_deploy_from_proto (bp_rejected_deploys p),
            system_deploys = sds, bd_extra_bytes = bp_extra_bytes p\<rparr>)))"

definition body_to_proto :: "body \<Rightarrow> body_proto" where
  "body_to_proto b =
     \<lparr>bp_state = Some (state_to_proto (bd_state b)),
      bp_deploys = map processed_deploy_to_proto (deploys b),
      bp_rejected_deploys = map rejected_deploy_to_proto (rejected_deploys b),
      bp_system_deploys = map processed_system_deploy_to_proto (system_deploys b),
      bp_extra_bytes = bd_extra_bytes b\<rparr>"

definition block_from_proto :: "deploy_env \<Rightarrow> block_message_proto \<Rightarrow> (string, block_message) res" where
  "block_from_proto env p =
     rbind (ok_or (bmp_header p) ''Missing header field'') (\<lambda>h.
     rbind (ok_or (bmp_body p) ''Missing body field'') (\<lambda>bp.
     rbind (body_from_proto env bp) (\<lambda>b.
       Inr \<lparr>bm_block_hash = bmp_block_hash p, bm_header = header_from_proto h, bm_body = b,
            bm_justifications = map justification_from_proto (bmp_justifications p),
            bm_sender = bmp_sender p, bm_seq_num = bmp_seq_num p, bm_sig = bmp_sig p,
            bm_sig_algorithm = bmp_sig_algorithm p, bm_shard_id = bmp_shard_id p,
            bm_extra_bytes = bmp_extra_bytes p\<rparr>)))"

definition block_to_proto :: "block_message \<Rightarrow> block_message_proto" where
  "block_to_proto b =
     \<lparr>bmp_block_hash = bm_block_hash b, bmp_header = Some (header_to_proto (bm_header b)),
      bmp_body = Some (body_to_proto (bm_body b)),
      bmp_justifications = map justification_to_proto (bm_justifications b),
      bmp_sender = bm_sender b, bmp_seq_num = bm_seq_num b, bmp_sig = bm_sig b,
      bmp_sig_algorithm = bm_sig_algorithm b, bmp_shard_id = bm_shard_id b,
      bmp_extra_bytes = bm_extra_bytes b\<rparr>"

subsection \<open>Approval of the genesis block and requests\<close>

record signature =
  s_public_key :: bytes
  s_algorithm :: string
  s_sig :: bytes

record approved_block_candidate =
  ac_block :: block_message
  required_sigs :: int

record approved_block_candidate_proto =
  acp_block :: "block_message_proto option"
  acp_required_sigs :: int

record unapproved_block =
  ub_candidate :: approved_block_candidate
  ub_timestamp :: int
  duration :: int

record unapproved_block_proto =
  ubp_candidate :: "approved_block_candidate_proto option"
  ubp_timestamp :: int
  ubp_duration :: int

record block_approval =
  ba_candidate :: approved_block_candidate
  ba_sig :: signature

record block_approval_proto =
  bap_candidate :: "approved_block_candidate_proto option"
  bap_sig :: "signature option"

record approved_block =
  ab_candidate :: approved_block_candidate
  sigs :: "signature list"

record approved_block_proto =
  abp_candidate :: "approved_block_candidate_proto option"
  abp_sigs :: "signature list"

definition candidate_from_proto ::
  "deploy_env \<Rightarrow> approved_block_candidate_proto \<Rightarrow> (string, approved_block_candidate) res" where
  "candidate_from_proto env p =
     rbind (ok_or (acp_block p) ''Missing block field'') (\<lambda>bp.
     rbind (block_from_proto env bp) (\<lambda>b.
       Inr \<lparr>ac_block = b, required_sigs = acp_required_sigs p\<rparr>))"

definition candidate_to_proto :: "approved_block_candidate \<Rightarrow> approved_block_candidate_proto" where
  "candidate_to_proto c = \<lparr>acp_block = Some (block_to_proto (ac_block c)), acp_required_sigs = required_sigs c\<rparr>"

definition unapproved_from_proto ::
  "deploy_env \<Rightarrow> unapproved_block_proto \<Rightarrow> (string, unapproved_block) res" where
  "unapproved_from_proto env p =
     rbind (ok_or (ubp_candidate p) ''Missing candidate field'') (\<lambda>cp.
     rbind (candidate_from_proto env cp) (\<lambda>c.
       Inr \<lparr>ub_candidate = c, ub_timestamp = ubp_timestamp p, duration = ubp_duration p\<rparr>))"

definition unapproved_to_proto :: "unapproved_block \<Rightarrow> unapproved_block_proto" where
  "unapproved_to_proto u =
     \<lparr>ubp_candidate = Some (candidate_to_proto (ub_candidate u)), ubp_timestamp = ub_timestamp u,
      ubp_duration = duration u\<rparr>"

definition approval_from_proto :: "deploy_env \<Rightarrow> block_approval_proto \<Rightarrow> (string, block_approval) res" where
  "approval_from_proto env p =
     rbind (ok_or (bap_candidate p) ''Missing candidate field'') (\<lambda>cp.
     rbind (candidate_from_proto env cp) (\<lambda>c.
     rbind (ok_or (bap_sig p) ''Missing sig field'') (\<lambda>s.
       Inr \<lparr>ba_candidate = c, ba_sig = s\<rparr>)))"

definition approval_to_proto :: "block_approval \<Rightarrow> block_approval_proto" where
  "approval_to_proto a =
     \<lparr>bap_candidate = Some (candidate_to_proto (ba_candidate a)), bap_sig = Some (ba_sig a)\<rparr>"

definition approved_from_proto :: "deploy_env \<Rightarrow> approved_block_proto \<Rightarrow> (string, approved_block) res" where
  "approved_from_proto env p =
     rbind (ok_or (abp_candidate p) ''Missing candidate field'') (\<lambda>cp.
     rbind (candidate_from_proto env cp) (\<lambda>c.
       Inr \<lparr>ab_candidate = c, sigs = abp_sigs p\<rparr>))"

definition approved_to_proto :: "approved_block \<Rightarrow> approved_block_proto" where
  "approved_to_proto a =
     \<lparr>abp_candidate = Some (candidate_to_proto (ab_candidate a)), abp_sigs = sigs a\<rparr>"

subsection \<open>Transfer of the last finalized state\<close>

type_synonym store_node_key = "bytes \<times> byte option"

record store_node_key_proto =
  snk_hash :: bytes
  snk_index :: int

definition NONE_INDEX :: int where
  "NONE_INDEX = 0x100"

text \<open>\<open>as u8\<close> keeps the low eight bits of the index.\<close>

definition store_node_key_from_proto :: "store_node_key_proto \<Rightarrow> store_node_key" where
  "store_node_key_from_proto p =
     (snk_hash p, if snk_index p = NONE_INDEX then None else Some (word_of_int (snk_index p)))"

definition store_node_key_to_proto :: "store_node_key \<Rightarrow> store_node_key_proto" where
  "store_node_key_to_proto s =
     \<lparr>snk_hash = fst s, snk_index = (case snd s of Some b \<Rightarrow> uint b | None \<Rightarrow> NONE_INDEX)\<rparr>"

record store_items_request =
  sr_start_path :: "store_node_key list"
  sr_skip :: int
  sr_take :: int

record store_items_request_proto =
  srp_start_path :: "store_node_key_proto list"
  srp_skip :: int
  srp_take :: int

record store_items_message =
  si_start_path :: "store_node_key list"
  si_last_path :: "store_node_key list"
  history_items :: "(bytes \<times> bytes) list"
  data_items :: "(bytes \<times> bytes) list"

record store_item_proto =
  item_key :: bytes
  item_value :: bytes

record store_items_message_proto =
  sip_start_path :: "store_node_key_proto list"
  sip_last_path :: "store_node_key_proto list"
  sip_history_items :: "store_item_proto list"
  sip_data_items :: "store_item_proto list"

definition store_items_request_from_proto :: "store_items_request_proto \<Rightarrow> store_items_request" where
  "store_items_request_from_proto p =
     \<lparr>sr_start_path = map store_node_key_from_proto (srp_start_path p), sr_skip = srp_skip p,
      sr_take = srp_take p\<rparr>"

definition store_items_request_to_proto :: "store_items_request \<Rightarrow> store_items_request_proto" where
  "store_items_request_to_proto r =
     \<lparr>srp_start_path = map store_node_key_to_proto (sr_start_path r), srp_skip = sr_skip r,
      srp_take = sr_take r\<rparr>"

definition store_items_from_proto :: "store_items_message_proto \<Rightarrow> store_items_message" where
  "store_items_from_proto p =
     \<lparr>si_start_path = map store_node_key_from_proto (sip_start_path p),
      si_last_path = map store_node_key_from_proto (sip_last_path p),
      history_items = map (\<lambda>i. (item_key i, item_value i)) (sip_history_items p),
      data_items = map (\<lambda>i. (item_key i, item_value i)) (sip_data_items p)\<rparr>"

definition store_items_to_proto :: "store_items_message \<Rightarrow> store_items_message_proto" where
  "store_items_to_proto m =
     \<lparr>sip_start_path = map store_node_key_to_proto (si_start_path m),
      sip_last_path = map store_node_key_to_proto (si_last_path m),
      sip_history_items = map (\<lambda>(k, v). \<lparr>item_key = k, item_value = v\<rparr>) (history_items m),
      sip_data_items = map (\<lambda>(k, v). \<lparr>item_key = k, item_value = v\<rparr>) (data_items m)\<rparr>"

subsection \<open>Round trips\<close>

text \<open>The conversions that only copy fields.\<close>

lemma same_fields [simp]:
  "peek_from_proto = (\<lambda>x. x)" "peek_to_proto = (\<lambda>x. x)"
  "produce_event_from_proto = (\<lambda>x. x)" "produce_event_to_proto = (\<lambda>x. x)"
  "consume_event_from_proto = (\<lambda>x. x)" "consume_event_to_proto = (\<lambda>x. x)"
  "header_from_proto = (\<lambda>x. x)" "header_to_proto = (\<lambda>x. x)"
  "rejected_deploy_from_proto = (\<lambda>x. x)" "rejected_deploy_to_proto = (\<lambda>x. x)"
  "bond_from_proto = (\<lambda>x. x)" "bond_to_proto = (\<lambda>x. x)"
  "justification_from_proto = (\<lambda>x. x)" "justification_to_proto = (\<lambda>x. x)"
  by (rule ext, simp add: peek_from_proto_def peek_to_proto_def produce_event_from_proto_def
      produce_event_to_proto_def consume_event_from_proto_def consume_event_to_proto_def
      header_from_proto_def header_to_proto_def rejected_deploy_from_proto_def
      rejected_deploy_to_proto_def bond_from_proto_def bond_to_proto_def
      justification_from_proto_def justification_to_proto_def)+

lemma ok_or_simps [simp]: "ok_or (Some x) msg = Inr x" "ok_or None msg = Inl (Err msg)"
  by (simp_all add: ok_or_def)

lemma state_roundtrip [simp]: "state_from_proto (state_to_proto s) = s"
  by (simp add: state_from_proto_def state_to_proto_def)

lemma event_roundtrip [simp]: "event_from_proto (event_to_proto e) = Inr e"
  by (cases e) (simp_all add: event_from_proto_def comm_event_to_proto_def)

lemma events_roundtrip [simp]:
  "sequence_res (map (event_from_proto \<circ> event_to_proto) es) = Inr es"
  by (induction es) simp_all

text \<open>
  The deploys that survive the conversion: those whose algorithm is found again by its name,
  whose expiry is not the number that stands for no expiry, and whose signature verifies.
\<close>

definition deploy_canonical :: "deploy_env \<Rightarrow> deploy_data signed \<Rightarrow> bool" where
  "deploy_canonical env d \<longleftrightarrow> sig_algorithm d = Secp256k1
     \<and> expiration_timestamp (signed_data d) \<noteq> Some 0
     \<and> signed_ok (denv_sig env) (deploy_bytes env) d"

definition processed_canonical :: "deploy_env \<Rightarrow> processed_deploy \<Rightarrow> bool" where
  "processed_canonical env d \<longleftrightarrow>
     deploy_canonical env (pd_deploy d) \<and> system_deploy_error d \<noteq> Some ''''"

fun system_canonical :: "processed_system_deploy \<Rightarrow> bool" where
  "system_canonical (Succeeded log sd) \<longleftrightarrow> sd \<noteq> EmptySystemDeploy"
| "system_canonical (Failed log msg) \<longleftrightarrow> msg \<noteq> ''''"

definition block_canonical :: "deploy_env \<Rightarrow> block_message \<Rightarrow> bool" where
  "block_canonical env b \<longleftrightarrow> (\<forall>d \<in> set (deploys (bm_body b)). processed_canonical env d)
     \<and> (\<forall>d \<in> set (system_deploys (bm_body b)). system_canonical d)"

lemma alg_apply_name: "alg_apply (alg_name alg) = (if alg = Secp256k1 then Some alg else None)"
  by (cases alg) (simp_all add: alg_apply_def secp256k1_name_def secp256k1_eth_name_def)

text \<open>Reading back a deploy: the three ways in which it differs or is refused.\<close>

definition read_data :: "deploy_data \<Rightarrow> deploy_data" where
  "read_data d = (if expiration_timestamp d = Some 0 then d\<lparr>expiration_timestamp := None\<rparr> else d)"

lemma data_from_deploy_to_proto [simp]: "data_from_proto (deploy_to_proto d) = read_data (signed_data d)"
  by (auto simp: data_from_proto_def deploy_to_proto_def read_data_def split: option.splits)

lemma data_to_proto_read [simp]: "data_to_proto (read_data d) = data_to_proto d"
  by (auto simp: data_to_proto_def read_data_def)

lemma deploy_to_proto_sel [simp]:
  "dp_deployer (deploy_to_proto d) = sd_pk d" "dp_sig (deploy_to_proto d) = sd_sig d"
  "dp_sig_algorithm (deploy_to_proto d) = alg_name (sig_algorithm d)"
  by (simp_all add: deploy_to_proto_def)

lemma deploy_readback:
  "deploy_from_proto env (deploy_to_proto d) =
     (if sig_algorithm d \<noteq> Secp256k1
      then Inl (Err (''Unknown signature algorithm: '' @ secp256k1_eth_name))
      else if signed_ok (denv_sig env) (deploy_bytes env) d
      then Inr (d\<lparr>signed_data := read_data (signed_data d)\<rparr>)
      else Inl (Err ''Invalid signature''))"
  by (cases "sig_algorithm d")
    (simp_all add: deploy_from_proto_def alg_apply_name [of Secp256k1, simplified]
      alg_apply_name [of Secp256k1Eth, simplified] from_signed_data_def signed_ok_def deploy_bytes_def)

lemma read_data_id: "read_data d = d \<longleftrightarrow> expiration_timestamp d \<noteq> Some 0"
  by (cases d) (auto simp: read_data_def)

lemma deploy_roundtrip:
  "deploy_from_proto env (deploy_to_proto d) = Inr d \<longleftrightarrow> deploy_canonical env d"
  by (cases d) (auto simp: deploy_readback deploy_canonical_def read_data_id)

lemma processed_roundtrip:
  "processed_deploy_from_proto env (processed_deploy_to_proto d) = Inr d \<longleftrightarrow> processed_canonical env d"
  using deploy_roundtrip [of env "pd_deploy d"]
  by (cases d) (auto simp: processed_deploy_from_proto_def processed_deploy_to_proto_def
      processed_canonical_def split: option.splits)

lemma system_roundtrip:
  "processed_system_deploy_from_proto (processed_system_deploy_to_proto d) = Inr d \<longleftrightarrow> system_canonical d"
proof (cases d)
  case (Succeeded log sd)
  then show ?thesis
    by (cases sd) (simp_all add: processed_system_deploy_from_proto_def system_deploy_data_from_proto_def)
qed (simp add: processed_system_deploy_from_proto_def)

lemma sequence_roundtrip:
  "sequence_res (map f (map g xs)) = Inr xs \<longleftrightarrow> (\<forall>x \<in> set xs. f (g x) = Inr x)"
  by (induction xs) auto

text \<open>
  C18. A block read from its protobuf form is the block that was written exactly when each
  of its deploys is signed with plain secp256k1, has a valid signature and no expiry of 0,
  no error message of a deploy or of a failed system deploy is empty, and no successful
  system deploy is the empty one.
\<close>

theorem block_roundtrip:
  "block_from_proto env (block_to_proto b) = Inr b \<longleftrightarrow> block_canonical env b"
proof -
  have body: "body_from_proto env (body_to_proto bd) = Inr bd \<longleftrightarrow>
      (\<forall>d \<in> set (deploys bd). processed_canonical env d) \<and> (\<forall>d \<in> set (system_deploys bd). system_canonical d)"
    for bd
    using sequence_roundtrip [of "processed_deploy_from_proto env" processed_deploy_to_proto "deploys bd"]
      sequence_roundtrip [of processed_system_deploy_from_proto processed_system_deploy_to_proto "system_deploys bd"]
    by (cases bd) (auto simp: body_from_proto_def body_to_proto_def
        processed_roundtrip system_roundtrip)
  show ?thesis
    using body [of "bm_body b"]
    by (cases b) (auto simp: block_from_proto_def block_to_proto_def block_canonical_def)
qed

text \<open>
  C35. A block that holds a deploy signed with \<open>Secp256k1Eth\<close> is refused by the reader
  whatever its signature is worth: the name that is written, secp256k1:eth, is not the name
  secp256k1-eth under which the algorithm is looked up.
\<close>

theorem eth_deploy_unreadable:
  assumes "d \<in> set (deploys (bm_body b))" "sig_algorithm (pd_deploy d) = Secp256k1Eth"
  shows "(\<exists>e. block_from_proto env (block_to_proto b) = Inl (Err e))
    \<and> deploy_from_proto env (deploy_to_proto (pd_deploy d)) =
        Inl (Err ''Unknown signature algorithm: secp256k1:eth'')"
proof
  have err: "\<exists>e. sequence_res (map (\<lambda>x. processed_deploy_from_proto env (processed_deploy_to_proto x)) ds) = Inl (Err e)"
    if "d \<in> set ds" for ds
    using that
  proof (induction ds)
    case (Cons x xs)
    have "\<exists>e. processed_deploy_from_proto env (processed_deploy_to_proto d) = Inl (Err e)"
      using assms(2) by (simp add: processed_deploy_from_proto_def processed_deploy_to_proto_def deploy_readback)
    moreover have "\<exists>e. processed_deploy_from_proto env (processed_deploy_to_proto x) = Inl (Err e)
        \<or> (\<exists>y. processed_deploy_from_proto env (processed_deploy_to_proto x) = Inr y)"
      by (auto simp: processed_deploy_from_proto_def processed_deploy_to_proto_def deploy_readback comp_def)
    ultimately show ?case using Cons by auto
  qed simp
  show "\<exists>e. block_from_proto env (block_to_proto b) = Inl (Err e)"
    using err [OF assms(1)]
    by (auto simp: block_from_proto_def block_to_proto_def body_from_proto_def body_to_proto_def comp_def)
  show "deploy_from_proto env (deploy_to_proto (pd_deploy d)) =
        Inl (Err ''Unknown signature algorithm: secp256k1:eth'')"
    using assms(2) by (simp add: deploy_readback secp256k1_eth_name_def secp256k1_name_def)
qed

definition demo_denv :: deploy_env where
  "demo_denv = \<lparr>denv_sig = demo_sig_env, encode_to_vec = (\<lambda>p. [])\<rparr>"

definition demo_data :: "int \<Rightarrow> int \<Rightarrow> deploy_data" where
  "demo_data limit price =
     \<lparr>dd_term = ''Nil'', time_stamp = 0, phlo_price = price, phlo_limit = limit,
      valid_after_block_number = 0, shard_id = ''root'', expiration_timestamp = None\<rparr>"

definition demo_deploy :: "signatures_alg \<Rightarrow> int \<Rightarrow> int \<Rightarrow> int \<Rightarrow> processed_deploy" where
  "demo_deploy alg limit price cost =
     (processed_deploy_empty \<lparr>signed_data = demo_data limit price, sd_pk = [], sd_sig = [0, 1, 0],
        sig_algorithm = alg\<rparr>)\<lparr>pd_cost := cost\<rparr>"

definition demo_block :: "processed_deploy list \<Rightarrow> block_message" where
  "demo_block ds =
     \<lparr>bm_block_hash = [1],
      bm_header = \<lparr>parents_hash_list = [], hd_timestamp = 0, hd_version = 1, hd_extra_bytes = []\<rparr>,
      bm_body = \<lparr>bd_state = \<lparr>pre_state_hash = [], post_state_hash = [], st_bonds = [], st_block_number = 0\<rparr>,
        deploys = ds, rejected_deploys = [], system_deploys = [Succeeded [] CloseBlockSystemDeployData],
        bd_extra_bytes = []\<rparr>,
      bm_justifications = [], bm_sender = [], bm_seq_num = 0, bm_sig = [], bm_sig_algorithm = '''',
      bm_shard_id = ''root'', bm_extra_bytes = []\<rparr>"

theorem eth_deploy_unreadable_witness:
  "(\<exists>e. block_from_proto demo_denv (block_to_proto (demo_block [demo_deploy Secp256k1Eth 1 1 0])) = Inl (Err e))
    \<and> deploy_from_proto demo_denv (deploy_to_proto (pd_deploy (demo_deploy Secp256k1Eth 1 1 0))) =
        Inl (Err ''Unknown signature algorithm: secp256k1:eth'')"
  by (rule eth_deploy_unreadable)
    (simp_all add: demo_block_def demo_deploy_def processed_deploy_empty_def)

subsection \<open>Phlogiston charges\<close>

lemma wrap_i64_id: "- (2 ^ 63) \<le> n \<Longrightarrow> n < 2 ^ 63 \<Longrightarrow> wrap_i64 n = n"
  by (simp add: wrap_i64_def)

lemma wrap_i64_id_iff: "0 \<le> n \<Longrightarrow> wrap_i64 n = n \<longleftrightarrow> n < 2 ^ 63"
proof
  assume "wrap_i64 n = n"
  moreover have "(n + 2 ^ 63) mod 2 ^ 64 < (2 ^ 64 :: int)" by (rule pos_mod_bound) simp
  ultimately show "n < 2 ^ 63" by (simp add: wrap_i64_def)
qed (simp add: wrap_i64_id)

text \<open>
  C30. Take a deploy whose limit, price and cost are not negative and fit an \<open>i64\<close>. While
  limit times price fits an \<open>i64\<close> too, the charge taken before the deploy runs and the refund
  after it settle to the price of what was used, of the limit when the cost is above it;
  the refund is that of the unused phlogiston, 0 when the cost is above the limit, and lies
  between 0 and the charge. The charge is the product of limit and price only while that
  product fits, and the refund the price of the unused phlogiston only while that one
  fits: neither multiplication is checked.
\<close>

theorem refund_settles:
  fixes d :: processed_deploy
  assumes "0 \<le> phlo_limit (signed_data (pd_deploy d))" "phlo_limit (signed_data (pd_deploy d)) < 2 ^ 63"
    and "0 \<le> phlo_price (signed_data (pd_deploy d))" "0 \<le> pd_cost d" "pd_cost d < 2 ^ 63"
  shows "let l = phlo_limit (signed_data (pd_deploy d)); p = phlo_price (signed_data (pd_deploy d)); c = pd_cost d;
      charge = total_phlo_charge (signed_data (pd_deploy d))
    in (l * p < 2 ^ 63 \<longrightarrow> charge = min c l * p + refund_amount d \<and> 0 \<le> refund_amount d \<and> refund_amount d \<le> charge)
      \<and> (charge = l * p \<longleftrightarrow> l * p < 2 ^ 63)
      \<and> (refund_amount d = max (l - c) 0 * p \<longleftrightarrow> max (l - c) 0 * p < 2 ^ 63)"
proof -
  define l p c where "l = phlo_limit (signed_data (pd_deploy d))"
    and "p = phlo_price (signed_data (pd_deploy d))" and "c = pd_cost d"
  note a = assms [folded l_def p_def c_def]
  have charge: "total_phlo_charge (signed_data (pd_deploy d)) = wrap_i64 (l * p)"
    by (simp add: total_phlo_charge_def l_def p_def)
  have "wrap_i64 c = c" "wrap_i64 (l - c) = l - c"
    using a by (intro wrap_i64_id; linarith)+
  then have refund: "refund_amount d = wrap_i64 (max (l - c) 0 * p)"
    by (simp add: refund_amount_def l_def p_def c_def)
  have nn: "0 \<le> l * p" "0 \<le> max (l - c) 0 * p" using a by simp_all
  have le: "max (l - c) 0 * p \<le> l * p" using a by (intro mult_right_mono) simp_all
  have split: "l * p = min c l * p + max (l - c) 0 * p"
    by (simp add: distrib_right [symmetric] min_def max_def)
  have "wrap_i64 (l * p) = l * p \<and> wrap_i64 (max (l - c) 0 * p) = max (l - c) 0 * p" if "l * p < 2 ^ 63"
    using that le nn wrap_i64_id_iff by (meson le_less_trans)
  with split nn le wrap_i64_id_iff [OF nn(1)] wrap_i64_id_iff [OF nn(2)] show ?thesis
    unfolding Let_def charge refund l_def [symmetric] p_def [symmetric] c_def [symmetric] by metis
qed

theorem refund_settles_witness:
  "let d = demo_deploy Secp256k1 100 3 140; l = phlo_limit (signed_data (pd_deploy d));
      p = phlo_price (signed_data (pd_deploy d)); c = pd_cost d; charge = total_phlo_charge (signed_data (pd_deploy d))
    in (l * p < 2 ^ 63 \<longrightarrow> charge = min c l * p + refund_amount d \<and> 0 \<le> refund_amount d \<and> refund_amount d \<le> charge)
      \<and> (charge = l * p \<longleftrightarrow> l * p < 2 ^ 63)
      \<and> (refund_amount d = max (l - c) 0 * p \<longleftrightarrow> max (l - c) 0 * p < 2 ^ 63)"
  using refund_settles [of "demo_deploy Secp256k1 100 3 140"]
  by (simp add: demo_deploy_def demo_data_def processed_deploy_empty_def Let_def)

end
