(* ===== verification/EventConverter.thy ===== *)
theory EventConverter
  imports CasperMessage RSpaceCorrect
begin

section \<open>Trace events in blocks\<close>

text \<open>
  casper/src/rust/util/event_converter.rs: the events of the tuple space (\<open>event\<close>,
  rspace++/src/rspace/trace/event.rs) written into a block as protocol events, and read back
  for replay and merging. A \<open>BTreeSet<i32>\<close> is a sorted list.
\<close>

definition casper_consume :: "consume \<Rightarrow> consume_event" where
  "casper_consume c =
     \<lparr>ce_channels_hashes = channel_hashes c, ce_hash = c_hash c, ce_persistent = c_persistent c\<rparr>"

definition casper_produce :: "produce \<Rightarrow> int \<Rightarrow> produce_event" where
  "casper_produce p n =
     \<lparr>pe_channels_hash = channel_hash p, pe_hash = p_hash p, pe_persistent = persistent p,
      pe_times_repeated = n, pe_is_deterministic = is_deterministic p,
      pe_output_value = output_value p, pe_failed = failed p\<rparr>"

fun to_casper_event :: "event \<Rightarrow> casper_event" where
  "to_casper_event (Comm c) =
     CComm \<lparr>cm_consume = casper_consume (comm_consume c),
            cm_produces = map (\<lambda>p. casper_produce p
              (case pc_get p (times_repeated c) of Some n \<Rightarrow> n | None \<Rightarrow> 0)) (produces c),
            cm_peeks = map (\<lambda>p. \<lparr>channel_index = p\<rparr>) (comm_peeks c)\<rparr>"
| "to_casper_event (IoEvent (ProduceEvent p)) = CProduce (casper_produce p 0)"
| "to_casper_event (IoEvent (ConsumeEvent c)) = CConsume (casper_consume c)"

definition rspace_consume :: "consume_event \<Rightarrow> consume" where
  "rspace_consume c =
     \<lparr>channel_hashes = ce_channels_hashes c, c_hash = ce_hash c, c_persistent = ce_persistent c\<rparr>"

definition rspace_produce :: "produce_event \<Rightarrow> produce" where
  "rspace_produce p =
     \<lparr>channel_hash = pe_channels_hash p, p_hash = pe_hash p, persistent = pe_persistent p,
      is_deterministic = pe_is_deterministic p, output_value = pe_output_value p, failed = pe_failed p\<rparr>"

fun to_rspace_event :: "casper_event \<Rightarrow> event" where
  "to_rspace_event (CProduce p) = IoEvent (ProduceEvent (rspace_produce p))"
| "to_rspace_event (CConsume c) = IoEvent (ConsumeEvent (rspace_consume c))"
| "to_rspace_event (CComm c) =
     Comm \<lparr>comm_consume = rspace_consume (cm_consume c),
           produces = sort_key (\<lambda>p. (channel_hash p, p_hash p, persistent p))
             (map rspace_produce (cm_produces c)),
           comm_peeks = sorted_list_of_set (channel_index ` set (cm_peeks c)),
           times_repeated = foldl (\<lambda>m p. pc_insert (rspace_produce p) (pe_times_repeated p) m)
             [] (cm_produces c)\<rparr>"

subsection \<open>Ordered maps of counters\<close>

abbreviation pc_keys :: "(produce \<times> int) list \<Rightarrow> bytes list" where
  "pc_keys m \<equiv> map (\<lambda>e. p_hash (fst e)) m"

lemma collect_Cons: "{d \<in> set (x # m). P d} = (if P x then {x} else {}) \<union> {d \<in> set m. P d}"
  by auto

lemma pc_insert_set:
  "sorted_wrt (<) (pc_keys m) \<Longrightarrow> inj_on p_hash (insert p (fst ` set m)) \<Longrightarrow>
   set (pc_insert p v m) = insert (p, v) {e \<in> set m. fst e \<noteq> p}"
proof (induction m)
  case (Cons e m)
  obtain q w where e: "e = (q, w)" by (cases e)
  have later: "p_hash q < p_hash (fst d)" if "d \<in> set m" for d
    using that Cons.prems(1) by (simp add: e)
  have eq: "produce_eq q p \<longleftrightarrow> q = p"
    using inj_onD [OF Cons.prems(2), of q p] by (auto simp: e produce_eq_def)
  have "inj_on p_hash (insert p (fst ` set m))"
    using Cons.prems(2) by (rule inj_on_subset) auto
  with Cons have IH: "set (pc_insert p v m) = insert (p, v) {e \<in> set m. fst e \<noteq> p}"
    by simp
  have rest: "{d \<in> set m. fst d \<noteq> p} = set m" if "q = p \<or> p_hash p < p_hash q"
    using later that by fastforce
  show ?case
    using IH rest unfolding e pc_insert.simps eq collect_Cons
    by (cases "q = p"; cases "p_hash p < p_hash q") (simp_all add: insert_commute)
qed simp

lemma pc_insert_keys: "set (pc_keys (pc_insert p v m)) = insert (p_hash p) (set (pc_keys m))"
  by (induction p v m rule: pc_insert.induct) (auto simp: produce_eq_def)

lemma pc_insert_sorted: "sorted_wrt (<) (pc_keys m) \<Longrightarrow> sorted_wrt (<) (pc_keys (pc_insert p v m))"
proof (induction p v m rule: pc_insert.induct)
  case (2 p v q w m)
  then show ?case
    using pc_insert_keys [of p v m] by (auto simp: produce_eq_def)
qed simp

lemma dedup_last_set:
  "set (dedup_last m) \<subseteq> set m \<and> fst ` set (dedup_last m) \<subseteq> fst ` set m
    \<and> set (pc_keys (dedup_last m)) = set (pc_keys m)"
  by (induction m rule: dedup_last.induct) (auto simp: produce_eq_def)

lemma dedup_last_sorted: "sorted (pc_keys m) \<Longrightarrow> sorted_wrt (<) (pc_keys (dedup_last m))"
proof (induction m rule: dedup_last.induct)
  case (1 x y m)
  have keys: "set (pc_keys (dedup_last (y # m))) = set (pc_keys (y # m))"
    using dedup_last_set [of "y # m"] by blast
  show ?case
  proof (cases "produce_eq (fst x) (fst y)")
    case True
    with 1 show ?thesis by simp
  next
    case False
    then have "p_hash (fst x) < k" if "k \<in> set (pc_keys (y # m))" for k
      using that 1(3) by (auto simp: produce_eq_def order.order_iff_strict)
    with False 1 keys show ?thesis by simp
  qed
qed simp_all

lemma pc_sorted_eq:
  assumes "sorted_wrt (<) (pc_keys m)" "sorted_wrt (<) (pc_keys m')" "set m = set m'"
  shows "m = m'"
proof -
  have "inj_on (\<lambda>e. p_hash (fst e)) (set m)"
    using assms(1) by (simp add: strict_sorted_iff distinct_map)
  moreover have "pc_keys m = pc_keys m'"
    using assms by (intro strict_sorted_equal) simp_all
  ultimately show ?thesis
    using assms(3) by (simp add: inj_on_map_eq_map)
qed

subsection \<open>Round trip\<close>

text \<open>
  The COMM events whose parts have the order and the keys that the tuple space gives them:
  sorted produces, one counter for each produce, peeks without repetition.
\<close>

definition comm_canonical :: "comm \<Rightarrow> bool" where
  "comm_canonical c \<longleftrightarrow> sorted (map (\<lambda>p. (channel_hash p, p_hash p, persistent p)) (produces c))
     \<and> sorted_wrt (<) (comm_peeks c)
     \<and> sorted_wrt (<) (pc_keys (times_repeated c))
     \<and> fst ` set (times_repeated c) = set (produces c)
     \<and> inj_on p_hash (set (produces c))"

fun event_canonical :: "event \<Rightarrow> bool" where
  "event_canonical (Comm c) = comm_canonical c"
| "event_canonical (IoEvent e) = True"

lemma rspace_casper_produce [simp]: "rspace_produce (casper_produce p n) = p"
  by (simp add: rspace_produce_def casper_produce_def)

lemma rspace_casper_consume [simp]: "rspace_consume (casper_consume c) = c"
  by (simp add: rspace_consume_def casper_consume_def)

lemma pe_times_casper [simp]: "pe_times_repeated (casper_produce p n) = n"
  by (simp add: casper_produce_def)

lemma pc_fold_set:
  assumes "inj_on p_hash (set ps \<union> fst ` set m)" "sorted_wrt (<) (pc_keys m)"
    "\<forall>e \<in> set m. snd e = f (fst e)"
  shows "sorted_wrt (<) (pc_keys (foldl (\<lambda>m p. pc_insert p (f p) m) m ps))
    \<and> set (foldl (\<lambda>m p. pc_insert p (f p) m) m ps) = set m \<union> (\<lambda>p. (p, f p)) ` set ps"
  using assms
proof (induction ps arbitrary: m)
  case (Cons p ps)
  have "inj_on p_hash (insert p (fst ` set m))"
    using Cons.prems(1) by (rule inj_on_subset) auto
  from pc_insert_set [OF Cons.prems(2) this, of "f p"]
  have set: "set (pc_insert p (f p) m) = insert (p, f p) (set m)"
    using Cons.prems(3) by force
  with Cons.IH [of "pc_insert p (f p) m"] Cons.prems show ?case
    by (simp add: pc_insert_sorted)
qed simp

lemma pc_get_member:
  "sorted_wrt (<) (pc_keys m) \<Longrightarrow> (p, n) \<in> set m \<Longrightarrow> pc_get p m = Some n"
  by (induction m) (auto simp: pc_get_def produce_eq_def)

lemma event_canonical_roundtrip:
  assumes can: "event_canonical e"
  shows "to_rspace_event (to_casper_event e) = e"
proof (cases e)
  case (IoEvent io)
  then show ?thesis by (cases io) simp_all
next
  case (Comm c)
  with can have c: "comm_canonical c" by simp
  define f where "f = (\<lambda>p. case pc_get p (times_repeated c) of Some n \<Rightarrow> n | None \<Rightarrow> 0)"
  have f: "f (fst e) = snd e" if "e \<in> set (times_repeated c)" for e
    using pc_get_member [of "times_repeated c" "fst e" "snd e"] that c
    by (simp add: f_def comm_canonical_def)
  have inj: "inj_on p_hash (set (produces c) \<union> fst ` set [])"
    using c by (simp add: comm_canonical_def)
  have "(\<lambda>p. (p, f p)) ` set (produces c) = (\<lambda>p. (p, f p)) ` fst ` set (times_repeated c)"
    using c by (simp add: comm_canonical_def)
  also have "\<dots> = set (times_repeated c)"
    using f by (simp add: image_image)
  finally have "foldl (\<lambda>m p. pc_insert p (f p) m) [] (produces c) = times_repeated c"
    using pc_fold_set [OF inj, of f] c
    by (intro pc_sorted_eq) (simp_all add: comm_canonical_def)
  moreover have "sort_key (\<lambda>p. (channel_hash p, p_hash p, persistent p)) (produces c) = produces c"
    using c by (simp add: comm_canonical_def sort_key_id_if_sorted)
  moreover have "sorted_list_of_set (set (comm_peeks c)) = comm_peeks c"
    using c by (simp add: comm_canonical_def sorted_list_of_set.idem_if_sorted_distinct strict_sorted_iff)
  ultimately show ?thesis
    unfolding f_def by (simp add: Comm foldl_map comp_def image_image)
qed

lemma comm_new_canonical:
  assumes inj: "inj_on p_hash (d_source ` cc_datum ` set cands)" and "sorted_wrt (<) peeks"
  shows "event_canonical (Comm (comm_new cands cref peeks (produce_counters sp)))"
proof -
  define ps where "ps = sort_key (\<lambda>p. (channel_hash p, p_hash p, persistent p)) (map (\<lambda>c. d_source (cc_datum c)) cands)"
  have ps: "set ps = d_source ` cc_datum ` set cands" by (simp add: ps_def image_image)
  define m where "m = sort_key (\<lambda>e. p_hash (fst e))
    (map (\<lambda>p. (p, case pc_get p (produce_counter sp) of Some n \<Rightarrow> n | None \<Rightarrow> 0)) ps)"
  have m: "fst ` set m = set ps" by (simp add: m_def image_image)
  have "p_hash ` fst ` set (dedup_last m) = p_hash ` set ps" "fst ` set (dedup_last m) \<subseteq> set ps"
    using dedup_last_set [of m] m by (simp_all add: image_image [symmetric])
  then have "fst ` set (dedup_last m) = set ps"
    using inj ps by (metis inj_on_image_eq_iff order_refl)
  moreover have "sorted_wrt (<) (pc_keys (dedup_last m))"
    by (rule dedup_last_sorted) (simp add: m_def)
  ultimately show ?thesis
    using assms(2) inj ps
    by (simp add: comm_canonical_def comm_new_def produce_counters_def pc_collect_def Let_def
        ps_def [symmetric] m_def [symmetric]) (simp add: ps_def)
qed

text \<open>
  C19. Writing an event of the tuple space into a block and reading it back gives the same
  event, for the events the tuple space records: the COMM that \<open>comm_new\<close> builds with the
  counters of a space, when equal hashes mean equal produces and the peeks are a set.
\<close>

theorem event_converter_roundtrip:
  assumes "inj_on p_hash (d_source ` cc_datum ` set cands)" "sorted_wrt (<) peeks"
  shows "to_rspace_event (to_casper_event (Comm (comm_new cands cref peeks (produce_counters sp)))) =
      Comm (comm_new cands cref peeks (produce_counters sp))
    \<and> to_rspace_event (to_casper_event (IoEvent io)) = IoEvent io"
  using comm_new_canonical [OF assms] event_canonical_roundtrip [of "IoEvent io"]
  by (blast intro: event_canonical_roundtrip event_canonical.simps(2) [THEN iffD2])

theorem event_converter_roundtrip_witness:
  "to_rspace_event (to_casper_event (Comm (comm_new [demo_cand 1, demo_cand 2]
      (consume_create demo_henv [1, 2] [3, 4] 5 True) [0, 1] (produce_counters demo_space)))) =
    Comm (comm_new [demo_cand 1, demo_cand 2] (consume_create demo_henv [1, 2] [3, 4] 5 True) [0, 1]
      (produce_counters demo_space))
    \<and> to_rspace_event (to_casper_event (IoEvent (ProduceEvent (produce_new [1] [2] True)))) =
        IoEvent (ProduceEvent (produce_new [1] [2] True))"
  by (rule event_converter_roundtrip)
    (simp_all add: demo_cand_def datum_create_def produce_create_def hash_produce_def hash_channel_def
      demo_henv_def Let_def)

end
