(* ===== verification/Traversal.thy ===== *)
theory Traversal
  imports HashSets
begin

section \<open>Breadth-first traversals\<close>

text \<open>
  The loop that several components write to collect everything reachable from a block: a
  result set, the current level, and for every node of the level its successors, of which
  the new ones enter the result and the next level. Nothing in the code bounds the number
  of rounds, so the loop is a partial function whose value is \<open>None\<close> if it does not end.
  The locale \<open>traversal\<close> states what the loop relies on, that only finitely many nodes occur
  as successors, and shows that it ends and what it computes.
\<close>

text \<open>The two inner loops: the nodes of a level, the successors of a node.\<close>

definition visit_child :: "'a list \<times> 'a list \<Rightarrow> 'a \<Rightarrow> 'a list \<times> 'a list" where
  "visit_child acc y = (case acc of (result, next_level) \<Rightarrow>
     if y \<in> set result then (result, next_level) else (result @ [y], next_level @ [y]))"

definition visit_level ::
  "('a \<Rightarrow> ('e, 'a list) res) \<Rightarrow> 'a list \<Rightarrow> 'a list \<Rightarrow> ('e, 'a list \<times> 'a list) res" where
  "visit_level succ result level =
     fold_res (\<lambda>acc x. rbind (succ x) (\<lambda>ys. Inr (foldl visit_child acc ys))) (result, []) level"

partial_function (option) levels ::
  "('a \<Rightarrow> ('e, 'a list) res) \<Rightarrow> 'a list \<Rightarrow> 'a list \<Rightarrow> ('e, 'a list) res option" where
  "levels succ result level =
     (if level = [] then Some (Inr result)
      else case visit_level succ result level of
             Inl e \<Rightarrow> Some (Inl e)
           | Inr (result', next_level) \<Rightarrow> levels succ result' next_level)"

declare levels.simps [code]

subsection \<open>One level\<close>

lemma visit_child_simps [simp]:
  "y \<in> set result \<Longrightarrow> visit_child (result, nxt) y = (result, nxt)"
  "y \<notin> set result \<Longrightarrow> visit_child (result, nxt) y = (result @ [y], nxt @ [y])"
  by (simp_all add: visit_child_def)

lemma visit_children:
  "foldl visit_child (result, nxt) ys = (result', nxt') \<Longrightarrow>
     \<exists>new. result' = result @ new \<and> nxt' = nxt @ new \<and> set new = set ys - set result \<and> distinct new"
proof (induction ys arbitrary: result nxt)
  case (Cons y ys)
  show ?case
  proof (cases "y \<in> set result")
    case True
    with Cons.prems Cons.IH [of result nxt] show ?thesis by auto
  next
    case False
    with Cons.prems have "foldl visit_child (result @ [y], nxt @ [y]) ys = (result', nxt')"
      by simp
    from Cons.IH [OF this] obtain new where
      "result' = (result @ [y]) @ new" "nxt' = (nxt @ [y]) @ new"
      "set new = set ys - set (result @ [y])" "distinct new"
      by blast
    with False show ?thesis
      by (auto intro!: exI [of _ "y # new"])
  qed
qed auto

definition succs :: "('a \<Rightarrow> ('e, 'a list) res) \<Rightarrow> 'a \<Rightarrow> 'a set" where
  "succs f x = (case f x of Inr ys \<Rightarrow> set ys | Inl _ \<Rightarrow> {})"

lemma visit_level_aux:
  "fold_res (\<lambda>acc x. rbind (f x) (\<lambda>ys. Inr (foldl visit_child acc ys))) (result, nxt) level = Inr (result', nxt') \<Longrightarrow>
     (\<forall>x \<in> set level. \<exists>ys. f x = Inr ys) \<and> (\<exists>new. result' = result @ new \<and> nxt' = nxt @ new
       \<and> set new = (\<Union>x \<in> set level. succs f x) - set result \<and> distinct new)"
proof (induction level arbitrary: result nxt)
  case (Cons x level)
  then obtain ys r n where ys: "f x = Inr ys" and rn: "foldl visit_child (result, nxt) ys = (r, n)"
    and rest: "fold_res (\<lambda>acc x. rbind (f x) (\<lambda>ys. Inr (foldl visit_child acc ys))) (r, n) level = Inr (result', nxt')"
    by (cases "f x"; cases "foldl visit_child (result, nxt) (projr (f x))") auto
  from visit_children [OF rn] obtain new1 where 1: "r = result @ new1" "n = nxt @ new1"
    "set new1 = set ys - set result" "distinct new1" by blast
  from Cons.IH [OF rest] obtain new2 where 2: "result' = r @ new2" "nxt' = n @ new2"
    "set new2 = (\<Union>x \<in> set level. succs f x) - set r" "distinct new2"
    "\<forall>x \<in> set level. \<exists>ys. f x = Inr ys" by blast
  with 1 ys show ?case
    by (auto simp: succs_def intro!: exI [of _ "new1 @ new2"])
qed simp

lemma visit_level_Inr:
  assumes "visit_level f result level = Inr (result', next_level)"
  shows "\<forall>x \<in> set level. \<exists>ys. f x = Inr ys" "result' = result @ next_level"
    "set next_level = (\<Union>x \<in> set level. succs f x) - set result" "distinct next_level"
  using visit_level_aux [OF assms [unfolded visit_level_def]] by auto

lemma visit_level_Inl: "visit_level f result level = Inl e \<Longrightarrow> \<exists>x \<in> set level. f x = Inl e"
proof -
  have "fold_res (\<lambda>acc x. rbind (f x) (\<lambda>ys. Inr (foldl visit_child acc ys))) acc level = Inl e \<Longrightarrow>
      \<exists>x \<in> set level. f x = Inl e" for acc
  proof (induction level arbitrary: acc)
    case (Cons x level)
    then show ?case by (cases "f x") auto
  qed simp
  then show "visit_level f result level = Inl e \<Longrightarrow> ?thesis"
    by (simp add: visit_level_def)
qed

subsection \<open>The whole traversal\<close>

text \<open>The nodes that can be reached from a level in one step or more.\<close>

definition edges :: "('a \<Rightarrow> ('e, 'a list) res) \<Rightarrow> ('a \<times> 'a) set" where
  "edges f = {(x, y). y \<in> succs f x}"

definition reached :: "('a \<Rightarrow> ('e, 'a list) res) \<Rightarrow> 'a set \<Rightarrow> 'a set" where
  "reached f X = (edges f)\<^sup>+ `` X"

text \<open>
  What holds between two rounds: everything in the result is reachable, and the successors
  of the start and of every node of the result that is not in the current level are in the
  result.
\<close>

definition round_inv :: "('a \<Rightarrow> ('e, 'a list) res) \<Rightarrow> 'a set \<Rightarrow> 'a list \<Rightarrow> 'a list \<Rightarrow> bool" where
  "round_inv f X result level \<longleftrightarrow> distinct result \<and> set result \<subseteq> reached f X
     \<and> set level \<subseteq> X \<union> reached f X
     \<and> (\<forall>x \<in> X \<union> set result - set level. succs f x \<subseteq> set result \<and> (\<exists>ys. f x = Inr ys))"

lemma reached_step: "x \<in> X \<union> reached f X \<Longrightarrow> y \<in> succs f x \<Longrightarrow> y \<in> reached f X"
  by (auto simp: reached_def edges_def intro: trancl_into_trancl)

lemma round_inv_step:
  assumes "round_inv f X result level" "visit_level f result level = Inr (result', next_level)"
  shows "round_inv f X result' next_level"
proof -
  note v = visit_level_Inr [OF assms(2)]
  have new: "set next_level \<subseteq> reached f X"
    using assms(1) v(3) by (auto simp: round_inv_def intro: reached_step)
  have "succs f x \<subseteq> set result' \<and> (\<exists>ys. f x = Inr ys)" if "x \<in> X \<union> set result' - set next_level" for x
    using that assms(1) v by (cases "x \<in> set level") (auto simp: round_inv_def)
  moreover have "distinct result'"
    using assms(1) v by (auto simp: round_inv_def)
  ultimately show ?thesis
    using assms(1) v(2) new by (auto simp: round_inv_def)
qed

lemma round_inv_done:
  assumes "round_inv f X result []"
  shows "set result = reached f X" "distinct result" "\<forall>x \<in> X \<union> reached f X. \<exists>ys. f x = Inr ys"
proof -
  have "y \<in> set result" if "(x, y) \<in> (edges f)\<^sup>+" "x \<in> X" for x y
    using that assms by (induction) (auto simp: round_inv_def edges_def)
  then show eq: "set result = reached f X"
    using assms by (auto simp: round_inv_def reached_def)
  show "distinct result" "\<forall>x \<in> X \<union> reached f X. \<exists>ys. f x = Inr ys"
    using assms by (auto simp: round_inv_def eq)
qed

lemma round_inv_start: "round_inv f (set level) [] level"
  by (auto simp: round_inv_def)

text \<open>
  What the callers promise: only finitely many nodes occur as successors. Then the
  traversal ends, with everything reachable or with the failure of a node it has reached.
\<close>

locale traversal =
  fixes succ :: "'a \<Rightarrow> ('e, 'a list) res"
  assumes finite_succ: "finite (\<Union>x. succs succ x)"
begin

lemma levels_result:
  assumes "round_inv succ X result level"
  shows "\<exists>r. levels succ result level = Some r \<and> (case r of
      Inr s \<Rightarrow> set s = reached succ X \<and> distinct s \<and> (\<forall>x \<in> X \<union> reached succ X. \<exists>ys. succ x = Inr ys)
    | Inl e \<Rightarrow> \<exists>x \<in> X \<union> reached succ X. succ x = Inl e)"
  using assms
proof (induction "card ((\<Union>x. succs succ x) - set result) * 2 + (if level = [] then 0 else 1)"
    arbitrary: result level rule: less_induct)
  case less
  show ?case
  proof (cases "level = []")
    case True
    then show ?thesis
      using less.prems round_inv_done [of succ X result] by (simp add: levels.simps)
  next
    case ne: False
    show ?thesis
    proof (cases "visit_level succ result level")
      case (Inl e)
      then show ?thesis
        using ne less.prems visit_level_Inl [OF Inl] by (auto simp: levels.simps [of succ result level] round_inv_def)
    next
      case (Inr p)
      obtain result' next_level where p: "p = (result', next_level)" by (cases p)
      note v = visit_level_Inr [OF Inr [unfolded p]]
      have "card ((\<Union>x. succs succ x) - set result') * 2 + (if next_level = [] then 0 else 1)
          < card ((\<Union>x. succs succ x) - set result) * 2 + (if level = [] then 0 else 1)"
      proof (cases "next_level = []")
        case True
        then show ?thesis using v(2) ne by simp
      next
        case False
        have sub: "set next_level \<subseteq> (\<Union>x. succs succ x) - set result" using v(3) by auto
        then have "(\<Union>x. succs succ x) - set result' \<subset> (\<Union>x. succs succ x) - set result"
          using False v(2) by (cases next_level) auto
        then have "card ((\<Union>x. succs succ x) - set result') < card ((\<Union>x. succs succ x) - set result)"
          using finite_succ by (intro psubset_card_mono) simp_all
        then show ?thesis using ne False by simp
      qed
      from less.hyps [OF this round_inv_step [OF less.prems Inr [unfolded p]]]
      show ?thesis using ne by (simp add: levels.simps [of succ result level] Inr p)
    qed
  qed
qed

lemma terminates: "\<exists>r. levels succ [] level = Some r"
  using levels_result [OF round_inv_start] by blast

lemma reaches_all:
  assumes "levels succ [] level = Some (Inr r)"
  shows "set r = reached succ (set level)" "distinct r"
  using levels_result [OF round_inv_start [of succ level]] assms by auto

lemma fails_at_node:
  assumes "levels succ [] level = Some (Inl e)"
  shows "\<exists>x \<in> set level \<union> reached succ (set level). succ x = Inl e"
  using levels_result [OF round_inv_start [of succ level]] assms by auto

lemma succeeds:
  assumes "\<forall>x \<in> set level \<union> reached succ (set level). \<exists>ys. succ x = Inr ys"
  shows "\<exists>r. levels succ [] level = Some (Inr r) \<and> set r = reached succ (set level) \<and> distinct r"
proof -
  obtain r where r: "levels succ [] level = Some r" "case r of
      Inr s \<Rightarrow> set s = reached succ (set level) \<and> distinct s
        \<and> (\<forall>x \<in> set level \<union> reached succ (set level). \<exists>ys. succ x = Inr ys)
    | Inl e \<Rightarrow> \<exists>x \<in> set level \<union> reached succ (set level). succ x = Inl e"
    using levels_result [OF round_inv_start [of succ level]] by blast
  show ?thesis
  proof (cases r)
    case (Inl e)
    with r(2) obtain x where "x \<in> set level \<union> reached succ (set level)" "succ x = Inl e" by auto
    with assms show ?thesis by (metis sum.distinct(1))
  next
    case (Inr s)
    with r show ?thesis by simp
  qed
qed

end

end
