(* ===== verification/TypedStore.thy ===== *)
theory TypedStore
  imports KvStore
begin

section \<open>Typed key-value stores\<close>

text \<open>
  \<open>KeyValueTypedStoreImpl\<close> of shared/src/rust/store/key_value_typed_store_impl.rs, which keeps
  typed keys and values in a byte store through bincode. The stores built on it (block
  metadata, latest messages, deploys, equivocations) are modelled at its interface: a map of
  typed entries, in which a later \<open>put\<close> of a key replaces the earlier one. That bincode reads
  back what it wrote, and that the medium does not fail, are assumptions of this model; a
  missing key is the error the operations report.
\<close>

type_synonym ('k, 'v) typed_store = "('k, 'v) hmap"

definition ts_get :: "('k, 'v) typed_store \<Rightarrow> 'k list \<Rightarrow> 'v option list" where
  "ts_get s ks = map (hm_get s) ks"

definition ts_put :: "('k, 'v) typed_store \<Rightarrow> ('k \<times> 'v) list \<Rightarrow> ('k, 'v) typed_store" where
  "ts_put s kv_pairs = foldl (\<lambda>m (k, v). hm_put k v m) s kv_pairs"

definition ts_delete :: "('k, 'v) typed_store \<Rightarrow> 'k list \<Rightarrow> ('k, 'v) typed_store" where
  "ts_delete s ks = fold hm_del ks s"

definition ts_contains :: "('k, 'v) typed_store \<Rightarrow> 'k list \<Rightarrow> bool list" where
  "ts_contains s ks = map (\<lambda>v. v \<noteq> None) (ts_get s ks)"

definition ts_collect :: "('k, 'v) typed_store \<Rightarrow> ('k \<times> 'v \<Rightarrow> 't option) \<Rightarrow> 't list" where
  "ts_collect s f = List.map_filter f s"

definition get_one :: "('k, 'v) typed_store \<Rightarrow> 'k \<Rightarrow> 'v option" where
  "get_one s k = (case ts_get s [k] of v # _ \<Rightarrow> v | [] \<Rightarrow> None)"

definition key_not_found :: kv_store_error where
  "key_not_found = KvKeyNotFound ''Error when reading from KeyValueStore: value not found.''"

definition get_batch :: "('k, 'v) typed_store \<Rightarrow> 'k list \<Rightarrow> (kv_store_error, 'v list) res" where
  "get_batch s ks =
     sequence_res (map (\<lambda>v. case v of Some x \<Rightarrow> Inr x | None \<Rightarrow> Inl (Err key_not_found)) (ts_get s ks))"

definition get_unsafe :: "('k, 'v) typed_store \<Rightarrow> 'k \<Rightarrow> (kv_store_error, 'v) res" where
  "get_unsafe s k = (case get_one s k of Some v \<Rightarrow> Inr v | None \<Rightarrow> Inl (Err key_not_found))"

definition put_one :: "('k, 'v) typed_store \<Rightarrow> 'k \<Rightarrow> 'v \<Rightarrow> ('k, 'v) typed_store" where
  "put_one s k v = ts_put s [(k, v)]"

definition put_if_absent :: "('k, 'v) typed_store \<Rightarrow> ('k \<times> 'v) list \<Rightarrow> ('k, 'v) typed_store" where
  "put_if_absent s kv_pairs =
     (let if_absent = ts_contains s (map fst kv_pairs)
      in ts_put s (map fst (filter (\<lambda>(_, is_present). \<not> is_present) (zip kv_pairs if_absent))))"

definition contains_key :: "('k, 'v) typed_store \<Rightarrow> 'k \<Rightarrow> bool" where
  "contains_key s k = (case ts_contains s [k] of b # _ \<Rightarrow> b | [] \<Rightarrow> False)"

definition get_or_else :: "('k, 'v) typed_store \<Rightarrow> 'k \<Rightarrow> 'v \<Rightarrow> 'v" where
  "get_or_else s k else_value = (case get_one s k of Some v \<Rightarrow> v | None \<Rightarrow> else_value)"

text \<open>\<open>any_value\<close>, with the early exit of \<open>iterate_while\<close>.\<close>

fun any_value :: "('k, 'v) typed_store \<Rightarrow> ('v \<Rightarrow> (kv_store_error, bool) res) \<Rightarrow> (kv_store_error, bool) res" where
  "any_value [] f = Inr False"
| "any_value ((k, v) # s) f = rbind (f v) (\<lambda>b. if b then Inr True else any_value s f)"

subsection \<open>What the operations do to the map\<close>

lemma get_one_eq [simp]: "get_one s k = hm_get s k"
  by (simp add: get_one_def ts_get_def)

lemma get_unsafe_eq: "get_unsafe s k = (case hm_get s k of Some v \<Rightarrow> Inr v | None \<Rightarrow> Inl (Err key_not_found))"
  by (simp add: get_unsafe_def)

lemma contains_key_eq [simp]: "contains_key s k \<longleftrightarrow> hm_get s k \<noteq> None"
  by (simp add: contains_key_def ts_contains_def ts_get_def)

lemma ts_put_simps [simp]: "ts_put s [] = s" "ts_put s ((k, v) # kvs) = ts_put (hm_put k v s) kvs"
  by (simp_all add: ts_put_def)

lemma put_one_eq [simp]: "put_one s k v = hm_put k v s"
  by (simp add: put_one_def)

lemma ts_put_get: "hm_get (ts_put s kvs) k = (case map_of (rev kvs) k of Some v \<Rightarrow> Some v | None \<Rightarrow> hm_get s k)"
proof (induction kvs arbitrary: s)
  case (Cons kv kvs)
  then show ?case by (cases kv) (auto simp: map_add_def split: option.splits)
qed simp

lemma ts_put_same:
  "hm_get (ts_put s (map (\<lambda>x. (f x, v)) xs)) k = (if k \<in> f ` set xs then Some v else hm_get s k)"
  by (induction xs arbitrary: s) auto

lemma ts_put_ok [simp, intro]: "hm_ok s \<Longrightarrow> hm_ok (ts_put s kvs)"
proof (induction kvs arbitrary: s)
  case (Cons kv kvs)
  then show ?case by (cases kv) simp
qed simp

lemma ts_put_keys: "dom (hm_get (ts_put s kvs)) = dom (hm_get s) \<union> fst ` set kvs"
proof (induction kvs arbitrary: s)
  case (Cons kv kvs)
  then show ?case by (cases kv) auto
qed simp

lemma get_batch_Inr:
  "get_batch s ks = Inr vs \<longleftrightarrow> map (hm_get s) ks = map Some vs"
proof (induction ks arbitrary: vs)
  case (Cons k ks)
  then show ?case
    by (cases vs) (auto simp: get_batch_def ts_get_def split: option.splits)
qed (auto simp: get_batch_def ts_get_def)

lemma put_if_absent_get:
  "hm_get (put_if_absent s kvs) k = (case hm_get s k of Some v \<Rightarrow> Some v | None \<Rightarrow> map_of (rev kvs) k)"
proof -
  have "filter (\<lambda>(kv, is_present). \<not> is_present) (zip kvs (ts_contains s (map fst kvs))) =
      map (\<lambda>kv. (kv, False)) (filter (\<lambda>kv. hm_get s (fst kv) = None) kvs)"
    by (induction kvs) (auto simp: ts_contains_def ts_get_def)
  then have "put_if_absent s kvs = ts_put s (filter (\<lambda>kv. hm_get s (fst kv) = None) kvs)"
    by (simp add: put_if_absent_def Let_def comp_def)
  moreover have "map_of (rev (filter (\<lambda>kv. hm_get s (fst kv) = None) kvs)) k =
      (if hm_get s k = None then map_of (rev kvs) k else None)"
    by (induction kvs) (auto simp: map_add_def split: option.splits)
  ultimately show ?thesis
    by (auto simp: ts_put_get split: option.splits)
qed

end
