(* ===== verification/BlockDag.thy ===== *)
theory BlockDag
  imports Complex_Main CasperMessage Traversal TypedStore
begin

section \<open>The block DAG\<close>

text \<open>
  block-storage/src/rust/dag: \<open>BlockMetadataStore\<close> (block_metadata_store.rs) keeps the metadata
  of every block and an in-memory index of it (\<open>DagState\<close>), and \<open>BlockDagKeyValueStorage\<close>
  (block_dag_key_value_storage.rs) adds the latest messages, the invalid blocks, the deploys
  and the equivocation records. \<open>KeyValueDagRepresentation\<close> is the view the rest of the node
  works on. \<open>BlockMetadata\<close> is from models/src/rust/block_metadata.rs.

  A persistent \<open>imbl\<close> set is a list without repetition and a map an association list; the
  ordered \<open>height_map\<close> is sorted where it is iterated. Block and sequence numbers are \<open>int\<close>
  (they are compared and copied). The fault tolerance \<open>f32\<close> is only compared and copied
  and is a rational number here. Every operation of the storage runs under one global lock, so an
  operation is a function of the state; what other threads do between two critical sections
  of one operation is a parameter of that operation.
\<close>

type_synonym hash = bytes

abbreviation set_insert :: "'a \<Rightarrow> 'a list \<Rightarrow> 'a list" where
  "set_insert x s \<equiv> hset_insert (\<lambda>y. y) x s"

subsection \<open>Block metadata\<close>

record block_metadata =
  md_block_hash :: hash
  md_parents :: "hash list"
  md_sender :: bytes
  md_justifications :: "justification list"
  md_weight_map :: "(bytes \<times> int) list"
  md_block_number :: int
  md_sequence_number :: int
  md_invalid :: bool
  md_directly_finalized :: bool
  md_finalized :: bool
  fault_tolerance_value :: rat

text \<open>\<open>PartialEq\<close> leaves out the fault tolerance.\<close>

definition metadata_key :: "block_metadata \<Rightarrow> block_metadata" where
  "metadata_key m = m\<lparr>fault_tolerance_value := 0\<rparr>"

definition ordering_by_num :: "block_metadata \<Rightarrow> block_metadata \<Rightarrow> ordering" where
  "ordering_by_num l r =
     then_with (cmp (md_block_number l) (md_block_number r)) (cmp (md_block_hash l) (md_block_hash r))"

definition weight_map :: "f1r3fly_state \<Rightarrow> (bytes \<times> int) list" where
  "weight_map st = sort_key fst (foldl (\<lambda>m b. hm_put (bond_validator b) (stake b) m) [] (st_bonds st))"

definition from_block :: "block_message \<Rightarrow> bool \<Rightarrow> bool option \<Rightarrow> bool option \<Rightarrow> block_metadata" where
  "from_block b invalid directly_finalized finalized =
     \<lparr>md_block_hash = bm_block_hash b, md_parents = parents_hash_list (bm_header b),
      md_sender = bm_sender b, md_justifications = bm_justifications b,
      md_weight_map = weight_map (bd_state (bm_body b)),
      md_block_number = st_block_number (bd_state (bm_body b)), md_sequence_number = bm_seq_num b,
      md_invalid = invalid,
      md_directly_finalized = (case directly_finalized of Some x \<Rightarrow> x | None \<Rightarrow> False),
      md_finalized = (case finalized of Some x \<Rightarrow> x | None \<Rightarrow> False),
      fault_tolerance_value = 0\<rparr>"

subsection \<open>The in-memory index\<close>

record dag_state =
  dag_set :: "hash list"
  child_map :: "(hash, hash list) hmap"
  height_map :: "(int, hash list) hmap"
  block_number_map :: "(hash, int) hmap"
  main_parent_map :: "(hash, hash) hmap"
  self_justification_map :: "(hash, hash) hmap"
  last_finalized_block :: "(hash \<times> int) option"
  finalized_block_set :: "hash list"

definition FINALIZED_BLOCK_CACHE_MAX :: nat where
  "FINALIZED_BLOCK_CACHE_MAX = 50000"

definition FINALIZED_BLOCK_CACHE_RETAIN :: nat where
  "FINALIZED_BLOCK_CACHE_RETAIN = 25000"

definition dag_state_new :: dag_state where
  "dag_state_new =
     \<lparr>dag_set = [], child_map = [], height_map = [], block_number_map = [], main_parent_map = [],
      self_justification_map = [], last_finalized_block = Some ([], 0), finalized_block_set = []\<rparr>"

record block_info =
  bi_hash :: hash
  bi_parents :: "hash list"
  bi_main_parent :: "hash option"
  bi_self_justification :: "hash option"
  bi_block_num :: int
  bi_is_invalid :: bool
  bi_is_directly_finalized :: bool
  bi_is_finalized :: bool

definition prune_finalized_cache_if_needed :: "dag_state \<Rightarrow> dag_state" where
  "prune_finalized_cache_if_needed st =
     (let len = length (finalized_block_set st)
      in if len \<le> FINALIZED_BLOCK_CACHE_MAX then st
         else let to_remove = len - FINALIZED_BLOCK_CACHE_RETAIN;
                  evict = take to_remove (finalized_block_set st)
              in st\<lparr>finalized_block_set := filter (\<lambda>h. h \<notin> set evict) (finalized_block_set st)\<rparr>)"

definition block_metadata_to_info :: "hash \<Rightarrow> block_metadata \<Rightarrow> block_info" where
  "block_metadata_to_info h m =
     \<lparr>bi_hash = h, bi_parents = md_parents m,
      bi_main_parent = (case md_parents m of p # _ \<Rightarrow> Some p | [] \<Rightarrow> None),
      bi_self_justification =
        map_option latest_block_hash (find (\<lambda>j. j_validator j = md_sender m) (md_justifications m)),
      bi_block_num = md_block_number m, bi_is_invalid = md_invalid m,
      bi_is_directly_finalized = md_directly_finalized m, bi_is_finalized = md_finalized m\<rparr>"

definition add_child :: "hash \<Rightarrow> (hash, hash list) hmap \<Rightarrow> hash \<Rightarrow> (hash, hash list) hmap" where
  "add_child h m parent =
     hm_put parent (set_insert h (case hm_get m parent of Some c \<Rightarrow> c | None \<Rightarrow> [])) m"

definition add_block_to_dag_state :: "dag_state \<Rightarrow> block_info \<Rightarrow> dag_state" where
  "add_block_to_dag_state st i =
     (let h = bi_hash i;
          own = (if hm_get (child_map st) h = None then hm_put h [] (child_map st) else child_map st);
          cm = foldl (add_child h) own (bi_parents i);
          hm = (if \<not> bi_is_invalid i
                then hm_put (bi_block_num i)
                  (set_insert h (case hm_get (height_map st) (bi_block_num i) of Some s \<Rightarrow> s | None \<Rightarrow> []))
                  (height_map st)
                else height_map st);
          mp = (case bi_main_parent i of Some p \<Rightarrow> hm_put h p (main_parent_map st) | None \<Rightarrow> main_parent_map st);
          sj = (case bi_self_justification i of Some j \<Rightarrow> hm_put h j (self_justification_map st)
                | None \<Rightarrow> self_justification_map st);
          lfb = (if bi_is_directly_finalized i
                    \<and> (case last_finalized_block st of Some (_, height) \<Rightarrow> height \<le> bi_block_num i | None \<Rightarrow> True)
                 then Some (h, bi_block_num i) else last_finalized_block st)
      in \<lparr>dag_set = set_insert h (dag_set st), child_map = cm, height_map = hm,
          block_number_map = hm_put h (bi_block_num i) (block_number_map st),
          main_parent_map = mp, self_justification_map = sj, last_finalized_block = lfb,
          finalized_block_set =
            (if bi_is_finalized i then set_insert h (finalized_block_set st) else finalized_block_set st)\<rparr>)"

definition validate_dag_state :: "dag_state \<Rightarrow> (kv_store_error, dag_state) res" where
  "validate_dag_state st =
     (let ks = hm_keys (height_map st);
          (mn, mx) = (if ks \<noteq> [] then (Min (set ks), Max (set ks) + 1) else (0, 0))
      in if mx - mn = int (length ks) then Inr st
         else Inl (Panic ''DAG store height map has numbers not in sequence.''))"

definition recreate_in_memory_state :: "(hash \<times> block_info) list \<Rightarrow> (kv_store_error, dag_state) res" where
  "recreate_in_memory_state blocks_info_map =
     validate_dag_state (foldl (\<lambda>st (_, i). add_block_to_dag_state st i) dag_state_new blocks_info_map)"

subsection \<open>The metadata store\<close>

record metadata_store =
  mds_store :: "(hash, block_metadata) typed_store"
  mds_state :: dag_state

definition metadata_store_new ::
  "(hash, block_metadata) typed_store \<Rightarrow> (kv_store_error, metadata_store) res" where
  "metadata_store_new s =
     rbind (recreate_in_memory_state (ts_collect s (\<lambda>(h, m). Some (h, block_metadata_to_info h m)))) (\<lambda>st.
       Inr \<lparr>mds_store = s, mds_state = st\<rparr>)"

definition mds_add :: "metadata_store \<Rightarrow> block_metadata \<Rightarrow> (kv_store_error, metadata_store) res" where
  "mds_add s m =
     (let h = md_block_hash m
      in rbind (validate_dag_state (add_block_to_dag_state (mds_state s) (block_metadata_to_info h m))) (\<lambda>st.
           Inr \<lparr>mds_store = put_one (mds_store s) h m, mds_state = st\<rparr>))"

definition finalize_directly :: "rat \<Rightarrow> block_metadata \<Rightarrow> block_metadata" where
  "finalize_directly ft m =
     m\<lparr>md_finalized := True, md_directly_finalized := True,
       fault_tolerance_value := (if fault_tolerance_value m < ft then ft else fault_tolerance_value m)\<rparr>"

definition finalize_indirectly :: "rat \<Rightarrow> block_metadata \<Rightarrow> block_metadata" where
  "finalize_indirectly ft m =
     m\<lparr>md_finalized := True,
       fault_tolerance_value := (if fault_tolerance_value m < ft then ft else fault_tolerance_value m)\<rparr>"

definition record_finalized ::
  "metadata_store \<Rightarrow> hash \<Rightarrow> hash list \<Rightarrow> rat \<Rightarrow> (kv_store_error, metadata_store) res" where
  "record_finalized s directly indirectly ft =
     rbind (get_batch (mds_store s) indirectly) (\<lambda>cur_metas.
     rbind (get_unsafe (mds_store s) directly) (\<lambda>cur_meta.
       let new_meta_for_df = finalize_directly ft cur_meta;
           new_metas_for_if = map (\<lambda>m. (md_block_hash m, finalize_indirectly ft m)) cur_metas;
           st = mds_state s;
           fin = set_insert directly (foldl (\<lambda>f h. set_insert h f) (finalized_block_set st) indirectly);
           lfb = (if last_finalized_block st = None
                     \<or> snd (the (last_finalized_block st)) \<le> md_block_number new_meta_for_df
                  then Some (directly, md_block_number new_meta_for_df) else last_finalized_block st)
       in Inr \<lparr>mds_store = ts_put (mds_store s) ((directly, new_meta_for_df) # new_metas_for_if),
               mds_state = prune_finalized_cache_if_needed
                 (st\<lparr>finalized_block_set := fin, last_finalized_block := lfb\<rparr>)\<rparr>))"

definition update_ft_if_higher ::
  "metadata_store \<Rightarrow> hash list \<Rightarrow> rat \<Rightarrow> (kv_store_error, metadata_store) res" where
  "update_ft_if_higher s block_hashes ft =
     rbind (get_batch (mds_store s) block_hashes) (\<lambda>metas.
       let updates = map (\<lambda>m. (md_block_hash m, m\<lparr>fault_tolerance_value := ft\<rparr>))
             (filter (\<lambda>m. fault_tolerance_value m < ft) metas)
       in Inr (if updates \<noteq> [] then s\<lparr>mds_store := ts_put (mds_store s) updates\<rparr> else s))"

definition mds_contains :: "metadata_store \<Rightarrow> hash \<Rightarrow> bool" where
  "mds_contains s h \<longleftrightarrow> h \<in> set (dag_set (mds_state s))"

definition mds_get :: "metadata_store \<Rightarrow> hash \<Rightarrow> block_metadata option" where
  "mds_get s h = get_one (mds_store s) h"

definition mds_get_unsafe :: "metadata_store \<Rightarrow> hash \<Rightarrow> (kv_store_error, block_metadata) res" where
  "mds_get_unsafe s h = (case mds_get s h of
     Some m \<Rightarrow> Inr m
   | None \<Rightarrow> Inl (Err (KvKeyNotFound ''BlockMetadataStore is missing key'')))"

subsection \<open>The representation\<close>

record dag_representation =
  rep_dag_set :: "hash list"
  rep_latest_messages :: "(bytes, hash) hmap"
  rep_child_map :: "(hash, hash list) hmap"
  rep_height_map :: "(int, hash list) hmap"
  rep_block_number_map :: "(hash, int) hmap"
  rep_main_parent_map :: "(hash, hash) hmap"
  rep_self_justification_map :: "(hash, hash) hmap"
  rep_invalid_blocks :: "block_metadata list"
  rep_last_finalized :: hash
  rep_finalized :: "hash list"
  rep_index :: metadata_store
  rep_deploy_index :: "(bytes, hash) typed_store"

definition BLOCK_HASH_LENGTH :: nat where
  "BLOCK_HASH_LENGTH = 32"

definition VALIDATOR_LENGTH :: nat where
  "VALIDATOR_LENGTH = 65"

definition missing_hash :: kv_store_error where
  "missing_hash = InvalidArgument ''DAG storage is missing hash''"

definition lookup :: "dag_representation \<Rightarrow> hash \<Rightarrow> block_metadata option" where
  "lookup rep h = (if h \<in> set (rep_dag_set rep) then mds_get (rep_index rep) h else None)"

definition rep_contains :: "dag_representation \<Rightarrow> hash \<Rightarrow> bool" where
  "rep_contains rep h \<longleftrightarrow> length h = BLOCK_HASH_LENGTH \<and> h \<in> set (rep_dag_set rep)"

definition children :: "dag_representation \<Rightarrow> hash \<Rightarrow> hash list option" where
  "children rep h = hm_get (rep_child_map rep) h"

definition latest_message_hash :: "dag_representation \<Rightarrow> bytes \<Rightarrow> hash option" where
  "latest_message_hash rep v = hm_get (rep_latest_messages rep) v"

definition get_max_height :: "dag_representation \<Rightarrow> int" where
  "get_max_height rep =
     (if rep_height_map rep = [] then 0 else Max (set (hm_keys (rep_height_map rep))) + 1)"

definition block_number :: "dag_representation \<Rightarrow> hash \<Rightarrow> int option" where
  "block_number rep h = hm_get (rep_block_number_map rep) h"

definition block_number_unsafe :: "dag_representation \<Rightarrow> hash \<Rightarrow> (kv_store_error, int) res" where
  "block_number_unsafe rep h = (case block_number rep h of
     Some n \<Rightarrow> Inr n | None \<Rightarrow> Inl (Err missing_hash))"

definition main_parent :: "dag_representation \<Rightarrow> hash \<Rightarrow> hash option" where
  "main_parent rep h = hm_get (rep_main_parent_map rep) h"

definition is_finalized :: "dag_representation \<Rightarrow> hash \<Rightarrow> bool" where
  "is_finalized rep h =
     (if h \<in> set (rep_finalized rep) then True
      else case mds_get (rep_index rep) h of Some m \<Rightarrow> md_finalized m | None \<Rightarrow> False)"

definition topo_sort ::
  "dag_representation \<Rightarrow> int \<Rightarrow> int option \<Rightarrow> (kv_store_error, hash list list) res" where
  "topo_sort rep start_block_number maybe_end_block_number =
     (let max_number = get_max_height rep;
          start_number = max 0 start_block_number;
          end_number = (case maybe_end_block_number of Some n \<Rightarrow> min max_number n | None \<Rightarrow> max_number)
      in if start_number \<ge> 0 \<and> start_number \<le> end_number
         then Inr (map snd (filter (\<lambda>(n, _). start_number \<le> n \<and> n \<le> end_number)
                (sort_key fst (rep_height_map rep))))
         else Inl (Err (InvalidArgument ''Invalid start block number'')))"

definition lookup_by_deploy_id :: "dag_representation \<Rightarrow> bytes \<Rightarrow> hash option" where
  "lookup_by_deploy_id rep d = get_one (rep_deploy_index rep) d"

definition lookup_unsafe :: "dag_representation \<Rightarrow> hash \<Rightarrow> (kv_store_error, block_metadata) res" where
  "lookup_unsafe rep h = (case lookup rep h of Some m \<Rightarrow> Inr m | None \<Rightarrow> Inl (Err missing_hash))"

definition lookups_unsafe ::
  "dag_representation \<Rightarrow> hash list \<Rightarrow> (kv_store_error, block_metadata list) res" where
  "lookups_unsafe rep hs = sequence_res (map (lookup_unsafe rep) hs)"

definition latest_message_hash_unsafe :: "dag_representation \<Rightarrow> bytes \<Rightarrow> (kv_store_error, hash) res" where
  "latest_message_hash_unsafe rep v = (case latest_message_hash rep v of
     Some h \<Rightarrow> Inr h | None \<Rightarrow> Inl (Err (InvalidArgument ''No latest message for validator'')))"

definition latest_message ::
  "dag_representation \<Rightarrow> bytes \<Rightarrow> (kv_store_error, block_metadata option) res" where
  "latest_message rep v = (case latest_message_hash rep v of
     Some h \<Rightarrow> rbind (lookup_unsafe rep h) (\<lambda>m. Inr (Some m)) | None \<Rightarrow> Inr None)"

definition latest_messages ::
  "dag_representation \<Rightarrow> (kv_store_error, (bytes, block_metadata) hmap) res" where
  "latest_messages rep =
     fold_res (\<lambda>r (v, h). rbind (lookup_unsafe rep h) (\<lambda>m. Inr (hm_put v m r))) [] (rep_latest_messages rep)"

definition invalid_latest_messages_from_hashes ::
  "dag_representation \<Rightarrow> (bytes, hash) hmap \<Rightarrow> (bytes, hash) hmap" where
  "invalid_latest_messages_from_hashes rep lm =
     (let invalid_block_hashes = map md_block_hash (rep_invalid_blocks rep)
      in filter (\<lambda>(_, h). h \<in> set invalid_block_hashes) lm)"

definition invalid_latest_messages :: "dag_representation \<Rightarrow> (kv_store_error, (bytes, hash) hmap) res" where
  "invalid_latest_messages rep =
     rbind (latest_messages rep) (\<lambda>lm.
       Inr (invalid_latest_messages_from_hashes rep (map (\<lambda>(v, m). (v, md_block_hash m)) lm)))"

definition invalid_blocks_map :: "dag_representation \<Rightarrow> (hash, bytes) hmap" where
  "invalid_blocks_map rep =
     foldl (\<lambda>r b. hm_put (md_block_hash b) (md_sender b) r) [] (rep_invalid_blocks rep)"

definition self_justification ::
  "dag_representation \<Rightarrow> hash \<Rightarrow> (kv_store_error, hash option) res" where
  "self_justification rep h = (case hm_get (rep_self_justification_map rep) h of
     Some j \<Rightarrow> Inr (Some j)
   | None \<Rightarrow> if \<not> rep_contains rep h then Inl (Err missing_hash) else Inr None)"

text \<open>The loops along chains: nothing but the contents of the maps makes them end.\<close>

partial_function (option) self_justification_chain_loop ::
  "dag_representation \<Rightarrow> hash list \<Rightarrow> hash \<Rightarrow> (kv_store_error, hash list) res option" where
  "self_justification_chain_loop rep result current =
     (case self_justification rep current of
        Inl e \<Rightarrow> Some (Inl e)
      | Inr (Some j) \<Rightarrow> self_justification_chain_loop rep (result @ [j]) j
      | Inr None \<Rightarrow> Some (Inr result))"

definition self_justification_chain ::
  "dag_representation \<Rightarrow> hash \<Rightarrow> (kv_store_error, hash list) res option" where
  "self_justification_chain rep h = self_justification_chain_loop rep [] h"

partial_function (option) main_parent_chain_loop ::
  "dag_representation \<Rightarrow> int \<Rightarrow> hash list \<Rightarrow> hash \<Rightarrow> (kv_store_error, hash list) res option" where
  "main_parent_chain_loop rep stop_at_height result current =
     (case block_number_unsafe rep current of
        Inl e \<Rightarrow> Some (Inl e)
      | Inr n \<Rightarrow> if n \<le> stop_at_height then Some (Inr result)
                else case main_parent rep current of
                       Some p \<Rightarrow> main_parent_chain_loop rep stop_at_height (result @ [p]) p
                     | None \<Rightarrow> Some (Inr result))"

definition main_parent_chain ::
  "dag_representation \<Rightarrow> hash \<Rightarrow> int \<Rightarrow> (kv_store_error, hash list) res option" where
  "main_parent_chain rep h stop_at_height = main_parent_chain_loop rep stop_at_height [] h"

partial_function (option) main_chain_loop ::
  "dag_representation \<Rightarrow> hash \<Rightarrow> int \<Rightarrow> hash \<Rightarrow> (kv_store_error, bool) res option" where
  "main_chain_loop rep ancestor stop_height current =
     (case block_number_unsafe rep current of
        Inl e \<Rightarrow> Some (Inl e)
      | Inr n \<Rightarrow> if n \<le> stop_height then Some (Inr (current = ancestor))
                else case main_parent rep current of
                       None \<Rightarrow> Some (Inr False)
                     | Some p \<Rightarrow> main_chain_loop rep ancestor stop_height p)"

definition is_in_main_chain ::
  "dag_representation \<Rightarrow> hash \<Rightarrow> hash \<Rightarrow> (kv_store_error, bool) res option" where
  "is_in_main_chain rep ancestor descendant =
     (if ancestor = descendant then Some (Inr True)
      else case block_number_unsafe rep ancestor of
             Inl e \<Rightarrow> Some (Inl e)
           | Inr stop_height \<Rightarrow> main_chain_loop rep ancestor stop_height descendant)"

definition parents_unsafe :: "dag_representation \<Rightarrow> hash \<Rightarrow> (kv_store_error, hash list) res" where
  "parents_unsafe rep h = rbind (lookup_unsafe rep h) (\<lambda>m. Inr (md_parents m))"

text \<open>\<open>non_finalized_blocks\<close> with its queue of tips.\<close>

partial_function (option) non_finalized_loop ::
  "dag_representation \<Rightarrow> hash list \<Rightarrow> hash list \<Rightarrow> hash list \<Rightarrow> (kv_store_error, hash list) res option" where
  "non_finalized_loop rep result visited tips =
     (if tips = [] then Some (Inr result)
      else if hd tips \<in> set visited then non_finalized_loop rep result visited (tl tips)
      else if is_finalized rep (hd tips)
      then non_finalized_loop rep result (set_insert (hd tips) visited) (tl tips)
      else case lookup_unsafe rep (hd tips) of
             Inl e \<Rightarrow> Some (Inl e)
           | Inr m \<Rightarrow> non_finalized_loop rep (set_insert (hd tips) result) (set_insert (hd tips) visited)
               (tl tips @ filter (\<lambda>p. p \<notin> set (set_insert (hd tips) visited)) (md_parents m)))"

definition non_finalized_blocks :: "dag_representation \<Rightarrow> (kv_store_error, hash list) res option" where
  "non_finalized_blocks rep = (case latest_messages rep of
     Inl e \<Rightarrow> Some (Inl e)
   | Inr lm \<Rightarrow> non_finalized_loop rep [] [] (map (\<lambda>(_, m). md_block_hash m) lm))"

declare self_justification_chain_loop.simps [code] main_parent_chain_loop.simps [code] main_chain_loop.simps [code]
  non_finalized_loop.simps [code]

definition child_hashes :: "dag_representation \<Rightarrow> hash \<Rightarrow> (kv_store_error, hash list) res" where
  "child_hashes rep h = Inr (case children rep h of Some c \<Rightarrow> c | None \<Rightarrow> [])"

definition descendants :: "dag_representation \<Rightarrow> hash \<Rightarrow> (kv_store_error, hash list) res option" where
  "descendants rep h = levels (child_hashes rep) [] [h]"

definition parent_hashes ::
  "dag_representation \<Rightarrow> (hash \<Rightarrow> bool) \<Rightarrow> hash \<Rightarrow> (kv_store_error, hash list) res" where
  "parent_hashes rep filter_f h = rbind (lookup_unsafe rep h) (\<lambda>m. Inr (filter filter_f (md_parents m)))"

definition ancestors ::
  "dag_representation \<Rightarrow> hash \<Rightarrow> (hash \<Rightarrow> bool) \<Rightarrow> (kv_store_error, hash list) res option" where
  "ancestors rep h filter_f = levels (parent_hashes rep filter_f) [] [h]"

definition with_ancestors ::
  "dag_representation \<Rightarrow> hash \<Rightarrow> (hash \<Rightarrow> bool) \<Rightarrow> (kv_store_error, hash list) res option" where
  "with_ancestors rep h filter_f =
     map_option (\<lambda>r. rbind r (\<lambda>hs. Inr (set_insert h hs))) (ancestors rep h filter_f)"

subsection \<open>Equivocation records\<close>

record equivocation_record =
  equivocator :: bytes
  equivocation_base_block_seq_num :: int
  equivocation_detected_block_hashes :: "hash list"

type_synonym equivocation_store = "(bytes \<times> int, hash list) typed_store"

definition equivocation_add :: "equivocation_store \<Rightarrow> equivocation_record \<Rightarrow> equivocation_store" where
  "equivocation_add s r =
     put_one s (equivocator r, equivocation_base_block_seq_num r) (equivocation_detected_block_hashes r)"

definition equivocation_add_all ::
  "equivocation_store \<Rightarrow> equivocation_record list \<Rightarrow> equivocation_store" where
  "equivocation_add_all s rs =
     ts_put s (map (\<lambda>r. ((equivocator r, equivocation_base_block_seq_num r),
       equivocation_detected_block_hashes r)) rs)"

definition equivocation_data :: "equivocation_store \<Rightarrow> equivocation_record list" where
  "equivocation_data s =
     map (\<lambda>((e, n), hs). \<lparr>equivocator = e, equivocation_base_block_seq_num = n,
       equivocation_detected_block_hashes = hs\<rparr>) s"

subsection \<open>The storage\<close>

record dag_storage =
  latest_messages_index :: "(bytes, hash) typed_store"
  block_metadata_index :: metadata_store
  deploy_index :: "(bytes, hash) typed_store"
  invalid_blocks_index :: "(hash, block_metadata) typed_store"
  equivocation_tracker_index :: equivocation_store
  dag_generation :: "64 word"

definition dag_storage_new ::
  "(bytes, hash) typed_store \<Rightarrow> (hash, block_metadata) typed_store \<Rightarrow> (bytes, hash) typed_store \<Rightarrow>
   (hash, block_metadata) typed_store \<Rightarrow> equivocation_store \<Rightarrow> (kv_store_error, dag_storage) res" where
  "dag_storage_new latest_messages_db block_metadata_db deploy_index_db invalid_blocks_db equivocation_tracker_db =
     rbind (metadata_store_new block_metadata_db) (\<lambda>mds.
       Inr \<lparr>latest_messages_index = latest_messages_db, block_metadata_index = mds,
            deploy_index = deploy_index_db, invalid_blocks_index = invalid_blocks_db,
            equivocation_tracker_index = equivocation_tracker_db, dag_generation = 0\<rparr>)"

definition insert_equivocation_record :: "dag_storage \<Rightarrow> equivocation_record \<Rightarrow> dag_storage" where
  "insert_equivocation_record s r =
     s\<lparr>equivocation_tracker_index := equivocation_add (equivocation_tracker_index s) r\<rparr>"

definition update_equivocation_record :: "dag_storage \<Rightarrow> equivocation_record \<Rightarrow> hash \<Rightarrow> dag_storage" where
  "update_equivocation_record s r h =
     s\<lparr>equivocation_tracker_index := equivocation_add (equivocation_tracker_index s)
        (r\<lparr>equivocation_detected_block_hashes := set_insert h (equivocation_detected_block_hashes r)\<rparr>)\<rparr>"

definition get_representation :: "dag_storage \<Rightarrow> (kv_store_error, dag_representation) res" where
  "get_representation s =
     (let st = mds_state (block_metadata_index s)
      in case last_finalized_block st of
           None \<Rightarrow> Inl (Panic ''DagState does not contain lastFinalizedBlock.'')
         | Some (lfb, _) \<Rightarrow>
             Inr \<lparr>rep_dag_set = dag_set st, rep_latest_messages = latest_messages_index s,
                  rep_child_map = child_map st, rep_height_map = height_map st,
                  rep_block_number_map = block_number_map st, rep_main_parent_map = main_parent_map st,
                  rep_self_justification_map = self_justification_map st,
                  rep_invalid_blocks = hset_collect metadata_key (map snd (invalid_blocks_index s)),
                  rep_last_finalized = lfb, rep_finalized = finalized_block_set st,
                  rep_index = block_metadata_index s, rep_deploy_index = deploy_index s\<rparr>)"

text \<open>The latest messages of validators that the block bonds and does not justify.\<close>

definition new_latest_messages :: "dag_storage \<Rightarrow> block_message \<Rightarrow> (bytes, hash) hmap" where
  "new_latest_messages s b =
     (let newly_bonded_set = hset_collect (\<lambda>x. x) (map bond_validator (st_bonds (bd_state (bm_body b))));
          justification_validators = map j_validator (bm_justifications b)
      in foldl (\<lambda>r v. if contains_key (latest_messages_index s) v then r else hm_put v (bm_block_hash b) r)
           [] (hset_difference (\<lambda>x. x) newly_bonded_set justification_validators))"

text \<open>Whether the block becomes the latest message of its sender.\<close>

definition should_add_as_latest :: "dag_storage \<Rightarrow> block_message \<Rightarrow> bool" where
  "should_add_as_latest s b = (case get_one (latest_messages_index s) (bm_sender b) of
     Some h \<Rightarrow> (case mds_get (block_metadata_index s) h of
                 Some m \<Rightarrow> bm_seq_num b \<ge> md_sequence_number m
               | None \<Rightarrow> True)
   | None \<Rightarrow> True)"

definition insert_internal ::
  "dag_storage \<Rightarrow> block_message \<Rightarrow> bool \<Rightarrow> bool \<Rightarrow>
   (kv_store_error, dag_representation \<times> dag_storage) res" where
  "insert_internal s b invalid approved =
     (let sender_is_empty = (bm_sender b = []);
          sender_has_invalid_format = (\<not> sender_is_empty \<and> length (bm_sender b) \<noteq> VALIDATOR_LENGTH);
          h = bm_block_hash b
      in if mds_contains (block_metadata_index s) h
         then rbind (get_representation s) (\<lambda>rep. Inr (rep, s))
         else if sender_has_invalid_format
         then Inl (Err (InvalidArgument ''Block sender is malformed.''))
         else if length h \<noteq> BLOCK_HASH_LENGTH
         then Inl (Err (InvalidArgument ''Block hash is not correct length.''))
         else
           let m = from_block b invalid None None
           in rbind (mds_add (block_metadata_index s) m) (\<lambda>mds.
              let s1 = s\<lparr>block_metadata_index := mds, dag_generation := dag_generation s + 1,
                    deploy_index := ts_put (deploy_index s)
                      (map (\<lambda>d. (sd_sig (pd_deploy d), h)) (deploys (bm_body b))),
                    invalid_blocks_index :=
                      (if invalid then put_one (invalid_blocks_index s) h m else invalid_blocks_index s)\<rparr>;
                  new_latest_from_sender =
                    (if \<not> sender_is_empty \<and> should_add_as_latest s1 b then [(bm_sender b, h)] else []);
                  new_latest_to_add = ts_put (new_latest_messages s1 b) new_latest_from_sender;
                  s2 = s1\<lparr>latest_messages_index := ts_put (latest_messages_index s1) new_latest_to_add\<rparr>
              in rbind (if approved then record_finalized (block_metadata_index s2) h [] 1
                        else Inr (block_metadata_index s2)) (\<lambda>mds'.
                 let s3 = s2\<lparr>block_metadata_index := mds'\<rparr>
                 in rbind (get_representation s3) (\<lambda>rep. Inr (rep, s3)))))"

subsection \<open>Finalization\<close>

definition MAX_FINALIZATION_RECONCILE_LOOPS :: nat where
  "MAX_FINALIZATION_RECONCILE_LOOPS = 128"

definition persist_effect_applied ::
  "hash \<Rightarrow> rat \<Rightarrow> bool \<Rightarrow> hash list \<Rightarrow> (dag_storage, kv_store_error, unit) sm" where
  "persist_effect_applied directly ft force_direct effect_applied s =
     (if \<not> force_direct \<and> effect_applied = [] then (Inr (), s)
      else case record_finalized (block_metadata_index s) directly
                  (filter (\<lambda>h. h \<noteq> directly) effect_applied) ft of
             Inl e \<Rightarrow> (Inl e, s)
           | Inr mds \<Rightarrow> (Inr (), s\<lparr>block_metadata_index := mds\<rparr>))"

definition propagate_ft_to_finalized_blocks :: "rat \<Rightarrow> (dag_storage, kv_store_error, unit) sm" where
  "propagate_ft_to_finalized_blocks ft s =
     (case update_ft_if_higher (block_metadata_index s)
             (finalized_block_set (mds_state (block_metadata_index s))) ft of
        Inl e \<Rightarrow> (Inl e, s)
      | Inr mds \<Rightarrow> (Inr (), s\<lparr>block_metadata_index := mds\<rparr>))"

text \<open>
  The part of a round under the lock: the blocks that are to be finalized and whose effect
  has not been applied.
\<close>

definition pending_effect ::
  "dag_storage \<Rightarrow> hash \<Rightarrow> hash list \<Rightarrow> (kv_store_error, hash list) res option" where
  "pending_effect s directly effect_applied =
     (case get_representation s of
        Inl e \<Rightarrow> Some (Inl e)
      | Inr dag \<Rightarrow>
          if \<not> rep_contains dag directly
          then Some (Inl (Err (InvalidArgument ''Attempting to finalize nonexistent hash'')))
          else map_option (\<lambda>r. rbind r (\<lambda>indirectly.
                 Inr (hset_difference (\<lambda>x. x) (set_insert directly indirectly) effect_applied)))
               (ancestors dag directly (\<lambda>h. \<not> is_finalized dag h)))"

text \<open>
  The reconcile loop. \<open>effect\<close> is the callback of the round: it runs without the lock, so the
  storage it leaves may also hold what other threads did meanwhile.
\<close>

fun finalize_rounds ::
  "(nat \<Rightarrow> hash list \<Rightarrow> (dag_storage, kv_store_error, unit) sm) \<Rightarrow> hash \<Rightarrow> rat \<Rightarrow> nat \<Rightarrow> hash list \<Rightarrow>
   dag_storage \<Rightarrow> ((kv_store_error, unit) res \<times> dag_storage) option" where
  "finalize_rounds effect directly ft 0 effect_applied s =
     (case persist_effect_applied directly ft False effect_applied s of
        (Inl e, s') \<Rightarrow> Some (Inl e, s')
      | (Inr _, s') \<Rightarrow> Some (Inl (Err (IoError ''record_directly_finalized exceeded reconcile loops'')), s'))"
| "finalize_rounds effect directly ft (Suc n) effect_applied s =
     (case pending_effect s directly effect_applied of
        None \<Rightarrow> None
      | Some (Inl e) \<Rightarrow> Some (Inl e, s)
      | Some (Inr pending) \<Rightarrow>
          if pending = [] then
            Some (sbind (persist_effect_applied directly ft True effect_applied) (\<lambda>_.
                    propagate_ft_to_finalized_blocks ft) s)
          else case effect (Suc n) pending s of
                 (Inl err, s') \<Rightarrow>
                   Some (sbind (persist_effect_applied directly ft False effect_applied) (\<lambda>_. sfail err) s')
               | (Inr _, s') \<Rightarrow>
                   finalize_rounds effect directly ft n
                     (foldl (\<lambda>a h. set_insert h a) effect_applied pending) s')"

definition record_directly_finalized ::
  "(nat \<Rightarrow> hash list \<Rightarrow> (dag_storage, kv_store_error, unit) sm) \<Rightarrow> hash \<Rightarrow> rat \<Rightarrow>
   dag_storage \<Rightarrow> ((kv_store_error, unit) res \<times> dag_storage) option" where
  "record_directly_finalized effect directly ft s =
     finalize_rounds effect directly ft MAX_FINALIZATION_RECONCILE_LOOPS [] s"

end
