(* ===== verification/SortBy.thy ===== *)
theory SortBy
  imports HashSets
begin

section \<open>Sorting by a comparison function\<close>

text \<open>
  \<open>slice::sort_by\<close> is a stable sort by a comparison function, \<open>Iterator::min\<close> keeps the first of
  several minimal elements. \<open>ord_contract\<close> is what the \<open>Ord\<close> trait asks of \<open>cmp\<close>: a total preorder.
  It is kept by comparing keys, by comparing lexicographically and by comparing lists of
  equal length element by element.
\<close>

fun insort_by :: "('a \<Rightarrow> 'a \<Rightarrow> ordering) \<Rightarrow> 'a \<Rightarrow> 'a list \<Rightarrow> 'a list" where
  "insort_by c x [] = [x]"
| "insort_by c x (y # ys) = (if c x y \<noteq> Greater then x # y # ys else y # insort_by c x ys)"

definition sort_by :: "('a \<Rightarrow> 'a \<Rightarrow> ordering) \<Rightarrow> 'a list \<Rightarrow> 'a list" where
  "sort_by c xs = foldr (insort_by c) xs []"

fun iter_min :: "('a \<Rightarrow> 'a \<Rightarrow> ordering) \<Rightarrow> 'a list \<Rightarrow> 'a option" where
  "iter_min c [] = None"
| "iter_min c (x # xs) =
     (case iter_min c xs of None \<Rightarrow> Some x | Some m \<Rightarrow> Some (if c m x = Less then m else x))"

text \<open>Comparison of two vectors: by length, then by the first pair that differs.\<close>

fun zip_cmp :: "('a \<Rightarrow> 'a \<Rightarrow> ordering) \<Rightarrow> 'a list \<Rightarrow> 'a list \<Rightarrow> ordering" where
  "zip_cmp c (a # as) (b # bs) = then_with (c a b) (zip_cmp c as bs)"
| "zip_cmp c _ _ = Equal"

lemma mset_sort_by [simp]: "mset (sort_by c xs) = mset xs"
proof -
  have "mset (insort_by c x ys) = add_mset x (mset ys)" for x ys
    by (induction ys) auto
  then show ?thesis by (induction xs) (simp_all add: sort_by_def)
qed

lemma sort_by_same [simp]: "set (sort_by c xs) = set xs" "length (sort_by c xs) = length xs" "distinct (sort_by c xs) \<longleftrightarrow> distinct xs"
  using mset_sort_by [of c xs] by (metis mset_eq_setD, metis mset_eq_length, metis mset_eq_imp_distinct_iff)

lemma sort_by_Nil [simp]: "sort_by c [] = []" "sort_by c xs = [] \<longleftrightarrow> xs = []"
  by (simp add: sort_by_def, metis mset_sort_by mset_zero_iff)

lemma iter_min_mem: "iter_min c xs = Some m \<Longrightarrow> m \<in> set xs"
  by (induction xs arbitrary: m) (auto split: option.splits if_splits)

lemma iter_min_None [simp]: "iter_min c xs = None \<longleftrightarrow> xs = []"
  by (cases xs) (auto split: option.splits)

locale ord_contract =
  fixes c :: "'a \<Rightarrow> 'a \<Rightarrow> ordering"
  assumes flip: "c b a = reverse_ord (c a b)"
    and le_trans: "c x y \<noteq> Greater \<Longrightarrow> c y z \<noteq> Greater \<Longrightarrow> c x z \<noteq> Greater"
begin

lemma refl: "c x x = Equal"
  using flip [of x x] by (cases "c x x") auto

lemma swap: "c a b = Less \<longleftrightarrow> c b a = Greater" "c a b = Equal \<longleftrightarrow> c b a = Equal"
  using flip [of b a] by (cases "c a b"; simp)+

lemma less_le: "c x y = Less \<Longrightarrow> c y z \<noteq> Greater \<Longrightarrow> c x z = Less"
  using le_trans [of y z x] le_trans [of x y z] swap [of x y] swap [of x z] by (cases "c x z") auto

lemma le_less: "c x y \<noteq> Greater \<Longrightarrow> c y z = Less \<Longrightarrow> c x z = Less"
  using le_trans [of z x y] le_trans [of x y z] swap [of y z] swap [of x z] by (cases "c x z") auto

lemma equal_trans: "c x y = Equal \<Longrightarrow> c y z = Equal \<Longrightarrow> c x z = Equal"
  using le_trans [of x y z] le_trans [of z y x] swap [of x z] swap(2) [of x y] swap(2) [of y z]
  by (cases "c x z") auto

lemma sorted_sort_by: "sorted_wrt (\<lambda>a b. c a b \<noteq> Greater) (sort_by c xs)"
proof -
  have set: "set (insort_by c x ys) = insert x (set ys)" for x ys
    by (induction ys) auto
  have "sorted_wrt (\<lambda>a b. c a b \<noteq> Greater) ys \<Longrightarrow> sorted_wrt (\<lambda>a b. c a b \<noteq> Greater) (insort_by c x ys)" for x ys
  proof (induction ys)
    case (Cons y ys)
    then show ?case using le_trans [of x y] flip [of x y] by (auto simp: set)
  qed simp
  then show ?thesis by (induction xs) (simp_all add: sort_by_def)
qed

lemma hd_sort_by_le: "x \<in> set xs \<Longrightarrow> c (hd (sort_by c xs)) x \<noteq> Greater"
proof (cases "sort_by c xs")
  case (Cons y ys)
  moreover assume "x \<in> set xs"
  ultimately have "x = y \<or> x \<in> set ys" using sort_by_same(1) [of c xs] by auto
  then show ?thesis using sorted_sort_by [of xs] refl [of y] Cons by auto
qed auto

end

lemma cmp_ord_contract: "ord_contract (\<lambda>a b. cmp (f a) (f b))"
  by unfold_locales (auto simp: cmp_def split: if_splits)

lemma then_with_ord_contract:
  assumes "ord_contract c" "ord_contract d"
  shows "ord_contract (\<lambda>a b. then_with (c a b) (d a b))"
proof
  show "then_with (c b a) (d b a) = reverse_ord (then_with (c a b) (d a b))" for a b
    using ord_contract.flip [OF assms(1), of b a] ord_contract.flip [OF assms(2), of b a] by simp
next
  fix x y z assume "then_with (c x y) (d x y) \<noteq> Greater" "then_with (c y z) (d y z) \<noteq> Greater"
  then show "then_with (c x z) (d x z) \<noteq> Greater"
    using ord_contract.less_le [OF assms(1), of x y z] ord_contract.le_less [OF assms(1), of x y z]
      ord_contract.equal_trans [OF assms(1), of x y z] ord_contract.le_trans [OF assms(2), of x y z]
    by (cases "c x y"; cases "c y z") auto
qed

lemma reverse_ord_contract:
  assumes "ord_contract c" shows "ord_contract (\<lambda>a b. reverse_ord (c a b))"
proof
  show "reverse_ord (c b a) = reverse_ord (reverse_ord (c a b))" for a b
    using ord_contract.flip [OF assms, of b a] by simp
next
  fix x y z assume "reverse_ord (c x y) \<noteq> Greater" "reverse_ord (c y z) \<noteq> Greater"
  then show "reverse_ord (c x z) \<noteq> Greater"
    using ord_contract.le_trans [OF assms, of z y x] ord_contract.flip [OF assms] by metis
qed

lemma key_ord_contract: "ord_contract c \<Longrightarrow> ord_contract (\<lambda>a b. c (f a) (f b))"
  unfolding ord_contract_def by blast

lemma vec_ord_contract:
  assumes "ord_contract c"
  shows "ord_contract (\<lambda>as bs. then_with (cmp (length as) (length bs)) (zip_cmp c as bs))"
proof
  show "then_with (cmp (length ys) (length xs)) (zip_cmp c ys xs)
      = reverse_ord (then_with (cmp (length xs) (length ys)) (zip_cmp c xs ys))" for xs ys
  proof -
    have "zip_cmp c ys xs = reverse_ord (zip_cmp c xs ys)"
    proof (induction ys xs rule: list_induct2')
      case (4 y ys x xs)
      then show ?case using ord_contract.flip [OF assms, of y x] by simp
    qed simp_all
    then show ?thesis by simp
  qed
next
  have zip: "length xs = length ys \<Longrightarrow> length ys = length zs \<Longrightarrow> zip_cmp c xs ys \<noteq> Greater \<Longrightarrow>
      zip_cmp c ys zs \<noteq> Greater \<Longrightarrow> zip_cmp c xs zs \<noteq> Greater" for xs ys zs
  proof (induction xs ys zs rule: list_induct3)
    case (Cons x xs y ys z zs)
    then show ?case
      using ord_contract.less_le [OF assms, of x y z] ord_contract.le_less [OF assms, of x y z]
        ord_contract.equal_trans [OF assms, of x y z] by (cases "c x y"; cases "c y z") auto
  qed simp
  fix xs ys zs
  assume "then_with (cmp (length xs) (length ys)) (zip_cmp c xs ys) \<noteq> Greater"
    "then_with (cmp (length ys) (length zs)) (zip_cmp c ys zs) \<noteq> Greater"
  then show "then_with (cmp (length xs) (length zs)) (zip_cmp c xs zs) \<noteq> Greater"
    using zip [of xs ys zs] by (auto simp: cmp_def split: if_splits)
qed

end
