(* ===== verification/BlockDagSpec.thy ===== *)
theory BlockDagSpec
  imports BlockDag SortBy
begin

section \<open>The index of the block DAG\<close>

text \<open>
  What the in-memory index of block_metadata_store.rs means: \<open>dag_index f st\<close> relates it to the
  metadata \<open>f\<close> of the blocks. Adding a block keeps the relation, and the index rebuilt at
  start-up from the stored metadata satisfies it too, so a restart does not change what
  the node sees.
\<close>

text \<open>The order of blocks by number, and then by hash, is an order as \<open>Ord\<close> asks for it.\<close>

interpretation by_num: ord_contract ordering_by_num
  unfolding ordering_by_num_def by (intro then_with_ord_contract cmp_ord_contract)

lemma ordering_by_num_equal: "ordering_by_num a b = Equal \<longleftrightarrow>
    md_block_number a = md_block_number b \<and> md_block_hash a = md_block_hash b"
  by (auto simp: ordering_by_num_def cmp_def split: if_splits)

type_synonym metas = "hash \<Rightarrow> block_metadata option"

subsection \<open>What the metadata say\<close>

definition parents_of :: "metas \<Rightarrow> hash \<Rightarrow> hash list" where
  "parents_of f h = (case f h of Some m \<Rightarrow> md_parents m | None \<Rightarrow> [])"

definition number_of :: "metas \<Rightarrow> hash \<Rightarrow> int option" where
  "number_of f h = map_option md_block_number (f h)"

definition valid_number_of :: "metas \<Rightarrow> hash \<Rightarrow> int option" where
  "valid_number_of f h = (case f h of
     Some m \<Rightarrow> if md_invalid m then None else Some (md_block_number m) | None \<Rightarrow> None)"

definition main_parent_of :: "metas \<Rightarrow> hash \<Rightarrow> hash option" where
  "main_parent_of f h = (case parents_of f h of p # _ \<Rightarrow> Some p | [] \<Rightarrow> None)"

definition self_justification_of :: "metas \<Rightarrow> hash \<Rightarrow> hash option" where
  "self_justification_of f h = (case f h of
     Some m \<Rightarrow> map_option latest_block_hash (find (\<lambda>j. j_validator j = md_sender m) (md_justifications m))
   | None \<Rightarrow> None)"

definition finalized_in :: "metas \<Rightarrow> hash \<Rightarrow> bool" where
  "finalized_in f h = (case f h of Some m \<Rightarrow> md_finalized m | None \<Rightarrow> False)"

definition directly_number_of :: "metas \<Rightarrow> hash \<Rightarrow> int option" where
  "directly_number_of f h = (case f h of
     Some m \<Rightarrow> if md_directly_finalized m then Some (md_block_number m) else None | None \<Rightarrow> None)"

lemmas metas_defs = parents_of_def number_of_def valid_number_of_def self_justification_of_def
  finalized_in_def directly_number_of_def

lemma metas_upd [simp]:
  "parents_of (f(h \<mapsto> m)) = (parents_of f)(h := md_parents m)"
  "number_of (f(h \<mapsto> m)) = (number_of f)(h \<mapsto> md_block_number m)"
  "valid_number_of (f(h \<mapsto> m)) = (valid_number_of f)(h := if md_invalid m then None else Some (md_block_number m))"
  "self_justification_of (f(h \<mapsto> m)) = (self_justification_of f)
     (h := map_option latest_block_hash (find (\<lambda>j. j_validator j = md_sender m) (md_justifications m)))"
  "finalized_in (f(h \<mapsto> m)) = (finalized_in f)(h := md_finalized m)"
  "directly_number_of (f(h \<mapsto> m)) = (directly_number_of f)
     (h := if md_directly_finalized m then Some (md_block_number m) else None)"
  by (auto simp: metas_defs fun_eq_iff)

lemma metas_none:
  "f h = None \<Longrightarrow> parents_of f h = [] \<and> number_of f h = None \<and> valid_number_of f h = None
     \<and> self_justification_of f h = None \<and> \<not> finalized_in f h \<and> directly_number_of f h = None
     \<and> main_parent_of f h = None"
  by (simp add: metas_defs main_parent_of_def)

subsection \<open>What the index says\<close>

definition set_at :: "('k, 'v list) hmap \<Rightarrow> 'k \<Rightarrow> 'v set" where
  "set_at m k = (case hm_get m k of Some s \<Rightarrow> set s | None \<Rightarrow> {})"

lemma set_at_put: "set_at (hm_put k s m) = (set_at m)(k := set s)"
  by (simp add: set_at_def fun_eq_iff)

text \<open>The latest finalized block: none of the directly finalized ones is higher.\<close>

definition lfb_ok :: "(hash \<Rightarrow> int option) \<Rightarrow> (hash \<times> int) option \<Rightarrow> bool" where
  "lfb_ok d lfb \<longleftrightarrow> (\<exists>l n. lfb = Some (l, n) \<and> 0 \<le> n \<and> (\<forall>h k. d h = Some k \<longrightarrow> k \<le> n)
     \<and> ((l, n) = ([], 0) \<or> d l = Some n))"

definition dag_index :: "metas \<Rightarrow> dag_state \<Rightarrow> bool" where
  "dag_index f st \<longleftrightarrow>
     set (dag_set st) = dom f
   \<and> (\<forall>h k. k \<in> set_at (child_map st) h \<longleftrightarrow> h \<in> set (parents_of f k))
   \<and> dom f \<subseteq> dom (hm_get (child_map st))
   \<and> (\<forall>n k. k \<in> set_at (height_map st) n \<longleftrightarrow> valid_number_of f k = Some n)
   \<and> (\<forall>n. hm_get (height_map st) n \<noteq> Some [])
   \<and> hm_ok (height_map st)
   \<and> hm_get (block_number_map st) = number_of f
   \<and> hm_get (main_parent_map st) = main_parent_of f
   \<and> hm_get (self_justification_map st) = self_justification_of f
   \<and> lfb_ok (directly_number_of f) (last_finalized_block st)
   \<and> (\<forall>h \<in> set (finalized_block_set st). finalized_in f h)"

lemma dag_index_new: "dag_index Map.empty dag_state_new"
  by (auto simp: dag_index_def dag_state_new_def set_at_def metas_defs main_parent_of_def lfb_ok_def fun_eq_iff)

lemma add_children:
  "set_at (foldl (add_child h) m ps) p = set_at m p \<union> (if p \<in> set ps then {h} else {})"
proof (induction ps arbitrary: m)
  case (Cons q ps)
  have "set_at (add_child h m q) p = set_at m p \<union> (if p = q then {h} else {})"
    by (auto simp: add_child_def set_at_def split: option.splits)
  with Cons show ?case by auto
qed simp

lemma add_children_dom: "dom (hm_get m) \<subseteq> dom (hm_get (foldl (add_child h) m ps))"
proof (induction ps arbitrary: m)
  case (Cons q ps)
  have "dom (hm_get m) \<subseteq> dom (hm_get (add_child h m q))" by (auto simp: add_child_def)
  with Cons [of "add_child h m q"] show ?case by (simp only: foldl_Cons)
qed simp

lemma lfb_ok_add:
  assumes "lfb_ok d lfb" "d h = None"
  shows "lfb_ok (d(h := if fin then Some n else None))
    (if fin \<and> (case lfb of Some (_, height) \<Rightarrow> height \<le> n | None \<Rightarrow> True) then Some (h, n) else lfb)"
proof -
  obtain l k where lfb: "lfb = Some (l, k)" "0 \<le> k" and le: "\<And>h i. d h = Some i \<Longrightarrow> i \<le> k"
    and l: "(l, k) = ([], 0) \<or> d l = Some k"
    using assms(1) by (auto simp: lfb_ok_def)
  have "l \<noteq> h \<or> (l, k) = ([], 0)" using l assms(2) by auto
  show ?thesis
  proof (cases "fin \<and> k \<le> n")
    case True
    with lfb le show ?thesis by (fastforce simp: lfb_ok_def)
  next
    case False
    with lfb le l \<open>l \<noteq> h \<or> (l, k) = ([], 0)\<close> show ?thesis
      by (simp add: lfb_ok_def) (metis linear prod.inject)
  qed
qed

text \<open>The fields of the index after a block was added.\<close>

lemma add_block_sel:
  fixes st h m
  defines "st' \<equiv> add_block_to_dag_state st (block_metadata_to_info h m)"
  shows "set (dag_set st') = insert h (set (dag_set st))"
    and "set_at (child_map st') p = set_at (child_map st) p \<union> (if p \<in> set (md_parents m) then {h} else {})"
    and "insert h (dom (hm_get (child_map st))) \<subseteq> dom (hm_get (child_map st'))"
    and "set_at (height_map st') n = set_at (height_map st) n
      \<union> (if \<not> md_invalid m \<and> n = md_block_number m then {h} else {})"
    and "(\<forall>n. hm_get (height_map st) n \<noteq> Some []) \<Longrightarrow> hm_get (height_map st') n \<noteq> Some []"
    and "hm_ok (height_map st) \<Longrightarrow> hm_ok (height_map st')"
    and "hm_get (block_number_map st') = (hm_get (block_number_map st))(h \<mapsto> md_block_number m)"
    and "hm_get (main_parent_map st') = (case md_parents m of
      p # _ \<Rightarrow> (hm_get (main_parent_map st))(h \<mapsto> p) | [] \<Rightarrow> hm_get (main_parent_map st))"
    and "hm_get (self_justification_map st') =
      (case find (\<lambda>j. j_validator j = md_sender m) (md_justifications m) of
        Some j \<Rightarrow> (hm_get (self_justification_map st))(h \<mapsto> latest_block_hash j)
      | None \<Rightarrow> hm_get (self_justification_map st))"
    and "last_finalized_block st' = (if md_directly_finalized m
        \<and> (case last_finalized_block st of Some (_, height) \<Rightarrow> height \<le> md_block_number m | None \<Rightarrow> True)
      then Some (h, md_block_number m) else last_finalized_block st)"
    and "set (finalized_block_set st') = (if md_finalized m then {h} else {}) \<union> set (finalized_block_set st)"
proof -
  define own where "own = (if hm_get (child_map st) h = None then hm_put h [] (child_map st) else child_map st)"
  have own: "set_at own = set_at (child_map st)" "insert h (dom (hm_get (child_map st))) \<subseteq> dom (hm_get own)"
    by (auto simp: own_def set_at_put set_at_def fun_eq_iff)
  note sel = st'_def add_block_to_dag_state_def block_metadata_to_info_def Let_def
  have cm: "child_map st' = foldl (add_child h) own (md_parents m)"
    by (simp add: sel own_def)
  show "set_at (child_map st') p = set_at (child_map st) p \<union> (if p \<in> set (md_parents m) then {h} else {})"
    by (simp only: cm add_children own)
  show "insert h (dom (hm_get (child_map st))) \<subseteq> dom (hm_get (child_map st'))"
    unfolding cm using own(2) add_children_dom by (rule order_trans)
  show "set_at (height_map st') n = set_at (height_map st) n
      \<union> (if \<not> md_invalid m \<and> n = md_block_number m then {h} else {})"
    by (auto simp: sel set_at_def split: option.splits)
  show "(\<forall>n. hm_get (height_map st) n \<noteq> Some []) \<Longrightarrow> hm_get (height_map st') n \<noteq> Some []"
    by (auto simp: sel hset_insert_def split: if_splits option.splits)
  show "last_finalized_block st' = (if md_directly_finalized m
        \<and> (case last_finalized_block st of Some (_, height) \<Rightarrow> height \<le> md_block_number m | None \<Rightarrow> True)
      then Some (h, md_block_number m) else last_finalized_block st)"
    by (auto simp: sel split: option.splits prod.splits)
qed (auto simp: st'_def add_block_to_dag_state_def block_metadata_to_info_def Let_def fun_eq_iff
    split: list.splits option.splits)

lemma dag_index_add:
  assumes ix: "dag_index f st" and new: "f h = None"
  shows "dag_index (f(h \<mapsto> m)) (add_block_to_dag_state st (block_metadata_to_info h m))"
proof -
  note none = metas_none [of f h, OF new] and i = ix [unfolded dag_index_def] and sel = add_block_sel
  have mp: "main_parent_of (f(h \<mapsto> m)) = (main_parent_of f)(h := case md_parents m of p # _ \<Rightarrow> Some p | [] \<Rightarrow> None)"
    by (auto simp: main_parent_of_def)
  have lfb: "lfb_ok (directly_number_of (f(h \<mapsto> m)))
      (if md_directly_finalized m
          \<and> (case last_finalized_block st of Some (_, height) \<Rightarrow> height \<le> md_block_number m | None \<Rightarrow> True)
       then Some (h, md_block_number m) else last_finalized_block st)"
    using lfb_ok_add [of "directly_number_of f" "last_finalized_block st" h "md_directly_finalized m" "md_block_number m"]
      i none by simp
  show ?thesis
    unfolding dag_index_def sel(10)
  proof (intro conjI)
    show "\<forall>ha k. k \<in> set_at (child_map (add_block_to_dag_state st (block_metadata_to_info h m))) ha \<longleftrightarrow>
        ha \<in> set (parents_of (f(h \<mapsto> m)) k)"
      using i none by (auto simp: sel)
    show "dom (f(h \<mapsto> m)) \<subseteq> dom (hm_get (child_map (add_block_to_dag_state st (block_metadata_to_info h m))))"
      using i [THEN conjunct2, THEN conjunct2, THEN conjunct1] sel(3) [of h st m] by (simp add: subset_trans)
    show "\<forall>n k. k \<in> set_at (height_map (add_block_to_dag_state st (block_metadata_to_info h m))) n \<longleftrightarrow>
        valid_number_of (f(h \<mapsto> m)) k = Some n"
      using i none by (auto simp: sel)
    show "hm_get (main_parent_map (add_block_to_dag_state st (block_metadata_to_info h m))) = main_parent_of (f(h \<mapsto> m))"
      using i none by (auto simp: sel mp split: list.splits)
    show "hm_get (self_justification_map (add_block_to_dag_state st (block_metadata_to_info h m))) =
        self_justification_of (f(h \<mapsto> m))"
      using i none by (auto simp: sel split: option.splits)
  qed (use i none lfb in \<open>auto simp: sel\<close>)
qed

subsection \<open>Block heights without holes\<close>

definition heights_ok :: "metas \<Rightarrow> bool" where
  "heights_ok f \<longleftrightarrow> (let K = ran (valid_number_of f) in K = {} \<or> Max K + 1 - Min K = int (card K))"

lemma validate_dag_state_iff:
  assumes "dag_index f st"
  shows "validate_dag_state st = (if heights_ok f then Inr st
    else Inl (Panic ''DAG store height map has numbers not in sequence.''))"
proof -
  note i = assms [unfolded dag_index_def]
  have "n \<in> dom (hm_get (height_map st)) \<longleftrightarrow> set_at (height_map st) n \<noteq> {}" for n
    using i by (auto simp: set_at_def split: option.splits)
  moreover have "set_at (height_map st) n = {k. valid_number_of f k = Some n}" for n
    using i by blast
  ultimately have "dom (hm_get (height_map st)) = ran (valid_number_of f)"
    by (auto simp: ran_def)
  then have keys: "set (hm_keys (height_map st)) = ran (valid_number_of f)"
    by (simp add: dom_map_of_conv_image_fst)
  have len: "length (hm_keys (height_map st)) = card (ran (valid_number_of f))"
    using i keys by (metis distinct_card hm_ok_def)
  have "hm_keys (height_map st) = [] \<longleftrightarrow> ran (valid_number_of f) = {}"
    using keys by (metis set_empty)
  then show ?thesis
    unfolding validate_dag_state_def Let_def heights_ok_def keys len
    by (cases "ran (valid_number_of f) = {}") (simp_all add: len keys)
qed

subsection \<open>Rebuilding the index\<close>

definition keys_ok :: "metas \<Rightarrow> bool" where
  "keys_ok f \<longleftrightarrow> (\<forall>h. case f h of Some m \<Rightarrow> md_block_hash m = h | None \<Rightarrow> True)"

definition store_ok :: "metadata_store \<Rightarrow> bool" where
  "store_ok s \<longleftrightarrow> hm_ok (mds_store s) \<and> keys_ok (hm_get (mds_store s))
     \<and> dag_index (hm_get (mds_store s)) (mds_state s) \<and> heights_ok (hm_get (mds_store s))"

lemma recreate_index:
  "distinct (map fst xs) \<Longrightarrow> dag_index f st \<Longrightarrow> fst ` set xs \<inter> dom f = {} \<Longrightarrow>
   dag_index (f ++ map_of (rev xs))
     (foldl (\<lambda>st (_, i). add_block_to_dag_state st i) st (map (\<lambda>(h, m). (h, block_metadata_to_info h m)) xs))"
proof (induction xs arbitrary: f st)
  case (Cons x xs)
  obtain h m where x: "x = (h, m)" by (cases x)
  have "dag_index (f(h \<mapsto> m)) (add_block_to_dag_state st (block_metadata_to_info h m))"
    using Cons.prems by (intro dag_index_add) (auto simp: x)
  moreover have "fst ` set xs \<inter> dom (f(h \<mapsto> m)) = {}"
    using Cons.prems by (auto simp: x)
  ultimately have "dag_index (f(h \<mapsto> m) ++ map_of (rev xs))
     (foldl (\<lambda>st (_, i). add_block_to_dag_state st i) (add_block_to_dag_state st (block_metadata_to_info h m))
       (map (\<lambda>(h, m). (h, block_metadata_to_info h m)) xs))"
    using Cons by simp
  then show ?case by (simp add: x)
qed simp

lemma metadata_store_new_index:
  assumes "hm_ok M"
  shows "metadata_store_new M = (if heights_ok (hm_get M)
      then Inr \<lparr>mds_store = M, mds_state = foldl (\<lambda>st (_, i). add_block_to_dag_state st i) dag_state_new
        (map (\<lambda>(h, m). (h, block_metadata_to_info h m)) M)\<rparr>
      else Inl (Panic ''DAG store height map has numbers not in sequence.''))
    \<and> dag_index (hm_get M) (foldl (\<lambda>st (_, i). add_block_to_dag_state st i) dag_state_new
        (map (\<lambda>(h, m). (h, block_metadata_to_info h m)) M))"
proof -
  have "map_of (rev M) = map_of M"
    using assms by (intro map_of_inject_set [THEN iffD2]) (simp_all add: hm_ok_def rev_map [symmetric])
  then have ix: "dag_index (hm_get M) (foldl (\<lambda>st (_, i). add_block_to_dag_state st i) dag_state_new
      (map (\<lambda>(h, m). (h, block_metadata_to_info h m)) M))"
    using recreate_index [of M Map.empty dag_state_new] assms dag_index_new by (simp add: hm_ok_def)
  have "ts_collect M (\<lambda>(h, m). Some (h, block_metadata_to_info h m)) =
      map (\<lambda>(h, m). (h, block_metadata_to_info h m)) M"
    by (induction M) (auto simp: ts_collect_def List.map_filter_simps)
  with validate_dag_state_iff [OF ix] ix show ?thesis
    by (simp add: metadata_store_new_def recreate_in_memory_state_def)
qed

text \<open>What a client sees of the index; \<open>is_finalized\<close> also looks at the stored metadata.\<close>

definition same_view :: "metadata_store \<Rightarrow> metadata_store \<Rightarrow> bool" where
  "same_view s t \<longleftrightarrow>
     set (dag_set (mds_state s)) = set (dag_set (mds_state t))
   \<and> set_at (child_map (mds_state s)) = set_at (child_map (mds_state t))
   \<and> set_at (height_map (mds_state s)) = set_at (height_map (mds_state t))
   \<and> hm_get (block_number_map (mds_state s)) = hm_get (block_number_map (mds_state t))
   \<and> hm_get (main_parent_map (mds_state s)) = hm_get (main_parent_map (mds_state t))
   \<and> hm_get (self_justification_map (mds_state s)) = hm_get (self_justification_map (mds_state t))
   \<and> map_option snd (last_finalized_block (mds_state s)) = map_option snd (last_finalized_block (mds_state t))
   \<and> (\<forall>h. (h \<in> set (finalized_block_set (mds_state s)) \<or> finalized_in (hm_get (mds_store s)) h) =
          (h \<in> set (finalized_block_set (mds_state t)) \<or> finalized_in (hm_get (mds_store t)) h))"

lemma lfb_ok_height:
  assumes "lfb_ok d a" "lfb_ok d b"
  shows "map_option snd a = map_option snd b"
proof -
  obtain l n l' n' where "a = Some (l, n)" "b = Some (l', n')"
    and "\<forall>h k. d h = Some k \<longrightarrow> k \<le> n" "\<forall>h k. d h = Some k \<longrightarrow> k \<le> n'"
    and "n = 0 \<or> d l = Some n" "n' = 0 \<or> d l' = Some n'" "0 \<le> n" "0 \<le> n'"
    using assms by (auto simp: lfb_ok_def)
  then show ?thesis by (metis dual_order.antisym option.map(2) snd_conv)
qed


text \<open>
  C7. After a restart the node sees the DAG it saw before: the index rebuilt from the stored
  metadata, in whatever order the store returns them, does not fail, and it agrees with the
  one that was kept up to date block by block on the blocks, their children, heights,
  numbers, main parents and self justifications, on the height of the last finalized block
  and on which blocks are finalized.
\<close>

theorem restart_same_view:
  assumes "store_ok s" "set M = set (mds_store s)" "hm_ok M"
  shows "\<exists>t. metadata_store_new M = Inr t \<and> store_ok t \<and> same_view s t"
proof -
  define t where "t = \<lparr>mds_store = M, mds_state = foldl (\<lambda>st (_, i). add_block_to_dag_state st i) dag_state_new
        (map (\<lambda>(h, m). (h, block_metadata_to_info h m)) M)\<rparr>"
  have M: "hm_get M = hm_get (mds_store s)"
    using assms by (intro map_of_inject_set [THEN iffD2]) (simp_all add: store_ok_def hm_ok_def)
  have ok: "heights_ok (hm_get M)" "keys_ok (hm_get M)" and s: "dag_index (hm_get M) (mds_state s)"
    using assms(1) by (simp_all add: store_ok_def M)
  have t: "metadata_store_new M = Inr t" "dag_index (hm_get M) (mds_state t)" "mds_store t = M"
    using metadata_store_new_index [OF assms(3)] ok by (simp_all add: t_def)
  have "same_view s t"
    unfolding same_view_def t(3) M
    using s [unfolded dag_index_def M] t(2) [unfolded dag_index_def M] lfb_ok_height
    by (auto simp: set_eq_iff fun_eq_iff)
  then show ?thesis
    using t ok assms(3) by (auto simp: store_ok_def)
qed

subsection \<open>Metadata only grow\<close>

text \<open>
  The order in which the metadata of a node move: blocks are added, a finalized block stays
  finalized, the fault tolerance does not fall, and nothing else about a block changes.
\<close>

definition meta_le :: "block_metadata \<Rightarrow> block_metadata \<Rightarrow> bool" where
  "meta_le m n \<longleftrightarrow> (md_finalized m \<longrightarrow> md_finalized n) \<and> (md_directly_finalized m \<longrightarrow> md_directly_finalized n)
     \<and> fault_tolerance_value m \<le> fault_tolerance_value n
     \<and> n = m\<lparr>md_finalized := md_finalized n, md_directly_finalized := md_directly_finalized n,
             fault_tolerance_value := fault_tolerance_value n\<rparr>"

definition opt_meta_le :: "block_metadata option \<Rightarrow> block_metadata option \<Rightarrow> bool" where
  "opt_meta_le x y = (case x of None \<Rightarrow> True | Some m \<Rightarrow> (case y of None \<Rightarrow> False | Some n \<Rightarrow> meta_le m n))"

definition metas_le :: "metas \<Rightarrow> metas \<Rightarrow> bool" where
  "metas_le f g \<longleftrightarrow> (\<forall>h. opt_meta_le (f h) (g h))"

lemma meta_le_refl [simp]: "meta_le m m"
  by (simp add: meta_le_def)

lemma meta_le_trans: "meta_le a b \<Longrightarrow> meta_le b c \<Longrightarrow> meta_le a c"
  by (cases a; cases b; cases c) (auto simp: meta_le_def)

lemma opt_meta_le_refl [simp]: "opt_meta_le x x"
  by (simp add: opt_meta_le_def split: option.splits)

lemma opt_meta_le_trans: "opt_meta_le a b \<Longrightarrow> opt_meta_le b c \<Longrightarrow> opt_meta_le a c"
  by (cases a; cases b; cases c) (auto simp: opt_meta_le_def intro: meta_le_trans)

lemma metas_le_refl [simp]: "metas_le f f"
  by (simp add: metas_le_def)

lemma metas_le_trans: "metas_le f g \<Longrightarrow> metas_le g h \<Longrightarrow> metas_le f h"
  unfolding metas_le_def by (blast intro: opt_meta_le_trans)

lemma meta_le_sel:
  assumes "meta_le m n"
  shows "md_block_hash n = md_block_hash m" "md_parents n = md_parents m" "md_sender n = md_sender m"
    "md_justifications n = md_justifications m" "md_block_number n = md_block_number m"
    "md_sequence_number n = md_sequence_number m" "md_invalid n = md_invalid m" "md_weight_map n = md_weight_map m"
  using assms by (cases m; cases n; simp add: meta_le_def)+

lemma opt_meta_le_Some: "opt_meta_le (Some m) y \<Longrightarrow> \<exists>n. y = Some n \<and> meta_le m n"
  by (cases y) (simp_all add: opt_meta_le_def)

lemma metas_le_dom: "metas_le f g \<Longrightarrow> f h \<noteq> None \<Longrightarrow> g h \<noteq> None"
  unfolding metas_le_def opt_meta_le_def by (metis option.case_eq_if)

lemma metas_le_at:
  assumes "metas_le f g" "f h \<noteq> None"
  shows "parents_of g h = parents_of f h" "number_of g h = number_of f h"
    "valid_number_of g h = valid_number_of f h" "main_parent_of g h = main_parent_of f h"
    "self_justification_of g h = self_justification_of f h" "finalized_in f h \<Longrightarrow> finalized_in g h"
proof -
  obtain m where m: "f h = Some m" using assms(2) by blast
  with assms(1) have "opt_meta_le (Some m) (g h)" by (metis metas_le_def)
  then obtain n where n: "g h = Some n" "meta_le m n" using opt_meta_le_Some by blast
  note sel = meta_le_sel [OF n(2)]
  show "parents_of g h = parents_of f h" "number_of g h = number_of f h"
    "valid_number_of g h = valid_number_of f h" "self_justification_of g h = self_justification_of f h"
    "finalized_in f h \<Longrightarrow> finalized_in g h"
    using n(2) by (simp_all add: metas_defs m n(1) sel meta_le_def)
  then show "main_parent_of g h = main_parent_of f h"
    by (simp add: main_parent_of_def)
qed

text \<open>Changing flags alone keeps the structural part of the index.\<close>

lemma metas_le_same:
  assumes "metas_le f g" "dom g = dom f"
  shows "parents_of g = parents_of f" "number_of g = number_of f" "valid_number_of g = valid_number_of f"
    "main_parent_of g = main_parent_of f" "self_justification_of g = self_justification_of f"
proof -
  have "parents_of g h = parents_of f h \<and> number_of g h = number_of f h
      \<and> valid_number_of g h = valid_number_of f h \<and> main_parent_of g h = main_parent_of f h
      \<and> self_justification_of g h = self_justification_of f h" for h
  proof (cases "f h = None")
    case True
    then have "g h = None" using assms(2) by (metis domIff)
    with True show ?thesis using metas_none [of f h] metas_none [of g h] by simp
  qed (use metas_le_at [OF assms(1)] in simp)
  then show "parents_of g = parents_of f" "number_of g = number_of f" "valid_number_of g = valid_number_of f"
    "main_parent_of g = main_parent_of f" "self_justification_of g = self_justification_of f"
    by (simp_all add: fun_eq_iff)
qed

lemma dag_index_flags:
  assumes "dag_index f st" "metas_le f g" "dom g = dom f"
    and "lfb_ok (directly_number_of g) lfb" "\<forall>h \<in> set fin. finalized_in g h"
  shows "dag_index g (st\<lparr>last_finalized_block := lfb, finalized_block_set := fin\<rparr>)"
  using assms metas_le_same [OF assms(2,3)] by (simp add: dag_index_def)

lemma finalize_le [simp]: "meta_le m (finalize_directly ft m)" "meta_le m (finalize_indirectly ft m)"
  by (simp_all add: meta_le_def finalize_directly_def finalize_indirectly_def)

lemma finalize_sel [simp]:
  "md_block_hash (finalize_directly ft m) = md_block_hash m" "md_finalized (finalize_directly ft m)"
  "md_block_number (finalize_directly ft m) = md_block_number m" "md_directly_finalized (finalize_directly ft m)"
  "md_block_hash (finalize_indirectly ft m) = md_block_hash m" "md_finalized (finalize_indirectly ft m)"
  "md_block_number (finalize_indirectly ft m) = md_block_number m"
  "md_directly_finalized (finalize_indirectly ft m) = md_directly_finalized m"
  by (simp_all add: finalize_directly_def finalize_indirectly_def)

subsection \<open>Adding a block, recording finality\<close>

lemma keys_okD: "keys_ok f \<Longrightarrow> f h = Some m \<Longrightarrow> md_block_hash m = h"
  by (drule keys_ok_def [THEN iffD1, THEN spec, of _ h]) simp

lemma ts_put_metas:
  "keys_ok (hm_get M) \<Longrightarrow> map (hm_get M) ks = map Some ms \<Longrightarrow>
   hm_get (ts_put N (map (\<lambda>m. (md_block_hash m, g m)) (filter P ms))) k =
     (case hm_get M k of Some m \<Rightarrow> if k \<in> set ks \<and> P m then Some (g m) else hm_get N k
      | None \<Rightarrow> hm_get N k)"
proof (induction ks arbitrary: ms N)
  case (Cons k' ks)
  then obtain m' ms' where ms: "ms = m' # ms'" "hm_get M k' = Some m'" "map (hm_get M) ks = map Some ms'"
    by (cases ms) auto
  then have h: "md_block_hash m' = k'" using keys_okD [OF Cons.prems(1)] by blast
  note IH = Cons.IH [OF Cons.prems(1) ms(3)]
  show ?case
  proof (cases "P m'")
    case True
    then show ?thesis
      using IH [of "hm_put k' (g m') N"] ms(2) by (simp add: ms(1) h split: option.split)
  next
    case False
    then show ?thesis
      using IH [of N] ms(2) by (simp add: ms(1) split: option.split)
  qed
qed (simp split: option.split)

text \<open>The metadata after blocks have been finalized.\<close>

definition finalized_metas :: "metas \<Rightarrow> hash \<Rightarrow> hash list \<Rightarrow> rat \<Rightarrow> metas" where
  "finalized_metas f directly indirectly ft = (\<lambda>h.
     if h \<in> set indirectly then map_option (finalize_indirectly ft) (f h)
     else if h = directly then map_option (finalize_directly ft) (f h) else f h)"

lemma finalized_metas_le: "metas_le f (finalized_metas f directly indirectly ft)"
  by (simp add: metas_le_def finalized_metas_def opt_meta_le_def split: option.splits)

lemma dom_finalized_metas [simp]: "dom (finalized_metas f directly indirectly ft) = dom f"
  by (auto simp: finalized_metas_def dom_def)

lemma finalized_in_finalized_metas:
  "finalized_in (finalized_metas f directly indirectly ft) h \<longleftrightarrow>
     (if h \<in> insert directly (set indirectly) then f h \<noteq> None else finalized_in f h)"
  by (auto simp: finalized_in_def finalized_metas_def split: option.splits)

lemma directly_number_finalized_metas:
  "directly \<notin> set indirectly \<Longrightarrow>
   directly_number_of (finalized_metas f directly indirectly ft) h =
     (if h = directly then number_of f h else directly_number_of f h)"
  by (auto simp: directly_number_of_def number_of_def finalized_metas_def split: option.splits)

lemma keys_ok_finalized_metas: "keys_ok f \<Longrightarrow> keys_ok (finalized_metas f directly indirectly ft)"
  by (auto simp: keys_ok_def finalized_metas_def split: option.splits)

lemma heights_ok_le: "metas_le f g \<Longrightarrow> dom g = dom f \<Longrightarrow> heights_ok g \<longleftrightarrow> heights_ok f"
  by (simp add: heights_ok_def metas_le_same(3))

lemma lfb_ok_finalize:
  assumes "lfb_ok d lfb" "d' = (\<lambda>h. if h = x then Some n else d h)" "\<And>k. d x = Some k \<Longrightarrow> k = n"
  shows "lfb_ok d' (if lfb = None \<or> snd (the lfb) \<le> n then Some (x, n) else lfb)"
proof -
  obtain l k where lfb: "lfb = Some (l, k)" "0 \<le> k" and le: "\<And>h i. d h = Some i \<Longrightarrow> i \<le> k"
    and l: "(l, k) = ([], 0) \<or> d l = Some k"
    using assms(1) by (auto simp: lfb_ok_def)
  show ?thesis
  proof (cases "k \<le> n")
    case True
    with lfb le show ?thesis by (fastforce simp: lfb_ok_def assms(2))
  next
    case False
    then have "l \<noteq> x \<or> (l, k) = ([], 0)" using l assms(3) by force
    with False lfb le l show ?thesis
      by (simp add: lfb_ok_def assms(2)) (metis linear prod.inject)
  qed
qed

lemma prune_subset:
  "prune_finalized_cache_if_needed st = st\<lparr>finalized_block_set := finalized_block_set (prune_finalized_cache_if_needed st)\<rparr>
    \<and> set (finalized_block_set (prune_finalized_cache_if_needed st)) \<subseteq> set (finalized_block_set st)"
  by (auto simp: prune_finalized_cache_if_needed_def Let_def)

lemma set_fold_insert [simp]: "set (foldl (\<lambda>f h. set_insert h f) s hs) = set s \<union> set hs"
  by (induction hs arbitrary: s) auto

lemma record_finalized_ok:
  assumes ok: "store_ok s" and known: "insert directly (set indirectly) \<subseteq> dom (hm_get (mds_store s))"
    and "directly \<notin> set indirectly"
  shows "\<exists>s'. record_finalized s directly indirectly ft = Inr s' \<and> store_ok s'
    \<and> hm_get (mds_store s') = finalized_metas (hm_get (mds_store s)) directly indirectly ft"
proof -
  let ?M = "hm_get (mds_store s)" let ?g = "finalized_metas ?M directly indirectly ft"
  obtain m where m: "?M directly = Some m" using known by auto
  have "\<exists>ms. map ?M indirectly = map Some ms"
    using known by (intro exI [of _ "map (the \<circ> ?M) indirectly"]) (auto simp: dom_def)
  then obtain ms where ms: "map ?M indirectly = map Some ms" by blast
  define st where "st = mds_state s"
  define lfb where "lfb = (if last_finalized_block st = None \<or> snd (the (last_finalized_block st)) \<le> md_block_number m
     then Some (directly, md_block_number m) else last_finalized_block st)"
  define fin where "fin = set_insert directly (foldl (\<lambda>f h. set_insert h f) (finalized_block_set st) indirectly)"
  define st' where "st' = prune_finalized_cache_if_needed (st\<lparr>finalized_block_set := fin, last_finalized_block := lfb\<rparr>)"
  define M' where "M' = ts_put (mds_store s) ((directly, finalize_directly ft m)
     # map (\<lambda>m. (md_block_hash m, finalize_indirectly ft m)) ms)"
  have rf: "record_finalized s directly indirectly ft = Inr \<lparr>mds_store = M', mds_state = st'\<rparr>"
    using ms m by (simp add: record_finalized_def get_batch_Inr [THEN iffD2] get_unsafe_eq M'_def st'_def fin_def
        lfb_def st_def Let_def)
  have i: "dag_index ?M st" "keys_ok ?M" "heights_ok ?M" "hm_ok (mds_store s)"
    using ok by (simp_all add: store_ok_def st_def)
  have M': "hm_get M' = ?g"
  proof
    fix h
    show "hm_get M' h = ?g h"
      using ts_put_metas [OF i(2) ms, of _ "finalize_indirectly ft" "\<lambda>_. True" h] known m
      by (auto simp: M'_def finalized_metas_def split: option.splits)
  qed
  have "lfb_ok (directly_number_of ?g) lfb"
    unfolding lfb_def
  proof (rule lfb_ok_finalize)
    show "lfb_ok (directly_number_of ?M) (last_finalized_block st)" using i by (simp add: dag_index_def)
    show "directly_number_of ?g = (\<lambda>h. if h = directly then Some (md_block_number m) else directly_number_of ?M h)"
      using m assms(3) by (auto simp: directly_number_finalized_metas number_of_def)
    show "\<And>k. directly_number_of ?M directly = Some k \<Longrightarrow> k = md_block_number m"
      using m by (simp add: directly_number_of_def split: if_splits)
  qed
  moreover have "\<forall>h \<in> set (finalized_block_set st'). finalized_in ?g h"
  proof
    fix h assume "h \<in> set (finalized_block_set st')"
    then have "h \<in> insert directly (set indirectly) \<or> h \<in> set (finalized_block_set st)"
      using prune_subset [of "st\<lparr>finalized_block_set := fin, last_finalized_block := lfb\<rparr>"]
      by (auto simp: st'_def fin_def)
    then show "finalized_in ?g h"
      using i(1) known metas_le_at(6) [OF finalized_metas_le] metas_none [of ?M h]
      by (auto simp: finalized_in_finalized_metas dag_index_def)
  qed
  ultimately have "dag_index ?g (st\<lparr>last_finalized_block := lfb, finalized_block_set := finalized_block_set st'\<rparr>)"
    using i(1) by (intro dag_index_flags [where f = ?M] finalized_metas_le) simp_all
  moreover have "st' = st\<lparr>last_finalized_block := lfb, finalized_block_set := finalized_block_set st'\<rparr>"
    using prune_subset [of "st\<lparr>finalized_block_set := fin, last_finalized_block := lfb\<rparr>"] by (simp add: st'_def)
  ultimately have "dag_index ?g st'" by simp
  then have "store_ok \<lparr>mds_store = M', mds_state = st'\<rparr>"
    using i M' heights_ok_le [OF finalized_metas_le [of ?M directly indirectly ft]]
    by (simp add: store_ok_def keys_ok_finalized_metas M'_def)
  with rf M' show ?thesis by simp
qed

lemma update_ft_ok:
  assumes ok: "store_ok s" and known: "set hs \<subseteq> dom (hm_get (mds_store s))"
  shows "\<exists>s'. update_ft_if_higher s hs ft = Inr s' \<and> store_ok s' \<and> mds_state s' = mds_state s
    \<and> metas_le (hm_get (mds_store s)) (hm_get (mds_store s'))
    \<and> dom (hm_get (mds_store s')) = dom (hm_get (mds_store s))
    \<and> finalized_in (hm_get (mds_store s')) = finalized_in (hm_get (mds_store s))
    \<and> (\<forall>h. h \<notin> set hs \<longrightarrow> hm_get (mds_store s') h = hm_get (mds_store s) h)"
proof -
  let ?M = "hm_get (mds_store s)"
  define P where "P = (\<lambda>m :: block_metadata. fault_tolerance_value m < ft)"
  define upd where "upd = (\<lambda>m :: block_metadata. m\<lparr>fault_tolerance_value := ft\<rparr>)"
  define g where "g h = (case ?M h of Some m \<Rightarrow> if h \<in> set hs \<and> P m then Some (upd m) else Some m | None \<Rightarrow> None)" for h
  have "\<exists>ms. map ?M hs = map Some ms"
    using known by (intro exI [of _ "map (the \<circ> ?M) hs"]) (auto simp: dom_def)
  then obtain ms where ms: "map ?M hs = map Some ms" by blast
  define M' where "M' = ts_put (mds_store s) (map (\<lambda>m. (md_block_hash m, upd m)) (filter P ms))"
  have rf: "update_ft_if_higher s hs ft = Inr (s\<lparr>mds_store := M'\<rparr>)"
    using ms by (auto simp: update_ft_if_higher_def get_batch_Inr [THEN iffD2] M'_def P_def upd_def Let_def)
  have i: "dag_index ?M (mds_state s)" "keys_ok ?M" "heights_ok ?M" "hm_ok (mds_store s)"
    using ok by (simp_all add: store_ok_def)
  have M': "hm_get M' = g"
    by (rule ext) (simp add: M'_def g_def ts_put_metas [OF i(2) ms] split: option.splits)
  have le: "metas_le ?M g"
    by (simp add: metas_le_def g_def opt_meta_le_def upd_def P_def meta_le_def split: option.splits)
  have dom: "dom g = dom ?M"
    by (auto simp: g_def dom_def split: option.splits if_splits)
  have fin: "finalized_in g = finalized_in ?M" and num: "directly_number_of g = directly_number_of ?M"
    by (auto simp: finalized_in_def directly_number_of_def g_def upd_def fun_eq_iff split: option.splits)
  have keys: "keys_ok g"
    using i(2) by (auto simp: keys_ok_def g_def upd_def split: option.splits)
  have "dag_index g (mds_state s\<lparr>last_finalized_block := last_finalized_block (mds_state s),
      finalized_block_set := finalized_block_set (mds_state s)\<rparr>)"
    using i(1) le dom by (intro dag_index_flags [where f = ?M]) (simp_all add: dag_index_def fin num)
  then have "store_ok (s\<lparr>mds_store := M'\<rparr>)"
    using i M' keys heights_ok_le [OF le dom] by (simp add: store_ok_def M'_def)
  moreover have "\<forall>h. h \<notin> set hs \<longrightarrow> g h = ?M h"
    by (simp add: g_def split: option.splits)
  ultimately show ?thesis using rf M' le dom fin by simp
qed

lemma mds_add_ok:
  assumes ok: "store_ok s" and new: "hm_get (mds_store s) (md_block_hash m) = None"
    and heights: "heights_ok ((hm_get (mds_store s))(md_block_hash m \<mapsto> m))"
  shows "\<exists>s'. mds_add s m = Inr s' \<and> store_ok s'
    \<and> hm_get (mds_store s') = (hm_get (mds_store s))(md_block_hash m \<mapsto> m)"
proof -
  let ?h = "md_block_hash m"
  define st where "st = add_block_to_dag_state (mds_state s) (block_metadata_to_info ?h m)"
  have ix: "dag_index ((hm_get (mds_store s))(?h \<mapsto> m)) st"
    unfolding st_def using ok new by (intro dag_index_add) (simp_all add: store_ok_def)
  have "mds_add s m = Inr \<lparr>mds_store = hm_put ?h m (mds_store s), mds_state = st\<rparr>"
    using validate_dag_state_iff [OF ix] heights by (simp add: mds_add_def Let_def st_def)
  moreover have "keys_ok ((hm_get (mds_store s))(?h \<mapsto> m))"
    using ok by (simp add: store_ok_def keys_ok_def)
  ultimately show ?thesis
    using ix heights ok by (simp add: store_ok_def)
qed

lemma mds_contains_iff: "store_ok s \<Longrightarrow> mds_contains s h \<longleftrightarrow> hm_get (mds_store s) h \<noteq> None"
  by (simp add: mds_contains_def store_ok_def dag_index_def domIff)

subsection \<open>Inserting a block\<close>

abbreviation metas :: "dag_storage \<Rightarrow> metas" where
  "metas s \<equiv> hm_get (mds_store (block_metadata_index s))"

text \<open>The latest message of every validator is a block of the DAG.\<close>

definition storage_ok :: "dag_storage \<Rightarrow> bool" where
  "storage_ok s \<longleftrightarrow> store_ok (block_metadata_index s) \<and> ran (hm_get (latest_messages_index s)) \<subseteq> dom (metas s)"

definition latest_seq :: "dag_storage \<Rightarrow> bytes \<Rightarrow> int option" where
  "latest_seq s v = (case hm_get (latest_messages_index s) v of
     Some h \<Rightarrow> map_option md_sequence_number (metas s h) | None \<Rightarrow> None)"

lemma new_latest_messages_get:
  "hm_get (new_latest_messages s b) v =
     (if v \<in> bond_validator ` set (st_bonds (bd_state (bm_body b))) - j_validator ` set (bm_justifications b)
         \<and> hm_get (latest_messages_index s) v = None
      then Some (bm_block_hash b) else None)"
proof -
  have "hm_get (foldl (\<lambda>r v. if contains_key (latest_messages_index s) v then r else hm_put v h r) r vs) v =
      (if v \<in> set vs \<and> hm_get (latest_messages_index s) v = None then Some h else hm_get r v)" for r vs h
    by (induction vs arbitrary: r) auto
  from this [of "bm_block_hash b" "[]"] show ?thesis
    by (simp add: new_latest_messages_def Let_def)
qed

lemma representation_ok:
  assumes "store_ok (block_metadata_index s)"
  shows "\<exists>rep. get_representation s = Inr rep \<and> rep_index rep = block_metadata_index s
    \<and> rep_deploy_index rep = deploy_index s \<and> rep_latest_messages rep = latest_messages_index s
    \<and> rep_dag_set rep = dag_set (mds_state (block_metadata_index s))
    \<and> rep_child_map rep = child_map (mds_state (block_metadata_index s))
    \<and> rep_block_number_map rep = block_number_map (mds_state (block_metadata_index s))
    \<and> rep_main_parent_map rep = main_parent_map (mds_state (block_metadata_index s))
    \<and> rep_finalized rep = finalized_block_set (mds_state (block_metadata_index s))"
proof -
  obtain l n where "last_finalized_block (mds_state (block_metadata_index s)) = Some (l, n)"
    using assms by (auto simp: store_ok_def dag_index_def lfb_ok_def)
  then show ?thesis by (simp add: get_representation_def Let_def)
qed

lemma lookup_rep:
  assumes "store_ok (block_metadata_index s)" "get_representation s = Inr rep"
  shows "lookup rep h = metas s h"
  using representation_ok [OF assms(1)] assms(1,2)
  by (auto simp: lookup_def mds_get_def store_ok_def dag_index_def domIff)

lemma finalized_metas_single:
  "f h = Some m \<Longrightarrow> finalized_metas f h [] ft = f(h \<mapsto> finalize_directly ft m)"
  by (auto simp: finalized_metas_def)

lemma md_hash_from_block [simp]:
  "md_block_hash (from_block b invalid d f) = bm_block_hash b"
  "md_sequence_number (from_block b invalid d f) = bm_seq_num b"
  by (simp_all add: from_block_def)

lemma md_seq_finalize [simp]: "md_sequence_number (finalize_directly ft m) = md_sequence_number m"
  by (simp add: finalize_directly_def)

text \<open>The latest messages after a block was inserted.\<close>

definition latest_after :: "dag_storage \<Rightarrow> block_message \<Rightarrow> bool \<Rightarrow> bytes \<Rightarrow> hash option" where
  "latest_after s b add v =
     (if bm_sender b \<noteq> [] \<and> add \<and> v = bm_sender b then Some (bm_block_hash b)
      else case hm_get (new_latest_messages s b) v of Some h \<Rightarrow> Some h
           | None \<Rightarrow> hm_get (latest_messages_index s) v)"

lemma latest_after_put:
  "hm_get (ts_put (latest_messages_index s)
     (ts_put (new_latest_messages s b) (if \<not> bm_sender b = [] \<and> add then [(bm_sender b, bm_block_hash b)] else [])))
   = latest_after s b add"
proof -
  have distinct_new: "distinct (map fst (foldl (\<lambda>r v. if P v then r else hm_put v h r) r vs))"
    if "distinct (map fst r)" for r vs P and h :: hash
    using that by (induction vs arbitrary: r) (simp_all add: AList.distinct_update)
  have "distinct (map fst (new_latest_messages s b))"
    unfolding new_latest_messages_def Let_def by (rule distinct_new) simp
  then have rev: "map_of (rev (hm_put k x (new_latest_messages s b))) = map_of (hm_put k x (new_latest_messages s b))"
    "map_of (rev (new_latest_messages s b)) = map_of (new_latest_messages s b)" for k x
    by (intro map_of_inject_set [THEN iffD2];
        simp add: rev_map [symmetric] AList.distinct_update)+
  show ?thesis
    by (rule ext) (auto simp: ts_put_get latest_after_def rev split: option.splits)
qed

lemma insert_steps:
  fixes s b invalid approved
  defines "m \<equiv> from_block b invalid None None" and "h \<equiv> bm_block_hash b"
  assumes ok: "storage_ok s" and new: "metas s h = None" and len: "length h = BLOCK_HASH_LENGTH"
    and sender: "bm_sender b = [] \<or> length (bm_sender b) = VALIDATOR_LENGTH"
    and heights: "heights_ok ((metas s)(h \<mapsto> m))"
  shows "\<exists>rep s'. insert_internal s b invalid approved = Inr (rep, s') \<and> get_representation s' = Inr rep
    \<and> store_ok (block_metadata_index s')
    \<and> metas s' = (metas s)(h \<mapsto> (if approved then finalize_directly 1 m else m))
    \<and> deploy_index s' = ts_put (deploy_index s) (map (\<lambda>d. (sd_sig (pd_deploy d), h)) (deploys (bm_body b)))
    \<and> (\<exists>add. hm_get (latest_messages_index s') = latest_after s b add
        \<and> (\<forall>n. \<not> add \<longrightarrow> latest_seq s (bm_sender b) = Some n \<longrightarrow> bm_seq_num b < n)
        \<and> (\<forall>n. add \<longrightarrow> latest_seq s (bm_sender b) = Some n \<longrightarrow> n \<le> bm_seq_num b)
        \<and> (latest_seq s (bm_sender b) = None \<longrightarrow> add))"
proof -
  have mh: "md_block_hash m = h" by (simp add: m_def h_def)
  obtain mds where mds: "mds_add (block_metadata_index s) m = Inr mds" "store_ok mds"
    "hm_get (mds_store mds) = (metas s)(h \<mapsto> m)"
    using mds_add_ok [of "block_metadata_index s" m] ok new heights by (auto simp: storage_ok_def mh)
  define s1 where "s1 = s\<lparr>block_metadata_index := mds, dag_generation := dag_generation s + 1,
     deploy_index := ts_put (deploy_index s) (map (\<lambda>d. (sd_sig (pd_deploy d), h)) (deploys (bm_body b))),
     invalid_blocks_index :=
       (if invalid then put_one (invalid_blocks_index s) h m else invalid_blocks_index s)\<rparr>"
  define add where "add = should_add_as_latest s1 b"
  define lm where "lm = ts_put (latest_messages_index s1) (ts_put (new_latest_messages s1 b)
     (if \<not> bm_sender b = [] \<and> add then [(bm_sender b, h)] else []))"
  have nl: "new_latest_messages s1 b = new_latest_messages s b" "latest_messages_index s1 = latest_messages_index s"
    by (simp_all add: s1_def new_latest_messages_def)
  have lm: "hm_get lm = latest_after s b add"
    unfolding lm_def nl h_def by (rule latest_after_put)
  obtain mds' where mds': "(if approved then record_finalized mds h [] 1 else Inr mds) = Inr mds'" "store_ok mds'"
    "hm_get (mds_store mds') = (metas s)(h \<mapsto> (if approved then finalize_directly 1 m else m))"
  proof (cases approved)
    case True
    have "insert h (set []) \<subseteq> dom (hm_get (mds_store mds))"
      unfolding mds(3) by (simp add: domIff)
    from record_finalized_ok [OF mds(2) this, of 1] obtain t where "record_finalized mds h [] 1 = Inr t"
      "store_ok t" "hm_get (mds_store t) = finalized_metas ((metas s)(h \<mapsto> m)) h [] 1"
      unfolding mds(3) by (metis empty_iff list.set(1))
    moreover have "finalized_metas ((metas s)(h \<mapsto> m)) h [] 1 = (metas s)(h \<mapsto> finalize_directly 1 m)"
      using finalized_metas_single [of "(metas s)(h \<mapsto> m)" h m 1] by (simp only: fun_upd_same fun_upd_upd)
    ultimately show ?thesis
      using True that [of t] by (simp only: if_True)
  qed (use mds that [of mds] in \<open>simp only: if_False\<close>)
  define s' where "s' = s1\<lparr>latest_messages_index := lm, block_metadata_index := mds'\<rparr>"
  obtain rep where rep: "get_representation s' = Inr rep"
    using representation_ok [of s'] mds'(2) by (auto simp: s'_def)
  have "\<not> mds_contains (block_metadata_index s) h"
    using ok new mds_contains_iff by (simp add: storage_ok_def)
  then have "insert_internal s b invalid approved =
      rbind (if approved then record_finalized (block_metadata_index (s1\<lparr>latest_messages_index := lm\<rparr>)) h [] 1
             else Inr (block_metadata_index (s1\<lparr>latest_messages_index := lm\<rparr>))) (\<lambda>mds'.
        rbind (get_representation (s1\<lparr>latest_messages_index := lm\<rparr>\<lparr>block_metadata_index := mds'\<rparr>)) (\<lambda>rep.
          Inr (rep, s1\<lparr>latest_messages_index := lm\<rparr>\<lparr>block_metadata_index := mds'\<rparr>)))"
    using sender len
    unfolding insert_internal_def Let_def h_def [symmetric] m_def [symmetric] mds(1) rbind_simps
      s1_def [symmetric] add_def [symmetric] lm_def [symmetric] by auto
  moreover have "block_metadata_index (s1\<lparr>latest_messages_index := lm\<rparr>) = mds"
    by (simp add: s1_def)
  ultimately have "insert_internal s b invalid approved = Inr (rep, s')"
    using rep by (simp only: mds'(1) rbind_simps s'_def)
  moreover have "latest_seq s (bm_sender b) = Some n \<Longrightarrow> add \<longleftrightarrow> n \<le> bm_seq_num b" for n
    using new mds(3)
    by (auto simp: add_def should_add_as_latest_def latest_seq_def nl mds_get_def s1_def split: option.splits)
  moreover have "add" if "latest_seq s (bm_sender b) = None"
    using that ok by (auto simp: add_def should_add_as_latest_def latest_seq_def nl mds_get_def s1_def
        storage_ok_def ran_def split: option.splits)
  ultimately show ?thesis
    using rep mds'(2,3) lm by (intro exI [of _ rep] exI [of _ s'] conjI exI [of _ add])
      (auto simp: s'_def s1_def)
qed

text \<open>
  C6. Inserting a new block whose hash and sender have their lengths (or without a sender),
  at a height that leaves no hole among the heights of the valid blocks, succeeds: the block
  is found under its hash (finalized if it is the approved block) and every other block as
  before, its deploys lead to it and every other deploy to where it led before, the index
  stays correct and every latest message stays a known block. The sequence number of a
  validator's latest message never falls, and the sender's is at least the block's.
\<close>

theorem insert_new_block:
  assumes "storage_ok s" "metas s (bm_block_hash b) = None" "length (bm_block_hash b) = BLOCK_HASH_LENGTH"
    and "bm_sender b = [] \<or> length (bm_sender b) = VALIDATOR_LENGTH"
    and "heights_ok ((metas s)(bm_block_hash b \<mapsto> from_block b invalid None None))"
  shows "\<exists>rep s'. insert_internal s b invalid approved = Inr (rep, s') \<and> storage_ok s'
    \<and> (\<forall>h. lookup rep h = (if h = bm_block_hash b
        then Some (if approved then finalize_directly 1 (from_block b invalid None None)
                   else from_block b invalid None None)
        else metas s h))
    \<and> (\<forall>i. lookup_by_deploy_id rep i = (if i \<in> (\<lambda>d. sd_sig (pd_deploy d)) ` set (deploys (bm_body b))
        then Some (bm_block_hash b) else get_one (deploy_index s) i))
    \<and> (\<forall>v n. latest_seq s v = Some n \<longrightarrow> (\<exists>n'. latest_seq s' v = Some n' \<and> n \<le> n'))
    \<and> (bm_sender b \<noteq> [] \<longrightarrow> (\<exists>n. latest_seq s' (bm_sender b) = Some n \<and> bm_seq_num b \<le> n))"
proof -
  define h where "h = bm_block_hash b"
  define m where "m = (if approved then finalize_directly 1 (from_block b invalid None None)
    else from_block b invalid None None)"
  have seq: "md_sequence_number m = bm_seq_num b" by (simp add: m_def)
  obtain rep s' add where ins: "insert_internal s b invalid approved = Inr (rep, s')"
    and rep: "get_representation s' = Inr rep" and st: "store_ok (block_metadata_index s')"
    and f: "metas s' = (metas s)(h \<mapsto> m)"
    and dep: "deploy_index s' = ts_put (deploy_index s) (map (\<lambda>d. (sd_sig (pd_deploy d), h)) (deploys (bm_body b)))"
    and lm: "hm_get (latest_messages_index s') = latest_after s b add"
    and low: "\<And>n. \<not> add \<Longrightarrow> latest_seq s (bm_sender b) = Some n \<Longrightarrow> bm_seq_num b < n"
    and high: "\<And>n. add \<Longrightarrow> latest_seq s (bm_sender b) = Some n \<Longrightarrow> n \<le> bm_seq_num b"
    and add: "latest_seq s (bm_sender b) = None \<Longrightarrow> add"
    using insert_steps [OF assms] unfolding m_def h_def by blast
  note after = latest_after_def new_latest_messages_get
  have ran: "ran (hm_get (latest_messages_index s')) \<subseteq> dom (metas s')"
    using assms(1) unfolding lm f
    by (auto simp: after ran_def storage_ok_def h_def split: if_splits option.splits)
  have seq_at: "latest_seq s' v = (case latest_after s b add v of
      Some k \<Rightarrow> if k = h then Some (bm_seq_num b) else map_option md_sequence_number (metas s k) | None \<Rightarrow> None)" for v
    unfolding latest_seq_def lm f by (simp add: seq split: option.splits)
  have known: "hm_get (latest_messages_index s) v \<noteq> Some h" for v
    using assms(1,2) by (auto simp: storage_ok_def ran_def h_def)
  have mono: "\<exists>n'. latest_seq s' v = Some n' \<and> n \<le> n'" if n: "latest_seq s v = Some n" for v n
  proof (cases "bm_sender b \<noteq> [] \<and> add \<and> v = bm_sender b")
    case True
    with n high show ?thesis by (simp add: seq_at after h_def)
  next
    case False
    from n obtain k where k: "hm_get (latest_messages_index s) v = Some k"
      "map_option md_sequence_number (metas s k) = Some n"
      by (auto simp: latest_seq_def split: option.splits)
    with False have "latest_after s b add v = Some k" by (auto simp: after)
    moreover have "k \<noteq> h" using known [of v] k(1) by blast
    ultimately show ?thesis using k(2) by (auto simp: seq_at)
  qed
  have own: "\<exists>n. latest_seq s' (bm_sender b) = Some n \<and> bm_seq_num b \<le> n" if "bm_sender b \<noteq> []"
  proof (cases add)
    case True
    with that show ?thesis by (simp add: seq_at after h_def)
  next
    case False
    then obtain n where "latest_seq s (bm_sender b) = Some n" "bm_seq_num b < n"
      using add low by fastforce
    with mono show ?thesis by force
  qed
  have "lookup_by_deploy_id rep i = (if i \<in> (\<lambda>d. sd_sig (pd_deploy d)) ` set (deploys (bm_body b))
      then Some h else get_one (deploy_index s) i)" for i
    using representation_ok [OF st] rep by (auto simp: lookup_by_deploy_id_def dep ts_put_same)
  moreover have "lookup rep k = (if k = h then Some m else metas s k)" for k
    using lookup_rep [OF st rep] unfolding f by simp
  moreover have "storage_ok s'" using st ran by (simp only: storage_ok_def)
  ultimately show ?thesis
    unfolding h_def [symmetric] m_def [symmetric] using ins mono own by blast
qed

text \<open>The storage of a node before genesis, and a genesis block, for the witnesses.\<close>

definition demo_hash :: "byte \<Rightarrow> hash" where
  "demo_hash n = replicate 32 n"

definition demo_genesis :: block_message where
  "demo_genesis = (demo_block [demo_deploy Secp256k1 100 3 40])\<lparr>bm_block_hash := demo_hash 1\<rparr>"

definition demo_storage :: dag_storage where
  "demo_storage = \<lparr>latest_messages_index = [], block_metadata_index = \<lparr>mds_store = [], mds_state = dag_state_new\<rparr>,
     deploy_index = [], invalid_blocks_index = [], equivocation_tracker_index = [], dag_generation = 0\<rparr>"

lemma demo_storage_new: "dag_storage_new [] [] [] [] [] = Inr demo_storage"
  by (simp add: dag_storage_new_def metadata_store_new_def recreate_in_memory_state_def ts_collect_def
      List.map_filter_simps validate_dag_state_def dag_state_new_def demo_storage_def)

lemma heights_ok_single: "heights_ok [h \<mapsto> m]"
proof -
  have "ran (valid_number_of [h \<mapsto> m]) = (if md_invalid m then {} else {md_block_number m})"
    by (auto simp: ran_def metas_defs)
  then show ?thesis by (simp add: heights_ok_def)
qed

lemma demo_storage_ok: "storage_ok demo_storage"
  by (simp add: storage_ok_def store_ok_def demo_storage_def dag_index_new keys_ok_def heights_ok_def
      ran_def metas_defs)

theorem insert_new_block_witness:
  "\<exists>rep s'. insert_internal demo_storage demo_genesis False True = Inr (rep, s') \<and> storage_ok s'
    \<and> (\<forall>h. lookup rep h = (if h = bm_block_hash demo_genesis
        then Some (if True then finalize_directly 1 (from_block demo_genesis False None None)
                   else from_block demo_genesis False None None)
        else metas demo_storage h))
    \<and> (\<forall>i. lookup_by_deploy_id rep i = (if i \<in> (\<lambda>d. sd_sig (pd_deploy d)) ` set (deploys (bm_body demo_genesis))
        then Some (bm_block_hash demo_genesis) else get_one (deploy_index demo_storage) i))
    \<and> (\<forall>v n. latest_seq demo_storage v = Some n \<longrightarrow> (\<exists>n'. latest_seq s' v = Some n' \<and> n \<le> n'))
    \<and> (bm_sender demo_genesis \<noteq> [] \<longrightarrow>
        (\<exists>n. latest_seq s' (bm_sender demo_genesis) = Some n \<and> bm_seq_num demo_genesis \<le> n))"
proof (rule insert_new_block)
  show "storage_ok demo_storage" by (rule demo_storage_ok)
  show "heights_ok ((metas demo_storage)(bm_block_hash demo_genesis \<mapsto> from_block demo_genesis False None None))"
    using heights_ok_single by (simp add: demo_storage_def)
qed (simp_all add: demo_storage_def demo_genesis_def demo_block_def demo_hash_def BLOCK_HASH_LENGTH_def)

theorem restart_same_view_witness:
  "\<exists>t. metadata_store_new [(demo_hash 1, from_block demo_genesis False None None)] = Inr t \<and> store_ok t
    \<and> same_view \<lparr>mds_store = [(demo_hash 1, from_block demo_genesis False None None)],
        mds_state = add_block_to_dag_state dag_state_new
          (block_metadata_to_info (demo_hash 1) (from_block demo_genesis False None None))\<rparr> t"
proof (rule restart_same_view)
  let ?m = "from_block demo_genesis False None None"
  have "md_block_hash ?m = demo_hash 1" by (simp add: demo_genesis_def)
  moreover have "dag_index [demo_hash 1 \<mapsto> ?m]
      (add_block_to_dag_state dag_state_new (block_metadata_to_info (demo_hash 1) ?m))"
    by (rule dag_index_add [OF dag_index_new]) simp
  ultimately show "store_ok \<lparr>mds_store = [(demo_hash 1, ?m)],
      mds_state = add_block_to_dag_state dag_state_new (block_metadata_to_info (demo_hash 1) ?m)\<rparr>"
    using heights_ok_single [of "demo_hash 1" ?m] by (simp add: store_ok_def hm_ok_def keys_ok_def fun_upd_def)
qed (simp_all add: hm_ok_def)

end
