(* ===== verification/BlockDagFinality.thy ===== *)
theory BlockDagFinality
  imports BlockDagSpec
begin

section \<open>Walking the DAG and finality\<close>

text \<open>
  The loops of \<open>KeyValueDagRepresentation\<close> end and compute what their names say: \<open>descendants\<close>
  and \<open>ancestors\<close> are the transitive closures of the child and the parent relation (they are
  instances of the locale \<open>traversal\<close>), \<open>is_in_main_chain\<close> decides membership in the chain of
  main parents. Then the finalization of a block: the reconcile loop ends after two rounds
  whatever happens between its critical sections, as long as the DAG only grows, and the
  finalized blocks stay closed under parents.
\<close>

subsection \<open>The relations the walks follow\<close>

definition parent_rel :: "metas \<Rightarrow> (hash \<times> hash) set" where
  "parent_rel f = {(x, p). p \<in> set (parents_of f x)}"

definition main_rel :: "metas \<Rightarrow> (hash \<times> hash) set" where
  "main_rel f = {(x, p). main_parent_of f x = Some p}"

definition parents_known :: "metas \<Rightarrow> bool" where
  "parents_known f \<longleftrightarrow> (\<forall>h. set (parents_of f h) \<subseteq> dom f)"

lemma succs_child_hashes: "succs (child_hashes rep) x = set_at (rep_child_map rep) x"
  by (cases "hm_get (rep_child_map rep) x") (simp_all add: succs_def child_hashes_def children_def set_at_def)

lemma finite_children: "finite (\<Union>x. succs (child_hashes rep) x)"
proof -
  have "(\<Union>x. succs (child_hashes rep) x) \<subseteq> (\<Union>e \<in> set (rep_child_map rep). set (snd e))"
    by (force simp: succs_child_hashes set_at_def dest: map_of_SomeD split: option.splits)
  then show ?thesis by (rule finite_subset) simp
qed

lemma succs_parent_hashes:
  "succs (parent_hashes rep flt) x =
     (case lookup rep x of Some m \<Rightarrow> {p \<in> set (md_parents m). flt p} | None \<Rightarrow> {})"
  by (simp add: succs_def parent_hashes_def lookup_unsafe_def split: option.splits)

lemma finite_parents: "finite (\<Union>x. succs (parent_hashes rep flt) x)"
proof -
  have "(\<Union>x. succs (parent_hashes rep flt) x) \<subseteq> (\<Union>e \<in> set (mds_store (rep_index rep)). set (md_parents (snd e)))"
  proof
    fix y assume "y \<in> (\<Union>x. succs (parent_hashes rep flt) x)"
    then obtain x m where "lookup rep x = Some m" "y \<in> set (md_parents m)"
      by (auto simp: succs_parent_hashes split: option.splits)
    moreover from this(1) have "(x, m) \<in> set (mds_store (rep_index rep))"
      by (auto simp: lookup_def mds_get_def dest: map_of_SomeD split: if_splits)
    ultimately show "y \<in> (\<Union>e \<in> set (mds_store (rep_index rep)). set (md_parents (snd e)))"
      by force
  qed
  then show ?thesis by (rule finite_subset) simp
qed

interpretation child_walk: traversal "child_hashes rep" for rep
  by unfold_locales (rule finite_children)

interpretation parent_walk: traversal "parent_hashes rep flt" for rep flt
  by unfold_locales (rule finite_parents)

lemma rep_children:
  assumes "store_ok (block_metadata_index s)" "get_representation s = Inr rep"
  shows "edges (child_hashes rep) = (parent_rel (metas s))\<inverse>"
  using representation_ok [OF assms(1)] assms
  by (auto simp: edges_def succs_child_hashes parent_rel_def store_ok_def dag_index_def)

lemma rep_parents:
  assumes "store_ok (block_metadata_index s)" "get_representation s = Inr rep"
  shows "edges (parent_hashes rep flt) = {(x, p) \<in> parent_rel (metas s). flt p}"
proof -
  have "p \<in> succs (parent_hashes rep flt) x \<longleftrightarrow> p \<in> set (parents_of (metas s) x) \<and> flt p" for x p
    by (cases "metas s x") (simp_all add: succs_parent_hashes lookup_rep [OF assms] parents_of_def)
  then show ?thesis by (simp add: edges_def parent_rel_def)
qed

text \<open>
  C26. \<open>descendants\<close> always ends, and for the view of a correct storage it returns, without
  repetition, exactly the blocks from which the given block is reached through parents.
\<close>

theorem descendants_exact:
  assumes "storage_ok s" "get_representation s = Inr rep"
  shows "\<exists>r. descendants rep h = Some (Inr r) \<and> distinct r \<and> set r = {d. (d, h) \<in> (parent_rel (metas s))\<^sup>+}"
proof -
  have "\<forall>x \<in> set [h] \<union> reached (child_hashes rep) (set [h]). \<exists>ys. child_hashes rep x = Inr ys"
    by (simp add: child_hashes_def)
  from child_walk.succeeds [OF this] obtain r where
    "descendants rep h = Some (Inr r)" "set r = reached (child_hashes rep) {h}" "distinct r"
    by (auto simp: descendants_def)
  moreover have "reached (child_hashes rep) {h} = {d. (d, h) \<in> (parent_rel (metas s))\<^sup>+}"
    using assms by (simp add: reached_def rep_children [of s rep] storage_ok_def trancl_converse Image_def)
  ultimately show ?thesis by auto
qed

lemma parents_known_reach:
  assumes "parents_known f" "x \<in> dom f" "(x, y) \<in> (parent_rel f)\<^sup>+"
  shows "y \<in> dom f"
  using assms(3) by (induction) (use assms(1) in \<open>auto simp: parents_known_def parent_rel_def\<close>)

lemma ancestors_walk:
  assumes "storage_ok s" "get_representation s = Inr rep"
  shows "\<exists>r. ancestors rep h flt = Some r
    \<and> (case r of
         Inr as \<Rightarrow> distinct as \<and> set as = {a. (h, a) \<in> {(x, p) \<in> parent_rel (metas s). flt p}\<^sup>+}
       | Inl e \<Rightarrow> e = Err missing_hash \<and> \<not> (parents_known (metas s) \<and> metas s h \<noteq> None))"
proof -
  have ok: "store_ok (block_metadata_index s)" using assms(1) by (simp add: storage_ok_def)
  note edges = rep_parents [OF ok assms(2), of flt] and look = lookup_rep [OF ok assms(2)]
  obtain r where r: "levels (parent_hashes rep flt) [] [h] = Some r"
    using parent_walk.terminates by blast
  have "case r of
      Inr as \<Rightarrow> distinct as \<and> set as = {a. (h, a) \<in> {(x, p) \<in> parent_rel (metas s). flt p}\<^sup>+}
    | Inl e \<Rightarrow> e = Err missing_hash \<and> \<not> (parents_known (metas s) \<and> metas s h \<noteq> None)"
  proof (cases r)
    case (Inr as)
    from parent_walk.reaches_all [OF r [unfolded Inr]] show ?thesis
      by (auto simp: Inr reached_def edges)
  next
    case (Inl e)
    from parent_walk.fails_at_node [OF r [unfolded Inl]] obtain x where
      x: "x = h \<or> (h, x) \<in> {(x, p) \<in> parent_rel (metas s). flt p}\<^sup>+" "parent_hashes rep flt x = Inl e"
      by (auto simp: reached_def edges)
    then have e: "e = Err missing_hash" "metas s x = None"
      by (auto simp: parent_hashes_def lookup_unsafe_def look split: option.splits)
    have "{(x, p) \<in> parent_rel (metas s). flt p}\<^sup>+ \<subseteq> (parent_rel (metas s))\<^sup>+"
      by (rule trancl_mono_subset) auto
    with x(1) have "x = h \<or> (h, x) \<in> (parent_rel (metas s))\<^sup>+" by blast
    with e parents_known_reach [of "metas s" h x] have "\<not> (parents_known (metas s) \<and> metas s h \<noteq> None)"
      by (metis domIff)
    with e show ?thesis by (simp add: Inl)
  qed
  with r show ?thesis by (simp add: ancestors_def)
qed

text \<open>
  C27. \<open>ancestors\<close> always ends. If no parent of a known block is missing it returns, without
  repetition, exactly the blocks that are reached from the given block through parents that
  pass the filter; otherwise it fails with the error for a missing hash or succeeds.
\<close>

theorem ancestors_exact:
  assumes "storage_ok s" "get_representation s = Inr rep"
  shows "\<exists>r. ancestors rep h flt = Some r
    \<and> (case r of
         Inr as \<Rightarrow> distinct as \<and> set as = {a. (h, a) \<in> {(x, p) \<in> parent_rel (metas s). flt p}\<^sup>+}
       | Inl e \<Rightarrow> e = Err missing_hash \<and> \<not> (parents_known (metas s) \<and> metas s h \<noteq> None))"
  using assms by (rule ancestors_walk)

subsection \<open>The main chain\<close>

text \<open>Along main parents the block number falls; validation demands it of every block.\<close>

definition heights_descend :: "metas \<Rightarrow> bool" where
  "heights_descend f \<longleftrightarrow> (\<forall>x p. main_parent_of f x = Some p \<longrightarrow>
     (\<exists>n k. number_of f x = Some n \<and> number_of f p = Some k \<and> k < n))"

lemma heights_descendD:
  assumes "heights_descend f" "main_parent_of f x = Some p"
  obtains n k where "number_of f x = Some n" "number_of f p = Some k" "k < n"
  using assms unfolding heights_descend_def by blast

lemma main_rel_number:
  assumes "heights_descend f" "(x, y) \<in> (main_rel f)\<^sup>+" "number_of f x = Some n" "number_of f y = Some k"
  shows "k < n"
  using assms(2,4)
proof (induction arbitrary: k)
  case (base y)
  then show ?case using assms(1,3) by (fastforce simp: heights_descend_def main_rel_def)
next
  case (step y z)
  from step.hyps(2) have "main_parent_of f y = Some z" by (simp add: main_rel_def)
  from heights_descendD [OF assms(1) this] obtain i j where
    "number_of f y = Some i" "number_of f z = Some j" "j < i" .
  with step show ?case by fastforce
qed

lemma main_chain_loop_exact:
  assumes rep: "hm_get (rep_block_number_map rep) = number_of f" "hm_get (rep_main_parent_map rep) = main_parent_of f"
    and desc: "heights_descend f" and a: "number_of f a = Some stop" and "number_of f cur = Some n"
  shows "main_chain_loop rep a stop cur = Some (Inr ((cur, a) \<in> (main_rel f)\<^sup>*))"
  using assms(5)
proof (induction "nat (n - stop)" arbitrary: cur n rule: less_induct)
  case less
  have bn: "block_number_unsafe rep cur = Inr n"
    using less.prems rep(1) by (simp add: block_number_unsafe_def block_number_def)
  have mp: "main_parent rep cur = main_parent_of f cur" by (simp add: main_parent_def rep(2))
  show ?case
  proof (cases "n \<le> stop")
    case True
    then have "(cur, a) \<in> (main_rel f)\<^sup>* \<longleftrightarrow> cur = a"
      using main_rel_number [OF desc _ less.prems a] by (auto dest: rtranclD)
    then show ?thesis using True by (simp add: main_chain_loop.simps bn)
  next
    case False
    then have ne: "cur \<noteq> a" using less.prems a by auto
    show ?thesis
    proof (cases "main_parent_of f cur")
      case None
      then have "(cur, a) \<notin> (main_rel f)\<^sup>*"
        using ne by (auto simp: main_rel_def elim: converse_rtranclE)
      then show ?thesis using False None by (simp add: main_chain_loop.simps bn mp)
    next
      case (Some p)
      then obtain k where k: "number_of f p = Some k" "k < n"
        using heights_descendD [OF desc Some] less.prems by (metis option.inject)
      have "(cur, a) \<in> (main_rel f)\<^sup>* \<longleftrightarrow> (p, a) \<in> (main_rel f)\<^sup>*"
        using ne Some by (auto simp: main_rel_def intro: converse_rtrancl_into_rtrancl elim: converse_rtranclE)
      with less.hyps [OF _ k(1)] k False show ?thesis
        by (simp add: main_chain_loop.simps [of rep a stop cur] bn mp Some)
    qed
  qed
qed

text \<open>
  On a DAG in which the number falls along main parents, \<open>is_in_main_chain\<close> ends for
  every two known blocks and says whether the first is reached from the second by
  following main parents.
\<close>

theorem is_in_main_chain_exact:
  assumes "storage_ok s" "get_representation s = Inr rep" "heights_descend (metas s)"
    and "metas s ancestor \<noteq> None" "metas s descendant \<noteq> None"
  shows "is_in_main_chain rep ancestor descendant =
    Some (Inr ((descendant, ancestor) \<in> (main_rel (metas s))\<^sup>*))"
proof -
  have maps: "hm_get (rep_block_number_map rep) = number_of (metas s)"
    "hm_get (rep_main_parent_map rep) = main_parent_of (metas s)"
    using representation_ok [of s] assms(1,2) by (auto simp: storage_ok_def store_ok_def dag_index_def)
  obtain n k where n: "number_of (metas s) ancestor = Some n" "number_of (metas s) descendant = Some k"
    using assms(4,5) by (auto simp: number_of_def)
  have "block_number_unsafe rep ancestor = Inr n"
    using n(1) maps(1) by (simp add: block_number_unsafe_def block_number_def)
  with main_chain_loop_exact [OF maps assms(3) n] show ?thesis
    by (simp add: is_in_main_chain_def)
qed

subsection \<open>Finalization\<close>

text \<open>With a finalized block its parents are finalized.\<close>

definition finality_closed :: "metas \<Rightarrow> bool" where
  "finality_closed f \<longleftrightarrow> (\<forall>x p. finalized_in f x \<longrightarrow> p \<in> set (parents_of f x) \<longrightarrow> finalized_in f p)"

definition finality_inv :: "dag_storage \<Rightarrow> bool" where
  "finality_inv s \<longleftrightarrow> storage_ok s \<and> parents_known (metas s) \<and> finality_closed (metas s)"

lemma is_finalized_rep:
  assumes "store_ok (block_metadata_index s)" "get_representation s = Inr rep"
  shows "is_finalized rep h \<longleftrightarrow> finalized_in (metas s) h"
  using representation_ok [OF assms(1)] assms
  by (auto simp: is_finalized_def mds_get_def store_ok_def dag_index_def finalized_in_def)

text \<open>The blocks that finalizing \<open>h\<close> finalizes with it.\<close>

definition open_ancestors :: "metas \<Rightarrow> hash \<Rightarrow> hash set" where
  "open_ancestors f h = {a. (h, a) \<in> {(x, p) \<in> parent_rel f. \<not> finalized_in f p}\<^sup>+}"

lemma pending_effect_exact:
  assumes "finality_inv s" "metas s h \<noteq> None" "length h = BLOCK_HASH_LENGTH"
  shows "\<exists>pending. pending_effect s h applied = Some (Inr pending)
    \<and> set pending = insert h (open_ancestors (metas s) h) - set applied"
proof -
  have ok: "storage_ok s" "store_ok (block_metadata_index s)"
    using assms(1) by (simp_all add: finality_inv_def storage_ok_def)
  obtain rep where rep: "get_representation s = Inr rep"
    using representation_ok [OF ok(2)] by blast
  have "rep_contains rep h"
    using representation_ok [OF ok(2)] rep ok(2) assms(2,3)
    by (auto simp: rep_contains_def store_ok_def dag_index_def)
  moreover obtain r where "ancestors rep h (\<lambda>h. \<not> is_finalized rep h) = Some (Inr r)"
    "set r = open_ancestors (metas s) h"
  proof -
    obtain r where r: "ancestors rep h (\<lambda>h. \<not> is_finalized rep h) = Some r" "case r of
         Inr as \<Rightarrow> distinct as \<and> set as = {a. (h, a) \<in> {(x, p) \<in> parent_rel (metas s). \<not> is_finalized rep p}\<^sup>+}
       | Inl e \<Rightarrow> e = Err missing_hash \<and> \<not> (parents_known (metas s) \<and> metas s h \<noteq> None)"
      using ancestors_walk [OF ok(1) rep, of h "\<lambda>h. \<not> is_finalized rep h"] by blast
    then show ?thesis
      using that assms(1,2) by (cases r) (auto simp: finality_inv_def open_ancestors_def is_finalized_rep [OF ok(2) rep])
  qed
  ultimately show ?thesis
    by (simp add: pending_effect_def rep)
qed

lemma open_ancestors_known:
  assumes "parents_known f" "f h \<noteq> None" "a \<in> open_ancestors f h"
  shows "a \<in> dom f"
proof -
  have "(h, a) \<in> {(x, p) \<in> parent_rel f. \<not> finalized_in f p}\<^sup>+"
    using assms(3) by (simp add: open_ancestors_def)
  then have "(h, a) \<in> (parent_rel f)\<^sup>+"
    by (rule trancl_mono) auto
  then show ?thesis using assms(1,2) parents_known_reach by blast
qed

lemma open_ancestors_step:
  "x \<in> insert h (open_ancestors f h) \<Longrightarrow> p \<in> set (parents_of f x) \<Longrightarrow> \<not> finalized_in f p \<Longrightarrow>
   p \<in> open_ancestors f h"
  by (auto simp: open_ancestors_def parent_rel_def intro: trancl_into_trancl)

text \<open>While the DAG grows, fewer ancestors are left to finalize.\<close>

lemma open_ancestors_shrink:
  assumes "metas_le f g" "parents_known f" "f h \<noteq> None"
  shows "open_ancestors g h \<subseteq> open_ancestors f h"
proof
  fix a assume "a \<in> open_ancestors g h"
  then have "(h, a) \<in> {(x, p) \<in> parent_rel g. \<not> finalized_in g p}\<^sup>+"
    by (simp add: open_ancestors_def)
  then show "a \<in> open_ancestors f h"
  proof (induction)
    case (base p)
    then show ?case
      using metas_le_at [OF assms(1), of h] metas_le_at(6) [OF assms(1), of p] assms(3) metas_none [of f p]
      by (intro open_ancestors_step [of h]) (auto simp: parent_rel_def)
  next
    case (step x p)
    then have "f x \<noteq> None" using open_ancestors_known [OF assms(2,3)] by blast
    with step show ?case
      using metas_le_at [OF assms(1), of x] metas_le_at(6) [OF assms(1), of p] metas_none [of f p]
      by (intro open_ancestors_step [of x]) (auto simp: parent_rel_def)
  qed
qed

lemma finality_closed_extends:
  assumes le: "metas_le f g" and known: "parents_known f" "parents_known g" and closed: "finality_closed g"
    and h: "f h \<noteq> None" and A: "insert h (set ind) = insert h (open_ancestors f h)"
  shows "finality_closed (finalized_metas g h ind ft)" "parents_known (finalized_metas g h ind ft)"
proof -
  let ?k = "finalized_metas g h ind ft"
  have parents: "parents_of ?k x = parents_of g x" for x
    by (simp add: metas_le_same(1) [OF finalized_metas_le])
  then show "parents_known ?k"
    using known(2) by (simp add: parents_known_def)
  show "finality_closed ?k"
    unfolding finality_closed_def
  proof (intro allI impI)
    fix x p assume x: "finalized_in ?k x" and p: "p \<in> set (parents_of ?k x)"
    show "finalized_in ?k p"
    proof (cases "x \<in> insert h (set ind)")
      case True
      then have "x = h \<or> x \<in> open_ancestors f h" unfolding A by simp
      then have fx: "f x \<noteq> None" using h open_ancestors_known [OF known(1) h, of x] by (auto simp: domIff)
      then have pf: "p \<in> set (parents_of f x)" using p parents metas_le_at(1) [OF le] by simp
      then have "f p \<noteq> None" using known(1) by (auto simp: parents_known_def)
      then have gp: "g p \<noteq> None" using metas_le_dom [OF le] by blast
      show ?thesis
      proof (cases "finalized_in f p")
        case True
        then have "finalized_in g p" using metas_le_at(6) [OF le \<open>f p \<noteq> None\<close>] by blast
        then show ?thesis using gp by (simp add: finalized_in_finalized_metas)
      next
        case False
        then have "p \<in> insert h (set ind)"
          using open_ancestors_step [OF _ pf] True A by blast
        then show ?thesis using gp by (simp add: finalized_in_finalized_metas)
      qed
    next
      case False
      then have "finalized_in g x" using x by (simp add: finalized_in_finalized_metas)
      then have "finalized_in g p" using closed p parents by (auto simp: finality_closed_def)
      moreover from this have "g p \<noteq> None" using metas_none by blast
      ultimately show ?thesis by (simp add: finalized_in_finalized_metas)
    qed
  qed
qed

lemma finalized_ancestors:
  assumes "finality_closed g" "metas_le f g" "parents_known f" "f h \<noteq> None" "finalized_in g h"
    and "(h, a) \<in> (parent_rel f)\<^sup>*"
  shows "finalized_in g a"
  using assms(6)
proof (induction)
  case (step x p)
  then have "f x \<noteq> None"
    using parents_known_reach [OF assms(3), of h x] assms(4) by (auto dest: rtranclD)
  then have "p \<in> set (parents_of g x)"
    using step(2) metas_le_at(1) [OF assms(2)] by (simp add: parent_rel_def)
  with step(3) assms(1) show ?case by (auto simp: finality_closed_def)
qed (rule assms(5))

lemma finalized_in_dom: "finalized_in f h \<Longrightarrow> \<exists>m. f h = Some m"
  by (cases "f h") (simp_all add: finalized_in_def)

text \<open>The last round: everything has had its effect and the metadata are persisted.\<close>

lemma persist_and_propagate:
  assumes inv: "finality_inv s" and known: "insert h (set applied) \<subseteq> dom (metas s)"
    and closed: "finality_closed (finalized_metas (metas s) h (filter (\<lambda>x. x \<noteq> h) applied) ft)"
      "parents_known (finalized_metas (metas s) h (filter (\<lambda>x. x \<noteq> h) applied) ft)"
  shows "\<exists>s'. sbind (persist_effect_applied h ft True applied) (\<lambda>_. propagate_ft_to_finalized_blocks ft) s = (Inr (), s')
    \<and> finality_inv s' \<and> metas_le (metas s) (metas s') \<and> finalized_in (metas s') h"
proof -
  let ?ind = "filter (\<lambda>x. x \<noteq> h) applied" let ?g = "finalized_metas (metas s) h ?ind ft"
  have ok: "store_ok (block_metadata_index s)" using inv by (simp add: finality_inv_def storage_ok_def)
  obtain mds where mds: "record_finalized (block_metadata_index s) h ?ind ft = Inr mds" "store_ok mds"
    "hm_get (mds_store mds) = ?g"
    using record_finalized_ok [OF ok, of h ?ind ft] known by auto
  have "set (finalized_block_set (mds_state mds)) \<subseteq> dom (hm_get (mds_store mds))"
    using mds(2) finalized_in_dom by (auto simp: store_ok_def dag_index_def)
  from update_ft_ok [OF mds(2) this, of ft] obtain mds' where mds':
    "update_ft_if_higher mds (finalized_block_set (mds_state mds)) ft = Inr mds'" "store_ok mds'"
    "metas_le (hm_get (mds_store mds)) (hm_get (mds_store mds'))"
    "dom (hm_get (mds_store mds')) = dom (hm_get (mds_store mds))"
    "finalized_in (hm_get (mds_store mds')) = finalized_in (hm_get (mds_store mds))" by blast
  define s' where "s' = s\<lparr>block_metadata_index := mds'\<rparr>"
  have run: "sbind (persist_effect_applied h ft True applied) (\<lambda>_. propagate_ft_to_finalized_blocks ft) s = (Inr (), s')"
    by (simp add: sbind_def persist_effect_applied_def propagate_ft_to_finalized_blocks_def mds(1) mds'(1) s'_def)
  have dom: "dom (metas s') = dom (metas s)"
    using mds'(4) by (simp add: s'_def mds(3))
  have le: "metas_le (metas s) (metas s')"
    using mds'(3) metas_le_trans [OF finalized_metas_le] by (simp add: s'_def mds(3))
  have fin: "finalized_in (metas s') = finalized_in ?g"
    using mds'(5) by (simp add: s'_def mds(3))
  have par: "parents_of (metas s') x = parents_of ?g x" for x
    using metas_le_same(1) [OF mds'(3,4)] by (simp add: s'_def mds(3))
  have "storage_ok s'"
    using inv mds'(2) dom by (simp add: finality_inv_def storage_ok_def s'_def)
  moreover have "finality_closed (metas s')"
    using closed(1) by (simp add: finality_closed_def fin par)
  moreover have "parents_known (metas s')"
    using closed(2) by (simp add: parents_known_def par dom)
  moreover have "finalized_in (metas s') h"
    using known by (auto simp: fin finalized_in_finalized_metas)
  ultimately show ?thesis using run le by (auto simp: finality_inv_def)
qed

text \<open>What the callback and the other threads may do to the storage in a round: let it grow.\<close>

definition growing_effect :: "(nat \<Rightarrow> hash list \<Rightarrow> (dag_storage, kv_store_error, unit) sm) \<Rightarrow> bool" where
  "growing_effect effect \<longleftrightarrow> (\<forall>k hs t. finality_inv t \<longrightarrow>
     (\<exists>t'. effect k hs t = (Inr (), t') \<and> finality_inv t' \<and> metas_le (metas t) (metas t')))"

text \<open>
  C5. Recording a known block as finalized succeeds after two rounds of the reconcile loop,
  far from its bound of 128, whatever blocks other threads insert or finalize while the
  effect of the first round runs. Afterwards the block and all its ancestors are finalized,
  finality is closed under parents, and the metadata have only grown.
\<close>

theorem finalization_completes:
  assumes "finality_inv s" "metas s h \<noteq> None" "length h = BLOCK_HASH_LENGTH" "growing_effect effect"
  shows "\<exists>s'. record_directly_finalized effect h ft s = Some (Inr (), s') \<and> finality_inv s'
    \<and> metas_le (metas s) (metas s')
    \<and> (\<forall>a. (h, a) \<in> (parent_rel (metas s))\<^sup>* \<longrightarrow> finalized_in (metas s') a)"
proof -
  let ?A = "insert h (open_ancestors (metas s) h)"
  have known: "parents_known (metas s)" using assms(1) by (simp add: finality_inv_def)
  obtain pending where p: "pending_effect s h [] = Some (Inr pending)" "set pending = ?A"
    using pending_effect_exact [OF assms(1-3), of "[]"] by auto
  obtain t where t: "effect 128 pending s = (Inr (), t)" "finality_inv t" "metas_le (metas s) (metas t)"
    using assms(1,4) unfolding growing_effect_def by blast
  have th: "metas t h \<noteq> None" using metas_le_dom [OF t(3) assms(2)] .
  define applied where "applied = foldl (\<lambda>a h. set_insert h a) [] pending"
  have applied: "set applied = ?A" by (simp add: applied_def p(2))
  obtain pending' where p': "pending_effect t h applied = Some (Inr pending')"
    "set pending' = insert h (open_ancestors (metas t) h) - set applied"
    using pending_effect_exact [OF t(2) th assms(3)] by blast
  have empty: "pending' = []"
    using p'(2) open_ancestors_shrink [OF t(3) known assms(2)] applied by (metis Diff_eq_empty_iff insert_mono set_empty)
  let ?ind = "filter (\<lambda>x. x \<noteq> h) applied"
  have ind: "insert h (set ?ind) = ?A" using applied by auto
  have "set applied \<subseteq> dom (metas t)"
    using applied assms(2) open_ancestors_known [OF known assms(2)] metas_le_dom [OF t(3)] by (auto simp: domIff)
  then have dom: "insert h (set applied) \<subseteq> dom (metas t)" using th by (simp add: domIff)
  have tk: "parents_known (metas t)" "finality_closed (metas t)" using t(2) by (simp_all add: finality_inv_def)
  obtain s' where s': "sbind (persist_effect_applied h ft True applied) (\<lambda>_. propagate_ft_to_finalized_blocks ft) t = (Inr (), s')"
    "finality_inv s'" "metas_le (metas t) (metas s')" "finalized_in (metas s') h"
    using persist_and_propagate [OF t(2) dom]
      finality_closed_extends [OF t(3) known tk assms(2) ind] by blast
  have "pending \<noteq> []" using p(2) by auto
  then have "record_directly_finalized effect h ft s = Some (Inr (), s')"
    using p(1) t(1) p'(1) empty s'(1)
    by (simp add: record_directly_finalized_def MAX_FINALIZATION_RECONCILE_LOOPS_def numeral_eq_Suc applied_def)
  moreover have le: "metas_le (metas s) (metas s')" using metas_le_trans [OF t(3) s'(3)] .
  moreover have "finality_closed (metas s')" using s'(2) by (simp add: finality_inv_def)
  ultimately show ?thesis
    using s' finalized_ancestors [OF _ le known assms(2) s'(4)] by blast
qed

lemma max_rounds: "MAX_FINALIZATION_RECONCILE_LOOPS = Suc 127"
  by (simp add: MAX_FINALIZATION_RECONCILE_LOOPS_def)

text \<open>An unknown hash is refused and the storage is not touched.\<close>

lemma finalization_unknown:
  assumes "finality_inv s" "metas s h = None \<or> length h \<noteq> BLOCK_HASH_LENGTH"
  shows "record_directly_finalized effect h ft s =
    Some (Inl (Err (InvalidArgument ''Attempting to finalize nonexistent hash'')), s)"
proof -
  have ok: "store_ok (block_metadata_index s)" using assms(1) by (simp add: finality_inv_def storage_ok_def)
  obtain rep where rep: "get_representation s = Inr rep" "rep_dag_set rep = dag_set (mds_state (block_metadata_index s))"
    using representation_ok [OF ok] by blast
  then have "\<not> rep_contains rep h"
    using assms(2) ok by (auto simp: rep_contains_def store_ok_def dag_index_def)
  then show ?thesis
    unfolding record_directly_finalized_def max_rounds finalize_rounds.simps
    by (simp add: pending_effect_def rep(1))
qed

text \<open>
  If the callback of a finalization fails in its first round, its error is returned and
  nothing is recorded: the storage is the one the callback left. The callback was given
  exactly the block and those of its ancestors that were not finalized.
\<close>

theorem finalization_effect_fails:
  assumes "finality_inv s" "metas s h \<noteq> None" "length h = BLOCK_HASH_LENGTH"
    and "\<And>pending. fst (effect MAX_FINALIZATION_RECONCILE_LOOPS pending s) = Inl err"
  shows "\<exists>pending. set pending = insert h (open_ancestors (metas s) h)
    \<and> record_directly_finalized effect h ft s =
        Some (Inl err, snd (effect MAX_FINALIZATION_RECONCILE_LOOPS pending s))"
proof -
  obtain pending where p: "pending_effect s h [] = Some (Inr pending)"
    "set pending = insert h (open_ancestors (metas s) h)"
    using pending_effect_exact [OF assms(1-3), of "[]"] by auto
  obtain t where t: "effect MAX_FINALIZATION_RECONCILE_LOOPS pending s = (Inl err, t)"
    using assms(4) by (metis prod.collapse)
  have "pending \<noteq> []" using p(2) by auto
  then have "record_directly_finalized effect h ft s = Some (Inl err, t)"
    using p(1) t unfolding record_directly_finalized_def max_rounds finalize_rounds.simps
    by (simp add: sbind_def persist_effect_applied_def sfail_def)
  with p(2) t show ?thesis by (metis snd_conv)
qed

text \<open>Inserting a block whose parents are known is a way in which the DAG grows.\<close>

lemma insert_grows:
  assumes "finality_inv s" "metas s (bm_block_hash b) = None" "length (bm_block_hash b) = BLOCK_HASH_LENGTH"
    and "bm_sender b = [] \<or> length (bm_sender b) = VALIDATOR_LENGTH"
    and "heights_ok ((metas s)(bm_block_hash b \<mapsto> from_block b invalid None None))"
    and parents: "set (parents_hash_list (bm_header b)) \<subseteq> dom (metas s)"
    and ins: "insert_internal s b invalid False = Inr (rep, s')" and "storage_ok s'"
  shows "finality_inv s' \<and> metas_le (metas s) (metas s')"
proof -
  let ?h = "bm_block_hash b" let ?m = "from_block b invalid None None"
  have s: "storage_ok s" "parents_known (metas s)" "finality_closed (metas s)"
    using assms(1) by (simp_all add: finality_inv_def)
  have f: "metas s' = (metas s)(?h \<mapsto> ?m)"
    using insert_steps [OF s(1) assms(2-5), of False] ins by auto
  have m: "md_parents ?m = parents_hash_list (bm_header b)" "\<not> md_finalized ?m"
    by (simp_all add: from_block_def)
  have "metas_le (metas s) (metas s')"
    unfolding f metas_le_def using assms(2) by (simp add: opt_meta_le_def split: option.split)
  moreover have "parents_known (metas s')"
    using s(2) parents unfolding f parents_known_def by (auto simp: m)
  moreover have "p \<noteq> ?h" if "p \<in> set (parents_of (metas s) x)" for x p
    using that s(2) assms(2) by (auto simp: parents_known_def)
  then have "finality_closed (metas s')"
    using s(3) m(2) unfolding f finality_closed_def by auto
  ultimately show ?thesis using assms(8) by (simp add: finality_inv_def)
qed

subsection \<open>The bounded cache of finalized blocks\<close>

text \<open>
  The fault tolerance is propagated to the blocks of the in-memory cache alone. The cache
  is cut to its newest 25000 entries when it has grown past 50000, so finalized blocks that were
  evicted keep their old value.
\<close>

lemma prune_length:
  assumes "distinct (finalized_block_set st)" "FINALIZED_BLOCK_CACHE_MAX < length (finalized_block_set st)"
  shows "length (finalized_block_set (prune_finalized_cache_if_needed st)) = FINALIZED_BLOCK_CACHE_RETAIN"
proof -
  let ?fs = "finalized_block_set st" let ?k = "length ?fs - FINALIZED_BLOCK_CACHE_RETAIN"
  have "filter (\<lambda>h. h \<notin> set (take ?k ?fs)) (take ?k ?fs @ drop ?k ?fs) = drop ?k ?fs"
    unfolding filter_append using set_take_disj_set_drop_if_distinct [OF assms(1), of ?k ?k]
    by (auto simp: filter_id_conv)
  then show ?thesis
    using assms(2) by (simp add: prune_finalized_cache_if_needed_def Let_def
        FINALIZED_BLOCK_CACHE_MAX_def FINALIZED_BLOCK_CACHE_RETAIN_def)
qed

lemma evicted_not_propagated:
  assumes "finality_inv s" "x \<notin> set (finalized_block_set (mds_state (block_metadata_index s)))"
  shows "\<exists>s'. propagate_ft_to_finalized_blocks ft s = (Inr (), s') \<and> metas s' x = metas s x"
proof -
  have ok: "store_ok (block_metadata_index s)" using assms(1) by (simp add: finality_inv_def storage_ok_def)
  have "set (finalized_block_set (mds_state (block_metadata_index s))) \<subseteq> dom (metas s)"
    using ok finalized_in_dom by (auto simp: store_ok_def dag_index_def)
  from update_ft_ok [OF ok this, of ft] assms(2) show ?thesis
    by (auto simp: propagate_ft_to_finalized_blocks_def)
qed

subsection \<open>Concrete instances\<close>

text \<open>The storage that holds the genesis block, and a callback that does nothing.\<close>

definition demo_storage1 :: dag_storage where
  "demo_storage1 = demo_storage\<lparr>block_metadata_index :=
     \<lparr>mds_store = [(demo_hash 1, from_block demo_genesis False None None)],
      mds_state = add_block_to_dag_state dag_state_new
        (block_metadata_to_info (demo_hash 1) (from_block demo_genesis False None None))\<rparr>\<rparr>"

definition demo_rep1 :: dag_representation where
  "demo_rep1 = projr (get_representation demo_storage1)"

lemma demo_metas1: "metas demo_storage1 = [demo_hash 1 \<mapsto> from_block demo_genesis False None None]"
  by (simp add: demo_storage1_def fun_upd_def)

lemma demo_parents1: "parents_of (metas demo_storage1) = (\<lambda>_. [])"
  unfolding demo_metas1 by (auto simp: parents_of_def from_block_def demo_genesis_def demo_block_def)

lemma demo_storage1_ok: "storage_ok demo_storage1"
proof -
  let ?m = "from_block demo_genesis False None None"
  have "md_block_hash ?m = demo_hash 1" by (simp add: demo_genesis_def)
  moreover have "dag_index [demo_hash 1 \<mapsto> ?m]
      (add_block_to_dag_state dag_state_new (block_metadata_to_info (demo_hash 1) ?m))"
    by (rule dag_index_add [OF dag_index_new]) simp
  ultimately show ?thesis
    using heights_ok_single [of "demo_hash 1" ?m]
    by (simp add: storage_ok_def store_ok_def hm_ok_def keys_ok_def fun_upd_def demo_storage1_def demo_storage_def ran_def)
qed

lemma demo_rep1: "get_representation demo_storage1 = Inr demo_rep1"
  using representation_ok [of demo_storage1] demo_storage1_ok by (auto simp: storage_ok_def demo_rep1_def)

lemma demo_finality_inv: "finality_inv demo_storage1"
  by (simp add: finality_inv_def demo_storage1_ok parents_known_def finality_closed_def demo_parents1)

theorem descendants_exact_witness:
  "\<exists>r. descendants demo_rep1 (demo_hash 1) = Some (Inr r) \<and> distinct r
    \<and> set r = {d. (d, demo_hash 1) \<in> (parent_rel (metas demo_storage1))\<^sup>+}"
  by (rule descendants_exact [OF demo_storage1_ok demo_rep1])

theorem ancestors_exact_witness:
  "\<exists>r. ancestors demo_rep1 (demo_hash 1) (\<lambda>h. True) = Some r
    \<and> (case r of
         Inr as \<Rightarrow> distinct as \<and> set as = {a. (demo_hash 1, a) \<in> {(x, p) \<in> parent_rel (metas demo_storage1). True}\<^sup>+}
       | Inl e \<Rightarrow> e = Err missing_hash
           \<and> \<not> (parents_known (metas demo_storage1) \<and> metas demo_storage1 (demo_hash 1) \<noteq> None))"
  by (rule ancestors_exact [OF demo_storage1_ok demo_rep1])

theorem is_in_main_chain_exact_witness:
  "is_in_main_chain demo_rep1 (demo_hash 1) (demo_hash 1) =
    Some (Inr ((demo_hash 1, demo_hash 1) \<in> (main_rel (metas demo_storage1))\<^sup>*))"
proof (rule is_in_main_chain_exact [OF demo_storage1_ok demo_rep1])
  show "heights_descend (metas demo_storage1)"
    by (simp add: heights_descend_def main_parent_of_def demo_parents1)
qed (simp_all add: demo_metas1)

theorem finalization_completes_witness:
  "\<exists>s'. record_directly_finalized (\<lambda>k hs t. (Inr (), t)) (demo_hash 1) (1 / 2) demo_storage1 = Some (Inr (), s')
    \<and> finality_inv s' \<and> metas_le (metas demo_storage1) (metas s')
    \<and> (\<forall>a. (demo_hash 1, a) \<in> (parent_rel (metas demo_storage1))\<^sup>* \<longrightarrow> finalized_in (metas s') a)"
  by (rule finalization_completes [OF demo_finality_inv])
    (simp_all add: demo_metas1 demo_hash_def BLOCK_HASH_LENGTH_def growing_effect_def)

theorem finalization_effect_fails_witness:
  "\<exists>pending. set pending = insert (demo_hash 1) (open_ancestors (metas demo_storage1) (demo_hash 1))
    \<and> record_directly_finalized (\<lambda>k hs t. (Inl (Err missing_hash), t)) (demo_hash 1) 1 demo_storage1 =
        Some (Inl (Err missing_hash), snd ((\<lambda>k hs t. (Inl (Err missing_hash) :: (kv_store_error, unit) res, t))
          MAX_FINALIZATION_RECONCILE_LOOPS pending demo_storage1))"
  by (rule finalization_effect_fails [OF demo_finality_inv])
    (simp_all add: demo_metas1 demo_hash_def BLOCK_HASH_LENGTH_def)

end
