(* ===== verification/ConflictSetMerger.thy ===== *)
theory ConflictSetMerger
  imports SortBy MergingRejection RholangMergingLogic
begin

section \<open>Resolution of conflicts between branches\<close>

text \<open>
  casper/src/rust/merging/conflict_set_merger.rs. \<open>'r\<close> is the unit of rejection, \<open>c\<close> its \<open>Ord\<close>; a
  branch is a set of units, an option a set of branches to reject. A \<open>HashableSet\<close> is the list of
  its elements in iteration order, and two branches, or two options, are equal when they have the
  same elements: \<open>set\<close> is the key of a branch, \<open>option_set\<close> that of an option, \<open>key\<close> what the units'
  \<open>Eq\<close> looks at. Sums of costs wrap
  at 64 bits. The diagnostic counters and timings of \<open>ResolvedConflicts\<close> are left out.
\<close>

type_synonym u64 = "64 word"
type_synonym 'r branch = "'r hset"

definition compare_branches :: "('r \<Rightarrow> 'r \<Rightarrow> ordering) \<Rightarrow> 'r branch \<Rightarrow> 'r branch \<Rightarrow> ordering" where
  "compare_branches c a b =
     (let a_sorted = sort_by c a; b_sorted = sort_by c b
      in then_with (cmp (length a_sorted) (length b_sorted)) (zip_cmp c a_sorted b_sorted))"

record 'r resolved_conflicts =
  to_merge :: "'r branch list"
  rejected :: "'r hset"

definition option_set :: "'r branch hset \<Rightarrow> 'r set set" where
  "option_set opt = set (map set opt)"

text \<open>The comparison of branches as sets that the filters use.\<close>

definition same_branch :: "'r branch \<Rightarrow> 'r branch \<Rightarrow> bool" where
  "same_branch branch reject_branch \<longleftrightarrow>
     length branch = length reject_branch \<and> list_all (\<lambda>item. item \<in> set reject_branch) branch"

definition listed :: "'r branch hset \<Rightarrow> 'r branch \<Rightarrow> bool" where
  "listed bs branch = list_ex (same_branch branch) bs"

subsection \<open>The optimal rejection\<close>

definition option_heads :: "('r \<Rightarrow> 'r \<Rightarrow> ordering) \<Rightarrow> 'r branch hset \<Rightarrow> 'r hset" where
  "option_heads c opt = hset_collect (\<lambda>x. x) (List.map_filter (iter_min c) opt)"

definition option_cost :: "('r branch \<Rightarrow> u64) \<Rightarrow> 'r branch hset \<Rightarrow> u64" where
  "option_cost target_f opt = sum_list (map target_f opt)"

definition option_size :: "'r branch hset \<Rightarrow> nat" where
  "option_size opt = sum_list (map length opt)"

text \<open>The smallest unit of the first branch.\<close>

definition option_first :: "('r \<Rightarrow> 'r \<Rightarrow> ordering) \<Rightarrow> 'r branch hset \<Rightarrow> 'r option" where
  "option_first c opt = (case sort_by (compare_branches c) opt of [] \<Rightarrow> None | branch # _ \<Rightarrow> iter_min c branch)"

definition cmp_first :: "('r \<Rightarrow> 'r \<Rightarrow> ordering) \<Rightarrow> 'r option \<Rightarrow> 'r option \<Rightarrow> ordering" where
  "cmp_first c a_first b_first =
     (case (a_first, b_first) of
        (Some a_item, Some b_item) \<Rightarrow> c a_item b_item
      | (Some _, None) \<Rightarrow> Greater
      | (None, Some _) \<Rightarrow> Less
      | (None, None) \<Rightarrow> Equal)"

definition compare_options ::
  "('r \<Rightarrow> 'r \<Rightarrow> ordering) \<Rightarrow> ('r branch \<Rightarrow> u64) \<Rightarrow> 'r branch hset \<Rightarrow> 'r branch hset \<Rightarrow> ordering" where
  "compare_options c target_f a b =
     then_with (cmp (option_cost target_f a) (option_cost target_f b))
       (then_with (cmp (option_size a) (option_size b)) (cmp_first c (option_first c a) (option_first c b)))"

definition get_optimal_rejection ::
  "('r \<Rightarrow> 'r \<Rightarrow> ordering) \<Rightarrow> 'r branch hset hset \<Rightarrow> ('r branch \<Rightarrow> u64) \<Rightarrow> ('e, 'r branch hset) res" where
  "get_optimal_rejection c options target_f =
     (if length (map (option_heads c) options) \<noteq> length options
      then Inl (Panic ''Same rejection unit is found in two rejection options. Please report this to code maintainer.'')
      else Inr (case sort_by (compare_options c target_f) options of opt # _ \<Rightarrow> opt | [] \<Rightarrow> []))"

subsection \<open>Number channels\<close>

definition checked_add :: "i64 \<Rightarrow> i64 \<Rightarrow> i64 option" where
  "checked_add a b = (if sint (a + b) = sint a + sint b then Some (a + b) else None)"

text \<open>The combined differences of a branch; the merge type of a channel is the first one.\<close>

definition add_channel_diff :: "number_channels \<Rightarrow> bytes \<times> i64 \<times> merge_type \<Rightarrow> number_channels" where
  "add_channel_diff acc entry =
     (case entry of (k, incoming_diff, incoming_mt) \<Rightarrow>
        (case hm_get acc k of
           Some (existing, mt) \<Rightarrow> hm_put k (combine_mergeable_value existing incoming_diff incoming_mt, mt) acc
         | None \<Rightarrow> hm_put k (incoming_diff, incoming_mt) acc))"

definition branch_diff :: "('r \<Rightarrow> number_channels) \<Rightarrow> 'r branch \<Rightarrow> number_channels" where
  "branch_diff mergeable_channels branch =
     foldl (\<lambda>acc x. foldl add_channel_diff acc x) [] (map mergeable_channels branch)"

definition add_to_balance ::
  "(bytes, i64) hmap option \<Rightarrow> bytes \<times> i64 \<times> merge_type \<Rightarrow> (bytes, i64) hmap option" where
  "add_to_balance ba_opt entry =
     (case entry of (channel, diff_val, mt) \<Rightarrow>
        Option.bind ba_opt (\<lambda>ba.
          let current = (case hm_get ba channel of Some v \<Rightarrow> v | None \<Rightarrow> 0)
          in case mt of
               IntegerAdd \<Rightarrow>
                 (case checked_add current diff_val of
                    Some result \<Rightarrow> if 0 \<le> sint result then Some (hm_put channel result ba) else None
                  | None \<Rightarrow> None)
             | BitmaskOr \<Rightarrow> Some (hm_put channel (current OR diff_val) ba)))"

definition cal_merged_result ::
  "'r branch \<Rightarrow> (bytes, i64) hmap \<Rightarrow> ('r \<Rightarrow> number_channels) \<Rightarrow> (bytes, i64) hmap option" where
  "cal_merged_result branch origin_result mergeable_channels =
     foldl add_to_balance (Some origin_result) (sort_key fst (branch_diff mergeable_channels branch))"

definition fold_rejection ::
  "('r \<Rightarrow> 'r \<Rightarrow> ordering) \<Rightarrow> (bytes, i64) hmap \<Rightarrow> 'r branch hset \<Rightarrow> ('r \<Rightarrow> number_channels) \<Rightarrow> 'r branch hset" where
  "fold_rejection c base_balance branches mergeable_channels =
     snd (foldl (\<lambda>(balances, rejected) branch.
       case cal_merged_result branch balances mergeable_channels of
         Some new_balances \<Rightarrow> (new_balances, rejected)
       | None \<Rightarrow> (balances, hset_insert set branch rejected))
       (base_balance, []) (sort_by (compare_branches c) branches))"

definition get_merged_result_rejection ::
  "('r \<Rightarrow> 'r \<Rightarrow> ordering) \<Rightarrow> 'r branch hset \<Rightarrow> 'r branch hset hset \<Rightarrow> (bytes, i64) hmap \<Rightarrow> ('r \<Rightarrow> number_channels) \<Rightarrow>
   'r branch hset hset" where
  "get_merged_result_rejection c branches reject_options base mergeable_channels =
     (if reject_options = [] then [fold_rejection c base branches mergeable_channels]
      else hset_collect option_set (map (\<lambda>normal_reject_options.
             let diff = filter (\<lambda>branch. \<not> listed normal_reject_options branch) branches;
                 rejected = fold_rejection c base diff mergeable_channels
             in foldl (\<lambda>result reject. hset_insert set reject result) normal_reject_options rejected) reject_options))"

subsection \<open>Resolution\<close>

definition all_channel_keys :: "('r \<Rightarrow> number_channels) \<Rightarrow> 'r branch hset \<Rightarrow> bytes list" where
  "all_channel_keys mergeable_channels branches =
     sort (hset_collect (\<lambda>h. h) (concat (map (\<lambda>item. hm_keys (mergeable_channels item)) (concat branches))))"

definition base_mergeable ::
  "(bytes \<Rightarrow> (history_error, i64 option) res) \<Rightarrow> bytes list \<Rightarrow> (history_error, (bytes, i64) hmap) res" where
  "base_mergeable read_number keys =
     fold_res (\<lambda>m h. rbind (read_number h) (\<lambda>v. Inr (hm_put h (case v of Some n \<Rightarrow> n | None \<Rightarrow> 0) m))) [] keys"

definition resolve_conflicts ::
  "('r \<Rightarrow> 'r \<Rightarrow> ordering) \<Rightarrow> ('r \<Rightarrow> 'k) \<Rightarrow> 'r list \<Rightarrow> 'r list \<Rightarrow> ('r \<Rightarrow> 'r \<Rightarrow> bool) \<Rightarrow> ('r \<Rightarrow> u64) \<Rightarrow> ('r \<Rightarrow> number_channels) \<Rightarrow>
   (bytes \<Rightarrow> (history_error, 'x list_par_with_random datum list) res) \<Rightarrow>
   ('r hset \<Rightarrow> (history_error, 'r branch hset) res) \<Rightarrow>
   ('r branch hset \<Rightarrow> (history_error, 'r branch relation_map) res) \<Rightarrow>
   (history_error, 'r resolved_conflicts) res" where
  "resolve_conflicts c key actual_seq late_seq depends_fn cost mergeable_channels get_data_fn compute_branches compute_conflict_map =
     (let actual_set = hset_collect key actual_seq;
          late_set = hset_collect key late_seq;
          (rejected_as_dependents, merge_set) =
            partition (\<lambda>item. list_ex (\<lambda>late_item. depends_fn item late_item) late_set) actual_set
      in rbind (compute_branches merge_set) (\<lambda>branches.
         rbind (compute_conflict_map branches) (\<lambda>conflict_map.
         let rejection_options = compute_rejection_options conflict_map
         in rbind (base_mergeable (convert_to_read_number get_data_fn) (all_channel_keys mergeable_channels branches)) (\<lambda>base.
         let rejection_options_with_overflow =
               get_merged_result_rejection c branches rejection_options base mergeable_channels
         in rbind (get_optimal_rejection c rejection_options_with_overflow (\<lambda>branch. sum_list (map cost branch))) (\<lambda>optimal_rejection.
            Inr \<lparr>to_merge = filter (\<lambda>branch. \<not> listed optimal_rejection branch) branches,
                 rejected = hset_collect key (late_set @ rejected_as_dependents @ concat optimal_rejection)\<rparr>)))))"

subsection \<open>The merged state\<close>

definition to_merge_items :: "('r \<Rightarrow> 'r \<Rightarrow> ordering) \<Rightarrow> 'r resolved_conflicts \<Rightarrow> 'r list" where
  "to_merge_items c resolved = concat (map (sort_by c) (sort_by (compare_branches c) (to_merge resolved)))"

definition combine_all_changes :: "('r \<Rightarrow> (history_error, state_change) res) \<Rightarrow> 'r list \<Rightarrow> (history_error, state_change) res" where
  "combine_all_changes state_changes items =
     fold_res (\<lambda>combined item. rbind (state_changes item) (\<lambda>ch. Inr (state_change_combine combined ch))) state_change_empty items"

definition combine_all_channels :: "('r \<Rightarrow> number_channels) \<Rightarrow> 'r list \<Rightarrow> (history_error, number_channels) res" where
  "combine_all_channels mergeable_channels items =
     fold_res (\<lambda>acc item. combine_channels (mergeable_channels item) acc) [] items"

definition compute_merged_state ::
  "('r \<Rightarrow> 'r \<Rightarrow> ordering) \<Rightarrow> 'r resolved_conflicts \<Rightarrow> ('r \<Rightarrow> (history_error, state_change) res) \<Rightarrow> ('r \<Rightarrow> number_channels) \<Rightarrow>
   (state_change \<Rightarrow> number_channels \<Rightarrow> (history_error, 'act list) res) \<Rightarrow> ('act list \<Rightarrow> (history_error, 's) res) \<Rightarrow>
   (history_error, 's) res" where
  "compute_merged_state c resolved state_changes mergeable_channels compute_trie_actions_fn apply_trie_actions =
     (let items = to_merge_items c resolved
      in rbind (combine_all_changes state_changes items) (\<lambda>all_changes.
         rbind (combine_all_channels mergeable_channels items) (\<lambda>all_mergeable_channels.
         rbind (compute_trie_actions_fn all_changes all_mergeable_channels) apply_trie_actions)))"

definition conflict_set_merge ::
  "('r \<Rightarrow> 'r \<Rightarrow> ordering) \<Rightarrow> ('r \<Rightarrow> 'k) \<Rightarrow> 'r list \<Rightarrow> 'r list \<Rightarrow> ('r \<Rightarrow> 'r \<Rightarrow> bool) \<Rightarrow> ('r \<Rightarrow> u64) \<Rightarrow>
   ('r \<Rightarrow> (history_error, state_change) res) \<Rightarrow> ('r \<Rightarrow> number_channels) \<Rightarrow>
   (state_change \<Rightarrow> number_channels \<Rightarrow> (history_error, 'act list) res) \<Rightarrow> ('act list \<Rightarrow> (history_error, 's) res) \<Rightarrow>
   (bytes \<Rightarrow> (history_error, 'x list_par_with_random datum list) res) \<Rightarrow>
   ('r hset \<Rightarrow> (history_error, 'r branch hset) res) \<Rightarrow>
   ('r branch hset \<Rightarrow> (history_error, 'r branch relation_map) res) \<Rightarrow>
   (history_error, 's \<times> 'r hset) res" where
  "conflict_set_merge c key actual_seq late_seq depends_fn cost state_changes mergeable_channels compute_trie_actions_fn
      apply_trie_actions get_data_fn compute_branches compute_conflict_map =
     rbind (resolve_conflicts c key actual_seq late_seq depends_fn cost mergeable_channels get_data_fn compute_branches compute_conflict_map)
       (\<lambda>resolved.
     rbind (compute_merged_state c resolved state_changes mergeable_channels compute_trie_actions_fn apply_trie_actions)
       (\<lambda>new_state. Inr (new_state, rejected resolved)))"

end
