(* ===== verification/DeployChain.thy ===== *)
theory DeployChain
  imports ConflictSetMerger EventConverter
begin

section \<open>Deploy chains\<close>

text \<open>
  The units that the merge of a DAG accepts or rejects: casper/src/rust/merging/deploy_index.rs,
  deploy_chain_index.rs, block_index.rs and rejected_slash.rs, and the ids of system deploys
  of casper/src/rust/system_deploy.rs. A deploy chain is a set of deploys of one block
  that depend on each other; chains are equal when their deploys are. The sums of costs
  wrap at 64 bits as in a release build.
\<close>

subsection \<open>System deploy ids\<close>

definition SLASH_MARKER :: byte where "SLASH_MARKER = 1"
definition CLOSE_BLOCK_MARKER :: byte where "CLOSE_BLOCK_MARKER = 2"
definition HEARTBEAT_MARKER :: byte where "HEARTBEAT_MARKER = 3"
definition SYSTEM_DEPLOY_ID_LEN :: nat where "SYSTEM_DEPLOY_ID_LEN = 33"

definition is_system_deploy_id :: "bytes \<Rightarrow> bool" where
  "is_system_deploy_id i \<longleftrightarrow> length i = SYSTEM_DEPLOY_ID_LEN
     \<and> (i ! 32 = SLASH_MARKER \<or> i ! 32 = CLOSE_BLOCK_MARKER \<or> i ! 32 = HEARTBEAT_MARKER)"

definition is_slash_deploy_id :: "bytes \<Rightarrow> bool" where
  "is_slash_deploy_id i \<longleftrightarrow> length i = SYSTEM_DEPLOY_ID_LEN \<and> i ! 32 = SLASH_MARKER"

subsection \<open>Deploy indexes\<close>

record deploy_index =
  di_deploy_id :: bytes
  di_cost :: u64
  di_event_log_index :: event_log_index

definition SYS_SLASH_DEPLOY_ID :: bytes where "SYS_SLASH_DEPLOY_ID = [1]"
definition SYS_CLOSE_BLOCK_DEPLOY_ID :: bytes where "SYS_CLOSE_BLOCK_DEPLOY_ID = [2]"
definition SYS_EMPTY_DEPLOY_ID :: bytes where "SYS_EMPTY_DEPLOY_ID = [3]"

text \<open>The derived \<open>PartialOrd\<close>: the fields in their order.\<close>

definition deploy_index_gt :: "deploy_index \<Rightarrow> deploy_index \<Rightarrow> bool" where
  "deploy_index_gt a b \<longleftrightarrow>
     then_with (cmp (di_deploy_id a) (di_deploy_id b))
       (then_with (cmp (di_cost a) (di_cost b)) (index_cmp (di_event_log_index a) (di_event_log_index b))) = Greater"

subsection \<open>Deploy chain indexes\<close>

record deploy_id_with_cost =
  dc_deploy_id :: bytes
  dc_cost :: u64

record deploy_chain_index =
  deploys_with_cost :: "deploy_id_with_cost hset"
  dci_post_state_hash :: bytes
  dci_event_log_index :: event_log_index
  dci_state_changes :: state_change
  source_block_hash :: bytes
  source_block_number :: int

definition chain_key :: "deploy_chain_index \<Rightarrow> deploy_id_with_cost set" where
  "chain_key c = set (deploys_with_cost c)"

definition chain_cost :: "deploy_chain_index \<Rightarrow> u64" where
  "chain_cost c = sum_list (map dc_cost (deploys_with_cost c))"

definition chain_max_cost :: "deploy_chain_index \<Rightarrow> u64" where
  "chain_max_cost c = foldl max 0 (map dc_cost (deploys_with_cost c))"

definition chain_min_deploy :: "deploy_chain_index \<Rightarrow> bytes option" where
  "chain_min_deploy c =
     map_option dc_deploy_id (iter_min (\<lambda>a b. cmp (dc_deploy_id a) (dc_deploy_id b)) (deploys_with_cost c))"

text \<open>\<open>Ord::cmp\<close>: the chain that pays more comes first.\<close>

definition chain_cmp :: "deploy_chain_index \<Rightarrow> deploy_chain_index \<Rightarrow> ordering" where
  "chain_cmp a b =
     then_with (reverse_ord (cmp (chain_cost a) (chain_cost b)))
    (then_with (reverse_ord (cmp (chain_max_cost a) (chain_max_cost b)))
    (then_with (cmp_first cmp (chain_min_deploy a) (chain_min_deploy b))
       (cmp (dci_post_state_hash a) (dci_post_state_hash b))))"

definition deploy_chain_new ::
  "('c, 'p, 'a, 'k) repo_env \<Rightarrow> history_repository \<Rightarrow> rspace_store \<Rightarrow> deploy_index hset \<Rightarrow> bytes \<Rightarrow> bytes \<Rightarrow>
   bytes \<Rightarrow> int \<Rightarrow> (history_error, deploy_chain_index) res" where
  "deploy_chain_new env hrepo sts ds pre_hash post_hash block_hash block_number =
     rbind (fold_res (\<lambda>acc d. index_combine acc (di_event_log_index d)) empty_index ds) (\<lambda>log.
     rbind (get_history_reader env pre_hash hrepo sts) (\<lambda>pre_reader.
     rbind (get_history_reader env post_hash hrepo sts) (\<lambda>post_reader.
     rbind (state_change_new env (history_kv sts) pre_reader post_reader log) (\<lambda>changes.
       Inr \<lparr>deploys_with_cost =
              hset_collect (\<lambda>d. d) (map (\<lambda>d. \<lparr>dc_deploy_id = di_deploy_id d, dc_cost = di_cost d\<rparr>) ds),
            dci_post_state_hash = post_hash, dci_event_log_index = log, dci_state_changes = changes,
            source_block_hash = block_hash, source_block_number = block_number\<rparr>))))"

subsection \<open>The index of a block\<close>

datatype casper_error =
    CasperRuntimeError string
  | CasperHistoryError history_error
  | CasperKvStoreError kv_store_error

text \<open>
  \<open>create_event_log_index\<close>. A failed read of the pre-state counts as \<open>false\<close>, a panic of the reader
  ends the call: the code reads the data and the joins of each produce in turn.
\<close>

definition pre_state_reads ::
  "('c, 'p, 'a, 'k) repo_env \<Rightarrow> in_mem_store \<Rightarrow> rspace_history_reader \<Rightarrow> event list \<Rightarrow> (history_error, unit) res list" where
  "pre_state_reads env st rd events =
     concat (map (\<lambda>e. case e of
         IoEvent (ProduceEvent p) \<Rightarrow>
           [rbind (get_data_proj env st rd (channel_hash p)) (\<lambda>_. Inr ()),
            rbind (get_joins_proj env st rd (channel_hash p)) (\<lambda>_. Inr ())]
       | _ \<Rightarrow> []) events)"

definition create_event_log_index ::
  "('c, 'p, 'a, 'k) repo_env \<Rightarrow> history_repository \<Rightarrow> rspace_store \<Rightarrow> casper_event list \<Rightarrow> bytes \<Rightarrow>
   number_channels \<Rightarrow> (casper_error, event_log_index) res" where
  "create_event_log_index env hrepo sts events pre_hash mergeable_chs =
     rbind (unwrap ''called unwrap on an Err value'' (get_history_reader env pre_hash hrepo sts)) (\<lambda>rd.
     let st = history_kv sts;
         log = map to_rspace_event events;
         produce_exists_in_pre_state = (\<lambda>p. case get_data_proj env st rd (channel_hash p) of
           Inr ds \<Rightarrow> list_ex (\<lambda>d. produce_eq (d_source d) p) ds | Inl _ \<Rightarrow> False);
         produce_touches_pre_state_join = (\<lambda>p. case get_joins_proj env st rd (channel_hash p) of
           Inr js \<Rightarrow> list_ex (\<lambda>j. length j > 1) js | Inl _ \<Rightarrow> False)
     in case first_panic (pre_state_reads env st rd log) of
          Some m \<Rightarrow> Inl (Panic m)
        | None \<Rightarrow> Inr (index_new log produce_exists_in_pre_state produce_touches_pre_state_join mergeable_chs))"

fun system_deploy_sig :: "bytes \<Rightarrow> system_deploy_data \<Rightarrow> bytes" where
  "system_deploy_sig block_hash (Slash _ _) = block_hash @ SYS_SLASH_DEPLOY_ID"
| "system_deploy_sig block_hash CloseBlockSystemDeployData = block_hash @ SYS_CLOSE_BLOCK_DEPLOY_ID"
| "system_deploy_sig block_hash EmptySystemDeploy = block_hash @ SYS_EMPTY_DEPLOY_ID"

definition deploy_index_of ::
  "('c, 'p, 'a, 'k) repo_env \<Rightarrow> history_repository \<Rightarrow> rspace_store \<Rightarrow> bytes \<Rightarrow> bytes \<Rightarrow> u64 \<Rightarrow> casper_event list \<Rightarrow>
   number_channels \<Rightarrow> (casper_error, deploy_index) res" where
  "deploy_index_of env hrepo sts pre_hash sig cost events merge_chs =
     rbind (create_event_log_index env hrepo sts events pre_hash merge_chs) (\<lambda>log.
       Inr \<lparr>di_deploy_id = sig, di_cost = cost, di_event_log_index = log\<rparr>)"

record block_index =
  bx_block_hash :: bytes
  deploy_chains :: "deploy_chain_index list"

text \<open>
  The indexes of a block differ in their ids, so the equality of the collected set is that of
  the records.
\<close>

definition block_index_new ::
  "('c, 'p, 'a, 'k) repo_env \<Rightarrow> history_repository \<Rightarrow> rspace_store \<Rightarrow> bytes \<Rightarrow> int \<Rightarrow> processed_deploy list \<Rightarrow>
   processed_system_deploy list \<Rightarrow> bytes \<Rightarrow> bytes \<Rightarrow> number_channels list \<Rightarrow> (casper_error, block_index) res" where
  "block_index_new env hrepo sts block_hash block_number usr_processed_deploys sys_processed_deploys
      pre_hash post_hash mergeable_chs =
     (let usr_count = length usr_processed_deploys;
          deploy_count = usr_count + length sys_processed_deploys
      in if length mergeable_chs \<noteq> deploy_count
         then Inl (Err (CasperRuntimeError ''Mergeable channel count mismatch''))
         else
           let usr_deploys_with_mergeable = zip usr_processed_deploys (take usr_count mergeable_chs);
               sys_deploys_with_mergeable = zip sys_processed_deploys (drop usr_count mergeable_chs)
           in rbind (sequence_res (map (\<lambda>(d, merge_chs).
                  deploy_index_of env hrepo sts pre_hash (sd_sig (pd_deploy d)) (word_of_int (pd_cost d))
                    (deploy_log d) merge_chs)
                (filter (\<lambda>(d, _). \<not> is_failed d) usr_deploys_with_mergeable))) (\<lambda>usr_deploy_indices.
              rbind (sequence_res (concat (map (\<lambda>(d, merge_chs). case d of
                    Succeeded events sys \<Rightarrow>
                      [deploy_index_of env hrepo sts pre_hash (system_deploy_sig block_hash sys) 0 events merge_chs]
                  | Failed _ _ \<Rightarrow> []) sys_deploys_with_mergeable))) (\<lambda>sys_deploy_indices.
              let chains = compute_related_sets deploy_index_gt
                    (hset_collect (\<lambda>d. d) (usr_deploy_indices @ sys_deploy_indices))
                    (\<lambda>l r. depends (di_event_log_index l) (di_event_log_index r))
              in rbind (sequence_res (map (\<lambda>chain. map_err CasperHistoryError
                     (deploy_chain_new env hrepo sts chain pre_hash post_hash block_hash block_number)) chains))
                   (\<lambda>deploy_chain_indices.
                     Inr \<lparr>bx_block_hash = block_hash, deploy_chains = deploy_chain_indices\<rparr>))))"

subsection \<open>Rejected slashes\<close>

record rejected_slash =
  rs_invalid_block_hash :: bytes
  rs_issuer_public_key :: bytes
  rs_source_block_hash :: bytes

definition filter_recoverable :: "rejected_slash list \<Rightarrow> bytes list \<Rightarrow> rejected_slash list" where
  "filter_recoverable rejected_slashes own_invalid_block_hashes =
     hset_collect rs_invalid_block_hash
       (filter (\<lambda>rs. rs_invalid_block_hash rs \<notin> set own_invalid_block_hashes)
         (sort_key rs_invalid_block_hash rejected_slashes))"

end
