(* ===== verification/DagMerger.thy ===== *)
theory DagMerger
  imports DeployChain BlockDag
begin

section \<open>The merge of a DAG\<close>

text \<open>
  casper/src/rust/merging/dag_merger.rs: the deploy chains of the blocks above the last
  finalized block are deduplicated, resolved, the rejection is extended to the descendants
  of rejected blocks, and what is left is applied to the state of the last finalized block.
  The caches of the closures are keyed by address and hold functions of what they are keyed by;
  they are left out, with the logging. Walks of the DAG that may not end have results in
  \<open>option\<close>, as in the DAG itself.
\<close>

type_synonym ('e, 'a) walk = "('e, 'a) res option"

definition wbind :: "('e, 'a) walk \<Rightarrow> ('a \<Rightarrow> ('e, 'b) walk) \<Rightarrow> ('e, 'b) walk" where
  "wbind w f = (case w of None \<Rightarrow> None | Some (Inl e) \<Rightarrow> Some (Inl e) | Some (Inr x) \<Rightarrow> f x)"

lemma wbind_simps [simp]:
  "wbind None f = None" "wbind (Some (Inl e)) f = Some (Inl e)" "wbind (Some (Inr x)) f = f x"
  by (simp_all add: wbind_def)

lemma wbind_Inr: "wbind w f = Some (Inr y) \<longleftrightarrow> (\<exists>x. w = Some (Inr x) \<and> f x = Some (Inr y))"
  by (auto simp: wbind_def split: option.splits sum.splits)

definition cost_optimal_rejection_alg :: "deploy_chain_index \<Rightarrow> u64" where
  "cost_optimal_rejection_alg c = sum_list (map dc_cost (deploys_with_cost c))"

subsection \<open>Descendants in scope\<close>

definition visit_in_scope ::
  "hash list \<Rightarrow> hash list \<times> hash list \<times> hash list \<Rightarrow> hash \<Rightarrow> hash list \<times> hash list \<times> hash list" where
  "visit_in_scope scope s child = (case s of (queue, visited, result) \<Rightarrow>
     if child \<in> set scope \<and> child \<notin> set visited
     then (queue @ [child], set_insert child visited, set_insert child result) else s)"

definition unvisited :: "hash list \<Rightarrow> hash list \<times> hash list \<times> hash list \<Rightarrow> nat" where
  "unvisited scope s = length (fst s) + card (set scope - set (fst (snd s)))"

lemma visit_in_scope_measure: "unvisited scope (visit_in_scope scope s child) = unvisited scope s"
proof (cases s)
  case (fields queue visited result)
  show ?thesis
  proof (cases "child \<in> set scope \<and> child \<notin> set visited")
    case True
    then have mem: "child \<in> set scope - set visited" by simp
    have "set scope - insert child (set visited) = (set scope - set visited) - {child}" by blast
    then have "card (set scope - set visited) = Suc (card (set scope - insert child (set visited)))"
      using card_Suc_Diff1 [OF _ mem] by simp
    with True show ?thesis by (simp add: fields visit_in_scope_def unvisited_def)
  qed (auto simp: fields visit_in_scope_def)
qed

lemma visit_children_measure: "unvisited scope (foldl (visit_in_scope scope) s cs) = unvisited scope s"
  by (induction cs arbitrary: s) (simp_all add: visit_in_scope_measure)

text \<open>The queue is a stack: \<open>pop\<close> takes the last element.\<close>

function scope_loop ::
  "dag_representation \<Rightarrow> hash list \<Rightarrow> hash list \<times> hash list \<times> hash list \<Rightarrow> hash list" where
  "scope_loop dag scope s =
     (if fst s = [] then snd (snd s)
      else scope_loop dag scope
        (foldl (visit_in_scope scope) (butlast (fst s), snd s)
          (case children dag (last (fst s)) of Some cs \<Rightarrow> cs | None \<Rightarrow> [])))"
  by pat_completeness auto
termination
proof (relation "measure (\<lambda>(dag, scope, s). unvisited scope s)")
  fix dag scope and s :: "hash list \<times> hash list \<times> hash list" assume "fst s \<noteq> []"
  then have "unvisited scope (butlast (fst s), snd s) < unvisited scope s" by (simp add: unvisited_def)
  then show "((dag, scope, foldl (visit_in_scope scope) (butlast (fst s), snd s)
      (case children dag (last (fst s)) of None \<Rightarrow> [] | Some cs \<Rightarrow> cs)), dag, scope, s)
    \<in> measure (\<lambda>(dag, scope, s). unvisited scope s)"
    by (simp add: visit_children_measure)
qed simp

declare scope_loop.simps [simp del]

definition descendants_within_scope :: "dag_representation \<Rightarrow> hash list \<Rightarrow> hash list \<Rightarrow> hash list" where
  "descendants_within_scope dag start_blocks scope = scope_loop dag scope (start_blocks, start_blocks, [])"

subsection \<open>The chains to merge\<close>

fun blocks_above :: "dag_representation \<Rightarrow> hash \<Rightarrow> hash list \<Rightarrow> hash list \<Rightarrow> (kv_store_error, hash list) walk" where
  "blocks_above dag lfb [] result = Some (Inr result)"
| "blocks_above dag lfb (candidate # cs) result =
     wbind (is_in_main_chain dag candidate lfb) (\<lambda>b.
       blocks_above dag lfb cs (if \<not> b then set_insert candidate result else result))"

definition actual_blocks :: "dag_representation \<Rightarrow> hash \<Rightarrow> hash list option \<Rightarrow> (kv_store_error, hash list) walk" where
  "actual_blocks dag lfb scope =
     (case scope of Some scope_blocks \<Rightarrow> blocks_above dag lfb scope_blocks [] | None \<Rightarrow> descendants dag lfb)"

definition late_blocks ::
  "dag_representation \<Rightarrow> hash list option \<Rightarrow> bool \<Rightarrow> hash list \<Rightarrow> (kv_store_error, hash list) walk" where
  "late_blocks dag scope disable_late_block_filtering actual =
     (if disable_late_block_filtering \<or> scope \<noteq> None then Some (Inr [])
      else wbind (non_finalized_blocks dag) (\<lambda>hs. Some (Inr (hset_difference (\<lambda>h. h) hs actual))))"

definition chains_of ::
  "(hash \<Rightarrow> (casper_error, deploy_chain_index list) res) \<Rightarrow> hash list \<Rightarrow> (casper_error, deploy_chain_index list) res" where
  "chains_of index blocks = rbind (sequence_res (map index (sort blocks))) (\<lambda>cs. Inr (concat cs))"

text \<open>The freshest source of each deploy: the highest block, then the smallest hash.\<close>

definition note_source ::
  "deploy_chain_index \<Rightarrow> (bytes, int \<times> hash) hmap \<Rightarrow> deploy_id_with_cost \<Rightarrow> (bytes, int \<times> hash) hmap" where
  "note_source chain m d =
     (let candidate = (source_block_number chain, source_block_hash chain)
      in case hm_get m (dc_deploy_id d) of
           Some (best_num, best_hash) \<Rightarrow>
             if fst candidate > best_num \<or> (fst candidate = best_num \<and> snd candidate < best_hash)
             then hm_put (dc_deploy_id d) candidate m else m
         | None \<Rightarrow> hm_put (dc_deploy_id d) candidate m)"

definition latest_for_deploy :: "deploy_chain_index list \<Rightarrow> (bytes, int \<times> hash) hmap" where
  "latest_for_deploy all_chains = foldl (\<lambda>m chain. foldl (note_source chain) m (deploys_with_cost chain)) [] all_chains"

definition is_freshest :: "(bytes, int \<times> hash) hmap \<Rightarrow> deploy_chain_index \<Rightarrow> deploy_id_with_cost \<Rightarrow> bool" where
  "is_freshest latest chain d =
     (case hm_get latest (dc_deploy_id d) of
        Some (best_num, best_hash) \<Rightarrow> source_block_number chain = best_num \<and> source_block_hash chain = best_hash
      | None \<Rightarrow> True)"

definition dedup_chains ::
  "deploy_chain_index list \<Rightarrow> deploy_chain_index list \<times> (bytes \<times> hash) list" where
  "dedup_chains all_chains =
     (if all_chains = [] then ([], [])
      else let latest = latest_for_deploy all_chains;
               (retained, dropped) =
                 partition (\<lambda>chain. list_all (is_freshest latest chain) (deploys_with_cost chain)) all_chains;
               collateral_lost_pairs = concat (map (\<lambda>chain. map (\<lambda>d. (dc_deploy_id d, source_block_hash chain))
                 (filter (\<lambda>d. \<not> is_system_deploy_id (dc_deploy_id d) \<and> is_freshest latest chain d)
                   (deploys_with_cost chain))) dropped)
           in (retained, collateral_lost_pairs))"

subsection \<open>Conflicts of branches\<close>

definition user_deploy_ids :: "deploy_chain_index branch \<Rightarrow> bytes hset" where
  "user_deploy_ids branch =
     hset_collect (\<lambda>i. i) (filter (\<lambda>i. \<not> is_system_deploy_id i)
       (concat (map (\<lambda>chain. map dc_deploy_id (deploys_with_cost chain)) branch)))"

definition combined_event_log :: "deploy_chain_index branch \<Rightarrow> (history_error, event_log_index) res" where
  "combined_event_log branch =
     fold_res (\<lambda>acc chain. index_combine acc (dci_event_log_index chain)) empty_index
       (filter (\<lambda>chain. list_all (\<lambda>d. \<not> is_system_deploy_id (dc_deploy_id d)) (deploys_with_cost chain)) branch)"

definition chain_depends :: "deploy_chain_index \<Rightarrow> deploy_chain_index \<Rightarrow> bool" where
  "chain_depends target source =
     (let mergeable = produces_mergeable (dci_event_log_index source);
          produces_source = hset_difference p_hash
            (produces_created_and_not_destroyed (dci_event_log_index source)) mergeable;
          produces_target = hset_difference p_hash (produces_consumed (dci_event_log_index target)) mergeable
      in if hset_intersection p_hash produces_source produces_target \<noteq> [] then True
         else hset_intersection ckey (consumes_created_and_not_destroyed (dci_event_log_index source))
                (consumes_produced (dci_event_log_index target)) \<noteq> [])"

text \<open>The branches of each user deploy, by position.\<close>

definition note_branch :: "nat \<Rightarrow> (bytes, nat list) hmap \<Rightarrow> bytes \<Rightarrow> (bytes, nat list) hmap" where
  "note_branch idx m d = hm_put d ((case hm_get m d of Some l \<Rightarrow> l | None \<Rightarrow> []) @ [idx]) m"

definition deploy_to_branches :: "deploy_chain_index branch list \<Rightarrow> (bytes, nat list) hmap" where
  "deploy_to_branches branches =
     foldl (\<lambda>m (idx, b). foldl (note_branch idx) m (user_deploy_ids b)) [] (enumerate 0 branches)"

definition mark_same_deploys ::
  "deploy_chain_index branch list \<Rightarrow> deploy_chain_index branch relation_map \<Rightarrow> deploy_chain_index branch relation_map" where
  "mark_same_deploys branches conflict_map =
     foldl (\<lambda>m (_, branch_ids). mark_pairs branches (position_pairs branch_ids) m) conflict_map
       (filter (\<lambda>(_, branch_ids). \<not> length branch_ids < 2) (deploy_to_branches branches))"

definition dag_conflict_map ::
  "deploy_chain_index branch hset \<Rightarrow> (history_error, deploy_chain_index branch relation_map) res" where
  "dag_conflict_map branches_set =
     rbind (sequence_res (map combined_event_log branches_set)) (\<lambda>event_logs.
     rbind (compute_conflict_map_event_indexed branches_set event_logs) (\<lambda>conflict_map.
       Inr (mark_same_deploys branches_set conflict_map)))"

definition dag_branches ::
  "deploy_chain_index hset \<Rightarrow> (history_error, deploy_chain_index branch hset) res" where
  "dag_branches merge_set =
     rbind (compute_depends_map_event_indexed merge_set (map dci_event_log_index merge_set)) (\<lambda>depends_map.
       Inr (gather_related_sets depends_map))"

subsection \<open>The merged state\<close>

definition mergeable_channels_of :: "deploy_chain_index \<Rightarrow> number_channels" where
  "mergeable_channels_of chain = number_channels_data (dci_event_log_index chain)"

definition merge_number_channel ::
  "('c, 'p, 'x, 'k) rho_env \<Rightarrow> in_mem_store \<Rightarrow> rspace_history_reader \<Rightarrow> bytes \<Rightarrow> bytes channel_change \<Rightarrow> number_channels \<Rightarrow>
   (history_error, ('c, 'p, 'x list_par_with_random, 'k) trie_action option) res" where
  "merge_number_channel env st rd h channel_changes number_chs =
     (case hm_get number_chs h of
        Some (diff, mt) \<Rightarrow>
          rbind (calculate_number_channel_merge env h diff mt channel_changes (get_data_proj env st rd)) (\<lambda>a. Inr (Some a))
      | None \<Rightarrow> Inr None)"

definition apply_trie_actions ::
  "('c, 'p, 'a, 'k) repo_env \<Rightarrow> bytes \<Rightarrow> history_repository \<Rightarrow> rspace_store \<Rightarrow> ('c, 'p, 'a, 'k) trie_action list \<Rightarrow>
   (history_error, bytes \<times> rspace_store) res" where
  "apply_trie_actions env lfb_post_state hrepo sts actions =
     rbind (repo_reset env lfb_post_state hrepo sts) (\<lambda>(reset_repo, sts').
     rbind (unwrap ''do_checkpoint'' (do_checkpoint env actions reset_repo sts')) (\<lambda>(checkpoint, sts'').
       Inr (repo_root checkpoint, sts'')))"

text \<open>
  A branch with a chain from a descendant block is moved to the rejected units as a whole.
\<close>

definition expand_rejection ::
  "dag_representation \<Rightarrow> hash list \<Rightarrow> deploy_chain_index resolved_conflicts \<Rightarrow> deploy_chain_index resolved_conflicts" where
  "expand_rejection dag actual resolved =
     (let rejected_source_blocks = hset_collect (\<lambda>h. h) (map source_block_hash (rejected resolved));
          descendant_blocks = descendants_within_scope dag rejected_source_blocks actual
      in if rejected_source_blocks = [] \<or> descendant_blocks = [] then resolved
         else let has_stale = list_ex (\<lambda>chain. source_block_hash chain \<in> set descendant_blocks)
              in \<lparr>to_merge = filter (\<lambda>b. \<not> has_stale b) (to_merge resolved),
                  rejected = foldl (\<lambda>r chain. hset_insert chain_key chain r) (rejected resolved)
                    (concat (filter has_stale (to_merge resolved)))\<rparr>)"

definition pair_cmp :: "bytes \<times> hash \<Rightarrow> bytes \<times> hash \<Rightarrow> ordering" where
  "pair_cmp a b = then_with (cmp (fst a) (fst b)) (cmp (snd a) (snd b))"

definition rejected_pairs :: "deploy_chain_index hset \<Rightarrow> (bytes \<times> hash) list" where
  "rejected_pairs rej =
     concat (map (\<lambda>chain. map (\<lambda>d. (dc_deploy_id d, source_block_hash chain)) (deploys_with_cost chain)) rej)"

definition rejected_user_deploys :: "deploy_chain_index hset \<Rightarrow> (bytes \<times> hash) list \<Rightarrow> (bytes \<times> hash) list" where
  "rejected_user_deploys rej collateral_lost_pairs =
     (let user = filter (\<lambda>(i, _). \<not> is_system_deploy_id i) (rejected_pairs rej);
          existing_ids = map fst user
      in sort_by pair_cmp (user @ filter (\<lambda>(i, _). i \<notin> set existing_ids) collateral_lost_pairs))"

definition rejected_slashes :: "deploy_chain_index hset \<Rightarrow> (bytes \<times> hash) list" where
  "rejected_slashes rej = sort_by pair_cmp (filter (\<lambda>(i, _). is_slash_deploy_id i) (rejected_pairs rej))"

text \<open>What is decided before the state is computed.\<close>

definition resolve_dag ::
  "('c, 'p, 'x, 'k) rho_env \<Rightarrow> dag_representation \<Rightarrow> rspace_history_reader \<Rightarrow> rspace_store \<Rightarrow>
   (deploy_chain_index \<Rightarrow> u64) \<Rightarrow> deploy_chain_index list \<Rightarrow> deploy_chain_index list \<Rightarrow> hash list \<Rightarrow>
   (history_error, deploy_chain_index resolved_conflicts) res" where
  "resolve_dag env dag rd sts rejection_cost_f actual_seq late_seq actual =
     rbind (resolve_conflicts chain_cmp chain_key (sort_by chain_cmp actual_seq) (sort_by chain_cmp late_seq)
         chain_depends rejection_cost_f mergeable_channels_of (get_data_proj env (history_kv sts) rd)
         dag_branches dag_conflict_map) (\<lambda>resolved.
       Inr (expand_rejection dag actual resolved))"

record merge_plan =
  pl_reader :: rspace_history_reader
  pl_resolved :: "deploy_chain_index resolved_conflicts"
  pl_collateral :: "(bytes \<times> hash) list"

definition plan_merge ::
  "('c, 'p, 'x, 'k) rho_env \<Rightarrow> dag_representation \<Rightarrow> hash \<Rightarrow> bytes \<Rightarrow>
   (hash \<Rightarrow> (casper_error, deploy_chain_index list) res) \<Rightarrow> history_repository \<Rightarrow> rspace_store \<Rightarrow>
   (deploy_chain_index \<Rightarrow> u64) \<Rightarrow> hash list option \<Rightarrow> bool \<Rightarrow> (casper_error, merge_plan) walk" where
  "plan_merge env dag lfb lfb_post_state index hrepo sts rejection_cost_f scope disable_late_block_filtering =
     wbind (map_option (map_err CasperKvStoreError) (actual_blocks dag lfb scope)) (\<lambda>actual.
     wbind (map_option (map_err CasperKvStoreError) (late_blocks dag scope disable_late_block_filtering actual)) (\<lambda>late.
     Some (
       rbind (chains_of index actual) (\<lambda>actual_set_vec.
       rbind (chains_of index late) (\<lambda>late_set_vec.
       let (retained, collateral_lost_pairs) = dedup_chains actual_set_vec
       in map_err CasperHistoryError (
            rbind (get_history_reader env lfb_post_state hrepo sts) (\<lambda>rd.
            rbind (resolve_dag env dag rd sts rejection_cost_f retained late_set_vec actual) (\<lambda>resolved.
              Inr \<lparr>pl_reader = rd, pl_resolved = resolved, pl_collateral = collateral_lost_pairs\<rparr>))))))))"

definition dag_merge ::
  "('c, 'p, 'x, 'k) rho_env \<Rightarrow> dag_representation \<Rightarrow> hash \<Rightarrow> bytes \<Rightarrow>
   (hash \<Rightarrow> (casper_error, deploy_chain_index list) res) \<Rightarrow> history_repository \<Rightarrow> rspace_store \<Rightarrow>
   (deploy_chain_index \<Rightarrow> u64) \<Rightarrow> hash list option \<Rightarrow> bool \<Rightarrow>
   (casper_error, bytes \<times> (bytes \<times> hash) list \<times> (bytes \<times> hash) list \<times> rspace_store) walk" where
  "dag_merge env dag lfb lfb_post_state index hrepo sts rejection_cost_f scope disable_late_block_filtering =
     wbind (plan_merge env dag lfb lfb_post_state index hrepo sts rejection_cost_f scope disable_late_block_filtering) (\<lambda>plan.
     Some (map_err CasperHistoryError (
       rbind (compute_merged_state chain_cmp (pl_resolved plan) (\<lambda>chain. Inr (dci_state_changes chain)) mergeable_channels_of
           (\<lambda>changes mergeable_chs. compute_trie_actions env changes (history_kv sts) (pl_reader plan) mergeable_chs
              (merge_number_channel env (history_kv sts) (pl_reader plan)))
           (apply_trie_actions env lfb_post_state hrepo sts)) (\<lambda>(new_state, sts').
         Inr (new_state, rejected_user_deploys (rejected (pl_resolved plan)) (pl_collateral plan),
              rejected_slashes (rejected (pl_resolved plan)), sts')))))"

end
