(* ===== verification/ConflictSetSpec.thy ===== *)
theory ConflictSetSpec
  imports ConflictSetMerger
begin

section \<open>Correctness of conflict resolution\<close>

text \<open>
  \<open>conflict_resolution\<close> is the contract of the two callbacks of \<open>resolve_conflicts\<close>, as its comments
  state it: the branches partition the units, and the conflict map has every branch as a key. From it
  follow what is merged and what is rejected, that no two merged branches are in conflict, that
  no cheaper option was available, and that the merged numbers neither overflow nor get negative.
\<close>

subsection \<open>Sets of branches\<close>

definition branches_ok :: "'r branch hset \<Rightarrow> bool" where
  "branches_ok bs \<longleftrightarrow> distinct (concat bs) \<and> [] \<notin> set bs"

lemma branches_okD:
  assumes "branches_ok bs"
  shows "distinct bs" "inj_on set (set bs)" "\<And>b. b \<in> set bs \<Longrightarrow> distinct b"
    "\<And>a b. a \<in> set bs \<Longrightarrow> b \<in> set bs \<Longrightarrow> set a \<inter> set b \<noteq> {} \<Longrightarrow> a = b"
proof -
  have no: "[] \<notin> set bs" and d: "distinct (removeAll [] bs)" "\<And>b. b \<in> set bs \<Longrightarrow> distinct b"
    "\<And>a b. a \<in> set bs \<Longrightarrow> b \<in> set bs \<Longrightarrow> a \<noteq> b \<Longrightarrow> set a \<inter> set b = {}"
    using assms by (auto simp: branches_ok_def distinct_concat_iff)
  then show "distinct bs" "\<And>b. b \<in> set bs \<Longrightarrow> distinct b" by (simp_all add: removeAll_id)
  show "a = b" if "a \<in> set bs" "b \<in> set bs" "set a \<inter> set b \<noteq> {}" for a b using d(3) [OF that(1,2)] that(3) by blast
  show "inj_on set (set bs)"
  proof (rule inj_onI)
    fix a b assume "a \<in> set bs" "b \<in> set bs" "set a = set b"
    then show "a = b" using d(3) [of a b] no by (cases a) auto
  qed
qed

lemma branches_ok_filter: "branches_ok bs \<Longrightarrow> branches_ok (filter P bs)"
  unfolding branches_ok_def by (induction bs) auto

lemma listed_iff:
  assumes "branches_ok bs" "b \<in> set bs" "set opt \<subseteq> set bs"
  shows "listed opt b \<longleftrightarrow> b \<in> set opt"
proof
  assume "listed opt b"
  then obtain b' where b': "b' \<in> set opt" "length b = length b'" "set b \<subseteq> set b'"
    by (auto simp: listed_def list_ex_iff same_branch_def list_all_iff)
  have "b \<noteq> []" using assms(1,2) by (auto simp: branches_ok_def)
  then have "set b \<inter> set b' \<noteq> {}" using b'(3) by (cases b) auto
  then have "b = b'" using branches_okD(4) [OF assms(1)] assms(2,3) b'(1) by blast
  then show "b \<in> set opt" using b'(1) by simp
qed (auto simp: listed_def list_ex_iff same_branch_def list_all_iff)

lemma hset_insert_branch:
  assumes "branches_ok bs" "b \<in> set bs" "set opt \<subseteq> set bs"
  shows "hset_insert set b opt = (if b \<in> set opt then opt else opt @ [b])"
proof -
  have "set b \<in> set ` set opt \<longleftrightarrow> b \<in> set opt"
    using inj_on_image_mem_iff [OF branches_okD(2) [OF assms(1)] assms(2,3)] .
  then show ?thesis by (simp add: hset_insert_def hkeys_def)
qed

lemma insert_branches:
  assumes "branches_ok bs" "set xs \<subseteq> set bs" "set opt \<subseteq> set bs"
  shows "set (foldl (\<lambda>result reject. hset_insert set reject result) opt xs) = set opt \<union> set xs
    \<and> (distinct opt \<longrightarrow> distinct (foldl (\<lambda>result reject. hset_insert set reject result) opt xs))"
  using assms(2,3)
proof (induction xs arbitrary: opt)
  case (Cons x xs)
  then show ?case using Cons.IH [of "hset_insert set x opt"] hset_insert_branch [OF assms(1), of x opt] by auto
qed simp

subsection \<open>The order of options\<close>

lemma compare_branches_ord: "ord_contract c \<Longrightarrow> ord_contract (compare_branches c)"
  using key_ord_contract [OF vec_ord_contract, of c "sort_by c"] unfolding compare_branches_def Let_def .

lemma cmp_first_ord:
  assumes "ord_contract c" shows "ord_contract (cmp_first c)"
proof
  show "cmp_first c b a = reverse_ord (cmp_first c a b)" for a b
    by (cases a; cases b) (auto simp: cmp_first_def intro: ord_contract.flip [OF assms])
next
  fix x y z assume "cmp_first c x y \<noteq> Greater" "cmp_first c y z \<noteq> Greater"
  then show "cmp_first c x z \<noteq> Greater"
    using ord_contract.le_trans [OF assms, of "the x" "the y" "the z"] by (cases x; cases y; cases z) (simp_all add: cmp_first_def)
qed

lemma compare_options_ord: "ord_contract c \<Longrightarrow> ord_contract (compare_options c target_f)"
  unfolding compare_options_def
  by (intro then_with_ord_contract cmp_ord_contract key_ord_contract [OF cmp_first_ord])

lemma get_optimal_rejection_min:
  assumes "ord_contract c" "get_optimal_rejection c options target_f = (Inr opt :: ('e, _) res)" "options \<noteq> []"
  shows "opt \<in> set options" "\<And>o'. o' \<in> set options \<Longrightarrow> option_cost target_f opt \<le> option_cost target_f o'"
proof -
  obtain xs where xs: "sort_by (compare_options c target_f) options = opt # xs"
    using assms(2,3) by (auto simp: get_optimal_rejection_def split: list.splits)
  then show "opt \<in> set options" using sort_by_same(1) [of "compare_options c target_f" options] by auto
  fix o' assume "o' \<in> set options"
  then have "compare_options c target_f opt o' \<noteq> Greater"
    using ord_contract.hd_sort_by_le [OF compare_options_ord [OF assms(1)], of o' options target_f] xs by simp
  then show "option_cost target_f opt \<le> option_cost target_f o'"
    by (auto simp: compare_options_def cmp_def split: if_splits)
qed

subsection \<open>Number channels\<close>

text \<open>The entry of a channel: its value, and that the channel adds.\<close>

definition entry_val :: "(i64 \<times> merge_type) option \<Rightarrow> i64" where
  "entry_val e = (case e of Some (d, _) \<Rightarrow> d | None \<Rightarrow> 0)"

definition entry_adds :: "(i64 \<times> merge_type) option \<Rightarrow> bool" where
  "entry_adds e = (case e of Some (_, mt) \<Rightarrow> mt = IntegerAdd | None \<Rightarrow> True)"

lemma entry_simps [simp]: "entry_val None = 0" "entry_val (Some (d, mt)) = d" "entry_adds None" "entry_adds (Some (d, mt)) \<longleftrightarrow> mt = IntegerAdd"
  by (simp_all add: entry_val_def entry_adds_def)

definition adding :: "('r \<Rightarrow> number_channels) \<Rightarrow> bytes \<Rightarrow> 'r \<Rightarrow> bool" where
  "adding mc k r \<longleftrightarrow> entry_adds (hm_get (mc r) k)"

definition touches :: "('r \<Rightarrow> number_channels) \<Rightarrow> bytes \<Rightarrow> 'r list \<Rightarrow> bool" where
  "touches mc k items = list_ex (\<lambda>r. hm_get (mc r) k \<noteq> None) items"

definition total_diff :: "('r \<Rightarrow> number_channels) \<Rightarrow> bytes \<Rightarrow> 'r list \<Rightarrow> i64" where
  "total_diff mc k items = sum_list (map (\<lambda>r. entry_val (hm_get (mc r) k)) items)"

lemma channel_sums [simp]:
  "touches mc k [] = False" "touches mc k (r # items) \<longleftrightarrow> hm_get (mc r) k \<noteq> None \<or> touches mc k items"
  "total_diff mc k [] = 0" "total_diff mc k (r # items) = entry_val (hm_get (mc r) k) + total_diff mc k items"
  "touches mc k (xs @ ys) \<longleftrightarrow> touches mc k xs \<or> touches mc k ys" "total_diff mc k (xs @ ys) = total_diff mc k xs + total_diff mc k ys"
  by (simp_all add: touches_def total_diff_def)

lemma channel_sums_mset:
  assumes "mset xs = mset ys" shows "touches mc k xs = touches mc k ys" "total_diff mc k xs = total_diff mc k ys"
proof -
  show "touches mc k xs = touches mc k ys" using mset_eq_setD [OF assms] by (simp add: touches_def list_ex_iff)
  show "total_diff mc k xs = total_diff mc k ys"
    using arg_cong [OF assms, of "\<lambda>m. sum_mset (image_mset (\<lambda>r. entry_val (hm_get (mc r) k)) m)"]
    by (simp add: total_diff_def sum_mset_sum_list flip: mset_map)
qed

lemma untouched_total: "\<not> touches mc k items \<Longrightarrow> total_diff mc k items = 0"
  by (induction items) (auto simp: entry_val_def split: option.splits)

text \<open>The combined differences of all merged units.\<close>

lemma combine_channels_get:
  assumes "combine_channels es acc = Inr acc'" "hm_ok es" "entry_adds (hm_get acc' k)"
  shows "entry_adds (hm_get acc k) \<and> entry_adds (hm_get es k)
    \<and> (hm_get acc' k = None \<longleftrightarrow> hm_get acc k = None \<and> hm_get es k = None)
    \<and> entry_val (hm_get acc' k) = entry_val (hm_get acc k) + entry_val (hm_get es k)"
  using assms
proof (induction es acc rule: combine_channels.induct)
  case (2 key d mt rest acc)
  have rest: "hm_ok rest" "hm_get rest key = None" using 2(4) by (auto simp: hm_ok_def map_of_eq_None_iff)
  show ?case
  proof (cases "hm_get acc key")
    case None
    then have "combine_channels rest (hm_put key (d, mt) acc) = Inr acc'" using 2(3) by simp
    from 2(1) [OF None this rest(1) 2(5)] rest(2) None show ?thesis by (cases "key = k") auto
  next
    case (Some e)
    obtain v mt' where e: "e = (v, mt')" by fastforce
    have mt: "mt' = mt" using 2(3) Some by (auto simp: e split: if_splits)
    then have step: "combine_channels rest (hm_put key (combine_mergeable_value v d mt, mt') acc) = Inr acc'" using 2(3) Some by (simp add: e)
    from 2(2) [OF Some e [symmetric] _ step rest(1) 2(5)] rest(2) Some mt show ?thesis
      by (cases "key = k") (auto simp: e combine_mergeable_value_def)
  qed
qed simp

lemma fold_channels_get:
  assumes "fold_res (\<lambda>acc r. combine_channels (mc r) acc) acc items = Inr acc'" "list_all (\<lambda>r. hm_ok (mc r)) items"
    "entry_adds (hm_get acc' k)"
  shows "entry_adds (hm_get acc k) \<and> list_all (adding mc k) items
    \<and> (hm_get acc' k = None \<longleftrightarrow> hm_get acc k = None \<and> \<not> touches mc k items)
    \<and> entry_val (hm_get acc' k) = entry_val (hm_get acc k) + total_diff mc k items"
  using assms
proof (induction items arbitrary: acc)
  case (Cons r items)
  obtain acc1 where acc1: "combine_channels (mc r) acc = Inr acc1"
    "fold_res (\<lambda>acc r. combine_channels (mc r) acc) acc1 items = Inr acc'"
    using Cons.prems(1) by auto
  have "hm_ok (mc r)" "list_all (\<lambda>r. hm_ok (mc r)) items" using Cons.prems(2) by simp_all
  note rest = Cons.IH [OF acc1(2) this(2) Cons.prems(3)] and first = combine_channels_get [OF acc1(1) this(1), of k]
  from rest first show ?case by (auto simp: adding_def add.assoc)
qed simp

text \<open>The combined differences of one branch.\<close>

lemma add_channel_diff_ok: "hm_ok acc \<Longrightarrow> hm_ok (foldl add_channel_diff acc es)"
  by (induction es arbitrary: acc) (auto simp: add_channel_diff_def split: prod.splits option.splits)

lemma add_channel_diffs_get:
  assumes "hm_ok es" "entry_adds (hm_get es k)" "entry_adds (hm_get acc k)"
  shows "hm_get (foldl add_channel_diff acc es) k
    = (if hm_get es k = None then hm_get acc k else Some (entry_val (hm_get acc k) + entry_val (hm_get es k), IntegerAdd))"
  using assms
proof (induction es arbitrary: acc)
  case (Cons entry es)
  obtain key d mt where entry: "entry = (key, d, mt)" by (cases entry) auto
  have es: "hm_ok es" using Cons.prems(1) by (simp add: hm_ok_def)
  have get: "hm_get (add_channel_diff acc entry) k
      = (if key = k then Some (entry_val (hm_get acc k) + d, mt) else hm_get acc k)" if "key = k \<Longrightarrow> mt = IntegerAdd"
    using Cons.prems(3) that by (auto simp: entry add_channel_diff_def combine_mergeable_value_def split: option.splits)
  show ?case
  proof (cases "key = k")
    case True
    then have "hm_get es k = None" "mt = IntegerAdd" using Cons.prems(1,2) by (auto simp: entry hm_ok_def map_of_eq_None_iff)
    then show ?thesis using Cons.IH [OF es, of "add_channel_diff acc entry"] True get by (simp add: entry)
  next
    case False
    then show ?thesis
      using Cons.IH [OF es, of "add_channel_diff acc entry"] Cons.prems(2,3) get by (simp add: entry)
  qed
qed simp

lemma branch_diff_ok: "hm_ok (branch_diff mc b)"
proof -
  have "hm_ok acc \<Longrightarrow> hm_ok (foldl (\<lambda>acc x. foldl add_channel_diff acc x) acc xs)" for acc xs
    by (induction xs arbitrary: acc) (auto intro: add_channel_diff_ok)
  then show ?thesis by (simp add: branch_diff_def)
qed

lemma branch_diff_get:
  assumes "list_all (\<lambda>r. hm_ok (mc r)) b" "list_all (adding mc k) b"
  shows "hm_get (branch_diff mc b) k = (if touches mc k b then Some (total_diff mc k b, IntegerAdd) else None)"
proof -
  have "hm_get (foldl (\<lambda>acc x. foldl add_channel_diff acc x) acc (map mc b)) k
      = (if touches mc k b then Some (entry_val (hm_get acc k) + total_diff mc k b, IntegerAdd) else hm_get acc k)"
    if "entry_adds (hm_get acc k)" for acc
    using that assms
  proof (induction b arbitrary: acc)
    case (Cons r b)
    have r: "hm_ok (mc r)" "entry_adds (hm_get (mc r) k)" "list_all (\<lambda>r. hm_ok (mc r)) b" "list_all (adding mc k) b"
      using Cons.prems(2,3) adding_def [of mc k r] by simp_all
    note get = add_channel_diffs_get [OF r(1,2) Cons.prems(1)]
    then have "entry_adds (hm_get (foldl add_channel_diff acc (mc r)) k)" using Cons.prems(1) by simp
    from Cons.IH [OF this r(3,4)] get untouched_total [of mc k b] show ?case by (auto simp: add.assoc)
  qed simp
  from this [of "[]"] show ?thesis by (simp add: branch_diff_def)
qed

text \<open>One branch applied to the balances.\<close>

definition balance :: "(bytes, i64) hmap \<Rightarrow> bytes \<Rightarrow> i64" where
  "balance ba k = (case hm_get ba k of Some v \<Rightarrow> v | None \<Rightarrow> 0)"

text \<open>\<open>v'\<close> is \<open>v\<close> plus the entry, computed without overflow, and not negative when there is an entry.\<close>

definition safe_add :: "i64 \<Rightarrow> (i64 \<times> merge_type) option \<Rightarrow> i64 \<Rightarrow> bool" where
  "safe_add v e v' \<longleftrightarrow> v' = v + entry_val e \<and> sint v' = sint v + sint (entry_val e) \<and> (e \<noteq> None \<longrightarrow> 0 \<le> sint v')"

lemma add_to_balance_None [simp]: "foldl add_to_balance None es = None"
  by (induction es) (auto simp: add_to_balance_def split: prod.splits)

lemma add_to_balance_get:
  assumes "foldl add_to_balance (Some ba) es = Some ba'" "hm_ok es" "entry_adds (hm_get es k)"
  shows "safe_add (balance ba k) (hm_get es k) (balance ba' k)"
  using assms
proof (induction es arbitrary: ba)
  case (Cons entry es)
  obtain key d mt where entry: "entry = (key, d, mt)" by (cases entry) auto
  have es: "hm_ok es" using Cons.prems(2) by (simp add: hm_ok_def)
  obtain ba1 where ba1: "add_to_balance (Some ba) entry = Some ba1" "foldl add_to_balance (Some ba1) es = Some ba'"
    using Cons.prems(1) by (cases "add_to_balance (Some ba) entry") auto
  show ?case
  proof (cases "key = k")
    case True
    then have none: "hm_get es k = None" "mt = IntegerAdd"
      using Cons.prems(2,3) by (auto simp: entry hm_ok_def map_of_eq_None_iff)
    then have "balance ba' k = balance ba1 k" using Cons.IH [OF ba1(2) es] by (simp add: safe_add_def)
    moreover have "safe_add (balance ba k) (Some (d, mt)) (balance ba1 k)"
      using ba1(1) True none(2)
      by (auto simp: entry add_to_balance_def balance_def checked_add_def safe_add_def Let_def split: if_splits option.splits)
    ultimately show ?thesis using True by (simp add: entry)
  next
    case False
    then have "balance ba1 k = balance ba k"
      using ba1(1) by (auto simp: entry add_to_balance_def balance_def Let_def split: merge_type.splits option.splits if_splits)
    then show ?thesis using Cons.IH [OF ba1(2) es] Cons.prems(3) False by (simp add: entry)
  qed
qed (simp add: safe_add_def)

lemma cal_merged_result_get:
  assumes "cal_merged_result b ba mc = Some ba'" "list_all (\<lambda>r. hm_ok (mc r)) b" "list_all (adding mc k) b"
  shows "safe_add (balance ba k) (if touches mc k b then Some (total_diff mc k b, IntegerAdd) else None) (balance ba' k)"
proof -
  let ?es = "sort_key fst (branch_diff mc b)"
  have ok: "hm_ok ?es" using branch_diff_ok [of mc b] by (simp add: hm_ok_def distinct_map)
  then have "hm_get ?es k = hm_get (branch_diff mc b) k"
    using branch_diff_ok [of mc b] by (intro map_of_inject_set [THEN iffD2, THEN fun_cong]) (simp_all add: hm_ok_def)
  with add_to_balance_get [OF assms(1) [unfolded cal_merged_result_def] ok, of k] branch_diff_get [OF assms(2,3)]
  show ?thesis by simp
qed

subsection \<open>Rejection of overflowing branches\<close>

text \<open>The branches that \<open>fold_rejection\<close> keeps, and the balances after them.\<close>

fun accept :: "('r \<Rightarrow> number_channels) \<Rightarrow> (bytes, i64) hmap \<Rightarrow> 'r branch list \<Rightarrow> 'r branch list \<times> (bytes, i64) hmap" where
  "accept mc ba [] = ([], ba)"
| "accept mc ba (b # bs) =
     (case cal_merged_result b ba mc of
        Some ba' \<Rightarrow> (b # fst (accept mc ba' bs), snd (accept mc ba' bs))
      | None \<Rightarrow> accept mc ba bs)"

lemma accept_subset: "set (fst (accept mc ba bs)) \<subseteq> set bs"
  by (induction mc ba bs rule: accept.induct) (auto split: option.splits)

lemma accept_distinct: "distinct bs \<Longrightarrow> distinct (fst (accept mc ba bs))"
  by (induction mc ba bs rule: accept.induct) (use accept_subset in \<open>fastforce split: option.splits\<close>)+

lemma fold_rejection_set:
  assumes "branches_ok all" "set bs \<subseteq> set all" "distinct bs"
  shows "set (fold_rejection c base bs mc) = set bs - set (fst (accept mc base (sort_by (compare_branches c) bs)))
    \<and> distinct (fold_rejection c base bs mc)"
proof -
  let ?step = "\<lambda>(balances, rejected) branch. case cal_merged_result branch balances mc of
      Some new_balances \<Rightarrow> (new_balances, rejected) | None \<Rightarrow> (balances, hset_insert set branch rejected)"
  have "set (snd (foldl ?step (ba, rej) xs)) = set rej \<union> (set xs - set (fst (accept mc ba xs)))
      \<and> (distinct rej \<longrightarrow> distinct (snd (foldl ?step (ba, rej) xs)))"
    if "set xs \<subseteq> set all" "set rej \<subseteq> set all" "distinct xs" for xs ba rej
    using that
  proof (induction xs arbitrary: ba rej)
    case (Cons x xs)
    show ?case
    proof (cases "cal_merged_result x ba mc")
      case None
      have ins: "hset_insert set x rej = (if x \<in> set rej then rej else rej @ [x])"
        by (rule hset_insert_branch [OF assms(1)]) (use Cons.prems in auto)
      have "x \<notin> set (fst (accept mc ba xs))" using accept_subset [of mc ba xs] Cons.prems(3) by auto
      then show ?thesis using None Cons.IH [of "hset_insert set x rej" ba] Cons.prems ins by auto
    next
      case (Some ba')
      have "set xs - insert x A = set xs - A" for A using Cons.prems(3) by auto
      then show ?thesis using Some Cons.IH [of rej ba'] Cons.prems by auto
    qed
  qed simp
  from this [of "sort_by (compare_branches c) bs" "[]" base] assms(2,3) show ?thesis by (simp add: fold_rejection_def)
qed

text \<open>The balance of a channel after the accepted branches.\<close>

lemma accept_balance:
  assumes "list_all (\<lambda>b. list_all (\<lambda>r. hm_ok (mc r)) b) bs" "list_all (\<lambda>b. list_all (adding mc k) b) (fst (accept mc ba bs))"
  shows "balance (snd (accept mc ba bs)) k = balance ba k + total_diff mc k (concat (fst (accept mc ba bs)))
    \<and> sint (balance (snd (accept mc ba bs)) k) = sint (balance ba k) + (\<Sum>b \<leftarrow> fst (accept mc ba bs). sint (total_diff mc k b))
    \<and> (touches mc k (concat (fst (accept mc ba bs))) \<longrightarrow> 0 \<le> sint (balance (snd (accept mc ba bs)) k))"
  using assms
proof (induction bs arbitrary: ba)
  case (Cons b bs)
  show ?case
  proof (cases "cal_merged_result b ba mc")
    case None
    then have eq: "accept mc ba (b # bs) = accept mc ba bs" by simp
    show ?thesis unfolding eq by (rule Cons.IH) (use Cons.prems eq in simp_all)
  next
    case (Some ba')
    have add: "safe_add (balance ba k) (if touches mc k b then Some (total_diff mc k b, IntegerAdd) else None) (balance ba' k)"
      by (rule cal_merged_result_get [OF Some]) (use Cons.prems Some in simp_all)
    have val: "entry_val (if touches mc k b then Some (total_diff mc k b, IntegerAdd) else None) = total_diff mc k b"
      using untouched_total [of mc k b] by simp
    have prems: "list_all (\<lambda>b. list_all (\<lambda>r. hm_ok (mc r)) b) bs" "list_all (\<lambda>b. list_all (adding mc k) b) (fst (accept mc ba' bs))"
      using Cons.prems Some by simp_all
    note IH = Cons.IH [OF prems]
    have "0 \<le> sint (balance (snd (accept mc ba' bs)) k)" if "touches mc k b"
    proof (cases "touches mc k (concat (fst (accept mc ba' bs)))")
      case True
      then show ?thesis using IH by blast
    next
      case False
      have "total_diff mc k x = 0" if "x \<in> set (fst (accept mc ba' bs))" for x
        using False that untouched_total [of mc k x] by (auto simp: touches_def list_ex_iff)
      then have "(\<Sum>b \<leftarrow> fst (accept mc ba' bs). sint (total_diff mc k b)) = 0"
        by (simp cong: map_cong)
      then have "sint (balance (snd (accept mc ba' bs)) k) = sint (balance ba' k)" using IH by linarith
      moreover have "0 \<le> sint (balance ba' k)" using add that by (auto simp: safe_add_def)
      ultimately show ?thesis by linarith
    qed
    then show ?thesis using IH Some add val by (auto simp: safe_add_def add.assoc)
  qed
qed simp

subsection \<open>Options\<close>

definition conflict_map_ok :: "'r branch hset \<Rightarrow> 'r branch relation_map \<Rightarrow> bool" where
  "conflict_map_ok bs m \<longleftrightarrow> hm_ok m \<and> list_all (\<lambda>(_, s). distinct s) m \<and> sym (map_edges m) \<and> irrefl (map_edges m)
     \<and> map_edges m \<subseteq> set bs \<times> set bs"

lemma minimal_cover_subset: "irrefl E \<Longrightarrow> E \<subseteq> A \<times> A \<Longrightarrow> sym E \<Longrightarrow> minimal_cover E C \<Longrightarrow> C \<subseteq> A"
  using minimal_cover_iff [of E C] by blast

lemma minimal_cover_exists:
  assumes "E \<subseteq> A \<times> A" "finite A" shows "\<exists>C. minimal_cover E C"
proof -
  have "vertex_cover E A" using assms(1) by (auto simp: vertex_cover_def)
  with assms(2) show ?thesis
  proof (induction A rule: finite_psubset_induct)
    case (psubset A)
    show ?case
    proof (cases "minimal_cover E A")
      case False
      then obtain C where "C \<subset> A" "vertex_cover E C" using psubset.prems by (auto simp: minimal_cover_def)
      then show ?thesis by (rule psubset.IH)
    qed blast
  qed
qed

text \<open>The option that starts from rejecting \<open>C\<close>: also the branches that the balances cannot take.\<close>

definition full_option ::
  "('r \<Rightarrow> 'r \<Rightarrow> ordering) \<Rightarrow> ('r \<Rightarrow> number_channels) \<Rightarrow> (bytes, i64) hmap \<Rightarrow> 'r branch hset \<Rightarrow> 'r branch set \<Rightarrow> 'r branch set" where
  "full_option c mc base bs C = C \<union> set (fold_rejection c base (filter (\<lambda>b. b \<notin> C) bs) mc)"

lemma full_option_subset:
  assumes "branches_ok bs" "C \<subseteq> set bs" shows "full_option c mc base bs C \<subseteq> set bs"
  using fold_rejection_set [OF assms(1), of "filter (\<lambda>b. b \<notin> C) bs" c base mc] branches_okD(1) [OF assms(1)] assms(2)
  by (auto simp: full_option_def)

lemma merged_options:
  assumes bs: "branches_ok bs" and m: "conflict_map_ok bs m"
  shows "get_merged_result_rejection c bs (compute_rejection_options m) base mc \<noteq> []"
    "opt \<in> set (get_merged_result_rejection c bs (compute_rejection_options m) base mc) \<Longrightarrow>
      distinct opt \<and> (\<exists>C. minimal_cover (map_edges m) C \<and> set opt = full_option c mc base bs C)"
    "minimal_cover (map_edges m) C \<Longrightarrow>
      \<exists>opt \<in> set (get_merged_result_rejection c bs (compute_rejection_options m) base mc). set opt = full_option c mc base bs C"
proof -
  let ?E = "map_edges m" and ?opts = "compute_rejection_options m"
  define g where "g normal = foldl (\<lambda>result reject. hset_insert set reject result) normal
    (fold_rejection c base (filter (\<lambda>branch. \<not> listed normal branch) bs) mc)" for normal
  have E: "hm_ok m" "list_all (\<lambda>(_, s). distinct s) m" "sym ?E" "irrefl ?E" "?E \<subseteq> set bs \<times> set bs"
    using m by (simp_all add: conflict_map_ok_def)
  have covers: "set ` set ?opts = {C. minimal_cover ?E C}" "list_all distinct ?opts"
    using rejection_options_covers [OF E(1-4)] by simp_all
  have sub: "set normal \<subseteq> set bs" "distinct normal" if "normal \<in> set ?opts" for normal
  proof -
    have "minimal_cover ?E (set normal)" using covers(1) that by blast
    then show "set normal \<subseteq> set bs" by (rule minimal_cover_subset [OF E(4,5,3)])
    show "distinct normal" using covers(2) that by (simp add: list_all_iff)
  qed
  obtain C0 where "minimal_cover ?E C0" using minimal_cover_exists [OF E(5)] by blast
  then have ne: "?opts \<noteq> []" using covers(1) by auto
  have full: "set (g normal) = full_option c mc base bs (set normal) \<and> distinct (g normal)" if "normal \<in> set ?opts" for normal
  proof -
    have "filter (\<lambda>branch. \<not> listed normal branch) bs = filter (\<lambda>b. b \<notin> set normal) bs"
      using listed_iff [OF bs _ sub(1) [OF that]] by (intro filter_cong) auto
    moreover have "set (fold_rejection c base (filter (\<lambda>b. b \<notin> set normal) bs) mc) \<subseteq> set bs"
      using fold_rejection_set [OF bs, of "filter (\<lambda>b. b \<notin> set normal) bs" c base mc] branches_okD(1) [OF bs] by auto
    ultimately show ?thesis using insert_branches [OF bs _ sub(1) [OF that]] sub(2) [OF that] by (simp add: full_option_def g_def)
  qed
  have res: "get_merged_result_rejection c bs ?opts base mc = hset_collect option_set (map g ?opts)"
    using ne by (simp add: get_merged_result_rejection_def g_def [abs_def] Let_def)
  have mem: "set (hset_collect option_set (map g ?opts)) \<subseteq> g ` set ?opts" using hset_elements(2) [of option_set "map g ?opts"] by simp
  have keys: "option_set ` set (hset_collect option_set (map g ?opts)) = option_set ` g ` set ?opts"
    using hkeys_collect [of option_set "map g ?opts"] by (simp add: hkeys_def)
  show "get_merged_result_rejection c bs ?opts base mc \<noteq> []" using keys ne unfolding res by auto
  show "distinct opt \<and> (\<exists>C. minimal_cover ?E C \<and> set opt = full_option c mc base bs C)"
    if "opt \<in> set (get_merged_result_rejection c bs ?opts base mc)"
    using that mem full covers(1) unfolding res by blast
  show "\<exists>opt \<in> set (get_merged_result_rejection c bs ?opts base mc). set opt = full_option c mc base bs C" if "minimal_cover ?E C"
  proof -
    have "C \<in> set ` set ?opts" unfolding covers(1) using that by simp
    then obtain normal where n: "normal \<in> set ?opts" "set normal = C" by (auto elim: imageE)
    then obtain opt where opt: "opt \<in> set (hset_collect option_set (map g ?opts))" "option_set opt = option_set (g normal)"
      using imageI [OF imageI [OF n(1), of g], of option_set] keys by (metis (no_types) imageE)
    then obtain normal' where n': "normal' \<in> set ?opts" "opt = g normal'" using mem by blast
    have "full_option c mc base bs (set x) \<subseteq> set bs" if "x \<in> set ?opts" for x
      using sub(1) [OF that] fold_rejection_set [OF bs, of "filter (\<lambda>b. b \<notin> set x) bs" c base mc] branches_okD(1) [OF bs]
      by (auto simp: full_option_def)
    then have "set opt \<subseteq> set bs" "set (g normal) \<subseteq> set bs" using full n(1) n' by auto
    moreover have "set ` set opt = set ` set (g normal)" using opt(2) by (simp add: option_set_def)
    ultimately have "set opt = set (g normal)" by (simp add: inj_on_image_eq_iff [OF branches_okD(2) [OF bs]])
    then show ?thesis using opt(1) full [OF n(1)] n(2) unfolding res by auto
  qed
qed

subsection \<open>What is merged\<close>

lemma base_mergeable_get:
  assumes "base_mergeable read keys = Inr base" "k \<in> set keys"
  shows "\<exists>v. read k = Inr v \<and> hm_get base k = Some (case v of Some n \<Rightarrow> n | None \<Rightarrow> 0)"
proof -
  let ?step = "\<lambda>m h. rbind (read h) (\<lambda>v. Inr (hm_put h (case v of Some n \<Rightarrow> n | None \<Rightarrow> 0) m))"
  have "\<exists>v. read k = Inr v \<and> hm_get base k = Some (case v of Some n \<Rightarrow> n | None \<Rightarrow> 0)"
    if "fold_res ?step m ks = Inr base"
      "k \<in> set ks \<or> (\<exists>v. read k = Inr v \<and> hm_get m k = Some (case v of Some n \<Rightarrow> n | None \<Rightarrow> 0))" for m ks
    using that
  proof (induction ks arbitrary: m)
    case (Cons h ks)
    then obtain v where v: "read h = Inr v" "fold_res ?step (hm_put h (case v of Some n \<Rightarrow> n | None \<Rightarrow> 0) m) ks = Inr base" by auto
    show ?case by (rule Cons.IH [OF v(2)]) (use Cons.prems(2) v(1) in \<open>cases "h = k", auto\<close>)
  qed simp
  with assms show ?thesis unfolding base_mergeable_def by blast
qed

lemma all_channel_keys_touched:
  assumes "set items \<subseteq> set (concat bs)" "touches mc k items" shows "k \<in> set (all_channel_keys mc bs)"
proof -
  obtain r e where "r \<in> set items" "hm_get (mc r) k = Some e" using assms(2) by (auto simp: touches_def list_ex_iff)
  then have "r \<in> set (concat bs)" "k \<in> fst ` set (mc r)" using assms(1) by (auto dest!: map_of_SomeD intro: rev_image_eqI)
  then show ?thesis by (auto simp: all_channel_keys_def)
qed

lemma mset_concat_cong: "mset xs = mset ys \<Longrightarrow> mset (concat xs) = mset (concat ys)"
  by (drule arg_cong [of _ _ "\<lambda>m. sum_mset (image_mset mset m)"]) (simp add: mset_concat sum_mset_sum_list flip: mset_map)

lemma mset_to_merge_items: "mset (to_merge_items c r) = mset (concat (to_merge r))"
proof -
  have "mset (concat (map (sort_by c) bs)) = mset (concat bs)" for bs by (induction bs) simp_all
  moreover have "mset (concat (sort_by (compare_branches c) bs)) = mset (concat bs)" for bs
    by (rule mset_concat_cong) simp
  ultimately show ?thesis by (simp add: to_merge_items_def)
qed

lemma accepted_branches:
  assumes "branches_ok bs" "C \<subseteq> set bs"
  shows "mset (filter (\<lambda>b. b \<notin> full_option c mc base bs C) bs)
    = mset (fst (accept mc base (sort_by (compare_branches c) (filter (\<lambda>b. b \<notin> C) bs))))"
proof -
  let ?D = "filter (\<lambda>b. b \<notin> C) bs"
  let ?A = "fst (accept mc base (sort_by (compare_branches c) ?D))"
  have d: "distinct bs" by (rule branches_okD(1) [OF assms(1)])
  have "set ?A \<subseteq> set ?D" using accept_subset [of mc base "sort_by (compare_branches c) ?D"] by simp
  moreover have "set (fold_rejection c base ?D mc) = set ?D - set ?A"
    using fold_rejection_set [OF assms(1), of ?D c base mc] d by auto
  ultimately have "set (filter (\<lambda>b. b \<notin> full_option c mc base bs C) bs) = set ?A"
    by (auto simp: full_option_def)
  moreover have "distinct ?A" by (rule accept_distinct) (simp add: d)
  ultimately show ?thesis using d by (intro set_eq_iff_mset_eq_distinct [THEN iffD1]) simp_all
qed

lemma key_partition:
  assumes "M \<union> X = B" "M \<inter> X = {}" "B \<inter> D = {}" "B \<union> D = A" "inj_on key A" "R = L \<union> key ` D \<union> key ` X"
  shows "key ` M \<union> R = key ` A \<union> L" "key ` M \<inter> R \<subseteq> L"
proof -
  show "key ` M \<union> R = key ` A \<union> L" using assms(1,4,6) by auto
  have "key ` M \<inter> key ` X = key ` (M \<inter> X)" "key ` M \<inter> key ` D = key ` (M \<inter> D)"
    by (intro inj_on_image_Int [OF assms(5), symmetric]; use assms(1,4) in blast)+
  moreover have "M \<inter> D = {}" using assms(1,3) by blast
  ultimately show "key ` M \<inter> R \<subseteq> L" using assms(2,6) by auto
qed

subsection \<open>The contract of the callbacks\<close>

definition branch_cost :: "('r \<Rightarrow> u64) \<Rightarrow> 'r branch \<Rightarrow> u64" where
  "branch_cost cost b = sum_list (map cost b)"

text \<open>The units that are not held back by a late unit.\<close>

definition merge_candidates :: "('r \<Rightarrow> 'k) \<Rightarrow> ('r \<Rightarrow> 'r \<Rightarrow> bool) \<Rightarrow> 'r list \<Rightarrow> 'r list \<Rightarrow> 'r hset" where
  "merge_candidates key depends_fn actual late =
     filter (\<lambda>i. \<not> list_ex (depends_fn i) (hset_collect key late)) (hset_collect key actual)"

definition late_dependents :: "('r \<Rightarrow> 'k) \<Rightarrow> ('r \<Rightarrow> 'r \<Rightarrow> bool) \<Rightarrow> 'r list \<Rightarrow> 'r list \<Rightarrow> 'r hset" where
  "late_dependents key depends_fn actual late =
     filter (\<lambda>i. list_ex (depends_fn i) (hset_collect key late)) (hset_collect key actual)"

locale conflict_resolution =
  fixes compute_branches :: "'r hset \<Rightarrow> (history_error, 'r branch hset) res"
    and compute_conflict_map :: "'r branch hset \<Rightarrow> (history_error, 'r branch relation_map) res"
  assumes branches_partition: "distinct s \<Longrightarrow> compute_branches s = Inr bs \<Longrightarrow> branches_ok bs \<and> set (concat bs) = set s"
    and conflict_keys: "branches_ok bs \<Longrightarrow> compute_conflict_map bs = Inr m \<Longrightarrow> conflict_map_ok bs m"
begin

text \<open>
  The result is the set of branches that a cheapest full option leaves: \<open>resolved_by\<close> collects
  the branches, the conflict map, the balances of the base and the cover the option starts from.
\<close>

definition resolved_by where
  "resolved_by c key actual late depends_fn cost mc get_data_fn r bs m base C \<longleftrightarrow>
     compute_branches (merge_candidates key depends_fn actual late) = Inr bs \<and> compute_conflict_map bs = Inr m
     \<and> base_mergeable (convert_to_read_number get_data_fn) (all_channel_keys mc bs) = Inr base
     \<and> minimal_cover (map_edges m) C
     \<and> to_merge r = filter (\<lambda>b. b \<notin> full_option c mc base bs C) bs
     \<and> hkeys key (rejected r) = hkeys key late \<union> hkeys key (late_dependents key depends_fn actual late)
         \<union> (\<Union>b \<in> full_option c mc base bs C. key ` set b)
     \<and> set (rejected r) \<subseteq> set late \<union> set (late_dependents key depends_fn actual late) \<union> \<Union> (set ` full_option c mc base bs C)
     \<and> (\<forall>C'. minimal_cover (map_edges m) C' \<longrightarrow>
         sum (branch_cost cost) (full_option c mc base bs C) \<le> sum (branch_cost cost) (full_option c mc base bs C'))"

lemma candidates_distinct: "distinct (merge_candidates key depends_fn actual late)"
  using hset_collect_distinct [of key actual] by (simp add: merge_candidates_def distinct_map)

lemma resolve_conflicts_by:
  assumes ord: "ord_contract c"
    and res: "resolve_conflicts c key actual late depends_fn cost mc get_data_fn compute_branches compute_conflict_map = Inr r"
  obtains bs m base C where "resolved_by c key actual late depends_fn cost mc get_data_fn r bs m base C"
proof -
  let ?late = "hset_collect key late" and ?f = "\<lambda>branch. sum_list (map cost branch)"
  obtain bs m base opt where bs: "compute_branches (merge_candidates key depends_fn actual late) = Inr bs"
    and m: "compute_conflict_map bs = Inr m"
    and base: "base_mergeable (convert_to_read_number get_data_fn) (all_channel_keys mc bs) = Inr base"
    and opt: "get_optimal_rejection c (get_merged_result_rejection c bs (compute_rejection_options m) base mc) ?f = (Inr opt :: (history_error, _) res)"
    and r: "r = \<lparr>to_merge = filter (\<lambda>b. \<not> listed opt b) bs,
      rejected = hset_collect key (?late @ late_dependents key depends_fn actual late @ concat opt)\<rparr>"
    using res by (auto simp: resolve_conflicts_def Let_def merge_candidates_def late_dependents_def o_def)
  note bs_ok = branches_partition [OF candidates_distinct bs, THEN conjunct1] and m_ok = conflict_keys [OF bs_ok m]
  note opts = merged_options [OF bs_ok m_ok, where c = c and base = base and mc = mc]
  note best = get_optimal_rejection_min [OF ord opt opts(1)]
  obtain C where C: "minimal_cover (map_edges m) C" "set opt = full_option c mc base bs C" "distinct opt"
    using opts(2) [OF best(1)] by blast
  have cost_set: "option_cost ?f o' = sum (branch_cost cost) (set o')" if "distinct o'" for o'
    using that by (simp add: option_cost_def branch_cost_def [abs_def] sum_list_distinct_conv_sum_set)
  have "sum (branch_cost cost) (full_option c mc base bs C) \<le> sum (branch_cost cost) (full_option c mc base bs C')"
    if C': "minimal_cover (map_edges m) C'" for C'
  proof -
    obtain o' where o': "o' \<in> set (get_merged_result_rejection c bs (compute_rejection_options m) base mc)" "set o' = full_option c mc base bs C'"
      using opts(3) [OF C'] by blast
    then have "distinct o'" using opts(2) by blast
    then show ?thesis using best(2) [OF o'(1)] cost_set C(2,3) o'(2) by simp
  qed
  moreover have "set opt \<subseteq> set bs"
    unfolding C(2) using full_option_subset [OF bs_ok minimal_cover_subset [OF _ _ _ C(1)]] m_ok by (simp add: conflict_map_ok_def)
  then have "filter (\<lambda>b. \<not> listed opt b) bs = filter (\<lambda>b. b \<notin> full_option c mc base bs C) bs"
    using listed_iff [OF bs_ok] C(2) by (intro filter_cong) auto
  moreover have "hkeys key (concat opt) = (\<Union>b \<in> full_option c mc base bs C. key ` set b)" using C(2) by (auto simp: hkeys_def)
  moreover have "set (rejected r) \<subseteq> set late \<union> set (late_dependents key depends_fn actual late) \<union> \<Union> (set ` full_option c mc base bs C)"
    using hset_elements(2) [of key "?late @ late_dependents key depends_fn actual late @ concat opt"] hset_elements(2) [of key late] C(2)
    by (auto simp: r)
  ultimately have "resolved_by c key actual late depends_fn cost mc get_data_fn r bs m base C"
    using bs m base C(1) by (simp add: resolved_by_def r Un_assoc)
  then show ?thesis by (rule that)
qed

lemma resolved_byD:
  assumes "resolved_by c key actual late depends_fn cost mc get_data_fn r bs m base C"
  shows "branches_ok bs" "set (concat bs) = set (merge_candidates key depends_fn actual late)" "conflict_map_ok bs m" "C \<subseteq> set bs"
    "minimal_cover (map_edges m) C" "to_merge r = filter (\<lambda>b. b \<notin> full_option c mc base bs C) bs"
    "base_mergeable (convert_to_read_number get_data_fn) (all_channel_keys mc bs) = Inr base"
proof -
  have bs: "compute_branches (merge_candidates key depends_fn actual late) = Inr bs" and m: "compute_conflict_map bs = Inr m"
    using assms by (simp_all add: resolved_by_def)
  show ok: "branches_ok bs" "set (concat bs) = set (merge_candidates key depends_fn actual late)"
    using branches_partition [OF candidates_distinct bs] by simp_all
  show map: "conflict_map_ok bs m" by (rule conflict_keys [OF ok(1) m])
  show C: "minimal_cover (map_edges m) C" "to_merge r = filter (\<lambda>b. b \<notin> full_option c mc base bs C) bs"
    "base_mergeable (convert_to_read_number get_data_fn) (all_channel_keys mc bs) = Inr base"
    using assms by (simp_all add: resolved_by_def)
  show "C \<subseteq> set bs" by (rule minimal_cover_subset [OF _ _ _ C(1)]) (use map in \<open>simp_all add: conflict_map_ok_def\<close>)
qed

lemma resolved_partition:
  assumes "resolved_by c key actual late depends_fn cost mc get_data_fn r bs m base C"
  shows "hkeys key (concat (to_merge r)) \<union> hkeys key (rejected r) = hkeys key actual \<union> hkeys key late"
    "hkeys key (concat (to_merge r)) \<inter> hkeys key (rejected r) \<subseteq> hkeys key late"
proof -
  let ?cand = "merge_candidates key depends_fn actual late" and ?dep = "late_dependents key depends_fn actual late"
  let ?F = "full_option c mc base bs C"
  note D = resolved_byD [OF assms]
  have bs: "branches_ok bs" "set (concat bs) = set ?cand" by (rule D(1), rule D(2))
  have merged: "set (concat (to_merge r)) = \<Union> (set ` (set bs - ?F))" unfolding D(6) by auto
  have rej: "hkeys key (rejected r) = hkeys key late \<union> hkeys key ?dep \<union> (\<Union>b \<in> ?F. key ` set b)"
    using assms by (simp add: resolved_by_def)
  have F: "?F \<subseteq> set bs" by (rule full_option_subset [OF D(1,4)])
  have inj: "inj_on key (set (hset_collect key actual))" using hset_collect_distinct [of key actual] by (simp add: distinct_map)
  let ?M = "set (concat (to_merge r))" and ?X = "\<Union> (set ` ?F)"
  have "\<Union> (set ` (B - G)) \<union> \<Union> (set ` G) = \<Union> (set ` B)" if "G \<subseteq> B" for B G :: "'r branch set" using that by auto
  then have MX: "?M \<union> ?X = set ?cand" using merged F bs(2) by simp
  have disj: "?M \<inter> ?X = {}"
  proof (rule equals0I)
    fix x assume "x \<in> ?M \<inter> ?X"
    then obtain a b where "a \<in> set bs" "a \<notin> ?F" "x \<in> set a" "b \<in> ?F" "x \<in> set b" unfolding merged by blast
    then show False using branches_okD(4) [OF bs(1), of a b] F by blast
  qed
  have dep: "set ?cand \<inter> set ?dep = {}" "set ?cand \<union> set ?dep = set (hset_collect key actual)"
    by (auto simp: merge_candidates_def late_dependents_def)
  have all: "hkeys key actual = key ` set (hset_collect key actual)" "hkeys key (rejected r) = hkeys key late \<union> key ` set ?dep \<union> key ` ?X"
    using hkeys_collect [of key actual] rej by (simp_all add: hkeys_def image_UN)
  note key_partition [OF MX disj dep inj all(2)]
  then show "hkeys key (concat (to_merge r)) \<union> hkeys key (rejected r) = hkeys key actual \<union> hkeys key late"
    "hkeys key (concat (to_merge r)) \<inter> hkeys key (rejected r) \<subseteq> hkeys key late"
    unfolding all(1) hkeys_def [of key "concat (to_merge r)"] .
qed

lemma resolved_conflict_free:
  assumes "resolved_by c key actual late depends_fn cost mc get_data_fn r bs m base C"
    "a \<in> set (to_merge r)" "b \<in> set (to_merge r)"
  shows "(a, b) \<notin> map_edges m"
  using assms by (auto simp: resolved_by_def minimal_cover_def vertex_cover_def full_option_def)

lemma resolved_late_free:
  assumes "resolved_by c key actual late depends_fn cost mc get_data_fn r bs m base C" "x \<in> set (concat (to_merge r))"
  shows "\<not> list_ex (depends_fn x) (hset_collect key late)"
proof -
  note D = resolved_byD [OF assms(1)]
  have "x \<in> set (concat bs)" using assms(2) unfolding D(6) by auto
  then have "x \<in> set (merge_candidates key depends_fn actual late)" unfolding D(2) .
  then show ?thesis by (simp add: merge_candidates_def)
qed

lemma resolved_numbers:
  assumes r: "resolved_by c key actual late depends_fn cost mc get_data_fn r bs m base C" and ok: "list_all (\<lambda>x. hm_ok (mc x)) actual"
    and chans: "combine_all_channels mc (to_merge_items c r) = Inr chans" "hm_get chans k = Some (d, IntegerAdd)"
  shows "\<exists>v. convert_to_read_number get_data_fn k = Inr v
    \<and> 0 \<le> sint ((case v of Some n \<Rightarrow> n | None \<Rightarrow> 0) + d)
    \<and> sint ((case v of Some n \<Rightarrow> n | None \<Rightarrow> 0) + d)
      = sint (case v of Some n \<Rightarrow> n | None \<Rightarrow> 0) + (\<Sum>b \<leftarrow> to_merge r. sint (total_diff mc k b))"
proof -
  let ?A = "fst (accept mc base (sort_by (compare_branches c) (filter (\<lambda>b. b \<notin> C) bs)))"
  note D = resolved_byD [OF r]
  have A: "mset (to_merge r) = mset ?A" using accepted_branches [OF D(1,4)] D(6) by simp
  then have items: "mset (to_merge_items c r) = mset (concat ?A)"
    unfolding mset_to_merge_items by (rule mset_concat_cong)
  have "set (concat bs) \<subseteq> set actual" unfolding D(2) using hset_elements(2) [of key actual] by (auto simp: merge_candidates_def)
  then have bs_ok: "list_all (\<lambda>b. list_all (\<lambda>r. hm_ok (mc r)) b) bs" using ok by (auto simp: list_all_iff)
  have merged: "set (to_merge_items c r) \<subseteq> set (concat bs)" using mset_eq_setD [OF mset_to_merge_items [of c r]] D(6) by auto
  then have items_ok: "list_all (\<lambda>x. hm_ok (mc x)) (to_merge_items c r)" using bs_ok by (auto simp: list_all_iff)
  have get: "list_all (adding mc k) (to_merge_items c r)" "touches mc k (to_merge_items c r)" "d = total_diff mc k (to_merge_items c r)"
    using fold_channels_get [OF chans(1) [unfolded combine_all_channels_def], of k] chans(2) items_ok by (simp_all add: list_all_iff)
  have touched: "touches mc k (concat ?A)" and d: "d = total_diff mc k (concat ?A)"
    using get(2,3) channel_sums_mset [OF items] by simp_all
  have add: "list_all (\<lambda>b. list_all (adding mc k) b) ?A"
    using get(1) mset_eq_setD [OF items] by (auto simp: list_all_iff)
  have "list_all (\<lambda>b. list_all (\<lambda>r. hm_ok (mc r)) b) (sort_by (compare_branches c) (filter (\<lambda>b. b \<notin> C) bs))"
    using bs_ok by (auto simp: list_all_iff)
  note ab = accept_balance [OF this add]
  have bal: "sint (balance base k + d) = sint (balance base k) + (\<Sum>b \<leftarrow> ?A. sint (total_diff mc k b))" "0 \<le> sint (balance base k + d)"
    unfolding d ab [THEN conjunct1, symmetric] using ab touched by blast+
  obtain v where v: "convert_to_read_number get_data_fn k = Inr v" "hm_get base k = Some (case v of Some n \<Rightarrow> n | None \<Rightarrow> 0)"
    using base_mergeable_get [OF D(7) all_channel_keys_touched [OF merged get(2)]] by blast
  have "(\<Sum>b \<leftarrow> to_merge r. sint (total_diff mc k b)) = (\<Sum>b \<leftarrow> ?A. sint (total_diff mc k b))"
    using arg_cong [OF A, of "\<lambda>m. sum_mset (image_mset (\<lambda>b. sint (total_diff mc k b)) m)"] by (simp add: sum_mset_sum_list flip: mset_map)
  then show ?thesis using bal v by (simp add: balance_def)
qed

end

end
