(* ===== verification/DagMergerSpec.thy ===== *)
theory DagMergerSpec
  imports DagMerger ConflictSetSpec BlockDagSpec
begin

section \<open>What the merge of a DAG keeps\<close>

text \<open>
  The order of deploy chains is an order, and the branches and the conflict map of
  dag_merger.rs satisfy the contract of the conflict resolution; from this follow the properties
  of the merge.
\<close>

subsection \<open>The order of chains\<close>

interpretation chain_order: ord_contract chain_cmp
proof -
  have first: "ord_contract (cmp_first cmp :: bytes option \<Rightarrow> _)"
    using cmp_first_ord [OF cmp_ord_contract [of "\<lambda>x. x"]] .
  show "ord_contract chain_cmp"
    unfolding chain_cmp_def
    by (intro then_with_ord_contract reverse_ord_contract cmp_ord_contract key_ord_contract [OF first])
qed

subsection \<open>The contract of the resolution\<close>

text \<open>Maps built by marking pairs.\<close>

lemma set_alist_update: "set (AList.update k v m) \<subseteq> insert (k, v) (set m)"
  by (induction m) auto

lemma relate_ok:
  assumes "hm_ok m" "list_all (\<lambda>(_, s). distinct s) m"
  shows "hm_ok (relate a b m)" "list_all (\<lambda>(_, s). distinct s) (relate a b m)"
proof -
  show "hm_ok (relate a b m)" using assms(1) by (simp add: relate_def split: option.split)
  show "list_all (\<lambda>(_, s). distinct s) (relate a b m)"
  proof (cases "hm_get m a")
    case (Some s)
    then have "distinct s" using assms(2) by (auto simp: list_all_iff dest!: map_of_SomeD)
    then have "distinct (hset_insert (\<lambda>x. x) b s)" by (simp add: hset_insert_def hkeys_def)
    then show ?thesis using Some assms(2) set_alist_update [of a "hset_insert (\<lambda>x. x) b s" m]
      by (fastforce simp: relate_def list_all_iff)
  qed (use assms(2) in \<open>simp add: relate_def\<close>)
qed

lemma mark_pairs_ok:
  assumes "hm_ok m" "list_all (\<lambda>(_, s). distinct s) m"
  shows "hm_ok (mark_pairs branches pairs m)" "list_all (\<lambda>(_, s). distinct s) (mark_pairs branches pairs m)"
  using assms
  by (induction pairs arbitrary: m) (auto simp: mark_pairs_def mark_pair_def relate_ok)

lemma mark_pairs_append: "mark_pairs branches (ps @ qs) m = mark_pairs branches qs (mark_pairs branches ps m)"
  by (simp add: mark_pairs_def)

lemma init_map_ok: "hm_ok (init_map items)" "list_all (\<lambda>(_, s). distinct s) (init_map items)"
proof -
  have "hm_ok m \<Longrightarrow> hm_ok (foldl (\<lambda>m x. hm_put x [] m) m items)" for m :: "('a, 'b list) hmap"
    by (induction items arbitrary: m) simp_all
  from this [of "[]"] show ok: "hm_ok (init_map items)" by (simp add: init_map_def)
  then show "list_all (\<lambda>(_, s). distinct s) (init_map items)"
    unfolding list_all_iff using init_map_get [of items]
    by (metis (mono_tags, lifting) case_prodI2 distinct.simps(1) hm_ok_def map_of_eq_Some_iff option.distinct(1) option.inject)
qed

lemma marked_map_ok:
  assumes "distinct bs" "set pairs \<subseteq> {(i, j). i < length bs \<and> j < length bs \<and> i \<noteq> j}"
  shows "conflict_map_ok bs (mark_pairs bs pairs (init_map bs))"
    "map_edges (mark_pairs bs pairs (init_map bs)) = (\<lambda>(a, b). (bs ! a, bs ! b)) ` (set pairs \<union> (set pairs)\<inverse>)"
proof -
  have "\<forall>(a, b) \<in> set pairs. bs ! a \<in> dom (hm_get (init_map bs)) \<and> bs ! b \<in> dom (hm_get (init_map bs))"
    using assms(2) by auto
  from mark_pairs_map [OF this, THEN conjunct2]
  show E: "map_edges (mark_pairs bs pairs (init_map bs)) = (\<lambda>(a, b). (bs ! a, bs ! b)) ` (set pairs \<union> (set pairs)\<inverse>)"
    unfolding init_map_edges Un_empty_left .
  have "sym (map_edges (mark_pairs bs pairs (init_map bs)))" unfolding E by (force simp: sym_def)
  moreover have "irrefl (map_edges (mark_pairs bs pairs (init_map bs)))"
    unfolding E using assms by (auto simp: irrefl_def nth_eq_iff_index_eq)
  moreover have "map_edges (mark_pairs bs pairs (init_map bs)) \<subseteq> set bs \<times> set bs"
    unfolding E using assms(2) by auto
  ultimately show "conflict_map_ok bs (mark_pairs bs pairs (init_map bs))"
    unfolding conflict_map_ok_def by (intro conjI mark_pairs_ok init_map_ok)
qed

text \<open>The user deploys that several branches hold.\<close>

lemma user_deploy_ids_distinct: "distinct (user_deploy_ids b)"
  using hset_collect_distinct [of "\<lambda>i. i"] by (simp add: user_deploy_ids_def)

lemma note_branch_get:
  assumes "distinct ds"
  shows "hm_get (foldl (note_branch idx) m ds) d =
    (if d \<in> set ds then Some ((case hm_get m d of Some l \<Rightarrow> l | None \<Rightarrow> []) @ [idx]) else hm_get m d)"
  using assms by (induction ds arbitrary: m) (auto simp: note_branch_def update_conv')

lemma note_branch_ok: "hm_ok m \<Longrightarrow> hm_ok (foldl (note_branch idx) m ds)"
  by (induction ds arbitrary: m) (simp_all add: note_branch_def)

lemma deploy_to_branches_get:
  "hm_get (deploy_to_branches bs) d =
    (let l = filter (\<lambda>i. d \<in> set (user_deploy_ids (bs ! i))) [0..<length bs] in if l = [] then None else Some l)"
proof (induction bs rule: rev_induct)
  case Nil
  show ?case by (simp add: deploy_to_branches_def)
next
  case (snoc b bs)
  have "filter (\<lambda>i. d \<in> set (user_deploy_ids ((bs @ [b]) ! i))) [0..<length bs] =
      filter (\<lambda>i. d \<in> set (user_deploy_ids (bs ! i))) [0..<length bs]"
    by (rule filter_cong) (auto simp: nth_append)
  moreover have "deploy_to_branches (bs @ [b]) = foldl (note_branch (length bs)) (deploy_to_branches bs) (user_deploy_ids b)"
    by (simp add: deploy_to_branches_def enumerate_append_eq)
  ultimately show ?case
    using snoc by (simp add: note_branch_get [OF user_deploy_ids_distinct] Let_def)
qed

lemma deploy_to_branches_ok: "hm_ok (deploy_to_branches bs)"
proof -
  have "hm_ok m \<Longrightarrow> hm_ok (foldl (\<lambda>m (idx, b). foldl (note_branch idx) m (user_deploy_ids b)) m xs)" for m xs
    by (induction xs arbitrary: m) (simp_all add: note_branch_ok split: prod.splits)
  from this [of "[]"] show ?thesis by (simp add: deploy_to_branches_def)
qed

definition same_deploy_pairs :: "deploy_chain_index branch list \<Rightarrow> (nat \<times> nat) list" where
  "same_deploy_pairs bs = concat (map (\<lambda>(_, ids). position_pairs ids)
     (filter (\<lambda>(_, ids). \<not> length ids < 2) (deploy_to_branches bs)))"

lemma mark_same_deploys_pairs: "mark_same_deploys bs m = mark_pairs bs (same_deploy_pairs bs) m"
proof -
  have "foldl (\<lambda>m (_, ids). mark_pairs bs (position_pairs ids) m) m es =
      mark_pairs bs (concat (map (\<lambda>(_, ids). position_pairs ids) es)) m" for es :: "(bytes \<times> nat list) list"
  proof (induction es arbitrary: m)
    case (Cons e es)
    then show ?case by (cases e) (simp add: mark_pairs_append)
  qed (simp add: mark_pairs_def)
  then show ?thesis by (simp add: mark_same_deploys_def same_deploy_pairs_def)
qed

lemma position_pairs_short: "length ids < 2 \<Longrightarrow> position_pairs ids = []"
  by (cases ids) (auto simp: less_Suc_eq)

lemma position_pairs_either:
  assumes "distinct ids"
  shows "(i, j) \<in> set (position_pairs ids) \<or> (j, i) \<in> set (position_pairs ids) \<longleftrightarrow> i \<noteq> j \<and> i \<in> set ids \<and> j \<in> set ids"
  using position_pairs_sound [OF assms, of i j] position_pairs_sound [OF assms, of j i] position_pairs_complete [of i ids j] by blast

lemma same_deploy_pairs_iff:
  "set (same_deploy_pairs bs) \<union> (set (same_deploy_pairs bs))\<inverse> =
    {(i, j). i < length bs \<and> j < length bs \<and> i \<noteq> j \<and> set (user_deploy_ids (bs ! i)) \<inter> set (user_deploy_ids (bs ! j)) \<noteq> {}}"
proof -
  let ?pos = "\<lambda>d. filter (\<lambda>i. d \<in> set (user_deploy_ids (bs ! i))) [0..<length bs]"
  have entry: "(d, ids) \<in> set (deploy_to_branches bs) \<longleftrightarrow> ids = ?pos d \<and> ids \<noteq> []" for d ids
  proof -
    have "(d, ids) \<in> set (deploy_to_branches bs) \<longleftrightarrow> hm_get (deploy_to_branches bs) d = Some ids"
      using deploy_to_branches_ok [of bs] by (simp add: hm_ok_def)
    then show ?thesis unfolding deploy_to_branches_get Let_def by (cases "?pos d = []") auto
  qed
  have pair: "(i, j) \<in> set (same_deploy_pairs bs) \<longleftrightarrow> (\<exists>d. (i, j) \<in> set (position_pairs (?pos d)))" for i j
  proof
    assume "(i, j) \<in> set (same_deploy_pairs bs)"
    then obtain d ids where ids: "(d, ids) \<in> set (deploy_to_branches bs)" "(i, j) \<in> set (position_pairs ids)"
      unfolding same_deploy_pairs_def by auto
    from ids(1) have "ids = ?pos d" by (simp only: entry)
    with ids(2) show "\<exists>d. (i, j) \<in> set (position_pairs (?pos d))" by (intro exI [of _ d]) (simp only:)
  next
    assume "\<exists>d. (i, j) \<in> set (position_pairs (?pos d))"
    then obtain d where d: "(i, j) \<in> set (position_pairs (?pos d))" by blast
    then have "\<not> length (?pos d) < 2" using position_pairs_short by force
    moreover from this have "(d, ?pos d) \<in> set (deploy_to_branches bs)" by (auto simp: entry)
    ultimately show "(i, j) \<in> set (same_deploy_pairs bs)" using d unfolding same_deploy_pairs_def by force
  qed
  have "(i, j) \<in> set (same_deploy_pairs bs) \<union> (set (same_deploy_pairs bs))\<inverse> \<longleftrightarrow>
      (\<exists>d. i \<noteq> j \<and> i \<in> set (?pos d) \<and> j \<in> set (?pos d))" for i j
    unfolding Un_iff converse_iff pair position_pairs_either [OF distinct_filter [OF distinct_upt], symmetric] by (rule ex_disj_distrib [symmetric])
  then have "(i, j) \<in> set (same_deploy_pairs bs) \<union> (set (same_deploy_pairs bs))\<inverse> \<longleftrightarrow>
      i < length bs \<and> j < length bs \<and> i \<noteq> j \<and> set (user_deploy_ids (bs ! i)) \<inter> set (user_deploy_ids (bs ! j)) \<noteq> {}" for i j
    by (simp only: set_filter set_upt mem_Collect_eq atLeastLessThan_iff) auto
  then show ?thesis by (intro set_eqI) (simp only: split_paired_all mem_Collect_eq case_prod_conv)
qed

lemma race_pairs_range:
  assumes "(i, j) \<in> set (race_pairs key pers (index_logs key des logs) (index_logs key mer logs))"
  shows "i < j \<and> j < length logs"
proof -
  obtain x s where xs: "(x, s) \<in> set (index_logs key des logs)" "(i, j) \<in> set (race_entry key pers (index_logs key mer logs) x s)"
    using assms unfolding race_pairs_def by auto
  have "distinct s" using index_logs_ok [of key des logs] xs(1) by (auto simp: index_ok_def)
  with xs(2) have "i < j" "j \<in> set s" by (simp_all add: race_entry_iff [OF index_logs_ok])
  then show ?thesis using index_entry [OF index_logs_ok xs(1), of j] by (simp add: index_logs_rel)
qed

lemma conflict_pairs_range:
  assumes "(i, j) \<in> set (conflict_pairs logs)" shows "i < j \<and> j < length logs"
proof -
  have "set (positions_of P logs) \<subseteq> {..<length logs}" for P by (auto simp: set_positions_of)
  note global = global_pairs_iff [OF this]
  from assms show ?thesis
    unfolding conflict_pairs_logs set_append Un_iff meeting_pairs_logs global by (elim disjE conjE) (assumption | drule race_pairs_range | intro conjI)+
qed

lemma event_map_pairs:
  assumes "compute_conflict_map_event_indexed bs logs = (Inr m :: ('e, _) res)"
  shows "\<exists>pairs. m = mark_pairs bs pairs (init_map bs) \<and> set pairs \<subseteq> {(i, j). i < length bs \<and> j < length bs \<and> i \<noteq> j}"
proof (cases "length bs < 2")
  case True
  then show ?thesis using assms by (intro exI [of _ "[]"]) (auto simp: compute_conflict_map_event_indexed_def mark_pairs_def split: if_splits)
next
  case False
  then have "m = mark_pairs bs (conflict_pairs logs) (init_map bs)" "length logs = length bs"
    using assms by (auto simp: compute_conflict_map_event_indexed_def split: if_splits)
  moreover have "set (conflict_pairs logs) \<subseteq> {(i, j). i < length logs \<and> j < length logs \<and> i \<noteq> j}" 
    using conflict_pairs_range [of _ _ logs] by fastforce
  ultimately show ?thesis by auto
qed

lemma dag_conflict_map_ok:
  assumes "branches_ok bs" "dag_conflict_map bs = Inr m"
  shows "conflict_map_ok bs m"
proof -
  obtain logs m0 where "compute_conflict_map_event_indexed bs logs = (Inr m0 :: (history_error, _) res)" and m: "m = mark_same_deploys bs m0"
    using assms(2) by (auto simp: dag_conflict_map_def)
  then obtain pairs where pairs: "m0 = mark_pairs bs pairs (init_map bs)" "set pairs \<subseteq> {(i, j). i < length bs \<and> j < length bs \<and> i \<noteq> j}"
    using event_map_pairs by blast
  have m': "m = mark_pairs bs (pairs @ same_deploy_pairs bs) (init_map bs)"
    by (simp add: m pairs(1) mark_same_deploys_pairs mark_pairs_append)
  have "set (same_deploy_pairs bs) \<subseteq> {(i, j). i < length bs \<and> j < length bs \<and> i \<noteq> j}"
    using same_deploy_pairs_iff [of bs] by blast
  then have "set (pairs @ same_deploy_pairs bs) \<subseteq> {(i, j). i < length bs \<and> j < length bs \<and> i \<noteq> j}"
    using pairs(2) by simp
  from marked_map_ok(1) [OF branches_okD(1) [OF assms(1)] this] show ?thesis unfolding m' .
qed

lemma distinct_concat_sets:
  assumes "list_all distinct bs" "distinct (map set bs)"
    and "\<And>a b. a \<in> set bs \<Longrightarrow> b \<in> set bs \<Longrightarrow> set a \<noteq> set b \<Longrightarrow> set a \<inter> set b = {}"
  shows "distinct (concat bs)"
  using assms
proof (induction bs)
  case (Cons b bs)
  have "set b \<inter> set c = {}" if "c \<in> set bs" for c using Cons.prems(2) Cons.prems(3) [of b c] that by auto
  then have "set b \<inter> set (concat bs) = {}" unfolding set_concat by blast
  moreover have "distinct (concat bs)" by (rule Cons.IH) (use Cons.prems in simp_all)
  ultimately show ?case using Cons.prems(1) by simp
qed simp

lemma gathered_branches:
  assumes "sym (map_edges m)" "map_edges m \<subseteq> dom (hm_get m) \<times> dom (hm_get m)"
  shows "branches_ok (gather_related_sets m)" "set (concat (gather_related_sets m)) = dom (hm_get m)"
    "set ` set (gather_related_sets m) = (\<lambda>k. (map_edges m)\<^sup>* `` {k}) ` dom (hm_get m)"
proof -
  let ?E = "map_edges m"
  obtain p where inv: "gather_inv m (hm_keys m) p (gather_related_sets m)" using gather_related_sets_set [OF assms(1)] by blast
  have keys: "set (hm_keys m) = dom (hm_get m)" by (simp add: dom_map_of_conv_image_fst)
  have comps: "set ` set (gather_related_sets m) = (\<lambda>k. ?E\<^sup>* `` {k}) ` dom (hm_get m)"
    and dist: "list_all distinct (gather_related_sets m)" "distinct (map set (gather_related_sets m))"
    using inv unfolding gather_inv_def keys by blast+
  show "set ` set (gather_related_sets m) = (\<lambda>k. ?E\<^sup>* `` {k}) ` dom (hm_get m)" by (rule comps)
  have closed: "?E\<^sup>* `` dom (hm_get m) \<subseteq> dom (hm_get m)" using rtrancl_closed [of ?E "dom (hm_get m)"] assms(2) by blast
  have "set (concat (gather_related_sets m)) = \<Union> (set ` set (gather_related_sets m))" by simp
  also have "\<dots> = dom (hm_get m)" unfolding comps using closed by auto
  finally show "set (concat (gather_related_sets m)) = dom (hm_get m)" .
  have disj: "set a \<inter> set b = {}" if ab: "a \<in> set (gather_related_sets m)" "b \<in> set (gather_related_sets m)" "set a \<noteq> set b" for a b
  proof -
    have comp: "\<exists>k. set c = ?E\<^sup>* `` {k}" if "c \<in> set (gather_related_sets m)" for c
      using imageI [OF that, of set] unfolding comps by auto
    obtain k l where kl: "set a = ?E\<^sup>* `` {k}" "set b = ?E\<^sup>* `` {l}" using comp [OF ab(1)] comp [OF ab(2)] by (elim exE)
    show ?thesis
    proof (rule equals0I)
      fix x assume "x \<in> set a \<inter> set b"
      then have "x \<in> ?E\<^sup>* `` {k}" "x \<in> ?E\<^sup>* `` {l}" using kl by simp_all
      then have "?E\<^sup>* `` {k} = ?E\<^sup>* `` {l}" using component_eq [OF assms(1), of x k] component_eq [OF assms(1), of x l] by simp
      with kl ab(3) show False by simp
    qed
  qed
  have "distinct (concat (gather_related_sets m))" using distinct_concat_sets [OF dist disj] .
  moreover have "[] \<notin> set (gather_related_sets m)"
  proof
    assume "[] \<in> set (gather_related_sets m)"
    then have "{} \<in> (\<lambda>k. ?E\<^sup>* `` {k}) ` dom (hm_get m)" unfolding comps [symmetric] by force
    then show False by blast
  qed
  ultimately show "branches_ok (gather_related_sets m)" by (simp add: branches_ok_def)
qed

lemma position_edges_range: "position_edges bs P \<subseteq> set bs \<times> set bs"
  by (auto simp: position_edges_def)

text \<open>The branches of the merge set: the components of the dependency relation.\<close>

definition dependent :: "deploy_chain_index \<Rightarrow> deploy_chain_index \<Rightarrow> bool" where
  "dependent a b \<longleftrightarrow> depends (dci_event_log_index a) (dci_event_log_index b) \<or> depends (dci_event_log_index b) (dci_event_log_index a)"

lemma dag_branches_components:
  assumes "distinct s" "dag_branches s = Inr bs"
  shows "branches_ok bs" "set (concat bs) = set s"
    "set ` set bs = (\<lambda>x. {(a, b). a \<in> set s \<and> b \<in> set s \<and> a \<noteq> b \<and> dependent a b}\<^sup>* `` {x}) ` set s"
proof -
  let ?logs = "map dci_event_log_index s"
  obtain m where m: "compute_depends_map_event_indexed s ?logs = (Inr m :: (history_error, _) res)" "dom (hm_get m) = set s"
    "map_edges m = position_edges s (\<lambda>i j. depends (?logs ! i) (?logs ! j) \<or> depends (?logs ! j) (?logs ! i))"
    using depends_map_edges [OF assms(1), of ?logs] by auto
  have E: "map_edges m = {(a, b). a \<in> set s \<and> b \<in> set s \<and> a \<noteq> b \<and> dependent a b}"
    unfolding m(3) position_edges_def dependent_def using assms(1)
    by (auto simp: in_set_conv_nth nth_eq_iff_index_eq) (metis nth_map)+
  have bs: "bs = gather_related_sets m" using assms(2) m(1) by (simp add: dag_branches_def)
  have sym: "sym (map_edges m)" unfolding E by (auto simp: sym_def dependent_def)
  have "map_edges m \<subseteq> dom (hm_get m) \<times> dom (hm_get m)" unfolding E m(2) by blast
  note g = gathered_branches [OF sym this]
  show "branches_ok bs" "set (concat bs) = set s" using g by (simp_all only: bs m(2))
  show "set ` set bs = (\<lambda>x. {(a, b). a \<in> set s \<and> b \<in> set s \<and> a \<noteq> b \<and> dependent a b}\<^sup>* `` {x}) ` set s"
    using g(3) unfolding bs E m(2) .
qed

interpretation dag_resolution: conflict_resolution dag_branches dag_conflict_map
  by unfold_locales (use dag_branches_components dag_conflict_map_ok in blast)+

subsection \<open>Descendants in scope\<close>

definition scope_rel :: "dag_representation \<Rightarrow> hash list \<Rightarrow> (hash \<times> hash) set" where
  "scope_rel dag scope = {(x, c). \<exists>cs. children dag x = Some cs \<and> c \<in> set cs \<and> c \<in> set scope}"

lemma visit_in_scope_foldl:
  assumes "foldl (visit_in_scope scope) (queue, visited, result) cs = (queue', visited', result')"
  shows "set queue' = set queue \<union> (set cs \<inter> set scope - set visited)" "set visited' = set visited \<union> (set cs \<inter> set scope)"
    "set result' = set result \<union> (set cs \<inter> set scope - set visited)" "distinct result \<longrightarrow> distinct result'"
  using assms
  by (induction cs arbitrary: queue visited result) (auto simp: visit_in_scope_def hset_insert_def hkeys_def split: if_splits)

definition scope_inv :: "('a \<times> 'a) set \<Rightarrow> 'a set \<Rightarrow> 'a list \<times> 'a list \<times> 'a list \<Rightarrow> bool" where
  "scope_inv E S s \<longleftrightarrow> (case s of (queue, visited, result) \<Rightarrow>
     set visited = S \<union> set result \<and> set result \<inter> S = {} \<and> set result \<subseteq> E\<^sup>+ `` S \<and> set queue \<subseteq> set visited
     \<and> E `` (set visited - set queue) \<subseteq> set visited \<and> distinct result)"

lemma scope_inv_step:
  assumes inv: "scope_inv E S (queue, visited, result)" and q: "queue \<noteq> []"
    and news: "E `` {last queue} = C" "set queue' = set (butlast queue) \<union> (C - set visited)" "set visited' = set visited \<union> C"
      "set result' = set result \<union> (C - set visited)" "distinct result'"
  shows "scope_inv E S (queue', visited', result')"
proof -
  have parts: "set visited = S \<union> set result" "set result \<inter> S = {}" "set result \<subseteq> E\<^sup>+ `` S" "set queue \<subseteq> set visited"
    "E `` (set visited - set queue) \<subseteq> set visited"
    using inv unfolding scope_inv_def prod.case by blast+
  have last: "set queue = insert (last queue) (set (butlast queue))" using q by (metis append_butlast_last_id list.simps(15) rotate1.simps(2) set_rotate1)
  have "last queue \<in> S \<union> E\<^sup>+ `` S" using parts(1,3,4) last by blast
  then have "C \<subseteq> E\<^sup>+ `` S" using news(1) by (auto intro: trancl_into_trancl)
  then have "set result' \<subseteq> E\<^sup>+ `` S" using parts(3) news(4) by blast
  moreover have "E `` (set visited' - set queue') \<subseteq> set visited'"
  proof -
    have "set visited' - set queue' \<subseteq> (set visited - set queue) \<union> {last queue}" using news(2,3) last by blast
    then have "E `` (set visited' - set queue') \<subseteq> E `` (set visited - set queue) \<union> E `` {last queue}" by blast
    then show ?thesis using parts(5) news(1,3) by blast
  qed
  moreover have "set visited' = S \<union> set result'" "set result' \<inter> S = {}" "set queue' \<subseteq> set visited'"
    using parts(1,2,4) news(2,3,4) last by blast+
  ultimately show ?thesis using news(5) by (simp add: scope_inv_def)
qed

lemma scope_loop_exact:
  assumes "scope_inv (scope_rel dag scope) S s"
  shows "distinct (scope_loop dag scope s) \<and> set (scope_loop dag scope s) = (scope_rel dag scope)\<^sup>+ `` S - S"
  using assms
proof (induction dag scope s rule: scope_loop.induct)
  case (1 dag scope s)
  obtain queue visited result where s: "s = (queue, visited, result)" by (cases s)
  let ?E = "scope_rel dag scope"
  show ?case
  proof (cases "queue = []")
    case True
    have inv: "set visited = S \<union> set result" "set result \<inter> S = {}" "set result \<subseteq> ?E\<^sup>+ `` S" "?E `` set visited \<subseteq> set visited" "distinct result"
      using "1.prems" unfolding s scope_inv_def prod.case True list.set(1) Diff_empty by blast+
    have "?E\<^sup>+ `` S \<subseteq> set visited"
      using rtrancl_closed [OF inv(4)] inv(1) trancl_into_rtrancl by (fastforce dest: trancl_into_rtrancl)
    then have "set result = ?E\<^sup>+ `` S - S" using inv by blast
    with True inv(5) show ?thesis by (subst (1 2) scope_loop.simps) (simp add: s)
  next
    case False
    define cs where "cs = (case children dag (last queue) of Some cs \<Rightarrow> cs | None \<Rightarrow> [])"
    obtain queue' visited' result' where f: "foldl (visit_in_scope scope) (butlast queue, visited, result) cs = (queue', visited', result')"
      by (cases "foldl (visit_in_scope scope) (butlast queue, visited, result) cs")
    have C: "?E `` {last queue} = set cs \<inter> set scope" by (cases "children dag (last queue)") (auto simp: scope_rel_def cs_def)
    have "distinct result'" using visit_in_scope_foldl(4) [OF f] "1.prems" by (simp add: s scope_inv_def)
    from scope_inv_step [OF "1.prems" [unfolded s] False C visit_in_scope_foldl(1-3) [OF f] this]
    have "scope_inv ?E S (foldl (visit_in_scope scope) (butlast (fst s), snd s)
        (case children dag (last (fst s)) of None \<Rightarrow> [] | Some cs \<Rightarrow> cs))" using f by (simp add: s cs_def)
    from "1.IH" [OF _ this] False show ?thesis
      by (subst (1 2) scope_loop.simps) (simp add: s)
  qed
qed

lemma scope_descendants:
  "distinct (descendants_within_scope dag start_blocks scope)
    \<and> set (descendants_within_scope dag start_blocks scope) = (scope_rel dag scope)\<^sup>+ `` set start_blocks - set start_blocks"
  unfolding descendants_within_scope_def by (rule scope_loop_exact) (simp add: scope_inv_def)

text \<open>\<open>descendants_within_scope\<close> returns, without repetition, exactly the blocks other than the given ones that are reached from
  them through children in scope.\<close>

theorem scope_descendants_exact:
  "distinct (descendants_within_scope dag start_blocks scope)
    \<and> set (descendants_within_scope dag start_blocks scope) = (scope_rel dag scope)\<^sup>+ `` set start_blocks - set start_blocks"
  by (rule scope_descendants)

subsection \<open>No deploy is lost\<close>

definition chain_ids :: "deploy_chain_index \<Rightarrow> bytes set" where
  "chain_ids chain = dc_deploy_id ` set (deploys_with_cost chain)"

definition source_of :: "deploy_chain_index \<Rightarrow> int \<times> hash" where
  "source_of chain = (source_block_number chain, source_block_hash chain)"

definition sources_ok :: "deploy_chain_index set \<Rightarrow> (bytes, int \<times> hash) hmap \<Rightarrow> bool" where
  "sources_ok C m \<longleftrightarrow> (\<forall>i src. hm_get m i = Some src \<longrightarrow> (\<exists>chain \<in> C. i \<in> chain_ids chain \<and> source_of chain = src))"

lemma note_source_get:
  "hm_get (note_source chain m d) i = (if i = dc_deploy_id d \<and> hm_get (note_source chain m d) i \<noteq> hm_get m i
     then Some (source_of chain) else hm_get m i)"
  by (auto simp: note_source_def source_of_def Let_def update_conv' split: option.splits if_splits prod.splits)

lemma note_source_dom: "dom (hm_get (note_source chain m d)) = insert (dc_deploy_id d) (dom (hm_get m))"
  by (auto simp: note_source_def Let_def dom_update split: option.splits if_splits prod.splits)

lemma note_sources:
  assumes "chain \<in> C" "sources_ok C m" "set ds \<subseteq> set (deploys_with_cost chain)"
  shows "sources_ok C (foldl (note_source chain) m ds) \<and> dom (hm_get (foldl (note_source chain) m ds)) = dc_deploy_id ` set ds \<union> dom (hm_get m)"
  using assms(2,3)
proof (induction ds arbitrary: m)
  case (Cons d ds)
  have "sources_ok C (note_source chain m d)"
    unfolding sources_ok_def
  proof (intro allI impI)
    fix i src assume get: "hm_get (note_source chain m d) i = Some src"
    show "\<exists>ch \<in> C. i \<in> chain_ids ch \<and> source_of ch = src"
    proof (cases "hm_get m i = Some src")
      case True
      then show ?thesis using Cons.prems(1) unfolding sources_ok_def by blast
    next
      case False
      then have "i = dc_deploy_id d" "src = source_of chain" using get note_source_get [of chain m d i] by (auto split: if_splits)
      then show ?thesis using assms(1) Cons.prems(2) by (auto simp: chain_ids_def)
    qed
  qed
  from Cons.IH [OF this] Cons.prems(2) show ?case by (simp add: note_source_dom)
qed simp

lemma latest_sources:
  "sources_ok (set chs) (latest_for_deploy chs) \<and> dom (hm_get (latest_for_deploy chs)) = \<Union> (chain_ids ` set chs)"
proof -
  have "sources_ok C (foldl (\<lambda>m ch. foldl (note_source ch) m (deploys_with_cost ch)) m chs)
      \<and> dom (hm_get (foldl (\<lambda>m ch. foldl (note_source ch) m (deploys_with_cost ch)) m chs)) = \<Union> (chain_ids ` set chs) \<union> dom (hm_get m)"
    if "sources_ok C m" "set chs \<subseteq> C" for C m
    using that
  proof (induction chs arbitrary: m)
    case (Cons ch chs)
    have "sources_ok C (foldl (note_source ch) m (deploys_with_cost ch))
      \<and> dom (hm_get (foldl (note_source ch) m (deploys_with_cost ch))) = chain_ids ch \<union> dom (hm_get m)"
      using note_sources [of ch C m "deploys_with_cost ch"] Cons.prems by (simp add: chain_ids_def)
    with Cons.IH [of "foldl (note_source ch) m (deploys_with_cost ch)"] Cons.prems show ?case by auto
  qed simp
  from this [of "set chs" "[]"] show ?thesis by (simp add: latest_for_deploy_def sources_ok_def)
qed

lemma is_freshest_iff: "hm_get latest (dc_deploy_id d) = Some src \<Longrightarrow> is_freshest latest chain d \<longleftrightarrow> source_of chain = src"
  by (auto simp: is_freshest_def source_of_def split: prod.splits)

lemma dedup_chainsD:
  assumes "dedup_chains chs = (retained, lost)"
  shows "retained = filter (\<lambda>c. list_all (is_freshest (latest_for_deploy chs) c) (deploys_with_cost c)) chs"
    "lost = concat (map (\<lambda>c. map (\<lambda>d. (dc_deploy_id d, source_block_hash c))
       (filter (\<lambda>d. \<not> is_system_deploy_id (dc_deploy_id d) \<and> is_freshest (latest_for_deploy chs) c d) (deploys_with_cost c)))
      (filter (\<lambda>c. \<not> list_all (is_freshest (latest_for_deploy chs) c) (deploys_with_cost c)) chs))"
  using assms unfolding dedup_chains_def Let_def partition_filter_conv prod.case o_def by (cases "chs = []"; simp)+

text \<open>A user deploy of a chain is in a chain that is kept, or it is one of the deploys reported as lost.\<close>

lemma dedup_keeps:
  assumes "ch \<in> set chs" "i \<in> chain_ids ch" "\<not> is_system_deploy_id i" "dedup_chains chs = (retained, lost)"
  shows "(\<exists>ch' \<in> set retained. i \<in> chain_ids ch') \<or> i \<in> fst ` set lost"
proof -
  let ?latest = "latest_for_deploy chs"
  have "i \<in> dom (hm_get ?latest)" using latest_sources [of chs] assms(1,2) by auto
  then obtain src where src: "hm_get ?latest i = Some src" by blast
  then obtain ch' where ch': "ch' \<in> set chs" "i \<in> chain_ids ch'" "source_of ch' = src"
    using latest_sources [of chs] unfolding sources_ok_def by blast
  then obtain d where d: "d \<in> set (deploys_with_cost ch')" "dc_deploy_id d = i" by (auto simp: chain_ids_def)
  have fresh: "is_freshest ?latest ch' d" using is_freshest_iff src ch'(3) d(2) by blast
  note lost = dedup_chainsD [OF assms(4)]
  show ?thesis
  proof (cases "ch' \<in> set retained")
    case True
    with ch'(2) show ?thesis by blast
  next
    case False
    then have "(i, source_block_hash ch') \<in> set lost"
      using ch'(1) d fresh assms(3) unfolding lost by auto
    then show ?thesis by force
  qed
qed

lemma filter_fst: "fst ` set (filter (\<lambda>(i, _). P i) xs) = {i \<in> fst ` set xs. P i}"
  by force

lemma rejected_pairs_ids: "fst ` set (rejected_pairs rej) = \<Union> (chain_ids ` set rej)"
  by (simp add: rejected_pairs_def chain_ids_def image_UN image_image)

lemma rejected_user_ids:
  "fst ` set (rejected_user_deploys rej lost) = {i \<in> \<Union> (chain_ids ` set rej). \<not> is_system_deploy_id i} \<union> fst ` set lost"
proof -
  have "fst ` (set u \<union> set (filter (\<lambda>(i, _). i \<notin> set (map fst u)) l)) = fst ` set u \<union> fst ` set l" for u l :: "(bytes \<times> hash) list"
    by (auto simp only: image_Un filter_fst set_map)
  then show ?thesis
    unfolding rejected_user_deploys_def Let_def sort_by_same set_append by (simp only: filter_fst rejected_pairs_ids)
qed

lemma rejected_slash_ids: "fst ` set (rejected_slashes rej) = {i \<in> \<Union> (chain_ids ` set rej). is_slash_deploy_id i}"
  unfolding rejected_slashes_def sort_by_same filter_fst rejected_pairs_ids ..

subsection \<open>The expansion of the rejection\<close>

lemma hset_insert_all_keys: "hkeys key (foldl (\<lambda>r x. hset_insert key x r) s xs) = hkeys key s \<union> key ` set xs"
  by (induction xs arbitrary: s) auto

lemma expand_rejection_cases:
  "set (to_merge (expand_rejection dag actual r)) \<subseteq> set (to_merge r)"
  "hkeys chain_key (concat (to_merge (expand_rejection dag actual r))) \<union> hkeys chain_key (rejected (expand_rejection dag actual r)) =
   hkeys chain_key (concat (to_merge r)) \<union> hkeys chain_key (rejected r)"
proof -
  show "set (to_merge (expand_rejection dag actual r)) \<subseteq> set (to_merge r)"
    by (simp add: expand_rejection_def Let_def)
  define stale :: "deploy_chain_index branch \<Rightarrow> bool" where "stale = list_ex (\<lambda>chain. source_block_hash chain \<in> set (descendants_within_scope dag
    (hset_collect (\<lambda>h. h) (map source_block_hash (rejected r))) actual))"
  have cases: "expand_rejection dag actual r = r \<or> expand_rejection dag actual r =
      \<lparr>to_merge = filter (\<lambda>b. \<not> stale b) (to_merge r),
       rejected = foldl (\<lambda>r chain. hset_insert chain_key chain r) (rejected r) (concat (filter stale (to_merge r)))\<rparr>"
    unfolding expand_rejection_def Let_def stale_def by simp
  have "chain_key ` set (concat (filter (\<lambda>b. \<not> stale b) bs)) \<union> (R \<union> chain_key ` set (concat (filter stale bs))) =
      chain_key ` set (concat bs) \<union> R" for bs R by auto
  then have "hkeys chain_key (concat (filter (\<lambda>b. \<not> stale b) bs)) \<union> (R \<union> chain_key ` set (concat (filter stale bs))) =
      hkeys chain_key (concat bs) \<union> R" for bs R by (simp only: hkeys_def)
  then show "hkeys chain_key (concat (to_merge (expand_rejection dag actual r))) \<union> hkeys chain_key (rejected (expand_rejection dag actual r)) =
    hkeys chain_key (concat (to_merge r)) \<union> hkeys chain_key (rejected r)"
    using cases by (elim disjE) (simp_all only: resolved_conflicts.simps hset_insert_all_keys)
qed

subsection \<open>The plan of a merge\<close>

lemma walk_err_Inr: "map_option (map_err f) w = Some (Inr x) \<longleftrightarrow> w = Some (Inr x)"
  by auto

lemma dag_mergeD:
  assumes "dag_merge env dag lfb post index hrepo sts cost scope dis = Some (Inr (state, users, slashes, sts'))"
  shows "\<exists>plan. plan_merge env dag lfb post index hrepo sts cost scope dis = Some (Inr plan)
    \<and> users = rejected_user_deploys (rejected (pl_resolved plan)) (pl_collateral plan)
    \<and> slashes = rejected_slashes (rejected (pl_resolved plan))"
  using assms unfolding dag_merge_def wbind_Inr by (auto simp: map_err_eq_Inr)

text \<open>\<open>planned\<close> collects what a plan was made from.\<close>

definition planned ::
  "('c, 'p, 'x, 'k) rho_env \<Rightarrow> dag_representation \<Rightarrow> (hash \<Rightarrow> (casper_error, deploy_chain_index list) res) \<Rightarrow> rspace_store \<Rightarrow>
   (deploy_chain_index \<Rightarrow> u64) \<Rightarrow> hash list \<Rightarrow> hash list \<Rightarrow> merge_plan \<Rightarrow> deploy_chain_index list \<Rightarrow> deploy_chain_index list \<Rightarrow>
   deploy_chain_index resolved_conflicts \<Rightarrow> bool" where
  "planned env dag index sts cost actual late plan retained late_chains r \<longleftrightarrow>
     (\<exists>chs. chains_of index actual = Inr chs \<and> dedup_chains chs = (retained, pl_collateral plan))
     \<and> chains_of index late = Inr late_chains
     \<and> resolve_conflicts chain_cmp chain_key (sort_by chain_cmp retained) (sort_by chain_cmp late_chains) chain_depends cost
         mergeable_channels_of (get_data_proj env (history_kv sts) (pl_reader plan)) dag_branches dag_conflict_map = Inr r
     \<and> pl_resolved plan = expand_rejection dag actual r"

lemma plan_mergeD:
  assumes "plan_merge env dag lfb post index hrepo sts cost scope dis = Some (Inr plan)"
    "actual_blocks dag lfb scope = Some (Inr actual)"
  obtains late retained late_chains r where "late_blocks dag scope dis actual = Some (Inr late)"
    "planned env dag index sts cost actual late plan retained late_chains r"
proof -
  obtain late chs late_chains where late: "late_blocks dag scope dis actual = Some (Inr late)" "chains_of index actual = Inr chs"
      "chains_of index late = Inr late_chains"
    and plan: "(case dedup_chains chs of (retained, lost) \<Rightarrow> map_err CasperHistoryError (
        rbind (get_history_reader env post hrepo sts) (\<lambda>rd.
        rbind (resolve_dag env dag rd sts cost retained late_chains actual) (\<lambda>resolved.
          Inr \<lparr>pl_reader = rd, pl_resolved = resolved, pl_collateral = lost\<rparr>)))) = Inr plan"
    using assms unfolding plan_merge_def wbind_Inr walk_err_Inr by (auto simp: Let_def)
  obtain retained lost where dedup: "dedup_chains chs = (retained, lost)" by (cases "dedup_chains chs")
  from plan late show thesis
    by (intro that [of late retained late_chains "case resolve_conflicts chain_cmp chain_key (sort_by chain_cmp retained)
          (sort_by chain_cmp late_chains) chain_depends cost mergeable_channels_of (get_data_proj env (history_kv sts) (pl_reader plan))
          dag_branches dag_conflict_map of Inr r \<Rightarrow> r"])
      (auto simp: dedup resolve_dag_def planned_def)
qed

lemma chains_of_mem:
  assumes "chains_of index blocks = Inr chs" "h \<in> set blocks"
  shows "\<exists>cs. index h = Inr cs \<and> set cs \<subseteq> set chs"
proof -
  obtain css where css: "sequence_res (map index (sort blocks)) = Inr css" "chs = concat css" using assms(1) by (auto simp: chains_of_def)
  have "sequence_res (map index hs) = Inr css \<Longrightarrow> h \<in> set hs \<Longrightarrow> \<exists>cs \<in> set css. index h = Inr cs" for hs css
    by (induction hs arbitrary: css) auto
  with css assms(2) show ?thesis by force
qed

lemma planned_partition:
  assumes "planned env dag index sts cost actual late plan retained late_chains r"
  shows "hkeys chain_key (concat (to_merge (pl_resolved plan))) \<union> hkeys chain_key (rejected (pl_resolved plan)) =
    hkeys chain_key retained \<union> hkeys chain_key late_chains"
proof -
  have res: "resolve_conflicts chain_cmp chain_key (sort_by chain_cmp retained) (sort_by chain_cmp late_chains) chain_depends cost
      mergeable_channels_of (get_data_proj env (history_kv sts) (pl_reader plan)) dag_branches dag_conflict_map = Inr r"
    and plan: "pl_resolved plan = expand_rejection dag actual r"
    using assms by (simp_all add: planned_def)
  obtain bs m base C where "dag_resolution.resolved_by chain_cmp chain_key (sort_by chain_cmp retained) (sort_by chain_cmp late_chains)
      chain_depends cost mergeable_channels_of (get_data_proj env (history_kv sts) (pl_reader plan)) r bs m base C"
    using dag_resolution.resolve_conflicts_by [OF chain_order.ord_contract_axioms res] by blast
  from dag_resolution.resolved_partition(1) [OF this] show ?thesis
    unfolding plan expand_rejection_cases(2) by (simp only: hkeys_def sort_by_same)
qed

definition merged_ids :: "merge_plan \<Rightarrow> bytes set" where
  "merged_ids plan = \<Union> (chain_ids ` set (concat (to_merge (pl_resolved plan))))"

lemma chain_ids_key: "chain_ids chain = dc_deploy_id ` chain_key chain"
  by (simp add: chain_ids_def chain_key_def)

lemma ids_of_keys: "chain_key chain \<in> hkeys chain_key cs \<Longrightarrow> chain_ids chain \<subseteq> \<Union> (chain_ids ` set cs)"
  by (auto simp: hkeys_def chain_ids_key)

text \<open>C8. The merge loses no deploy: every user deploy of a block to be merged is in one of the chains that are merged, or it
  is reported as rejected, so that it can be proposed again.\<close>

theorem no_deploy_lost:
  assumes "dag_merge env dag lfb post index hrepo sts cost scope dis = Some (Inr (state, users, slashes, sts'))"
    and "actual_blocks dag lfb scope = Some (Inr actual)" "h \<in> set actual" "index h = Inr chs" "ch \<in> set chs"
    and "d \<in> set (deploys_with_cost ch)" "\<not> is_system_deploy_id (dc_deploy_id d)"
  shows "\<exists>plan. plan_merge env dag lfb post index hrepo sts cost scope dis = Some (Inr plan)
    \<and> (dc_deploy_id d \<in> merged_ids plan \<or> dc_deploy_id d \<in> fst ` set users)"
proof -
  obtain plan where plan: "plan_merge env dag lfb post index hrepo sts cost scope dis = Some (Inr plan)"
    "users = rejected_user_deploys (rejected (pl_resolved plan)) (pl_collateral plan)"
    using dag_mergeD [OF assms(1)] by blast
  obtain late retained late_chains r where planned: "planned env dag index sts cost actual late plan retained late_chains r"
    using plan_mergeD [OF plan(1) assms(2)] .
  then obtain all where all: "chains_of index actual = Inr all" "dedup_chains all = (retained, pl_collateral plan)"
    by (auto simp: planned_def)
  have "ch \<in> set all" using chains_of_mem [OF all(1) assms(3)] assms(4,5) by auto
  then have "(\<exists>ch' \<in> set retained. dc_deploy_id d \<in> chain_ids ch') \<or> dc_deploy_id d \<in> fst ` set (pl_collateral plan)"
    using dedup_keeps [OF _ _ assms(7) all(2)] assms(6) by (auto simp: chain_ids_def)
  then have "dc_deploy_id d \<in> merged_ids plan \<or> dc_deploy_id d \<in> fst ` set users"
  proof
    assume "\<exists>ch' \<in> set retained. dc_deploy_id d \<in> chain_ids ch'"
    then obtain ch' where ch': "ch' \<in> set retained" "dc_deploy_id d \<in> chain_ids ch'" by blast
    then have "chain_key ch' \<in> hkeys chain_key retained" by (simp add: hkeys_def)
    then have "chain_key ch' \<in> hkeys chain_key (concat (to_merge (pl_resolved plan))) \<or> chain_key ch' \<in> hkeys chain_key (rejected (pl_resolved plan))"
      using planned_partition [OF planned] by blast
    then show ?thesis
      using ids_of_keys [of ch'] ch'(2) assms(7) unfolding merged_ids_def plan(2) rejected_user_ids by blast
  qed (simp add: plan(2) rejected_user_ids)
  with plan(1) show ?thesis by blast
qed

subsection \<open>What is merged together\<close>

lemma list_all_union: "list_all P s \<Longrightarrow> list_all P t \<Longrightarrow> list_all P (hset_union key s t)"
  using hset_elements(5) [of key s t] by (auto simp: list_all_iff)

lemma combined_log_wf:
  assumes "list_all (\<lambda>chain. log_wf chan pers (dci_event_log_index chain)) branch" "combined_event_log branch = Inr l"
  shows "log_wf chan pers l"
proof -
  have comb: "log_wf chan pers z" if "log_wf chan pers x" "log_wf chan pers y" "index_combine x y = Inr z" for x y z :: event_log_index
  proof -
    obtain ncd where z: "z = combine_sets x y ncd" using \<open>index_combine x y = Inr z\<close> by (auto simp: index_combine_def)
    show ?thesis using that(1,2) by (simp add: z log_wf_def combine_sets_def list_all_union)
  qed
  have "fold_res (\<lambda>acc chain. index_combine acc (dci_event_log_index chain)) acc cs = Inr l \<Longrightarrow> log_wf chan pers acc \<Longrightarrow>
      list_all (\<lambda>chain. log_wf chan pers (dci_event_log_index chain)) cs \<Longrightarrow> log_wf chan pers l" for acc and cs :: "deploy_chain_index list"
    by (induction cs arbitrary: acc) (auto intro: comb)
  moreover have "log_wf chan pers empty_index" by (simp add: log_wf_def empty_index_def)
  ultimately show ?thesis using assms unfolding combined_event_log_def by (metis (no_types, lifting) list_all_iff set_filter mem_Collect_eq)
qed

lemma dag_conflict_edges:
  assumes "distinct bs" "dag_conflict_map bs = Inr m" "list_all (list_all (\<lambda>chain. log_wf chan pers (dci_event_log_index chain))) bs"
  obtains logs where "length logs = length bs" "\<And>i. i < length bs \<Longrightarrow> combined_event_log (bs ! i) = Inr (logs ! i)"
    "\<And>i j. i < length bs \<Longrightarrow> j < length bs \<Longrightarrow> i \<noteq> j \<Longrightarrow> (bs ! i, bs ! j) \<notin> map_edges m \<Longrightarrow>
       set (user_deploy_ids (bs ! i)) \<inter> set (user_deploy_ids (bs ! j)) = {} \<and> \<not> are_conflicting (logs ! i) (logs ! j)"
proof -
  obtain logs m0 where logs: "sequence_res (map combined_event_log bs) = Inr logs"
    and m0: "compute_conflict_map_event_indexed bs logs = (Inr m0 :: (history_error, _) res)" "m = mark_same_deploys bs m0"
    using assms(2) by (auto simp: dag_conflict_map_def)
  have seq: "sequence_res (map combined_event_log xs) = Inr ls \<Longrightarrow> length ls = length xs \<and> (\<forall>i < length xs. combined_event_log (xs ! i) = Inr (ls ! i))" for xs ls
    by (induction xs arbitrary: ls) (auto simp: nth_Cons split: nat.splits)
  note len = seq [OF logs, THEN conjunct1] and get = seq [OF logs, THEN conjunct2, rule_format]
  have wf: "list_all (log_wf chan pers) logs"
    using combined_log_wf assms(3) get len unfolding list_all_length by auto
  have dom: "dom (hm_get m0) = set bs" and E0: "map_edges m0 = position_edges bs (\<lambda>i j. are_conflicting (logs ! i) (logs ! j))"
  proof -
    obtain m' where "compute_conflict_map_event_indexed bs logs = (Inr m' :: (history_error, _) res)" "dom (hm_get m') = set bs"
      "map_edges m' = position_edges bs (\<lambda>i j. are_conflicting (logs ! i) (logs ! j))"
      using conflict_map_edges [OF assms(1) len wf] by blast
    then show "dom (hm_get m0) = set bs" "map_edges m0 = position_edges bs (\<lambda>i j. are_conflicting (logs ! i) (logs ! j))"
      using m0(1) by simp_all
  qed
  have "set (same_deploy_pairs bs) \<subseteq> {(i, j). i < length bs \<and> j < length bs}"
    using same_deploy_pairs_iff [of bs] by blast
  then have "\<forall>(a, b) \<in> set (same_deploy_pairs bs). bs ! a \<in> dom (hm_get m0) \<and> bs ! b \<in> dom (hm_get m0)" unfolding dom by auto
  from mark_pairs_map [OF this] have E: "map_edges m = position_edges bs (\<lambda>i j. are_conflicting (logs ! i) (logs ! j))
      \<union> (\<lambda>(a, b). (bs ! a, bs ! b)) ` (set (same_deploy_pairs bs) \<union> (set (same_deploy_pairs bs))\<inverse>)"
    unfolding m0(2) mark_same_deploys_pairs E0 by blast
  show thesis
  proof (rule that [OF len get])
    fix i j assume ij: "i < length bs" "j < length bs" "i \<noteq> j" and no: "(bs ! i, bs ! j) \<notin> map_edges m"
    from no have "(bs ! i, bs ! j) \<notin> position_edges bs (\<lambda>i j. are_conflicting (logs ! i) (logs ! j))"
      "(i, j) \<notin> set (same_deploy_pairs bs) \<union> (set (same_deploy_pairs bs))\<inverse>" unfolding E by force+
    then show "set (user_deploy_ids (bs ! i)) \<inter> set (user_deploy_ids (bs ! j)) = {} \<and> \<not> are_conflicting (logs ! i) (logs ! j)"
      using ij unfolding position_edges_iff [OF assms(1) ij(1,2)] same_deploy_pairs_iff by blast
  qed
qed

lemma chains_of_from:
  assumes "chains_of index blocks = Inr chs" "ch \<in> set chs"
  shows "\<exists>h cs. index h = Inr cs \<and> ch \<in> set cs"
proof -
  have "sequence_res (map index hs) = Inr css \<Longrightarrow> cs \<in> set css \<Longrightarrow> \<exists>h. index h = Inr cs" for hs css cs
    by (induction hs arbitrary: css) auto
  with assms show ?thesis by (fastforce simp: chains_of_def)
qed

lemma planned_chains:
  assumes "planned env dag index sts cost actual late plan retained late_chains r" "ch \<in> set retained"
  shows "\<exists>h cs. index h = Inr cs \<and> ch \<in> set cs"
proof -
  obtain chs where "chains_of index actual = Inr chs" "dedup_chains chs = (retained, pl_collateral plan)"
    using assms(1) by (auto simp: planned_def)
  with assms(2) dedup_chainsD(1) show ?thesis using chains_of_from by fastforce
qed

lemma scoped_late: "late_blocks dag (Some scope) dis actual = Some (Inr late) \<Longrightarrow> chains_of index late = Inr late_chains \<Longrightarrow> late_chains = []"
  by (simp add: late_blocks_def chains_of_def)

lemma expand_rejected:
  "set (rejected (expand_rejection dag actual r)) \<subseteq> set (rejected r) \<union>
     \<Union> (set ` (set (to_merge r) - set (to_merge (expand_rejection dag actual r))))"
proof -
  have ins: "set (foldl (\<lambda>r chain. hset_insert chain_key chain r) s cs) \<subseteq> set s \<union> set cs" for s cs
  proof (induction cs arbitrary: s)
    case (Cons c cs)
    then show ?case using Cons.IH [of "hset_insert chain_key c s"] hset_elements(1) [of chain_key c s] by auto
  qed simp
  show ?thesis
    unfolding expand_rejection_def Let_def using ins [of "rejected r"] by (auto dest!: subsetD [OF ins])
qed

lemma branch_closed:
  assumes "distinct s" "dag_branches s = Inr bs" "a \<in> set bs" "x \<in> set a" "y \<in> set s" "dependent x y"
  shows "y \<in> set a"
proof -
  let ?E = "{(a, b). a \<in> set s \<and> b \<in> set s \<and> a \<noteq> b \<and> dependent a b}"
  have "set a \<in> (\<lambda>x. ?E\<^sup>* `` {x}) ` set s" using imageI [OF assms(3), of set] unfolding dag_branches_components(3) [OF assms(1,2)] .
  then obtain k where k: "set a = ?E\<^sup>* `` {k}" by blast
  have "x \<in> set s" using dag_branches_components(2) [OF assms(1,2)] assms(3,4) by auto
  then have "(x, y) \<in> ?E\<^sup>*" using assms(5,6) by (cases "x = y") auto
  moreover have "(k, x) \<in> ?E\<^sup>*" using assms(4) k by blast
  ultimately have "(k, y) \<in> ?E\<^sup>*" by (rule rtrancl_trans [rotated])
  then show ?thesis using k by blast
qed

text \<open>The branches of a scoped merge, in which no block is late.\<close>

lemma scoped_resolution:
  assumes "plan_merge env dag lfb post index hrepo sts cost (Some scope) dis = Some (Inr plan)"
  obtains actual r retained bs m base C where "pl_resolved plan = expand_rejection dag actual r"
    "dag_resolution.resolved_by chain_cmp chain_key (sort_by chain_cmp retained) [] chain_depends cost mergeable_channels_of
       (get_data_proj env (history_kv sts) (pl_reader plan)) r bs m base C"
    "\<forall>x \<in> set retained. \<exists>h cs. index h = Inr cs \<and> x \<in> set cs"
proof -
  obtain actual where "actual_blocks dag lfb (Some scope) = Some (Inr actual)"
    using assms unfolding plan_merge_def wbind_Inr walk_err_Inr by blast
  from plan_mergeD [OF assms this] obtain late retained late_chains r where
    late: "late_blocks dag (Some scope) dis actual = Some (Inr late)" and
    planned: "planned env dag index sts cost actual late plan retained late_chains r" .
  have "late_chains = []" using scoped_late [OF late] planned unfolding planned_def by blast
  then have res: "resolve_conflicts chain_cmp chain_key (sort_by chain_cmp retained) [] chain_depends cost
      mergeable_channels_of (get_data_proj env (history_kv sts) (pl_reader plan)) dag_branches dag_conflict_map = Inr r"
    and plan: "pl_resolved plan = expand_rejection dag actual r"
    using planned by (simp_all add: planned_def)
  from dag_resolution.resolve_conflicts_by [OF chain_order.ord_contract_axioms res] obtain bs m base C where
    "dag_resolution.resolved_by chain_cmp chain_key (sort_by chain_cmp retained) [] chain_depends cost mergeable_channels_of
       (get_data_proj env (history_kv sts) (pl_reader plan)) r bs m base C" .
  moreover have "\<forall>x \<in> set retained. \<exists>h cs. index h = Inr cs \<and> x \<in> set cs" using planned_chains [OF planned] by blast
  ultimately show thesis using that [OF plan] by blast
qed

lemma scoped_plan:
  assumes "plan_merge env dag lfb post index hrepo sts cost (Some scope) dis = Some (Inr plan)"
  obtains bs m where "branches_ok bs" "dag_conflict_map bs = Inr m" "set (to_merge (pl_resolved plan)) \<subseteq> set bs"
    "set (rejected (pl_resolved plan)) \<subseteq> \<Union> (set ` (set bs - set (to_merge (pl_resolved plan))))"
    "\<And>a b. a \<in> set (to_merge (pl_resolved plan)) \<Longrightarrow> b \<in> set (to_merge (pl_resolved plan)) \<Longrightarrow> (a, b) \<notin> map_edges m"
    "\<And>a x y. a \<in> set bs \<Longrightarrow> x \<in> set a \<Longrightarrow> y \<in> set (concat bs) \<Longrightarrow> dependent x y \<Longrightarrow> y \<in> set a"
    "\<And>x. x \<in> set (concat bs) \<Longrightarrow> \<exists>h cs. index h = Inr cs \<and> x \<in> set cs"
proof -
  obtain actual r retained bs m base C where plan: "pl_resolved plan = expand_rejection dag actual r"
    and rb: "dag_resolution.resolved_by chain_cmp chain_key (sort_by chain_cmp retained) [] chain_depends cost mergeable_channels_of
       (get_data_proj env (history_kv sts) (pl_reader plan)) r bs m base C"
    and retained: "\<forall>x \<in> set retained. \<exists>h cs. index h = Inr cs \<and> x \<in> set cs"
    using scoped_resolution [OF assms] .
  note D = dag_resolution.resolved_byD [OF rb]
  let ?F = "full_option chain_cmp mergeable_channels_of base bs C"
  let ?s = "merge_candidates chain_key chain_depends (sort_by chain_cmp retained) []"
  have "set (rejected r) \<subseteq> \<Union> (set ` ?F)"
    using rb by (simp add: dag_resolution.resolved_by_def late_dependents_def hset_collect_def)
  moreover have "?F \<subseteq> set bs - set (to_merge r)" using full_option_subset [OF D(1,4)] D(6) by auto
  ultimately have rej: "set (rejected r) \<subseteq> \<Union> (set ` (set bs - set (to_merge r)))" by blast
  have merge: "set (to_merge (pl_resolved plan)) \<subseteq> set (to_merge r)" "set (to_merge r) \<subseteq> set bs"
    unfolding plan by (rule expand_rejection_cases(1)) (simp add: D(6))
  have rejected: "set (rejected (pl_resolved plan)) \<subseteq> \<Union> (set ` (set bs - set (to_merge (pl_resolved plan))))"
    using expand_rejected [of dag actual r] rej merge unfolding plan by blast
  have branches: "dag_branches ?s = Inr bs" "distinct ?s" "dag_conflict_map bs = Inr m"
    using rb dag_resolution.candidates_distinct by (simp_all add: dag_resolution.resolved_by_def)
  have "set ?s \<subseteq> set retained" using hset_elements(2) [of chain_key "sort_by chain_cmp retained"] by (auto simp: merge_candidates_def)
  then have from_index: "\<exists>h cs. index h = Inr cs \<and> x \<in> set cs" if "x \<in> set (concat bs)" for x
    using that retained unfolding D(2) by blast
  have free: "(a, b) \<notin> map_edges m" if "a \<in> set (to_merge (pl_resolved plan))" "b \<in> set (to_merge (pl_resolved plan))" for a b
    using dag_resolution.resolved_conflict_free [OF rb] that merge(1) by blast
  have "y \<in> set a" if "a \<in> set bs" "x \<in> set a" "y \<in> set (concat bs)" "dependent x y" for a x y
    using branch_closed [OF branches(2,1) that(1,2) _ that(4)] that(3) unfolding D(2) .
  from that [OF D(1) branches(3) subset_trans [OF merge] rejected free this from_index] show thesis .
qed

text \<open>C9. Two branches that a scoped merge applies are compatible, as far as the merge compares them: no user deploy is in both,
  and their event logs are not in conflict. A chain with a system deploy among its deploys is no part of these logs, its user
  deploys included: \<open>combined_event_log\<close> leaves the whole chain out. The logs of the index are well-formed: the hash of a
  produce determines its channel and whether it is persistent, and every consume has a channel.\<close>

theorem merged_compatible:
  assumes "plan_merge env dag lfb post index hrepo sts cost (Some scope) dis = Some (Inr plan)"
    and "\<And>h cs ch. index h = Inr cs \<Longrightarrow> ch \<in> set cs \<Longrightarrow> log_wf chan pers (dci_event_log_index ch)"
    and "a \<in> set (to_merge (pl_resolved plan))" "b \<in> set (to_merge (pl_resolved plan))" "a \<noteq> b"
  shows "set (user_deploy_ids a) \<inter> set (user_deploy_ids b) = {}
    \<and> (\<exists>la lb. combined_event_log a = Inr la \<and> combined_event_log b = Inr lb \<and> \<not> are_conflicting la lb)"
proof -
  obtain bs m where bs: "branches_ok bs" "dag_conflict_map bs = Inr m" "set (to_merge (pl_resolved plan)) \<subseteq> set bs"
    and free: "(a, b) \<notin> map_edges m" and from_index: "\<And>x. x \<in> set (concat bs) \<Longrightarrow> \<exists>h cs. index h = Inr cs \<and> x \<in> set cs"
    using scoped_plan [OF assms(1)] assms(3,4) by metis
  have "list_all (list_all (\<lambda>chain. log_wf chan pers (dci_event_log_index chain))) bs"
    unfolding list_all_iff
  proof (intro ballI)
    fix c x assume "c \<in> set bs" "x \<in> set c"
    then show "log_wf chan pers (dci_event_log_index x)" using from_index [of x] assms(2) by auto
  qed
  from dag_conflict_edges [OF branches_okD(1) [OF bs(1)] bs(2) this] obtain logs where
    logs: "\<And>i. i < length bs \<Longrightarrow> combined_event_log (bs ! i) = Inr (logs ! i)" and
    edges: "\<And>i j. i < length bs \<Longrightarrow> j < length bs \<Longrightarrow> i \<noteq> j \<Longrightarrow> (bs ! i, bs ! j) \<notin> map_edges m \<Longrightarrow>
       set (user_deploy_ids (bs ! i)) \<inter> set (user_deploy_ids (bs ! j)) = {} \<and> \<not> are_conflicting (logs ! i) (logs ! j)" by metis
  obtain i j where ij: "i < length bs" "a = bs ! i" "j < length bs" "b = bs ! j"
    using bs(3) assms(3,4) by (metis in_set_conv_nth subsetD)
  then show ?thesis using edges [of i j] free assms(5) logs [of i] logs [of j] by auto
qed

text \<open>C10. A chain that a scoped merge applies does not depend on a rejected one, and no rejected chain depends on it.\<close>

theorem merged_independent:
  assumes "plan_merge env dag lfb post index hrepo sts cost (Some scope) dis = Some (Inr plan)"
    and "x \<in> set (concat (to_merge (pl_resolved plan)))" "y \<in> set (rejected (pl_resolved plan))"
  shows "\<not> depends (dci_event_log_index x) (dci_event_log_index y) \<and> \<not> depends (dci_event_log_index y) (dci_event_log_index x)"
proof -
  obtain bs m where bs: "branches_ok bs" "set (to_merge (pl_resolved plan)) \<subseteq> set bs"
    "set (rejected (pl_resolved plan)) \<subseteq> \<Union> (set ` (set bs - set (to_merge (pl_resolved plan))))"
    and closed: "\<And>a x y. a \<in> set bs \<Longrightarrow> x \<in> set a \<Longrightarrow> y \<in> set (concat bs) \<Longrightarrow> dependent x y \<Longrightarrow> y \<in> set a"
    using scoped_plan [OF assms(1)] by metis
  obtain a where a: "a \<in> set (to_merge (pl_resolved plan))" "x \<in> set a" using assms(2) by auto
  obtain b where b: "b \<in> set bs" "b \<notin> set (to_merge (pl_resolved plan))" "y \<in> set b" using assms(3) bs(3) by blast
  have a': "a \<in> set bs" using a(1) bs(2) by blast
  have "\<not> dependent x y"
  proof
    assume "dependent x y"
    then have "y \<in> set a" using closed [OF a' a(2)] b(1,3) by auto
    then have "a = b" using branches_okD(4) [OF bs(1) a' b(1)] b(3) by blast
    with a(1) b(2) show False by simp
  qed
  then show ?thesis by (simp add: dependent_def)
qed

subsection \<open>Slashes\<close>

lemma slash_is_system: "is_slash_deploy_id i \<Longrightarrow> is_system_deploy_id i"
  by (simp add: is_slash_deploy_id_def is_system_deploy_id_def)

lemma keys_ids:
  assumes "hkeys chain_key cs = hkeys chain_key cs'"
  shows "\<Union> (chain_ids ` set cs) = \<Union> (chain_ids ` set cs')"
proof -
  have "\<Union> (chain_ids ` set cs) = \<Union> ((\<lambda>k. dc_deploy_id ` k) ` hkeys chain_key cs)" for cs
    unfolding hkeys_def image_image chain_ids_key ..
  then show ?thesis using assms by simp
qed

text \<open>C33. In a scoped merge a slash is merged or reported among the rejected slashes exactly when a chain holds it all of whose
  deploys, system deploys included, are freshest in that chain. A slash whose only chain has one deploy that a newer block
  holds again is dropped with the chain: neither merged nor reported, as a slash or as a user deploy.\<close>

theorem slash_kept_exact:
  assumes "dag_merge env dag lfb post index hrepo sts cost (Some scope) dis = Some (Inr (state, users, slashes, sts'))"
    and "actual_blocks dag lfb (Some scope) = Some (Inr actual)" "chains_of index actual = Inr chs" "is_slash_deploy_id i"
  shows "\<exists>plan. plan_merge env dag lfb post index hrepo sts cost (Some scope) dis = Some (Inr plan) \<and> i \<notin> fst ` set users
    \<and> (i \<in> merged_ids plan \<or> i \<in> fst ` set slashes \<longleftrightarrow>
        (\<exists>ch \<in> set chs. i \<in> chain_ids ch \<and> list_all (is_freshest (latest_for_deploy chs) ch) (deploys_with_cost ch)))"
proof -
  obtain plan where plan: "plan_merge env dag lfb post index hrepo sts cost (Some scope) dis = Some (Inr plan)"
    "users = rejected_user_deploys (rejected (pl_resolved plan)) (pl_collateral plan)"
    "slashes = rejected_slashes (rejected (pl_resolved plan))"
    using dag_mergeD [OF assms(1)] by blast
  obtain late retained late_chains r where late: "late_blocks dag (Some scope) dis actual = Some (Inr late)"
    and planned: "planned env dag index sts cost actual late plan retained late_chains r"
    using plan_mergeD [OF plan(1) assms(2)] .
  have dedup: "dedup_chains chs = (retained, pl_collateral plan)" and lc: "chains_of index late = Inr late_chains"
    using planned assms(3) by (auto simp: planned_def)
  have "\<Union> (chain_ids ` set (concat (to_merge (pl_resolved plan)) )) \<union> \<Union> (chain_ids ` set (rejected (pl_resolved plan)))
      = \<Union> (chain_ids ` set retained)"
    using planned_partition [OF planned] keys_ids [of "concat (to_merge (pl_resolved plan)) @ rejected (pl_resolved plan)" retained]
    unfolding scoped_late [OF late lc] by (simp add: hkeys_def image_Un)
  then have kept: "i \<in> merged_ids plan \<or> i \<in> fst ` set slashes \<longleftrightarrow> (\<exists>ch \<in> set retained. i \<in> chain_ids ch)"
    using assms(4) unfolding merged_ids_def plan(3) rejected_slash_ids by blast
  have "i \<notin> fst ` set (pl_collateral plan)"
    using slash_is_system [OF assms(4)] unfolding dedup_chainsD(2) [OF dedup] by auto
  then have "i \<notin> fst ` set users"
    using slash_is_system [OF assms(4)] unfolding plan(2) rejected_user_ids by blast
  then show ?thesis using plan(1) kept unfolding dedup_chainsD(1) [OF dedup] by auto
qed

subsection \<open>The resolution\<close>

text \<open>C11. The resolution rejects a cheapest set: the branches left out are those of a full option, a minimal cover of the
  conflicts with what would make a number channel negative or overflow, no minimal cover gives a cheaper full option, and
  every chain is merged or rejected.\<close>

theorem resolution_optimal:
  assumes "resolve_conflicts chain_cmp chain_key actual late chain_depends cost mergeable_channels_of get_data_fn
    dag_branches dag_conflict_map = Inr r"
  shows "\<exists>bs m base C. dag_branches (merge_candidates chain_key chain_depends actual late) = Inr bs \<and> dag_conflict_map bs = Inr m
    \<and> base_mergeable (convert_to_read_number get_data_fn) (all_channel_keys mergeable_channels_of bs) = Inr base
    \<and> minimal_cover (map_edges m) C \<and> set (to_merge r) = set bs - full_option chain_cmp mergeable_channels_of base bs C
    \<and> (\<forall>C'. minimal_cover (map_edges m) C' \<longrightarrow>
         sum (branch_cost cost) (full_option chain_cmp mergeable_channels_of base bs C)
         \<le> sum (branch_cost cost) (full_option chain_cmp mergeable_channels_of base bs C'))
    \<and> hkeys chain_key (concat (to_merge r)) \<union> hkeys chain_key (rejected r) = hkeys chain_key actual \<union> hkeys chain_key late"
proof -
  obtain bs m base C where
    rb: "dag_resolution.resolved_by chain_cmp chain_key actual late chain_depends cost mergeable_channels_of get_data_fn r bs m base C"
    using dag_resolution.resolve_conflicts_by [OF chain_order.ord_contract_axioms assms] .
  then have "set (to_merge r) = set bs - full_option chain_cmp mergeable_channels_of base bs C"
    by (auto simp: dag_resolution.resolved_by_def)
  then show ?thesis
    using rb dag_resolution.resolved_partition(1) [OF rb] unfolding dag_resolution.resolved_by_def
    by (intro exI [of _ bs] exI [of _ m] exI [of _ base] exI [of _ C]) simp
qed

text \<open>C12. The number channels of the branches that the resolution keeps, before its rejection is expanded, stay in range. For a
  channel that the kept branches combine by addition, the value read from the base state (0 when there is none) plus the
  combined difference is the exact sum of that value and the differences of the kept branches, without overflow, and is not
  negative. The difference of one branch is itself the sum of those of its chains in 64 bits, which may wrap around; channels
  combined by a bit mask have no such bound. The channels of a chain are listed once each.\<close>

theorem resolved_number_channels:
  assumes "resolve_conflicts chain_cmp chain_key actual late chain_depends cost mergeable_channels_of get_data_fn
      dag_branches dag_conflict_map = Inr r"
    and "list_all (\<lambda>ch. hm_ok (mergeable_channels_of ch)) actual"
    and "combine_all_channels mergeable_channels_of (to_merge_items chain_cmp r) = Inr chans" "hm_get chans k = Some (d, IntegerAdd)"
  shows "\<exists>v. convert_to_read_number get_data_fn k = Inr v
    \<and> 0 \<le> sint ((case v of Some n \<Rightarrow> n | None \<Rightarrow> 0) + d)
    \<and> sint ((case v of Some n \<Rightarrow> n | None \<Rightarrow> 0) + d)
      = sint (case v of Some n \<Rightarrow> n | None \<Rightarrow> 0) + (\<Sum>b \<leftarrow> to_merge r. sint (total_diff mergeable_channels_of k b))"
proof -
  obtain bs m base C where
    rb: "dag_resolution.resolved_by chain_cmp chain_key actual late chain_depends cost mergeable_channels_of get_data_fn r bs m base C"
    using dag_resolution.resolve_conflicts_by [OF chain_order.ord_contract_axioms assms(1)] .
  from dag_resolution.resolved_numbers [OF this assms(2-4)] show ?thesis .
qed

text \<open>C31. The expansion of a rejection moves exactly the branches with a chain from a block that is reached, through
  children in scope, from the source of a rejected chain, and is not itself the source of a rejected chain.\<close>

theorem expand_rejection_exact:
  "to_merge (expand_rejection dag actual r) =
     filter (\<lambda>b. source_block_hash ` set b \<inter> ((scope_rel dag actual)\<^sup>+ `` (source_block_hash ` set (rejected r))
       - source_block_hash ` set (rejected r)) = {}) (to_merge r)
   \<and> hkeys chain_key (rejected (expand_rejection dag actual r)) = hkeys chain_key (rejected r) \<union>
       hkeys chain_key (concat (filter (\<lambda>b. source_block_hash ` set b \<inter> ((scope_rel dag actual)\<^sup>+ `` (source_block_hash ` set (rejected r))
       - source_block_hash ` set (rejected r)) \<noteq> {}) (to_merge r)))"
proof -
  define S where "S = hset_collect (\<lambda>h. h) (map source_block_hash (rejected r))"
  have S: "set S = source_block_hash ` set (rejected r)"
    using hkeys_collect [of "\<lambda>h. h" "map source_block_hash (rejected r)"] by (simp add: S_def hkeys_def)
  define D where "D = (scope_rel dag actual)\<^sup>+ `` set S - set S"
  have D: "set (descendants_within_scope dag S actual) = D" using scope_descendants by (simp add: D_def)
  have stale: "list_ex (\<lambda>chain. source_block_hash chain \<in> D) = (\<lambda>b. source_block_hash ` set b \<inter> D \<noteq> {})"
    by (rule ext) (auto simp: list_ex_iff)
  have "to_merge (expand_rejection dag actual r) = filter (\<lambda>b. source_block_hash ` set b \<inter> D = {}) (to_merge r)
    \<and> hkeys chain_key (rejected (expand_rejection dag actual r)) = hkeys chain_key (rejected r) \<union>
       hkeys chain_key (concat (filter (\<lambda>b. source_block_hash ` set b \<inter> D \<noteq> {}) (to_merge r)))"
  proof (cases "S = [] \<or> descendants_within_scope dag S actual = []")
    case True
    then have "expand_rejection dag actual r = r" by (simp add: expand_rejection_def Let_def flip: S_def)
    moreover have "D = {}" using True D by (auto simp: D_def)
    ultimately show ?thesis by (simp add: hkeys_def)
  next
    case False
    then have "expand_rejection dag actual r = \<lparr>to_merge = filter (\<lambda>b. source_block_hash ` set b \<inter> D = {}) (to_merge r),
        rejected = foldl (\<lambda>r chain. hset_insert chain_key chain r) (rejected r)
          (concat (filter (\<lambda>b. source_block_hash ` set b \<inter> D \<noteq> {}) (to_merge r)))\<rparr>"
      by (simp add: expand_rejection_def Let_def D stale flip: S_def)
    then show ?thesis by (simp add: hset_insert_all_keys hkeys_def [of _ "concat _"])
  qed
  then show ?thesis unfolding D_def S .
qed

end
