(* ===== verification/DagMergerExamples.thy ===== *)
theory DagMergerExamples
  imports DagMergerSpec
begin

section \<open>A merge of three blocks\<close>

text \<open>
  The theorems on the merge of a DAG at concrete blocks, and two merges that show what the
  expansion of the rejection and the deduplication leave out. The codecs are constant
  functions and the base state is empty: the blocks have logs, but no state changes.
\<close>

definition demo_codec :: "(unit, unit, unit list_par_with_random, unit) codec_env" where
  "demo_codec = \<lparr>blake_new = (\<lambda>bs. bs), ser_channel = (\<lambda>_. []), ser_pattern = (\<lambda>_. []), ser_datum = (\<lambda>_. []),
     ser_continuation = (\<lambda>_. []), ser_bool = (\<lambda>_. []), ser_vec = concat, ser_datum_rec = (\<lambda>_. []), de_datum_rec = (\<lambda>_. None),
     ser_wk = (\<lambda>_. []), de_wk = (\<lambda>_. None), ser_join = (\<lambda>_. []), de_join = (\<lambda>_. None), de_vec = (\<lambda>_. None),
     ser_bytes = (\<lambda>bs. bs), ser_persisted = (\<lambda>_. []), de_persisted = (\<lambda>_. None)\<rparr>"

definition demo_rho :: "(unit, unit, unit, unit) rho_env" where
  "demo_rho = \<lparr>cenv = demo_codec, dash_ord = (\<lambda>ks. ks)\<rparr>"

definition demo_lfb_repo :: history_repository where
  "demo_lfb_repo = \<lparr>current_history = \<lparr>root_hash = [9], root_node = empty_node, imple = new_impl\<rparr>\<rparr>"

definition demo_lfb_stores :: rspace_store where
  "demo_lfb_stores = \<lparr>history_kv = [], roots_kv = [([9], ascii ''tag'')], cold_kv = []\<rparr>"

definition demo_chain :: "byte \<Rightarrow> (bytes \<times> u64) list \<Rightarrow> int \<Rightarrow> event_log_index \<Rightarrow> deploy_chain_index" where
  "demo_chain block deps num elog =
     \<lparr>deploys_with_cost = map (\<lambda>(i, c). \<lparr>dc_deploy_id = i, dc_cost = c\<rparr>) deps, dci_post_state_hash = [], dci_event_log_index = elog,
      dci_state_changes = state_change_empty, source_block_hash = [block], source_block_number = num\<rparr>"

definition demo_takes :: "byte \<Rightarrow> event_log_index" where
  "demo_takes n = empty_index\<lparr>produces_consumed := [produce_new [n] [n] False]\<rparr>"

text \<open>Blocks 1 and 2 are children of the finalized block 0, block 3 is a child of block 1.\<close>

definition demo_dag :: dag_representation where
  "demo_dag = \<lparr>rep_dag_set = [[0], [1], [2], [3]], rep_latest_messages = [], rep_child_map = [([0], [[1], [2]]), ([1], [[3]])],
     rep_height_map = [(0, [[0]]), (1, [[1], [2]]), (2, [[3]])], rep_block_number_map = [([0], 0), ([1], 1), ([2], 1), ([3], 2)],
     rep_main_parent_map = [([1], [0]), ([2], [0]), ([3], [1])], rep_self_justification_map = [], rep_invalid_blocks = [],
     rep_last_finalized = [0], rep_finalized = [[0]],
     rep_index = \<lparr>mds_store = [], mds_state = dag_state_new\<rparr>, rep_deploy_index = []\<rparr>"

definition demo_chain1 :: deploy_chain_index where
  "demo_chain1 = demo_chain 1 [([10], 5)] 1 (demo_takes 1)"

definition demo_chain2 :: deploy_chain_index where
  "demo_chain2 = demo_chain 2 [([11], 3)] 1 (demo_takes 1)"

definition demo_chain3 :: deploy_chain_index where
  "demo_chain3 = demo_chain 3 [([12], 2)] 2 (demo_takes 2)"

definition demo_index :: "hash \<Rightarrow> (casper_error, deploy_chain_index list) res" where
  "demo_index h = Inr (if h = [1] then [demo_chain1] else if h = [2] then [demo_chain2]
     else if h = [3] then [demo_chain3] else [])"

abbreviation demo_plan :: "(casper_error, merge_plan) walk" where
  "demo_plan \<equiv> plan_merge demo_rho demo_dag [0] [9] demo_index demo_lfb_repo demo_lfb_stores cost_optimal_rejection_alg
     (Some [[1], [2], [3]]) False"

definition demo_planned :: merge_plan where
  "demo_planned = \<lparr>pl_reader = \<lparr>target_history = \<lparr>root_hash = [9], root_node = empty_node, imple = new_impl\<rparr>, leaf_store = []\<rparr>,
     pl_resolved = \<lparr>to_merge = [[demo_chain1], [demo_chain3]], rejected = [demo_chain2]\<rparr>, pl_collateral = []\<rparr>"

lemma demo_plan_code: "demo_plan = Some (Inr demo_planned)"
  by code_simp

lemma demo_planned_resolved:
  "to_merge (pl_resolved demo_planned) = [[demo_chain1], [demo_chain3]]" "rejected (pl_resolved demo_planned) = [demo_chain2]"
  by (simp_all add: demo_planned_def)

lemma demo_merge_code:
  "dag_merge demo_rho demo_dag [0] [9] demo_index demo_lfb_repo demo_lfb_stores cost_optimal_rejection_alg (Some [[1], [2], [3]]) False
   = Some (Inr ([9], [([11], [2])], [], \<lparr>history_kv = [], roots_kv = [([9], ascii ''tag''), (ascii ''current-root'', [9])], cold_kv = []\<rparr>))"
  by code_simp

lemma demo_actual_code: "actual_blocks demo_dag [0] (Some [[1], [2], [3]]) = Some (Inr [[1], [2], [3]])"
  by code_simp

lemma demo_index_wf:
  "demo_index h = Inr cs \<Longrightarrow> ch \<in> set cs \<Longrightarrow> log_wf (\<lambda>h. h) (\<lambda>_. False) (dci_event_log_index ch)"
  by (auto simp: demo_index_def demo_chain1_def demo_chain2_def demo_chain3_def demo_chain_def demo_takes_def log_wf_def empty_index_def
      produce_new_def split: if_splits)

theorem merged_compatible_witness:
  "demo_plan = Some (Inr demo_planned) \<and> [demo_chain1] \<in> set (to_merge (pl_resolved demo_planned))
   \<and> [demo_chain3] \<in> set (to_merge (pl_resolved demo_planned)) \<and> [demo_chain1] \<noteq> [demo_chain3]
   \<and> set (user_deploy_ids [demo_chain1]) \<inter> set (user_deploy_ids [demo_chain3]) = {}
   \<and> (\<exists>la lb. combined_event_log [demo_chain1] = Inr la \<and> combined_event_log [demo_chain3] = Inr lb \<and> \<not> are_conflicting la lb)"
proof -
  have ne: "[demo_chain1] \<noteq> [demo_chain3]" by (simp add: demo_chain1_def demo_chain3_def demo_chain_def)
  have mem: "[demo_chain1] \<in> set (to_merge (pl_resolved demo_planned))" "[demo_chain3] \<in> set (to_merge (pl_resolved demo_planned))"
    by (simp_all add: demo_planned_resolved)
  show ?thesis using merged_compatible [OF demo_plan_code demo_index_wf mem ne] demo_plan_code mem ne by simp
qed

theorem merged_independent_witness:
  "demo_plan = Some (Inr demo_planned) \<and> demo_chain1 \<in> set (concat (to_merge (pl_resolved demo_planned)))
   \<and> demo_chain2 \<in> set (rejected (pl_resolved demo_planned))
   \<and> \<not> depends (dci_event_log_index demo_chain1) (dci_event_log_index demo_chain2)
   \<and> \<not> depends (dci_event_log_index demo_chain2) (dci_event_log_index demo_chain1)"
  using merged_independent [OF demo_plan_code, of demo_chain1 demo_chain2] demo_plan_code by (simp add: demo_planned_resolved)

theorem no_deploy_lost_witness:
  "\<exists>plan. demo_plan = Some (Inr plan) \<and> ([11] \<in> merged_ids plan \<or> [11] \<in> fst ` set [([11], [2 :: byte]) :: bytes \<times> hash])"
proof -
  have "\<not> is_system_deploy_id [11]" by code_simp
  then show ?thesis
    using no_deploy_lost [OF demo_merge_code demo_actual_code, of "[2]" "[demo_chain2]" demo_chain2 "\<lparr>dc_deploy_id = [11], dc_cost = 3\<rparr>"]
    by (simp add: demo_index_def demo_chain2_def demo_chain_def)
qed

definition demo_resolved :: "deploy_chain_index resolved_conflicts" where
  "demo_resolved = \<lparr>to_merge = [[demo_chain1], [demo_chain3]], rejected = [demo_chain2]\<rparr>"

lemma demo_resolve_code:
  "resolve_conflicts chain_cmp chain_key [demo_chain1, demo_chain2, demo_chain3] [] chain_depends cost_optimal_rejection_alg
     mergeable_channels_of (\<lambda>_. Inr [] :: (history_error, unit list_par_with_random datum list) res) dag_branches dag_conflict_map
   = Inr demo_resolved"
  by code_simp

theorem resolution_optimal_witness:
  "\<exists>bs m base C. dag_branches (merge_candidates chain_key chain_depends [demo_chain1, demo_chain2, demo_chain3] []) = Inr bs
    \<and> dag_conflict_map bs = Inr m
    \<and> base_mergeable (convert_to_read_number (\<lambda>_. Inr [] :: (history_error, unit list_par_with_random datum list) res))
        (all_channel_keys mergeable_channels_of bs) = Inr base
    \<and> minimal_cover (map_edges m) C \<and> set (to_merge demo_resolved) = set bs - full_option chain_cmp mergeable_channels_of base bs C"
  using resolution_optimal [OF demo_resolve_code] by blast

text \<open>A number channel that two chains change: one adds 10, the other takes 4 away.\<close>

definition demo_adds :: "byte \<Rightarrow> i64 \<Rightarrow> deploy_chain_index" where
  "demo_adds b d = demo_chain b [([b], 1)] 1 (empty_index\<lparr>number_channels_data := [([7], (d, IntegerAdd))]\<rparr>)"

definition demo_sums :: "deploy_chain_index resolved_conflicts" where
  "demo_sums = \<lparr>to_merge = [[demo_adds 1 10], [demo_adds 2 (- 4)]], rejected = []\<rparr>"

lemma demo_sums_code:
  "resolve_conflicts chain_cmp chain_key [demo_adds 1 10, demo_adds 2 (- 4)] [] chain_depends cost_optimal_rejection_alg
     mergeable_channels_of (\<lambda>_. Inr [] :: (history_error, unit list_par_with_random datum list) res) dag_branches dag_conflict_map
   = Inr demo_sums"
  by code_simp

lemma demo_sums_channels:
  "combine_all_channels mergeable_channels_of (to_merge_items chain_cmp demo_sums) = Inr [([7], (6, IntegerAdd))]"
  "list_all (\<lambda>ch. hm_ok (mergeable_channels_of ch)) [demo_adds 1 10, demo_adds 2 (- 4)]"
  by code_simp+

theorem resolved_number_channels_witness:
  "\<exists>v. convert_to_read_number (\<lambda>_. Inr [] :: (history_error, unit list_par_with_random datum list) res) [7] = Inr v
    \<and> 0 \<le> sint ((case v of Some n \<Rightarrow> n | None \<Rightarrow> 0) + (6 :: i64))
    \<and> sint ((case v of Some n \<Rightarrow> n | None \<Rightarrow> 0) + (6 :: i64))
      = sint (case v of Some n \<Rightarrow> n | None \<Rightarrow> 0) + (\<Sum>b \<leftarrow> to_merge demo_sums. sint (total_diff mergeable_channels_of [7] b))"
  by (rule resolved_number_channels [OF demo_sums_code demo_sums_channels(2,1)]) simp

subsection \<open>What the expansion leaves\<close>

text \<open>Block 1 and its child, block 3, both lose a chain to block 2; the other chain of block 3 is merged.\<close>

definition stale_index :: "hash \<Rightarrow> (casper_error, deploy_chain_index list) res" where
  "stale_index h = Inr (if h = [1] then [demo_chain 1 [([10], 3)] 1 (demo_takes 1)]
     else if h = [2] then [demo_chain 2 [([11], 5)] 1 (demo_takes 1), demo_chain 2 [([12], 9)] 1 (demo_takes 2)]
     else if h = [3] then [demo_chain 3 [([13], 2)] 2 (demo_takes 2), demo_chain 3 [([14], 1)] 2 (demo_takes 3)] else [])"

text \<open>
  The expansion of the rejection leaves a block alone that is itself the source of a rejected chain: block 3 is a child of
  block 1, a chain of block 1 is rejected, and a chain of block 3 is merged all the same.
\<close>

lemma stale_chain_merged:
  "\<exists>plan x y. plan_merge demo_rho demo_dag [0] [9] stale_index demo_lfb_repo demo_lfb_stores cost_optimal_rejection_alg
      (Some [[1], [2], [3]]) False = Some (Inr plan)
    \<and> x \<in> set (rejected (pl_resolved plan)) \<and> y \<in> set (concat (to_merge (pl_resolved plan)))
    \<and> children demo_dag (source_block_hash x) = Some [source_block_hash y]"
proof -
  let ?x = "demo_chain 1 [([10], 3)] 1 (demo_takes 1)" and ?y = "demo_chain 3 [([14], 1)] 2 (demo_takes 3)"
  have "case plan_merge demo_rho demo_dag [0] [9] stale_index demo_lfb_repo demo_lfb_stores cost_optimal_rejection_alg
      (Some [[1], [2], [3]]) False of
        Some (Inr plan) \<Rightarrow> ?x \<in> set (rejected (pl_resolved plan)) \<and> ?y \<in> set (concat (to_merge (pl_resolved plan)))
      | _ \<Rightarrow> False" by code_simp
  moreover have "children demo_dag (source_block_hash ?x) = Some [source_block_hash ?y]" by code_simp
  ultimately show ?thesis by (auto split: option.splits sum.splits)
qed

text \<open>A chain of block 1 holds a deploy that block 3 holds again, and a slash that only block 1 holds.\<close>

definition demo_slash :: bytes where
  "demo_slash = replicate 32 1 @ SYS_SLASH_DEPLOY_ID"

definition slash_chain :: deploy_chain_index where
  "slash_chain = demo_chain 1 [([10], 3), (demo_slash, 0)] 1 (demo_takes 1)"

definition slash_index :: "hash \<Rightarrow> (casper_error, deploy_chain_index list) res" where
  "slash_index h = Inr (if h = [1] then [slash_chain] else if h = [3] then [demo_chain 3 [([10], 3)] 2 (demo_takes 2)] else [])"

lemma slash_merge_code:
  "case dag_merge demo_rho demo_dag [0] [9] slash_index demo_lfb_repo demo_lfb_stores cost_optimal_rejection_alg
      (Some [[1], [2], [3]]) False of Some (Inr (state, users, slashes, sts')) \<Rightarrow> True | _ \<Rightarrow> False"
  by code_simp

definition slash_chains :: "deploy_chain_index list" where
  "slash_chains = [slash_chain, demo_chain 3 [([10], 3)] 2 (demo_takes 2)]"

text \<open>The slash of block 1 is lost.\<close>

theorem slash_kept_exact_witness:
  "\<exists>plan. plan_merge demo_rho demo_dag [0] [9] slash_index demo_lfb_repo demo_lfb_stores cost_optimal_rejection_alg
      (Some [[1], [2], [3]]) False = Some (Inr plan)
    \<and> demo_slash \<in> chain_ids slash_chain \<and> slash_index [1] = Inr [slash_chain] \<and> demo_slash \<notin> merged_ids plan"
proof -
  have chs: "chains_of slash_index [[1], [2], [3]] = Inr slash_chains" by code_simp
  have slash: "is_slash_deploy_id demo_slash" "demo_slash \<in> chain_ids slash_chain" "slash_index [1] = Inr [slash_chain]" by code_simp+
  have drop: "\<not> (\<exists>ch \<in> set slash_chains. demo_slash \<in> chain_ids ch
      \<and> list_all (is_freshest (latest_for_deploy slash_chains) ch) (deploys_with_cost ch))" by code_simp
  obtain state users slashes sts' where "dag_merge demo_rho demo_dag [0] [9] slash_index demo_lfb_repo demo_lfb_stores
      cost_optimal_rejection_alg (Some [[1], [2], [3]]) False = Some (Inr (state, users, slashes, sts'))"
    using slash_merge_code by (auto split: option.splits sum.splits)
  from slash_kept_exact [OF this demo_actual_code chs slash(1)] drop slash(2,3) show ?thesis by blast
qed

end
