(* ===== verification/Clique.thy ===== *)
theory Clique
  imports BlockDag
begin

section \<open>Cliques of maximal weight\<close>

text \<open>
  casper/src/rust/util/clique.rs. The recursion ends because a vertex is no neighbour of itself,
  which \<open>get_adj\<close> sees to; as \<open>expand_max_weight\<close> takes any adjacency map, it has fuel, one
  more than the number of candidates: each call moves one of them into the clique. Stakes
  are \<open>i64\<close>; sums wrap around as in a release build. A set is a list of its elements, in the order in
  which it is iterated.
\<close>

definition neighbours :: "('a, 'a list) hmap \<Rightarrow> 'a \<Rightarrow> 'a list" where
  "neighbours adj v = (case hm_get adj v of Some s \<Rightarrow> s | None \<Rightarrow> [])"

definition weight_of :: "('a, int) hmap \<Rightarrow> 'a \<Rightarrow> int" where
  "weight_of weights v = (case hm_get weights v of Some w \<Rightarrow> w | None \<Rightarrow> 0)"

definition sum_i64 :: "int list \<Rightarrow> int" where
  "sum_i64 ws = foldl (\<lambda>a w. wrap_i64 (a + w)) 0 ws"

text \<open>\<open>Iterator::max_by_key\<close> on \<open>x # xs\<close>: the last of the largest elements.\<close>

definition max_by_key :: "('a \<Rightarrow> nat) \<Rightarrow> 'a \<Rightarrow> 'a list \<Rightarrow> 'a" where
  "max_by_key f x xs = foldl (\<lambda>m y. if f m \<le> f y then y else m) x xs"

primrec expand_max_weight ::
  "nat \<Rightarrow> 'a list \<Rightarrow> int \<Rightarrow> 'a list \<Rightarrow> 'a list \<Rightarrow> ('a, 'a list) hmap \<Rightarrow> ('a, int) hmap \<Rightarrow> int \<Rightarrow> int option" where
  "expand_max_weight 0 ans ans_weight p x adj weights best_weight = None"
| "expand_max_weight (Suc n) ans ans_weight p x adj weights best_weight =
     (if p = [] \<and> x = [] then Some (if ans \<noteq> [] \<and> best_weight < ans_weight then ans_weight else best_weight)
      else if p = [] then Some best_weight
      else let remaining_weight = sum_i64 (map (weight_of weights) p)
        in if wrap_i64 (ans_weight + remaining_weight) \<le> best_weight then Some best_weight
           else let u = p @ filter (\<lambda>v. v \<notin> set p) x;
                    pivot = max_by_key (\<lambda>v. length (filter (\<lambda>w. w \<in> set (neighbours adj v)) p)) (hd u) (tl u);
                    candidates = filter (\<lambda>v. v \<notin> set (neighbours adj pivot)) p
             in map_option (\<lambda>(_, _, b). b) (foldl (\<lambda>s v. Option.bind s (\<lambda>(current_p, current_x, b).
                  map_option (\<lambda>b'. (removeAll v current_p, set_insert v current_x, b'))
                    (expand_max_weight n (ans @ [v]) (wrap_i64 (ans_weight + weight_of weights v))
                      (filter (\<lambda>w. w \<in> set (neighbours adj v)) current_p)
                      (filter (\<lambda>w. w \<in> set (neighbours adj v)) current_x) adj weights b)))
                  (Some (p, x, best_weight)) candidates))"

definition get_node_set :: "('a \<times> 'a) list \<Rightarrow> 'a list" where
  "get_node_set e = foldl (\<lambda>s v. set_insert v s) [] (concat (map (\<lambda>(a, b). [a, b]) e))"

definition get_adj :: "('a \<times> 'a) list \<Rightarrow> ('a, 'a list) hmap" where
  "get_adj e =
     foldl (\<lambda>m (src, dst). hm_put src (set_insert dst (neighbours m src)) m) []
       (filter (\<lambda>(src, dst). src \<noteq> dst) (concat (map (\<lambda>(a, b). [(a, b), (b, a)]) e)))"

definition find_maximum_clique_by_weight :: "('a \<times> 'a) list \<Rightarrow> ('a, int) hmap \<Rightarrow> int option" where
  "find_maximum_clique_by_weight e weights =
     (let adj = get_adj e; nodes = get_node_set e;
          best_weight = (case map snd weights of [] \<Rightarrow> 0 | w # ws \<Rightarrow> foldl max w ws)
      in expand_max_weight (Suc (length nodes)) [] 0 nodes [] adj weights best_weight)"

subsection \<open>Maximal cliques\<close>

locale undirected =
  fixes nb :: "'a \<Rightarrow> 'a set"
  assumes nb_sym: "v \<in> nb u \<Longrightarrow> u \<in> nb v" and nb_irrefl: "v \<notin> nb v"
begin

definition clique :: "'a set \<Rightarrow> bool" where
  "clique K \<longleftrightarrow> (\<forall>u \<in> K. \<forall>v \<in> K. u \<noteq> v \<longrightarrow> v \<in> nb u)"

text \<open>The cliques of candidates that no vertex, candidate or excluded, extends.\<close>

definition maximal :: "'a set \<Rightarrow> 'a set \<Rightarrow> 'a set set" where
  "maximal P X = {K. K \<subseteq> P \<and> clique K \<and> (\<forall>v \<in> P \<union> X. v \<notin> K \<longrightarrow> \<not> K \<subseteq> nb v)}"

lemma clique_subset: "clique K \<Longrightarrow> J \<subseteq> K \<Longrightarrow> clique J"
  by (auto simp: clique_def)

lemma clique_insert: "clique (insert v K) \<longleftrightarrow> clique K \<and> K - {v} \<subseteq> nb v"
  using nb_sym by (auto simp: clique_def)

lemma maximal_empty: "maximal {} {} = {{}}" "x \<noteq> {} \<Longrightarrow> maximal {} x = {}"
  by (auto simp: maximal_def clique_def)

text \<open>Cliques with the vertex \<open>v\<close> are those of its neighbours; for the others it is excluded.\<close>

lemma maximal_with:
  assumes "v \<in> P"
  shows "K \<in> maximal P X \<and> v \<in> K \<longleftrightarrow> (\<exists>J \<in> maximal (P \<inter> nb v) (X \<inter> nb v). K = insert v J)"
proof
  assume K: "K \<in> maximal P X \<and> v \<in> K"
  then have c: "clique K" "K \<subseteq> P" "K - {v} \<subseteq> nb v" by (auto simp: maximal_def clique_def)
  have "K - {v} \<in> maximal (P \<inter> nb v) (X \<inter> nb v)"
    unfolding maximal_def mem_Collect_eq
  proof (intro conjI ballI impI notI)
    show "K - {v} \<subseteq> P \<inter> nb v" "clique (K - {v})" using c clique_subset [OF c(1), of "K - {v}"] by auto
    fix u assume u: "u \<in> P \<inter> nb v \<union> X \<inter> nb v" "u \<notin> K - {v}" "K - {v} \<subseteq> nb u"
    then have "u \<notin> K" "K \<subseteq> nb u" using nb_irrefl nb_sym by auto
    with K u(1) show False by (auto simp: maximal_def)
  qed
  moreover have "K = insert v (K - {v})" using K by blast
  ultimately show "\<exists>J \<in> maximal (P \<inter> nb v) (X \<inter> nb v). K = insert v J" by (rule rev_bexI)
next
  assume "\<exists>J \<in> maximal (P \<inter> nb v) (X \<inter> nb v). K = insert v J"
  then obtain J where J: "J \<subseteq> P \<inter> nb v" "clique J" "K = insert v J"
    "\<forall>u \<in> P \<inter> nb v \<union> X \<inter> nb v. u \<notin> J \<longrightarrow> \<not> J \<subseteq> nb u"
    unfolding maximal_def by (elim bexE CollectE conjE) (rule that)
  have "\<not> K \<subseteq> nb u" if "u \<in> P \<union> X" "u \<notin> K" for u
    using that J(3,4) nb_sym [of v u] by blast
  then show "K \<in> maximal P X \<and> v \<in> K"
    using J assms clique_insert by (auto simp: maximal_def)
qed

lemma maximal_without: "v \<in> P \<Longrightarrow> maximal (P - {v}) (insert v X) = {K \<in> maximal P X. v \<notin> K}"
  by (auto simp: maximal_def)

text \<open>A maximal clique is not made of neighbours of a pivot alone.\<close>

lemma maximal_pivot:
  assumes "K \<in> maximal P X" "u \<in> P \<union> X"
  shows "K \<inter> (P - nb u) \<noteq> {}"
proof
  assume "K \<inter> (P - nb u) = {}"
  then have "K \<subseteq> nb u" using assms(1) by (auto simp: maximal_def)
  moreover have "u \<notin> K" using \<open>K \<subseteq> nb u\<close> nb_irrefl by blast
  ultimately show False using assms by (auto simp: maximal_def)
qed

lemma clique_extends:
  assumes "finite P" "K \<subseteq> P" "clique K"
  shows "\<exists>M \<in> maximal P {}. K \<subseteq> M"
proof -
  let ?S = "{M. M \<subseteq> P \<and> clique M \<and> K \<subseteq> M}"
  have "finite ?S" using assms(1) by simp
  then obtain M where M: "M \<in> ?S" "\<And>N. N \<in> ?S \<Longrightarrow> M \<subseteq> N \<Longrightarrow> M = N"
    using finite_has_maximal2 [of ?S K] assms by auto
  have "\<not> M \<subseteq> nb v" if "v \<in> P" "v \<notin> M" for v
  proof
    assume "M \<subseteq> nb v"
    then have "insert v M \<in> ?S" using M(1) that clique_insert by auto
    from M(2) [OF this] that show False by blast
  qed
  then show ?thesis using M(1) by (auto simp: maximal_def)
qed

end

subsection \<open>The search\<close>

lemma wrap_i64_small: "0 \<le> n \<Longrightarrow> n < 2 ^ 63 \<Longrightarrow> wrap_i64 n = n"
  by (simp add: wrap_i64_def)

lemma sum_i64_exact:
  assumes "list_all (\<lambda>w. 0 \<le> w) ws" "sum_list ws < 2 ^ 63"
  shows "sum_i64 ws = sum_list ws"
proof -
  have "foldl (\<lambda>a w. wrap_i64 (a + w)) a ws = a + sum_list ws" if "0 \<le> a" "a + sum_list ws < 2 ^ 63" for a
    using that assms(1)
  proof (induction ws arbitrary: a)
    case (Cons w ws)
    have "0 \<le> sum_list ws" using Cons.prems(3) by (auto intro: sum_list_nonneg simp: list_all_iff)
    then have "wrap_i64 (a + w) = a + w" using Cons.prems by (intro wrap_i64_small) auto
    then show ?case using Cons by (simp add: add.assoc)
  qed simp
  from this [of 0] assms(2) show ?thesis by (simp add: sum_i64_def)
qed

lemma max_by_key_mem: "max_by_key f x xs \<in> insert x (set xs)"
  unfolding max_by_key_def by (induction xs arbitrary: x) (auto split: if_splits)

text \<open>What a step of the search returns: the best weight so far or that of a maximal clique, whichever is larger.\<close>

definition reports :: "int \<Rightarrow> ('a \<Rightarrow> int) \<Rightarrow> int \<Rightarrow> 'a set set \<Rightarrow> int \<Rightarrow> bool" where
  "reports w wt best Ks best' \<longleftrightarrow> best \<le> best' \<and> (\<forall>K \<in> Ks. w + sum wt K \<le> best')
     \<and> (best' = best \<or> (\<exists>K \<in> Ks. best' = w + sum wt K))"

lemma reports_trans:
  assumes "reports w wt b Ks b'" "reports w wt b' Js b''"
  shows "reports w wt b (Ks \<union> Js) b''"
  using assms unfolding reports_def by (auto intro: order_trans)

lemma reports_with:
  assumes "reports (w + wt v) wt b Js b'" "\<And>J. J \<in> Js \<Longrightarrow> finite J \<and> v \<notin> J"
  shows "reports w wt b (insert v ` Js) b'"
  using assms unfolding reports_def by (auto simp: add.assoc)

context undirected
begin

lemma with_vertex:
  assumes "v \<in> P" "finite P"
  shows "{K \<in> maximal P X. v \<in> K} = insert v ` maximal (P \<inter> nb v) (X \<inter> nb v)"
    "J \<in> maximal (P \<inter> nb v) (X \<inter> nb v) \<Longrightarrow> finite J \<and> v \<notin> J"
proof -
  show "{K \<in> maximal P X. v \<in> K} = insert v ` maximal (P \<inter> nb v) (X \<inter> nb v)"
    using maximal_with [OF assms(1)] by (auto simp: set_eq_iff image_iff)
  assume "J \<in> maximal (P \<inter> nb v) (X \<inter> nb v)"
  then have "J \<subseteq> P \<inter> nb v" by (simp add: maximal_def)
  then show "finite J \<and> v \<notin> J" using assms(2) nb_irrefl finite_subset [of J P] by blast
qed

definition sound :: "('a, 'a list) hmap \<Rightarrow> ('a, int) hmap \<Rightarrow> nat \<Rightarrow> bool" where
  "sound adj weights n \<longleftrightarrow> (\<forall>ans w p x b. length p < n \<longrightarrow> distinct p \<longrightarrow> 0 \<le> w \<longrightarrow> list_all (\<lambda>v. 0 \<le> weight_of weights v) p
     \<longrightarrow> w + sum (weight_of weights) (set p) < 2 ^ 63 \<longrightarrow> ans \<noteq> [] \<or> w \<le> b
     \<longrightarrow> (\<exists>b'. expand_max_weight n ans w p x adj weights b = Some b'
          \<and> reports w (weight_of weights) b (maximal (set p) (set x)) b'))"

lemma soundD:
  assumes "sound adj weights n" "length p < n" "distinct p" "0 \<le> w" "list_all (\<lambda>v. 0 \<le> weight_of weights v) p"
    "w + sum (weight_of weights) (set p) < 2 ^ 63" "ans \<noteq> [] \<or> w \<le> b"
  obtains b' where "expand_max_weight n ans w p x adj weights b = Some b'"
    "reports w (weight_of weights) b (maximal (set p) (set x)) b'"
  using assms unfolding sound_def by blast

lemma candidate_step:
  assumes nb: "\<And>v. set (neighbours adj v) = nb v" and IH: "sound adj weights n"
    and p: "distinct p" "length p \<le> n" "list_all (\<lambda>v. 0 \<le> weight_of weights v) p" "w + sum (weight_of weights) (set p) < 2 ^ 63"
    and v: "v \<in> set p" "0 \<le> w"
  obtains b' where "expand_max_weight n (ans @ [v]) (wrap_i64 (w + weight_of weights v))
      (filter (\<lambda>u. u \<in> set (neighbours adj v)) p) (filter (\<lambda>u. u \<in> set (neighbours adj v)) x) adj weights b = Some b'"
    "reports w (weight_of weights) b {K \<in> maximal (set p) (set x). v \<in> K} b'"
proof -
  let ?wt = "weight_of weights" and ?p = "filter (\<lambda>u. u \<in> nb v) p" and ?x = "filter (\<lambda>u. u \<in> nb v) x"
  have pos: "0 \<le> ?wt u" if "u \<in> set p" for u using p(3) that by (simp add: list_all_iff)
  have "?wt v + sum ?wt (set ?p) = sum ?wt (insert v (set ?p))" using nb_irrefl by simp
  also have "\<dots> \<le> sum ?wt (set p)" using v(1) pos by (intro sum_mono2) auto
  finally have le: "?wt v + sum ?wt (set ?p) \<le> sum ?wt (set p)" .
  have "0 \<le> sum ?wt (set ?p)" using pos by (intro sum_nonneg) auto
  then have wrap: "wrap_i64 (w + ?wt v) = w + ?wt v" using le p(4) v pos by (intro wrap_i64_small) auto
  have len: "length ?p < n" using length_filter_less [OF v(1), of "\<lambda>u. u \<in> nb v"] nb_irrefl p(2) by simp
  have "list_all (\<lambda>u. 0 \<le> ?wt u) ?p" using p(3) by (simp add: list_all_iff)
  then obtain b' where b': "expand_max_weight n (ans @ [v]) (w + ?wt v) ?p ?x adj weights b = Some b'"
    "reports (w + ?wt v) ?wt b (maximal (set ?p) (set ?x)) b'"
    using soundD [OF IH len, of "w + ?wt v" "ans @ [v]" b ?x] p(1) v(2) pos [OF v(1)] le p(4) by (auto simp: add.assoc)
  have sets: "set ?p = set p \<inter> nb v" "set ?x = set x \<inter> nb v" by auto
  have "reports w ?wt b {K \<in> maximal (set p) (set x). v \<in> K} b'"
    unfolding with_vertex(1) [OF v(1) finite_set]
    using reports_with [OF b'(2)] with_vertex(2) [OF v(1) finite_set] unfolding sets by blast
  with b'(1) show ?thesis by (intro that) (simp_all only: nb wrap)
qed

end

context undirected
begin

lemma candidates_loop:
  assumes nb: "\<And>v. set (neighbours adj v) = nb v" and IH: "sound adj weights n" and "0 \<le> w"
    and "distinct p" "length p \<le> n" "list_all (\<lambda>v. 0 \<le> weight_of weights v) p" "w + sum (weight_of weights) (set p) < 2 ^ 63"
    and "distinct cs" "set cs \<subseteq> set p"
  shows "\<exists>p' x' b'. foldl (\<lambda>s v. Option.bind s (\<lambda>(current_p, current_x, b).
        map_option (\<lambda>b'. (removeAll v current_p, set_insert v current_x, b'))
          (expand_max_weight n (ans @ [v]) (wrap_i64 (w + weight_of weights v))
            (filter (\<lambda>u. u \<in> set (neighbours adj v)) current_p)
            (filter (\<lambda>u. u \<in> set (neighbours adj v)) current_x) adj weights b)))
        (Some (p, x, b)) cs = Some (p', x', b')
      \<and> reports w (weight_of weights) b {K \<in> maximal (set p) (set x). K \<inter> set cs \<noteq> {}} b'"
  using assms(4-9)
proof (induction cs arbitrary: p x b)
  case Nil
  then show ?case by (auto simp: reports_def)
next
  case (Cons v cs)
  let ?wt = "weight_of weights" and ?M = "maximal (set p) (set x)"
  have v: "v \<in> set p" using Cons.prems(6) by simp
  obtain b1 where b1: "expand_max_weight n (ans @ [v]) (wrap_i64 (w + ?wt v)) (filter (\<lambda>u. u \<in> set (neighbours adj v)) p)
      (filter (\<lambda>u. u \<in> set (neighbours adj v)) x) adj weights b = Some b1" "reports w ?wt b {K \<in> ?M. v \<in> K} b1"
    using candidate_step [OF nb IH Cons.prems(1-4) v assms(3)] .
  have pos: "list_all (\<lambda>u. 0 \<le> ?wt u) (removeAll v p)" using Cons.prems(3) by (auto simp: list_all_iff)
  have "sum ?wt (set (removeAll v p)) \<le> sum ?wt (set p)" using Cons.prems(3) by (intro sum_mono2) (auto simp: list_all_iff)
  then have bound: "w + sum ?wt (set (removeAll v p)) < 2 ^ 63" using Cons.prems(4) by simp
  have "length (removeAll v p) \<le> n" using Cons.prems(2) by (simp add: removeAll_filter_not_eq length_filter_le [THEN order_trans])
  from Cons.IH [OF _ this pos bound, of "set_insert v x" b1] Cons.prems(1,5,6) obtain p' x' b' where
    f: "foldl (\<lambda>s v. Option.bind s (\<lambda>(current_p, current_x, b).
        map_option (\<lambda>b'. (removeAll v current_p, set_insert v current_x, b'))
          (expand_max_weight n (ans @ [v]) (wrap_i64 (w + ?wt v))
            (filter (\<lambda>u. u \<in> set (neighbours adj v)) current_p)
            (filter (\<lambda>u. u \<in> set (neighbours adj v)) current_x) adj weights b)))
        (Some (removeAll v p, set_insert v x, b1)) cs = Some (p', x', b')"
    and r: "reports w ?wt b1 {K \<in> maximal (set (removeAll v p)) (set (set_insert v x)). K \<inter> set cs \<noteq> {}} b'"
    by (auto simp: distinct_removeAll)
  have "maximal (set (removeAll v p)) (set (set_insert v x)) = {K \<in> ?M. v \<notin> K}" using maximal_without [OF v] by simp
  then have "{K \<in> ?M. v \<in> K} \<union> {K \<in> maximal (set (removeAll v p)) (set (set_insert v x)). K \<inter> set cs \<noteq> {}}
      = {K \<in> ?M. K \<inter> set (v # cs) \<noteq> {}}" by auto
  with reports_trans [OF b1(2) r] have "reports w ?wt b {K \<in> ?M. K \<inter> set (v # cs) \<noteq> {}} b'" by simp
  then show ?case using f b1(1) by simp
qed

lemma expand_sound:
  assumes "\<And>v. set (neighbours adj v) = nb v"
  shows "sound adj weights n"
proof (induction n)
  case 0
  show ?case by (simp add: sound_def)
next
  case (Suc n)
  let ?wt = "weight_of weights"
  have "\<exists>b'. expand_max_weight (Suc n) ans w p x adj weights b = Some b' \<and> reports w ?wt b (maximal (set p) (set x)) b'"
    if p: "length p < Suc n" "distinct p" "0 \<le> w" "list_all (\<lambda>v. 0 \<le> ?wt v) p" "w + sum ?wt (set p) < 2 ^ 63" "ans \<noteq> [] \<or> w \<le> b"
    for ans w p x b
  proof (cases "p = []")
    case True
    then show ?thesis using p(6) by (cases "x = []") (auto simp: reports_def maximal_empty)
  next
    case False
    have sum: "sum_i64 (map ?wt p) = sum ?wt (set p)"
      using sum_i64_exact [of "map ?wt p"] p(2-5) by (simp add: list_all_iff sum_list_distinct_conv_sum_set)
    have pos: "0 \<le> ?wt v" if "v \<in> set p" for v using p(4) that by (simp add: list_all_iff)
    have wrap: "wrap_i64 (w + sum ?wt (set p)) = w + sum ?wt (set p)" using p(3,5) pos by (intro wrap_i64_small) (auto intro: add_nonneg_nonneg sum_nonneg)
    have K: "w + sum ?wt K \<le> w + sum ?wt (set p)" if "K \<in> maximal (set p) (set x)" for K
      using that pos by (auto simp: maximal_def intro!: sum_mono2)
    show ?thesis
    proof (cases "w + sum ?wt (set p) \<le> b")
      case True
      then have "expand_max_weight (Suc n) ans w p x adj weights b = Some b" using False by (simp add: sum wrap)
      moreover have "reports w ?wt b (maximal (set p) (set x)) b" using True K unfolding reports_def by fastforce
      ultimately show ?thesis by blast
    next
      case big: False
      define u where "u = p @ filter (\<lambda>v. v \<notin> set p) x"
      define pivot where "pivot = max_by_key (\<lambda>v. length (filter (\<lambda>w. w \<in> set (neighbours adj v)) p)) (hd u) (tl u)"
      define cs where "cs = filter (\<lambda>v. v \<notin> set (neighbours adj pivot)) p"
      have "u \<noteq> []" using False by (simp add: u_def)
      then have "pivot \<in> set u" using max_by_key_mem [of _ "hd u" "tl u"] by (cases u) (auto simp: pivot_def)
      then have "pivot \<in> set p \<union> set x" by (auto simp: u_def)
      then have all: "{K \<in> maximal (set p) (set x). K \<inter> set cs \<noteq> {}} = maximal (set p) (set x)"
        using maximal_pivot [of _ "set p" "set x" pivot] assms by (auto simp: cs_def)
      have "distinct cs" "set cs \<subseteq> set p" "length p \<le> n" using p(1,2) by (auto simp: cs_def)
      from candidates_loop [OF assms Suc.IH p(3,2) this(3) p(4,5) this(1,2), of ans x b] all show ?thesis
        using False big by (auto simp: sum wrap Let_def simp flip: u_def pivot_def cs_def)
    qed
  qed
  then show ?case unfolding sound_def by blast
qed

end

subsection \<open>The graph of the edges\<close>

definition adjacent :: "('a \<times> 'a) list \<Rightarrow> 'a \<Rightarrow> 'a set" where
  "adjacent e v = {u. u \<noteq> v \<and> ((v, u) \<in> set e \<or> (u, v) \<in> set e)}"

interpretation edge_graph: undirected "adjacent e"
  by unfold_locales (auto simp: adjacent_def)

lemma neighbours_get_adj: "set (neighbours (get_adj e) v) = adjacent e v"
proof -
  have "set (neighbours (foldl (\<lambda>m (src, dst). hm_put src (set_insert dst (neighbours m src)) m) m ds) v)
      = set (neighbours m v) \<union> {u. (v, u) \<in> set ds}" for m :: "('a, 'a list) hmap" and ds
  proof (induction ds arbitrary: m)
    case (Cons d ds)
    have "set (neighbours (hm_put (fst d) (set_insert (snd d) (neighbours m (fst d))) m) v)
        = set (neighbours m v) \<union> {u. (v, u) = d}" by (cases d) (auto simp: neighbours_def)
    then show ?case using Cons.IH by (auto simp: case_prod_beta)
  qed simp
  from this [of "[]"] show ?thesis by (auto simp: get_adj_def adjacent_def neighbours_def)
qed

lemma get_node_set: "set (get_node_set e) = fst ` set e \<union> snd ` set e" "distinct (get_node_set e)"
proof -
  have "set (foldl (\<lambda>s v. set_insert v s) s vs) = set s \<union> set vs" for s and vs :: "'a list"
    by (induction vs arbitrary: s) auto
  then show "set (get_node_set e) = fst ` set e \<union> snd ` set e" by (force simp: get_node_set_def)
  show "distinct (get_node_set e)"
    using hset_collect_distinct [of "\<lambda>v. v" "concat (map (\<lambda>(a, b). [a, b]) e)"] by (simp add: get_node_set_def hset_collect_def)
qed

text \<open>The largest value of a map, or 0 when it is empty.\<close>

lemma foldl_max: "foldl max (w :: int) ws = Max (insert w (set ws))"
proof (induction ws arbitrary: w)
  case (Cons v ws)
  then show ?case by (cases "ws = []") (simp_all add: ac_simps)
qed simp

text \<open>Stakes that are not negative and whose sum fits.\<close>

definition stakes_ok :: "('a, int) hmap \<Rightarrow> bool" where
  "stakes_ok weights \<longleftrightarrow> hm_ok weights \<and> list_all (\<lambda>w. 0 \<le> w) (map snd weights) \<and> sum_list (map snd weights) < 2 ^ 63"

definition heaviest_clique :: "('a \<times> 'a) list \<Rightarrow> ('a, int) hmap \<Rightarrow> int" where
  "heaviest_clique e weights = Max {sum (weight_of weights) K |K. K \<subseteq> set (hm_keys weights) \<and> edge_graph.clique e K}"

lemma stakes_sum:
  assumes "stakes_ok weights"
  shows "sum (weight_of weights) (set (hm_keys weights)) = sum_list (map snd weights)" "0 \<le> weight_of weights v"
proof -
  have ok: "distinct (map fst weights)" using assms by (simp add: stakes_ok_def hm_ok_def)
  have "weight_of weights v = w" if "(v, w) \<in> set weights" for v w using that ok by (simp add: weight_of_def)
  then have "map (weight_of weights) (hm_keys weights) = map snd weights" by (auto simp: o_def)
  with sum_list_distinct_conv_sum_set [OF ok, of "weight_of weights"]
  show "sum (weight_of weights) (set (hm_keys weights)) = sum_list (map snd weights)" by (simp only:)
  show "0 \<le> weight_of weights v"
    using assms by (force simp: weight_of_def stakes_ok_def list_all_iff dest: map_of_SomeD split: option.splits)
qed

lemma start_weight:
  assumes "stakes_ok weights"
  defines "best \<equiv> (case map snd weights of [] \<Rightarrow> 0 | w # ws \<Rightarrow> foldl max w ws)"
  shows "\<exists>K \<subseteq> set (hm_keys weights). edge_graph.clique e K \<and> best = sum (weight_of weights) K"
    "v \<in> set (hm_keys weights) \<Longrightarrow> weight_of weights v \<le> best" "0 \<le> best"
proof -
  have vals: "w \<in> set (map snd weights) \<longleftrightarrow> (\<exists>v \<in> set (hm_keys weights). weight_of weights v = w)" for w
    using assms(1) by (force simp: stakes_ok_def hm_ok_def weight_of_def)
  have "weights = [] \<and> best = 0 \<or> best \<in> set (map snd weights) \<and> (\<forall>w \<in> set (map snd weights). w \<le> best)"
  proof (cases "map snd weights")
    case (Cons w ws)
    have "Max (insert w (set ws)) \<in> insert w (set ws)" by (rule Max_in) simp_all
    then show ?thesis unfolding best_def Cons by (simp add: foldl_max)
  qed (simp add: best_def)
  then show "\<exists>K \<subseteq> set (hm_keys weights). edge_graph.clique e K \<and> best = sum (weight_of weights) K"
    "v \<in> set (hm_keys weights) \<Longrightarrow> weight_of weights v \<le> best" "0 \<le> best"
  proof (atomize (full), elim disjE)
    assume b: "best \<in> set (map snd weights) \<and> (\<forall>w \<in> set (map snd weights). w \<le> best)"
    then obtain u where u: "u \<in> set (hm_keys weights)" "weight_of weights u = best" using vals by blast
    moreover have "edge_graph.clique e {u}" by (simp add: edge_graph.clique_def)
    ultimately have "\<exists>K \<subseteq> set (hm_keys weights). edge_graph.clique e K \<and> best = sum (weight_of weights) K"
      by (intro exI [of _ "{u}"]) simp
    moreover have "v \<in> set (hm_keys weights) \<longrightarrow> weight_of weights v \<le> best" using b vals [of "weight_of weights v"] by metis
    moreover have "0 \<le> best" using u(2) stakes_sum(2) [OF assms(1), of u] by simp
    ultimately show "(\<exists>K \<subseteq> set (hm_keys weights). edge_graph.clique e K \<and> best = sum (weight_of weights) K)
        \<and> (v \<in> set (hm_keys weights) \<longrightarrow> weight_of weights v \<le> best) \<and> 0 \<le> best" by (intro conjI)
  qed (auto simp: edge_graph.clique_def intro!: exI [of _ "{}"])
qed

lemma outside_clique:
  assumes "edge_graph.clique e K" "v \<in> K" "v \<notin> fst ` set e \<union> snd ` set e"
  shows "K = {v}"
proof -
  have "u = v" if "u \<in> K" for u
  proof (rule ccontr)
    assume "u \<noteq> v"
    then have "v \<in> adjacent e u" using assms(1,2) that by (simp add: edge_graph.clique_def)
    then have "(u, v) \<in> set e \<or> (v, u) \<in> set e" by (simp add: adjacent_def)
    then have "v \<in> fst ` set e \<union> snd ` set e" by (metis Un_iff fst_conv image_eqI snd_conv)
    with assms(3) show False by blast
  qed
  then show ?thesis using assms(2) by blast
qed

text \<open>The search finds the weight of the heaviest clique of validators, for stakes that are not negative and whose sum
  fits an \<open>i64\<close>: pivoting and the bound on the remaining weight lose no clique.\<close>

lemma maximum_clique_exact:
  assumes "stakes_ok weights" "fst ` set e \<union> snd ` set e \<subseteq> set (hm_keys weights)"
  shows "find_maximum_clique_by_weight e weights = Some (heaviest_clique e weights)"
proof -
  define best where "best = (case map snd weights of [] \<Rightarrow> 0 | w # ws \<Rightarrow> foldl max w ws)"
  note start = start_weight [OF assms(1), folded best_def]
  let ?N = "get_node_set e" and ?wt = "weight_of weights" and ?keys = "set (hm_keys weights)"
  let ?S = "{sum ?wt K |K. K \<subseteq> ?keys \<and> edge_graph.clique e K}"
  note N = get_node_set [of e] and pos = stakes_sum(2) [OF assms(1)]
  have "sum ?wt (set ?N) \<le> sum ?wt ?keys" using assms(2) pos N(1) by (intro sum_mono2) auto
  then have "0 + sum ?wt (set ?N) < 2 ^ 63" using stakes_sum(1) [OF assms(1)] assms(1) by (simp add: stakes_ok_def)
  moreover have "edge_graph.sound e (get_adj e) weights (Suc (length ?N))" by (rule edge_graph.expand_sound [OF neighbours_get_adj])
  ultimately obtain b where b: "expand_max_weight (Suc (length ?N)) [] 0 ?N [] (get_adj e) weights best = Some b"
    "reports 0 ?wt best (edge_graph.maximal e (set ?N) {}) b"
    using edge_graph.soundD [of e "get_adj e" weights "Suc (length ?N)" ?N 0 "[]" best "[]"] N(2) pos start(3)
    by (auto simp: list_all_iff simp del: expand_max_weight.simps)
  have "b \<in> ?S"
  proof (cases "b = best")
    case False
    then obtain K where K: "K \<in> edge_graph.maximal e (set ?N) {}" "b = sum ?wt K" using b(2) by (auto simp: reports_def)
    then have "K \<subseteq> set ?N" "edge_graph.clique e K" by (simp_all add: edge_graph.maximal_def)
    then show ?thesis using K(2) order_trans [OF _ assms(2), of K] N(1) by (intro CollectI exI [of _ K]) simp
  qed (use start(1) in blast)
  moreover have "s \<le> b" if s: "s \<in> ?S" for s
  proof -
    obtain K where K: "K \<subseteq> ?keys" "edge_graph.clique e K" "s = sum ?wt K" using s by blast
    show ?thesis
    proof (cases "K \<subseteq> set ?N")
      case True
      obtain M where M: "M \<in> edge_graph.maximal e (set ?N) {}" "K \<subseteq> M" using edge_graph.clique_extends [OF _ True K(2)] by auto
      then have "finite M" by (auto simp: edge_graph.maximal_def intro: finite_subset)
      then have "sum ?wt K \<le> sum ?wt M" using M(2) pos by (intro sum_mono2) auto
      then show ?thesis using M(1) b(2) K(3) by (auto simp: reports_def)
    next
      case False
      then obtain v where "v \<in> K" "v \<notin> set ?N" by blast
      with outside_clique [OF K(2)] N(1) have "K = {v}" by blast
      then show ?thesis using start(2) [of v] K(1,3) b(2) by (auto simp: reports_def)
    qed
  qed
  moreover have "finite ?S" by simp
  ultimately have "Max ?S = b" by (intro Max_eqI) auto
  then show ?thesis using b(1) by (simp add: find_maximum_clique_by_weight_def heaviest_clique_def Let_def flip: best_def)
qed

definition demo_edges :: "(nat \<times> nat) list" where
  "demo_edges = [(1, 2), (2, 3), (1, 3), (3, 4)]"

definition demo_stakes :: "(nat, int) hmap" where
  "demo_stakes = [(1, 5), (2, 2), (3, 1), (4, 6)]"

lemma demo_maximum_clique:
  "find_maximum_clique_by_weight demo_edges demo_stakes = Some (heaviest_clique demo_edges demo_stakes)
   \<and> find_maximum_clique_by_weight demo_edges demo_stakes = Some 8"
proof -
  have "stakes_ok demo_stakes" "fst ` set demo_edges \<union> snd ` set demo_edges \<subseteq> set (hm_keys demo_stakes)"
    "find_maximum_clique_by_weight demo_edges demo_stakes = Some 8" by code_simp+
  then show ?thesis using maximum_clique_exact [of demo_stakes demo_edges] by simp
qed

end
