(* ===== verification/Floats.thy ===== *)
theory Floats
  imports Complex_Main "HOL-Library.Log_Nat"
begin

section \<open>Rounding of floating-point numbers\<close>

text \<open>
  The values of \<open>f32\<close> and \<open>f64\<close> are rational numbers here, and \<open>to_float p\<close> rounds to the nearest
  number with a significand of \<open>p\<close> bits, to an even one in the middle of two: \<open>p\<close> is 24 for \<open>f32\<close> and 53
  for \<open>f64\<close>. The exponents are not bounded: the stakes and quotients of stakes that the
  code computes with stay far from overflow and from the subnormal numbers.
\<close>

definition ilog2 :: "rat \<Rightarrow> int" where
  "ilog2 x = (case quotient_of x of (a, b) \<Rightarrow>
     let k = bitlen a - bitlen b in if 2 powi k \<le> x then k else k - 1)"

definition round_half_even :: "rat \<Rightarrow> int" where
  "round_half_even x =
     (let f = \<lfloor>x\<rfloor>; d = x - of_int f
      in if d < 1 / 2 then f else if 1 / 2 < d then f + 1 else if even f then f else f + 1)"

definition to_float :: "nat \<Rightarrow> rat \<Rightarrow> rat" where
  "to_float p x =
     (if x = 0 then 0
      else let e = ilog2 \<bar>x\<bar> - (int p - 1) in of_int (round_half_even (x / 2 powi e)) * 2 powi e)"

abbreviation f32 :: "rat \<Rightarrow> rat" where "f32 \<equiv> to_float 24"
abbreviation f64 :: "rat \<Rightarrow> rat" where "f64 \<equiv> to_float 53"

lemma ilog2_bounds:
  assumes "0 < x"
  shows "2 powi ilog2 x \<le> x" "x < 2 powi (ilog2 x + 1)"
proof -
  obtain a b where q: "quotient_of x = (a, b)" by (cases "quotient_of x")
  then have b: "0 < b" and x: "x = of_int a / of_int b" by (auto simp: quotient_of_denom_pos quotient_of_div)
  then have a: "0 < a" using assms by (simp add: zero_less_divide_iff)
  have bounds: "2 powi (bitlen n - 1) \<le> (of_int n :: rat)" "(of_int n :: rat) < 2 powi bitlen n" if "0 < n" for n :: int
  proof -
    have "bitlen n \<noteq> 0" using bitlen_bounds [OF that] that by auto
    then obtain m where m: "bitlen n = int (Suc m)" using bitlen_nonneg [of n] by (metis nonneg_int_cases not0_implies_Suc of_nat_0)
    have "nat (int (Suc m) - 1) = m" "nat (int (Suc m)) = Suc m" by simp_all
    then have "2 ^ m \<le> n" "n < 2 ^ Suc m" using bitlen_bounds [OF that] unfolding m by (simp_all only:)
    then have "(of_int (2 ^ m) :: rat) \<le> of_int n" "(of_int n :: rat) < of_int (2 ^ Suc m)" by (simp_all only: of_int_le_iff of_int_less_iff)
    then show "2 powi (bitlen n - 1) \<le> (of_int n :: rat)" "(of_int n :: rat) < 2 powi bitlen n" by (simp_all add: m power_int_def nat_add_distrib)
  qed
  let ?k = "bitlen a - bitlen b"
  have pos: "(0 :: rat) < of_int b" using b by simp
  have "(2 :: rat) powi (?k - 1) * of_int b < 2 powi (?k - 1) * 2 powi bitlen b" using bounds(2) [OF b] by simp
  also have "\<dots> = 2 powi (bitlen a - 1)" by (simp flip: power_int_add)
  also have "\<dots> \<le> of_int a" by (rule bounds(1) [OF a])
  finally have lower: "2 powi (?k - 1) < x" unfolding x using pos by (simp add: pos_less_divide_eq)
  have "(of_int a :: rat) < 2 powi bitlen a" by (rule bounds(2) [OF a])
  also have "\<dots> = 2 powi (?k + 1) * 2 powi (bitlen b - 1)" by (simp flip: power_int_add)
  also have "\<dots> \<le> 2 powi (?k + 1) * of_int b" using bounds(1) [OF b] by simp
  finally have upper: "x < 2 powi (?k + 1)" unfolding x using pos by (simp add: pos_divide_less_eq)
  show "2 powi ilog2 x \<le> x" "x < 2 powi (ilog2 x + 1)"
    using lower upper by (auto simp: ilog2_def q Let_def)
qed

lemma ilog2_mono: "0 < x \<Longrightarrow> x \<le> y \<Longrightarrow> ilog2 x \<le> ilog2 y"
proof (rule ccontr)
  assume "0 < x" "x \<le> y" "\<not> ilog2 x \<le> ilog2 y"
  then have "(2 :: rat) powi (ilog2 y + 1) \<le> 2 powi ilog2 x" by (simp add: power_int_le_imp_le_exp power_int_increasing)
  then show False using ilog2_bounds [of x] ilog2_bounds [of y] \<open>0 < x\<close> \<open>x \<le> y\<close> by linarith
qed

lemma round_half_even_int [simp]: "round_half_even (of_int n) = n"
  by (simp add: round_half_even_def)

lemma floor_rat: "of_int \<lfloor>x\<rfloor> \<le> (x :: rat)" "x < of_int \<lfloor>x\<rfloor> + 1"
  using floor_correct [of x] by (simp_all only: of_int_add of_int_1)

lemma round_half_even_near: "\<bar>of_int (round_half_even x) - x\<bar> \<le> 1 / 2"
  using floor_rat [of x] by (auto simp: round_half_even_def Let_def abs_le_iff)

lemma round_half_even_mono: "x \<le> y \<Longrightarrow> round_half_even x \<le> round_half_even y"
proof -
  assume le: "x \<le> y"
  show ?thesis
  proof (cases "\<lfloor>x\<rfloor> = \<lfloor>y\<rfloor>")
    case True
    then show ?thesis using le by (auto simp: round_half_even_def Let_def)
  next
    case False
    then have "\<lfloor>x\<rfloor> + 1 \<le> \<lfloor>y\<rfloor>" using floor_mono [OF le] by simp
    moreover have "round_half_even x \<le> \<lfloor>x\<rfloor> + 1" "\<lfloor>y\<rfloor> \<le> round_half_even y" by (simp_all add: round_half_even_def Let_def)
    ultimately show ?thesis by simp
  qed
qed

lemma round_half_even_minus: "round_half_even (- x) = - round_half_even x"
proof -
  define f where "f = \<lfloor>x\<rfloor>"
  have f: "of_int f \<le> x" "x < of_int f + 1" unfolding f_def by (rule floor_rat)+
  show ?thesis
  proof (cases "x = of_int f")
    case True
    have "- (of_int f :: rat) = of_int (- f)" by simp
    then show ?thesis unfolding True by (metis round_half_even_int)
  next
    case False
    then have "\<lfloor>- x\<rfloor> = - f - 1" using f by (intro floor_unique) auto
    then show ?thesis using f by (auto simp: round_half_even_def Let_def simp flip: f_def)
  qed
qed

lemma to_float_0 [simp]: "to_float p 0 = 0"
  by (simp add: to_float_def)

lemma to_float_minus: "to_float p (- x) = - to_float p x"
  by (simp add: to_float_def Let_def round_half_even_minus)

text \<open>A number with a significand of at most \<open>p\<close> bits is kept.\<close>

lemma to_float_exact:
  assumes "x = of_int n * 2 powi e" "\<bar>n\<bar> \<le> 2 ^ p" "0 < p"
  shows "to_float p x = x"
proof (cases "x = 0")
  case False
  let ?s = "ilog2 \<bar>x\<bar> - (int p - 1)"
  have n: "n \<noteq> 0" "\<bar>x\<bar> = of_int \<bar>n\<bar> * 2 powi e" using False assms(1) by (auto simp: abs_mult)
  have "\<exists>m. x / 2 powi ?s = of_int m"
  proof (cases "?s \<le> e")
    case True
    then have "x / 2 powi ?s = of_int n * 2 powi (e - ?s)" by (simp add: assms(1) power_int_diff)
    also have "\<dots> = of_int (n * 2 ^ nat (e - ?s))" using True by (simp add: power_int_def)
    finally show ?thesis by blast
  next
    case False
    have "2 powi (e + int p) \<le> (2 :: rat) powi ilog2 \<bar>x\<bar>" using False by (intro power_int_increasing) auto
    also have "\<dots> \<le> \<bar>x\<bar>" using n \<open>x \<noteq> 0\<close> by (intro ilog2_bounds) simp
    finally have "2 powi (e + int p) \<le> of_int \<bar>n\<bar> * (2 :: rat) powi e" unfolding n(2) .
    then have "(2 :: rat) ^ p \<le> of_int \<bar>n\<bar>" by (simp add: power_int_add)
    then have "(of_int (2 ^ p) :: rat) \<le> of_int \<bar>n\<bar>" by simp
    then have "\<bar>n\<bar> = 2 ^ p" using assms(2) by (simp only: of_int_le_iff)
    then have "n = sgn n * 2 ^ p" using mult_sgn_abs [of n] by (simp add: mult.commute)
    then have "(of_int n :: rat) = of_int (sgn n) * 2 ^ p" by (metis of_int_mult of_int_numeral of_int_power)
    then have x: "x = of_int (sgn n) * 2 powi (e + int p)" by (simp add: assms(1) power_int_add)
    have "\<bar>x\<bar> = 2 powi (e + int p)" using n(1) by (simp add: x abs_mult sgn_if)
    then have "\<bar>x\<bar> < 2 powi (e + int p + 1)" by (simp add: power_int_add)
    moreover have "2 powi ilog2 \<bar>x\<bar> \<le> \<bar>x\<bar>" using \<open>x \<noteq> 0\<close> by (intro ilog2_bounds) simp
    ultimately have "(2 :: rat) powi ilog2 \<bar>x\<bar> < 2 powi (e + int p + 1)" by simp
    then have "ilog2 \<bar>x\<bar> < e + int p + 1" by (metis not_less one_le_numeral power_int_increasing)
    then have s: "?s = e + 1" using False by simp
    have "x / 2 powi (e + 1) = of_int (sgn n) * 2 powi (int p - 1)" unfolding x by (simp add: power_int_add power_int_diff field_simps)
    also have "\<dots> = of_int (sgn n * 2 ^ (p - 1))" using assms(3) by (simp add: power_int_def nat_diff_distrib)
    finally show ?thesis unfolding s by blast
  qed
  then obtain m where "x / 2 powi ?s = of_int m" by blast
  then have "to_float p x = (x / 2 powi ?s) * 2 powi ?s" using False by (simp add: to_float_def Let_def)
  then show ?thesis by simp
qed simp

lemma to_float_of_int: "\<bar>n\<bar> \<le> 2 ^ p \<Longrightarrow> 0 < p \<Longrightarrow> to_float p (of_int n) = of_int n"
  using to_float_exact [of "of_int n" n 0 p] by simp

text \<open>A positive number lies in a binade, and so does its rounding.\<close>

lemma to_float_binade:
  assumes "0 < x" "0 < p"
  shows "2 powi ilog2 x \<le> to_float p x" "to_float p x \<le> 2 powi (ilog2 x + 1)"
    "\<exists>n. to_float p x = of_int n * 2 powi (ilog2 x - (int p - 1)) \<and> 0 < n \<and> n \<le> 2 ^ p"
proof -
  let ?e = "ilog2 x - (int p - 1)" and ?n = "round_half_even (x / 2 powi (ilog2 x - (int p - 1)))"
  have fl: "to_float p x = of_int ?n * 2 powi ?e" using assms(1) by (simp add: to_float_def Let_def)
  have "(2 :: rat) powi ilog2 x = 2 ^ (p - 1) * 2 powi ?e" "(2 :: rat) powi (ilog2 x + 1) = 2 ^ p * 2 powi ?e"
    using assms(2) by (simp_all add: power_int_def [of _ "int p - 1", symmetric] flip: power_int_of_nat power_int_add)
  note scale = this
  have "of_int (2 ^ (p - 1)) \<le> x / 2 powi ?e" "x / 2 powi ?e \<le> of_int (2 ^ p)"
    using ilog2_bounds [OF assms(1)] unfolding scale by (simp_all add: pos_le_divide_eq pos_divide_le_eq)
  from this [THEN round_half_even_mono] have n: "2 ^ (p - 1) \<le> ?n" "?n \<le> 2 ^ p" by (simp_all only: round_half_even_int)
  have "(of_int (2 ^ (p - 1)) :: rat) \<le> of_int ?n" "(of_int ?n :: rat) \<le> of_int (2 ^ p)" using n by (simp_all only: of_int_le_iff)
  then show "2 powi ilog2 x \<le> to_float p x" "to_float p x \<le> 2 powi (ilog2 x + 1)" unfolding fl scale by simp_all
  have "0 < (2 :: int) ^ (p - 1)" by simp
  then show "\<exists>n. to_float p x = of_int n * 2 powi ?e \<and> 0 < n \<and> n \<le> 2 ^ p" using fl n by (intro exI [of _ ?n]) linarith
qed

lemma to_float_nonneg: "0 \<le> x \<Longrightarrow> 0 < p \<Longrightarrow> 0 \<le> to_float p x"
  using to_float_binade(1) [of x p] by (cases "x = 0") (auto intro: order_trans [rotated])

lemma to_float_idem:
  assumes "0 < p"
  shows "to_float p (to_float p x) = to_float p x"
proof -
  have pos: "to_float p (to_float p x) = to_float p x" if "0 < x" for x
  proof -
    obtain n where n: "to_float p x = of_int n * 2 powi (ilog2 x - (int p - 1))" "0 < n" "n \<le> 2 ^ p"
      using to_float_binade(3) [OF \<open>0 < x\<close> assms] by blast
    show ?thesis by (rule to_float_exact [OF n(1) _ assms]) (use n(2,3) in simp)
  qed
  show ?thesis
  proof (cases x "0 :: rat" rule: linorder_cases)
    case less
    then show ?thesis using pos [of "- x"] by (simp add: to_float_minus)
  qed (use pos in auto)
qed

lemma to_float_mono:
  assumes "x \<le> y" "0 < p"
  shows "to_float p x \<le> to_float p y"
proof -
  have pos: "to_float p x \<le> to_float p y" if "0 < x" "x \<le> y" for x y
  proof (cases "ilog2 x = ilog2 y")
    case True
    let ?e = "ilog2 y - (int p - 1)"
    have "x / 2 powi ?e \<le> y / 2 powi ?e" using that by (simp add: divide_right_mono)
    from round_half_even_mono [OF this] have "(of_int (round_half_even (x / 2 powi ?e)) :: rat) \<le> of_int (round_half_even (y / 2 powi ?e))" by simp
    then show ?thesis using that True by (simp add: to_float_def Let_def)
  next
    case False
    then have "ilog2 x + 1 \<le> ilog2 y" using ilog2_mono [OF that] by simp
    then have "(2 :: rat) powi (ilog2 x + 1) \<le> 2 powi ilog2 y" by (intro power_int_increasing) auto
    then show ?thesis using to_float_binade(2) [of x p] to_float_binade(1) [of y p] that assms(2) by linarith
  qed
  consider "0 < x" | "x \<le> 0" "0 \<le> y" | "y < 0" using assms(1) by linarith
  then show ?thesis
  proof cases
    case 2
    then show ?thesis using to_float_nonneg [of "- x" p] to_float_nonneg [of y p] assms(2) by (simp add: to_float_minus)
  next
    case 3
    then show ?thesis using pos [of "- y" "- x"] assms(1) by (simp add: to_float_minus)
  qed (use pos assms(1) in simp)
qed

text \<open>Numbers between two that are kept are rounded to a number between them.\<close>

lemma to_float_between:
  "to_float p a = a \<Longrightarrow> to_float p b = b \<Longrightarrow> 0 < p \<Longrightarrow> a \<le> x \<Longrightarrow> x \<le> b \<Longrightarrow> a \<le> to_float p x \<and> to_float p x \<le> b"
  using to_float_mono [of a x p] to_float_mono [of x b p] by simp

end
