(* ===== verification/CliqueOracle.thy ===== *)
theory CliqueOracle
  imports Clique Floats BlockDagFinality "HOL-Library.Product_Lexorder"
begin

section \<open>The clique oracle\<close>

text \<open>
  casper/src/rust/safety/clique_oracle.rs. The oracle computes how much stake would have to
  equivocate for a message to be orphaned. The methods thread a run cache, whose maps are bounded by
  dropping the smallest key; a computation takes the cache and returns its result with
  the cache, or \<open>None\<close> if a walk of the DAG does not end. The points where the task
  yields to the scheduler are left out. Stakes are \<open>i64\<close>, tolerances \<open>f32\<close>.
\<close>

type_synonym stake_map = "(bytes, int) hmap"

definition MIN_FAULT_TOLERANCE :: rat where
  "MIN_FAULT_TOLERANCE = - 1"

record clique_oracle_run_cache =
  latest_message_cache :: "(bytes, hash option) hmap"
  latest_justifications_cache :: "(bytes, (bytes, hash) hmap) hmap"
  self_justification_cache :: "(hash, hash option) hmap"
  in_main_chain_cache :: "(hash \<times> hash, bool) hmap"
  max_self_justification_cache_entries :: nat
  max_in_main_chain_cache_entries :: nat

definition new_run_cache :: clique_oracle_run_cache where
  "new_run_cache = \<lparr>latest_message_cache = [], latest_justifications_cache = [], self_justification_cache = [],
     in_main_chain_cache = [], max_self_justification_cache_entries = 10000, max_in_main_chain_cache_entries = 10000\<rparr>"

definition bounded_cache_insert :: "('k :: linorder, 'v) hmap \<Rightarrow> 'k \<Rightarrow> 'v \<Rightarrow> nat \<Rightarrow> ('k, 'v) hmap" where
  "bounded_cache_insert m key v max_entries =
     hm_put key v (if 0 < max_entries \<and> key \<notin> set (hm_keys m) \<and> max_entries \<le> length m
       then hm_del (Min (set (hm_keys m))) m else m)"

definition get_corresponding_weight_map :: "hash \<Rightarrow> dag_representation \<Rightarrow> (kv_store_error, stake_map) res" where
  "get_corresponding_weight_map target_msg dag =
     rbind (lookup_unsafe dag target_msg) (\<lambda>meta.
       case md_parents meta of
         parent # _ \<Rightarrow> rbind (lookup_unsafe dag parent) (\<lambda>parent_meta. Inr (md_weight_map parent_meta))
       | [] \<Rightarrow> Inr (md_weight_map meta))"

subsection \<open>Disagreement of two validators\<close>

definition cached_self_justification ::
  "dag_representation \<Rightarrow> hash \<Rightarrow> (clique_oracle_run_cache, kv_store_error, hash option) sm" where
  "cached_self_justification dag h c =
     (case hm_get (self_justification_cache c) h of
        Some j \<Rightarrow> (Inr j, c)
      | None \<Rightarrow> (case self_justification dag h of
          Inl e \<Rightarrow> (Inl e, c)
        | Inr j \<Rightarrow> (Inr j, c\<lparr>self_justification_cache :=
            bounded_cache_insert (self_justification_cache c) h j (max_self_justification_cache_entries c)\<rparr>)))"

definition cached_in_main_chain ::
  "dag_representation \<Rightarrow> hash \<Rightarrow> hash \<Rightarrow> clique_oracle_run_cache \<Rightarrow> ((kv_store_error, bool) res \<times> clique_oracle_run_cache) option" where
  "cached_in_main_chain dag target_msg h c =
     (case hm_get (in_main_chain_cache c) (target_msg, h) of
        Some b \<Rightarrow> Some (Inr b, c)
      | None \<Rightarrow> (case is_in_main_chain dag target_msg h of
          None \<Rightarrow> None
        | Some (Inl e) \<Rightarrow> Some (Inl e, c)
        | Some (Inr b) \<Rightarrow> Some (Inr b, c\<lparr>in_main_chain_cache :=
            bounded_cache_insert (in_main_chain_cache c) (target_msg, h) b (max_in_main_chain_cache_entries c)\<rparr>)))"

partial_function (option) disagreement_loop ::
  "dag_representation \<Rightarrow> hash \<Rightarrow> hash \<Rightarrow> hash option \<Rightarrow> clique_oracle_run_cache \<Rightarrow>
   ((kv_store_error, bool) res \<times> clique_oracle_run_cache) option" where
  "disagreement_loop dag target_msg stopper current c =
     (case current of
        None \<Rightarrow> Some (Inr False, c)
      | Some h \<Rightarrow>
          if h = stopper then Some (Inr False, c)
          else case cached_in_main_chain dag target_msg h c of
                 None \<Rightarrow> None
               | Some (Inl e, c') \<Rightarrow> Some (Inl e, c')
               | Some (Inr b, c') \<Rightarrow>
                   if \<not> b then Some (Inr True, c')
                   else case cached_self_justification dag h c' of
                          (Inl e, c'') \<Rightarrow> Some (Inl e, c'')
                        | (Inr next, c'') \<Rightarrow> disagreement_loop dag target_msg stopper next c'')"

declare disagreement_loop.simps [code]

definition might_eventually_disagree ::
  "hash \<Rightarrow> hash \<Rightarrow> dag_representation \<Rightarrow> hash \<Rightarrow> clique_oracle_run_cache \<Rightarrow>
   ((kv_store_error, bool) res \<times> clique_oracle_run_cache) option" where
  "might_eventually_disagree lm_b lm_a_j_b dag target_msg c =
     (case cached_self_justification dag lm_a_j_b c of
        (Inl e, c1) \<Rightarrow> Some (Inl e, c1)
      | (Inr j, c1) \<Rightarrow>
          let stopper = (case j of Some h \<Rightarrow> h | None \<Rightarrow> lm_a_j_b)
          in case cached_self_justification dag lm_b c1 of
               (Inl e, c2) \<Rightarrow> Some (Inl e, c2)
             | (Inr current, c2) \<Rightarrow> disagreement_loop dag target_msg stopper current c2)"

definition never_eventually_see_disagreement ::
  "hash \<Rightarrow> hash \<Rightarrow> dag_representation \<Rightarrow> hash \<Rightarrow> clique_oracle_run_cache \<Rightarrow>
   ((kv_store_error, bool) res \<times> clique_oracle_run_cache) option" where
  "never_eventually_see_disagreement lm_b lm_a_j_b dag target_msg c =
     map_option (\<lambda>(r, c'). (rbind r (\<lambda>b. Inr (\<not> b)), c')) (might_eventually_disagree lm_b lm_a_j_b dag target_msg c)"

subsection \<open>Agreeing pairs\<close>

definition cached_latest_message ::
  "dag_representation \<Rightarrow> bytes \<Rightarrow> clique_oracle_run_cache \<Rightarrow> hash option \<times> clique_oracle_run_cache" where
  "cached_latest_message dag v c =
     (case hm_get (latest_message_cache c) v of
        Some l \<Rightarrow> (l, c)
      | None \<Rightarrow> (let l = latest_message_hash dag v
                 in (l, c\<lparr>latest_message_cache := hm_put v l (latest_message_cache c)\<rparr>)))"

definition justification_map :: "block_metadata \<Rightarrow> (bytes, hash) hmap" where
  "justification_map m = foldl (\<lambda>acc j. hm_put (j_validator j) (latest_block_hash j) acc) [] (md_justifications m)"

definition cached_justifications ::
  "dag_representation \<Rightarrow> bytes \<Rightarrow> hash \<Rightarrow> (clique_oracle_run_cache, kv_store_error, (bytes, hash) hmap) sm" where
  "cached_justifications dag v latest c =
     (case hm_get (latest_justifications_cache c) v of
        Some js \<Rightarrow> (Inr js, c)
      | None \<Rightarrow> (case lookup_unsafe dag latest of
          Inl e \<Rightarrow> (Inl e, c)
        | Inr metadata \<Rightarrow> (let js = justification_map metadata
            in (Inr js, c\<lparr>latest_justifications_cache := hm_put v js (latest_justifications_cache c)\<rparr>))))"

text \<open>The validators with a latest message that justifies a message of an agreeing validator.\<close>

fun pairwise_validators ::
  "dag_representation \<Rightarrow> bytes list \<Rightarrow> bytes list \<Rightarrow> (bytes, hash \<times> (bytes, hash) hmap) hmap \<Rightarrow>
   (clique_oracle_run_cache, kv_store_error, (bytes, hash \<times> (bytes, hash) hmap) hmap) sm" where
  "pairwise_validators dag agreeing [] acc c = (Inr acc, c)"
| "pairwise_validators dag agreeing (v # vs) acc c =
     (case cached_latest_message dag v c of
        (None, c1) \<Rightarrow> pairwise_validators dag agreeing vs acc c1
      | (Some latest, c1) \<Rightarrow> (case cached_justifications dag v latest c1 of
          (Inl e, c2) \<Rightarrow> (Inl e, c2)
        | (Inr all_justifications, c2) \<Rightarrow>
            let relevant = filter (\<lambda>(w, h). w \<in> set agreeing) all_justifications
            in pairwise_validators dag agreeing vs (if relevant = [] then acc else acc @ [(v, latest, relevant)]) c2))"

fun check_pairs ::
  "dag_representation \<Rightarrow> hash \<Rightarrow> ((bytes \<times> hash \<times> (bytes, hash) hmap) \<times> (bytes \<times> hash \<times> (bytes, hash) hmap)) list \<Rightarrow>
   (bytes \<times> bytes) list \<Rightarrow> clique_oracle_run_cache \<Rightarrow>
   ((kv_store_error, (bytes \<times> bytes) list) res \<times> clique_oracle_run_cache) option" where
  "check_pairs dag target_msg [] result c = Some (Inr result, c)"
| "check_pairs dag target_msg (((a, lm_a, js_a), (b, lm_b, js_b)) # ps) result c =
     (case (hm_get js_a b, hm_get js_b a) of
        (Some lm_a_j_b, Some lm_b_j_a) \<Rightarrow>
          (case never_eventually_see_disagreement lm_b lm_a_j_b dag target_msg c of
             None \<Rightarrow> None
           | Some (Inl e, c1) \<Rightarrow> Some (Inl e, c1)
           | Some (Inr no_a_b, c1) \<Rightarrow>
               (case never_eventually_see_disagreement lm_a lm_b_j_a dag target_msg c1 of
                  None \<Rightarrow> None
                | Some (Inl e, c2) \<Rightarrow> Some (Inl e, c2)
                | Some (Inr no_b_a, c2) \<Rightarrow>
                    check_pairs dag target_msg ps (if no_a_b \<and> no_b_a then result @ [(a, b)] else result) c2))
      | _ \<Rightarrow> check_pairs dag target_msg ps result c)"

fun pairs_of :: "'a list \<Rightarrow> ('a \<times> 'a) list" where
  "pairs_of [] = []"
| "pairs_of (x # xs) = map (\<lambda>y. (x, y)) xs @ pairs_of xs"

definition compute_agreeing_validator_pairs ::
  "hash \<Rightarrow> stake_map \<Rightarrow> dag_representation \<Rightarrow> clique_oracle_run_cache \<Rightarrow>
   ((kv_store_error, (bytes \<times> bytes) list) res \<times> clique_oracle_run_cache) option" where
  "compute_agreeing_validator_pairs target_msg agreeing_weight_map dag c =
     (let agreeing = sort (hm_keys agreeing_weight_map)
      in case pairwise_validators dag agreeing agreeing [] c of
           (Inl e, c') \<Rightarrow> Some (Inl e, c')
         | (Inr vs, c') \<Rightarrow> check_pairs dag target_msg (pairs_of vs) [] c')"

subsection \<open>The fault tolerance\<close>

definition compute_max_clique_weight ::
  "hash \<Rightarrow> stake_map \<Rightarrow> dag_representation \<Rightarrow> clique_oracle_run_cache \<Rightarrow>
   ((kv_store_error, int) res \<times> clique_oracle_run_cache) option" where
  "compute_max_clique_weight target_msg agreeing_weight_map dag c =
     (case compute_agreeing_validator_pairs target_msg agreeing_weight_map dag c of
        None \<Rightarrow> None
      | Some (Inl e, c') \<Rightarrow> Some (Inl e, c')
      | Some (Inr e, c') \<Rightarrow> map_option (\<lambda>w. (Inr w, c')) (find_maximum_clique_by_weight e agreeing_weight_map))"

definition compute_output_with_cache ::
  "hash \<Rightarrow> stake_map \<Rightarrow> stake_map \<Rightarrow> dag_representation \<Rightarrow> clique_oracle_run_cache \<Rightarrow>
   ((kv_store_error, rat) res \<times> clique_oracle_run_cache) option" where
  "compute_output_with_cache target_msg message_weight_map agreeing_weight_map dag c =
     (let total_stake = f32 (of_int (sum_i64 (map snd message_weight_map)))
      in if \<not> 0 < total_stake then Some (Inl (Panic ''Long overflow when computing total stake''), c)
         else if f32 (of_int (sum_i64 (map snd agreeing_weight_map))) \<le> f32 (total_stake / 2)
         then Some (Inr MIN_FAULT_TOLERANCE, c)
         else case compute_max_clique_weight target_msg agreeing_weight_map dag c of
                None \<Rightarrow> None
              | Some (Inl e, c') \<Rightarrow> Some (Inl e, c')
              | Some (Inr w, c') \<Rightarrow>
                  let max_clique_weight = f32 (of_int w)
                  in Some (Inr (f32 (f32 (f32 (max_clique_weight * 2) - total_stake) / total_stake)), c'))"

definition compute_output ::
  "hash \<Rightarrow> stake_map \<Rightarrow> stake_map \<Rightarrow> dag_representation \<Rightarrow> (kv_store_error, rat) res option" where
  "compute_output target_msg message_weight_map agreeing_weight_map dag =
     map_option fst (compute_output_with_cache target_msg message_weight_map agreeing_weight_map dag new_run_cache)"

fun agreeing_weight_map_f ::
  "(bytes \<times> int) list \<Rightarrow> hash \<Rightarrow> dag_representation \<Rightarrow> stake_map \<Rightarrow> (kv_store_error, stake_map) res option" where
  "agreeing_weight_map_f [] target_msg dag acc = Some (Inr acc)"
| "agreeing_weight_map_f ((v, w) # ws) target_msg dag acc =
     (case latest_message_hash dag v of
        None \<Rightarrow> agreeing_weight_map_f ws target_msg dag acc
      | Some h \<Rightarrow> (case is_in_main_chain dag target_msg h of
          None \<Rightarrow> None
        | Some (Inl e) \<Rightarrow> Some (Inl e)
        | Some (Inr agrees) \<Rightarrow> agreeing_weight_map_f ws target_msg dag (if agrees then acc @ [(v, w)] else acc)))"

definition normalized_fault_tolerance :: "hash \<Rightarrow> dag_representation \<Rightarrow> (kv_store_error, rat) res option" where
  "normalized_fault_tolerance target_msg dag =
     (if rep_contains dag target_msg then
        case get_corresponding_weight_map target_msg dag of
          Inl e \<Rightarrow> Some (Inl e)
        | Inr full_weight_map \<Rightarrow>
            (case agreeing_weight_map_f full_weight_map target_msg dag [] of
               None \<Rightarrow> None
             | Some (Inl e) \<Rightarrow> Some (Inl e)
             | Some (Inr agreeing_weight_map) \<Rightarrow> compute_output target_msg full_weight_map agreeing_weight_map dag)
      else Some (Inr MIN_FAULT_TOLERANCE))"

end
