(* ===== verification/Finalizer.thy ===== *)
theory Finalizer
  imports CliqueOracle
begin

section \<open>The finalizer\<close>

text \<open>
  casper/src/rust/finality/finalizer.rs: the search for the next last finalized block. The
  clock is an argument: \<open>exhausted n\<close> says whether the \<open>n\<close>-th look at it finds the work budget
  used up, and \<open>timed_out k c\<close> whether the \<open>k\<close>-th run of the oracle exceeds the time of a step, and
  what that run, started with the cache \<open>c\<close>, then left in it. The choice of the budgets by the
  lag only changes this argument. The maps of weights and main parents that \<open>run\<close> remembers hold
  results of lookups in the same representation and are left out, with the counters and the
  logs. \<open>effect\<close> is the callback that records a new last finalized block.
\<close>

record run_clock =
  exhausted :: "nat \<Rightarrow> bool"
  timed_out :: "nat \<Rightarrow> clique_oracle_run_cache \<Rightarrow> clique_oracle_run_cache option"

definition checked_add_i64 :: "int \<Rightarrow> int \<Rightarrow> int option" where
  "checked_add_i64 a b = (if - (2 ^ 63) \<le> a + b \<and> a + b < 2 ^ 63 then Some (a + b) else None)"

definition checked_stake_sum :: "stake_map \<Rightarrow> int option" where
  "checked_stake_sum weights = foldl (\<lambda>acc w. Option.bind acc (\<lambda>a. checked_add_i64 a w)) (Some 0) (map snd weights)"

definition cannot_be_orphaned :: "stake_map \<Rightarrow> stake_map \<Rightarrow> bool" where
  "cannot_be_orphaned message_weight_map agreeing_weight_map =
     (if list_ex (\<lambda>st. st \<le> 0) (map snd agreeing_weight_map) then False
      else case checked_stake_sum message_weight_map of
             None \<Rightarrow> False
           | Some active_stake_total \<Rightarrow>
               (case checked_stake_sum agreeing_weight_map of
                  None \<Rightarrow> False
                | Some active_stake_agreeing \<Rightarrow>
                    if active_stake_total \<le> 0 \<or> active_stake_agreeing \<le> 0 then False
                    else active_stake_agreeing * 2 > active_stake_total))"

definition f64_MIN :: rat where
  "f64_MIN = - (2 ^ 1024 - 2 ^ 971)"

definition fault_tolerance_upper_bound :: "stake_map \<Rightarrow> stake_map \<Rightarrow> rat" where
  "fault_tolerance_upper_bound message_weight_map agreeing_weight_map =
     (case (checked_stake_sum message_weight_map, checked_stake_sum agreeing_weight_map) of
        (Some total_stake, Some agreeing_stake) \<Rightarrow>
          if total_stake \<le> 0 then f64_MIN
          else f64 (f64 (of_int (agreeing_stake * 2 - total_stake)) / f64 (of_int total_stake))
      | _ \<Rightarrow> f64_MIN)"

definition record_agreement :: "stake_map \<Rightarrow> bytes \<Rightarrow> (bytes \<times> int) option" where
  "record_agreement message_weight_map agreeing_validator =
     (let stake_agreed = (case hm_get message_weight_map agreeing_validator of Some w \<Rightarrow> w | None \<Rightarrow> 0)
      in if stake_agreed > 0 then Some (agreeing_validator, stake_agreed) else None)"

subsection \<open>Agreements\<close>

type_synonym agreements = "(hash, block_metadata \<times> stake_map \<times> stake_map) hmap"

text \<open>One message of a layer. The first agreement of a validator is kept.\<close>

definition aggregate :: "agreements \<Rightarrow> bytes \<Rightarrow> block_metadata \<Rightarrow> stake_map \<Rightarrow> agreements" where
  "aggregate agg v message message_weight_map =
     (let (m, wm, agreeing) = (case hm_get agg (md_block_hash message) of
            Some e \<Rightarrow> e | None \<Rightarrow> (message, message_weight_map, []));
          agreeing' = (case record_agreement message_weight_map v of
            Some (w, st) \<Rightarrow> if w \<in> set (hm_keys agreeing) then agreeing else hm_put w st agreeing
          | None \<Rightarrow> agreeing)
      in hm_put (md_block_hash message) (m, wm, agreeing') agg)"

fun process_layer ::
  "run_clock \<Rightarrow> dag_representation \<Rightarrow> int \<Rightarrow> (bytes \<times> block_metadata) list \<Rightarrow> agreements \<Rightarrow> (bytes \<times> block_metadata) list \<Rightarrow> nat \<Rightarrow>
   bool \<times> agreements \<times> (bytes \<times> block_metadata) list \<times> nat" where
  "process_layer clock dag curr_lfb_height [] agg next_layer n = (False, agg, next_layer, n)"
| "process_layer clock dag curr_lfb_height ((v, message) # layer) agg next_layer n =
     (if exhausted clock n then (True, agg, next_layer, Suc n)
      else case get_corresponding_weight_map (md_block_hash message) dag of
             Inl _ \<Rightarrow> process_layer clock dag curr_lfb_height layer agg next_layer (Suc n)
           | Inr message_weight_map \<Rightarrow>
               process_layer clock dag curr_lfb_height layer (aggregate agg v message message_weight_map)
                 (case md_parents message of
                    [] \<Rightarrow> next_layer
                  | parent # _ \<Rightarrow> (case lookup_unsafe dag parent of
                      Inl _ \<Rightarrow> next_layer
                    | Inr meta \<Rightarrow> if md_block_number meta > curr_lfb_height then next_layer @ [(v, meta)] else next_layer))
                 (Suc n))"

partial_function (option) agreement_layers ::
  "run_clock \<Rightarrow> dag_representation \<Rightarrow> int \<Rightarrow> (bytes \<times> block_metadata) list \<Rightarrow> agreements \<Rightarrow> nat \<Rightarrow> (agreements \<times> nat) option" where
  "agreement_layers clock dag curr_lfb_height current_layer agg n =
     (if exhausted clock n then Some (agg, Suc n)
      else case process_layer clock dag curr_lfb_height current_layer agg [] (Suc n) of
             (budget_exhausted, agg', next_layer, n') \<Rightarrow>
               if budget_exhausted \<or> next_layer = [] then Some (agg', n')
               else agreement_layers clock dag curr_lfb_height next_layer agg' n')"

declare agreement_layers.simps [code]

subsection \<open>Candidates\<close>

definition candidate_cmp ::
  "block_metadata \<times> stake_map \<times> stake_map \<Rightarrow> block_metadata \<times> stake_map \<times> stake_map \<Rightarrow> ordering" where
  "candidate_cmp l r = (case (l, r) of ((msg_l, _, agreeing_l), (msg_r, _, agreeing_r)) \<Rightarrow>
     then_with (cmp (md_block_number msg_r) (md_block_number msg_l))
    (then_with (cmp (sum_i64 (map snd agreeing_r)) (sum_i64 (map snd agreeing_l)))
    (then_with (cmp (length agreeing_l) (length agreeing_r))
       (cmp (md_block_hash msg_l) (md_block_hash msg_r)))))"

definition MAX_CLIQUE_CANDIDATES :: nat where
  "MAX_CLIQUE_CANDIDATES = 128"

definition capped_agreements :: "agreements \<Rightarrow> (block_metadata \<times> stake_map \<times> stake_map) list" where
  "capped_agreements agg =
     take MAX_CLIQUE_CANDIDATES (sort_by candidate_cmp
       (filter (\<lambda>(_, message_weight_map, agreeing). cannot_be_orphaned message_weight_map agreeing) (map snd agg)))"

fun select_candidate ::
  "run_clock \<Rightarrow> dag_representation \<Rightarrow> rat \<Rightarrow> (hash \<times> rat \<Rightarrow> ('s, kv_store_error, unit) sm) \<Rightarrow>
   (block_metadata \<times> stake_map \<times> stake_map) list \<Rightarrow> nat \<Rightarrow> nat \<Rightarrow> clique_oracle_run_cache \<Rightarrow> 's \<Rightarrow>
   ((kv_store_error, (hash \<times> rat) option) res \<times> 's) option" where
  "select_candidate clock dag threshold effect [] n k c s = Some (Inr None, s)"
| "select_candidate clock dag threshold effect ((message, message_weight_map, agreeing) # cs) n k c s =
     (if exhausted clock n then Some (Inr None, s)
      else if fault_tolerance_upper_bound message_weight_map agreeing \<le> threshold
      then select_candidate clock dag threshold effect cs (Suc n) k c s
      else case timed_out clock k c of
        Some c' \<Rightarrow> select_candidate clock dag threshold effect cs (Suc n) (Suc k) c' s
      | None \<Rightarrow>
          (case compute_output_with_cache (md_block_hash message) message_weight_map agreeing dag c of
             None \<Rightarrow> None
           | Some (Inl (Panic msg), c') \<Rightarrow> Some (Inl (Panic msg), s)
           | Some (Inl (Err _), c') \<Rightarrow> select_candidate clock dag threshold effect cs (Suc n) (Suc k) c' s
           | Some (Inr fault_tolerance, c') \<Rightarrow>
               if threshold < fault_tolerance
               then let h = md_block_hash message
                    in if \<not> is_finalized dag h
                       then case effect (h, fault_tolerance) s of
                              (Inl e, s') \<Rightarrow> Some (Inl e, s')
                            | (Inr _, s') \<Rightarrow> Some (Inr (Some (h, fault_tolerance)), s')
                       else Some (Inr (Some (h, fault_tolerance)), s)
               else select_candidate clock dag threshold effect cs (Suc n) (Suc k) c' s))"

definition finalizer_run ::
  "run_clock \<Rightarrow> dag_representation \<Rightarrow> rat \<Rightarrow> int \<Rightarrow> (hash \<times> rat \<Rightarrow> ('s, kv_store_error, unit) sm) \<Rightarrow> 's \<Rightarrow>
   ((kv_store_error, (hash \<times> rat) option) res \<times> 's) option" where
  "finalizer_run clock dag threshold curr_lfb_height effect s =
     (case latest_messages dag of
        Inl e \<Rightarrow> Some (Inl e, s)
      | Inr lms \<Rightarrow>
          (case agreement_layers clock dag curr_lfb_height (sort_by (\<lambda>a b. cmp (fst a) (fst b)) lms) [] 0 of
             None \<Rightarrow> None
           | Some (agg, n) \<Rightarrow> select_candidate clock dag threshold effect (capped_agreements agg) n 0 new_run_cache s))"

end
