(* ===== verification/CliqueOracleSpec.thy ===== *)
theory CliqueOracleSpec
  imports CliqueOracle
begin

section \<open>What the clique oracle computes\<close>

text \<open>
  The fault tolerance in terms of the blocks: \<open>no_disagreement\<close> says that the messages a validator
  sent after the one the other knows are all in the main chain of the target, \<open>mutual\<close>
  that two validators see no disagreement of each other. The oracle ends, the run cache does
  not change its result, and the result is that of the heaviest set of validators that are pairwise \<open>mutual\<close>.
\<close>

definition justified :: "metas \<Rightarrow> bool" where
  "justified f \<longleftrightarrow> (\<forall>h m. f h = Some m \<longrightarrow> length h = BLOCK_HASH_LENGTH \<and>
     (\<forall>j \<in> set (md_justifications m). \<exists>m'. f (latest_block_hash j) = Some m'
        \<and> (j_validator j = md_sender m \<longrightarrow> md_sequence_number m' < md_sequence_number m)))"

definition stopper_of :: "metas \<Rightarrow> hash \<Rightarrow> hash" where
  "stopper_of f h = (case self_justification_of f h of Some j \<Rightarrow> j | None \<Rightarrow> h)"

definition sent_before :: "metas \<Rightarrow> hash \<Rightarrow> (hash \<times> hash) set" where
  "sent_before f stopper = {(x, y). self_justification_of f x = Some y \<and> y \<noteq> stopper}"

definition no_disagreement :: "metas \<Rightarrow> hash \<Rightarrow> hash \<Rightarrow> hash \<Rightarrow> bool" where
  "no_disagreement f target lm_b lm_a_j_b \<longleftrightarrow>
     (sent_before f (stopper_of f lm_a_j_b))\<^sup>+ `` {lm_b} \<subseteq> {h. (h, target) \<in> (main_rel f)\<^sup>*}"

definition mutual :: "metas \<Rightarrow> (bytes \<Rightarrow> hash option) \<Rightarrow> hash \<Rightarrow> bytes \<Rightarrow> bytes \<Rightarrow> bool" where
  "mutual f latest target a b \<longleftrightarrow> (\<exists>la lb ma mb ab ba. latest a = Some la \<and> latest b = Some lb
     \<and> f la = Some ma \<and> f lb = Some mb \<and> hm_get (justification_map ma) b = Some ab \<and> hm_get (justification_map mb) a = Some ba
     \<and> no_disagreement f target lb ab \<and> no_disagreement f target la ba)"

definition heaviest_agreement :: "metas \<Rightarrow> (bytes \<Rightarrow> hash option) \<Rightarrow> hash \<Rightarrow> stake_map \<Rightarrow> int" where
  "heaviest_agreement f latest target weights =
     Max {sum (weight_of weights) K |K. K \<subseteq> set (hm_keys weights) \<and> pairwise (mutual f latest target) K}"

subsection \<open>What the representation shows\<close>

definition oracle_view :: "metas \<Rightarrow> dag_representation \<Rightarrow> bool" where
  "oracle_view f rep \<longleftrightarrow> finite (dom f) \<and> justified f
     \<and> (\<forall>h m. f h = Some m \<longrightarrow> lookup_unsafe rep h = Inr m \<and> self_justification rep h = Inr (self_justification_of f h))
     \<and> (\<forall>t h. f t \<noteq> None \<longrightarrow> f h \<noteq> None \<longrightarrow> is_in_main_chain rep t h = Some (Inr ((h, t) \<in> (main_rel f)\<^sup>*)))
     \<and> (\<forall>v h. latest_message_hash rep v = Some h \<longrightarrow> f h \<noteq> None)"

lemma oracle_viewD:
  assumes "oracle_view f rep"
  shows "f h = Some m \<Longrightarrow> lookup_unsafe rep h = Inr m" "f h \<noteq> None \<Longrightarrow> self_justification rep h = Inr (self_justification_of f h)"
    "f t \<noteq> None \<Longrightarrow> f h \<noteq> None \<Longrightarrow> is_in_main_chain rep t h = Some (Inr ((h, t) \<in> (main_rel f)\<^sup>*))"
    "latest_message_hash rep v = Some h \<Longrightarrow> f h \<noteq> None" "finite (dom f)" "justified f"
  using assms unfolding oracle_view_def by blast+

lemma self_justification_known:
  assumes "justified f" "self_justification_of f h = Some j"
  obtains m m' where "f h = Some m" "f j = Some m'" "md_sequence_number m' < md_sequence_number m"
proof -
  obtain m where m: "f h = Some m" using assms(2) by (auto simp: self_justification_of_def split: option.splits)
  then obtain x where x: "find (\<lambda>j. j_validator j = md_sender m) (md_justifications m) = Some x" "j = latest_block_hash x"
    using assms(2) by (auto simp: self_justification_of_def)
  then have "x \<in> set (md_justifications m)" "j_validator x = md_sender m" by (auto simp: find_Some_iff)
  then obtain m' where "f j = Some m'" "md_sequence_number m' < md_sequence_number m"
    using assms(1) m x(2) unfolding justified_def by blast
  with m show ?thesis by (rule that)
qed

lemma self_justification_wf:
  assumes "justified f" "finite (dom f)"
  shows "wf {(j, h). self_justification_of f h = Some j}"
proof (rule finite_acyclic_wf)
  let ?R = "{(j, h). self_justification_of f h = Some j}"
  have "?R \<subseteq> dom f \<times> dom f" by (auto elim: self_justification_known [OF assms(1)])
  then show "finite ?R" using assms(2) finite_subset [of ?R "dom f \<times> dom f"] by simp
  let ?n = "\<lambda>h. md_sequence_number (the (f h))"
  have "(j, h) \<in> ?R\<^sup>+ \<Longrightarrow> ?n j < ?n h" for j h
    by (induction rule: trancl_induct) (auto elim!: self_justification_known [OF assms(1)])
  then show "acyclic ?R" by (auto simp: acyclic_def)
qed

lemma justification_map_get:
  "hm_get (justification_map m) v = Some h \<Longrightarrow> \<exists>j \<in> set (md_justifications m). j_validator j = v \<and> latest_block_hash j = h"
proof -
  have "hm_get (foldl (\<lambda>acc j. hm_put (j_validator j) (latest_block_hash j) acc) acc js) v = Some h \<Longrightarrow>
      hm_get acc v = Some h \<or> (\<exists>j \<in> set js. j_validator j = v \<and> latest_block_hash j = h)" for acc js
    by (induction js arbitrary: acc) (fastforce split: if_splits)+
  from this [of "[]"] show "hm_get (justification_map m) v = Some h \<Longrightarrow> ?thesis" by (simp add: justification_map_def)
qed

lemma justification_map_known:
  assumes "justified f" "f l = Some m" "hm_get (justification_map m) v = Some h"
  shows "f h \<noteq> None"
  using justification_map_get [OF assms(3)] assms(1,2) unfolding justified_def by fastforce

subsection \<open>The run cache\<close>

definition run_cache_ok :: "metas \<Rightarrow> dag_representation \<Rightarrow> clique_oracle_run_cache \<Rightarrow> bool" where
  "run_cache_ok f rep c \<longleftrightarrow>
     (\<forall>v l. hm_get (latest_message_cache c) v = Some l \<longrightarrow> l = latest_message_hash rep v)
   \<and> (\<forall>v js. hm_get (latest_justifications_cache c) v = Some js \<longrightarrow>
        (\<exists>h m. latest_message_hash rep v = Some h \<and> f h = Some m \<and> js = justification_map m))
   \<and> (\<forall>h j. hm_get (self_justification_cache c) h = Some j \<longrightarrow> j = self_justification_of f h)
   \<and> (\<forall>t h b. hm_get (in_main_chain_cache c) (t, h) = Some b \<longrightarrow> b = ((h, t) \<in> (main_rel f)\<^sup>*))"

lemma new_run_cache_ok: "run_cache_ok f rep new_run_cache"
  by (simp add: run_cache_ok_def new_run_cache_def)

lemma bounded_cache_get:
  "hm_get (bounded_cache_insert m k v n) k' = Some x \<Longrightarrow> k' = k \<and> x = v \<or> hm_get m k' = Some x"
  by (auto simp: bounded_cache_insert_def split: if_splits)

lemma cached_self_justification_ok:
  assumes "oracle_view f rep" "run_cache_ok f rep c" "f h \<noteq> None"
  obtains c' where "cached_self_justification rep h c = (Inr (self_justification_of f h), c')" "run_cache_ok f rep c'"
proof (cases "hm_get (self_justification_cache c) h")
  case None
  let ?c = "c\<lparr>self_justification_cache := bounded_cache_insert (self_justification_cache c) h (self_justification_of f h)
    (max_self_justification_cache_entries c)\<rparr>"
  have "run_cache_ok f rep ?c" using assms(2) unfolding run_cache_ok_def by (auto dest!: bounded_cache_get)
  then show ?thesis using None oracle_viewD(2) [OF assms(1,3)] by (intro that [of ?c]) (simp_all add: cached_self_justification_def)
next
  case (Some j)
  then have "j = self_justification_of f h" using assms(2) unfolding run_cache_ok_def by blast
  then show ?thesis using Some assms(2) by (intro that [of c]) (simp_all add: cached_self_justification_def)
qed

lemma cached_in_main_chain_ok:
  assumes "oracle_view f rep" "run_cache_ok f rep c" "f t \<noteq> None" "f h \<noteq> None"
  obtains c' where "cached_in_main_chain rep t h c = Some (Inr ((h, t) \<in> (main_rel f)\<^sup>*), c')" "run_cache_ok f rep c'"
proof (cases "hm_get (in_main_chain_cache c) (t, h)")
  case None
  let ?c = "c\<lparr>in_main_chain_cache := bounded_cache_insert (in_main_chain_cache c) (t, h) ((h, t) \<in> (main_rel f)\<^sup>*)
    (max_in_main_chain_cache_entries c)\<rparr>"
  have "run_cache_ok f rep ?c" using assms(2) unfolding run_cache_ok_def by (auto dest!: bounded_cache_get)
  then show ?thesis using None oracle_viewD(3) [OF assms(1,3,4)] by (intro that [of ?c]) (simp_all add: cached_in_main_chain_def)
next
  case (Some b)
  then have "b = ((h, t) \<in> (main_rel f)\<^sup>*)" using assms(2) unfolding run_cache_ok_def by blast
  then show ?thesis using Some assms(2) by (intro that [of c]) (simp_all add: cached_in_main_chain_def)
qed

subsection \<open>Pairs of validators\<close>

lemma sent_before_step:
  assumes "self_justification_of f h = Some j"
  shows "(sent_before f s)\<^sup>+ `` {h} = (if j = s then {} else insert j ((sent_before f s)\<^sup>+ `` {j}))"
proof -
  have "sent_before f s `` {h} = (if j = s then {} else {j})" using assms by (auto simp: sent_before_def)
  moreover have "(sent_before f s)\<^sup>+ `` {h} = (sent_before f s)\<^sup>* `` (sent_before f s `` {h})"
    by (auto simp: trancl_unfold_left Image_def)
  ultimately show ?thesis by (auto simp: rtrancl_eq_or_trancl)
qed

lemma disagreement_loop_ok:
  assumes "oracle_view f rep" "f t \<noteq> None"
  shows "f h \<noteq> None \<Longrightarrow> run_cache_ok f rep c \<Longrightarrow>
    \<exists>c'. disagreement_loop rep t s (self_justification_of f h) c
      = Some (Inr (\<not> (sent_before f s)\<^sup>+ `` {h} \<subseteq> {h. (h, t) \<in> (main_rel f)\<^sup>*}), c') \<and> run_cache_ok f rep c'"
proof (induction h arbitrary: c rule: wf_induct_rule [OF self_justification_wf [OF oracle_viewD(6,5) [OF assms(1)]]])
  case (1 h)
  show ?case
  proof (cases "self_justification_of f h")
    case None
    then have "sent_before f s `` {h} = {}" by (auto simp: sent_before_def)
    then have "(sent_before f s)\<^sup>+ `` {h} = {}" by (auto simp: trancl_unfold_left)
    then show ?thesis using None "1.prems"(2) by (subst disagreement_loop.simps) simp
  next
    case (Some j)
    have j: "f j \<noteq> None" using self_justification_known [OF oracle_viewD(6) [OF assms(1)] Some] by blast
    show ?thesis
    proof (cases "j = s")
      case True
      then show ?thesis using "1.prems"(2) sent_before_step [OF Some, of s] by (subst disagreement_loop.simps) (simp add: Some)
    next
      case False
      obtain c1 where c1: "cached_in_main_chain rep t j c = Some (Inr ((j, t) \<in> (main_rel f)\<^sup>*), c1)" "run_cache_ok f rep c1"
        using cached_in_main_chain_ok [OF assms(1) "1.prems"(2) assms(2) j] .
      obtain c2 where c2: "cached_self_justification rep j c1 = (Inr (self_justification_of f j), c2)" "run_cache_ok f rep c2"
        using cached_self_justification_ok [OF assms(1) c1(2) j] .
      obtain c3 where c3: "disagreement_loop rep t s (self_justification_of f j) c2
          = Some (Inr (\<not> (sent_before f s)\<^sup>+ `` {j} \<subseteq> {h. (h, t) \<in> (main_rel f)\<^sup>*}), c3)" "run_cache_ok f rep c3"
        using "1.IH" [of j, OF _ j c2(2)] Some by auto
      show ?thesis
        using False c1 c2 c3 by (subst disagreement_loop.simps) (simp add: Some sent_before_step [OF Some])
    qed
  qed
qed

lemma never_eventually_ok:
  assumes "oracle_view f rep" "run_cache_ok f rep c" "f t \<noteq> None" "f lb \<noteq> None" "f ab \<noteq> None"
  obtains c' where "never_eventually_see_disagreement lb ab rep t c = Some (Inr (no_disagreement f t lb ab), c')" "run_cache_ok f rep c'"
proof -
  obtain c1 where c1: "cached_self_justification rep ab c = (Inr (self_justification_of f ab), c1)" "run_cache_ok f rep c1"
    using cached_self_justification_ok [OF assms(1,2,5)] .
  obtain c2 where c2: "cached_self_justification rep lb c1 = (Inr (self_justification_of f lb), c2)" "run_cache_ok f rep c2"
    using cached_self_justification_ok [OF assms(1) c1(2) assms(4)] .
  obtain c3 where c3: "disagreement_loop rep t (stopper_of f ab) (self_justification_of f lb) c2
      = Some (Inr (\<not> (sent_before f (stopper_of f ab))\<^sup>+ `` {lb} \<subseteq> {h. (h, t) \<in> (main_rel f)\<^sup>*}), c3)" "run_cache_ok f rep c3"
    using disagreement_loop_ok [OF assms(1,3,4) c2(2)] by blast
  show ?thesis
    by (rule that [of c3]) (simp_all add: never_eventually_see_disagreement_def might_eventually_disagree_def c1 c2 c3 no_disagreement_def
        flip: stopper_of_def)
qed

text \<open>What the first loop collects for a validator: its latest message and the justifications of agreeing validators.\<close>

definition known_for :: "metas \<Rightarrow> (bytes \<Rightarrow> hash option) \<Rightarrow> bytes list \<Rightarrow> bytes \<Rightarrow> (hash \<times> (bytes, hash) hmap) option" where
  "known_for f latest agreeing v =
     Option.bind (latest v) (\<lambda>l. Option.bind (f l) (\<lambda>m.
       let relevant = filter (\<lambda>(w, h). w \<in> set agreeing) (justification_map m)
       in if relevant = [] then None else Some (l, relevant)))"

lemma pairwise_validators_ok:
  assumes "oracle_view f rep"
  shows "run_cache_ok f rep c \<Longrightarrow> \<exists>c'. pairwise_validators rep agreeing vs acc c
    = (Inr (acc @ List.map_filter (\<lambda>v. map_option (Pair v) (known_for f (latest_message_hash rep) agreeing v)) vs), c') \<and> run_cache_ok f rep c'"
proof (induction vs arbitrary: acc c)
  case (Cons v vs)
  obtain c1 where c1: "cached_latest_message rep v c = (latest_message_hash rep v, c1)" "run_cache_ok f rep c1"
    using Cons.prems by (cases "hm_get (latest_message_cache c) v") (fastforce simp: cached_latest_message_def run_cache_ok_def Let_def)+
  show ?case
  proof (cases "latest_message_hash rep v")
    case None
    then show ?thesis using Cons.IH [OF c1(2)] c1(1) by (simp add: known_for_def map_filter_simps)
  next
    case (Some l)
    obtain m where m: "f l = Some m" using oracle_viewD(4) [OF assms Some] by blast
    obtain c2 where c2: "cached_justifications rep v l c1 = (Inr (justification_map m), c2)" "run_cache_ok f rep c2"
      using c1(2) oracle_viewD(1) [OF assms m] Some m
      by (cases "hm_get (latest_justifications_cache c1) v") (fastforce simp: cached_justifications_def run_cache_ok_def Let_def)+
    let ?rel = "filter (\<lambda>(w, h). w \<in> set agreeing) (justification_map m)"
    have "known_for f (latest_message_hash rep) agreeing v = (if ?rel = [] then None else Some (l, ?rel))"
      using Some m by (simp add: known_for_def)
    then show ?thesis
      using Cons.IH [OF c2(2), of "if ?rel = [] then acc else acc @ [(v, l, ?rel)]"] c1(1) c2(1) Some
      by (cases "?rel = []") (simp_all add: map_filter_simps Let_def)
  qed
qed (simp add: map_filter_simps)

text \<open>What the first loop knows of a validator is what it needs to check a pair.\<close>

definition entry_ok :: "metas \<Rightarrow> (bytes \<Rightarrow> hash option) \<Rightarrow> bytes \<times> hash \<times> (bytes, hash) hmap \<Rightarrow> bool" where
  "entry_ok f latest e \<longleftrightarrow> (case e of (v, l, js) \<Rightarrow> \<exists>m agreeing. latest v = Some l \<and> f l = Some m
     \<and> js = filter (\<lambda>(w, h). w \<in> set agreeing) (justification_map m))"

definition agrees :: "metas \<Rightarrow> hash \<Rightarrow> (bytes \<times> hash \<times> (bytes, hash) hmap) \<Rightarrow> (bytes \<times> hash \<times> (bytes, hash) hmap) \<Rightarrow> bool" where
  "agrees f t x y \<longleftrightarrow> (case (x, y) of ((a, la, js_a), (b, lb, js_b)) \<Rightarrow>
     \<exists>ab ba. hm_get js_a b = Some ab \<and> hm_get js_b a = Some ba \<and> no_disagreement f t lb ab \<and> no_disagreement f t la ba)"

lemma filter_keys_get: "hm_get (filter (\<lambda>(w, h). P w) m) v = (if P v then hm_get m v else None)"
  by (induction m) auto

lemma entry_known:
  assumes "justified f" "entry_ok f latest (v, l, js)" "hm_get js w = Some h"
  shows "f h \<noteq> None" "f l \<noteq> None"
  using assms justification_map_known [OF assms(1)] by (auto simp: entry_ok_def filter_keys_get split: if_splits)

lemma check_pairs_ok:
  assumes "oracle_view f rep" "f t \<noteq> None"
  shows "run_cache_ok f rep c \<Longrightarrow> list_all (\<lambda>(x, y). entry_ok f latest x \<and> entry_ok f latest y) ps \<Longrightarrow>
    \<exists>c'. check_pairs rep t ps result c =
      Some (Inr (result @ map (\<lambda>(x, y). (fst x, fst y)) (filter (\<lambda>(x, y). agrees f t x y) ps)), c') \<and> run_cache_ok f rep c'"
proof (induction ps arbitrary: result c)
  case (Cons p ps)
  obtain a la js_a b lb js_b where p: "p = ((a, la, js_a), (b, lb, js_b))" by (metis prod.collapse)
  have e: "entry_ok f latest (a, la, js_a)" "entry_ok f latest (b, lb, js_b)" using Cons.prems(2) by (simp_all add: p)
  show ?case
  proof (cases "hm_get js_a b = None \<or> hm_get js_b a = None")
    case True
    then have "\<not> agrees f t (a, la, js_a) (b, lb, js_b)" by (auto simp: agrees_def)
    then show ?thesis using True Cons.IH [OF Cons.prems(1)] Cons.prems(2) by (auto simp: p split: option.splits)
  next
    case False
    then obtain ab ba where j: "hm_get js_a b = Some ab" "hm_get js_b a = Some ba" by auto
    note known = entry_known [OF oracle_viewD(6) [OF assms(1)] e(1) j(1)] entry_known [OF oracle_viewD(6) [OF assms(1)] e(2) j(2)]
    obtain c1 where c1: "never_eventually_see_disagreement lb ab rep t c = Some (Inr (no_disagreement f t lb ab), c1)" "run_cache_ok f rep c1"
      using never_eventually_ok [OF assms(1) Cons.prems(1) assms(2) known(4,1)] .
    obtain c2 where c2: "never_eventually_see_disagreement la ba rep t c1 = Some (Inr (no_disagreement f t la ba), c2)" "run_cache_ok f rep c2"
      using never_eventually_ok [OF assms(1) c1(2) assms(2) known(2,3)] .
    have "agrees f t (a, la, js_a) (b, lb, js_b) \<longleftrightarrow> no_disagreement f t lb ab \<and> no_disagreement f t la ba"
      by (simp add: agrees_def j)
    then show ?thesis
      using Cons.IH [OF c2(2), of "if no_disagreement f t lb ab \<and> no_disagreement f t la ba then result @ [(a, b)] else result"] Cons.prems(2)
      by (auto simp: p j c1 c2)
  qed
qed simp

lemma pairs_of_set:
  assumes "distinct (map fst xs)"
  shows "x \<in> set xs \<Longrightarrow> y \<in> set xs \<Longrightarrow> fst x \<noteq> fst y \<Longrightarrow> (x, y) \<in> set (pairs_of xs) \<or> (y, x) \<in> set (pairs_of xs)"
    "(x, y) \<in> set (pairs_of xs) \<Longrightarrow> x \<in> set xs \<and> y \<in> set xs \<and> fst x \<noteq> fst y"
  using assms by (induction xs) (auto simp: rev_image_eqI)

lemma mutual_sym: "mutual f latest t a b \<longleftrightarrow> mutual f latest t b a"
  unfolding mutual_def by blast

lemma agrees_sym: "agrees f t x y \<longleftrightarrow> agrees f t y x"
  unfolding agrees_def by (auto split: prod.splits)

lemma map_filter_pairs:
  "set (List.map_filter (\<lambda>v. map_option (Pair v) (g v)) vs) = {(v, x). v \<in> set vs \<and> g v = Some x}"
  "distinct vs \<Longrightarrow> distinct (map fst (List.map_filter (\<lambda>v. map_option (Pair v) (g v)) vs))"
proof -
  show s: "set (List.map_filter (\<lambda>v. map_option (Pair v) (g v)) vs) = {(v, x). v \<in> set vs \<and> g v = Some x}" for vs
    by (induction vs) (auto simp: map_filter_simps split: option.splits)
  show "distinct vs \<Longrightarrow> distinct (map fst (List.map_filter (\<lambda>v. map_option (Pair v) (g v)) vs))"
  proof (induction vs)
    case (Cons v vs)
    have "v \<notin> fst ` set (List.map_filter (\<lambda>v. map_option (Pair v) (g v)) vs)" using Cons.prems unfolding s by auto
    then show ?case using Cons by (cases "g v") (simp_all add: map_filter_simps)
  qed (simp add: map_filter_simps)
qed

lemma known_for_SomeD:
  assumes "known_for f latest agreeing v = Some (l, js)"
  obtains m where "latest v = Some l" "f l = Some m" "js = filter (\<lambda>(w, h). w \<in> set agreeing) (justification_map m)"
  using assms by (auto simp: known_for_def Let_def bind_eq_Some_conv split: if_splits)

lemma mutual_entries:
  assumes "a \<in> set agreeing" "b \<in> set agreeing"
  shows "mutual f latest t a b \<longleftrightarrow> (\<exists>x y. known_for f latest agreeing a = Some x \<and> known_for f latest agreeing b = Some y
    \<and> agrees f t (a, x) (b, y))"
proof
  assume "mutual f latest t a b"
  then obtain la lb ma mb ab ba where m: "latest a = Some la" "latest b = Some lb" "f la = Some ma" "f lb = Some mb"
    "hm_get (justification_map ma) b = Some ab" "hm_get (justification_map mb) a = Some ba"
    "no_disagreement f t lb ab" "no_disagreement f t la ba" unfolding mutual_def by blast
  let ?R = "\<lambda>m. filter (\<lambda>(w, h). w \<in> set agreeing) (justification_map m)"
  have get: "hm_get (?R ma) b = Some ab" "hm_get (?R mb) a = Some ba" using m assms by (simp_all add: filter_keys_get)
  then have "?R ma \<noteq> []" "?R mb \<noteq> []" by auto
  then have "known_for f latest agreeing a = Some (la, ?R ma)" "known_for f latest agreeing b = Some (lb, ?R mb)"
    using m by (simp_all add: known_for_def)
  moreover have "agrees f t (a, la, ?R ma) (b, lb, ?R mb)" using get m(7,8) by (simp add: agrees_def)
  ultimately show "\<exists>x y. known_for f latest agreeing a = Some x \<and> known_for f latest agreeing b = Some y \<and> agrees f t (a, x) (b, y)" by blast
next
  assume "\<exists>x y. known_for f latest agreeing a = Some x \<and> known_for f latest agreeing b = Some y \<and> agrees f t (a, x) (b, y)"
  then obtain la js_a lb js_b where e: "known_for f latest agreeing a = Some (la, js_a)" "known_for f latest agreeing b = Some (lb, js_b)"
    "agrees f t (a, la, js_a) (b, lb, js_b)" by auto
  obtain ma where ma: "latest a = Some la" "f la = Some ma" "js_a = filter (\<lambda>(w, h). w \<in> set agreeing) (justification_map ma)"
    using known_for_SomeD [OF e(1)] .
  obtain mb where mb: "latest b = Some lb" "f lb = Some mb" "js_b = filter (\<lambda>(w, h). w \<in> set agreeing) (justification_map mb)"
    using known_for_SomeD [OF e(2)] .
  show "mutual f latest t a b"
    using e(3) ma mb assms unfolding mutual_def agrees_def by (simp add: filter_keys_get)
qed

lemma agreeing_pairs_ok:
  assumes "oracle_view f rep" "f t \<noteq> None" "run_cache_ok f rep c" "hm_ok weights"
  obtains e c' where "compute_agreeing_validator_pairs t weights rep c = Some (Inr e, c')" "run_cache_ok f rep c'"
    "fst ` set e \<union> snd ` set e \<subseteq> set (hm_keys weights)"
    "\<forall>a \<in> set (hm_keys weights). \<forall>b \<in> set (hm_keys weights). a \<noteq> b \<longrightarrow> (b \<in> adjacent e a \<longleftrightarrow> mutual f (latest_message_hash rep) t a b)"
proof -
  let ?A = "sort (hm_keys weights)" and ?L = "latest_message_hash rep"
  define vs where "vs = List.map_filter (\<lambda>v. map_option (Pair v) (known_for f ?L ?A v)) ?A"
  obtain c1 where c1: "pairwise_validators rep ?A ?A [] c = (Inr vs, c1)" "run_cache_ok f rep c1"
    using pairwise_validators_ok [OF assms(1,3), of ?A ?A "[]"] by (auto simp: vs_def)
  have "distinct ?A" using assms(4) by (simp add: hm_ok_def)
  then have dist: "distinct (map fst vs)" unfolding vs_def by (rule map_filter_pairs(2))
  have mem: "set vs = {(v, x). v \<in> set (hm_keys weights) \<and> known_for f ?L ?A v = Some x}"
    unfolding vs_def map_filter_pairs(1) set_sort ..
  note P = pairs_of_set [OF dist]
  have ok: "entry_ok f ?L x" if "x \<in> set vs" for x
    using that unfolding mem entry_ok_def by (auto elim!: known_for_SomeD)
  then have "list_all (\<lambda>(x, y). entry_ok f ?L x \<and> entry_ok f ?L y) (pairs_of vs)" using P(2) by (auto simp: list_all_iff)
  from check_pairs_ok [OF assms(1,2) c1(2) this, of "[]"] obtain e c' where
    e: "check_pairs rep t (pairs_of vs) [] c1 = Some (Inr e, c')" "run_cache_ok f rep c'"
      "e = map (\<lambda>(x, y). (fst x, fst y)) (filter (\<lambda>(x, y). agrees f t x y) (pairs_of vs))" by auto
  have edge: "(a, b) \<in> set e \<longleftrightarrow> (\<exists>x y. (x, y) \<in> set (pairs_of vs) \<and> agrees f t x y \<and> fst x = a \<and> fst y = b)" for a b
    unfolding e(3) by force
  show ?thesis
  proof (rule that [of e c'])
    show "compute_agreeing_validator_pairs t weights rep c = Some (Inr e, c')"
      by (simp add: compute_agreeing_validator_pairs_def c1 e)
    show "fst ` set e \<union> snd ` set e \<subseteq> set (hm_keys weights)" using edge P(2) mem by fastforce
    show "\<forall>a \<in> set (hm_keys weights). \<forall>b \<in> set (hm_keys weights). a \<noteq> b \<longrightarrow> (b \<in> adjacent e a \<longleftrightarrow> mutual f ?L t a b)"
    proof (intro ballI impI)
      fix a b assume ab: "a \<in> set (hm_keys weights)" "b \<in> set (hm_keys weights)" "a \<noteq> b"
      have "b \<in> adjacent e a \<longleftrightarrow> (\<exists>x y. x \<in> set vs \<and> y \<in> set vs \<and> fst x = a \<and> fst y = b \<and> agrees f t x y)"
      proof
        assume "b \<in> adjacent e a"
        then have "(a, b) \<in> set e \<or> (b, a) \<in> set e" by (simp add: adjacent_def)
        then show "\<exists>x y. x \<in> set vs \<and> y \<in> set vs \<and> fst x = a \<and> fst y = b \<and> agrees f t x y"
          unfolding edge using P(2) agrees_sym by blast
      next
        assume "\<exists>x y. x \<in> set vs \<and> y \<in> set vs \<and> fst x = a \<and> fst y = b \<and> agrees f t x y"
        then obtain x y where xy: "x \<in> set vs" "y \<in> set vs" "fst x = a" "fst y = b" "agrees f t x y" by blast
        have "(a, b) \<in> set e \<or> (b, a) \<in> set e" unfolding edge using P(1) [OF xy(1,2)] xy(3-5) ab(3) agrees_sym by blast
        then show "b \<in> adjacent e a" using ab(3) by (simp add: adjacent_def)
      qed
      also have "\<dots> \<longleftrightarrow> (\<exists>x y. (a, x) \<in> set vs \<and> (b, y) \<in> set vs \<and> agrees f t (a, x) (b, y))" by force
      also have "\<dots> \<longleftrightarrow> mutual f ?L t a b"
        using mutual_entries [of a ?A b f ?L t] ab(1,2) unfolding mem by (simp only: set_sort mem_Collect_eq prod.case simp_thms)
      finally show "b \<in> adjacent e a \<longleftrightarrow> mutual f ?L t a b" .
    qed
  qed (rule e(2))
qed

subsection \<open>The fault tolerance\<close>

text \<open>The tolerance for a total stake, an agreeing stake and the weight of a clique, as it is rounded.\<close>

definition tolerance :: "int \<Rightarrow> int \<Rightarrow> int \<Rightarrow> rat" where
  "tolerance tot agreeing w =
     (if f32 (of_int agreeing) \<le> f32 (f32 (of_int tot) / 2) then MIN_FAULT_TOLERANCE
      else f32 (f32 (f32 (f32 (of_int w) * 2) - f32 (of_int tot)) / f32 (of_int tot)))"

lemma heaviest_clique_agreement:
  assumes "fst ` set e \<union> snd ` set e \<subseteq> set (hm_keys weights)"
    "\<forall>a \<in> set (hm_keys weights). \<forall>b \<in> set (hm_keys weights). a \<noteq> b \<longrightarrow> (b \<in> adjacent e a \<longleftrightarrow> mutual f latest t a b)"
  shows "heaviest_clique e weights = heaviest_agreement f latest t weights"
proof -
  have "edge_graph.clique e K \<longleftrightarrow> pairwise (mutual f latest t) K" if "K \<subseteq> set (hm_keys weights)" for K
  proof -
    have "edge_graph.clique e K \<longleftrightarrow> (\<forall>u \<in> K. \<forall>v \<in> K. u \<noteq> v \<longrightarrow> mutual f latest t u v)"
      unfolding edge_graph.clique_def using assms(2) that by (meson subsetD)
    then show ?thesis by (simp add: pairwise_def)
  qed
  then have "{sum (weight_of weights) K |K. K \<subseteq> set (hm_keys weights) \<and> edge_graph.clique e K}
      = {sum (weight_of weights) K |K. K \<subseteq> set (hm_keys weights) \<and> pairwise (mutual f latest t) K}" by blast
  then show ?thesis unfolding heaviest_clique_def heaviest_agreement_def by (rule arg_cong)
qed

lemma max_clique_weight_ok:
  assumes "oracle_view f rep" "f t \<noteq> None" "run_cache_ok f rep c" "stakes_ok weights"
  obtains c' where "compute_max_clique_weight t weights rep c = Some (Inr (heaviest_agreement f (latest_message_hash rep) t weights), c')"
    "run_cache_ok f rep c'"
proof -
  have "hm_ok weights" using assms(4) by (simp add: stakes_ok_def)
  with assms(1-3) obtain e c' where e: "compute_agreeing_validator_pairs t weights rep c = Some (Inr e, c')" "run_cache_ok f rep c'"
    "fst ` set e \<union> snd ` set e \<subseteq> set (hm_keys weights)"
    "\<forall>a \<in> set (hm_keys weights). \<forall>b \<in> set (hm_keys weights). a \<noteq> b \<longrightarrow> (b \<in> adjacent e a \<longleftrightarrow> mutual f (latest_message_hash rep) t a b)"
    by (rule agreeing_pairs_ok)
  show ?thesis
    using e(2) by (intro that [of c']) (simp_all add: compute_max_clique_weight_def e(1) maximum_clique_exact [OF assms(4) e(3)] heaviest_clique_agreement [OF e(3,4)])
qed

lemma f32_pos: "0 < n \<Longrightarrow> 0 < f32 (of_int n)"
  using to_float_mono [of 1 "of_int n" 24] to_float_of_int [of 1 24] by simp

text \<open>The run cache does not change what the oracle returns, whatever valid entries it holds and however it evicts them,
  and the oracle ends: the result is the tolerance for the heaviest set of agreeing validators of which no two may come to disagree.\<close>

lemma compute_output_ok:
  assumes "oracle_view f rep" "f t \<noteq> None" "run_cache_ok f rep c" "stakes_ok full" "0 < sum_list (map snd full)" "stakes_ok agreeing"
  shows "\<exists>c'. compute_output_with_cache t full agreeing rep c =
      Some (Inr (tolerance (sum_list (map snd full)) (sum_list (map snd agreeing)) (heaviest_agreement f (latest_message_hash rep) t agreeing)), c')
    \<and> run_cache_ok f rep c'"
proof -
  have sums: "sum_i64 (map snd full) = sum_list (map snd full)" "sum_i64 (map snd agreeing) = sum_list (map snd agreeing)"
    using assms(4,6) by (auto simp: stakes_ok_def intro: sum_i64_exact)
  obtain c' where "compute_max_clique_weight t agreeing rep c = Some (Inr (heaviest_agreement f (latest_message_hash rep) t agreeing), c')"
    "run_cache_ok f rep c'" using max_clique_weight_ok [OF assms(1-3,6)] .
  then show ?thesis
    using assms(3) f32_pos [OF assms(5)] by (auto simp: compute_output_with_cache_def Let_def sums tolerance_def)
qed

lemma heaviest_agreement_bounds:
  assumes "stakes_ok weights"
  shows "0 \<le> heaviest_agreement f latest t weights" "heaviest_agreement f latest t weights \<le> sum_list (map snd weights)"
proof -
  let ?S = "{sum (weight_of weights) K |K. K \<subseteq> set (hm_keys weights) \<and> pairwise (mutual f latest t) K}"
  have fin: "finite ?S" by simp
  have "sum (weight_of weights) {} \<in> ?S" by (rule CollectI, rule exI [of _ "{}"]) (simp add: pairwise_def)
  then have ne: "0 \<in> ?S" by simp
  then show "0 \<le> heaviest_agreement f latest t weights" unfolding heaviest_agreement_def by (rule Max_ge [OF fin])
  have "heaviest_agreement f latest t weights \<in> ?S" unfolding heaviest_agreement_def by (rule Max_in [OF fin]) (use ne in blast)
  then obtain K where K: "K \<subseteq> set (hm_keys weights)" "heaviest_agreement f latest t weights = sum (weight_of weights) K" by blast
  have "sum (weight_of weights) K \<le> sum (weight_of weights) (set (hm_keys weights))"
    using K(1) stakes_sum(2) [OF assms] by (intro sum_mono2) auto
  then show "heaviest_agreement f latest t weights \<le> sum_list (map snd weights)" using K(2) stakes_sum(1) [OF assms] by simp
qed

lemma tolerance_range:
  assumes "0 < tot" "0 \<le> w" "w \<le> tot"
  shows "- 1 \<le> tolerance tot a w" "tolerance tot a w \<le> 1"
proof -
  let ?T = "f32 (of_int tot)" and ?W = "f32 (of_int w)"
  have T: "0 < ?T" "f32 ?T = ?T" using f32_pos [OF assms(1)] to_float_idem [of 24] by simp_all
  have W: "0 \<le> ?W" "?W \<le> ?T" using assms(2,3) by (auto intro: to_float_nonneg to_float_mono)
  have double: "f32 (2 * ?T) = 2 * ?T"
  proof -
    obtain n e where n: "?T = of_int n * 2 powi e" "0 < n" "n \<le> 2 ^ 24"
      using to_float_binade(3) [of "of_int tot" 24] assms(1) by auto
    have "2 * ?T = of_int n * 2 powi (e + 1)" unfolding n(1) by (simp add: power_int_add)
    then show ?thesis using n(2,3) by (intro to_float_exact) auto
  qed
  have "0 \<le> f32 (?W * 2)" "f32 (?W * 2) \<le> 2 * ?T"
    using W to_float_nonneg [of "?W * 2" 24] to_float_mono [of "?W * 2" "2 * ?T" 24] double by (simp_all add: mult.commute)
  then have "- ?T \<le> f32 (?W * 2) - ?T" "f32 (?W * 2) - ?T \<le> ?T" by simp_all
  then have d: "- ?T \<le> f32 (f32 (?W * 2) - ?T) \<and> f32 (f32 (?W * 2) - ?T) \<le> ?T"
    using T(2) by (intro to_float_between) (simp_all add: to_float_minus)
  then have "- 1 \<le> f32 (f32 (?W * 2) - ?T) / ?T" "f32 (f32 (?W * 2) - ?T) / ?T \<le> 1" using T(1) by (simp_all add: pos_le_divide_eq pos_divide_le_eq)
  moreover have "f32 (- 1) = - 1" "f32 1 = 1" using to_float_of_int [of "- 1" 24] to_float_of_int [of 1 24] by simp_all
  ultimately have "- 1 \<le> f32 (f32 (f32 (?W * 2) - ?T) / ?T) \<and> f32 (f32 (f32 (?W * 2) - ?T) / ?T) \<le> 1" by (intro to_float_between) simp_all
  then show "- 1 \<le> tolerance tot a w" "tolerance tot a w \<le> 1" by (simp_all add: tolerance_def MIN_FAULT_TOLERANCE_def)
qed

text \<open>With stakes below \<open>2 ^ 24\<close> every step before the division is exact.\<close>

lemma tolerance_exact:
  assumes "0 < tot" "tot < 2 ^ 24" "0 \<le> w" "w \<le> tot" "0 \<le> a" "a \<le> tot"
  shows "tolerance tot a w = (if 2 * a \<le> tot then - 1 else f32 ((2 * of_int w - of_int tot) / of_int tot))"
proof -
  have int: "f32 (of_int n) = of_int n" if "\<bar>n\<bar> \<le> 2 ^ 24" for n using that to_float_of_int [of n 24] by simp
  have half: "f32 (of_int tot / 2) = of_int tot / 2"
    using to_float_exact [of "of_int tot / 2" tot "- 1" 24] assms(1,2) by (simp add: power_int_minus field_simps)
  have f: "f32 (of_int tot) = of_int tot" "f32 (of_int a) = of_int a" "f32 (of_int w) = of_int w"
    using assms by (auto intro!: int)
  have double: "f32 (of_int w * 2) = of_int w * 2" using to_float_exact [of "of_int w * 2" w 1 24] assms by simp
  have "f32 (of_int w * 2 - of_int tot) = of_int w * 2 - of_int tot" using int [of "w * 2 - tot"] assms by simp
  moreover have "(of_int a \<le> (of_int tot / 2 :: rat)) \<longleftrightarrow> 2 * a \<le> tot"
  proof -
    have "(of_int a \<le> (of_int tot / 2 :: rat)) \<longleftrightarrow> (of_int (2 * a) :: rat) \<le> of_int tot" by (simp add: pos_le_divide_eq mult.commute)
    then show ?thesis by (simp only: of_int_le_iff)
  qed
  ultimately show ?thesis using f half double by (simp add: tolerance_def MIN_FAULT_TOLERANCE_def mult.commute)
qed

subsection \<open>The oracle on a stored DAG\<close>

lemma storage_view:
  assumes "storage_ok s" "get_representation s = Inr rep" "heights_descend (metas s)" "justified (metas s)"
  shows "oracle_view (metas s) rep"
proof -
  have ok: "store_ok (block_metadata_index s)" using assms(1) by (simp add: storage_ok_def)
  note idx = ok [unfolded store_ok_def dag_index_def]
  have fin: "finite (dom (metas s))" by (simp add: finite_dom_map_of)
  have lk: "lookup rep h = metas s h" for h by (rule lookup_rep [OF ok assms(2)])
  have sj: "hm_get (rep_self_justification_map rep) = self_justification_of (metas s)"
    and ds: "set (rep_dag_set rep) = dom (metas s)" and lm: "rep_latest_messages rep = latest_messages_index s"
    using assms(2) idx by (auto simp: get_representation_def Let_def split: option.splits prod.splits)
  have "self_justification rep h = Inr (self_justification_of (metas s) h)" if "metas s h = Some m" for h m
    using that assms(4) ds by (auto simp: self_justification_def sj rep_contains_def justified_def split: option.splits)
  moreover have "lookup_unsafe rep h = Inr m" if "metas s h = Some m" for h m by (simp add: lookup_unsafe_def lk that)
  moreover have "metas s h \<noteq> None" if "latest_message_hash rep v = Some h" for v h
    using that assms(1) lm by (auto simp: latest_message_hash_def storage_ok_def ran_def)
  ultimately show ?thesis
    unfolding oracle_view_def using fin assms(4) is_in_main_chain_exact [OF assms(1-3)] by blast
qed

definition agreeing_stakes :: "metas \<Rightarrow> (bytes \<Rightarrow> hash option) \<Rightarrow> hash \<Rightarrow> stake_map \<Rightarrow> stake_map" where
  "agreeing_stakes f latest t weights =
     filter (\<lambda>(v, w). case latest v of Some h \<Rightarrow> (h, t) \<in> (main_rel f)\<^sup>* | None \<Rightarrow> False) weights"

lemma agreeing_weight_map_ok:
  assumes "oracle_view f rep" "f t \<noteq> None"
  shows "agreeing_weight_map_f ws t rep acc = Some (Inr (acc @ agreeing_stakes f (latest_message_hash rep) t ws))"
proof (induction ws arbitrary: acc)
  case (Cons x ws)
  obtain v w where x: "x = (v, w)" by (cases x)
  show ?case
  proof (cases "latest_message_hash rep v")
    case (Some h)
    then show ?thesis using Cons oracle_viewD(3) [OF assms oracle_viewD(4) [OF assms(1) Some]] by (simp add: x agreeing_stakes_def)
  qed (use Cons in \<open>simp add: x agreeing_stakes_def\<close>)
qed (simp add: agreeing_stakes_def)

lemma stakes_ok_filter: "stakes_ok ws \<Longrightarrow> stakes_ok (filter P ws)"
  "stakes_ok ws \<Longrightarrow> sum_list (map snd (filter P ws)) \<le> sum_list (map snd ws)"
proof -
  assume ok: "stakes_ok ws"
  have le: "sum_list (map snd (filter P ws)) \<le> sum_list (map snd ws)" if "list_all (\<lambda>w. 0 \<le> w) (map snd ws)" for ws :: "('a, int) hmap"
    using that by (induction ws) auto
  show "sum_list (map snd (filter P ws)) \<le> sum_list (map snd ws)" using le ok by (simp add: stakes_ok_def)
  then show "stakes_ok (filter P ws)" using ok by (auto simp: stakes_ok_def hm_ok_def list_all_iff distinct_map_filter)
qed

text \<open>The stakes that a message is judged by: those of its main parent, or its own when it has no parent.\<close>

definition judging_stakes :: "metas \<Rightarrow> hash \<Rightarrow> stake_map option" where
  "judging_stakes f t = Option.bind (f t) (\<lambda>m.
     case md_parents m of p # _ \<Rightarrow> map_option md_weight_map (f p) | [] \<Rightarrow> Some (md_weight_map m))"

lemma get_corresponding_weight_map_ok:
  assumes "oracle_view f rep" "judging_stakes f t = Some ws"
  shows "get_corresponding_weight_map t rep = Inr ws"
proof -
  obtain m where m: "f t = Some m" using assms(2) by (auto simp: judging_stakes_def bind_eq_Some_conv)
  show ?thesis
  proof (cases "md_parents m")
    case Nil
    then show ?thesis using assms(2) m oracle_viewD(1) [OF assms(1) m] by (simp add: judging_stakes_def get_corresponding_weight_map_def)
  next
    case (Cons p ps)
    then obtain mp where "f p = Some mp" "ws = md_weight_map mp" using assms(2) m by (auto simp: judging_stakes_def)
    then show ?thesis using Cons oracle_viewD(1) [OF assms(1)] m by (simp add: get_corresponding_weight_map_def)
  qed
qed

lemma fault_tolerance_found:
  assumes "storage_ok s" "get_representation s = Inr rep" "heights_descend (metas s)" "justified (metas s)"
    and "judging_stakes (metas s) t = Some ws" "stakes_ok ws" "0 < sum_list (map snd ws)"
  shows "\<exists>ft. normalized_fault_tolerance t rep = Some (Inr ft) \<and> - 1 \<le> ft \<and> ft \<le> 1
    \<and> (let agreeing = agreeing_stakes (metas s) (latest_message_hash rep) t ws
       in ft = tolerance (sum_list (map snd ws)) (sum_list (map snd agreeing))
                 (heaviest_agreement (metas s) (latest_message_hash rep) t agreeing))"
proof -
  let ?ag = "agreeing_stakes (metas s) (latest_message_hash rep) t ws" and ?H = "heaviest_agreement (metas s) (latest_message_hash rep) t"
  note view = storage_view [OF assms(1-4)]
  have t: "metas s t \<noteq> None" using assms(5) by (auto simp: judging_stakes_def bind_eq_Some_conv)
  have "rep_contains rep t"
  proof -
    have "lookup rep t = metas s t" using lookup_rep assms(1,2) by (simp add: storage_ok_def)
    then show ?thesis using t assms(4) by (auto simp: rep_contains_def lookup_def justified_def split: if_splits)
  qed
  have ag: "stakes_ok ?ag" "sum_list (map snd ?ag) \<le> sum_list (map snd ws)"
    unfolding agreeing_stakes_def using stakes_ok_filter [OF assms(6)] by blast+
  have "compute_output t ws ?ag rep = Some (Inr (tolerance (sum_list (map snd ws)) (sum_list (map snd ?ag)) (?H ?ag)))"
    using compute_output_ok [OF view t new_run_cache_ok assms(6,7) ag(1)] by (auto simp: compute_output_def)
  then have "normalized_fault_tolerance t rep = Some (Inr (tolerance (sum_list (map snd ws)) (sum_list (map snd ?ag)) (?H ?ag)))"
    using \<open>rep_contains rep t\<close> get_corresponding_weight_map_ok [OF view assms(5)] agreeing_weight_map_ok [OF view t, of ws "[]"]
    by (simp add: normalized_fault_tolerance_def)
  moreover have "?H ?ag \<le> sum_list (map snd ws)" using heaviest_agreement_bounds(2) [OF ag(1)] ag(2) by (rule order_trans)
  note tolerance_range [OF assms(7) heaviest_agreement_bounds(1) [OF ag(1)] this]
  ultimately show ?thesis by (simp add: Let_def)
qed

text \<open>C36. The fault tolerance of a stored block is the tolerance for the stakes it is judged by, the stake of the validators
  whose latest message has the block in its main chain, and the heaviest set of these of which no two may come to disagree; it
  lies between -1 and 1. The DAG is a stored one with heights that fall along main parents and justifications that are known and go
  back in time for a validator's own messages; the stakes are not negative, and their sum is positive and fits an \<open>i64\<close>.\<close>

theorem fault_tolerance_exact:
  assumes "storage_ok s" "get_representation s = Inr rep" "heights_descend (metas s)" "justified (metas s)"
    and "judging_stakes (metas s) t = Some ws" "stakes_ok ws" "0 < sum_list (map snd ws)"
  shows "\<exists>ft. normalized_fault_tolerance t rep = Some (Inr ft) \<and> - 1 \<le> ft \<and> ft \<le> 1
    \<and> (let agreeing = agreeing_stakes (metas s) (latest_message_hash rep) t ws
       in ft = tolerance (sum_list (map snd ws)) (sum_list (map snd agreeing))
                 (heaviest_agreement (metas s) (latest_message_hash rep) t agreeing))"
  by (rule fault_tolerance_found [OF assms])

subsection \<open>A concrete DAG\<close>

text \<open>Two validators with stakes 3 and 2 build in turn on each other's blocks.\<close>

definition demo_meta :: "byte \<Rightarrow> byte list \<Rightarrow> byte \<Rightarrow> (byte \<times> byte) list \<Rightarrow> int \<Rightarrow> int \<Rightarrow> block_metadata" where
  "demo_meta h ps v js num seq = \<lparr>md_block_hash = demo_hash h, md_parents = map demo_hash ps, md_sender = [v],
     md_justifications = map (\<lambda>(w, k). \<lparr>j_validator = [w], latest_block_hash = demo_hash k\<rparr>) js,
     md_weight_map = [([1], 3), ([2], 2)], md_block_number = num, md_sequence_number = seq, md_invalid = False,
     md_directly_finalized = False, md_finalized = False, fault_tolerance_value = 0\<rparr>"

definition demo_chain_metas :: "(hash \<times> block_metadata) list" where
  "demo_chain_metas = [(demo_hash 1, demo_meta 1 [] 0 [] 0 0), (demo_hash 2, demo_meta 2 [1] 1 [] 1 1),
     (demo_hash 3, demo_meta 3 [2] 2 [(1, 2)] 2 1), (demo_hash 4, demo_meta 4 [3] 1 [(1, 2), (2, 3)] 3 2),
     (demo_hash 5, demo_meta 5 [4] 2 [(1, 4), (2, 3)] 4 2)]"

definition demo_chain_storage :: dag_storage where
  "demo_chain_storage = demo_storage\<lparr>latest_messages_index := [([1], demo_hash 4), ([2], demo_hash 5)],
     block_metadata_index := \<lparr>mds_store = demo_chain_metas,
       mds_state = foldl (\<lambda>st (_, i). add_block_to_dag_state st i) dag_state_new
         (map (\<lambda>(h, m). (h, block_metadata_to_info h m)) demo_chain_metas)\<rparr>\<rparr>"

definition demo_chain_rep :: dag_representation where
  "demo_chain_rep = projr (get_representation demo_chain_storage)"

lemma demo_hash_eq [simp]: "demo_hash a = demo_hash b \<longleftrightarrow> a = b"
  by (simp add: demo_hash_def)

lemma demo_chain_keys: "distinct (map fst demo_chain_metas)"
  by (simp add: demo_chain_metas_def)

lemma demo_chain_get: "hm_get demo_chain_metas h = Some m \<longleftrightarrow> (h, m) \<in> set demo_chain_metas"
  using demo_chain_keys by simp

lemma demo_chain_storage_ok: "storage_ok demo_chain_storage"
proof -
  have "map_of (rev demo_chain_metas) = hm_get demo_chain_metas"
    using demo_chain_keys by (intro map_of_inject_set [THEN iffD2]) (simp_all flip: rev_map)
  then have idx: "dag_index (hm_get demo_chain_metas) (mds_state (block_metadata_index demo_chain_storage))"
    using recreate_index [OF demo_chain_keys dag_index_new] by (simp add: demo_chain_storage_def)
  have "ran (valid_number_of (hm_get demo_chain_metas)) = {0, 1, 2, 3, 4}"
  proof -
    have "n \<in> ran (valid_number_of (hm_get demo_chain_metas)) \<longleftrightarrow>
        (\<exists>h m. (h, m) \<in> set demo_chain_metas \<and> \<not> md_invalid m \<and> md_block_number m = n)" for n
    proof -
      have "valid_number_of (hm_get demo_chain_metas) h = Some n \<longleftrightarrow>
          (\<exists>m. hm_get demo_chain_metas h = Some m \<and> \<not> md_invalid m \<and> md_block_number m = n)" for h
        by (auto simp: valid_number_of_def split: option.splits)
      then show ?thesis unfolding ran_def by (simp add: demo_chain_get)
    qed
    moreover have "list_all (\<lambda>(h, m). \<not> md_invalid m) demo_chain_metas" by (simp add: demo_chain_metas_def demo_meta_def)
    ultimately have "ran (valid_number_of (hm_get demo_chain_metas)) = (\<lambda>(h, m). md_block_number m) ` set demo_chain_metas"
      by (fastforce simp: list_all_iff)
    also have "\<dots> = {0, 1, 2, 3, 4}" by (simp add: demo_chain_metas_def demo_meta_def)
    finally show ?thesis .
  qed
  then have "heights_ok (hm_get demo_chain_metas)" by (simp add: heights_ok_def)
  moreover have "keys_ok (hm_get demo_chain_metas)"
    by (auto simp: keys_ok_def demo_chain_get split: option.splits) (auto simp: demo_chain_metas_def demo_meta_def)
  ultimately have "store_ok (block_metadata_index demo_chain_storage)"
    using idx demo_chain_keys by (simp add: store_ok_def hm_ok_def demo_chain_storage_def)
  then show ?thesis by (auto simp: storage_ok_def ran_def demo_chain_storage_def demo_chain_metas_def split: if_splits)
qed

lemma demo_chain_rep: "get_representation demo_chain_storage = Inr demo_chain_rep"
  using representation_ok [of demo_chain_storage] demo_chain_storage_ok by (auto simp: storage_ok_def demo_chain_rep_def)

lemma demo_chain_justified: "justified (metas demo_chain_storage)" "heights_descend (metas demo_chain_storage)"
proof -
  have f: "metas demo_chain_storage = hm_get demo_chain_metas" by (simp add: demo_chain_storage_def)
  show "justified (metas demo_chain_storage)"
    unfolding f justified_def demo_chain_get
    by (auto simp: demo_chain_metas_def demo_meta_def BLOCK_HASH_LENGTH_def) (simp_all add: demo_hash_def)
  show "heights_descend (metas demo_chain_storage)"
    unfolding f heights_descend_def main_parent_of_def parents_of_def number_of_def
    by (auto simp: demo_chain_metas_def demo_meta_def split: if_splits)
qed

lemma demo_chain_stakes:
  "judging_stakes (metas demo_chain_storage) (demo_hash 2) = Some [([1], 3), ([2], 2)]" "stakes_ok [([1 :: byte], 3), ([2], 2)]"
  by (simp_all add: judging_stakes_def demo_chain_storage_def demo_chain_metas_def demo_meta_def stakes_ok_def hm_ok_def)

theorem fault_tolerance_exact_witness:
  "\<exists>ft. normalized_fault_tolerance (demo_hash 2) demo_chain_rep = Some (Inr ft) \<and> - 1 \<le> ft \<and> ft \<le> 1
    \<and> (let agreeing = agreeing_stakes (metas demo_chain_storage) (latest_message_hash demo_chain_rep) (demo_hash 2) [([1], 3), ([2], 2)]
       in ft = tolerance (sum_list (map snd [([1 :: byte], 3), ([2], 2)])) (sum_list (map snd agreeing))
                 (heaviest_agreement (metas demo_chain_storage) (latest_message_hash demo_chain_rep) (demo_hash 2) agreeing))"
  using fault_tolerance_exact [OF demo_chain_storage_ok demo_chain_rep demo_chain_justified(2,1) demo_chain_stakes] by simp

end
