(* ===== verification/FinalizerSpec.thy ===== *)
theory FinalizerSpec
  imports Finalizer CliqueOracleSpec
begin

section \<open>What the finalizer finds\<close>

text \<open>
  Whatever the clock does, a block that the finalizer reports has a fault tolerance above the
  threshold: what is aggregated before the budget runs out is a part of the agreeing stake, and the
  tolerance grows with it. The search ends, because a layer holds the main parents of the one before.
\<close>

subsection \<open>Stakes\<close>

lemma checked_stake_sum_exact:
  assumes "list_all (\<lambda>w. 0 \<le> w) (map snd ws)"
  shows "checked_stake_sum ws = (if sum_list (map snd ws) < 2 ^ 63 then Some (sum_list (map snd ws)) else None)"
proof -
  have none: "foldl (\<lambda>acc w. Option.bind acc (\<lambda>a. checked_add_i64 a w)) None vs = None" for vs by (induction vs) auto
  have "foldl (\<lambda>acc w. Option.bind acc (\<lambda>a. checked_add_i64 a w)) (Some a) vs =
      (if a + sum_list vs < 2 ^ 63 then Some (a + sum_list vs) else None)" if "0 \<le> a" "a < 2 ^ 63" "list_all (\<lambda>w. 0 \<le> w) vs" for a vs
    using that
  proof (induction vs arbitrary: a)
    case (Cons v vs)
    have "0 \<le> sum_list vs" using Cons.prems(3) by (auto intro: sum_list_nonneg simp: list_all_iff)
    then show ?case using Cons none by (auto simp: checked_add_i64_def add.assoc)
  qed simp
  from this [of 0] assms show ?thesis by (simp add: checked_stake_sum_def)
qed

text \<open>\<open>cannot_be_orphaned\<close> says that positive stakes agree that make up more than half of the stake.\<close>

lemma cannot_be_orphaned_iff:
  assumes "stakes_ok full" "stakes_ok agreeing"
  shows "cannot_be_orphaned full agreeing \<longleftrightarrow>
    list_all (\<lambda>w. 0 < w) (map snd agreeing) \<and> 0 < sum_list (map snd full) \<and> 2 * sum_list (map snd agreeing) > sum_list (map snd full)"
proof -
  define T A where "T = sum_list (map snd full)" and "A = sum_list (map snd agreeing)"
  have sums: "checked_stake_sum full = Some T" "checked_stake_sum agreeing = Some A"
    using assms checked_stake_sum_exact [of full] checked_stake_sum_exact [of agreeing] by (auto simp: stakes_ok_def T_def A_def)
  have "list_ex (\<lambda>w. w \<le> 0) ws \<longleftrightarrow> \<not> list_all (\<lambda>w. 0 < w) ws" for ws :: "int list" by (induction ws) auto
  then have "cannot_be_orphaned full agreeing \<longleftrightarrow> list_all (\<lambda>w. 0 < w) (map snd agreeing) \<and> \<not> (T \<le> 0 \<or> A \<le> 0) \<and> T < A * 2"
    unfolding cannot_be_orphaned_def sums by simp
  then show ?thesis unfolding T_def [symmetric] A_def [symmetric] by linarith
qed

lemma tolerance_mono:
  assumes "a \<le> a'" "w \<le> w'" "0 < tot" "0 \<le> w" "w' \<le> tot"
  shows "tolerance tot a w \<le> tolerance tot a' w'"
proof (cases "f32 (of_int a) \<le> f32 (f32 (of_int tot) / 2)")
  case True
  then have "tolerance tot a w = - 1" by (simp add: tolerance_def MIN_FAULT_TOLERANCE_def)
  then show ?thesis using tolerance_range(1) [of tot w' a'] assms by simp
next
  case False
  have "f32 (of_int a) \<le> f32 (of_int a')" using assms(1) by (simp add: to_float_mono)
  then have "\<not> f32 (of_int a') \<le> f32 (f32 (of_int tot) / 2)" using False by simp
  moreover have "f32 (f32 (f32 (f32 (of_int w) * 2) - f32 (of_int tot)) / f32 (of_int tot))
      \<le> f32 (f32 (f32 (f32 (of_int w') * 2) - f32 (of_int tot)) / f32 (of_int tot))"
    using assms(2) f32_pos [OF assms(3)] by (intro to_float_mono divide_right_mono diff_right_mono mult_right_mono) simp_all
  ultimately show ?thesis using False by (simp add: tolerance_def)
qed

lemma heaviest_agreement_mono:
  assumes "stakes_ok ws" "stakes_ok ws'" "\<And>v x. hm_get ws v = Some x \<Longrightarrow> hm_get ws' v = Some x"
  shows "heaviest_agreement f latest t ws \<le> heaviest_agreement f latest t ws'" "sum_list (map snd ws) \<le> sum_list (map snd ws')"
proof -
  let ?S = "\<lambda>ws. {sum (weight_of ws) K |K. K \<subseteq> set (hm_keys ws) \<and> pairwise (mutual f latest t) K}"
  have keys: "set (hm_keys ws) \<subseteq> set (hm_keys ws')" using assms(3) by (metis domI dom_map_of_conv_image_fst image_set subsetI domD)
  have wt: "weight_of ws v = weight_of ws' v" if "v \<in> set (hm_keys ws)" for v
    using that assms(3) by (auto simp: weight_of_def dom_map_of_conv_image_fst [symmetric] split: option.splits)
  have "?S ws \<subseteq> ?S ws'"
  proof
    fix x assume "x \<in> ?S ws"
    then obtain K where K: "K \<subseteq> set (hm_keys ws)" "pairwise (mutual f latest t) K" "x = sum (weight_of ws) K" by blast
    have "sum (weight_of ws) K = sum (weight_of ws') K" using K(1) wt by (intro sum.cong) auto
    then show "x \<in> ?S ws'" using K keys by blast
  qed
  moreover have "?S ws \<noteq> {}" by (auto intro: exI [of _ "{}"])
  ultimately show "heaviest_agreement f latest t ws \<le> heaviest_agreement f latest t ws'"
    unfolding heaviest_agreement_def by (intro Max_mono) simp_all
  have "sum (weight_of ws) (set (hm_keys ws)) = sum (weight_of ws') (set (hm_keys ws))" using wt by (intro sum.cong) auto
  also have "\<dots> \<le> sum (weight_of ws') (set (hm_keys ws'))" using keys stakes_sum(2) [OF assms(2)] by (intro sum_mono2) auto
  finally show "sum_list (map snd ws) \<le> sum_list (map snd ws')" using stakes_sum(1) [OF assms(1)] stakes_sum(1) [OF assms(2)] by simp
qed

subsection \<open>Agreements\<close>

text \<open>A validator in a layer agrees on the message: the message is in the main chain of its latest message.\<close>

definition agrees_on :: "metas \<Rightarrow> (bytes \<Rightarrow> hash option) \<Rightarrow> bytes \<Rightarrow> hash \<Rightarrow> bool" where
  "agrees_on f latest v h \<longleftrightarrow> (\<exists>l. latest v = Some l \<and> (l, h) \<in> (main_rel f)\<^sup>*)"

definition layer_ok :: "metas \<Rightarrow> (bytes \<Rightarrow> hash option) \<Rightarrow> (bytes \<times> block_metadata) list \<Rightarrow> bool" where
  "layer_ok f latest layer \<longleftrightarrow>
     list_all (\<lambda>(v, m). f (md_block_hash m) = Some m \<and> agrees_on f latest v (md_block_hash m)) layer"

definition entry_sound :: "metas \<Rightarrow> dag_representation \<Rightarrow> hash \<Rightarrow> block_metadata \<times> stake_map \<times> stake_map \<Rightarrow> bool" where
  "entry_sound f rep h e \<longleftrightarrow> (case e of (m, wm, agreeing) \<Rightarrow> md_block_hash m = h \<and> f h = Some m
     \<and> get_corresponding_weight_map h rep = Inr wm \<and> hm_ok agreeing
     \<and> (\<forall>v w. hm_get agreeing v = Some w \<longrightarrow> hm_get wm v = Some w \<and> agrees_on f (latest_message_hash rep) v h))"

definition agg_sound :: "metas \<Rightarrow> dag_representation \<Rightarrow> agreements \<Rightarrow> bool" where
  "agg_sound f rep agg \<longleftrightarrow> (\<forall>(h, e) \<in> set agg. entry_sound f rep h e)"

lemma set_update_subset: "set (hm_put k v m) \<subseteq> insert (k, v) (set m)"
  by (induction m) auto

lemma aggregate_sound:
  assumes "agg_sound f rep agg" "f (md_block_hash m) = Some m" "agrees_on f (latest_message_hash rep) v (md_block_hash m)"
    "get_corresponding_weight_map (md_block_hash m) rep = Inr wm"
  shows "agg_sound f rep (aggregate agg v m wm)"
proof -
  let ?h = "md_block_hash m"
  obtain m0 wm0 ag where e: "(case hm_get agg ?h of Some e \<Rightarrow> e | None \<Rightarrow> (m, wm, [])) = (m0, wm0, ag)" by (metis prod_cases3)
  have e_ok: "entry_sound f rep ?h (m0, wm0, ag)"
  proof (cases "hm_get agg ?h")
    case None
    then show ?thesis using e assms(2,4) by (auto simp: entry_sound_def hm_ok_def)
  next
    case (Some x)
    then have "(?h, x) \<in> set agg" by (rule map_of_SomeD)
    then show ?thesis using assms(1) e Some by (auto simp: agg_sound_def)
  qed
  then have wm0: "wm0 = wm" using assms(4) by (simp add: entry_sound_def)
  define ag' where "ag' = (case record_agreement wm v of
    Some (w, st) \<Rightarrow> if w \<in> set (hm_keys ag) then ag else hm_put w st ag | None \<Rightarrow> ag)"
  have "entry_sound f rep ?h (m0, wm0, ag')"
    using e_ok assms(3) unfolding wm0 by (auto simp: entry_sound_def ag'_def record_agreement_def Let_def split: option.splits if_splits)
  then show ?thesis
    using assms(1) set_update_subset [of ?h "(m0, wm0, ag')" agg] unfolding agg_sound_def aggregate_def e Let_def prod.case ag'_def [symmetric]
    by fastforce
qed

lemma main_parent_step:
  assumes "f h = Some m" "md_parents m = p # ps"
  shows "(h, p) \<in> main_rel f"
  using assms by (simp add: main_rel_def main_parent_of_def parents_of_def)

lemma agrees_on_parent: "agrees_on f latest v h \<Longrightarrow> (h, p) \<in> main_rel f \<Longrightarrow> agrees_on f latest v p"
  unfolding agrees_on_def by (meson rtrancl.rtrancl_into_rtrancl)

definition final_view :: "metas \<Rightarrow> dag_representation \<Rightarrow> bool" where
  "final_view f rep \<longleftrightarrow> oracle_view f rep \<and> keys_ok f \<and> lookup rep = f \<and> heights_descend f"

lemma final_viewD:
  assumes "final_view f rep"
  shows "oracle_view f rep" "lookup_unsafe rep h = Inr m \<Longrightarrow> f h = Some m \<and> md_block_hash m = h"
    "f h = Some m \<Longrightarrow> md_parents m = p # ps \<Longrightarrow> f p = Some mp \<Longrightarrow> md_block_number mp < md_block_number m"
proof -
  note v = assms [unfolded final_view_def]
  show "oracle_view f rep" using v by blast
  show "f h = Some m \<and> md_block_hash m = h" if "lookup_unsafe rep h = Inr m"
  proof -
    have "lookup rep h = Some m" using that by (simp add: lookup_unsafe_def split: option.splits)
    then have "f h = Some m" using v by simp
    moreover have "case f h of Some m \<Rightarrow> md_block_hash m = h | None \<Rightarrow> True" using v unfolding keys_ok_def by blast
    ultimately show ?thesis by simp
  qed
  assume h: "f h = Some m" "md_parents m = p # ps" "f p = Some mp"
  then have "main_parent_of f h = Some p" by (simp add: main_parent_of_def parents_of_def)
  then obtain n k where "number_of f h = Some n" "number_of f p = Some k" "k < n" using v unfolding heights_descend_def by blast
  then show "md_block_number mp < md_block_number m" using h(1,3) by (simp add: number_of_def)
qed

text \<open>One layer: what is added to the next one are main parents, which have smaller block numbers.\<close>

lemma process_layer_sound:
  assumes "final_view f rep"
  shows "process_layer clock rep height layer agg next_layer n = (b, agg', next', n') \<Longrightarrow>
    layer_ok f (latest_message_hash rep) layer \<Longrightarrow> layer_ok f (latest_message_hash rep) next_layer \<Longrightarrow> agg_sound f rep agg \<Longrightarrow>
    list_all (\<lambda>(v, m). md_block_number m \<le> k) layer \<Longrightarrow> list_all (\<lambda>(v, m). height < md_block_number m \<and> md_block_number m < k) next_layer \<Longrightarrow>
    agg_sound f rep agg' \<and> layer_ok f (latest_message_hash rep) next'
      \<and> list_all (\<lambda>(v, m). height < md_block_number m \<and> md_block_number m < k) next'"
proof (induction layer arbitrary: agg next_layer n)
  case (Cons x layer)
  obtain v m where x: "x = (v, m)" by (cases x)
  have m: "f (md_block_hash m) = Some m" "agrees_on f (latest_message_hash rep) v (md_block_hash m)" "md_block_number m \<le> k"
    using Cons.prems(2,5) by (auto simp: x layer_ok_def)
  have rest: "layer_ok f (latest_message_hash rep) layer" "list_all (\<lambda>(v, m). md_block_number m \<le> k) layer"
    using Cons.prems(2,5) by (simp_all add: x layer_ok_def)
  show ?case
  proof (cases "exhausted clock n")
    case True
    then show ?thesis using Cons.prems by (simp add: x)
  next
    case False
    show ?thesis
    proof (cases "get_corresponding_weight_map (md_block_hash m) rep")
      case (Inl e)
      then show ?thesis using Cons.IH [OF _ rest(1) Cons.prems(3,4) rest(2) Cons.prems(6)] Cons.prems(1) False by (simp add: x)
    next
      case (Inr wm)
      define nl where "nl = (case md_parents m of [] \<Rightarrow> next_layer
        | parent # _ \<Rightarrow> (case lookup_unsafe rep parent of Inl _ \<Rightarrow> next_layer
          | Inr meta \<Rightarrow> if md_block_number meta > height then next_layer @ [(v, meta)] else next_layer))"
      have nl: "layer_ok f (latest_message_hash rep) nl \<and> list_all (\<lambda>(v, m). height < md_block_number m \<and> md_block_number m < k) nl"
      proof (cases "nl = next_layer")
        case False
        then obtain p ps mp where p: "md_parents m = p # ps" "lookup_unsafe rep p = Inr mp" "height < md_block_number mp" "nl = next_layer @ [(v, mp)]"
          by (auto simp: nl_def split: list.splits sum.splits if_splits)
        note mp = final_viewD(2) [OF assms p(2)]
        have "md_block_number mp < k" using final_viewD(3) [OF assms m(1) p(1)] mp m(3) by fastforce
        moreover have "agrees_on f (latest_message_hash rep) v (md_block_hash mp)"
          using agrees_on_parent [OF m(2)] main_parent_step [of f "md_block_hash m" m p ps] m(1) p(1) mp by simp
        ultimately show ?thesis using Cons.prems(3,6) p(3,4) mp by (simp add: layer_ok_def)
      qed (use Cons.prems(3,6) in simp)
      have "process_layer clock rep height layer (aggregate agg v m wm) nl (Suc n) = (b, agg', next', n')"
        using Cons.prems(1) False Inr by (simp add: x nl_def)
      from Cons.IH [OF this rest(1) conjunct1 [OF nl] aggregate_sound [OF Cons.prems(4) m(1,2) Inr] rest(2) conjunct2 [OF nl]] show ?thesis .
    qed
  qed
qed simp

lemma agreement_layers_sound:
  assumes "final_view f rep"
  shows "layer_ok f (latest_message_hash rep) layer \<Longrightarrow> agg_sound f rep agg \<Longrightarrow> list_all (\<lambda>(v, m). md_block_number m \<le> height + int k) layer \<Longrightarrow>
    \<exists>agg' n'. agreement_layers clock rep height layer agg n = Some (agg', n') \<and> agg_sound f rep agg'"
proof (induction k arbitrary: layer agg n)
  case 0
  obtain b agg' next' n' where p: "process_layer clock rep height layer agg [] (Suc n) = (b, agg', next', n')" by (metis prod_cases4)
  from process_layer_sound [OF assms this "0.prems"(1) _ "0.prems"(2), of height] "0.prems"(3)
  have r: "agg_sound f rep agg'" "list_all (\<lambda>(v, m). height < md_block_number m \<and> md_block_number m < height) next'" by (auto simp: layer_ok_def)
  have "next' = []"
  proof (rule ccontr)
    assume "next' \<noteq> []"
    then obtain x where "x \<in> set next'" by (meson last_in_set)
    then have "height < md_block_number (snd x) \<and> md_block_number (snd x) < height" using r(2) by (auto simp: list_all_iff)
    then show False by linarith
  qed
  then show ?case using p r(1) "0.prems"(2) by (subst agreement_layers.simps) simp
next
  case (Suc k)
  obtain b agg' next' n' where p: "process_layer clock rep height layer agg [] (Suc n) = (b, agg', next', n')" by (metis prod_cases4)
  from process_layer_sound [OF assms this Suc.prems(1) _ Suc.prems(2,3)]
  have r: "agg_sound f rep agg'" "layer_ok f (latest_message_hash rep) next'"
    "list_all (\<lambda>(v, m). height < md_block_number m \<and> md_block_number m < height + int (Suc k)) next'" by (auto simp: layer_ok_def)
  have "list_all (\<lambda>(v, m). md_block_number m \<le> height + int k) next'" using r(3) by (auto simp: list_all_iff)
  from Suc.IH [OF r(2,1) this] show ?case using p r(1) Suc.prems(2) by (subst agreement_layers.simps) auto
qed

subsection \<open>Candidates\<close>

definition bonds_ok :: "metas \<Rightarrow> bool" where
  "bonds_ok f \<longleftrightarrow> (\<forall>h m. f h = Some m \<longrightarrow> stakes_ok (md_weight_map m) \<and> 0 < sum_list (map snd (md_weight_map m)))"

lemma judging_bonds:
  assumes "oracle_view f rep" "bonds_ok f" "f h = Some m" "get_corresponding_weight_map h rep = Inr wm"
    "lookup rep = f"
  shows "judging_stakes f h = Some wm" "stakes_ok wm" "0 < sum_list (map snd wm)"
proof -
  have lk: "lookup_unsafe rep x = Inr y \<longleftrightarrow> f x = Some y" for x y
    using assms(5) by (simp add: lookup_unsafe_def split: option.splits)
  have cases: "\<exists>x y. f x = Some y \<and> wm = md_weight_map y \<and> judging_stakes f h = Some wm"
  proof (cases "md_parents m")
    case Nil
    then show ?thesis
      using assms(3,4) by (intro exI [of _ h] exI [of _ m]) (simp add: get_corresponding_weight_map_def judging_stakes_def lk [THEN iffD2])
  next
    case (Cons p ps)
    then obtain mp where "f p = Some mp" "wm = md_weight_map mp"
      using assms(3,4) lk by (auto simp: get_corresponding_weight_map_def lk [THEN iffD2] rbind_eq_Inr)
    then show ?thesis using Cons assms(3) by (intro exI [of _ p] exI [of _ mp]) (simp add: judging_stakes_def)
  qed
  then show "judging_stakes f h = Some wm" by blast
  from cases obtain x y where "f x = Some y" "wm = md_weight_map y" by blast
  then show "stakes_ok wm" "0 < sum_list (map snd wm)" using assms(2) unfolding bonds_ok_def by blast+
qed

lemma sub_stakes_ok:
  assumes "stakes_ok ws'" "hm_ok ws" "\<And>v x. hm_get ws v = Some x \<Longrightarrow> hm_get ws' v = Some x"
  shows "stakes_ok ws"
proof -
  have nn: "list_all (\<lambda>w. 0 \<le> w) (map snd ws)"
    unfolding list_all_iff
  proof
    fix w assume "w \<in> set (map snd ws)"
    then obtain v where "(v, w) \<in> set ws" by auto
    then have "hm_get ws v = Some w" using assms(2) by (simp add: hm_ok_def)
    from map_of_SomeD [OF assms(3) [OF this]] show "0 \<le> w" using assms(1) by (force simp: stakes_ok_def list_all_iff)
  qed
  have sub: "set ws \<subseteq> set ws'"
  proof
    fix x assume "x \<in> set ws"
    then have "hm_get ws (fst x) = Some (snd x)" using assms(2) by (simp add: hm_ok_def)
    from map_of_SomeD [OF assms(3) [OF this]] show "x \<in> set ws'" by simp
  qed
  have d: "distinct ws" "distinct ws'" using assms(1,2) by (auto simp: stakes_ok_def hm_ok_def distinct_map)
  have "sum_list (map snd ws) = sum snd (set ws)" "sum_list (map snd ws') = sum snd (set ws')"
    using d by (simp_all add: sum_list_distinct_conv_sum_set)
  moreover have "sum snd (set ws) \<le> sum snd (set ws')"
    using sub assms(1) by (intro sum_mono2) (auto simp: stakes_ok_def list_all_iff)
  ultimately show ?thesis using nn assms(1,2) by (simp add: stakes_ok_def)
qed

text \<open>The tolerance computed for a part of the agreeing stake is at most the fault tolerance of the block.\<close>

definition above_threshold :: "dag_representation \<Rightarrow> rat \<Rightarrow> hash \<Rightarrow> rat \<Rightarrow> bool" where
  "above_threshold rep threshold h ft \<longleftrightarrow>
     threshold < ft \<and> (\<exists>ft'. normalized_fault_tolerance h rep = Some (Inr ft') \<and> ft \<le> ft')"

lemma candidate_tolerance:
  assumes s: "storage_ok s" "get_representation s = Inr rep" "heights_descend (metas s)" "justified (metas s)" "bonds_ok (metas s)"
    and e: "entry_sound (metas s) rep h (m, wm, agreeing)" and c: "run_cache_ok (metas s) rep c"
  obtains ft c' ft' where "compute_output_with_cache h wm agreeing rep c = Some (Inr ft, c')"
    "run_cache_ok (metas s) rep c'" "normalized_fault_tolerance h rep = Some (Inr ft')" "ft \<le> ft'"
proof -
  let ?f = "metas s" and ?latest = "latest_message_hash rep"
  note view = storage_view [OF s(1-4)]
  have lk: "lookup rep = metas s" using lookup_rep [OF _ s(2)] s(1) by (auto simp: storage_ok_def)
  have h: "?f h = Some m" "get_corresponding_weight_map h rep = Inr wm" "hm_ok agreeing"
    and ag: "\<And>v w. hm_get agreeing v = Some w \<Longrightarrow> hm_get wm v = Some w \<and> agrees_on ?f ?latest v h"
    using e unfolding entry_sound_def by auto
  note wm = judging_bonds [OF view s(5) h(1,2) lk]
  define all where "all = agreeing_stakes ?f ?latest h wm"
  have get_all: "hm_get all v = (if agrees_on ?f ?latest v h then hm_get wm v else None)" for v
    unfolding all_def agreeing_stakes_def filter_keys_get agrees_on_def by (simp split: option.splits)
  have all_ok: "stakes_ok all" "sum_list (map snd all) \<le> sum_list (map snd wm)"
    unfolding all_def agreeing_stakes_def using stakes_ok_filter [OF wm(2)] by blast+
  have sub: "\<And>v x. hm_get agreeing v = Some x \<Longrightarrow> hm_get all v = Some x" using ag by (simp add: get_all)
  have ok: "stakes_ok agreeing" by (rule sub_stakes_ok [OF all_ok(1) h(3) sub])
  let ?H = "heaviest_agreement ?f ?latest h"
  have t: "?f h \<noteq> None" using h(1) by simp
  obtain c' where 1: "compute_output_with_cache h wm agreeing rep c =
      Some (Inr (tolerance (sum_list (map snd wm)) (sum_list (map snd agreeing)) (?H agreeing)), c')" "run_cache_ok ?f rep c'"
    using compute_output_ok [OF view t c wm(2,3) ok] by blast
  have 2: "normalized_fault_tolerance h rep =
      Some (Inr (tolerance (sum_list (map snd wm)) (sum_list (map snd all)) (?H all)))"
    using fault_tolerance_found [OF s(1-4) wm] unfolding Let_def all_def by blast
  have "tolerance (sum_list (map snd wm)) (sum_list (map snd agreeing)) (?H agreeing)
      \<le> tolerance (sum_list (map snd wm)) (sum_list (map snd all)) (?H all)"
    using heaviest_agreement_mono [OF ok all_ok(1) sub] wm(3) heaviest_agreement_bounds(1) [OF ok]
      order_trans [OF heaviest_agreement_bounds(2) [OF all_ok(1)] all_ok(2)]
    by (intro tolerance_mono) blast+
  then show thesis using that [OF 1 2] by blast
qed

definition clock_ok :: "metas \<Rightarrow> dag_representation \<Rightarrow> run_clock \<Rightarrow> bool" where
  "clock_ok f rep clock \<longleftrightarrow> (\<forall>k c c'. timed_out clock k c = Some c' \<longrightarrow> run_cache_ok f rep c \<longrightarrow> run_cache_ok f rep c')"

text \<open>What a search may return: nothing, a block above the threshold, or the error of the effect on such a block.\<close>

definition search_result ::
  "dag_representation \<Rightarrow> rat \<Rightarrow> (hash \<times> rat \<Rightarrow> ('s, kv_store_error, unit) sm) \<Rightarrow> 's \<Rightarrow>
   (kv_store_error, (hash \<times> rat) option) res \<times> 's \<Rightarrow> bool" where
  "search_result rep threshold effect st res \<longleftrightarrow> (case res of
     (Inr None, st') \<Rightarrow> st' = st
   | (Inr (Some (h, ft)), st') \<Rightarrow> above_threshold rep threshold h ft
       \<and> (if is_finalized rep h then st' = st else \<exists>u. effect (h, ft) st = (Inr u, st'))
   | (Inl e, st') \<Rightarrow> \<exists>h ft. above_threshold rep threshold h ft \<and> \<not> is_finalized rep h \<and> effect (h, ft) st = (Inl e, st'))"

lemma select_candidate_ok:
  assumes s: "storage_ok s" "get_representation s = Inr rep" "heights_descend (metas s)" "justified (metas s)" "bonds_ok (metas s)"
    and clock: "clock_ok (metas s) rep clock"
  shows "list_all (\<lambda>e. entry_sound (metas s) rep (md_block_hash (fst e)) e) cs \<Longrightarrow> run_cache_ok (metas s) rep c \<Longrightarrow>
    \<exists>res. select_candidate clock rep threshold effect cs n k c st = Some res \<and> search_result rep threshold effect st res"
proof (induction cs arbitrary: n k c)
  case (Cons x cs)
  obtain m wm ag where x: "x = (m, wm, ag)" by (rule prod_cases3)
  have cs: "list_all (\<lambda>e. entry_sound (metas s) rep (md_block_hash (fst e)) e) cs"
    and m: "entry_sound (metas s) rep (md_block_hash m) (m, wm, ag)" using Cons.prems(1) by (simp_all add: x)
  note IH = Cons.IH [OF cs]
  obtain ft c' ft' where ft: "compute_output_with_cache (md_block_hash m) wm ag rep c = Some (Inr ft, c')" "run_cache_ok (metas s) rep c'"
    "normalized_fault_tolerance (md_block_hash m) rep = Some (Inr ft')" "ft \<le> ft'"
    using candidate_tolerance [OF s m Cons.prems(2)] by blast
  consider (stop) "exhausted clock n"
    | (prune) "\<not> exhausted clock n" "fault_tolerance_upper_bound wm ag \<le> threshold"
    | (timeout) c1 where "\<not> exhausted clock n" "\<not> fault_tolerance_upper_bound wm ag \<le> threshold" "timed_out clock k c = Some c1"
    | (run) "\<not> exhausted clock n" "\<not> fault_tolerance_upper_bound wm ag \<le> threshold" "timed_out clock k c = None"
    by blast
  then show ?case
  proof cases
    case stop
    then show ?thesis by (simp add: x search_result_def)
  next
    case prune
    then show ?thesis using IH [OF Cons.prems(2)] by (simp add: x)
  next
    case timeout
    then show ?thesis using IH [of c1] clock Cons.prems(2) unfolding clock_ok_def by (simp add: x)
  next
    case run
    show ?thesis
    proof (cases "threshold < ft")
      case True
      then have above: "above_threshold rep threshold (md_block_hash m) ft" using ft(3,4) by (auto simp: above_threshold_def)
      obtain r st' where eff: "effect (md_block_hash m, ft) st = (r, st')" by fastforce
      show ?thesis using run True above eff by (cases r) (auto simp: x ft(1) search_result_def Let_def)
    next
      case False
      then show ?thesis using run IH [OF ft(2)] by (simp add: x ft(1))
    qed
  qed
qed (simp add: search_result_def)

subsection \<open>The search\<close>

lemma latest_layer:
  assumes "final_view f rep" "hm_ok (rep_latest_messages rep)"
  shows "\<exists>lms. latest_messages rep = Inr lms \<and> layer_ok f (latest_message_hash rep) lms"
proof -
  have known: "\<exists>m. lookup_unsafe rep h = Inr m \<and> f h = Some m \<and> md_block_hash m = h \<and> latest_message_hash rep v = Some h"
    if "(v, h) \<in> set (rep_latest_messages rep)" for v h
  proof -
    have l: "latest_message_hash rep v = Some h" using that assms(2) by (simp add: latest_message_hash_def hm_ok_def)
    then obtain m where "f h = Some m" using oracle_viewD(4) [OF final_viewD(1) [OF assms(1)]] by blast
    moreover from this have "lookup_unsafe rep h = Inr m" using oracle_viewD(1) [OF final_viewD(1) [OF assms(1)]] by blast
    ultimately show ?thesis using final_viewD(2) [OF assms(1)] l by blast
  qed
  have "\<exists>r'. fold_res (\<lambda>r (v, h). rbind (lookup_unsafe rep h) (\<lambda>m. Inr (hm_put v m r))) r ls = Inr r'
      \<and> layer_ok f (latest_message_hash rep) r'"
    if "layer_ok f (latest_message_hash rep) r" "set ls \<subseteq> set (rep_latest_messages rep)" for r ls
    using that
  proof (induction ls arbitrary: r)
    case (Cons x ls)
    obtain v h where x: "x = (v, h)" by (cases x)
    obtain m where m: "lookup_unsafe rep h = Inr m" "f h = Some m" "md_block_hash m = h" "latest_message_hash rep v = Some h"
      using known [of v h] Cons.prems(2) by (auto simp: x)
    have "layer_ok f (latest_message_hash rep) (hm_put v m r)"
      using Cons.prems(1) set_update_subset [of v m r] m unfolding layer_ok_def list_all_iff agrees_on_def by fastforce
    from Cons.IH [OF this] Cons.prems(2) show ?case by (simp add: x m(1))
  qed simp
  from this [of "[]" "rep_latest_messages rep"] show ?thesis by (simp add: latest_messages_def layer_ok_def)
qed

lemma layer_bound: "\<exists>k. list_all (\<lambda>(v, m). md_block_number m \<le> height + int k) layer"
proof (induction layer)
  case (Cons x layer)
  then obtain k where k: "list_all (\<lambda>(v, m). md_block_number m \<le> height + int k) layer" by blast
  let ?k = "max k (nat (md_block_number (snd x) - height))"
  have "list_all (\<lambda>(v, m). md_block_number m \<le> height + int ?k) (x # layer)" using k by (fastforce simp: list_all_iff)
  then show ?case by blast
qed simp

lemma capped_sound:
  assumes "agg_sound f rep agg"
  shows "list_all (\<lambda>e. entry_sound f rep (md_block_hash (fst e)) e) (capped_agreements agg)"
proof -
  have "entry_sound f rep (md_block_hash (fst e)) e" if "(h, e) \<in> set agg" for h e
    using assms that unfolding agg_sound_def by (cases e) (auto simp: entry_sound_def)
  then show ?thesis by (auto simp: list_all_iff capped_agreements_def dest!: in_set_takeD)
qed

lemma storage_final_view:
  assumes "storage_ok s" "get_representation s = Inr rep" "heights_descend (metas s)" "justified (metas s)"
  shows "final_view (metas s) rep"
proof -
  have "keys_ok (metas s)" using assms(1) by (simp add: storage_ok_def store_ok_def)
  moreover have "lookup rep = metas s" using lookup_rep [OF _ assms(2)] assms(1) by (auto simp: storage_ok_def)
  ultimately show ?thesis unfolding final_view_def using storage_view [OF assms] assms(3) by blast
qed

text \<open>C32. The search for the next last finalized block ends, whatever the clock does. When it reports a block, the tolerance it
  reports is above the threshold and at most the block's fault tolerance; the effect ran once, on that block, unless the block
  was finalized already. Without a block nothing changed, and the only error is that of the effect. Running out of the budget or of
  the time of a step can only make the search report less. The DAG is a stored one with heights that fall along main parents,
  justifications that are known and go back in time for a validator's own messages, and bonds that are not negative and whose sum is
  positive and fits an \<open>i64\<close>; an interrupted run of the oracle leaves only correct entries in its cache.\<close>

theorem finalizer_sound:
  assumes "storage_ok s" "get_representation s = Inr rep" "heights_descend (metas s)" "justified (metas s)" "bonds_ok (metas s)"
    and "hm_ok (latest_messages_index s)" "clock_ok (metas s) rep clock"
  shows "\<exists>res. finalizer_run clock rep threshold curr_lfb_height effect st = Some res
    \<and> (case res of
         (Inr None, st') \<Rightarrow> st' = st
       | (Inr (Some (h, ft)), st') \<Rightarrow> above_threshold rep threshold h ft
           \<and> (if is_finalized rep h then st' = st else \<exists>u. effect (h, ft) st = (Inr u, st'))
       | (Inl e, st') \<Rightarrow> \<exists>h ft. above_threshold rep threshold h ft \<and> \<not> is_finalized rep h \<and> effect (h, ft) st = (Inl e, st'))"
proof -
  note view = storage_final_view [OF assms(1-4)]
  have "rep_latest_messages rep = latest_messages_index s"
    using representation_ok [of s] assms(1,2) by (auto simp: storage_ok_def)
  then obtain lms where lms: "latest_messages rep = Inr lms" "layer_ok (metas s) (latest_message_hash rep) lms"
    using latest_layer [OF view] assms(6) by auto
  let ?layer = "sort_by (\<lambda>a b. cmp (fst a) (fst b)) lms"
  have layer: "layer_ok (metas s) (latest_message_hash rep) ?layer" using lms(2) by (simp add: layer_ok_def list_all_iff)
  obtain k where k: "list_all (\<lambda>(v, m). md_block_number m \<le> curr_lfb_height + int k) ?layer" using layer_bound by blast
  have "agg_sound (metas s) rep []" by (simp add: agg_sound_def)
  from agreement_layers_sound [OF view layer this k, of clock 0] obtain agg n where
    agg: "agreement_layers clock rep curr_lfb_height ?layer [] 0 = Some (agg, n)" "agg_sound (metas s) rep agg" by blast
  have run: "finalizer_run clock rep threshold curr_lfb_height effect st =
      select_candidate clock rep threshold effect (capped_agreements agg) n 0 new_run_cache st"
    by (simp add: finalizer_run_def lms(1) agg(1))
  show ?thesis
    unfolding run by (rule select_candidate_ok [OF assms(1-5,7) capped_sound [OF agg(2)] new_run_cache_ok, unfolded search_result_def])
qed

lemma demo_chain_bonds: "bonds_ok (metas demo_chain_storage)"
proof -
  have "md_weight_map m = [([1], 3), ([2], 2)]" if "(h, m) \<in> set demo_chain_metas" for h m
    using that by (auto simp: demo_chain_metas_def demo_meta_def)
  then have "metas demo_chain_storage h = Some m \<Longrightarrow> md_weight_map m = [([1], 3), ([2], 2)]" for h m
    by (auto simp: demo_chain_storage_def demo_chain_get)
  then show ?thesis unfolding bonds_ok_def using demo_chain_stakes(2) by simp
qed

definition demo_clock :: run_clock where
  "demo_clock = \<lparr>exhausted = (\<lambda>n. 100 < n), timed_out = (\<lambda>k c. None)\<rparr>"

lemma demo_run_code:
  "case finalizer_run demo_clock demo_chain_rep (1 / 2) 0 (\<lambda>x st. (Inr (), x # st)) [] of
     Some (Inr (Some (h, ft)), st) \<Rightarrow> h = demo_hash 4 \<and> st = [(h, ft)] | _ \<Rightarrow> False"
  by code_simp

lemma run_found:
  assumes "case x of Some (Inr (Some (h, ft)), st) \<Rightarrow> P h ft st | _ \<Rightarrow> False"
  shows "\<exists>h ft st. x = Some (Inr (Some (h, ft)), st) \<and> P h ft st"
proof -
  obtain r st where x: "x = Some (r, st)" using assms by (cases x) auto
  then obtain h ft where "r = Inr (Some (h, ft))" using assms by (cases r; cases "projr r") auto
  with x assms show ?thesis by simp
qed

theorem finalizer_sound_witness:
  "\<exists>ft. finalizer_run demo_clock demo_chain_rep (1 / 2) 0 (\<lambda>x st. (Inr (), x # st)) [] =
      Some (Inr (Some (demo_hash 4, ft)), [(demo_hash 4, ft)])
    \<and> above_threshold demo_chain_rep (1 / 2) (demo_hash 4) ft"
proof -
  have "hm_ok (latest_messages_index demo_chain_storage)" by (simp add: demo_chain_storage_def hm_ok_def)
  moreover have "clock_ok (metas demo_chain_storage) demo_chain_rep demo_clock" by (simp add: clock_ok_def demo_clock_def)
  moreover obtain ft where "finalizer_run demo_clock demo_chain_rep (1 / 2) 0 (\<lambda>x st. (Inr (), x # st)) [] =
      Some (Inr (Some (demo_hash 4, ft)), [(demo_hash 4, ft)])"
    using run_found [OF demo_run_code] by blast
  ultimately show ?thesis
    using finalizer_sound [OF demo_chain_storage_ok demo_chain_rep demo_chain_justified(2,1) demo_chain_bonds,
        where effect = "\<lambda>x st. (Inr (), x # st)" and st = "[]" and threshold = "1 / 2" and curr_lfb_height = 0 and clock = demo_clock]
    by simp
qed

end
