(* ===== verification/Spec2Isabelle.thy ===== *)
theory Spec2Isabelle
  imports RSpaceCheckpoint MergingRejection StateMerge RholangMergingLogic EventConverter BlockDagFinality DagMergerExamples FinalizerSpec
begin

text \<open>
  A verification development for F1R3FLY, a blockchain node that executes Rholang. It covers
  the tuple space with its history (src/rspace++), the merging of concurrent blocks, the block DAG
  storage, finality, and the messages and random names these parts exchange. Definitions follow the Rust
  code: a struct is a record, an enum a datatype, a method a function on the state; a \<open>HashMap\<close> is an
  association list with distinct keys, a \<open>Result\<close> a sum whose left side is an error value or a panic, a
  loop that could run for ever a \<open>partial_function\<close> into \<open>option\<close> (\<open>None\<close> is not returning). Integers are
  words, or \<open>int\<close> with the wrap-around written out, where overflow matters.

  \<^bold>\<open>The tuple space.\<close> A consume waits on channels for data that match its patterns, a produce puts a datum
  on a channel; a match is a COMM. \<open>RSpace\<close> (rspace.rs) runs them on a hot store in memory over the history
  of a root.
  \<^item> \<open>Prelude\<close>, \<open>HashSets\<close>, \<open>SortBy\<close>, \<open>Traversal\<close>, \<open>Floats\<close>: results, stateful computations, maps,
    sets, sorting by a comparison, walks through a graph, rounding.
  \<^item> \<open>KvStore\<close>, \<open>Errors\<close>, \<open>TypedStore\<close>: the stores (locale \<open>key_value_store\<close>) and error enumerations.
  \<^item> \<open>RadixCodec\<close>, \<open>RadixTree\<close> (radix_tree.rs), \<open>RadixSpec\<close>, \<open>RadixRefine\<close>, \<open>RadixHistory\<close>: the trie of the
    history. Its abstract value is a tree whose reading is a finite map; every operation refines
    the operation on maps, equal content has an equal root hash, and every root stays readable.
  \<^item> \<open>TraceEvent\<close>, \<open>HotStore\<close> (hot_store.rs), \<open>HotStoreSpec\<close>: events and hashes; the hot store refines a
    specification on views, results of the calls included, whatever its cache evicts (locale \<open>hot_store\<close>).
  \<^item> \<open>Serializers\<close>, \<open>HistoryRepository\<close>, \<open>Checkpoint\<close>: leaves, roots, readers, and that a checkpoint of
    the hot store's changes reads back as the store.
  \<^item> \<open>SpaceMatcher\<close>, \<open>RSpace\<close>, \<open>RSpaceSpec\<close>, \<open>RSpaceInvariant\<close>, \<open>RSpaceCorrect\<close>, \<open>RSpaceCheckpoint\<close>: the
    matcher and the operations of the space, their effect on the view, the invariant (joins in step
    with continuations, no enabled COMM left, installs and counters right), checkpoints, resets, and
    what happens to a join that names a channel twice.

  \<^bold>\<open>Merging.\<close> Blocks that extend different parents are merged by rejecting a cheapest set of conflicting
  branches of deploys.
  \<^item> \<open>EventLogIndex\<close>, \<open>MergingLogic\<close>, \<open>MergingSpec\<close>, \<open>MergingRejection\<close> (rspace++ merger): logs, conflict
    and dependency maps equal to the pairwise tests, rejection options as minimal covers.
  \<^item> \<open>StateChange\<close>, \<open>StateChangeSpec\<close>, \<open>StateMerge\<close>: changes between two states and their application.
  \<^item> \<open>RholangMergingLogic\<close>: number channels, merged by addition or bit mask.
  \<^item> \<open>DeployChain\<close>, \<open>ConflictSetMerger\<close>, \<open>ConflictSetSpec\<close>, \<open>DagMerger\<close>, \<open>DagMergerSpec\<close>,
    \<open>DagMergerExamples\<close> (casper merging): chains of deploys, the resolution of conflicts (locale
    \<open>conflict_resolution\<close>), deduplication, the expansion of a rejection and the merged state; no user
    deploy is lost, what is merged is compatible and independent, the resolution is optimal.

  \<^bold>\<open>Blocks and finality.\<close>
  \<^item> \<open>Blake2b512\<close>, \<open>Blake2b512Spec\<close>: the splittable generator of names.
  \<^item> \<open>Signatures\<close>, \<open>CasperMessage\<close>, \<open>EventConverter\<close>: signed deploys, blocks and events with their
    protobuf forms, charges and refunds.
  \<^item> \<open>BlockDag\<close>, \<open>BlockDagSpec\<close>, \<open>BlockDagFinality\<close>: the metadata store and its index, insertion, start-up, the
    walks through the DAG, and the recording of finalized blocks.
  \<^item> \<open>Clique\<close>, \<open>CliqueOracle\<close>, \<open>CliqueOracleSpec\<close>, \<open>Finalizer\<close>, \<open>FinalizerSpec\<close>: the heaviest clique, the
    fault tolerance of a block, and the search for the next last finalized block.

  \<^bold>\<open>Bounds and fuel.\<close> The search for a clique has fuel of one more than the vertices, enough because each
  call moves a vertex into the clique; the other loops have no fuel, and that they end is proved with
  their result.

  \<^bold>\<open>Parameters.\<close> Hash functions, elliptic curves, the matcher of patterns, bincode and protobuf encodings,
  the random order of a shuffle, the clock of the finalizer and what other threads do between two
  critical sections are arguments; theorems name what they rely on (codecs read back what they wrote,
  the hashes that occur do not collide, a shuffle is a permutation, a thread only adds blocks).

  \<^bold>\<open>Simplifications.\<close>
  \<^item> The theorems on sequences of operations of the space ask for distinct channels in a join. The code does
    not check this, and with a repeated channel they fail.
  \<^item> An operation of the space is one step; its two-phase locks are not modelled.
  \<^item> The counters of produces are unbounded integers.
  \<^item> A fault tolerance stored with a block is a rational number; in the oracle and the finalizer each
    operation rounds to \<open>f32\<close> or \<open>f64\<close>, without bounds on the exponent.
  \<^item> A typed store can always be decoded; at start-up the code continues with an empty index when the
    stored metadata cannot be read.
  \<^item> The interference of other threads while a finalization runs is that of its effect; between writing
    the finalized blocks and updating the tolerances there is none.
  \<^item> The caches of the merge, keyed by addresses of chains and branches, and the maps of lookups that a
    search of the finalizer keeps hold results of pure functions and are left out.

  \<^bold>\<open>Not modelled.\<close> The replaying and reporting spaces, state export and import, LMDB, the interpreter of
  Rholang, block proposal, validation and fork choice, networking and the services of the node.
\<close>

text \<open>
  C39. Decoding what \<open>encode\<close> wrote for a node gives the node back, for every node of 256
  well-formed items.
\<close>

theorem codec_roundtrip:
  assumes "node_ok n"
  shows "\<exists>bs. encode n = Inr bs \<and> decode bs = Inr n"
  using assms by (simp add: encode_node_ok decode_encode_bytes)

theorem codec_roundtrip_witness:
  "let n = empty_node[7 := Leaf [1, 2] (replicate 32 5), 9 := NodePtr [] (replicate 32 6)]
   in \<exists>bs. encode n = Inr bs \<and> decode bs = Inr n"
proof -
  have "node_ok (empty_node[7 := Leaf [1, 2] (replicate 32 5), 9 := NodePtr [] (replicate 32 6)])" by code_simp
  from codec_roundtrip [OF this] show ?thesis by (simp only: Let_def)
qed

end
